(* ===== verification/Prelude.thy ===== *)
theory Prelude
  imports Complex_Main "HOL-Library.Word" "HOL-Library.Multiset" "HOL-Library.Char_ord"
    "HOL-Library.List_Lexorder"
begin

text \<open>
  Shared vocabulary of the development: the machine-integer types of the C++ sources, the
  algorithms of the C++ standard library that the sources call on sorted vectors
  (\<open>std::lower_bound\<close>, \<open>std::binary_search\<close>, \<open>std::sort\<close> with a comparator), decimal
  formatting, and the generic list lemmas and fact collections the components share.
\<close>

section \<open>Types and fact collections\<close>

type_synonym u8 = "8 word"
type_synonym u16 = "16 word"
type_synonym u32 = "32 word"
type_synonym u64 = "64 word"

text \<open>Signed integers are words read with \<open>sint\<close>.\<close>

type_synonym i16 = "16 word"
type_synonym i32 = "32 word"

type_synonym bytes = "u8 list"

named_theorems codec_rules \<open>decoding steps of the cache codecs\<close>
named_theorems wire_size \<open>sizes of serialized records\<close>

text \<open>Formatting of a \<open>size_t\<close> by \<open>std::format("{}", n)\<close>: decimal, most significant first.\<close>

definition digit_char :: "nat \<Rightarrow> char" where
  "digit_char d = char_of (48 + d)"

fun dec_of_nat :: "nat \<Rightarrow> string" where
  "dec_of_nat n = (if n < 10 then [digit_char n] else dec_of_nat (n div 10) @ [digit_char (n mod 10)])"

declare dec_of_nat.simps [simp del]

section \<open>Partitioned sequences: lower bound and binary search\<close>

text \<open>
  \<open>std::lower_bound\<close> halves the range \<open>[first, first + cnt)\<close>: it looks at the middle
  element, and keeps the upper half when the predicate \<open>e < key\<close> still holds there.
\<close>

function lower_bound_from :: "('a \<Rightarrow> bool) \<Rightarrow> 'a list \<Rightarrow> nat \<Rightarrow> nat \<Rightarrow> nat" where
  "lower_bound_from p xs first cnt =
     (if cnt = 0 then first
      else let step = cnt div 2; mid = first + step in
        if p (xs ! mid) then lower_bound_from p xs (Suc mid) (cnt - (step + 1))
        else lower_bound_from p xs first step)"
  by pat_completeness auto
termination
  by (relation "measure (\<lambda>(p, xs, first, cnt). cnt)") auto

declare lower_bound_from.simps [simp del]

definition lower_bound :: "('a \<Rightarrow> bool) \<Rightarrow> 'a list \<Rightarrow> nat" where
  "lower_bound p xs = lower_bound_from p xs 0 (length xs)"

text \<open>The precondition of the C++ algorithm: the range is partitioned by the predicate.\<close>

definition partitioned :: "('a \<Rightarrow> bool) \<Rightarrow> 'a list \<Rightarrow> bool" where
  "partitioned p xs \<longleftrightarrow> (\<forall>i j. i \<le> j \<longrightarrow> j < length xs \<longrightarrow> p (xs ! j) \<longrightarrow> p (xs ! i))"

lemma lower_bound_from_correct:
  assumes "partitioned p xs" and "first + cnt \<le> length xs"
    and "\<forall>i < first. p (xs ! i)"
    and "\<forall>i. first + cnt \<le> i \<longrightarrow> i < length xs \<longrightarrow> \<not> p (xs ! i)"
  shows "lower_bound_from p xs first cnt \<le> length xs
    \<and> (\<forall>i < lower_bound_from p xs first cnt. p (xs ! i))
    \<and> (\<forall>i. lower_bound_from p xs first cnt \<le> i \<longrightarrow> i < length xs \<longrightarrow> \<not> p (xs ! i))"
  using assms
proof (induction p xs first cnt rule: lower_bound_from.induct)
  case (1 p xs first cnt)
  let ?step = "cnt div 2" and ?mid = "first + cnt div 2"
  show ?case
  proof (cases "cnt = 0")
    case True
    with "1.prems" show ?thesis by (simp add: lower_bound_from.simps)
  next
    case nz: False
    have mid: "?mid < length xs" using nz "1.prems"(2) by linarith
    show ?thesis
    proof (cases "p (xs ! ?mid)")
      case True
      have low: "\<forall>i < Suc ?mid. p (xs ! i)"
        using True mid "1.prems"(1) unfolding partitioned_def by (auto simp: less_Suc_eq_le)
      have rng: "Suc ?mid + (cnt - (?step + 1)) = first + cnt" using nz by simp
      from "1.IH"(1)[OF nz refl refl True "1.prems"(1)] low rng "1.prems" 
      show ?thesis using nz True by (simp add: lower_bound_from.simps [of p xs first cnt] Let_def)
    next
      case False
      have high: "\<forall>i. ?mid \<le> i \<longrightarrow> i < length xs \<longrightarrow> \<not> p (xs ! i)"
        using False "1.prems"(1) unfolding partitioned_def by blast
      have rng: "first + ?step \<le> length xs" using "1.prems"(2) by linarith
      from "1.IH"(2)[OF nz refl refl False "1.prems"(1) rng "1.prems"(3)] high
      show ?thesis using nz False by (simp add: lower_bound_from.simps [of p xs first cnt] Let_def)
    qed
  qed
qed

lemma lower_bound_partition:
  assumes "partitioned p xs"
  shows "lower_bound p xs \<le> length xs"
    and "i < lower_bound p xs \<Longrightarrow> p (xs ! i)"
    and "lower_bound p xs \<le> i \<Longrightarrow> i < length xs \<Longrightarrow> \<not> p (xs ! i)"
  using lower_bound_from_correct [of p xs 0 "length xs"] assms
  by (auto simp: lower_bound_def)

lemma lower_bound_eq_takeWhile:
  assumes "partitioned p xs"
  shows "lower_bound p xs = length (takeWhile p xs)"
proof -
  let ?n = "lower_bound p xs"
  have tw: "takeWhile p xs = take ?n xs"
  proof (rule takeWhile_eq_take_P_nth)
    show "\<And>i. i < ?n \<Longrightarrow> i < length xs \<Longrightarrow> p (xs ! i)"
      using lower_bound_partition(2)[OF assms] by blast
    show "?n < length xs \<Longrightarrow> \<not> p (xs ! ?n)"
      using lower_bound_partition(3)[OF assms] by blast
  qed
  show ?thesis using lower_bound_partition(1)[OF assms] by (simp add: tw)
qed

lemma partitioned_sorted:
  fixes k :: "'a :: linorder"
  shows
  "sorted xs \<Longrightarrow> partitioned (\<lambda>e. e < k) xs"
  unfolding partitioned_def by (metis order.strict_trans1 sorted_nth_mono)

definition binary_search :: "'a::linorder list \<Rightarrow> 'a \<Rightarrow> bool" where
  "binary_search xs k =
     (let i = lower_bound (\<lambda>e. e < k) xs in i < length xs \<and> \<not> k < xs ! i)"

lemma binary_search_iff_mem:
  assumes "sorted xs"
  shows "binary_search xs k \<longleftrightarrow> k \<in> set xs"
proof
  let ?i = "lower_bound (\<lambda>e. e < k) xs"
  note part = lower_bound_partition [OF partitioned_sorted [OF assms, of k]]
  assume "binary_search xs k"
  then have "?i < length xs" "\<not> k < xs ! ?i" by (simp_all add: binary_search_def Let_def)
  with part(3)[of ?i] have "xs ! ?i = k" by simp
  with \<open>?i < length xs\<close> show "k \<in> set xs" by (metis nth_mem)
next
  let ?i = "lower_bound (\<lambda>e. e < k) xs"
  note part = lower_bound_partition [OF partitioned_sorted [OF assms, of k]]
  assume "k \<in> set xs"
  then obtain j where j: "j < length xs" "xs ! j = k" by (auto simp: in_set_conv_nth)
  then have le: "?i \<le> j" using part(2)[of j] by (meson not_le order_less_irrefl)
  then have "xs ! ?i \<le> k" using assms j sorted_nth_mono by blast
  with le j show "binary_search xs k" by (auto simp: binary_search_def Let_def)
qed

section \<open>Sorting by a comparator\<close>

text \<open>
  \<open>std::sort\<close> with a comparator. The order of equivalent elements is not specified by the
  standard; the model keeps them in input order.
\<close>

fun insert_by :: "('a \<Rightarrow> 'a \<Rightarrow> bool) \<Rightarrow> 'a \<Rightarrow> 'a list \<Rightarrow> 'a list" where
  "insert_by lt x [] = [x]"
| "insert_by lt x (y # ys) = (if lt y x then y # insert_by lt x ys else x # y # ys)"

definition sort_by :: "('a \<Rightarrow> 'a \<Rightarrow> bool) \<Rightarrow> 'a list \<Rightarrow> 'a list" where
  "sort_by lt xs = foldr (insert_by lt) xs []"

lemma mset_insert_by [simp]: "mset (insert_by lt x xs) = add_mset x (mset xs)"
  by (induction xs) auto

lemma mset_sort_by [simp]: "mset (sort_by lt xs) = mset xs"
  unfolding sort_by_def by (induction xs) auto

lemma set_sort_by [simp]: "set (sort_by lt xs) = set xs"
  by (metis mset_sort_by set_mset_mset)

lemma length_sort_by [simp]: "length (sort_by lt xs) = length xs"
  by (metis mset_sort_by size_mset)

lemma set_insert_by [simp]: "set (insert_by lt x xs) = insert x (set xs)"
  by (induction xs) auto

section \<open>Generic list facts\<close>

lemma sorted_remdups_adj_sort: "sorted (remdups_adj (sort xs))"
  by simp

lemma foldl_add_real: "foldl (+) (a :: real) xs = a + sum_list xs"
  by (induction xs arbitrary: a) (auto simp: add.assoc)

lemma takeWhile_dropWhile_span: "takeWhile P xs @ dropWhile P xs = xs"
  by simp

end
