(* ===== verification/Geometry.thy ===== *)
theory Geometry
  imports Prelude
begin

text \<open>
  \<^verbatim>\<open>core/domain/coordinate.h\<close>, \<^verbatim>\<open>core/domain/coordinate.cc\<close> and the projection used by the
  search heuristic (\<^verbatim>\<open>core/graph/astar.cc\<close>). A double is an ideal real here and \<open>kPi\<close> is pi:
  rounding is not modelled. The lemmas show that the haversine distance is the central angle
  between the projected points times the earth radius, and that a chord never exceeds it.
\<close>

section \<open>Coordinates\<close>

text \<open>The representation of a double is a parameter: a real here, a bit pattern in the caches.\<close>

record 'd coordinate =
  latitude :: 'd
  longitude :: 'd

type_synonym point = "real coordinate"

definition earth_radius_nm :: real where
  "earth_radius_nm = 6371.0088 / 1.852"

definition degrees_full_circle :: real where "degrees_full_circle = 360"
definition degrees_half_circle :: real where "degrees_half_circle = 180"

text \<open>\<open>std::atan2\<close>.\<close>

definition atan2 :: "real \<Rightarrow> real \<Rightarrow> real" where
  "atan2 y x =
     (if 0 < x then arctan (y / x)
      else if x < 0 then (if 0 \<le> y then arctan (y / x) + pi else arctan (y / x) - pi)
      else if 0 < y then pi / 2 else if y < 0 then - (pi / 2) else 0)"

definition to_radians :: "real \<Rightarrow> real" where
  "to_radians degrees = degrees * pi / degrees_half_circle"

text \<open>The haversine term \<open>a\<close> and the distance built from it.\<close>

definition haversine :: "point \<Rightarrow> point \<Rightarrow> real" where
  "haversine p q =
     (let lat1 = to_radians (latitude p); lat2 = to_radians (latitude q);
          d_lat = lat2 - lat1; d_lon = to_radians (longitude q - longitude p);
          sin_lat = sin (d_lat / 2); sin_lon = sin (d_lon / 2)
      in sin_lat * sin_lat + cos lat1 * cos lat2 * sin_lon * sin_lon)"

definition distance_to :: "point \<Rightarrow> point \<Rightarrow> real" where
  "distance_to p q =
     (let a = haversine p q; c = 2 * atan2 (sqrt a) (sqrt (max 0 (1 - a)))
      in earth_radius_nm * c)"

definition bearing_to :: "point \<Rightarrow> point \<Rightarrow> real" where
  "bearing_to p q =
     (let lat1 = to_radians (latitude p); lat2 = to_radians (latitude q);
          d_lon = to_radians (longitude q - longitude p);
          y = sin d_lon * cos lat2;
          x = cos lat1 * sin lat2 - sin lat1 * cos lat2 * cos d_lon;
          deg = atan2 y x * degrees_half_circle / pi
      in if deg < 0 then deg + degrees_full_circle else deg)"

section \<open>The unit sphere\<close>

record unit_vec =
  uv_x :: real
  uv_y :: real
  uv_z :: real

definition project_unit_sphere :: "point \<Rightarrow> unit_vec" where
  "project_unit_sphere c =
     (let lat_r = latitude c * pi / degrees_half_circle;
          lon_r = longitude c * pi / degrees_half_circle; cos_lat = cos lat_r
      in \<lparr>uv_x = cos_lat * cos lon_r, uv_y = cos_lat * sin lon_r, uv_z = sin lat_r\<rparr>)"

text \<open>The chord between two projected points, as the heuristic computes it.\<close>

definition chord :: "unit_vec \<Rightarrow> unit_vec \<Rightarrow> real" where
  "chord v g =
     (let dx = uv_x v - uv_x g; dy = uv_y v - uv_y g; dz = uv_z v - uv_z g
      in sqrt (dx * dx + dy * dy + dz * dz))"

lemma earth_radius_pos: "0 < earth_radius_nm"
  by (simp add: earth_radius_nm_def)

lemma chord_nonneg: "0 \<le> chord v g"
  by (simp add: chord_def Let_def)

lemma chord_self [simp]: "chord v v = 0"
  by (simp add: chord_def)

lemma chord_sym: "chord v g = chord g v"
  by (simp add: chord_def Let_def power2_commute power2_eq_square algebra_simps)

text \<open>The triangle inequality for chords, from the one for complex moduli.\<close>

lemma sqrt3_cmod: "sqrt (a * a + b * b + c * c) = cmod (Complex (cmod (Complex a b)) c)"
  by (simp add: cmod_def power2_eq_square)

lemma cmod_Re_mono: "0 \<le> r \<Longrightarrow> r \<le> r' \<Longrightarrow> cmod (Complex r z) \<le> cmod (Complex r' z)"
  unfolding cmod_def by (simp add: power_mono)

lemma chord_triangle: "chord u w \<le> chord u v + chord v w"
proof -
  define a b c where "a = uv_x u - uv_x v" and "b = uv_y u - uv_y v" and "c = uv_z u - uv_z v"
  define a' b' c' where "a' = uv_x v - uv_x w" and "b' = uv_y v - uv_y w" and "c' = uv_z v - uv_z w"
  note defs = a_def b_def c_def a'_def b'_def c'_def
  have eqs: "chord u v = cmod (Complex (cmod (Complex a b)) c)"
    "chord v w = cmod (Complex (cmod (Complex a' b')) c')"
    "chord u w = cmod (Complex (cmod (Complex (a + a') (b + b'))) (c + c'))"
    by (simp_all add: chord_def Let_def sqrt3_cmod defs)
  have inner: "cmod (Complex (a + a') (b + b')) \<le> cmod (Complex a b) + cmod (Complex a' b')"
    using norm_triangle_ineq [of "Complex a b" "Complex a' b'"] by (simp add: plus_complex.code)
  have "cmod (Complex (cmod (Complex (a + a') (b + b'))) (c + c')) \<le>
      cmod (Complex (cmod (Complex a b) + cmod (Complex a' b')) (c + c'))"
    by (rule cmod_Re_mono [OF norm_ge_zero inner])
  also have "\<dots> \<le> cmod (Complex (cmod (Complex a b)) c) + cmod (Complex (cmod (Complex a' b')) c')"
    using norm_triangle_ineq [of "Complex (cmod (Complex a b)) c" "Complex (cmod (Complex a' b')) c'"]
    by (simp add: plus_complex.code)
  finally show ?thesis by (simp add: eqs)
qed

section \<open>The haversine identity\<close>

lemma sphere_identity:
  "cos a * cos c * (cos a * cos c) + cos a * sin c * (cos a * sin c) + sin a * sin a = (1 :: real)"
proof -
  have "cos a * cos c * (cos a * cos c) + cos a * sin c * (cos a * sin c) + sin a * sin a =
      (cos a)\<^sup>2 * ((cos c)\<^sup>2 + (sin c)\<^sup>2) + (sin a)\<^sup>2"
    by algebra
  also have "\<dots> = 1" by simp
  finally show ?thesis .
qed

lemma sin_half_sq: "sin (x / 2) * sin (x / 2) = (1 - cos x) / (2 :: real)"
  using cos_double_sin [of "x / 2"] by (simp add: power2_eq_square)

text \<open>The haversine term is a quarter of the squared chord.\<close>

lemma haversine_chord:
  "4 * haversine p q = (chord (project_unit_sphere p) (project_unit_sphere q))\<^sup>2"
proof -
  define a b c d where "a = latitude p * pi / 180" and "b = latitude q * pi / 180"
    and "c = longitude p * pi / 180" and "d = longitude q * pi / 180"
  have cs: "cos b * cos a + sin b * sin a = cos (b - a)" "cos d * cos c + sin d * sin c = cos (d - c)"
    by (simp_all add: cos_diff)
  have rad: "to_radians (longitude q - longitude p) = d - c" "to_radians (latitude p) = a"
    "to_radians (latitude q) = b"
    by (simp_all add: to_radians_def degrees_half_circle_def a_def b_def c_def d_def
        algebra_simps diff_divide_distrib)
  have h: "haversine p q = (1 - cos (b - a)) / 2 + cos a * cos b * ((1 - cos (d - c)) / 2)"
    unfolding haversine_def Let_def rad
    by (simp only: mult.assoc [of "cos a * cos b"] sin_half_sq)
  have "(chord (project_unit_sphere p) (project_unit_sphere q))\<^sup>2 =
      (cos a * cos c - cos b * cos d)\<^sup>2 + (cos a * sin c - cos b * sin d)\<^sup>2 + (sin a - sin b)\<^sup>2"
    unfolding chord_def project_unit_sphere_def Let_def degrees_half_circle_def
    by (simp add: a_def b_def c_def d_def power2_eq_square real_sqrt_mult_self sum_squares_ge_zero)
  also have "\<dots> = (cos a)\<^sup>2 * ((cos c)\<^sup>2 + (sin c)\<^sup>2) + (cos b)\<^sup>2 * ((cos d)\<^sup>2 + (sin d)\<^sup>2)
      + (sin a)\<^sup>2 + (sin b)\<^sup>2 - 2 * (cos a * cos b * (cos d * cos c + sin d * sin c)) - 2 * (sin a * sin b)"
    by algebra
  also have "\<dots> = 2 - 2 * (cos a * cos b * cos (d - c)) - 2 * (sin a * sin b)"
    unfolding cs sin_cos_squared_add2 mult_1_right
    using sin_cos_squared_add [of a] sin_cos_squared_add [of b] by linarith
  also have "\<dots> = 4 * haversine p q"
    unfolding h cos_diff [of b a] by (simp add: field_simps)
  finally show ?thesis by simp
qed

lemma chord_le_2: "chord (project_unit_sphere p) (project_unit_sphere q) \<le> 2"
proof -
  have origin: "chord (project_unit_sphere r) \<lparr>uv_x = 0, uv_y = 0, uv_z = 0\<rparr> = 1" for r
    unfolding chord_def project_unit_sphere_def Let_def degrees_half_circle_def
    by (simp add: sphere_identity)
  have "chord (project_unit_sphere p) (project_unit_sphere q) \<le>
      chord (project_unit_sphere p) \<lparr>uv_x = 0, uv_y = 0, uv_z = 0\<rparr> +
      chord \<lparr>uv_x = 0, uv_y = 0, uv_z = 0\<rparr> (project_unit_sphere q)"
    by (rule chord_triangle)
  then show ?thesis
    using origin [of p] origin [of q] chord_sym [of "project_unit_sphere q"] by simp
qed

lemma haversine_bounds: "0 \<le> haversine p q" "haversine p q \<le> 1"
proof -
  show "0 \<le> haversine p q" using haversine_chord [of p q] by (metis mult_nonneg_nonneg not_le_imp_less
    zero_le_power2 zero_less_numeral mult_pos_neg order_less_le_trans order_less_irrefl)
  have "(chord (project_unit_sphere p) (project_unit_sphere q))\<^sup>2 \<le> 2\<^sup>2"
    by (rule power_mono [OF chord_le_2 chord_nonneg])
  then show "haversine p q \<le> 1" using haversine_chord [of p q] by simp
qed

lemma chord_eq_sqrt: "chord (project_unit_sphere p) (project_unit_sphere q) = 2 * sqrt (haversine p q)"
proof -
  have "(2 * sqrt (haversine p q))\<^sup>2 = (chord (project_unit_sphere p) (project_unit_sphere q))\<^sup>2"
    using haversine_chord [of p q] haversine_bounds(1) [of p q] by (simp add: power_mult_distrib)
  from power2_eq_imp_eq [OF this [symmetric] chord_nonneg] show ?thesis
    using haversine_bounds(1) [of p q] by simp
qed

text \<open>\<open>atan2\<close> on the unit quarter circle: the angle whose sine is the first argument.\<close>

lemma atan2_quarter:
  assumes "0 \<le> s" "0 \<le> c" "s\<^sup>2 + c\<^sup>2 = 1"
  shows "0 \<le> atan2 s c" "atan2 s c \<le> pi / 2" "sin (atan2 s c) = s" "cos (atan2 s c) = c"
proof -
  have "0 \<le> atan2 s c \<and> atan2 s c \<le> pi / 2 \<and> sin (atan2 s c) = s \<and> cos (atan2 s c) = c"
  proof (cases "c = 0")
    case True
    with assms have "s = 1" by (simp add: power2_eq_1_iff)
    with True show ?thesis by (simp add: atan2_def)
  next
    case False
    then have c: "0 < c" using assms by simp
    have "1 + (s / c)\<^sup>2 = 1 / c\<^sup>2"
      using assms(3) c by (simp add: power_divide field_simps)
    then have sq: "sqrt (1 + (s / c)\<^sup>2) = 1 / c"
      using c by (simp add: real_sqrt_divide)
    have "sin (arctan (s / c)) = s" "cos (arctan (s / c)) = c"
      using c by (simp_all add: sin_arctan cos_arctan sq)
    moreover have "0 \<le> arctan (s / c)" "arctan (s / c) \<le> pi / 2"
      using assms c arctan_ubound [of "s / c"] by (simp_all add: less_imp_le)
    ultimately show ?thesis using c by (simp add: atan2_def)
  qed
  then show "0 \<le> atan2 s c" "atan2 s c \<le> pi / 2" "sin (atan2 s c) = s" "cos (atan2 s c) = c" by auto
qed

lemma haversine_angle:
  fixes p q :: point
  defines "t \<equiv> atan2 (sqrt (haversine p q)) (sqrt (max 0 (1 - haversine p q)))"
  shows "0 \<le> t" "t \<le> pi / 2" "sin t = sqrt (haversine p q)" "(cos t)\<^sup>2 = 1 - haversine p q"
proof -
  have "(sqrt (haversine p q))\<^sup>2 + (sqrt (max 0 (1 - haversine p q)))\<^sup>2 = 1"
    using haversine_bounds [of p q] by simp
  from atan2_quarter [OF _ _ this] haversine_bounds [of p q]
  show "0 \<le> t" "t \<le> pi / 2" "sin t = sqrt (haversine p q)" "(cos t)\<^sup>2 = 1 - haversine p q"
    unfolding t_def by simp_all
qed

text \<open>The chord bound: the lower bound the search heuristic rests on.\<close>

lemma chord_le_distance:
  "earth_radius_nm * chord (project_unit_sphere p) (project_unit_sphere q) \<le> distance_to p q"
proof -
  let ?t = "atan2 (sqrt (haversine p q)) (sqrt (max 0 (1 - haversine p q)))"
  have "sqrt (haversine p q) \<le> ?t"
    using haversine_angle(1,3) [of p q] sin_x_le_x [of ?t] by simp
  then have "chord (project_unit_sphere p) (project_unit_sphere q) \<le> 2 * ?t"
    by (simp add: chord_eq_sqrt)
  then show ?thesis
    unfolding distance_to_def Let_def using earth_radius_pos by (simp add: mult_left_mono)
qed

text \<open>The distance is the central angle, measured by the dot product, times the radius.\<close>

definition dot :: "unit_vec \<Rightarrow> unit_vec \<Rightarrow> real" where
  "dot u v = uv_x u * uv_x v + uv_y u * uv_y v + uv_z u * uv_z v"

lemma unit_norm: "dot (project_unit_sphere p) (project_unit_sphere p) = 1"
  unfolding dot_def project_unit_sphere_def Let_def degrees_half_circle_def
  by (simp add: sphere_identity)

lemma chord_dot: "(chord u v)\<^sup>2 = dot u u + dot v v - 2 * dot u v"
proof -
  have "(chord u v)\<^sup>2 = (uv_x u - uv_x v) * (uv_x u - uv_x v) + (uv_y u - uv_y v) * (uv_y u - uv_y v)
      + (uv_z u - uv_z v) * (uv_z u - uv_z v)"
    by (simp add: chord_def Let_def sum_squares_ge_zero)
  then show ?thesis by (simp add: dot_def algebra_simps)
qed

lemma distance_to_angle:
  "0 \<le> distance_to p q \<and> distance_to p q \<le> pi * earth_radius_nm \<and>
   cos (distance_to p q / earth_radius_nm) = dot (project_unit_sphere p) (project_unit_sphere q)"
proof -
  let ?t = "atan2 (sqrt (haversine p q)) (sqrt (max 0 (1 - haversine p q)))"
  have d: "distance_to p q = earth_radius_nm * (2 * ?t)" by (simp add: distance_to_def Let_def)
  have "cos (2 * ?t) = 1 - 2 * haversine p q"
    using haversine_angle(4) [of p q] cos_double_cos [of ?t] by simp
  also have "\<dots> = dot (project_unit_sphere p) (project_unit_sphere q)"
    using haversine_chord [of p q] by (simp add: chord_dot unit_norm)
  finally have "cos (distance_to p q / earth_radius_nm) = dot (project_unit_sphere p) (project_unit_sphere q)"
    using earth_radius_pos by (simp add: d)
  moreover have "0 \<le> distance_to p q" "distance_to p q \<le> pi * earth_radius_nm"
    using haversine_angle(1,2) [of p q] earth_radius_pos by (simp_all add: d mult.commute)
  ultimately show ?thesis by blast
qed

lemma distance_to_sym: "distance_to p q = distance_to q p"
proof -
  have "haversine p q = haversine q p"
    using haversine_chord [of p q] haversine_chord [of q p] by (simp add: chord_sym)
  then show ?thesis by (simp add: distance_to_def)
qed

lemma distance_to_self [simp]: "distance_to p p = 0"
proof -
  have "haversine p p = 0" using haversine_chord [of p p] by simp
  then show ?thesis by (simp add: distance_to_def atan2_def)
qed

section \<open>Bearings\<close>

lemma atan2_range: "- pi < atan2 y x" "atan2 y x \<le> pi"
proof -
  have "- (pi / 2) < arctan (y / x)" "arctan (y / x) < pi / 2"
    using arctan_bounded [of "y / x"] by auto
  moreover have "x < 0 \<Longrightarrow> 0 \<le> y \<Longrightarrow> arctan (y / x) \<le> 0" "x < 0 \<Longrightarrow> y < 0 \<Longrightarrow> 0 < arctan (y / x)"
    by (simp_all add: divide_le_0_iff zero_less_divide_iff)
  ultimately show "- pi < atan2 y x" "atan2 y x \<le> pi"
    using pi_gt_zero unfolding atan2_def by auto
qed

lemma bearing_to_range: "0 \<le> bearing_to p q \<and> bearing_to p q < 360"
proof -
  obtain y x where b: "bearing_to p q = (let deg = atan2 y x * 180 / pi in if deg < 0 then deg + 360 else deg)"
    unfolding bearing_to_def degrees_half_circle_def degrees_full_circle_def Let_def by blast
  have "- 180 < atan2 y x * 180 / pi" "atan2 y x * 180 / pi \<le> 180"
    using atan2_range [of y x] by (simp_all add: pos_divide_le_eq pos_less_divide_eq)
  then show ?thesis unfolding b by (simp add: Let_def)
qed

section \<open>Properties\<close>

text \<open>
  \<open>DistanceTo\<close> is the great-circle distance: the central angle it divides out has as cosine
  the dot product of the two points on the unit sphere and lies between 0 and pi; the chord the
  heuristic uses never exceeds it.
\<close>

theorem distance_is_great_circle:
  "0 \<le> distance_to p q \<and> distance_to p q \<le> pi * earth_radius_nm \<and>
   cos (distance_to p q / earth_radius_nm) = dot (project_unit_sphere p) (project_unit_sphere q) \<and>
   earth_radius_nm * chord (project_unit_sphere p) (project_unit_sphere q) \<le> distance_to p q"
  using distance_to_angle [of p q] chord_le_distance [of p q] by simp

end
