(* ===== verification/TurnPenalty.thy ===== *)
theory TurnPenalty
  imports Geometry
begin

text \<open>
  Turn angles and the piecewise turn penalty (\<^verbatim>\<open>core/graph/astar.h\<close>: \<open>TurnAngleDeg\<close>,
  \<open>TurnPenalty\<close>). The search relies on the penalty being non-negative, and on its bound; that
  it grows with the angle is what makes it a penalty for sharp turns.
\<close>

definition turn_angle_deg :: "real \<Rightarrow> real \<Rightarrow> real" where
  "turn_angle_deg inbound_deg outbound_deg =
     (let delta = \<bar>inbound_deg - outbound_deg\<bar> in
      if degrees_half_circle < delta then degrees_full_circle - delta else delta)"

definition threshold_deg :: real where "threshold_deg = 45"
definition knee_deg :: real where "knee_deg = 90"
definition penalty_at_knee_nm :: real where "penalty_at_knee_nm = 20"
definition max_penalty_nm :: real where "max_penalty_nm = 200"

record turn_penalty =
  tp_enabled :: bool

definition penalty_of :: "turn_penalty \<Rightarrow> real \<Rightarrow> real" where
  "penalty_of t angle_deg =
     (if \<not> tp_enabled t \<or> angle_deg \<le> threshold_deg then 0
      else if angle_deg \<le> knee_deg then
        penalty_at_knee_nm * (angle_deg - threshold_deg) / (knee_deg - threshold_deg)
      else if degrees_half_circle \<le> angle_deg then max_penalty_nm
      else
        let t = (angle_deg - knee_deg) / (degrees_half_circle - knee_deg)
        in penalty_at_knee_nm + (max_penalty_nm - penalty_at_knee_nm) * t * t)"

lemmas turn_defs = threshold_deg_def knee_deg_def penalty_at_knee_nm_def max_penalty_nm_def
  degrees_half_circle_def degrees_full_circle_def

lemma turn_angle_range:
  assumes "0 \<le> a" "a < 360" "0 \<le> b" "b < 360"
  shows "0 \<le> turn_angle_deg a b \<and> turn_angle_deg a b \<le> 180"
  using assms by (auto simp: turn_angle_deg_def turn_defs Let_def)

lemma turn_angle_sym: "turn_angle_deg a b = turn_angle_deg b a"
  by (simp add: turn_angle_deg_def abs_minus_commute)

text \<open>The angle does not depend on where north is: rotating both headings keeps it.\<close>

lemma turn_angle_cos:
  "cos (turn_angle_deg a b * pi / 180) = cos ((a - b) * pi / 180)"
proof -
  have c: "cos (\<bar>a - b\<bar> * pi / 180) = cos ((a - b) * pi / 180)"
  proof -
    have "\<bar>a - b\<bar> * pi / 180 = \<bar>(a - b) * pi / 180\<bar>" by (simp add: abs_mult)
    then show ?thesis by (simp only: cos_abs_real)
  qed
  have "cos ((360 - \<bar>a - b\<bar>) * pi / 180) = cos (2 * pi - \<bar>a - b\<bar> * pi / 180)"
    by (simp add: field_simps)
  also have "\<dots> = cos (\<bar>a - b\<bar> * pi / 180)" by (simp add: cos_diff)
  finally show ?thesis using c by (simp add: turn_angle_deg_def turn_defs Let_def)
qed

lemma penalty_disabled [simp]: "\<not> tp_enabled t \<Longrightarrow> penalty_of t a = 0"
  by (simp add: penalty_of_def)

lemma ramp_bounds:
  fixes a :: real
  assumes "90 \<le> a" "a \<le> 180"
  shows "0 \<le> (a - 90) / 90" "(a - 90) / 90 \<le> 1"
  using assms by simp_all

lemma penalty_quadratic:
  assumes "tp_enabled t" "90 < a" "a < 180"
  shows "penalty_of t a = 20 + 180 * ((a - 90) / 90)\<^sup>2"
  using assms by (simp add: penalty_of_def turn_defs Let_def power2_eq_square)

lemma penalty_bounds: "0 \<le> penalty_of t a \<and> penalty_of t a \<le> max_penalty_nm"
proof (cases "tp_enabled t \<and> 90 < a \<and> a < 180")
  case True
  then have "((a - 90) / 90)\<^sup>2 \<le> 1" using ramp_bounds [of a] by (simp add: power_le_one)
  with True show ?thesis by (simp add: penalty_quadratic max_penalty_nm_def)
next
  case False
  then show ?thesis by (auto simp: penalty_of_def turn_defs Let_def field_simps)
qed

lemma penalty_mono:
  assumes "a \<le> b"
  shows "penalty_of t a \<le> penalty_of t b"
proof (cases "tp_enabled t")
  case True
  note p = penalty_of_def turn_defs
  consider "b \<le> 90" | "90 < b" "a \<le> 90" | "90 < a" "180 \<le> b" | "90 < a" "b < 180" by linarith
  then show ?thesis
  proof cases
    case 1
    then show ?thesis using assms True by (auto simp: p field_simps)
  next
    case 2
    have "penalty_of t a \<le> 20" using 2 by (auto simp: p)
    moreover have "20 \<le> penalty_of t b"
    proof (cases "b < 180")
      case True
      then show ?thesis using 2 \<open>tp_enabled t\<close> by (simp add: penalty_quadratic)
    next
      case False
      then show ?thesis using 2 \<open>tp_enabled t\<close> by (simp add: p)
    qed
    ultimately show ?thesis by simp
  next
    case 3
    then have "penalty_of t b = max_penalty_nm" using True by (simp add: p)
    then show ?thesis using penalty_bounds by simp
  next
    case 4
    then have "((a - 90) / 90)\<^sup>2 \<le> ((b - 90) / 90)\<^sup>2"
      using assms by (intro power_mono) simp_all
    then show ?thesis using 4 assms True by (simp add: penalty_quadratic)
  qed
qed simp

section \<open>Properties\<close>

text \<open>
  For the bearings the code computes the turn angle lies in [0, 180] and is the angle between
  the two headings (same cosine), so a 350-to-10 turn is 20 degrees.
\<close>

theorem turn_angle_normalised:
  "0 \<le> turn_angle_deg (bearing_to p q) (bearing_to r s) \<and>
   turn_angle_deg (bearing_to p q) (bearing_to r s) \<le> 180 \<and>
   cos (turn_angle_deg (bearing_to p q) (bearing_to r s) * pi / 180) =
     cos ((bearing_to p q - bearing_to r s) * pi / 180)"
  using turn_angle_range [of "bearing_to p q" "bearing_to r s"] bearing_to_range [of p q]
    bearing_to_range [of r s] turn_angle_cos by simp

text \<open>
  The turn penalty never decreases with the angle and stays between 0 and 200 NM, through both
  ramps and at the knees, so a sharper turn is never cheaper.
\<close>

theorem turn_penalty_monotone:
  assumes "a \<le> b"
  shows "0 \<le> penalty_of t a \<and> penalty_of t a \<le> penalty_of t b \<and> penalty_of t b \<le> 200"
  using penalty_mono [OF assms] penalty_bounds [of t a] penalty_bounds [of t b]
  by (simp add: max_penalty_nm_def)

lemma turn_penalty_monotone_witness:
  "penalty_of \<lparr>tp_enabled = True\<rparr> 60 \<le> penalty_of \<lparr>tp_enabled = True\<rparr> 135 \<and>
   penalty_of \<lparr>tp_enabled = True\<rparr> 135 = 65"
  using turn_penalty_monotone [of 60 135 "\<lparr>tp_enabled = True\<rparr>"]
  by (simp add: penalty_of_def turn_defs power2_eq_square)

end
