(* ===== verification/Outcome.thy ===== *)
theory Outcome
  imports Prelude
begin

text \<open>
  \<^verbatim>\<open>libs/engine/core/result.h\<close>: error categories, the error value and \<open>Result\<close>. A
  \<open>Result<T>\<close> is a sum with the error on the left; its accessors are total here only where
  the C++ precondition (\<open>has_value()\<close>) is part of the definition.
\<close>

datatype error_code =
    KUnknown | KInvalidArgument | KDataMissing | KParseError | KSerializationError
  | KAirportNotFound | KNoRoute | KRouteParseError | KProcedureNotFound | KCacheCorrupt
  | KFormatMismatch

record error =
  err_code :: error_code
  err_message :: string

definition mk_error :: "error_code \<Rightarrow> string \<Rightarrow> error" where
  "mk_error c msg = \<lparr>err_code = c, err_message = msg\<rparr>"

type_synonym 'a result = "error + 'a"

definition has_value :: "'a result \<Rightarrow> bool" where
  "has_value r = (case r of Inl _ \<Rightarrow> False | Inr _ \<Rightarrow> True)"

definition value_or :: "'a result \<Rightarrow> 'a \<Rightarrow> 'a" where
  "value_or r fallback = (case r of Inl _ \<Rightarrow> fallback | Inr v \<Rightarrow> v)"

lemma has_value_simps [simp]: "has_value (Inr v)" "\<not> has_value (Inl e)"
  by (simp_all add: has_value_def)

lemma value_or_simps [simp]: "value_or (Inr v) d = v" "value_or (Inl e) d = d"
  by (simp_all add: value_or_def)

lemma err_code_mk_error [simp]: "err_code (mk_error c m) = c"
  by (simp add: mk_error_def)

text \<open>\<^verbatim>\<open>io/cache/cache_messages.h\<close>: the suffix every cache error carries.\<close>

definition cache_rebuild_hint :: string where
  "cache_rebuild_hint = ''; run bf build to regenerate''"

definition with_rebuild_hint :: "string \<Rightarrow> string" where
  "with_rebuild_hint why = why @ cache_rebuild_hint"

text \<open>\<^verbatim>\<open>core/base/string_util.h\<close>: ASCII upper-casing, independent of the locale.\<close>

definition to_upper_char :: "char \<Rightarrow> char" where
  "to_upper_char c =
     (if CHR ''a'' \<le> c \<and> c \<le> CHR ''z'' then char_of (of_char c - 32 :: nat) else c)"

definition to_upper :: "string \<Rightarrow> string" where
  "to_upper s = map to_upper_char s"

lemma length_to_upper [simp]: "length (to_upper s) = length s"
  by (simp add: to_upper_def)

end
