(* ===== verification/Airway.thy ===== *)
theory Airway
  imports Outcome
begin

text \<open>
  \<^verbatim>\<open>core/domain/airway.h\<close>, \<^verbatim>\<open>core/domain/arinc_codes.h\<close> and \<^verbatim>\<open>core/domain/waypoint.h\<close>: the
  enumerations of the airway and waypoint data and the token parsers the loaders share. Each
  enumeration comes with its wire byte, which the caches store.
\<close>

section \<open>Airway direction and level\<close>

datatype airway_direction = DirBoth | DirForward | DirBackward

datatype airway_level = LevelLow | LevelHigh | LevelBoth

definition airway_level_byte :: "airway_level \<Rightarrow> u8" where
  "airway_level_byte l = (case l of LevelLow \<Rightarrow> 0 | LevelHigh \<Rightarrow> 1 | LevelBoth \<Rightarrow> 2)"

text \<open>\<open>static_cast<AirwayLevel>\<close> of a byte that names an enumerator.\<close>

definition airway_level_of_byte :: "u8 \<Rightarrow> airway_level" where
  "airway_level_of_byte b = (if b = 0 then LevelLow else if b = 1 then LevelHigh else LevelBoth)"

lemma airway_level_byte_inverse [simp]: "airway_level_of_byte (airway_level_byte l) = l"
  by (cases l) (simp_all add: airway_level_byte_def airway_level_of_byte_def)

lemma airway_level_byte_le [simp]: "airway_level_byte l \<le> 2"
  by (cases l) (simp_all add: airway_level_byte_def)

definition parse_direction :: "string \<Rightarrow> airway_direction" where
  "parse_direction token =
     (if token = ''F'' then DirForward else if token = ''B'' then DirBackward else DirBoth)"

definition parse_airway_level :: "string \<Rightarrow> airway_level" where
  "parse_airway_level token =
     (if token = ''2'' \<or> token = ''H'' then LevelHigh
      else if token = ''B'' then LevelBoth
      else LevelLow)"

section \<open>ARINC 424 field codes\<close>

definition wpt_desc_end_of_airway :: char where "wpt_desc_end_of_airway = CHR ''E''"
definition turn_left :: char where "turn_left = CHR ''L''"
definition turn_right :: char where "turn_right = CHR ''R''"

definition has_code_at :: "string \<Rightarrow> nat \<Rightarrow> char \<Rightarrow> bool" where
  "has_code_at s pos code \<longleftrightarrow> pos < length s \<and> s ! pos = code"

definition equals_code :: "string \<Rightarrow> char \<Rightarrow> bool" where
  "equals_code s code \<longleftrightarrow> length s = 1 \<and> has_code_at s 0 code"

lemma equals_code_iff: "equals_code s c \<longleftrightarrow> s = [c]"
  by (cases s) (auto simp: equals_code_def has_code_at_def)

section \<open>Waypoint kinds\<close>

datatype waypoint_kind = KFix | KVor | KNdb | KDme | KOther | KIlsDme

definition waypoint_kind_byte :: "waypoint_kind \<Rightarrow> u8" where
  "waypoint_kind_byte k =
     (case k of KFix \<Rightarrow> 0 | KVor \<Rightarrow> 1 | KNdb \<Rightarrow> 2 | KDme \<Rightarrow> 3 | KOther \<Rightarrow> 4 | KIlsDme \<Rightarrow> 5)"

definition waypoint_kind_of_byte :: "u8 \<Rightarrow> waypoint_kind" where
  "waypoint_kind_of_byte b =
     (if b = 0 then KFix else if b = 1 then KVor else if b = 2 then KNdb
      else if b = 3 then KDme else if b = 4 then KOther else KIlsDme)"

definition is_graph_vertex_kind :: "waypoint_kind \<Rightarrow> bool" where
  "is_graph_vertex_kind k \<longleftrightarrow> k \<noteq> KOther \<and> k \<noteq> KIlsDme"

lemma waypoint_kind_byte_inverse [simp]: "waypoint_kind_of_byte (waypoint_kind_byte k) = k"
  by (cases k) (simp_all add: waypoint_kind_byte_def waypoint_kind_of_byte_def)

lemma waypoint_kind_byte_le [simp]: "waypoint_kind_byte k \<le> 5"
  by (cases k) (simp_all add: waypoint_kind_byte_def)

end
