(* ===== verification/Cost.thy ===== *)
theory Cost
  imports Complex_Main
begin

text \<open>
  Costs of the search: a double that is either finite (an ideal real) or the positive
  infinity that unwritten slots and unreachable heuristic values read as.
\<close>

datatype cost = Fin real | Infinity

instantiation cost :: linorder
begin

fun less_eq_cost :: "cost \<Rightarrow> cost \<Rightarrow> bool" where
  "less_eq_cost _ Infinity = True"
| "less_eq_cost (Fin a) (Fin b) = (a \<le> b)"
| "less_eq_cost Infinity (Fin _) = False"

definition less_cost :: "cost \<Rightarrow> cost \<Rightarrow> bool" where
  "less_cost a b \<longleftrightarrow> a \<le> b \<and> \<not> b \<le> a"

instance
proof
  fix x y z :: cost
  show "(x < y) = (x \<le> y \<and> \<not> y \<le> x)" by (simp add: less_cost_def)
  show "x \<le> x" by (cases x) simp_all
  show "x \<le> y \<Longrightarrow> y \<le> z \<Longrightarrow> x \<le> z" by (cases x; cases y; cases z) simp_all
  show "x \<le> y \<Longrightarrow> y \<le> x \<Longrightarrow> x = y" by (cases x; cases y) simp_all
  show "x \<le> y \<or> y \<le> x" by (cases x; cases y) auto
qed

end

instantiation cost :: comm_monoid_add
begin

definition zero_cost :: cost where "zero_cost = Fin 0"

fun plus_cost :: "cost \<Rightarrow> cost \<Rightarrow> cost" where
  "plus_cost (Fin a) (Fin b) = Fin (a + b)"
| "plus_cost Infinity _ = Infinity"
| "plus_cost _ Infinity = Infinity"

lemma plus_cost_Infinity_right: "c + Infinity = (Infinity :: cost)"
  by (cases c) simp_all

lemma plus_cost_comm: "x + y = y + (x :: cost)"
  by (induction x y rule: plus_cost.induct) (auto simp: add.commute plus_cost_Infinity_right)

lemma plus_cost_Fin_assoc: "Fin r + y + z = Fin r + (y + z)"
  by (cases y; cases z) (auto simp: add.assoc)

instance
proof (standard, goal_cases)
  case (1 x y z)
  then show ?case using plus_cost_Fin_assoc by (cases x) auto
next
  case (2 x y)
  then show ?case by (rule plus_cost_comm)
next
  case (3 x)
  then show ?case unfolding zero_cost_def by (induction x) auto
qed

end

lemma cost_less_simps [simp]:
  "Fin a < Fin b \<longleftrightarrow> a < b" "Fin a < Infinity" "\<not> Infinity < c"
  by (auto simp: less_cost_def)

lemma cost_le_Infinity [simp]: "Infinity \<le> c \<longleftrightarrow> c = Infinity"
  by (cases c) simp_all

lemma cost_plus_Infinity [simp]: "c + Infinity = Infinity"
  by (rule plus_cost_Infinity_right)

lemma cost_add_mono: "(a :: cost) \<le> b \<Longrightarrow> c \<le> d \<Longrightarrow> a + c \<le> b + d"
  by (cases a; cases b; cases c; cases d) simp_all

definition finite_cost :: "cost \<Rightarrow> bool" where
  "finite_cost c = (case c of Fin _ \<Rightarrow> True | Infinity \<Rightarrow> False)"

fun real_of_cost :: "cost \<Rightarrow> real" where
  "real_of_cost (Fin a) = a"
| "real_of_cost Infinity = 0"

lemma finite_cost_iff: "finite_cost c \<longleftrightarrow> c \<noteq> Infinity"
  by (cases c) (simp_all add: finite_cost_def)

end
