(* ===== verification/NavGraph.thy ===== *)
theory NavGraph
  imports Geometry Airway Cost
begin

text \<open>
  \<^verbatim>\<open>core/graph/nav_graph.h\<close> and \<^verbatim>\<open>core/domain/sentinels.h\<close>: the directed graph in
  compressed-sparse-row form. Edges keep their integers at their width; the number type of the
  distance is a parameter (a real in the search, the float's bit pattern in the cache). Vertex
  indices are C++ \<open>int\<close>s, with -1 as the no-vertex sentinel.
\<close>

section \<open>Edges and graphs\<close>

record 'd graph_edge =
  ge_to :: i32
  ge_distance_nm :: 'd
  ge_airway_id :: u16
  ge_base_fl :: i16
  ge_top_fl :: i16
  ge_level :: airway_level

definition edge_to :: "'d graph_edge \<Rightarrow> int" where
  "edge_to e = sint (ge_to e)"

record nav_graph =
  ng_coords :: "point list"
  ng_offsets :: "int list"
  ng_edges :: "real graph_edge list"

definition vertex_count :: "nav_graph \<Rightarrow> int" where
  "vertex_count g = int (length (ng_coords g))"

definition coord_of :: "nav_graph \<Rightarrow> int \<Rightarrow> point" where
  "coord_of g v = ng_coords g ! nat v"

text \<open>The range from \<open>EdgesBegin(v)\<close> to \<open>EdgesEnd(v)\<close>.\<close>

definition out_edges :: "nav_graph \<Rightarrow> int \<Rightarrow> real graph_edge list" where
  "out_edges g v =
     (let b = ng_offsets g ! nat v; e = ng_offsets g ! nat (v + 1)
      in take (nat (e - b)) (drop (nat b) (ng_edges g)))"

definition no_vertex :: int where "no_vertex = - 1"
definition no_bearing :: real where "no_bearing = - 1"

section \<open>Well-formed graphs\<close>

text \<open>The CSR invariant that a decoded or built graph satisfies.\<close>

definition csr_offsets_ok :: "int list \<Rightarrow> nat \<Rightarrow> nat \<Rightarrow> bool" where
  "csr_offsets_ok offs v e \<longleftrightarrow>
     length offs = v + 1 \<and> offs ! 0 = 0 \<and> offs ! v = int e \<and> sorted offs"

definition graph_ok :: "nav_graph \<Rightarrow> bool" where
  "graph_ok g \<longleftrightarrow>
     csr_offsets_ok (ng_offsets g) (length (ng_coords g)) (length (ng_edges g)) \<and>
     (\<forall>e \<in> set (ng_edges g). 0 \<le> edge_to e \<and> edge_to e < vertex_count g)"

definition is_vertex :: "nav_graph \<Rightarrow> int \<Rightarrow> bool" where
  "is_vertex g v \<longleftrightarrow> 0 \<le> v \<and> v < vertex_count g"

lemma out_edges_subset: "set (out_edges g v) \<subseteq> set (ng_edges g)"
  unfolding out_edges_def Let_def by (meson set_drop_subset set_take_subset subset_trans)

lemma out_edges_vertex:
  "graph_ok g \<Longrightarrow> e \<in> set (out_edges g v) \<Longrightarrow> is_vertex g (edge_to e)"
  using out_edges_subset [of g v] by (auto simp: graph_ok_def is_vertex_def)

text \<open>In a well-formed graph the ranges lie inside the edge array: no read is out of bounds.\<close>

lemma csr_offsets_in_range:
  assumes "csr_offsets_ok offs n m" and "i \<le> n"
  shows "0 \<le> offs ! i \<and> offs ! i \<le> int m"
proof -
  have s: "sorted offs" and l: "length offs = n + 1" and ends: "offs ! 0 = 0" "offs ! n = int m"
    using assms(1) by (simp_all add: csr_offsets_ok_def)
  have "offs ! 0 \<le> offs ! i" "offs ! i \<le> offs ! n"
    using s l assms(2) by (auto intro: sorted_nth_mono)
  with ends show ?thesis by simp
qed

lemma out_edges_bounds:
  assumes "graph_ok g" and "is_vertex g v"
  shows "0 \<le> ng_offsets g ! nat v" and "ng_offsets g ! nat v \<le> ng_offsets g ! nat (v + 1)"
    and "ng_offsets g ! nat (v + 1) \<le> int (length (ng_edges g))"
proof -
  let ?n = "length (ng_coords g)"
  have ok: "csr_offsets_ok (ng_offsets g) ?n (length (ng_edges g))"
    using assms(1) by (simp add: graph_ok_def)
  have v: "nat v < ?n" "nat (v + 1) = Suc (nat v)"
    using assms(2) by (auto simp: is_vertex_def vertex_count_def)
  show "0 \<le> ng_offsets g ! nat v" "ng_offsets g ! nat (v + 1) \<le> int (length (ng_edges g))"
    using csr_offsets_in_range [OF ok] v by auto
  show "ng_offsets g ! nat v \<le> ng_offsets g ! nat (v + 1)"
    using ok v unfolding csr_offsets_ok_def by (auto intro: sorted_nth_mono)
qed

end
