(* ===== verification/RouteRequest.thy ===== *)
theory RouteRequest
  imports Outcome
begin

text \<open>
  \<^verbatim>\<open>core/routing/route_request.h\<close>: the route query and the airway rules it carries.
\<close>

definition default_penalty_fraction :: real where "default_penalty_fraction = 1 / 2"
definition max_forced_points :: nat where "max_forced_points = 16"

datatype level_preference = LpNone | LpLow | LpHigh

record fl_range =
  min_fl :: int
  max_fl :: int

datatype rule_action = Penalize | Block

datatype rule_match = MatchExact | MatchPrefix

record airway_rule =
  ar_region_prefixes :: "string list"
  ar_designators :: "string list"
  ar_match :: rule_match
  ar_action :: rule_action
  ar_penalty_fraction :: real

record route_request =
  rr_departure :: string
  rr_arrival :: string
  rr_altitude :: "fl_range option"
  rr_level :: level_preference
  rr_k :: int
  rr_departure_runway :: string
  rr_arrival_runway :: string
  rr_departure_sid :: string
  rr_arrival_star :: string
  rr_avoid_waypoints :: "string list"
  rr_airway_rules :: "airway_rule list"
  rr_random_seed :: "u32 option"
  rr_forced_points :: "string list"

text \<open>A default-constructed request between two airports.\<close>

definition route_request_default :: "string \<Rightarrow> string \<Rightarrow> route_request" where
  "route_request_default dep arr =
     \<lparr>rr_departure = dep, rr_arrival = arr, rr_altitude = None, rr_level = LpNone, rr_k = 1,
      rr_departure_runway = [], rr_arrival_runway = [], rr_departure_sid = [],
      rr_arrival_star = [], rr_avoid_waypoints = [], rr_airway_rules = [], rr_random_seed = None,
      rr_forced_points = []\<rparr>"

end
