(* ===== verification/MoraGrid.thy ===== *)
theory MoraGrid
  imports Geometry
begin

text \<open>
  \<^verbatim>\<open>core/domain/mora_grid.h\<close>: the 1-degree grid of minimum off-route altitudes. The cells are
  16-bit signed words in row-major order, with the count of populated cells beside them.
\<close>

section \<open>The grid\<close>

definition lat_count :: nat where "lat_count = 180"
definition lon_count :: nat where "lon_count = 360"

record mora_grid =
  mg_cells :: "i16 list"
  mg_populated :: int

definition mora_grid_empty :: mora_grid where
  "mora_grid_empty = \<lparr>mg_cells = replicate (lat_count * lon_count) 0, mg_populated = 0\<rparr>"

text \<open>\<open>Index\<close>: -1 when out of range.\<close>

definition mora_index :: "int \<Rightarrow> int \<Rightarrow> int" where
  "mora_index lat lon =
     (if lat < - 90 \<or> lat > 89 \<or> lon < - 180 \<or> lon > 179 then - 1
      else (lat + 90) * int lon_count + (lon + 180))"

definition set_cell :: "mora_grid \<Rightarrow> int \<Rightarrow> int \<Rightarrow> i16 \<Rightarrow> mora_grid" where
  "set_cell g lat lon mora_fl =
     (let idx = mora_index lat lon in
      if idx < 0 then g
      else
        let was_populated = mg_cells g ! nat idx \<noteq> 0; now_populated = mora_fl \<noteq> 0;
            p = (if \<not> was_populated \<and> now_populated then mg_populated g + 1
                 else if was_populated \<and> \<not> now_populated then mg_populated g - 1
                 else mg_populated g)
        in g\<lparr>mg_cells := (mg_cells g)[nat idx := mora_fl], mg_populated := p\<rparr>)"

text \<open>
  \<open>FloorToInt\<close>: the conversion to int truncates towards zero; the sentinel is out of range of
  \<open>Index\<close>. (Every ideal real is finite; the \<open>isfinite\<close> test is the bound test here.)
\<close>

definition truncate_to_int :: "real \<Rightarrow> int" where
  "truncate_to_int v = (if v < 0 then \<lceil>v\<rceil> else \<lfloor>v\<rfloor>)"

definition invalid_grid_index :: int where "invalid_grid_index = - 9999"
definition finite_value_bound :: real where "finite_value_bound = 10 ^ 9"

definition floor_to_int :: "real \<Rightarrow> int" where
  "floor_to_int v =
     (if v < - finite_value_bound \<or> v > finite_value_bound then invalid_grid_index
      else let i = truncate_to_int v in if v < 0 \<and> real_of_int i \<noteq> v then i - 1 else i)"

definition mora_cell :: "mora_grid \<Rightarrow> int \<Rightarrow> i16" where
  "mora_cell g idx = (if 0 \<le> idx then mg_cells g ! nat idx else 0)"

definition mora_at :: "mora_grid \<Rightarrow> point \<Rightarrow> i16" where
  "mora_at g c =
     (let lat = (if latitude c = 90 then 89 else floor_to_int (latitude c));
          lon = (if longitude c = 180 then - 180 else floor_to_int (longitude c))
      in mora_cell g (mora_index lat lon))"

text \<open>The remainder of C++ integer division, which truncates towards zero.\<close>

definition c_rem :: "int \<Rightarrow> int \<Rightarrow> int" where
  "c_rem a b = (if 0 \<le> a then \<bar>a\<bar> mod \<bar>b\<bar> else - (\<bar>a\<bar> mod \<bar>b\<bar>))"

definition mora_at_cell :: "mora_grid \<Rightarrow> int \<Rightarrow> int \<Rightarrow> i16" where
  "mora_at_cell g lat lon =
     (let lat' = (if lat = 90 then 89 else lat);
          n = int lon_count; wrapped = c_rem (c_rem (lon + 180) n + n) n - 180
      in mora_cell g (mora_index lat' wrapped))"

definition mora_empty :: "mora_grid \<Rightarrow> bool" where
  "mora_empty g \<longleftrightarrow> mg_populated g = 0"

definition from_cells :: "i16 list \<Rightarrow> mora_grid" where
  "from_cells cells =
     (if length cells \<noteq> lat_count * lon_count then mora_grid_empty
      else \<lparr>mg_cells = cells,
            mg_populated = foldl (\<lambda>n v. if v \<noteq> 0 then n + 1 else n) 0 cells\<rparr>)"

section \<open>The class invariant\<close>

definition mora_inv :: "mora_grid \<Rightarrow> bool" where
  "mora_inv g \<longleftrightarrow>
     length (mg_cells g) = lat_count * lon_count \<and>
     mg_populated g = int (length (filter (\<lambda>v. v \<noteq> 0) (mg_cells g)))"

lemma mora_index_range:
  "0 \<le> mora_index lat lon \<Longrightarrow> nat (mora_index lat lon) < lat_count * lon_count"
  unfolding mora_index_def lat_count_def lon_count_def by (auto split: if_splits)

lemma mora_index_nonneg_iff:
  "0 \<le> mora_index lat lon \<longleftrightarrow> - 90 \<le> lat \<and> lat \<le> 89 \<and> - 180 \<le> lon \<and> lon \<le> 179"
  unfolding mora_index_def lon_count_def by auto

lemma mora_index_inj:
  assumes "0 \<le> mora_index lat lon" "0 \<le> mora_index lat' lon'"
    and "mora_index lat lon = mora_index lat' lon'"
  shows "lat = lat' \<and> lon = lon'"
proof -
  have r: "- 180 \<le> lon" "lon \<le> 179" "- 180 \<le> lon'" "lon' \<le> 179"
    using assms(1,2) by (simp_all add: mora_index_nonneg_iff)
  have "(lat + 90) * 360 + (lon + 180) = (lat' + 90) * 360 + (lon' + 180)"
    using assms by (simp add: mora_index_def lon_count_def split: if_splits)
  moreover have "((q + 90) * 360 + (l + 180)) div 360 = q + 90" if "- 180 \<le> l" "l \<le> 179" for q l :: int
    using that by (simp add: div_mult_self3 div_pos_pos_trivial)
  ultimately have "lat + 90 = lat' + 90" using r by metis
  with \<open>(lat + 90) * 360 + (lon + 180) = (lat' + 90) * 360 + (lon' + 180)\<close> show ?thesis by simp
qed

lemma length_filter_update:
  "i < length xs \<Longrightarrow>
   length (filter P (xs[i := v])) + (if P (xs ! i) then 1 else 0) =
     length (filter P xs) + (if P v then 1 else 0)"
proof (induction xs arbitrary: i)
  case Nil
  then show ?case by simp
next
  case (Cons x xs)
  show ?case
  proof (cases i)
    case 0
    then show ?thesis by auto
  next
    case (Suc j)
    with Cons.prems have "j < length xs" by simp
    from Cons.IH [OF this] Suc show ?thesis by (auto split: if_splits)
  qed
qed

lemma mora_inv_empty: "mora_inv mora_grid_empty"
  by (simp add: mora_inv_def mora_grid_empty_def)

lemma mora_inv_set_cell: "mora_inv g \<Longrightarrow> mora_inv (set_cell g lat lon v)"
  using mora_index_range [of lat lon]
    length_filter_update [of "nat (mora_index lat lon)" "mg_cells g" "\<lambda>v. v \<noteq> 0" v]
  by (auto simp: mora_inv_def set_cell_def Let_def split: if_splits)

lemma foldl_count: "foldl (\<lambda>n v. if P v then n + 1 else n) (k :: int) xs = k + int (length (filter P xs))"
  by (induction xs arbitrary: k) auto

lemma mora_inv_from_cells: "mora_inv (from_cells cells)"
  by (simp add: from_cells_def mora_inv_empty) (simp add: mora_inv_def foldl_count)

lemma from_cells_cells: "mora_inv g \<Longrightarrow> from_cells (mg_cells g) = g"
  by (simp add: from_cells_def mora_inv_def foldl_count)

lemma mora_empty_iff: "mora_inv g \<Longrightarrow> mora_empty g \<longleftrightarrow> (\<forall>v \<in> set (mg_cells g). v = 0)"
  by (auto simp: mora_empty_def mora_inv_def filter_empty_conv)

section \<open>Lookup\<close>

lemma c_rem_wrap: "0 < n \<Longrightarrow> c_rem (c_rem a n + n) n = a mod n"
proof -
  assume n: "0 < n"
  show ?thesis
  proof (cases "0 \<le> a")
    case True
    then show ?thesis using n by (simp add: c_rem_def pos_mod_sign)
  next
    case False
    have lt: "- a mod n < n" and ge: "0 \<le> - a mod n" using n by simp_all
    then have "c_rem (c_rem a n + n) n = (n - (- a mod n)) mod n"
      using False n less_imp_le [OF lt] by (simp add: c_rem_def)
    also have "\<dots> = (- (- a mod n)) mod n" by (metis add.commute diff_conv_add_uminus mod_add_self1)
    also have "\<dots> = a mod n" by (simp add: mod_minus_eq)
    finally show ?thesis .
  qed
qed

lemma mora_at_cell_alt:
  "mora_at_cell g lat lon =
     mora_cell g (mora_index (if lat = 90 then 89 else lat) ((lon + 180) mod 360 - 180))"
  by (simp add: mora_at_cell_def Let_def c_rem_wrap lon_count_def)

lemma mora_at_cell_periodic: "mora_at_cell g lat (lon + 360 * k) = mora_at_cell g lat lon"
proof -
  have "lon + 360 * k + 180 = (lon + 180) + 360 * k" by simp
  then have "(lon + 360 * k + 180) mod 360 = (lon + 180) mod 360"
    by (simp only: mod_mult_self2)
  then show ?thesis by (simp add: mora_at_cell_alt)
qed

lemma floor_to_int_floor: "\<bar>v\<bar> \<le> 10 ^ 9 \<Longrightarrow> floor_to_int v = \<lfloor>v\<rfloor>"
proof -
  assume "\<bar>v\<bar> \<le> 10 ^ 9"
  then have b: "\<not> (v < - finite_value_bound \<or> v > finite_value_bound)"
    by (simp add: finite_value_bound_def abs_le_iff)
  show ?thesis
  proof (cases "v < 0 \<and> real_of_int \<lceil>v\<rceil> \<noteq> v")
    case True
    then have "\<lfloor>v\<rfloor> = \<lceil>v\<rceil> - 1" by (simp add: ceiling_altdef split: if_splits)
    with True b show ?thesis by (simp add: floor_to_int_def truncate_to_int_def Let_def)
  next
    case False
    with b show ?thesis
      by (auto simp: floor_to_int_def truncate_to_int_def Let_def)
  qed
qed

text \<open>A position and the cell it lies in read the same value, seams included.\<close>

lemma mora_at_eq_cell:
  assumes "- 90 \<le> latitude c" "latitude c \<le> 90" "- 180 \<le> longitude c" "longitude c \<le> 180"
  shows "mora_at g c = mora_at_cell g \<lfloor>latitude c\<rfloor> \<lfloor>longitude c\<rfloor>"
proof -
  have f: "floor_to_int (latitude c) = \<lfloor>latitude c\<rfloor>" "floor_to_int (longitude c) = \<lfloor>longitude c\<rfloor>"
    using assms by (auto intro!: floor_to_int_floor)
  have lon: "(\<lfloor>longitude c\<rfloor> + 180) mod 360 - 180 = (if longitude c = 180 then - 180 else \<lfloor>longitude c\<rfloor>)"
  proof (cases "longitude c = 180")
    case True
    then show ?thesis by simp
  next
    case False
    then have "0 \<le> \<lfloor>longitude c\<rfloor> + 180" "\<lfloor>longitude c\<rfloor> + 180 < 360" using assms by linarith+
    then show ?thesis using False by simp
  qed
  have lat: "(if \<lfloor>latitude c\<rfloor> = 90 then 89 else \<lfloor>latitude c\<rfloor>) =
      (if latitude c = 90 then 89 else \<lfloor>latitude c\<rfloor>)"
    using assms by (auto intro: antisym dest: le_floor_iff [THEN iffD1, rotated]) linarith
  show ?thesis by (simp add: mora_at_def mora_at_cell_alt f lon lat Let_def)
qed

section \<open>The cell-store contract\<close>

text \<open>
  What a loader relies on when it fills the grid cell by cell and what the terrain
  constraint relies on when it reads it: a store of cells with last-write-wins reads.
\<close>

locale cell_store =
  fixes get :: "'s \<Rightarrow> int \<Rightarrow> int \<Rightarrow> 'v"
    and put :: "'s \<Rightarrow> int \<Rightarrow> int \<Rightarrow> 'v \<Rightarrow> 's"
    and inv :: "'s \<Rightarrow> bool"
    and valid :: "int \<Rightarrow> int \<Rightarrow> bool"
  assumes inv_put: "inv s \<Longrightarrow> inv (put s lat lon v)"
    and get_put_same: "inv s \<Longrightarrow> valid lat lon \<Longrightarrow> get (put s lat lon v) lat lon = v"
    and get_put_other: "inv s \<Longrightarrow> valid lat lon \<Longrightarrow> valid lat' lon' \<Longrightarrow>
          (lat, lon) \<noteq> (lat', lon') \<Longrightarrow> get (put s lat lon v) lat' lon' = get s lat' lon'"
    and put_invalid: "\<not> valid lat lon \<Longrightarrow> put s lat lon v = s"
begin

lemma inv_put_all: "inv s \<Longrightarrow> inv (foldl (\<lambda>s ((a, b), v). put s a b v) s ws)"
  by (induction ws arbitrary: s) (auto intro: inv_put)

lemma get_put_all:
  assumes "inv s" "valid lat lon"
  shows "get (foldl (\<lambda>s ((a, b), v). put s a b v) s ws) lat lon =
    (case map_of (rev ws) (lat, lon) of Some v \<Rightarrow> v | None \<Rightarrow> get s lat lon)"
  using assms
proof (induction ws rule: rev_induct)
  case Nil
  then show ?case by simp
next
  case (snoc w ws)
  obtain a b v where w: "w = ((a, b), v)" by (metis prod.collapse)
  let ?s = "foldl (\<lambda>s ((a, b), v). put s a b v) s ws"
  have step: "foldl (\<lambda>s ((a, b), v). put s a b v) s (ws @ [w]) = put ?s a b v" by (simp add: w)
  have i: "inv ?s" by (rule inv_put_all [OF snoc.prems(1)])
  show ?case
  proof (cases "(a, b) = (lat, lon)")
    case True
    then show ?thesis using step w i snoc.prems by (simp add: get_put_same)
  next
    case False
    have "get (put ?s a b v) lat lon = get ?s lat lon"
    proof (cases "valid a b")
      case True
      then show ?thesis using get_put_other [OF i True snoc.prems(2)] False by simp
    next
      case False
      then show ?thesis by (simp add: put_invalid)
    qed
    then show ?thesis using step w False snoc.IH [OF snoc.prems] by auto
  qed
qed

end

definition mora_valid :: "int \<Rightarrow> int \<Rightarrow> bool" where
  "mora_valid lat lon \<longleftrightarrow> - 90 \<le> lat \<and> lat \<le> 89 \<and> - 180 \<le> lon \<and> lon \<le> 179"

lemma mora_at_cell_valid:
  "mora_valid lat lon \<Longrightarrow> mora_at_cell g lat lon = mg_cells g ! nat (mora_index lat lon)"
  using mora_index_nonneg_iff [of lat lon]
  by (auto simp: mora_valid_def mora_at_cell_alt mora_cell_def)

lemma mg_cells_set_cell:
  "mora_valid lat lon \<Longrightarrow> mg_cells (set_cell g lat lon v) = (mg_cells g)[nat (mora_index lat lon) := v]"
  using mora_index_nonneg_iff [of lat lon] by (simp add: set_cell_def Let_def mora_valid_def)

interpretation mora: cell_store mora_at_cell set_cell mora_inv mora_valid
proof
  fix s lat lon v
  show "mora_inv s \<Longrightarrow> mora_inv (set_cell s lat lon v)" by (rule mora_inv_set_cell)
  assume "mora_inv s" and v: "mora_valid lat lon"
  then have len: "nat (mora_index lat lon) < length (mg_cells s)"
    using mora_index_range [of lat lon] mora_index_nonneg_iff [of lat lon]
    by (simp add: mora_inv_def mora_valid_def)
  then show "mora_at_cell (set_cell s lat lon v) lat lon = v"
    using v by (simp add: mora_at_cell_valid mg_cells_set_cell)
  fix lat' lon'
  assume v': "mora_valid lat' lon'" and ne: "(lat, lon) \<noteq> (lat', lon')"
  then have "nat (mora_index lat lon) \<noteq> nat (mora_index lat' lon')"
    using v mora_index_inj [of lat lon lat' lon']
    by (simp add: mora_valid_def mora_index_nonneg_iff eq_nat_nat_iff) blast
  then show "mora_at_cell (set_cell s lat lon v) lat' lon' = mora_at_cell s lat' lon'"
    using v v' by (simp add: mora_at_cell_valid mg_cells_set_cell)
next
  fix lat lon s v
  assume "\<not> mora_valid lat lon"
  then have "mora_index lat lon < 0" using mora_index_nonneg_iff [of lat lon] by (auto simp: mora_valid_def)
  then show "set_cell s lat lon v = s" by (simp add: set_cell_def)
qed

section \<open>Properties\<close>

text \<open>
  The grid is a store: after any sequence of \<open>SetCell\<close> writes (out-of-range ones included)
  starting from the empty grid, a valid cell reads the last value written to it, or 0 when none was.
\<close>

theorem mora_grid_last_write:
  assumes "mora_valid lat lon"
  shows "mora_at_cell (foldl (\<lambda>g ((a, b), v). set_cell g a b v) mora_grid_empty ws) lat lon =
    (case map_of (rev ws) (lat, lon) of Some v \<Rightarrow> v | None \<Rightarrow> 0)"
proof -
  have "mora_at_cell mora_grid_empty lat lon = 0"
    using mora_index_range [of lat lon] mora_index_nonneg_iff [of lat lon] assms
    by (simp add: mora_at_cell_valid mora_grid_empty_def mora_valid_def)
  then show ?thesis
    using mora.get_put_all [OF mora_inv_empty assms, of ws] by (simp split: option.split)
qed

lemma mora_grid_last_write_witness:
  "mora_at_cell (foldl (\<lambda>g ((a, b), v). set_cell g a b v) mora_grid_empty
     [((45, 7), 158), ((95, 7), 10), ((45, 7), 160)]) 45 7 = 160"
  by (subst mora_grid_last_write) (simp_all add: mora_valid_def)

text \<open>
  The populated counter tells the truth: after any sequence of writes the grid calls itself
  empty exactly when every one of its 64,800 cells is 0, so a grid emptied again is not mistaken
  for one that carries data.
\<close>

theorem mora_grid_empty_exact:
  "mora_empty (foldl (\<lambda>g ((a, b), v). set_cell g a b v) mora_grid_empty ws) \<longleftrightarrow>
     set (mg_cells (foldl (\<lambda>g ((a, b), v). set_cell g a b v) mora_grid_empty ws)) \<subseteq> {0}"
  using mora_empty_iff [OF mora.inv_put_all [OF mora_inv_empty, of ws]] by auto

text \<open>
  The point lookup and the cell lookup agree on every legal coordinate, the pole and the
  antimeridian included, and the cell lookup is periodic in longitude, so an unrolled leg that
  leaves [-180, 180) still reads the right cell.
\<close>

theorem mora_lookup_consistent:
  assumes "- 90 \<le> latitude c" "latitude c \<le> 90" "- 180 \<le> longitude c" "longitude c \<le> 180"
  shows "mora_at g c = mora_at_cell g \<lfloor>latitude c\<rfloor> (\<lfloor>longitude c\<rfloor> + 360 * k)"
  using mora_at_eq_cell [OF assms] by (simp add: mora_at_cell_periodic)

lemma mora_lookup_consistent_witness:
  "mora_at (set_cell mora_grid_empty 89 (- 180) 12) \<lparr>latitude = 90, longitude = 180\<rparr> =
   mora_at_cell (set_cell mora_grid_empty 89 (- 180) 12) 90 540"
  using mora_lookup_consistent [of "\<lparr>latitude = 90, longitude = 180\<rparr>"
      "set_cell mora_grid_empty 89 (- 180) 12" 1] by simp

end
