(* ===== verification/FixedString.thy ===== *)
theory FixedString
  imports Outcome
begin

text \<open>
  \<^verbatim>\<open>libs/engine/core/domain/fixed_string.h\<close>: the inline-stored identifiers. The payload
  arrays are char lists of the capacity's length whose unused tail stays NUL; the trailing
  length bytes are words. Comparison is \<open>memcmp\<close> of the common prefix, then length; the lemmas
  relate it to the lexicographic order on the viewed strings, which is what the sorted
  indices of the engine rely on.
\<close>

section \<open>memcmp\<close>

text \<open>\<open>std::memcmp\<close> over the first \<open>n\<close> bytes, compared as unsigned characters; only the sign counts.\<close>

fun memcmp :: "string \<Rightarrow> string \<Rightarrow> nat \<Rightarrow> int" where
  "memcmp (x # xs) (y # ys) (Suc n) =
     (if x = y then memcmp xs ys n else if x < y then - 1 else 1)"
| "memcmp _ _ _ = 0"

lemma memcmp_eq_0:
  "n \<le> length xs \<Longrightarrow> n \<le> length ys \<Longrightarrow> memcmp xs ys n = 0 \<longleftrightarrow> take n xs = take n ys"
  by (induction xs ys n rule: memcmp.induct) auto

lemma take_eq_take_same:
  assumes "m \<le> length xs" and "n \<le> length ys"
  shows "take m xs = take n ys \<longleftrightarrow> m = n \<and> take m xs = take m ys"
  using assms by (metis length_take min.absorb2)

text \<open>The order that \<open>memcmp\<close> of the common prefix followed by the lengths induces.\<close>

definition prefix_less :: "string \<Rightarrow> nat \<Rightarrow> string \<Rightarrow> nat \<Rightarrow> bool" where
  "prefix_less xs m ys n =
     (let c = memcmp xs ys (min m n) in if c \<noteq> 0 then c < 0 else m < n)"

lemma list_less_Cons_iff:
  "(x # xs :: 'a :: linorder list) < y # ys \<longleftrightarrow> x < y \<or> x = y \<and> xs < ys"
  by simp

lemma prefix_less_lex:
  assumes "m \<le> length xs" and "n \<le> length ys"
  shows "prefix_less xs m ys n \<longleftrightarrow> take m xs < take n ys"
  using assms
proof (induction xs arbitrary: m n ys)
  case Nil
  then show ?case by (cases n; cases ys) (auto simp: prefix_less_def)
next
  case (Cons x xs)
  show ?case
  proof (cases m)
    case 0
    then show ?thesis using Cons.prems by (cases n; cases ys) (auto simp: prefix_less_def)
  next
    case (Suc m')
    show ?thesis
    proof (cases "n = 0 \<or> ys = []")
      case True
      with Suc Cons.prems show ?thesis by (auto simp: prefix_less_def)
    next
      case False
      then obtain n' y ys' where n: "n = Suc n'" and y: "ys = y # ys'"
        by (metis list.exhaust not0_implies_Suc)
      from Cons.IH[of m' n' ys'] Cons.prems Suc n y
      have IH: "prefix_less xs m' ys' n' \<longleftrightarrow> take m' xs < take n' ys'" by simp
      show ?thesis using Suc n y IH
        by (auto simp: prefix_less_def Let_def)
    qed
  qed
qed

section \<open>FixedIdent\<close>

text \<open>\<^verbatim>\<open>core/domain/ident.h\<close>: the owned (ident, region) pair.\<close>

record ident =
  id_ident :: string
  id_icao_code :: string

record fixed_ident =
  fi_ident :: string
  fi_icao_code :: string
  fi_ident_len :: u8
  fi_icao_code_len :: u8

definition ident_cap :: nat where "ident_cap = 7"
definition arinc424_icao_code_cap :: nat where "arinc424_icao_code_cap = 3"

text \<open>A default-constructed value: zeroed payloads and lengths.\<close>

definition fixed_ident_default :: fixed_ident where
  "fixed_ident_default =
     \<lparr>fi_ident = replicate ident_cap (CHR 0x00),
      fi_icao_code = replicate arinc424_icao_code_cap (CHR 0x00),
      fi_ident_len = 0, fi_icao_code_len = 0\<rparr>"

definition ident_view :: "fixed_ident \<Rightarrow> string" where
  "ident_view f = take (unat (fi_ident_len f)) (fi_ident f)"

definition icao_code_view :: "fixed_ident \<Rightarrow> string" where
  "icao_code_view f = take (unat (fi_icao_code_len f)) (fi_icao_code f)"

definition fixed_ident_eq :: "fixed_ident \<Rightarrow> fixed_ident \<Rightarrow> bool" where
  "fixed_ident_eq f g \<longleftrightarrow>
     fi_ident_len f = fi_ident_len g \<and> fi_icao_code_len f = fi_icao_code_len g \<and>
     memcmp (fi_ident f) (fi_ident g) (unat (fi_ident_len f)) = 0 \<and>
     memcmp (fi_icao_code f) (fi_icao_code g) (unat (fi_icao_code_len f)) = 0"

definition fixed_ident_less :: "fixed_ident \<Rightarrow> fixed_ident \<Rightarrow> bool" where
  "fixed_ident_less f g =
     (let c = memcmp (fi_ident f) (fi_ident g) (min (unat (fi_ident_len f)) (unat (fi_ident_len g)))
      in if c \<noteq> 0 then c < 0
         else if fi_ident_len f \<noteq> fi_ident_len g then fi_ident_len f < fi_ident_len g
         else let c2 = memcmp (fi_icao_code f) (fi_icao_code g)
                         (min (unat (fi_icao_code_len f)) (unat (fi_icao_code_len g)))
              in if c2 \<noteq> 0 then c2 < 0 else fi_icao_code_len f < fi_icao_code_len g)"

text \<open>\<open>memcpy\<close> of a string into a zeroed payload of the given capacity.\<close>

definition pad_to :: "nat \<Rightarrow> string \<Rightarrow> string" where
  "pad_to cap s = s @ replicate (cap - length s) (CHR 0x00)"

definition fixed_ident_from_parts :: "string \<Rightarrow> string \<Rightarrow> fixed_ident result" where
  "fixed_ident_from_parts idt icao =
     (if ident_cap < length idt then
        Inl (mk_error KInvalidArgument
          (''ident '' @ [CHR 0x27] @ idt @ [CHR 0x27] @ '' exceeds FixedIdent::kIdentCap ('' @
           dec_of_nat (length idt) @ '' > '' @ dec_of_nat ident_cap @ '')''))
      else if arinc424_icao_code_cap < length icao then
        Inl (mk_error KInvalidArgument
          (''ARINC 424 ICAO code '' @ [CHR 0x27] @ icao @ [CHR 0x27] @
           '' exceeds FixedIdent::kArinc424IcaoCodeCap ('' @
           dec_of_nat (length icao) @ '' > '' @ dec_of_nat arinc424_icao_code_cap @ '')''))
      else Inr (fixed_ident_default
        \<lparr>fi_ident_len := of_nat (length idt), fi_icao_code_len := of_nat (length icao),
         fi_ident := pad_to ident_cap idt, fi_icao_code := pad_to arinc424_icao_code_cap icao\<rparr>))"

definition fixed_ident_from_ident :: "ident \<Rightarrow> fixed_ident result" where
  "fixed_ident_from_ident i = fixed_ident_from_parts (id_ident i) (id_icao_code i)"

definition fixed_ident_to_ident :: "fixed_ident \<Rightarrow> ident" where
  "fixed_ident_to_ident f = \<lparr>id_ident = ident_view f, id_icao_code = icao_code_view f\<rparr>"

text \<open>
  The class invariant: payloads have their capacity, the length bytes are within it, and the
  unused tail is zero.
\<close>

definition fixed_ident_wf :: "fixed_ident \<Rightarrow> bool" where
  "fixed_ident_wf f \<longleftrightarrow>
     unat (fi_ident_len f) \<le> ident_cap \<and> unat (fi_icao_code_len f) \<le> arinc424_icao_code_cap \<and>
     fi_ident f = pad_to ident_cap (ident_view f) \<and>
     fi_icao_code f = pad_to arinc424_icao_code_cap (icao_code_view f)"

lemma unat_of_nat_small: "n < 256 \<Longrightarrow> unat (of_nat n :: u8) = n"
  by (simp add: unat_of_nat take_bit_eq_mod)

lemma length_pad_to: "length s \<le> cap \<Longrightarrow> length (pad_to cap s) = cap"
  by (simp add: pad_to_def)

lemma take_pad_to [simp]: "take (length s) (pad_to cap s) = s"
  by (simp add: pad_to_def)

lemma fixed_ident_wf_lengths:
  assumes "fixed_ident_wf f"
  shows "unat (fi_ident_len f) \<le> length (fi_ident f)"
    and "unat (fi_icao_code_len f) \<le> length (fi_icao_code f)"
    and "length (ident_view f) = unat (fi_ident_len f)"
    and "length (icao_code_view f) = unat (fi_icao_code_len f)"
proof -
  have a: "length (fi_ident f) = ident_cap" "length (fi_icao_code f) = arinc424_icao_code_cap"
    using assms unfolding fixed_ident_wf_def ident_view_def icao_code_view_def
    by (metis length_pad_to length_take min.bounded_iff min.cobounded2 order.trans)+
  then show "unat (fi_ident_len f) \<le> length (fi_ident f)"
    "unat (fi_icao_code_len f) \<le> length (fi_icao_code f)"
    using assms by (simp_all add: fixed_ident_wf_def)
  then show "length (ident_view f) = unat (fi_ident_len f)"
    "length (icao_code_view f) = unat (fi_icao_code_len f)"
    by (simp_all add: ident_view_def icao_code_view_def)
qed

lemma fixed_ident_from_parts_cases:
  shows "length idt \<le> 7 \<Longrightarrow> length icao \<le> 3 \<Longrightarrow>
      \<exists>f. fixed_ident_from_parts idt icao = Inr f \<and> fixed_ident_wf f \<and>
        ident_view f = idt \<and> icao_code_view f = icao"
    and "7 < length idt \<or> 3 < length icao \<Longrightarrow>
      \<exists>e. fixed_ident_from_parts idt icao = Inl e \<and> err_code e = KInvalidArgument"
  by (auto simp: fixed_ident_from_parts_def ident_cap_def arinc424_icao_code_cap_def
      fixed_ident_wf_def ident_view_def icao_code_view_def unat_of_nat_small fixed_ident_default_def)

lemma fixed_ident_from_parts_OkD:
  assumes "fixed_ident_from_parts idt icao = Inr f"
  shows "fixed_ident_wf f" and "ident_view f = idt" and "icao_code_view f = icao"
    and "length idt \<le> 7" and "length icao \<le> 3"
proof -
  have "length idt \<le> 7" "length icao \<le> 3"
    using assms fixed_ident_from_parts_cases(2)[of idt icao] by fastforce+
  with fixed_ident_from_parts_cases(1)[of idt icao] assms
  show "fixed_ident_wf f" "ident_view f = idt" "icao_code_view f = icao"
    "length idt \<le> 7" "length icao \<le> 3" by auto
qed

lemma fixed_ident_ext:
  assumes "fixed_ident_wf f" and "fixed_ident_wf g"
    and "ident_view f = ident_view g" and "icao_code_view f = icao_code_view g"
  shows "f = g"
proof -
  have "unat (fi_ident_len f) = unat (fi_ident_len g)"
    "unat (fi_icao_code_len f) = unat (fi_icao_code_len g)"
    using assms fixed_ident_wf_lengths(3,4) by metis+
  moreover have "fi_ident f = fi_ident g" "fi_icao_code f = fi_icao_code g"
    using assms by (simp_all add: fixed_ident_wf_def)
  ultimately show ?thesis by (simp add: word_unat_eq_iff fixed_ident.equality)
qed

lemma fixed_ident_from_parts_views:
  assumes "fixed_ident_wf f"
  shows "fixed_ident_from_parts (ident_view f) (icao_code_view f) = Inr f"
proof -
  have le: "length (ident_view f) \<le> 7" "length (icao_code_view f) \<le> 3"
    using assms fixed_ident_wf_lengths(3,4)[OF assms]
    by (simp_all add: fixed_ident_wf_def ident_cap_def arinc424_icao_code_cap_def)
  obtain g where "fixed_ident_from_parts (ident_view f) (icao_code_view f) = Inr g"
    "fixed_ident_wf g" "ident_view g = ident_view f" "icao_code_view g = icao_code_view f"
    using fixed_ident_from_parts_cases(1)[OF le] by auto
  with fixed_ident_ext[of g f] assms show ?thesis by simp
qed

lemma fixed_ident_less_lex:
  assumes "fixed_ident_wf f" and "fixed_ident_wf g"
  shows "fixed_ident_less f g \<longleftrightarrow>
    ident_view f < ident_view g \<or> ident_view f = ident_view g \<and> icao_code_view f < icao_code_view g"
proof -
  note wf = fixed_ident_wf_lengths[OF assms(1)] fixed_ident_wf_lengths[OF assms(2)]
  let ?m = "unat (fi_ident_len f)" and ?n = "unat (fi_ident_len g)"
  have p1: "prefix_less (fi_ident f) ?m (fi_ident g) ?n \<longleftrightarrow> ident_view f < ident_view g"
    using prefix_less_lex[OF wf(1) wf(5)] by (simp add: ident_view_def)
  have p2: "prefix_less (fi_icao_code f) (unat (fi_icao_code_len f)) (fi_icao_code g)
      (unat (fi_icao_code_len g)) \<longleftrightarrow> icao_code_view f < icao_code_view g"
    using prefix_less_lex[OF wf(2) wf(6)] by (simp add: icao_code_view_def)
  have e1: "ident_view f = ident_view g \<longleftrightarrow>
      ?m = ?n \<and> memcmp (fi_ident f) (fi_ident g) (min ?m ?n) = 0"
    using take_eq_take_same[OF wf(1) wf(5)] memcmp_eq_0[of "min ?m ?n" "fi_ident f" "fi_ident g"]
      wf(1,5) by (auto simp: ident_view_def)
  show ?thesis
    using p1 p2 e1
    by (auto simp: fixed_ident_less_def prefix_less_def Let_def word_less_nat_alt word_unat_eq_iff
        split: if_splits)
qed

section \<open>FixedName\<close>

text \<open>
  \<open>FixedName<N>\<close> with its capacity \<open>N - 1\<close> as an explicit argument of the constructor;
  \<open>FixedName8\<close> has capacity 7.
\<close>

record fixed_name =
  fn_text :: string
  fn_len :: u8

definition fixed_name8_cap :: nat where "fixed_name8_cap = 7"

definition name_view :: "fixed_name \<Rightarrow> string" where
  "name_view f = take (unat (fn_len f)) (fn_text f)"

definition fixed_name_less :: "fixed_name \<Rightarrow> fixed_name \<Rightarrow> bool" where
  "fixed_name_less f g =
     (let c = memcmp (fn_text f) (fn_text g) (min (unat (fn_len f)) (unat (fn_len g)))
      in if c \<noteq> 0 then c < 0 else fn_len f < fn_len g)"

definition fixed_name_eq :: "fixed_name \<Rightarrow> fixed_name \<Rightarrow> bool" where
  "fixed_name_eq f g \<longleftrightarrow>
     fn_len f = fn_len g \<and> memcmp (fn_text f) (fn_text g) (unat (fn_len f)) = 0"

definition fixed_name_from :: "nat \<Rightarrow> string \<Rightarrow> fixed_name result" where
  "fixed_name_from cap s =
     (if cap < length s then
        Inl (mk_error KInvalidArgument
          (''name '' @ [CHR 0x27] @ s @ [CHR 0x27] @ '' exceeds FixedName::kCap ('' @
           dec_of_nat (length s) @ '' > '' @ dec_of_nat cap @ '')''))
      else Inr \<lparr>fn_text = pad_to cap s, fn_len = of_nat (length s)\<rparr>)"

definition fixed_name_wf :: "nat \<Rightarrow> fixed_name \<Rightarrow> bool" where
  "fixed_name_wf cap f \<longleftrightarrow>
     cap < 256 \<and> unat (fn_len f) \<le> cap \<and> fn_text f = pad_to cap (name_view f)"

lemma fixed_name_wf_lengths:
  assumes "fixed_name_wf cap f"
  shows "unat (fn_len f) \<le> length (fn_text f)" and "length (name_view f) = unat (fn_len f)"
proof -
  have "length (fn_text f) = cap"
    using assms unfolding fixed_name_wf_def name_view_def
    by (metis length_pad_to length_take min.bounded_iff min.cobounded2 order.trans)
  then show "unat (fn_len f) \<le> length (fn_text f)" using assms by (simp add: fixed_name_wf_def)
  then show "length (name_view f) = unat (fn_len f)" by (simp add: name_view_def)
qed

lemma fixed_name_from_Ok:
  assumes "cap < 256" and "length s \<le> cap"
  shows "\<exists>f. fixed_name_from cap s = Inr f \<and> fixed_name_wf cap f \<and> name_view f = s"
  using assms by (auto simp: fixed_name_from_def fixed_name_wf_def name_view_def unat_of_nat_small)

lemma fixed_name_from_OkD:
  assumes "fixed_name_from cap s = Inr f" and "cap < 256"
  shows "fixed_name_wf cap f" and "name_view f = s" and "length s \<le> cap"
  using assms fixed_name_from_Ok[OF assms(2), of s]
  by (auto simp: fixed_name_from_def split: if_splits)

lemma fixed_name_less_lex:
  assumes "fixed_name_wf c f" and "fixed_name_wf d g"
  shows "fixed_name_less f g \<longleftrightarrow> name_view f < name_view g"
  using prefix_less_lex[OF fixed_name_wf_lengths(1)[OF assms(1)] fixed_name_wf_lengths(1)[OF assms(2)]]
  by (auto simp: fixed_name_less_def prefix_less_def Let_def name_view_def word_less_nat_alt)

lemma fixed_name_eq_iff:
  assumes "fixed_name_wf c f" and "fixed_name_wf d g"
  shows "fixed_name_eq f g \<longleftrightarrow> name_view f = name_view g"
proof -
  note wf = fixed_name_wf_lengths[OF assms(1)] fixed_name_wf_lengths[OF assms(2)]
  have "name_view f = name_view g \<Longrightarrow> fn_len f = fn_len g"
    using wf(2,4) by (metis word_unat_eq_iff)
  then show ?thesis
    using memcmp_eq_0[of "unat (fn_len f)" "fn_text f" "fn_text g"] wf
    by (auto simp: fixed_name_eq_def name_view_def)
qed

lemma fixed_ident_eq_iff:
  assumes "fixed_ident_wf f" "fixed_ident_wf g"
  shows "fixed_ident_eq f g \<longleftrightarrow> ident_view f = ident_view g \<and> icao_code_view f = icao_code_view g"
proof -
  note wf = fixed_ident_wf_lengths [OF assms(1)] fixed_ident_wf_lengths [OF assms(2)]
  have "ident_view f = ident_view g \<Longrightarrow> fi_ident_len f = fi_ident_len g"
    "icao_code_view f = icao_code_view g \<Longrightarrow> fi_icao_code_len f = fi_icao_code_len g"
    using wf by (metis word_unat_eq_iff)+
  then show ?thesis
    using memcmp_eq_0 [of "unat (fi_ident_len f)" "fi_ident f" "fi_ident g"]
      memcmp_eq_0 [of "unat (fi_icao_code_len f)" "fi_icao_code f" "fi_icao_code g"] wf
    by (auto simp: fixed_ident_eq_def ident_view_def icao_code_view_def)
qed

section \<open>Lookup in a sorted table\<close>

text \<open>
  The lookup the sorted tables share: \<open>std::lower_bound\<close> on the keys, then one comparison. It finds the
  first entry of that name, as a lookup in the association list of the names does.
\<close>

lemma sorted_name_lookup:
  assumes s: "sorted (map (\<lambda>e. name_view (fst e)) index)" and w: "\<forall>e \<in> set index. fixed_name_wf fixed_name8_cap (fst e)"
  shows "(case fixed_name_from fixed_name8_cap name of
      Inl _ \<Rightarrow> None
    | Inr key \<Rightarrow>
        let i = lower_bound (\<lambda>e. fixed_name_less (fst e) key) index in
        if i < length index \<and> fixed_name_eq (fst (index ! i)) key then Some (snd (index ! i)) else None) =
    (if length name \<le> fixed_name8_cap then map_of (map (\<lambda>e. (name_view (fst e), snd e)) index) name else None)"
proof (cases "length name \<le> fixed_name8_cap")
  case True
  have cap: "fixed_name8_cap < 256" by (simp add: fixed_name8_cap_def)
  obtain key where key: "fixed_name_from fixed_name8_cap name = Inr key"
      "fixed_name_wf fixed_name8_cap key" "name_view key = name"
    using fixed_name_from_Ok [OF cap True] by blast
  let ?p = "\<lambda>e. fixed_name_less (fst e) key"
  have p: "?p e \<longleftrightarrow> name_view (fst e) < name" if "e \<in> set index" for e
    using fixed_name_less_lex [OF bspec [OF w that] key(2)] key(3) by simp
  have "partitioned ?p index"
    unfolding partitioned_def
  proof (intro allI impI)
    fix i j assume ij: "i \<le> j" "j < length index" "?p (index ! j)"
    have "name_view (fst (index ! i)) \<le> name_view (fst (index ! j))"
      using sorted_nth_mono [OF s ij(1)] ij by simp
    then show "?p (index ! i)" using p ij by (meson nth_mem order.strict_trans1)
  qed
  then have lb: "lower_bound ?p index = length (takeWhile ?p index)" by (rule lower_bound_eq_takeWhile)
  have eq: "fixed_name_eq (fst e) key \<longleftrightarrow> name_view (fst e) = name" if "e \<in> set index" for e
    using fixed_name_eq_iff [OF bspec [OF w that] key(2)] key(3) by simp
  have "(let i = length (takeWhile ?p es) in
        if i < length es \<and> fixed_name_eq (fst (es ! i)) key then Some (snd (es ! i)) else None) =
      map_of (map (\<lambda>e. (name_view (fst e), snd e)) es) name"
    if "set es \<subseteq> set index" "sorted (map (\<lambda>e. name_view (fst e)) es)" for es
    using that
  proof (induction es)
    case (Cons e es)
    have e: "e \<in> set index" using Cons.prems(1) by simp
    show ?case
    proof (cases "name_view (fst e) < name")
      case True
      then show ?thesis using Cons p [OF e] by (auto simp: Let_def)
    next
      case False
      have "name_view (fst e) \<noteq> name \<Longrightarrow> name \<notin> (\<lambda>x. name_view (fst x)) ` set es"
        using Cons.prems(2) False by auto
      then have "name_view (fst e) \<noteq> name \<Longrightarrow> map_of (map (\<lambda>e. (name_view (fst e), snd e)) es) name = None"
        by (simp add: map_of_eq_None_iff image_image)
      then show ?thesis using False p [OF e] eq [OF e] by (auto simp: Let_def)
    qed
  qed simp
  from this [OF order.refl s] show ?thesis using True by (simp add: key(1) lb)
next
  case False
  then obtain e where "fixed_name_from fixed_name8_cap name = Inl e"
    by (auto simp: fixed_name_from_def)
  then show ?thesis using False by simp
qed

section \<open>Properties\<close>

text \<open>
  \<open>FromParts\<close> accepts exactly the identifiers that fit its two buffers (7 and 3 characters),
  and what it stores reads back unchanged through \<open>ToIdent\<close>; anything longer is an
  invalid-argument error, never a truncation.
\<close>

theorem fixed_ident_roundtrip:
  "case fixed_ident_from_parts idt icao of
     Inr f \<Rightarrow> length idt \<le> 7 \<and> length icao \<le> 3 \<and>
       fixed_ident_to_ident f = \<lparr>id_ident = idt, id_icao_code = icao\<rparr>
   | Inl e \<Rightarrow> err_code e = KInvalidArgument \<and> (7 < length idt \<or> 3 < length icao)"
proof (cases "length idt \<le> 7 \<and> length icao \<le> 3")
  case True
  then show ?thesis using fixed_ident_from_parts_cases(1) [of idt icao]
    by (auto simp: fixed_ident_to_ident_def)
next
  case False
  then have "7 < length idt \<or> 3 < length icao" by auto
  with fixed_ident_from_parts_cases(2) [of idt icao] show ?thesis by auto
qed

text \<open>
  The \<open>memcmp\<close>-based order on fixed identifiers is the lexicographic order on the pairs
  (identifier, ICAO code), so every sorted index over them is sorted by those strings, and two
  fixed identifiers compare equal exactly when both strings agree.
\<close>

theorem fixed_ident_order:
  assumes "fixed_ident_from_parts a ai = Inr f" and "fixed_ident_from_parts b bi = Inr g"
  shows "(fixed_ident_less f g \<longleftrightarrow> a < b \<or> a = b \<and> ai < bi) \<and>
    (fixed_ident_eq f g \<longleftrightarrow> a = b \<and> ai = bi)"
proof -
  note f = fixed_ident_from_parts_OkD [OF assms(1)] and g = fixed_ident_from_parts_OkD [OF assms(2)]
  show ?thesis using fixed_ident_less_lex [OF f(1) g(1)] fixed_ident_eq_iff [OF f(1) g(1)] f g by simp
qed

lemma fixed_ident_order_witness:
  "\<exists>f g. fixed_ident_from_parts ''KAT'' ''K6'' = Inr f \<and> fixed_ident_from_parts ''KATL'' ''K7'' = Inr g \<and>
     fixed_ident_less f g \<and> \<not> fixed_ident_eq f g"
proof -
  obtain f g where fg: "fixed_ident_from_parts ''KAT'' ''K6'' = Inr f"
      "fixed_ident_from_parts ''KATL'' ''K7'' = Inr g"
    using fixed_ident_from_parts_cases(1) [of "''KAT''" "''K6''"]
      fixed_ident_from_parts_cases(1) [of "''KATL''" "''K7''"] by auto
  moreover have "fixed_ident_less f g \<and> \<not> fixed_ident_eq f g"
    using fixed_ident_order [OF fg] by (simp add: list_less_Cons_iff)
  ultimately show ?thesis by blast
qed

end
