(* ===== verification/Procedure.thy ===== *)
theory Procedure
  imports FixedString Airway Geometry
begin

text \<open>
  \<^verbatim>\<open>core/domain/procedure.h\<close> and \<^verbatim>\<open>core/domain/procedure.cc\<close>: terminal procedures, their legs,
  and the ARINC 424 field parsers the loaders share. Floating-point members of the stored
  structures are IEEE-754 bit patterns (\<open>u32\<close> for float, \<open>u64\<close> for double), which is what the
  caches write.
\<close>

section \<open>Path terminators\<close>

datatype path_terminator =
    TF | IF | DF | CF | AF | RF | CA | FA | VA | HA | CD | FD | VD | CI | VI | CR | VR
  | FC | FM | VM | PI | HM | HF | UnknownTerm

fun terminates_at_fix :: "path_terminator \<Rightarrow> bool" where
  "terminates_at_fix TF = True"
| "terminates_at_fix IF = True"
| "terminates_at_fix DF = True"
| "terminates_at_fix CF = True"
| "terminates_at_fix AF = True"
| "terminates_at_fix RF = True"
| "terminates_at_fix HF = True"
| "terminates_at_fix _ = False"

definition parse_path_terminator :: "string \<Rightarrow> path_terminator" where
  "parse_path_terminator token =
     (if token = ''TF'' then TF else if token = ''IF'' then IF
      else if token = ''DF'' then DF else if token = ''CF'' then CF
      else if token = ''AF'' then AF else if token = ''RF'' then RF
      else if token = ''CA'' then CA else if token = ''FA'' then FA
      else if token = ''VA'' then VA else if token = ''HA'' then HA
      else if token = ''CD'' then CD else if token = ''FD'' then FD
      else if token = ''VD'' then VD else if token = ''CI'' then CI
      else if token = ''VI'' then VI else if token = ''CR'' then CR
      else if token = ''VR'' then VR else if token = ''FC'' then FC
      else if token = ''FM'' then FM else if token = ''VM'' then VM
      else if token = ''PI'' then PI else if token = ''HM'' then HM
      else if token = ''HF'' then HF else UnknownTerm)"

fun path_terminator_name :: "path_terminator \<Rightarrow> string" where
  "path_terminator_name TF = ''TF''"
| "path_terminator_name IF = ''IF''"
| "path_terminator_name DF = ''DF''"
| "path_terminator_name CF = ''CF''"
| "path_terminator_name AF = ''AF''"
| "path_terminator_name RF = ''RF''"
| "path_terminator_name CA = ''CA''"
| "path_terminator_name FA = ''FA''"
| "path_terminator_name VA = ''VA''"
| "path_terminator_name HA = ''HA''"
| "path_terminator_name CD = ''CD''"
| "path_terminator_name FD = ''FD''"
| "path_terminator_name VD = ''VD''"
| "path_terminator_name CI = ''CI''"
| "path_terminator_name VI = ''VI''"
| "path_terminator_name CR = ''CR''"
| "path_terminator_name VR = ''VR''"
| "path_terminator_name FC = ''FC''"
| "path_terminator_name FM = ''FM''"
| "path_terminator_name VM = ''VM''"
| "path_terminator_name PI = ''PI''"
| "path_terminator_name HM = ''HM''"
| "path_terminator_name HF = ''HF''"
| "path_terminator_name UnknownTerm = ''??''"

text \<open>The \<open>U8\<close> wire value is the enumerator's position.\<close>

definition path_terminators :: "path_terminator list" where
  "path_terminators =
     [TF, IF, DF, CF, AF, RF, CA, FA, VA, HA, CD, FD, VD, CI, VI, CR, VR, FC, FM, VM, PI, HM, HF,
      UnknownTerm]"

fun path_terminator_byte :: "path_terminator \<Rightarrow> u8" where
  "path_terminator_byte TF = 0" | "path_terminator_byte IF = 1" | "path_terminator_byte DF = 2"
| "path_terminator_byte CF = 3" | "path_terminator_byte AF = 4" | "path_terminator_byte RF = 5"
| "path_terminator_byte CA = 6" | "path_terminator_byte FA = 7" | "path_terminator_byte VA = 8"
| "path_terminator_byte HA = 9" | "path_terminator_byte CD = 10" | "path_terminator_byte FD = 11"
| "path_terminator_byte VD = 12" | "path_terminator_byte CI = 13" | "path_terminator_byte VI = 14"
| "path_terminator_byte CR = 15" | "path_terminator_byte VR = 16" | "path_terminator_byte FC = 17"
| "path_terminator_byte FM = 18" | "path_terminator_byte VM = 19" | "path_terminator_byte PI = 20"
| "path_terminator_byte HM = 21" | "path_terminator_byte HF = 22"
| "path_terminator_byte UnknownTerm = 23"

definition path_terminator_of_byte :: "u8 \<Rightarrow> path_terminator" where
  "path_terminator_of_byte b = path_terminators ! unat b"

lemma path_terminator_byte_inverse [simp]:
  "path_terminator_of_byte (path_terminator_byte t) = t"
  by (cases t) (simp_all add: path_terminator_of_byte_def path_terminators_def)

lemma path_terminator_byte_le [simp]: "path_terminator_byte t \<le> 23"
  by (cases t) simp_all

lemma parse_path_terminator_name: "parse_path_terminator (path_terminator_name t) = t"
  by (cases t) (simp_all add: parse_path_terminator_def)

lemma terminates_at_fix_name:
  "t \<noteq> UnknownTerm \<Longrightarrow> terminates_at_fix t \<longleftrightarrow> path_terminator_name t ! 1 = CHR ''F''"
  by (cases t) simp_all

section \<open>Altitude constraints\<close>

datatype alt_constraint_kind = AltNone | AltAt | AltAtOrAbove | AltAtOrBelow | AltBetween

definition alt_kind_byte :: "alt_constraint_kind \<Rightarrow> u8" where
  "alt_kind_byte k =
     (case k of AltNone \<Rightarrow> 0 | AltAt \<Rightarrow> 1 | AltAtOrAbove \<Rightarrow> 2 | AltAtOrBelow \<Rightarrow> 3 | AltBetween \<Rightarrow> 4)"

definition alt_kind_of_byte :: "u8 \<Rightarrow> alt_constraint_kind" where
  "alt_kind_of_byte b =
     (if b = 0 then AltNone else if b = 1 then AltAt else if b = 2 then AltAtOrAbove
      else if b = 3 then AltAtOrBelow else AltBetween)"

lemma alt_kind_byte_inverse [simp]: "alt_kind_of_byte (alt_kind_byte k) = k"
  by (cases k) (simp_all add: alt_kind_byte_def alt_kind_of_byte_def)

lemma alt_kind_byte_le [simp]: "alt_kind_byte k \<le> 4"
  by (cases k) (simp_all add: alt_kind_byte_def)

record altitude_constraint =
  ac_kind :: alt_constraint_kind
  ac_alt1_ft :: i32
  ac_alt2_ft :: i32

definition no_altitude :: altitude_constraint where
  "no_altitude = \<lparr>ac_kind = AltNone, ac_alt1_ft = 0, ac_alt2_ft = 0\<rparr>"

definition parse_alt_constraint :: "string \<Rightarrow> i32 \<Rightarrow> i32 \<Rightarrow> altitude_constraint" where
  "parse_alt_constraint desc alt1 alt2 =
     (let d = (case desc of [] \<Rightarrow> CHR '' '' | c # _ \<Rightarrow> c) in
      if d = CHR ''B'' then \<lparr>ac_kind = AltBetween, ac_alt1_ft = alt1, ac_alt2_ft = alt2\<rparr>
      else if d = CHR ''C'' then
        (if alt2 \<noteq> 0 then no_altitude\<lparr>ac_kind := AltAtOrAbove, ac_alt1_ft := alt2\<rparr>
         else no_altitude)
      else
        let kind =
          (if d \<in> {CHR ''+'', CHR ''H'', CHR ''J'', CHR ''V''} then AltAtOrAbove
           else if d \<in> {CHR ''-'', CHR ''Y''} then AltAtOrBelow
           else AltAt)
        in if alt1 = 0 then no_altitude
           else no_altitude\<lparr>ac_kind := kind, ac_alt1_ft := alt1\<rparr>)"

text \<open>
  An altitude is admitted by a constraint as its kind says; this is the meaning the header
  comment of \<open>AltitudeConstraint\<close> gives to the fields.
\<close>

definition alt_admits :: "altitude_constraint \<Rightarrow> int \<Rightarrow> bool" where
  "alt_admits a ft =
     (case ac_kind a of
        AltNone \<Rightarrow> True
      | AltAt \<Rightarrow> ft = sint (ac_alt1_ft a)
      | AltAtOrAbove \<Rightarrow> sint (ac_alt1_ft a) \<le> ft
      | AltAtOrBelow \<Rightarrow> ft \<le> sint (ac_alt1_ft a)
      | AltBetween \<Rightarrow> sint (ac_alt2_ft a) \<le> ft \<and> ft \<le> sint (ac_alt1_ft a))"

section \<open>Procedure legs and procedures\<close>

text \<open>
  \<open>'p\<close> is the number type of the published position, whose NaN says the source gave none, \<open>'f\<close> that of
  course and distance. The cache stores bit patterns for both; routing reads \<open>real option\<close> (\<open>None\<close>
  is the NaN) and \<open>real\<close>.
\<close>

record ('p, 'f) procedure_leg =
  leg_fix :: fixed_ident
  leg_fix_lat :: 'p
  leg_fix_lon :: 'p
  leg_course_deg :: 'f
  leg_distance_nm :: 'f
  leg_alt1_ft :: i32
  leg_alt2_ft :: i32
  leg_rnp_centinm :: u16
  leg_speed_limit_kt :: u16
  leg_path_term :: path_terminator
  leg_alt_kind :: alt_constraint_kind
  leg_turn_dir :: char
  leg_is_mapt :: bool
  leg_course_true :: bool

definition set_alt :: "altitude_constraint \<Rightarrow> ('p, 'f) procedure_leg \<Rightarrow> ('p, 'f) procedure_leg" where
  "set_alt a leg =
     leg\<lparr>leg_alt_kind := ac_kind a, leg_alt1_ft := ac_alt1_ft a, leg_alt2_ft := ac_alt2_ft a\<rparr>"

definition alt_of_leg :: "('p, 'f) procedure_leg \<Rightarrow> altitude_constraint" where
  "alt_of_leg leg =
     \<lparr>ac_kind = leg_alt_kind leg, ac_alt1_ft = leg_alt1_ft leg, ac_alt2_ft = leg_alt2_ft leg\<rparr>"

definition fix_is_definite :: "('p, 'f) procedure_leg \<Rightarrow> bool" where
  "fix_is_definite leg \<longleftrightarrow>
     terminates_at_fix (leg_path_term leg) \<and> ident_view (leg_fix leg) \<noteq> []"

datatype procedure_type = Sid | Star | Approach

definition procedure_type_byte :: "procedure_type \<Rightarrow> u8" where
  "procedure_type_byte t = (case t of Sid \<Rightarrow> 0 | Star \<Rightarrow> 1 | Approach \<Rightarrow> 2)"

definition procedure_type_of_byte :: "u8 \<Rightarrow> procedure_type" where
  "procedure_type_of_byte b = (if b = 0 then Sid else if b = 1 then Star else Approach)"

lemma procedure_type_byte_inverse [simp]: "procedure_type_of_byte (procedure_type_byte t) = t"
  by (cases t) (simp_all add: procedure_type_byte_def procedure_type_of_byte_def)

lemma procedure_type_byte_le [simp]: "procedure_type_byte t \<le> 2"
  by (cases t) (simp_all add: procedure_type_byte_def)

record ('p, 'f) procedure =
  proc_type :: procedure_type
  proc_name :: string
  proc_transition_ident :: string
  proc_runway :: string
  proc_route_type :: i32
  proc_legs :: "('p, 'f) procedure_leg list"

text \<open>\<open>'c\<close> is the number type of coordinates, as in the graph.\<close>

record 'c runway =
  rwy_ident :: string
  rwy_threshold :: "'c coordinate"
  rwy_elevation_ft :: i32

record ('p, 'f, 'c) cifp_data =
  cifp_procedures :: "('p, 'f) procedure list"
  cifp_runways :: "'c runway list"

type_synonym route_leg_record = "(real option, real) procedure_leg"
type_synonym route_procedure = "(real option, real) procedure"
type_synonym route_cifp = "(real option, real, real) cifp_data"

definition has_fix_coord :: "route_leg_record \<Rightarrow> bool" where
  "has_fix_coord leg \<longleftrightarrow> leg_fix_lat leg \<noteq> None \<and> leg_fix_lon leg \<noteq> None"

definition fix_coord :: "route_leg_record \<Rightarrow> point" where
  "fix_coord leg = \<lparr>latitude = the (leg_fix_lat leg), longitude = the (leg_fix_lon leg)\<rparr>"

section \<open>Field parsers\<close>

definition is_mapt_desc :: "string \<Rightarrow> bool" where
  "is_mapt_desc desc =
     (let n = min (length desc) 4; pad = take n desc @ replicate (4 - n) (CHR '' '')
      in pad ! 3 = CHR ''M'')"

definition runway_prefix :: string where "runway_prefix = ''RW''"

definition starts_with :: "string \<Rightarrow> string \<Rightarrow> bool" where
  "starts_with p s \<longleftrightarrow> take (length p) s = p"

definition normalize_runway_ident :: "string \<Rightarrow> string" where
  "normalize_runway_ident rwy =
     (if rwy = [] then []
      else if starts_with runway_prefix rwy then rwy
      else runway_prefix @ rwy)"

text \<open>\<open>std::isdigit\<close> and \<open>std::isupper\<close> in the C locale.\<close>

definition is_digit :: "char \<Rightarrow> bool" where
  "is_digit c \<longleftrightarrow> CHR ''0'' \<le> c \<and> c \<le> CHR ''9''"

definition is_upper :: "char \<Rightarrow> bool" where
  "is_upper c \<longleftrightarrow> CHR ''A'' \<le> c \<and> c \<le> CHR ''Z''"

text \<open>The digit scan: \<open>while (i < size && isdigit(name[i]) && i < 3) ++i\<close>.\<close>

function scan_runway_digits :: "string \<Rightarrow> nat \<Rightarrow> nat" where
  "scan_runway_digits name i =
     (if i < length name \<and> is_digit (name ! i) \<and> i < 3 then scan_runway_digits name (Suc i) else i)"
  by pat_completeness auto
termination
  by (relation "measure (\<lambda>(name, i). length name - i)") auto

declare scan_runway_digits.simps [simp del]

definition approach_runway_from_name :: "string \<Rightarrow> string" where
  "approach_runway_from_name name =
     (if length name < 2 \<or> \<not> is_upper (name ! 0) then []
      else if \<not> is_digit (name ! 1) then []
      else
        let dig_end = scan_runway_digits name 1;
            suffix =
              (if dig_end < length name \<and> name ! dig_end \<in> {CHR ''L'', CHR ''R'', CHR ''C''}
               then [name ! dig_end] else [])
        in runway_prefix @ take (dig_end - 1) (drop 1 name) @ suffix)"

text \<open>
  \<open>std::from_chars\<close> for \<open>int\<close> in base 10: an optional minus sign, then a non-empty run of
  digits; no match or a value out of the 32-bit range is an error. The result is the value
  and the rest of the input.
\<close>

definition digit_value :: "char \<Rightarrow> int" where
  "digit_value c = int (of_char c) - 48"

definition digits_value :: "string \<Rightarrow> int" where
  "digits_value ds = foldl (\<lambda>v c. 10 * v + digit_value c) 0 ds"

definition from_chars_int :: "string \<Rightarrow> (int \<times> string) option" where
  "from_chars_int s =
     (let neg = (s \<noteq> [] \<and> hd s = CHR ''-''); body = (if neg then tl s else s);
          ds = takeWhile is_digit body; v = (if neg then - digits_value ds else digits_value ds)
      in if ds = [] \<or> v < - (2 ^ 31) \<or> 2 ^ 31 \<le> v then None
         else Some (v, dropWhile is_digit body))"

definition parse_route_type_token :: "string \<Rightarrow> int" where
  "parse_route_type_token token =
     (if token = [] then 0
      else case from_chars_int token of
             Some (rt, rest) \<Rightarrow>
               if rest = [] then rt
               else if length token = 1 then int (of_char (token ! 0)) else 0
           | None \<Rightarrow> if length token = 1 then int (of_char (token ! 0)) else 0)"

section \<open>Properties of the parsers\<close>

lemma parse_alt_constraint_none_iff:
  "ac_kind (parse_alt_constraint desc alt1 alt2) = AltNone \<longleftrightarrow>
     (if desc \<noteq> [] \<and> hd desc = CHR ''B'' then False
      else if desc \<noteq> [] \<and> hd desc = CHR ''C'' then alt2 = 0
      else alt1 = 0)"
  by (auto simp: parse_alt_constraint_def no_altitude_def Let_def split: list.splits)

lemma set_alt_alt_of_leg [simp]: "alt_of_leg (set_alt a leg) = a"
  by (simp add: set_alt_def alt_of_leg_def)

lemma starts_with_append [simp]: "starts_with p (p @ s)"
  by (simp add: starts_with_def)

lemma starts_with_iff: "starts_with p s \<longleftrightarrow> (\<exists>r. s = p @ r)"
  unfolding starts_with_def by (metis append_eq_conv_conj append_take_drop_id)

lemma is_mapt_desc_iff: "is_mapt_desc desc \<longleftrightarrow> 4 \<le> length desc \<and> desc ! 3 = CHR ''M''"
proof (cases "4 \<le> length desc")
  case True
  then have "min (length desc) 4 = 4" by simp
  with True show ?thesis by (simp add: is_mapt_desc_def Let_def nth_append)
next
  case False
  then have "min (length desc) 4 = length desc" "length desc \<le> 3" by simp_all
  with False show ?thesis by (simp add: is_mapt_desc_def Let_def nth_append)
qed

lemma normalize_runway_ident_cases:
  "normalize_runway_ident rwy = [] \<and> rwy = [] \<or>
   starts_with runway_prefix (normalize_runway_ident rwy) \<and> rwy \<noteq> []"
  by (auto simp: normalize_runway_ident_def)

lemma normalize_runway_ident_idem:
  "normalize_runway_ident (normalize_runway_ident rwy) = normalize_runway_ident rwy"
  by (auto simp: normalize_runway_ident_def runway_prefix_def starts_with_def)

lemma scan_runway_digits_1:
  assumes "2 \<le> length name" and "is_digit (name ! 1)"
  shows "scan_runway_digits name 1 = (if 2 < length name \<and> is_digit (name ! 2) then 3 else 2)"
proof -
  have "scan_runway_digits name 1 = scan_runway_digits name 2"
    using assms by (subst scan_runway_digits.simps) (simp add: numeral_2_eq_2)
  also have "\<dots> = (if 2 < length name \<and> is_digit (name ! 2) then scan_runway_digits name 3 else 2)"
    by (subst scan_runway_digits.simps) (simp add: numeral_3_eq_3)
  also have "scan_runway_digits name 3 = 3"
    by (subst scan_runway_digits.simps) simp
  finally show ?thesis by simp
qed

text \<open>The language of the results: nothing, or RW, one or two digits and an optional side.\<close>

definition is_runway_key :: "string \<Rightarrow> bool" where
  "is_runway_key s \<longleftrightarrow>
     (\<exists>ds sfx. s = ''RW'' @ ds @ sfx \<and> (length ds = 1 \<or> length ds = 2) \<and> list_all is_digit ds \<and>
        sfx \<in> {[], ''L'', ''R'', ''C''})"

lemma take_drop_1:
  "2 \<le> length xs \<Longrightarrow> take (Suc 0) (drop (Suc 0) xs) = [xs ! 1]"
  "3 \<le> length xs \<Longrightarrow> take 2 (drop (Suc 0) xs) = [xs ! 1, xs ! 2]"
  by (auto simp: take_Suc_conv_app_nth numeral_2_eq_2)

lemma approach_runway_from_name_key:
  "approach_runway_from_name name = [] \<or> is_runway_key (approach_runway_from_name name)"
proof (cases "2 \<le> length name \<and> is_upper (name ! 0) \<and> is_digit (name ! 1)")
  case False
  then show ?thesis by (auto simp: approach_runway_from_name_def)
next
  case True
  let ?e = "scan_runway_digits name 1"
  let ?ds = "take (?e - 1) (drop 1 name)"
  have "(length ?ds = 1 \<or> length ?ds = 2) \<and> list_all is_digit ?ds"
    using True scan_runway_digits_1[of name] by (auto simp: take_drop_1)
  moreover have "approach_runway_from_name name = ''RW'' @ ?ds @
     (if ?e < length name \<and> name ! ?e \<in> {CHR ''L'', CHR ''R'', CHR ''C''} then [name ! ?e] else [])"
    using True by (simp add: approach_runway_from_name_def runway_prefix_def Let_def)
  ultimately show ?thesis unfolding is_runway_key_def by (auto 4 3)
qed

section \<open>Properties\<close>

text \<open>
  Path terminators survive both encodings: parsing the printed two-letter name and reading the
  cached byte give the terminator back, and the byte stays within the enumeration.
\<close>

theorem path_terminator_roundtrip:
  "parse_path_terminator (path_terminator_name t) = t \<and>
   path_terminator_of_byte (path_terminator_byte t) = t \<and> path_terminator_byte t \<le> 23"
  by (simp add: parse_path_terminator_name)

text \<open>
  An altitude descriptor that carries no altitude restricts nothing, except the "between"
  descriptor, which with two zero altitudes pins the crossing to 0 ft.
\<close>

theorem alt_descriptor_without_altitude:
  "alt_admits (parse_alt_constraint desc 0 0) ft = (if take 1 desc = ''B'' then ft = 0 else True)"
  by (cases desc) (auto simp: parse_alt_constraint_def alt_admits_def no_altitude_def Let_def)

text \<open>
  The runway an approach name encodes is either empty or a well-formed runway key: RW, one or two
  digits, and at most one of L, R, C; a key is never malformed whatever the name.
\<close>

theorem approach_runway_well_formed:
  "approach_runway_from_name name \<in> insert [] {s. is_runway_key s}"
  using approach_runway_from_name_key [of name] by simp

end
