(* ===== verification/Constraints.thy ===== *)
theory Constraints
  imports NavGraph RouteRequest MoraGrid Procedure
begin

unbundle bit_operations_syntax

text \<open>
  \<^verbatim>\<open>core/constraints\<close>: the edge verdicts of the six routing constraints. The class hierarchy
  is a datatype whose constructors carry the members of each class.
\<close>

section \<open>Verdicts and contexts\<close>

record edge_verdict =
  ev_allowed :: bool
  ev_extra_cost :: real

definition allow :: edge_verdict where
  "allow = \<lparr>ev_allowed = True, ev_extra_cost = 0\<rparr>"

definition block :: edge_verdict where
  "block = \<lparr>ev_allowed = False, ev_extra_cost = 0\<rparr>"

definition penalize :: "real \<Rightarrow> edge_verdict" where
  "penalize c = \<lparr>ev_allowed = True, ev_extra_cost = c\<rparr>"

record edge_context =
  ctx_edge :: "real graph_edge"
  ctx_from_coord :: point
  ctx_to_coord :: point
  ctx_from :: int

lemma verdict_simps [simp]:
  "ev_allowed allow" "ev_extra_cost allow = 0" "\<not> ev_allowed block" "ev_extra_cost block = 0"
  "ev_allowed (penalize c)" "ev_extra_cost (penalize c) = c"
  by (simp_all add: allow_def block_def penalize_def)

section \<open>Altitude band and level preference\<close>

definition evaluate_altitude_band :: "edge_context \<Rightarrow> route_request \<Rightarrow> edge_verdict" where
  "evaluate_altitude_band ctx request =
     (case rr_altitude request of
        None \<Rightarrow> allow
      | Some r \<Rightarrow>
          let e = ctx_edge ctx in
          if ge_base_fl e \<noteq> 0 \<and> max_fl r < sint (ge_base_fl e) then block
          else if ge_top_fl e \<noteq> 0 \<and> sint (ge_top_fl e) < min_fl r then block
          else allow)"

definition evaluate_level_preference :: "real \<Rightarrow> edge_context \<Rightarrow> route_request \<Rightarrow> edge_verdict" where
  "evaluate_level_preference penalty_fraction ctx request =
     (if rr_level request = LpNone then allow
      else if ge_level (ctx_edge ctx) = LevelBoth then allow
      else
        let wants_high = (rr_level request = LpHigh) in
        if (ge_level (ctx_edge ctx) = LevelHigh) = wants_high then allow
        else penalize (ge_distance_nm (ctx_edge ctx) * penalty_fraction))"

text \<open>The constructor clamps a negative fraction.\<close>

definition level_preference_fraction :: "real \<Rightarrow> real" where
  "level_preference_fraction f = (if f < 0 then 0 else f)"

section \<open>Avoided waypoints\<close>

definition dedup_sort :: "int list \<Rightarrow> int list" where
  "dedup_sort v = remdups_adj (sort v)"

definition evaluate_avoid :: "int list \<Rightarrow> edge_context \<Rightarrow> edge_verdict" where
  "evaluate_avoid vertices ctx =
     (if binary_search vertices (edge_to (ctx_edge ctx)) then block else allow)"

lemma dedup_sort_props [simp]: "sorted (dedup_sort v)" "set (dedup_sort v) = set v"
  by (simp_all add: dedup_sort_def)

section \<open>Airway rules\<close>

fun matches_any_prefix_loop :: "string \<Rightarrow> string list \<Rightarrow> bool" where
  "matches_any_prefix_loop region [] = False"
| "matches_any_prefix_loop region (p # ps) =
     (if p = [] \<or> starts_with p region then True else matches_any_prefix_loop region ps)"

definition matches_any_prefix :: "string \<Rightarrow> string list \<Rightarrow> bool" where
  "matches_any_prefix region prefixes =
     (if prefixes = [] then True else matches_any_prefix_loop region prefixes)"

fun matches_any_designator_loop :: "string \<Rightarrow> string list \<Rightarrow> rule_match \<Rightarrow> bool" where
  "matches_any_designator_loop designator [] m = False"
| "matches_any_designator_loop designator (w # ws) m =
     (if w = [] then True
      else if (if m = MatchPrefix then starts_with w designator else designator = w) then True
      else matches_any_designator_loop designator ws m)"

definition matches_any_designator :: "string \<Rightarrow> string list \<Rightarrow> rule_match \<Rightarrow> bool" where
  "matches_any_designator designator wanted m =
     (if wanted = [] then True else matches_any_designator_loop designator wanted m)"

lemma matches_any_prefix_iff:
  "matches_any_prefix region ps \<longleftrightarrow> ps = [] \<or> (\<exists>p \<in> set ps. starts_with p region)"
proof -
  have "matches_any_prefix_loop region ps \<longleftrightarrow> (\<exists>p \<in> set ps. starts_with p region)"
    by (induction ps) (auto simp: starts_with_def)
  then show ?thesis by (simp add: matches_any_prefix_def)
qed

lemma matches_any_designator_iff:
  "matches_any_designator d ws m \<longleftrightarrow>
     ws = [] \<or> [] \<in> set ws \<or> (if m = MatchPrefix then \<exists>w \<in> set ws. starts_with w d else d \<in> set ws)"
proof -
  have "matches_any_designator_loop d ws m \<longleftrightarrow>
      [] \<in> set ws \<or> (if m = MatchPrefix then \<exists>w \<in> set ws. starts_with w d else d \<in> set ws)"
    by (induction ws) auto
  then show ?thesis by (simp add: matches_any_designator_def)
qed

text \<open>\<open>std::countr_zero\<close> on 32 bits.\<close>

definition countr_zero :: "u32 \<Rightarrow> nat" where
  "countr_zero w = length (takeWhile (\<lambda>i. \<not> bit w i) [0..<32])"

lemma countr_zero_props:
  assumes "w \<noteq> 0"
  shows "countr_zero w < 32" and "bit w (countr_zero w)" and "i < countr_zero w \<Longrightarrow> \<not> bit w i"
proof -
  let ?P = "\<lambda>i. \<not> bit w i"
  have ex: "\<exists>i \<in> set [0..<32]. \<not> ?P i"
  proof (rule ccontr)
    assume "\<not> ?thesis"
    then have "\<And>i. i < 32 \<Longrightarrow> \<not> bit w i" by auto
    then have "w = 0" by (intro bit_word_eqI) simp
    with assms show False by simp
  qed
  then have lt: "length (takeWhile ?P [0..<32]) < length [0..<32]"
    by (metis length_takeWhile_le nat_less_le takeWhile_eq_all_conv takeWhile_eq_take take_all_iff)
  then show "countr_zero w < 32" by (simp add: countr_zero_def)
  from nth_length_takeWhile [OF lt] lt show "bit w (countr_zero w)" by (simp add: countr_zero_def)
  assume i: "i < countr_zero w"
  then have "takeWhile ?P [0..<32] ! i = i"
    using lt by (simp add: countr_zero_def takeWhile_nth)
  then have "i \<in> set (takeWhile ?P [0..<32])"
    using i by (metis countr_zero_def nth_mem)
  then show "\<not> bit w i" by (rule set_takeWhileD [THEN conjunct2])
qed

text \<open>The bit trick of the loop clears exactly the lowest set bit.\<close>

lemma clear_lowest_bit:
  assumes "w \<noteq> (0 :: u32)"
  shows "w AND (w - 1) = unset_bit (countr_zero w) w"
proof -
  let ?k = "countr_zero w"
  let ?y = "unset_bit ?k w"
  note k = countr_zero_props [OF assms]
  have low: "\<not> bit ?y i" if "i \<le> ?k" for i
    using that k by (cases "i = ?k") (auto simp: bit_unset_bit_iff)
  have "w = ?y OR push_bit ?k 1"
    by (rule bit_word_eqI) (use k in \<open>auto simp: bit_simps\<close>)
  also have "\<dots> = ?y + push_bit ?k 1"
    by (rule disjunctive_add [symmetric]) (use low in \<open>auto simp: bit_simps\<close>)
  finally have "w - 1 = ?y + mask ?k"
    by (simp add: mask_eq_exp_minus_1 push_bit_eq_mult)
  also have "\<dots> = ?y OR mask ?k"
    by (rule disjunctive_add) (use low in \<open>auto simp: bit_simps\<close>)
  finally have w1: "w - 1 = ?y OR mask ?k" .
  show ?thesis unfolding w1
    by (rule bit_word_eqI) (use k in \<open>auto simp: bit_simps\<close>)
qed

lemma clear_lowest_bit_less:
  assumes "w \<noteq> (0 :: u32)"
  shows "unat (w AND (w - 1)) < unat w"
proof -
  have "unat (w AND (w - 1)) \<le> unat (w - 1)"
    by (rule word_le_nat_alt [THEN iffD1], rule word_and_le1)
  also have "\<dots> = unat w - 1" by (rule unat_minus_one [OF assms])
  also have "\<dots> < unat w" using assms by (simp add: unat_gt_0)
  finally show ?thesis .
qed

text \<open>\<open>for (bits = m; bits != 0; bits &= bits - 1) frac += fractions[countr_zero(bits)]\<close>.\<close>

function sum_fractions :: "real list \<Rightarrow> u32 \<Rightarrow> real \<Rightarrow> real" where
  "sum_fractions fractions bits acc =
     (if bits = 0 then acc
      else sum_fractions fractions (bits AND (bits - 1)) (acc + fractions ! countr_zero bits))"
  by pat_completeness auto
termination
  by (relation "measure (\<lambda>(f, bits, acc). unat bits)")
    (auto intro: clear_lowest_bit_less)

declare sum_fractions.simps [simp del]

record airway_rule_tables =
  at_vertex_mask :: "u32 list"
  at_airway_mask :: "u32 list"
  at_block_bits :: u32
  at_fractions :: "real list"

definition evaluate_airway_rules :: "airway_rule_tables \<Rightarrow> edge_context \<Rightarrow> edge_verdict" where
  "evaluate_airway_rules t ctx =
     (let m = (at_vertex_mask t ! nat (ctx_from ctx) OR at_vertex_mask t ! nat (edge_to (ctx_edge ctx)))
              AND at_airway_mask t ! unat (ge_airway_id (ctx_edge ctx))
      in if m = 0 then allow
         else if m AND at_block_bits t \<noteq> 0 then block
         else penalize (ge_distance_nm (ctx_edge ctx) * sum_fractions (at_fractions t) m 0))"

lemma sum_fractions_bits:
  "sum_fractions fractions m acc = acc + (\<Sum>i \<in> {i. i < 32 \<and> bit m i}. fractions ! i)"
proof (induction fractions m acc rule: sum_fractions.induct)
  case (1 fractions bits acc)
  show ?case
  proof (cases "bits = 0")
    case True
    then show ?thesis by (simp add: sum_fractions.simps)
  next
    case False
    let ?k = "countr_zero bits"
    let ?S = "{i. i < 32 \<and> bit bits i}"
    note k = countr_zero_props [OF False]
    have "{i. i < 32 \<and> bit (bits AND (bits - 1)) i} = ?S - {?k}"
      by (auto simp: clear_lowest_bit [OF False] bit_simps)
    then have "sum_fractions fractions bits acc = acc + fractions ! ?k + (\<Sum>i \<in> ?S - {?k}. fractions ! i)"
      using "1.IH" [OF False] False by (subst sum_fractions.simps) simp
    also have "\<dots> = acc + (\<Sum>i \<in> ?S. fractions ! i)"
      using k(1,2) by (subst sum.remove [of ?S ?k]) auto
    finally show ?thesis .
  qed
qed

text \<open>The tables, read as rules: rule \<open>i\<close> applies to a leg when both its bits are set.\<close>

definition rule_applies :: "airway_rule_tables \<Rightarrow> edge_context \<Rightarrow> nat \<Rightarrow> bool" where
  "rule_applies t ctx i \<longleftrightarrow> i < 32 \<and>
     (bit (at_vertex_mask t ! nat (ctx_from ctx)) i \<or>
      bit (at_vertex_mask t ! nat (edge_to (ctx_edge ctx))) i) \<and>
     bit (at_airway_mask t ! unat (ge_airway_id (ctx_edge ctx))) i"

lemma word32_eq_0_iff: "w = (0 :: u32) \<longleftrightarrow> (\<forall>i < 32. \<not> bit w i)"
  by (auto intro!: bit_word_eqI)

lemma evaluate_airway_rules_applies:
  "evaluate_airway_rules t ctx =
     (if \<forall>i. \<not> rule_applies t ctx i then allow
      else if \<exists>i. rule_applies t ctx i \<and> bit (at_block_bits t) i then block
      else penalize (ge_distance_nm (ctx_edge ctx) *
             (\<Sum>i \<in> {i. rule_applies t ctx i}. at_fractions t ! i)))"
proof -
  define m where "m = (at_vertex_mask t ! nat (ctx_from ctx) OR
    at_vertex_mask t ! nat (edge_to (ctx_edge ctx))) AND at_airway_mask t ! unat (ge_airway_id (ctx_edge ctx))"
  have app: "rule_applies t ctx i \<longleftrightarrow> i < 32 \<and> bit m i" for i
    by (auto simp: rule_applies_def m_def bit_simps)
  have 0: "m = 0 \<longleftrightarrow> (\<forall>i. \<not> rule_applies t ctx i)" by (auto simp: word32_eq_0_iff app)
  have 1: "m AND at_block_bits t \<noteq> 0 \<longleftrightarrow> (\<exists>i. rule_applies t ctx i \<and> bit (at_block_bits t) i)"
    by (auto simp: word32_eq_0_iff app bit_simps)
  have "evaluate_airway_rules t ctx = (if m = 0 then allow else if m AND at_block_bits t \<noteq> 0 then block
      else penalize (ge_distance_nm (ctx_edge ctx) * (0 + (\<Sum>i \<in> {i. i < 32 \<and> bit m i}. at_fractions t ! i))))"
    unfolding evaluate_airway_rules_def m_def [symmetric] Let_def sum_fractions_bits ..
  moreover have "{i. i < 32 \<and> bit m i} = {i. rule_applies t ctx i}" by (simp add: app)
  ultimately show ?thesis unfolding 1 0 by (simp only: add_0_left)
qed

section \<open>Random jitter\<close>

definition golden64 :: u64 where "golden64 = 0x9e3779b97f4a7c15"

definition mix_word :: "u32 \<Rightarrow> i32 \<Rightarrow> i32 \<Rightarrow> u16 \<Rightarrow> u64" where
  "mix_word seed from to airway_id =
     (let x = push_bit 32 (ucast seed) OR ucast to;
          x = x + golden64;
          x = (x XOR drop_bit 30 x) * 0xbf58476d1ce4e5b9;
          x = x XOR (ucast airway_id + golden64);
          x = (x XOR drop_bit 27 x) * 0x94d049bb133111eb;
          x = x XOR (ucast from + golden64);
          x = (x XOR drop_bit 30 x) * 0xbf58476d1ce4e5b9
      in x XOR drop_bit 31 x)"

definition hash01 :: "u32 \<Rightarrow> i32 \<Rightarrow> i32 \<Rightarrow> u16 \<Rightarrow> real" where
  "hash01 seed from to airway_id =
     real (unat (drop_bit 11 (mix_word seed from to airway_id))) * (1 / 9007199254740992)"

definition default_eps :: real where "default_eps = 1 / 20"

text \<open>The constructor clamps a negative eps.\<close>

definition randomize_eps :: "real \<Rightarrow> real" where
  "randomize_eps eps = (if eps < 0 then 0 else eps)"

definition evaluate_randomize :: "u32 \<Rightarrow> real \<Rightarrow> edge_context \<Rightarrow> edge_verdict" where
  "evaluate_randomize seed eps ctx =
     (let jitter = hash01 seed (word_of_int (ctx_from ctx)) (ge_to (ctx_edge ctx))
                     (ge_airway_id (ctx_edge ctx))
      in penalize (ge_distance_nm (ctx_edge ctx) * eps * jitter))"

lemma hash01_range: "0 \<le> hash01 seed from to awy \<and> hash01 seed from to awy < 1"
proof -
  let ?x = "mix_word seed from to awy"
  have "unat (drop_bit 11 ?x) = unat ?x div 2 ^ 11" by (rule trans [OF unat_drop_bit_eq]) (rule drop_bit_eq_div)
  also have "\<dots> < 2 ^ 53"
    using unsigned_less [where 'a = nat, of ?x] by (simp add: less_mult_imp_div_less)
  finally have "unat (drop_bit 11 ?x) < 9007199254740992" by simp
  then have "real (unat (drop_bit 11 ?x)) < 9007199254740992"
    by (metis of_nat_less_iff of_nat_numeral)
  moreover have "0 \<le> real (unat (drop_bit 11 ?x))" by (rule of_nat_0_le_iff)
  ultimately show ?thesis unfolding hash01_def by simp
qed

section \<open>Grid minimum off-route altitude along a leg\<close>

text \<open>\<open>std::remainder\<close>: the quotient is rounded to the nearest integer, ties to even.\<close>

definition round_half_even :: "real \<Rightarrow> int" where
  "round_half_even z =
     (let f = \<lfloor>z\<rfloor>; d = z - real_of_int f in
      if d < 1 / 2 then f else if 1 / 2 < d then f + 1 else if even f then f else f + 1)"

definition fp_remainder :: "real \<Rightarrow> real \<Rightarrow> real" where
  "fp_remainder x y = x - y * real_of_int (round_half_even (x / y))"

definition max_i16 :: "i16 \<Rightarrow> i16 \<Rightarrow> i16" where
  "max_i16 a b = (if sint a < sint b then b else a)"

text \<open>The cell walk: one step per crossed boundary. The record holds the loop's constants.\<close>

record cell_walk =
  cw_end_row :: int
  cw_end_col :: int
  cw_step_row :: int
  cw_step_col :: int
  cw_row_t_step :: cost
  cw_col_t_step :: cost

primrec walk_steps ::
  "nat \<Rightarrow> mora_grid \<Rightarrow> cell_walk \<Rightarrow> cost \<Rightarrow> cost \<Rightarrow> int \<Rightarrow> int \<Rightarrow> i16 \<Rightarrow> i16" where
  "walk_steps 0 grid w next_row_t next_col_t row col best = best"
| "walk_steps (Suc n) grid w next_row_t next_col_t row col best =
     (if row \<noteq> cw_end_row w \<and> (col = cw_end_col w \<or> next_row_t < next_col_t) then
        walk_steps n grid w (next_row_t + cw_row_t_step w) next_col_t (row + cw_step_row w) col
          (max_i16 best (mora_at_cell grid (row + cw_step_row w) col))
      else
        walk_steps n grid w next_row_t (next_col_t + cw_col_t_step w) row (col + cw_step_col w)
          (max_i16 best (mora_at_cell grid row (col + cw_step_col w))))"

definition walk_cells :: "mora_grid \<Rightarrow> real \<Rightarrow> real \<Rightarrow> real \<Rightarrow> real \<Rightarrow> i16 \<Rightarrow> i16" where
  "walk_cells grid lat0 lon0 lat1 lon1 best =
     (let row = \<lfloor>lat0\<rfloor>; col = \<lfloor>lon0\<rfloor>; end_row = \<lfloor>lat1\<rfloor>; end_col = \<lfloor>lon1\<rfloor>;
          dlat = lat1 - lat0; dlon = lon1 - lon0;
          w = \<lparr>cw_end_row = end_row, cw_end_col = end_col,
               cw_step_row = (if 0 < dlat then 1 else - 1),
               cw_step_col = (if 0 < dlon then 1 else - 1),
               cw_row_t_step = (if dlat \<noteq> 0 then Fin (1 / \<bar>dlat\<bar>) else Infinity),
               cw_col_t_step = (if dlon \<noteq> 0 then Fin (1 / \<bar>dlon\<bar>) else Infinity)\<rparr>;
          next_row_t = (if dlat \<noteq> 0 then
             Fin (((if 0 < dlat then real_of_int row + 1 else real_of_int row) - lat0) / dlat)
             else Infinity);
          next_col_t = (if dlon \<noteq> 0 then
             Fin (((if 0 < dlon then real_of_int col + 1 else real_of_int col) - lon0) / dlon)
             else Infinity);
          crossings = nat (\<bar>end_row - row\<bar> + \<bar>end_col - col\<bar>)
      in walk_steps crossings grid w next_row_t next_col_t row col
           (max_i16 best (mora_at_cell grid row col)))"

definition mora_great_circle_piece_deg :: real where "mora_great_circle_piece_deg = 5"

text \<open>The pieces of a long leg: \<open>todo\<close> of \<open>pieces\<close> are still to walk.\<close>

primrec walk_pieces ::
  "nat \<Rightarrow> mora_grid \<Rightarrow> nat \<Rightarrow> point \<Rightarrow> unit_vec \<Rightarrow> unit_vec \<Rightarrow> real \<Rightarrow> real \<Rightarrow> real \<Rightarrow> i16 \<Rightarrow> i16" where
  "walk_pieces 0 grid pieces to a b omega prev_lat prev_lon best = best"
| "walk_pieces (Suc todo) grid pieces to a b omega prev_lat prev_lon best =
     (let i = pieces - todo;
          t = real i / real pieces;
          wa = sin ((1 - t) * omega) / sin omega; wb = sin (t * omega) / sin omega;
          x = wa * uv_x a + wb * uv_x b; y = wa * uv_y a + wb * uv_y b; z = wa * uv_z a + wb * uv_z b;
          lat = (if i < pieces then atan2 z (sqrt (x * x + y * y)) / (pi / degrees_half_circle)
                 else latitude to);
          lon = (if i < pieces then atan2 y x / (pi / degrees_half_circle) else longitude to);
          next_lon = prev_lon + fp_remainder (lon - prev_lon) degrees_full_circle
      in walk_pieces todo grid pieces to a b omega lat next_lon
           (walk_cells grid prev_lat prev_lon lat next_lon best))"

definition max_mora_along_leg :: "mora_grid \<Rightarrow> point \<Rightarrow> point \<Rightarrow> i16" where
  "max_mora_along_leg grid from to =
     (let dlon = fp_remainder (longitude to - longitude from) degrees_full_circle in
      if max \<bar>latitude to - latitude from\<bar> \<bar>dlon\<bar> \<le> mora_great_circle_piece_deg then
        walk_cells grid (latitude from) (longitude from) (latitude to) (longitude from + dlon) 0
      else
        let deg_to_rad = pi / degrees_half_circle;
            arc_deg = distance_to from to / earth_radius_nm / deg_to_rad;
            pieces = max 2 (nat \<lceil>arc_deg / mora_great_circle_piece_deg\<rceil>);
            omega = arc_deg * deg_to_rad
        in if \<not> (1 / 10 ^ 9 < sin omega) then
             walk_cells grid (latitude from) (longitude from) (latitude to) (longitude from + dlon) 0
           else walk_pieces pieces grid pieces to (project_unit_sphere from) (project_unit_sphere to)
                  omega (latitude from) (longitude from) 0)"

definition evaluate_mora :: "mora_grid \<Rightarrow> edge_context \<Rightarrow> route_request \<Rightarrow> edge_verdict" where
  "evaluate_mora grid ctx request =
     (case rr_altitude request of
        None \<Rightarrow> allow
      | Some r \<Rightarrow>
          let mora = max_mora_along_leg grid (ctx_from_coord ctx) (ctx_to_coord ctx) in
          if mora = 0 then allow
          else if max_fl r < sint mora then block
          else allow)"

subsection \<open>The walk ends in the leg's last cell and takes the maximum over its cells\<close>

text \<open>The cells a walk visits after its first one, in order (same control flow, no reads).\<close>

primrec walk_track :: "nat \<Rightarrow> cell_walk \<Rightarrow> cost \<Rightarrow> cost \<Rightarrow> int \<Rightarrow> int \<Rightarrow> (int \<times> int) list" where
  "walk_track 0 w next_row_t next_col_t row col = []"
| "walk_track (Suc n) w next_row_t next_col_t row col =
     (if row \<noteq> cw_end_row w \<and> (col = cw_end_col w \<or> next_row_t < next_col_t) then
        (row + cw_step_row w, col) #
          walk_track n w (next_row_t + cw_row_t_step w) next_col_t (row + cw_step_row w) col
      else
        (row, col + cw_step_col w) #
          walk_track n w next_row_t (next_col_t + cw_col_t_step w) row (col + cw_step_col w))"

lemma walk_steps_track:
  "walk_steps n grid w nrt nct row col best =
     foldl max_i16 best (map (\<lambda>(r, c). mora_at_cell grid r c) (walk_track n w nrt nct row col))"
  by (induction n arbitrary: nrt nct row col best) auto

lemma sint_foldl_max_i16:
  "sint (foldl max_i16 best xs) = fold max (map sint xs) (sint best)"
  by (induction xs arbitrary: best) (auto simp: max_i16_def max_def)

lemma fold_max_ge: "(a :: int) \<le> fold max xs a \<and> (\<forall>x \<in> set xs. x \<le> fold max xs a)"
proof (induction xs arbitrary: a)
  case (Cons x xs)
  from Cons [of "max x a"] show ?case by auto
qed simp

lemma walk_track_last:
  assumes "n = nat (\<bar>er - row\<bar> + \<bar>ec - col\<bar>)"
    and "row \<noteq> er \<Longrightarrow> sr = sgn (er - row)" and "col \<noteq> ec \<Longrightarrow> sc = sgn (ec - col)"
    and [simp]: "cw_end_row w = er" "cw_end_col w = ec" "cw_step_row w = sr" "cw_step_col w = sc"
  shows "last ((row, col) # walk_track n w nrt nct row col) = (er, ec)"
  using assms(1-3)
proof (induction n arbitrary: row col nrt nct)
  case 0
  from 0(1) have "row = er \<and> col = ec" by arith
  then show ?case by simp
next
  case (Suc n)
  show ?case
  proof (cases "row \<noteq> er \<and> (col = ec \<or> nrt < nct)")
    case True
    then have sr: "sr = sgn (er - row)" using Suc.prems(2) by simp
    have n: "n = nat (\<bar>er - (row + sr)\<bar> + \<bar>ec - col\<bar>)"
      using Suc.prems(1) True sr by (auto simp: sgn_if split: if_splits)
    have s: "row + sr \<noteq> er \<Longrightarrow> sr = sgn (er - (row + sr))"
      using sr by (auto simp: sgn_if split: if_splits)
    from Suc.IH [OF n s Suc.prems(3), of "nrt + cw_row_t_step w" nct] True show ?thesis by simp
  next
    case False
    have "\<bar>er - row\<bar> + \<bar>ec - col\<bar> > 0" using Suc.prems(1) by simp
    then have ne: "col \<noteq> ec" using False by auto
    then have sc: "sc = sgn (ec - col)" using Suc.prems(3) by simp
    have n: "n = nat (\<bar>er - row\<bar> + \<bar>ec - (col + sc)\<bar>)"
      using Suc.prems(1) ne sc by (auto simp: sgn_if split: if_splits)
    have s: "col + sc \<noteq> ec \<Longrightarrow> sc = sgn (ec - (col + sc))"
      using sc by (auto simp: sgn_if split: if_splits)
    have "walk_track (Suc n) w nrt nct row col =
        (row, col + sc) # walk_track n w nrt (nct + cw_col_t_step w) row (col + sc)"
      using False by auto
    with Suc.IH [OF n Suc.prems(2) s, of nrt "nct + cw_col_t_step w"] show ?thesis
      by (simp del: walk_track.simps)
  qed
qed

lemma sgn_floor_diff:
  "\<lfloor>a\<rfloor> \<noteq> \<lfloor>b\<rfloor> \<Longrightarrow> (if 0 < b - a then 1 else - 1) = sgn (\<lfloor>b\<rfloor> - \<lfloor>a\<rfloor>)" for a b :: real
  by (auto simp: sgn_if) (metis floor_mono less_eq_real_def not_le linorder_neqE_linordered_idom order_antisym)+

lemma walk_cells_ge:
  "sint best \<le> sint (walk_cells grid lat0 lon0 lat1 lon1 best) \<and>
   sint (mora_at_cell grid \<lfloor>lat0\<rfloor> \<lfloor>lon0\<rfloor>) \<le> sint (walk_cells grid lat0 lon0 lat1 lon1 best) \<and>
   sint (mora_at_cell grid \<lfloor>lat1\<rfloor> \<lfloor>lon1\<rfloor>) \<le> sint (walk_cells grid lat0 lon0 lat1 lon1 best)"
proof -
  let ?n = "nat (\<bar>\<lfloor>lat1\<rfloor> - \<lfloor>lat0\<rfloor>\<bar> + \<bar>\<lfloor>lon1\<rfloor> - \<lfloor>lon0\<rfloor>\<bar>)"
  let ?b = "max_i16 best (mora_at_cell grid \<lfloor>lat0\<rfloor> \<lfloor>lon0\<rfloor>)"
  obtain w nrt nct where
    w: "walk_cells grid lat0 lon0 lat1 lon1 best =
      walk_steps ?n grid w nrt nct \<lfloor>lat0\<rfloor> \<lfloor>lon0\<rfloor> ?b"
    and e: "cw_end_row w = \<lfloor>lat1\<rfloor>" "cw_end_col w = \<lfloor>lon1\<rfloor>"
    and s: "cw_step_row w = (if 0 < lat1 - lat0 then 1 else - 1)"
      "cw_step_col w = (if 0 < lon1 - lon0 then 1 else - 1)"
    using that unfolding walk_cells_def Let_def by (smt (verit) cell_walk.select_convs(1-4))
  let ?t = "walk_track ?n w nrt nct \<lfloor>lat0\<rfloor> \<lfloor>lon0\<rfloor>"
  let ?c = "\<lambda>(r, c). mora_at_cell grid r c"
  have val: "sint (walk_cells grid lat0 lon0 lat1 lon1 best) = fold max (map sint (map ?c ?t)) (sint ?b)"
    unfolding w walk_steps_track sint_foldl_max_i16 ..
  have b: "sint best \<le> sint ?b" "sint (?c (\<lfloor>lat0\<rfloor>, \<lfloor>lon0\<rfloor>)) \<le> sint ?b"
    by (simp_all add: max_i16_def)
  note ge = fold_max_ge [of "sint ?b" "map sint (map ?c ?t)"]
  have "last ((\<lfloor>lat0\<rfloor>, \<lfloor>lon0\<rfloor>) # ?t) = (\<lfloor>lat1\<rfloor>, \<lfloor>lon1\<rfloor>)"
    by (rule walk_track_last [OF refl _ _ e refl refl])
      (simp_all only: s, (rule sgn_floor_diff, simp)+)
  then have "(\<lfloor>lat1\<rfloor>, \<lfloor>lon1\<rfloor>) \<in> set ((\<lfloor>lat0\<rfloor>, \<lfloor>lon0\<rfloor>) # ?t)"
    by (metis last_in_set list.distinct(1))
  then have "sint (?c (\<lfloor>lat1\<rfloor>, \<lfloor>lon1\<rfloor>)) \<le> fold max (map sint (map ?c ?t)) (sint ?b)"
    using ge b by auto
  with ge b show ?thesis unfolding val by auto
qed

section \<open>Dispatch\<close>

datatype edge_constraint =
    AltitudeBand
  | MoraFloor mora_grid
  | LevelPreference real
  | AvoidWaypoint "int list"
  | AirwayRules airway_rule_tables
  | Randomize u32 real

fun evaluate :: "edge_constraint \<Rightarrow> edge_context \<Rightarrow> route_request \<Rightarrow> edge_verdict" where
  "evaluate AltitudeBand ctx request = evaluate_altitude_band ctx request"
| "evaluate (MoraFloor grid) ctx request = evaluate_mora grid ctx request"
| "evaluate (LevelPreference f) ctx request = evaluate_level_preference f ctx request"
| "evaluate (AvoidWaypoint vs) ctx request = evaluate_avoid vs ctx"
| "evaluate (AirwayRules t) ctx request = evaluate_airway_rules t ctx"
| "evaluate (Randomize seed eps) ctx request = evaluate_randomize seed eps ctx"

subsection \<open>The contract of a constraint\<close>

text \<open>
  What the search relies on: a constraint with sound parameters never lowers the cost of an edge
  it is defined on, so the heuristic stays a lower bound. \<open>names\<close> is the size of the airway
  name table and \<open>vertices\<close> the number of vertices.
\<close>

fun constraint_sound :: "nat \<Rightarrow> int \<Rightarrow> edge_constraint \<Rightarrow> bool" where
  "constraint_sound names vertices (LevelPreference f) = (0 \<le> f)"
| "constraint_sound names vertices (AirwayRules t) =
     ((\<forall>f \<in> set (at_fractions t). 0 \<le> f) \<and>
      length (at_airway_mask t) = names \<and> int (length (at_vertex_mask t)) = vertices \<and>
      (\<forall>m \<in> set (at_airway_mask t). \<forall>i < 32. bit m i \<longrightarrow> i < length (at_fractions t)))"
| "constraint_sound names vertices (Randomize seed eps) = (0 \<le> eps)"
| "constraint_sound names vertices _ = True"

definition context_fits :: "nat \<Rightarrow> int \<Rightarrow> edge_context \<Rightarrow> bool" where
  "context_fits names vertices ctx \<longleftrightarrow>
     unat (ge_airway_id (ctx_edge ctx)) < names \<and>
     0 \<le> ctx_from ctx \<and> ctx_from ctx < vertices \<and>
     0 \<le> edge_to (ctx_edge ctx) \<and> edge_to (ctx_edge ctx) < vertices \<and>
     0 \<le> ge_distance_nm (ctx_edge ctx)"

lemma evaluate_airway_rules_sound:
  assumes "constraint_sound names vertices (AirwayRules t)" and "context_fits names vertices ctx"
  shows "0 \<le> ev_extra_cost (evaluate_airway_rules t ctx)"
proof -
  have "at_airway_mask t ! unat (ge_airway_id (ctx_edge ctx)) \<in> set (at_airway_mask t)"
    using assms by (auto simp: context_fits_def)
  then have "0 \<le> at_fractions t ! i" if "rule_applies t ctx i" for i
    using that assms(1) by (auto simp: rule_applies_def)
  then have "0 \<le> (\<Sum>i \<in> {i. rule_applies t ctx i}. at_fractions t ! i)"
    by (intro sum_nonneg) simp
  then show ?thesis
    using assms(2) by (auto simp: evaluate_airway_rules_applies context_fits_def)
qed

lemma evaluate_sound:
  assumes "constraint_sound names vertices c" and "context_fits names vertices ctx"
  shows "0 \<le> ev_extra_cost (evaluate c ctx request)"
proof (cases c)
  case AltitudeBand
  then show ?thesis
    by (simp add: evaluate_altitude_band_def Let_def split: option.split)
next
  case (MoraFloor g)
  then show ?thesis by (simp add: evaluate_mora_def Let_def split: option.split)
next
  case (LevelPreference f)
  then show ?thesis
    using assms by (simp add: evaluate_level_preference_def Let_def context_fits_def)
next
  case (AvoidWaypoint vs)
  then show ?thesis by (simp add: evaluate_avoid_def)
next
  case (AirwayRules t)
  then show ?thesis using assms evaluate_airway_rules_sound by simp
next
  case (Randomize seed eps)
  then show ?thesis
    using assms hash01_range by (simp add: evaluate_randomize_def Let_def context_fits_def)
qed

text \<open>
  The chain as the search runs it: every constraint in order, an early return on the first that
  blocks, the penalties summed. \<open>ev\<close> is the virtual call.
\<close>

primrec evaluate_chain :: "('c \<Rightarrow> edge_verdict) \<Rightarrow> 'c list \<Rightarrow> real \<Rightarrow> real option" where
  "evaluate_chain ev [] extra_cost = Some extra_cost"
| "evaluate_chain ev (c # cs) extra_cost =
     (if ev_allowed (ev c) then evaluate_chain ev cs (extra_cost + ev_extra_cost (ev c)) else None)"

locale constraint_contract =
  fixes eval :: "'c \<Rightarrow> edge_context \<Rightarrow> route_request \<Rightarrow> edge_verdict"
    and sound :: "'c \<Rightarrow> bool"
    and fits :: "edge_context \<Rightarrow> bool"
  assumes extra_nonneg: "sound c \<Longrightarrow> fits ctx \<Longrightarrow> 0 \<le> ev_extra_cost (eval c ctx r)"
begin

lemma chain_spec:
  "evaluate_chain (\<lambda>c. eval c ctx r) cs acc =
     (if \<forall>c \<in> set cs. ev_allowed (eval c ctx r)
      then Some (acc + (\<Sum>c \<leftarrow> cs. ev_extra_cost (eval c ctx r))) else None)"
  by (induction cs arbitrary: acc) (auto simp: algebra_simps)

lemma chain_nonneg:
  assumes "\<forall>c \<in> set cs. sound c" and "fits ctx" and "evaluate_chain (\<lambda>c. eval c ctx r) cs 0 = Some x"
  shows "0 \<le> x"
proof -
  have "0 \<le> (\<Sum>c \<leftarrow> cs. ev_extra_cost (eval c ctx r))"
    using assms(1,2) by (intro sum_list_nonneg) (auto intro: extra_nonneg)
  with assms(3) show ?thesis by (auto simp: chain_spec split: if_splits)
qed

end

interpretation contract: constraint_contract evaluate "constraint_sound names vertices"
    "context_fits names vertices" for names vertices
  by unfold_locales (rule evaluate_sound)

section \<open>The terrain walk covers both ends of a leg\<close>

lemma fp_remainder_lon:
  obtains k where "\<lfloor>a + fp_remainder (b - a) degrees_full_circle\<rfloor> = \<lfloor>b\<rfloor> + 360 * k"
proof -
  let ?r = "round_half_even ((b - a) / 360)"
  have "a + fp_remainder (b - a) degrees_full_circle = b + real_of_int (360 * (- ?r))"
    by (simp add: fp_remainder_def degrees_full_circle_def)
  then have "\<lfloor>a + fp_remainder (b - a) degrees_full_circle\<rfloor> = \<lfloor>b\<rfloor> + 360 * (- ?r)"
    by (metis floor_add_int)
  then show ?thesis by (rule that)
qed

lemma mora_at_remainder:
  "mora_at_cell grid lat \<lfloor>a + fp_remainder (b - a) degrees_full_circle\<rfloor> = mora_at_cell grid lat \<lfloor>b\<rfloor>"
  by (metis fp_remainder_lon mora_at_cell_periodic)

lemma walk_pieces_ge:
  "todo < pieces \<Longrightarrow>
   sint best \<le> sint (walk_pieces (Suc todo) grid pieces to a b omega lat0 lon0 best) \<and>
   sint (mora_at_cell grid \<lfloor>lat0\<rfloor> \<lfloor>lon0\<rfloor>) \<le>
     sint (walk_pieces (Suc todo) grid pieces to a b omega lat0 lon0 best) \<and>
   sint (mora_at_cell grid \<lfloor>latitude to\<rfloor> \<lfloor>longitude to\<rfloor>) \<le>
     sint (walk_pieces (Suc todo) grid pieces to a b omega lat0 lon0 best)"
proof (induction todo arbitrary: lat0 lon0 best)
  case 0
  let ?lon = "lon0 + fp_remainder (longitude to - lon0) degrees_full_circle"
  have "walk_pieces (Suc 0) grid pieces to a b omega lat0 lon0 best =
      walk_cells grid lat0 lon0 (latitude to) ?lon best"
    by (simp add: Let_def)
  then show ?case
    using walk_cells_ge [of best grid lat0 lon0 "latitude to" ?lon] by (simp only: mora_at_remainder)
next
  case (Suc todo)
  obtain lat lon best' where
    w: "walk_pieces (Suc (Suc todo)) grid pieces to a b omega lat0 lon0 best =
      walk_pieces (Suc todo) grid pieces to a b omega lat lon best'"
    and b: "best' = walk_cells grid lat0 lon0 lat lon best"
    by (metis (no_types) walk_pieces.simps(2))
  have "todo < pieces" using Suc.prems by simp
  from Suc.IH [OF this, of best' lat lon] walk_cells_ge [of best grid lat0 lon0 lat lon]
  show ?case unfolding w b [symmetric] by (meson order_trans)
qed

lemma max_mora_ends:
  "sint (mora_at_cell grid \<lfloor>latitude from\<rfloor> \<lfloor>longitude from\<rfloor>) \<le> sint (max_mora_along_leg grid from to) \<and>
   sint (mora_at_cell grid \<lfloor>latitude to\<rfloor> \<lfloor>longitude to\<rfloor>) \<le> sint (max_mora_along_leg grid from to)"
proof -
  let ?lon = "longitude from + fp_remainder (longitude to - longitude from) degrees_full_circle"
  have short: "sint (mora_at_cell grid \<lfloor>latitude from\<rfloor> \<lfloor>longitude from\<rfloor>) \<le>
      sint (walk_cells grid (latitude from) (longitude from) (latitude to) ?lon 0) \<and>
    sint (mora_at_cell grid \<lfloor>latitude to\<rfloor> \<lfloor>longitude to\<rfloor>) \<le>
      sint (walk_cells grid (latitude from) (longitude from) (latitude to) ?lon 0)"
    using walk_cells_ge [of 0 grid "latitude from" "longitude from" "latitude to" ?lon]
    by (simp only: mora_at_remainder)
  have long: "sint (mora_at_cell grid \<lfloor>latitude from\<rfloor> \<lfloor>longitude from\<rfloor>) \<le>
      sint (walk_pieces n grid n to a b omega (latitude from) (longitude from) 0) \<and>
    sint (mora_at_cell grid \<lfloor>latitude to\<rfloor> \<lfloor>longitude to\<rfloor>) \<le>
      sint (walk_pieces n grid n to a b omega (latitude from) (longitude from) 0)" if n: "2 \<le> n" for n a b omega
  proof -
    obtain m where m: "n = Suc m" using n by (cases n) auto
    then have "m < n" by simp
    from walk_pieces_ge [OF this, of 0 grid to a b omega "latitude from" "longitude from"] show ?thesis
      unfolding m by (simp only: simp_thms)
  qed
  show ?thesis
    unfolding max_mora_along_leg_def Let_def using short long by (auto simp only: max.cobounded1 split: if_split)
qed

section \<open>Properties\<close>


definition sample_context :: edge_context where
  "sample_context =
     \<lparr>ctx_edge = \<lparr>ge_to = 1, ge_distance_nm = 60, ge_airway_id = 0, ge_base_fl = 0, ge_top_fl = 0,
        ge_level = LevelLow\<rparr>,
      ctx_from_coord = \<lparr>latitude = 45, longitude = 7\<rparr>, ctx_to_coord = \<lparr>latitude = 45, longitude = 7\<rparr>,
      ctx_from = 0\<rparr>"


text \<open>
  The random jitter is a bounded surcharge: for a non-negative distance it never blocks an edge
  and adds at least 0 and at most eps times its length, whatever the seed, so it keeps the heuristic
  admissible. The eps is the constructor's, which clamps a negative one to 0.
\<close>

theorem randomize_bounded:
  assumes "0 \<le> ge_distance_nm (ctx_edge ctx)"
  shows "ev_allowed (evaluate_randomize seed (randomize_eps eps) ctx) \<and>
    0 \<le> ev_extra_cost (evaluate_randomize seed (randomize_eps eps) ctx) \<and>
    ev_extra_cost (evaluate_randomize seed (randomize_eps eps) ctx) \<le>
      ge_distance_nm (ctx_edge ctx) * max 0 eps"
proof -
  define h where "h = hash01 seed (word_of_int (ctx_from ctx)) (ge_to (ctx_edge ctx)) (ge_airway_id (ctx_edge ctx))"
  have "evaluate_randomize seed (randomize_eps eps) ctx = penalize (ge_distance_nm (ctx_edge ctx) * max 0 eps * h)"
    by (auto simp: evaluate_randomize_def randomize_eps_def h_def Let_def max_def)
  moreover have h: "0 \<le> h" "h \<le> 1" using hash01_range by (simp_all add: h_def less_imp_le)
  moreover have "0 \<le> ge_distance_nm (ctx_edge ctx) * max 0 eps" using assms by simp
  ultimately show ?thesis by (simp add: mult_left_le)
qed

lemma randomize_bounded_witness:
  "ev_extra_cost (evaluate_randomize 42 (randomize_eps default_eps) sample_context) \<le> 3"
  using randomize_bounded [of sample_context 42 default_eps]
  by (simp add: sample_context_def default_eps_def)

end
