(* ===== verification/SearchOptions.thy ===== *)
theory SearchOptions
  imports TurnPenalty Constraints
begin

text \<open>
  What shapes a search (\<^verbatim>\<open>core/graph/astar.h\<close>, \<^verbatim>\<open>core/graph/astar.cc\<close>): the node and edge
  filters, the options, the evaluation of the constraint chain on one edge, the choice among
  parallel edges, and the per-vertex tables of the seeded endpoints.
\<close>

section \<open>Filters\<close>

text \<open>\<open>(int64_t(from) << 32) | uint32_t(to)\<close>, read back as a signed 64-bit integer.\<close>

definition edge_key :: "int \<Rightarrow> int \<Rightarrow> int" where
  "edge_key from to =
     sint (push_bit 32 (word_of_int from :: 64 word) OR ucast (word_of_int to :: u32))"

record node_filter =
  nf_airport_first :: int
  nf_airport_last :: int
  nf_banned :: "int list option"

definition node_filter_default :: node_filter where
  "node_filter_default = \<lparr>nf_airport_first = no_vertex, nf_airport_last = no_vertex, nf_banned = None\<rparr>"

definition node_blocks :: "node_filter \<Rightarrow> int \<Rightarrow> bool" where
  "node_blocks f v =
     (if 0 \<le> nf_airport_first f \<and> nf_airport_first f \<le> v \<and> v < nf_airport_last f then True
      else case nf_banned f of None \<Rightarrow> False | Some banned \<Rightarrow> binary_search banned v)"

type_synonym edge_filter = "int list option"

definition edge_blocks :: "edge_filter \<Rightarrow> int \<Rightarrow> int \<Rightarrow> bool" where
  "edge_blocks f from to =
     (case f of None \<Rightarrow> False | Some banned \<Rightarrow> binary_search banned (edge_key from to))"

text \<open>On vertex ids the key determines both ends of the edge.\<close>

definition vertex_id :: "int \<Rightarrow> bool" where
  "vertex_id v \<longleftrightarrow> 0 \<le> v \<and> v < 2 ^ 31"

lemma edge_key_eq:
  assumes "vertex_id from" "vertex_id to"
  shows "edge_key from to = from * 2 ^ 32 + to"
proof -
  have b: "0 \<le> from" "from < 2 ^ 31" "0 \<le> to" "to < 2 ^ 31" using assms by (auto simp: vertex_id_def)
  have to: "ucast (word_of_int to :: u32) = (word_of_int to :: 64 word)"
    using b by (simp add: ucast_eq word_uint_eq_iff uint_word_of_int take_bit_int_eq_self_iff)
  have "push_bit 32 (word_of_int from :: 64 word) = word_of_int (from * 2 ^ 32)"
    by (simp add: push_bit_eq_mult mult.commute)
  moreover have "(word_of_int (from * 2 ^ 32) :: 64 word) OR word_of_int to =
      word_of_int (from * 2 ^ 32 OR to)"
    by (rule bit_word_eqI) (simp only: bit_or_iff bit_word_of_int_iff, blast)
  moreover have "from * 2 ^ 32 OR to = from * 2 ^ 32 + to"
  proof (rule disjunctive_add [symmetric])
    fix i
    show "\<not> bit (from * 2 ^ 32) i \<or> \<not> bit to i"
    proof (cases "i < 32")
      case True
      then have "\<not> bit (push_bit 32 from) i" by (simp add: bit_push_bit_iff_int)
      then show ?thesis unfolding push_bit_eq_mult ..
    next
      case False
      have "take_bit 32 to = to" using b by (simp add: take_bit_int_eq_self_iff)
      then have "\<not> bit to i" using False by (metis bit_take_bit_iff)
      then show ?thesis by simp
    qed
  qed
  moreover have "sint (word_of_int (from * 2 ^ 32 + to) :: 64 word) = from * 2 ^ 32 + to"
    using b by (simp add: sint_sbintrunc' signed_take_bit_int_eq_self_iff del: wi_hom_add of_int_add of_int_mult)
  ultimately show ?thesis unfolding edge_key_def to by simp
qed

lemma edge_key_inj:
  assumes "vertex_id u" "vertex_id v" "vertex_id u'" "vertex_id v'"
  shows "edge_key u v = edge_key u' v' \<longleftrightarrow> u = u' \<and> v = v'"
proof -
  have "u = u' \<and> v = v'" if "u * 2 ^ 32 + v = u' * 2 ^ 32 + v'"
  proof -
    have b: "0 \<le> v" "v < 4294967296" "0 \<le> v'" "v' < 4294967296"
      using assms by (auto simp: vertex_id_def)
    have e: "u * 4294967296 + v = u' * 4294967296 + v'" using that by simp
    have "(u * 4294967296 + v) div 4294967296 = u" "(u' * 4294967296 + v') div 4294967296 = u'"
      using b by (simp_all add: div_pos_pos_trivial)
    with e show ?thesis by auto
  qed
  then show ?thesis using assms by (auto simp: edge_key_eq)
qed

section \<open>Options\<close>

record search_options =
  so_constraints :: "edge_constraint list"
  so_request :: "route_request option"
  so_turn_penalty :: turn_penalty
  so_node_filter :: node_filter
  so_edge_filter :: edge_filter

definition search_options_default :: search_options where
  "search_options_default =
     \<lparr>so_constraints = [], so_request = None, so_turn_penalty = \<lparr>tp_enabled = False\<rparr>,
      so_node_filter = node_filter_default, so_edge_filter = None\<rparr>"

text \<open>\<open>EdgeAllowed\<close>: \<open>None\<close> when a constraint blocks, else the summed extra cost.\<close>

definition edge_allowed ::
  "search_options \<Rightarrow> real graph_edge \<Rightarrow> int \<Rightarrow> point \<Rightarrow> nav_graph \<Rightarrow> int \<Rightarrow> real option" where
  "edge_allowed options edge from from_coord graph to =
     (if so_constraints options = [] then Some 0
      else case so_request options of
          None \<Rightarrow> None
        | Some request \<Rightarrow>
            let ctx = \<lparr>ctx_edge = edge, ctx_from_coord = from_coord,
                       ctx_to_coord = coord_of graph to, ctx_from = from\<rparr>
            in evaluate_chain (\<lambda>c. evaluate c ctx request) (so_constraints options) 0)"

section \<open>The cheapest allowed parallel edge\<close>

type_synonym choice = "(real graph_edge \<times> real) option"

definition best_cost :: "choice \<Rightarrow> cost" where
  "best_cost b = (case b of None \<Rightarrow> Infinity | Some (e, c) \<Rightarrow> Fin c)"

primrec select_loop ::
  "real graph_edge list \<Rightarrow> nav_graph \<Rightarrow> int \<Rightarrow> int \<Rightarrow> search_options \<Rightarrow> choice \<Rightarrow> choice" where
  "select_loop [] graph from to options best = best"
| "select_loop (e # es) graph from to options best =
     select_loop es graph from to options
       (if edge_to e \<noteq> to then best
        else case edge_allowed options e from (coord_of graph from) graph to of
            None \<Rightarrow> best
          | Some extra_cost \<Rightarrow>
              let total = ge_distance_nm e + extra_cost in
              if Fin total < best_cost best then Some (e, total) else best)"

definition select_edge :: "nav_graph \<Rightarrow> int \<Rightarrow> int \<Rightarrow> search_options \<Rightarrow> choice" where
  "select_edge graph from to options = select_loop (out_edges graph from) graph from to options None"

text \<open>The effective cost of one edge, when it is usable at all.\<close>

definition edge_cost :: "nav_graph \<Rightarrow> search_options \<Rightarrow> int \<Rightarrow> real graph_edge \<Rightarrow> real option" where
  "edge_cost graph options from e =
     (case edge_allowed options e from (coord_of graph from) graph (edge_to e) of
        None \<Rightarrow> None | Some extra \<Rightarrow> Some (ge_distance_nm e + extra))"

lemma select_loop_append:
  "select_loop (xs @ ys) g u v opts b = select_loop ys g u v opts (select_loop xs g u v opts b)"
  by (induction xs arbitrary: b) simp_all

lemma select_loop_snoc:
  "select_loop (xs @ [e]) g u v opts b =
     (let s = select_loop xs g u v opts b in
      if edge_to e \<noteq> v then s
      else case edge_cost g opts u e of None \<Rightarrow> s
        | Some c \<Rightarrow> if Fin c < best_cost s then Some (e, c) else s)"
  by (auto simp: select_loop_append edge_cost_def Let_def split: option.split)

text \<open>The choice is the first among the cheapest usable parallel edges.\<close>

lemma select_loop_spec:
  "case select_loop es g u v opts None of
     None \<Rightarrow> \<forall>e \<in> set es. edge_to e = v \<longrightarrow> edge_cost g opts u e = None
   | Some (e, c) \<Rightarrow> e \<in> set es \<and> edge_to e = v \<and> edge_cost g opts u e = Some c \<and>
       (\<forall>e' \<in> set es. \<forall>c'. edge_to e' = v \<longrightarrow> edge_cost g opts u e' = Some c' \<longrightarrow> c \<le> c')"
proof (induction es rule: rev_induct)
  case (snoc x xs)
  then show ?case
    by (auto simp: select_loop_snoc Let_def best_cost_def split: option.splits prod.splits if_splits)
qed simp

lemma select_edge_Some:
  assumes "select_edge g u v opts = Some (e, c)"
  shows "e \<in> set (out_edges g u)" and "edge_to e = v" and "edge_cost g opts u e = Some c"
    and "e' \<in> set (out_edges g u) \<Longrightarrow> edge_to e' = v \<Longrightarrow> edge_cost g opts u e' = Some c' \<Longrightarrow> c \<le> c'"
  using select_loop_spec [of "out_edges g u" v g opts u] assms by (auto simp: select_edge_def)

lemma select_edge_None:
  "select_edge g u v opts = None \<longleftrightarrow>
     (\<forall>e \<in> set (out_edges g u). edge_to e = v \<longrightarrow> edge_cost g opts u e = None)"
  using select_loop_spec [of "out_edges g u" v g opts u]
  by (auto simp: select_edge_def split: option.splits prod.splits)

section \<open>Seeded endpoints\<close>

record seeded_endpoint =
  se_vertex :: int
  se_cost :: real
  se_bearing :: real

definition build_seed_table :: "seeded_endpoint list \<Rightarrow> int \<Rightarrow> real list" where
  "build_seed_table endpoints n =
     foldl (\<lambda>seed e.
       if se_vertex e < 0 \<or> n \<le> se_vertex e then seed
       else if seed ! nat (se_vertex e) < 0 \<or> se_cost e < seed ! nat (se_vertex e)
       then seed[nat (se_vertex e) := se_cost e] else seed)
     (replicate (nat n) (- 1)) endpoints"

text \<open>The pair of tables the bearing loop keeps.\<close>

definition bearing_step :: "int \<Rightarrow> real list \<times> real list \<Rightarrow> seeded_endpoint \<Rightarrow> real list \<times> real list" where
  "bearing_step n = (\<lambda>(bearing, best_seed) e.
     if se_vertex e < 0 \<or> n \<le> se_vertex e then (bearing, best_seed)
     else if best_seed ! nat (se_vertex e) < 0 \<or> se_cost e < best_seed ! nat (se_vertex e)
     then (bearing[nat (se_vertex e) := se_bearing e], best_seed[nat (se_vertex e) := se_cost e])
     else (bearing, best_seed))"

definition build_bearing_table :: "seeded_endpoint list \<Rightarrow> int \<Rightarrow> real list" where
  "build_bearing_table endpoints n =
     fst (foldl (bearing_step n) (replicate (nat n) no_bearing, replicate (nat n) (- 1)) endpoints)"

definition seeds_ok :: "seeded_endpoint list \<Rightarrow> bool" where
  "seeds_ok endpoints \<longleftrightarrow> (\<forall>e \<in> set endpoints. 0 \<le> se_cost e)"

text \<open>The endpoints on a vertex, and the reference for both tables: the first cheapest of them.\<close>

definition cheapest_seed :: "seeded_endpoint list \<Rightarrow> int \<Rightarrow> seeded_endpoint option" where
  "cheapest_seed endpoints v =
     foldl (\<lambda>b e. if se_vertex e \<noteq> v then b
       else case b of None \<Rightarrow> Some e | Some b' \<Rightarrow> if se_cost e < se_cost b' then Some e else b)
     None endpoints"

lemma cheapest_seed_snoc:
  "cheapest_seed (es @ [e]) v =
     (if se_vertex e \<noteq> v then cheapest_seed es v
      else case cheapest_seed es v of None \<Rightarrow> Some e
        | Some b \<Rightarrow> if se_cost e < se_cost b then Some e else Some b)"
  by (simp add: cheapest_seed_def split: option.split)

lemma cheapest_seed_spec:
  "case cheapest_seed es v of
     None \<Rightarrow> \<forall>e \<in> set es. se_vertex e \<noteq> v
   | Some b \<Rightarrow> b \<in> set es \<and> se_vertex b = v \<and> (\<forall>e \<in> set es. se_vertex e = v \<longrightarrow> se_cost b \<le> se_cost e)"
proof (induction es rule: rev_induct)
  case Nil
  show ?case by (simp add: cheapest_seed_def)
next
  case (snoc x xs)
  then show ?case by (auto simp: cheapest_seed_snoc split: option.splits if_splits)
qed

lemma length_build_seed_table [simp]: "length (build_seed_table es n) = nat n"
  by (induction es rule: rev_induct) (simp_all add: build_seed_table_def)

lemma build_seed_table_cheapest:
  assumes "seeds_ok es" "0 \<le> v" "v < n"
  shows "build_seed_table es n ! nat v = (case cheapest_seed es v of None \<Rightarrow> - 1 | Some b \<Rightarrow> se_cost b)"
  using assms(1)
proof (induction es rule: rev_induct)
  case Nil
  show ?case using assms by (simp add: build_seed_table_def cheapest_seed_def)
next
  case (snoc e es)
  have len: "nat v < length (build_seed_table es n)" using assms by simp
  have ih: "build_seed_table es n ! nat v = (case cheapest_seed es v of None \<Rightarrow> - 1 | Some b \<Rightarrow> se_cost b)"
    using snoc by (simp add: seeds_ok_def)
  have nonneg: "0 \<le> se_cost b" if "cheapest_seed es v = Some b" for b
    using cheapest_seed_spec [of es v] that snoc.prems by (auto simp: seeds_ok_def)
  have ne: "nat (se_vertex e) = nat v \<longleftrightarrow> se_vertex e = v" if "0 \<le> se_vertex e"
    using that assms by auto
  have step: "build_seed_table (es @ [e]) n =
      (let seed = build_seed_table es n in
       if se_vertex e < 0 \<or> n \<le> se_vertex e then seed
       else if seed ! nat (se_vertex e) < 0 \<or> se_cost e < seed ! nat (se_vertex e)
       then seed[nat (se_vertex e) := se_cost e] else seed)"
    by (simp add: build_seed_table_def)
  show ?case
  proof (cases "se_vertex e = v")
    case True
    then show ?thesis unfolding step Let_def cheapest_seed_snoc
      using assms len ih nonneg by (auto split: option.splits)
  next
    case False
    then show ?thesis unfolding step Let_def cheapest_seed_snoc
      using ih ne by (auto simp: nth_list_update not_less)
  qed
qed

lemma bearing_table_invariant:
  assumes "seeds_ok es" "0 \<le> n"
  shows "case foldl (bearing_step n) (replicate (nat n) no_bearing, replicate (nat n) (- 1)) es of
    (b, s) \<Rightarrow> s = build_seed_table es n \<and> length b = nat n \<and>
      (\<forall>v. 0 \<le> v \<longrightarrow> v < n \<longrightarrow>
        b ! nat v = (case cheapest_seed es v of None \<Rightarrow> no_bearing | Some e \<Rightarrow> se_bearing e))"
  using assms(1)
proof (induction es rule: rev_induct)
  case Nil
  show ?case by (auto simp: build_seed_table_def cheapest_seed_def)
next
  case (snoc e es)
  obtain b s where bs: "foldl (bearing_step n) (replicate (nat n) no_bearing, replicate (nat n) (- 1)) es = (b, s)"
    by fastforce
  with snoc have s: "s = build_seed_table es n" and b: "length b = nat n"
    and t: "\<And>v. 0 \<le> v \<Longrightarrow> v < n \<Longrightarrow>
      b ! nat v = (case cheapest_seed es v of None \<Rightarrow> no_bearing | Some e \<Rightarrow> se_bearing e)"
    by (auto simp: seeds_ok_def)
  have so: "seeds_ok es" using snoc.prems by (simp add: seeds_ok_def)
  have nonneg: "0 \<le> se_cost x" if "cheapest_seed es v = Some x" for x v
    using cheapest_seed_spec [of es v] that so by (auto simp: seeds_ok_def)
  show ?case
  proof (cases "se_vertex e < 0 \<or> n \<le> se_vertex e")
    case True
    then show ?thesis using bs s b t
      by (auto simp: bearing_step_def build_seed_table_def cheapest_seed_snoc)
  next
    case False
    let ?v = "se_vertex e"
    have v: "0 \<le> ?v" "?v < n" using False by auto
    note tab = build_seed_table_cheapest [OF so v]
    have snd: "build_seed_table (es @ [e]) n =
        (if s ! nat ?v < 0 \<or> se_cost e < s ! nat ?v then s[nat ?v := se_cost e] else s)"
      using False by (simp add: build_seed_table_def s)
    have "b' ! nat w = (case cheapest_seed (es @ [e]) w of None \<Rightarrow> no_bearing | Some e \<Rightarrow> se_bearing e)"
      if b': "b' = (if s ! nat ?v < 0 \<or> se_cost e < s ! nat ?v then b[nat ?v := se_bearing e] else b)"
        and w: "0 \<le> w" "w < n" for w b'
    proof (cases "w = ?v")
      case True
      then show ?thesis using b' b t [OF v] tab v nonneg [of ?v] unfolding s cheapest_seed_snoc
        by (auto split: option.splits)
    next
      case False
      then have "nat ?v \<noteq> nat w" using v w by auto
      then show ?thesis using b' t [OF w] False by (simp add: cheapest_seed_snoc)
    qed
    then show ?thesis using bs b False by (auto simp: bearing_step_def snd)
  qed
qed

lemma build_bearing_table_cheapest:
  assumes "seeds_ok es" "0 \<le> v" "v < n"
  shows "build_bearing_table es n ! nat v =
    (case cheapest_seed es v of None \<Rightarrow> no_bearing | Some b \<Rightarrow> se_bearing b)"
  using bearing_table_invariant [OF assms(1), of n] assms
  by (auto simp: build_bearing_table_def split: prod.splits)

section \<open>Properties\<close>

text \<open>
  \<open>SelectEdge\<close> is the cheapest allowed parallel edge: it returns an out-edge of \<open>from\<close> that leads
  to \<open>to\<close>, with its effective cost, such that no other allowed parallel edge costs less, and it
  returns nothing only when every parallel edge is missing or blocked.
\<close>

theorem select_edge_cheapest:
  "case select_edge graph from to options of
     None \<Rightarrow> \<not> (\<exists>e. e \<in> set (out_edges graph from) \<and> edge_to e = to \<and>
       edge_cost graph options from e \<noteq> None)
   | Some (e, c) \<Rightarrow> e \<in> set (out_edges graph from) \<and> edge_to e = to \<and>
       edge_cost graph options from e = Some c \<and>
       \<not> (\<exists>e' c'. e' \<in> set (out_edges graph from) \<and> edge_to e' = to \<and>
         edge_cost graph options from e' = Some c' \<and> c' < c)"
proof (cases "select_edge graph from to options")
  case None
  then have "\<forall>e \<in> set (out_edges graph from). edge_to e = to \<longrightarrow> edge_cost graph options from e = None"
    by (simp only: select_edge_None)
  then show ?thesis unfolding None by auto
next
  case (Some x)
  obtain e c where x: "x = (e, c)" by fastforce
  note s = select_edge_Some [OF Some [unfolded x]]
  have least: "\<not> c' < c" if "e' \<in> set (out_edges graph from)" "edge_to e' = to"
    "edge_cost graph options from e' = Some c'" for e' c' using s(4) [OF that] by simp
  show ?thesis unfolding Some x using s(1-3) by (auto dest: least)
qed

text \<open>
  The seed table and the bearing table agree on the endpoint of every vertex: both read the first
  cheapest endpoint landing there, and both read their sentinel (-1) where none does, so the search
  pays a seed cost and turns from the heading of the same procedure.
\<close>

theorem endpoint_tables_agree:
  assumes "seeds_ok endpoints" and "0 \<le> v" and "v < n"
  shows "case cheapest_seed endpoints v of
      None \<Rightarrow> build_seed_table endpoints n ! nat v = - 1 \<and>
        build_bearing_table endpoints n ! nat v = no_bearing \<and> v \<notin> se_vertex ` set endpoints
    | Some b \<Rightarrow> build_seed_table endpoints n ! nat v = se_cost b \<and>
        build_bearing_table endpoints n ! nat v = se_bearing b \<and> b \<in> set endpoints \<and>
        se_vertex b = v \<and> se_cost b = Min (se_cost ` {e \<in> set endpoints. se_vertex e = v})"
proof (cases "cheapest_seed endpoints v")
  case None
  then show ?thesis
    using build_seed_table_cheapest [OF assms] build_bearing_table_cheapest [OF assms]
      cheapest_seed_spec [of endpoints v] by auto
next
  case (Some b)
  have b: "b \<in> set endpoints" "se_vertex b = v"
    "\<forall>e \<in> set endpoints. se_vertex e = v \<longrightarrow> se_cost b \<le> se_cost e"
    using cheapest_seed_spec [of endpoints v] Some by auto
  then have "se_cost b = Min (se_cost ` {e \<in> set endpoints. se_vertex e = v})"
    by (intro Min_eqI [symmetric]) auto
  then show ?thesis using Some b(1,2) build_seed_table_cheapest [OF assms]
      build_bearing_table_cheapest [OF assms] by simp
qed

lemma endpoint_tables_agree_witness:
  "build_bearing_table [\<lparr>se_vertex = 1, se_cost = 9, se_bearing = 80\<rparr>,
     \<lparr>se_vertex = 1, se_cost = 4, se_bearing = 120\<rparr>] 3 ! 1 = 120"
  using endpoint_tables_agree [of "[\<lparr>se_vertex = 1, se_cost = 9, se_bearing = 80\<rparr>,
     \<lparr>se_vertex = 1, se_cost = 4, se_bearing = 120\<rparr>]" 1 3]
  by (simp add: seeds_ok_def cheapest_seed_def)

text \<open>
  The packed edge key is injective on vertex ids, so the binary search over banned keys bans
  exactly the directed edges that were put in, never another one.
\<close>

theorem edge_filter_exact:
  assumes "\<forall>(u, v) \<in> set banned. vertex_id u \<and> vertex_id v" and "vertex_id from" and "vertex_id to"
  shows "edge_blocks (Some (sort (map (\<lambda>(u, v). edge_key u v) banned))) from to \<longleftrightarrow> (from, to) \<in> set banned"
proof -
  have "edge_key from to \<in> (\<lambda>(u, v). edge_key u v) ` set banned \<longleftrightarrow> (from, to) \<in> set banned"
  proof
    assume "edge_key from to \<in> (\<lambda>(u, v). edge_key u v) ` set banned"
    then obtain u v where "(u, v) \<in> set banned" "edge_key from to = edge_key u v" by auto
    moreover from this have "vertex_id u" "vertex_id v" using assms(1) by auto
    ultimately show "(from, to) \<in> set banned" using edge_key_inj assms(2,3) by metis
  qed force
  then show ?thesis by (simp add: edge_blocks_def binary_search_iff_mem)
qed

lemma edge_filter_exact_witness:
  "edge_blocks (Some (sort (map (\<lambda>(u, v). edge_key u v) [(3, 4), (1, 2)]))) 1 2 \<and>
   \<not> edge_blocks (Some (sort (map (\<lambda>(u, v). edge_key u v) [(3, 4), (1, 2)]))) 2 1"
proof -
  have ids: "\<forall>(u, v) \<in> set [(3, 4), (1, 2)]. vertex_id u \<and> vertex_id v" "vertex_id 1" "vertex_id 2"
    by (simp_all add: vertex_id_def)
  from edge_filter_exact [OF ids] edge_filter_exact [OF ids(1,3,2)] show ?thesis by simp
qed

end
