(* ===== verification/Heuristic.thy ===== *)
theory Heuristic
  imports SearchOptions
begin

text \<open>
  The memoized multi-goal heuristic (\<^verbatim>\<open>core/graph/astar.h\<close> and \<^verbatim>\<open>core/graph/astar.cc\<close>,
  class \<open>MultiGoalHeuristic\<close>). The mutable cache is threaded as state; the lemmas show that a call
  always returns the value of the pure function \<open>goal_bound\<close>, and that this value is a
  consistent lower bound when edges are no shorter than their chord.
\<close>

record multi_goal_heuristic =
  mh_graph :: nav_graph
  mh_goals :: "seeded_endpoint list"
  mh_goals_xyz :: "unit_vec list"
  mh_cache :: "cost list"

definition multi_goal_heuristic_new :: "nav_graph \<Rightarrow> seeded_endpoint list \<Rightarrow> multi_goal_heuristic" where
  "multi_goal_heuristic_new graph goals =
     (let n = vertex_count graph in
      \<lparr>mh_graph = graph, mh_goals = goals,
       mh_goals_xyz = map (\<lambda>g. if 0 \<le> se_vertex g \<and> se_vertex g < n
          then project_unit_sphere (coord_of graph (se_vertex g))
          else \<lparr>uv_x = 0, uv_y = 0, uv_z = 0\<rparr>) goals,
       mh_cache = replicate (nat n) (Fin (- 1))\<rparr>)"

text \<open>The sweep over the goals, with the least bound so far.\<close>

primrec sweep_goals :: "(seeded_endpoint \<times> unit_vec) list \<Rightarrow> int \<Rightarrow> unit_vec \<Rightarrow> cost \<Rightarrow> cost" where
  "sweep_goals [] n v best = best"
| "sweep_goals (x # gs) n v best =
     (case x of (gp, g) \<Rightarrow>
       if se_vertex gp < 0 \<or> n \<le> se_vertex gp then sweep_goals gs n v best
       else
         let h = Fin (earth_radius_nm * chord v g + se_cost gp)
         in sweep_goals gs n v (if h < best then h else best))"

definition heuristic_call :: "multi_goal_heuristic \<Rightarrow> int \<Rightarrow> cost \<times> multi_goal_heuristic" where
  "heuristic_call mh vertex =
     (let slot = mh_cache mh ! nat vertex in
      if 0 \<le> slot then (slot, mh)
      else
        let v = project_unit_sphere (coord_of (mh_graph mh) vertex);
            best = sweep_goals (zip (mh_goals mh) (mh_goals_xyz mh)) (int (length (mh_cache mh))) v Infinity
        in (best, mh\<lparr>mh_cache := (mh_cache mh)[nat vertex := best]\<rparr>))"

section \<open>The pure bound\<close>

definition goal_bound :: "nav_graph \<Rightarrow> seeded_endpoint list \<Rightarrow> int \<Rightarrow> cost" where
  "goal_bound graph goals v =
     foldr min (map (\<lambda>gp. Fin (earth_radius_nm *
         chord (project_unit_sphere (coord_of graph v))
               (project_unit_sphere (coord_of graph (se_vertex gp))) + se_cost gp))
       (filter (\<lambda>gp. is_vertex graph (se_vertex gp)) goals)) Infinity"

lemma min_cost_less: "(if h < b then h else b) = min h (b :: cost)"
  by (auto simp: min_def)

lemma sweep_goals_bound:
  "sweep_goals (zip goals (map (\<lambda>g. if 0 \<le> se_vertex g \<and> se_vertex g < vertex_count graph
      then project_unit_sphere (coord_of graph (se_vertex g)) else d) goals))
     (vertex_count graph) (project_unit_sphere (coord_of graph v)) best =
   min best (goal_bound graph goals v)"
proof (induction goals arbitrary: best)
  case Nil
  show ?case by (simp add: goal_bound_def min_def)
next
  case (Cons gp goals)
  then show ?case
    by (simp add: goal_bound_def is_vertex_def Let_def min_cost_less min.commute min.left_commute
        min.assoc not_less not_le)
qed

text \<open>The cache of a heuristic over a graph and its goals is coherent.\<close>

definition heuristic_ok :: "nav_graph \<Rightarrow> seeded_endpoint list \<Rightarrow> multi_goal_heuristic \<Rightarrow> bool" where
  "heuristic_ok graph goals mh \<longleftrightarrow>
     mh_graph mh = graph \<and> mh_goals mh = goals \<and>
     mh_goals_xyz mh = mh_goals_xyz (multi_goal_heuristic_new graph goals) \<and>
     length (mh_cache mh) = length (ng_coords graph) \<and>
     (\<forall>v < length (mh_cache mh). 0 \<le> mh_cache mh ! v \<longrightarrow> mh_cache mh ! v = goal_bound graph goals (int v))"

lemma heuristic_new_ok: "heuristic_ok graph goals (multi_goal_heuristic_new graph goals)"
  by (simp add: heuristic_ok_def multi_goal_heuristic_new_def Let_def vertex_count_def zero_cost_def)

lemma heuristic_call_pure:
  assumes "heuristic_ok graph goals mh" and "is_vertex graph v"
  shows "fst (heuristic_call mh v) = goal_bound graph goals v"
    and "heuristic_ok graph goals (snd (heuristic_call mh v))"
proof -
  have v: "0 \<le> v" "nat v < length (mh_cache mh)"
    using assms by (auto simp: heuristic_ok_def is_vertex_def vertex_count_def)
  have sweep: "sweep_goals (zip (mh_goals mh) (mh_goals_xyz mh)) (int (length (mh_cache mh)))
      (project_unit_sphere (coord_of (mh_graph mh) v)) Infinity = goal_bound graph goals v"
    using assms(1) sweep_goals_bound [of goals graph _ v Infinity]
    by (simp add: heuristic_ok_def multi_goal_heuristic_new_def Let_def vertex_count_def min_def)
  show "fst (heuristic_call mh v) = goal_bound graph goals v"
    using assms(1) v sweep by (auto simp: heuristic_call_def Let_def heuristic_ok_def)
  show "heuristic_ok graph goals (snd (heuristic_call mh v))"
    using assms(1) v unfolding heuristic_call_def Let_def sweep
    by (auto simp: heuristic_ok_def nth_list_update)
qed

section \<open>Lower bounds\<close>

lemma foldr_min_le: "x \<in> set xs \<Longrightarrow> foldr min xs (b :: cost) \<le> x"
  by (induction xs) (auto intro: min.coboundedI1 min.coboundedI2)

lemma foldr_min_greatest: "(\<forall>x \<in> set xs. c \<le> x) \<Longrightarrow> c \<le> b \<Longrightarrow> c \<le> foldr min xs (b :: cost)"
  by (induction xs) auto

lemma foldr_min_mem: "foldr min xs (b :: cost) = b \<or> foldr min xs b \<in> set xs"
  by (induction xs) (auto simp: min_def)

lemma goal_bound_le:
  assumes "gp \<in> set goals" "is_vertex graph (se_vertex gp)"
  shows "goal_bound graph goals v \<le> Fin (earth_radius_nm *
         chord (project_unit_sphere (coord_of graph v))
               (project_unit_sphere (coord_of graph (se_vertex gp))) + se_cost gp)"
  unfolding goal_bound_def by (rule foldr_min_le) (use assms in auto)

lemma goal_bound_at_goal:
  assumes "gp \<in> set goals" "is_vertex graph (se_vertex gp)"
  shows "goal_bound graph goals (se_vertex gp) \<le> Fin (se_cost gp)"
  using goal_bound_le [OF assms, of "se_vertex gp"] by simp

lemma goal_bound_nonneg: "seeds_ok goals \<Longrightarrow> 0 \<le> goal_bound graph goals v"
  unfolding goal_bound_def
  by (rule foldr_min_greatest)
    (auto simp: seeds_ok_def zero_cost_def intro!: add_nonneg_nonneg mult_nonneg_nonneg chord_nonneg
      less_imp_le [OF earth_radius_pos])

lemma goal_bound_infinite:
  "goal_bound graph goals v = Infinity \<longleftrightarrow> (\<forall>gp \<in> set goals. \<not> is_vertex graph (se_vertex gp))"
proof
  assume "goal_bound graph goals v = Infinity"
  then show "\<forall>gp \<in> set goals. \<not> is_vertex graph (se_vertex gp)"
    using goal_bound_le [of _ goals graph v] by fastforce
next
  assume "\<forall>gp \<in> set goals. \<not> is_vertex graph (se_vertex gp)"
  then have "filter (\<lambda>gp. is_vertex graph (se_vertex gp)) goals = []" by (simp add: filter_empty_conv)
  then show "goal_bound graph goals v = Infinity" by (simp add: goal_bound_def)
qed

text \<open>Consistency: across an edge no shorter than its chord the bound drops at most by its length.\<close>

lemma goal_bound_consistent:
  assumes "earth_radius_nm * chord (project_unit_sphere (coord_of graph u))
      (project_unit_sphere (coord_of graph v)) \<le> d"
  shows "goal_bound graph goals u \<le> Fin d + goal_bound graph goals v"
proof -
  let ?P = "\<lambda>x. project_unit_sphere (coord_of graph x)"
  let ?f = "\<lambda>x gp. Fin (earth_radius_nm * chord (?P x) (?P (se_vertex gp)) + se_cost gp)"
  let ?gs = "filter (\<lambda>gp. is_vertex graph (se_vertex gp)) goals"
  consider "goal_bound graph goals v = Infinity"
    | gp where "gp \<in> set ?gs" "goal_bound graph goals v = ?f v gp"
    using foldr_min_mem [of "map (?f v) ?gs" Infinity] unfolding goal_bound_def by auto
  then show ?thesis
  proof cases
    case (2 gp)
    have "goal_bound graph goals u \<le> ?f u gp" using 2 by (intro goal_bound_le) auto
    also have "\<dots> \<le> Fin (d + (earth_radius_nm * chord (?P v) (?P (se_vertex gp)) + se_cost gp))"
    proof -
      have "earth_radius_nm * chord (?P u) (?P (se_vertex gp)) \<le>
          earth_radius_nm * (chord (?P u) (?P v) + chord (?P v) (?P (se_vertex gp)))"
        by (rule mult_left_mono [OF chord_triangle less_imp_le [OF earth_radius_pos]])
      then show ?thesis using assms by (simp add: algebra_simps)
    qed
    finally show ?thesis by (simp add: 2(2))
  qed simp
qed

section \<open>Properties\<close>

lemma heuristic_calls_ok:
  "\<forall>u \<in> set us. is_vertex graph u \<Longrightarrow> heuristic_ok graph goals mh \<Longrightarrow>
   heuristic_ok graph goals (foldl (\<lambda>mh u. snd (heuristic_call mh u)) mh us)"
  by (induction us arbitrary: mh) (auto intro: heuristic_call_pure(2))

text \<open>
  C38: Memoization is invisible and the heuristic is admissible: after any sequence of earlier calls
  on graph vertices, a call returns the least chord-plus-seed bound over the goals, and that bound
  never exceeds the great-circle distance to a goal plus its seed cost.
\<close>

theorem heuristic_memo_admissible:
  assumes "\<forall>u \<in> set us. is_vertex graph u" and "is_vertex graph v"
    and "gp \<in> set goals" and "is_vertex graph (se_vertex gp)"
  defines "h \<equiv> fst (heuristic_call
    (foldl (\<lambda>mh u. snd (heuristic_call mh u)) (multi_goal_heuristic_new graph goals) us) v)"
  shows "h = goal_bound graph goals v \<and>
    h \<le> Fin (distance_to (coord_of graph v) (coord_of graph (se_vertex gp)) + se_cost gp)"
proof -
  have h: "h = goal_bound graph goals v"
    unfolding h_def
    by (rule heuristic_call_pure(1) [OF heuristic_calls_ok [OF assms(1) heuristic_new_ok] assms(2)])
  have "goal_bound graph goals v \<le> Fin (earth_radius_nm *
      chord (project_unit_sphere (coord_of graph v)) (project_unit_sphere (coord_of graph (se_vertex gp))) +
      se_cost gp)" by (rule goal_bound_le [OF assms(3,4)])
  also have "\<dots> \<le> Fin (distance_to (coord_of graph v) (coord_of graph (se_vertex gp)) + se_cost gp)"
    using chord_le_distance by simp
  finally show ?thesis using h by simp
qed

definition two_points :: nav_graph where
  "two_points =
     \<lparr>ng_coords = [\<lparr>latitude = 0, longitude = 0\<rparr>, \<lparr>latitude = 0, longitude = 1\<rparr>],
      ng_offsets = [0, 0, 0], ng_edges = []\<rparr>"

lemma heuristic_memo_admissible_witness:
  "fst (heuristic_call (snd (heuristic_call (multi_goal_heuristic_new two_points
       [\<lparr>se_vertex = 1, se_cost = 5, se_bearing = no_bearing\<rparr>]) 0)) 0) \<le>
     Fin (distance_to (coord_of two_points 0) (coord_of two_points 1) + 5)"
proof -
  have "is_vertex two_points 0" "is_vertex two_points 1"
    by (simp_all add: is_vertex_def vertex_count_def two_points_def)
  then show ?thesis
    using heuristic_memo_admissible [of "[0]" two_points 0
        "\<lparr>se_vertex = 1, se_cost = 5, se_bearing = no_bearing\<rparr>"
        "[\<lparr>se_vertex = 1, se_cost = 5, se_bearing = no_bearing\<rparr>]"] by auto
qed

end
