(* ===== verification/BinaryHeap.thy ===== *)
theory BinaryHeap
  imports Prelude
begin

text \<open>
  The binary heap of \<open>std::push_heap\<close> and \<open>std::pop_heap\<close>, over the key its comparator compares: a
  comparator "greater" on the key keeps the least key in front. The search's open set
  (\<^verbatim>\<open>core/graph/astar.cc\<close>) and the two queues of the forced router (\<^verbatim>\<open>io/navdb/forced_router.cc\<close>) are
  such heaps in vectors. Clients rely on the laws of the locale \<open>priority_queue\<close> only.
\<close>

section \<open>The heap in a vector\<close>

definition swap_at :: "'a list \<Rightarrow> nat \<Rightarrow> nat \<Rightarrow> 'a list" where
  "swap_at xs i j = xs[i := xs ! j, j := xs ! i]"

definition parent :: "nat \<Rightarrow> nat" where
  "parent i = (i - 1) div 2"

lemma parent_less: "0 < i \<Longrightarrow> parent i < i"
  by (auto simp: parent_def)

fun sift_up :: "('a \<Rightarrow> 'k::linorder) \<Rightarrow> 'a list \<Rightarrow> nat \<Rightarrow> 'a list" where
  "sift_up key xs i =
     (if 0 < i \<and> key (xs ! i) < key (xs ! ((i - 1) div 2))
      then sift_up key (swap_at xs i ((i - 1) div 2)) ((i - 1) div 2) else xs)"

declare sift_up.simps [simp del]

text \<open>\<open>open.push_back(x); std::push_heap(open.begin(), open.end(), std::greater<>())\<close>.\<close>

definition heap_push :: "('a \<Rightarrow> 'k::linorder) \<Rightarrow> 'a list \<Rightarrow> 'a \<Rightarrow> 'a list" where
  "heap_push key xs x = sift_up key (xs @ [x]) (length xs)"

definition smaller_child :: "('a \<Rightarrow> 'k::linorder) \<Rightarrow> 'a list \<Rightarrow> nat \<Rightarrow> nat" where
  "smaller_child key xs i =
     (if 2 * i + 2 < length xs \<and> key (xs ! (2 * i + 2)) < key (xs ! (2 * i + 1))
      then 2 * i + 2 else 2 * i + 1)"

lemma length_swap_at [simp]: "length (swap_at xs i j) = length xs"
  by (simp add: swap_at_def)

lemma smaller_child_bounds: "2 * i + 1 \<le> smaller_child key xs i" "smaller_child key xs i \<le> 2 * i + 2"
  by (simp_all add: smaller_child_def)

function sift_down :: "('a \<Rightarrow> 'k::linorder) \<Rightarrow> 'a list \<Rightarrow> nat \<Rightarrow> 'a list" where
  "sift_down key xs i =
     (let c = smaller_child key xs i in
      if c < length xs \<and> key (xs ! c) < key (xs ! i) then sift_down key (swap_at xs i c) c else xs)"
  by pat_completeness auto
termination
proof (relation "measure (\<lambda>(key, xs, i). length xs - i)")
  fix key :: "'a \<Rightarrow> 'k::linorder" and xs :: "'a list" and i c
  assume "c = smaller_child key xs i" "c < length xs \<and> key (xs ! c) < key (xs ! i)"
  then show "((key, swap_at xs i c, c), (key, xs, i)) \<in> measure (\<lambda>(key, xs, i). length xs - i)"
    using smaller_child_bounds(1) [of i key xs] by (auto intro: diff_less_mono2)
qed simp

declare sift_down.simps [simp del]

text \<open>
  \<open>std::pop_heap\<close> moves the least element to the back and restores the heap in front of it;
  \<open>heap_take\<close> is the pop with the following \<open>back()\<close> and \<open>pop_back()\<close>.
\<close>

definition heap_pop :: "('a \<Rightarrow> 'k::linorder) \<Rightarrow> 'a list \<Rightarrow> 'a list" where
  "heap_pop key xs =
     (if length xs \<le> 1 then xs else sift_down key (butlast (xs[0 := last xs])) 0 @ [xs ! 0])"

definition heap_take :: "('a \<Rightarrow> 'k::linorder) \<Rightarrow> 'a list \<Rightarrow> 'a \<times> 'a list" where
  "heap_take key xs = (let ys = heap_pop key xs in (last ys, butlast ys))"

section \<open>Heap order\<close>

definition heap_ordered :: "('a \<Rightarrow> 'k::linorder) \<Rightarrow> 'a list \<Rightarrow> bool" where
  "heap_ordered key xs \<longleftrightarrow> (\<forall>j. 0 < j \<longrightarrow> j < length xs \<longrightarrow> key (xs ! parent j) \<le> key (xs ! j))"

definition heap_but_up :: "('a \<Rightarrow> 'k::linorder) \<Rightarrow> 'a list \<Rightarrow> nat \<Rightarrow> bool" where
  "heap_but_up key xs i \<longleftrightarrow>
     (\<forall>j. 0 < j \<longrightarrow> j < length xs \<longrightarrow> j \<noteq> i \<longrightarrow> key (xs ! parent j) \<le> key (xs ! j)) \<and>
     (\<forall>j. 0 < i \<longrightarrow> 0 < j \<longrightarrow> j < length xs \<longrightarrow> parent j = i \<longrightarrow> key (xs ! parent i) \<le> key (xs ! j))"

definition heap_but_down :: "('a \<Rightarrow> 'k::linorder) \<Rightarrow> 'a list \<Rightarrow> nat \<Rightarrow> bool" where
  "heap_but_down key xs i \<longleftrightarrow>
     (\<forall>j. 0 < j \<longrightarrow> j < length xs \<longrightarrow> parent j \<noteq> i \<longrightarrow> key (xs ! parent j) \<le> key (xs ! j)) \<and>
     (\<forall>j. 0 < i \<longrightarrow> 0 < j \<longrightarrow> j < length xs \<longrightarrow> parent j = i \<longrightarrow> key (xs ! parent i) \<le> key (xs ! j))"

lemma nth_swap_at:
  "i < length xs \<Longrightarrow> j < length xs \<Longrightarrow> k < length xs \<Longrightarrow>
   swap_at xs i j ! k = (if k = j then xs ! i else if k = i then xs ! j else xs ! k)"
  by (simp add: swap_at_def nth_list_update)

lemma mset_swap_at: "i < length xs \<Longrightarrow> j < length xs \<Longrightarrow> mset (swap_at xs i j) = mset xs"
  unfolding swap_at_def by (rule mset_swap)

lemma sift_up_step:
  assumes h: "heap_but_up key xs i" and i: "0 < i" "i < length xs"
    and lt: "key (xs ! i) < key (xs ! parent i)"
  shows "heap_but_up key (swap_at xs i (parent i)) (parent i)"
proof -
  let ?p = "parent i" and ?ys = "swap_at xs i (parent i)"
  have p: "?p < i" using parent_less i by blast
  have nth: "k < length xs \<Longrightarrow> ?ys ! k = (if k = ?p then xs ! i else if k = i then xs ! ?p else xs ! k)" for k
    using nth_swap_at [of i xs ?p] i p by simp
  have h1: "key (xs ! parent j) \<le> key (xs ! j)" if "0 < j" "j < length xs" "j \<noteq> i" for j
    using h that unfolding heap_but_up_def by blast
  have h2: "key (xs ! ?p) \<le> key (xs ! j)" if "0 < j" "j < length xs" "parent j = i" for j
    using h that i unfolding heap_but_up_def by blast
  have main: "key (?ys ! parent j) \<le> key (?ys ! j)" if j: "0 < j" "j < length xs" "j \<noteq> ?p" for j
  proof -
    have pj: "parent j < length xs" using parent_less j by (meson order.strict_trans)
    show ?thesis
      using h1 [OF j(1,2)] h2 [OF j(1,2)] lt j nth [OF pj] nth [OF j(2)] by (auto split: if_splits)
  qed
  have grand: "key (?ys ! parent ?p) \<le> key (?ys ! j)"
    if j: "0 < ?p" "0 < j" "j < length xs" "parent j = ?p" for j
  proof -
    have pp: "parent ?p < ?p" using parent_less j by blast
    have "key (xs ! parent ?p) \<le> key (xs ! ?p)" using h1 [of ?p] j p i by simp
    moreover have "j \<noteq> ?p" using parent_less j by (metis less_irrefl)
    moreover have "j \<noteq> i \<longrightarrow> key (xs ! ?p) \<le> key (xs ! j)" using h1 [of j] j by auto
    moreover have "?ys ! parent ?p = xs ! parent ?p" using nth [of "parent ?p"] pp p i by simp
    ultimately show ?thesis using nth [OF j(3)] by auto
  qed
  show ?thesis unfolding heap_but_up_def using main grand by simp
qed

lemma sift_up_heap:
  "heap_but_up key xs i \<Longrightarrow> i < length xs \<Longrightarrow>
   heap_ordered key (sift_up key xs i) \<and> mset (sift_up key xs i) = mset xs"
proof (induction key xs i rule: sift_up.induct)
  case (1 key xs i)
  show ?case
  proof (cases "0 < i \<and> key (xs ! i) < key (xs ! ((i - 1) div 2))")
    case True
    then have lt: "key (xs ! i) < key (xs ! parent i)" by (simp add: parent_def)
    have p: "parent i < length xs" using parent_less [of i] True "1.prems" by simp
    have eq: "sift_up key xs i = sift_up key (swap_at xs i (parent i)) (parent i)"
      using True by (subst sift_up.simps) (simp add: parent_def)
    have "heap_but_up key (swap_at xs i (parent i)) (parent i)"
      using sift_up_step [OF "1.prems"(1) _ "1.prems"(2) lt] True by blast
    from "1.IH" [OF True, folded parent_def, OF this] p show ?thesis
      unfolding eq using mset_swap_at [OF "1.prems"(2) p] by simp
  next
    case False
    have "key (xs ! parent j) \<le> key (xs ! j)" if j: "0 < j" "j < length xs" for j
    proof (cases "j = i")
      case True
      then show ?thesis using False j by (simp add: parent_def not_less)
    next
      case False
      then show ?thesis using "1.prems"(1) j unfolding heap_but_up_def by blast
    qed
    then have "heap_ordered key xs" by (simp add: heap_ordered_def)
    moreover have "sift_up key xs i = xs" by (subst sift_up.simps) (rule if_not_P [OF False])
    ultimately show ?thesis by simp
  qed
qed

lemma parent_iff: "0 < j \<Longrightarrow> parent j = i \<longleftrightarrow> j = 2 * i + 1 \<or> j = 2 * i + 2"
  unfolding parent_def by presburger

lemma sift_down_step:
  assumes h: "heap_but_down key xs i" and c: "c < length xs" "parent c = i" "0 < c"
    and lt: "key (xs ! c) < key (xs ! i)"
    and least: "\<And>j. 0 < j \<Longrightarrow> j < length xs \<Longrightarrow> parent j = i \<Longrightarrow> key (xs ! c) \<le> key (xs ! j)"
  shows "heap_but_down key (swap_at xs i c) c"
proof -
  let ?ys = "swap_at xs i c"
  have i: "i < c" using parent_less c by blast
  have nth: "k < length xs \<Longrightarrow> ?ys ! k = (if k = c then xs ! i else if k = i then xs ! c else xs ! k)" for k
    using nth_swap_at [of i xs c] i c by simp
  have h1: "key (xs ! parent j) \<le> key (xs ! j)" if "0 < j" "j < length xs" "parent j \<noteq> i" for j
    using h that unfolding heap_but_down_def by blast
  have h2: "key (xs ! parent i) \<le> key (xs ! c)" if "0 < i"
    using h that c unfolding heap_but_down_def by blast
  have main: "key (?ys ! parent j) \<le> key (?ys ! j)" if j: "0 < j" "j < length xs" "parent j \<noteq> c" for j
  proof -
    have pj: "parent j < j" using parent_less j by blast
    then have "parent j < length xs" using j by simp
    from nth [OF this] nth [OF j(2)] h1 [OF j(1,2)] h2 least [OF j(1,2)] lt j i c pj
    show ?thesis by (auto split: if_splits)
  qed
  have grand: "key (?ys ! parent c) \<le> key (?ys ! j)"
    if j: "0 < j" "j < length xs" "parent j = c" for j
  proof -
    have "c < j" using parent_less j by blast
    then show ?thesis using h1 [OF j(1,2)] nth [of i] nth [OF j(2)] c i j by auto
  qed
  show ?thesis unfolding heap_but_down_def using main grand by simp
qed

lemma sift_down_heap:
  "heap_but_down key xs i \<Longrightarrow> i < length xs \<Longrightarrow>
   heap_ordered key (sift_down key xs i) \<and> mset (sift_down key xs i) = mset xs"
proof (induction key xs i rule: sift_down.induct)
  case (1 key xs i)
  define c where "c = smaller_child key xs i"
  have pc: "parent c = i" "0 < c"
    by (simp_all add: c_def smaller_child_def parent_def)
  have least: "key (xs ! c) \<le> key (xs ! j)" if "0 < j" "j < length xs" "parent j = i" for j
    using that parent_iff [of j i] by (auto simp: c_def smaller_child_def)
  show ?case
  proof (cases "c < length xs \<and> key (xs ! c) < key (xs ! i)")
    case True
    have "heap_but_down key (swap_at xs i c) c"
      by (rule sift_down_step [OF "1.prems"(1)]) (use True pc least in auto)
    from "1.IH" [OF c_def True this] have ih: "heap_ordered key (sift_down key (swap_at xs i c) c)"
      "mset (sift_down key (swap_at xs i c) c) = mset (swap_at xs i c)"
      using True by simp_all
    have eq: "sift_down key xs i = sift_down key (swap_at xs i c) c"
      using True by (subst sift_down.simps) (simp add: c_def [symmetric] Let_def)
    show ?thesis unfolding eq using ih mset_swap_at [OF "1.prems"(2), of c] True by simp
  next
    case False
    have "heap_ordered key xs"
      unfolding heap_ordered_def
    proof (intro allI impI)
      fix j assume j: "0 < j" "j < length xs"
      show "key (xs ! parent j) \<le> key (xs ! j)"
      proof (cases "parent j = i")
        case True
        then have "c < length xs" using j parent_iff [of j i] by (auto simp: c_def smaller_child_def)
        then show ?thesis using False least [OF j True] True by auto
      next
        case False
        then show ?thesis using "1.prems"(1) j unfolding heap_but_down_def by blast
      qed
    qed
    moreover have "sift_down key xs i = xs"
      by (subst sift_down.simps) (simp only: c_def [symmetric] Let_def if_not_P [OF False])
    ultimately show ?thesis by simp
  qed
qed

lemma heap_root_least:
  "heap_ordered key xs \<Longrightarrow> i < length xs \<Longrightarrow> key (xs ! 0) \<le> key (xs ! i)"
proof (induction i rule: less_induct)
  case (less i)
  show ?case
  proof (cases "i = 0")
    case False
    then have "parent i < i" using parent_less by blast
    with less False show ?thesis unfolding heap_ordered_def by (meson neq0_conv order.strict_trans order_trans)
  qed simp
qed

lemma heap_push_ok:
  assumes "heap_ordered key xs"
  shows "heap_ordered key (heap_push key xs x) \<and> mset (heap_push key xs x) = add_mset x (mset xs)"
proof -
  have lt: "parent j < j" if "0 < j" for j using parent_less that .
  have "heap_but_up key (xs @ [x]) (length xs)"
    unfolding heap_but_up_def
  proof (intro conjI allI impI)
    fix j assume j: "0 < j" "j < length (xs @ [x])" "j \<noteq> length xs"
    then have "j < length xs" "parent j < length xs" using lt [of j] by simp_all
    then show "key ((xs @ [x]) ! parent j) \<le> key ((xs @ [x]) ! j)"
      using assms j by (simp add: heap_ordered_def nth_append)
  next
    fix j assume "0 < j" "j < length (xs @ [x])" "parent j = length xs"
    then show "key ((xs @ [x]) ! parent (length xs)) \<le> key ((xs @ [x]) ! j)"
      using lt [of j] by simp
  qed
  from sift_up_heap [OF this] show ?thesis by (simp add: heap_push_def)
qed

lemma heap_take_ok:
  assumes "heap_ordered key xs" and "xs \<noteq> []" and p: "heap_take key xs = (x, ys)"
  shows "heap_ordered key ys \<and> mset xs = add_mset x (mset ys) \<and> (\<forall>y \<in> set xs. key x \<le> key y)"
proof (cases "length xs \<le> 1")
  case True
  with assms(2) obtain z where "xs = [z]" by (cases xs) auto
  with p show ?thesis by (auto simp: heap_take_def heap_pop_def heap_ordered_def)
next
  case False
  let ?zs = "butlast (xs[0 := last xs])"
  have l: "length ?zs = length xs - 1" by simp
  have nth: "?zs ! j = xs ! j" if "0 < j" "j < length ?zs" for j using that by (simp add: nth_butlast)
  have h: "heap_but_down key ?zs 0"
    unfolding heap_but_down_def
  proof (intro conjI allI impI)
    fix j assume j: "0 < j" "j < length ?zs" "parent j \<noteq> 0"
    then have "parent j < length ?zs" using parent_less [of j] by simp
    then show "key (?zs ! parent j) \<le> key (?zs ! j)"
      using assms(1) j nth [of j] nth [of "parent j"] unfolding heap_ordered_def by simp
  qed simp
  have x: "x = xs ! 0" and ys: "ys = sift_down key ?zs 0"
    using p False by (simp_all add: heap_take_def heap_pop_def Let_def)
  have sd: "heap_ordered key ys" "mset ys = mset ?zs"
    using sift_down_heap [OF h] False l unfolding ys by auto
  have split: "xs = xs ! 0 # butlast (tl xs) @ [last xs]"
  proof -
    obtain a as where as: "xs = a # as" using assms(2) by (cases xs) auto
    then have "as \<noteq> []" using False by auto
    then show ?thesis using as by simp
  qed
  then have "xs[0 := last xs] = last xs # butlast (tl xs) @ [last xs]"
    by (metis list_update_code(2))
  then have "mset ?zs = add_mset (last xs) (mset (butlast (tl xs)))"
    by (metis append_Cons butlast_snoc mset.simps(2))
  moreover have "mset xs = add_mset (xs ! 0) (add_mset (last xs) (mset (butlast (tl xs))))"
    by (subst split) simp
  ultimately have "mset xs = add_mset x (mset ys)" using sd x by simp
  moreover have "\<forall>y \<in> set xs. key x \<le> key y"
    using heap_root_least [OF assms(1)] x by (auto simp: in_set_conv_nth)
  ultimately show ?thesis using sd by simp
qed

section \<open>The interface its clients use\<close>

locale priority_queue =
  fixes key :: "'a \<Rightarrow> 'k::linorder"
    and ok :: "'q \<Rightarrow> bool"
    and nodes :: "'q \<Rightarrow> 'a multiset"
    and empty :: 'q
    and push :: "'q \<Rightarrow> 'a \<Rightarrow> 'q"
    and pop :: "'q \<Rightarrow> 'a \<times> 'q"
  assumes ok_empty: "ok empty" and nodes_empty: "nodes empty = {#}"
    and ok_push: "ok q \<Longrightarrow> ok (push q x)"
    and nodes_push: "ok q \<Longrightarrow> nodes (push q x) = add_mset x (nodes q)"
    and pop_laws: "ok q \<Longrightarrow> nodes q \<noteq> {#} \<Longrightarrow> pop q = (x, q') \<Longrightarrow>
      ok q' \<and> nodes q = add_mset x (nodes q') \<and> (\<forall>y \<in># nodes q. key x \<le> key y)"
begin

lemma push_all:
  "ok q \<Longrightarrow> ok (foldl push q xs) \<and> nodes (foldl push q xs) = nodes q + mset xs"
  by (induction xs arbitrary: q) (simp_all add: ok_push nodes_push)

lemma size_pop:
  "ok q \<Longrightarrow> nodes q \<noteq> {#} \<Longrightarrow> pop q = (x, q') \<Longrightarrow> size (nodes q) = Suc (size (nodes q'))"
  using pop_laws by fastforce

lemma pop_least: "ok q \<Longrightarrow> pop q = (x, q') \<Longrightarrow> y \<in># nodes q \<Longrightarrow> key x \<le> key y"
  using pop_laws [of q x q'] by force

end

interpretation binary_heap: priority_queue key "heap_ordered key" mset "[]" "heap_push key" "heap_take key"
  for key :: "'a \<Rightarrow> 'k::linorder"
proof unfold_locales
  show "heap_ordered key []" by (simp add: heap_ordered_def)
  show "heap_ordered key (heap_push key q x)" if "heap_ordered key q" for q x
    by (rule conjunct1 [OF heap_push_ok [OF that]])
  show "mset (heap_push key q x) = add_mset x (mset q)" if "heap_ordered key q" for q x
    by (rule conjunct2 [OF heap_push_ok [OF that]])
  show "heap_ordered key q' \<and> mset q = add_mset x (mset q') \<and> (\<forall>y \<in># mset q. key x \<le> key y)"
    if "heap_ordered key q" "mset q \<noteq> {#}" "heap_take key q = (x, q')" for q x q'
    using heap_take_ok [of key q x q'] that by (metis set_mset_mset mset_zero_iff)
qed simp

end
