(* ===== verification/OpenSet.thy ===== *)
theory OpenSet
  imports BinaryHeap Cost
begin

text \<open>
  The open set of the search (\<^verbatim>\<open>core/graph/astar.h\<close>, \<open>QueueNode\<close>; driven by \<open>std::push_heap\<close> and
  \<open>std::pop_heap\<close> in \<^verbatim>\<open>core/graph/astar.cc\<close>): a binary min-heap on \<open>f\<close> in a vector. The search relies
  on the laws of the locale \<open>priority_queue\<close> only.
\<close>

section \<open>The binary heap\<close>

record queue_node =
  qn_f :: cost
  qn_vertex :: int

text \<open>\<open>open.push_back(x); std::push_heap(open.begin(), open.end(), std::greater<>())\<close>.\<close>

definition push_heap :: "queue_node list \<Rightarrow> queue_node \<Rightarrow> queue_node list" where
  "push_heap xs x = heap_push qn_f xs x"

definition pop_heap :: "queue_node list \<Rightarrow> queue_node list" where
  "pop_heap xs = heap_pop qn_f xs"

text \<open>\<open>pop_open\<close> is the pop with the following \<open>back()\<close> and \<open>pop_back()\<close>.\<close>

definition pop_open :: "queue_node list \<Rightarrow> queue_node \<times> queue_node list" where
  "pop_open xs = (let ys = pop_heap xs in (last ys, butlast ys))"

abbreviation is_heap :: "queue_node list \<Rightarrow> bool" where
  "is_heap \<equiv> heap_ordered qn_f"

lemma open_set_ops: "push_heap = heap_push qn_f" "pop_open = heap_take qn_f"
  by (simp_all add: fun_eq_iff push_heap_def pop_open_def pop_heap_def heap_take_def)

interpretation heap: priority_queue qn_f is_heap mset "[]" push_heap pop_open
  unfolding open_set_ops by (rule binary_heap.priority_queue_axioms)

section \<open>Draining the open set\<close>

text \<open>Popping \<open>n\<close> times, as the search loop does; the popped nodes in order.\<close>

primrec pop_all :: "nat \<Rightarrow> queue_node list \<Rightarrow> queue_node list" where
  "pop_all 0 open_nodes = []"
| "pop_all (Suc n) open_nodes =
     (if open_nodes = [] then []
      else case pop_open open_nodes of (x, rest) \<Rightarrow> x # pop_all n rest)"

lemma pop_all_sorted:
  "is_heap h \<Longrightarrow> length h = n \<Longrightarrow>
   mset (pop_all n h) = mset h \<and> sorted (map qn_f (pop_all n h))"
proof (induction n arbitrary: h)
  case (Suc n)
  then have ne: "h \<noteq> []" by auto
  obtain x h' where p: "pop_open h = (x, h')" by fastforce
  have "mset h \<noteq> {#}" using ne by simp
  from heap.pop_laws [OF Suc.prems(1) this p]
  have laws: "is_heap h'" "mset h = add_mset x (mset h')" "\<forall>y \<in> set h. qn_f x \<le> qn_f y"
    by simp_all
  have "length h' = n"
    using heap.size_pop [OF Suc.prems(1) _ p] ne Suc.prems(2) by simp
  then have ih: "mset (pop_all n h') = mset h'" "sorted (map qn_f (pop_all n h'))"
    using Suc.IH laws(1) by auto
  have "set (pop_all n h') \<subseteq> set h"
    using ih(1) laws(2) by (metis set_mset_mset set_mset_add_mset_insert subset_insertI)
  then have "\<forall>y \<in> set (pop_all n h'). qn_f x \<le> qn_f y" using laws(3) by blast
  then show ?case using ne p ih laws(2) by simp
qed simp

text \<open>
  The open set is a priority queue. Pushing any nodes one by one onto an empty heap and then
  popping until it is empty yields exactly those nodes, in ascending order of \<open>f\<close>; ties and
  duplicate vertices included.
\<close>

theorem open_set_drains_in_order:
  "mset (pop_all (length ns) (foldl push_heap [] ns)) = mset ns \<and>
   sorted (map qn_f (pop_all (length ns) (foldl push_heap [] ns)))"
proof -
  have "is_heap (foldl push_heap [] ns)" "mset (foldl push_heap [] ns) = mset ns"
    using heap.push_all [OF heap.ok_empty, of ns] by auto
  then show ?thesis using pop_all_sorted [of "foldl push_heap [] ns" "length ns"]
    by (metis mset_eq_length)
qed

end
