(* ===== verification/SearchWorkspace.thy ===== *)
theory SearchWorkspace
  imports OpenSet NavGraph
begin

text \<open>
  The reusable search scratch (\<^verbatim>\<open>core/graph/astar.h\<close>, class \<open>SearchWorkspace\<close>): per-vertex
  arrays whose slots are live only when their stamp equals the current generation, so that a
  search starts from a clean slate without touching memory. The locale \<open>label_store\<close> is what the
  search uses of it; the generation stamps satisfy it from a dirty workspace too.
\<close>

section \<open>The workspace\<close>

record search_workspace =
  ws_g :: "cost list"
  ws_geo :: "real list"
  ws_prev :: "int list"
  ws_inbound :: "real list"
  ws_stamp :: "u32 list"
  ws_closed_stamp :: "u32 list"
  ws_heap :: "queue_node list"
  ws_generation :: u32

text \<open>\<open>SearchWorkspace ws;\<close>\<close>

definition search_workspace_default :: search_workspace where
  "search_workspace_default =
     \<lparr>ws_g = [], ws_geo = [], ws_prev = [], ws_inbound = [], ws_stamp = [], ws_closed_stamp = [],
      ws_heap = [], ws_generation = 0\<rparr>"

text \<open>\<open>v.resize(n, x)\<close> and \<open>v.resize(n)\<close>.\<close>

definition resize :: "nat \<Rightarrow> 'a \<Rightarrow> 'a list \<Rightarrow> 'a list" where
  "resize n x xs = take n xs @ replicate (n - length xs) x"

definition ws_reset :: "int \<Rightarrow> search_workspace \<Rightarrow> search_workspace" where
  "ws_reset n ws =
     (if int (length (ws_stamp ws)) < n then
        ws\<lparr>ws_g := resize (nat n) 0 (ws_g ws), ws_geo := resize (nat n) 0 (ws_geo ws),
           ws_prev := resize (nat n) 0 (ws_prev ws),
           ws_inbound := resize (nat n) 0 (ws_inbound ws),
           ws_stamp := resize (nat n) 0 (ws_stamp ws),
           ws_closed_stamp := resize (nat n) 0 (ws_closed_stamp ws)\<rparr>
      else ws)"

definition next_generation :: "search_workspace \<Rightarrow> search_workspace" where
  "next_generation ws = ws\<lparr>ws_generation := ws_generation ws + 1\<rparr>"

definition live :: "search_workspace \<Rightarrow> int \<Rightarrow> bool" where
  "live ws v \<longleftrightarrow> ws_stamp ws ! nat v = ws_generation ws"

definition G :: "search_workspace \<Rightarrow> int \<Rightarrow> cost" where
  "G ws v = (if live ws v then ws_g ws ! nat v else Infinity)"

definition Geo :: "search_workspace \<Rightarrow> int \<Rightarrow> real" where
  "Geo ws v = (if live ws v then ws_geo ws ! nat v else 0)"

definition Prev :: "search_workspace \<Rightarrow> int \<Rightarrow> int" where
  "Prev ws v = (if live ws v then ws_prev ws ! nat v else no_vertex)"

definition Inbound :: "search_workspace \<Rightarrow> int \<Rightarrow> real" where
  "Inbound ws v = (if live ws v then ws_inbound ws ! nat v else no_bearing)"

definition Closed :: "search_workspace \<Rightarrow> int \<Rightarrow> bool" where
  "Closed ws v \<longleftrightarrow> ws_closed_stamp ws ! nat v = ws_generation ws"

definition touch :: "int \<Rightarrow> search_workspace \<Rightarrow> search_workspace" where
  "touch v ws =
     (if ws_stamp ws ! nat v \<noteq> ws_generation ws then
        ws\<lparr>ws_stamp := (ws_stamp ws)[nat v := ws_generation ws],
           ws_g := (ws_g ws)[nat v := Infinity], ws_geo := (ws_geo ws)[nat v := 0],
           ws_prev := (ws_prev ws)[nat v := no_vertex],
           ws_inbound := (ws_inbound ws)[nat v := no_bearing]\<rparr>
      else ws)"

definition relax :: "int \<Rightarrow> cost \<Rightarrow> real \<Rightarrow> int \<Rightarrow> real \<Rightarrow> search_workspace \<Rightarrow> search_workspace" where
  "relax v g geo prev inbound ws =
     (let ws = touch v ws in
      ws\<lparr>ws_g := (ws_g ws)[nat v := g], ws_geo := (ws_geo ws)[nat v := geo],
         ws_prev := (ws_prev ws)[nat v := prev], ws_inbound := (ws_inbound ws)[nat v := inbound]\<rparr>)"

definition mark_closed :: "int \<Rightarrow> search_workspace \<Rightarrow> search_workspace" where
  "mark_closed v ws = ws\<lparr>ws_closed_stamp := (ws_closed_stamp ws)[nat v := ws_generation ws]\<rparr>"

section \<open>Well-formed workspaces\<close>

text \<open>All arrays have one size, and no stamp is ahead of the generation.\<close>

definition ws_ok :: "search_workspace \<Rightarrow> bool" where
  "ws_ok ws \<longleftrightarrow>
     length (ws_g ws) = length (ws_stamp ws) \<and> length (ws_geo ws) = length (ws_stamp ws) \<and>
     length (ws_prev ws) = length (ws_stamp ws) \<and> length (ws_inbound ws) = length (ws_stamp ws) \<and>
     length (ws_closed_stamp ws) = length (ws_stamp ws) \<and>
     (\<forall>s \<in> set (ws_stamp ws) \<union> set (ws_closed_stamp ws). s \<le> ws_generation ws)"

text \<open>A workspace that holds \<open>n\<close> vertices and runs a search.\<close>

definition ws_ready :: "int \<Rightarrow> search_workspace \<Rightarrow> bool" where
  "ws_ready n ws \<longleftrightarrow> ws_ok ws \<and> n \<le> int (length (ws_stamp ws))"

text \<open>The generation counter has not wrapped: the bound the class documents.\<close>

definition ws_unwrapped :: "search_workspace \<Rightarrow> bool" where
  "ws_unwrapped ws \<longleftrightarrow> ws_generation ws + 1 \<noteq> 0"

lemma search_workspace_default_ok [simp]:
  "ws_ok search_workspace_default" "ws_unwrapped search_workspace_default"
  by (simp_all add: ws_ok_def ws_unwrapped_def search_workspace_default_def)

lemma length_resize [simp]: "length (resize n x xs) = n"
  by (simp add: resize_def)

lemma set_resize: "set (resize n x xs) \<subseteq> insert x (set xs)"
  by (auto simp: resize_def dest: in_set_takeD)

lemma ws_reset_ok:
  assumes "ws_ok ws"
  shows "ws_ok (ws_reset n ws)" and "n \<le> int (length (ws_stamp (ws_reset n ws)))"
    and "ws_generation (ws_reset n ws) = ws_generation ws" and "ws_heap (ws_reset n ws) = ws_heap ws"
proof -
  have "s = 0 \<or> s \<in> set (ws_stamp ws) \<union> set (ws_closed_stamp ws)"
    if "s \<in> set (resize (nat n) 0 (ws_stamp ws)) \<union> set (resize (nat n) 0 (ws_closed_stamp ws))" for s
    using that set_resize [of "nat n" "0 :: u32"] by blast
  then have "\<forall>s \<in> set (resize (nat n) 0 (ws_stamp ws)) \<union> set (resize (nat n) 0 (ws_closed_stamp ws)).
      s \<le> ws_generation ws"
    using assms unfolding ws_ok_def by (metis word_zero_le)
  then show "ws_ok (ws_reset n ws)" using assms unfolding ws_reset_def ws_ok_def by simp
qed (simp_all add: ws_reset_def)

lemma unwrapped_succ: "ws_unwrapped ws \<Longrightarrow> ws_generation ws < ws_generation ws + 1"
  by (simp add: ws_unwrapped_def word_less_nat_alt unatSuc add.commute)

lemma begin_search:
  assumes "ws_ok ws" and "ws_unwrapped ws"
  shows "ws_ready n (next_generation (ws_reset n ws))"
    and "0 \<le> v \<Longrightarrow> v < n \<Longrightarrow> \<not> live (next_generation (ws_reset n ws)) v"
    and "0 \<le> v \<Longrightarrow> v < n \<Longrightarrow> \<not> Closed (next_generation (ws_reset n ws)) v"
proof -
  let ?r = "ws_reset n ws" and ?w = "next_generation (ws_reset n ws)"
  note r = ws_reset_ok [OF assms(1), of n]
  have succ: "ws_generation ?r < ws_generation ?w"
    using unwrapped_succ [OF assms(2)] r by (simp add: next_generation_def)
  have le: "s \<le> ws_generation ?r" if "s \<in> set (ws_stamp ?r) \<union> set (ws_closed_stamp ?r)" for s
    using r(1) that unfolding ws_ok_def by blast
  have sel: "ws_stamp ?w = ws_stamp ?r" "ws_closed_stamp ?w = ws_closed_stamp ?r"
    by (simp_all add: next_generation_def)
  have "s \<le> ws_generation ?w" if "s \<in> set (ws_stamp ?w) \<union> set (ws_closed_stamp ?w)" for s
    using le that succ unfolding sel by (meson order.strict_trans1 less_imp_le)
  moreover have "length (ws_g ?w) = length (ws_g ?r)" "length (ws_geo ?w) = length (ws_geo ?r)"
    "length (ws_prev ?w) = length (ws_prev ?r)" "length (ws_inbound ?w) = length (ws_inbound ?r)"
    by (simp_all add: next_generation_def)
  ultimately show "ws_ready n ?w" using r(1,2) unfolding ws_ready_def ws_ok_def sel by simp
  have fresh: "s \<noteq> ws_generation ?w" if "s \<in> set (ws_stamp ?r) \<union> set (ws_closed_stamp ?r)" for s
    using le [OF that] succ by auto
  show "\<not> live ?w v" if "0 \<le> v" "v < n"
  proof -
    have "nat v < length (ws_stamp ?r)" using that r(2) by simp
    then show ?thesis using fresh by (simp add: live_def sel)
  qed
  show "\<not> Closed ?w v" if "0 \<le> v" "v < n"
  proof -
    have "nat v < length (ws_closed_stamp ?r)" using that r(1,2) by (simp add: ws_ok_def)
    then show ?thesis using fresh by (simp add: Closed_def sel)
  qed
qed

section \<open>The interface the search uses\<close>

text \<open>Reading a label store back, for vertices below \<open>n\<close>.\<close>

locale label_store =
  fixes ready :: "'s \<Rightarrow> bool" and n :: int
    and g_of :: "'s \<Rightarrow> int \<Rightarrow> cost" and geo_of :: "'s \<Rightarrow> int \<Rightarrow> real"
    and prev_of :: "'s \<Rightarrow> int \<Rightarrow> int" and inbound_of :: "'s \<Rightarrow> int \<Rightarrow> real"
    and closed_of :: "'s \<Rightarrow> int \<Rightarrow> bool"
    and rel :: "int \<Rightarrow> cost \<Rightarrow> real \<Rightarrow> int \<Rightarrow> real \<Rightarrow> 's \<Rightarrow> 's"
    and close :: "int \<Rightarrow> 's \<Rightarrow> 's"
  assumes ready_rel: "ready s \<Longrightarrow> 0 \<le> v \<Longrightarrow> v < n \<Longrightarrow> ready (rel v g geo p inb s)"
    and ready_close: "ready s \<Longrightarrow> 0 \<le> v \<Longrightarrow> v < n \<Longrightarrow> ready (close v s)"
    and rel_g: "ready s \<Longrightarrow> 0 \<le> v \<Longrightarrow> v < n \<Longrightarrow> 0 \<le> u \<Longrightarrow> u < n \<Longrightarrow>
      g_of (rel v g geo p inb s) u = (if u = v then g else g_of s u)"
    and rel_geo: "ready s \<Longrightarrow> 0 \<le> v \<Longrightarrow> v < n \<Longrightarrow> 0 \<le> u \<Longrightarrow> u < n \<Longrightarrow>
      geo_of (rel v g geo p inb s) u = (if u = v then geo else geo_of s u)"
    and rel_prev: "ready s \<Longrightarrow> 0 \<le> v \<Longrightarrow> v < n \<Longrightarrow> 0 \<le> u \<Longrightarrow> u < n \<Longrightarrow>
      prev_of (rel v g geo p inb s) u = (if u = v then p else prev_of s u)"
    and rel_inbound: "ready s \<Longrightarrow> 0 \<le> v \<Longrightarrow> v < n \<Longrightarrow> 0 \<le> u \<Longrightarrow> u < n \<Longrightarrow>
      inbound_of (rel v g geo p inb s) u = (if u = v then inb else inbound_of s u)"
    and rel_closed: "closed_of (rel v g geo p inb s) u = closed_of s u"
    and close_g: "g_of (close v s) u = g_of s u"
    and close_geo: "geo_of (close v s) u = geo_of s u"
    and close_prev: "prev_of (close v s) u = prev_of s u"
    and close_inbound: "inbound_of (close v s) u = inbound_of s u"
    and close_closed: "ready s \<Longrightarrow> 0 \<le> v \<Longrightarrow> v < n \<Longrightarrow> 0 \<le> u \<Longrightarrow> u < n \<Longrightarrow>
      closed_of (close v s) u = (u = v \<or> closed_of s u)"
begin

text \<open>What a search reads of a vertex.\<close>

lemmas rel_views = rel_g rel_geo rel_prev rel_inbound
lemmas close_views = close_g close_geo close_prev close_inbound close_closed

lemma rel_other:
  assumes "ready s" "0 \<le> v" "v < n" "0 \<le> u" "u < n" "u \<noteq> v"
  shows "g_of (rel v g geo p inb s) u = g_of s u" and "geo_of (rel v g geo p inb s) u = geo_of s u"
    and "prev_of (rel v g geo p inb s) u = prev_of s u"
    and "inbound_of (rel v g geo p inb s) u = inbound_of s u"
  using assms by (simp_all add: rel_views)

lemma closed_vertices_grow:
  assumes "ready s" "0 \<le> v" "v < n"
  shows "{u. 0 \<le> u \<and> u < n \<and> closed_of (close v s) u} =
    insert v {u. 0 \<le> u \<and> u < n \<and> closed_of s u}"
  using assms close_closed by auto

end

lemma ready_lengths:
  assumes "ws_ready n ws" "0 \<le> v" "v < n"
  shows "nat v < length (ws_g ws)" "nat v < length (ws_geo ws)" "nat v < length (ws_prev ws)"
    "nat v < length (ws_inbound ws)" "nat v < length (ws_stamp ws)" "nat v < length (ws_closed_stamp ws)"
  using assms by (auto simp: ws_ready_def ws_ok_def)

lemma ws_ready_relax:
  assumes "ws_ready n ws"
  shows "ws_ready n (relax v g geo p inb ws)"
proof -
  have st: "set ((ws_stamp ws)[nat v := ws_generation ws]) \<subseteq> insert (ws_generation ws) (set (ws_stamp ws))"
    by (rule set_update_subset_insert)
  have "\<forall>s \<in> set ((ws_stamp ws)[nat v := ws_generation ws]) \<union> set (ws_closed_stamp ws). s \<le> ws_generation ws"
    using assms st unfolding ws_ready_def ws_ok_def by blast
  then show ?thesis using assms unfolding ws_ready_def ws_ok_def relax_def touch_def Let_def by simp
qed

lemma ws_ready_mark_closed:
  assumes "ws_ready n ws"
  shows "ws_ready n (mark_closed v ws)"
proof -
  have st: "set ((ws_closed_stamp ws)[nat v := ws_generation ws]) \<subseteq>
      insert (ws_generation ws) (set (ws_closed_stamp ws))"
    by (rule set_update_subset_insert)
  have "\<forall>s \<in> set (ws_stamp ws) \<union> set ((ws_closed_stamp ws)[nat v := ws_generation ws]). s \<le> ws_generation ws"
    using assms st unfolding ws_ready_def ws_ok_def by blast
  then show ?thesis using assms unfolding ws_ready_def ws_ok_def mark_closed_def by simp
qed

lemma live_relax:
  assumes "ws_ready n ws" "0 \<le> v" "v < n" "0 \<le> u" "u < n"
  shows "live (relax v g geo p inb ws) u \<longleftrightarrow> u = v \<or> live ws u"
  using ready_lengths [OF assms(1-3)] assms(2,4)
  by (auto simp: live_def relax_def touch_def Let_def nth_list_update nat_eq_iff2)

lemma relax_sel:
  "ws_g (relax v g geo p inb s) = (ws_g s)[nat v := g]"
  "ws_geo (relax v g geo p inb s) = (ws_geo s)[nat v := geo]"
  "ws_prev (relax v g geo p inb s) = (ws_prev s)[nat v := p]"
  "ws_inbound (relax v g geo p inb s) = (ws_inbound s)[nat v := inb]"
  by (simp_all add: relax_def touch_def Let_def)

interpretation labels: label_store "ws_ready n" n G Geo Prev Inbound Closed relax mark_closed for n
proof unfold_locales
  fix s v g geo p inb u
  show "ws_ready n (relax v g geo p inb s)" if "ws_ready n s" using ws_ready_relax that .
  show "ws_ready n (mark_closed v s)" if "ws_ready n s" using ws_ready_mark_closed that .
  show "Closed (relax v g geo p inb s) u = Closed s u"
    by (simp add: Closed_def relax_def touch_def Let_def)
  show "G (mark_closed v s) u = G s u" "Geo (mark_closed v s) u = Geo s u"
    "Prev (mark_closed v s) u = Prev s u" "Inbound (mark_closed v s) u = Inbound s u"
    by (simp_all add: G_def Geo_def Prev_def Inbound_def live_def mark_closed_def)
  assume a: "ws_ready n s" "0 \<le> v" "v < n" "0 \<le> u" "u < n"
  note len = ready_lengths [OF a(1-3)] and lv = live_relax [OF a, of g geo p inb]
  have ne: "nat u = nat v \<longleftrightarrow> u = v" "nat v = nat u \<longleftrightarrow> u = v" using a by auto
  show "G (relax v g geo p inb s) u = (if u = v then g else G s u)"
    using len by (simp add: G_def lv relax_sel nth_list_update ne)
  show "Geo (relax v g geo p inb s) u = (if u = v then geo else Geo s u)"
    using len by (simp add: Geo_def lv relax_sel nth_list_update ne)
  show "Prev (relax v g geo p inb s) u = (if u = v then p else Prev s u)"
    using len by (simp add: Prev_def lv relax_sel nth_list_update ne)
  show "Inbound (relax v g geo p inb s) u = (if u = v then inb else Inbound s u)"
    using len by (simp add: Inbound_def lv relax_sel nth_list_update ne)
  show "Closed (mark_closed v s) u = (u = v \<or> Closed s u)"
    using len by (simp add: Closed_def mark_closed_def nth_list_update ne)
qed

text \<open>A search on a dirty workspace reads every slot as its initial value.\<close>

lemma begin_search_views:
  assumes "ws_ok ws" "ws_unwrapped ws" "0 \<le> v" "v < n"
  shows "G (next_generation (ws_reset n ws)) v = Infinity"
    and "Geo (next_generation (ws_reset n ws)) v = 0"
    and "Prev (next_generation (ws_reset n ws)) v = no_vertex"
    and "Inbound (next_generation (ws_reset n ws)) v = no_bearing"
  using begin_search(2) [OF assms] by (simp_all add: G_def Geo_def Prev_def Inbound_def)

end
