(* ===== verification/AStar.thy ===== *)
theory AStar
  imports Heuristic SearchWorkspace
begin

text \<open>
  \<^verbatim>\<open>core/graph/astar.cc\<close>: the multi-source, multi-goal A* search over a reused workspace. The
  loop is a \<open>partial_function\<close>, so that not returning is the value \<open>None\<close>; that it returns is
  a theorem. Path costs are ideal reals.
\<close>

section \<open>Results and inputs\<close>

record shortest_path =
  sp_vertices :: "int list"
  sp_distance_nm :: real
  sp_cost :: cost
  sp_found :: bool

definition shortest_path_default :: shortest_path where
  "shortest_path_default = \<lparr>sp_vertices = [], sp_distance_nm = 0, sp_cost = 0, sp_found = False\<rparr>"

text \<open>What is constant during one search.\<close>

record search_env =
  en_graph :: nav_graph
  en_goal_seed :: "real list"
  en_source_bearing :: "real list"
  en_goal_bearing :: "real list"
  en_options :: search_options

text \<open>What the loop changes: the workspace with its open set, the heuristic's cache, the best goal.\<close>

record search_state =
  st_ws :: search_workspace
  st_mh :: multi_goal_heuristic
  st_best_total :: cost
  st_best_goal :: int

definition push_open :: "cost \<Rightarrow> int \<Rightarrow> search_workspace \<Rightarrow> search_workspace" where
  "push_open f v ws = ws\<lparr>ws_heap := push_heap (ws_heap ws) \<lparr>qn_f = f, qn_vertex = v\<rparr>\<rparr>"

section \<open>Seeding the sources\<close>

definition seed_source ::
  "search_env \<Rightarrow> search_workspace \<times> multi_goal_heuristic \<Rightarrow> seeded_endpoint \<Rightarrow>
   search_workspace \<times> multi_goal_heuristic" where
  "seed_source env = (\<lambda>(ws, mh) s.
     let n = vertex_count (en_graph env); v = se_vertex s in
     if v < 0 \<or> n \<le> v then (ws, mh)
     else if node_blocks (so_node_filter (en_options env)) v then (ws, mh)
     else
       let seed_bearing = en_source_bearing env ! nat v in
       if Fin (se_cost s) < G ws v then
         let ws = relax v (Fin (se_cost s)) (se_cost s) no_vertex seed_bearing ws;
             (h, mh) = heuristic_call mh v
         in (push_open (Fin (se_cost s) + h) v ws, mh)
       else (ws, mh))"

section \<open>Expanding a vertex\<close>

text \<open>The penalty for leaving a vertex, given the heading on which the path arrived there.\<close>

definition turn_cost :: "search_options \<Rightarrow> real \<Rightarrow> real \<Rightarrow> real" where
  "turn_cost options inb outb =
     (if tp_enabled (so_turn_penalty options) \<and> 0 \<le> inb
      then penalty_of (so_turn_penalty options) (turn_angle_deg inb outb) else 0)"

definition out_bearing :: "nav_graph \<Rightarrow> search_options \<Rightarrow> int \<Rightarrow> int \<Rightarrow> real" where
  "out_bearing graph options u v =
     (if tp_enabled (so_turn_penalty options) then bearing_to (coord_of graph u) (coord_of graph v)
      else no_bearing)"

definition relax_edge ::
  "search_env \<Rightarrow> int \<Rightarrow> real \<Rightarrow> search_workspace \<times> multi_goal_heuristic \<Rightarrow> real graph_edge \<Rightarrow>
   search_workspace \<times> multi_goal_heuristic" where
  "relax_edge env u inb_u = (\<lambda>(ws, mh) e.
     let graph = en_graph env; options = en_options env; v = edge_to e in
     if Closed ws v then (ws, mh)
     else if node_blocks (so_node_filter options) v then (ws, mh)
     else if edge_blocks (so_edge_filter options) u v then (ws, mh)
     else case edge_allowed options e u (coord_of graph u) graph v of
         None \<Rightarrow> (ws, mh)
       | Some extra_cost \<Rightarrow>
           let outb = out_bearing graph options u v;
               tentative = G ws u + Fin (ge_distance_nm e + extra_cost + turn_cost options inb_u outb)
           in if tentative < G ws v then
                let ws' = relax v tentative (Geo ws u + ge_distance_nm e) u outb ws;
                    (h, mh) = heuristic_call mh v
                in (push_open (tentative + h) v ws', mh)
              else (ws, mh))"

definition expand :: "search_env \<Rightarrow> int \<Rightarrow> search_workspace \<times> multi_goal_heuristic \<Rightarrow>
   search_workspace \<times> multi_goal_heuristic" where
  "expand env u wm =
     (let inb_u = (if tp_enabled (so_turn_penalty (en_options env)) then Inbound (fst wm) u else no_bearing)
      in foldl (relax_edge env u inb_u) wm (out_edges (en_graph env) u))"

section \<open>Finishing at a vertex\<close>

text \<open>The total of ending the path at \<open>u\<close>, when \<open>u\<close> is a goal.\<close>

definition finish_total :: "search_env \<Rightarrow> search_workspace \<Rightarrow> int \<Rightarrow> cost" where
  "finish_total env ws u =
     (let total = G ws u + Fin (en_goal_seed env ! nat u);
          outb = en_goal_bearing env ! nat u
      in if tp_enabled (so_turn_penalty (en_options env)) \<and> 0 \<le> Inbound ws u \<and> 0 \<le> outb
         then total + Fin (penalty_of (so_turn_penalty (en_options env)) (turn_angle_deg (Inbound ws u) outb))
         else total)"

definition finish :: "search_env \<Rightarrow> int \<Rightarrow> search_state \<Rightarrow> search_state" where
  "finish env u s =
     (if 0 \<le> en_goal_seed env ! nat u then
        let total = finish_total env (st_ws s) u in
        if total < st_best_total s then s\<lparr>st_best_total := total, st_best_goal := u\<rparr> else s
      else s)"

section \<open>The main loop\<close>

datatype loop_step = Done search_state | Again search_state

definition search_step :: "search_env \<Rightarrow> search_state \<Rightarrow> loop_step" where
  "search_step env s =
     (if ws_heap (st_ws s) = [] then Done s
      else
        let (top, rest) = pop_open (ws_heap (st_ws s));
            ws = (st_ws s)\<lparr>ws_heap := rest\<rparr>; s = s\<lparr>st_ws := ws\<rparr>; u = qn_vertex top
        in if Closed ws u then Again s
           else if st_best_total s \<le> qn_f top then Done s
           else
             let s = finish env u (s\<lparr>st_ws := mark_closed u ws\<rparr>);
                 (ws, mh) = expand env u (st_ws s, st_mh s)
             in Again (s\<lparr>st_ws := ws, st_mh := mh\<rparr>))"

partial_function (option) search_loop :: "search_env \<Rightarrow> search_state \<Rightarrow> search_state option" where
  "search_loop env s = (case search_step env s of Done s' \<Rightarrow> Some s' | Again s' \<Rightarrow> search_loop env s')"

text \<open>
  \<open>for (at = best_goal; at != kNoVertex; at = ws.Prev(at)) push_back(at)\<close>, then \<open>reverse\<close>:
  consing gives the reversed order directly.
\<close>

partial_function (option) trace_back :: "search_workspace \<Rightarrow> int \<Rightarrow> int list \<Rightarrow> int list option" where
  "trace_back ws v path =
     (if v = no_vertex then Some path else trace_back ws (Prev ws v) (v # path))"

section \<open>The search\<close>

definition start_state ::
  "search_env \<Rightarrow> seeded_endpoint list \<Rightarrow> multi_goal_heuristic \<Rightarrow> search_workspace \<Rightarrow> search_state" where
  "start_state env sources mh ws =
     (let ws = next_generation (ws_reset (vertex_count (en_graph env)) ws);
          (ws, mh) = foldl (seed_source env) (ws\<lparr>ws_heap := []\<rparr>, mh) sources
      in \<lparr>st_ws = ws, st_mh = mh, st_best_total = Infinity, st_best_goal = no_vertex\<rparr>)"

text \<open>
  The hot-path overload, over a caller-owned workspace and heuristic, both returned as the search
  leaves them.
\<close>

definition find_shortest_path_in ::
  "search_env \<Rightarrow> seeded_endpoint list \<Rightarrow> multi_goal_heuristic \<Rightarrow> search_workspace \<Rightarrow>
   (shortest_path \<times> multi_goal_heuristic \<times> search_workspace) option" where
  "find_shortest_path_in env sources mh ws =
     (if sources = [] then Some (shortest_path_default, mh, ws)
      else case search_loop env (start_state env sources mh ws) of
          None \<Rightarrow> None
        | Some s \<Rightarrow>
            if st_best_goal s < 0 then Some (shortest_path_default, st_mh s, st_ws s)
            else case trace_back (st_ws s) (st_best_goal s) [] of
                None \<Rightarrow> None
              | Some path \<Rightarrow>
                  Some (\<lparr>sp_vertices = path,
                         sp_distance_nm = Geo (st_ws s) (st_best_goal s) +
                           en_goal_seed env ! nat (st_best_goal s),
                         sp_cost = st_best_total s, sp_found = True\<rparr>, st_mh s, st_ws s))"

definition search_env_of ::
  "nav_graph \<Rightarrow> seeded_endpoint list \<Rightarrow> seeded_endpoint list \<Rightarrow> search_options \<Rightarrow> search_env" where
  "search_env_of graph sources goals options =
     (let n = vertex_count graph in
      \<lparr>en_graph = graph, en_goal_seed = build_seed_table goals n,
       en_source_bearing = build_bearing_table sources n,
       en_goal_bearing = build_bearing_table goals n, en_options = options\<rparr>)"

definition find_shortest_path_multi ::
  "nav_graph \<Rightarrow> seeded_endpoint list \<Rightarrow> seeded_endpoint list \<Rightarrow> search_options \<Rightarrow> shortest_path option" where
  "find_shortest_path_multi graph sources goals options =
     map_option fst (find_shortest_path_in (search_env_of graph sources goals options) sources
       (multi_goal_heuristic_new graph goals) search_workspace_default)"

definition find_shortest_path ::
  "nav_graph \<Rightarrow> int \<Rightarrow> int \<Rightarrow> search_options \<Rightarrow> shortest_path option" where
  "find_shortest_path graph start goal options =
     find_shortest_path_multi graph
       [\<lparr>se_vertex = start, se_cost = 0, se_bearing = no_bearing\<rparr>]
       [\<lparr>se_vertex = goal, se_cost = 0, se_bearing = no_bearing\<rparr>] options"

end
