(* ===== verification/AStarStep.thy ===== *)
theory AStarStep
  imports AStar
begin

text \<open>
  What the pieces of the search loop do to the labels a search reads: seeding the sources and
  expanding a vertex are described by pure functions on labels, and by the nodes they add to the
  open set. The proofs of the search itself use these descriptions only.
\<close>

section \<open>Labels\<close>

definition label :: "search_workspace \<Rightarrow> int \<Rightarrow> cost \<times> real \<times> int \<times> real" where
  "label ws v = (G ws v, Geo ws v, Prev ws v, Inbound ws v)"

lemma label_eq_iff:
  "label ws v = label ws' v' \<longleftrightarrow>
     G ws v = G ws' v' \<and> Geo ws v = Geo ws' v' \<and> Prev ws v = Prev ws' v' \<and> Inbound ws v = Inbound ws' v'"
  by (simp add: label_def)

lemma heap_update_views [simp]:
  "G (ws\<lparr>ws_heap := h\<rparr>) v = G ws v" "Geo (ws\<lparr>ws_heap := h\<rparr>) v = Geo ws v"
  "Prev (ws\<lparr>ws_heap := h\<rparr>) v = Prev ws v" "Inbound (ws\<lparr>ws_heap := h\<rparr>) v = Inbound ws v"
  "Closed (ws\<lparr>ws_heap := h\<rparr>) v = Closed ws v" "label (ws\<lparr>ws_heap := h\<rparr>) v = label ws v"
  "ws_ready n (ws\<lparr>ws_heap := h\<rparr>) = ws_ready n ws"
  by (simp_all add: G_def Geo_def Prev_def Inbound_def Closed_def live_def label_def ws_ready_def ws_ok_def)

lemma push_open_views [simp]:
  "G (push_open f x ws) v = G ws v" "Geo (push_open f x ws) v = Geo ws v"
  "Prev (push_open f x ws) v = Prev ws v" "Inbound (push_open f x ws) v = Inbound ws v"
  "Closed (push_open f x ws) v = Closed ws v" "label (push_open f x ws) v = label ws v"
  "ws_ready n (push_open f x ws) = ws_ready n ws"
  "ws_heap (push_open f x ws) = push_heap (ws_heap ws) \<lparr>qn_f = f, qn_vertex = x\<rparr>"
  by (simp_all add: push_open_def)

lemma heap_relax [simp]: "ws_heap (relax v g geo p inb ws) = ws_heap ws"
  by (simp add: relax_def touch_def Let_def)

lemma heap_mark_closed [simp]: "ws_heap (mark_closed v ws) = ws_heap ws"
  by (simp add: mark_closed_def)

lemma label_relax:
  assumes "ws_ready n ws" "0 \<le> v" "v < n" "0 \<le> u" "u < n"
  shows "label (relax v g geo p inb ws) u = (if u = v then (g, geo, p, inb) else label ws u)"
  using labels.rel_views [OF assms] by (simp add: label_def)

lemma label_mark_closed [simp]: "label (mark_closed v ws) u = label ws u"
  by (simp add: label_def labels.close_views)

lemma turn_cost_inbound [simp]:
  "turn_cost opts (if tp_enabled (so_turn_penalty opts) then x else no_bearing) y = turn_cost opts x y"
  by (simp add: turn_cost_def)

lemma turn_cost_nonneg: "0 \<le> turn_cost opts x y"
  using penalty_bounds by (simp add: turn_cost_def)

section \<open>Expanding a vertex\<close>

text \<open>The cheapest usable edge from \<open>u\<close> to \<open>v\<close> among \<open>es\<close>, when neither filter blocks the hop.\<close>

definition hop_in :: "search_env \<Rightarrow> real graph_edge list \<Rightarrow> int \<Rightarrow> int \<Rightarrow> choice" where
  "hop_in env es u v =
     (if node_blocks (so_node_filter (en_options env)) v \<or> edge_blocks (so_edge_filter (en_options env)) u v
      then None else select_loop es (en_graph env) u v (en_options env) None)"

definition hop :: "search_env \<Rightarrow> int \<Rightarrow> int \<Rightarrow> choice" where
  "hop env u v = hop_in env (out_edges (en_graph env) u) u v"

abbreviation vertex :: "search_env \<Rightarrow> int \<Rightarrow> bool" where
  "vertex env v \<equiv> is_vertex (en_graph env) v"

definition turn_at :: "search_env \<Rightarrow> real \<Rightarrow> int \<Rightarrow> int \<Rightarrow> real" where
  "turn_at env inb u v = turn_cost (en_options env) inb (out_bearing (en_graph env) (en_options env) u v)"

definition relaxed_label ::
  "search_env \<Rightarrow> real graph_edge list \<Rightarrow> search_workspace \<Rightarrow> int \<Rightarrow> real \<Rightarrow> int \<Rightarrow> cost \<times> real \<times> int \<times> real" where
  "relaxed_label env es ws u inb v =
     (if Closed ws v then label ws v
      else case hop_in env es u v of None \<Rightarrow> label ws v
        | Some (e, c) \<Rightarrow>
            let t = G ws u + Fin (c + turn_at env inb u v) in
            if t < G ws v
            then (t, Geo ws u + ge_distance_nm e, u, out_bearing (en_graph env) (en_options env) u v)
            else label ws v)"

text \<open>The nodes pushed for labels \<open>ws'\<close> that improve on \<open>ws\<close>.\<close>

definition pushed ::
  "nav_graph \<Rightarrow> seeded_endpoint list \<Rightarrow> search_workspace \<Rightarrow> search_workspace \<Rightarrow> queue_node multiset \<Rightarrow> bool" where
  "pushed graph goals ws ws' N \<longleftrightarrow>
     (\<forall>x \<in># N. is_vertex graph (qn_vertex x) \<and> \<not> Closed ws (qn_vertex x) \<and>
        (\<exists>c. qn_f x = c + goal_bound graph goals (qn_vertex x) \<and> G ws' (qn_vertex x) \<le> c) \<and>
        G ws' (qn_vertex x) \<noteq> Infinity) \<and>
     (\<forall>v. is_vertex graph v \<longrightarrow> G ws' v < G ws v \<longrightarrow>
        (\<exists>x \<in># N. qn_vertex x = v \<and> qn_f x = G ws' v + goal_bound graph goals v)) \<and>
     (\<forall>v. is_vertex graph v \<longrightarrow> G ws' v \<le> G ws v)"

definition good_state :: "search_env \<Rightarrow> seeded_endpoint list \<Rightarrow> search_workspace \<Rightarrow> multi_goal_heuristic \<Rightarrow> bool" where
  "good_state env goals ws mh \<longleftrightarrow>
     ws_ready (vertex_count (en_graph env)) ws \<and> is_heap (ws_heap ws) \<and>
     heuristic_ok (en_graph env) goals mh"

definition expanded ::
  "search_env \<Rightarrow> seeded_endpoint list \<Rightarrow> real graph_edge list \<Rightarrow> int \<Rightarrow> real \<Rightarrow>
   search_workspace \<Rightarrow> search_workspace \<Rightarrow> multi_goal_heuristic \<Rightarrow> bool" where
  "expanded env goals es u inb ws ws' mh' \<longleftrightarrow>
     good_state env goals ws' mh' \<and> (\<forall>v. Closed ws' v = Closed ws v) \<and>
     (\<forall>v. vertex env v \<longrightarrow> label ws' v = relaxed_label env es ws u inb v) \<and>
     (\<exists>N. mset (ws_heap ws') = mset (ws_heap ws) + N \<and> size N \<le> length es \<and>
        pushed (en_graph env) goals ws ws' N)"

lemma relaxed_label_other:
  "edge_to e \<noteq> v \<Longrightarrow> relaxed_label env (es @ [e]) ws u inb v = relaxed_label env es ws u inb v"
  by (simp add: relaxed_label_def hop_in_def select_loop_snoc)

lemma relaxed_label_closed: "Closed ws v \<Longrightarrow> relaxed_label env es ws u inb v = label ws v"
  by (simp add: relaxed_label_def)

text \<open>The next parallel edge is taken exactly when it improves on the label reached so far.\<close>

lemma relaxed_label_snoc:
  fixes env es ws u inb e v
  defines "T \<equiv> \<lambda>c. G ws u + Fin (c + turn_at env inb u v)"
  assumes "edge_to e = v" "\<not> Closed ws v" "G ws u = Fin gu"
    and "\<not> node_blocks (so_node_filter (en_options env)) v"
    and "\<not> edge_blocks (so_edge_filter (en_options env)) u v"
    and "edge_cost (en_graph env) (en_options env) u e = Some c"
  shows "relaxed_label env (es @ [e]) ws u inb v =
    (if T c < fst (relaxed_label env es ws u inb v)
     then (T c, Geo ws u + ge_distance_nm e, u, out_bearing (en_graph env) (en_options env) u v)
     else relaxed_label env es ws u inb v)"
proof (cases "select_loop es (en_graph env) u v (en_options env) None")
  case None
  then show ?thesis using assms
    by (simp add: relaxed_label_def hop_in_def select_loop_snoc best_cost_def label_def Let_def)
next
  case (Some ec)
  obtain e1 c1 where ec: "ec = (e1, c1)" by fastforce
  show ?thesis using Some ec assms
    by (cases "G ws v") (auto simp: relaxed_label_def hop_in_def select_loop_snoc best_cost_def label_def Let_def)
qed

lemma relaxed_label_skip:
  assumes "edge_to e = v"
    and "node_blocks (so_node_filter (en_options env)) v \<or> edge_blocks (so_edge_filter (en_options env)) u v \<or>
      edge_cost (en_graph env) (en_options env) u e = None"
  shows "relaxed_label env (es @ [e]) ws u inb v = relaxed_label env es ws u inb v"
  using assms by (auto simp: relaxed_label_def hop_in_def select_loop_snoc Let_def)

lemma pushed_same:
  assumes "pushed graph goals ws ws1 N" and "\<And>v. is_vertex graph v \<Longrightarrow> G ws2 v = G ws1 v"
  shows "pushed graph goals ws ws2 N"
  using assms by (auto simp: pushed_def)

lemma pushed_add:
  assumes p: "pushed graph goals ws ws1 N" and v: "is_vertex graph v" "\<not> Closed ws v"
    and lt: "t < G ws1 v" and views: "\<And>w. is_vertex graph w \<Longrightarrow> G ws2 w = (if w = v then t else G ws1 w)"
  shows "pushed graph goals ws ws2 (add_mset \<lparr>qn_f = t + goal_bound graph goals v, qn_vertex = v\<rparr> N)"
proof -
  have le: "G ws2 w \<le> G ws1 w" if "is_vertex graph w" for w
    using views [OF that] lt that by auto
  have t: "t \<noteq> Infinity" using lt by auto
  have 1: "\<exists>c. qn_f x = c + goal_bound graph goals (qn_vertex x) \<and> G ws2 (qn_vertex x) \<le> c"
    and n2: "G ws2 (qn_vertex x) \<noteq> Infinity" and n3: "is_vertex graph (qn_vertex x)" "\<not> Closed ws (qn_vertex x)"
    if "x \<in># N" for x
  proof -
    have x: "is_vertex graph (qn_vertex x)" "\<not> Closed ws (qn_vertex x)" "G ws1 (qn_vertex x) \<noteq> Infinity"
      and "\<exists>c. qn_f x = c + goal_bound graph goals (qn_vertex x) \<and> G ws1 (qn_vertex x) \<le> c"
      using p that unfolding pushed_def by blast+
    then show "\<exists>c. qn_f x = c + goal_bound graph goals (qn_vertex x) \<and> G ws2 (qn_vertex x) \<le> c"
      using le [OF x(1)] by (meson order_trans)
    show "G ws2 (qn_vertex x) \<noteq> Infinity" using x views t by auto
    show "is_vertex graph (qn_vertex x)" "\<not> Closed ws (qn_vertex x)" by fact+
  qed
  have 2: "\<exists>x \<in># add_mset \<lparr>qn_f = t + goal_bound graph goals v, qn_vertex = v\<rparr> N.
      qn_vertex x = w \<and> qn_f x = G ws2 w + goal_bound graph goals w"
    if w: "is_vertex graph w" "G ws2 w < G ws w" for w
  proof (cases "w = v")
    case True
    then show ?thesis using views v by simp
  next
    case False
    then have "G ws2 w = G ws1 w" using views w by simp
    then obtain x where "x \<in># N" "qn_vertex x = w" "qn_f x = G ws2 w + goal_bound graph goals w"
      using p w unfolding pushed_def by metis
    then show ?thesis by auto
  qed
  have 3: "G ws2 w \<le> G ws w" if "is_vertex graph w" for w
    using le that p unfolding pushed_def by (meson order_trans)
  show ?thesis unfolding pushed_def using 1 n2 n3 2 3 v views t by auto
qed

lemma relax_edge_expanded:
  assumes ex: "expanded env goals es u inb ws ws1 mh1"
    and u: "Closed ws u" "vertex env u" "G ws u = Fin gu" and e: "vertex env (edge_to e)"
    and step: "relax_edge env u inb (ws1, mh1) e = (ws2, mh2)"
  shows "expanded env goals (es @ [e]) u inb ws ws2 mh2"
proof -
  let ?v = "edge_to e" and ?g = "en_graph env" and ?o = "en_options env"
  let ?skip = "Closed ws1 ?v \<or> node_blocks (so_node_filter ?o) ?v \<or> edge_blocks (so_edge_filter ?o) u ?v \<or>
    edge_cost ?g ?o u e = None"
  have good: "ws_ready (vertex_count ?g) ws1" "is_heap (ws_heap ws1)" "heuristic_ok ?g goals mh1"
    and cl: "Closed ws1 w = Closed ws w" and lab: "vertex env w \<Longrightarrow> label ws1 w = relaxed_label env es ws u inb w"
    for w
    using ex by (auto simp: expanded_def good_state_def)
  obtain N where N: "mset (ws_heap ws1) = mset (ws_heap ws) + N" "size N \<le> length es"
    "pushed ?g goals ws ws1 N"
    using ex by (auto simp: expanded_def)
  have v: "0 \<le> ?v" "?v < vertex_count ?g" using e by (auto simp: is_vertex_def)
  have labu: "label ws1 u = label ws u" using lab [OF u(2)] u(1) by (simp add: relaxed_label_closed)
  then have gu: "G ws1 u = Fin gu" "Geo ws1 u = Geo ws u" using u(3) by (simp_all add: label_eq_iff)
  show ?thesis
  proof (cases ?skip)
    case True
    then have ws2: "ws2 = ws1" "mh2 = mh1"
      using step by (auto simp: relax_edge_def Let_def edge_cost_def split: option.splits if_splits)
    have "relaxed_label env (es @ [e]) ws u inb w = relaxed_label env es ws u inb w" for w
      using True cl relaxed_label_skip [of e ?v env u es ws inb] relaxed_label_other [of e w env es ws u inb]
      by (cases "w = ?v") (auto simp: relaxed_label_closed)
    with ex ws2 N show ?thesis by (auto simp: expanded_def intro: le_SucI)
  next
    case False
    then obtain c where c: "edge_cost ?g ?o u e = Some c" by auto
    then obtain x where x: "edge_allowed ?o e u (coord_of ?g u) ?g ?v = Some x" "c = ge_distance_nm e + x"
      by (auto simp: edge_cost_def split: option.splits)
    let ?t = "G ws u + Fin (c + turn_at env inb u ?v)"
    have t: "G ws1 u + Fin (ge_distance_nm e + x + turn_cost ?o inb (out_bearing ?g ?o u ?v)) = ?t"
      using x u(3) gu(1) by (simp add: turn_at_def)
    have g1: "G ws1 ?v = fst (relaxed_label env es ws u inb ?v)" using lab [OF e] by (metis fst_conv label_def)
    note snoc = relaxed_label_snoc [OF refl _ u(3) _ _ c, of es inb]
    show ?thesis
    proof (cases "?t < G ws1 ?v")
      case False
      then have ws2: "ws2 = ws1" "mh2 = mh1"
        using step \<open>\<not> ?skip\<close> x t by (auto simp: relax_edge_def Let_def)
      have "relaxed_label env (es @ [e]) ws u inb w = relaxed_label env es ws u inb w" for w
        using False \<open>\<not> ?skip\<close> cl snoc g1 relaxed_label_other [of e w env es ws u inb] by (cases "w = ?v") auto
      with ex ws2 N show ?thesis by (auto simp: expanded_def intro: le_SucI)
    next
      case True
      let ?ws = "relax ?v ?t (Geo ws1 u + ge_distance_nm e) u (out_bearing ?g ?o u ?v) ws1"
      let ?h = "goal_bound ?g goals ?v"
      note h = heuristic_call_pure [OF good(3) e]
      have ws2: "ws2 = push_open (?t + ?h) ?v ?ws" and mh2: "mh2 = snd (heuristic_call mh1 ?v)"
        using step \<open>\<not> ?skip\<close> True x t h(1)
        by (auto simp: relax_edge_def Let_def split: prod.splits)
      have r: "ws_ready (vertex_count ?g) ?ws" using labels.ready_rel good(1) v by blast
      have views: "label ws2 w = (if w = ?v
          then (?t, Geo ws u + ge_distance_nm e, u, out_bearing ?g ?o u ?v) else label ws1 w)"
        if "vertex env w" for w
        using label_relax [OF good(1) v, of w] that gu by (auto simp: ws2 is_vertex_def)
      have gv: "G ws2 w = (if w = ?v then ?t else G ws1 w)" if "vertex env w" for w
        using views [OF that] by (auto simp: label_def split: if_splits)
      let ?N = "add_mset \<lparr>qn_f = ?t + ?h, qn_vertex = ?v\<rparr> N"
      have "mset (ws_heap ws2) = mset (ws_heap ws) + ?N"
        using heap.nodes_push [OF good(2)] N(1) by (simp add: ws2)
      moreover have "size ?N \<le> length (es @ [e])" using N(2) by simp
      moreover have "pushed ?g goals ws ws2 ?N"
        by (rule pushed_add [OF N(3) e _ True gv]) (use \<open>\<not> ?skip\<close> cl in auto)
      moreover have "good_state env goals ws2 mh2"
        using r h(2) heap.ok_push [OF good(2)] by (simp add: good_state_def ws2 mh2)
      moreover have "\<forall>w. Closed ws2 w = Closed ws w" using cl by (simp add: ws2 labels.rel_closed)
      moreover have "label ws2 w = relaxed_label env (es @ [e]) ws u inb w" if "vertex env w" for w
        using views [OF that] snoc True g1 cl \<open>\<not> ?skip\<close> lab [OF that]
          relaxed_label_other [of e w env es ws u inb] by (cases "w = ?v") auto
      ultimately show ?thesis unfolding expanded_def by blast
    qed
  qed
qed

lemma relax_edges_expanded:
  assumes "good_state env goals ws mh"
    and "Closed ws u" "vertex env u" "G ws u = Fin gu" and "\<forall>e \<in> set es. vertex env (edge_to e)"
    and "foldl (relax_edge env u inb) (ws, mh) es = (ws', mh')"
  shows "expanded env goals es u inb ws ws' mh'"
  using assms(5,6)
proof (induction es arbitrary: ws' mh' rule: rev_induct)
  case Nil
  then show ?case using assms(1)
    by (auto simp: expanded_def relaxed_label_def hop_in_def pushed_def)
next
  case (snoc e es)
  obtain ws1 mh1 where 1: "foldl (relax_edge env u inb) (ws, mh) es = (ws1, mh1)" by fastforce
  show ?case
    by (rule relax_edge_expanded [OF snoc.IH [OF _ 1] assms(2-4)]) (use snoc.prems 1 in auto)
qed

text \<open>The whole expansion, over all out-edges, with the inbound heading the workspace holds.\<close>

lemma relaxed_label_inbound:
  "relaxed_label env es ws u (if tp_enabled (so_turn_penalty (en_options env)) then x else no_bearing) v =
   relaxed_label env es ws u x v"
  unfolding relaxed_label_def turn_at_def turn_cost_inbound ..

lemma expand_spec:
  assumes "good_state env goals ws mh" and "graph_ok (en_graph env)"
    and "Closed ws u" "vertex env u" "G ws u \<noteq> Infinity"
    and "expand env u (ws, mh) = (ws', mh')"
  shows "expanded env goals (out_edges (en_graph env) u) u (Inbound ws u) ws ws' mh'"
proof -
  obtain gu where gu: "G ws u = Fin gu" using assms(5) by (cases "G ws u") auto
  have "expanded env goals (out_edges (en_graph env) u) u
      (if tp_enabled (so_turn_penalty (en_options env)) then Inbound ws u else no_bearing) ws ws' mh'"
    by (rule relax_edges_expanded [OF assms(1,3,4) gu])
      (use assms(2,6) out_edges_vertex in \<open>auto simp: expand_def Let_def\<close>)
  then show ?thesis unfolding expanded_def relaxed_label_inbound .
qed

section \<open>Seeding the sources\<close>

definition seeded_label :: "search_env \<Rightarrow> seeded_endpoint list \<Rightarrow> int \<Rightarrow> cost \<times> real \<times> int \<times> real" where
  "seeded_label env sources v =
     (case if node_blocks (so_node_filter (en_options env)) v then None else cheapest_seed sources v of
        None \<Rightarrow> (Infinity, 0, no_vertex, no_bearing)
      | Some s \<Rightarrow> (Fin (se_cost s), se_cost s, no_vertex, en_source_bearing env ! nat v))"

definition seeded ::
  "search_env \<Rightarrow> seeded_endpoint list \<Rightarrow> seeded_endpoint list \<Rightarrow> search_workspace \<Rightarrow>
   search_workspace \<Rightarrow> multi_goal_heuristic \<Rightarrow> bool" where
  "seeded env goals sources ws ws' mh' \<longleftrightarrow>
     good_state env goals ws' mh' \<and> (\<forall>v. Closed ws' v = Closed ws v) \<and>
     (\<forall>v. vertex env v \<longrightarrow> label ws' v = seeded_label env sources v) \<and>
     (\<exists>N. mset (ws_heap ws') = mset (ws_heap ws) + N \<and> size N \<le> length sources \<and>
        pushed (en_graph env) goals ws ws' N)"

lemma seeded_label_snoc:
  "seeded_label env (sources @ [s]) v =
     (if se_vertex s = v \<and> \<not> node_blocks (so_node_filter (en_options env)) v \<and>
         Fin (se_cost s) < fst (seeded_label env sources v)
      then (Fin (se_cost s), se_cost s, no_vertex, en_source_bearing env ! nat v)
      else seeded_label env sources v)"
  by (auto simp: seeded_label_def cheapest_seed_snoc split: option.splits)

lemma seed_source_seeded:
  assumes ex: "seeded env goals sources ws ws1 mh1"
    and fresh: "\<And>v. vertex env v \<Longrightarrow> \<not> Closed ws v"
    and step: "seed_source env (ws1, mh1) s = (ws2, mh2)"
  shows "seeded env goals (sources @ [s]) ws ws2 mh2"
proof -
  let ?v = "se_vertex s" and ?g = "en_graph env"
  have good: "ws_ready (vertex_count ?g) ws1" "is_heap (ws_heap ws1)" "heuristic_ok ?g goals mh1"
    and cl: "Closed ws1 w = Closed ws w" and lab: "vertex env w \<Longrightarrow> label ws1 w = seeded_label env sources w"
    for w
    using ex by (auto simp: seeded_def good_state_def)
  obtain N where N: "mset (ws_heap ws1) = mset (ws_heap ws) + N" "size N \<le> length sources"
    "pushed ?g goals ws ws1 N"
    using ex by (auto simp: seeded_def)
  have g1: "G ws1 w = fst (seeded_label env sources w)" if "vertex env w" for w
    using lab [OF that] by (metis fst_conv label_def)
  show ?thesis
  proof (cases "vertex env ?v \<and> \<not> node_blocks (so_node_filter (en_options env)) ?v \<and>
      Fin (se_cost s) < G ws1 ?v")
    case False
    then have "seed_source env (ws1, mh1) s = (ws1, mh1)"
      by (auto simp: seed_source_def Let_def is_vertex_def)
    then have ws2: "ws2 = ws1" "mh2 = mh1" using step by simp_all
    have "seeded_label env (sources @ [s]) w = seeded_label env sources w" if "vertex env w" for w
      using False that g1 by (auto simp: seeded_label_snoc)
    with ex ws2 N show ?thesis by (auto simp: seeded_def intro: le_SucI)
  next
    case True
    then have v: "vertex env ?v" "0 \<le> ?v" "?v < vertex_count ?g" by (auto simp: is_vertex_def)
    let ?ws = "relax ?v (Fin (se_cost s)) (se_cost s) no_vertex (en_source_bearing env ! nat ?v) ws1"
    let ?h = "goal_bound ?g goals ?v"
    note h = heuristic_call_pure [OF good(3) v(1)]
    have ws2: "ws2 = push_open (Fin (se_cost s) + ?h) ?v ?ws" and mh2: "mh2 = snd (heuristic_call mh1 ?v)"
      using step True v h(1) by (auto simp: seed_source_def Let_def split: prod.splits)
    have r: "ws_ready (vertex_count ?g) ?ws" using labels.ready_rel good(1) v by blast
    have views: "label ws2 w = (if w = ?v
        then (Fin (se_cost s), se_cost s, no_vertex, en_source_bearing env ! nat ?v) else label ws1 w)"
      if "vertex env w" for w
      using label_relax [OF good(1) v(2,3), of w] that by (auto simp: ws2 is_vertex_def)
    have gv: "G ws2 w = (if w = ?v then Fin (se_cost s) else G ws1 w)" if "vertex env w" for w
      using views [OF that] by (auto simp: label_def split: if_splits)
    let ?N = "add_mset \<lparr>qn_f = Fin (se_cost s) + ?h, qn_vertex = ?v\<rparr> N"
    have "mset (ws_heap ws2) = mset (ws_heap ws) + ?N"
      using heap.nodes_push [OF good(2)] N(1) by (simp add: ws2)
    moreover have "size ?N \<le> length (sources @ [s])" using N(2) by simp
    moreover have "pushed ?g goals ws ws2 ?N"
      by (rule pushed_add [OF N(3) v(1) fresh [OF v(1)] _ gv]) (use True in auto)
    moreover have "good_state env goals ws2 mh2"
      using r h(2) heap.ok_push [OF good(2)] by (simp add: good_state_def ws2 mh2)
    moreover have "\<forall>w. Closed ws2 w = Closed ws w" using cl by (simp add: ws2 labels.rel_closed)
    moreover have "label ws2 w = seeded_label env (sources @ [s]) w" if "vertex env w" for w
      using views [OF that] True g1 [OF that] lab [OF that] by (auto simp: seeded_label_snoc)
    ultimately show ?thesis unfolding seeded_def by blast
  qed
qed

text \<open>The state a search starts from, whatever the workspace held before.\<close>

lemma start_state_seeded:
  fixes sources
  assumes "ws_ok ws" "ws_unwrapped ws" "heuristic_ok (en_graph env) goals mh"
  defines "s \<equiv> start_state env sources mh ws"
  shows "good_state env goals (st_ws s) (st_mh s)"
    and "\<And>v. vertex env v \<Longrightarrow> \<not> Closed (st_ws s) v"
    and "\<And>v. vertex env v \<Longrightarrow> label (st_ws s) v = seeded_label env sources v"
    and "length (ws_heap (st_ws s)) \<le> length sources"
    and "\<exists>ws0. (\<forall>v. vertex env v \<longrightarrow> G ws0 v = Infinity) \<and>
      pushed (en_graph env) goals ws0 (st_ws s) (mset (ws_heap (st_ws s)))"
    and "st_best_total s = Infinity" and "st_best_goal s = no_vertex"
proof -
  let ?n = "vertex_count (en_graph env)"
  define ws0 where "ws0 = (next_generation (ws_reset ?n ws))\<lparr>ws_heap := []\<rparr>"
  have ready: "ws_ready ?n ws0" using begin_search(1) [OF assms(1,2)] by (simp add: ws0_def)
  have fresh: "\<not> Closed ws0 v" if "vertex env v" for v
    using that begin_search(3) [OF assms(1,2)] by (simp add: ws0_def is_vertex_def)
  have views: "label ws0 v = (Infinity, 0, no_vertex, no_bearing)" if "vertex env v" for v
    using that begin_search_views [OF assms(1,2)] by (simp add: ws0_def label_def is_vertex_def)
  have fold: "seeded env goals sources ws0 ws' mh'"
    if "foldl (seed_source env) (ws0, mh) sources = (ws', mh')" for ws' mh'
    using that
  proof (induction sources arbitrary: ws' mh' rule: rev_induct)
    case Nil
    have "pushed (en_graph env) goals ws0 ws0 {#}" by (simp add: pushed_def)
    moreover have "good_state env goals ws0 mh"
      using ready assms(3) heap.ok_empty by (simp add: good_state_def ws0_def)
    ultimately show ?case using Nil views by (simp add: seeded_def seeded_label_def cheapest_seed_def)
  next
    case (snoc s sources)
    obtain ws1 mh1 where 1: "foldl (seed_source env) (ws0, mh) sources = (ws1, mh1)" by fastforce
    show ?case by (rule seed_source_seeded [OF snoc.IH [OF 1] fresh]) (use snoc.prems 1 in auto)
  qed
  obtain ws' mh' where f: "foldl (seed_source env) (ws0, mh) sources = (ws', mh')" by fastforce
  have s: "st_ws s = ws'" "st_mh s = mh'" "st_best_total s = Infinity" "st_best_goal s = no_vertex"
    using f by (simp_all add: s_def start_state_def Let_def ws0_def)
  note sd = fold [OF f, unfolded seeded_def]
  have heap0: "ws_heap ws0 = []" by (simp add: ws0_def)
  show "good_state env goals (st_ws s) (st_mh s)" using sd s by simp
  show "\<not> Closed (st_ws s) v" if "vertex env v" for v using sd s fresh that by simp
  show "label (st_ws s) v = seeded_label env sources v" if "vertex env v" for v using sd s that by simp
  show "length (ws_heap (st_ws s)) \<le> length sources"
    using sd s heap0 by (metis add_0 mset.simps(1) size_mset)
  have "pushed (en_graph env) goals ws0 ws' (mset (ws_heap ws'))"
    using sd heap0 by (metis add_0 mset.simps(1))
  moreover have "\<forall>v. vertex env v \<longrightarrow> G ws0 v = Infinity" using views by (simp add: label_def)
  ultimately show "\<exists>ws0. (\<forall>v. vertex env v \<longrightarrow> G ws0 v = Infinity) \<and>
      pushed (en_graph env) goals ws0 (st_ws s) (mset (ws_heap (st_ws s)))"
    using s by auto
qed (simp_all add: s_def start_state_def Let_def split: prod.splits)

end
