(* ===== verification/AStarInvariant.thy ===== *)
theory AStarInvariant
  imports AStarStep
begin

text \<open>
  The search of \<^verbatim>\<open>core/graph/astar.cc\<close>: the invariant of its loop, its preservation by every
  round, and that the loop returns (the work left, open nodes plus out-edges of unclosed vertices,
  decreases).
\<close>

section \<open>The invariant\<close>

definition open_inv :: "search_env \<Rightarrow> seeded_endpoint list \<Rightarrow> search_workspace \<Rightarrow> bool" where
  "open_inv env goals ws \<longleftrightarrow>
     (\<forall>x \<in> set (ws_heap ws). vertex env (qn_vertex x) \<and> G ws (qn_vertex x) \<noteq> Infinity \<and>
        (\<exists>c. qn_f x = c + goal_bound (en_graph env) goals (qn_vertex x) \<and> G ws (qn_vertex x) \<le> c)) \<and>
     (\<forall>v. vertex env v \<longrightarrow> G ws v \<noteq> Infinity \<longrightarrow> \<not> Closed ws v \<longrightarrow>
        (\<exists>x \<in> set (ws_heap ws). qn_vertex x = v \<and> qn_f x = G ws v + goal_bound (en_graph env) goals v))"

text \<open>A label is justified by a source, or by the cheapest usable hop from a closed vertex.\<close>

definition label_ok :: "search_env \<Rightarrow> seeded_endpoint list \<Rightarrow> search_workspace \<Rightarrow> int \<Rightarrow> bool" where
  "label_ok env sources ws v \<longleftrightarrow>
     (if Prev ws v = no_vertex then label ws v = seeded_label env sources v
      else let u = Prev ws v in
        vertex env u \<and> Closed ws u \<and>
        (\<exists>e c. hop env u v = Some (e, c) \<and> G ws v = G ws u + Fin (c + turn_at env (Inbound ws u) u v) \<and>
           Geo ws v = Geo ws u + ge_distance_nm e \<and>
           Inbound ws v = out_bearing (en_graph env) (en_options env) u v))"

text \<open>A path of closed vertices followed back to a source, last vertex first.\<close>

inductive traced :: "search_env \<Rightarrow> search_workspace \<Rightarrow> int list \<Rightarrow> bool" for env ws where
  source: "vertex env v \<Longrightarrow> Closed ws v \<Longrightarrow> Prev ws v = no_vertex \<Longrightarrow> traced env ws [v]"
| hop: "traced env ws (u # p) \<Longrightarrow> vertex env v \<Longrightarrow> Closed ws v \<Longrightarrow> Prev ws v = u \<Longrightarrow>
    v \<notin> set (u # p) \<Longrightarrow> traced env ws (v # u # p)"

inductive_cases traced_ConsE: "traced env ws (v # p)"
inductive_simps traced_Nil_iff [simp]: "traced env ws []"

definition closed_inv :: "search_env \<Rightarrow> search_workspace \<Rightarrow> bool" where
  "closed_inv env ws \<longleftrightarrow>
     (\<forall>v. vertex env v \<longrightarrow> Closed ws v \<longrightarrow> G ws v \<noteq> Infinity \<and> (\<exists>p. traced env ws (v # p)))"

text \<open>Everything one hop away from a source or a closed vertex has a label.\<close>

definition reach_inv :: "search_env \<Rightarrow> seeded_endpoint list \<Rightarrow> search_workspace \<Rightarrow> bool" where
  "reach_inv env sources ws \<longleftrightarrow>
     (\<forall>v. vertex env v \<longrightarrow> G ws v \<le> fst (seeded_label env sources v)) \<and>
     (\<forall>u v. vertex env u \<longrightarrow> vertex env v \<longrightarrow> Closed ws u \<longrightarrow> hop env u v \<noteq> None \<longrightarrow> G ws v \<noteq> Infinity)"

definition is_goal :: "search_env \<Rightarrow> int \<Rightarrow> bool" where
  "is_goal env v \<longleftrightarrow> vertex env v \<and> 0 \<le> en_goal_seed env ! nat v"

definition best_inv :: "search_env \<Rightarrow> search_state \<Rightarrow> bool" where
  "best_inv env s \<longleftrightarrow>
     (st_best_goal s = no_vertex \<and> st_best_total s = Infinity \<or>
      is_goal env (st_best_goal s) \<and> Closed (st_ws s) (st_best_goal s) \<and>
      st_best_total s = finish_total env (st_ws s) (st_best_goal s)) \<and>
     (\<forall>u. is_goal env u \<longrightarrow> Closed (st_ws s) u \<longrightarrow> st_best_total s \<le> finish_total env (st_ws s) u)"

text \<open>What holds of the labels, and is kept when the open set is left half-popped.\<close>

definition labels_inv :: "search_env \<Rightarrow> seeded_endpoint list \<Rightarrow> search_workspace \<Rightarrow> bool" where
  "labels_inv env sources ws \<longleftrightarrow>
     (\<forall>v. vertex env v \<longrightarrow> G ws v \<noteq> Infinity \<longrightarrow> label_ok env sources ws v) \<and>
     closed_inv env ws \<and> reach_inv env sources ws"

definition search_inv ::
  "search_env \<Rightarrow> seeded_endpoint list \<Rightarrow> seeded_endpoint list \<Rightarrow> search_state \<Rightarrow> bool" where
  "search_inv env goals sources s \<longleftrightarrow>
     good_state env goals (st_ws s) (st_mh s) \<and> open_inv env goals (st_ws s) \<and>
     labels_inv env sources (st_ws s) \<and> best_inv env s"

lemma labels_inv_cong:
  assumes "\<And>v. vertex env v \<Longrightarrow> label ws' v = label ws v \<and> (Closed ws' v \<longleftrightarrow> Closed ws v)"
    and "labels_inv env sources ws"
  shows "labels_inv env sources ws'"
proof -
  have v: "G ws' v = G ws v" "Geo ws' v = Geo ws v" "Prev ws' v = Prev ws v" "Inbound ws' v = Inbound ws v"
    "Closed ws' v = Closed ws v" if "vertex env v" for v
    using assms(1) [OF that] by (auto simp: label_eq_iff)
  have tr: "traced env ws p \<Longrightarrow> traced env ws' p" for p
    by (induction rule: traced.induct) (auto intro: traced.intros simp: v)
  have "label_ok env sources ws' x" if x: "vertex env x" "G ws' x \<noteq> Infinity" for x
  proof -
    have "label_ok env sources ws x" using x assms(2) v by (auto simp: labels_inv_def)
    then show ?thesis using v [OF x(1)] v assms(1) [OF x(1)] unfolding label_ok_def Let_def
      by (auto split: if_splits)
  qed
  moreover have "closed_inv env ws'"
    using assms(2) v tr unfolding labels_inv_def closed_inv_def by metis
  moreover have "reach_inv env sources ws'"
    using assms(2) v unfolding labels_inv_def reach_inv_def by metis
  ultimately show ?thesis by (simp add: labels_inv_def)
qed

section \<open>The start\<close>

lemma seeded_label_prev: "fst (snd (snd (seeded_label env sources v))) = no_vertex"
  by (simp add: seeded_label_def split: option.split)

lemma start_inv:
  assumes "ws_ok ws" "ws_unwrapped ws" "heuristic_ok (en_graph env) goals mh"
  shows "search_inv env goals sources (start_state env sources mh ws)"
proof -
  let ?s = "start_state env sources mh ws" and ?ws = "st_ws (start_state env sources mh ws)"
  note st = start_state_seeded [OF assms, where sources = sources]
  obtain ws0 where ws0: "\<And>v. vertex env v \<Longrightarrow> G ws0 v = Infinity"
    and p: "pushed (en_graph env) goals ws0 ?ws (mset (ws_heap ?ws))"
    using st(5) by blast
  have "open_inv env goals ?ws"
    unfolding open_inv_def
  proof (intro conjI ballI allI impI)
    fix x assume "x \<in> set (ws_heap ?ws)"
    then show "vertex env (qn_vertex x)" "G ?ws (qn_vertex x) \<noteq> Infinity"
      "\<exists>c. qn_f x = c + goal_bound (en_graph env) goals (qn_vertex x) \<and> G ?ws (qn_vertex x) \<le> c"
      using p by (auto simp: pushed_def)
  next
    fix v assume v: "vertex env v" "G ?ws v \<noteq> Infinity"
    then have "G ?ws v < G ws0 v" using ws0 by (cases "G ?ws v") auto
    then show "\<exists>x \<in> set (ws_heap ?ws). qn_vertex x = v \<and> qn_f x = G ?ws v + goal_bound (en_graph env) goals v"
      using p v by (auto simp: pushed_def)
  qed
  moreover have "Prev ?ws v = no_vertex" if "vertex env v" for v
    using st(3) [OF that] seeded_label_prev [of env sources v] by (metis fst_conv snd_conv label_def)
  then have "labels_inv env sources ?ws"
    using st(2,3) by (auto simp: labels_inv_def label_ok_def closed_inv_def reach_inv_def)
      (metis fst_conv label_def order_refl)
  moreover have "best_inv env ?s" using st(2,6,7) by (auto simp: best_inv_def is_goal_def)
  ultimately show ?thesis using st(1) by (simp add: search_inv_def)
qed

section \<open>One round of the loop\<close>

text \<open>The three outcomes of a round, as the loop's branches have them.\<close>

lemma search_step_cases:
  assumes "good_state env goals (st_ws s) (st_mh s)"
  obtains (empty) "ws_heap (st_ws s) = []" "search_step env s = Done s"
  | (popped) top rest where
      "ws_heap (st_ws s) \<noteq> []" "is_heap rest" "mset (ws_heap (st_ws s)) = add_mset top (mset rest)"
      "\<forall>y \<in> set (ws_heap (st_ws s)). qn_f top \<le> qn_f y"
      "search_step env s =
        (let ws = (st_ws s)\<lparr>ws_heap := rest\<rparr>; u = qn_vertex top in
         if Closed (st_ws s) u then Again (s\<lparr>st_ws := ws\<rparr>)
         else if st_best_total s \<le> qn_f top then Done (s\<lparr>st_ws := ws\<rparr>)
         else
           let s1 = finish env u (s\<lparr>st_ws := mark_closed u ws\<rparr>);
               (ws2, mh2) = expand env u (st_ws s1, st_mh s1)
           in Again (s1\<lparr>st_ws := ws2, st_mh := mh2\<rparr>))"
proof (cases "ws_heap (st_ws s) = []")
  case True
  then show ?thesis using empty by (simp add: search_step_def)
next
  case False
  obtain top rest where pop: "pop_open (ws_heap (st_ws s)) = (top, rest)" by fastforce
  have h: "is_heap (ws_heap (st_ws s))" "mset (ws_heap (st_ws s)) \<noteq> {#}"
    using assms False by (auto simp: good_state_def)
  from heap.pop_laws [OF h pop] show ?thesis
    using False pop by (intro popped [of rest top]) (simp_all add: search_step_def Let_def)
qed

lemma finish_views [simp]:
  "st_ws (finish env u s) = st_ws s" "st_mh (finish env u s) = st_mh s"
  by (simp_all add: finish_def Let_def)

lemma finish_best:
  assumes b: "best_inv env s" and st: "st_ws s' = ws'" "st_best_total s' = st_best_total s"
    "st_best_goal s' = st_best_goal s"
    and cl: "\<And>v. vertex env v \<Longrightarrow> Closed ws' v \<longleftrightarrow> v = u \<or> Closed (st_ws s) v"
    and lab: "\<And>v. vertex env v \<Longrightarrow> label ws' v = label (st_ws s) v" and u: "vertex env u"
  shows "best_inv env (finish env u s')"
proof -
  have tot: "finish_total env ws' v = finish_total env (st_ws s) v" if "vertex env v" for v
    using lab [OF that] by (simp add: finish_total_def label_eq_iff Let_def)
  have old: "st_best_total s \<le> finish_total env ws' v" if "is_goal env v" "Closed (st_ws s) v" for v
    using b that tot by (auto simp: best_inv_def is_goal_def)
  have keep: "st_best_goal s = no_vertex \<and> st_best_total s = Infinity \<or>
      is_goal env (st_best_goal s) \<and> Closed ws' (st_best_goal s) \<and>
      st_best_total s = finish_total env ws' (st_best_goal s)"
    using b tot cl by (auto simp: best_inv_def is_goal_def)
  show ?thesis
  proof (cases "0 \<le> en_goal_seed env ! nat u \<and> finish_total env ws' u < st_best_total s")
    case True
    then have f: "finish env u s' = s'\<lparr>st_best_total := finish_total env ws' u, st_best_goal := u\<rparr>"
      using st by (simp add: finish_def Let_def)
    have "finish_total env ws' u \<le> finish_total env ws' v" if "is_goal env v" "Closed ws' v" for v
      using True old that cl [of v] by (cases "v = u") (auto simp: is_goal_def intro: order_trans less_imp_le)
    then show ?thesis using True u cl [OF u] st by (auto simp: f best_inv_def is_goal_def)
  next
    case False
    then have f: "finish env u s' = s'" using st by (auto simp: finish_def Let_def)
    have "st_best_total s \<le> finish_total env ws' v" if "is_goal env v" "Closed ws' v" for v
      using False old that cl [of v] by (cases "v = u") (auto simp: is_goal_def)
    then show ?thesis using keep st by (auto simp: f best_inv_def)
  qed
qed

lemma best_inv_cong:
  assumes "best_inv env s" "st_best_total s' = st_best_total s" "st_best_goal s' = st_best_goal s"
    and "\<And>v. vertex env v \<Longrightarrow> Closed (st_ws s) v \<Longrightarrow> label (st_ws s') v = label (st_ws s) v"
    and "\<And>v. vertex env v \<Longrightarrow> Closed (st_ws s') v \<longleftrightarrow> Closed (st_ws s) v"
  shows "best_inv env s'"
proof -
  have "finish_total env (st_ws s') v = finish_total env (st_ws s) v"
    if "vertex env v" "Closed (st_ws s) v" for v
    using assms(4) [OF that] by (simp add: finish_total_def label_eq_iff Let_def)
  then show ?thesis using assms(1,2,3,5) unfolding best_inv_def is_goal_def by metis
qed

text \<open>Closing \<open>u\<close> and relaxing its out-edges, as the labels see it.\<close>

definition closes :: "search_env \<Rightarrow> int \<Rightarrow> search_workspace \<Rightarrow> search_workspace \<Rightarrow> bool" where
  "closes env u ws ws' \<longleftrightarrow>
     vertex env u \<and> \<not> Closed ws u \<and> G ws u \<noteq> Infinity \<and>
     (\<forall>v. vertex env v \<longrightarrow> (Closed ws' v \<longleftrightarrow> v = u \<or> Closed ws v)) \<and>
     (\<forall>v. vertex env v \<longrightarrow> v = u \<or> Closed ws v \<longrightarrow> label ws' v = label ws v) \<and>
     (\<forall>v. vertex env v \<longrightarrow> v \<noteq> u \<longrightarrow> \<not> Closed ws v \<longrightarrow>
        label ws' v = label ws v \<and>
          (\<forall>e c. hop env u v = Some (e, c) \<longrightarrow> G ws v \<le> G ws u + Fin (c + turn_at env (Inbound ws u) u v)) \<or>
        (\<exists>e c. hop env u v = Some (e, c) \<and> G ws u + Fin (c + turn_at env (Inbound ws u) u v) < G ws v \<and>
           label ws' v = (G ws u + Fin (c + turn_at env (Inbound ws u) u v),
             Geo ws u + ge_distance_nm e, u, out_bearing (en_graph env) (en_options env) u v)))"

lemma expanded_closes:
  assumes ex: "expanded env goals (out_edges (en_graph env) u) u (Inbound ws u) ws1 ws' mh'"
    and u: "vertex env u" "\<not> Closed ws u" "G ws u \<noteq> Infinity"
    and w1: "\<And>v. vertex env v \<Longrightarrow> label ws1 v = label ws v \<and> (Closed ws1 v \<longleftrightarrow> v = u \<or> Closed ws v)"
  shows "closes env u ws ws'"
proof -
  have v1: "G ws1 v = G ws v" "Geo ws1 v = Geo ws v" if "vertex env v" for v
    using w1 [OF that] by (auto simp: label_eq_iff)
  have lab: "label ws' v = relaxed_label env (out_edges (en_graph env) u) ws1 u (Inbound ws u) v"
    if "vertex env v" for v using ex that by (simp add: expanded_def)
  have "Closed ws' v \<longleftrightarrow> v = u \<or> Closed ws v" if "vertex env v" for v
    using ex w1 [OF that] by (simp add: expanded_def)
  moreover have "label ws' v = label ws v" if "vertex env v" "v = u \<or> Closed ws v" for v
    using lab [OF that(1)] w1 [OF that(1)] that(2) by (simp add: relaxed_label_closed)
  moreover have "label ws' v = label ws v \<and>
          (\<forall>e c. hop env u v = Some (e, c) \<longrightarrow> G ws v \<le> G ws u + Fin (c + turn_at env (Inbound ws u) u v)) \<or>
        (\<exists>e c. hop env u v = Some (e, c) \<and> G ws u + Fin (c + turn_at env (Inbound ws u) u v) < G ws v \<and>
           label ws' v = (G ws u + Fin (c + turn_at env (Inbound ws u) u v),
             Geo ws u + ge_distance_nm e, u, out_bearing (en_graph env) (en_options env) u v))"
    if v: "vertex env v" "v \<noteq> u" "\<not> Closed ws v" for v
  proof (cases "hop env u v")
    case None
    then show ?thesis using lab [OF v(1)] w1 [OF v(1)] by (auto simp: relaxed_label_def hop_def)
  next
    case (Some a)
    obtain e c where "a = (e, c)" by fastforce
    with Some show ?thesis using lab [OF v(1)] w1 [OF v(1)] v v1 [OF v(1)] v1 [OF u(1)]
      by (auto simp: relaxed_label_def hop_def Let_def not_less)
  qed
  ultimately show ?thesis using u unfolding closes_def by blast
qed

lemma closes_mono:
  assumes "closes env u ws ws'" "vertex env v"
  shows "G ws' v \<le> G ws v"
proof (cases "v = u \<or> Closed ws v")
  case True
  then have "label ws' v = label ws v" using assms by (auto simp: closes_def)
  then show ?thesis by (simp add: label_eq_iff)
next
  case False
  then have "label ws' v = label ws v \<or> (\<exists>t r. t < G ws v \<and> label ws' v = (t, r))"
    using assms unfolding closes_def by blast
  then show ?thesis by (auto simp: label_def)
qed

lemma closes_closed_views:
  assumes "closes env u ws ws'" "vertex env v" "v = u \<or> Closed ws v"
  shows "G ws' v = G ws v" "Geo ws' v = Geo ws v" "Prev ws' v = Prev ws v" "Inbound ws' v = Inbound ws v"
    "Closed ws' v"
proof -
  have "label ws' v = label ws v" "Closed ws' v" using assms by (auto simp: closes_def)
  then show "G ws' v = G ws v" "Geo ws' v = Geo ws v" "Prev ws' v = Prev ws v" "Inbound ws' v = Inbound ws v"
    "Closed ws' v" by (simp_all add: label_eq_iff)
qed

lemma hop_Some_unblocked: "hop env u v = Some x \<Longrightarrow> \<not> node_blocks (so_node_filter (en_options env)) v"
  by (auto simp: hop_def hop_in_def split: if_splits)

lemma closes_label_ok:
  assumes c: "closes env u ws ws'" and ok: "\<And>v. vertex env v \<Longrightarrow> G ws v \<noteq> Infinity \<Longrightarrow> label_ok env sources ws v"
    and v: "vertex env v" "G ws' v \<noteq> Infinity"
  shows "label_ok env sources ws' v"
proof -
  have old: "label_ok env sources ws' v" if same: "label ws' v = label ws v"
  proof -
    have "G ws v \<noteq> Infinity" using same v by (simp add: label_eq_iff)
    then have l: "label_ok env sources ws v" using ok v by blast
    show ?thesis
    proof (cases "Prev ws v = no_vertex")
      case True
      moreover from this have "Prev ws' v = no_vertex" using same by (simp add: label_eq_iff)
      ultimately show ?thesis using l same by (simp add: label_ok_def)
    next
      case False
      then have p: "vertex env (Prev ws v)" "Closed ws (Prev ws v)" using l by (simp_all add: label_ok_def Let_def)
      show ?thesis using False l same closes_closed_views [OF c p(1)] p
        by (simp add: label_ok_def Let_def label_eq_iff)
    qed
  qed
  show ?thesis
  proof (cases "label ws' v = label ws v")
    case True
    then show ?thesis by (rule old)
  next
    case False
    then obtain e k where h: "hop env u v = Some (e, k)" and lab: "label ws' v =
        (G ws u + Fin (k + turn_at env (Inbound ws u) u v), Geo ws u + ge_distance_nm e, u,
         out_bearing (en_graph env) (en_options env) u v)"
      using c v unfolding closes_def by blast
    have u: "vertex env u" using c by (simp add: closes_def)
    then have "u \<noteq> no_vertex" by (auto simp: is_vertex_def no_vertex_def)
    then show ?thesis using lab h u closes_closed_views [OF c u]
      by (simp add: label_ok_def Let_def label_def)
  qed
qed

lemma closes_traced:
  assumes "closes env u ws ws'" "traced env ws p"
  shows "traced env ws' p"
  using assms(2) by (induction rule: traced.induct)
    (auto intro!: traced.intros simp: closes_closed_views [OF assms(1)])

lemma traced_members: "traced env ws p \<Longrightarrow> v \<in> set p \<Longrightarrow> vertex env v \<and> Closed ws v"
  by (induction arbitrary: v rule: traced.induct) auto

lemma closes_labels_inv:
  assumes c: "closes env u ws ws'" and inv: "labels_inv env sources ws"
  shows "labels_inv env sources ws'"
proof -
  have ok: "label_ok env sources ws v" if "vertex env v" "G ws v \<noteq> Infinity" for v
    using inv that by (simp add: labels_inv_def)
  have ci: "closed_inv env ws" and ri: "reach_inv env sources ws" using inv by (simp_all add: labels_inv_def)
  have u: "vertex env u" "\<not> Closed ws u" "G ws u \<noteq> Infinity" using c by (simp_all add: closes_def)
  note uv = closes_closed_views [OF c u(1)]
  have tr_u: "\<exists>p. traced env ws' (u # p)"
  proof (cases "Prev ws u = no_vertex")
    case True
    then show ?thesis using traced.source [of env u ws'] u uv by auto
  next
    case False
    then have p: "vertex env (Prev ws u)" "Closed ws (Prev ws u)"
      using ok [OF u(1,3)] by (simp_all add: label_ok_def Let_def)
    then obtain q where q: "traced env ws (Prev ws u # q)" using ci by (auto simp: closed_inv_def)
    have "u \<notin> set (Prev ws u # q)" using traced_members [OF q] u(2) by blast
    then have "traced env ws' (u # Prev ws u # q)"
      using closes_traced [OF c q] u uv by (intro traced.hop) auto
    then show ?thesis ..
  qed
  have "closed_inv env ws'"
    unfolding closed_inv_def
  proof (intro allI impI)
    fix v assume v: "vertex env v" "Closed ws' v"
    show "G ws' v \<noteq> Infinity \<and> (\<exists>p. traced env ws' (v # p))"
    proof (cases "v = u")
      case True
      then show ?thesis using tr_u uv u by simp
    next
      case False
      then have "Closed ws v" using v c by (auto simp: closes_def)
      then show ?thesis using ci v closes_traced [OF c] closes_closed_views [OF c v(1)]
        unfolding closed_inv_def by metis
    qed
  qed
  moreover have "reach_inv env sources ws'"
    unfolding reach_inv_def
  proof (intro conjI allI impI)
    fix v assume "vertex env v"
    then show "G ws' v \<le> fst (seeded_label env sources v)"
      using ri closes_mono [OF c] unfolding reach_inv_def by (meson order_trans)
  next
    fix w v assume wv: "vertex env w" "vertex env v" "Closed ws' w" "hop env w v \<noteq> None"
    show "G ws' v \<noteq> Infinity"
    proof (cases "Closed ws w \<or> G ws v \<noteq> Infinity")
      case True
      then have "G ws v \<noteq> Infinity" using ri wv by (auto simp: reach_inv_def)
      then show ?thesis using closes_mono [OF c wv(2)] by auto
    next
      case False
      then have w: "w = u" using wv c by (auto simp: closes_def)
      obtain a where "hop env u v = Some a" using wv w by auto
      moreover obtain gu where "G ws u = Fin gu" using u by (cases "G ws u") auto
      moreover have "v \<noteq> u" "\<not> Closed ws v" using False u ci wv by (auto simp: closed_inv_def)
      ultimately show ?thesis using c wv False unfolding closes_def
        by (cases a) (auto simp: label_def)
    qed
  qed
  ultimately show ?thesis using closes_label_ok [OF c ok] by (simp add: labels_inv_def)
qed

lemma closes_open_inv:
  assumes c: "closes env u ws ws'" and g1: "\<And>v. vertex env v \<Longrightarrow> G ws1 v = G ws v"
    and o: "open_inv env goals ws"
    and h: "mset (ws_heap ws) = add_mset x0 (mset rest)" "qn_vertex x0 = u"
      "mset (ws_heap ws') = mset rest + N"
    and p: "pushed (en_graph env) goals ws1 ws' N"
  shows "open_inv env goals ws'"
proof -
  have rest: "set rest \<subseteq> set (ws_heap ws)" using h(1) by (metis mset_subset_eq_add_right set_mset_mono
        set_mset_mset add_mset_add_single union_commute)
  have set': "set (ws_heap ws') = set rest \<union> set_mset N" using h(3) by (metis set_mset_mset set_mset_union)
  have mem: "x = x0 \<or> x \<in> set rest" if "x \<in> set (ws_heap ws)" for x
    using that h(1) by (metis insert_iff set_mset_add_mset_insert set_mset_mset)
  show ?thesis
    unfolding open_inv_def
  proof (intro conjI ballI allI impI)
    fix x assume x: "x \<in> set (ws_heap ws')"
    then consider "x \<in> set rest" | "x \<in># N" using set' by auto
    then have "vertex env (qn_vertex x) \<and> G ws' (qn_vertex x) \<noteq> Infinity \<and>
      (\<exists>c. qn_f x = c + goal_bound (en_graph env) goals (qn_vertex x) \<and> G ws' (qn_vertex x) \<le> c)"
    proof cases
      case 1
      then have "vertex env (qn_vertex x)" "G ws (qn_vertex x) \<noteq> Infinity"
        "\<exists>c. qn_f x = c + goal_bound (en_graph env) goals (qn_vertex x) \<and> G ws (qn_vertex x) \<le> c"
        using o rest by (auto simp: open_inv_def)
      moreover have "G ws' (qn_vertex x) \<le> G ws (qn_vertex x)" by (rule closes_mono [OF c]) fact
      ultimately show ?thesis by (metis cost_le_Infinity order_trans order.antisym less_eq_cost.simps(1))
    next
      case 2
      then show ?thesis using p unfolding pushed_def by blast
    qed
    then show "vertex env (qn_vertex x)" "G ws' (qn_vertex x) \<noteq> Infinity"
      "\<exists>c. qn_f x = c + goal_bound (en_graph env) goals (qn_vertex x) \<and> G ws' (qn_vertex x) \<le> c"
      by blast+
  next
    fix v assume v: "vertex env v" "G ws' v \<noteq> Infinity" "\<not> Closed ws' v"
    then have nv: "v \<noteq> u" "\<not> Closed ws v" using c by (auto simp: closes_def)
    show "\<exists>x \<in> set (ws_heap ws'). qn_vertex x = v \<and> qn_f x = G ws' v + goal_bound (en_graph env) goals v"
    proof (cases "G ws' v < G ws1 v")
      case True
      then show ?thesis using p v set' unfolding pushed_def by blast
    next
      case False
      then have eq: "G ws' v = G ws v" using g1 [OF v(1)] closes_mono [OF c v(1)] by simp
      then obtain x where x: "x \<in> set (ws_heap ws)" "qn_vertex x = v"
        "qn_f x = G ws v + goal_bound (en_graph env) goals v"
        using o v nv unfolding open_inv_def by metis
      then have "x \<in> set rest" using mem nv h(2) by blast
      then show ?thesis using x eq set' by auto
    qed
  qed
qed

section \<open>The loop returns\<close>

definition work_left :: "search_env \<Rightarrow> search_workspace \<Rightarrow> nat" where
  "work_left env ws = length (ws_heap ws) +
     (\<Sum>v \<in> {v. vertex env v \<and> \<not> Closed ws v}. length (out_edges (en_graph env) v))"

lemma finite_vertices [simp]: "finite {v. is_vertex g v \<and> P v}"
  by (rule finite_subset [of _ "{0..<vertex_count g}"]) (auto simp: is_vertex_def)

lemma work_left_close:
  assumes "vertex env u" "\<not> Closed ws u"
    and "\<And>v. vertex env v \<Longrightarrow> Closed ws' v \<longleftrightarrow> v = u \<or> Closed ws v"
    and "length (ws_heap ws') \<le> k + length (out_edges (en_graph env) u)" "length (ws_heap ws) = Suc k"
  shows "work_left env ws' < work_left env ws"
proof -
  let ?U = "\<lambda>ws. {v. vertex env v \<and> \<not> Closed ws v}"
  have "?U ws = insert u (?U ws')" "u \<notin> ?U ws'" using assms(1-3) by auto
  then have "(\<Sum>v \<in> ?U ws. length (out_edges (en_graph env) v)) =
      length (out_edges (en_graph env) u) + (\<Sum>v \<in> ?U ws'. length (out_edges (en_graph env) v))"
    by (metis finite_vertices sum.insert)
  then show ?thesis using assms(4,5) by (simp add: work_left_def)
qed

text \<open>
  One round from a state that satisfies the invariant: it either goes on, with the invariant and
  less work, or stops with the labels as they are, no closed goal left out and nothing in the open
  set that could beat the best total.
\<close>

definition finished :: "search_env \<Rightarrow> seeded_endpoint list \<Rightarrow> seeded_endpoint list \<Rightarrow> search_state \<Rightarrow> bool" where
  "finished env goals sources s \<longleftrightarrow>
     labels_inv env sources (st_ws s) \<and> best_inv env s \<and> good_state env goals (st_ws s) (st_mh s) \<and>
     (\<forall>v. vertex env v \<longrightarrow> G (st_ws s) v \<noteq> Infinity \<longrightarrow> \<not> Closed (st_ws s) v \<longrightarrow>
        st_best_total s \<le> G (st_ws s) v + goal_bound (en_graph env) goals v)"

lemma search_step_inv:
  assumes inv: "search_inv env goals sources s" and g: "graph_ok (en_graph env)"
  shows "case search_step env s of
      Done s' \<Rightarrow> finished env goals sources s'
    | Again s' \<Rightarrow> search_inv env goals sources s' \<and> work_left env (st_ws s') < work_left env (st_ws s) \<and>
        (\<exists>u. closes env u (st_ws s) (st_ws s') \<and>
           (\<forall>v. vertex env v \<longrightarrow> G (st_ws s) v \<noteq> Infinity \<longrightarrow> \<not> Closed (st_ws s) v \<longrightarrow>
             G (st_ws s) u + goal_bound (en_graph env) goals u \<le>
               G (st_ws s) v + goal_bound (en_graph env) goals v) \<and>
           goal_bound (en_graph env) goals u \<noteq> Infinity
         \<or> (\<forall>v. vertex env v \<longrightarrow> label (st_ws s') v = label (st_ws s) v \<and>
             (Closed (st_ws s') v \<longleftrightarrow> Closed (st_ws s) v)))"
proof -
  let ?h = "goal_bound (en_graph env) goals" and ?ws = "st_ws s"
  have good: "good_state env goals ?ws (st_mh s)" and o: "open_inv env goals ?ws"
    and l: "labels_inv env sources ?ws" and b: "best_inv env s"
    using inv by (simp_all add: search_inv_def)
  from good show ?thesis
  proof (cases rule: search_step_cases)
    case empty
    then show ?thesis using good o l b by (auto simp: finished_def open_inv_def)
  next
    case (popped x rest)
    let ?u = "qn_vertex x" and ?w = "?ws\<lparr>ws_heap := rest\<rparr>"
    have x: "x \<in> set (ws_heap ?ws)" using popped(3) by (metis set_mset_mset union_single_eq_member)
    then have u: "vertex env ?u" "G ?ws ?u \<noteq> Infinity"
      and fx: "\<exists>c. qn_f x = c + ?h ?u \<and> G ?ws ?u \<le> c"
      using o by (simp_all add: open_inv_def)
    have front: "qn_f x \<le> G ?ws v + ?h v"
      if "vertex env v" "G ?ws v \<noteq> Infinity" "\<not> Closed ?ws v" for v
      using o that popped(4) unfolding open_inv_def by metis
    have len: "length (ws_heap ?ws) = Suc (length rest)" using popped(3) by (metis size_add_mset size_mset)
    have lw: "labels_inv env sources ?w" by (rule labels_inv_cong [OF _ l]) simp
    have gw: "good_state env goals ?w (st_mh s)" using good popped(2) by (simp add: good_state_def)
    have bw: "best_inv env (s\<lparr>st_ws := ?w\<rparr>)" by (rule best_inv_cong [OF b]) simp_all
    show ?thesis
    proof (cases "Closed ?ws ?u")
      case True
      then have st: "search_step env s = Again (s\<lparr>st_ws := ?w\<rparr>)" using popped(5) by (simp add: Let_def)
      have mem: "y = x \<or> y \<in> set rest" "y \<in> set rest \<Longrightarrow> y \<in> set (ws_heap ?ws)"
        if "y \<in> set (ws_heap ?ws) \<or> y \<in> set rest" for y
        using that popped(3) by (metis insert_iff set_mset_add_mset_insert set_mset_mset)+
      have "open_inv env goals ?w"
        unfolding open_inv_def
      proof (intro conjI ballI allI impI)
        fix y assume "y \<in> set (ws_heap ?w)"
        then have "y \<in> set (ws_heap ?ws)" using mem by simp
        then show "vertex env (qn_vertex y)" "G ?w (qn_vertex y) \<noteq> Infinity"
          "\<exists>c. qn_f y = c + ?h (qn_vertex y) \<and> G ?w (qn_vertex y) \<le> c"
          using o by (simp_all add: open_inv_def)
      next
        fix v assume v: "vertex env v" "G ?w v \<noteq> Infinity" "\<not> Closed ?w v"
        then obtain y where "y \<in> set (ws_heap ?ws)" "qn_vertex y = v" "qn_f y = G ?ws v + ?h v"
          using o unfolding open_inv_def by auto
        then show "\<exists>y \<in> set (ws_heap ?w). qn_vertex y = v \<and> qn_f y = G ?w v + ?h v"
          using mem [of y] True v by auto
      qed
      then show ?thesis using st gw lw bw len by (auto simp: search_inv_def work_left_def)
    next
      case open_u: False
      show ?thesis
      proof (cases "st_best_total s \<le> qn_f x")
        case True
        then have st: "search_step env s = Done (s\<lparr>st_ws := ?w\<rparr>)"
          using popped(5) open_u by (simp add: Let_def)
        then show ?thesis using gw lw bw front True by (auto simp: finished_def intro: order_trans)
      next
        case False
        let ?w1 = "mark_closed ?u ?w"
        let ?s1 = "finish env ?u (s\<lparr>st_ws := ?w1\<rparr>)"
        obtain w2 mh2 where e: "expand env ?u (?w1, st_mh s) = (w2, mh2)" by fastforce
        then have st: "search_step env s = Again (?s1\<lparr>st_ws := w2, st_mh := mh2\<rparr>)"
          using popped(5) open_u False by (simp add: Let_def)
        have ready: "ws_ready (vertex_count (en_graph env)) ?w" using gw by (simp add: good_state_def)
        have ub: "0 \<le> ?u" "?u < vertex_count (en_graph env)" using u by (simp_all add: is_vertex_def)
        have cl1: "Closed ?w1 v \<longleftrightarrow> v = ?u \<or> Closed ?ws v" if "vertex env v" for v
          using labels.close_closed [OF ready ub, of v] that by (simp add: is_vertex_def)
        have w1: "label ?w1 v = label ?ws v \<and> (Closed ?w1 v \<longleftrightarrow> v = ?u \<or> Closed ?ws v)"
          if "vertex env v" for v using cl1 [OF that] by simp
        have g1: "good_state env goals ?w1 (st_mh s)"
          using gw labels.ready_close [OF ready ub] by (simp add: good_state_def)
        have i1: "Inbound ?w1 ?u = Inbound ?ws ?u" "G ?w1 ?u = G ?ws ?u"
          by (simp_all add: labels.close_views)
        have ex: "expanded env goals (out_edges (en_graph env) ?u) ?u (Inbound ?ws ?u) ?w1 w2 mh2"
          using expand_spec [OF g1 g _ u(1) _ e] cl1 [OF u(1)] u(2) i1 by simp
        have c: "closes env ?u ?ws w2" by (rule expanded_closes [OF ex u(1) open_u u(2) w1])
        obtain N where N: "mset (ws_heap w2) = mset rest + N" "size N \<le> length (out_edges (en_graph env) ?u)"
          "pushed (en_graph env) goals ?w1 w2 N"
          using ex by (auto simp: expanded_def)
        have o2: "open_inv env goals w2"
        proof (rule closes_open_inv [OF c _ o popped(3) refl N(1,3)])
          fix v assume "vertex env v"
          then show "G ?w1 v = G ?ws v" by (simp add: labels.close_views)
        qed
        have "best_inv env ?s1"
          by (rule finish_best [OF b _ _ _ cl1 _ u(1)]) simp_all
        then have b2: "best_inv env (?s1\<lparr>st_ws := w2, st_mh := mh2\<rparr>)"
          by (rule best_inv_cong)
            (use c cl1 in \<open>auto simp: closes_def\<close>)
        have g2: "good_state env goals w2 mh2" using ex by (simp add: expanded_def)
        have len2: "length (ws_heap w2) \<le> length rest + length (out_edges (en_graph env) ?u)"
          using N(1,2) by (metis add_le_cancel_left size_mset size_union)
        have work: "work_left env w2 < work_left env ?ws"
          by (rule work_left_close [OF u(1) open_u _ len2 len]) (use c in \<open>auto simp: closes_def\<close>)
        have hfin: "?h ?u \<noteq> Infinity" using fx False by auto
        have "G ?ws ?u + ?h ?u \<le> G ?ws v + ?h v"
          if "vertex env v" "G ?ws v \<noteq> Infinity" "\<not> Closed ?ws v" for v
        proof -
          have "G ?ws ?u + ?h ?u \<le> qn_f x" using fx cost_add_mono by auto
          also have "\<dots> \<le> G ?ws v + ?h v" by (rule front [OF that])
          finally show ?thesis .
        qed
        then show ?thesis using st o2 g2 b2 closes_labels_inv [OF c l] work c hfin
          by (auto simp: search_inv_def)
      qed
    qed
  qed
qed

text \<open>
  The rule for the loop: a property \<open>Q\<close> of the labels that closing the best open vertex keeps
  holds at the end, and the end is reached.
\<close>

lemma search_loop_rule:
  assumes "search_inv env goals sources s" and "Q (st_ws s)" and g: "graph_ok (en_graph env)"
    and cong: "\<And>ws ws'. Q ws \<Longrightarrow> (\<And>v. vertex env v \<Longrightarrow> label ws' v = label ws v \<and>
        (Closed ws' v \<longleftrightarrow> Closed ws v)) \<Longrightarrow> Q ws'"
    and close: "\<And>u ws ws'. labels_inv env sources ws \<Longrightarrow> Q ws \<Longrightarrow> closes env u ws ws' \<Longrightarrow>
        (\<And>v. vertex env v \<Longrightarrow> G ws v \<noteq> Infinity \<Longrightarrow> \<not> Closed ws v \<Longrightarrow>
          G ws u + goal_bound (en_graph env) goals u \<le> G ws v + goal_bound (en_graph env) goals v) \<Longrightarrow>
        goal_bound (en_graph env) goals u \<noteq> Infinity \<Longrightarrow> Q ws'"
  shows "\<exists>s'. search_loop env s = Some s' \<and> finished env goals sources s' \<and> Q (st_ws s')"
  using assms(1,2)
proof (induction "work_left env (st_ws s)" arbitrary: s rule: less_induct)
  case less
  note step = search_step_inv [OF less.prems(1) g]
  show ?case
  proof (cases "search_step env s")
    case (Done s')
    have "label (st_ws s') v = label (st_ws s) v \<and> (Closed (st_ws s') v \<longleftrightarrow> Closed (st_ws s) v)" for v
      using Done by (auto simp: search_step_def Let_def split: if_splits prod.splits)
    then have "Q (st_ws s')" using cong [OF less.prems(2)] by blast
    moreover have "search_loop env s = Some s'" using Done by (simp add: search_loop.simps)
    ultimately show ?thesis using step Done by auto
  next
    case (Again s')
    with step have i: "search_inv env goals sources s'"
      and w: "work_left env (st_ws s') < work_left env (st_ws s)" by simp_all
    from less.prems(1) have l: "labels_inv env sources (st_ws s)" by (simp add: search_inv_def)
    have "Q (st_ws s')"
      using step Again close [OF l less.prems(2)] cong [OF less.prems(2), of "st_ws s'"] by auto
    moreover have "search_loop env s = search_loop env s'"
      using Again by (simp add: search_loop.simps [of env s])
    ultimately show ?thesis using less.hyps [OF w i] by simp
  qed
qed

lemma search_loop_returns:
  assumes "search_inv env goals sources s" and "graph_ok (en_graph env)"
  shows "\<exists>s'. search_loop env s = Some s' \<and> finished env goals sources s'"
  using search_loop_rule [OF assms(1) TrueI assms(2)] by blast

end
