(* ===== verification/AStarCorrect.thy ===== *)
theory AStarCorrect
  imports AStarInvariant
begin

text \<open>
  What the search of \<^verbatim>\<open>core/graph/astar.cc\<close> returns: a path exactly when a goal is reachable, and
  an optimal one when no turn penalty is active and the heuristic is consistent.
\<close>

section \<open>Path reconstruction\<close>

text \<open>The path reconstruction returns, and gives the traced path from its source.\<close>

lemma trace_back_traced:
  "traced env ws q \<Longrightarrow> q = v # p \<Longrightarrow> trace_back ws v acc = Some (rev (v # p) @ acc)"
proof (induction arbitrary: v p acc rule: traced.induct)
  case (source w)
  then have "w \<noteq> no_vertex" by (auto simp: is_vertex_def no_vertex_def)
  with source show ?case by (simp add: trace_back.simps)
next
  case (hop u q w)
  then have "w \<noteq> no_vertex" by (auto simp: is_vertex_def no_vertex_def)
  then have "trace_back ws w acc = trace_back ws u (w # acc)"
    using hop.hyps by (simp add: trace_back.simps [of ws w])
  also have "\<dots> = Some (rev (u # q) @ w # acc)" by (rule hop.IH [OF refl])
  finally show ?case using hop.prems by auto
qed

lemma traced_distinct: "traced env ws p \<Longrightarrow> distinct p"
  by (induction rule: traced.induct) auto

section \<open>Reachability\<close>

text \<open>\<open>reach env sources v c\<close>: some walk of usable edges from a source to \<open>v\<close> costs \<open>c\<close>.\<close>

inductive reach :: "search_env \<Rightarrow> seeded_endpoint list \<Rightarrow> int \<Rightarrow> real \<Rightarrow> bool" for env sources where
  source: "s \<in> set sources \<Longrightarrow> vertex env (se_vertex s) \<Longrightarrow>
    \<not> node_blocks (so_node_filter (en_options env)) (se_vertex s) \<Longrightarrow>
    reach env sources (se_vertex s) (se_cost s)"
| edge: "reach env sources u c \<Longrightarrow> e \<in> set (out_edges (en_graph env) u) \<Longrightarrow>
    \<not> node_blocks (so_node_filter (en_options env)) (edge_to e) \<Longrightarrow>
    \<not> edge_blocks (so_edge_filter (en_options env)) u (edge_to e) \<Longrightarrow>
    edge_cost (en_graph env) (en_options env) u e = Some w \<Longrightarrow>
    reach env sources (edge_to e) (c + w)"

lemma hop_Some:
  assumes "hop env u v = Some (e, c)"
  shows "e \<in> set (out_edges (en_graph env) u)" "edge_to e = v"
    "edge_cost (en_graph env) (en_options env) u e = Some c"
    "\<not> node_blocks (so_node_filter (en_options env)) v" "\<not> edge_blocks (so_edge_filter (en_options env)) u v"
  using assms select_edge_Some [of "en_graph env" u v "en_options env" e c]
  by (auto simp: hop_def hop_in_def select_edge_def split: if_splits)

lemma hop_reach: "reach env sources u d \<Longrightarrow> hop env u v = Some (e, c) \<Longrightarrow> reach env sources v (d + c)"
  using reach.edge [of env sources u d e c] hop_Some [of env u v e c] by auto

lemma edge_hop:
  assumes "e \<in> set (out_edges (en_graph env) u)"
    and "\<not> node_blocks (so_node_filter (en_options env)) (edge_to e)"
    and "\<not> edge_blocks (so_edge_filter (en_options env)) u (edge_to e)"
    and "edge_cost (en_graph env) (en_options env) u e = Some w"
  obtains e' c where "hop env u (edge_to e) = Some (e', c)" "c \<le> w"
proof (cases "select_edge (en_graph env) u (edge_to e) (en_options env)")
  case None
  then show ?thesis using assms by (auto simp: select_edge_None)
next
  case (Some a)
  obtain e' c where a: "a = (e', c)" by fastforce
  have "c \<le> w" by (rule select_edge_Some(4) [OF Some [unfolded a] assms(1) refl assms(4)])
  moreover have "hop env u (edge_to e) = Some (e', c)"
    using Some a assms(2,3) by (simp add: hop_def hop_in_def select_edge_def)
  ultimately show ?thesis using that by blast
qed

lemma reach_vertex: "graph_ok (en_graph env) \<Longrightarrow> reach env sources v c \<Longrightarrow> vertex env v"
  by (rotate_tac 1, induction rule: reach.induct) (auto dest: out_edges_vertex)

lemma seeded_label_le:
  "s \<in> set sources \<Longrightarrow> \<not> node_blocks (so_node_filter (en_options env)) (se_vertex s) \<Longrightarrow>
   fst (seeded_label env sources (se_vertex s)) \<le> Fin (se_cost s)"
  using cheapest_seed_spec [of sources "se_vertex s"]
  by (cases "cheapest_seed sources (se_vertex s)") (auto simp: seeded_label_def)

lemma seeded_label_Some:
  assumes "seeded_label env sources v = (g, r)" "g \<noteq> Infinity"
  obtains s where "s \<in> set sources" "se_vertex s = v" "cheapest_seed sources v = Some s"
    "\<not> node_blocks (so_node_filter (en_options env)) v" "g = Fin (se_cost s)"
    "r = (se_cost s, no_vertex, en_source_bearing env ! nat v)"
  using assms cheapest_seed_spec [of sources v]
  by (auto simp: seeded_label_def split: option.splits if_splits)

text \<open>Every label belongs to a walk; its cost exceeds the walk's by the turn penalties only.\<close>

lemma closed_reach:
  assumes "labels_inv env sources ws"
  shows "traced env ws q \<Longrightarrow> q = v # p \<Longrightarrow>
    \<exists>c. reach env sources v c \<and> (\<not> tp_enabled (so_turn_penalty (en_options env)) \<longrightarrow> G ws v = Fin c)"
proof (induction arbitrary: v p rule: traced.induct)
  case (source w)
  then have w: "w = v" "G ws v \<noteq> Infinity" "label_ok env sources ws v"
    using assms by (auto simp: labels_inv_def closed_inv_def)
  then have "seeded_label env sources v = (G ws v, Geo ws v, Prev ws v, Inbound ws v)"
    using source by (simp add: label_ok_def label_def)
  then show ?case using w(1) source reach.source [of _ sources env]
    by (elim seeded_label_Some [OF _ w(2)]) auto
next
  case (hop u q w)
  then have w: "w = v" "label_ok env sources ws v" and u: "vertex env u"
    using assms traced_members [OF hop.hyps(1)] by (auto simp: labels_inv_def closed_inv_def)
  then have "Prev ws v \<noteq> no_vertex" using hop.hyps(4) by (auto simp: is_vertex_def no_vertex_def)
  then obtain e c where h: "hop env u v = Some (e, c)" and gv: "G ws v = G ws u + Fin (c + turn_at env (Inbound ws u) u v)"
    using w hop.hyps(4) by (auto simp: label_ok_def Let_def)
  obtain d where "reach env sources u d" "\<not> tp_enabled (so_turn_penalty (en_options env)) \<longrightarrow> G ws u = Fin d"
    using hop.IH by blast
  with h gv hop_reach show ?case by (fastforce simp: turn_at_def turn_cost_def)
qed

lemma label_reach:
  assumes "labels_inv env sources ws" "vertex env v" "G ws v \<noteq> Infinity"
    and "\<not> tp_enabled (so_turn_penalty (en_options env))"
  obtains c where "reach env sources v c" "G ws v = Fin c"
proof (cases "Prev ws v = no_vertex")
  case True
  moreover have "label_ok env sources ws v" using assms by (simp add: labels_inv_def)
  ultimately have "seeded_label env sources v = (G ws v, Geo ws v, Prev ws v, Inbound ws v)"
    by (simp add: label_ok_def label_def)
  then show ?thesis using that assms(2,3) reach.source [of _ sources env]
    by (elim seeded_label_Some [OF _ assms(3)]) auto
next
  case False
  moreover have "label_ok env sources ws v" using assms by (simp add: labels_inv_def)
  ultimately obtain e c where p: "vertex env (Prev ws v)" "Closed ws (Prev ws v)" and
    h: "hop env (Prev ws v) v = Some (e, c)" and gv: "G ws v = G ws (Prev ws v) + Fin (c + turn_at env (Inbound ws (Prev ws v)) (Prev ws v) v)"
    by (auto simp: label_ok_def Let_def)
  then obtain q where "traced env ws (Prev ws v # q)" using assms by (auto simp: labels_inv_def closed_inv_def)
  from closed_reach [OF assms(1) this refl] assms(4)
  obtain d where "reach env sources (Prev ws v) d" "G ws (Prev ws v) = Fin d" by blast
  with that h gv assms(4) hop_reach show ?thesis by (fastforce simp: turn_at_def turn_cost_def)
qed

text \<open>The seed table of the goals and the heuristic speak of the same goals.\<close>

definition goals_match :: "search_env \<Rightarrow> seeded_endpoint list \<Rightarrow> bool" where
  "goals_match env goals \<longleftrightarrow>
     (\<forall>v. is_goal env v \<longrightarrow> goal_bound (en_graph env) goals v \<le> Fin (en_goal_seed env ! nat v))"

lemma finish_total_finite:
  "G ws v \<noteq> Infinity \<Longrightarrow> finish_total env ws v \<noteq> Infinity"
  by (cases "G ws v") (auto simp: finish_total_def Let_def)

lemma finished_found_iff:
  assumes f: "finished env goals sources s" and g: "graph_ok (en_graph env)" and m: "goals_match env goals"
  shows "st_best_goal s \<noteq> no_vertex \<longleftrightarrow> (\<exists>v c. reach env sources v c \<and> is_goal env v)"
proof
  assume "st_best_goal s \<noteq> no_vertex"
  then have b: "is_goal env (st_best_goal s)" "Closed (st_ws s) (st_best_goal s)"
    using f by (auto simp: finished_def best_inv_def)
  moreover have l: "labels_inv env sources (st_ws s)" using f by (simp add: finished_def)
  ultimately obtain p where "traced env (st_ws s) (st_best_goal s # p)"
    by (auto simp: labels_inv_def closed_inv_def is_goal_def)
  from closed_reach [OF l this refl] b show "\<exists>v c. reach env sources v c \<and> is_goal env v" by blast
next
  assume "\<exists>v c. reach env sources v c \<and> is_goal env v"
  then obtain v c where r: "reach env sources v c" and v: "is_goal env v" by blast
  have l: "labels_inv env sources (st_ws s)" and b: "best_inv env s" using f by (simp_all add: finished_def)
  show "st_best_goal s \<noteq> no_vertex"
  proof
    assume "st_best_goal s = no_vertex"
    then have inf: "st_best_total s = Infinity"
      using b by (auto simp: best_inv_def is_goal_def is_vertex_def no_vertex_def)
    have fin: "goal_bound (en_graph env) goals w \<noteq> Infinity" for w
    proof -
      have "goal_bound (en_graph env) goals v \<noteq> Infinity" using m v by (auto simp: goals_match_def)
      then show ?thesis by (simp add: goal_bound_infinite)
    qed
    have closed: "Closed (st_ws s) w" if "vertex env w" "G (st_ws s) w \<noteq> Infinity" for w
    proof (rule ccontr)
      assume "\<not> Closed (st_ws s) w"
      then have "G (st_ws s) w + goal_bound (en_graph env) goals w = Infinity"
        using f that inf by (auto simp: finished_def)
      then show False using fin [of w] that by (cases "G (st_ws s) w"; cases "goal_bound (en_graph env) goals w") auto
    qed
    have "vertex env v \<and> G (st_ws s) v \<noteq> Infinity" using r
    proof (induction rule: reach.induct)
      case (source x)
      then have "G (st_ws s) (se_vertex x) \<le> Fin (se_cost x)"
        using seeded_label_le [of x sources env] l by (auto simp: labels_inv_def reach_inv_def intro: order_trans)
      then show ?case using source by auto
    next
      case (edge u d e w)
      obtain e' c' where "hop env u (edge_to e) = Some (e', c')" using edge_hop edge.hyps by metis
      then show ?case using edge l closed out_edges_vertex [OF g edge.hyps(2)]
        unfolding labels_inv_def reach_inv_def by (metis option.distinct(1))
    qed
    then have "finish_total env (st_ws s) v \<noteq> Infinity" "Closed (st_ws s) v"
      using closed finish_total_finite by auto
    then show False using b v inf by (auto simp: best_inv_def)
  qed
qed

section \<open>Optimality\<close>

definition opt_inv :: "search_env \<Rightarrow> seeded_endpoint list \<Rightarrow> search_workspace \<Rightarrow> bool" where
  "opt_inv env sources ws \<longleftrightarrow>
     (\<forall>v c. vertex env v \<longrightarrow> Closed ws v \<longrightarrow> reach env sources v c \<longrightarrow> G ws v \<le> Fin c) \<and>
     (\<forall>u v e c. vertex env u \<longrightarrow> vertex env v \<longrightarrow> Closed ws u \<longrightarrow> hop env u v = Some (e, c) \<longrightarrow>
        G ws v \<le> G ws u + Fin c)"

definition consistent_bound :: "search_env \<Rightarrow> seeded_endpoint list \<Rightarrow> bool" where
  "consistent_bound env goals \<longleftrightarrow>
     (\<forall>u v e c. vertex env u \<longrightarrow> hop env u v = Some (e, c) \<longrightarrow>
        goal_bound (en_graph env) goals u \<le> Fin c + goal_bound (en_graph env) goals v)"

text \<open>Every walk ends at a settled vertex, or has left the settled ones through the open set.\<close>

lemma frontier:
  assumes l: "labels_inv env sources ws" and o: "opt_inv env sources ws"
    and c: "consistent_bound env goals" and g: "graph_ok (en_graph env)"
  shows "reach env sources v d \<Longrightarrow> Closed ws v \<and> G ws v \<le> Fin d \<or>
    (\<exists>y. vertex env y \<and> G ws y \<noteq> Infinity \<and> \<not> Closed ws y \<and>
       G ws y + goal_bound (en_graph env) goals y \<le> Fin d + goal_bound (en_graph env) goals v)"
proof (induction rule: reach.induct)
  case (source s)
  let ?v = "se_vertex s"
  have gv: "G ws ?v \<le> Fin (se_cost s)"
    using seeded_label_le [of s sources env] l source by (auto simp: labels_inv_def reach_inv_def intro: order_trans)
  then have "G ws ?v \<noteq> Infinity" by auto
  then show ?case using gv source cost_add_mono [OF gv order_refl] by blast
next
  case (edge u d e w)
  let ?v = "edge_to e" and ?h = "goal_bound (en_graph env) goals"
  have v: "vertex env ?v" using out_edges_vertex [OF g edge.hyps(2)] .
  have u: "vertex env u" using reach_vertex [OF g edge.hyps(1)] .
  obtain e' c' where h: "hop env u ?v = Some (e', c')" and le: "c' \<le> w" using edge_hop edge.hyps by metis
  from edge.IH show ?case
  proof
    assume cu: "Closed ws u \<and> G ws u \<le> Fin d"
    then have "G ws ?v \<le> G ws u + Fin c'" using o h u v by (auto simp: opt_inv_def)
    also have "\<dots> \<le> Fin d + Fin w" using cu le by (intro cost_add_mono) auto
    finally have gv: "G ws ?v \<le> Fin (d + w)" by simp
    then have "G ws ?v \<noteq> Infinity" by auto
    then show ?thesis using gv v cost_add_mono [OF gv order_refl] by blast
  next
    assume "\<exists>y. vertex env y \<and> G ws y \<noteq> Infinity \<and> \<not> Closed ws y \<and> G ws y + ?h y \<le> Fin d + ?h u"
    then obtain y where y: "vertex env y" "G ws y \<noteq> Infinity" "\<not> Closed ws y" "G ws y + ?h y \<le> Fin d + ?h u"
      by blast
    have "?h u \<le> Fin c' + ?h ?v" using c h u by (auto simp: consistent_bound_def)
    also have "\<dots> \<le> Fin w + ?h ?v" using le by (intro cost_add_mono) auto
    finally have "Fin d + ?h u \<le> Fin d + (Fin w + ?h ?v)" by (intro cost_add_mono) auto
    then have "G ws y + ?h y \<le> Fin (d + w) + ?h ?v"
      using y(4) by (simp add: add.assoc [symmetric])
    with y show ?thesis by blast
  qed
qed

lemma cost_add_cancel: "(a :: cost) + h \<le> Fin c + h \<Longrightarrow> h \<noteq> Infinity \<Longrightarrow> a \<le> Fin c"
  by (cases a; cases h) auto

lemma opt_inv_close:
  assumes l: "labels_inv env sources ws" and o: "opt_inv env sources ws"
    and cons: "consistent_bound env goals" and g: "graph_ok (en_graph env)"
    and off: "\<not> tp_enabled (so_turn_penalty (en_options env))" and c: "closes env u ws ws'"
    and least: "\<And>v. vertex env v \<Longrightarrow> G ws v \<noteq> Infinity \<Longrightarrow> \<not> Closed ws v \<Longrightarrow>
      G ws u + goal_bound (en_graph env) goals u \<le> G ws v + goal_bound (en_graph env) goals v"
    and fin: "goal_bound (en_graph env) goals u \<noteq> Infinity"
  shows "opt_inv env sources ws'"
proof -
  have u: "vertex env u" "\<not> Closed ws u" "G ws u \<noteq> Infinity" using c by (simp_all add: closes_def)
  have opt_u: "G ws u \<le> Fin d" if "reach env sources u d" for d
    using frontier [OF l o cons g that] u least fin by (meson cost_add_cancel order_trans)
  have closed: "G ws' v \<le> Fin d" if v: "vertex env v" "Closed ws' v" "reach env sources v d" for v d
  proof (cases "v = u")
    case True
    then show ?thesis using opt_u that closes_closed_views [OF c u(1)] by simp
  next
    case False
    then have cv: "Closed ws v" using v c by (auto simp: closes_def)
    then have "G ws v \<le> Fin d" using o v by (auto simp: opt_inv_def)
    then show ?thesis using closes_closed_views [OF c v(1)] cv by simp
  qed
  have "G ws' v \<le> G ws' w + Fin k"
    if wv: "vertex env w" "vertex env v" "Closed ws' w" and h: "hop env w v = Some (e, k)" for w v e k
  proof (cases "w = u")
    case False
    then have cw: "Closed ws w" using wv c by (auto simp: closes_def)
    have "G ws' v \<le> G ws v" by (rule closes_mono [OF c wv(2)])
    also have "\<dots> \<le> G ws w + Fin k" using o wv cw h by (auto simp: opt_inv_def)
    finally show ?thesis using closes_closed_views [OF c wv(1)] cw by simp
  next
    case True
    have gu: "G ws' u = G ws u" using closes_closed_views [OF c u(1)] by simp
    show ?thesis
    proof (cases "v = u \<or> Closed ws v")
      case v: True
      obtain d where d: "reach env sources u d" "G ws u = Fin d" using label_reach [OF l u(1,3) off] .
      have "reach env sources v (d + k)" using hop_reach [OF d(1)] h True by blast
      moreover have "Closed ws' v" using closes_closed_views [OF c wv(2) v] by simp
      ultimately show ?thesis using closed wv d gu True by fastforce
    next
      case False
      have "turn_at env x u v = 0" for x using off by (simp add: turn_at_def turn_cost_def)
      then show ?thesis using c wv False h gu True unfolding closes_def by (fastforce simp: label_def)
    qed
  qed
  then show ?thesis using closed unfolding opt_inv_def by blast
qed

lemma finished_optimal:
  assumes f: "finished env goals sources s" and o: "opt_inv env sources (st_ws s)"
    and cons: "consistent_bound env goals" and g: "graph_ok (en_graph env)" and m: "goals_match env goals"
    and off: "\<not> tp_enabled (so_turn_penalty (en_options env))"
    and r: "reach env sources v c" and v: "is_goal env v"
  shows "st_best_total s \<le> Fin (c + en_goal_seed env ! nat v)"
proof -
  let ?ws = "st_ws s" and ?h = "goal_bound (en_graph env) goals"
  have l: "labels_inv env sources ?ws" and b: "best_inv env s" using f by (simp_all add: finished_def)
  from frontier [OF l o cons g r] show ?thesis
  proof
    assume cv: "Closed ?ws v \<and> G ?ws v \<le> Fin c"
    then have "st_best_total s \<le> finish_total env ?ws v" using b v by (auto simp: best_inv_def)
    also have "\<dots> = G ?ws v + Fin (en_goal_seed env ! nat v)" using off by (simp add: finish_total_def)
    also have "\<dots> \<le> Fin c + Fin (en_goal_seed env ! nat v)" using cv by (intro cost_add_mono) auto
    finally show ?thesis by simp
  next
    assume "\<exists>y. vertex env y \<and> G ?ws y \<noteq> Infinity \<and> \<not> Closed ?ws y \<and> G ?ws y + ?h y \<le> Fin c + ?h v"
    then obtain y where y: "vertex env y" "G ?ws y \<noteq> Infinity" "\<not> Closed ?ws y" "G ?ws y + ?h y \<le> Fin c + ?h v"
      by blast
    then have "st_best_total s \<le> G ?ws y + ?h y" using f by (auto simp: finished_def)
    also have "\<dots> \<le> Fin c + ?h v" by fact
    also have "\<dots> \<le> Fin c + Fin (en_goal_seed env ! nat v)"
      using m v by (intro cost_add_mono) (auto simp: goals_match_def)
    finally show ?thesis by simp
  qed
qed

end
