(* ===== verification/SearchResult.thy ===== *)
theory SearchResult
  imports AStarCorrect
begin

text \<open>
  The result of a whole search (\<^verbatim>\<open>FindShortestPathMulti\<close> over a reused workspace): it returns,
  leaves workspace and heuristic reusable, and the path it reports is loopless, consists of usable
  edges, and has exactly the cost and the distance reported.
\<close>

section \<open>The generation counter moves by one per search\<close>

lemma generation_simps [simp]:
  "ws_generation (relax v g geo p inb ws) = ws_generation ws"
  "ws_generation (mark_closed v ws) = ws_generation ws"
  "ws_generation (push_open f v ws) = ws_generation ws"
  by (simp_all add: relax_def touch_def Let_def mark_closed_def push_open_def)

lemma generation_relax_edge:
  "ws_generation (fst (relax_edge env u inb wm e)) = ws_generation (fst wm)"
  by (auto simp: relax_edge_def Let_def split: prod.splits option.splits)

lemma generation_expand: "ws_generation (fst (expand env u wm)) = ws_generation (fst wm)"
proof -
  have "ws_generation (fst (foldl (relax_edge env u inb) wm es)) = ws_generation (fst wm)" for inb es
    by (induction es arbitrary: wm) (simp_all add: generation_relax_edge)
  then show ?thesis by (simp add: expand_def Let_def)
qed

lemma generation_seed: "ws_generation (fst (foldl (seed_source env) wm ss)) = ws_generation (fst wm)"
proof (induction ss arbitrary: wm)
  case (Cons s ss)
  have "ws_generation (fst (seed_source env wm s)) = ws_generation (fst wm)"
    by (auto simp: seed_source_def Let_def split: prod.splits)
  with Cons show ?case by simp
qed simp

lemma generation_start:
  "ws_generation (st_ws (start_state env sources mh ws)) = ws_generation ws + 1"
  using generation_seed [of env "((next_generation (ws_reset (vertex_count (en_graph env)) ws))\<lparr>ws_heap := []\<rparr>, mh)" sources]
  by (auto simp: start_state_def Let_def next_generation_def ws_reset_def split: prod.splits)

lemma generation_step:
  "case search_step env s of Done s' \<Rightarrow> ws_generation (st_ws s') = ws_generation (st_ws s)
   | Again s' \<Rightarrow> ws_generation (st_ws s') = ws_generation (st_ws s)"
proof -
  have e: "ws_generation w = ws_generation (fst wm)" if "expand env u wm = (w, m)" for u wm w m
    using generation_expand [of env u wm] that by simp
  show ?thesis by (auto simp: search_step_def Let_def split: prod.splits dest!: e)
qed

lemma generation_loop:
  "search_loop env s = Some s' \<Longrightarrow> ws_generation (st_ws s') = ws_generation (st_ws s)"
proof (erule search_loop.raw_induct [where P = "\<lambda>env s s'. ws_generation (st_ws s') = ws_generation (st_ws s)", rotated])
  fix loop env s s'
  assume ih: "\<And>env s s'. loop env s = Some s' \<Longrightarrow> ws_generation (st_ws s') = ws_generation (st_ws s)"
    and s': "(case search_step env s of Done s' \<Rightarrow> Some s' | Again s' \<Rightarrow> loop env s') = Some s'"
  show "ws_generation (st_ws s') = ws_generation (st_ws s)"
    using s' ih generation_step [of s env] by (cases "search_step env s") auto
qed

section \<open>Arriving along a path\<close>

text \<open>
  Cost, distance and inbound heading on arriving at the head of a path that is given last vertex
  first: the source's seed, then one cheapest hop per step with its turn.
\<close>

fun arrive :: "search_env \<Rightarrow> seeded_endpoint list \<Rightarrow> int list \<Rightarrow> (real \<times> real \<times> real) option" where
  "arrive env sources [] = None"
| "arrive env sources [v] =
     (case seeded_label env sources v of (g, d, p, inb) \<Rightarrow>
       (case g of Fin c \<Rightarrow> Some (c, d, inb) | Infinity \<Rightarrow> None))"
| "arrive env sources (v # u # p) =
     (case arrive env sources (u # p) of None \<Rightarrow> None
      | Some (c, d, inb) \<Rightarrow>
          (case hop env u v of None \<Rightarrow> None
           | Some (e, k) \<Rightarrow>
               Some (c + (k + turn_at env inb u v), d + ge_distance_nm e,
                 out_bearing (en_graph env) (en_options env) u v)))"

lemma traced_arrive:
  assumes "labels_inv env sources ws"
  shows "traced env ws q \<Longrightarrow> q = v # p \<Longrightarrow>
    \<exists>c. G ws v = Fin c \<and> arrive env sources q = Some (c, Geo ws v, Inbound ws v)"
proof (induction arbitrary: v p rule: traced.induct)
  case (source w)
  then have "G ws w \<noteq> Infinity" "label_ok env sources ws w"
    using assms by (auto simp: labels_inv_def closed_inv_def)
  then have "seeded_label env sources w = label ws w" "G ws w \<noteq> Infinity"
    using source by (simp_all add: label_ok_def)
  then show ?case using source by (cases "G ws w") (auto simp: label_def)
next
  case (hop u q w)
  have u: "vertex env u" using traced_members [OF hop.hyps(1)] by simp
  have "label_ok env sources ws w" "Prev ws w \<noteq> no_vertex"
    using hop assms u by (auto simp: labels_inv_def closed_inv_def is_vertex_def no_vertex_def)
  then obtain e k where h: "hop env u w = Some (e, k)"
    "G ws w = G ws u + Fin (k + turn_at env (Inbound ws u) u w)" "Geo ws w = Geo ws u + ge_distance_nm e"
    "Inbound ws w = out_bearing (en_graph env) (en_options env) u w"
    using hop.hyps(4) by (auto simp: label_ok_def Let_def)
  obtain c where "G ws u = Fin c" "arrive env sources (u # q) = Some (c, Geo ws u, Inbound ws u)"
    using hop.IH by blast
  then have "G ws w = Fin (c + (k + turn_at env (Inbound ws u) u w))"
    "arrive env sources (w # u # q) = Some (c + (k + turn_at env (Inbound ws u) u w), Geo ws w, Inbound ws w)"
    using h by simp_all
  moreover have "v = w" using hop.prems by simp
  ultimately show ?case by blast
qed

text \<open>The turn onto the procedure at the goal.\<close>

definition finish_turn :: "search_env \<Rightarrow> real \<Rightarrow> int \<Rightarrow> real" where
  "finish_turn env inb v =
     (if tp_enabled (so_turn_penalty (en_options env)) \<and> 0 \<le> inb \<and> 0 \<le> en_goal_bearing env ! nat v
      then penalty_of (so_turn_penalty (en_options env)) (turn_angle_deg inb (en_goal_bearing env ! nat v))
      else 0)"

lemma finish_total_turn:
  "G ws v = Fin c \<Longrightarrow> finish_total env ws v = Fin (c + en_goal_seed env ! nat v + finish_turn env (Inbound ws v) v)"
  by (simp add: finish_total_def finish_turn_def Let_def)

text \<open>A complete route from a source to a goal, with its cost and its distance.\<close>

definition route_costs ::
  "search_env \<Rightarrow> seeded_endpoint list \<Rightarrow> int list \<Rightarrow> real \<Rightarrow> real \<Rightarrow> bool" where
  "route_costs env sources path cost distance \<longleftrightarrow>
     path \<noteq> [] \<and> is_goal env (last path) \<and>
     (\<exists>c d inb. arrive env sources (rev path) = Some (c, d, inb) \<and>
        cost = c + en_goal_seed env ! nat (last path) + finish_turn env inb (last path) \<and>
        distance = d + en_goal_seed env ! nat (last path))"

lemma arrive_unblocked:
  "arrive env sources q = Some r \<Longrightarrow> v \<in> set q \<Longrightarrow> \<not> node_blocks (so_node_filter (en_options env)) v"
proof (induction env sources q arbitrary: r rule: arrive.induct)
  case (2 env sources w)
  then show ?case by (auto simp: seeded_label_def split: prod.splits option.splits if_splits)
next
  case (3 env sources w u p)
  then show ?case using hop_Some_unblocked by (auto split: option.splits prod.splits)
qed simp

lemma arrive_source:
  "arrive env sources q = Some r \<Longrightarrow> \<exists>s \<in> set sources. se_vertex s = last q"
proof (induction env sources q arbitrary: r rule: arrive.induct)
  case (2 env sources w)
  then show ?case using cheapest_seed_spec [of sources w]
    by (auto simp: seeded_label_def split: option.splits if_splits)
next
  case (3 env sources w u p)
  then show ?case by (auto split: option.splits prod.splits)
qed simp

lemma arrive_hops:
  "arrive env sources q = Some r \<Longrightarrow> Suc i < length q \<Longrightarrow> hop env (q ! Suc i) (q ! i) \<noteq> None"
proof (induction env sources q arbitrary: r i rule: arrive.induct)
  case (3 env sources w u p)
  then show ?case by (cases i) (auto split: option.splits prod.splits)
qed simp_all

section \<open>The result\<close>

definition result_ok ::
  "search_env \<Rightarrow> seeded_endpoint list \<Rightarrow> shortest_path \<Rightarrow> bool" where
  "result_ok env sources r \<longleftrightarrow>
     (if sp_found r then
        \<exists>cost. sp_cost r = Fin cost \<and> route_costs env sources (sp_vertices r) cost (sp_distance_nm r) \<and>
          distinct (sp_vertices r) \<and> (\<forall>v \<in> set (sp_vertices r). vertex env v)
      else r = shortest_path_default)"

lemma goal_path:
  assumes f: "finished env goals sources s" and b: "st_best_goal s \<noteq> no_vertex"
  obtains q c where "trace_back (st_ws s) (st_best_goal s) [] = Some (rev q)"
    "arrive env sources q = Some (c, Geo (st_ws s) (st_best_goal s), Inbound (st_ws s) (st_best_goal s))"
    "st_best_total s = Fin (c + en_goal_seed env ! nat (st_best_goal s) +
       finish_turn env (Inbound (st_ws s) (st_best_goal s)) (st_best_goal s))"
    "hd q = st_best_goal s" "q \<noteq> []" "distinct q" "\<forall>v \<in> set q. vertex env v" "is_goal env (st_best_goal s)"
proof -
  let ?b = "st_best_goal s" and ?ws = "st_ws s"
  have g: "is_goal env ?b" "Closed ?ws ?b" "st_best_total s = finish_total env ?ws ?b"
    and l: "labels_inv env sources ?ws"
    using f b by (auto simp: finished_def best_inv_def)
  then obtain p where t: "traced env ?ws (?b # p)"
    by (auto simp: labels_inv_def closed_inv_def is_goal_def)
  obtain c where c: "G ?ws ?b = Fin c" "arrive env sources (?b # p) = Some (c, Geo ?ws ?b, Inbound ?ws ?b)"
    using traced_arrive [OF l t refl] by blast
  show ?thesis
    using that [of "?b # p" c] trace_back_traced [OF t refl, of "[]"] c finish_total_turn [OF c(1)] g
      traced_distinct [OF t] traced_members [OF t] by simp
qed

lemma find_shortest_path_in_result:
  assumes g: "graph_ok (en_graph env)" and ws: "ws_ok ws" "ws_unwrapped ws"
    and mh: "heuristic_ok (en_graph env) goals mh"
  obtains r mh' ws' where
    "find_shortest_path_in env sources mh ws = Some (r, mh', ws')"
    "result_ok env sources r" "ws_ok ws'" "heuristic_ok (en_graph env) goals mh'"
    "ws_generation ws' = (if sources = [] then ws_generation ws else ws_generation ws + 1)"
    "goals_match env goals \<Longrightarrow> sp_found r \<longleftrightarrow> (\<exists>v c. reach env sources v c \<and> is_goal env v)"
proof (cases "sources = []")
  case True
  have "\<not> reach env [] v c" for v c
  proof
    assume "reach env [] v c"
    then show False by (induction rule: reach.induct) simp_all
  qed
  then show ?thesis using True ws mh
    by (intro that [of shortest_path_default mh ws])
      (auto simp: find_shortest_path_in_def result_ok_def shortest_path_default_def)
next
  case False
  let ?s0 = "start_state env sources mh ws"
  obtain s where s: "search_loop env ?s0 = Some s" and f: "finished env goals sources s"
    using search_loop_returns [OF start_inv [OF ws mh] g] by blast
  have gen: "ws_generation (st_ws s) = ws_generation ws + 1"
    using generation_loop [OF s] generation_start by simp
  have ok: "ws_ok (st_ws s)" "heuristic_ok (en_graph env) goals (st_mh s)"
    using f by (simp_all add: finished_def good_state_def ws_ready_def)
  have neg: "st_best_goal s < 0 \<longleftrightarrow> st_best_goal s = no_vertex"
    using f by (auto simp: finished_def best_inv_def is_goal_def is_vertex_def no_vertex_def)
  show ?thesis
  proof (cases "st_best_goal s = no_vertex")
    case True
    then have "find_shortest_path_in env sources mh ws = Some (shortest_path_default, st_mh s, st_ws s)"
      using False s neg by (simp add: find_shortest_path_in_def)
    then show ?thesis using gen ok True False finished_found_iff [OF f g]
      by (intro that [of shortest_path_default "st_mh s" "st_ws s"])
        (auto simp: result_ok_def shortest_path_default_def)
  next
    case b: False
    from goal_path [OF f b] obtain q c where q: "trace_back (st_ws s) (st_best_goal s) [] = Some (rev q)"
      "arrive env sources q = Some (c, Geo (st_ws s) (st_best_goal s), Inbound (st_ws s) (st_best_goal s))"
      "st_best_total s = Fin (c + en_goal_seed env ! nat (st_best_goal s) +
         finish_turn env (Inbound (st_ws s) (st_best_goal s)) (st_best_goal s))"
      "hd q = st_best_goal s" "q \<noteq> []" "distinct q" "\<forall>v \<in> set q. vertex env v" "is_goal env (st_best_goal s)"
      by blast
    let ?r = "\<lparr>sp_vertices = rev q, sp_distance_nm = Geo (st_ws s) (st_best_goal s) +
         en_goal_seed env ! nat (st_best_goal s), sp_cost = st_best_total s, sp_found = True\<rparr>"
    have last: "last (rev q) = st_best_goal s" using q by (simp add: last_rev)
    have "result_ok env sources ?r"
      using q last by (auto simp: result_ok_def route_costs_def)
    moreover have "find_shortest_path_in env sources mh ws = Some (?r, st_mh s, st_ws s)"
      using False s neg b q(1) by (simp add: find_shortest_path_in_def)
    ultimately show ?thesis using gen ok b False finished_found_iff [OF f g]
      by (intro that [of ?r "st_mh s" "st_ws s"]) auto
  qed
qed

lemma opt_inv_cong:
  assumes "opt_inv env sources ws"
    and "\<And>v. vertex env v \<Longrightarrow> label ws' v = label ws v \<and> (Closed ws' v \<longleftrightarrow> Closed ws v)"
  shows "opt_inv env sources ws'"
proof -
  have "G ws' v = G ws v" "Closed ws' v = Closed ws v" if "vertex env v" for v
    using assms(2) [OF that] by (auto simp: label_eq_iff)
  then show ?thesis using assms(1) unfolding opt_inv_def by simp
qed

text \<open>With consistent bounds and no turn penalty the reported cost is the least possible.\<close>

lemma find_shortest_path_in_optimal:
  assumes g: "graph_ok (en_graph env)" and ws: "ws_ok ws" "ws_unwrapped ws"
    and mh: "heuristic_ok (en_graph env) goals mh" and m: "goals_match env goals"
    and cons: "consistent_bound env goals" and off: "\<not> tp_enabled (so_turn_penalty (en_options env))"
    and res: "find_shortest_path_in env sources mh ws = Some (r, mh', ws')"
    and r: "reach env sources v c" and v: "is_goal env v"
  shows "sp_found r \<and> sp_cost r \<le> Fin (c + en_goal_seed env ! nat v)"
proof -
  let ?s0 = "start_state env sources mh ws"
  have "sources \<noteq> []"
  proof
    assume "sources = []"
    with r have "reach env [] v c" by simp
    then show False by (induction rule: reach.induct) simp_all
  qed
  have "opt_inv env sources (st_ws ?s0)"
    using start_state_seeded(2) [OF ws mh] by (auto simp: opt_inv_def)
  then have "\<exists>s. search_loop env ?s0 = Some s \<and> finished env goals sources s \<and> opt_inv env sources (st_ws s)"
  proof (rule search_loop_rule [OF start_inv [OF ws mh] _ g])
    fix ws ws'
    assume "opt_inv env sources ws"
      "\<And>v. vertex env v \<Longrightarrow> label ws' v = label ws v \<and> (Closed ws' v \<longleftrightarrow> Closed ws v)"
    then show "opt_inv env sources ws'" by (rule opt_inv_cong)
  next
    fix u ws ws'
    assume "labels_inv env sources ws" "opt_inv env sources ws" "closes env u ws ws'"
      "\<And>v. vertex env v \<Longrightarrow> G ws v \<noteq> Infinity \<Longrightarrow> \<not> Closed ws v \<Longrightarrow>
        G ws u + goal_bound (en_graph env) goals u \<le> G ws v + goal_bound (en_graph env) goals v"
      "goal_bound (en_graph env) goals u \<noteq> Infinity"
    then show "opt_inv env sources ws'" using opt_inv_close [OF _ _ cons g off] by blast
  qed
  then obtain s where s: "search_loop env ?s0 = Some s" and f: "finished env goals sources s"
    and o: "opt_inv env sources (st_ws s)" by blast
  have opt: "st_best_total s \<le> Fin (c + en_goal_seed env ! nat v)"
    by (rule finished_optimal [OF f o cons g m off r v])
  have b: "st_best_goal s \<noteq> no_vertex" using finished_found_iff [OF f g m] r v by blast
  then have "\<not> st_best_goal s < 0"
    using f by (auto simp: finished_def best_inv_def is_goal_def is_vertex_def)
  with res s \<open>sources \<noteq> []\<close> have "sp_found r" "sp_cost r = st_best_total s"
    by (auto simp: find_shortest_path_in_def split: option.splits)
  with opt show ?thesis by simp
qed

end
