(* ===== verification/Yen.thy ===== *)
theory Yen
  imports AStar
begin

text \<open>
  \<^verbatim>\<open>core/graph/yen_kshortest.cc\<close>: the re-costing of a fully specified path, and Yen's search for
  up to \<open>k\<close> loopless paths over the multi-source A* search, with Lawler's optimization. The
  state the C++ function mutates (results, candidate set, spur tables, workspace, heuristic cache)
  is a record; a search that does not return would make the whole result \<open>None\<close>.
\<close>

section \<open>Re-costing a path\<close>

definition merge_banned :: "'a::linorder list option \<Rightarrow> 'a list \<Rightarrow> 'a list" where
  "merge_banned caller yen =
     remdups_adj (sort ((case caller of None \<Rightarrow> [] | Some c \<Rightarrow> c) @ yen))"

text \<open>One step of the edge loop: cost, distance and the bearings seen so far.\<close>

definition cost_step ::
  "nav_graph \<Rightarrow> search_options \<Rightarrow> (real \<times> real \<times> real list) option \<Rightarrow> int \<times> int \<Rightarrow>
   (real \<times> real \<times> real list) option" where
  "cost_step graph options st uv =
     (case st of None \<Rightarrow> None
      | Some (cost, distance, edge_bearing) \<Rightarrow>
          (case uv of (u, v) \<Rightarrow>
            if edge_blocks (so_edge_filter options) u v then None
            else case select_edge graph u v options of
                None \<Rightarrow> None
              | Some (e, step_cost) \<Rightarrow>
                  Some (cost + step_cost, distance + ge_distance_nm e,
                    if tp_enabled (so_turn_penalty options)
                    then edge_bearing @ [bearing_to (coord_of graph u) (coord_of graph v)]
                    else edge_bearing)))"

definition interior_turns :: "turn_penalty \<Rightarrow> real list \<Rightarrow> real \<Rightarrow> real" where
  "interior_turns turn bs cost =
     foldl (\<lambda>c (b, b'). c + penalty_of turn (turn_angle_deg b b')) cost (zip bs (tl bs))"

definition cost_of_path ::
  "nav_graph \<Rightarrow> int list \<Rightarrow> search_options \<Rightarrow> real \<Rightarrow> real \<Rightarrow> (real \<times> real) option" where
  "cost_of_path graph path options src_bearing goal_bearing =
     (let turn = so_turn_penalty options in
      if length path < 2 then
        Some (if tp_enabled turn \<and> 0 \<le> src_bearing \<and> 0 \<le> goal_bearing
              then penalty_of turn (turn_angle_deg src_bearing goal_bearing) else 0, 0)
      else if list_ex (node_blocks (so_node_filter options)) path then None
      else case foldl (cost_step graph options) (Some (0, 0, [])) (zip path (tl path)) of
          None \<Rightarrow> None
        | Some (cost, distance, edge_bearing) \<Rightarrow>
            if tp_enabled turn then
              let c1 = (if 0 \<le> src_bearing
                        then cost + penalty_of turn (turn_angle_deg src_bearing (hd edge_bearing)) else cost);
                  c2 = interior_turns turn edge_bearing c1;
                  c3 = (if 0 \<le> goal_bearing
                        then c2 + penalty_of turn (turn_angle_deg (last edge_bearing) goal_bearing) else c2)
              in Some (c3, distance)
            else Some (cost, distance))"

definition cost_of_path_multi ::
  "nav_graph \<Rightarrow> int list \<Rightarrow> real list \<Rightarrow> real list \<Rightarrow> real list \<Rightarrow> real list \<Rightarrow> search_options \<Rightarrow>
   (real \<times> real) option" where
  "cost_of_path_multi graph path source_seed goal_seed source_bearing goal_bearing options =
     (if path = [] then None
      else
        let s = source_seed ! nat (hd path); g = goal_seed ! nat (last path) in
        if s < 0 \<or> g < 0 then None
        else case cost_of_path graph path options (source_bearing ! nat (hd path))
               (goal_bearing ! nat (last path)) of
            None \<Rightarrow> None
          | Some (enroute_cost, enroute_dist) \<Rightarrow> Some (s + enroute_cost + g, s + enroute_dist + g))"

section \<open>The candidate set\<close>

record candidate =
  cd_cost :: real
  cd_distance :: real
  cd_vertices :: "int list"
  cd_deviation :: int

definition candidate_less :: "candidate \<Rightarrow> candidate \<Rightarrow> bool" where
  "candidate_less a b =
     (if cd_cost a \<noteq> cd_cost b then cd_cost a < cd_cost b else cd_vertices a < cd_vertices b)"

text \<open>\<open>std::set::insert\<close>: an equivalent element already in the set is kept.\<close>

primrec candidate_insert :: "candidate \<Rightarrow> candidate list \<Rightarrow> candidate list" where
  "candidate_insert c [] = [c]"
| "candidate_insert c (x # xs) =
     (if candidate_less c x then c # x # xs
      else if candidate_less x c then x # candidate_insert c xs else x # xs)"

section \<open>The search for alternatives\<close>

record yen_env =
  ye_graph :: nav_graph
  ye_sources :: "seeded_endpoint list"
  ye_options :: search_options
  ye_source_seed :: "real list"
  ye_goal_seed :: "real list"
  ye_source_bearing :: "real list"
  ye_goal_bearing :: "real list"
  ye_goal_count :: nat

record yen_state =
  ys_result :: "shortest_path list"
  ys_candidates :: "candidate list"
  ys_last_deviation :: int
  ys_spur_source_bearing :: "real list"
  ys_spur_bearing_vertex :: int
  ys_spur_goal_seed :: "real list"
  ys_mh :: multi_goal_heuristic
  ys_ws :: search_workspace

definition add_candidate :: "yen_env \<Rightarrow> int list \<Rightarrow> shortest_path \<Rightarrow> int \<Rightarrow> yen_state \<Rightarrow> yen_state" where
  "add_candidate env root_path spur_tail deviation st =
     (if \<not> sp_found spur_tail \<or> sp_vertices spur_tail = [] then st
      else
        let total = butlast root_path @ sp_vertices spur_tail in
        case cost_of_path_multi (ye_graph env) total (ye_source_seed env) (ye_goal_seed env)
               (ye_source_bearing env) (ye_goal_bearing env) (ye_options env) of
          None \<Rightarrow> st
        | Some (cost, distance) \<Rightarrow>
            st\<lparr>ys_candidates := candidate_insert
                 \<lparr>cd_cost = cost, cd_distance = distance, cd_vertices = total, cd_deviation = deviation\<rparr>
                 (ys_candidates st)\<rparr>)"

text \<open>The super-source spur: every starting fix of an accepted path is banned.\<close>

definition source_spur :: "yen_env \<Rightarrow> yen_state \<Rightarrow> yen_state option" where
  "source_spur env st =
     (let banned_sources = map (hd \<circ> sp_vertices) (filter (\<lambda>p. sp_vertices p \<noteq> []) (ys_result st));
          spur_sources = filter (\<lambda>s. se_vertex s \<notin> set banned_sources) (ye_sources env)
      in if spur_sources = [] then Some st
         else case find_shortest_path_in
             \<lparr>en_graph = ye_graph env, en_goal_seed = ye_goal_seed env,
              en_source_bearing = ye_source_bearing env, en_goal_bearing = ye_goal_bearing env,
              en_options = ye_options env\<rparr> spur_sources (ys_mh st) (ys_ws st) of
             None \<Rightarrow> None
           | Some (spur, mh, ws) \<Rightarrow>
               Some (add_candidate env [] spur (- 1) (st\<lparr>ys_mh := mh, ys_ws := ws\<rparr>)))"

definition shares_root :: "int list \<Rightarrow> shortest_path \<Rightarrow> bool" where
  "shares_root root_path p \<longleftrightarrow> \<not> (length (sp_vertices p) < length root_path \<or> take (length root_path) (sp_vertices p) \<noteq> root_path)"

text \<open>The next edges of the accepted paths that share the root, and whether one of them ends there.\<close>

definition yen_banned_edges :: "int list \<Rightarrow> shortest_path list \<Rightarrow> int list" where
  "yen_banned_edges root_path result =
     (let i = length root_path - 1 in
      sort (map (\<lambda>p. edge_key (sp_vertices p ! i) (sp_vertices p ! Suc i))
        (filter (\<lambda>p. shares_root root_path p \<and> length (sp_vertices p) \<noteq> length root_path) result)))"

definition ends_at_spur :: "int list \<Rightarrow> shortest_path list \<Rightarrow> bool" where
  "ends_at_spur root_path result \<longleftrightarrow>
     list_ex (\<lambda>p. shares_root root_path p \<and> length (sp_vertices p) = length root_path) result"

definition node_spur :: "yen_env \<Rightarrow> int list \<Rightarrow> nat \<Rightarrow> yen_state \<Rightarrow> yen_state option" where
  "node_spur env prev_path i st =
     (let graph = ye_graph env; spur_node = prev_path ! i; root_path = take (Suc i) prev_path;
          ends = ends_at_spur root_path (ys_result st)
      in if ends \<and> 0 \<le> ye_goal_seed env ! nat spur_node \<and> ye_goal_count env < 2 then Some st
         else
           let banned_nodes = merge_banned (nf_banned (so_node_filter (ye_options env))) (sort (butlast root_path));
               banned_edges = merge_banned (so_edge_filter (ye_options env))
                 (yen_banned_edges root_path (ys_result st));
               spur_opts = (ye_options env)
                 \<lparr>so_node_filter := (so_node_filter (ye_options env))\<lparr>nf_banned := Some banned_nodes\<rparr>,
                  so_edge_filter := Some banned_edges\<rparr>;
               bearings = (if 0 \<le> ys_spur_bearing_vertex st
                 then (ys_spur_source_bearing st)[nat (ys_spur_bearing_vertex st) := no_bearing]
                 else ys_spur_source_bearing st);
               inbound_at_spur = (if i = 0 then ye_source_bearing env ! nat spur_node
                 else bearing_to (coord_of graph (prev_path ! (i - 1))) (coord_of graph spur_node));
               bearings = bearings[nat spur_node := inbound_at_spur];
               goal_seed = (if ends then (ys_spur_goal_seed st)[nat spur_node := - 1]
                 else ys_spur_goal_seed st)
           in case find_shortest_path_in
               \<lparr>en_graph = graph, en_goal_seed = goal_seed, en_source_bearing = bearings,
                en_goal_bearing = ye_goal_bearing env, en_options = spur_opts\<rparr>
               [\<lparr>se_vertex = spur_node, se_cost = 0, se_bearing = no_bearing\<rparr>] (ys_mh st) (ys_ws st) of
               None \<Rightarrow> None
             | Some (spur, mh, ws) \<Rightarrow>
                 Some (add_candidate env root_path spur (int i)
                   (st\<lparr>ys_spur_source_bearing := bearings, ys_spur_bearing_vertex := spur_node,
                      ys_spur_goal_seed := goal_seed[nat spur_node := ye_goal_seed env ! nat spur_node],
                      ys_mh := mh, ys_ws := ws\<rparr>)))"

definition spur_at :: "yen_env \<Rightarrow> int list \<Rightarrow> int \<Rightarrow> yen_state \<Rightarrow> yen_state option" where
  "spur_at env prev_path i st =
     (if i < 0 then source_spur env st else node_spur env prev_path (nat i) st)"

primrec spur_all :: "int list \<Rightarrow> yen_env \<Rightarrow> int list \<Rightarrow> yen_state \<Rightarrow> yen_state option" where
  "spur_all [] env prev_path st = Some st"
| "spur_all (i # is) env prev_path st =
     (case spur_at env prev_path i st of None \<Rightarrow> None | Some st' \<Rightarrow> spur_all is env prev_path st')"

text \<open>Accepting the best candidate.\<close>

definition accept_best :: "candidate \<Rightarrow> candidate list \<Rightarrow> yen_state \<Rightarrow> yen_state" where
  "accept_best best others st =
     st\<lparr>ys_result := ys_result st @
          [\<lparr>sp_vertices = cd_vertices best, sp_distance_nm = cd_distance best,
            sp_cost = Fin (cd_cost best), sp_found = True\<rparr>],
        ys_candidates := others, ys_last_deviation := cd_deviation best\<rparr>"

primrec yen_rounds :: "nat \<Rightarrow> yen_env \<Rightarrow> yen_state \<Rightarrow> yen_state option" where
  "yen_rounds 0 env st = Some st"
| "yen_rounds (Suc rounds) env st =
     (let prev_path = sp_vertices (last (ys_result st)) in
      case spur_all [ys_last_deviation st .. int (length prev_path) - 1] env prev_path st of
        None \<Rightarrow> None
      | Some st' \<Rightarrow>
          (case ys_candidates st' of
             [] \<Rightarrow> Some st'
           | best # others \<Rightarrow> yen_rounds rounds env (accept_best best others st')))"

definition yen_env_of ::
  "nav_graph \<Rightarrow> seeded_endpoint list \<Rightarrow> seeded_endpoint list \<Rightarrow> search_options \<Rightarrow> yen_env" where
  "yen_env_of graph sources goals options =
     (let n = vertex_count graph; goal_seed = build_seed_table goals n in
      \<lparr>ye_graph = graph, ye_sources = sources, ye_options = options,
       ye_source_seed = build_seed_table sources n, ye_goal_seed = goal_seed,
       ye_source_bearing = build_bearing_table sources n,
       ye_goal_bearing = build_bearing_table goals n,
       ye_goal_count = length (filter (\<lambda>g. 0 \<le> g) goal_seed)\<rparr>)"

definition find_k_shortest_paths_multi ::
  "nav_graph \<Rightarrow> seeded_endpoint list \<Rightarrow> seeded_endpoint list \<Rightarrow> int \<Rightarrow> search_options \<Rightarrow>
   shortest_path list option" where
  "find_k_shortest_paths_multi graph sources goals k options =
     (if k \<le> 0 \<or> sources = [] \<or> goals = [] then Some []
      else
        let env = yen_env_of graph sources goals options in
        case find_shortest_path_in (search_env_of graph sources goals options) sources
               (multi_goal_heuristic_new graph goals) search_workspace_default of
          None \<Rightarrow> None
        | Some (first, mh, ws) \<Rightarrow>
            if \<not> sp_found first then Some []
            else map_option ys_result (yen_rounds (nat (k - 1)) env
              \<lparr>ys_result = [first], ys_candidates = [], ys_last_deviation = - 1,
               ys_spur_source_bearing = replicate (nat (vertex_count graph)) no_bearing,
               ys_spur_bearing_vertex = no_vertex, ys_spur_goal_seed = ye_goal_seed env,
               ys_mh = mh, ys_ws = ws\<rparr>))"

definition find_k_shortest_paths ::
  "nav_graph \<Rightarrow> int \<Rightarrow> int \<Rightarrow> int \<Rightarrow> search_options \<Rightarrow> shortest_path list option" where
  "find_k_shortest_paths graph start goal k options =
     find_k_shortest_paths_multi graph
       [\<lparr>se_vertex = start, se_cost = 0, se_bearing = no_bearing\<rparr>]
       [\<lparr>se_vertex = goal, se_cost = 0, se_bearing = no_bearing\<rparr>] k options"

end
