(* ===== verification/Recost.thy ===== *)
theory Recost
  imports SearchResult Yen
begin

text \<open>
  \<open>CostOfPathMulti\<close> (\<^verbatim>\<open>core/graph/yen_kshortest.cc\<close>) re-costs a path from its vertices alone; the
  search accumulates the same quantities edge by edge. The lemmas show that the two agree, with
  turn penalties and both seeds included, so candidates are ranked on the search's own cost model.
\<close>

section \<open>The two accumulations\<close>

definition edge_fold :: "search_env \<Rightarrow> int list \<Rightarrow> (real \<times> real \<times> real list) option" where
  "edge_fold env p = foldl (cost_step (en_graph env) (en_options env)) (Some (0, 0, [])) (zip p (tl p))"

lemma zip_tl_snoc: "xs \<noteq> [] \<Longrightarrow> zip (xs @ [v]) (tl (xs @ [v])) = zip xs (tl xs) @ [(last xs, v)]"
proof (induction xs rule: list_nonempty_induct)
  case (cons x xs)
  then show ?case by (cases xs) simp_all
qed simp

lemma edge_fold_snoc:
  assumes "p \<noteq> []"
  shows "edge_fold env (p @ [v]) = cost_step (en_graph env) (en_options env) (edge_fold env p) (last p, v)"
  unfolding edge_fold_def by (simp only: zip_tl_snoc [OF assms] foldl_append foldl.simps)

lemma interior_turns_shift: "interior_turns t bs (x + c) = x + interior_turns t bs c"
proof -
  have "foldl (\<lambda>c (b, b'). c + penalty_of t (turn_angle_deg b b')) (x + c) ps =
      x + foldl (\<lambda>c (b, b'). c + penalty_of t (turn_angle_deg b b')) c ps" for ps
    by (induction ps arbitrary: c) (auto simp: add.assoc)
  then show ?thesis by (simp add: interior_turns_def)
qed

lemma interior_turns_snoc:
  assumes "bs \<noteq> []"
  shows "interior_turns t (bs @ [b]) c = interior_turns t bs c + penalty_of t (turn_angle_deg (last bs) b)"
  unfolding interior_turns_def by (simp only: zip_tl_snoc [OF assms] foldl_append foldl.simps prod.case)

text \<open>The turn costs of a path: at its source, then at its interior vertices.\<close>

definition turns_along :: "turn_penalty \<Rightarrow> real \<Rightarrow> real list \<Rightarrow> real" where
  "turns_along t b0 bs =
     (if bs = [] then 0
      else (if 0 \<le> b0 then penalty_of t (turn_angle_deg b0 (hd bs)) else 0) + interior_turns t bs 0)"

lemma turns_along_snoc:
  assumes "\<forall>x \<in> set bs. 0 \<le> x"
  shows "turns_along t b0 (bs @ [b]) = turns_along t b0 bs +
    (if 0 \<le> (if bs = [] then b0 else last bs)
     then penalty_of t (turn_angle_deg (if bs = [] then b0 else last bs) b) else 0)"
  using assms by (auto simp: turns_along_def interior_turns_snoc) (simp add: interior_turns_def)

lemma hop_select:
  assumes "hop env u v = Some (e, k)"
  shows "select_edge (en_graph env) u v (en_options env) = Some (e, k)"
    "\<not> edge_blocks (so_edge_filter (en_options env)) u v"
  using assms by (auto simp: hop_def hop_in_def select_edge_def split: if_splits)

lemma arrive_edge_fold:
  "arrive env sources q = Some (c, d, inb) \<Longrightarrow>
   \<exists>s k bs. cheapest_seed sources (last q) = Some s \<and> edge_fold env (rev q) = Some (k, d - se_cost s, bs) \<and>
     (\<forall>b \<in> set bs. 0 \<le> b) \<and>
     (if tp_enabled (so_turn_penalty (en_options env)) then
        length bs = length q - 1 \<and>
        c = se_cost s + k + turns_along (so_turn_penalty (en_options env)) (en_source_bearing env ! nat (last q)) bs \<and>
        inb = (if bs = [] then en_source_bearing env ! nat (last q) else last bs)
      else bs = [] \<and> c = se_cost s + k)"
proof (induction env sources q arbitrary: c d inb rule: arrive.induct)
  case (2 env sources v)
  then have "seeded_label env sources v \<noteq> (Infinity, 0, no_vertex, no_bearing)"
    by (auto split: prod.splits cost.splits)
  then obtain s where s: "cheapest_seed sources v = Some s"
    "\<not> node_blocks (so_node_filter (en_options env)) v"
    by (auto simp: seeded_label_def split: option.splits if_splits)
  then show ?case using 2 by (auto simp: seeded_label_def edge_fold_def turns_along_def)
next
  case (3 env sources v u p)
  let ?t = "so_turn_penalty (en_options env)" and ?src = "en_source_bearing env ! nat (last (u # p))"
  from "3.prems" obtain c1 d1 inb1 e k1 where r: "arrive env sources (u # p) = Some (c1, d1, inb1)"
    "hop env u v = Some (e, k1)" "c = c1 + (k1 + turn_at env inb1 u v)" "d = d1 + ge_distance_nm e"
    "inb = out_bearing (en_graph env) (en_options env) u v"
    by (auto split: option.splits prod.splits)
  from "3.IH" [OF r(1)] obtain s k bs where ih: "cheapest_seed sources (last (u # p)) = Some s"
    "edge_fold env (rev (u # p)) = Some (k, d1 - se_cost s, bs)" "\<forall>b \<in> set bs. 0 \<le> b"
    "if tp_enabled ?t then length bs = length (u # p) - 1 \<and> c1 = se_cost s + k + turns_along ?t ?src bs \<and>
        inb1 = (if bs = [] then ?src else last bs) else bs = [] \<and> c1 = se_cost s + k"
    by blast
  let ?b = "bearing_to (coord_of (en_graph env) u) (coord_of (en_graph env) v)"
  let ?bs = "if tp_enabled ?t then bs @ [?b] else bs"
  have b: "0 \<le> ?b" using bearing_to_range by simp
  have "edge_fold env (rev (v # u # p)) = Some (k + k1, d - se_cost s, ?bs)"
    using ih(2) hop_select [OF r(2)] r(4) edge_fold_snoc [of "rev (u # p)" env v]
    by (simp add: cost_step_def algebra_simps)
  moreover have "\<forall>x \<in> set ?bs. 0 \<le> x" using ih(3) b by auto
  moreover have "c = se_cost s + (k + k1) + turns_along ?t ?src ?bs" if "tp_enabled ?t"
  proof -
    have c1: "c1 = se_cost s + k + turns_along ?t ?src bs" and i1: "inb1 = (if bs = [] then ?src else last bs)"
      using ih(4) that by simp_all
    have "turn_at env inb1 u v = (if 0 \<le> inb1 then penalty_of ?t (turn_angle_deg inb1 ?b) else 0)"
      using that by (simp add: turn_at_def turn_cost_def out_bearing_def)
    then have "turns_along ?t ?src (bs @ [?b]) = turns_along ?t ?src bs + turn_at env inb1 u v"
      using turns_along_snoc [OF ih(3), of ?t ?src ?b] unfolding i1 by simp
    then show ?thesis using c1 r(3) that by simp
  qed
  moreover have "c = se_cost s + (k + k1)" if "\<not> tp_enabled ?t"
    using ih(4) r that by (simp add: turn_at_def turn_cost_def)
  ultimately show ?case using ih(1,4) r(5)
    by (intro exI [of _ s] exI [of _ "k + k1"] exI [of _ ?bs]) (auto simp: out_bearing_def)
qed simp

section \<open>The re-cost of a found route\<close>

lemma cost_of_path_arrive:
  assumes a: "arrive env sources (rev path) = Some (c, d, inb)" and p: "path \<noteq> []"
  obtains s where "cheapest_seed sources (hd path) = Some s"
    "cost_of_path (en_graph env) path (en_options env) (en_source_bearing env ! nat (hd path))
       (en_goal_bearing env ! nat (last path)) =
     Some (c - se_cost s + finish_turn env inb (last path), d - se_cost s)"
proof -
  let ?t = "so_turn_penalty (en_options env)" and ?src = "en_source_bearing env ! nat (hd path)"
  have hd: "last (rev path) = hd path" using p by (simp add: last_rev)
  from arrive_edge_fold [OF a] obtain s k bs where
    s: "cheapest_seed sources (hd path) = Some s" and f: "edge_fold env path = Some (k, d - se_cost s, bs)"
    and bs: "\<forall>b \<in> set bs. 0 \<le> b"
    and t: "if tp_enabled ?t then length bs = length path - 1 \<and> c = se_cost s + k + turns_along ?t ?src bs \<and>
        inb = (if bs = [] then ?src else last bs) else bs = [] \<and> c = se_cost s + k"
    unfolding hd by auto
  have nb: "\<not> list_ex (node_blocks (so_node_filter (en_options env))) path"
    using arrive_unblocked [OF a] by (auto simp: list_ex_iff)
  have "cost_of_path (en_graph env) path (en_options env) ?src (en_goal_bearing env ! nat (last path)) =
     Some (c - se_cost s + finish_turn env inb (last path), d - se_cost s)"
  proof (cases "length path < 2")
    case True
    then obtain v where v: "path = [v]" using p by (cases path) auto
    then have "k = 0" "d - se_cost s = 0" "bs = []" using f by (auto simp: edge_fold_def)
    then have "c = se_cost s" "tp_enabled ?t \<longrightarrow> inb = ?src"
      using t by (auto simp: turns_along_def split: if_splits)
    then show ?thesis using v \<open>d - se_cost s = 0\<close> by (auto simp: cost_of_path_def Let_def finish_turn_def)
  next
    case False
    have ff: "foldl (cost_step (en_graph env) (en_options env)) (Some (0, 0, [])) (zip path (tl path)) =
        Some (k, d - se_cost s, bs)" using f by (simp add: edge_fold_def)
    show ?thesis
    proof (cases "tp_enabled ?t")
      case off: False
      then show ?thesis using t nb False ff
        by (simp add: cost_of_path_def Let_def finish_turn_def)
    next
      case on: True
      then have ne: "bs \<noteq> []" using t False by auto
      have l: "0 \<le> last bs" using bs ne by simp
      have "interior_turns ?t bs (k + x) = k + x + interior_turns ?t bs 0" for x
        using interior_turns_shift [of ?t bs "k + x" 0] by simp
      moreover have "interior_turns ?t bs k = k + interior_turns ?t bs 0"
        using interior_turns_shift [of ?t bs k 0] by simp
      ultimately show ?thesis using t nb False ff on ne l
        by (simp add: cost_of_path_def Let_def finish_turn_def turns_along_def)
    qed
  qed
  with s show ?thesis by (rule that)
qed

lemma route_recost:
  assumes r: "route_costs (search_env_of graph sources goals options) sources path cost distance"
    and v: "\<forall>v \<in> set path. is_vertex graph v" and s: "seeds_ok sources"
  shows "cost_of_path_multi graph path (build_seed_table sources (vertex_count graph))
      (build_seed_table goals (vertex_count graph)) (build_bearing_table sources (vertex_count graph))
      (build_bearing_table goals (vertex_count graph)) options = Some (cost, distance)"
proof -
  let ?env = "search_env_of graph sources goals options"
  have env [simp]: "en_graph ?env = graph" "en_options ?env = options"
    "en_source_bearing ?env = build_bearing_table sources (vertex_count graph)"
    "en_goal_bearing ?env = build_bearing_table goals (vertex_count graph)"
    "en_goal_seed ?env = build_seed_table goals (vertex_count graph)"
    by (simp_all add: search_env_of_def Let_def)
  from r obtain c d inb where p: "path \<noteq> []" and a: "arrive ?env sources (rev path) = Some (c, d, inb)"
    and g: "0 \<le> en_goal_seed ?env ! nat (last path)"
    and cost: "cost = c + en_goal_seed ?env ! nat (last path) + finish_turn ?env inb (last path)"
    and distance: "distance = d + en_goal_seed ?env ! nat (last path)"
    by (auto simp: route_costs_def is_goal_def)
  from cost_of_path_arrive [OF a p] obtain x where x: "cheapest_seed sources (hd path) = Some x"
    "cost_of_path graph path options (build_bearing_table sources (vertex_count graph) ! nat (hd path))
       (build_bearing_table goals (vertex_count graph) ! nat (last path)) =
     Some (c - se_cost x + finish_turn ?env inb (last path), d - se_cost x)"
    by auto
  have "is_vertex graph (hd path)" using v p by simp
  then have "build_seed_table sources (vertex_count graph) ! nat (hd path) = se_cost x"
    using build_seed_table_cheapest [OF s] x(1) by (simp add: is_vertex_def)
  moreover have "0 \<le> se_cost x"
    using cheapest_seed_spec [of sources "hd path"] x(1) s by (auto simp: seeds_ok_def)
  ultimately show ?thesis using p g x cost distance by (simp add: cost_of_path_multi_def Let_def)
qed

end
