(* ===== verification/YenCorrect.thy ===== *)
theory YenCorrect
  imports Recost
begin

text \<open>
  Yen's search (\<^verbatim>\<open>core/graph/yen_kshortest.cc\<close>): it returns, and its results are at most \<open>k\<close>
  pairwise different loopless routes, each with the cost and distance its re-costing gives. The
  candidate set is shown to behave as an ordered set without duplicate paths.
\<close>

section \<open>Merged bans\<close>

lemma merge_banned_props [simp]:
  "sorted (merge_banned c y)"
  "set (merge_banned c y) = (case c of None \<Rightarrow> {} | Some b \<Rightarrow> set b) \<union> set y"
  by (auto simp: merge_banned_def split: option.split)

lemma binary_search_merge:
  "binary_search (merge_banned c y) x \<longleftrightarrow> x \<in> (case c of None \<Rightarrow> {} | Some b \<Rightarrow> set b) \<union> set y"
  by (simp add: binary_search_iff_mem)

section \<open>The candidate set\<close>

text \<open>The strict order of the set, as the comparator has it.\<close>

lemma candidate_less_irrefl: "\<not> candidate_less a a"
  by (simp add: candidate_less_def)

lemma candidate_less_trans: "candidate_less a b \<Longrightarrow> candidate_less b c \<Longrightarrow> candidate_less a c"
  by (auto simp: candidate_less_def split: if_splits)

lemma candidate_less_total:
  "candidate_less a b \<or> candidate_less b a \<or> cd_cost a = cd_cost b \<and> cd_vertices a = cd_vertices b"
  by (auto simp: candidate_less_def)

lemma set_candidate_insert: "set (candidate_insert c xs) \<subseteq> insert c (set xs)"
  by (induction xs) auto

lemma candidate_insert_keeps: "set xs \<subseteq> set (candidate_insert c xs)"
  by (induction xs) auto

lemma candidate_insert_has:
  "\<exists>x \<in> set (candidate_insert c xs). cd_cost x = cd_cost c \<and> cd_vertices x = cd_vertices c"
proof (induction xs)
  case (Cons y ys)
  then show ?case using candidate_less_total [of c y] by auto
qed simp

lemma candidate_insert_sorted:
  "sorted_wrt candidate_less xs \<Longrightarrow> sorted_wrt candidate_less (candidate_insert c xs)"
proof (induction xs)
  case (Cons y ys)
  have "candidate_less y z" if "candidate_less y c" "z \<in> set (candidate_insert c ys)" for z
    using that Cons.prems set_candidate_insert [of c ys] by auto
  moreover have "candidate_less c z" if "candidate_less c y" "z \<in> set ys" for z
    using that Cons.prems candidate_less_trans [of c y z] by auto
  ultimately show ?case using Cons by auto
qed simp

text \<open>When the cost is a function of the vertices, a sorted candidate list has no path twice.\<close>

lemma candidates_distinct:
  assumes "sorted_wrt candidate_less xs" and "\<And>x. x \<in> set xs \<Longrightarrow> f (cd_vertices x) = cd_cost x"
  shows "distinct (map cd_vertices xs)"
  using assms
proof (induction xs)
  case (Cons x xs)
  have "cd_vertices x \<noteq> cd_vertices y" if "y \<in> set xs" for y
  proof
    assume eq: "cd_vertices x = cd_vertices y"
    have "cd_cost x = cd_cost y" using Cons.prems(2) that eq by (metis list.set_intros)
    then have "\<not> candidate_less x y" using eq by (simp add: candidate_less_def)
    with Cons.prems(1) that show False by auto
  qed
  with Cons show ?case by auto
qed simp

section \<open>The invariant\<close>

definition recost :: "yen_env \<Rightarrow> int list \<Rightarrow> (real \<times> real) option" where
  "recost env p = cost_of_path_multi (ye_graph env) p (ye_source_seed env) (ye_goal_seed env)
     (ye_source_bearing env) (ye_goal_bearing env) (ye_options env)"

text \<open>A loopless route: re-costable, no vertex twice, every vertex in the graph and not filtered.\<close>

definition loopless_route :: "yen_env \<Rightarrow> int list \<Rightarrow> bool" where
  "loopless_route env p \<longleftrightarrow>
     p \<noteq> [] \<and> distinct p \<and> recost env p \<noteq> None \<and>
     (\<forall>v \<in> set p. is_vertex (ye_graph env) v \<and> \<not> node_blocks (so_node_filter (ye_options env)) v)"

definition result_route :: "yen_env \<Rightarrow> shortest_path \<Rightarrow> bool" where
  "result_route env r \<longleftrightarrow>
     sp_found r \<and> loopless_route env (sp_vertices r) \<and>
     (\<exists>c. sp_cost r = Fin c \<and> recost env (sp_vertices r) = Some (c, sp_distance_nm r))"

definition candidate_route :: "yen_env \<Rightarrow> candidate \<Rightarrow> bool" where
  "candidate_route env c \<longleftrightarrow>
     loopless_route env (cd_vertices c) \<and> recost env (cd_vertices c) = Some (cd_cost c, cd_distance c) \<and>
     - 1 \<le> cd_deviation c"

definition filters_ok :: "search_options \<Rightarrow> bool" where
  "filters_ok options \<longleftrightarrow>
     (case nf_banned (so_node_filter options) of None \<Rightarrow> True | Some b \<Rightarrow> sorted b) \<and>
     (case so_edge_filter options of None \<Rightarrow> True | Some b \<Rightarrow> sorted b)"

definition yen_env_ok :: "yen_env \<Rightarrow> bool" where
  "yen_env_ok env \<longleftrightarrow>
     graph_ok (ye_graph env) \<and> filters_ok (ye_options env) \<and>
     length (ye_goal_seed env) = length (ng_coords (ye_graph env))"

text \<open>\<open>budget\<close> is the number of searches that may still run before the generation counter wraps.\<close>

definition yen_inv :: "yen_env \<Rightarrow> seeded_endpoint list \<Rightarrow> nat \<Rightarrow> yen_state \<Rightarrow> bool" where
  "yen_inv env goals budget st \<longleftrightarrow>
     ys_result st \<noteq> [] \<and> (\<forall>r \<in> set (ys_result st). result_route env r) \<and>
     distinct (map sp_vertices (ys_result st)) \<and>
     (\<forall>c \<in> set (ys_candidates st). candidate_route env c) \<and>
     sorted_wrt candidate_less (ys_candidates st) \<and>
     cd_vertices ` set (ys_candidates st) \<inter> sp_vertices ` set (ys_result st) = {} \<and>
     ys_spur_goal_seed st = ye_goal_seed env \<and> - 1 \<le> ys_last_deviation st \<and>
     ws_ok (ys_ws st) \<and> unat (ws_generation (ys_ws st)) + budget < 2 ^ 32 \<and>
     heuristic_ok (ye_graph env) goals (ys_mh st)"

lemma unwrapped_budget:
  assumes "unat (ws_generation ws) + Suc b < 2 ^ 32"
  shows "ws_unwrapped ws" "unat (ws_generation ws + 1) = Suc (unat (ws_generation ws))"
proof -
  have "unat (ws_generation ws + 1) = Suc (unat (ws_generation ws))"
    using assms by (simp add: unat_word_ariths)
  then show "ws_unwrapped ws" "unat (ws_generation ws + 1) = Suc (unat (ws_generation ws))"
    by (auto simp: ws_unwrapped_def)
qed

section \<open>A spur\<close>

text \<open>What adding a candidate needs of the spur's path, whichever spur found it.\<close>

lemma add_candidate_inv:
  assumes inv: "yen_inv env goals b st" and dev: "- 1 \<le> deviation"
    and new: "sp_found tail \<Longrightarrow> distinct (butlast root_path @ sp_vertices tail) \<and>
      (\<forall>v \<in> set (butlast root_path @ sp_vertices tail). is_vertex (ye_graph env) v \<and>
         \<not> node_blocks (so_node_filter (ye_options env)) v) \<and>
      butlast root_path @ sp_vertices tail \<notin> sp_vertices ` set (ys_result st)"
  shows "yen_inv env goals b (add_candidate env root_path tail deviation st)"
    and "ys_result (add_candidate env root_path tail deviation st) = ys_result st"
proof -
  let ?total = "butlast root_path @ sp_vertices tail"
  show "ys_result (add_candidate env root_path tail deviation st) = ys_result st"
    by (auto simp: add_candidate_def Let_def split: option.split)
  show "yen_inv env goals b (add_candidate env root_path tail deviation st)"
  proof (cases "sp_found tail \<and> sp_vertices tail \<noteq> [] \<and> recost env ?total \<noteq> None")
    case False
    then have "add_candidate env root_path tail deviation st = st"
      by (auto simp: add_candidate_def recost_def Let_def split: option.split)
    with inv show ?thesis by simp
  next
    case True
    then obtain cost distance where rc: "recost env ?total = Some (cost, distance)" by auto
    define c where "c = \<lparr>cd_cost = cost, cd_distance = distance, cd_vertices = ?total, cd_deviation = deviation\<rparr>"
    have eq: "add_candidate env root_path tail deviation st =
        st\<lparr>ys_candidates := candidate_insert c (ys_candidates st)\<rparr>"
      using True rc by (simp add: add_candidate_def recost_def Let_def c_def)
    have "candidate_route env c"
      using True new rc dev by (auto simp: candidate_route_def loopless_route_def c_def)
    moreover have "cd_vertices c \<notin> sp_vertices ` set (ys_result st)" using new True by (simp add: c_def)
    ultimately have fresh: "candidate_route env c" "cd_vertices c \<notin> sp_vertices ` set (ys_result st)"
      by blast+
    have old: "\<forall>c \<in> set (ys_candidates st). candidate_route env c"
      "cd_vertices ` set (ys_candidates st) \<inter> sp_vertices ` set (ys_result st) = {}"
      using inv by (simp_all add: yen_inv_def)
    have mem: "x = c \<or> x \<in> set (ys_candidates st)" if "x \<in> set (candidate_insert c (ys_candidates st))" for x
      using subsetD [OF set_candidate_insert that] by simp
    have "\<forall>c \<in> set (candidate_insert c (ys_candidates st)). candidate_route env c"
      using mem fresh(1) old(1) by metis
    moreover have "cd_vertices ` set (candidate_insert c (ys_candidates st)) \<inter> sp_vertices ` set (ys_result st) = {}"
    proof -
      have "cd_vertices x \<notin> sp_vertices ` set (ys_result st)"
        if "x \<in> set (candidate_insert c (ys_candidates st))" for x
        using mem [OF that] fresh(2) old(2) by blast
      then show ?thesis by blast
    qed
    ultimately
    show ?thesis
      using inv candidate_insert_sorted unfolding yen_inv_def eq by simp
  qed
qed

lemma result_ok_path:
  assumes "result_ok env sources r" "sp_found r"
  shows "sp_vertices r \<noteq> []" "distinct (sp_vertices r)" "\<And>v. v \<in> set (sp_vertices r) \<Longrightarrow> vertex env v"
    "\<And>v. v \<in> set (sp_vertices r) \<Longrightarrow> \<not> node_blocks (so_node_filter (en_options env)) v"
    "is_goal env (last (sp_vertices r))" "\<exists>s \<in> set sources. se_vertex s = hd (sp_vertices r)"
    "Suc i < length (sp_vertices r) \<Longrightarrow> hop env (sp_vertices r ! i) (sp_vertices r ! Suc i) \<noteq> None"
proof -
  let ?p = "sp_vertices r"
  from assms obtain cost where rc: "route_costs env sources ?p cost (sp_distance_nm r)"
    and d: "distinct ?p" and v: "\<forall>v \<in> set ?p. vertex env v"
    by (auto simp: result_ok_def)
  then obtain a where ne: "?p \<noteq> []" and a: "arrive env sources (rev ?p) = Some a"
    and g: "is_goal env (last ?p)" by (auto simp: route_costs_def)
  show "?p \<noteq> []" "distinct ?p" "is_goal env (last ?p)" "\<And>v. v \<in> set ?p \<Longrightarrow> vertex env v"
    using ne d v g by auto
  show "\<not> node_blocks (so_node_filter (en_options env)) v" if "v \<in> set ?p" for v
    using arrive_unblocked [OF a] that by simp
  show "\<exists>s \<in> set sources. se_vertex s = hd ?p"
    using arrive_source [OF a] ne by (simp add: last_rev)
  show "hop env (?p ! i) (?p ! Suc i) \<noteq> None" if i: "Suc i < length ?p"
  proof -
    let ?j = "length ?p - 2 - i"
    have "Suc ?j < length (rev ?p)" using i by simp
    moreover have "rev ?p ! Suc ?j = ?p ! i" "rev ?p ! ?j = ?p ! Suc i"
      using i by (simp_all add: rev_nth Suc_diff_Suc)
    ultimately show ?thesis using arrive_hops [OF a, of ?j] by simp
  qed
qed

lemma source_spur_inv:
  assumes ok: "yen_env_ok env" and inv: "yen_inv env goals (Suc b) st"
  shows "\<exists>st'. source_spur env st = Some st' \<and> yen_inv env goals b st' \<and> ys_result st' = ys_result st"
proof -
  let ?banned = "map (hd \<circ> sp_vertices) (filter (\<lambda>p. sp_vertices p \<noteq> []) (ys_result st))"
  let ?srcs = "filter (\<lambda>s. se_vertex s \<notin> set ?banned) (ye_sources env)"
  let ?env = "\<lparr>en_graph = ye_graph env, en_goal_seed = ye_goal_seed env,
      en_source_bearing = ye_source_bearing env, en_goal_bearing = ye_goal_bearing env,
      en_options = ye_options env\<rparr>"
  have weaker: "yen_inv env goals b st" using inv by (simp add: yen_inv_def)
  show ?thesis
  proof (cases "?srcs = []")
    case True
    then show ?thesis using weaker by (simp add: source_spur_def Let_def)
  next
    case False
    have g: "graph_ok (en_graph ?env)" and ws: "ws_ok (ys_ws st)"
      and gen: "unat (ws_generation (ys_ws st)) + Suc b < 2 ^ 32" and mh: "heuristic_ok (en_graph ?env) goals (ys_mh st)"
      using ok inv by (simp_all add: yen_env_ok_def yen_inv_def)
    from find_shortest_path_in_result [OF g ws unwrapped_budget(1) [OF gen] mh, of ?srcs]
    obtain r mh' ws' where f: "find_shortest_path_in ?env ?srcs (ys_mh st) (ys_ws st) = Some (r, mh', ws')"
      and r: "result_ok ?env ?srcs r" and o: "ws_ok ws'" "heuristic_ok (en_graph ?env) goals mh'"
      and gen': "ws_generation ws' = (if ?srcs = [] then ws_generation (ys_ws st) else ws_generation (ys_ws st) + 1)"
      by metis
    have "unat (ws_generation ws') = Suc (unat (ws_generation (ys_ws st)))"
      unfolding gen' if_not_P [OF False] by (rule unwrapped_budget(2) [OF gen])
    then have inv1: "yen_inv env goals b (st\<lparr>ys_mh := mh', ys_ws := ws'\<rparr>)"
      using inv o gen by (simp add: yen_inv_def)
    have new: "distinct (butlast [] @ sp_vertices r) \<and>
        (\<forall>v \<in> set (butlast [] @ sp_vertices r). is_vertex (ye_graph env) v \<and>
           \<not> node_blocks (so_node_filter (ye_options env)) v) \<and>
        butlast [] @ sp_vertices r \<notin> sp_vertices ` set (ys_result (st\<lparr>ys_mh := mh', ys_ws := ws'\<rparr>))"
      if "sp_found r"
    proof -
      note p = result_ok_path [OF r that]
      from p(6) have "hd (sp_vertices r) \<notin> set ?banned" by auto
      then have "sp_vertices r \<notin> sp_vertices ` set (ys_result st)" using p(1) by auto
      then show ?thesis using p by auto
    qed
    show ?thesis
      using add_candidate_inv [OF inv1 order_refl, of r "[]", OF new] f False
      by (auto simp: source_spur_def Let_def)
  qed
qed

text \<open>A path that the accepted paths with the same root could have produced is banned.\<close>

lemma shares_root_take: "shares_root r p \<longleftrightarrow> length r \<le> length (sp_vertices p) \<and> take (length r) (sp_vertices p) = r"
  by (auto simp: shares_root_def)

lemma node_spur_fresh:
  assumes root: "root_path = take (Suc i) prev" "i < length prev"
    and tail: "tail \<noteq> []" "hd tail = prev ! i"
    and ends: "ends_at_spur root_path result \<Longrightarrow> tail \<noteq> [prev ! i]"
    and nx: "\<And>u v. Suc 0 < length tail \<Longrightarrow> u = tail ! 0 \<Longrightarrow> v = tail ! 1 \<Longrightarrow>
      edge_key u v \<notin> set (yen_banned_edges root_path result)"
  shows "butlast root_path @ tail \<notin> sp_vertices ` set result"
proof
  assume "butlast root_path @ tail \<in> sp_vertices ` set result"
  then obtain p where p: "p \<in> set result" "sp_vertices p = butlast root_path @ tail" by auto
  have len: "length root_path = Suc i" "root_path \<noteq> []" using root by auto
  have lastr: "last root_path = prev ! i"
    using root by (simp add: take_Suc_conv_app_nth)
  obtain t ts where t: "tail = t # ts" using tail(1) by (cases tail) auto
  then have "t = last root_path" using tail(2) lastr by simp
  then have rt: "butlast root_path @ [t] = root_path" using len(2) by simp
  have "sp_vertices p = (butlast root_path @ [t]) @ ts" using p(2) t by simp
  then have split: "sp_vertices p = root_path @ ts" unfolding rt .
  then have sh: "shares_root root_path p" by (simp add: shares_root_take)
  show False
  proof (cases ts)
    case Nil
    then have "ends_at_spur root_path result"
      using p(1) sh split by (auto simp: ends_at_spur_def list_ex_iff)
    with ends t Nil tail(2) show False by simp
  next
    case (Cons w ws)
    then have "sp_vertices p ! i = t" "sp_vertices p ! Suc i = w"
      using split len lastr tail(2) t by (simp_all add: nth_append last_conv_nth)
    moreover have "length (sp_vertices p) \<noteq> length root_path" using split Cons by simp
    ultimately have "edge_key t w \<in> set (yen_banned_edges root_path result)"
      using p(1) sh len by (auto simp: yen_banned_edges_def)
    moreover have "edge_key t w \<notin> set (yen_banned_edges root_path result)"
      by (rule nx) (use t Cons in simp_all)
    ultimately show False by simp
  qed
qed

text \<open>The spur's filter blocks what the caller's filter blocks, and the root before the spur node.\<close>

lemma node_blocks_merge:
  assumes "case nf_banned f of None \<Rightarrow> True | Some b \<Rightarrow> sorted b"
  shows "node_blocks (f\<lparr>nf_banned := Some (merge_banned (nf_banned f) y)\<rparr>) v \<longleftrightarrow> node_blocks f v \<or> v \<in> set y"
  using assms by (auto simp: node_blocks_def binary_search_iff_mem split: option.splits)

lemma edge_blocks_merge:
  assumes "case f of None \<Rightarrow> True | Some b \<Rightarrow> sorted b"
  shows "edge_blocks (Some (merge_banned f y)) u v \<longleftrightarrow> edge_blocks f u v \<or> edge_key u v \<in> set y"
  using assms by (auto simp: edge_blocks_def binary_search_iff_mem split: option.splits)

lemma node_spur_inv:
  assumes ok: "yen_env_ok env" and inv: "yen_inv env goals (Suc b) st"
    and prev: "loopless_route env prev" and i: "i < length prev"
  shows "\<exists>st'. node_spur env prev i st = Some st' \<and> yen_inv env goals b st' \<and> ys_result st' = ys_result st"
proof -
  define spur_node where "spur_node = prev ! i"
  define root_path where "root_path = take (Suc i) prev"
  define ends where "ends = ends_at_spur root_path (ys_result st)"
  define opts where "opts = (ye_options env)
    \<lparr>so_node_filter := (so_node_filter (ye_options env))
       \<lparr>nf_banned := Some (merge_banned (nf_banned (so_node_filter (ye_options env))) (sort (butlast root_path)))\<rparr>,
     so_edge_filter := Some (merge_banned (so_edge_filter (ye_options env)) (yen_banned_edges root_path (ys_result st)))\<rparr>"
  define bearings where "bearings = (if 0 \<le> ys_spur_bearing_vertex st
      then (ys_spur_source_bearing st)[nat (ys_spur_bearing_vertex st) := no_bearing]
      else ys_spur_source_bearing st)[nat spur_node := (if i = 0 then ye_source_bearing env ! nat spur_node
        else bearing_to (coord_of (ye_graph env) (prev ! (i - 1))) (coord_of (ye_graph env) spur_node))]"
  define seed where "seed = (if ends then (ye_goal_seed env)[nat spur_node := - 1] else ye_goal_seed env)"
  define spur_env where "spur_env = \<lparr>en_graph = ye_graph env, en_goal_seed = seed, en_source_bearing = bearings,
      en_goal_bearing = ye_goal_bearing env, en_options = opts\<rparr>"
  define src where "src = [\<lparr>se_vertex = spur_node, se_cost = 0, se_bearing = no_bearing\<rparr>]"
  have st_seed: "ys_spur_goal_seed st = ye_goal_seed env" using inv by (simp add: yen_inv_def)
  show ?thesis
  proof (cases "ends \<and> 0 \<le> ye_goal_seed env ! nat spur_node \<and> ye_goal_count env < 2")
    case True
    then have "node_spur env prev i st = Some st"
      by (simp add: node_spur_def Let_def ends_def root_path_def spur_node_def)
    moreover have "yen_inv env goals b st" using inv by (simp add: yen_inv_def)
    ultimately show ?thesis by simp
  next
    case False
    have g: "graph_ok (en_graph spur_env)" and ws: "ws_ok (ys_ws st)"
      and gen: "unat (ws_generation (ys_ws st)) + Suc b < 2 ^ 32" and mh: "heuristic_ok (en_graph spur_env) goals (ys_mh st)"
      using ok inv by (simp_all add: yen_env_ok_def yen_inv_def spur_env_def)
    from find_shortest_path_in_result [OF g ws unwrapped_budget(1) [OF gen] mh, of src]
    obtain r mh' ws' where f: "find_shortest_path_in spur_env src (ys_mh st) (ys_ws st) = Some (r, mh', ws')"
      and r: "result_ok spur_env src r" and o: "ws_ok ws'" "heuristic_ok (en_graph spur_env) goals mh'"
      and gen': "ws_generation ws' = (if src = [] then ws_generation (ys_ws st) else ws_generation (ys_ws st) + 1)"
      by metis
    define st1 where "st1 = st\<lparr>ys_spur_source_bearing := bearings, ys_spur_bearing_vertex := spur_node,
        ys_spur_goal_seed := seed[nat spur_node := ye_goal_seed env ! nat spur_node],
        ys_mh := mh', ys_ws := ws'\<rparr>"
    have "node_spur env prev i st =
        (if ends \<and> 0 \<le> ye_goal_seed env ! nat spur_node \<and> ye_goal_count env < 2 then Some st
         else case find_shortest_path_in spur_env src (ys_mh st) (ys_ws st) of
             None \<Rightarrow> None
           | Some (spur, mh, ws) \<Rightarrow>
               Some (add_candidate env root_path spur (int i)
                 (st\<lparr>ys_spur_source_bearing := bearings, ys_spur_bearing_vertex := spur_node,
                    ys_spur_goal_seed := seed[nat spur_node := ye_goal_seed env ! nat spur_node],
                    ys_mh := mh, ys_ws := ws\<rparr>)))"
      unfolding node_spur_def Let_def spur_env_def src_def opts_def seed_def bearings_def ends_def
        root_path_def spur_node_def st_seed by (rule refl)
    then have step: "node_spur env prev i st = Some (add_candidate env root_path r (int i) st1)"
      using f False by (simp add: st1_def)
    have "unat (ws_generation ws') = Suc (unat (ws_generation (ys_ws st)))"
      using gen' unwrapped_budget(2) [OF gen] by (simp add: src_def)
    moreover have "seed[nat spur_node := ye_goal_seed env ! nat spur_node] = ye_goal_seed env"
      by (simp add: seed_def)
    ultimately have inv1: "yen_inv env goals b st1"
      using inv o gen by (simp add: yen_inv_def st1_def spur_env_def)
    have filt: "filters_ok (ye_options env)" using ok by (simp add: yen_env_ok_def)
    have nb: "node_blocks (so_node_filter opts) v \<longleftrightarrow>
        node_blocks (so_node_filter (ye_options env)) v \<or> v \<in> set (butlast root_path)" for v
      using node_blocks_merge [of "so_node_filter (ye_options env)" "sort (butlast root_path)" v] filt
      by (simp add: opts_def filters_ok_def)
    have eb: "edge_key u v \<in> set (yen_banned_edges root_path (ys_result st)) \<Longrightarrow>
        edge_blocks (so_edge_filter opts) u v" for u v
      using edge_blocks_merge [of "so_edge_filter (ye_options env)"] filt
      by (simp add: opts_def filters_ok_def)
    have root_sub: "set (butlast root_path) \<subseteq> set prev" "distinct (butlast root_path)"
      using prev by (auto simp: root_path_def loopless_route_def distinct_butlast dest!: in_set_butlastD in_set_takeD)
    have new: "distinct (butlast root_path @ sp_vertices r) \<and>
        (\<forall>v \<in> set (butlast root_path @ sp_vertices r). is_vertex (ye_graph env) v \<and>
           \<not> node_blocks (so_node_filter (ye_options env)) v) \<and>
        butlast root_path @ sp_vertices r \<notin> sp_vertices ` set (ys_result st1)"
      if "sp_found r"
    proof -
      note p = result_ok_path [OF r that]
      have ub: "\<not> node_blocks (so_node_filter (ye_options env)) v" "v \<notin> set (butlast root_path)"
        if "v \<in> set (sp_vertices r)" for v
        using p(4) [OF that] nb by (simp_all add: spur_env_def)
      have hd: "hd (sp_vertices r) = prev ! i" using p(6) by (simp add: src_def spur_node_def)
      have "butlast root_path @ sp_vertices r \<notin> sp_vertices ` set (ys_result st)"
      proof (rule node_spur_fresh [OF root_path_def i p(1) hd])
        assume "ends_at_spur root_path (ys_result st)"
        then have "ends" by (simp add: ends_def)
        have len: "nat spur_node < length (ye_goal_seed env)"
        proof -
          have "is_vertex (ye_graph env) spur_node"
            using prev i nth_mem [OF i] unfolding loopless_route_def spur_node_def by blast
          then show ?thesis using ok by (auto simp: yen_env_ok_def is_vertex_def vertex_count_def)
        qed
        show "sp_vertices r \<noteq> [prev ! i]"
        proof
          assume "sp_vertices r = [prev ! i]"
          then have "0 \<le> seed ! nat spur_node"
            using p(5) by (simp add: is_goal_def spur_env_def spur_node_def)
          then show False using \<open>ends\<close> len by (simp add: seed_def)
        qed
      next
        fix u v assume uv: "Suc 0 < length (sp_vertices r)" "u = sp_vertices r ! 0" "v = sp_vertices r ! 1"
        then have "hop spur_env u v \<noteq> None" using p(7) [of 0] by simp
        then have "\<not> edge_blocks (so_edge_filter opts) u v"
          using hop_select(2) [of spur_env u v] by (auto simp: spur_env_def)
        then show "edge_key u v \<notin> set (yen_banned_edges root_path (ys_result st))" using eb by blast
      qed
      then show ?thesis
        using p(1,2,3) ub root_sub prev by (auto simp: st1_def loopless_route_def spur_env_def)
    qed
    have "- 1 \<le> int i" by simp
    from add_candidate_inv [OF inv1 this, of r root_path, OF new] step show ?thesis
      by (auto simp: st1_def)
  qed
qed

section \<open>All rounds\<close>

lemma spur_all_inv:
  assumes ok: "yen_env_ok env" and prev: "loopless_route env prev"
  shows "yen_inv env goals (length is + b) st \<Longrightarrow> \<forall>i \<in> set is. i < int (length prev) \<Longrightarrow>
    \<exists>st'. spur_all is env prev st = Some st' \<and> yen_inv env goals b st' \<and> ys_result st' = ys_result st"
proof (induction "is" arbitrary: st)
  case (Cons i "is")
  have inv: "yen_inv env goals (Suc (length is + b)) st" using Cons.prems(1) by simp
  have "\<exists>st'. spur_at env prev i st = Some st' \<and> yen_inv env goals (length is + b) st' \<and> ys_result st' = ys_result st"
  proof (cases "i < 0")
    case True
    then show ?thesis using source_spur_inv [OF ok inv] by (simp add: spur_at_def)
  next
    case False
    then have "nat i < length prev" using Cons.prems(2) by auto
    from node_spur_inv [OF ok inv prev this] False show ?thesis by (simp add: spur_at_def)
  qed
  then obtain st' where "spur_at env prev i st = Some st'" "yen_inv env goals (length is + b) st'"
    "ys_result st' = ys_result st" by blast
  moreover from Cons.IH [OF this(2)] Cons.prems(2)
  obtain st2 where "spur_all is env prev st' = Some st2" "yen_inv env goals b st2" "ys_result st2 = ys_result st'"
    by auto
  ultimately show ?case by simp
qed simp

lemma candidate_fresh_vertices:
  assumes inv: "yen_inv env goals b st" and c: "ys_candidates st = best # others"
  shows "yen_inv env goals b (accept_best best others st)"
proof -
  have rt: "\<forall>x \<in> set (best # others). candidate_route env x" and s: "sorted_wrt candidate_less (best # others)"
    and dj: "cd_vertices ` set (best # others) \<inter> sp_vertices ` set (ys_result st) = {}"
    using inv c by (simp_all add: yen_inv_def)
  have "distinct (map cd_vertices (best # others))"
    by (rule candidates_distinct [OF s, where f = "fst \<circ> the \<circ> recost env"])
      (use rt in \<open>auto simp: candidate_route_def\<close>)
  then have d: "cd_vertices best \<notin> cd_vertices ` set others" by simp
  have "result_route env \<lparr>sp_vertices = cd_vertices best, sp_distance_nm = cd_distance best,
      sp_cost = Fin (cd_cost best), sp_found = True\<rparr>"
    using rt by (simp add: candidate_route_def result_route_def)
  moreover have "- 1 \<le> cd_deviation best" using rt by (simp add: candidate_route_def)
  moreover have "cd_vertices best \<notin> sp_vertices ` set (ys_result st)" using dj by auto
  ultimately show ?thesis using inv c d dj s unfolding yen_inv_def accept_best_def by auto
qed

lemma yen_rounds_inv:
  assumes ok: "yen_env_ok env" and n: "length (ng_coords (ye_graph env)) = n"
  shows "yen_inv env goals (rounds * Suc n) st \<Longrightarrow>
    \<exists>st'. yen_rounds rounds env st = Some st' \<and> yen_inv env goals 0 st' \<and>
      length (ys_result st') \<le> length (ys_result st) + rounds \<and>
      take (length (ys_result st)) (ys_result st') = ys_result st"
proof (induction rounds arbitrary: st)
  case 0
  then show ?case by simp
next
  case (Suc rounds)
  let ?prev = "sp_vertices (last (ys_result st))"
  let ?is = "[ys_last_deviation st .. int (length ?prev) - 1]"
  have ne: "ys_result st \<noteq> []" using Suc.prems by (simp add: yen_inv_def)
  then have prev: "loopless_route env ?prev"
    using Suc.prems by (simp add: yen_inv_def result_route_def)
  have "inj_on nat (set ?prev)"
  proof (rule inj_onI)
    fix x y assume "x \<in> set ?prev" "y \<in> set ?prev" "nat x = nat y"
    moreover from this have "0 \<le> x" "0 \<le> y" using prev by (simp_all add: loopless_route_def is_vertex_def)
    ultimately show "x = y" by simp
  qed
  then have "length ?prev = card (nat ` set ?prev)"
    using prev by (simp add: card_image loopless_route_def distinct_card)
  also have "\<dots> \<le> card {..<n}"
    by (rule card_mono) (use prev n in \<open>auto simp: loopless_route_def is_vertex_def vertex_count_def\<close>)
  finally have len: "length ?prev \<le> n" by simp
  have dev: "- 1 \<le> ys_last_deviation st" using Suc.prems by (simp add: yen_inv_def)
  have "length ?is \<le> Suc n" using len dev by simp
  then have budget: "yen_inv env goals (length ?is + rounds * Suc n) st"
    using Suc.prems by (auto simp: yen_inv_def)
  from spur_all_inv [OF ok prev budget]
  obtain st1 where s1: "spur_all ?is env ?prev st = Some st1" "yen_inv env goals (rounds * Suc n) st1"
    "ys_result st1 = ys_result st"
    by auto
  show ?case
  proof (cases "ys_candidates st1")
    case Nil
    then have "yen_rounds (Suc rounds) env st = Some st1" using s1(1) by (simp add: Let_def)
    moreover have "yen_inv env goals 0 st1" using s1(2) by (simp add: yen_inv_def)
    ultimately show ?thesis using s1(3) by simp
  next
    case (Cons best others)
    let ?st2 = "accept_best best others st1"
    have "yen_inv env goals (rounds * Suc n) ?st2" by (rule candidate_fresh_vertices [OF s1(2) Cons])
    from Suc.IH [OF this] obtain st' where st': "yen_rounds rounds env ?st2 = Some st'" "yen_inv env goals 0 st'"
      "length (ys_result st') \<le> length (ys_result ?st2) + rounds"
      "take (length (ys_result ?st2)) (ys_result st') = ys_result ?st2" by blast
    have r2: "ys_result ?st2 = ys_result st @ [last (ys_result ?st2)]" using s1(3) by (simp add: accept_best_def)
    have "take (length (ys_result st)) (ys_result st') = ys_result st"
      using arg_cong [OF st'(4), of "take (length (ys_result st))"] r2
      by (metis append_eq_conv_conj min.absorb_iff1 take_take length_append le_add1)
    moreover have "yen_rounds (Suc rounds) env st = Some st'" using s1(1) Cons st'(1) by (simp add: Let_def)
    moreover have "length (ys_result ?st2) = Suc (length (ys_result st))" by (subst r2) simp
    ultimately show ?thesis using st' by auto
  qed
qed

section \<open>The result of Yen's search\<close>

lemma yen_env_of_ok:
  assumes "graph_ok graph" "filters_ok options"
  shows "yen_env_ok (yen_env_of graph sources goals options)"
  using assms by (simp add: yen_env_ok_def yen_env_of_def Let_def vertex_count_def)

text \<open>\<open>k - 1\<close> rounds of at most one search per vertex and one from the super-source must fit 32 bits.\<close>

definition search_count_fits :: "nav_graph \<Rightarrow> int \<Rightarrow> bool" where
  "search_count_fits graph k \<longleftrightarrow> nat (k - 1) * Suc (length (ng_coords graph)) + 1 < 2 ^ 32"

lemma find_k_result:
  assumes g: "graph_ok graph" and f: "filters_ok options" and s: "seeds_ok sources"
    and fits: "search_count_fits graph k"
  shows "\<exists>rs. find_k_shortest_paths_multi graph sources goals k options = Some rs \<and>
    length rs \<le> nat k \<and> distinct (map sp_vertices rs) \<and>
    (\<forall>r \<in> set rs. result_route (yen_env_of graph sources goals options) r) \<and>
    (rs \<noteq> [] \<longrightarrow> find_shortest_path_multi graph sources goals options = Some (hd rs)) \<and>
    (0 < k \<longrightarrow> goals \<noteq> [] \<longrightarrow> rs = [] \<longrightarrow>
      (\<exists>r. find_shortest_path_multi graph sources goals options = Some r \<and> \<not> sp_found r))"
proof (cases "k \<le> 0 \<or> sources = [] \<or> goals = []")
  case True
  then show ?thesis
    by (auto simp: find_k_shortest_paths_multi_def find_shortest_path_multi_def find_shortest_path_in_def
        shortest_path_default_def)
next
  case False
  let ?env = "yen_env_of graph sources goals options" and ?se = "search_env_of graph sources goals options"
  have se: "en_graph ?se = graph" by (simp add: search_env_of_def Let_def)
  have uw: "ws_unwrapped search_workspace_default" "ws_ok search_workspace_default" by simp_all
  from find_shortest_path_in_result [of ?se search_workspace_default goals "multi_goal_heuristic_new graph goals" sources]
  obtain first mh ws where first: "find_shortest_path_in ?se sources (multi_goal_heuristic_new graph goals)
      search_workspace_default = Some (first, mh, ws)"
    and r: "result_ok ?se sources first" and o: "ws_ok ws" "heuristic_ok graph goals mh"
    and gen: "ws_generation ws = (if sources = [] then ws_generation search_workspace_default
      else ws_generation search_workspace_default + 1)"
    using g se heuristic_new_ok uw by metis
  have one: "find_shortest_path_multi graph sources goals options = Some first"
    using first by (simp add: find_shortest_path_multi_def)
  show ?thesis
  proof (cases "sp_found first")
    case nf: False
    then show ?thesis using first one False by (simp add: find_k_shortest_paths_multi_def Let_def)
  next
    case True
    let ?st = "\<lparr>ys_result = [first], ys_candidates = [], ys_last_deviation = - 1,
        ys_spur_source_bearing = replicate (nat (vertex_count graph)) no_bearing,
        ys_spur_bearing_vertex = no_vertex, ys_spur_goal_seed = ye_goal_seed ?env,
        ys_mh = mh, ys_ws = ws\<rparr>"
    from r True obtain cost where c: "sp_cost first = Fin cost"
      "route_costs ?se sources (sp_vertices first) cost (sp_distance_nm first)"
      by (auto simp: result_ok_def)
    note p = result_ok_path [OF r True]
    have v: "\<forall>v \<in> set (sp_vertices first). is_vertex graph v" using p(3) se by simp
    have "recost ?env (sp_vertices first) = Some (cost, sp_distance_nm first)"
      using route_recost [OF c(2) v s] by (simp add: recost_def yen_env_of_def Let_def)
    then have "result_route ?env first"
      using True c p v by (simp add: result_route_def loopless_route_def yen_env_of_def search_env_of_def Let_def)
    moreover have "unat (ws_generation ws) = 1" using gen False by (simp add: search_workspace_default_def)
    ultimately have inv: "yen_inv ?env goals (nat (k - 1) * Suc (length (ng_coords graph))) ?st"
      using o fits by (simp add: yen_inv_def search_count_fits_def yen_env_of_def Let_def)
    from yen_rounds_inv [OF yen_env_of_ok [OF g f] _ inv]
    obtain st' where st': "yen_rounds (nat (k - 1)) ?env ?st = Some st'" "yen_inv ?env goals 0 st'"
      "length (ys_result st') \<le> 1 + nat (k - 1)" "take 1 (ys_result st') = [first]"
      by (auto simp: yen_env_of_def Let_def)
    have res: "find_k_shortest_paths_multi graph sources goals k options = Some (ys_result st')"
      using False True first st'(1) by (simp add: find_k_shortest_paths_multi_def Let_def)
    have "hd (ys_result st') = first" "ys_result st' \<noteq> []"
      using st'(4) by (cases "ys_result st'"; simp)+
    moreover have "length (ys_result st') \<le> nat k" using st'(3) False by linarith
    ultimately show ?thesis using res st'(2) one by (simp add: yen_inv_def)
  qed
qed

end
