(* ===== verification/WorkspaceReuse.thy ===== *)
theory WorkspaceReuse
  imports SearchResult
begin

text \<open>
  Sharing one workspace and one memoized heuristic between searches (\<^verbatim>\<open>core/graph/astar.h\<close>): two
  searches that start from any two workspaces and any two coherent heuristics run in lockstep, so
  what earlier searches left behind cannot change a result.
\<close>

section \<open>States that read the same\<close>

definition same_view :: "search_env \<Rightarrow> seeded_endpoint list \<Rightarrow>
   search_workspace \<times> multi_goal_heuristic \<Rightarrow> search_workspace \<times> multi_goal_heuristic \<Rightarrow> bool" where
  "same_view env goals wm wm' \<longleftrightarrow>
     good_state env goals (fst wm) (snd wm) \<and> good_state env goals (fst wm') (snd wm') \<and>
     ws_heap (fst wm) = ws_heap (fst wm') \<and>
     (\<forall>v. vertex env v \<longrightarrow> label (fst wm) v = label (fst wm') v \<and> Closed (fst wm) v = Closed (fst wm') v)"

lemma same_viewD:
  assumes "same_view env goals (ws, mh) (ws', mh')"
  shows "vertex env v \<Longrightarrow> G ws v = G ws' v" "vertex env v \<Longrightarrow> Geo ws v = Geo ws' v"
    "vertex env v \<Longrightarrow> Prev ws v = Prev ws' v" "vertex env v \<Longrightarrow> Inbound ws v = Inbound ws' v"
    "vertex env v \<Longrightarrow> Closed ws v = Closed ws' v" "ws_heap ws = ws_heap ws'"
    "good_state env goals ws mh" "good_state env goals ws' mh'"
  using assms by (auto simp: same_view_def label_eq_iff)

text \<open>Relaxing a vertex in both and pushing it with the same label keeps them alike.\<close>

lemma same_view_relax:
  assumes s: "same_view env goals (ws, mh) (ws', mh')" and v: "vertex env v"
  shows "same_view env goals
    (push_open (g + fst (heuristic_call mh v)) v (relax v g geo p inb ws), snd (heuristic_call mh v))
    (push_open (g + fst (heuristic_call mh' v)) v (relax v g geo p inb ws'), snd (heuristic_call mh' v))"
proof -
  have good: "ws_ready (vertex_count (en_graph env)) ws" "is_heap (ws_heap ws)"
    "ws_ready (vertex_count (en_graph env)) ws'" "is_heap (ws_heap ws')"
    and mh: "heuristic_ok (en_graph env) goals mh" "heuristic_ok (en_graph env) goals mh'"
    using s by (auto simp: same_view_def good_state_def)
  have vb: "0 \<le> v" "v < vertex_count (en_graph env)" using v by (simp_all add: is_vertex_def)
  note h = heuristic_call_pure [OF mh(1) v] heuristic_call_pure [OF mh(2) v]
  have "label (relax v g geo p inb ws) u = label (relax v g geo p inb ws') u \<and>
      Closed (relax v g geo p inb ws) u = Closed (relax v g geo p inb ws') u" if "vertex env u" for u
    using s that label_relax [OF good(1) vb, of u] label_relax [OF good(3) vb, of u]
    by (simp add: same_view_def is_vertex_def labels.rel_closed)
  then show ?thesis
    using s h heap.ok_push [OF good(2)] labels.ready_rel [OF good(1) vb] labels.ready_rel [OF good(3) vb]
    by (simp add: same_view_def good_state_def)
qed

lemma same_view_relax_edge:
  assumes s: "same_view env goals wm wm'" and u: "vertex env u" and e: "vertex env (edge_to e)"
  shows "same_view env goals (relax_edge env u inb wm e) (relax_edge env u inb wm' e)"
proof -
  obtain ws mh ws' mh' where wm: "wm = (ws, mh)" "wm' = (ws', mh')" by fastforce
  note sv = same_viewD [OF s [unfolded wm]]
  let ?t = "\<lambda>x. G ws' u + Fin (ge_distance_nm e + x +
    turn_cost (en_options env) inb (out_bearing (en_graph env) (en_options env) u (edge_to e)))"
  show ?thesis
    using same_view_relax [OF s [unfolded wm] e] s sv(1,2) [OF u] sv(1,5) [OF e]
    unfolding relax_edge_def wm Let_def
    by (auto split: option.split prod.splits) 
qed

lemma same_view_expand:
  assumes s: "same_view env goals wm wm'" and u: "vertex env u" and g: "graph_ok (en_graph env)"
  shows "same_view env goals (expand env u wm) (expand env u wm')"
proof -
  have fold: "same_view env goals (foldl (relax_edge env u inb) wm es) (foldl (relax_edge env u inb) wm' es)"
    if "same_view env goals wm wm'" "\<forall>e \<in> set es. vertex env (edge_to e)" for es inb wm wm'
    using that by (induction es arbitrary: wm wm') (simp_all add: same_view_relax_edge u)
  have "Inbound (fst wm) u = Inbound (fst wm') u"
    using same_viewD(4) [of env goals "fst wm" "snd wm" "fst wm'" "snd wm'"] s u by simp
  then show ?thesis
    unfolding expand_def Let_def using fold [OF s] out_edges_vertex [OF g] by simp
qed

lemma same_view_seed:
  assumes s: "same_view env goals wm wm'"
  shows "same_view env goals (seed_source env wm x) (seed_source env wm' x)"
proof -
  obtain ws mh ws' mh' where wm: "wm = (ws, mh)" "wm' = (ws', mh')" by fastforce
  show ?thesis
  proof (cases "vertex env (se_vertex x)")
    case True
    note sv = same_viewD [OF s [unfolded wm]]
    show ?thesis
      using same_view_relax [OF s [unfolded wm] True] s sv(1) [OF True] True
      unfolding seed_source_def wm Let_def
      by (auto simp: is_vertex_def split: prod.splits)
  next
    case False
    then show ?thesis using s by (auto simp: seed_source_def Let_def is_vertex_def wm)
  qed
qed

lemma same_view_start:
  assumes "ws_ok ws" "ws_unwrapped ws" "heuristic_ok (en_graph env) goals mh"
    and "ws_ok ws'" "ws_unwrapped ws'" "heuristic_ok (en_graph env) goals mh'"
  shows "same_view env goals
    (st_ws (start_state env sources mh ws), st_mh (start_state env sources mh ws))
    (st_ws (start_state env sources mh' ws'), st_mh (start_state env sources mh' ws'))"
proof -
  let ?n = "vertex_count (en_graph env)"
  let ?w = "\<lambda>ws. (next_generation (ws_reset ?n ws))\<lparr>ws_heap := []\<rparr>"
  have "same_view env goals (?w ws, mh) (?w ws', mh')"
    using begin_search [OF assms(1,2)] begin_search [OF assms(4,5)] begin_search_views [OF assms(1,2)]
      begin_search_views [OF assms(4,5)] assms(3,6) heap.ok_empty
    by (simp add: same_view_def good_state_def label_def is_vertex_def)
  moreover have "same_view env goals (foldl (seed_source env) wm ss) (foldl (seed_source env) wm' ss)"
    if "same_view env goals wm wm'" for wm wm' ss
    using that by (induction ss arbitrary: wm wm') (simp_all add: same_view_seed)
  ultimately have "same_view env goals (foldl (seed_source env) (?w ws, mh) sources)
      (foldl (seed_source env) (?w ws', mh') sources)" by blast
  then show ?thesis by (auto simp: start_state_def Let_def split: prod.splits)
qed

section \<open>The loops run in lockstep\<close>

definition same_state :: "search_env \<Rightarrow> seeded_endpoint list \<Rightarrow> search_state \<Rightarrow> search_state \<Rightarrow> bool" where
  "same_state env goals s s' \<longleftrightarrow>
     same_view env goals (st_ws s, st_mh s) (st_ws s', st_mh s') \<and>
     st_best_total s = st_best_total s' \<and> st_best_goal s = st_best_goal s'"

lemma same_view_heap:
  assumes "same_view env goals (ws, mh) (ws', mh')" "is_heap h"
  shows "same_view env goals (ws\<lparr>ws_heap := h\<rparr>, mh) (ws'\<lparr>ws_heap := h\<rparr>, mh')"
  using assms by (simp add: same_view_def good_state_def)

lemma same_view_close:
  assumes s: "same_view env goals (ws, mh) (ws', mh')" and v: "vertex env v"
  shows "same_view env goals (mark_closed v ws, mh) (mark_closed v ws', mh')"
proof -
  have r: "ws_ready (vertex_count (en_graph env)) ws" "ws_ready (vertex_count (en_graph env)) ws'"
    using s by (simp_all add: same_view_def good_state_def)
  have vb: "0 \<le> v" "v < vertex_count (en_graph env)" using v by (simp_all add: is_vertex_def)
  have "Closed (mark_closed v ws) u = Closed (mark_closed v ws') u" if "vertex env u" for u
    using labels.close_closed [OF r(1) vb, of u] labels.close_closed [OF r(2) vb, of u] that s
    by (simp add: is_vertex_def same_view_def)
  then show ?thesis
    using s labels.ready_close [OF r(1) vb] labels.ready_close [OF r(2) vb]
    by (simp add: same_view_def good_state_def)
qed

lemma same_state_finish:
  assumes s: "same_state env goals s s'" and u: "vertex env u"
  shows "same_state env goals (finish env u s) (finish env u s')"
proof -
  have "finish_total env (st_ws s) u = finish_total env (st_ws s') u"
    using s u by (simp add: same_state_def same_view_def finish_total_def label_eq_iff Let_def)
  then show ?thesis using s by (simp add: same_state_def finish_def Let_def)
qed

lemma search_step_lockstep:
  assumes s: "same_state env goals s s'" and inv: "search_inv env goals sources s" and g: "graph_ok (en_graph env)"
  shows "case search_step env s of
      Done t \<Rightarrow> (\<exists>t'. search_step env s' = Done t' \<and> same_state env goals t t')
    | Again t \<Rightarrow> (\<exists>t'. search_step env s' = Again t' \<and> same_state env goals t t')"
proof (cases "ws_heap (st_ws s) = []")
  case True
  then show ?thesis using s by (simp add: search_step_def same_state_def same_view_def)
next
  case False
  have view: "same_view env goals (st_ws s, st_mh s) (st_ws s', st_mh s')"
    and best: "st_best_total s' = st_best_total s" "st_best_goal s' = st_best_goal s"
    using s by (simp_all add: same_state_def)
  then have heap: "ws_heap (st_ws s') = ws_heap (st_ws s)" by (simp add: same_view_def)
  obtain x rest where pop: "pop_open (ws_heap (st_ws s)) = (x, rest)" by fastforce
  have h: "is_heap (ws_heap (st_ws s))" using inv by (simp add: search_inv_def good_state_def)
  have popped: "is_heap rest" "x \<in> set (ws_heap (st_ws s))"
    using heap.pop_laws [OF h _ pop] False by (auto simp: set_mset_mset [symmetric] simp del: set_mset_mset)
  let ?u = "qn_vertex x" and ?w = "(st_ws s)\<lparr>ws_heap := rest\<rparr>" and ?w' = "(st_ws s')\<lparr>ws_heap := rest\<rparr>"
  have u: "vertex env ?u" using inv popped(2) by (simp add: search_inv_def open_inv_def)
  have v1: "same_view env goals (?w, st_mh s) (?w', st_mh s')" by (rule same_view_heap [OF view popped(1)])
  have cl: "Closed (st_ws s') ?u = Closed (st_ws s) ?u" using view u by (simp add: same_view_def)
  have st: "search_step env s0 = (if Closed (st_ws s) ?u then Again (s0\<lparr>st_ws := w\<rparr>)
      else if st_best_total s \<le> qn_f x then Done (s0\<lparr>st_ws := w\<rparr>)
      else let s1 = finish env ?u (s0\<lparr>st_ws := mark_closed ?u w\<rparr>);
               e = expand env ?u (st_ws s1, st_mh s1)
           in Again (s1\<lparr>st_ws := fst e, st_mh := snd e\<rparr>))"
    if "(s0 = s \<and> w = ?w) \<or> (s0 = s' \<and> w = ?w')" for s0 w
    using that False heap pop cl best by (auto simp: search_step_def Let_def split: prod.split)
  note st = st [OF disjI1, OF conjI, OF refl refl] st [OF disjI2, OF conjI, OF refl refl]
  consider "Closed (st_ws s) ?u" | "\<not> Closed (st_ws s) ?u" "st_best_total s \<le> qn_f x"
    | "\<not> Closed (st_ws s) ?u" "\<not> st_best_total s \<le> qn_f x" by blast
  then show ?thesis
  proof cases
    case 1
    then show ?thesis using st v1 best by (simp add: same_state_def)
  next
    case 2
    then show ?thesis using st v1 best by (simp add: same_state_def)
  next
    case 3
    let ?s1 = "finish env ?u (s\<lparr>st_ws := mark_closed ?u ?w\<rparr>)"
    let ?s1' = "finish env ?u (s'\<lparr>st_ws := mark_closed ?u ?w'\<rparr>)"
    have "same_state env goals (s\<lparr>st_ws := mark_closed ?u ?w\<rparr>) (s'\<lparr>st_ws := mark_closed ?u ?w'\<rparr>)"
      using same_view_close [OF v1 u] best by (simp add: same_state_def)
    then have s1: "same_state env goals ?s1 ?s1'" by (rule same_state_finish [OF _ u])
    then have "same_view env goals (expand env ?u (st_ws ?s1, st_mh ?s1)) (expand env ?u (st_ws ?s1', st_mh ?s1'))"
      by (intro same_view_expand [OF _ u g]) (simp add: same_state_def)
    then show ?thesis using st 3 s1 by (simp add: same_state_def Let_def)
  qed
qed

lemma search_loop_lockstep:
  assumes g: "graph_ok (en_graph env)"
  shows "search_inv env goals sources s \<Longrightarrow> same_state env goals s s' \<Longrightarrow>
    \<exists>t t'. search_loop env s = Some t \<and> search_loop env s' = Some t' \<and> same_state env goals t t'"
proof (induction "work_left env (st_ws s)" arbitrary: s s' rule: less_induct)
  case less
  note lock = search_step_lockstep [OF less.prems(2,1) g] and step = search_step_inv [OF less.prems(1) g]
  show ?case
  proof (cases "search_step env s")
    case (Done t)
    then show ?thesis using lock by (auto simp: search_loop.simps [of env s] search_loop.simps [of env s'])
  next
    case (Again t)
    then obtain t' where "search_step env s' = Again t'" "same_state env goals t t'" using lock by auto
    with less.hyps [of t t'] step Again show ?thesis
      by (simp add: search_loop.simps [of env s] search_loop.simps [of env s'])
  qed
qed

lemma same_view_traced:
  assumes "same_view env goals (ws, mh) (ws', mh')"
  shows "traced env ws p \<Longrightarrow> traced env ws' p"
  by (induction rule: traced.induct)
    (use assms in \<open>auto intro: traced.intros simp: same_view_def label_eq_iff\<close>)

lemma find_shortest_path_in_reuse:
  assumes g: "graph_ok (en_graph env)"
    and a: "ws_ok ws" "ws_unwrapped ws" "heuristic_ok (en_graph env) goals mh"
    and b: "ws_ok ws'" "ws_unwrapped ws'" "heuristic_ok (en_graph env) goals mh'"
  shows "map_option fst (find_shortest_path_in env sources mh ws) =
    map_option fst (find_shortest_path_in env sources mh' ws')"
proof (cases "sources = []")
  case True
  then show ?thesis by (simp add: find_shortest_path_in_def)
next
  case False
  let ?s = "start_state env sources mh ws" and ?s' = "start_state env sources mh' ws'"
  have "same_state env goals ?s ?s'"
    using same_view_start [OF a b] start_state_seeded(6,7) [OF a] start_state_seeded(6,7) [OF b]
    by (simp add: same_state_def)
  from search_loop_lockstep [OF g start_inv [OF a] this] obtain t t' where
    t: "search_loop env ?s = Some t" "search_loop env ?s' = Some t'" and st: "same_state env goals t t'" by blast
  obtain s1 where "search_loop env ?s = Some s1" "finished env goals sources s1"
    using search_loop_returns [OF start_inv [OF a] g] by blast
  with t(1) have f: "finished env goals sources t" by simp
  have view: "same_view env goals (st_ws t, st_mh t) (st_ws t', st_mh t')"
    and best: "st_best_goal t' = st_best_goal t" "st_best_total t' = st_best_total t"
    using st by (simp_all add: same_state_def)
  show ?thesis
  proof (cases "st_best_goal t < 0")
    case True
    then show ?thesis using False t best by (simp add: find_shortest_path_in_def)
  next
    case nn: False
    then have "st_best_goal t \<noteq> no_vertex" by (simp add: no_vertex_def)
    then have bg: "vertex env (st_best_goal t)" "Closed (st_ws t) (st_best_goal t)" "closed_inv env (st_ws t)"
      using f by (auto simp: finished_def best_inv_def is_goal_def labels_inv_def)
    then obtain p where p: "traced env (st_ws t) (st_best_goal t # p)" by (auto simp: closed_inv_def)
    have "trace_back (st_ws t) (st_best_goal t) [] = trace_back (st_ws t') (st_best_goal t) []"
      using trace_back_traced [OF p refl] trace_back_traced [OF same_view_traced [OF view p] refl] by simp
    moreover have "Geo (st_ws t) (st_best_goal t) = Geo (st_ws t') (st_best_goal t)"
      using view bg by (simp add: same_view_def label_eq_iff)
    ultimately show ?thesis using False t best nn by (simp add: find_shortest_path_in_def split: option.split)
  qed
qed

end
