(* ===== verification/RouteSearch.thy ===== *)
theory RouteSearch
  imports YenCorrect WorkspaceReuse
begin

text \<open>
  The guarantees of the route search as its callers see it: \<^verbatim>\<open>FindShortestPathMulti\<close> and
  \<^verbatim>\<open>FindKShortestPathsMulti\<close> over a graph, seeded endpoints and options, with the sample network
  the guarantees are applied to.
\<close>

section \<open>From the options to the search's premises\<close>

lemma is_goal_cheapest:
  assumes "seeds_ok goals" "is_goal (search_env_of graph sources goals options) v"
  obtains b where "cheapest_seed goals v = Some b" "b \<in> set goals" "se_vertex b = v" "is_vertex graph v"
    "en_goal_seed (search_env_of graph sources goals options) ! nat v = se_cost b"
proof -
  have v: "is_vertex graph v" and g: "0 \<le> build_seed_table goals (vertex_count graph) ! nat v"
    using assms(2) by (simp_all add: is_goal_def search_env_of_def Let_def)
  then have "build_seed_table goals (vertex_count graph) ! nat v =
      (case cheapest_seed goals v of None \<Rightarrow> - 1 | Some b \<Rightarrow> se_cost b)"
    using build_seed_table_cheapest [OF assms(1), of v "vertex_count graph"] by (auto simp: is_vertex_def)
  with g obtain b where "cheapest_seed goals v = Some b" "build_seed_table goals (vertex_count graph) ! nat v = se_cost b"
    by (cases "cheapest_seed goals v") auto
  then show ?thesis using that v cheapest_seed_spec [of goals v] by (simp add: search_env_of_def Let_def)
qed

lemma goals_match_of:
  assumes "seeds_ok goals"
  shows "goals_match (search_env_of graph sources goals options) goals"
  unfolding goals_match_def
proof (intro allI impI)
  fix v assume g: "is_goal (search_env_of graph sources goals options) v"
  from is_goal_cheapest [OF assms g] obtain b where b: "b \<in> set goals" "se_vertex b = v" "is_vertex graph v"
    "en_goal_seed (search_env_of graph sources goals options) ! nat v = se_cost b" by blast
  then show "goal_bound (en_graph (search_env_of graph sources goals options)) goals v \<le>
      Fin (en_goal_seed (search_env_of graph sources goals options) ! nat v)"
    using goal_bound_at_goal [of b goals graph] by (simp add: search_env_of_def Let_def)
qed

text \<open>
  What the search relies on for optimality: edges no shorter than their chord (the builder stores
  great-circle lengths), airway ids inside the name table, constraints that only ever add cost.
\<close>

definition edges_metric :: "nat \<Rightarrow> nav_graph \<Rightarrow> bool" where
  "edges_metric names graph \<longleftrightarrow>
     (\<forall>u e. is_vertex graph u \<longrightarrow> e \<in> set (out_edges graph u) \<longrightarrow>
        unat (ge_airway_id e) < names \<and>
        earth_radius_nm * chord (project_unit_sphere (coord_of graph u))
          (project_unit_sphere (coord_of graph (edge_to e))) \<le> ge_distance_nm e)"

definition constraints_sound :: "nat \<Rightarrow> nav_graph \<Rightarrow> search_options \<Rightarrow> bool" where
  "constraints_sound names graph options \<longleftrightarrow>
     (\<forall>c \<in> set (so_constraints options). constraint_sound names (vertex_count graph) c)"

lemma edge_cost_ge:
  assumes g: "graph_ok graph" and m: "edges_metric names graph" and s: "constraints_sound names graph options"
    and u: "is_vertex graph u" and e: "e \<in> set (out_edges graph u)"
    and c: "edge_cost graph options u e = Some c"
  shows "earth_radius_nm * chord (project_unit_sphere (coord_of graph u))
          (project_unit_sphere (coord_of graph (edge_to e))) \<le> c"
proof -
  have d: "unat (ge_airway_id e) < names" "earth_radius_nm * chord (project_unit_sphere (coord_of graph u))
          (project_unit_sphere (coord_of graph (edge_to e))) \<le> ge_distance_nm e"
    using m u e by (auto simp: edges_metric_def)
  have "0 \<le> earth_radius_nm * chord (project_unit_sphere (coord_of graph u))
          (project_unit_sphere (coord_of graph (edge_to e)))"
    by (intro mult_nonneg_nonneg chord_nonneg less_imp_le [OF earth_radius_pos])
  with d have fits: "context_fits names (vertex_count graph)
      \<lparr>ctx_edge = e, ctx_from_coord = coord_of graph u, ctx_to_coord = coord_of graph (edge_to e), ctx_from = u\<rparr>"
    using u out_edges_vertex [OF g e] by (simp add: context_fits_def is_vertex_def)
  obtain x where x: "edge_allowed options e u (coord_of graph u) graph (edge_to e) = Some x"
    "c = ge_distance_nm e + x" using c by (auto simp: edge_cost_def split: option.splits)
  have "0 \<le> x"
  proof (cases "so_constraints options = []")
    case True
    then show ?thesis using x(1) by (simp add: edge_allowed_def)
  next
    case False
    then obtain r where "evaluate_chain (\<lambda>k. evaluate k \<lparr>ctx_edge = e, ctx_from_coord = coord_of graph u,
        ctx_to_coord = coord_of graph (edge_to e), ctx_from = u\<rparr> r) (so_constraints options) 0 = Some x"
      using x(1) by (auto simp: edge_allowed_def split: option.splits)
    then show ?thesis
      by (rule contract.chain_nonneg [rotated 2, OF _]) (use s fits in \<open>auto simp: constraints_sound_def\<close>)
  qed
  with d x(2) show ?thesis by simp
qed

lemma consistent_bound_of:
  assumes "graph_ok graph" "edges_metric names graph" "constraints_sound names graph options"
  shows "consistent_bound (search_env_of graph sources goals options) goals"
  unfolding consistent_bound_def
proof (intro allI impI)
  let ?env = "search_env_of graph sources goals options"
  fix u v e c assume "vertex ?env u" and h: "hop ?env u v = Some (e, c)"
  then have u: "is_vertex graph u" by (simp add: search_env_of_def Let_def)
  have "e \<in> set (out_edges graph u)" "edge_to e = v" "edge_cost graph options u e = Some c"
    using hop_Some(1-3) [OF h] by (simp_all add: search_env_of_def Let_def)
  then have "earth_radius_nm * chord (project_unit_sphere (coord_of graph u))
      (project_unit_sphere (coord_of graph v)) \<le> c" using edge_cost_ge [OF assms u] by blast
  then show "goal_bound (en_graph ?env) goals u \<le> Fin c + goal_bound (en_graph ?env) goals v"
    using goal_bound_consistent by (simp add: search_env_of_def Let_def)
qed

text \<open>The search on a fresh workspace, with everything its result satisfies.\<close>

lemma find_shortest_path_multi_result:
  assumes "graph_ok graph"
  obtains r where "find_shortest_path_multi graph sources goals options = Some r"
    "result_ok (search_env_of graph sources goals options) sources r"
    "seeds_ok goals \<Longrightarrow> sp_found r \<longleftrightarrow>
       (\<exists>v c. reach (search_env_of graph sources goals options) sources v c \<and>
          is_goal (search_env_of graph sources goals options) v)"
proof -
  let ?env = "search_env_of graph sources goals options"
  have g: "graph_ok (en_graph ?env)" and eg: "en_graph ?env = graph"
    using assms by (simp_all add: search_env_of_def Let_def)
  have mh: "heuristic_ok (en_graph ?env) goals (multi_goal_heuristic_new graph goals)"
    unfolding eg by (rule heuristic_new_ok)
  show ?thesis
  proof (rule find_shortest_path_in_result [OF g search_workspace_default_ok mh, of sources])
    fix r mh' ws'
    assume "find_shortest_path_in ?env sources (multi_goal_heuristic_new graph goals) search_workspace_default =
       Some (r, mh', ws')" "result_ok ?env sources r"
      "goals_match ?env goals \<Longrightarrow> sp_found r \<longleftrightarrow> (\<exists>v c. reach ?env sources v c \<and> is_goal ?env v)"
    then show ?thesis using that [of r] goals_match_of by (simp add: find_shortest_path_multi_def)
  qed
qed

lemma find_shortest_path_multi_optimal:
  assumes "graph_ok graph" and "edges_metric names graph" and "constraints_sound names graph options"
    and "seeds_ok goals" and "\<not> tp_enabled (so_turn_penalty options)"
    and "find_shortest_path_multi graph sources goals options = Some r"
    and "reach (search_env_of graph sources goals options) sources v c"
    and "is_goal (search_env_of graph sources goals options) v"
  shows "sp_found r \<and>
    sp_cost r \<le> Fin (c + en_goal_seed (search_env_of graph sources goals options) ! nat v)"
proof -
  let ?env = "search_env_of graph sources goals options"
  have env: "en_graph ?env = graph" "en_options ?env = options" by (simp_all add: search_env_of_def Let_def)
  obtain mh ws where res: "find_shortest_path_in ?env sources (multi_goal_heuristic_new graph goals)
      search_workspace_default = Some (r, mh, ws)"
    using assms(6) by (auto simp: find_shortest_path_multi_def)
  show ?thesis
    by (rule find_shortest_path_in_optimal [OF _ search_workspace_default_ok _ goals_match_of [OF assms(4)]
          consistent_bound_of [OF assms(1-3)] _ res assms(7,8)])
      (simp_all only: env assms(1,5) heuristic_new_ok not_False_eq_True)
qed

section \<open>A sample network\<close>

text \<open>Three vertices; a direct edge from 0 to 2 and a shorter two-edge way through 1.\<close>

definition sample_edge :: "i32 \<Rightarrow> real \<Rightarrow> u16 \<Rightarrow> real graph_edge" where
  "sample_edge to d awy =
     \<lparr>ge_to = to, ge_distance_nm = d, ge_airway_id = awy, ge_base_fl = 0, ge_top_fl = 0, ge_level = LevelHigh\<rparr>"

definition sample_graph :: nav_graph where
  "sample_graph =
     \<lparr>ng_coords = [\<lparr>latitude = 0, longitude = 0\<rparr>, \<lparr>latitude = 0, longitude = 90\<rparr>, \<lparr>latitude = 0, longitude = 180\<rparr>],
      ng_offsets = [0, 2, 3, 3],
      ng_edges = [sample_edge 1 7000 1, sample_edge 2 15000 2, sample_edge 2 7000 1]\<rparr>"

definition sample_sources :: "seeded_endpoint list" where
  "sample_sources = [\<lparr>se_vertex = 0, se_cost = 10, se_bearing = no_bearing\<rparr>]"

definition sample_goals :: "seeded_endpoint list" where
  "sample_goals = [\<lparr>se_vertex = 2, se_cost = 20, se_bearing = no_bearing\<rparr>]"

definition sample_options :: search_options where
  "sample_options = search_options_default
     \<lparr>so_constraints := [LevelPreference (1 / 2)], so_request := Some (route_request_default ''AAAA'' ''BBBB'')\<rparr>"

lemma sample_seeds [simp]: "seeds_ok sample_sources" "seeds_ok sample_goals"
  by (simp_all add: seeds_ok_def sample_sources_def sample_goals_def)

lemma sample_graph_ok [simp]: "graph_ok sample_graph"
  by (simp add: graph_ok_def csr_offsets_ok_def sample_graph_def sample_edge_def edge_to_def vertex_count_def)

lemma sample_filters [simp]: "filters_ok sample_options"
  by (simp add: filters_ok_def sample_options_def search_options_default_def node_filter_default_def)

lemma sample_edge_long:
  "7000 \<le> d \<Longrightarrow> earth_radius_nm * chord (project_unit_sphere p) (project_unit_sphere q) \<le> d"
proof -
  assume "7000 \<le> d"
  have "earth_radius_nm * chord (project_unit_sphere p) (project_unit_sphere q) \<le> earth_radius_nm * 2"
    by (rule mult_left_mono [OF chord_le_2 less_imp_le [OF earth_radius_pos]])
  also have "\<dots> \<le> d" using \<open>7000 \<le> d\<close> by (simp add: earth_radius_nm_def)
  finally show ?thesis .
qed

lemma sample_metric [simp]: "edges_metric 3 sample_graph"
  unfolding edges_metric_def
proof (intro allI impI conjI)
  fix u e assume "e \<in> set (out_edges sample_graph u)"
  then have "e \<in> set (ng_edges sample_graph)" using out_edges_subset by blast
  then have "unat (ge_airway_id e) < 3" "7000 \<le> ge_distance_nm e"
    by (auto simp: sample_graph_def sample_edge_def)
  then show "unat (ge_airway_id e) < 3" "earth_radius_nm * chord (project_unit_sphere (coord_of sample_graph u))
      (project_unit_sphere (coord_of sample_graph (edge_to e))) \<le> ge_distance_nm e"
    by (simp_all add: sample_edge_long)
qed

lemma sample_sound [simp]: "constraints_sound 3 sample_graph sample_options"
  by (simp add: constraints_sound_def sample_options_def search_options_default_def)

abbreviation "sample_env \<equiv> search_env_of sample_graph sample_sources sample_goals sample_options"

lemma sample_env_sel [simp]:
  "en_graph sample_env = sample_graph" "en_options sample_env = sample_options"
  by (simp_all add: search_env_of_def Let_def)

lemma sample_vertices [simp]:
  "is_vertex sample_graph 0" "is_vertex sample_graph 1" "is_vertex sample_graph 2"
  by (simp_all add: is_vertex_def vertex_count_def sample_graph_def)

lemma sample_goal: "is_goal sample_env 2"
  using build_seed_table_cheapest [of sample_goals 2 3]
  by (simp add: is_goal_def search_env_of_def Let_def vertex_count_def sample_graph_def is_vertex_def)
    (simp add: sample_goals_def cheapest_seed_def)

lemma sample_goal_seed: "en_goal_seed sample_env ! 2 = 20"
  using build_seed_table_cheapest [of sample_goals 2 3]
  by (simp add: search_env_of_def Let_def vertex_count_def sample_graph_def)
    (simp add: sample_goals_def cheapest_seed_def)

lemma sample_reach: "reach sample_env sample_sources 2 14010"
proof -
  have filters: "\<not> node_blocks (so_node_filter sample_options) v" "\<not> edge_blocks (so_edge_filter sample_options) u v" for u v
    by (simp_all add: sample_options_def search_options_default_def node_filter_default_def node_blocks_def
        edge_blocks_def no_vertex_def)
  have cost: "edge_cost sample_graph sample_options u (sample_edge to 7000 1) = Some 7000" for u to
    by (simp add: edge_cost_def edge_allowed_def sample_options_def search_options_default_def Let_def
        evaluate_level_preference_def route_request_default_def sample_edge_def)
  define s where "s = hd sample_sources"
  have s: "s \<in> set sample_sources" "se_vertex s = 0" "se_cost s = 10" by (simp_all add: s_def sample_sources_def)
  have r0: "reach sample_env sample_sources 0 10"
    using reach.source [of s sample_sources sample_env] s filters by simp
  have e: "sample_edge 1 7000 1 \<in> set (out_edges sample_graph 0)" "sample_edge 2 7000 1 \<in> set (out_edges sample_graph 1)"
    by (simp_all add: out_edges_def sample_graph_def Let_def)
  have r1: "reach sample_env sample_sources 1 7010"
    using reach.edge [OF r0, of "sample_edge 1 7000 1" 7000] e(1) filters cost
    by (simp add: edge_to_def sample_edge_def)
  show ?thesis
    using reach.edge [OF r1, of "sample_edge 2 7000 1" 7000] e(2) filters cost
    by (simp add: edge_to_def sample_edge_def)
qed

section \<open>A re-costed path is a walk of the search\<close>

lemma cost_step_None [simp]: "foldl (cost_step graph options) None es = None"
  by (induction es) (simp_all add: cost_step_def)

lemma cost_step_SomeE:
  assumes "cost_step graph options (Some (c0, d0, b0)) (u, v) = st" "st \<noteq> None"
  obtains e w b1 where "\<not> edge_blocks (so_edge_filter options) u v"
    "select_edge graph u v options = Some (e, w)" "st = Some (c0 + w, d0 + ge_distance_nm e, b1)"
  using assms by (auto simp: cost_step_def split: if_splits option.splits)

lemma cost_steps_reach:
  assumes "foldl (cost_step (en_graph env) (en_options env)) (Some (c0, d0, b0)) (zip p (tl p)) = Some (c, d, b)"
    and "p \<noteq> []" and "reach env sources (hd p) k"
    and "\<forall>v \<in> set p. \<not> node_blocks (so_node_filter (en_options env)) v"
  shows "reach env sources (last p) (k + (c - c0))"
  using assms
proof (induction p arbitrary: c0 d0 b0 k)
  case (Cons u p)
  show ?case
  proof (cases p)
    case Nil
    then show ?thesis using Cons.prems by simp
  next
    case (Cons v q)
    have zip: "zip (u # p) (tl (u # p)) = (u, v) # zip p (tl p)" using Cons by simp
    let ?st = "cost_step (en_graph env) (en_options env) (Some (c0, d0, b0)) (u, v)"
    have f0: "foldl (cost_step (en_graph env) (en_options env)) ?st (zip p (tl p)) = Some (c, d, b)"
      using Cons.prems(1) unfolding zip by simp
    then have "?st \<noteq> None" by (metis cost_step_None option.distinct(1))
    then obtain e w b1 where e: "\<not> edge_blocks (so_edge_filter (en_options env)) u v"
      "select_edge (en_graph env) u v (en_options env) = Some (e, w)"
      and st: "?st = Some (c0 + w, d0 + ge_distance_nm e, b1)"
      by (rule cost_step_SomeE [OF refl])
    note f = f0 [unfolded st]
    have "reach env sources (edge_to e) (k + w)"
      by (rule reach.edge) (use Cons.prems(3,4) e select_edge_Some(1-3) [OF e(2)] Cons in auto)
    then have "reach env sources (hd p) (k + w)" using select_edge_Some(2) [OF e(2)] Cons by simp
    from Cons.IH [OF f _ this] have "reach env sources (last p) (k + w + (c - (c0 + w)))"
      using Cons.prems(4) Cons by auto
    then show ?thesis using Cons by simp
  qed
qed simp

lemma recost_reach:
  assumes s: "seeds_ok sources" and off: "\<not> tp_enabled (so_turn_penalty options)"
    and v: "loopless_route (yen_env_of graph sources goals options) p"
    and r: "recost (yen_env_of graph sources goals options) p = Some (c, d)"
  shows "\<exists>k. reach (search_env_of graph sources goals options) sources (last p) k \<and>
    is_goal (search_env_of graph sources goals options) (last p) \<and>
    c = k + en_goal_seed (search_env_of graph sources goals options) ! nat (last p)"
proof -
  let ?env = "search_env_of graph sources goals options"
  let ?n = "vertex_count graph"
  have p: "p \<noteq> []" "\<forall>v \<in> set p. is_vertex graph v \<and> \<not> node_blocks (so_node_filter options) v"
    using v by (auto simp: loopless_route_def yen_env_of_def Let_def)
  have ends: "is_vertex graph (hd p)" "is_vertex graph (last p)" using p by auto
  obtain ec ed where
    path: "cost_of_path graph p options (build_bearing_table sources ?n ! nat (hd p))
       (build_bearing_table goals ?n ! nat (last p)) = Some (ec, ed)"
    and seeds: "0 \<le> build_seed_table sources ?n ! nat (hd p)" "0 \<le> build_seed_table goals ?n ! nat (last p)"
    and c: "c = build_seed_table sources ?n ! nat (hd p) + ec + build_seed_table goals ?n ! nat (last p)"
    using r p(1) by (auto simp: recost_def yen_env_of_def cost_of_path_multi_def Let_def split: option.splits if_splits)
  have "build_seed_table sources ?n ! nat (hd p) =
      (case cheapest_seed sources (hd p) of None \<Rightarrow> - 1 | Some b \<Rightarrow> se_cost b)"
    using build_seed_table_cheapest [OF s, of "hd p" ?n] ends by (auto simp: is_vertex_def)
  then obtain b where b: "b \<in> set sources" "se_vertex b = hd p"
    "build_seed_table sources ?n ! nat (hd p) = se_cost b"
    using seeds cheapest_seed_spec [of sources "hd p"] by (cases "cheapest_seed sources (hd p)") auto
  have env: "en_graph ?env = graph" "en_options ?env = options" "en_goal_seed ?env = build_seed_table goals ?n"
    by (simp_all add: search_env_of_def Let_def)
  have start: "reach ?env sources (hd p) (se_cost b)"
    using reach.source [of b sources ?env] b ends p by (simp add: env)
  have "reach ?env sources (last p) (se_cost b + ec)"
  proof (cases "length p < 2")
    case True
    then have "hd p = last p" "ec = 0" using path off p(1) by (cases p; simp add: cost_of_path_def)+
    then show ?thesis using start by simp
  next
    case False
    have "\<not> list_ex (node_blocks (so_node_filter options)) p" using p(2) by (auto simp: list_ex_iff)
    then obtain bs where "foldl (cost_step graph options) (Some (0, 0, [])) (zip p (tl p)) = Some (ec, ed, bs)"
      using path off False by (auto simp: cost_of_path_def Let_def split: option.splits)
    from cost_steps_reach [of ?env, unfolded env, OF this p(1) start] p(2) show ?thesis by simp
  qed
  moreover have "is_goal ?env (last p)" using seeds ends by (simp add: is_goal_def env)
  ultimately show ?thesis using c b(3) env by fastforce
qed

section \<open>Properties\<close>

text \<open>
  C18: The multi-source search always returns, and it reports a path exactly when some walk of allowed
  edges leads from a source to a goal: no route is missed and none is invented, whatever the
  constraints, bans and turn penalties.
\<close>

theorem search_finds_reachable:
  assumes "graph_ok graph" and "seeds_ok goals"
  shows "\<exists>r. find_shortest_path_multi graph sources goals options = Some r \<and>
    (sp_found r \<longleftrightarrow>
      (\<exists>v c. reach (search_env_of graph sources goals options) sources v c \<and>
         is_goal (search_env_of graph sources goals options) v))"
proof (rule find_shortest_path_multi_result [OF assms(1), of sources goals options])
  fix r
  assume "find_shortest_path_multi graph sources goals options = Some r"
    "seeds_ok goals \<Longrightarrow> sp_found r \<longleftrightarrow>
       (\<exists>v c. reach (search_env_of graph sources goals options) sources v c \<and>
          is_goal (search_env_of graph sources goals options) v)"
  then show ?thesis using assms(2) by blast
qed

lemma search_finds_reachable_witness:
  "\<exists>r. find_shortest_path_multi sample_graph sample_sources sample_goals sample_options = Some r \<and> sp_found r"
  using search_finds_reachable [OF sample_graph_ok sample_seeds(2), of sample_sources sample_options]
    sample_reach sample_goal by blast

text \<open>
  C20: A found path is a real route: it starts at a source and ends at a goal, visits no vertex twice
  and none that is filtered, every step has an allowed edge that is not banned, and the reported cost
  and distance are exactly what \<open>CostOfPathMulti\<close> computes for that vertex sequence.
\<close>

theorem search_result_is_route:
  assumes "graph_ok graph" and "seeds_ok sources" and "seeds_ok goals"
    and "find_shortest_path_multi graph sources goals options = Some r" and "sp_found r"
  shows "distinct (sp_vertices r) \<and>
    hd (sp_vertices r) \<in> se_vertex ` set sources \<and> last (sp_vertices r) \<in> se_vertex ` set goals \<and>
    (\<forall>v \<in> set (sp_vertices r). is_vertex graph v \<and> \<not> node_blocks (so_node_filter options) v) \<and>
    (\<forall>i. Suc i < length (sp_vertices r) \<longrightarrow>
       \<not> edge_blocks (so_edge_filter options) (sp_vertices r ! i) (sp_vertices r ! Suc i) \<and>
       select_edge graph (sp_vertices r ! i) (sp_vertices r ! Suc i) options \<noteq> None) \<and>
    (\<exists>cost. sp_cost r = Fin cost \<and>
       cost_of_path_multi graph (sp_vertices r) (build_seed_table sources (vertex_count graph))
         (build_seed_table goals (vertex_count graph)) (build_bearing_table sources (vertex_count graph))
         (build_bearing_table goals (vertex_count graph)) options = Some (cost, sp_distance_nm r))"
proof -
  let ?env = "search_env_of graph sources goals options" and ?p = "sp_vertices r"
  have env: "en_graph ?env = graph" "en_options ?env = options" by (simp_all add: search_env_of_def Let_def)
  have ok: "result_ok ?env sources r"
    using find_shortest_path_multi_result [OF assms(1), of sources goals options] assms(4) by (metis option.inject)
  then obtain cost where c: "sp_cost r = Fin cost" "route_costs ?env sources ?p cost (sp_distance_nm r)"
    "distinct ?p" "\<forall>v \<in> set ?p. is_vertex graph v"
    using assms(5) by (auto simp: result_ok_def env)
  then obtain x where p: "?p \<noteq> []" "is_goal ?env (last ?p)" and a: "arrive ?env sources (rev ?p) = Some x"
    by (auto simp: route_costs_def)
  have "hd ?p \<in> se_vertex ` set sources"
    using arrive_source [OF a] unfolding last_rev by (auto intro: rev_image_eqI)
  moreover have "last ?p \<in> se_vertex ` set goals"
    by (rule is_goal_cheapest [OF assms(3) p(2)]) (auto intro: rev_image_eqI)
  moreover have "\<forall>v \<in> set ?p. \<not> node_blocks (so_node_filter options) v"
    using arrive_unblocked [OF a] by (simp add: env)
  moreover have "\<not> edge_blocks (so_edge_filter options) (?p ! i) (?p ! Suc i) \<and>
      select_edge graph (?p ! i) (?p ! Suc i) options \<noteq> None" if i: "Suc i < length ?p" for i
  proof -
    let ?j = "length ?p - Suc (Suc i)"
    have j: "Suc ?j < length (rev ?p)" "rev ?p ! Suc ?j = ?p ! i" "rev ?p ! ?j = ?p ! Suc i"
      using i by (auto simp: rev_nth intro!: arg_cong [of _ _ "(!) ?p"])
    from arrive_hops [OF a j(1)] show ?thesis
      unfolding j(2,3) by (auto simp: hop_def hop_in_def select_edge_def env split: if_splits)
  qed
  moreover have "cost_of_path_multi graph ?p (build_seed_table sources (vertex_count graph))
      (build_seed_table goals (vertex_count graph)) (build_bearing_table sources (vertex_count graph))
      (build_bearing_table goals (vertex_count graph)) options = Some (cost, sp_distance_nm r)"
    by (rule route_recost [OF c(2,4) assms(2)])
  ultimately show ?thesis using c by blast
qed

lemma search_result_is_route_witness:
  "\<exists>r. find_shortest_path_multi sample_graph sample_sources sample_goals sample_options = Some r \<and>
     distinct (sp_vertices r) \<and> hd (sp_vertices r) = 0 \<and> last (sp_vertices r) = 2"
proof (rule find_shortest_path_multi_result [OF sample_graph_ok, of sample_sources sample_goals sample_options])
  fix r
  assume r: "find_shortest_path_multi sample_graph sample_sources sample_goals sample_options = Some r"
    and "seeds_ok sample_goals \<Longrightarrow> sp_found r \<longleftrightarrow>
      (\<exists>v c. reach sample_env sample_sources v c \<and> is_goal sample_env v)"
  then have "sp_found r" using sample_reach sample_goal sample_seeds by blast
  from search_result_is_route [OF sample_graph_ok sample_seeds r this] r show ?thesis
    by (auto simp: sample_sources_def sample_goals_def)
qed

text \<open>
  C19: Without the turn penalty the search is optimal: over a graph whose edges are at least as long as
  their chord, with constraints that only add cost, the reported cost is at most that of any walk
  of allowed edges from a source to a goal, seeds included.
\<close>

theorem search_optimal:
  assumes "graph_ok graph" and "edges_metric names graph" and "constraints_sound names graph options"
    and "seeds_ok goals" and "\<not> tp_enabled (so_turn_penalty options)"
    and "find_shortest_path_multi graph sources goals options = Some r"
    and "reach (search_env_of graph sources goals options) sources v c"
    and "is_goal (search_env_of graph sources goals options) v"
  shows "sp_found r \<and>
    sp_cost r \<le> Fin (c + en_goal_seed (search_env_of graph sources goals options) ! nat v)"
  by (rule find_shortest_path_multi_optimal [OF assms])

lemma search_optimal_witness:
  "\<exists>r. find_shortest_path_multi sample_graph sample_sources sample_goals sample_options = Some r \<and>
     sp_found r \<and> sp_cost r \<le> Fin 14030"
proof (rule find_shortest_path_multi_result [OF sample_graph_ok, of sample_sources sample_goals sample_options])
  fix r
  assume r: "find_shortest_path_multi sample_graph sample_sources sample_goals sample_options = Some r"
  have off: "\<not> tp_enabled (so_turn_penalty sample_options)"
    by (simp add: sample_options_def search_options_default_def)
  from search_optimal [OF sample_graph_ok sample_metric sample_sound sample_seeds(2) off r sample_reach sample_goal]
  show ?thesis using r sample_goal_seed by simp
qed

text \<open>
  C22: Reusing scratch state is invisible: a search over any dirty workspace and any coherent heuristic
  cache returns exactly what the search over fresh ones returns, so the generation stamp clears all
  it must and Yen's shared tables change no result.
\<close>

theorem search_reuse_invisible:
  assumes "graph_ok graph" and "ws_ok ws" and "ws_unwrapped ws" and "heuristic_ok graph goals mh"
  shows "map_option fst (find_shortest_path_in (search_env_of graph sources goals options) sources mh ws) =
    find_shortest_path_multi graph sources goals options"
proof -
  let ?env = "search_env_of graph sources goals options"
  have env: "en_graph ?env = graph" by (simp add: search_env_of_def Let_def)
  show ?thesis
    unfolding find_shortest_path_multi_def
    by (rule find_shortest_path_in_reuse [where goals = goals, OF _ assms(2,3) _ search_workspace_default_ok])
      (simp_all only: env assms(1,4) heuristic_new_ok)
qed

lemma search_reuse_invisible_witness:
  "map_option fst (find_shortest_path_in sample_env sample_sources
       (snd (heuristic_call (multi_goal_heuristic_new sample_graph sample_goals) 1))
       (mark_closed 1 (next_generation (ws_reset 5 search_workspace_default)))) =
     find_shortest_path_multi sample_graph sample_sources sample_goals sample_options"
proof (rule search_reuse_invisible [OF sample_graph_ok])
  have "ws_ready 5 (mark_closed 1 (next_generation (ws_reset 5 search_workspace_default)))"
    by (rule ws_ready_mark_closed [OF begin_search(1) [OF search_workspace_default_ok]])
  then show "ws_ok (mark_closed 1 (next_generation (ws_reset 5 search_workspace_default)))"
    by (simp add: ws_ready_def)
  show "ws_unwrapped (mark_closed 1 (next_generation (ws_reset 5 search_workspace_default)))"
    by (simp add: ws_unwrapped_def mark_closed_def next_generation_def ws_reset_def search_workspace_default_def)
  show "heuristic_ok sample_graph sample_goals
      (snd (heuristic_call (multi_goal_heuristic_new sample_graph sample_goals) 1))"
    by (rule heuristic_call_pure(2) [OF heuristic_new_ok]) simp
qed

text \<open>
  C21: Yen's search returns, with at most k results: pairwise different, loopless, usable routes, each
  reported with exactly the cost and distance its vertices re-cost to, the first being the plain
  search's result, and an empty list only when that search finds nothing. The one premise on sizes
  keeps the number of spur searches below the 32-bit generation counter's range.
\<close>

theorem k_shortest_routes:
  assumes "graph_ok graph" and "filters_ok options" and "seeds_ok sources" and "search_count_fits graph k"
  shows "\<exists>rs. find_k_shortest_paths_multi graph sources goals k options = Some rs \<and>
    length rs \<le> nat k \<and> distinct (map sp_vertices rs) \<and>
    (\<forall>r \<in> set rs. result_route (yen_env_of graph sources goals options) r) \<and>
    (rs \<noteq> [] \<longrightarrow> find_shortest_path_multi graph sources goals options = Some (hd rs)) \<and>
    (0 < k \<longrightarrow> goals \<noteq> [] \<longrightarrow> rs = [] \<longrightarrow>
      (\<exists>r. find_shortest_path_multi graph sources goals options = Some r \<and> \<not> sp_found r))"
  by (rule find_k_result [OF assms])

lemma k_shortest_routes_witness:
  "\<exists>rs. find_k_shortest_paths_multi sample_graph sample_sources sample_goals 3 sample_options = Some rs \<and>
     length rs \<le> 3 \<and> distinct (map sp_vertices rs)"
proof -
  have "search_count_fits sample_graph 3" by (simp add: search_count_fits_def sample_graph_def)
  from k_shortest_routes [OF sample_graph_ok sample_filters sample_seeds(1) this, of sample_goals]
  show ?thesis by auto
qed

text \<open>
  Without the turn penalty the first of the k routes is the cheapest of them all.
\<close>

theorem k_shortest_first_cheapest:
  assumes "graph_ok graph" and "filters_ok options" and "seeds_ok sources" and "search_count_fits graph k"
    and "edges_metric names graph" and "constraints_sound names graph options"
    and "seeds_ok goals" and "\<not> tp_enabled (so_turn_penalty options)"
    and "find_k_shortest_paths_multi graph sources goals k options = Some rs" and "r \<in> set rs"
  shows "sp_cost (hd rs) \<le> sp_cost r"
proof -
  let ?env = "search_env_of graph sources goals options" and ?yenv = "yen_env_of graph sources goals options"
  from find_k_result [OF assms(1-4), of goals] assms(9,10)
  have first: "find_shortest_path_multi graph sources goals options = Some (hd rs)"
    and route: "result_route ?yenv r" by auto
  then obtain c where c: "sp_cost r = Fin c" "recost ?yenv (sp_vertices r) = Some (c, sp_distance_nm r)"
    "loopless_route ?yenv (sp_vertices r)" by (auto simp: result_route_def)
  from recost_reach [OF assms(3,8) c(3,2)] obtain k where
    "reach ?env sources (last (sp_vertices r)) k" "is_goal ?env (last (sp_vertices r))"
    "c = k + en_goal_seed ?env ! nat (last (sp_vertices r))" by blast
  then have "sp_cost (hd rs) \<le> Fin c"
    using find_shortest_path_multi_optimal [OF assms(1,5,6,7,8) first] by blast
  then show ?thesis by (simp add: c(1))
qed

lemma k_shortest_first_cheapest_witness:
  "\<exists>rs. find_k_shortest_paths_multi sample_graph sample_sources sample_goals 3 sample_options = Some rs \<and>
     (\<forall>r \<in> set rs. sp_cost (hd rs) \<le> sp_cost r)"
proof -
  have fits: "search_count_fits sample_graph 3" by (simp add: search_count_fits_def sample_graph_def)
  have off: "\<not> tp_enabled (so_turn_penalty sample_options)"
    by (simp add: sample_options_def search_options_default_def)
  from find_k_result [OF sample_graph_ok sample_filters sample_seeds(1) fits, of sample_goals]
  obtain rs where rs: "find_k_shortest_paths_multi sample_graph sample_sources sample_goals 3 sample_options = Some rs"
    by blast
  from k_shortest_first_cheapest [OF sample_graph_ok sample_filters sample_seeds(1) fits sample_metric sample_sound
      sample_seeds(2) off rs] rs show ?thesis by blast
qed

end
