(* ===== verification/NavData.thy ===== *)
theory NavData
  imports FixedString MoraGrid NavGraph
begin

text \<open>
  The raw dataset a loader hands to the graph builder: \<^verbatim>\<open>io/loaders/nav_data.h\<close> and the domain
  records it holds (\<^verbatim>\<open>core/domain/waypoint.h\<close>, \<^verbatim>\<open>airport.h\<close>, \<^verbatim>\<open>airway.h\<close>, \<^verbatim>\<open>hold_fix.h\<close>,
  \<^verbatim>\<open>msa.h\<close>, \<^verbatim>\<open>navaid_detail.h\<close>), and the graph snapshot of \<^verbatim>\<open>io/cache/graph_snapshot.h\<close>.
  Records that also travel through the binary cache keep their doubles as a type parameter:
  reals here, bit patterns in the cache.
\<close>

section \<open>Loader records\<close>

record waypoint =
  wp_ident :: ident
  wp_coord :: point
  wp_kind :: waypoint_kind

record airport =
  ap_icao :: string
  ap_icao_code :: string
  ap_coord :: point
  ap_elevation_ft :: i32

record airway_segment =
  as_name :: string
  as_direction :: airway_direction
  as_level :: airway_level
  as_base_fl :: int
  as_top_fl :: int

record airway_connection =
  ac_from :: ident
  ac_to :: ident
  ac_segment :: airway_segment
  ac_from_hint :: "point option"
  ac_to_hint :: "point option"

record 'd hold_fix =
  hf_fix :: ident
  hf_airport_icao :: string
  hf_inbound_course :: 'd
  hf_leg_time_min :: 'd
  hf_leg_dist_nm :: 'd
  hf_turn_dir :: char
  hf_min_alt_ft :: i32
  hf_max_alt_ft :: i32
  hf_speed_limit_kt :: i32

record msa_arc =
  ma_bearing_from :: i32
  ma_alt_100ft :: i32
  ma_radius_nm :: i32

record msa_sector =
  ms_center :: ident
  ms_airport_icao :: string
  ms_arcs :: "msa_arc list"

record 'd navaid_detail =
  nv_ident :: ident
  nv_kind :: waypoint_kind
  nv_elev_ft :: i32
  nv_freq_raw :: i32
  nv_range_nm :: 'd
  nv_heading :: 'd

record nav_data =
  nd_cycle :: u32
  nd_waypoints :: "waypoint list"
  nd_navaid_details :: "real navaid_detail list"
  nd_hold_fixes :: "real hold_fix list"
  nd_airways :: "airway_connection list"
  nd_airports :: "airport list"
  nd_mora :: mora_grid
  nd_msa :: "msa_sector list"

section \<open>The graph snapshot\<close>

text \<open>\<open>'c\<close> is the number type of coordinates (double), \<open>'d\<close> that of edge distances (float).\<close>

record ('c, 'd) graph_snapshot =
  gs_first_airport_vertex :: int
  gs_coords :: "'c coordinate list"
  gs_offsets :: "int list"
  gs_edges :: "'d graph_edge list"
  gs_has_outbound :: "u8 list"
  gs_has_inbound :: "u8 list"
  gs_idents :: "fixed_ident list"
  gs_kinds :: "waypoint_kind list"
  gs_airway_names :: "string list"
  gs_mora :: mora_grid
  gs_msa :: "msa_sector list"
  gs_airport_elevations_ft :: "i32 list"

end
