(* ===== verification/NavIndex.thy ===== *)
theory NavIndex
  imports FixedString "HOL-Library.Product_Lexorder"
begin

text \<open>
  The sorted lookup indices of \<^verbatim>\<open>io/build/graph_builder.cc\<close>: vectors of (key, vertex) pairs,
  sorted by key and then by vertex, searched with \<open>std::lower_bound\<close>. The locale \<open>index_key\<close> is
  the contract of a key type: on well-formed keys its comparison operators are an order on what
  the key views. It is interpreted for \<open>FixedIdent\<close> and \<open>FixedName8\<close>.
\<close>

section \<open>Index operations\<close>

text \<open>The comparator \<open>by_key\<close> of \<open>RebuildIndices\<close>.\<close>

definition by_key :: "('k \<Rightarrow> 'k \<Rightarrow> bool) \<Rightarrow> 'k \<times> int \<Rightarrow> 'k \<times> int \<Rightarrow> bool" where
  "by_key lt a b =
     (if lt (fst a) (fst b) then True else if lt (fst b) (fst a) then False else snd a < snd b)"

text \<open>The entries from the lower bound of a key on, while their key is equal to it.\<close>

definition equal_run :: "('k \<Rightarrow> 'k \<Rightarrow> bool) \<Rightarrow> ('k \<Rightarrow> 'k \<Rightarrow> bool) \<Rightarrow> ('k \<times> int) list \<Rightarrow> 'k \<Rightarrow> ('k \<times> int) list" where
  "equal_run lt eq idx key =
     takeWhile (\<lambda>e. eq (fst e) key) (drop (lower_bound (\<lambda>e. lt (fst e) key) idx) idx)"

text \<open>The vertex of the first entry with the key, or -1.\<close>

definition first_match :: "('k \<Rightarrow> 'k \<Rightarrow> bool) \<Rightarrow> ('k \<Rightarrow> 'k \<Rightarrow> bool) \<Rightarrow> ('k \<times> int) list \<Rightarrow> 'k \<Rightarrow> int" where
  "first_match lt eq idx key =
     (let i = lower_bound (\<lambda>e. lt (fst e) key) idx in
      if i < length idx \<and> eq (fst (idx ! i)) key then snd (idx ! i) else - 1)"

section \<open>Sorting and searching by a key\<close>

lemma sorted_sort_by:
  fixes f :: "'a \<Rightarrow> 'b :: linorder"
  assumes "\<And>x y. x \<in> set xs \<Longrightarrow> y \<in> set xs \<Longrightarrow> lt x y \<longleftrightarrow> f x < f y"
  shows "sorted (map f (sort_by lt xs))"
proof -
  have ins: "sorted (map f (insert_by lt x ys))"
    if "sorted (map f ys)" "\<And>y. y \<in> set ys \<Longrightarrow> lt y x \<longleftrightarrow> f y < f x" for x ys
    using that
  proof (induction ys)
    case (Cons y ys)
    show ?case
    proof (cases "lt y x")
      case True
      then have "f y < f x" using Cons.prems by simp
      then show ?thesis using True Cons by auto
    next
      case False
      then have "f x \<le> f y" using Cons.prems(2) by (simp add: not_less)
      then show ?thesis using False Cons.prems by (auto intro: order_trans)
    qed
  qed simp
  show ?thesis
    using assms
  proof (induction xs)
    case Nil
    then show ?case by (simp add: sort_by_def)
  next
    case (Cons x xs)
    have "sorted (map f (insert_by lt x (sort_by lt xs)))"
      by (rule ins) (use Cons in auto)
    then show ?case by (simp add: sort_by_def)
  qed
qed

locale index_key =
  fixes lt eq :: "'k \<Rightarrow> 'k \<Rightarrow> bool" and wf :: "'k \<Rightarrow> bool" and view :: "'k \<Rightarrow> 'v :: linorder"
  assumes lt_view: "wf a \<Longrightarrow> wf b \<Longrightarrow> lt a b \<longleftrightarrow> view a < view b"
    and eq_view: "wf a \<Longrightarrow> wf b \<Longrightarrow> eq a b \<longleftrightarrow> view a = view b"
begin

lemma by_key_view:
  "wf (fst a) \<Longrightarrow> wf (fst b) \<Longrightarrow> by_key lt a b \<longleftrightarrow> (view (fst a), snd a) < (view (fst b), snd b)"
  by (auto simp: by_key_def lt_view less_prod_def')

lemma sorted_index:
  assumes "\<forall>e \<in> set es. wf (fst e)"
  shows "sorted (map (\<lambda>e. (view (fst e), snd e)) (sort_by (by_key lt) es))"
  by (rule sorted_sort_by) (use assms by_key_view in auto)

lemma sorted_index_keys:
  assumes "sorted (map (\<lambda>e. (view (fst e), snd e)) idx)"
  shows "sorted (map (view \<circ> fst) idx)"
  using assms unfolding sorted_map by (rule sorted_wrt_mono_rel [rotated]) (auto simp: less_eq_prod_def)

text \<open>On a sorted index the lower bound splits it into smaller, equal and greater keys.\<close>

lemma equal_run_filter:
  assumes s: "sorted (map (\<lambda>e. (view (fst e), snd e)) idx)" and w: "\<forall>e \<in> set idx. wf (fst e)" and k: "wf key"
  shows "equal_run lt eq idx key = filter (\<lambda>e. view (fst e) = view key) idx"
proof -
  let ?p = "\<lambda>e. lt (fst e) key"
  have keys: "sorted (map (view \<circ> fst) idx)" by (rule sorted_index_keys [OF s])
  have p: "?p e \<longleftrightarrow> view (fst e) < view key" if "e \<in> set idx" for e using lt_view w k that by auto
  have "partitioned ?p idx"
    unfolding partitioned_def
  proof (intro allI impI)
    fix i j assume ij: "i \<le> j" "j < length idx" "?p (idx ! j)"
    have "view (fst (idx ! i)) \<le> view (fst (idx ! j))"
      using sorted_nth_mono [OF keys ij(1)] ij by simp
    then show "?p (idx ! i)" using p ij by (meson nth_mem order.strict_trans1)
  qed
  then have lb: "lower_bound ?p idx = length (takeWhile ?p idx)" by (rule lower_bound_eq_takeWhile)
  have run: "takeWhile (\<lambda>e. eq (fst e) key) (dropWhile ?p es) = filter (\<lambda>e. view (fst e) = view key) es"
    if "sorted (map (view \<circ> fst) es)" "\<forall>e \<in> set es. wf (fst e)" for es
    using that
  proof (induction es)
    case (Cons e es)
    have tail: "\<And>x. x \<in> set es \<Longrightarrow> view (fst e) \<le> view (fst x)" using Cons.prems(1) by auto
    consider "view (fst e) < view key" | "view (fst e) = view key" | "view key < view (fst e)" by fastforce
    then show ?case
    proof cases
      case 1
      then show ?thesis using Cons lt_view k by auto
    next
      case 2
      have "takeWhile (\<lambda>e. eq (fst e) key) es = takeWhile (\<lambda>e. eq (fst e) key) (dropWhile ?p es)"
      proof (cases es)
        case (Cons x xs)
        then have "view key \<le> view (fst x)" "wf (fst x)" using tail 2 \<open>\<forall>e \<in> set (e # es). wf (fst e)\<close> by auto
        then have "\<not> lt (fst x) key" using lt_view k by (simp add: not_less)
        then show ?thesis using Cons by simp
      qed simp
      then show ?thesis using 2 Cons lt_view eq_view k by auto
    next
      case 3
      have "view key < view (fst x)" if "x \<in> set es" for x
        using 3 tail [OF that] by (rule order.strict_trans2)
      then have "filter (\<lambda>e. view (fst e) = view key) es = []"
        unfolding filter_empty_conv using less_imp_neq by fastforce
      then show ?thesis using 3 lt_view eq_view k Cons.prems(2) by auto
    qed
  qed simp
  show ?thesis
    unfolding equal_run_def lb dropWhile_eq_drop [symmetric] by (rule run [OF keys w])
qed

lemma first_match_hd:
  assumes "sorted (map (\<lambda>e. (view (fst e), snd e)) idx)" "\<forall>e \<in> set idx. wf (fst e)" "wf key"
  shows "first_match lt eq idx key =
    (case filter (\<lambda>e. view (fst e) = view key) idx of [] \<Rightarrow> - 1 | e # es \<Rightarrow> snd e)"
proof -
  let ?i = "lower_bound (\<lambda>e. lt (fst e) key) idx"
  show ?thesis
  proof (cases "?i < length idx")
    case True
    then show ?thesis
      unfolding equal_run_filter [OF assms, symmetric] equal_run_def
      by (simp add: first_match_def Let_def Cons_nth_drop_Suc [symmetric])
  next
    case False
    then show ?thesis
      unfolding equal_run_filter [OF assms, symmetric] equal_run_def by (simp add: first_match_def Let_def)
  qed
qed

text \<open>An index over numbered keys lists the vertices of a key in ascending order.\<close>

lemma index_vertices:
  assumes w: "\<And>v. v \<in> set vs \<Longrightarrow> wf (k v)" and d: "sorted vs" "distinct vs" and key: "wf key"
  shows "map snd (equal_run lt eq (sort_by (by_key lt) (map (\<lambda>v. (k v, v)) vs)) key) =
    filter (\<lambda>v. view (k v) = view key) vs"
proof -
  let ?es = "map (\<lambda>v. (k v, v)) vs"
  let ?idx = "sort_by (by_key lt) ?es"
  let ?run = "filter (\<lambda>e. view (fst e) = view key) ?idx"
  have we: "\<forall>e \<in> set ?es. wf (fst e)" using w by auto
  have s: "sorted (map (\<lambda>e. (view (fst e), snd e)) ?idx)" by (rule sorted_index [OF we])
  have run: "equal_run lt eq ?idx key = ?run" by (rule equal_run_filter [OF s _ key]) (use we in auto)
  have "sorted_wrt (\<lambda>e e'. (view (fst e), snd e) \<le> (view (fst e'), snd e')) ?run"
    using s unfolding sorted_map by (rule sorted_wrt_filter)
  then have "sorted_wrt (\<lambda>e e'. snd e \<le> snd e') ?run"
    by (rule sorted_wrt_mono_rel [rotated]) (auto simp: less_eq_prod_def)
  then have sr: "sorted (map snd ?run)" by (simp add: sorted_map)
  have m: "mset (map snd ?run) = mset (filter (\<lambda>v. view (k v) = view key) vs)"
  proof -
    have "mset (map snd ?run) = image_mset snd (filter_mset (\<lambda>e. view (fst e) = view key) (mset ?es))" by simp
    also have "\<dots> = mset (map snd (filter (\<lambda>e. view (fst e) = view key) ?es))" by simp
    also have "map snd (filter (\<lambda>e. view (fst e) = view key) ?es) = filter (\<lambda>v. view (k v) = view key) vs"
      by (induction vs) auto
    finally show ?thesis .
  qed
  have sf: "sorted (filter (\<lambda>v. view (k v) = view key) vs)"
    using sorted_filter [of "\<lambda>x. x" vs] d(1) by simp
  have "map snd ?run = filter (\<lambda>v. view (k v) = view key) vs"
    by (rule trans [OF properties_for_sort [OF m sr, symmetric] sorted_sort_id [OF sf]])
  then show ?thesis unfolding run .
qed

lemma index_first:
  assumes w: "\<And>v. v \<in> set vs \<Longrightarrow> wf (k v)" and d: "sorted vs" "distinct vs" and key: "wf key"
  shows "first_match lt eq (sort_by (by_key lt) (map (\<lambda>v. (k v, v)) vs)) key =
    (case filter (\<lambda>v. view (k v) = view key) vs of [] \<Rightarrow> - 1 | v # _ \<Rightarrow> v)"
proof -
  let ?idx = "sort_by (by_key lt) (map (\<lambda>v. (k v, v)) vs)"
  have we: "\<forall>e \<in> set (map (\<lambda>v. (k v, v)) vs). wf (fst e)" using w by auto
  have s: "sorted (map (\<lambda>e. (view (fst e), snd e)) ?idx)" by (rule sorted_index [OF we])
  have wi: "\<forall>e \<in> set ?idx. wf (fst e)" using we by simp
  have "first_match lt eq ?idx key =
      (case map snd (filter (\<lambda>e. view (fst e) = view key) ?idx) of [] \<Rightarrow> - 1 | v # _ \<Rightarrow> v)"
    unfolding first_match_hd [OF s wi key] by (simp split: list.split)
  moreover have "map snd (filter (\<lambda>e. view (fst e) = view key) ?idx) = filter (\<lambda>v. view (k v) = view key) vs"
    unfolding equal_run_filter [OF s wi key, symmetric] by (rule index_vertices [OF w d key])
  ultimately show ?thesis by simp
qed

end

section \<open>The two key types\<close>

interpretation ident_key: index_key fixed_ident_less fixed_ident_eq fixed_ident_wf
    "\<lambda>f. (ident_view f, icao_code_view f)"
  by unfold_locales (auto simp: fixed_ident_less_lex fixed_ident_eq_iff less_prod_def')

interpretation name_key: index_key fixed_name_less fixed_name_eq "fixed_name_wf fixed_name8_cap" name_view
  by unfold_locales (auto simp: fixed_name_less_lex fixed_name_eq_iff)

end
