(* ===== verification/Csr.thy ===== *)
theory Csr
  imports Prelude
begin

text \<open>
  Rows flattened into one array with row offsets, as the graph's edge array and the degree grid's
  id array are: row \<open>i\<close> of the flat array is the range between offsets \<open>i\<close> and \<open>i + 1\<close>.
\<close>

primrec csr_starts :: "int \<Rightarrow> 'a list list \<Rightarrow> int list" where
  "csr_starts b [] = []"
| "csr_starts b (xs # xss) = b # csr_starts (b + int (length xs)) xss"

definition csr_offsets :: "int \<Rightarrow> 'a list list \<Rightarrow> int list" where
  "csr_offsets b xss = csr_starts b xss @ [b + int (length (concat xss))]"

lemma csr_offsets_simps [simp]:
  "csr_offsets b [] = [b]"
  "csr_offsets b (xs # xss) = b # csr_offsets (b + int (length xs)) xss"
  by (simp_all add: csr_offsets_def add.assoc)

lemma length_csr_starts [simp]: "length (csr_starts b xss) = length xss"
  by (induction xss arbitrary: b) simp_all

lemma length_csr_offsets [simp]: "length (csr_offsets b xss) = Suc (length xss)"
  by (simp add: csr_offsets_def)

lemma csr_offsets_0 [simp]: "csr_offsets b xss ! 0 = b"
  by (cases xss) simp_all

lemma csr_offsets_last: "csr_offsets b xss ! length xss = b + int (length (concat xss))"
  by (simp add: csr_offsets_def nth_append)

lemma csr_offsets_ge: "x \<in> set (csr_offsets b xss) \<Longrightarrow> b \<le> x"
  by (induction xss arbitrary: b) force+

lemma sorted_csr_offsets: "sorted (csr_offsets b xss)"
  by (induction xss arbitrary: b) (auto dest: csr_offsets_ge)

lemma csr_row:
  assumes "i < length xss" and "b = int (length pre)"
  shows "take (nat (csr_offsets b xss ! Suc i - csr_offsets b xss ! i))
      (drop (nat (csr_offsets b xss ! i)) (pre @ concat xss @ post)) = xss ! i"
  using assms
proof (induction xss arbitrary: i b pre)
  case (Cons xs xss)
  show ?case
  proof (cases i)
    case 0
    then show ?thesis using Cons.prems by (cases xss) auto
  next
    case (Suc j)
    from Cons.IH [of j "b + int (length xs)" "pre @ xs"] show ?thesis
      using Suc Cons.prems by simp
  qed
qed simp

lemma csr_row0:
  "i < length xss \<Longrightarrow> take (nat (csr_offsets 0 xss ! Suc i - csr_offsets 0 xss ! i))
      (drop (nat (csr_offsets 0 xss ! i)) (concat xss)) = xss ! i"
  using csr_row [of i xss 0 "[]" "[]"] by simp

end
