(* ===== verification/DegreeGrid.thy ===== *)
theory DegreeGrid
  imports Geometry Cost Csr "HOL-Library.Product_Lexorder"
begin

text \<open>
  The spatial index of \<^verbatim>\<open>io/build/graph_builder.cc\<close>: \<open>GraphBuilder::DegreeGrid\<close> buckets vertices by
  whole degrees in three flat arrays. The lemmas show that \<open>Near\<close> visits exactly the vertices of
  the cells around a position (wrapping at the antimeridian) and that \<open>OutsideLowerBoundNm\<close>
  is a lower bound on the great-circle distance to everything it does not visit.
\<close>

section \<open>The grid\<close>

definition on_globe :: "point \<Rightarrow> bool" where
  "on_globe c \<longleftrightarrow> \<bar>latitude c\<bar> \<le> degrees_half_circle / 2 \<and> \<bar>longitude c\<bar> \<le> degrees_half_circle"

record degree_grid =
  dg_keys :: "int list"
  dg_starts :: "int list"
  dg_ids :: "int list"

definition cell_key :: "int \<Rightarrow> int \<Rightarrow> int" where
  "cell_key lat lon =
     (let lon = (if 180 \<le> lon then lon - 360 else lon);
          lon = (if lon < - 180 then lon + 360 else lon)
      in (lat + 90) * 1000 + (lon + 180))"

definition key_for_coord :: "point \<Rightarrow> int" where
  "key_for_coord c = cell_key \<lfloor>latitude c\<rfloor> \<lfloor>longitude c\<rfloor>"

text \<open>The grouping loop over the sorted entries: one key and one start per run of equal keys.\<close>

function group_entries :: "(int \<times> int) list \<Rightarrow> degree_grid \<Rightarrow> degree_grid" where
  "group_entries [] grid = grid"
| "group_entries (e # es) grid =
     (let key = fst e; run = e # takeWhile (\<lambda>x. fst x = key) es in
      group_entries (dropWhile (\<lambda>x. fst x = key) es)
        (grid\<lparr>dg_keys := dg_keys grid @ [key],
              dg_starts := dg_starts grid @ [int (length (dg_ids grid))],
              dg_ids := dg_ids grid @ map snd run\<rparr>))"
  by pat_completeness auto
termination
  by (relation "measure (\<lambda>(es, grid). length es)") (auto simp: length_dropWhile_le less_Suc_eq_le)

definition degree_grid_new :: "(int \<times> int) list \<Rightarrow> degree_grid" where
  "degree_grid_new entries =
     (let grid = group_entries (sort entries) \<lparr>dg_keys = [], dg_starts = [], dg_ids = []\<rparr>
      in grid\<lparr>dg_starts := dg_starts grid @ [int (length (dg_ids grid))]\<rparr>)"

text \<open>The ids appended for one cell.\<close>

definition append_cell :: "degree_grid \<Rightarrow> int \<Rightarrow> int list \<Rightarrow> int list" where
  "append_cell grid key out =
     (let i = lower_bound (\<lambda>k. k < key) (dg_keys grid) in
      if i < length (dg_keys grid) \<and> dg_keys grid ! i = key then
        (let b = dg_starts grid ! i; e = dg_starts grid ! Suc i
         in out @ take (nat (e - b)) (drop (nat b) (dg_ids grid)))
      else out)"

definition wrap_lon :: "int \<Rightarrow> int" where
  "wrap_lon lon =
     (let lon = (if lon < - 180 then lon + 360 else lon)
      in if 180 \<le> lon then lon - 360 else lon)"

definition grid_near :: "degree_grid \<Rightarrow> point \<Rightarrow> int \<Rightarrow> int list" where
  "grid_near grid c radius_deg =
     (let lat0 = \<lfloor>latitude c\<rfloor>; lon0 = \<lfloor>longitude c\<rfloor> in
      foldl (\<lambda>out dlat.
          foldl (\<lambda>out dlon. append_cell grid (cell_key (lat0 + dlat) (wrap_lon (lon0 + dlon))) out)
            out [- radius_deg .. radius_deg])
        [] [- radius_deg .. radius_deg])"

definition outside_lower_bound_nm :: "point \<Rightarrow> int \<Rightarrow> cost" where
  "outside_lower_bound_nm c radius_deg =
     (let deg_to_rad = pi / degrees_half_circle; quarter = degrees_half_circle / 2;
          lat0 = real_of_int \<lfloor>latitude c\<rfloor>; lon0 = real_of_int \<lfloor>longitude c\<rfloor>; r = real_of_int radius_deg;
          south = lat0 - r; north = lat0 + r + 1;
          gap0 = Infinity;
          gap1 = (if - quarter < south then min gap0 (Fin ((latitude c - south) * deg_to_rad)) else gap0);
          gap2 = (if north < quarter then min gap1 (Fin ((north - latitude c) * deg_to_rad)) else gap1);
          gap3 = (if 2 * r + 1 < degrees_full_circle then
                    (let dlon = min (min (longitude c - (lon0 - r)) ((lon0 + r + 1) - longitude c)) quarter;
                         s = cos (latitude c * deg_to_rad) * sin (dlon * deg_to_rad)
                     in min gap2 (Fin (arcsin (max 0 (min 1 s)))))
                  else gap2)
      in case gap3 of Infinity \<Rightarrow> Infinity | Fin g \<Rightarrow> Fin (g * earth_radius_nm))"

section \<open>A cell's ids are the entries with its key\<close>

text \<open>The runs of equal keys, as the grouping loop cuts them.\<close>

function key_runs :: "(int \<times> int) list \<Rightarrow> (int \<times> int list) list" where
  "key_runs [] = []"
| "key_runs (e # es) =
     (fst e, snd e # map snd (takeWhile (\<lambda>x. fst x = fst e) es)) #
       key_runs (dropWhile (\<lambda>x. fst x = fst e) es)"
  by pat_completeness auto
termination
  by (relation "measure length") (auto simp: length_dropWhile_le less_Suc_eq_le)

lemma group_entries_runs:
  "group_entries es g = g\<lparr>dg_keys := dg_keys g @ map fst (key_runs es),
     dg_starts := dg_starts g @ csr_starts (int (length (dg_ids g))) (map snd (key_runs es)),
     dg_ids := dg_ids g @ concat (map snd (key_runs es))\<rparr>"
proof (induction es g rule: group_entries.induct)
  case (2 e es g)
  from "2.IH" [OF refl refl] show ?case by (simp add: Let_def algebra_simps)
qed simp

lemma key_runs_keys: "fst ` set (key_runs es) = fst ` set es"
proof (induction es rule: key_runs.induct)
  case (2 e es)
  have "set es = set (takeWhile (\<lambda>x. fst x = fst e) es) \<union> set (dropWhile (\<lambda>x. fst x = fst e) es)"
    by (metis set_append takeWhile_dropWhile_id)
  then have "fst ` set (e # es) = insert (fst e) (fst ` set (dropWhile (\<lambda>x. fst x = fst e) es))"
    by (auto dest: set_takeWhileD)
  then show ?case using "2.IH" by simp
qed simp

lemma dropWhile_sorted_greater:
  assumes "sorted (map fst (e # es))" "x \<in> set (dropWhile (\<lambda>x. fst x = fst e) es)"
  shows "fst e < fst (x :: int \<times> int)"
  using assms
proof (induction es)
  case (Cons y ys)
  show ?case
  proof (cases "fst y = fst e")
    case True
    then show ?thesis using Cons by auto
  next
    case False
    then have "fst e < fst y" using Cons.prems(1) by auto
    moreover have "fst y \<le> fst x" using False Cons.prems by auto
    ultimately show ?thesis by simp
  qed
qed simp

lemma sorted_map_dropWhile: "sorted (map f xs) \<Longrightarrow> sorted (map f (dropWhile P xs))"
  by (induction xs) auto

lemma filter_span: "filter Q xs = filter Q (takeWhile P xs) @ filter Q (dropWhile P xs)"
  by (metis filter_append takeWhile_dropWhile_id)

lemma key_runs_sorted:
  "sorted (map fst es) \<Longrightarrow> sorted_wrt (<) (map fst (key_runs es))"
proof (induction es rule: key_runs.induct)
  case (2 e es)
  let ?d = "dropWhile (\<lambda>x. fst x = fst e) es"
  have "sorted (map fst ?d)" using 2(2) by (simp add: sorted_map_dropWhile)
  then have "sorted_wrt (<) (map fst (key_runs ?d))" using 2(1) by simp
  moreover have "\<forall>k \<in> fst ` set (key_runs ?d). fst e < k"
    unfolding key_runs_keys using dropWhile_sorted_greater [OF 2(2)] by auto
  ultimately show ?case by simp
qed simp

lemma key_runs_ids:
  "sorted (map fst es) \<Longrightarrow> (k, ids) \<in> set (key_runs es) \<Longrightarrow>
   ids = map snd (filter (\<lambda>e. fst e = k) es)"
proof (induction es rule: key_runs.induct)
  case (2 e es)
  let ?t = "takeWhile (\<lambda>x. fst x = fst e) es" and ?d = "dropWhile (\<lambda>x. fst x = fst e) es"
  have gt: "\<forall>x \<in> set ?d. fst e < fst x" using dropWhile_sorted_greater [OF 2(2)] by blast
  show ?case
  proof (cases "k = fst e \<and> ids = snd e # map snd ?t")
    case True
    have "filter (\<lambda>x. fst x = fst e) ?d = []" using gt by (auto simp: filter_empty_conv)
    moreover have "filter (\<lambda>x. fst x = fst e) ?t = ?t" by (auto simp: filter_id_conv dest: set_takeWhileD)
    ultimately have "filter (\<lambda>x. fst x = fst e) es = ?t"
      by (subst filter_span [where P = "\<lambda>x. fst x = fst e"]) simp
    then show ?thesis using True by simp
  next
    case False
    then have m: "(k, ids) \<in> set (key_runs ?d)" using 2(3) by auto
    have sd: "sorted (map fst ?d)" using 2(2) by (simp add: sorted_map_dropWhile)
    have "k \<in> fst ` set ?d" using m key_runs_keys [of ?d] by force
    then have "fst e < k" using gt by auto
    then have "filter (\<lambda>x. fst x = k) ?t = []" "fst e \<noteq> k" by (auto simp: filter_empty_conv dest: set_takeWhileD)
    then have "filter (\<lambda>x. fst x = k) (e # es) = filter (\<lambda>x. fst x = k) ?d"
      using filter_span [of "\<lambda>x. fst x = k" es "\<lambda>x. fst x = fst e"] by simp
    then show ?thesis using 2(1) [OF sd m] by simp
  qed
qed simp

lemma append_cell_spec:
  "append_cell (degree_grid_new entries) key out = out @ map snd (filter (\<lambda>e. fst e = key) (sort entries))"
proof -
  let ?es = "sort entries" and ?g = "degree_grid_new entries"
  let ?rs = "key_runs (sort entries)"
  have "sorted ?es" by simp
  then have "sorted_wrt (\<lambda>x y. fst x \<le> fst y) ?es"
    by (rule sorted_wrt_mono_rel [rotated]) (auto simp: less_eq_prod_def)
  then have s: "sorted (map fst ?es)" by (simp only: sorted_map)
  have g: "dg_keys ?g = map fst ?rs" "dg_starts ?g = csr_offsets 0 (map snd ?rs)"
    "dg_ids ?g = concat (map snd ?rs)"
    by (simp_all add: degree_grid_new_def Let_def group_entries_runs csr_offsets_def)
  have ks: "sorted_wrt (<) (dg_keys ?g)" unfolding g by (rule key_runs_sorted [OF s])
  then have ks': "sorted (dg_keys ?g)" by (rule strict_sorted_imp_sorted)
  let ?i = "lower_bound (\<lambda>k. k < key) (dg_keys ?g)"
  have "?i < length (dg_keys ?g) \<and> dg_keys ?g ! ?i = key \<longleftrightarrow> key \<in> set (dg_keys ?g)"
    using binary_search_iff_mem [OF ks', of key]
      lower_bound_partition(3) [OF partitioned_sorted [OF ks', of key] order_refl]
    by (auto simp: binary_search_def Let_def not_less)
  moreover have "set (dg_keys ?g) = fst ` set entries" unfolding g using key_runs_keys [of ?es] by simp
  moreover have "take (nat (dg_starts ?g ! Suc ?i - dg_starts ?g ! ?i)) (drop (nat (dg_starts ?g ! ?i)) (dg_ids ?g)) =
      map snd (filter (\<lambda>e. fst e = key) ?es)" if "?i < length (dg_keys ?g)" "dg_keys ?g ! ?i = key"
  proof -
    have i: "?i < length (map snd ?rs)" "fst (?rs ! ?i) = key" using that g by auto
    have "take (nat (dg_starts ?g ! Suc ?i - dg_starts ?g ! ?i)) (drop (nat (dg_starts ?g ! ?i)) (dg_ids ?g)) =
        map snd ?rs ! ?i" unfolding g(2,3) by (rule csr_row0 [OF i(1)])
    also have "\<dots> = snd (?rs ! ?i)" using i by simp
    also have "\<dots> = map snd (filter (\<lambda>e. fst e = key) ?es)"
      by (rule key_runs_ids [OF s]) (use i in \<open>auto simp: in_set_conv_nth prod_eq_iff\<close>)
    finally show ?thesis .
  qed
  moreover have "map snd (filter (\<lambda>e. fst e = key) ?es) = []" if "key \<notin> fst ` set entries"
    using that by (auto simp: filter_empty_conv)
  ultimately show ?thesis by (auto simp: append_cell_def Let_def)
qed

section \<open>What a search visits\<close>

text \<open>The cell of a point is among the cells within \<open>r\<close> of the position's cell.\<close>

definition visited :: "point \<Rightarrow> int \<Rightarrow> point \<Rightarrow> bool" where
  "visited c r p \<longleftrightarrow>
     (\<exists>dlat \<in> {- r .. r}. \<exists>dlon \<in> {- r .. r}.
        cell_key (\<lfloor>latitude c\<rfloor> + dlat) (wrap_lon (\<lfloor>longitude c\<rfloor> + dlon)) = key_for_coord p)"

lemma foldl_append_collect:
  assumes "\<And>out x. f out x = out @ g x"
  shows "foldl f out xs = out @ concat (map g xs)"
  using assms by (induction xs arbitrary: out) simp_all

lemma set_grid_near:
  assumes "entries = map (\<lambda>v. (key_for_coord (pos v), v)) vs"
  shows "set (grid_near (degree_grid_new entries) c r) = {v \<in> set vs. visited c r (pos v)}"
proof -
  let ?cell = "\<lambda>key. map snd (filter (\<lambda>e. fst e = key) (sort entries))"
  let ?key = "\<lambda>dlat dlon. cell_key (\<lfloor>latitude c\<rfloor> + dlat) (wrap_lon (\<lfloor>longitude c\<rfloor> + dlon))"
  have "grid_near (degree_grid_new entries) c r =
      concat (map (\<lambda>dlat. concat (map (\<lambda>dlon. ?cell (?key dlat dlon)) [- r .. r])) [- r .. r])"
    unfolding grid_near_def Let_def
    by (subst foldl_append_collect [where g = "\<lambda>dlat. concat (map (\<lambda>dlon. ?cell (?key dlat dlon)) [- r .. r])"])
      (simp_all add: foldl_append_collect append_cell_spec)
  moreover have "snd ` {e \<in> set entries. fst e = key} = {v \<in> set vs. key_for_coord (pos v) = key}" for key
    by (force simp: assms)
  ultimately have "set (grid_near (degree_grid_new entries) c r) =
      (\<Union>dlat \<in> {- r .. r}. \<Union>dlon \<in> {- r .. r}. {v \<in> set vs. key_for_coord (pos v) = ?key dlat dlon})"
    by simp
  also have "\<dots> = {v \<in> set vs. visited c r (pos v)}"
    unfolding visited_def by (rule set_eqI) (simp only: UN_iff mem_Collect_eq, metis)
  finally show ?thesis .
qed

lemma wrap_lon_range:
  assumes "- 180 \<le> l" "l \<le> 180" "- 180 \<le> d" "d \<le> 180"
  shows "- 180 \<le> wrap_lon (l + d) \<and> wrap_lon (l + d) < 180 \<and> (\<exists>k. wrap_lon (l + d) = l + d + 360 * k)"
proof -
  have "\<exists>k. wrap_lon (l + d) = l + d + 360 * k"
    by (auto simp: wrap_lon_def Let_def intro: exI [of _ 0] exI [of _ 1] exI [of _ "- 1"])
  then show ?thesis using assms by (auto simp: wrap_lon_def Let_def)
qed

text \<open>Keys are injective: latitude and longitude of a cell can be read off.\<close>

lemma cell_key_inj:
  assumes "cell_key lat lon = cell_key lat' lon'"
    and "- 180 \<le> lon" "lon < 180" "- 180 \<le> lon'" "lon' < 180"
  shows "lat = lat' \<and> lon = lon'"
proof -
  have e: "(lat + 90) * 1000 + (lon + 180) = (lat' + 90) * 1000 + (lon' + 180)"
    using assms by (simp add: cell_key_def Let_def)
  then have "1000 * (lat - lat') = lon' - lon" by simp
  then have "1000 * (lat - lat') < 1000" "- 1000 < 1000 * (lat - lat')" using assms(2-) by linarith+
  then have "lat = lat'" by simp
  with e show ?thesis by simp
qed

definition cell_lon :: "point \<Rightarrow> int" where
  "cell_lon p = (if 180 \<le> \<lfloor>longitude p\<rfloor> then \<lfloor>longitude p\<rfloor> - 360 else \<lfloor>longitude p\<rfloor>)"

lemma on_globe_cell:
  assumes "on_globe p"
  shows "- 90 \<le> \<lfloor>latitude p\<rfloor>" "\<lfloor>latitude p\<rfloor> \<le> 90" "- 180 \<le> \<lfloor>longitude p\<rfloor>" "\<lfloor>longitude p\<rfloor> \<le> 180"
    "- 180 \<le> cell_lon p" "cell_lon p < 180" "key_for_coord p = cell_key \<lfloor>latitude p\<rfloor> (cell_lon p)"
proof -
  show b: "- 90 \<le> \<lfloor>latitude p\<rfloor>" "\<lfloor>latitude p\<rfloor> \<le> 90" "- 180 \<le> \<lfloor>longitude p\<rfloor>" "\<lfloor>longitude p\<rfloor> \<le> 180"
    using assms by (auto simp: on_globe_def degrees_half_circle_def abs_le_iff le_floor_iff floor_le_iff)
  then show "- 180 \<le> cell_lon p" "cell_lon p < 180" by (auto simp: cell_lon_def)
  show "key_for_coord p = cell_key \<lfloor>latitude p\<rfloor> (cell_lon p)"
    using b by (auto simp: key_for_coord_def cell_key_def cell_lon_def Let_def)
qed

lemma visited_iff:
  assumes c: "on_globe c" and p: "on_globe p" and r: "r \<le> 180"
  shows "visited c r p \<longleftrightarrow>
    \<bar>\<lfloor>latitude p\<rfloor> - \<lfloor>latitude c\<rfloor>\<bar> \<le> r \<and>
    (\<exists>dlon \<in> {- r .. r}. \<exists>k. \<lfloor>longitude p\<rfloor> = \<lfloor>longitude c\<rfloor> + dlon + 360 * k)"
proof -
  have step: "cell_key (\<lfloor>latitude c\<rfloor> + dlat) (wrap_lon (\<lfloor>longitude c\<rfloor> + dlon)) = key_for_coord p \<longleftrightarrow>
      dlat = \<lfloor>latitude p\<rfloor> - \<lfloor>latitude c\<rfloor> \<and> (\<exists>k. \<lfloor>longitude p\<rfloor> = \<lfloor>longitude c\<rfloor> + dlon + 360 * k)"
    if d: "dlon \<in> {- r .. r}" for dlat dlon
  proof -
    let ?w = "wrap_lon (\<lfloor>longitude c\<rfloor> + dlon)"
    have w: "- 180 \<le> ?w" "?w < 180" and ex: "\<exists>k. ?w = \<lfloor>longitude c\<rfloor> + dlon + 360 * k"
      using wrap_lon_range [of "\<lfloor>longitude c\<rfloor>" dlon] on_globe_cell [OF c] d r by auto
    note cp = on_globe_cell [OF p]
    have "cell_key (\<lfloor>latitude c\<rfloor> + dlat) ?w = key_for_coord p \<longleftrightarrow>
        dlat = \<lfloor>latitude p\<rfloor> - \<lfloor>latitude c\<rfloor> \<and> ?w = cell_lon p"
      using cell_key_inj [of "\<lfloor>latitude c\<rfloor> + dlat" ?w "\<lfloor>latitude p\<rfloor>" "cell_lon p"] w cp(5,6) unfolding cp(7) by auto
    moreover have "?w = cell_lon p \<longleftrightarrow> (\<exists>k. \<lfloor>longitude p\<rfloor> = \<lfloor>longitude c\<rfloor> + dlon + 360 * k)"
    proof -
      obtain j where j: "?w = \<lfloor>longitude c\<rfloor> + dlon + 360 * j" using ex by blast
      define i where "i = (if 180 \<le> \<lfloor>longitude p\<rfloor> then - 1 else 0 :: int)"
      have i: "cell_lon p = \<lfloor>longitude p\<rfloor> + 360 * i" by (simp add: cell_lon_def i_def)
      show ?thesis
      proof
        assume "?w = cell_lon p"
        then have "\<lfloor>longitude p\<rfloor> = \<lfloor>longitude c\<rfloor> + dlon + 360 * (j - i)" using i j by simp
        then show "\<exists>k. \<lfloor>longitude p\<rfloor> = \<lfloor>longitude c\<rfloor> + dlon + 360 * k" ..
      next
        assume "\<exists>k. \<lfloor>longitude p\<rfloor> = \<lfloor>longitude c\<rfloor> + dlon + 360 * k"
        then obtain k where "\<lfloor>longitude p\<rfloor> = \<lfloor>longitude c\<rfloor> + dlon + 360 * k" ..
        then have m: "cell_lon p = ?w + 360 * (k + i - j)" using i j by simp
        then have "360 * (k + i - j) < 360" "- 360 < 360 * (k + i - j)" using w cp(5,6) by linarith+
        then have "k + i - j = 0" by simp
        with m show "?w = cell_lon p" by simp
      qed
    qed
    ultimately show ?thesis by simp
  qed
  show ?thesis unfolding visited_def using step by (auto simp: abs_le_iff)
qed

section \<open>Two lower bounds on the great-circle distance\<close>

text \<open>The central angle of two points.\<close>

definition angle_to :: "point \<Rightarrow> point \<Rightarrow> real" where
  "angle_to p q = distance_to p q / earth_radius_nm"

lemma angle_to_range: "0 \<le> angle_to p q" "angle_to p q \<le> pi"
  using distance_to_angle [of p q] earth_radius_pos by (simp_all add: angle_to_def field_simps)

lemma cos_angle_to:
  "cos (angle_to p q) = sin (to_radians (latitude p)) * sin (to_radians (latitude q)) +
     cos (to_radians (latitude p)) * cos (to_radians (latitude q)) *
       cos (to_radians (longitude q - longitude p))"
  using distance_to_angle [of p q] unfolding angle_to_def
  by (simp add: dot_def project_unit_sphere_def Let_def to_radians_def diff_divide_distrib left_diff_distrib
      cos_diff algebra_simps)

lemma to_radians_simps:
  "to_radians (x - y) = to_radians x - to_radians y" "to_radians (x + y) = to_radians x + to_radians y"
  "to_radians 0 = 0" "to_radians 90 = pi / 2" "to_radians 180 = pi" "to_radians 360 = 2 * pi"
  "to_radians (- x) = - to_radians x"
  by (simp_all add: to_radians_def degrees_half_circle_def field_simps)

lemma to_radians_le: "to_radians x \<le> to_radians y \<longleftrightarrow> x \<le> y"
  by (simp add: to_radians_def degrees_half_circle_def divide_le_cancel)

lemma to_radians_lat: "\<bar>x\<bar> \<le> 90 \<Longrightarrow> \<bar>to_radians x\<bar> \<le> pi / 2"
  using to_radians_le [of x 90] to_radians_le [of "- 90" x] by (auto simp: abs_le_iff to_radians_simps)

lemma two_square_identity:
  "(s * t + c * k * u)\<^sup>2 + (s * u - c * k * t)\<^sup>2 = (s\<^sup>2 + c\<^sup>2 * k\<^sup>2) * (t\<^sup>2 + u\<^sup>2)" for s :: real
  by (simp add: power2_eq_square algebra_simps)

lemma cos_lat_nonneg: "\<bar>latitude p\<bar> \<le> 90 \<Longrightarrow> 0 \<le> cos (to_radians (latitude p))"
  using to_radians_lat [of "latitude p"] by (intro cos_ge_zero) auto

text \<open>Along a meridian the arc is shortest.\<close>

lemma angle_ge_lat:
  assumes "\<bar>latitude p\<bar> \<le> 90" "\<bar>latitude q\<bar> \<le> 90"
  shows "\<bar>to_radians (latitude p) - to_radians (latitude q)\<bar> \<le> angle_to p q"
proof (rule ccontr)
  let ?a = "to_radians (latitude p)" and ?b = "to_radians (latitude q)"
  let ?c = "cos (to_radians (longitude q - longitude p))"
  assume "\<not> ?thesis"
  moreover have "\<bar>?a - ?b\<bar> \<le> pi"
    using to_radians_lat [OF assms(1)] to_radians_lat [OF assms(2)] by linarith
  ultimately have "cos \<bar>?a - ?b\<bar> < cos (angle_to p q)"
    using angle_to_range [of p q] by (intro cos_monotone_0_pi) auto
  then have "cos ?a * cos ?b < cos ?a * cos ?b * ?c"
    unfolding cos_angle_to by (simp add: cos_diff)
  moreover have "0 \<le> cos ?a * cos ?b" using assms by (intro mult_nonneg_nonneg cos_lat_nonneg)
  then have "cos ?a * cos ?b * ?c \<le> cos ?a * cos ?b * 1" by (intro mult_left_mono) auto
  ultimately show False by simp
qed

text \<open>Beyond a bounding meridian the distance to its great circle is a bound.\<close>

lemma angle_ge_meridian:
  assumes p: "\<bar>latitude p\<bar> \<le> 90" and d: "0 \<le> d" "d \<le> pi / 2"
    and c: "cos (to_radians (latitude q)) * cos (to_radians (longitude q - longitude p)) \<le>
      cos (to_radians (latitude q)) * cos d"
  shows "arcsin (cos (to_radians (latitude p)) * sin d) \<le> angle_to p q"
proof (rule ccontr)
  let ?a = "to_radians (latitude p)" and ?b = "to_radians (latitude q)"
  let ?s = "cos ?a * sin d"
  have ca: "0 \<le> cos ?a" by (rule cos_lat_nonneg [OF p])
  have sd: "0 \<le> sin d" using d by (intro sin_ge_zero) auto
  have s: "0 \<le> ?s" "?s \<le> 1" using ca sd by (auto intro: mult_le_one)
  assume "\<not> ?thesis"
  then have "cos (arcsin ?s) < cos (angle_to p q)"
    using angle_to_range [of p q] arcsin_bounded [of ?s] s by (intro cos_monotone_0_pi) auto
  moreover have "cos (arcsin ?s) = sqrt (1 - ?s\<^sup>2)" using s by (intro cos_arcsin) auto
  moreover have "cos (angle_to p q) \<le> sin ?a * sin ?b + cos ?a * cos d * cos ?b"
  proof -
    have "cos ?a * (cos ?b * cos (to_radians (longitude q - longitude p))) \<le> cos ?a * (cos ?b * cos d)"
      by (rule mult_left_mono [OF c ca])
    then show ?thesis unfolding cos_angle_to by (simp add: ac_simps)
  qed
  moreover have "sin ?a * sin ?b + cos ?a * cos d * cos ?b \<le> sqrt (1 - ?s\<^sup>2)"
  proof (rule real_le_rsqrt)
    have "(sin ?a * sin ?b + cos ?a * cos d * cos ?b)\<^sup>2 + (sin ?a * cos ?b - cos ?a * cos d * sin ?b)\<^sup>2 =
        ((sin ?a)\<^sup>2 + (cos ?a)\<^sup>2 * (cos d)\<^sup>2) * ((sin ?b)\<^sup>2 + (cos ?b)\<^sup>2)"
      by (rule two_square_identity)
    also have "\<dots> = (1 - (cos ?a)\<^sup>2) + (cos ?a)\<^sup>2 * (1 - (sin d)\<^sup>2)"
      by (simp add: sin_squared_eq [of ?a] cos_squared_eq [of d])
    also have "\<dots> = 1 - ?s\<^sup>2" by (simp add: power_mult_distrib algebra_simps)
    finally show "(sin ?a * sin ?b + cos ?a * cos d * cos ?b)\<^sup>2 \<le> 1 - ?s\<^sup>2"
      by (smt (verit) zero_le_power2)
  qed
  ultimately show False by simp
qed

text \<open>A longitude gap on both sides of the square bounds the cosine of the difference.\<close>

lemma cos_gap:
  assumes "0 \<le> d" "d \<le> 180" "d \<le> x" "x \<le> 360 - d"
  shows "cos (to_radians x) \<le> cos (to_radians d)"
proof -
  have le: "cos (to_radians y) \<le> cos (to_radians d)" if "d \<le> y" "y \<le> 180" for y
    using to_radians_le [of 0 d] to_radians_le [of d y] to_radians_le [of y 180] that assms(1)
    by (intro cos_monotone_0_pi_le) (auto simp: to_radians_simps)
  have "cos (to_radians (360 - x)) = cos (to_radians x)"
    by (simp add: to_radians_simps cos_diff)
  with le [of x] le [of "360 - x"] assms show ?thesis by (cases "x \<le> 180") auto
qed

lemma cos_to_radians_360: "cos (to_radians (x + 360 * real_of_int k)) = cos (to_radians x)"
proof -
  have "to_radians (x + 360 * real_of_int k) = to_radians x + 2 * pi * real_of_int k"
    by (simp add: to_radians_def degrees_half_circle_def field_simps)
  then show ?thesis by (simp only: cos_add cos_int_2pin sin_int_2pin)
qed

section \<open>The lower bound holds\<close>

lemma scale_le:
  "x \<le> Fin g \<Longrightarrow> (case x of Infinity \<Rightarrow> Infinity | Fin g \<Rightarrow> Fin (g * earth_radius_nm)) \<le> Fin (g * earth_radius_nm)"
  using earth_radius_pos by (cases x) auto

lemma gap_le:
  fixes x y z :: cost
  shows "A \<Longrightarrow> (if C then min (if B then min (if A then min Infinity x else Infinity) y
      else (if A then min Infinity x else Infinity)) z
    else (if B then min (if A then min Infinity x else Infinity) y
      else (if A then min Infinity x else Infinity))) \<le> x"
    and "B \<Longrightarrow> (if C then min (if B then min (if A then min Infinity x else Infinity) y
      else (if A then min Infinity x else Infinity)) z
    else (if B then min (if A then min Infinity x else Infinity) y
      else (if A then min Infinity x else Infinity))) \<le> y"
    and "C \<Longrightarrow> (if C then min (if B then min (if A then min Infinity x else Infinity) y
      else (if A then min Infinity x else Infinity)) z
    else (if B then min (if A then min Infinity x else Infinity) y
      else (if A then min Infinity x else Infinity))) \<le> z"
  by (simp_all add: min.coboundedI1)

text \<open>The three gap terms of the code, each under its condition.\<close>

lemma outside_lower_bound_le:
  "- 90 < real_of_int \<lfloor>latitude c\<rfloor> - real_of_int r \<Longrightarrow> outside_lower_bound_nm c r \<le>
     Fin (to_radians (latitude c - (real_of_int \<lfloor>latitude c\<rfloor> - real_of_int r)) * earth_radius_nm)"
  "real_of_int \<lfloor>latitude c\<rfloor> + real_of_int r + 1 < 90 \<Longrightarrow> outside_lower_bound_nm c r \<le>
     Fin (to_radians (real_of_int \<lfloor>latitude c\<rfloor> + real_of_int r + 1 - latitude c) * earth_radius_nm)"
  "2 * real_of_int r + 1 < 360 \<Longrightarrow> outside_lower_bound_nm c r \<le>
     Fin (arcsin (max 0 (min 1 (cos (to_radians (latitude c)) * sin (to_radians
        (min (min (longitude c - (real_of_int \<lfloor>longitude c\<rfloor> - real_of_int r))
          ((real_of_int \<lfloor>longitude c\<rfloor> + real_of_int r + 1) - longitude c)) 90))))) * earth_radius_nm)"
proof -
  have tr: "x * (pi / degrees_half_circle) = to_radians x" for x by (simp add: to_radians_def)
  have q: "degrees_half_circle / 2 = 90" "degrees_full_circle = 360"
    by (simp_all add: degrees_half_circle_def degrees_full_circle_def)
  note expand = outside_lower_bound_nm_def Let_def tr q
  show "- 90 < real_of_int \<lfloor>latitude c\<rfloor> - real_of_int r \<Longrightarrow> outside_lower_bound_nm c r \<le>
     Fin (to_radians (latitude c - (real_of_int \<lfloor>latitude c\<rfloor> - real_of_int r)) * earth_radius_nm)"
    unfolding expand by (rule scale_le, rule gap_le(1))
  show "real_of_int \<lfloor>latitude c\<rfloor> + real_of_int r + 1 < 90 \<Longrightarrow> outside_lower_bound_nm c r \<le>
     Fin (to_radians (real_of_int \<lfloor>latitude c\<rfloor> + real_of_int r + 1 - latitude c) * earth_radius_nm)"
    unfolding expand by (rule scale_le, rule gap_le(2))
  show "2 * real_of_int r + 1 < 360 \<Longrightarrow> outside_lower_bound_nm c r \<le>
     Fin (arcsin (max 0 (min 1 (cos (to_radians (latitude c)) * sin (to_radians
        (min (min (longitude c - (real_of_int \<lfloor>longitude c\<rfloor> - real_of_int r))
          ((real_of_int \<lfloor>longitude c\<rfloor> + real_of_int r + 1) - longitude c)) 90))))) * earth_radius_nm)"
    unfolding expand by (rule scale_le, rule gap_le(3))
qed

lemma bound_le_distance: "g \<le> angle_to c p \<Longrightarrow> Fin (g * earth_radius_nm) \<le> Fin (distance_to c p)"
  using earth_radius_pos by (simp add: angle_to_def pos_le_divide_eq)

text \<open>The longitude term bounds everything whose meridian lies outside, and the poles.\<close>

lemma outside_lon:
  assumes c: "on_globe c" and p: "on_globe p" and r: "0 < r" "2 * real_of_int r + 1 < 360"
    and gap: "latitude p = 90 \<or> (\<exists>m k. r < m \<and> m < 360 - r \<and> \<lfloor>longitude p\<rfloor> = \<lfloor>longitude c\<rfloor> + m + 360 * k)"
  shows "outside_lower_bound_nm c r \<le> Fin (distance_to c p)"
proof -
  let ?west = "longitude c - (real_of_int \<lfloor>longitude c\<rfloor> - real_of_int r)"
  let ?east = "(real_of_int \<lfloor>longitude c\<rfloor> + real_of_int r + 1) - longitude c"
  let ?d = "min (min ?west ?east) 90"
  let ?s = "cos (to_radians (latitude c)) * sin (to_radians ?d)"
  have lat: "\<bar>latitude c\<bar> \<le> 90" using c by (simp add: on_globe_def degrees_half_circle_def)
  have d: "0 \<le> ?d" "?d \<le> 90" using r(1) by (auto simp: min_def) linarith+
  have dr: "0 \<le> to_radians ?d" "to_radians ?d \<le> pi / 2"
    using to_radians_le [of 0 ?d] to_radians_le [of ?d 90] d by (simp_all add: to_radians_simps)
  have "0 \<le> sin (to_radians ?d)" using dr by (intro sin_ge_zero) auto
  then have "0 \<le> ?s" "?s \<le> 1" using cos_lat_nonneg [OF lat] by (auto intro: mult_le_one)
  then have clamp: "max 0 (min 1 ?s) = ?s" by simp
  have "cos (to_radians (latitude p)) * cos (to_radians (longitude p - longitude c)) \<le>
      cos (to_radians (latitude p)) * cos (to_radians ?d)"
    using gap
  proof
    assume "latitude p = 90"
    then show ?thesis by (simp add: to_radians_simps)
  next
    assume "\<exists>m k. r < m \<and> m < 360 - r \<and> \<lfloor>longitude p\<rfloor> = \<lfloor>longitude c\<rfloor> + m + 360 * k"
    then obtain m k where "r < m" "m < 360 - r" and e: "\<lfloor>longitude p\<rfloor> = \<lfloor>longitude c\<rfloor> + m + 360 * k" by blast
    then have m: "r + 1 \<le> m" "m + 1 \<le> 360 - r" by auto
    define x where "x = longitude p - longitude c - 360 * real_of_int k"
    have mr: "real_of_int r + 1 \<le> real_of_int m" "real_of_int m + 1 \<le> 360 - real_of_int r"
      using m(1,2) by linarith+
    have "longitude p - real_of_int \<lfloor>longitude p\<rfloor> < 1" "0 \<le> longitude p - real_of_int \<lfloor>longitude p\<rfloor>" by linarith+
    moreover have "real_of_int \<lfloor>longitude p\<rfloor> = real_of_int \<lfloor>longitude c\<rfloor> + real_of_int m + 360 * real_of_int k"
      using e by simp
    ultimately have "?east \<le> x" "x \<le> 360 - ?west" using mr by (simp_all add: x_def)
    then have "cos (to_radians x) \<le> cos (to_radians ?d)" using d by (intro cos_gap) auto
    moreover have "longitude p - longitude c = x + 360 * real_of_int k" by (simp add: x_def)
    then have "cos (to_radians (longitude p - longitude c)) = cos (to_radians x)" by (simp only: cos_to_radians_360)
    moreover have "0 \<le> cos (to_radians (latitude p))"
      by (rule cos_lat_nonneg) (use p in \<open>simp add: on_globe_def degrees_half_circle_def\<close>)
    ultimately show ?thesis by (simp add: mult_left_mono)
  qed
  then have "arcsin ?s \<le> angle_to c p" by (rule angle_ge_meridian [OF lat dr])
  with outside_lower_bound_le(3) [OF r(2), of c] show ?thesis
    unfolding clamp by (blast intro: order_trans bound_le_distance)
qed

lemma outside_lower_bound:
  assumes c: "on_globe c" and p: "on_globe p" and r: "0 < r" "r \<le> 180" and v: "\<not> visited c r p"
  shows "outside_lower_bound_nm c r \<le> Fin (distance_to c p)"
proof -
  have lat: "\<bar>latitude c\<bar> \<le> 90" "\<bar>latitude p\<bar> \<le> 90"
    using c p by (simp_all add: on_globe_def degrees_half_circle_def)
  consider (north) "\<lfloor>latitude c\<rfloor> + r < \<lfloor>latitude p\<rfloor>" | (south) "\<lfloor>latitude p\<rfloor> < \<lfloor>latitude c\<rfloor> - r"
    | (lon) "\<not> (\<exists>dlon \<in> {- r .. r}. \<exists>k. \<lfloor>longitude p\<rfloor> = \<lfloor>longitude c\<rfloor> + dlon + 360 * k)"
    using v unfolding visited_iff [OF c p r(2)] by (auto simp: abs_le_iff)
  then show ?thesis
  proof cases
    case north
    then have n: "real_of_int \<lfloor>latitude c\<rfloor> + real_of_int r + 1 \<le> latitude p" by linarith
    show ?thesis
    proof (cases "real_of_int \<lfloor>latitude c\<rfloor> + real_of_int r + 1 < 90")
      case True
      have "to_radians (real_of_int \<lfloor>latitude c\<rfloor> + real_of_int r + 1 - latitude c) \<le>
          to_radians (latitude p) - to_radians (latitude c)"
        using n by (simp add: to_radians_le flip: to_radians_simps(1))
      also have "\<dots> \<le> angle_to c p" using angle_ge_lat [OF lat] by linarith
      finally show ?thesis using outside_lower_bound_le(2) [OF True] by (blast intro: order_trans bound_le_distance)
    next
      case False
      then have "latitude p = 90" using n lat by linarith
      moreover have "- 90 \<le> real_of_int \<lfloor>latitude c\<rfloor>" using on_globe_cell(1) [OF c] by linarith
      then have "2 * real_of_int r + 1 < 360" using n \<open>latitude p = 90\<close> by linarith
      ultimately show ?thesis using outside_lon [OF c p r(1)] by blast
    qed
  next
    case south
    then have n: "latitude p < real_of_int \<lfloor>latitude c\<rfloor> - real_of_int r" by linarith
    then have s: "- 90 < real_of_int \<lfloor>latitude c\<rfloor> - real_of_int r" using lat by linarith
    have "to_radians (latitude c - (real_of_int \<lfloor>latitude c\<rfloor> - real_of_int r)) \<le>
        to_radians (latitude c) - to_radians (latitude p)"
      using n by (simp add: to_radians_le flip: to_radians_simps(1))
    also have "\<dots> \<le> angle_to c p" using angle_ge_lat [OF lat] by linarith
    finally show ?thesis using outside_lower_bound_le(1) [OF s] by (blast intro: order_trans bound_le_distance)
  next
    case lon
    let ?m = "(\<lfloor>longitude p\<rfloor> - \<lfloor>longitude c\<rfloor>) mod 360" and ?k = "(\<lfloor>longitude p\<rfloor> - \<lfloor>longitude c\<rfloor>) div 360"
    have m: "0 \<le> ?m" "?m < 360" "\<lfloor>longitude p\<rfloor> = \<lfloor>longitude c\<rfloor> + ?m + 360 * ?k" by simp_all
    have "?m \<notin> {- r .. r}" using lon m(3) by blast
    moreover have "\<lfloor>longitude p\<rfloor> = \<lfloor>longitude c\<rfloor> + (?m - 360) + 360 * (?k + 1)" using m(3) by simp
    then have "?m - 360 \<notin> {- r .. r}" using lon by blast
    ultimately have g: "r < ?m" "?m < 360 - r" using m(1,2) by auto
    then have "2 * real_of_int r + 1 < 360" by linarith
    then show ?thesis using outside_lon [OF c p r(1)] g m(3) by blast
  qed
qed

end
