(* ===== verification/RouteText.thy ===== *)
theory RouteText
  imports Outcome
begin

text \<open>
  \<^verbatim>\<open>core/routing/route_parser.cc\<close>, \<^verbatim>\<open>core/routing/route_string.cc\<close> and
  \<^verbatim>\<open>core/routing/route_metrics.h\<close>: tokenizing a filed route, splitting concurrency
  designators, folding route legs into the filed-flight-plan string, cumulative distances.
  A scan position into a string is modelled by the remaining suffix.
\<close>

section \<open>TokenizeRoute\<close>

text \<open>\<open>std::isspace\<close> in the C locale.\<close>

definition is_space :: "char \<Rightarrow> bool" where
  "is_space c \<longleftrightarrow>
     c \<in> {CHR '' '', CHR 0x09, CHR 0x0A, CHR 0x0B, CHR 0x0C, CHR 0x0D}"

function tokenize_route :: "string \<Rightarrow> string list" where
  "tokenize_route s =
     (let s1 = dropWhile is_space s in
      if s1 = [] then []
      else to_upper (takeWhile (\<lambda>c. \<not> is_space c) s1) #
           tokenize_route (dropWhile (\<lambda>c. \<not> is_space c) s1))"
  by pat_completeness auto
termination
proof (relation "measure length")
  fix s s1 :: string
  assume s1: "s1 = dropWhile is_space s" and ne: "s1 \<noteq> []"
  then have "\<not> is_space (hd s1)" using hd_dropWhile by metis
  then have "length (dropWhile (\<lambda>c. \<not> is_space c) s1) < length s1"
    using ne by (cases s1) (auto simp: le_imp_less_Suc length_dropWhile_le)
  also have "length s1 \<le> length s" by (simp add: s1 length_dropWhile_le)
  finally show "(dropWhile (\<lambda>c. \<not> is_space c) s1, s) \<in> measure length" by simp
qed simp

declare tokenize_route.simps [simp del]

text \<open>A token as the lexer produces it: non-empty, upper-cased, no white space.\<close>

definition is_token :: "string \<Rightarrow> bool" where
  "is_token t \<longleftrightarrow> t \<noteq> [] \<and> to_upper t = t \<and> list_all (\<lambda>c. \<not> is_space c) t"

lemma to_upper_char_idem: "to_upper_char (to_upper_char c) = to_upper_char c"
proof (cases "CHR ''a'' \<le> c \<and> c \<le> CHR ''z''")
  case True
  then have r: "97 \<le> (of_char c :: nat)" "(of_char c :: nat) \<le> 122"
    by (simp_all add: less_eq_char_def)
  then have "(of_char c :: nat) - 32 < 256" by simp
  then have "of_char (char_of (of_char c - 32 :: nat)) = (of_char c :: nat) - 32"
    by simp
  with r have "\<not> (CHR ''a'' \<le> char_of (of_char c - 32 :: nat))"
    by (simp add: less_eq_char_def)
  with True show ?thesis by (simp add: to_upper_char_def)
qed (auto simp: to_upper_char_def)

lemma to_upper_idem [simp]: "to_upper (to_upper s) = to_upper s"
  by (simp add: to_upper_def to_upper_char_idem)

lemma is_space_to_upper_char: "is_space (to_upper_char c) = is_space c"
proof (cases "CHR ''a'' \<le> c \<and> c \<le> CHR ''z''")
  case True
  then have r: "97 \<le> (of_char c :: nat)" "(of_char c :: nat) \<le> 122"
    by (simp_all add: less_eq_char_def)
  then have e: "of_char (to_upper_char c) = (of_char c :: nat) - 32"
    using True by (simp add: to_upper_char_def)
  have space: "is_space d \<Longrightarrow> (of_char d :: nat) \<le> 32" for d by (auto simp: is_space_def)
  show ?thesis using r e space[of c] space[of "to_upper_char c"] by auto
qed (auto simp: to_upper_char_def)

lemma tokenize_route_tokens: "t \<in> set (tokenize_route s) \<Longrightarrow> is_token t"
proof (induction s rule: tokenize_route.induct)
  case (1 s)
  define s1 where "s1 = dropWhile is_space s"
  define w where "w = takeWhile (\<lambda>c. \<not> is_space c) s1"
  show ?case
  proof (cases "s1 = []")
    case True
    with "1.prems" show ?thesis by (subst (asm) tokenize_route.simps) (simp add: s1_def)
  next
    case False
    then have "\<not> is_space (hd s1)" using hd_dropWhile unfolding s1_def by metis
    with False have "w \<noteq> []" by (cases s1) (auto simp: w_def)
    moreover have "list_all (\<lambda>c. \<not> is_space c) (to_upper w)"
      by (auto simp: w_def to_upper_def list_all_iff is_space_to_upper_char dest: set_takeWhileD)
    ultimately have "is_token (to_upper w)" by (simp add: is_token_def to_upper_def[of w] to_upper_char_idem)
       (simp add: to_upper_def to_upper_char_idem)
    moreover have "tokenize_route s = to_upper w # tokenize_route (dropWhile (\<lambda>c. \<not> is_space c) s1)"
      using False by (subst tokenize_route.simps) (simp add: w_def Let_def flip: s1_def)
    then have "t = to_upper w \<or> t \<in> set (tokenize_route (dropWhile (\<lambda>c. \<not> is_space c) s1))"
      using "1.prems" by auto
    ultimately show ?thesis using "1.IH"[of s1] False s1_def by blast
  qed
qed

text \<open>Joining tokens with single blanks, as a filed route is written.\<close>

fun unwords :: "string list \<Rightarrow> string" where
  "unwords [] = []"
| "unwords [t] = t"
| "unwords (t # ts) = t @ '' '' @ unwords ts"

lemma takeWhile_token:
  assumes "is_token t"
  shows "takeWhile (\<lambda>c. \<not> is_space c) (t @ CHR '' '' # r) = t"
    and "dropWhile (\<lambda>c. \<not> is_space c) (t @ CHR '' '' # r) = CHR '' '' # r"
    and "takeWhile (\<lambda>c. \<not> is_space c) t = t"
    and "dropWhile (\<lambda>c. \<not> is_space c) t = []"
proof -
  have ns: "\<And>c. c \<in> set t \<Longrightarrow> \<not> is_space c" and sp: "is_space (CHR '' '')"
    using assms by (simp_all add: is_token_def list_all_iff is_space_def)
  show "takeWhile (\<lambda>c. \<not> is_space c) (t @ CHR '' '' # r) = t"
    "dropWhile (\<lambda>c. \<not> is_space c) (t @ CHR '' '' # r) = CHR '' '' # r"
    "takeWhile (\<lambda>c. \<not> is_space c) t = t" "dropWhile (\<lambda>c. \<not> is_space c) t = []"
    using ns sp by (simp_all add: takeWhile_append2 dropWhile_append2 takeWhile_eq_all_conv)
qed

lemma dropWhile_space_token: "is_token t \<Longrightarrow> dropWhile is_space (t @ r) = t @ r"
  by (cases t) (auto simp: is_token_def)

lemma tokenize_route_space: "tokenize_route (CHR '' '' # s) = tokenize_route s"
  by (simp add: tokenize_route.simps[of "CHR '' '' # s"] tokenize_route.simps[of s] is_space_def)

lemma tokenize_route_unwords:
  "list_all is_token ts \<Longrightarrow> tokenize_route (unwords ts) = ts"
proof (induction ts rule: unwords.induct)
  case 1
  then show ?case by (simp add: tokenize_route.simps)
next
  case (2 t)
  then have t: "is_token t" by simp
  then show ?case
    using t dropWhile_space_token[OF t, of "[]"]
    by (subst tokenize_route.simps)
      (simp add: takeWhile_token(3,4)[OF t] tokenize_route.simps[of "[]"], simp add: is_token_def)
next
  case (3 t u us)
  then have t: "is_token t" and IH: "tokenize_route (unwords (u # us)) = u # us" by simp_all
  show ?case
    using dropWhile_space_token[OF t] takeWhile_token(1,2)[OF t] t IH
    by (subst tokenize_route.simps) (auto simp: is_token_def Let_def tokenize_route_space)
qed

section \<open>SplitDesignators\<close>

function split_designators :: "string \<Rightarrow> string list" where
  "split_designators via =
     (let tok = takeWhile (\<lambda>c. c \<noteq> CHR ''-'') via; rest = dropWhile (\<lambda>c. c \<noteq> CHR ''-'') via in
      if rest = [] then (if via \<noteq> [] then [via] else [])
      else (if tok \<noteq> [] then [tok] else []) @ split_designators (tl rest))"
  by pat_completeness auto
termination
proof (relation "measure length")
  fix via tok rest :: string
  assume "rest = dropWhile (\<lambda>c. c \<noteq> CHR ''-'') via" and "rest \<noteq> []"
  then have "length (tl rest) < length rest" "length rest \<le> length via"
    by (auto simp: length_dropWhile_le)
  then show "(tl rest, via) \<in> measure length" by simp
qed simp

declare split_designators.simps [simp del]

text \<open>A designator as the splitter yields it.\<close>

definition is_designator :: "string \<Rightarrow> bool" where
  "is_designator d \<longleftrightarrow> d \<noteq> [] \<and> CHR ''-'' \<notin> set d"

lemma split_designators_designators:
  "d \<in> set (split_designators via) \<Longrightarrow> is_designator d"
proof (induction via rule: split_designators.induct)
  case (1 via)
  let ?tok = "takeWhile (\<lambda>c. c \<noteq> CHR ''-'') via" and ?rest = "dropWhile (\<lambda>c. c \<noteq> CHR ''-'') via"
  have tok: "CHR ''-'' \<notin> set ?tok" by (auto dest: set_takeWhileD)
  show ?case
  proof (cases "?rest = []")
    case True
    then have "?tok = via" by (metis append_Nil2 takeWhile_dropWhile_id)
    with True "1.prems" tok show ?thesis
      by (subst (asm) split_designators.simps) (auto simp: is_designator_def Let_def split: if_splits)
  next
    case False
    with "1.prems" have "d = ?tok \<and> ?tok \<noteq> [] \<or> d \<in> set (split_designators (tl ?rest))"
      by (subst (asm) split_designators.simps) (auto simp: Let_def split: if_splits)
    with "1.IH"[OF refl refl False] tok show ?thesis by (auto simp: is_designator_def)
  qed
qed

lemma split_designators_single: "is_designator d \<Longrightarrow> split_designators d = [d]"
proof -
  assume d: "is_designator d"
  then have "dropWhile (\<lambda>c. c \<noteq> CHR ''-'') d = []"
    by (auto simp: is_designator_def dropWhile_eq_Nil_conv)
  with d show ?thesis by (subst split_designators.simps) (simp add: is_designator_def)
qed

fun join_hyphen :: "string list \<Rightarrow> string" where
  "join_hyphen [] = []"
| "join_hyphen [d] = d"
| "join_hyphen (d # ds) = d @ ''-'' @ join_hyphen ds"

lemma split_designators_append:
  assumes "is_designator d"
  shows "split_designators (d @ CHR ''-'' # r) = d # split_designators r"
proof -
  have d: "\<And>c. c \<in> set d \<Longrightarrow> c \<noteq> CHR ''-''" "d \<noteq> []"
    using assms by (auto simp: is_designator_def)
  have "takeWhile (\<lambda>c. c \<noteq> CHR ''-'') (d @ CHR ''-'' # r) = d"
    "dropWhile (\<lambda>c. c \<noteq> CHR ''-'') (d @ CHR ''-'' # r) = CHR ''-'' # r"
    using d by (simp_all add: takeWhile_append2 dropWhile_append2)
  with d show ?thesis by (subst split_designators.simps) (simp add: Let_def)
qed

lemma split_designators_join:
  "list_all is_designator ds \<Longrightarrow> split_designators (join_hyphen ds) = ds"
  by (induction ds rule: join_hyphen.induct)
    (auto simp: split_designators.simps[of "[]"] split_designators_single split_designators_append)

section \<open>BuildRouteString\<close>

text \<open>\<^verbatim>\<open>core/routing/route.h\<close>: one leg; distances are reals.\<close>

record route_leg =
  rl_from :: string
  rl_to :: string
  rl_via :: string
  rl_distance_nm :: real
  rl_concurrent_airways :: "string list"

definition dct_token :: string where "dct_token = ''DCT''"

definition intersect :: "string list \<Rightarrow> string list \<Rightarrow> string list" where
  "intersect a b = [s \<leftarrow> a. s \<in> set b]"

text \<open>The inner loop: extend the group while the running intersection stays non-empty.\<close>

fun grow_group ::
  "string list \<Rightarrow> (route_leg \<times> string list) list \<Rightarrow>
   string list \<times> (route_leg \<times> string list) list \<times> (route_leg \<times> string list) list" where
  "grow_group running [] = (running, [], [])"
| "grow_group running (x # xs) =
     (if rl_via (fst x) = dct_token then (running, [], x # xs)
      else let inter = intersect running (snd x) in
        if inter = [] then (running, [], x # xs)
        else let (r, g, rest) = grow_group inter xs in (r, x # g, rest))"

lemma grow_group_append: "grow_group r xs = (r', g, rest) \<Longrightarrow> g @ rest = xs"
  by (induction r xs arbitrary: r' g rest rule: grow_group.induct)
    (auto simp: Let_def split: if_splits prod.splits)

definition choose_airway :: "string \<Rightarrow> route_leg \<times> string list \<Rightarrow> route_leg" where
  "choose_airway chosen x =
     (fst x)\<lparr>rl_via := chosen,
             rl_concurrent_airways := (if 1 < length (snd x) then snd x else [])\<rparr>"

function fold_legs :: "(route_leg \<times> string list) list \<Rightarrow> string \<times> route_leg list" where
  "fold_legs [] = ([], [])"
| "fold_legs (x # xs) =
     (if rl_via (fst x) = dct_token \<or> snd x = [] then
        let (rs, ls) = fold_legs xs
        in ('' DCT '' @ rl_to (fst x) @ rs, (fst x)\<lparr>rl_concurrent_airways := []\<rparr> # ls)
      else
        let (running, g, rest) = grow_group (snd x) xs; chosen = hd running;
            (rs, ls) = fold_legs rest
        in ('' '' @ chosen @ '' '' @ rl_to (fst (last (x # g))) @ rs,
            map (choose_airway chosen) (x # g) @ ls))"
  by pat_completeness auto
termination
proof (relation "measure length")
  fix x :: "route_leg \<times> string list" and xs p running p2 g rest chosen
  assume "p = grow_group (snd x) xs" "(running, p2) = p" "(g, rest) = p2"
  then have "g @ rest = xs" using grow_group_append by metis
  then show "(rest, x # xs) \<in> measure length" by auto
qed auto

declare fold_legs.simps(2) [simp del]

lemma fold_legs_direct:
  "rl_via (fst x) = dct_token \<or> snd x = [] \<Longrightarrow>
   fold_legs (x # xs) = ('' DCT '' @ rl_to (fst x) @ fst (fold_legs xs),
     (fst x)\<lparr>rl_concurrent_airways := []\<rparr> # snd (fold_legs xs))"
  by (auto simp: fold_legs.simps(2) case_prod_beta)

lemma fold_legs_group:
  "\<not> (rl_via (fst x) = dct_token \<or> snd x = []) \<Longrightarrow> grow_group (snd x) xs = (running, g, rest) \<Longrightarrow>
   fold_legs (x # xs) =
     ('' '' @ hd running @ '' '' @ rl_to (fst (last (x # g))) @ fst (fold_legs rest),
      map (choose_airway (hd running)) (x # g) @ snd (fold_legs rest))"
  by (simp add: fold_legs.simps(2) case_prod_beta Let_def)

definition build_route_string :: "string \<Rightarrow> route_leg list \<Rightarrow> string \<times> route_leg list" where
  "build_route_string first_point legs =
     (let (rs, ls) = fold_legs (map (\<lambda>l. (l, split_designators (rl_via l))) legs)
      in (first_point @ rs, ls))"

section \<open>Properties of the folding\<close>

lemma set_intersect [simp]: "set (intersect a b) = set a \<inter> set b"
  by (auto simp: intersect_def)

lemma intersect_empty: "intersect a b = [] \<longleftrightarrow> set a \<inter> set b = {}"
  by (metis set_empty set_intersect)

text \<open>
  What one group guarantees: the surviving list is non-empty and lies in every member's list,
  no member is a direct leg, and the leg that follows shares no surviving designator.
\<close>

lemma grow_group_props:
  assumes "grow_group r xs = (r', g, rest)" and "r \<noteq> []"
  shows "r' \<noteq> [] \<and> set r' \<subseteq> set r \<and>
    (\<forall>y \<in> set g. set r' \<subseteq> set (snd y) \<and> rl_via (fst y) \<noteq> dct_token) \<and>
    (rest \<noteq> [] \<longrightarrow> rl_via (fst (hd rest)) = dct_token \<or> set r' \<inter> set (snd (hd rest)) = {})"
  using assms
proof (induction r xs arbitrary: r' g rest rule: grow_group.induct)
  case (1 running)
  then show ?case by simp
next
  case (2 running x xs)
  let ?inter = "intersect running (snd x)"
  show ?case
  proof (cases "rl_via (fst x) = dct_token \<or> ?inter = []")
    case True
    then have "r' = running" "g = []" "rest = x # xs"
      using "2.prems" by (auto simp: Let_def split: if_splits)
    with True "2.prems" show ?thesis by (auto simp: intersect_empty)
  next
    case False
    obtain g' where rec: "grow_group ?inter xs = (r', g', rest)" and g: "g = x # g'"
      using "2.prems"(1) False by (auto simp: Let_def split: prod.splits)
    have "r' \<noteq> [] \<and> set r' \<subseteq> set ?inter \<and>
      (\<forall>y\<in>set g'. set r' \<subseteq> set (snd y) \<and> rl_via (fst y) \<noteq> dct_token) \<and>
      (rest \<noteq> [] \<longrightarrow> rl_via (fst (hd rest)) = dct_token \<or> set r' \<inter> set (snd (hd rest)) = {})"
      using "2.IH"[OF _ refl _ rec] False by auto
    with g False show ?thesis by auto
  qed
qed

text \<open>What the rewrite does to one leg, given the designator list of its original via.\<close>

definition leg_rewritten :: "route_leg \<times> string list \<Rightarrow> route_leg \<Rightarrow> bool" where
  "leg_rewritten x l \<longleftrightarrow>
     rl_from l = rl_from (fst x) \<and> rl_to l = rl_to (fst x) \<and>
     rl_distance_nm l = rl_distance_nm (fst x) \<and>
     (if rl_via (fst x) = dct_token \<or> snd x = []
      then rl_via l = rl_via (fst x) \<and> rl_concurrent_airways l = []
      else rl_via l \<in> set (snd x) \<and>
        rl_concurrent_airways l = (if 1 < length (snd x) then snd x else []))"

lemma fold_legs_rewritten: "list_all2 leg_rewritten xs (snd (fold_legs xs))"
proof (induction xs rule: fold_legs.induct)
  case 1
  then show ?case by simp
next
  case (2 x xs)
  show ?case
  proof (cases "rl_via (fst x) = dct_token \<or> snd x = []")
    case True
    then have "leg_rewritten x ((fst x)\<lparr>rl_concurrent_airways := []\<rparr>)"
      by (simp add: leg_rewritten_def)
    with True 2(1)[OF True] show ?thesis
      by (simp add: fold_legs_direct)
  next
    case False
    obtain running g rest where gg: "grow_group (snd x) xs = (running, g, rest)"
      by (metis prod_cases3)
    have props: "running \<noteq> []" "set running \<subseteq> set (snd x)"
      "\<forall>y \<in> set g. set running \<subseteq> set (snd y) \<and> rl_via (fst y) \<noteq> dct_token"
      using grow_group_props[OF gg] False by auto
    have xs: "xs = g @ rest" using grow_group_append[OF gg] by simp
    have IH: "list_all2 leg_rewritten rest (snd (fold_legs rest))"
      using 2(2)[OF False gg[symmetric] refl refl] by simp
    have hd_r: "hd running \<in> set running" by (rule hd_in_set[OF props(1)])
    have "leg_rewritten y (choose_airway (hd running) y)" if y: "y \<in> set (x # g)" for y
    proof -
      have "hd running \<in> set (snd y)" using y hd_r props(2,3) by (cases "y = x") auto
      moreover have "rl_via (fst y) \<noteq> dct_token" using y props(3) False by auto
      ultimately show ?thesis by (auto simp: leg_rewritten_def choose_airway_def)
    qed
    then have "list_all2 leg_rewritten (x # g) (map (choose_airway (hd running)) (x # g))"
      unfolding list.rel_map by (rule list.rel_refl_strong)
    then have "list_all2 leg_rewritten ((x # g) @ rest)
        (map (choose_airway (hd running)) (x # g) @ snd (fold_legs rest))"
      using IH by (rule list_all2_appendI)
    then show ?thesis using fold_legs_group[OF False gg] xs by simp
  qed
qed

text \<open>
  Folding is stable: folding the legs that a fold has rewritten yields the same string.
  The rewritten legs carry single designators, so a second fold groups exactly as the first.
\<close>

definition refold :: "route_leg list \<Rightarrow> (route_leg \<times> string list) list" where
  "refold ls = map (\<lambda>l. (l, split_designators (rl_via l))) ls"

lemma grow_group_same:
  assumes "\<forall>y \<in> set g. snd y = [a] \<and> rl_via (fst y) \<noteq> dct_token"
    and "rest = [] \<or> rl_via (fst (hd rest)) = dct_token \<or> a \<notin> set (snd (hd rest))"
  shows "grow_group [a] (g @ rest) = ([a], g, rest)"
  using assms
proof (induction g)
  case Nil
  then show ?case by (cases rest) (auto simp: intersect_def)
next
  case (Cons y ys)
  then show ?case by (auto simp: intersect_def)
qed

text \<open>Designator lists without the reserved word; only then is DCT never chosen as an airway.\<close>

definition splits_ok :: "(route_leg \<times> string list) list \<Rightarrow> bool" where
  "splits_ok xs \<longleftrightarrow>
     (\<forall>x \<in> set xs. snd x = split_designators (rl_via (fst x)) \<and>
        (rl_via (fst x) \<noteq> dct_token \<longrightarrow> dct_token \<notin> set (snd x)))"

lemma splits_ok_append [simp]: "splits_ok (xs @ ys) \<longleftrightarrow> splits_ok xs \<and> splits_ok ys"
  by (auto simp: splits_ok_def)

lemma splits_ok_Cons [simp]:
  "splits_ok (x # ys) \<longleftrightarrow> snd x = split_designators (rl_via (fst x)) \<and>
     (rl_via (fst x) \<noteq> dct_token \<longrightarrow> dct_token \<notin> set (snd x)) \<and> splits_ok ys"
  by (auto simp: splits_ok_def)

lemma fold_legs_head:
  assumes "xs \<noteq> []" "splits_ok xs"
  shows "let l = hd (snd (fold_legs xs)) in snd (fold_legs xs) \<noteq> [] \<and>
    (if rl_via (fst (hd xs)) = dct_token \<or> snd (hd xs) = []
     then rl_via l = rl_via (fst (hd xs)) else rl_via l \<in> set (snd (hd xs)))"
proof -
  have "list_all2 leg_rewritten xs (snd (fold_legs xs))" by (rule fold_legs_rewritten)
  with assms(1) show ?thesis
    by (cases xs; cases "snd (fold_legs xs)") (auto simp: leg_rewritten_def split: if_splits)
qed

lemma fold_legs_stable:
  "splits_ok xs \<Longrightarrow> fst (fold_legs (refold (snd (fold_legs xs)))) = fst (fold_legs xs)"
proof (induction xs rule: fold_legs.induct)
  case 1
  then show ?case by (simp add: refold_def)
next
  case (2 x xs)
  show ?case
  proof (cases "rl_via (fst x) = dct_token \<or> snd x = []")
    case True
    have IH: "fst (fold_legs (refold (snd (fold_legs xs)))) = fst (fold_legs xs)"
      using 2(1)[OF True] "2.prems" by simp
    let ?l = "(fst x)\<lparr>rl_concurrent_airways := []\<rparr>"
    have f: "fold_legs (x # xs) = ('' DCT '' @ rl_to (fst x) @ fst (fold_legs xs), ?l # snd (fold_legs xs))"
      using fold_legs_direct[OF True] by simp
    have "rl_via ?l = dct_token \<or> split_designators (rl_via ?l) = []"
      using True "2.prems" by auto
    then have "fst (fold_legs (refold (?l # snd (fold_legs xs)))) =
        '' DCT '' @ rl_to (fst x) @ fst (fold_legs (refold (snd (fold_legs xs))))"
      by (simp add: refold_def fold_legs_direct)
    with IH f show ?thesis by simp
  next
    case False
    obtain running g rest where gg: "grow_group (snd x) xs = (running, g, rest)"
      by (metis prod_cases3)
    have props: "running \<noteq> []" "set running \<subseteq> set (snd x)"
      "\<forall>y \<in> set g. set running \<subseteq> set (snd y) \<and> rl_via (fst y) \<noteq> dct_token"
      "rest \<noteq> [] \<longrightarrow> rl_via (fst (hd rest)) = dct_token \<or> set running \<inter> set (snd (hd rest)) = {}"
      using grow_group_props[OF gg] False by auto
    have xs: "xs = g @ rest" using grow_group_append[OF gg] by simp
    let ?a = "hd running"
    have a: "?a \<in> set running" by (rule hd_in_set[OF props(1)])
    moreover from this have "?a \<in> set (snd x)" using props(2) by (rule subsetD[rotated])
    ultimately have a': "?a \<in> set running" "?a \<in> set (snd x)" by simp_all
    have des: "is_designator ?a" "?a \<noteq> dct_token"
      using a'(2) "2.prems" False split_designators_designators by auto
    have ok: "splits_ok rest" using "2.prems" xs by simp
    have IH: "fst (fold_legs (refold (snd (fold_legs rest)))) = fst (fold_legs rest)"
      using 2(2)[OF False gg[symmetric] refl refl refl ok] .
    let ?ls = "map (choose_airway ?a) (x # g)" and ?r = "snd (fold_legs rest)"
    have f: "fold_legs (x # xs) = ('' '' @ ?a @ '' '' @ rl_to (fst (last (x # g))) @ fst (fold_legs rest), ?ls @ ?r)"
      using fold_legs_group[OF False gg] by simp
    have via: "l \<in> set ?ls \<Longrightarrow> rl_via l = ?a" for l by (auto simp: choose_airway_def)
    have hdr: "refold ?r = [] \<or> rl_via (fst (hd (refold ?r))) = dct_token \<or>
        ?a \<notin> set (snd (hd (refold ?r)))"
    proof (cases "rest = []")
      case True
      then show ?thesis by (simp add: refold_def)
    next
      case ne: False
      let ?h = "hd ?r"
      have r_ne: "?r \<noteq> []" and h: "if rl_via (fst (hd rest)) = dct_token \<or> snd (hd rest) = []
          then rl_via ?h = rl_via (fst (hd rest)) else rl_via ?h \<in> set (snd (hd rest))"
        using fold_legs_head[OF ne ok] by (auto simp: Let_def)
      have hd_refold: "hd (refold ?r) = (?h, split_designators (rl_via ?h))"
        using r_ne by (simp add: refold_def hd_map)
      have hd_ok: "snd (hd rest) = split_designators (rl_via (fst (hd rest)))"
        using ok ne by (cases rest) auto
      show ?thesis
      proof (cases "rl_via (fst (hd rest)) = dct_token \<or> snd (hd rest) = []")
        case True
        with h hd_refold hd_ok show ?thesis by auto
      next
        case nd: False
        then have "rl_via ?h \<in> set (snd (hd rest))" using h by simp
        moreover from this have "is_designator (rl_via ?h)"
          using hd_ok split_designators_designators by simp
        moreover have "?a \<notin> set (snd (hd rest))" using props(4) nd ne a by auto
        ultimately show ?thesis using hd_refold by (auto simp: split_designators_single)
      qed
    qed
    have cx: "refold ?ls = map (\<lambda>l. (l, [?a])) ?ls"
      unfolding refold_def
      by (rule map_cong[OF refl]) (simp only: via split_designators_single[OF des(1)])
    have grp: "grow_group [?a] (map (\<lambda>l. (l, [?a])) (map (choose_airway ?a) g) @ refold ?r) =
        ([?a], map (\<lambda>l. (l, [?a])) (map (choose_airway ?a) g), refold ?r)"
      by (rule grow_group_same) (use des hdr in \<open>auto simp: choose_airway_def\<close>)
    have ra: "refold (?ls @ ?r) = (choose_airway ?a x, [?a]) #
        (map (\<lambda>l. (l, [?a])) (map (choose_airway ?a) g) @ refold ?r)"
      using cx by (simp add: refold_def)
    let ?c = "(choose_airway ?a x, [?a])" and ?cg = "map (\<lambda>l. (l, [?a])) (map (choose_airway ?a) g)"
    have last: "rl_to (fst (last (?c # ?cg))) = rl_to (fst (last (x # g)))"
      by (cases g rule: rev_cases) (simp_all add: choose_airway_def)
    have nd: "\<not> (rl_via (fst ?c) = dct_token \<or> snd ?c = [])"
      using des by (simp add: choose_airway_def)
    have gc: "grow_group (snd ?c) (?cg @ refold ?r) = ([?a], ?cg, refold ?r)"
      using grp by simp
    have "fst (fold_legs (refold (?ls @ ?r))) =
        '' '' @ ?a @ '' '' @ rl_to (fst (last (x # g))) @ fst (fold_legs (refold ?r))"
      unfolding ra fold_legs_group[OF nd gc] last fst_conv list.sel by (rule refl)
    with IH f show ?thesis by simp
  qed
qed

section \<open>CumulativeDistances\<close>

definition cumulative_distances :: "route_leg list \<Rightarrow> real list" where
  "cumulative_distances legs =
     snd (foldl (\<lambda>(running, out) leg. (running + rl_distance_nm leg, out @ [running + rl_distance_nm leg]))
       (0, []) legs)"

lemma cumulative_distances_nth:
  "length (cumulative_distances legs) = length legs \<and>
   (\<forall>i < length legs. cumulative_distances legs ! i = sum_list (map rl_distance_nm (take (Suc i) legs)))"
proof -
  have "foldl (\<lambda>(running, out) leg. (running + rl_distance_nm leg, out @ [running + rl_distance_nm leg]))
      (0, []) legs = (sum_list (map rl_distance_nm legs),
        map (\<lambda>i. sum_list (map rl_distance_nm (take (Suc i) legs))) [0..<length legs])"
    by (induction legs rule: rev_induct) auto
  then show ?thesis by (simp add: cumulative_distances_def)
qed

section \<open>Properties\<close>

text \<open>
  Tokenizing a typed route yields upper-cased, non-empty tokens without white space, and it is a
  normal form: printing the tokens separated by one blank and tokenizing again gives the same tokens.
\<close>

theorem tokenize_route_normal_form:
  "list_all is_token (tokenize_route s) \<and>
   tokenize_route (unwords (tokenize_route s)) = tokenize_route s"
  using tokenize_route_tokens tokenize_route_unwords by (auto simp: list_all_iff)

text \<open>
  Splitting an airway field on hyphens inverts joining: any list of non-empty, hyphen-free
  designators survives being written as one hyphenated field.
\<close>

theorem split_designators_roundtrip:
  assumes "list_all is_designator ds"
  shows "split_designators (join_hyphen ds) = ds"
  by (rule split_designators_join [OF assms])

lemma split_designators_roundtrip_witness:
  "list_all is_designator [''J80'', ''V16''] \<and> split_designators ''J80-V16'' = [''J80'', ''V16'']"
  using split_designators_roundtrip [of "[''J80'', ''V16'']"] by (simp add: is_designator_def)

text \<open>
  Building the filed route string is stable: the legs it rewrites (one designator per leg) give
  the same string again, so a route can be re-rendered from its stored legs. Needs that \<open>DCT\<close> does
  not hide inside a hyphenated airway field.
\<close>

theorem build_route_string_stable:
  assumes "\<forall>l \<in> set legs. rl_via l = dct_token \<or> dct_token \<notin> set (split_designators (rl_via l))"
  shows "fst (build_route_string p (snd (build_route_string p legs))) = fst (build_route_string p legs)"
proof -
  have "splits_ok (refold legs)" using assms by (auto simp: splits_ok_def refold_def)
  moreover have "build_route_string p ls = (p @ fst (fold_legs (refold ls)), snd (fold_legs (refold ls)))" for ls
    by (simp add: build_route_string_def refold_def Let_def split: prod.split)
  ultimately show ?thesis using fold_legs_stable by simp
qed

definition sample_legs :: "route_leg list" where
  "sample_legs =
     [\<lparr>rl_from = ''KJFK'', rl_to = ''GREKI'', rl_via = ''J80-V16'', rl_distance_nm = 30, rl_concurrent_airways = []\<rparr>,
      \<lparr>rl_from = ''GREKI'', rl_to = ''JUDDS'', rl_via = ''V16'', rl_distance_nm = 12, rl_concurrent_airways = []\<rparr>,
      \<lparr>rl_from = ''JUDDS'', rl_to = ''CAM'', rl_via = ''DCT'', rl_distance_nm = 50, rl_concurrent_airways = []\<rparr>]"

lemma build_route_string_stable_witness:
  "fst (build_route_string ''KJFK'' (snd (build_route_string ''KJFK'' sample_legs))) =
   fst (build_route_string ''KJFK'' sample_legs)"
  by (rule build_route_string_stable)
    (simp add: sample_legs_def dct_token_def split_designators.simps)

text \<open>
  Cumulative distances: one entry per leg, the last one being the total, and each entry exceeding
  the previous by its leg's distance.
\<close>

theorem cumulative_distances_sums:
  "cumulative_distances legs =
     map (\<lambda>i. sum_list (map rl_distance_nm (take (Suc i) legs))) [0..<length legs]"
  using cumulative_distances_nth [of legs] by (auto intro: nth_equalityI)

end
