(* ===== verification/GraphBuilder.thy ===== *)
theory GraphBuilder
  imports NavData NavIndex DegreeGrid RouteText
begin

text \<open>
  \<^verbatim>\<open>io/build/graph_builder.cc\<close>: the builder that turns a dataset into the routing graph, its
  sorted lookup indices and its accessors. \<open>Populate\<close> is one definition per phase: vertices,
  indices, airway names and adjacency, on-network flags, CSR arrays, grid. Distances are ideal
  reals (the cast of an edge's length to float is the identity).
\<close>

section \<open>State\<close>

record graph_builder =
  gb_graph :: nav_graph
  gb_idents :: "fixed_ident list"
  gb_has_outbound :: "u8 list"
  gb_has_inbound :: "u8 list"
  gb_kinds :: "waypoint_kind list"
  gb_first_airport_vertex :: int
  gb_airport_elevations_ft :: "i32 list"
  gb_airway_names :: "string list"
  gb_airway_overflow :: bool
  gb_grid :: "degree_grid option"
  gb_ident_index :: "(fixed_ident \<times> int) list"
  gb_ident_all :: "(fixed_name \<times> int) list"
  gb_airport_index :: "(fixed_name \<times> int) list"

definition graph_builder_empty :: graph_builder where
  "graph_builder_empty =
     \<lparr>gb_graph = \<lparr>ng_coords = [], ng_offsets = [], ng_edges = []\<rparr>, gb_idents = [],
      gb_has_outbound = [], gb_has_inbound = [], gb_kinds = [], gb_first_airport_vertex = 0,
      gb_airport_elevations_ft = [], gb_airway_names = [], gb_airway_overflow = False, gb_grid = None,
      gb_ident_index = [], gb_ident_all = [], gb_airport_index = []\<rparr>"

definition fix_hint_tolerance_nm :: real where "fix_hint_tolerance_nm = 1"

section \<open>Lookups\<close>

text \<open>\<open>FixedName8::From(...).value()\<close>; the identifier always fits (capacity 7 for both).\<close>

definition name_of_fixed :: "fixed_ident \<Rightarrow> fixed_name" where
  "name_of_fixed f = projr (fixed_name_from fixed_name8_cap (ident_view f))"

definition rebuild_indices :: "graph_builder \<Rightarrow> graph_builder" where
  "rebuild_indices b =
     (let v_count = int (length (gb_idents b)); fa = gb_first_airport_vertex b;
          ident_at = (\<lambda>v. gb_idents b ! nat v)
      in b\<lparr>gb_ident_index := sort_by (by_key fixed_ident_less) (map (\<lambda>v. (ident_at v, v)) [0 .. fa - 1]),
           gb_ident_all := sort_by (by_key fixed_name_less) (map (\<lambda>v. (name_of_fixed (ident_at v), v)) [0 .. fa - 1]),
           gb_airport_index :=
             sort_by (by_key fixed_name_less) (map (\<lambda>v. (name_of_fixed (ident_at v), v)) [fa .. v_count - 1])\<rparr>)"

definition vertex_by_fixed :: "graph_builder \<Rightarrow> fixed_ident \<Rightarrow> int" where
  "vertex_by_fixed b key = first_match fixed_ident_less fixed_ident_eq (gb_ident_index b) key"

definition vertex_by_ident :: "graph_builder \<Rightarrow> ident \<Rightarrow> int" where
  "vertex_by_ident b i = (case fixed_ident_from_ident i of Inl _ \<Rightarrow> - 1 | Inr key \<Rightarrow> vertex_by_fixed b key)"

text \<open>The nearest vertex with the key within \<open>max_nm\<close>; the scan keeps the first of equally near ones.\<close>

definition near_step :: "nav_graph \<Rightarrow> point \<Rightarrow> int \<times> real \<Rightarrow> fixed_ident \<times> int \<Rightarrow> int \<times> real" where
  "near_step graph near = (\<lambda>(best, best_nm) e.
     let nm = distance_to near (coord_of graph (snd e)) in
     if nm \<le> best_nm \<and> (best < 0 \<or> nm < best_nm) then (snd e, nm) else (best, best_nm))"

definition vertex_near :: "graph_builder \<Rightarrow> fixed_ident \<Rightarrow> point \<Rightarrow> real \<Rightarrow> int" where
  "vertex_near b key near max_nm =
     fst (foldl (near_step (gb_graph b) near) (- 1, max_nm)
       (equal_run fixed_ident_less fixed_ident_eq (gb_ident_index b) key))"

definition vertices_by_ident :: "graph_builder \<Rightarrow> string \<Rightarrow> int list" where
  "vertices_by_ident b i =
     (case fixed_name_from fixed_name8_cap i of Inl _ \<Rightarrow> []
      | Inr key \<Rightarrow> map snd (equal_run fixed_name_less fixed_name_eq (gb_ident_all b) key))"

definition vertex_by_airport :: "graph_builder \<Rightarrow> string \<Rightarrow> int" where
  "vertex_by_airport b icao =
     (case fixed_name_from fixed_name8_cap icao of Inl _ \<Rightarrow> - 1
      | Inr key \<Rightarrow> first_match fixed_name_less fixed_name_eq (gb_airport_index b) key)"

section \<open>Accessors\<close>

definition has_outbound :: "graph_builder \<Rightarrow> int \<Rightarrow> bool" where
  "has_outbound b v \<longleftrightarrow> 0 \<le> v \<and> v < int (length (gb_has_outbound b)) \<and> gb_has_outbound b ! nat v \<noteq> 0"

definition has_inbound :: "graph_builder \<Rightarrow> int \<Rightarrow> bool" where
  "has_inbound b v \<longleftrightarrow> 0 \<le> v \<and> v < int (length (gb_has_inbound b)) \<and> gb_has_inbound b ! nat v \<noteq> 0"

definition on_network :: "graph_builder \<Rightarrow> int \<Rightarrow> bool" where
  "on_network b v \<longleftrightarrow> has_outbound b v \<or> has_inbound b v"

definition is_airport :: "graph_builder \<Rightarrow> int \<Rightarrow> bool" where
  "is_airport b v \<longleftrightarrow> gb_first_airport_vertex b \<le> v \<and> v < vertex_count (gb_graph b)"

definition airway_name :: "graph_builder \<Rightarrow> int \<Rightarrow> string" where
  "airway_name b airway_id = gb_airway_names b ! nat airway_id"

definition ident_of :: "graph_builder \<Rightarrow> int \<Rightarrow> ident" where
  "ident_of b v = fixed_ident_to_ident (gb_idents b ! nat v)"

definition region_of :: "graph_builder \<Rightarrow> int \<Rightarrow> string" where
  "region_of b v = icao_code_view (gb_idents b ! nat v)"

definition kind_of :: "graph_builder \<Rightarrow> int \<Rightarrow> waypoint_kind" where
  "kind_of b v = gb_kinds b ! nat v"

definition elevation_of :: "graph_builder \<Rightarrow> int \<Rightarrow> i32" where
  "elevation_of b v =
     (if v < gb_first_airport_vertex b \<or> int (length (gb_idents b)) \<le> v then 0
      else gb_airport_elevations_ft b ! nat (v - gb_first_airport_vertex b))"

section \<open>Building\<close>

definition push_vertex :: "point \<Rightarrow> fixed_ident \<Rightarrow> waypoint_kind \<Rightarrow> graph_builder \<Rightarrow> graph_builder" where
  "push_vertex coord f kind b =
     b\<lparr>gb_graph := (gb_graph b)\<lparr>ng_coords := ng_coords (gb_graph b) @ [coord]\<rparr>,
       gb_idents := gb_idents b @ [f], gb_kinds := gb_kinds b @ [kind]\<rparr>"

primrec load_waypoints :: "waypoint list \<Rightarrow> graph_builder \<Rightarrow> graph_builder result" where
  "load_waypoints [] b = Inr b"
| "load_waypoints (w # ws) b =
     (if \<not> is_graph_vertex_kind (wp_kind w) then
        Inl (mk_error KInvalidArgument
          (''waypoint '' @ [CHR 0x27] @ id_ident (wp_ident w) @ ''/'' @ id_icao_code (wp_ident w) @
           [CHR 0x27] @ '' has a kind that is never a graph vertex''))
      else case fixed_ident_from_ident (wp_ident w) of
          Inl e \<Rightarrow> Inl e
        | Inr f \<Rightarrow> load_waypoints ws (push_vertex (wp_coord w) f (wp_kind w) b))"

primrec load_airports :: "airport list \<Rightarrow> graph_builder \<Rightarrow> graph_builder result" where
  "load_airports [] b = Inr b"
| "load_airports (a # as) b =
     (case fixed_ident_from_parts (ap_icao a) (ap_icao_code a) of
        Inl e \<Rightarrow> Inl e
      | Inr f \<Rightarrow> load_airports as ((push_vertex (ap_coord a) f KFix b)
          \<lparr>gb_airport_elevations_ft := gb_airport_elevations_ft b @ [ap_elevation_ft a]\<rparr>))"

text \<open>The airway-name table and the adjacency lists while the connections are resolved.\<close>

record airway_wiring =
  aw_names :: "string list"
  aw_name_to_id :: "string \<rightharpoonup> int"
  aw_overflow :: bool
  aw_adj :: "real graph_edge list list"

definition airway_id_for :: "string \<Rightarrow> airway_wiring \<Rightarrow> int \<times> airway_wiring" where
  "airway_id_for name w =
     (case aw_name_to_id w name of
        Some i \<Rightarrow> (i, w)
      | None \<Rightarrow>
          let i = int (length (aw_names w)) in
          if 0xFFFF < i then (- 1, w\<lparr>aw_overflow := True\<rparr>)
          else (i, w\<lparr>aw_names := aw_names w @ [name], aw_name_to_id := (aw_name_to_id w)(name \<mapsto> i)\<rparr>))"

definition add_edge :: "nav_graph \<Rightarrow> int \<Rightarrow> int \<Rightarrow> int \<Rightarrow> airway_segment \<Rightarrow> airway_wiring \<Rightarrow> airway_wiring" where
  "add_edge graph from to airway_id s w =
     (if airway_id < 0 then w
      else
        let edge = \<lparr>ge_to = word_of_int to, ge_distance_nm = distance_to (coord_of graph from) (coord_of graph to),
              ge_airway_id = word_of_int airway_id, ge_base_fl = word_of_int (as_base_fl s),
              ge_top_fl = word_of_int (as_top_fl s), ge_level = as_level s\<rparr>
        in w\<lparr>aw_adj := (aw_adj w)[nat from := aw_adj w ! nat from @ [edge]]\<rparr>)"

definition resolve_endpoint :: "graph_builder \<Rightarrow> ident \<Rightarrow> point option \<Rightarrow> int" where
  "resolve_endpoint b i hint =
     (case hint of
        None \<Rightarrow> vertex_by_ident b i
      | Some near \<Rightarrow>
          (case fixed_ident_from_ident i of Inl _ \<Rightarrow> - 1
           | Inr key \<Rightarrow> vertex_near b key near fix_hint_tolerance_nm))"

definition wire_connection :: "graph_builder \<Rightarrow> airway_wiring \<Rightarrow> airway_connection \<Rightarrow> airway_wiring" where
  "wire_connection b w conn =
     (let from = resolve_endpoint b (ac_from conn) (ac_from_hint conn);
          to = resolve_endpoint b (ac_to conn) (ac_to_hint conn); s = ac_segment conn
      in if from < 0 \<or> to < 0 then w
         else
           let (i, w) = airway_id_for (as_name s) w;
               w = (if as_direction s \<noteq> DirBackward then add_edge (gb_graph b) from to i s w else w)
           in if as_direction s \<noteq> DirForward then add_edge (gb_graph b) to from i s w else w)"

definition wire_airways :: "graph_builder \<Rightarrow> airway_connection list \<Rightarrow> airway_wiring" where
  "wire_airways b conns =
     foldl (wire_connection b)
       \<lparr>aw_names = [dct_token], aw_name_to_id = Map.empty, aw_overflow = False,
        aw_adj = replicate (length (gb_idents b)) []\<rparr> conns"

text \<open>The on-network flags, from the adjacency lists.\<close>

definition outbound_flags :: "real graph_edge list list \<Rightarrow> u8 list" where
  "outbound_flags adj = map (\<lambda>es. if es \<noteq> [] then 1 else 0) adj"

definition inbound_flags :: "real graph_edge list list \<Rightarrow> u8 list" where
  "inbound_flags adj =
     foldl (\<lambda>flags es. foldl (\<lambda>flags e. flags[nat (edge_to e) := 1]) flags es) (replicate (length adj) 0) adj"

text \<open>The running offsets.\<close>

definition offsets_of :: "real graph_edge list list \<Rightarrow> int list" where
  "offsets_of adj = foldl (\<lambda>offs es. offs @ [last offs + int (length es)]) [0] adj"

definition rebuild_grid :: "graph_builder \<Rightarrow> graph_builder" where
  "rebuild_grid b =
     b\<lparr>gb_grid := Some (degree_grid_new
         (map (\<lambda>v. (key_for_coord (coord_of (gb_graph b) v), v))
           (filter (\<lambda>v. on_globe (coord_of (gb_graph b) v)) [0 .. gb_first_airport_vertex b - 1])))\<rparr>"

definition flatten_csr :: "airway_wiring \<Rightarrow> graph_builder \<Rightarrow> graph_builder" where
  "flatten_csr w b =
     b\<lparr>gb_airway_names := aw_names w, gb_airway_overflow := aw_overflow w,
       gb_has_outbound := outbound_flags (aw_adj w), gb_has_inbound := inbound_flags (aw_adj w),
       gb_graph := (gb_graph b)\<lparr>ng_offsets := offsets_of (aw_adj w), ng_edges := concat (aw_adj w)\<rparr>\<rparr>"

definition populate :: "nav_data \<Rightarrow> graph_builder \<Rightarrow> graph_builder result" where
  "populate data b =
     (case load_waypoints (nd_waypoints data) b of
        Inl e \<Rightarrow> Inl e
      | Inr b \<Rightarrow>
          (case load_airports (nd_airports data) b of
             Inl e \<Rightarrow> Inl e
           | Inr b \<Rightarrow>
               let b = rebuild_indices (b\<lparr>gb_first_airport_vertex := int (length (nd_waypoints data))\<rparr>)
               in Inr (rebuild_grid (flatten_csr (wire_airways b (nd_airways data)) b))))"

definition build :: "nav_data \<Rightarrow> graph_builder result" where
  "build data = populate data graph_builder_empty"

section \<open>Snapshots\<close>

definition from_snapshot :: "(real, real) graph_snapshot \<Rightarrow> graph_builder" where
  "from_snapshot s =
     rebuild_grid (rebuild_indices (graph_builder_empty
       \<lparr>gb_graph := \<lparr>ng_coords = gs_coords s, ng_offsets = gs_offsets s, ng_edges = gs_edges s\<rparr>,
        gb_idents := gs_idents s, gb_has_outbound := gs_has_outbound s, gb_has_inbound := gs_has_inbound s,
        gb_kinds := gs_kinds s, gb_airport_elevations_ft := gs_airport_elevations_ft s,
        gb_airway_names := gs_airway_names s, gb_first_airport_vertex := gs_first_airport_vertex s\<rparr>))"

text \<open>The grid and the sectors are the caller's to fill.\<close>

definition to_snapshot :: "graph_builder \<Rightarrow> (real, real) graph_snapshot" where
  "to_snapshot b =
     \<lparr>gs_first_airport_vertex = gb_first_airport_vertex b, gs_coords = ng_coords (gb_graph b),
      gs_offsets = ng_offsets (gb_graph b), gs_edges = ng_edges (gb_graph b),
      gs_has_outbound = gb_has_outbound b, gs_has_inbound = gb_has_inbound b, gs_idents = gb_idents b,
      gs_kinds = gb_kinds b, gs_airway_names = gb_airway_names b, gs_mora = mora_grid_empty, gs_msa = [],
      gs_airport_elevations_ft = gb_airport_elevations_ft b\<rparr>"

end
