(* ===== verification/ForcedRouter.thy ===== *)
theory ForcedRouter
  imports RouteSearch GraphBuilder BinaryHeap
begin

text \<open>
  \<^verbatim>\<open>io/navdb/forced_router.cc\<close>: routing through an ordered list of forced ("via") vertices. Each hop is
  searched for up to \<open>k\<close> candidates, the combinations are enumerated best-first over two binary heaps, and
  when every combination repeats a vertex one route is built greedily. A search that does not return would
  make the result \<open>None\<close>.
\<close>

section \<open>StitchAndCost\<close>

text \<open>The concatenation loop; \<open>None\<close> for an empty part or a seam that does not meet.\<close>

primrec join_parts :: "int list \<Rightarrow> int list list \<Rightarrow> int list option" where
  "join_parts path [] = Some path"
| "join_parts path (part # parts) =
     (if part = [] then None
      else if path = [] then join_parts part parts
      else if last path \<noteq> hd part then None
      else join_parts (path @ tl part) parts)"

definition stitch_and_cost ::
  "nav_graph \<Rightarrow> int list list \<Rightarrow> real list \<Rightarrow> real list \<Rightarrow> real list \<Rightarrow> real list \<Rightarrow> search_options \<Rightarrow>
   shortest_path" where
  "stitch_and_cost graph parts source_seed goal_seed source_bearing goal_bearing options =
     (case join_parts [] parts of None \<Rightarrow> shortest_path_default
      | Some path \<Rightarrow>
          if \<not> distinct path then shortest_path_default
          else case cost_of_path_multi graph path source_seed goal_seed source_bearing goal_bearing options of
              None \<Rightarrow> shortest_path_default
            | Some (cost, distance) \<Rightarrow>
                \<lparr>sp_vertices = path, sp_distance_nm = distance, sp_cost = Fin cost, sp_found = True\<rparr>)"

section \<open>ResolvePoint\<close>

definition point_tier :: "graph_builder \<Rightarrow> int \<Rightarrow> nat" where
  "point_tier b v =
     (if has_inbound b v \<and> has_outbound b v then 0 else if on_network b v then 1 else 2)"

text \<open>The loop over the matches: the best vertex with its tier and detour, and whether an airport was seen.\<close>

definition point_step ::
  "graph_builder \<Rightarrow> point \<Rightarrow> point \<Rightarrow> int \<times> nat \<times> real \<times> bool \<Rightarrow> int \<Rightarrow> int \<times> nat \<times> real \<times> bool" where
  "point_step b from to = (\<lambda>(best, best_tier, best_detour, saw_airport) v.
     if is_airport b v then (best, best_tier, best_detour, True)
     else
       let c = coord_of (gb_graph b) v; detour = distance_to from c + distance_to c to; t = point_tier b v in
       if best < 0 \<or> t < best_tier \<or> t = best_tier \<and> detour < best_detour
       then (v, t, detour, saw_airport) else (best, best_tier, best_detour, saw_airport))"

record resolved_point =
  rp_vertex :: int
  rp_echo :: string
  rp_is_airport :: bool

definition point_echo :: "ident \<Rightarrow> string" where
  "point_echo i = id_ident i @ ''/'' @ id_icao_code i"

text \<open>A failed resolution leaves \<open>echo\<close> as the caller passed it: empty.\<close>

definition resolve_point :: "graph_builder \<Rightarrow> string \<Rightarrow> point \<Rightarrow> point \<Rightarrow> resolved_point" where
  "resolve_point b token from to =
     (let up = to_upper token; failed = \<lparr>rp_vertex = - 1, rp_echo = [], rp_is_airport = False\<rparr> in
      if CHR ''/'' \<in> set up then
        let i = \<lparr>id_ident = takeWhile (\<lambda>c. c \<noteq> CHR ''/'') up,
                 id_icao_code = tl (dropWhile (\<lambda>c. c \<noteq> CHR ''/'') up)\<rparr>;
            v = vertex_by_ident b i
        in if v < 0 then failed
           else if is_airport b v then failed\<lparr>rp_is_airport := True\<rparr>
           else \<lparr>rp_vertex = v, rp_echo = point_echo i, rp_is_airport = False\<rparr>
      else
        case foldl (point_step b from to) (- 1, 0, 0, False) (vertices_by_ident b up) of
          (best, _, _, saw_airport) \<Rightarrow>
            if best < 0 then failed\<lparr>rp_is_airport := saw_airport\<rparr>
            else \<lparr>rp_vertex = best, rp_echo = point_echo (ident_of b best), rp_is_airport = False\<rparr>)"

section \<open>FindPaths: the hops\<close>

definition via_endpoint :: "int \<Rightarrow> real \<Rightarrow> seeded_endpoint" where
  "via_endpoint v bearing = \<lparr>se_vertex = v, se_cost = 0, se_bearing = bearing\<rparr>"

definition hop_sources :: "seeded_endpoint list \<Rightarrow> int list \<Rightarrow> real \<Rightarrow> nat \<Rightarrow> seeded_endpoint list" where
  "hop_sources sources forced bearing h =
     (if h = 0 then sources else [via_endpoint (forced ! (h - 1)) bearing])"

definition hop_goals :: "seeded_endpoint list \<Rightarrow> int list \<Rightarrow> nat \<Rightarrow> seeded_endpoint list" where
  "hop_goals goals forced h = (if h = length forced then goals else [via_endpoint (forced ! h) no_bearing])"

definition cost_less :: "shortest_path \<Rightarrow> shortest_path \<Rightarrow> bool" where
  "cost_less a b \<longleftrightarrow> sp_cost a < sp_cost b"

text \<open>The candidates of every hop; \<open>Some None\<close> when a hop is unroutable.\<close>

primrec hop_segments ::
  "nat list \<Rightarrow> nav_graph \<Rightarrow> seeded_endpoint list \<Rightarrow> seeded_endpoint list \<Rightarrow> int list \<Rightarrow> int \<Rightarrow>
   search_options \<Rightarrow> shortest_path list list option option" where
  "hop_segments [] graph sources goals forced k options = Some (Some [])"
| "hop_segments (h # hs) graph sources goals forced k options =
     (case find_k_shortest_paths_multi graph (hop_sources sources forced no_bearing h)
             (hop_goals goals forced h) k options of
        None \<Rightarrow> None
      | Some cands \<Rightarrow>
          if cands = [] then Some None
          else case hop_segments hs graph sources goals forced k options of
              None \<Rightarrow> None
            | Some None \<Rightarrow> Some None
            | Some (Some segments) \<Rightarrow> Some (Some (sort_by cost_less cands # segments)))"

section \<open>FindPaths: best-first enumeration\<close>

definition max_stitched_picks :: nat where "max_stitched_picks = 4096"

record pick_item =
  pi_lower :: cost
  pi_pick :: "nat list"
  pi_last :: nat

record merge_state =
  ms_results :: "shortest_path list"
  ms_frontier :: "pick_item list"
  ms_ready :: "shortest_path list"
  ms_explored :: nat

definition pick_parts :: "shortest_path list list \<Rightarrow> nat list \<Rightarrow> int list list" where
  "pick_parts segments pick = map (\<lambda>h. sp_vertices (segments ! h ! (pick ! h))) [0..<length segments]"

definition lower_of :: "shortest_path list list \<Rightarrow> nat list \<Rightarrow> cost" where
  "lower_of segments pick = foldl (\<lambda>s h. s + sp_cost (segments ! h ! (pick ! h))) (Fin 0) [0..<length segments]"

definition route_key :: "shortest_path \<Rightarrow> cost \<times> int list" where
  "route_key r = (sp_cost r, sp_vertices r)"

definition expand_hop ::
  "shortest_path list list \<Rightarrow> pick_item \<Rightarrow> pick_item list \<Rightarrow> nat \<Rightarrow> pick_item list" where
  "expand_hop segments item frontier h =
     (if Suc (pi_pick item ! h) < length (segments ! h)
      then
        let pick = (pi_pick item)[h := Suc (pi_pick item ! h)]
        in heap_push pi_lower frontier \<lparr>pi_lower = lower_of segments pick, pi_pick = pick, pi_last = h\<rparr>
      else frontier)"

definition explore_pick ::
  "(nat list \<Rightarrow> shortest_path) \<Rightarrow> shortest_path list list \<Rightarrow> merge_state \<Rightarrow> merge_state" where
  "explore_pick stitch segments st =
     (case heap_take pi_lower (ms_frontier st) of
        (item, frontier) \<Rightarrow>
          let stitched = stitch (pi_pick item) in
          st\<lparr>ms_explored := ms_explored st + 1,
             ms_ready := (if sp_found stitched then heap_push route_key (ms_ready st) stitched else ms_ready st),
             ms_frontier := foldl (expand_hop segments item) frontier [pi_last item..<length segments]\<rparr>)"

definition emit_ready :: "merge_state \<Rightarrow> merge_state" where
  "emit_ready st =
     (case heap_take route_key (ms_ready st) of
        (r, ready) \<Rightarrow> st\<lparr>ms_results := ms_results st @ [r], ms_ready := ready\<rparr>)"

definition can_explore :: "merge_state \<Rightarrow> bool" where
  "can_explore st \<longleftrightarrow> ms_frontier st \<noteq> [] \<and> ms_explored st < max_stitched_picks"

definition can_emit :: "merge_state \<Rightarrow> bool" where
  "can_emit st \<longleftrightarrow> ms_ready st \<noteq> [] \<and>
     (\<not> can_explore st \<or> sp_cost (hd (ms_ready st)) \<le> pi_lower (hd (ms_frontier st)))"

function merge_loop ::
  "(nat list \<Rightarrow> shortest_path) \<Rightarrow> shortest_path list list \<Rightarrow> int \<Rightarrow> merge_state \<Rightarrow> merge_state" where
  "merge_loop stitch segments k st =
     (if k \<le> int (length (ms_results st)) then st
      else if can_emit st then merge_loop stitch segments k (emit_ready st)
      else if \<not> can_explore st then st
      else merge_loop stitch segments k (explore_pick stitch segments st))"
  by pat_completeness auto
termination
  by (relation "measure (\<lambda>(stitch, segments, k, st).
        nat (k - int (length (ms_results st))) + (max_stitched_picks - ms_explored st))")
    (auto simp: emit_ready_def explore_pick_def can_explore_def Let_def split: prod.split)

declare merge_loop.simps [simp del]

definition merge_start :: "shortest_path list list \<Rightarrow> merge_state" where
  "merge_start segments =
     (let root = replicate (length segments) 0 in
      \<lparr>ms_results = [],
       ms_frontier = [\<lparr>pi_lower = lower_of segments root, pi_pick = root, pi_last = 0\<rparr>],
       ms_ready = [], ms_explored = 0\<rparr>)"

section \<open>FindPaths: the greedy fallback\<close>

definition hop_banned :: "int list \<Rightarrow> int list \<Rightarrow> nat \<Rightarrow> search_options \<Rightarrow> int list" where
  "hop_banned path forced h options =
     remdups_adj (sort (butlast path @ drop (Suc h) forced @
       (case nf_banned (so_node_filter options) of None \<Rightarrow> [] | Some banned \<Rightarrow> banned)))"

primrec greedy_hops ::
  "nat list \<Rightarrow> nav_graph \<Rightarrow> seeded_endpoint list \<Rightarrow> seeded_endpoint list \<Rightarrow> int list \<Rightarrow>
   search_options \<Rightarrow> int list \<Rightarrow> int list option option" where
  "greedy_hops [] graph sources goals forced options path = Some (Some path)"
| "greedy_hops (h # hs) graph sources goals forced options path =
     (let hop_options = options\<lparr>so_node_filter :=
            (so_node_filter options)\<lparr>nf_banned := Some (hop_banned path forced h options)\<rparr>\<rparr>;
          arrival_bearing = (if 2 \<le> length path
            then bearing_to (coord_of graph (path ! (length path - 2))) (coord_of graph (last path))
            else no_bearing)
      in case find_shortest_path_multi graph (hop_sources sources forced arrival_bearing h)
                (hop_goals goals forced h) hop_options of
          None \<Rightarrow> None
        | Some leg \<Rightarrow>
            if \<not> sp_found leg \<or> sp_vertices leg = [] then Some None
            else greedy_hops hs graph sources goals forced options
              (path @ (if path = [] then sp_vertices leg else tl (sp_vertices leg))))"

section \<open>FindPaths\<close>

text \<open>One combination stitched and priced under the tables of the whole route.\<close>

definition stitch_for ::
  "nav_graph \<Rightarrow> seeded_endpoint list \<Rightarrow> seeded_endpoint list \<Rightarrow> search_options \<Rightarrow> int list list \<Rightarrow> shortest_path" where
  "stitch_for graph sources goals options parts =
     stitch_and_cost graph parts (build_seed_table sources (vertex_count graph))
       (build_seed_table goals (vertex_count graph)) (build_bearing_table sources (vertex_count graph))
       (build_bearing_table goals (vertex_count graph)) options"

definition find_paths ::
  "nav_graph \<Rightarrow> seeded_endpoint list \<Rightarrow> seeded_endpoint list \<Rightarrow> int list \<Rightarrow> int \<Rightarrow> search_options \<Rightarrow>
   shortest_path list option" where
  "find_paths graph sources goals forced k options =
     (if k \<le> 0 \<or> forced = [] then Some []
      else
        let hops = [0..<Suc (length forced)]; stitch = stitch_for graph sources goals options
        in case hop_segments hops graph sources goals forced k options of
            None \<Rightarrow> None
          | Some None \<Rightarrow> Some []
          | Some (Some segments) \<Rightarrow>
              let results = ms_results (merge_loop (\<lambda>pick. stitch (pick_parts segments pick)) segments k
                    (merge_start segments))
              in if results \<noteq> [] then Some results
                 else case greedy_hops hops graph sources goals forced options [] of
                     None \<Rightarrow> None
                   | Some None \<Rightarrow> Some []
                   | Some (Some path) \<Rightarrow>
                       let greedy = stitch [path]
                       in Some (if sp_found greedy then [greedy] else []))"

end
