(* ===== verification/GraphBuilderCorrect.thy ===== *)
theory GraphBuilderCorrect
  imports GraphBuilder
begin

text \<open>
  What \<^verbatim>\<open>io/build/graph_builder.cc\<close> builds: a well-formed graph whose vertices are the waypoints
  followed by the airports, whose edges are exactly the resolved airway segments in their allowed
  directions, flags that agree with the edges, and lookups that find what was loaded.
\<close>

section \<open>Loading the vertices\<close>

lemma load_waypoints_spec:
  "load_waypoints ws b = Inr b' \<Longrightarrow>
   \<exists>fs. list_all2 (\<lambda>w f. fixed_ident_from_ident (wp_ident w) = Inr f \<and> is_graph_vertex_kind (wp_kind w)) ws fs \<and>
     b' = b\<lparr>gb_graph := (gb_graph b)\<lparr>ng_coords := ng_coords (gb_graph b) @ map wp_coord ws\<rparr>,
            gb_idents := gb_idents b @ fs, gb_kinds := gb_kinds b @ map wp_kind ws\<rparr>"
proof (induction ws arbitrary: b)
  case (Cons w ws)
  then obtain f where f: "is_graph_vertex_kind (wp_kind w)" "fixed_ident_from_ident (wp_ident w) = Inr f"
    "load_waypoints ws (push_vertex (wp_coord w) f (wp_kind w) b) = Inr b'"
    by (auto split: if_splits sum.splits)
  from Cons.IH [OF f(3)] obtain fs where
    "list_all2 (\<lambda>w f. fixed_ident_from_ident (wp_ident w) = Inr f \<and> is_graph_vertex_kind (wp_kind w)) ws fs"
    "b' = (push_vertex (wp_coord w) f (wp_kind w) b)
       \<lparr>gb_graph := (gb_graph (push_vertex (wp_coord w) f (wp_kind w) b))
          \<lparr>ng_coords := ng_coords (gb_graph (push_vertex (wp_coord w) f (wp_kind w) b)) @ map wp_coord ws\<rparr>,
        gb_idents := gb_idents (push_vertex (wp_coord w) f (wp_kind w) b) @ fs,
        gb_kinds := gb_kinds (push_vertex (wp_coord w) f (wp_kind w) b) @ map wp_kind ws\<rparr>" by blast
  then show ?case using f by (intro exI [of _ "f # fs"]) (simp add: push_vertex_def)
qed simp

lemma load_airports_spec:
  "load_airports as b = Inr b' \<Longrightarrow>
   \<exists>fs. list_all2 (\<lambda>a f. fixed_ident_from_parts (ap_icao a) (ap_icao_code a) = Inr f) as fs \<and>
     b' = b\<lparr>gb_graph := (gb_graph b)\<lparr>ng_coords := ng_coords (gb_graph b) @ map ap_coord as\<rparr>,
            gb_idents := gb_idents b @ fs, gb_kinds := gb_kinds b @ map (\<lambda>_. KFix) as,
            gb_airport_elevations_ft := gb_airport_elevations_ft b @ map ap_elevation_ft as\<rparr>"
proof (induction "as" arbitrary: b)
  case (Cons a "as")
  let ?b = "\<lambda>f. (push_vertex (ap_coord a) f KFix b)
          \<lparr>gb_airport_elevations_ft := gb_airport_elevations_ft b @ [ap_elevation_ft a]\<rparr>"
  obtain f where f: "fixed_ident_from_parts (ap_icao a) (ap_icao_code a) = Inr f"
    "load_airports as (?b f) = Inr b'"
    using Cons.prems by (auto split: sum.splits)
  from Cons.IH [OF f(2)] obtain fs where
    "list_all2 (\<lambda>a f. fixed_ident_from_parts (ap_icao a) (ap_icao_code a) = Inr f) as fs"
    "b' = (?b f)\<lparr>gb_graph := (gb_graph (?b f))\<lparr>ng_coords := ng_coords (gb_graph (?b f)) @ map ap_coord as\<rparr>,
            gb_idents := gb_idents (?b f) @ fs, gb_kinds := gb_kinds (?b f) @ map (\<lambda>_. KFix) as,
            gb_airport_elevations_ft := gb_airport_elevations_ft (?b f) @ map ap_elevation_ft as\<rparr>" by blast
  then show ?case using f by (intro exI [of _ "f # fs"]) (simp add: push_vertex_def)
qed simp

text \<open>The builder after both loops and the indices.\<close>

definition vertices_loaded :: "nav_data \<Rightarrow> fixed_ident list \<Rightarrow> graph_builder" where
  "vertices_loaded data fs =
     rebuild_indices (graph_builder_empty
       \<lparr>gb_graph := \<lparr>ng_coords = map wp_coord (nd_waypoints data) @ map ap_coord (nd_airports data),
          ng_offsets = [], ng_edges = []\<rparr>,
        gb_idents := fs, gb_kinds := map wp_kind (nd_waypoints data) @ map (\<lambda>_. KFix) (nd_airports data),
        gb_first_airport_vertex := int (length (nd_waypoints data)),
        gb_airport_elevations_ft := map ap_elevation_ft (nd_airports data)\<rparr>)"

definition data_idents :: "nav_data \<Rightarrow> ident list" where
  "data_idents data = map wp_ident (nd_waypoints data) @
     map (\<lambda>a. \<lparr>id_ident = ap_icao a, id_icao_code = ap_icao_code a\<rparr>) (nd_airports data)"

lemma build_InrE:
  assumes "build data = Inr b"
  obtains fs where
    "list_all2 (\<lambda>i f. fixed_ident_from_ident i = Inr f) (data_idents data) fs"
    "\<forall>w \<in> set (nd_waypoints data). is_graph_vertex_kind (wp_kind w)"
    "b = rebuild_grid (flatten_csr (wire_airways (vertices_loaded data fs) (nd_airways data)) (vertices_loaded data fs))"
proof -
  obtain b1 b2 where b1: "load_waypoints (nd_waypoints data) graph_builder_empty = Inr b1"
    and b2: "load_airports (nd_airports data) b1 = Inr b2"
    and b: "b = (let b = rebuild_indices (b2\<lparr>gb_first_airport_vertex := int (length (nd_waypoints data))\<rparr>)
               in rebuild_grid (flatten_csr (wire_airways b (nd_airways data)) b))"
    using assms by (auto simp: build_def populate_def Let_def split: sum.splits)
  obtain fs1 where f1:
    "list_all2 (\<lambda>w f. fixed_ident_from_ident (wp_ident w) = Inr f \<and> is_graph_vertex_kind (wp_kind w))
       (nd_waypoints data) fs1"
    "b1 = graph_builder_empty\<lparr>gb_graph := (gb_graph graph_builder_empty)
         \<lparr>ng_coords := ng_coords (gb_graph graph_builder_empty) @ map wp_coord (nd_waypoints data)\<rparr>,
       gb_idents := gb_idents graph_builder_empty @ fs1,
       gb_kinds := gb_kinds graph_builder_empty @ map wp_kind (nd_waypoints data)\<rparr>"
    using load_waypoints_spec [OF b1] by blast
  obtain fs2 where f2:
    "list_all2 (\<lambda>a f. fixed_ident_from_parts (ap_icao a) (ap_icao_code a) = Inr f) (nd_airports data) fs2"
    "b2 = b1\<lparr>gb_graph := (gb_graph b1)\<lparr>ng_coords := ng_coords (gb_graph b1) @ map ap_coord (nd_airports data)\<rparr>,
            gb_idents := gb_idents b1 @ fs2, gb_kinds := gb_kinds b1 @ map (\<lambda>_. KFix) (nd_airports data),
            gb_airport_elevations_ft := gb_airport_elevations_ft b1 @ map ap_elevation_ft (nd_airports data)\<rparr>"
    using load_airports_spec [OF b2] by blast
  have "list_all2 (\<lambda>i f. fixed_ident_from_ident i = Inr f) (data_idents data) (fs1 @ fs2)"
    unfolding data_idents_def
    by (rule list_all2_appendI)
      (use f1(1) f2(1) in \<open>auto simp: list_all2_map1 fixed_ident_from_ident_def elim: list_all2_mono\<close>)
  moreover have "\<forall>w \<in> set (nd_waypoints data). is_graph_vertex_kind (wp_kind w)"
    using f1(1) by (auto simp: list_all2_conv_all_nth in_set_conv_nth)
  moreover have "rebuild_indices (b2\<lparr>gb_first_airport_vertex := int (length (nd_waypoints data))\<rparr>) =
      vertices_loaded data (fs1 @ fs2)"
    by (simp add: vertices_loaded_def f1(2) f2(2) graph_builder_empty_def)
  ultimately show ?thesis using that b by (simp add: Let_def)
qed

section \<open>Lookups\<close>

text \<open>Indices as \<open>RebuildIndices\<close> leaves them, over well-formed identifiers.\<close>

definition indexed :: "graph_builder \<Rightarrow> bool" where
  "indexed b \<longleftrightarrow> rebuild_indices b = b \<and> (\<forall>f \<in> set (gb_idents b). fixed_ident_wf f) \<and>
     0 \<le> gb_first_airport_vertex b \<and> gb_first_airport_vertex b \<le> int (length (gb_idents b))"

lemma indexed_sel:
  assumes "indexed b"
  shows "gb_ident_index b = sort_by (by_key fixed_ident_less)
      (map (\<lambda>v. (gb_idents b ! nat v, v)) [0 .. gb_first_airport_vertex b - 1])"
    and "gb_ident_all b = sort_by (by_key fixed_name_less)
      (map (\<lambda>v. (name_of_fixed (gb_idents b ! nat v), v)) [0 .. gb_first_airport_vertex b - 1])"
    and "gb_airport_index b = sort_by (by_key fixed_name_less)
      (map (\<lambda>v. (name_of_fixed (gb_idents b ! nat v), v)) [gb_first_airport_vertex b .. int (length (gb_idents b)) - 1])"
proof -
  have *: "rebuild_indices b = b" using assms by (simp add: indexed_def)
  show "gb_ident_index b = sort_by (by_key fixed_ident_less)
      (map (\<lambda>v. (gb_idents b ! nat v, v)) [0 .. gb_first_airport_vertex b - 1])"
    using arg_cong [OF *, of gb_ident_index] unfolding rebuild_indices_def Let_def by simp
  show "gb_ident_all b = sort_by (by_key fixed_name_less)
      (map (\<lambda>v. (name_of_fixed (gb_idents b ! nat v), v)) [0 .. gb_first_airport_vertex b - 1])"
    using arg_cong [OF *, of gb_ident_all] unfolding rebuild_indices_def Let_def by simp
  show "gb_airport_index b = sort_by (by_key fixed_name_less)
      (map (\<lambda>v. (name_of_fixed (gb_idents b ! nat v), v)) [gb_first_airport_vertex b .. int (length (gb_idents b)) - 1])"
    using arg_cong [OF *, of gb_airport_index] unfolding rebuild_indices_def Let_def by simp
qed

lemma indexed_wf:
  assumes "indexed b" "0 \<le> v" "v < int (length (gb_idents b))"
  shows "fixed_ident_wf (gb_idents b ! nat v)"
proof -
  have "nat v < length (gb_idents b)" using assms(2,3) by linarith
  then show ?thesis using assms(1) by (simp add: indexed_def)
qed

lemma name_of_fixed_spec:
  assumes "fixed_ident_wf f"
  shows "fixed_name_wf fixed_name8_cap (name_of_fixed f)" "name_view (name_of_fixed f) = ident_view f"
proof -
  have "length (ident_view f) \<le> fixed_name8_cap"
    using fixed_ident_wf_lengths [OF assms] assms
    by (simp add: fixed_ident_wf_def fixed_name8_cap_def ident_cap_def word_le_nat_alt)
  then obtain g where "fixed_name_from fixed_name8_cap (ident_view f) = Inr g"
    "fixed_name_wf fixed_name8_cap g" "name_view g = ident_view f"
    using fixed_name_from_Ok [of fixed_name8_cap "ident_view f"] by (auto simp: fixed_name8_cap_def)
  then show "fixed_name_wf fixed_name8_cap (name_of_fixed f)" "name_view (name_of_fixed f) = ident_view f"
    by (simp_all add: name_of_fixed_def)
qed

lemma fixed_name_key:
  assumes "fixed_name_from fixed_name8_cap i = Inr key"
  shows "fixed_name_wf fixed_name8_cap key" "name_view key = i"
  using fixed_name_from_OkD [OF assms] by (simp_all add: fixed_name8_cap_def)

lemma fixed_name_from_InlD:
  assumes "fixed_name_from fixed_name8_cap i = Inl e"
  shows "7 < length i"
proof (rule ccontr)
  assume "\<not> 7 < length i"
  then have "length i \<le> fixed_name8_cap" by (simp add: fixed_name8_cap_def)
  then show False using fixed_name_from_Ok [of fixed_name8_cap i] assms by (simp add: fixed_name8_cap_def)
qed

lemma fixed_ident_view_not_long:
  assumes "fixed_ident_wf f" and "fixed_name_from fixed_name8_cap i = Inl e"
  shows "ident_view f \<noteq> i"
  using fixed_ident_wf_lengths [OF assms(1)] assms(1) fixed_name_from_InlD [OF assms(2)]
  by (auto simp: fixed_ident_wf_def ident_cap_def)

lemma sorted_distinct_upto: "sorted [i .. j]" "distinct [i .. j]"
  by simp_all

text \<open>The first waypoint with a key, or -1.\<close>

definition first_or_none :: "int list \<Rightarrow> int" where
  "first_or_none vs = (case vs of [] \<Rightarrow> - 1 | v # _ \<Rightarrow> v)"

lemma vertex_by_ident_spec:
  assumes b: "indexed b"
  shows "vertex_by_ident b i = first_or_none (filter (\<lambda>v. ident_of b v = i) [0 .. gb_first_airport_vertex b - 1])"
proof (cases "fixed_ident_from_ident i")
  case (Inl e)
  have "ident_of b v \<noteq> i" if "v \<in> set [0 .. gb_first_airport_vertex b - 1]" for v
  proof
    assume "ident_of b v = i"
    moreover have "fixed_ident_wf (gb_idents b ! nat v)"
      by (rule indexed_wf [OF b]) (use that b in \<open>auto simp: indexed_def\<close>)
    from fixed_ident_from_parts_views [OF this] have
      "fixed_ident_from_ident (ident_of b v) = Inr (gb_idents b ! nat v)"
      by (simp add: fixed_ident_from_ident_def ident_of_def fixed_ident_to_ident_def)
    ultimately show False using Inl by simp
  qed
  then have "filter (\<lambda>v. ident_of b v = i) [0 .. gb_first_airport_vertex b - 1] = []"
    by (simp only: filter_empty_conv) blast
  then show ?thesis using Inl by (simp add: vertex_by_ident_def first_or_none_def)
next
  case (Inr key)
  then have k: "fixed_ident_wf key" "ident_view key = id_ident i" "icao_code_view key = id_icao_code i"
    using fixed_ident_from_parts_OkD [of "id_ident i" "id_icao_code i" key] by (simp_all add: fixed_ident_from_ident_def)
  have wf: "fixed_ident_wf (gb_idents b ! nat v)" if "v \<in> set [0 .. gb_first_airport_vertex b - 1]" for v
    by (rule indexed_wf [OF b]) (use that b in \<open>auto simp: indexed_def\<close>)
  have "vertex_by_fixed b key = (case filter (\<lambda>v. (ident_view (gb_idents b ! nat v), icao_code_view (gb_idents b ! nat v)) =
      (ident_view key, icao_code_view key)) [0 .. gb_first_airport_vertex b - 1] of [] \<Rightarrow> - 1 | v # _ \<Rightarrow> v)"
    unfolding vertex_by_fixed_def indexed_sel(1) [OF b]
    by (rule ident_key.index_first [OF _ sorted_distinct_upto k(1)]) (rule wf)
  moreover have "(ident_view (gb_idents b ! nat v), icao_code_view (gb_idents b ! nat v)) =
      (ident_view key, icao_code_view key) \<longleftrightarrow> ident_of b v = i" for v
    using k by (cases i) (auto simp: ident_of_def fixed_ident_to_ident_def)
  ultimately show ?thesis using Inr by (simp add: vertex_by_ident_def first_or_none_def)
qed

lemma vertices_by_ident_spec:
  assumes b: "indexed b"
  shows "vertices_by_ident b i = filter (\<lambda>v. id_ident (ident_of b v) = i) [0 .. gb_first_airport_vertex b - 1]"
proof -
  have wf: "fixed_ident_wf (gb_idents b ! nat v)" if "v \<in> set [0 .. gb_first_airport_vertex b - 1]" for v
    by (rule indexed_wf [OF b]) (use that b in \<open>auto simp: indexed_def\<close>)
  show ?thesis
  proof (cases "fixed_name_from fixed_name8_cap i")
    case (Inl e)
    have "filter (\<lambda>v. id_ident (ident_of b v) = i) [0 .. gb_first_airport_vertex b - 1] = []"
      by (simp only: filter_empty_conv ident_of_def fixed_ident_to_ident_def ident.simps)
        (use fixed_ident_view_not_long [OF wf Inl] in blast)
    then show ?thesis using Inl by (simp add: vertices_by_ident_def)
  next
    case (Inr key)
    have "map snd (equal_run fixed_name_less fixed_name_eq (gb_ident_all b) key) =
        filter (\<lambda>v. name_view (name_of_fixed (gb_idents b ! nat v)) = name_view key) [0 .. gb_first_airport_vertex b - 1]"
      unfolding indexed_sel(2) [OF b]
      by (rule name_key.index_vertices [OF _ sorted_distinct_upto fixed_name_key(1) [OF Inr]])
        (rule name_of_fixed_spec [OF wf])
    also have "\<dots> = filter (\<lambda>v. id_ident (ident_of b v) = i) [0 .. gb_first_airport_vertex b - 1]"
      by (rule filter_cong [OF refl])
        (simp only: name_of_fixed_spec(2) [OF wf] fixed_name_key(2) [OF Inr] ident_of_def fixed_ident_to_ident_def ident.simps)
    finally show ?thesis using Inr by (simp add: vertices_by_ident_def)
  qed
qed

lemma vertex_by_airport_spec:
  assumes b: "indexed b"
  shows "vertex_by_airport b icao = first_or_none
    (filter (\<lambda>v. id_ident (ident_of b v) = icao) [gb_first_airport_vertex b .. int (length (gb_idents b)) - 1])"
proof -
  let ?vs = "[gb_first_airport_vertex b .. int (length (gb_idents b)) - 1]"
  have wf: "fixed_ident_wf (gb_idents b ! nat v)" if "v \<in> set ?vs" for v
    by (rule indexed_wf [OF b]) (use that b in \<open>auto simp: indexed_def\<close>)
  show ?thesis
  proof (cases "fixed_name_from fixed_name8_cap icao")
    case (Inl e)
    have "filter (\<lambda>v. id_ident (ident_of b v) = icao) ?vs = []"
      by (simp only: filter_empty_conv ident_of_def fixed_ident_to_ident_def ident.simps)
        (use fixed_ident_view_not_long [OF wf Inl] in blast)
    then show ?thesis using Inl by (simp add: vertex_by_airport_def first_or_none_def)
  next
    case (Inr key)
    have "vertex_by_airport b icao = (case filter (\<lambda>v. name_view (name_of_fixed (gb_idents b ! nat v)) = name_view key) ?vs of
        [] \<Rightarrow> - 1 | v # _ \<Rightarrow> v)"
      unfolding vertex_by_airport_def Inr sum.case indexed_sel(3) [OF b]
      by (rule name_key.index_first [OF _ sorted_distinct_upto fixed_name_key(1) [OF Inr]])
        (rule name_of_fixed_spec [OF wf])
    also have "filter (\<lambda>v. name_view (name_of_fixed (gb_idents b ! nat v)) = name_view key) ?vs =
        filter (\<lambda>v. id_ident (ident_of b v) = icao) ?vs"
      by (rule filter_cong [OF refl])
        (simp only: name_of_fixed_spec(2) [OF wf] fixed_name_key(2) [OF Inr] ident_of_def fixed_ident_to_ident_def ident.simps)
    finally show ?thesis by (simp add: first_or_none_def)
  qed
qed

text \<open>The scan of \<open>VertexNear\<close> keeps a nearest vertex within the limit.\<close>

definition nearest_within :: "(int \<Rightarrow> real) \<Rightarrow> real \<Rightarrow> int list \<Rightarrow> int \<Rightarrow> bool" where
  "nearest_within d max_nm vs v \<longleftrightarrow>
     (v = - 1 \<and> (\<forall>u \<in> set vs. max_nm < d u)) \<or>
     (v \<in> set vs \<and> d v \<le> max_nm \<and> (\<forall>u \<in> set vs. d v \<le> d u))"

lemma near_fold:
  assumes "\<forall>u \<in> set (seen @ map snd es). 0 \<le> u"
    and "nearest_within (\<lambda>v. distance_to near (coord_of graph v)) max_nm seen best"
    and "best_nm = (if best < 0 then max_nm else distance_to near (coord_of graph best))"
  shows "nearest_within (\<lambda>v. distance_to near (coord_of graph v)) max_nm (seen @ map snd es)
    (fst (foldl (near_step graph near) (best, best_nm) es))"
  using assms
proof (induction es arbitrary: seen best best_nm)
  case (Cons e es)
  let ?d = "\<lambda>v. distance_to near (coord_of graph v)"
  obtain b' n' where step: "near_step graph near (best, best_nm) e = (b', n')" by (cases "near_step graph near (best, best_nm) e")
  have "nearest_within ?d max_nm (seen @ [snd e]) b' \<and> n' = (if b' < 0 then max_nm else ?d b')"
  proof (cases "?d (snd e) \<le> best_nm \<and> (best < 0 \<or> ?d (snd e) < best_nm)")
    case True
    then have "b' = snd e" "n' = ?d (snd e)" using step by (auto simp: near_step_def Let_def)
    moreover have "best < 0 \<Longrightarrow> best \<notin> set seen" using Cons.prems(1) by force
    ultimately show ?thesis using True Cons.prems by (auto simp: nearest_within_def split: if_splits)
  next
    case False
    then have "b' = best" "n' = best_nm" using step by (auto simp: near_step_def Let_def split: if_splits)
    then show ?thesis using False Cons.prems by (auto simp: nearest_within_def split: if_splits)
  qed
  then have "nearest_within ?d max_nm ((seen @ [snd e]) @ map snd es) (fst (foldl (near_step graph near) (b', n') es))"
    using Cons.prems(1) by (intro Cons.IH) simp_all
  then show ?case using step by simp
qed simp

lemma vertex_near_spec:
  assumes b: "indexed b" and k: "fixed_ident_from_ident i = Inr key"
  shows "nearest_within (\<lambda>v. distance_to near (coord_of (gb_graph b) v)) max_nm
    (filter (\<lambda>v. ident_of b v = i) [0 .. gb_first_airport_vertex b - 1]) (vertex_near b key near max_nm)"
proof -
  have k': "fixed_ident_wf key" "ident_view key = id_ident i" "icao_code_view key = id_icao_code i"
    using k fixed_ident_from_parts_OkD [of "id_ident i" "id_icao_code i" key] by (simp_all add: fixed_ident_from_ident_def)
  have wf: "fixed_ident_wf (gb_idents b ! nat v)" if "v \<in> set [0 .. gb_first_airport_vertex b - 1]" for v
    by (rule indexed_wf [OF b]) (use that b in \<open>auto simp: indexed_def\<close>)
  let ?run = "equal_run fixed_ident_less fixed_ident_eq (gb_ident_index b) key"
  have "map snd ?run = filter (\<lambda>v. (ident_view (gb_idents b ! nat v), icao_code_view (gb_idents b ! nat v)) =
      (ident_view key, icao_code_view key)) [0 .. gb_first_airport_vertex b - 1]"
    unfolding indexed_sel(1) [OF b]
    by (rule ident_key.index_vertices [OF _ sorted_distinct_upto k'(1)]) (rule wf)
  moreover have "(ident_view (gb_idents b ! nat v), icao_code_view (gb_idents b ! nat v)) =
      (ident_view key, icao_code_view key) \<longleftrightarrow> ident_of b v = i" for v
    using k' by (cases i) (auto simp: ident_of_def fixed_ident_to_ident_def)
  ultimately have run: "map snd ?run = filter (\<lambda>v. ident_of b v = i) [0 .. gb_first_airport_vertex b - 1]"
    by simp
  have "nearest_within (\<lambda>v. distance_to near (coord_of (gb_graph b) v)) max_nm ([] @ map snd ?run)
    (fst (foldl (near_step (gb_graph b) near) (- 1, max_nm) ?run))"
    by (rule near_fold) (auto simp: nearest_within_def run)
  then show ?thesis by (simp add: run vertex_near_def)
qed

text \<open>Where an airway endpoint may resolve to, and that it resolves to a waypoint.\<close>

lemma resolve_endpoint_range:
  assumes b: "indexed b"
  shows "resolve_endpoint b i hint < gb_first_airport_vertex b \<or> resolve_endpoint b i hint = - 1"
    and "0 \<le> resolve_endpoint b i hint \<Longrightarrow> ident_of b (resolve_endpoint b i hint) = i"
proof -
  have "first_or_none vs = - 1 \<or> first_or_none vs \<in> set vs" for vs
    by (simp add: first_or_none_def split: list.splits)
  from this [of "filter (\<lambda>v. ident_of b v = i) [0 .. gb_first_airport_vertex b - 1]"]
  have 1: "vertex_by_ident b i = - 1 \<or> vertex_by_ident b i < gb_first_airport_vertex b \<and> ident_of b (vertex_by_ident b i) = i"
    using vertex_by_ident_spec [OF b, of i] by auto
  have 2: "vertex_near b key near m = - 1 \<or> vertex_near b key near m < gb_first_airport_vertex b \<and>
      ident_of b (vertex_near b key near m) = i" if "fixed_ident_from_ident i = Inr key" for key near m
    using vertex_near_spec [OF b that, of near m] by (auto simp: nearest_within_def)
  have "resolve_endpoint b i hint = - 1 \<or>
      resolve_endpoint b i hint < gb_first_airport_vertex b \<and> ident_of b (resolve_endpoint b i hint) = i"
    using 1 2 by (simp add: resolve_endpoint_def split: option.splits sum.splits)
  then show "resolve_endpoint b i hint < gb_first_airport_vertex b \<or> resolve_endpoint b i hint = - 1"
    "0 \<le> resolve_endpoint b i hint \<Longrightarrow> ident_of b (resolve_endpoint b i hint) = i" by auto
qed

lemma fixed_from_ident_wf: "fixed_ident_from_ident i = Inr f \<Longrightarrow> fixed_ident_wf f \<and> fixed_ident_to_ident f = i"
  using fixed_ident_from_parts_OkD [of "id_ident i" "id_icao_code i" f]
  by (cases i) (simp add: fixed_ident_from_ident_def fixed_ident_to_ident_def)

lemma vertices_loaded_sel:
  "gb_graph (vertices_loaded data fs) = \<lparr>ng_coords = map wp_coord (nd_waypoints data) @ map ap_coord (nd_airports data),
          ng_offsets = [], ng_edges = []\<rparr>"
  "gb_idents (vertices_loaded data fs) = fs"
  "gb_first_airport_vertex (vertices_loaded data fs) = int (length (nd_waypoints data))"
  by (simp_all add: vertices_loaded_def rebuild_indices_def Let_def)

lemma vertices_loaded_indexed:
  assumes "list_all2 (\<lambda>i f. fixed_ident_from_ident i = Inr f) (data_idents data) fs"
  shows "indexed (vertices_loaded data fs)" "length fs = length (nd_waypoints data) + length (nd_airports data)"
proof -
  show l: "length fs = length (nd_waypoints data) + length (nd_airports data)"
    using list_all2_lengthD [OF assms] by (simp add: data_idents_def)
  have "\<forall>f \<in> set fs. fixed_ident_wf f"
    using assms fixed_from_ident_wf by (fastforce simp: list_all2_conv_all_nth in_set_conv_nth)
  moreover have "rebuild_indices (rebuild_indices b) = rebuild_indices b" for b
    by (simp add: rebuild_indices_def Let_def)
  ultimately show "indexed (vertices_loaded data fs)"
    using l by (simp add: indexed_def vertices_loaded_sel) (simp add: vertices_loaded_def)
qed

end
