(* ===== verification/GraphWiring.thy ===== *)
theory GraphWiring
  imports GraphBuilderCorrect RouteSearch
begin

text \<open>
  Correctness of the adjacency phase of \<open>GraphBuilder::Populate\<close>: the edges of the built graph are
  exactly the resolved airway connections in their allowed directions, with great-circle lengths and
  in-range airway ids; the CSR arrays are well formed and the on-network flags mirror the edges.
\<close>

section \<open>The edge a connection asks for\<close>

text \<open>The ordered vertex pairs a connection yields.\<close>

definition connects :: "graph_builder \<Rightarrow> airway_connection \<Rightarrow> int \<Rightarrow> int \<Rightarrow> bool" where
  "connects b conn u v \<longleftrightarrow> 0 \<le> u \<and> 0 \<le> v \<and>
     (as_direction (ac_segment conn) \<noteq> DirBackward \<and>
        resolve_endpoint b (ac_from conn) (ac_from_hint conn) = u \<and>
        resolve_endpoint b (ac_to conn) (ac_to_hint conn) = v \<or>
      as_direction (ac_segment conn) \<noteq> DirForward \<and>
        resolve_endpoint b (ac_to conn) (ac_to_hint conn) = u \<and>
        resolve_endpoint b (ac_from conn) (ac_from_hint conn) = v)"

definition connection_edge :: "nav_graph \<Rightarrow> string list \<Rightarrow> airway_segment \<Rightarrow> int \<Rightarrow> int \<Rightarrow> real graph_edge \<Rightarrow> bool" where
  "connection_edge graph names s u v e \<longleftrightarrow>
     edge_to e = v \<and> ge_distance_nm e = distance_to (coord_of graph u) (coord_of graph v) \<and>
     unat (ge_airway_id e) < length names \<and> names ! unat (ge_airway_id e) = as_name s \<and>
     ge_base_fl e = word_of_int (as_base_fl s) \<and> ge_top_fl e = word_of_int (as_top_fl s) \<and> ge_level e = as_level s"

text \<open>Every edge comes from a connection of \<open>conns\<close>; every request in \<open>wanted\<close> has its edge.\<close>

definition wiring_ok :: "graph_builder \<Rightarrow> nat \<Rightarrow> airway_connection list \<Rightarrow>
    (airway_connection \<times> int \<times> int) set \<Rightarrow> airway_wiring \<Rightarrow> bool" where
  "wiring_ok b n conns wanted w \<longleftrightarrow>
     length (aw_adj w) = n \<and> aw_names w \<noteq> [] \<and> length (aw_names w) \<le> 0x10000 \<and>
     (\<forall>name i. aw_name_to_id w name = Some i \<longrightarrow> 0 \<le> i \<and> i < int (length (aw_names w)) \<and> aw_names w ! nat i = name) \<and>
     (\<forall>u < n. \<forall>e \<in> set (aw_adj w ! u). \<exists>conn \<in> set conns. \<exists>v. v < int n \<and>
        connects b conn (int u) v \<and> connection_edge (gb_graph b) (aw_names w) (ac_segment conn) (int u) v e) \<and>
     (\<not> aw_overflow w \<longrightarrow> (\<forall>(conn, u, v) \<in> wanted.
        \<exists>e \<in> set (aw_adj w ! nat u). connection_edge (gb_graph b) (aw_names w) (ac_segment conn) u v e))"

lemma connection_edge_names:
  assumes "connection_edge graph names s u v e"
  shows "connection_edge graph (names @ extra) s u v e"
  using assms by (simp add: connection_edge_def nth_append)

lemma wiring_edge:
  assumes "wiring_ok b n conns wanted w" and "u < n" "e \<in> set (aw_adj w ! u)"
  shows "\<exists>conn \<in> set conns. \<exists>v. v < int n \<and> connects b conn (int u) v \<and>
      connection_edge (gb_graph b) (aw_names w) (ac_segment conn) (int u) v e"
  using assms unfolding wiring_ok_def by blast

lemma wiring_wanted:
  assumes "wiring_ok b n conns wanted w" and "\<not> aw_overflow w" "(conn, u, v) \<in> wanted"
  shows "\<exists>e \<in> set (aw_adj w ! nat u). connection_edge (gb_graph b) (aw_names w) (ac_segment conn) u v e"
  using assms unfolding wiring_ok_def by fast

lemma wiring_name:
  assumes "wiring_ok b n conns wanted w" and "aw_name_to_id w name = Some i"
  shows "0 \<le> i \<and> i < int (length (aw_names w)) \<and> aw_names w ! nat i = name"
  using assms unfolding wiring_ok_def by blast

lemma airway_id_for_spec:
  assumes "airway_id_for name w = (i, w')" and "wiring_ok b n conns wanted w"
  shows "wiring_ok b n conns wanted w'" and "i = - 1 \<and> aw_overflow w' \<or>
      0 \<le> i \<and> i < int (length (aw_names w')) \<and> aw_names w' ! nat i = name"
proof -
  have "wiring_ok b n conns wanted w' \<and> (i = - 1 \<and> aw_overflow w' \<or>
      0 \<le> i \<and> i < int (length (aw_names w')) \<and> aw_names w' ! nat i = name)"
  proof (cases "aw_name_to_id w name")
    case (Some j)
    then show ?thesis using assms by (auto simp: airway_id_for_def wiring_ok_def)
  next
    case None
    show ?thesis
    proof (cases "0xFFFF < length (aw_names w)")
      case True
      then show ?thesis using assms None by (auto simp: airway_id_for_def wiring_ok_def)
    next
      case False
      have i: "i = int (length (aw_names w))" "w' = w\<lparr>aw_names := aw_names w @ [name],
          aw_name_to_id := (aw_name_to_id w)(name \<mapsto> int (length (aw_names w)))\<rparr>"
        using assms(1) None False by (auto simp: airway_id_for_def Let_def)
      have "wiring_ok b n conns wanted w'"
        unfolding wiring_ok_def
      proof (intro conjI allI ballI impI)
        fix u e assume u: "u < n" "e \<in> set (aw_adj w' ! u)"
        then obtain conn v where "conn \<in> set conns" "v < int n" "connects b conn (int u) v"
          "connection_edge (gb_graph b) (aw_names w) (ac_segment conn) (int u) v e"
          using wiring_edge [OF assms(2), of u e] by (auto simp: i(2))
        then show "\<exists>conn \<in> set conns. \<exists>v. v < int n \<and> connects b conn (int u) v \<and>
            connection_edge (gb_graph b) (aw_names w') (ac_segment conn) (int u) v e"
          using connection_edge_names [of "gb_graph b" "aw_names w" _ "int u" v e "[name]"] by (auto simp: i(2))
      next
        fix p assume o: "\<not> aw_overflow w'" and p: "p \<in> wanted"
        obtain conn u v where uv: "p = (conn, u, v)" by (cases p)
        with o p obtain e where "e \<in> set (aw_adj w ! nat u)"
          "connection_edge (gb_graph b) (aw_names w) (ac_segment conn) u v e"
          using wiring_wanted [OF assms(2), of conn u v] by (auto simp: i(2))
        then show "case p of (conn, u, v) \<Rightarrow> \<exists>e \<in> set (aw_adj w' ! nat u).
            connection_edge (gb_graph b) (aw_names w') (ac_segment conn) u v e"
          using connection_edge_names [of "gb_graph b" "aw_names w" _ u v e "[name]"] by (auto simp: i(2) uv)
      next
        fix m j assume "aw_name_to_id w' m = Some j"
        then show "0 \<le> j" "j < int (length (aw_names w'))" "aw_names w' ! nat j = m"
          using wiring_name [OF assms(2), of m j] by (auto simp: i(2) nth_append split: if_splits)
      qed (use assms(2) False in \<open>auto simp: wiring_ok_def i(2)\<close>)
      then show ?thesis using i by simp
    qed
  qed
  then show "wiring_ok b n conns wanted w'" "i = - 1 \<and> aw_overflow w' \<or>
      0 \<le> i \<and> i < int (length (aw_names w')) \<and> aw_names w' ! nat i = name" by blast+
qed


lemma wiring_ok_mono:
  assumes "wiring_ok b n conns wanted w" and "set conns \<subseteq> set conns'" and "wanted' \<subseteq> wanted"
  shows "wiring_ok b n conns' wanted' w"
  unfolding wiring_ok_def
proof (intro conjI allI ballI impI)
  fix u e assume "u < n" "e \<in> set (aw_adj w ! u)"
  then show "\<exists>conn \<in> set conns'. \<exists>v. v < int n \<and> connects b conn (int u) v \<and>
      connection_edge (gb_graph b) (aw_names w) (ac_segment conn) (int u) v e"
    using wiring_edge [OF assms(1)] assms(2) by blast
qed (use assms(1,3) in \<open>auto simp: wiring_ok_def\<close>)

lemma add_edge_ok:
  assumes ok: "wiring_ok b n conns wanted w" and conn: "conn \<in> set conns" "connects b conn u v"
    and n: "u < int n" "v < int n" "int n < 2 ^ 31"
    and i: "i = - 1 \<and> aw_overflow w \<or> 0 \<le> i \<and> i < int (length (aw_names w)) \<and> aw_names w ! nat i = as_name (ac_segment conn)"
  shows "wiring_ok b n conns (insert (conn, u, v) wanted) (add_edge (gb_graph b) u v i (ac_segment conn) w)"
proof (cases "i < 0")
  case True
  then show ?thesis using ok i by (auto simp: add_edge_def wiring_ok_def)
next
  case False
  define e where "e = \<lparr>ge_to = word_of_int v, ge_distance_nm = distance_to (coord_of (gb_graph b) u) (coord_of (gb_graph b) v),
      ge_airway_id = word_of_int i, ge_base_fl = word_of_int (as_base_fl (ac_segment conn)),
      ge_top_fl = word_of_int (as_top_fl (ac_segment conn)), ge_level = as_level (ac_segment conn)\<rparr>"
  have w: "add_edge (gb_graph b) u v i (ac_segment conn) w =
      w\<lparr>aw_adj := (aw_adj w)[nat u := aw_adj w ! nat u @ [e]]\<rparr>"
    using False by (simp add: add_edge_def e_def)
  have uv: "0 \<le> u" "0 \<le> v" using conn(2) by (auto simp: connects_def)
  have i': "0 \<le> i" "i < int (length (aw_names w))" "aw_names w ! nat i = as_name (ac_segment conn)" "i < 0x10000"
    using i False ok by (auto simp: wiring_ok_def)
  have "unat (word_of_int i :: u16) = nat i"
    using i' by (simp add: unat_eq_nat_uint uint_word_of_int)
  moreover have "sint (word_of_int v :: i32) = v"
    using uv n by (simp add: sint_sbintrunc' signed_take_bit_int_eq_self)
  ultimately have edge: "connection_edge (gb_graph b) (aw_names w) (ac_segment conn) u v e"
    using i' by (simp add: connection_edge_def e_def edge_to_def)
  have l: "length (aw_adj w) = n" using ok by (simp add: wiring_ok_def)
  show ?thesis
    unfolding wiring_ok_def w
  proof (intro conjI allI ballI impI)
    fix x e' assume x: "x < n" "e' \<in> set (aw_adj (w\<lparr>aw_adj := (aw_adj w)[nat u := aw_adj w ! nat u @ [e]]\<rparr>) ! x)"
    then have "e' \<in> set (aw_adj w ! x) \<or> x = nat u \<and> e' = e"
      using l by (cases "x = nat u") auto
    then show "\<exists>conn \<in> set conns. \<exists>v. v < int n \<and> connects b conn (int x) v \<and>
      connection_edge (gb_graph b) (aw_names (w\<lparr>aw_adj := (aw_adj w)[nat u := aw_adj w ! nat u @ [e]]\<rparr>))
        (ac_segment conn) (int x) v e'"
    proof
      assume "e' \<in> set (aw_adj w ! x)"
      then show ?thesis using wiring_edge [OF ok x(1), of e'] by simp
    next
      assume "x = nat u \<and> e' = e"
      then show ?thesis using conn n(2) edge uv by auto
    qed
  next
    fix p assume o: "\<not> aw_overflow (w\<lparr>aw_adj := (aw_adj w)[nat u := aw_adj w ! nat u @ [e]]\<rparr>)"
      and p: "p \<in> insert (conn, u, v) wanted"
    obtain conn' x y where xy: "p = (conn', x, y)" by (cases p)
    have u: "nat u < n" using uv n by linarith
    have old: "\<exists>e \<in> set (aw_adj w ! nat x). connection_edge (gb_graph b) (aw_names w) (ac_segment conn') x y e"
      if "p \<in> wanted" using wiring_wanted [OF ok, of conn' x y] that o xy by simp
    show "case p of (conn, u', v) \<Rightarrow>
        \<exists>e' \<in> set (aw_adj (w\<lparr>aw_adj := (aw_adj w)[nat u := aw_adj w ! nat u @ [e]]\<rparr>) ! nat u').
          connection_edge (gb_graph b) (aw_names (w\<lparr>aw_adj := (aw_adj w)[nat u := aw_adj w ! nat u @ [e]]\<rparr>))
            (ac_segment conn) u' v e'"
      using p old edge u l by (auto simp: xy nth_list_update)
  qed (use ok in \<open>auto simp: wiring_ok_def\<close>)
qed


text \<open>A connection is processed completely: every pair it yields is wired.\<close>

definition wanted_of :: "graph_builder \<Rightarrow> airway_connection list \<Rightarrow> (airway_connection \<times> int \<times> int) set" where
  "wanted_of b conns = {(conn, u, v). conn \<in> set conns \<and> connects b conn u v}"

lemma add_edge_overflow [simp]: "aw_overflow (add_edge graph u v i s w) = aw_overflow w"
  by (simp add: add_edge_def Let_def)

lemma add_edge_names [simp]: "aw_names (add_edge graph u v i s w) = aw_names w"
  by (simp add: add_edge_def Let_def)

lemma resolve_range:
  assumes "indexed b"
  shows "resolve_endpoint b i hint < int (length (gb_idents b))"
proof -
  have "gb_first_airport_vertex b \<le> int (length (gb_idents b))" using assms by (simp add: indexed_def)
  then show ?thesis using resolve_endpoint_range(1) [OF assms, of i hint] by linarith
qed

lemma wire_connection_ok:
  assumes b: "indexed b" and n: "n = length (gb_idents b)" "int n < 2 ^ 31"
    and ok: "wiring_ok b n conns (wanted_of b conns) w"
  shows "wiring_ok b n (conns @ [conn]) (wanted_of b (conns @ [conn])) (wire_connection b w conn)"
proof -
  let ?f = "resolve_endpoint b (ac_from conn) (ac_from_hint conn)"
  let ?t = "resolve_endpoint b (ac_to conn) (ac_to_hint conn)"
  let ?s = "ac_segment conn"
  have r: "?f < int n" "?t < int n" using resolve_range [OF b] n(1) by simp_all
  have ok': "wiring_ok b n (conns @ [conn]) (wanted_of b conns) w"
    by (rule wiring_ok_mono [OF ok]) auto
  show ?thesis
  proof (cases "?f < 0 \<or> ?t < 0")
    case True
    then have "wanted_of b (conns @ [conn]) = wanted_of b conns"
      by (auto simp: wanted_of_def connects_def)
    then show ?thesis using True ok' by (auto simp: wire_connection_def Let_def)
  next
    case False
    obtain i w1 where id: "airway_id_for (as_name ?s) w = (i, w1)" by (cases "airway_id_for (as_name ?s) w")
    note w1 = airway_id_for_spec [OF id ok']
    define w2 where "w2 = (if as_direction ?s \<noteq> DirBackward then add_edge (gb_graph b) ?f ?t i ?s w1 else w1)"
    define want where "want = (if as_direction ?s \<noteq> DirBackward then {(conn, ?f, ?t)} else {}) \<union> wanted_of b conns"
    have w2: "wiring_ok b n (conns @ [conn]) want w2"
      "i = - 1 \<and> aw_overflow w2 \<or> 0 \<le> i \<and> i < int (length (aw_names w2)) \<and> aw_names w2 ! nat i = as_name ?s"
      using add_edge_ok [OF w1(1), of conn ?f ?t i] w1 False r n(2)
      by (auto simp: w2_def want_def connects_def)
    have fin: "wire_connection b w conn =
        (if as_direction ?s \<noteq> DirForward then add_edge (gb_graph b) ?t ?f i ?s w2 else w2)"
      using False id by (simp add: wire_connection_def w2_def Let_def)
    have "wiring_ok b n (conns @ [conn])
        ((if as_direction ?s \<noteq> DirForward then {(conn, ?t, ?f)} else {}) \<union> want) (wire_connection b w conn)"
      using add_edge_ok [OF w2(1), of conn ?t ?f i] w2 False r n(2)
      by (auto simp: fin connects_def)
    then show ?thesis
      by (rule wiring_ok_mono) (auto simp: want_def wanted_of_def connects_def)
  qed
qed

lemma wire_airways_ok:
  assumes b: "indexed b" and n: "n = length (gb_idents b)" "int n < 2 ^ 31"
  shows "wiring_ok b n conns (wanted_of b conns) (wire_airways b conns)"
proof (induction conns rule: rev_induct)
  case Nil
  then show ?case using n(1) by (auto simp: wire_airways_def wiring_ok_def wanted_of_def)
next
  case (snoc conn conns)
  then show ?case using wire_connection_ok [OF b n snoc, of conn] by (simp add: wire_airways_def)
qed

section \<open>CSR arrays and flags\<close>

lemma offsets_fold: "offs \<noteq> [] \<Longrightarrow>
  foldl (\<lambda>offs es. offs @ [last offs + int (length es)]) offs adj = butlast offs @ csr_offsets (last offs) adj"
proof (induction adj arbitrary: offs)
  case (Cons es adj)
  then show ?case by (simp add: append_butlast_last_id)
qed (simp add: append_butlast_last_id)

lemma offsets_of_csr: "offsets_of adj = csr_offsets 0 adj"
  by (simp add: offsets_of_def offsets_fold)

lemma inbound_row:
  "length (foldl (\<lambda>flags e. flags[nat (edge_to e) := 1]) flags es) = length flags"
  "i < length flags \<Longrightarrow> foldl (\<lambda>flags e. flags[nat (edge_to e) := 1]) flags es ! i =
     (if \<exists>e \<in> set es. nat (edge_to e) = i then 1 else flags ! i)"
  by (induction es arbitrary: flags) (auto simp: nth_list_update)

lemma inbound_rows:
  "length (foldl (\<lambda>flags es. foldl (\<lambda>flags e. flags[nat (edge_to e) := 1]) flags es) flags adj) = length flags"
  "i < length flags \<Longrightarrow>
     foldl (\<lambda>flags es. foldl (\<lambda>flags e. flags[nat (edge_to e) := 1]) flags es) flags adj ! i =
     (if \<exists>es \<in> set adj. \<exists>e \<in> set es. nat (edge_to e) = i then 1 else flags ! i)"
  by (induction adj arbitrary: flags) (auto simp: inbound_row)


section \<open>The built graph\<close>

text \<open>The builder \<open>Build\<close> returns, in terms of the loaded vertices and the wiring.\<close>

definition wired :: "graph_builder \<Rightarrow> airway_connection list \<Rightarrow> graph_builder" where
  "wired b conns = rebuild_grid (flatten_csr (wire_airways b conns) b)"

lemma wired_sel:
  "gb_graph (wired b conns) = (gb_graph b)\<lparr>ng_offsets := offsets_of (aw_adj (wire_airways b conns)),
     ng_edges := concat (aw_adj (wire_airways b conns))\<rparr>"
  "gb_idents (wired b conns) = gb_idents b" "gb_kinds (wired b conns) = gb_kinds b"
  "gb_first_airport_vertex (wired b conns) = gb_first_airport_vertex b"
  "gb_airway_names (wired b conns) = aw_names (wire_airways b conns)"
  "gb_airway_overflow (wired b conns) = aw_overflow (wire_airways b conns)"
  "gb_has_outbound (wired b conns) = outbound_flags (aw_adj (wire_airways b conns))"
  "gb_has_inbound (wired b conns) = inbound_flags (aw_adj (wire_airways b conns))"
  "gb_ident_index (wired b conns) = gb_ident_index b" "gb_ident_all (wired b conns) = gb_ident_all b"
  "gb_airport_index (wired b conns) = gb_airport_index b"
  "gb_airport_elevations_ft (wired b conns) = gb_airport_elevations_ft b"
  by (simp_all add: wired_def rebuild_grid_def flatten_csr_def)

lemma wired_coord [simp]: "coord_of (gb_graph (wired b conns)) v = coord_of (gb_graph b) v"
  by (simp add: wired_sel coord_of_def)

lemma wired_lookups [simp]:
  "vertex_near (wired b conns) key near m = vertex_near b key near m"
  "vertex_by_ident (wired b conns) i = vertex_by_ident b i"
proof -
  have "near_step (gb_graph (wired b conns)) near = near_step (gb_graph b) near" for near
    by (intro ext) (simp add: near_step_def)
  then show "vertex_near (wired b conns) key near m = vertex_near b key near m"
    by (simp add: vertex_near_def wired_sel(9))
qed (simp add: vertex_by_ident_def vertex_by_fixed_def wired_sel split: sum.split)

lemma wired_resolve [simp]: "resolve_endpoint (wired b conns) i hint = resolve_endpoint b i hint"
  by (simp add: resolve_endpoint_def split: option.split sum.split)

lemma wired_connects [simp]: "connects (wired b conns) conn u v = connects b conn u v"
  by (simp add: connects_def)

lemma wired_indexed:
  assumes "indexed b"
  shows "indexed (wired b conns)"
proof -
  have "rebuild_indices (wired b conns) = wired (rebuild_indices b) conns" if "rebuild_indices b = b"
  proof -
    have "rebuild_indices (wired b conns) = (wired b conns)
        \<lparr>gb_ident_index := gb_ident_index (rebuild_indices b), gb_ident_all := gb_ident_all (rebuild_indices b),
         gb_airport_index := gb_airport_index (rebuild_indices b)\<rparr>"
      by (simp add: rebuild_indices_def Let_def wired_sel)
    also have "\<dots> = wired b conns" by (simp add: that wired_sel [symmetric])
    finally show ?thesis using that by simp
  qed
  then show ?thesis using assms by (simp add: indexed_def wired_sel)
qed

lemma wired_out_edges:
  assumes "u < length (aw_adj (wire_airways b conns))"
  shows "out_edges (gb_graph (wired b conns)) (int u) = aw_adj (wire_airways b conns) ! u"
proof -
  have "nat (int u + 1) = Suc u" by simp
  then show ?thesis
    using csr_row0 [OF assms] by (simp add: out_edges_def wired_sel offsets_of_csr)
qed

text \<open>\<open>loaded\<close>: vertices and indices are in place and vertex numbers fit an \<open>int\<close>.\<close>

definition loaded :: "graph_builder \<Rightarrow> bool" where
  "loaded b \<longleftrightarrow> indexed b \<and> length (ng_coords (gb_graph b)) = length (gb_idents b) \<and>
     int (length (gb_idents b)) < 2 ^ 31"

lemma loaded_wiring:
  assumes "loaded b"
  shows "wiring_ok b (length (gb_idents b)) conns (wanted_of b conns) (wire_airways b conns)"
    and "length (aw_adj (wire_airways b conns)) = length (gb_idents b)"
proof -
  show ok: "wiring_ok b (length (gb_idents b)) conns (wanted_of b conns) (wire_airways b conns)"
    by (rule wire_airways_ok) (use assms in \<open>auto simp: loaded_def\<close>)
  then show "length (aw_adj (wire_airways b conns)) = length (gb_idents b)" by (simp add: wiring_ok_def)
qed

lemma loaded_vertex:
  assumes "loaded b" and "is_vertex (gb_graph (wired b conns)) u"
  shows "nat u < length (gb_idents b)" "int (nat u) = u" "0 \<le> u" "u < int (length (gb_idents b))"
  using assms by (auto simp: loaded_def is_vertex_def vertex_count_def wired_sel)

lemma wired_edge:
  assumes "loaded b" and "is_vertex (gb_graph (wired b conns)) u" and "e \<in> set (out_edges (gb_graph (wired b conns)) u)"
  shows "\<exists>conn \<in> set conns. connects b conn u (edge_to e) \<and> edge_to e < int (length (gb_idents b)) \<and>
    connection_edge (gb_graph b) (gb_airway_names (wired b conns)) (ac_segment conn) u (edge_to e) e"
proof -
  note u = loaded_vertex [OF assms(1,2)]
  have "e \<in> set (aw_adj (wire_airways b conns) ! nat u)"
    using assms(3) wired_out_edges [of "nat u" b conns] u loaded_wiring(2) [OF assms(1)] by simp
  from wiring_edge [OF loaded_wiring(1) [OF assms(1)] u(1) this] obtain conn v where
    c: "conn \<in> set conns" "v < int (length (gb_idents b))" "connects b conn (int (nat u)) v"
    "connection_edge (gb_graph b) (aw_names (wire_airways b conns)) (ac_segment conn) (int (nat u)) v e" by blast
  moreover have "v = edge_to e" using c(4) by (simp add: connection_edge_def)
  ultimately show ?thesis using u(2) by (auto simp: wired_sel)
qed

lemma wired_edge_complete:
  assumes "loaded b" and "\<not> gb_airway_overflow (wired b conns)" and "conn \<in> set conns" "connects b conn u v"
  shows "is_vertex (gb_graph (wired b conns)) u \<and> (\<exists>e \<in> set (out_edges (gb_graph (wired b conns)) u).
    connection_edge (gb_graph b) (gb_airway_names (wired b conns)) (ac_segment conn) u v e)"
proof -
  have "indexed b" using assms(1) by (simp add: loaded_def)
  note r = resolve_range [OF this]
  have u: "0 \<le> u" "u < int (length (gb_idents b))" using assms(4) r by (auto simp: connects_def)
  then have n: "nat u < length (gb_idents b)" by linarith
  from wiring_wanted [OF loaded_wiring(1) [OF assms(1)], of conns conn u v] assms(2-4)
  have "\<exists>e \<in> set (aw_adj (wire_airways b conns) ! nat u).
      connection_edge (gb_graph b) (gb_airway_names (wired b conns)) (ac_segment conn) u v e"
    by (auto simp: wired_sel wanted_of_def)
  then show ?thesis
    using wired_out_edges [of "nat u" b conns] u n loaded_wiring(2) [OF assms(1), of conns] assms(1)
    by (auto simp: is_vertex_def vertex_count_def wired_sel loaded_def)
qed

lemma wired_graph_ok:
  assumes "loaded b"
  shows "graph_ok (gb_graph (wired b conns))"
proof -
  let ?adj = "aw_adj (wire_airways b conns)"
  have l: "length ?adj = length (ng_coords (gb_graph b))" "length (ng_coords (gb_graph b)) = length (gb_idents b)"
    using loaded_wiring(2) [OF assms] assms by (simp_all add: loaded_def)
  have e: "0 \<le> edge_to e \<and> edge_to e < int (length (gb_idents b))" if "e \<in> set (concat ?adj)" for e
  proof -
    from that obtain es where "es \<in> set ?adj" "e \<in> set es" by auto
    then obtain u where u: "u < length ?adj" "e \<in> set (?adj ! u)" by (metis in_set_conv_nth)
    have "is_vertex (gb_graph (wired b conns)) (int u)"
      using u(1) l by (simp add: is_vertex_def vertex_count_def wired_sel)
    from wired_edge [OF assms this, of e] u wired_out_edges [OF u(1)] show ?thesis
      by (auto simp: connects_def)
  qed
  have "csr_offsets_ok (csr_offsets 0 ?adj) (length (ng_coords (gb_graph b))) (length (concat ?adj))"
    using csr_offsets_last [of 0 ?adj] sorted_csr_offsets [of 0 ?adj] l by (simp add: csr_offsets_ok_def)
  then show ?thesis
    using e l(2) by (simp add: graph_ok_def wired_sel offsets_of_csr vertex_count_def)
qed

lemma wired_edges_metric:
  assumes "loaded b"
  shows "edges_metric (length (gb_airway_names (wired b conns))) (gb_graph (wired b conns))"
  unfolding edges_metric_def
proof (intro allI impI)
  fix u e assume u: "is_vertex (gb_graph (wired b conns)) u" "e \<in> set (out_edges (gb_graph (wired b conns)) u)"
  then show "unat (ge_airway_id e) < length (gb_airway_names (wired b conns)) \<and>
      earth_radius_nm * chord (project_unit_sphere (coord_of (gb_graph (wired b conns)) u))
        (project_unit_sphere (coord_of (gb_graph (wired b conns)) (edge_to e))) \<le> ge_distance_nm e"
    using wired_edge [OF assms u] by (auto simp: connection_edge_def chord_le_distance)
qed

lemma wired_flags:
  assumes "loaded b" and u: "is_vertex (gb_graph (wired b conns)) u"
  shows "has_outbound (wired b conns) u \<longleftrightarrow> out_edges (gb_graph (wired b conns)) u \<noteq> []"
    and "has_inbound (wired b conns) u \<longleftrightarrow> (\<exists>v e. is_vertex (gb_graph (wired b conns)) v \<and>
      e \<in> set (out_edges (gb_graph (wired b conns)) v) \<and> edge_to e = u)"
proof -
  let ?adj = "aw_adj (wire_airways b conns)"
  note u' = loaded_vertex [OF assms(1) u]
  have l: "length ?adj = length (gb_idents b)" by (rule loaded_wiring(2) [OF assms(1)])
  have out: "out_edges (gb_graph (wired b conns)) v = ?adj ! nat v" "nat v < length ?adj"
    if "is_vertex (gb_graph (wired b conns)) v" for v
    using loaded_vertex [OF assms(1) that] wired_out_edges [of "nat v" b conns] l by simp_all
  show "has_outbound (wired b conns) u \<longleftrightarrow> out_edges (gb_graph (wired b conns)) u \<noteq> []"
    using u' l out [OF u] by (simp add: has_outbound_def wired_sel outbound_flags_def)
  have vertex: "is_vertex (gb_graph (wired b conns)) (int v)" if "v < length ?adj" for v
    using that l assms(1) by (simp add: is_vertex_def vertex_count_def wired_sel loaded_def)
  have nn: "0 \<le> edge_to e" if "v < length ?adj" "e \<in> set (?adj ! v)" for v e
    using wired_edge [OF assms(1) vertex [OF that(1)], of e] out [OF vertex [OF that(1)]] that
    by (auto simp: connects_def)
  have "has_inbound (wired b conns) u \<longleftrightarrow> (\<exists>es \<in> set ?adj. \<exists>e \<in> set es. nat (edge_to e) = nat u)"
    using u' l by (simp add: has_inbound_def wired_sel inbound_flags_def inbound_rows)
  also have "\<dots> \<longleftrightarrow> (\<exists>v < length ?adj. \<exists>e \<in> set (?adj ! v). edge_to e = u)"
  proof -
    have "(nat (edge_to e) = nat u) = (edge_to e = u)" if "v < length ?adj" "e \<in> set (?adj ! v)" for v e
      using nn [OF that] u'(2) by linarith
    then have "(\<exists>v < length ?adj. \<exists>e \<in> set (?adj ! v). nat (edge_to e) = nat u) \<longleftrightarrow>
        (\<exists>v < length ?adj. \<exists>e \<in> set (?adj ! v). edge_to e = u)" by blast
    moreover have "(\<exists>es \<in> set ?adj. Q es) \<longleftrightarrow> (\<exists>v < length ?adj. Q (?adj ! v))" for Q
      by (auto simp: set_conv_nth)
    ultimately show ?thesis by (simp only:)
  qed
  also have "\<dots> \<longleftrightarrow> (\<exists>v e. is_vertex (gb_graph (wired b conns)) v \<and>
      e \<in> set (out_edges (gb_graph (wired b conns)) v) \<and> edge_to e = u)"
    using out vertex by (metis nat_int)
  finally show "has_inbound (wired b conns) u \<longleftrightarrow> (\<exists>v e. is_vertex (gb_graph (wired b conns)) v \<and>
      e \<in> set (out_edges (gb_graph (wired b conns)) v) \<and> edge_to e = u)" .
qed

section \<open>Build\<close>

definition small_data :: "nav_data \<Rightarrow> bool" where
  "small_data data \<longleftrightarrow> int (length (nd_waypoints data)) + int (length (nd_airports data)) < 2 ^ 31"

text \<open>\<open>data_ok\<close>: every kind is a graph vertex kind and every identifier fits its fixed-width key.\<close>

definition ident_fits :: "ident \<Rightarrow> bool" where
  "ident_fits i \<longleftrightarrow> length (id_ident i) \<le> ident_cap \<and> length (id_icao_code i) \<le> arinc424_icao_code_cap"

definition data_ok :: "nav_data \<Rightarrow> bool" where
  "data_ok data \<longleftrightarrow> (\<forall>w \<in> set (nd_waypoints data). is_graph_vertex_kind (wp_kind w)) \<and>
     (\<forall>i \<in> set (data_idents data). ident_fits i)"

lemma ident_fits_from_parts:
  "ident_fits \<lparr>id_ident = s, id_icao_code = r\<rparr> \<Longrightarrow> \<exists>f. fixed_ident_from_parts s r = Inr f"
  "\<not> ident_fits \<lparr>id_ident = s, id_icao_code = r\<rparr> \<Longrightarrow>
     \<exists>e. fixed_ident_from_parts s r = Inl e \<and> err_code e = KInvalidArgument"
  using fixed_ident_from_parts_cases [of s r]
  by (auto simp: ident_fits_def not_le ident_cap_def arinc424_icao_code_cap_def)

lemma ident_fits_from_ident:
  "ident_fits i \<Longrightarrow> \<exists>f. fixed_ident_from_ident i = Inr f"
  "\<not> ident_fits i \<Longrightarrow> \<exists>e. fixed_ident_from_ident i = Inl e \<and> err_code e = KInvalidArgument"
  unfolding fixed_ident_from_ident_def
  subgoal by (rule ident_fits_from_parts) (simp add: ident_fits_def)
  subgoal by (rule ident_fits_from_parts) (simp add: ident_fits_def)
  done

lemma load_waypoints_total:
  "if \<forall>w \<in> set ws. is_graph_vertex_kind (wp_kind w) \<and> ident_fits (wp_ident w)
   then \<exists>b'. load_waypoints ws b = Inr b'
   else \<exists>e. load_waypoints ws b = Inl e \<and> err_code e = KInvalidArgument"
proof (induction ws arbitrary: b)
  case (Cons w ws)
  show ?case
  proof (cases "is_graph_vertex_kind (wp_kind w) \<and> ident_fits (wp_ident w)")
    case True
    then obtain f where "fixed_ident_from_ident (wp_ident w) = Inr f" using ident_fits_from_ident by blast
    then show ?thesis using True Cons.IH [of "push_vertex (wp_coord w) f (wp_kind w) b"] by simp
  next
    case False
    then show ?thesis using ident_fits_from_ident [of "wp_ident w"] by (auto simp: mk_error_def)
  qed
qed simp

lemma load_airports_total:
  "if \<forall>a \<in> set as. ident_fits \<lparr>id_ident = ap_icao a, id_icao_code = ap_icao_code a\<rparr>
   then \<exists>b'. load_airports as b = Inr b'
   else \<exists>e. load_airports as b = Inl e \<and> err_code e = KInvalidArgument"
proof (induction "as" arbitrary: b)
  case (Cons a "as")
  show ?case
  proof (cases "ident_fits \<lparr>id_ident = ap_icao a, id_icao_code = ap_icao_code a\<rparr>")
    case True
    then obtain f where "fixed_ident_from_parts (ap_icao a) (ap_icao_code a) = Inr f"
      using ident_fits_from_parts by blast
    then show ?thesis using True Cons.IH by simp
  next
    case False
    from ident_fits_from_parts(2) [OF this] False show ?thesis by auto
  qed
qed simp

lemma build_total:
  "if data_ok data then \<exists>b. build data = Inr b else \<exists>e. build data = Inl e \<and> err_code e = KInvalidArgument"
proof -
  let ?w = "\<forall>w \<in> set (nd_waypoints data). is_graph_vertex_kind (wp_kind w) \<and> ident_fits (wp_ident w)"
  let ?a = "\<forall>a \<in> set (nd_airports data). ident_fits \<lparr>id_ident = ap_icao a, id_icao_code = ap_icao_code a\<rparr>"
  have ok: "data_ok data \<longleftrightarrow> ?w \<and> ?a" by (auto simp: data_ok_def data_idents_def)
  show ?thesis
  proof (cases ?w)
    case True
    then obtain b1 where b1: "load_waypoints (nd_waypoints data) graph_builder_empty = Inr b1"
      using load_waypoints_total [of "nd_waypoints data" graph_builder_empty] by auto
    show ?thesis
      using load_airports_total [of "nd_airports data" b1] b1 True unfolding ok
      by (cases ?a) (auto simp: build_def populate_def Let_def)
  next
    case False
    then obtain e where "load_waypoints (nd_waypoints data) graph_builder_empty = Inl e" "err_code e = KInvalidArgument"
      using load_waypoints_total [of "nd_waypoints data" graph_builder_empty] by (simp only: if_False) blast
    then show ?thesis using False unfolding ok by (auto simp: build_def populate_def)
  qed
qed

lemma build_wired:
  assumes "build data = Inr b" and "small_data data"
  obtains b0 fs where "loaded b0" "b = wired b0 (nd_airways data)" "b0 = vertices_loaded data fs"
    "list_all2 (\<lambda>i f. fixed_ident_from_ident i = Inr f) (data_idents data) fs"
proof (rule build_InrE [OF assms(1)])
  fix fs assume fs: "list_all2 (\<lambda>i f. fixed_ident_from_ident i = Inr f) (data_idents data) fs"
    and b: "b = rebuild_grid (flatten_csr (wire_airways (vertices_loaded data fs) (nd_airways data)) (vertices_loaded data fs))"
  have "loaded (vertices_loaded data fs)"
    using vertices_loaded_indexed [OF fs] assms(2) by (simp add: loaded_def vertices_loaded_sel small_data_def)
  then show thesis using that b fs by (simp add: wired_def)
qed

lemma build_vertices:
  assumes "b = wired b0 conns" "b0 = vertices_loaded data fs"
    and "list_all2 (\<lambda>i f. fixed_ident_from_ident i = Inr f) (data_idents data) fs"
  shows "map (ident_of b) [0 .. vertex_count (gb_graph b) - 1] = data_idents data"
    and "ng_coords (gb_graph b) = map wp_coord (nd_waypoints data) @ map ap_coord (nd_airports data)"
    and "gb_first_airport_vertex b = int (length (nd_waypoints data))"
    and "gb_idents b = fs"
proof -
  show c: "ng_coords (gb_graph b) = map wp_coord (nd_waypoints data) @ map ap_coord (nd_airports data)"
    and "gb_first_airport_vertex b = int (length (nd_waypoints data))" and i: "gb_idents b = fs"
    by (simp_all add: assms(1,2) wired_sel vertices_loaded_sel)
  have l: "length fs = length (data_idents data)" using list_all2_lengthD [OF assms(3)] by simp
  have "map fixed_ident_to_ident fs = data_idents data"
    using assms(3) l by (auto simp: list_all2_conv_all_nth fixed_from_ident_wf intro!: nth_equalityI)
  moreover have "map (ident_of b) [0 .. int (length fs) - 1] = map fixed_ident_to_ident fs"
    by (auto simp: ident_of_def i intro!: nth_equalityI)
  moreover have "vertex_count (gb_graph b) = int (length fs)"
    by (simp add: vertex_count_def c l data_idents_def)
  ultimately show "map (ident_of b) [0 .. vertex_count (gb_graph b) - 1] = data_idents data" by simp
qed

text \<open>The airway-id space overflows only with more than 65535 connections.\<close>

lemma airway_id_for_grows:
  assumes "airway_id_for name w = (i, w')" and "length (aw_names w) \<le> 0xFFFF" and "\<not> aw_overflow w"
  shows "length (aw_names w') \<le> Suc (length (aw_names w))" and "\<not> aw_overflow w'"
  using assms by (auto simp: airway_id_for_def Let_def split: option.splits if_splits)

lemma wire_connection_grows:
  assumes "length (aw_names w) \<le> 0xFFFF" and "\<not> aw_overflow w"
  shows "length (aw_names (wire_connection b w conn)) \<le> Suc (length (aw_names w))"
    and "\<not> aw_overflow (wire_connection b w conn)"
proof -
  obtain i w1 where id: "airway_id_for (as_name (ac_segment conn)) w = (i, w1)"
    by (cases "airway_id_for (as_name (ac_segment conn)) w")
  note w1 = airway_id_for_grows [OF id assms]
  show "length (aw_names (wire_connection b w conn)) \<le> Suc (length (aw_names w))"
    "\<not> aw_overflow (wire_connection b w conn)"
    using w1 assms(2) by (simp_all add: wire_connection_def Let_def id)
qed

lemma wire_airways_no_overflow:
  assumes "length conns \<le> 0xFFFF"
  shows "\<not> aw_overflow (wire_airways b conns) \<and> length (aw_names (wire_airways b conns)) \<le> Suc (length conns)"
  using assms
proof (induction conns rule: rev_induct)
  case (snoc conn conns)
  then have "length (aw_names (wire_airways b conns)) \<le> Suc (length conns)" "Suc (length conns) \<le> 0xFFFF"
    "\<not> aw_overflow (wire_airways b conns)" by simp_all
  then show ?case using wire_connection_grows [of "wire_airways b conns" b conn]
    by (auto simp: wire_airways_def)
qed (simp add: wire_airways_def)

lemma build_no_overflow:
  assumes "build data = Inr b" and "length (nd_airways data) \<le> 0xFFFF"
  shows "\<not> gb_airway_overflow b"
proof (rule build_InrE [OF assms(1)])
  fix fs assume "b = rebuild_grid (flatten_csr (wire_airways (vertices_loaded data fs) (nd_airways data)) (vertices_loaded data fs))"
  then show ?thesis
    using wire_airways_no_overflow [OF assms(2), of "vertices_loaded data fs"]
    by (simp add: rebuild_grid_def flatten_csr_def)
qed

section \<open>A sample dataset\<close>

text \<open>Two fixes, an airport and a two-way airway between the fixes.\<close>

definition sample_fix :: "string \<Rightarrow> real \<Rightarrow> waypoint" where
  "sample_fix name lon = \<lparr>wp_ident = \<lparr>id_ident = name, id_icao_code = ''ED''\<rparr>,
     wp_coord = \<lparr>latitude = 50, longitude = lon\<rparr>, wp_kind = KFix\<rparr>"

definition sample_segment :: airway_segment where
  "sample_segment = \<lparr>as_name = ''L9'', as_direction = DirBoth, as_level = LevelBoth, as_base_fl = 0, as_top_fl = 660\<rparr>"

definition sample_connection :: airway_connection where
  "sample_connection = \<lparr>ac_from = \<lparr>id_ident = ''ABC'', id_icao_code = ''ED''\<rparr>,
     ac_to = \<lparr>id_ident = ''DEF'', id_icao_code = ''ED''\<rparr>, ac_segment = sample_segment,
     ac_from_hint = None, ac_to_hint = None\<rparr>"

definition sample_data :: nav_data where
  "sample_data = \<lparr>nd_cycle = 2401, nd_waypoints = [sample_fix ''ABC'' 8, sample_fix ''DEF'' 9],
     nd_navaid_details = [], nd_hold_fixes = [], nd_airways = [sample_connection],
     nd_airports = [\<lparr>ap_icao = ''EDDF'', ap_icao_code = ''ED'', ap_coord = \<lparr>latitude = 50, longitude = 8.5\<rparr>, ap_elevation_ft = 364\<rparr>],
     nd_mora = mora_grid_empty, nd_msa = []\<rparr>"

lemma sample_data_ok: "data_ok sample_data" "small_data sample_data"
  by (simp_all add: data_ok_def data_idents_def sample_data_def sample_fix_def ident_fits_def small_data_def
      is_graph_vertex_kind_def ident_cap_def arinc424_icao_code_cap_def)

lemma sample_built: obtains b where "build sample_data = Inr b" "\<not> gb_airway_overflow b"
    "vertex_count (gb_graph b) = 3" "is_vertex (gb_graph b) 0" "connects b sample_connection 0 1"
proof -
  from build_total [of sample_data] sample_data_ok obtain b where b: "build sample_data = Inr b" by auto
  have o: "\<not> gb_airway_overflow b" by (rule build_no_overflow [OF b]) (simp add: sample_data_def)
  show thesis
  proof (rule build_wired [OF b sample_data_ok(2)])
    fix b0 fs assume b0: "loaded b0" "b = wired b0 (nd_airways sample_data)" "b0 = vertices_loaded sample_data fs"
      "list_all2 (\<lambda>i f. fixed_ident_from_ident i = Inr f) (data_idents sample_data) fs"
    note v = build_vertices [OF b0(2-4)]
    have n: "vertex_count (gb_graph b) = 3" by (simp add: vertex_count_def v(2) sample_data_def)
    have up: "[0 .. 2::int] = [0, 1, 2]" "[0 .. 1::int] = [0, 1]" by (simp_all add: upto.simps)
    have i: "ident_of b 0 = \<lparr>id_ident = ''ABC'', id_icao_code = ''ED''\<rparr>" "ident_of b 1 = \<lparr>id_ident = ''DEF'', id_icao_code = ''ED''\<rparr>"
      using v(1) by (simp_all add: n up data_idents_def sample_data_def sample_fix_def)
    have ix: "indexed b" unfolding b0(2) by (rule wired_indexed) (use b0(1) in \<open>simp add: loaded_def\<close>)
    have fa: "gb_first_airport_vertex b - 1 = 1" by (simp add: v(3) sample_data_def)
    have "connects b sample_connection 0 1"
      by (simp add: connects_def sample_connection_def sample_segment_def resolve_endpoint_def
          vertex_by_ident_spec [OF ix] fa up i first_or_none_def)
    then show thesis using that b o n by (simp add: is_vertex_def)
  qed
qed

section \<open>Properties\<close>

text \<open>
  C37: Build succeeds exactly on a dataset whose waypoint kinds are all graph vertex kinds and whose
  identifiers fit their fixed-width keys; anything else is reported as an invalid argument. The
  vertices of the result are the waypoints followed by the airports, in order.
\<close>

theorem build_result:
  "case build data of
     Inl e \<Rightarrow> err_code e = KInvalidArgument \<and> \<not> data_ok data
   | Inr b \<Rightarrow> data_ok data \<and>
       (small_data data \<longrightarrow>
         map (ident_of b) [0 .. vertex_count (gb_graph b) - 1] = data_idents data \<and>
         ng_coords (gb_graph b) = map wp_coord (nd_waypoints data) @ map ap_coord (nd_airports data) \<and>
         gb_first_airport_vertex b = int (length (nd_waypoints data)))"
proof (cases "data_ok data")
  case True
  with build_total [of data] obtain b where b: "build data = Inr b" by auto
  have "map (ident_of b) [0 .. vertex_count (gb_graph b) - 1] = data_idents data \<and>
      ng_coords (gb_graph b) = map wp_coord (nd_waypoints data) @ map ap_coord (nd_airports data) \<and>
      gb_first_airport_vertex b = int (length (nd_waypoints data))" if s: "small_data data"
  proof (rule build_wired [OF b s])
    fix b0 fs assume "b = wired b0 (nd_airways data)" "b0 = vertices_loaded data fs"
      "list_all2 (\<lambda>i f. fixed_ident_from_ident i = Inr f) (data_idents data) fs"
    from build_vertices [OF this] show ?thesis by blast
  qed
  then show ?thesis using b True by simp
next
  case False
  with build_total [of data] show ?thesis by auto
qed

lemma build_result_witness:
  "\<exists>b. build sample_data = Inr b \<and> map (ident_of b) [0 .. vertex_count (gb_graph b) - 1] = data_idents sample_data"
proof (rule sample_built)
  fix b assume "build sample_data = Inr b"
  then show ?thesis using build_result [of sample_data] sample_data_ok(2) by auto
qed

text \<open>
  C23: The edges of a built graph are exactly the resolved airway connections in their allowed
  directions: every edge carries the great-circle length, airway name, level and altitude band of
  such a connection, and unless the airway-id space overflowed every such connection has its edge.
\<close>

theorem build_edges:
  assumes "build data = Inr b" and "small_data data"
  shows "(\<forall>u e. is_vertex (gb_graph b) u \<and> e \<in> set (out_edges (gb_graph b) u) \<longrightarrow>
      (\<exists>conn \<in> set (nd_airways data). connects b conn u (edge_to e) \<and>
        connection_edge (gb_graph b) (gb_airway_names b) (ac_segment conn) u (edge_to e) e)) \<and>
    (\<not> gb_airway_overflow b \<longrightarrow> (\<forall>conn \<in> set (nd_airways data). \<forall>u v. connects b conn u v \<longrightarrow>
      is_vertex (gb_graph b) u \<and> (\<exists>e \<in> set (out_edges (gb_graph b) u).
        connection_edge (gb_graph b) (gb_airway_names b) (ac_segment conn) u v e)))"
proof (intro conjI)
  have graph: "connection_edge (gb_graph (wired b0 conns)) names s u v e = connection_edge (gb_graph b0) names s u v e"
    for b0 conns names s u v e by (simp add: connection_edge_def)
  show "\<forall>u e. is_vertex (gb_graph b) u \<and> e \<in> set (out_edges (gb_graph b) u) \<longrightarrow>
      (\<exists>conn \<in> set (nd_airways data). connects b conn u (edge_to e) \<and>
        connection_edge (gb_graph b) (gb_airway_names b) (ac_segment conn) u (edge_to e) e)"
  proof (rule build_wired [OF assms])
    fix b0 assume "loaded b0" "b = wired b0 (nd_airways data)"
    then show ?thesis using wired_edge [of b0 "nd_airways data"] by (simp only: graph wired_connects) blast
  qed
  show "\<not> gb_airway_overflow b \<longrightarrow> (\<forall>conn \<in> set (nd_airways data). \<forall>u v. connects b conn u v \<longrightarrow>
      is_vertex (gb_graph b) u \<and> (\<exists>e \<in> set (out_edges (gb_graph b) u).
        connection_edge (gb_graph b) (gb_airway_names b) (ac_segment conn) u v e))"
  proof (rule build_wired [OF assms])
    fix b0 assume "loaded b0" "b = wired b0 (nd_airways data)"
    then show ?thesis using wired_edge_complete [of b0 "nd_airways data"]
      by (simp only: graph wired_connects) blast
  qed
qed

lemma build_edges_witness:
  "\<exists>b e. build sample_data = Inr b \<and> e \<in> set (out_edges (gb_graph b) 0) \<and> edge_to e = 1 \<and>
     gb_airway_names b ! unat (ge_airway_id e) = ''L9''"
proof (rule sample_built)
  fix b assume b: "build sample_data = Inr b" "\<not> gb_airway_overflow b" "connects b sample_connection 0 1"
  have "sample_connection \<in> set (nd_airways sample_data)" by (simp add: sample_data_def)
  with build_edges [OF b(1) sample_data_ok(2)] b(2,3) obtain e where
    "e \<in> set (out_edges (gb_graph b) 0)"
    "connection_edge (gb_graph b) (gb_airway_names b) (ac_segment sample_connection) 0 1 e" by blast
  then show ?thesis using b(1)
    by (auto simp: connection_edge_def sample_connection_def sample_segment_def)
qed

lemma airport_off_network:
  assumes "build data = Inr b" and "small_data data" and "is_vertex (gb_graph b) u" and "is_airport b u"
  shows "\<not> on_network b u"
proof (rule build_wired [OF assms(1,2)])
  fix b0 assume l: "loaded b0" and b: "b = wired b0 (nd_airways data)"
  have i: "indexed b0" using l by (simp add: loaded_def)
  note f = wired_flags [OF l assms(3) [unfolded b], folded b]
  have fa: "gb_first_airport_vertex b = gb_first_airport_vertex b0" "0 \<le> gb_first_airport_vertex b0"
    using i by (simp_all add: b wired_sel indexed_def)
  have c: "x < gb_first_airport_vertex b \<and> y < gb_first_airport_vertex b" if "connects b0 conn x y" for conn x y
    using that resolve_endpoint_range(1) [OF i] unfolding connects_def fa by fastforce
  have e: "x < gb_first_airport_vertex b \<and> edge_to e < gb_first_airport_vertex b"
    if "is_vertex (gb_graph b) x" "e \<in> set (out_edges (gb_graph b) x)" for x e
    using wired_edge [OF l that [unfolded b]] c by blast
  show "\<not> on_network b u"
  proof
    have u: "\<not> u < gb_first_airport_vertex b" using assms(4) by (simp add: is_airport_def)
    assume "on_network b u"
    then show False
    proof (unfold on_network_def, elim disjE)
      assume "has_outbound b u"
      then obtain x where "x \<in> set (out_edges (gb_graph b) u)" using f(1) by fastforce
      then show False using e [OF assms(3)] u by blast
    next
      assume "has_inbound b u"
      then show False using f(2) e u by blast
    qed
  qed
qed

text \<open>
  C35: The on-network flags mirror the edges, and airports are never on the network: a vertex is
  outbound when it has an edge, inbound when some edge ends there.
\<close>

theorem build_flags:
  assumes "build data = Inr b" and "small_data data" and "is_vertex (gb_graph b) u"
  shows "(has_outbound b u \<longleftrightarrow> out_edges (gb_graph b) u \<noteq> []) \<and>
    (has_inbound b u \<longleftrightarrow> (\<exists>v e. is_vertex (gb_graph b) v \<and> e \<in> set (out_edges (gb_graph b) v) \<and> edge_to e = u)) \<and>
    (is_airport b u \<longrightarrow> \<not> on_network b u)"
proof (rule build_wired [OF assms(1,2)])
  fix b0 assume l: "loaded b0" and b: "b = wired b0 (nd_airways data)"
  show ?thesis
    using wired_flags [OF l assms(3) [unfolded b], folded b] airport_off_network [OF assms] by blast
qed

lemma build_flags_witness:
  "\<exists>b. build sample_data = Inr b \<and>
     (has_outbound b 0 \<longleftrightarrow> out_edges (gb_graph b) 0 \<noteq> []) \<and> (is_airport b 0 \<longrightarrow> \<not> on_network b 0)"
proof (rule sample_built)
  fix b assume b: "build sample_data = Inr b" "is_vertex (gb_graph b) 0"
  from build_flags [OF b(1) sample_data_ok(2) b(2)] b(1) show ?thesis by blast
qed

text \<open>
  A snapshot of a built graph restores it: the indices and the grid rebuilt by FromSnapshot are
  those Build made, and only the overflow mark, which the snapshot does not carry, is lost.
\<close>

theorem snapshot_restores:
  assumes "build data = Inr b" and "small_data data"
  shows "from_snapshot (to_snapshot b) = b\<lparr>gb_airway_overflow := False\<rparr>"
proof (rule build_wired [OF assms])
  fix b0 assume l: "loaded b0" and b: "b = wired b0 (nd_airways data)"
  have "indexed b" unfolding b by (rule wired_indexed) (use l in \<open>simp add: loaded_def\<close>)
  from indexed_sel [OF this] have i: "rebuild_indices (x\<lparr>gb_idents := gb_idents b, gb_first_airport_vertex := gb_first_airport_vertex b\<rparr>) =
      x\<lparr>gb_idents := gb_idents b, gb_first_airport_vertex := gb_first_airport_vertex b,
        gb_ident_index := gb_ident_index b, gb_ident_all := gb_ident_all b, gb_airport_index := gb_airport_index b\<rparr>" for x
    by (simp add: rebuild_indices_def Let_def)
  have g: "gb_grid b = gb_grid (rebuild_grid b)"
    by (simp add: b wired_def rebuild_grid_def flatten_csr_def coord_of_def)
  have s: "from_snapshot (to_snapshot b) = rebuild_grid (rebuild_indices ((graph_builder_empty
       \<lparr>gb_graph := gb_graph b, gb_has_outbound := gb_has_outbound b, gb_has_inbound := gb_has_inbound b,
        gb_kinds := gb_kinds b, gb_airport_elevations_ft := gb_airport_elevations_ft b,
        gb_airway_names := gb_airway_names b\<rparr>)\<lparr>gb_idents := gb_idents b, gb_first_airport_vertex := gb_first_airport_vertex b\<rparr>))"
    by (cases "gb_graph b") (simp add: from_snapshot_def to_snapshot_def graph_builder_empty_def)
  show ?thesis
    unfolding s i by (rule graph_builder.equality) (simp_all add: g rebuild_grid_def graph_builder_empty_def)
qed

lemma snapshot_restores_witness:
  "\<exists>b. build sample_data = Inr b \<and> from_snapshot (to_snapshot b) = b"
proof (rule sample_built)
  fix b assume b: "build sample_data = Inr b" "\<not> gb_airway_overflow b"
  from snapshot_restores [OF b(1) sample_data_ok(2)] b show ?thesis by simp
qed

text \<open>
  C36: The lookups of a built graph find what was loaded: by (ident, region) the first waypoint with
  that key, by ident alone every waypoint with that name in order, by ICAO code the first airport;
  -1 or nothing exactly when there is none.
\<close>

theorem build_lookups:
  assumes "build data = Inr b" and "small_data data"
  shows "vertex_by_ident b i = first_or_none (filter (\<lambda>v. ident_of b v = i) [0 .. gb_first_airport_vertex b - 1]) \<and>
    vertices_by_ident b name = filter (\<lambda>v. id_ident (ident_of b v) = name) [0 .. gb_first_airport_vertex b - 1] \<and>
    vertex_by_airport b icao = first_or_none
      (filter (\<lambda>v. id_ident (ident_of b v) = icao) [gb_first_airport_vertex b .. int (length (gb_idents b)) - 1])"
proof (rule build_wired [OF assms])
  fix b0 assume l: "loaded b0" and b: "b = wired b0 (nd_airways data)"
  have "indexed b" unfolding b by (rule wired_indexed) (use l in \<open>simp add: loaded_def\<close>)
  then show ?thesis using vertex_by_ident_spec vertices_by_ident_spec vertex_by_airport_spec by blast
qed

lemma build_lookups_witness:
  "\<exists>b. build sample_data = Inr b \<and> vertices_by_ident b ''ABC'' =
     filter (\<lambda>v. id_ident (ident_of b v) = ''ABC'') [0 .. gb_first_airport_vertex b - 1]"
proof (rule sample_built)
  fix b assume b: "build sample_data = Inr b"
  from build_lookups [OF b(1) sample_data_ok(2), of undefined "''ABC''" "[]"] b show ?thesis by blast
qed

text \<open>
  Searching a built graph is optimal: without the turn penalty and with constraints that only add
  cost, the reported cost is at most that of any walk of allowed edges from a source to a goal. The
  builder's great-circle edge lengths are what the search's chord heuristic needs.
\<close>

theorem build_search_optimal:
  assumes "build data = Inr b" and "small_data data"
    and "constraints_sound (length (gb_airway_names b)) (gb_graph b) options"
    and "seeds_ok goals" and "\<not> tp_enabled (so_turn_penalty options)"
    and "find_shortest_path_multi (gb_graph b) sources goals options = Some r"
    and "reach (search_env_of (gb_graph b) sources goals options) sources v c"
    and "is_goal (search_env_of (gb_graph b) sources goals options) v"
  shows "sp_found r \<and>
    sp_cost r \<le> Fin (c + en_goal_seed (search_env_of (gb_graph b) sources goals options) ! nat v)"
proof (rule build_wired [OF assms(1,2)])
  fix b0 assume l: "loaded b0" and b: "b = wired b0 (nd_airways data)"
  show ?thesis
    by (rule find_shortest_path_multi_optimal [OF _ _ assms(3-8)])
      (simp_all only: b wired_graph_ok [OF l] wired_edges_metric [OF l])
qed

lemma build_search_optimal_witness:
  "\<exists>b r. build sample_data = Inr b \<and>
     find_shortest_path_multi (gb_graph b) [\<lparr>se_vertex = 0, se_cost = 10, se_bearing = no_bearing\<rparr>]
       [\<lparr>se_vertex = 1, se_cost = 20, se_bearing = no_bearing\<rparr>] search_options_default = Some r \<and> sp_found r \<and>
     sp_cost r \<le> Fin (10 + distance_to (coord_of (gb_graph b) 0) (coord_of (gb_graph b) 1) + 20)"
proof (rule sample_built)
  let ?s = "[\<lparr>se_vertex = 0, se_cost = 10, se_bearing = no_bearing\<rparr>]"
  let ?g = "[\<lparr>se_vertex = 1, se_cost = 20, se_bearing = no_bearing\<rparr>]"
  fix b assume b: "build sample_data = Inr b" "\<not> gb_airway_overflow b" "vertex_count (gb_graph b) = 3"
    "is_vertex (gb_graph b) 0" "connects b sample_connection 0 1"
  let ?env = "search_env_of (gb_graph b) ?s ?g search_options_default"
  let ?d = "distance_to (coord_of (gb_graph b) 0) (coord_of (gb_graph b) 1)"
  have env: "en_graph ?env = gb_graph b" "en_options ?env = search_options_default"
    by (simp_all add: search_env_of_def Let_def)
  have free: "\<not> node_blocks (so_node_filter search_options_default) v"
    "\<not> edge_blocks (so_edge_filter search_options_default) u v" for u v
    by (simp_all add: search_options_default_def node_filter_default_def node_blocks_def edge_blocks_def no_vertex_def)
  have cost: "edge_cost (gb_graph b) search_options_default u e = Some (ge_distance_nm e)" for u e
    by (simp add: edge_cost_def edge_allowed_def search_options_default_def)
  obtain e where e: "e \<in> set (out_edges (gb_graph b) 0)" "edge_to e = 1" "ge_distance_nm e = ?d" and g: "graph_ok (gb_graph b)"
  proof (rule build_wired [OF b(1) sample_data_ok(2)])
    fix b0 assume l: "loaded b0" and b0: "b = wired b0 (nd_airways sample_data)"
    have "sample_connection \<in> set (nd_airways sample_data)" by (simp add: sample_data_def)
    from wired_edge_complete [OF l b(2) [unfolded b0] this b(5) [unfolded b0 wired_connects]] wired_graph_ok [OF l]
    show thesis using that by (auto simp: b0 connection_edge_def)
  qed
  have "reach ?env ?s 0 10"
    using reach.source [of "hd ?s" ?s ?env] b(4) by (simp add: env free)
  from reach.edge [OF this, of e ?d] e have r: "reach ?env ?s 1 (10 + ?d)" by (simp add: env free cost)
  have seeds: "seeds_ok ?g" by (simp add: seeds_ok_def)
  have seed: "build_seed_table ?g 3 ! 1 = 20 \<and> 0 < length (build_seed_table ?g 3)"
    using build_seed_table_cheapest [OF seeds, of 1 3] by (simp add: cheapest_seed_def)
  have goal: "is_goal ?env 1" "en_goal_seed ?env ! 1 = 20"
    using seed b(3) build_seed_table_cheapest [OF seeds, of 1 3]
    by (simp_all add: is_goal_def search_env_of_def Let_def is_vertex_def cheapest_seed_def)
  have sound: "constraints_sound (length (gb_airway_names b)) (gb_graph b) search_options_default"
    and off: "\<not> tp_enabled (so_turn_penalty search_options_default)"
    by (simp_all add: constraints_sound_def search_options_default_def)
  show ?thesis
  proof (rule find_shortest_path_multi_result [OF g, of ?s ?g search_options_default])
    fix p assume p: "find_shortest_path_multi (gb_graph b) ?s ?g search_options_default = Some p"
    from build_search_optimal [OF b(1) sample_data_ok(2) sound seeds off p r goal(1)] goal(2) b(1) p
    show ?thesis by auto
  qed
qed

end
