(* ===== verification/NearestNetwork.thy ===== *)
theory NearestNetwork
  imports GraphWiring "HOL-Library.Product_Lexorder"
begin

text \<open>
  \<open>GraphBuilder::NearestOnNetwork\<close>: the DCT fallback's nearest on-network fixes. The degree grid is
  searched in growing squares until the distance of the \<open>count\<close>-th candidate is provably smaller than
  that of anything outside the square; the result is that of a full scan.
\<close>

section \<open>The search\<close>

definition distance_slack_nm :: real where "distance_slack_nm = 1 / 1000000"

text \<open>Score the masked candidates, each vertex once.\<close>

primrec score_candidates :: "nav_graph \<Rightarrow> u8 list \<Rightarrow> point \<Rightarrow> int list \<Rightarrow> int set \<Rightarrow> (real \<times> int) list" where
  "score_candidates graph flags coord [] seen = []"
| "score_candidates graph flags coord (v # vs) seen =
     (if flags ! nat v \<noteq> 0 \<and> v \<notin> seen then
        (distance_to coord (coord_of graph v), v) # score_candidates graph flags coord vs (insert v seen)
      else score_candidates graph flags coord vs seen)"

text \<open>
  Whether the first \<open>count\<close> of the scored candidates are settled. \<open>std::nth_element\<close> only reorders
  \<open>scored\<close> and puts the element of that rank in place.
\<close>

definition settled :: "point \<Rightarrow> nat \<Rightarrow> int \<Rightarrow> (real \<times> int) list \<Rightarrow> bool" where
  "settled coord wanted radius scored \<longleftrightarrow> wanted \<le> length scored \<and>
     (case outside_lower_bound_nm coord radius of
        Infinity \<Rightarrow> True
      | Fin bound \<Rightarrow> fst (sort scored ! (wanted - 1)) < bound - distance_slack_nm)"

primrec widen :: "nav_graph \<Rightarrow> degree_grid \<Rightarrow> u8 list \<Rightarrow> point \<Rightarrow> nat \<Rightarrow> int list \<Rightarrow> (real \<times> int) list \<Rightarrow> (real \<times> int) list" where
  "widen graph grid flags coord wanted [] scored = scored"
| "widen graph grid flags coord wanted (radius # rs) scored =
     (let scored = score_candidates graph flags coord (grid_near grid coord radius) {} in
      if settled coord wanted radius scored then scored
      else widen graph grid flags coord wanted rs scored)"

definition search_radii :: "int list" where
  "search_radii = [2, 4, 8, 16, 32, 64, 128, 180]"

definition full_scan :: "nav_graph \<Rightarrow> u8 list \<Rightarrow> point \<Rightarrow> (real \<times> int) list" where
  "full_scan graph flags coord =
     map (\<lambda>v. (distance_to coord (coord_of graph v), v))
       (filter (\<lambda>v. flags ! nat v \<noteq> 0 \<and> on_globe (coord_of graph v)) [0 .. vertex_count graph - 1])"

definition nearest_on_network :: "graph_builder \<Rightarrow> point \<Rightarrow> int \<Rightarrow> bool \<Rightarrow> int list" where
  "nearest_on_network b coord wanted inbound =
     (if wanted \<le> 0 \<or> \<not> on_globe coord then []
      else
        let flags = (if inbound then gb_has_inbound b else gb_has_outbound b);
            scored = (case gb_grid b of
                Some grid \<Rightarrow> widen (gb_graph b) grid flags coord (nat wanted) search_radii []
              | None \<Rightarrow> full_scan (gb_graph b) flags coord)
        in map snd (take (nat wanted) (sort scored)))"

section \<open>Equivalence with the full scan\<close>

lemma score_candidates_set:
  "set (score_candidates graph flags coord vs seen) =
     {(distance_to coord (coord_of graph v), v) | v. v \<in> set vs \<and> flags ! nat v \<noteq> 0 \<and> v \<notin> seen}"
  by (induction vs arbitrary: seen) auto

lemma score_candidates_distinct: "distinct (map snd (score_candidates graph flags coord vs seen))"
proof (induction vs arbitrary: seen)
  case (Cons v vs)
  have "v \<notin> snd ` set (score_candidates graph flags coord vs (insert v seen))"
    by (auto simp: score_candidates_set)
  then show ?case using Cons by simp
qed simp

text \<open>The first \<open>n\<close> of a sorted list are decided by any part of it that everything else exceeds.\<close>

lemma take_sort_subset:
  fixes xs ys :: "'a :: linorder list"
  assumes d: "distinct xs" "distinct ys" and s: "set xs \<subseteq> set ys" and n: "0 < n" "n \<le> length xs"
    and far: "\<And>y. y \<in> set ys \<Longrightarrow> y \<notin> set xs \<Longrightarrow> sort xs ! (n - 1) < y"
  shows "take n (sort ys) = take n (sort xs)"
proof -
  let ?a = "take n (sort xs)"
  let ?rest = "filter (\<lambda>y. y \<notin> set ?a) ys"
  have a: "set ?a \<subseteq> set xs" by (metis set_sort set_take_subset)
  have da: "distinct ?a" using d(1) by simp
  have le: "x \<le> sort xs ! (n - 1)" if "x \<in> set ?a" for x
  proof -
    obtain i where "i < n" "x = sort xs ! i" using \<open>x \<in> set ?a\<close> n(2) by (auto simp: in_set_conv_nth)
    then show ?thesis using n by (auto intro!: sorted_nth_mono)
  qed
  have ge: "sort xs ! (n - 1) \<le> y" if "y \<in> set ?rest" for y
  proof (cases "y \<in> set xs")
    case True
    then obtain i where i: "i < length xs" "y = sort xs ! i" by (metis in_set_conv_nth length_sort set_sort)
    have "n \<le> i"
    proof (rule ccontr)
      assume "\<not> n \<le> i"
      then have "y \<in> set ?a" using i n(2) by (auto simp: in_set_conv_nth intro!: exI [of _ i])
      then show False using that by simp
    qed
    then show ?thesis using i n by (auto intro!: sorted_nth_mono)
  next
    case False
    then show ?thesis using that by (intro less_imp_le far) simp_all
  qed
  have "sort ys = ?a @ sort ?rest"
  proof (rule properties_for_sort)
    show "sorted (?a @ sort ?rest)"
      using le ge by (force simp: sorted_append intro: sorted_wrt_take)
    have "set (?a @ sort ?rest) = set ys" using a s by auto
    moreover have "distinct (?a @ sort ?rest)" using da d(2) by auto
    ultimately show "mset (?a @ sort ?rest) = mset ys"
      using d(2) set_eq_iff_mset_eq_distinct by blast
  qed
  then show ?thesis using n(2) by simp
qed


text \<open>The waypoints a search sees when the grid is fresh.\<close>

definition grid_fresh :: "graph_builder \<Rightarrow> bool" where
  "grid_fresh b \<longleftrightarrow> gb_grid b = gb_grid (rebuild_grid b) \<and> 0 \<le> gb_first_airport_vertex b \<and>
     gb_first_airport_vertex b \<le> vertex_count (gb_graph b)"

lemma near_set:
  assumes "grid_fresh b" and "gb_grid b = Some grid"
  shows "set (score_candidates (gb_graph b) flags coord (grid_near grid coord r) {}) =
    (\<lambda>v. (distance_to coord (coord_of (gb_graph b) v), v)) `
      {v \<in> {0 ..< gb_first_airport_vertex b}. flags ! nat v \<noteq> 0 \<and> on_globe (coord_of (gb_graph b) v) \<and>
         visited coord r (coord_of (gb_graph b) v)}"
proof -
  have "grid = degree_grid_new (map (\<lambda>v. (key_for_coord (coord_of (gb_graph b) v), v))
           (filter (\<lambda>v. on_globe (coord_of (gb_graph b) v)) [0 .. gb_first_airport_vertex b - 1]))"
    using assms by (simp add: grid_fresh_def rebuild_grid_def)
  then have "set (grid_near grid coord r) = {v \<in> set (filter (\<lambda>v. on_globe (coord_of (gb_graph b) v))
      [0 .. gb_first_airport_vertex b - 1]). visited coord r (coord_of (gb_graph b) v)}"
    using set_grid_near [OF refl] by metis
  then show ?thesis by (auto simp: score_candidates_set)
qed

lemma full_scan_set:
  assumes "\<forall>v. gb_first_airport_vertex b \<le> v \<and> v < vertex_count (gb_graph b) \<longrightarrow> flags ! nat v = 0"
    and "gb_first_airport_vertex b \<le> vertex_count (gb_graph b)"
  shows "set (full_scan (gb_graph b) flags coord) =
    (\<lambda>v. (distance_to coord (coord_of (gb_graph b) v), v)) `
      {v \<in> {0 ..< gb_first_airport_vertex b}. flags ! nat v \<noteq> 0 \<and> on_globe (coord_of (gb_graph b) v)}"
proof -
  have "{v. v \<in> {0 .. vertex_count (gb_graph b) - 1} \<and> flags ! nat v \<noteq> 0 \<and> on_globe (coord_of (gb_graph b) v)} =
      {v \<in> {0 ..< gb_first_airport_vertex b}. flags ! nat v \<noteq> 0 \<and> on_globe (coord_of (gb_graph b) v)}"
    using assms by (auto simp: not_less [symmetric])
  then show ?thesis by (simp add: full_scan_def)
qed

lemma full_scan_distinct: "distinct (full_scan graph flags coord)"
  by (simp add: full_scan_def distinct_map inj_on_def)

lemma unvisited_far:
  assumes "settled coord n r scored" and "outside_lower_bound_nm coord r \<le> Fin d"
  shows "n \<le> length scored \<and> fst (sort scored ! (n - 1)) < d"
proof -
  from assms(2) obtain bound where b: "outside_lower_bound_nm coord r = Fin bound" "bound \<le> d"
    by (cases "outside_lower_bound_nm coord r") auto
  then show ?thesis using assms(1) by (auto simp: settled_def distance_slack_nm_def)
qed

lemma widen_correct:
  assumes fresh: "grid_fresh b" "gb_grid b = Some grid" and c: "on_globe coord" and n: "0 < n"
    and ports: "\<forall>v. gb_first_airport_vertex b \<le> v \<and> v < vertex_count (gb_graph b) \<longrightarrow> flags ! nat v = 0"
    and rs: "\<forall>r \<in> set rs. 0 < r \<and> r \<le> 180" "rs \<noteq> []" "last rs = 180"
  shows "take n (sort (widen (gb_graph b) grid flags coord n rs scored)) = take n (sort (full_scan (gb_graph b) flags coord))"
  using rs
proof (induction rs arbitrary: scored)
  case (Cons r rs)
  let ?all = "full_scan (gb_graph b) flags coord"
  let ?near = "score_candidates (gb_graph b) flags coord (grid_near grid coord r) {}"
  have fa: "gb_first_airport_vertex b \<le> vertex_count (gb_graph b)" using fresh(1) by (simp add: grid_fresh_def)
  note all = full_scan_set [OF ports fa, of coord] and near = near_set [OF fresh, of flags coord r]
  have dist: "distinct ?near" using score_candidates_distinct distinct_map by blast
  have sub: "set ?near \<subseteq> set ?all" unfolding all near by blast
  have far: "outside_lower_bound_nm coord r \<le> Fin (fst y)" if y: "y \<in> set ?all" "y \<notin> set ?near" for y
  proof -
    obtain v where v: "y = (distance_to coord (coord_of (gb_graph b) v), v)"
      "on_globe (coord_of (gb_graph b) v)" "\<not> visited coord r (coord_of (gb_graph b) v)"
      using y unfolding all near by blast
    then show ?thesis using outside_lower_bound [OF c v(2), of r] Cons.prems(1) by simp
  qed
  show ?case
  proof (cases "settled coord n r ?near")
    case True
    have "take n (sort ?all) = take n (sort ?near)"
    proof (rule take_sort_subset [OF dist full_scan_distinct sub n])
      show "n \<le> length ?near" using True by (simp add: settled_def)
      show "sort ?near ! (n - 1) < y" if "y \<in> set ?all" "y \<notin> set ?near" for y
        using unvisited_far [OF True far [OF that]] by (cases y) (simp add: less_prod_def')
    qed
    then show ?thesis using True by (simp add: Let_def)
  next
    case False
    show ?thesis
    proof (cases "rs = []")
      case True
      then have "r = 180" using Cons.prems by simp
      moreover have "\<not> 91 + real_of_int \<lfloor>latitude coord\<rfloor> < 0"
        using on_globe_cell(1) [OF c] by linarith
      moreover have "\<not> 91 \<le> latitude coord" using c by (auto simp: on_globe_def degrees_half_circle_def)
      ultimately have "outside_lower_bound_nm coord r = Infinity"
        using c
        by (simp add: outside_lower_bound_nm_def Let_def degrees_half_circle_def degrees_full_circle_def on_globe_def)
      then have "set ?near = set ?all" using sub far by auto
      then have "sort ?near = sort ?all"
        using dist full_scan_distinct by (metis sorted_distinct_set_unique sorted_sort distinct_sort set_sort)
      then show ?thesis using False True by (simp add: Let_def)
    next
      case ne: False
      then show ?thesis using False Cons.IH [of ?near] Cons.prems by (simp add: Let_def)
    qed
  qed
qed simp


lemma nearest_full_scan:
  assumes "grid_fresh b" and "gb_grid b \<noteq> None" and "on_globe coord" and "0 < n"
    and "\<forall>v. gb_first_airport_vertex b \<le> v \<and> v < vertex_count (gb_graph b) \<longrightarrow>
      (if inbound then gb_has_inbound b else gb_has_outbound b) ! nat v = 0"
  shows "nearest_on_network b coord n inbound = map snd (take (nat n) (sort (full_scan (gb_graph b)
    (if inbound then gb_has_inbound b else gb_has_outbound b) coord)))"
proof -
  let ?flags = "if inbound then gb_has_inbound b else gb_has_outbound b"
  obtain grid where grid: "gb_grid b = Some grid" using assms(2) by auto
  have w: "take (nat n) (sort (widen (gb_graph b) grid ?flags coord (nat n) search_radii [])) =
      take (nat n) (sort (full_scan (gb_graph b) ?flags coord))"
    by (rule widen_correct [OF assms(1) grid assms(3) _ assms(5)]) (simp_all add: search_radii_def assms(4))
  have "\<not> (n \<le> 0 \<or> \<not> on_globe coord)" using assms(3,4) by simp
  then show ?thesis unfolding nearest_on_network_def Let_def grid option.case w [symmetric] by (simp only: if_False)
qed

text \<open>The same on a built graph, whose grid is fresh and whose airports carry no flag.\<close>

lemma built_nearest_scan:
  assumes "build data = Inr b" and "small_data data" and "on_globe coord" and "0 < n"
  shows "nearest_on_network b coord n inbound = take (nat n) (map snd (sort
    (map (\<lambda>v. (distance_to coord (coord_of (gb_graph b) v), v))
      (filter (\<lambda>v. (if inbound then has_inbound b v else has_outbound b v) \<and> on_globe (coord_of (gb_graph b) v))
        [0 .. vertex_count (gb_graph b) - 1]))))"
proof (rule build_wired [OF assms(1,2)])
  let ?flags = "if inbound then gb_has_inbound b else gb_has_outbound b"
  fix b0 fs assume l: "loaded b0" and b: "b = wired b0 (nd_airways data)" "b0 = vertices_loaded data fs"
    and fs: "list_all2 (\<lambda>i f. fixed_ident_from_ident i = Inr f) (data_idents data) fs"
  note v = build_vertices [OF b fs]
  have n: "vertex_count (gb_graph b) = int (length (nd_waypoints data)) + int (length (nd_airports data))"
    by (simp add: vertex_count_def v(2))
  have len: "length (gb_has_inbound b) = nat (vertex_count (gb_graph b))" "length (gb_has_outbound b) = nat (vertex_count (gb_graph b))"
    using loaded_wiring(2) [OF l, of "nd_airways data"] l
    by (simp_all add: b(1) wired_sel inbound_flags_def outbound_flags_def inbound_rows vertex_count_def loaded_def)
  have flag: "(?flags ! nat u \<noteq> 0) = (if inbound then has_inbound b u else has_outbound b u)"
    if "0 \<le> u" "u < vertex_count (gb_graph b)" for u
    using that len by (simp add: has_inbound_def has_outbound_def)
  have grid: "gb_grid b = gb_grid (rebuild_grid b)" "gb_grid b \<noteq> None"
    by (simp_all add: b(1) wired_def rebuild_grid_def flatten_csr_def coord_of_def)
  have fresh: "grid_fresh b" using grid by (simp add: grid_fresh_def v(3) n)
  have ports: "\<forall>u. gb_first_airport_vertex b \<le> u \<and> u < vertex_count (gb_graph b) \<longrightarrow> ?flags ! nat u = 0"
  proof (intro allI impI)
    fix u assume u: "gb_first_airport_vertex b \<le> u \<and> u < vertex_count (gb_graph b)"
    then have vert: "is_vertex (gb_graph b) u" "is_airport b u" by (simp_all add: is_vertex_def is_airport_def v(3))
    then have "\<not> on_network b u" using airport_off_network [OF assms(1,2)] by blast
    then show "?flags ! nat u = 0" using flag [of u] vert(1) u
      by (auto simp: on_network_def is_vertex_def split: if_splits)
  qed
  have "full_scan (gb_graph b) ?flags coord = map (\<lambda>v. (distance_to coord (coord_of (gb_graph b) v), v))
      (filter (\<lambda>v. (if inbound then has_inbound b v else has_outbound b v) \<and> on_globe (coord_of (gb_graph b) v))
        [0 .. vertex_count (gb_graph b) - 1])"
    unfolding full_scan_def by (rule arg_cong [where f = "map _"], rule filter_cong [OF refl]) (simp only: flag set_upto atLeastAtMost_iff, auto simp: flag)
  then show ?thesis
    using nearest_full_scan [OF fresh grid(2) assms(3,4) ports] by (simp add: take_map)
qed

text \<open>
  C24: NearestOnNetwork over a built graph equals a full scan: whatever the early stopping of the
  grid search does, it returns the first \<open>n\<close> of all vertices on the globe that have an edge in the wanted
  direction, ordered by great-circle distance and then by vertex number.
\<close>

theorem nearest_is_full_scan:
  assumes "build data = Inr b" and "small_data data" and "on_globe coord" and "0 < n"
  shows "nearest_on_network b coord n inbound = take (nat n) (map snd (sort
    (map (\<lambda>v. (distance_to coord (coord_of (gb_graph b) v), v))
      (filter (\<lambda>v. (if inbound then has_inbound b v else has_outbound b v) \<and> on_globe (coord_of (gb_graph b) v))
        [0 .. vertex_count (gb_graph b) - 1]))))"
  by (rule built_nearest_scan [OF assms])

lemma nearest_is_full_scan_witness:
  "\<exists>b. build sample_data = Inr b \<and> nearest_on_network b \<lparr>latitude = 50, longitude = 8\<rparr> 5 True =
     take 5 (map snd (sort (map (\<lambda>v. (distance_to \<lparr>latitude = 50, longitude = 8\<rparr> (coord_of (gb_graph b) v), v))
      (filter (\<lambda>v. has_inbound b v \<and> on_globe (coord_of (gb_graph b) v)) [0 .. vertex_count (gb_graph b) - 1]))))"
proof (rule sample_built)
  fix b assume b: "build sample_data = Inr b"
  have g: "on_globe \<lparr>latitude = 50, longitude = 8\<rparr>" by (simp add: on_globe_def degrees_half_circle_def)
  from nearest_is_full_scan [OF b sample_data_ok(2) g, of 5 True] b show ?thesis by auto
qed

end
