(* ===== verification/ProcedureConnector.thy ===== *)
theory ProcedureConnector
  imports Procedure NearestNetwork
begin

text \<open>
  \<^verbatim>\<open>io/build/procedure_connector.cc\<close>: the connections of an airport to the enroute network, derived
  from its published procedures: on-network SID exits and STAR entries, splices through nearby fixes
  where the published gate is off the network, approach gates, and the DCT fallback. The running
  minimum per fix is a locale whose law the merges of the endpoint planner share.
\<close>

section \<open>Connections\<close>

record procedure_ref =
  ref_type :: procedure_type
  ref_name :: string
  ref_transition :: string
  ref_runway :: string
  ref_iaf :: string

record connection =
  cn_fix_vertex :: int
  cn_seed_distance_nm :: real
  cn_bearing :: real
  cn_approach_bearing :: real
  cn_splice_vertex :: int
  cn_splice_leg_nm :: real
  cn_procedures :: "procedure_ref list"

section \<open>Matching\<close>

definition resolve_fix :: "graph_builder \<Rightarrow> route_leg_record \<Rightarrow> int" where
  "resolve_fix b leg =
     (if ident_view (leg_fix leg) = [] then no_vertex
      else if has_fix_coord leg then vertex_near b (leg_fix leg) (fix_coord leg) fix_hint_tolerance_nm
      else vertex_by_fixed b (leg_fix leg))"

text \<open>The vertex a leg ends at, when it ends at a fix that resolves: \<open>v\<close> in the walks below.\<close>

definition leg_vertex :: "graph_builder \<Rightarrow> route_leg_record \<Rightarrow> int" where
  "leg_vertex b leg = (if fix_is_definite leg then resolve_fix b leg else no_vertex)"

definition runway_matches :: "route_procedure \<Rightarrow> string \<Rightarrow> bool" where
  "runway_matches p runway_filter \<longleftrightarrow>
     runway_filter = [] \<or> proc_runway p = [] \<or> proc_runway p = runway_filter"

text \<open>A selector is \<open>NAME\<close> or \<open>NAME.TRANSITION\<close>, split at its first dot.\<close>

definition selector_matches :: "string \<Rightarrow> string \<Rightarrow> string \<Rightarrow> bool" where
  "selector_matches selector name transition =
     (let rest = dropWhile (\<lambda>c. c \<noteq> CHR ''.'') selector in
      if rest = [] then name = selector
      else name = takeWhile (\<lambda>c. c \<noteq> CHR ''.'') selector \<and> transition = tl rest)"

definition name_matches :: "route_procedure \<Rightarrow> string \<Rightarrow> bool" where
  "name_matches p selector \<longleftrightarrow>
     selector = [] \<or> selector_matches selector (proc_name p) (proc_transition_ident p)"

definition make_ref :: "route_procedure \<Rightarrow> procedure_ref" where
  "make_ref p = \<lparr>ref_type = proc_type p, ref_name = proc_name p, ref_transition = proc_transition_ident p,
     ref_runway = proc_runway p, ref_iaf = []\<rparr>"

definition make_approach_ref :: "route_procedure \<Rightarrow> string \<Rightarrow> procedure_ref" where
  "make_approach_ref p iaf = (make_ref p)\<lparr>ref_iaf := iaf\<rparr>"

section \<open>The running minimum per fix\<close>

text \<open>\<open>std::swap(v[i], v[j])\<close> on a list.\<close>

definition swap_items :: "'a list \<Rightarrow> nat \<Rightarrow> nat \<Rightarrow> 'a list" where
  "swap_items xs i j = xs[i := xs ! j, j := xs ! i]"

text \<open>The arguments of \<open>Accumulate\<close> make up a connection with one reference.\<close>

fun accumulate :: "connection list \<Rightarrow> connection \<Rightarrow> connection list" where
  "accumulate [] f = [f]"
| "accumulate (c # by_fix) f =
     (if cn_fix_vertex c \<noteq> cn_fix_vertex f then c # accumulate by_fix f
      else
        let c' = c\<lparr>cn_procedures := cn_procedures c @ cn_procedures f\<rparr>
        in (if cn_seed_distance_nm f < cn_seed_distance_nm c
            then f\<lparr>cn_procedures := swap_items (cn_procedures c') 0 (length (cn_procedures c') - 1)\<rparr>
            else c') # by_fix)"

definition finding :: "int \<Rightarrow> real \<Rightarrow> real \<Rightarrow> procedure_ref \<Rightarrow> real \<Rightarrow> int \<Rightarrow> real \<Rightarrow> connection" where
  "finding fix_vertex seed bearing ref approach_bearing splice_vertex splice_leg_nm =
     \<lparr>cn_fix_vertex = fix_vertex, cn_seed_distance_nm = seed, cn_bearing = bearing,
      cn_approach_bearing = approach_bearing, cn_splice_vertex = splice_vertex,
      cn_splice_leg_nm = splice_leg_nm, cn_procedures = [ref]\<rparr>"

definition connection_less :: "connection \<Rightarrow> connection \<Rightarrow> bool" where
  "connection_less a b =
     (if cn_seed_distance_nm a \<noteq> cn_seed_distance_nm b then cn_seed_distance_nm a < cn_seed_distance_nm b
      else cn_fix_vertex a < cn_fix_vertex b)"

definition finalize :: "connection list \<Rightarrow> connection list" where
  "finalize by_fix = sort_by connection_less by_fix"

section \<open>Walking a procedure's legs\<close>

datatype walk_dir = Outbound | Inbound

definition dir_usable :: "walk_dir \<Rightarrow> graph_builder \<Rightarrow> int \<Rightarrow> bool" where
  "dir_usable dir b v = (if dir = Inbound then has_inbound b v else has_outbound b v)"

record fix_hit =
  fh_vertex :: int
  fh_cumulative_nm :: real
  fh_is_gate :: bool
  fh_resolved_index :: nat

text \<open>The first and last resolved fix are the ends of \<open>resolved\<close>, absent when it is empty.\<close>

record walk_result =
  wr_hits :: "fix_hit list"
  wr_resolved :: "point list"
  wr_total_nm :: real

definition last_fix_bearing_leg :: "route_procedure \<Rightarrow> nat" where
  "last_fix_bearing_leg p =
     foldl (\<lambda>last_leg i. if fix_is_definite (proc_legs p ! i) then i else last_leg) (length (proc_legs p))
       [0..<length (proc_legs p)]"

record walk_state =
  wk_result :: walk_result
  wk_cumulative :: real
  wk_prev_coord :: "point option"
  wk_pending_nm :: real

definition span_nm :: "real \<Rightarrow> point option \<Rightarrow> point \<Rightarrow> real" where
  "span_nm pending prev here =
     (case prev of None \<Rightarrow> 0 | Some p \<Rightarrow> if 0 < pending then pending else distance_to p here)"

definition is_gate_leg :: "walk_dir \<Rightarrow> route_procedure \<Rightarrow> nat \<Rightarrow> bool" where
  "is_gate_leg dir p i =
     (if dir = Inbound then leg_path_term (proc_legs p ! i) = IF else i = last_fix_bearing_leg p)"

definition walk_leg :: "route_procedure \<Rightarrow> graph_builder \<Rightarrow> walk_dir \<Rightarrow> walk_state \<Rightarrow> nat \<Rightarrow> walk_state" where
  "walk_leg p b dir st i =
     (let leg = proc_legs p ! i; v = leg_vertex b leg in
      if v < 0 then
        (if 0 < leg_distance_nm leg then st\<lparr>wk_pending_nm := wk_pending_nm st + leg_distance_nm leg\<rparr> else st)
      else
        let here = coord_of (gb_graph b) v;
            cumulative = wk_cumulative st + span_nm (wk_pending_nm st) (wk_prev_coord st) here;
            r = wk_result st;
            hit = \<lparr>fh_vertex = v, fh_cumulative_nm = cumulative, fh_is_gate = is_gate_leg dir p i,
                   fh_resolved_index = length (wr_resolved r)\<rparr>
        in \<lparr>wk_result = r\<lparr>wr_hits := (if dir_usable dir b v then wr_hits r @ [hit] else wr_hits r),
                           wr_resolved := wr_resolved r @ [here]\<rparr>,
            wk_cumulative = cumulative, wk_prev_coord = Some here, wk_pending_nm = 0\<rparr>)"

definition walk_on_network_fixes :: "route_procedure \<Rightarrow> graph_builder \<Rightarrow> walk_dir \<Rightarrow> walk_result" where
  "walk_on_network_fixes p b dir =
     (let st = foldl (walk_leg p b dir)
            \<lparr>wk_result = \<lparr>wr_hits = [], wr_resolved = [], wr_total_nm = 0\<rparr>, wk_cumulative = 0,
             wk_prev_coord = None, wk_pending_nm = 0\<rparr> [0..<length (proc_legs p)]
      in (wk_result st)\<lparr>wr_total_nm := wk_cumulative st\<rparr>)"

section \<open>On-network gates\<close>

definition runway_bridge :: "walk_dir \<Rightarrow> point \<Rightarrow> walk_result \<Rightarrow> real" where
  "runway_bridge dir airport walk =
     (if wr_resolved walk = [] then 0
      else if dir = Outbound then distance_to airport (hd (wr_resolved walk))
      else distance_to (last (wr_resolved walk)) airport)"

definition gate_finding :: "route_procedure \<Rightarrow> walk_dir \<Rightarrow> point \<Rightarrow> walk_result \<Rightarrow> fix_hit \<Rightarrow> connection" where
  "gate_finding p dir airport walk hit =
     (let r = fh_resolved_index hit; here = wr_resolved walk ! r in
      if dir = Outbound then
        let prev = (if r = 0 then airport else wr_resolved walk ! (r - 1))
        in finding (fh_vertex hit) (runway_bridge dir airport walk + fh_cumulative_nm hit)
             (bearing_to prev here) (make_ref p) no_bearing no_vertex 0
      else
        let follow = (if r + 1 < length (wr_resolved walk) then wr_resolved walk ! (r + 1) else airport)
        in finding (fh_vertex hit) (wr_total_nm walk - fh_cumulative_nm hit + runway_bridge dir airport walk)
             (bearing_to here follow) (make_ref p) no_bearing no_vertex 0)"

definition side_findings ::
  "procedure_type \<Rightarrow> walk_dir \<Rightarrow> point \<Rightarrow> graph_builder \<Rightarrow> string \<Rightarrow> route_procedure \<Rightarrow> connection list" where
  "side_findings want dir airport b runway_filter p =
     (if proc_type p \<noteq> want \<or> \<not> runway_matches p runway_filter then []
      else let walk = walk_on_network_fixes p b dir
           in map (gate_finding p dir airport walk) (filter fh_is_gate (wr_hits walk)))"

definition collect_side ::
  "route_cifp \<Rightarrow> procedure_type \<Rightarrow> walk_dir \<Rightarrow> point \<Rightarrow> graph_builder \<Rightarrow> string \<Rightarrow> connection list" where
  "collect_side cifp want dir airport b runway_filter =
     foldl (\<lambda>by_fix p. foldl accumulate by_fix (side_findings want dir airport b runway_filter p))
       [] (cifp_procedures cifp)"

definition build_side ::
  "route_cifp \<Rightarrow> procedure_type \<Rightarrow> walk_dir \<Rightarrow> point \<Rightarrow> graph_builder \<Rightarrow> string \<Rightarrow> connection list" where
  "build_side cifp want dir airport b runway_filter =
     finalize (collect_side cifp want dir airport b runway_filter)"

definition build_departure :: "route_cifp \<Rightarrow> point \<Rightarrow> graph_builder \<Rightarrow> string \<Rightarrow> connection list" where
  "build_departure cifp airport b runway_filter = build_side cifp Sid Outbound airport b runway_filter"

definition build_arrival :: "route_cifp \<Rightarrow> point \<Rightarrow> graph_builder \<Rightarrow> string \<Rightarrow> connection list" where
  "build_arrival cifp airport b runway_filter = build_side cifp Star Inbound airport b runway_filter"

section \<open>Measuring part of a procedure\<close>

record approach_walk =
  pw_nm :: real
  pw_end_coord :: "point option"
  pw_next_coord :: "point option"

definition approach_walk_empty :: approach_walk where
  "approach_walk_empty = \<lparr>pw_nm = 0, pw_end_coord = None, pw_next_coord = None\<rparr>"

record segment_state =
  sg_cumulative :: real
  sg_measuring :: bool
  sg_prev_coord :: "point option"
  sg_pending_nm :: real
  sg_found_start :: bool
  sg_out :: approach_walk

primrec walk_segment_legs ::
  "route_leg_record list \<Rightarrow> graph_builder \<Rightarrow> int \<Rightarrow> bool \<Rightarrow> segment_state \<Rightarrow> segment_state" where
  "walk_segment_legs [] b start_vertex stop_at_mapt st = st"
| "walk_segment_legs (leg # legs) b start_vertex stop_at_mapt st =
     (let v = leg_vertex b leg in
      if v < 0 then
        walk_segment_legs legs b start_vertex stop_at_mapt
          (if sg_measuring st \<and> 0 < leg_distance_nm leg
           then st\<lparr>sg_pending_nm := sg_pending_nm st + leg_distance_nm leg\<rparr> else st)
      else
        let here = coord_of (gb_graph b) v in
        if \<not> sg_measuring st then
          (if v = start_vertex then
             let st' = st\<lparr>sg_measuring := True, sg_found_start := True, sg_prev_coord := Some here,
                          sg_pending_nm := 0\<rparr>
             in if leg_is_mapt leg \<and> stop_at_mapt
                then st'\<lparr>sg_out := (sg_out st')\<lparr>pw_nm := 0, pw_end_coord := Some here\<rparr>\<rparr>
                else walk_segment_legs legs b start_vertex stop_at_mapt st'
           else walk_segment_legs legs b start_vertex stop_at_mapt st)
        else
          let cumulative = sg_cumulative st + span_nm (sg_pending_nm st) (sg_prev_coord st) here;
              out = sg_out st;
              next_coord = (if sg_prev_coord st \<noteq> None \<and> pw_next_coord out = None then Some here
                            else pw_next_coord out);
              st' = st\<lparr>sg_cumulative := cumulative, sg_pending_nm := 0, sg_prev_coord := Some here,
                       sg_out := \<lparr>pw_nm = cumulative, pw_end_coord = Some here, pw_next_coord = next_coord\<rparr>\<rparr>
          in if leg_is_mapt leg \<and> stop_at_mapt then st'
             else walk_segment_legs legs b start_vertex stop_at_mapt st')"

text \<open>The walk, or \<open>None\<close> when a start was asked for and never found.\<close>

definition walk_approach_segment :: "route_procedure \<Rightarrow> graph_builder \<Rightarrow> int \<Rightarrow> bool \<Rightarrow> approach_walk option" where
  "walk_approach_segment p b start_vertex stop_at_mapt =
     (let st = walk_segment_legs (proc_legs p) b start_vertex stop_at_mapt
            \<lparr>sg_cumulative = 0, sg_measuring = (start_vertex < 0), sg_prev_coord = None, sg_pending_nm = 0,
             sg_found_start = (start_vertex < 0), sg_out = approach_walk_empty\<rparr>
      in if sg_found_start st then Some (sg_out st) else None)"

definition find_approach_final :: "route_cifp \<Rightarrow> string \<Rightarrow> route_procedure option" where
  "find_approach_final cifp name =
     List.find (\<lambda>p. proc_type p = Approach \<and> proc_name p = name \<and> proc_transition_ident p = [])
       (cifp_procedures cifp)"

text \<open>The distance from the approach gate to the airport, and the heading at the gate.\<close>

definition approach_body_and_stub ::
  "route_procedure \<Rightarrow> int \<Rightarrow> route_cifp \<Rightarrow> point \<Rightarrow> graph_builder \<Rightarrow> real \<Rightarrow> real \<times> real" where
  "approach_body_and_stub gate_proc gate_v cifp airport b bearing_in =
     (let gate = coord_of (gb_graph b) gate_v; gate_is_final = (proc_transition_ident gate_proc = []) in
      case walk_approach_segment gate_proc b gate_v gate_is_final of
        None \<Rightarrow> (distance_to airport gate, bearing_in)
      | Some from_gate \<Rightarrow>
          let end0 = (case pw_end_coord from_gate of None \<Rightarrow> gate | Some e \<Rightarrow> e);
              bearing = (case pw_next_coord from_gate of None \<Rightarrow> bearing_to gate airport
                         | Some c \<Rightarrow> bearing_to gate c);
              (body, end_coord) =
                (if gate_is_final then (pw_nm from_gate, end0)
                 else case find_approach_final cifp (proc_name gate_proc) of
                     None \<Rightarrow> (pw_nm from_gate, end0)
                   | Some final_proc \<Rightarrow>
                       (case walk_approach_segment final_proc b no_vertex True of
                          None \<Rightarrow> (pw_nm from_gate, end0)
                        | Some final_walk \<Rightarrow>
                            (case pw_end_coord final_walk of
                               None \<Rightarrow> (pw_nm from_gate, end0)
                             | Some e \<Rightarrow> (pw_nm from_gate + pw_nm final_walk, e))))
          in (body + distance_to end_coord airport, bearing))"

definition approach_proxy_k :: int where "approach_proxy_k = 5"
definition splice_proxy_k :: int where "splice_proxy_k = 5"

definition star_body_and_stub :: "route_procedure \<Rightarrow> int \<Rightarrow> point \<Rightarrow> graph_builder \<Rightarrow> real" where
  "star_body_and_stub p gate_v airport b =
     (let gate = coord_of (gb_graph b) gate_v in
      case walk_approach_segment p b gate_v False of
        None \<Rightarrow> distance_to airport gate
      | Some from_gate \<Rightarrow>
          pw_nm from_gate +
          distance_to (case pw_end_coord from_gate of None \<Rightarrow> gate | Some e \<Rightarrow> e) airport)"

definition sid_body_to_exit :: "route_procedure \<Rightarrow> int \<Rightarrow> point \<Rightarrow> graph_builder \<Rightarrow> real" where
  "sid_body_to_exit p exit_v airport b =
     (let exit_coord = coord_of (gb_graph b) exit_v in
      case walk_approach_segment p b no_vertex False of
        None \<Rightarrow> distance_to airport exit_coord
      | Some body \<Rightarrow>
          if pw_end_coord body = None then distance_to airport exit_coord
          else
            let first = (case List.find (\<lambda>leg. fix_is_definite leg \<and> 0 \<le> resolve_fix b leg) (proc_legs p) of
                           None \<Rightarrow> exit_coord
                         | Some leg \<Rightarrow> coord_of (gb_graph b) (resolve_fix b leg))
            in distance_to airport first + pw_nm body)"

section \<open>Off-network gates\<close>

text \<open>The splices of one STAR entry leg through its nearest inbound fixes.\<close>

definition star_splice_findings ::
  "route_procedure \<Rightarrow> point \<Rightarrow> graph_builder \<Rightarrow> int list \<Rightarrow> route_leg_record \<Rightarrow> connection list" where
  "star_splice_findings p airport b avoid leg =
     (if leg_path_term leg \<noteq> IF \<or> \<not> fix_is_definite leg then []
      else
        let gate = resolve_fix b leg in
        if gate < 0 \<or> has_inbound b gate \<or> binary_search avoid gate then []
        else
          let body_stub = star_body_and_stub p gate airport b; gate_coord = coord_of (gb_graph b) gate
          in map (\<lambda>f. let f_coord = coord_of (gb_graph b) f; splice_leg = distance_to f_coord gate_coord
                in finding f (splice_leg + body_stub) (bearing_to f_coord gate_coord) (make_ref p) no_bearing
                     gate splice_leg)
               (filter (\<lambda>f. f \<noteq> gate) (nearest_on_network b gate_coord splice_proxy_k True)))"

definition collect_star_splice_arrivals ::
  "route_cifp \<Rightarrow> point \<Rightarrow> graph_builder \<Rightarrow> string \<Rightarrow> string \<Rightarrow> int list \<Rightarrow> connection list" where
  "collect_star_splice_arrivals cifp airport b runway_filter name_filter avoid =
     foldl (\<lambda>by_fix p.
         if proc_type p \<noteq> Star \<or> \<not> runway_matches p runway_filter \<or> \<not> name_matches p name_filter then by_fix
         else foldl (\<lambda>by_fix leg. foldl accumulate by_fix (star_splice_findings p airport b avoid leg))
                by_fix (proc_legs p))
       [] (cifp_procedures cifp)"

definition sid_splice_findings ::
  "route_procedure \<Rightarrow> point \<Rightarrow> graph_builder \<Rightarrow> int list \<Rightarrow> connection list" where
  "sid_splice_findings p airport b avoid =
     (let exit_leg = last_fix_bearing_leg p in
      if length (proc_legs p) \<le> exit_leg then []
      else
        let exit_v = resolve_fix b (proc_legs p ! exit_leg) in
        if exit_v < 0 \<or> has_outbound b exit_v \<or> binary_search avoid exit_v then []
        else
          let body = sid_body_to_exit p exit_v airport b; exit_coord = coord_of (gb_graph b) exit_v
          in map (\<lambda>f. let f_coord = coord_of (gb_graph b) f; splice_leg = distance_to exit_coord f_coord
                in finding f (body + splice_leg) (bearing_to exit_coord f_coord) (make_ref p) no_bearing
                     exit_v splice_leg)
               (filter (\<lambda>f. f \<noteq> exit_v) (nearest_on_network b exit_coord splice_proxy_k False)))"

definition collect_sid_splice_departures ::
  "route_cifp \<Rightarrow> point \<Rightarrow> graph_builder \<Rightarrow> string \<Rightarrow> string \<Rightarrow> int list \<Rightarrow> connection list" where
  "collect_sid_splice_departures cifp airport b runway_filter name_filter avoid =
     foldl (\<lambda>by_fix p.
         if proc_type p \<noteq> Sid \<or> \<not> runway_matches p runway_filter \<or> \<not> name_matches p name_filter then by_fix
         else foldl accumulate by_fix (sid_splice_findings p airport b avoid))
       [] (cifp_procedures cifp)"

text \<open>An approach gate on the network is a goal itself, one off it is reached through proxies.\<close>

definition approach_findings ::
  "route_procedure \<Rightarrow> route_cifp \<Rightarrow> point \<Rightarrow> graph_builder \<Rightarrow> route_leg_record \<Rightarrow> connection list" where
  "approach_findings p cifp airport b leg =
     (if leg_path_term leg \<noteq> IF \<or> \<not> fix_is_definite leg then []
      else
        let iaf = resolve_fix b leg in
        if iaf < 0 then []
        else
          let (body_stub, bearing_from_iaf) = approach_body_and_stub p iaf cifp airport b no_bearing;
              ref = make_approach_ref p (ident_view (leg_fix leg)); iaf_coord = coord_of (gb_graph b) iaf
          in if has_inbound b iaf
             then [finding iaf body_stub bearing_from_iaf ref bearing_from_iaf no_vertex 0]
             else map (\<lambda>f. let f_coord = coord_of (gb_graph b) f
                   in finding f (distance_to f_coord iaf_coord + body_stub) (bearing_to f_coord iaf_coord) ref
                        bearing_from_iaf no_vertex 0)
                 (filter (\<lambda>f. f \<noteq> iaf) (nearest_on_network b iaf_coord approach_proxy_k True)))"

definition collect_approach_arrivals ::
  "route_cifp \<Rightarrow> point \<Rightarrow> graph_builder \<Rightarrow> string \<Rightarrow> connection list" where
  "collect_approach_arrivals cifp airport b runway_filter =
     foldl (\<lambda>by_fix p.
         if proc_type p \<noteq> Approach \<or> \<not> runway_matches p runway_filter then by_fix
         else foldl (\<lambda>by_fix leg. foldl accumulate by_fix (approach_findings p cifp airport b leg))
                by_fix (proc_legs p))
       [] (cifp_procedures cifp)"

definition build_approach_arrival :: "route_cifp \<Rightarrow> point \<Rightarrow> graph_builder \<Rightarrow> string \<Rightarrow> connection list" where
  "build_approach_arrival cifp airport b runway_filter =
     finalize (collect_approach_arrivals cifp airport b runway_filter)"

definition build_star_splice_arrival ::
  "route_cifp \<Rightarrow> point \<Rightarrow> graph_builder \<Rightarrow> string \<Rightarrow> string \<Rightarrow> int list \<Rightarrow> connection list" where
  "build_star_splice_arrival cifp airport b runway_filter name_filter avoid =
     finalize (collect_star_splice_arrivals cifp airport b runway_filter name_filter avoid)"

definition build_sid_splice_departure ::
  "route_cifp \<Rightarrow> point \<Rightarrow> graph_builder \<Rightarrow> string \<Rightarrow> string \<Rightarrow> int list \<Rightarrow> connection list" where
  "build_sid_splice_departure cifp airport b runway_filter name_filter avoid =
     finalize (collect_sid_splice_departures cifp airport b runway_filter name_filter avoid)"

section \<open>No procedures\<close>

definition build_dct_fallback :: "point \<Rightarrow> graph_builder \<Rightarrow> int \<Rightarrow> bool \<Rightarrow> connection list" where
  "build_dct_fallback airport b wanted arrival =
     map (\<lambda>v. let fix_pos = coord_of (gb_graph b) v
          in \<lparr>cn_fix_vertex = v, cn_seed_distance_nm = distance_to airport fix_pos,
              cn_bearing = (if arrival then bearing_to fix_pos airport else bearing_to airport fix_pos),
              cn_approach_bearing = no_bearing, cn_splice_vertex = no_vertex, cn_splice_leg_nm = 0,
              cn_procedures = []\<rparr>)
       (nearest_on_network b airport wanted arrival)"

definition to_endpoints :: "connection list \<Rightarrow> seeded_endpoint list" where
  "to_endpoints connections =
     map (\<lambda>c. \<lparr>se_vertex = cn_fix_vertex c, se_cost = cn_seed_distance_nm c, se_bearing = cn_bearing c\<rparr>) connections"

end
