(* ===== verification/SeedPool.thy ===== *)
theory SeedPool
  imports ProcedureConnector
begin

text \<open>
  Pools of connections, one per fix: what \<open>Accumulate\<close> (\<^verbatim>\<open>io/build/procedure_connector.cc\<close>) and
  \<open>MergeConnection\<close> (\<^verbatim>\<open>io/navdb/endpoint_planner.cc\<close>) have in common. Each folds findings into a vector of
  connections; the locale says what one merge does, and its lemma what a whole fold leaves.
\<close>

section \<open>The contract of one merge\<close>

text \<open>What a search prices a connection by: everything but the list of references, and its front.\<close>

definition priced_as :: "connection \<Rightarrow> connection \<Rightarrow> bool" where
  "priced_as c f \<longleftrightarrow>
     c\<lparr>cn_procedures := []\<rparr> = f\<lparr>cn_procedures := []\<rparr> \<and>
     (cn_procedures c = [] \<longleftrightarrow> cn_procedures f = []) \<and> hd (cn_procedures c) = hd (cn_procedures f)"

lemma priced_as_refl [simp]: "priced_as c c"
  by (simp add: priced_as_def)

lemma priced_as_trans: "priced_as a b \<Longrightarrow> priced_as b c \<Longrightarrow> priced_as a c"
  by (simp add: priced_as_def)

lemma priced_as_sel:
  assumes "priced_as c f"
  shows "cn_fix_vertex c = cn_fix_vertex f" "cn_seed_distance_nm c = cn_seed_distance_nm f"
    "cn_bearing c = cn_bearing f" "cn_approach_bearing c = cn_approach_bearing f"
    "cn_splice_vertex c = cn_splice_vertex f" "cn_splice_leg_nm c = cn_splice_leg_nm f"
    "hd (cn_procedures c) = hd (cn_procedures f)" "cn_procedures c = [] \<longleftrightarrow> cn_procedures f = []"
  using assms by (cases c; cases f; simp add: priced_as_def)+

text \<open>
  \<open>pooled seed fs out\<close>: one connection per fix that occurs, listing every reference found for it and priced
  as the first cheapest finding.
\<close>

definition pool_winner :: "(connection \<Rightarrow> real) \<Rightarrow> connection list \<Rightarrow> connection \<Rightarrow> bool" where
  "pool_winner seed fs c \<longleftrightarrow>
     (\<exists>i < length fs. priced_as c (fs ! i) \<and>
        (\<forall>j < length fs. cn_fix_vertex (fs ! j) = cn_fix_vertex c \<longrightarrow>
           seed (fs ! i) \<le> seed (fs ! j) \<and> (j < i \<longrightarrow> seed (fs ! i) < seed (fs ! j))))"

definition pooled :: "(connection \<Rightarrow> real) \<Rightarrow> connection list \<Rightarrow> connection list \<Rightarrow> bool" where
  "pooled seed fs out \<longleftrightarrow>
     distinct (map cn_fix_vertex out) \<and> cn_fix_vertex ` set out = cn_fix_vertex ` set fs \<and>
     (\<forall>c \<in> set out. pool_winner seed fs c \<and> cn_procedures c \<noteq> [] \<and>
        set (cn_procedures c) =
          (\<Union>f \<in> {f \<in> set fs. cn_fix_vertex f = cn_fix_vertex c}. set (cn_procedures f)))"

locale seed_merge =
  fixes merge :: "connection list \<Rightarrow> connection \<Rightarrow> connection list" and seed :: "connection \<Rightarrow> real"
    and takes :: "connection \<Rightarrow> bool"
  assumes takes_refs: "takes f \<Longrightarrow> cn_procedures f \<noteq> []"
    and seed_priced: "priced_as c f \<Longrightarrow> seed c = seed f"
    and merge_new: "cn_fix_vertex f \<notin> cn_fix_vertex ` set out \<Longrightarrow> merge out f = out @ [f]"
    and merge_old: "cn_fix_vertex f \<notin> cn_fix_vertex ` set out \<Longrightarrow> cn_fix_vertex f = cn_fix_vertex c \<Longrightarrow>
      cn_procedures c \<noteq> [] \<Longrightarrow> takes f \<Longrightarrow>
      \<exists>c'. merge (out @ c # out') f = out @ c' # out' \<and> priced_as c' (if seed f < seed c then f else c) \<and>
        mset (cn_procedures c') = mset (cn_procedures c) + mset (cn_procedures f)"
begin

lemma winner_snoc_other:
  assumes "pool_winner seed fs c" and "cn_fix_vertex f \<noteq> cn_fix_vertex c"
  shows "pool_winner seed (fs @ [f]) c"
proof -
  from assms(1) obtain i where "i < length fs" "priced_as c (fs ! i)" and
    "\<forall>j < length fs. cn_fix_vertex (fs ! j) = cn_fix_vertex c \<longrightarrow>
       seed (fs ! i) \<le> seed (fs ! j) \<and> (j < i \<longrightarrow> seed (fs ! i) < seed (fs ! j))"
    by (auto simp: pool_winner_def)
  then show ?thesis
    unfolding pool_winner_def using assms(2) by (intro exI [of _ i]) (auto simp: nth_append less_Suc_eq)
qed

lemma winner_snoc_new:
  assumes "cn_fix_vertex f \<notin> cn_fix_vertex ` set fs"
  shows "pool_winner seed (fs @ [f]) f"
proof -
  have "cn_fix_vertex (fs ! j) \<noteq> cn_fix_vertex f" if "j < length fs" for j
    using assms nth_mem [OF that] by (metis image_eqI)
  then show ?thesis
    unfolding pool_winner_def by (intro exI [of _ "length fs"]) (auto simp: nth_append less_Suc_eq)
qed

lemma winner_snoc_same:
  assumes "pool_winner seed fs c" and "cn_fix_vertex f = cn_fix_vertex c"
    and p: "priced_as c' (if seed f < seed c then f else c)"
  shows "pool_winner seed (fs @ [f]) c'"
proof -
  from assms(1) obtain i where i: "i < length fs" "priced_as c (fs ! i)" and
    least: "\<And>j. j < length fs \<Longrightarrow> cn_fix_vertex (fs ! j) = cn_fix_vertex c \<Longrightarrow>
       seed (fs ! i) \<le> seed (fs ! j) \<and> (j < i \<longrightarrow> seed (fs ! i) < seed (fs ! j))"
    by (auto simp: pool_winner_def)
  have sc: "seed c = seed (fs ! i)" by (rule seed_priced [OF i(2)])
  have fx: "cn_fix_vertex c' = cn_fix_vertex c"
    using priced_as_sel(1) [OF p] assms(2) by (simp split: if_splits)
  show ?thesis
  proof (cases "seed f < seed c")
    case True
    then have "priced_as c' f" using p by simp
    then show ?thesis
      unfolding pool_winner_def using least True fx sc
      by (intro exI [of _ "length fs"]) (force simp: nth_append less_Suc_eq)
  next
    case False
    then have "priced_as c' (fs ! i)" using p i(2) priced_as_trans by auto
    then show ?thesis
      unfolding pool_winner_def using least False fx sc i(1)
      by (intro exI [of _ i]) (auto simp: nth_append less_Suc_eq)
  qed
qed

lemma merge_pooled:
  assumes p: "pooled seed fs out" and t: "takes f"
  shows "pooled seed (fs @ [f]) (merge out f)"
proof -
  note f = takes_refs [OF t]
  show ?thesis
proof (cases "cn_fix_vertex f \<in> cn_fix_vertex ` set out")
  case False
  then have "cn_fix_vertex f \<notin> cn_fix_vertex ` set fs" using p by (simp add: pooled_def)
  note new = winner_snoc_new [OF this] and nf = this
  have "pool_winner seed (fs @ [f]) c" if "c \<in> set out" for c
    by (rule winner_snoc_other) (use p False that in \<open>auto simp: pooled_def\<close>)
  moreover have "set (cn_procedures f) = (\<Union>g \<in> {g \<in> set (fs @ [f]). cn_fix_vertex g = cn_fix_vertex f}. set (cn_procedures g))"
    using nf by (auto intro: rev_image_eqI)
  moreover have "(\<Union>g \<in> {g \<in> set (fs @ [f]). cn_fix_vertex g = cn_fix_vertex c}. set (cn_procedures g)) =
      (\<Union>g \<in> {g \<in> set fs. cn_fix_vertex g = cn_fix_vertex c}. set (cn_procedures g))" if "c \<in> set out" for c
    using False that by auto
  ultimately show ?thesis
    using p f new False unfolding merge_new [OF False] pooled_def by auto
next
  case True
  then obtain xs c ys where out: "out = xs @ c # ys" "cn_fix_vertex f = cn_fix_vertex c"
    by (auto dest!: split_list)
  have d: "distinct (map cn_fix_vertex (xs @ c # ys))" "cn_procedures c \<noteq> []" "pool_winner seed fs c"
    "set (cn_procedures c) = (\<Union>g \<in> {g \<in> set fs. cn_fix_vertex g = cn_fix_vertex c}. set (cn_procedures g))"
    using p unfolding pooled_def out by simp_all
  have "cn_fix_vertex f \<notin> cn_fix_vertex ` set xs" using d(1) out(2) by auto
  from merge_old [OF this out(2) d(2) t] obtain c' where c': "merge out f = xs @ c' # ys"
    "priced_as c' (if seed f < seed c then f else c)"
    "mset (cn_procedures c') = mset (cn_procedures c) + mset (cn_procedures f)"
    unfolding out(1) by blast
  have fx: "cn_fix_vertex c' = cn_fix_vertex c"
    using priced_as_sel(1) [OF c'(2)] out(2) by (simp split: if_splits)
  have procs: "set (cn_procedures c') = set (cn_procedures c) \<union> set (cn_procedures f)"
    using c'(3) by (metis set_mset_mset set_mset_union)
  have others: "cn_fix_vertex f \<noteq> cn_fix_vertex x" if "x \<in> set (xs @ ys)" for x
    using d(1) out(2) that by (auto simp: image_iff)
  have "distinct (map cn_fix_vertex (xs @ c' # ys))" using d(1) fx by simp
  moreover have "cn_fix_vertex ` set (xs @ c' # ys) = cn_fix_vertex ` set (fs @ [f])"
    using p out(2) fx unfolding pooled_def out(1) by auto
  moreover have "pool_winner seed (fs @ [f]) x \<and> cn_procedures x \<noteq> [] \<and>
      set (cn_procedures x) = (\<Union>g \<in> {g \<in> set (fs @ [f]). cn_fix_vertex g = cn_fix_vertex x}. set (cn_procedures g))"
    if "x \<in> set (xs @ ys)" for x
  proof -
    have "{g \<in> set (fs @ [f]). cn_fix_vertex g = cn_fix_vertex x} = {g \<in> set fs. cn_fix_vertex g = cn_fix_vertex x}"
      using others [OF that] by auto
    then show ?thesis
      using p that winner_snoc_other [of fs x f] others [OF that] unfolding pooled_def out(1) by auto
  qed
  moreover have "pool_winner seed (fs @ [f]) c' \<and> cn_procedures c' \<noteq> [] \<and>
      set (cn_procedures c') = (\<Union>g \<in> {g \<in> set (fs @ [f]). cn_fix_vertex g = cn_fix_vertex c'}. set (cn_procedures g))"
  proof -
    have "cn_procedures c' \<noteq> []" using procs f by auto
    moreover have "(\<Union>g \<in> {g \<in> set (fs @ [f]). cn_fix_vertex g = cn_fix_vertex c'}. set (cn_procedures g)) =
        set (cn_procedures c) \<union> set (cn_procedures f)"
      unfolding d(4) fx using out(2) by auto
    ultimately show ?thesis using winner_snoc_same [OF d(3) out(2) c'(2)] procs by simp
  qed
  ultimately show ?thesis unfolding pooled_def c'(1) by auto
qed
qed

lemma fold_pooled:
  assumes "\<forall>f \<in> set gs. takes f" and "pooled seed fs out"
  shows "pooled seed (fs @ gs) (foldl merge out gs)"
  using assms
proof (induction gs arbitrary: fs out)
  case (Cons g gs)
  then show ?case using merge_pooled [OF Cons.prems(2), of g] Cons.IH [of "fs @ [g]" "merge out g"] by simp
qed simp

end

lemma pooled_Nil [simp]: "pooled seed [] []"
  by (simp add: pooled_def)

lemma pooled_self:
  assumes "distinct (map cn_fix_vertex out)" and "\<forall>c \<in> set out. cn_procedures c \<noteq> []"
  shows "pooled seed out out"
proof -
  have same: "c = d" if "c \<in> set out" "d \<in> set out" "cn_fix_vertex c = cn_fix_vertex d" for c d
    using assms(1) that by (metis distinct_map inj_onD)
  have "pool_winner seed out c" if c: "c \<in> set out" for c
  proof -
    from c obtain i where i: "i < length out" "out ! i = c" by (auto simp: in_set_conv_nth)
    have ji: "j = i" if j: "j < length out" "cn_fix_vertex (out ! j) = cn_fix_vertex c" for j
    proof -
      have "map cn_fix_vertex out ! j = map cn_fix_vertex out ! i" using i j by simp
      then show ?thesis using nth_eq_iff_index_eq [OF assms(1), of j i] i(1) j(1) by simp
    qed
    have "seed (out ! i) \<le> seed (out ! j) \<and> (j < i \<longrightarrow> seed (out ! i) < seed (out ! j))"
      if "j < length out" "cn_fix_vertex (out ! j) = cn_fix_vertex c" for j
      using ji [OF that] by simp
    then show ?thesis unfolding pool_winner_def using i by (intro exI [of _ i]) simp
  qed
  moreover have "(\<Union>f \<in> {f \<in> set out. cn_fix_vertex f = cn_fix_vertex c}. set (cn_procedures f)) = set (cn_procedures c)"
    if "c \<in> set out" for c
  proof -
    have "{f \<in> set out. cn_fix_vertex f = cn_fix_vertex c} = {c}" using same [OF _ that] that by auto
    then show ?thesis by simp
  qed
  ultimately show ?thesis using assms by (simp add: pooled_def)
qed

lemma pooled_member:
  assumes "pooled seed fs out" and "c \<in> set out"
  obtains f where "f \<in> set fs" "priced_as c f" "\<forall>g \<in> set fs. cn_fix_vertex g = cn_fix_vertex c \<longrightarrow> seed f \<le> seed g"
proof -
  from assms obtain i where "i < length fs" "priced_as c (fs ! i)" and
    "\<forall>j < length fs. cn_fix_vertex (fs ! j) = cn_fix_vertex c \<longrightarrow> seed (fs ! i) \<le> seed (fs ! j)"
    by (auto simp: pooled_def pool_winner_def)
  then show ?thesis by (intro that [of "fs ! i"]) (auto simp: in_set_conv_nth)
qed

section \<open>Accumulate meets the contract\<close>

lemma swap_items_props:
  assumes "xs \<noteq> []" and "ys \<noteq> []" and "i = length xs"
  shows "mset (swap_items (xs @ ys) 0 i) = mset xs + mset ys" and "hd (swap_items (xs @ ys) 0 i) = hd ys"
    and "swap_items (xs @ ys) 0 i \<noteq> []"
proof -
  show "swap_items (xs @ ys) 0 i \<noteq> []" using assms by (simp add: swap_items_def)
  show "mset (swap_items (xs @ ys) 0 i) = mset xs + mset ys"
    unfolding swap_items_def using assms by (subst mset_swap) auto
  show "hd (swap_items (xs @ ys) 0 i) = hd ys"
    using assms by (cases xs; cases ys; simp add: swap_items_def hd_conv_nth nth_list_update nth_append)
qed

lemma accumulate_new: "cn_fix_vertex f \<notin> cn_fix_vertex ` set out \<Longrightarrow> accumulate out f = out @ [f]"
  by (induction out) auto

lemma accumulate_old:
  "cn_fix_vertex f \<notin> cn_fix_vertex ` set out \<Longrightarrow> cn_fix_vertex f = cn_fix_vertex c \<Longrightarrow>
   accumulate (out @ c # out') f = out @ accumulate [c] f @ out'"
  by (induction out) (auto simp: Let_def)

interpretation accumulate: seed_merge accumulate cn_seed_distance_nm "\<lambda>f. length (cn_procedures f) = 1"
proof unfold_locales
  fix f c :: connection and out out' :: "connection list"
  assume a: "cn_fix_vertex f \<notin> cn_fix_vertex ` set out" "cn_fix_vertex f = cn_fix_vertex c"
    "cn_procedures c \<noteq> []" "length (cn_procedures f) = 1"
  then obtain r where r: "cn_procedures f = [r]" by (auto simp: length_Suc_conv)
  note sw = swap_items_props [OF a(3), of "[r]", OF _ refl]
  let ?c' = "hd (accumulate [c] f)"
  have c': "accumulate [c] f = [?c']" using a(2) by (simp add: Let_def)
  have "priced_as ?c' (if cn_seed_distance_nm f < cn_seed_distance_nm c then f else c)"
    using a(2,3) sw(2,3) by (simp add: priced_as_def Let_def r)
  moreover have "mset (cn_procedures ?c') = mset (cn_procedures c) + mset (cn_procedures f)"
    using a(2) sw(1) by (simp add: Let_def r)
  ultimately show "\<exists>c'. accumulate (out @ c # out') f = out @ c' # out' \<and>
      priced_as c' (if cn_seed_distance_nm f < cn_seed_distance_nm c then f else c) \<and>
      mset (cn_procedures c') = mset (cn_procedures c) + mset (cn_procedures f)"
    using accumulate_old [OF a(1,2), of out'] c' by (intro exI [of _ ?c']) simp
qed (auto simp: priced_as_sel accumulate_new)

end
