(* ===== verification/EndpointPlanner.thy ===== *)
theory EndpointPlanner
  imports SeedPool RouteRequest
begin

text \<open>
  \<^verbatim>\<open>io/navdb/endpoint_planner.cc\<close>: how one endpoint of a query attaches to the enroute network. The
  procedure lookup the planner is handed (\<open>CifpLookup\<close>) is a function argument.
\<close>

section \<open>Plans\<close>

record endpoint_plan =
  ep_connections :: "connection list"
  ep_airport_icao :: string
  ep_used_procedures :: bool
  ep_used_approach :: bool
  ep_has_procedures :: bool
  ep_named_procedure_unmatched :: bool
  ep_unknown_runway :: bool
  ep_runway :: string
  ep_soft_prefer_star :: bool

definition endpoint_plan_empty :: endpoint_plan where
  "endpoint_plan_empty =
     \<lparr>ep_connections = [], ep_airport_icao = [], ep_used_procedures = False, ep_used_approach = False,
      ep_has_procedures = False, ep_named_procedure_unmatched = False, ep_unknown_runway = False,
      ep_runway = [], ep_soft_prefer_star = False\<rparr>"

type_synonym cifp_lookup = "string \<Rightarrow> route_cifp option result"

definition procedure_prefer_nm :: real where "procedure_prefer_nm = 15"

section \<open>Selecting by name and runway\<close>

definition ref_matches_selector :: "procedure_ref \<Rightarrow> string \<Rightarrow> bool" where
  "ref_matches_selector ref selector \<longleftrightarrow> selector_matches selector (ref_name ref) (ref_transition ref)"

text \<open>
  Whether a connection survived, and the connections: filtered in place, and emptied ones dropped only
  when some connection survived.
\<close>

definition filter_connections_by_name :: "connection list \<Rightarrow> string \<Rightarrow> bool \<times> connection list" where
  "filter_connections_by_name connections selector =
     (if selector = [] then (True, connections)
      else
        let kept = map (\<lambda>c. c\<lparr>cn_procedures :=
                filter (\<lambda>ref. ref_matches_selector ref selector) (cn_procedures c)\<rparr>) connections;
            any_kept = list_ex (\<lambda>c. cn_procedures c \<noteq> []) kept
        in (any_kept, if any_kept then filter (\<lambda>c. cn_procedures c \<noteq> []) kept else kept))"

definition plan_runway :: "string \<Rightarrow> string" where
  "plan_runway runway =
     (let up = to_upper runway in
      if up \<noteq> [] \<and> \<not> starts_with runway_prefix up then runway_prefix @ up else up)"

definition airport_has_runway :: "route_cifp \<Rightarrow> string \<Rightarrow> bool" where
  "airport_has_runway cifp runway \<longleftrightarrow>
     list_ex (\<lambda>r. rwy_ident r = runway) (cifp_runways cifp) \<or>
     list_ex (\<lambda>p. proc_runway p = runway) (cifp_procedures cifp)"

section \<open>Pooling STAR splices and approaches\<close>

definition is_approach_front :: "connection \<Rightarrow> bool" where
  "is_approach_front c \<longleftrightarrow> cn_procedures c \<noteq> [] \<and> ref_type (hd (cn_procedures c)) = Approach"

definition effective_seed_nm :: "connection \<Rightarrow> bool \<Rightarrow> real" where
  "effective_seed_nm c soft_prefer_star =
     (if soft_prefer_star \<and> is_approach_front c then cn_seed_distance_nm c + procedure_prefer_nm
      else cn_seed_distance_nm c)"

fun merge_connection :: "bool \<Rightarrow> connection list \<Rightarrow> connection \<Rightarrow> connection list" where
  "merge_connection soft [] incoming = [incoming]"
| "merge_connection soft (c # by_fix) incoming =
     (if cn_fix_vertex c \<noteq> cn_fix_vertex incoming then c # merge_connection soft by_fix incoming
      else
        let first_incoming = length (cn_procedures c);
            c' = c\<lparr>cn_procedures := cn_procedures c @ cn_procedures incoming\<rparr>
        in (if effective_seed_nm incoming soft < effective_seed_nm c' soft
            then incoming\<lparr>cn_procedures :=
                (if first_incoming < length (cn_procedures c')
                 then swap_items (cn_procedures c') 0 first_incoming else cn_procedures c')\<rparr>
            else c') # by_fix)"

definition merge_all :: "bool \<Rightarrow> connection list \<Rightarrow> connection list \<Rightarrow> connection list" where
  "merge_all soft dst src = foldl (merge_connection soft) dst src"

definition effective_less :: "bool \<Rightarrow> connection \<Rightarrow> connection \<Rightarrow> bool" where
  "effective_less soft a b =
     (if effective_seed_nm a soft \<noteq> effective_seed_nm b soft then effective_seed_nm a soft < effective_seed_nm b soft
      else cn_fix_vertex a < cn_fix_vertex b)"

definition sort_connections_by_seed :: "bool \<Rightarrow> connection list \<Rightarrow> connection list" where
  "sort_connections_by_seed soft by_fix = sort_by (effective_less soft) by_fix"

text \<open>Whether a STAR, and whether an approach, occurs among the references.\<close>

definition scan_procedure_types :: "connection list \<Rightarrow> bool \<times> bool" where
  "scan_procedure_types connections =
     foldl (\<lambda>out c. foldl (\<lambda>(any_star, any_apch) ref.
           if ref_type ref = Approach then (any_star, True)
           else if ref_type ref = Star then (True, any_apch) else (any_star, any_apch)) out (cn_procedures c))
       (False, False) connections"

definition soft_prefer_star_active :: "endpoint_plan \<Rightarrow> bool" where
  "soft_prefer_star_active plan = ep_soft_prefer_star plan"

definition to_search_endpoints :: "connection list \<Rightarrow> bool \<Rightarrow> seeded_endpoint list" where
  "to_search_endpoints connections soft_prefer_star =
     map (\<lambda>c. \<lparr>se_vertex = cn_fix_vertex c, se_cost = effective_seed_nm c soft_prefer_star,
                se_bearing = cn_bearing c\<rparr>) connections"

section \<open>Plan\<close>

definition has_side_procedures :: "route_cifp \<Rightarrow> bool \<Rightarrow> bool" where
  "has_side_procedures cifp departure \<longleftrightarrow>
     list_ex (\<lambda>p. if departure then proc_type p = Sid else proc_type p = Star \<or> proc_type p = Approach)
       (cifp_procedures cifp)"

text \<open>
  The connections of an airport with procedure data, on either side. \<open>Inr\<close> is the plan that goes on to
  the DCT fallback, \<open>Inl\<close> the one returned at once, as the named procedure matched nothing.
\<close>

definition plan_departure ::
  "endpoint_plan \<Rightarrow> route_cifp \<Rightarrow> point \<Rightarrow> graph_builder \<Rightarrow> string \<Rightarrow> string \<Rightarrow> int list \<Rightarrow>
   endpoint_plan + endpoint_plan" where
  "plan_departure plan cifp apt b rwy sel avoid =
     (let on_net = build_departure cifp apt b rwy;
          used = (\<lambda>p. Inr (p\<lparr>ep_used_procedures := ep_connections p \<noteq> []\<rparr>))
      in if sel \<noteq> [] then
           (case filter_connections_by_name on_net sel of
              (True, kept) \<Rightarrow> used (plan\<lparr>ep_connections := kept\<rparr>)
            | (False, _) \<Rightarrow>
                let splices = build_sid_splice_departure cifp apt b rwy sel avoid in
                if splices = [] then Inl (plan\<lparr>ep_connections := [], ep_named_procedure_unmatched := True\<rparr>)
                else used (plan\<lparr>ep_connections := splices\<rparr>))
         else if on_net = [] then
           used (plan\<lparr>ep_connections := build_sid_splice_departure cifp apt b rwy [] avoid\<rparr>)
         else used (plan\<lparr>ep_connections := on_net\<rparr>))"

definition plan_arrival ::
  "endpoint_plan \<Rightarrow> route_cifp \<Rightarrow> point \<Rightarrow> graph_builder \<Rightarrow> string \<Rightarrow> string \<Rightarrow> int list \<Rightarrow>
   endpoint_plan + endpoint_plan" where
  "plan_arrival plan cifp apt b rwy sel avoid =
     (let on_net = build_arrival cifp apt b rwy in
      if sel \<noteq> [] then
        (case filter_connections_by_name on_net sel of
           (True, kept) \<Rightarrow> Inr (plan\<lparr>ep_connections := kept, ep_used_procedures := True\<rparr>)
         | (False, _) \<Rightarrow>
             let splices = build_star_splice_arrival cifp apt b rwy sel avoid in
             if splices = [] then Inl (plan\<lparr>ep_connections := [], ep_named_procedure_unmatched := True\<rparr>)
             else Inr (plan\<lparr>ep_connections := splices, ep_used_procedures := True\<rparr>))
      else if on_net \<noteq> [] then Inr (plan\<lparr>ep_connections := on_net, ep_used_procedures := True\<rparr>)
      else
        let pool = build_star_splice_arrival cifp apt b rwy [] avoid;
            apch = build_approach_arrival cifp apt b rwy;
            soft_prefer = (pool \<noteq> [] \<and> apch \<noteq> []);
            merged = sort_connections_by_seed soft_prefer (merge_all soft_prefer pool apch);
            (any_star, any_apch) = scan_procedure_types merged
        in Inr (plan\<lparr>ep_connections := merged, ep_used_procedures := any_star \<and> \<not> any_apch,
                     ep_used_approach := any_apch \<and> \<not> any_star, ep_soft_prefer_star := soft_prefer\<rparr>))"

definition with_dct_fallback :: "endpoint_plan \<Rightarrow> point \<Rightarrow> graph_builder \<Rightarrow> bool \<Rightarrow> endpoint_plan" where
  "with_dct_fallback plan apt b departure =
     (if ep_connections plan = []
      then plan\<lparr>ep_connections := build_dct_fallback apt b 5 (\<not> departure)\<rparr> else plan)"

definition plan_endpoint ::
  "graph_builder \<Rightarrow> route_request \<Rightarrow> string \<Rightarrow> bool \<Rightarrow> cifp_lookup \<Rightarrow> int list \<Rightarrow> endpoint_plan result" where
  "plan_endpoint b request name departure lookup avoid =
     (let up = to_upper name; airport = vertex_by_airport b up in
      if airport < 0 then Inr endpoint_plan_empty
      else
        let plan = endpoint_plan_empty\<lparr>ep_airport_icao := up\<rparr>; apt = coord_of (gb_graph b) airport;
            wanted = (if departure then rr_departure_sid request else rr_arrival_star request)
        in case lookup up of
            Inl e \<Rightarrow> Inl e
          | Inr None \<Rightarrow>
              if wanted \<noteq> [] then Inr (plan\<lparr>ep_named_procedure_unmatched := True\<rparr>)
              else Inr (with_dct_fallback plan apt b departure)
          | Inr (Some cifp) \<Rightarrow>
              let rwy = plan_runway (if departure then rr_departure_runway request else rr_arrival_runway request);
                  sel = to_upper wanted;
                  plan = plan\<lparr>ep_has_procedures := has_side_procedures cifp departure, ep_runway := rwy\<rparr>
              in if rwy \<noteq> [] \<and> \<not> airport_has_runway cifp rwy then Inr (plan\<lparr>ep_unknown_runway := True\<rparr>)
                 else case (if departure then plan_departure plan cifp apt b rwy sel avoid
                            else plan_arrival plan cifp apt b rwy sel avoid) of
                     Inl done_plan \<Rightarrow> Inr done_plan
                   | Inr open_plan \<Rightarrow> Inr (with_dct_fallback open_plan apt b departure))"

end
