(* ===== verification/RouteAssembler.thy ===== *)
theory RouteAssembler
  imports EndpointPlanner RouteText
begin

text \<open>
  \<^verbatim>\<open>io/navdb/route_assembler.cc\<close> and \<^verbatim>\<open>core/routing/route.h\<close>: from the paths of the search and the two
  endpoint plans to filed routes.
\<close>

section \<open>Routes\<close>

datatype connection_kind = CkProcedure | CkDirect | CkRadarVectors | CkTerminalTransition

definition connection_kind_name :: "connection_kind \<Rightarrow> string" where
  "connection_kind_name k =
     (case k of CkProcedure \<Rightarrow> ''procedure'' | CkDirect \<Rightarrow> ''direct'' | CkRadarVectors \<Rightarrow> ''radar_vectors''
      | CkTerminalTransition \<Rightarrow> ''terminal_transition'')"

record route_point =
  pt_ident :: string
  pt_coord :: point

record route =
  ro_points :: "route_point list"
  ro_legs :: "route_leg list"
  ro_total_distance_nm :: real
  ro_route_string :: string
  ro_dep_distance_nm :: real
  ro_enroute_distance_nm :: real
  ro_arr_distance_nm :: real
  ro_sid :: string
  ro_star :: string
  ro_dep_runway :: string
  ro_arr_runway :: string
  ro_dep_connection :: connection_kind
  ro_arr_connection :: connection_kind
  ro_sid_options :: "string list"
  ro_star_options :: "string list"
  ro_terminal_transition :: bool
  ro_approach :: string
  ro_approach_iaf :: string
  ro_approach_bearing :: real
  ro_approach_options :: "string list"
  ro_forced_points :: "string list"

definition route_empty :: route where
  "route_empty =
     \<lparr>ro_points = [], ro_legs = [], ro_total_distance_nm = 0, ro_route_string = [], ro_dep_distance_nm = 0,
      ro_enroute_distance_nm = 0, ro_arr_distance_nm = 0, ro_sid = [], ro_star = [], ro_dep_runway = [],
      ro_arr_runway = [], ro_dep_connection = CkDirect, ro_arr_connection = CkDirect, ro_sid_options = [],
      ro_star_options = [], ro_terminal_transition = False, ro_approach = [], ro_approach_iaf = [],
      ro_approach_bearing = no_bearing, ro_approach_options = [], ro_forced_points = []\<rparr>"

definition sid_token :: string where "sid_token = ''SID''"
definition star_token :: string where "star_token = ''STAR''"

section \<open>Looking up the connection of a fix\<close>

definition format_ref :: "procedure_ref \<Rightarrow> string" where
  "format_ref ref = (if ref_transition ref = [] then ref_name ref else ref_name ref @ ''.'' @ ref_transition ref)"

definition find_connection :: "endpoint_plan \<Rightarrow> int \<Rightarrow> connection option" where
  "find_connection plan fix_vertex = find (\<lambda>c. cn_fix_vertex c = fix_vertex) (ep_connections plan)"

section \<open>MakeRoute\<close>

text \<open>The splice of one side: whether there is one, its fix, and the procedure and DCT legs' lengths.\<close>

record splice_side =
  ss_splice :: bool
  ss_vertex :: int
  ss_leg_nm :: real
  ss_seed :: real

definition body_nm :: "splice_side \<Rightarrow> real" where
  "body_nm s = (if ss_splice s then max 0 (ss_seed s - ss_leg_nm s) else ss_seed s)"

definition splice_side_of :: "string \<Rightarrow> real \<Rightarrow> int \<Rightarrow> real \<Rightarrow> splice_side" where
  "splice_side_of apt_label seed splice_vertex splice_leg_nm =
     \<lparr>ss_splice = 0 \<le> splice_vertex \<and> apt_label \<noteq> [], ss_vertex = splice_vertex, ss_leg_nm = splice_leg_nm, ss_seed = seed\<rparr>"

definition vertex_name :: "graph_builder \<Rightarrow> int \<Rightarrow> string" where
  "vertex_name b v = id_ident (ident_of b v)"

definition airport_coord :: "graph_builder \<Rightarrow> nav_graph \<Rightarrow> string \<Rightarrow> int \<Rightarrow> point" where
  "airport_coord b graph apt_label fallback =
     (let apt = vertex_by_airport b (to_upper apt_label) in
      if 0 \<le> apt then coord_of graph apt else coord_of graph fallback)"

definition fix_point :: "graph_builder \<Rightarrow> nav_graph \<Rightarrow> int \<Rightarrow> route_point" where
  "fix_point b graph v = \<lparr>pt_ident = vertex_name b v, pt_coord = coord_of graph v\<rparr>"

definition leg_of :: "string \<Rightarrow> string \<Rightarrow> string \<Rightarrow> real \<Rightarrow> route_leg" where
  "leg_of from to via nm =
     \<lparr>rl_from = from, rl_to = to, rl_via = via, rl_distance_nm = nm, rl_concurrent_airways = []\<rparr>"

definition enroute_leg :: "graph_builder \<Rightarrow> nav_graph \<Rightarrow> search_options \<Rightarrow> int \<times> int \<Rightarrow> route_leg" where
  "enroute_leg b graph options uw =
     (case uw of (u, w) \<Rightarrow>
        case select_edge graph u w options of
          None \<Rightarrow> leg_of (vertex_name b u) (vertex_name b w) dct_token 0
        | Some (e, _) \<Rightarrow> leg_of (vertex_name b u) (vertex_name b w) (airway_name b (uint (ge_airway_id e))) (ge_distance_nm e))"

definition route_points_of ::
  "graph_builder \<Rightarrow> nav_graph \<Rightarrow> int list \<Rightarrow> string \<Rightarrow> string \<Rightarrow> splice_side \<Rightarrow> splice_side \<Rightarrow> route_point list" where
  "route_points_of b graph vertices dep_label arr_label dep arr =
     (if dep_label = [] then []
      else \<lparr>pt_ident = dep_label, pt_coord = airport_coord b graph dep_label (hd vertices)\<rparr> #
        (if ss_splice dep then [fix_point b graph (ss_vertex dep)] else [])) @
     map (fix_point b graph) vertices @
     (if arr_label = [] then []
      else (if ss_splice arr then [fix_point b graph (ss_vertex arr)] else []) @
        [\<lparr>pt_ident = arr_label, pt_coord = airport_coord b graph arr_label (last vertices)\<rparr>])"

definition route_legs_of ::
  "graph_builder \<Rightarrow> nav_graph \<Rightarrow> int list \<Rightarrow> string \<Rightarrow> string \<Rightarrow> string \<Rightarrow> string \<Rightarrow> splice_side \<Rightarrow> splice_side \<Rightarrow>
   search_options \<Rightarrow> route_leg list" where
  "route_legs_of b graph vertices dep_label arr_label sid star dep arr options =
     (let dep_fix = vertex_name b (hd vertices); arr_fix = vertex_name b (last vertices) in
      (if dep_label = [] then []
       else if ss_splice dep then
         [leg_of dep_label (vertex_name b (ss_vertex dep)) sid_token (body_nm dep),
          leg_of (vertex_name b (ss_vertex dep)) dep_fix dct_token (ss_leg_nm dep)]
       else [leg_of dep_label dep_fix (if sid = [] then dct_token else sid_token) (ss_seed dep)]) @
      map (enroute_leg b graph options) (zip vertices (tl vertices)) @
      (if arr_label = [] then []
       else if ss_splice arr then
         [leg_of arr_fix (vertex_name b (ss_vertex arr)) dct_token (ss_leg_nm arr),
          leg_of (vertex_name b (ss_vertex arr)) arr_label star_token (body_nm arr)]
       else [leg_of arr_fix arr_label (if star = [] then dct_token else star_token) (ss_seed arr)]))"

definition make_route ::
  "graph_builder \<Rightarrow> nav_graph \<Rightarrow> shortest_path \<Rightarrow> string \<Rightarrow> string \<Rightarrow> string \<Rightarrow> string \<Rightarrow> splice_side \<Rightarrow> splice_side \<Rightarrow>
   search_options \<Rightarrow> route" where
  "make_route b graph path dep_label arr_label sid star dep arr options =
     (let route = route_empty\<lparr>ro_total_distance_nm := sp_distance_nm path\<rparr> in
      if sp_vertices path = [] then route
      else
        let points = route_points_of b graph (sp_vertices path) dep_label arr_label dep arr;
            legs = route_legs_of b graph (sp_vertices path) dep_label arr_label sid star dep arr options;
            dep_nm = (if dep_label = [] then 0 else body_nm dep);
            arr_nm = (if arr_label = [] then 0 else body_nm arr);
            first_point = (if points = [] then [] else pt_ident (hd points));
            (text, legs') = build_route_string first_point legs
        in route\<lparr>ro_points := points, ro_legs := legs', ro_dep_distance_nm := dep_nm, ro_arr_distance_nm := arr_nm,
             ro_enroute_distance_nm := max 0 (sp_distance_nm path - dep_nm - arr_nm), ro_route_string := text\<rparr>)"

section \<open>Procedure metadata\<close>

text \<open>The chosen name and runway, and every option; the loops stop at the first connection of the fix.\<close>

definition select_procedures :: "endpoint_plan \<Rightarrow> int \<Rightarrow> string \<times> string \<times> string list" where
  "select_procedures plan fix_vertex =
     (case find_connection plan fix_vertex of
        None \<Rightarrow> ([], [], [])
      | Some c \<Rightarrow>
          foldl (\<lambda>(name, runway, options) ref.
              if ref_type ref = Approach then (name, runway, options)
              else if name = [] then (ref_name ref, ref_runway ref, options @ [format_ref ref])
              else (name, runway, options @ [format_ref ref]))
            ([], [], []) (cn_procedures c))"

record approach_choice =
  ac_approach :: string
  ac_iaf :: string
  ac_bearing :: real
  ac_runway :: string
  ac_options :: "string list"

definition approach_choice_empty :: approach_choice where
  "approach_choice_empty =
     \<lparr>ac_approach = [], ac_iaf = [], ac_bearing = - 1, ac_runway = [], ac_options = []\<rparr>"

definition select_approach_procedures :: "endpoint_plan \<Rightarrow> int \<Rightarrow> approach_choice" where
  "select_approach_procedures plan fix_vertex =
     (case find_connection plan fix_vertex of
        None \<Rightarrow> approach_choice_empty
      | Some c \<Rightarrow>
          foldl (\<lambda>out ref.
              if ref_type ref \<noteq> Approach then out
              else
                let out = out\<lparr>ac_options := ac_options out @ [format_ref ref]\<rparr> in
                if ac_approach out = [] then
                  out\<lparr>ac_approach := format_ref ref, ac_iaf := ref_iaf ref, ac_runway := ref_runway ref\<rparr>
                else out)
            (approach_choice_empty\<lparr>ac_bearing := cn_approach_bearing c\<rparr>) (cn_procedures c))"

definition connection_kind_of :: "endpoint_plan \<Rightarrow> connection_kind" where
  "connection_kind_of plan =
     (if ep_used_approach plan then CkTerminalTransition
      else if ep_used_procedures plan then CkProcedure
      else if ep_has_procedures plan then CkRadarVectors else CkDirect)"

definition arrival_kind_for_fix :: "endpoint_plan \<Rightarrow> int \<Rightarrow> connection_kind" where
  "arrival_kind_for_fix arr arr_fix =
     (case find_connection arr arr_fix of
        None \<Rightarrow> connection_kind_of arr
      | Some c \<Rightarrow>
          if cn_procedures c \<noteq> [] then
            (if ref_type (hd (cn_procedures c)) = Approach then CkTerminalTransition else CkProcedure)
          else connection_kind_of arr)"

section \<open>Assemble\<close>

definition side_of_fix :: "endpoint_plan \<Rightarrow> int \<Rightarrow> splice_side" where
  "side_of_fix plan fix_vertex =
     (case find_connection plan fix_vertex of
        None \<Rightarrow> splice_side_of (ep_airport_icao plan) 0 no_vertex 0
      | Some c \<Rightarrow> splice_side_of (ep_airport_icao plan) (cn_seed_distance_nm c) (cn_splice_vertex c) (cn_splice_leg_nm c))"

definition assemble_route ::
  "graph_builder \<Rightarrow> nav_graph \<Rightarrow> endpoint_plan \<Rightarrow> endpoint_plan \<Rightarrow> bool \<Rightarrow> search_options \<Rightarrow> string list \<Rightarrow>
   shortest_path \<Rightarrow> route" where
  "assemble_route b graph dep arr arr_soft_prefer options forced_echo p =
     (let dep_fix = hd (sp_vertices p); arr_fix = last (sp_vertices p);
          (sid_name, dep_rwy, sid_options) = select_procedures dep dep_fix;
          arr_kind = arrival_kind_for_fix arr arr_fix;
          terminal = (arr_kind = CkTerminalTransition);
          apch = (if terminal then select_approach_procedures arr arr_fix else approach_choice_empty);
          (star_name, arr_rwy, star_options) =
            (if terminal then ([], ac_runway apch, []) else select_procedures arr arr_fix);
          route = make_route b graph p (ep_airport_icao dep) (ep_airport_icao arr) sid_name star_name
            (side_of_fix dep dep_fix) (side_of_fix arr arr_fix) options;
          route = (if arr_soft_prefer \<and> terminal then
              let total_nm = max 0 (ro_total_distance_nm route - procedure_prefer_nm)
              in route\<lparr>ro_total_distance_nm := total_nm,
                   ro_enroute_distance_nm := max 0 (total_nm - ro_dep_distance_nm route - ro_arr_distance_nm route)\<rparr>
            else route);
          route = route\<lparr>ro_sid := sid_name, ro_dep_runway := dep_rwy, ro_sid_options := sid_options,
            ro_star := star_name, ro_arr_runway := arr_rwy, ro_star_options := star_options,
            ro_dep_connection := connection_kind_of dep, ro_arr_connection := arr_kind\<rparr>;
          route = (if terminal then
              route\<lparr>ro_terminal_transition := True, ro_approach := ac_approach apch, ro_approach_iaf := ac_iaf apch,
                ro_approach_bearing := ac_bearing apch, ro_approach_options := ac_options apch\<rparr>
            else route)
      in route\<lparr>ro_forced_points := forced_echo\<rparr>)"

definition assemble ::
  "graph_builder \<Rightarrow> nav_graph \<Rightarrow> shortest_path list \<Rightarrow> endpoint_plan \<Rightarrow> endpoint_plan \<Rightarrow> bool \<Rightarrow> search_options \<Rightarrow>
   string list \<Rightarrow> route list" where
  "assemble b graph paths dep arr arr_soft_prefer options forced_echo =
     map (assemble_route b graph dep arr arr_soft_prefer options forced_echo)
       (filter (\<lambda>p. sp_vertices p \<noteq> []) paths)"

end
