(* ===== verification/ConstraintAssembly.thy ===== *)
theory ConstraintAssembly
  imports GraphBuilder SearchOptions
begin

unbundle bit_operations_syntax

text \<open>
  \<^verbatim>\<open>io/navdb/constraint_assembly.cc\<close>: from a route request to the search options, with every name
  in the request resolved to vertex sets and bit masks before the search. The owned constraint
  objects of the bundle are the constructors of \<open>edge_constraint\<close> in the option list.
\<close>

section \<open>Avoided waypoints\<close>

text \<open>The vertices one entry names: \<open>IDENT/REGION\<close> or \<open>IDENT\<close> in every region.\<close>

definition avoid_matches :: "graph_builder \<Rightarrow> string \<Rightarrow> int list" where
  "avoid_matches b raw =
     (let up = to_upper raw; rest = dropWhile (\<lambda>c. c \<noteq> CHR ''/'') up in
      if rest \<noteq> [] then
        filter (\<lambda>v. region_of b v = tl rest) (vertices_by_ident b (takeWhile (\<lambda>c. c \<noteq> CHR ''/'') up))
      else vertices_by_ident b up)"

definition resolve_avoid_vertices :: "graph_builder \<Rightarrow> string list \<Rightarrow> int list" where
  "resolve_avoid_vertices b avoid_waypoints =
     remdups_adj (sort (foldl (\<lambda>out raw. out @ avoid_matches b raw) [] avoid_waypoints))"

section \<open>Airway rules\<close>

definition max_rules :: nat where "max_rules = 32"

text \<open>Bit \<open>i\<close> for every rule \<open>i\<close> that satisfies a test.\<close>

definition rule_bits :: "(airway_rule \<Rightarrow> bool) \<Rightarrow> airway_rule list \<Rightarrow> u32 \<Rightarrow> u32" where
  "rule_bits P rules bits =
     foldl (\<lambda>bits i. if P (rules ! i) then bits OR push_bit i 1 else bits) bits [0..<length rules]"

definition rule_fraction :: "airway_rule \<Rightarrow> real" where
  "rule_fraction r =
     (if ar_action r = Block then 0
      else if ar_penalty_fraction r < 0 then 0 else ar_penalty_fraction r)"

text \<open>The vertex masks; each distinct region is matched once and remembered.\<close>

definition region_step ::
  "graph_builder \<Rightarrow> airway_rule list \<Rightarrow> (string \<rightharpoonup> u32) \<times> u32 list \<Rightarrow> int \<Rightarrow> (string \<rightharpoonup> u32) \<times> u32 list" where
  "region_step b rules = (\<lambda>(region_masks, out) v.
     let region = region_of b v in
     case region_masks region of
       Some m \<Rightarrow> (region_masks, out @ [m])
     | None \<Rightarrow>
         let m = rule_bits (\<lambda>r. matches_any_prefix region (ar_region_prefixes r)) rules 0
         in (region_masks(region \<mapsto> m), out @ [m]))"

definition vertex_masks :: "graph_builder \<Rightarrow> airway_rule list \<Rightarrow> u32 list" where
  "vertex_masks b rules =
     snd (foldl (region_step b rules) (Map.empty, []) [0 .. vertex_count (gb_graph b) - 1])"

definition designator_mask :: "airway_rule list \<Rightarrow> string \<Rightarrow> u32" where
  "designator_mask rules name =
     foldl (\<lambda>bits designator.
         rule_bits (\<lambda>r. matches_any_designator designator (ar_designators r) (ar_match r)) rules bits)
       0 (split_designators name)"

text \<open>Entry 0, the reserved DCT name, stays 0.\<close>

definition airway_masks :: "graph_builder \<Rightarrow> airway_rule list \<Rightarrow> u32 list" where
  "airway_masks b rules =
     map (\<lambda>i. if i = 0 then 0 else designator_mask rules (gb_airway_names b ! i)) [0..<length (gb_airway_names b)]"

definition resolve_airway_rules :: "graph_builder \<Rightarrow> airway_rule list \<Rightarrow> airway_rule_tables" where
  "resolve_airway_rules b rules =
     \<lparr>at_vertex_mask = vertex_masks b rules, at_airway_mask = airway_masks b rules,
      at_block_bits = rule_bits (\<lambda>r. ar_action r = Block) rules 0, at_fractions = map rule_fraction rules\<rparr>"

section \<open>Build\<close>

record constraint_bundle =
  cb_options :: search_options
  cb_avoid_vertices :: "int list"

text \<open>The constraint list in the order of the pushes.\<close>

definition assembled_constraints :: "route_request \<Rightarrow> graph_builder \<Rightarrow> mora_grid \<Rightarrow> edge_constraint list" where
  "assembled_constraints request b mora =
     (if rr_altitude request \<noteq> None then [AltitudeBand, MoraFloor mora] else []) @
     (if rr_level request \<noteq> LpNone then [LevelPreference (level_preference_fraction default_penalty_fraction)] else []) @
     (if rr_avoid_waypoints request \<noteq> [] then
        [AvoidWaypoint (dedup_sort (resolve_avoid_vertices b (rr_avoid_waypoints request)))] else []) @
     (if rr_airway_rules request \<noteq> [] then [AirwayRules (resolve_airway_rules b (rr_airway_rules request))] else []) @
     (case rr_random_seed request of None \<Rightarrow> [] | Some seed \<Rightarrow> [Randomize seed (randomize_eps default_eps)])"

definition constraint_assembly_build ::
  "route_request \<Rightarrow> graph_builder \<Rightarrow> mora_grid \<Rightarrow> constraint_bundle result" where
  "constraint_assembly_build request b mora =
     (if rr_airway_rules request \<noteq> [] \<and> max_rules < length (rr_airway_rules request) then
        Inl (mk_error KRouteParseError
          (''too many airway rules (max '' @ dec_of_nat max_rules @
           ''); note one rule may list any number of regions and designators''))
      else
        Inr \<lparr>cb_options = search_options_default
              \<lparr>so_constraints := assembled_constraints request b mora, so_request := Some request,
               so_turn_penalty := \<lparr>tp_enabled = True\<rparr>,
               so_node_filter := \<lparr>nf_airport_first = gb_first_airport_vertex b, nf_airport_last = vertex_count (gb_graph b), nf_banned = None\<rparr>\<rparr>,
             cb_avoid_vertices = resolve_avoid_vertices b (rr_avoid_waypoints request)\<rparr>)"


section \<open>The masks decide the rules\<close>

lemma rule_bits_bit:
  assumes "length rules \<le> 32" and "i < 32"
  shows "bit (rule_bits P rules bits) i \<longleftrightarrow> bit bits i \<or> (i < length rules \<and> P (rules ! i))"
proof -
  have "bit (foldl (\<lambda>bits i. if P (rules ! i) then bits OR push_bit i 1 else bits) bits [0..<n]) i \<longleftrightarrow>
      bit bits i \<or> (i < n \<and> P (rules ! i))" if "n \<le> 32" for n
    using that
  proof (induction n)
    case (Suc n)
    have "bit (push_bit n 1 :: u32) i \<longleftrightarrow> i = n"
      using Suc.prems by (auto simp: bit_exp_iff)
    then show ?case using Suc by (auto simp: bit_simps less_Suc_eq)
  qed simp
  then show ?thesis using assms(1) by (simp add: rule_bits_def)
qed

lemma vertex_masks_eq:
  "vertex_masks b rules = map (\<lambda>v. rule_bits (\<lambda>r. matches_any_prefix (region_of b v) (ar_region_prefixes r)) rules 0)
     [0 .. vertex_count (gb_graph b) - 1]"
proof -
  let ?f = "\<lambda>region. rule_bits (\<lambda>r. matches_any_prefix region (ar_region_prefixes r)) rules 0"
  have "\<forall>region m. masks region = Some m \<longrightarrow> m = ?f region \<Longrightarrow>
      snd (foldl (region_step b rules) (masks, out) vs) = out @ map (\<lambda>v. ?f (region_of b v)) vs" for masks out vs
  proof (induction vs arbitrary: masks out)
    case (Cons v vs)
    show ?case
    proof (cases "masks (region_of b v)")
      case None
      let ?m = "masks(region_of b v \<mapsto> ?f (region_of b v))"
      have "\<forall>region m. ?m region = Some m \<longrightarrow> m = ?f region" using Cons.prems by (simp add: fun_upd_def)
      have step: "region_step b rules (masks, out) v = (?m, out @ [?f (region_of b v)])"
        using None by (simp add: region_step_def Let_def)
      show ?thesis unfolding foldl_Cons step Cons.IH [OF \<open>\<forall>region m. ?m region = Some m \<longrightarrow> m = ?f region\<close>] by simp
    next
      case (Some m)
      then have "m = ?f (region_of b v)" using Cons.prems by blast
      then have step: "region_step b rules (masks, out) v = (masks, out @ [?f (region_of b v)])"
        using Some by (simp add: region_step_def Let_def)
      show ?thesis unfolding foldl_Cons step using Cons.IH [OF Cons.prems] by simp
    qed
  qed simp
  from this [of Map.empty "[]"] show ?thesis by (simp add: vertex_masks_def)
qed

lemma designator_mask_bit:
  assumes "length rules \<le> 32" and "i < 32"
  shows "bit (designator_mask rules name) i \<longleftrightarrow> i < length rules \<and>
    (\<exists>d \<in> set (split_designators name). matches_any_designator d (ar_designators (rules ! i)) (ar_match (rules ! i)))"
proof -
  have "bit (foldl (\<lambda>bits designator. rule_bits (\<lambda>r. matches_any_designator designator (ar_designators r) (ar_match r))
      rules bits) bits ds) i \<longleftrightarrow> bit bits i \<or> (i < length rules \<and>
      (\<exists>d \<in> set ds. matches_any_designator d (ar_designators (rules ! i)) (ar_match (rules ! i))))" for bits ds
    by (induction ds arbitrary: bits) (auto simp: rule_bits_bit [OF assms])
  then show ?thesis by (simp add: designator_mask_def)
qed

text \<open>What a rule says about a leg, without masks.\<close>

definition rule_matches_leg :: "graph_builder \<Rightarrow> edge_context \<Rightarrow> airway_rule \<Rightarrow> bool" where
  "rule_matches_leg b ctx r \<longleftrightarrow>
     (matches_any_prefix (region_of b (ctx_from ctx)) (ar_region_prefixes r) \<or>
      matches_any_prefix (region_of b (edge_to (ctx_edge ctx))) (ar_region_prefixes r)) \<and>
     ge_airway_id (ctx_edge ctx) \<noteq> 0 \<and>
     (\<exists>d \<in> set (split_designators (airway_name b (uint (ge_airway_id (ctx_edge ctx))))).
        matches_any_designator d (ar_designators r) (ar_match r))"

lemma upto_nth: "0 \<le> v \<Longrightarrow> v < n \<Longrightarrow> map f [0 .. n - 1] ! nat v = f v"
  by simp

lemma resolved_rule_applies:
  assumes "length rules \<le> 32" and "context_fits (length (gb_airway_names b)) (vertex_count (gb_graph b)) ctx"
  shows "rule_applies (resolve_airway_rules b rules) ctx i \<longleftrightarrow>
    i < length rules \<and> rule_matches_leg b ctx (rules ! i)"
proof (cases "i < 32")
  case True
  have "unat (ge_airway_id (ctx_edge ctx)) < length (gb_airway_names b)"
    "0 \<le> ctx_from ctx" "ctx_from ctx < vertex_count (gb_graph b)"
    "0 \<le> edge_to (ctx_edge ctx)" "edge_to (ctx_edge ctx) < vertex_count (gb_graph b)"
    using assms(2) by (simp_all add: context_fits_def)
  then show ?thesis
    by (auto simp: rule_applies_def resolve_airway_rules_def vertex_masks_eq airway_masks_def rule_matches_leg_def
        rule_bits_bit [OF assms(1) True] designator_mask_bit [OF assms(1) True] True airway_name_def unat_eq_zero)
next
  case False
  then show ?thesis using assms(1) by (simp add: rule_applies_def)
qed

end
