(* ===== verification/NavDatabase.thy ===== *)
theory NavDatabase
  imports ForcedRouter RouteAssembler ConstraintAssembly
begin

text \<open>
  \<^verbatim>\<open>io/navdb/nav_database.cc\<close> and \<^verbatim>\<open>nav_database_impl.h\<close>: the database object, its procedure
  cache and the route query. The loader and the CIFP archive are the functions the database calls on them;
  \<open>None\<close> as a query's outcome would be a search that does not return.
\<close>

section \<open>The database\<close>

text \<open>The parts of \<open>NavDatabase::Impl\<close> that a route query reads or writes.\<close>

record nav_database =
  db_builder :: "graph_builder option"
  db_mora :: mora_grid
  db_loader :: "(string \<Rightarrow> string \<Rightarrow> route_cifp option result) option"
  db_source_dir :: string
  db_cifp_archive :: "(string \<Rightarrow> route_cifp option result) option"
  db_cifp_eager :: bool
  db_procedure_cache :: "string \<rightharpoonup> route_cifp option"

section \<open>ProceduresFor\<close>

text \<open>The fetch outside the lock: from the archive, else from the loader, else there is nothing.\<close>

definition fetch_procedures :: "nav_database \<Rightarrow> string \<Rightarrow> route_cifp option result" where
  "fetch_procedures db icao =
     (case db_cifp_archive db of
        Some fetch \<Rightarrow> fetch icao
      | None \<Rightarrow> (case db_loader db of Some load \<Rightarrow> load (db_source_dir db) icao | None \<Rightarrow> Inr None))"

text \<open>
  What a call knows before it takes the lock a second time: its answer, or the procedures it parsed and has
  still to store.
\<close>

datatype lookup_phase = Answered "route_cifp option result" | Parsed "route_cifp option"

definition lookup_begin :: "nav_database \<Rightarrow> string \<Rightarrow> lookup_phase" where
  "lookup_begin db icao =
     (case db_builder db of
        None \<Rightarrow> Answered (Inr None)
      | Some b \<Rightarrow>
          if \<not> has_value (fixed_name_from fixed_name8_cap icao) \<or> vertex_by_airport b icao < 0
          then Answered (Inr None)
          else if db_cifp_eager db then
            Answered (Inr (case db_procedure_cache db icao of None \<Rightarrow> None | Some stored \<Rightarrow> stored))
          else case db_procedure_cache db icao of
              Some stored \<Rightarrow> Answered (Inr stored)
            | None \<Rightarrow>
                (case fetch_procedures db icao of Inl e \<Rightarrow> Answered (Inl e) | Inr stored \<Rightarrow> Parsed stored))"

text \<open>The second critical section: \<open>try_emplace\<close> keeps an entry another call stored meanwhile.\<close>

definition lookup_end :: "nav_database \<Rightarrow> string \<Rightarrow> route_cifp option \<Rightarrow> route_cifp option result \<times> nav_database" where
  "lookup_end db icao stored =
     (case db_procedure_cache db icao of
        Some first \<Rightarrow> (Inr first, db)
      | None \<Rightarrow> (Inr stored, db\<lparr>db_procedure_cache := (db_procedure_cache db)(icao \<mapsto> stored)\<rparr>))"

definition procedures_for :: "nav_database \<Rightarrow> string \<Rightarrow> route_cifp option result \<times> nav_database" where
  "procedures_for db icao =
     (case lookup_begin db icao of
        Answered r \<Rightarrow> (r, db)
      | Parsed stored \<Rightarrow> lookup_end db icao stored)"

section \<open>FindRoutes: the endpoints\<close>

definition for_runway :: "string \<Rightarrow> string" where
  "for_runway runway = (if runway = [] then [] else '' for runway '' @ runway)"

text \<open>The errors of a plan, the departure's or the arrival's, in the order they are tested.\<close>

definition endpoint_failure :: "route_request \<Rightarrow> bool \<Rightarrow> endpoint_plan \<Rightarrow> error option" where
  "endpoint_failure request departure plan =
     (let side = (if departure then ''departure'' else ''arrival'');
          name = (if departure then rr_departure request else rr_arrival request);
          runway = (if departure then rr_departure_runway request else rr_arrival_runway request);
          kind = (if departure then ''SID'' else ''STAR'');
          procedure = (if departure then rr_departure_sid request else rr_arrival_star request)
      in if ep_unknown_runway plan then
           Some (mk_error KProcedureNotFound (side @ '' airport '' @ name @ '' has no runway '' @ [CHR 0x27] @ runway @ [CHR 0x27]))
         else if ep_named_procedure_unmatched plan then
           Some (mk_error KProcedureNotFound (side @ '' airport '' @ name @ '' has no '' @ kind @ '' matching '' @
             [CHR 0x27] @ procedure @ [CHR 0x27] @ for_runway (ep_runway plan)))
         else if ep_connections plan = [] then
           Some (mk_error KAirportNotFound (''unknown '' @ side @ '' airport: '' @ name @ '' (expected an ICAO code, e.g. KLAX)''))
         else None)"

text \<open>
  \<open>Plan\<close> asks for procedures once, of the upper-cased name and only for a known airport: the cache it leaves.
\<close>

definition plan_side ::
  "nav_database \<Rightarrow> graph_builder \<Rightarrow> route_request \<Rightarrow> bool \<Rightarrow> int list \<Rightarrow> endpoint_plan result \<times> nav_database" where
  "plan_side db b request departure avoid =
     (let name = (if departure then rr_departure request else rr_arrival request);
          plan = plan_endpoint b request name departure (\<lambda>icao. fst (procedures_for db icao)) avoid;
          db' = (if vertex_by_airport b (to_upper name) < 0 then db else snd (procedures_for db (to_upper name)))
      in (case plan of
            Inl e \<Rightarrow> Inl e
          | Inr p \<Rightarrow> (case endpoint_failure request departure p of Some e \<Rightarrow> Inl e | None \<Rightarrow> Inr p), db'))"

section \<open>FindRoutes: avoided and forced points\<close>

definition drop_avoided :: "int list \<Rightarrow> seeded_endpoint list \<Rightarrow> seeded_endpoint list" where
  "drop_avoided avoid eps = filter (\<lambda>e. \<not> binary_search avoid (se_vertex e)) eps"

definition forced_error :: "error_code \<Rightarrow> string \<Rightarrow> string \<Rightarrow> error" where
  "forced_error code token why = mk_error code (''forced point '' @ [CHR 0x27] @ token @ [CHR 0x27] @ why)"

text \<open>The loop over the tokens, with the vertices and echoes resolved so far.\<close>

primrec resolve_forced ::
  "graph_builder \<Rightarrow> point \<Rightarrow> point \<Rightarrow> int list \<Rightarrow> string list \<Rightarrow> int list \<Rightarrow> string list \<Rightarrow>
   (int list \<times> string list) result" where
  "resolve_forced b dep_coord arr_coord avoid [] forced echoes = Inr (forced, echoes)"
| "resolve_forced b dep_coord arr_coord avoid (token # tokens) forced echoes =
     (let p = resolve_point b token dep_coord arr_coord; v = rp_vertex p in
      if v < 0 then
        Inl (forced_error KRouteParseError token
          (if rp_is_airport p then '' is an airport, not an enroute waypoint'' else '' is not a known waypoint''))
      else if binary_search avoid v then Inl (forced_error KRouteParseError token '' is also in the avoid list'')
      else if \<not> has_inbound b v \<or> \<not> has_outbound b v then
        Inl (forced_error KNoRoute token
          ('' ('' @ rp_echo p @ '') is not on the airway network in both directions''))
      else if v \<in> set forced then Inl (forced_error KRouteParseError token '' is repeated'')
      else resolve_forced b dep_coord arr_coord avoid tokens (forced @ [v]) (echoes @ [rp_echo p]))"

text \<open>An endpoint's coordinate: its airport's, else that of the first seeded fix.\<close>

definition endpoint_coord :: "graph_builder \<Rightarrow> string \<Rightarrow> seeded_endpoint list \<Rightarrow> point" where
  "endpoint_coord b name eps =
     (let apt = vertex_by_airport b (to_upper name) in
      if 0 \<le> apt then coord_of (gb_graph b) apt else coord_of (gb_graph b) (se_vertex (hd eps)))"

definition forced_vertices ::
  "graph_builder \<Rightarrow> route_request \<Rightarrow> seeded_endpoint list \<Rightarrow> seeded_endpoint list \<Rightarrow> int list \<Rightarrow>
   (int list \<times> string list) result" where
  "forced_vertices b request sources goals avoid =
     (if max_forced_points < length (rr_forced_points request) then
        Inl (mk_error KRouteParseError (''at most '' @ dec_of_nat max_forced_points @
          '' forced points are supported (got '' @ dec_of_nat (length (rr_forced_points request)) @ '')''))
      else if rr_forced_points request = [] then Inr ([], [])
      else resolve_forced b (endpoint_coord b (rr_departure request) sources)
             (endpoint_coord b (rr_arrival request) goals) avoid (rr_forced_points request) [] [])"

section \<open>FindRoutes: the search\<close>

definition candidate_paths ::
  "nav_graph \<Rightarrow> seeded_endpoint list \<Rightarrow> seeded_endpoint list \<Rightarrow> int list \<Rightarrow> int \<Rightarrow> search_options \<Rightarrow>
   shortest_path list option" where
  "candidate_paths graph sources goals forced k options =
     (if forced \<noteq> [] then find_paths graph sources goals forced k options
      else if k = 1 then
        (case find_shortest_path_multi graph sources goals options of
           None \<Rightarrow> None
         | Some best \<Rightarrow> Some (if sp_found best \<and> sp_vertices best \<noteq> [] then [best] else []))
      else find_k_shortest_paths_multi graph sources goals k options)"

definition search_routes ::
  "graph_builder \<Rightarrow> route_request \<Rightarrow> constraint_bundle \<Rightarrow> endpoint_plan \<Rightarrow> endpoint_plan \<Rightarrow>
   route list result option" where
  "search_routes b request constraints dep arr =
     (let options = cb_options constraints; avoid = cb_avoid_vertices constraints;
          arr_soft_prefer = soft_prefer_star_active arr;
          sources = to_search_endpoints (ep_connections dep) False;
          goals = to_search_endpoints (ep_connections arr) arr_soft_prefer;
          sources = (if avoid = [] then sources else drop_avoided avoid sources);
          goals = (if avoid = [] then goals else drop_avoided avoid goals)
      in if avoid \<noteq> [] \<and> (sources = [] \<or> goals = []) then
           Some (Inl (mk_error KNoRoute ''no route between endpoints (avoided all connection fixes)''))
         else case forced_vertices b request sources goals avoid of
             Inl e \<Rightarrow> Some (Inl e)
           | Inr (forced, forced_echo) \<Rightarrow>
               (case candidate_paths (gb_graph b) sources goals forced (max 1 (rr_k request)) options of
                  None \<Rightarrow> None
                | Some paths \<Rightarrow>
                    Some (if paths = [] then Inl (mk_error KNoRoute ''no route between endpoints'')
                      else Inr (assemble b (gb_graph b) paths dep arr arr_soft_prefer options forced_echo))))"

definition find_routes :: "nav_database \<Rightarrow> route_request \<Rightarrow> route list result option \<times> nav_database" where
  "find_routes db request =
     (case db_builder db of
        None \<Rightarrow> (Some (Inl (mk_error KDataMissing ''database not loaded'')), db)
      | Some b \<Rightarrow>
          (case constraint_assembly_build request b (db_mora db) of
             Inl e \<Rightarrow> (Some (Inl e), db)
           | Inr constraints \<Rightarrow>
               (case plan_side db b request True (cb_avoid_vertices constraints) of
                  (Inl e, db1) \<Rightarrow> (Some (Inl e), db1)
                | (Inr dep, db1) \<Rightarrow>
                    (case plan_side db1 b request False (cb_avoid_vertices constraints) of
                       (Inl e, db2) \<Rightarrow> (Some (Inl e), db2)
                     | (Inr arr, db2) \<Rightarrow> (search_routes b request constraints dep arr, db2)))))"

end
