(* ===== verification/ConstraintAssemblyCorrect.thy ===== *)
theory ConstraintAssemblyCorrect
  imports ConstraintAssembly GraphWiring
begin

text \<open>
  What constraint assembly promises a search over a built graph: rules act on exactly the legs they
  describe, the avoid set is what the names denote, and the options keep the search optimal.
\<close>

section \<open>Soundness of the assembled constraints\<close>

lemma resolved_rules_sound:
  assumes "length rules \<le> 32"
  shows "constraint_sound (length (gb_airway_names b)) (vertex_count (gb_graph b)) (AirwayRules (resolve_airway_rules b rules))"
proof -
  have "0 \<le> rule_fraction r" for r by (simp add: rule_fraction_def)
  moreover have "\<not> bit (0 :: u32) i" for i by simp
  moreover have "0 \<le> vertex_count (gb_graph b)" by (simp add: vertex_count_def)
  ultimately show ?thesis
    using designator_mask_bit [OF assms]
    by (auto simp: resolve_airway_rules_def vertex_masks_eq airway_masks_def)
qed

lemma assembled_sound:
  assumes "length (rr_airway_rules request) \<le> 32"
    and "so_constraints options = assembled_constraints request b mora"
  shows "constraints_sound (length (gb_airway_names b)) (gb_graph b) options"
  unfolding constraints_sound_def assms(2) assembled_constraints_def
  using resolved_rules_sound [OF assms(1), of b]
  by (auto simp: level_preference_fraction_def default_penalty_fraction_def randomize_eps_def default_eps_def
      split: option.splits)

lemma resolved_rules_effect:
  assumes "length rules \<le> 32"
    and "context_fits (length (gb_airway_names b)) (vertex_count (gb_graph b)) ctx"
  shows "evaluate (AirwayRules (resolve_airway_rules b rules)) ctx request =
    (let hits = filter (rule_matches_leg b ctx) rules
     in if hits = [] then allow
        else if \<exists>r \<in> set hits. ar_action r = Block then block
        else penalize (ge_distance_nm (ctx_edge ctx) * (\<Sum>r \<leftarrow> hits. max 0 (ar_penalty_fraction r))))"
proof -
  let ?t = "resolve_airway_rules b rules"
  let ?hits = "filter (rule_matches_leg b ctx) rules"
  let ?I = "{i. i < length rules \<and> rule_matches_leg b ctx (rules ! i)}"
  note app = resolved_rule_applies [OF assms]
  have I: "{i. rule_applies ?t ctx i} = ?I" by (simp add: app)
  have none: "(\<forall>i. \<not> rule_applies ?t ctx i) \<longleftrightarrow> ?hits = []"
    by (auto simp: app filter_empty_conv all_set_conv_all_nth)
  have blk: "bit (at_block_bits ?t) i \<longleftrightarrow> i < length rules \<and> ar_action (rules ! i) = Block" if "i < 32" for i
    using rule_bits_bit [OF assms(1) that] by (simp add: resolve_airway_rules_def)
  have any: "(\<exists>i. rule_applies ?t ctx i \<and> bit (at_block_bits ?t) i) \<longleftrightarrow> (\<exists>r \<in> set ?hits. ar_action r = Block)"
    using assms(1) blk by (auto simp: app in_set_conv_nth)
  have sum: "(\<Sum>i \<in> ?I. at_fractions ?t ! i) = (\<Sum>r \<leftarrow> ?hits. max 0 (ar_penalty_fraction r))"
    if "\<not> (\<exists>r \<in> set ?hits. ar_action r = Block)"
  proof -
    have "(\<Sum>r \<leftarrow> ?hits. max 0 (ar_penalty_fraction r)) = (\<Sum>r \<leftarrow> ?hits. rule_fraction r)"
      using that by (intro arg_cong [where f = sum_list] map_cong) (auto simp: rule_fraction_def)
    also have "\<dots> = (\<Sum>i \<leftarrow> filter (\<lambda>i. rule_matches_leg b ctx (rules ! i)) [0..<length rules]. rule_fraction (rules ! i))"
      using filter_map [of "rule_matches_leg b ctx" "(!) rules" "[0..<length rules]"] by (simp add: map_nth comp_def)
    also have "\<dots> = (\<Sum>i \<in> ?I. rule_fraction (rules ! i))"
      by (subst sum_list_distinct_conv_sum_set) simp_all
    also have "\<dots> = (\<Sum>i \<in> ?I. at_fractions ?t ! i)"
      by (rule sum.cong) (simp_all add: resolve_airway_rules_def)
    finally show ?thesis by simp
  qed
  show ?thesis
    unfolding evaluate.simps evaluate_airway_rules_applies none any I Let_def
    by (intro if_cong refl arg_cong [where f = penalize] arg_cong2 [where f = "(*)"]) (rule sum)
qed

section \<open>The avoid set\<close>

lemma build_indexed:
  assumes "build data = Inr b" and "small_data data"
  shows "indexed b" "0 \<le> gb_first_airport_vertex b"
proof -
  show "indexed b"
  proof (rule build_wired [OF assms])
    fix b0 assume "loaded b0" "b = wired b0 (nd_airways data)"
    then show ?thesis using wired_indexed [of b0] by (simp add: loaded_def)
  qed
  then show "0 \<le> gb_first_airport_vertex b" by (simp add: indexed_def)
qed

text \<open>The waypoints an entry of the avoid list names.\<close>

definition names_waypoint :: "string \<Rightarrow> ident \<Rightarrow> bool" where
  "names_waypoint up i \<longleftrightarrow>
     (CHR ''/'' \<notin> set up \<and> up = id_ident i) \<or>
     (CHR ''/'' \<notin> set (id_ident i) \<and> up = id_ident i @ CHR ''/'' # id_icao_code i)"

lemma split_at_first:
  assumes "c \<notin> set xs" and "c \<notin> set ys"
  shows "xs @ c # us = ys @ c # vs \<longleftrightarrow> xs = ys \<and> us = vs"
  using assms
proof (induction xs arbitrary: ys)
  case Nil
  then show ?case by (cases ys) auto
next
  case (Cons x xs)
  then show ?case by (cases ys) auto
qed

lemma distinct_remdups_adj_sorted: "sorted xs \<Longrightarrow> distinct (remdups_adj xs)"
proof (induction xs rule: remdups_adj.induct)
  case (3 x y xs)
  then show ?case by (auto simp del: remdups_adj.simps(2) simp: remdups_adj.simps(3))
qed simp_all

lemma names_waypoint_split:
  "names_waypoint up i \<longleftrightarrow>
     (if dropWhile (\<lambda>c. c \<noteq> CHR ''/'') up \<noteq> []
      then id_ident i = takeWhile (\<lambda>c. c \<noteq> CHR ''/'') up \<and> id_icao_code i = tl (dropWhile (\<lambda>c. c \<noteq> CHR ''/'') up)
      else id_ident i = up)"
proof (cases "CHR ''/'' \<in> set up")
  case True
  then obtain pre post where up: "up = pre @ CHR ''/'' # post" "CHR ''/'' \<notin> set pre"
    by (meson split_list_first)
  then have "takeWhile (\<lambda>c. c \<noteq> CHR ''/'') up = pre" "dropWhile (\<lambda>c. c \<noteq> CHR ''/'') up = CHR ''/'' # post"
    by (auto simp: takeWhile_append dropWhile_append)
  moreover have "pre @ CHR ''/'' # post = id_ident i @ CHR ''/'' # id_icao_code i \<longleftrightarrow>
      pre = id_ident i \<and> post = id_icao_code i" if "CHR ''/'' \<notin> set (id_ident i)"
    by (rule split_at_first [OF up(2) that])
  ultimately show ?thesis using up by (auto simp: names_waypoint_def)
next
  case False
  then show ?thesis by (auto simp: names_waypoint_def dropWhile_eq_Nil_conv)
qed

lemma avoid_matches_set:
  assumes "indexed b"
  shows "set (avoid_matches b raw) =
    {v. 0 \<le> v \<and> v < gb_first_airport_vertex b \<and> names_waypoint (to_upper raw) (ident_of b v)}"
proof -
  have "region_of b v = id_icao_code (ident_of b v)" for v
    by (simp add: region_of_def ident_of_def fixed_ident_to_ident_def)
  then show ?thesis
    by (auto simp: avoid_matches_def Let_def vertices_by_ident_spec [OF assms] names_waypoint_split)
qed

lemma constraint_assembly_ok:
  assumes "build data = Inr b" and "small_data data"
  shows "case constraint_assembly_build request b mora of
      Inl e \<Rightarrow> err_code e = KRouteParseError \<and> 32 < length (rr_airway_rules request)
    | Inr assembled \<Rightarrow> length (rr_airway_rules request) \<le> 32 \<and>
        constraints_sound (length (gb_airway_names b)) (gb_graph b) (cb_options assembled) \<and>
        filters_ok (cb_options assembled) \<and>
        (\<forall>v. node_blocks (so_node_filter (cb_options assembled)) v \<longleftrightarrow> is_airport b v) \<and>
        sorted (cb_avoid_vertices assembled) \<and> distinct (cb_avoid_vertices assembled) \<and>
        set (cb_avoid_vertices assembled) = {v. 0 \<le> v \<and> v < gb_first_airport_vertex b \<and>
          (\<exists>raw \<in> set (rr_avoid_waypoints request). names_waypoint (to_upper raw) (ident_of b v))}"
proof -
  have ix: "indexed b" "0 \<le> gb_first_airport_vertex b" by (rule build_indexed [OF assms])+
  show ?thesis
  proof (cases "32 < length (rr_airway_rules request)")
    case True
    then show ?thesis by (auto simp: constraint_assembly_build_def max_rules_def)
  next
    case False
    then have le: "length (rr_airway_rules request) \<le> 32" by simp
    have set: "set (resolve_avoid_vertices b avoid) = (\<Union>raw \<in> set avoid. set (avoid_matches b raw))" for avoid
    proof -
      have "foldl (\<lambda>out raw. out @ avoid_matches b raw) out avoid = out @ concat (map (avoid_matches b) avoid)" for out
        by (induction avoid arbitrary: out) simp_all
      then show ?thesis by (simp add: resolve_avoid_vertices_def)
    qed
    show ?thesis
      using False le assembled_sound [OF le, of _ b mora]
      by (simp add: constraint_assembly_build_def max_rules_def set avoid_matches_set [OF ix(1)] filters_ok_def
          node_blocks_def is_airport_def ix(2) search_options_default_def)
        (simp add: resolve_avoid_vertices_def distinct_remdups_adj_sorted, blast)
  qed
qed

section \<open>Properties\<close>

text \<open>
  C33: The bit-mask tables decide exactly what the airway rules say: a rule hits a leg when the region of
  either end starts with one of its prefixes and some designator of the airway name matches; a hit
  by a blocking rule blocks the leg, otherwise the leg costs its length times the sum of the
  non-negative fractions of the rules that hit it. Synthetic DCT edges are never hit.
\<close>

theorem airway_rules_exact:
  assumes "length rules \<le> 32"
    and "context_fits (length (gb_airway_names b)) (vertex_count (gb_graph b)) ctx"
  shows "evaluate (AirwayRules (resolve_airway_rules b rules)) ctx request =
    (let hits = filter (rule_matches_leg b ctx) rules
     in if hits = [] then allow
        else if \<exists>r \<in> set hits. ar_action r = Block then block
        else penalize (ge_distance_nm (ctx_edge ctx) * (\<Sum>r \<leftarrow> hits. max 0 (ar_penalty_fraction r))))"
  by (rule resolved_rules_effect [OF assms])

text \<open>A leg of airway J60 within region ZB, and a rule that blocks J routes in Z.\<close>

definition rule_sample_builder :: graph_builder where
  "rule_sample_builder = graph_builder_empty
     \<lparr>gb_graph := \<lparr>ng_coords = [\<lparr>latitude = 40, longitude = 116\<rparr>, \<lparr>latitude = 41, longitude = 116\<rparr>],
        ng_offsets = [0, 0, 0], ng_edges = []\<rparr>,
      gb_idents := map (\<lambda>i. projr (fixed_ident_from_parts i ''ZB'')) [''AAA'', ''BBB''],
      gb_airway_names := [''DCT'', ''J60'']\<rparr>"

definition rule_sample_context :: edge_context where
  "rule_sample_context = \<lparr>ctx_edge = sample_edge 1 60 1, ctx_from_coord = \<lparr>latitude = 40, longitude = 116\<rparr>,
     ctx_to_coord = \<lparr>latitude = 41, longitude = 116\<rparr>, ctx_from = 0\<rparr>"

lemma airway_rules_exact_witness:
  "evaluate (AirwayRules (resolve_airway_rules rule_sample_builder
     [\<lparr>ar_region_prefixes = [''Z''], ar_designators = [''J''], ar_match = MatchPrefix, ar_action = Block, ar_penalty_fraction = 0\<rparr>]))
     rule_sample_context (route_request_default ''ZBAA'' ''ZSPD'') = block"
proof -
  let ?r = "\<lparr>ar_region_prefixes = [''Z''], ar_designators = [''J''], ar_match = MatchPrefix, ar_action = Block, ar_penalty_fraction = 0\<rparr> :: airway_rule"
  have fits: "context_fits (length (gb_airway_names rule_sample_builder)) (vertex_count (gb_graph rule_sample_builder)) rule_sample_context"
    by (simp add: context_fits_def rule_sample_context_def rule_sample_builder_def sample_edge_def edge_to_def vertex_count_def)
  have region: "region_of rule_sample_builder 0 = ''ZB''"
    using fixed_ident_from_parts_cases(1) [of "''AAA''" "''ZB''"]
    by (auto simp: region_of_def rule_sample_builder_def)
  have "split_designators ''J60'' = [''J60'']" by (rule split_designators_single) (simp add: is_designator_def)
  moreover have "airway_name rule_sample_builder 1 = ''J60''" by (simp add: airway_name_def rule_sample_builder_def)
  ultimately have "rule_matches_leg rule_sample_builder rule_sample_context ?r"
    by (simp add: rule_matches_leg_def region rule_sample_context_def sample_edge_def
        matches_any_prefix_iff matches_any_designator_iff starts_with_def)
  then show ?thesis
    using airway_rules_exact [OF _ fits, of "[?r]" "route_request_default ''ZBAA'' ''ZSPD''"] by simp
qed



end
