(* ===== verification/BuiltNetwork.thy ===== *)
theory BuiltNetwork
  imports NearestNetwork ConstraintAssemblyCorrect
begin

text \<open>
  What the query layer (\<^verbatim>\<open>io/build/procedure_connector.cc\<close>, \<^verbatim>\<open>io/navdb\<close>) relies on of the builder it is
  handed, as one invariant, and its proof for every builder \<open>Build\<close> returns.
\<close>

definition nearest_ok :: "graph_builder \<Rightarrow> bool" where
  "nearest_ok b \<longleftrightarrow>
     (\<forall>coord n inbound. distinct (nearest_on_network b coord n inbound) \<and>
        length (nearest_on_network b coord n inbound) \<le> nat n \<and>
        (\<forall>v \<in> set (nearest_on_network b coord n inbound). if inbound then has_inbound b v else has_outbound b v))"

definition network_ok :: "graph_builder \<Rightarrow> bool" where
  "network_ok b \<longleftrightarrow>
     graph_ok (gb_graph b) \<and> indexed b \<and> length (gb_idents b) = length (ng_coords (gb_graph b)) \<and>
     length (gb_has_inbound b) = length (gb_idents b) \<and> length (gb_has_outbound b) = length (gb_idents b) \<and>
     edges_metric (length (gb_airway_names b)) (gb_graph b) \<and>
     (\<forall>v. is_airport b v \<longrightarrow> \<not> on_network b v) \<and> nearest_ok b"

lemma built_nearest_ok:
  assumes "build data = Inr b" and "small_data data"
  shows "nearest_ok b"
  unfolding nearest_ok_def
proof (intro allI)
  fix coord n inbound
  let ?scan = "map (\<lambda>v. (distance_to coord (coord_of (gb_graph b) v), v))
      (filter (\<lambda>v. (if inbound then has_inbound b v else has_outbound b v) \<and> on_globe (coord_of (gb_graph b) v))
        [0 .. vertex_count (gb_graph b) - 1])"
  show "distinct (nearest_on_network b coord n inbound) \<and> length (nearest_on_network b coord n inbound) \<le> nat n \<and>
      (\<forall>v \<in> set (nearest_on_network b coord n inbound). if inbound then has_inbound b v else has_outbound b v)"
  proof (cases "on_globe coord \<and> 0 < n")
    case True
    then have n: "nearest_on_network b coord n inbound = take (nat n) (map snd (sort ?scan))"
      using built_nearest_scan [OF assms] by blast
    obtain xs where xs: "xs = map snd (sort ?scan)" by blast
    have "distinct (map snd ?scan)" by (simp add: o_def)
    moreover have "mset xs = mset (map snd ?scan)" unfolding xs by (simp only: mset_map mset_sort)
    ultimately have d: "distinct xs" using mset_eq_imp_distinct_iff by blast
    have "set xs = snd ` set ?scan" unfolding xs by (simp only: set_map set_sort)
    also have "snd ` set ?scan \<subseteq> {v. if inbound then has_inbound b v else has_outbound b v}"
      unfolding set_map image_image snd_conv image_ident by (simp only: set_filter) blast
    finally have p: "v \<in> set xs \<Longrightarrow> if inbound then has_inbound b v else has_outbound b v" for v by blast
    show ?thesis
      unfolding n xs [symmetric] using d p by (simp only: distinct_take length_take min.cobounded2) (meson in_set_takeD)
  next
    case False
    then have "nearest_on_network b coord n inbound = []" by (auto simp: nearest_on_network_def)
    then show ?thesis by simp
  qed
qed

lemma built_network_ok:
  assumes "build data = Inr b" and "small_data data"
  shows "network_ok b"
proof (rule build_wired [OF assms])
  fix b0 fs assume l: "loaded b0" and b: "b = wired b0 (nd_airways data)"
  have "length (gb_idents b) = length (ng_coords (gb_graph b))"
    using l by (simp add: b wired_sel loaded_def)
  moreover have "length (gb_has_inbound b) = length (gb_idents b)" "length (gb_has_outbound b) = length (gb_idents b)"
    using loaded_wiring(2) [OF l, of "nd_airways data"]
    by (simp_all add: b wired_sel inbound_flags_def outbound_flags_def inbound_rows)
  moreover have "\<not> on_network b v" if "is_airport b v" for v
  proof -
    have "0 \<le> gb_first_airport_vertex b" using build_indexed [OF assms] by (simp add: indexed_def)
    then have "is_vertex (gb_graph b) v" using that by (simp add: is_airport_def is_vertex_def)
    then show ?thesis by (rule airport_off_network [OF assms _ that])
  qed
  ultimately show ?thesis
    using wired_graph_ok [OF l, of "nd_airways data"] wired_edges_metric [OF l, of "nd_airways data"]
      build_indexed [OF assms] built_nearest_ok [OF assms]
    by (simp add: network_ok_def b [symmetric])
qed

lemma network_usable_vertex:
  assumes "network_ok b" and "has_inbound b v \<or> has_outbound b v"
  shows "is_vertex (gb_graph b) v" and "\<not> is_airport b v"
proof -
  show "is_vertex (gb_graph b) v"
    using assms by (auto simp: network_ok_def has_inbound_def has_outbound_def is_vertex_def vertex_count_def)
  show "\<not> is_airport b v" using assms by (auto simp: network_ok_def on_network_def)
qed

text \<open>What the lookups of a builder return is a waypoint vertex, when they return a vertex.\<close>

lemma first_or_none_mem: "0 \<le> first_or_none vs \<Longrightarrow> first_or_none vs \<in> set vs"
  by (cases vs) (simp_all add: first_or_none_def)

lemma network_by_ident:
  assumes "network_ok b" and "0 \<le> vertex_by_ident b i"
  shows "vertex_by_ident b i < gb_first_airport_vertex b \<and> ident_of b (vertex_by_ident b i) = i"
proof -
  have "indexed b" using assms(1) by (simp add: network_ok_def)
  from vertex_by_ident_spec [OF this, of i] first_or_none_mem assms(2)
  have "vertex_by_ident b i \<in> set (filter (\<lambda>v. ident_of b v = i) [0 .. gb_first_airport_vertex b - 1])"
    by metis
  then show ?thesis by simp
qed

text \<open>The lookups and vertices of the sample dataset's network.\<close>

lemma sample_network:
  assumes b: "build sample_data = Inr b"
  shows "gb_first_airport_vertex b = 2" "vertex_count (gb_graph b) = 3"
    "ident_of b 0 = \<lparr>id_ident = ''ABC'', id_icao_code = ''ED''\<rparr>"
    "ident_of b 1 = \<lparr>id_ident = ''DEF'', id_icao_code = ''ED''\<rparr>"
    "vertex_by_airport b ''EDDF'' = 2" "vertex_by_ident b \<lparr>id_ident = ''DEF'', id_icao_code = ''ED''\<rparr> = 1"
proof -
  have up: "[0 .. 2::int] = [0, 1, 2]" "[0 .. 1::int] = [0, 1]" by (simp_all add: upto.simps)
  have ix: "indexed b" by (rule build_indexed [OF b sample_data_ok(2)])
  have net: "network_ok b" by (rule built_network_ok [OF b sample_data_ok(2)])
  have v: "map (ident_of b) [0 .. vertex_count (gb_graph b) - 1] = data_idents sample_data"
    "ng_coords (gb_graph b) = map wp_coord (nd_waypoints sample_data) @ map ap_coord (nd_airports sample_data)"
    "gb_first_airport_vertex b = int (length (nd_waypoints sample_data))"
  proof (rule_tac [!] build_wired [OF b sample_data_ok(2)])
    fix b0 fs
    assume l: "b = wired b0 (nd_airways sample_data)" "b0 = vertices_loaded sample_data fs"
      "list_all2 (\<lambda>i f. fixed_ident_from_ident i = Inr f) (data_idents sample_data) fs"
    show "map (ident_of b) [0 .. vertex_count (gb_graph b) - 1] = data_idents sample_data"
      "ng_coords (gb_graph b) = map wp_coord (nd_waypoints sample_data) @ map ap_coord (nd_airports sample_data)"
      "gb_first_airport_vertex b = int (length (nd_waypoints sample_data))"
      by (rule build_vertices(1) [OF l] build_vertices(2) [OF l] build_vertices(3) [OF l])+
  qed
  show fa: "gb_first_airport_vertex b = 2" using v(3) by (simp add: sample_data_def)
  show n: "vertex_count (gb_graph b) = 3" by (simp add: vertex_count_def v(2) sample_data_def)
  have all: "ident_of b 0 = \<lparr>id_ident = ''ABC'', id_icao_code = ''ED''\<rparr>"
    "ident_of b 1 = \<lparr>id_ident = ''DEF'', id_icao_code = ''ED''\<rparr>" "id_ident (ident_of b 2) = ''EDDF''"
    using v(1) by (simp_all add: n up data_idents_def sample_data_def sample_fix_def)
  then show "ident_of b 0 = \<lparr>id_ident = ''ABC'', id_icao_code = ''ED''\<rparr>"
    "ident_of b 1 = \<lparr>id_ident = ''DEF'', id_icao_code = ''ED''\<rparr>" by simp_all
  have l: "int (length (gb_idents b)) = 3" using net n by (simp add: network_ok_def vertex_count_def)
  show "vertex_by_airport b ''EDDF'' = 2"
    by (simp add: vertex_by_airport_spec [OF ix] fa l upto.simps all first_or_none_def)
  show "vertex_by_ident b \<lparr>id_ident = ''DEF'', id_icao_code = ''ED''\<rparr> = 1"
    by (simp add: vertex_by_ident_spec [OF ix] fa up all first_or_none_def)
qed

end
