(* ===== verification/ProcedureCache.thy ===== *)
theory ProcedureCache
  imports NavDatabase BuiltNetwork
begin

text \<open>
  The on-demand procedure cache of \<^verbatim>\<open>NavDatabase::Impl::ProceduresFor\<close> under concurrent callers: the two
  critical sections of a call as steps of a system of threads, and what the cache never shows to a caller.
\<close>

section \<open>Threads\<close>

text \<open>The database, and for every thread inside a call the airport and the procedures it has parsed.\<close>

type_synonym cache_state = "nav_database \<times> (nat \<rightharpoonup> string \<times> route_cifp option)"

text \<open>A call that returns, with its argument.\<close>

type_synonym cache_answer = "string \<times> route_cifp option result"

inductive lookup_step :: "cache_state \<Rightarrow> cache_answer list \<Rightarrow> cache_state \<Rightarrow> bool" where
  at_once: "calls t = None \<Longrightarrow> lookup_begin db icao = Answered r \<Longrightarrow>
    lookup_step (db, calls) [(icao, r)] (db, calls)"
| parsed: "calls t = None \<Longrightarrow> lookup_begin db icao = Parsed stored \<Longrightarrow>
    lookup_step (db, calls) [] (db, calls(t \<mapsto> (icao, stored)))"
| stored: "calls t = Some (icao, stored) \<Longrightarrow> lookup_end db icao stored = (r, db') \<Longrightarrow>
    lookup_step (db, calls) [(icao, r)] (db', calls(t := None))"

inductive lookup_run :: "cache_state \<Rightarrow> cache_answer list \<Rightarrow> cache_state \<Rightarrow> bool" where
  start: "lookup_run s [] s"
| step: "lookup_run s answers s' \<Longrightarrow> lookup_step s' new s'' \<Longrightarrow> lookup_run s (answers @ new) s''"

inductive_cases lookup_stepE [consumes 1, case_names at_once parsed stored]: "lookup_step (db, calls) new (db', calls')"

section \<open>The cache shows what the source holds\<close>

definition known_airport :: "nav_database \<Rightarrow> string \<Rightarrow> bool" where
  "known_airport db icao \<longleftrightarrow> (\<exists>b. db_builder db = Some b \<and> 0 \<le> vertex_by_airport b icao)"

text \<open>The answer of a database without a cache.\<close>

definition procedures_of :: "nav_database \<Rightarrow> string \<Rightarrow> route_cifp option result" where
  "procedures_of db icao = (if known_airport db icao then fetch_procedures db icao else Inr None)"

definition cache_holds :: "nav_database \<Rightarrow> bool" where
  "cache_holds db \<longleftrightarrow> \<not> db_cifp_eager db \<and>
     (\<forall>icao stored. db_procedure_cache db icao = Some stored \<longrightarrow> known_airport db icao \<and> fetch_procedures db icao = Inr stored)"

text \<open>Two databases that differ in their caches only.\<close>

definition same_database :: "nav_database \<Rightarrow> nav_database \<Rightarrow> bool" where
  "same_database db db' \<longleftrightarrow> db' = db\<lparr>db_procedure_cache := db_procedure_cache db'\<rparr>"

lemma same_database_sel:
  assumes "same_database db db'"
  shows "db_builder db' = db_builder db" "db_mora db' = db_mora db" "db_cifp_eager db' = db_cifp_eager db"
    "fetch_procedures db' icao = fetch_procedures db icao" "known_airport db' icao = known_airport db icao"
    "procedures_of db' icao = procedures_of db icao"
proof -
  obtain c where db': "db' = db\<lparr>db_procedure_cache := c\<rparr>" using assms by (simp add: same_database_def)
  show "db_builder db' = db_builder db" "db_mora db' = db_mora db" "db_cifp_eager db' = db_cifp_eager db"
    "fetch_procedures db' icao = fetch_procedures db icao" "known_airport db' icao = known_airport db icao"
    "procedures_of db' icao = procedures_of db icao"
    by (auto simp: db' fetch_procedures_def known_airport_def procedures_of_def split: option.split)
qed

lemma same_database_refl [simp]: "same_database db db"
  by (simp add: same_database_def)

lemma same_database_trans: "same_database a b \<Longrightarrow> same_database b c \<Longrightarrow> same_database a c"
  by (cases a; cases b; cases c) (simp add: same_database_def)

lemma known_airport_name: "known_airport db icao \<Longrightarrow> has_value (fixed_name_from fixed_name8_cap icao)"
  by (auto simp: known_airport_def vertex_by_airport_def has_value_def split: sum.splits)

lemma lookup_begin_answered:
  assumes "cache_holds db" and "lookup_begin db icao = Answered r"
  shows "r = procedures_of db icao"
  using assms known_airport_name [of db icao]
  by (fastforce simp: lookup_begin_def cache_holds_def procedures_of_def known_airport_def
      split: option.splits if_splits sum.splits)

lemma lookup_begin_parsed:
  assumes "lookup_begin db icao = Parsed stored"
  shows "known_airport db icao" and "fetch_procedures db icao = Inr stored"
  using assms by (auto simp: lookup_begin_def known_airport_def split: option.splits if_splits sum.splits)

lemma lookup_end_holds:
  assumes "cache_holds db" "known_airport db icao" "fetch_procedures db icao = Inr stored"
    and "lookup_end db icao stored = (r, db')"
  shows "r = procedures_of db icao" and "same_database db db'" and "cache_holds db'"
    and "db_procedure_cache db \<subseteq>\<^sub>m db_procedure_cache db'"
proof -
  show "r = procedures_of db icao"
    using assms by (auto simp: lookup_end_def cache_holds_def procedures_of_def split: option.splits)
  show same: "same_database db db'"
    using assms(4) by (auto simp: lookup_end_def same_database_def split: option.splits)
  show "cache_holds db'"
    using assms same_database_sel [OF same]
    by (auto simp: lookup_end_def cache_holds_def split: option.splits if_splits)
  show "db_procedure_cache db \<subseteq>\<^sub>m db_procedure_cache db'"
    using assms(4) by (auto simp: lookup_end_def map_le_def split: option.splits)
qed

lemma procedures_for_holds:
  assumes "cache_holds db"
  shows "fst (procedures_for db icao) = procedures_of db icao" and "same_database db (snd (procedures_for db icao))"
    and "cache_holds (snd (procedures_for db icao))"
proof -
  have "fst (procedures_for db icao) = procedures_of db icao \<and> same_database db (snd (procedures_for db icao)) \<and>
      cache_holds (snd (procedures_for db icao))"
  proof (cases "lookup_begin db icao")
    case (Answered r)
    then show ?thesis using assms lookup_begin_answered [OF assms Answered] by (simp add: procedures_for_def)
  next
    case (Parsed stored)
    obtain r db' where e: "lookup_end db icao stored = (r, db')" by fastforce
    from lookup_end_holds [OF assms lookup_begin_parsed [OF Parsed] e] show ?thesis
      by (simp add: procedures_for_def Parsed e)
  qed
  then show "fst (procedures_for db icao) = procedures_of db icao" "same_database db (snd (procedures_for db icao))"
    "cache_holds (snd (procedures_for db icao))" by blast+
qed

section \<open>Every interleaving\<close>

definition calls_hold :: "cache_state \<Rightarrow> bool" where
  "calls_hold s \<longleftrightarrow> cache_holds (fst s) \<and>
     (\<forall>t icao stored. snd s t = Some (icao, stored) \<longrightarrow>
        known_airport (fst s) icao \<and> fetch_procedures (fst s) icao = Inr stored)"

lemma lookup_step_holds:
  assumes "lookup_step (db, calls) new (db', calls')" and "calls_hold (db, calls)"
  shows "calls_hold (db', calls')" and "same_database db db'"
    and "\<forall>(icao, r) \<in> set new. r = procedures_of db icao"
    and "db_procedure_cache db \<subseteq>\<^sub>m db_procedure_cache db'"
proof -
  have h: "cache_holds db" using assms(2) by (simp add: calls_hold_def)
  have "calls_hold (db', calls') \<and> same_database db db' \<and> (\<forall>(icao, r) \<in> set new. r = procedures_of db icao) \<and>
      db_procedure_cache db \<subseteq>\<^sub>m db_procedure_cache db'"
    using assms(1)
  proof (cases rule: lookup_stepE)
    case (at_once t icao r)
    then show ?thesis using assms(2) lookup_begin_answered [OF h] by simp
  next
    case (parsed t icao stored)
    then show ?thesis using assms(2) lookup_begin_parsed [of db icao stored] by (auto simp: calls_hold_def)
  next
    case (stored t icao stored r)
    have k: "known_airport db icao" "fetch_procedures db icao = Inr stored"
      using assms(2) stored by (auto simp: calls_hold_def)
    note e = lookup_end_holds [OF h k, of r db']
    have "calls_hold (db', calls')"
      using assms(2) stored e same_database_sel [of db db'] by (auto simp: calls_hold_def)
    then show ?thesis using stored e by simp
  qed
  then show "calls_hold (db', calls')" "same_database db db'" "\<forall>(icao, r) \<in> set new. r = procedures_of db icao"
    "db_procedure_cache db \<subseteq>\<^sub>m db_procedure_cache db'" by blast+
qed

lemma lookup_run_holds:
  assumes "lookup_run s answers s'" and "calls_hold s"
  shows "calls_hold s' \<and> same_database (fst s) (fst s') \<and>
    (\<forall>(icao, r) \<in> set answers. r = procedures_of (fst s) icao) \<and>
    db_procedure_cache (fst s) \<subseteq>\<^sub>m db_procedure_cache (fst s')"
  using assms
proof (induction rule: lookup_run.induct)
  case (step s answers s' new s'')
  obtain db calls db' calls' where s: "s' = (db, calls)" "s'' = (db', calls')" by fastforce
  have ih: "calls_hold (db, calls)" "same_database (fst s) db" "\<forall>(icao, r) \<in> set answers. r = procedures_of (fst s) icao"
    "db_procedure_cache (fst s) \<subseteq>\<^sub>m db_procedure_cache db"
    using step s by simp_all
  note n = lookup_step_holds [OF step.hyps(2) [unfolded s] ih(1)]
  have "\<forall>(icao, r) \<in> set new. r = procedures_of (fst s) icao"
    using n(3) same_database_sel(6) [OF ih(2)] by simp
  then show ?case
    using ih n same_database_trans [OF ih(2) n(2)] map_le_trans [OF ih(4) n(4)] by (auto simp: s)
qed (simp add: map_le_refl)

text \<open>An airport's vertex names it, so the known airports are no more than the airport vertices.\<close>

lemma known_airports_card:
  assumes b: "db_builder db = Some b" "network_ok b" and keys: "\<forall>icao \<in> A. known_airport db icao"
  shows "finite A" and "int (card A) \<le> vertex_count (gb_graph b) - gb_first_airport_vertex b"
proof -
  have ix: "indexed b" and len: "int (length (gb_idents b)) = vertex_count (gb_graph b)"
    using b(2) by (simp_all add: network_ok_def vertex_count_def)
  let ?V = "{gb_first_airport_vertex b ..< vertex_count (gb_graph b)}"
  have at: "vertex_by_airport b icao \<in> ?V \<and> id_ident (ident_of b (vertex_by_airport b icao)) = icao" if "icao \<in> A" for icao
  proof -
    have "0 \<le> vertex_by_airport b icao" using keys that b(1) by (auto simp: known_airport_def)
    from first_or_none_mem [OF this [unfolded vertex_by_airport_spec [OF ix]]]
    show ?thesis unfolding vertex_by_airport_spec [OF ix] by (simp add: len)
  qed
  have inj: "inj_on (vertex_by_airport b) A" by (rule inj_onI) (metis at)
  have sub: "vertex_by_airport b ` A \<subseteq> ?V" using at by blast
  show fin: "finite A" by (rule finite_imageD [OF finite_subset [OF sub] inj]) simp
  have "card A = card (vertex_by_airport b ` A)" by (rule card_image [OF inj, symmetric])
  also have "\<dots> \<le> card ?V" by (rule card_mono [OF _ sub]) simp
  finally show "int (card A) \<le> vertex_count (gb_graph b) - gb_first_airport_vertex b"
    using ix len by (simp add: indexed_def le_nat_iff)
qed

section \<open>The route query over the cache\<close>

lemma plan_side_holds:
  assumes "cache_holds db"
  shows "fst (plan_side db b request departure avoid) =
      (case plan_endpoint b request (if departure then rr_departure request else rr_arrival request) departure
          (procedures_of db) avoid of
         Inl e \<Rightarrow> Inl e
       | Inr p \<Rightarrow> (case endpoint_failure request departure p of Some e \<Rightarrow> Inl e | None \<Rightarrow> Inr p))"
    and "same_database db (snd (plan_side db b request departure avoid))"
    and "cache_holds (snd (plan_side db b request departure avoid))"
proof -
  have "(\<lambda>icao. fst (procedures_for db icao)) = procedures_of db" using procedures_for_holds(1) [OF assms] by blast
  then show "fst (plan_side db b request departure avoid) =
      (case plan_endpoint b request (if departure then rr_departure request else rr_arrival request) departure
          (procedures_of db) avoid of
         Inl e \<Rightarrow> Inl e
       | Inr p \<Rightarrow> (case endpoint_failure request departure p of Some e \<Rightarrow> Inl e | None \<Rightarrow> Inr p))"
    by (simp add: plan_side_def Let_def)
  show "same_database db (snd (plan_side db b request departure avoid))"
    "cache_holds (snd (plan_side db b request departure avoid))"
    using procedures_for_holds(2,3) [OF assms] assms by (simp_all add: plan_side_def Let_def)
qed

lemma find_routes_same:
  assumes h: "cache_holds db" "cache_holds db'" and s: "same_database db db'"
  shows "fst (find_routes db' request) = fst (find_routes db request)"
proof (cases "db_builder db")
  case None
  then show ?thesis using same_database_sel(1) [OF s] by (simp add: find_routes_def)
next
  case (Some b)
  then have b': "db_builder db' = Some b" using same_database_sel(1) [OF s] by simp
  show ?thesis
  proof (cases "constraint_assembly_build request b (db_mora db)")
    case (Inl e)
    then show ?thesis using Some b' same_database_sel(2) [OF s] by (simp add: find_routes_def)
  next
    case (Inr c)
    let ?avoid = "cb_avoid_vertices c"
    have procs: "procedures_of db' = procedures_of db" using same_database_sel(6) [OF s] by blast
    obtain r1 d1 r1' d1' where p: "plan_side db b request True ?avoid = (r1, d1)" "plan_side db' b request True ?avoid = (r1', d1')"
      by fastforce
    have eq1: "r1' = r1" using plan_side_holds(1) [OF h(1)] plan_side_holds(1) [OF h(2)] p procs by (metis fst_conv)
    have d: "cache_holds d1" "same_database db d1" "cache_holds d1'" "same_database db' d1'"
      using plan_side_holds(2,3) [OF h(1), of b request True ?avoid] plan_side_holds(2,3) [OF h(2), of b request True ?avoid] p by simp_all
    have procs1: "procedures_of d1' = procedures_of d1"
      using procs same_database_sel(6) [OF d(2)] same_database_sel(6) [OF d(4)] by auto
    obtain r2 d2 r2' d2' where q: "plan_side d1 b request False ?avoid = (r2, d2)" "plan_side d1' b request False ?avoid = (r2', d2')"
      by fastforce
    have eq2: "r2' = r2" using plan_side_holds(1) [OF d(1)] plan_side_holds(1) [OF d(3)] q procs1 by (metis fst_conv)
    show ?thesis
      using Some b' Inr p q eq1 eq2 same_database_sel(2) [OF s]
      by (simp add: find_routes_def split: sum.split)
  qed
qed

section \<open>Properties\<close>

text \<open>
  C6: The procedure cache is invisible and bounded. However any number of threads interleave their calls on a
  freshly opened database, each call answers what the archive or loader holds for its airport (an error included,
  nothing for an unknown airport), two calls that race on one airport agree, no entry is ever replaced, and the
  cache never has more entries than the database has airports.
\<close>

theorem procedure_cache_invisible:
  assumes "build data = Inr b" and "small_data data" and "db_builder db = Some b"
    and "\<not> db_cifp_eager db" and "db_procedure_cache db = Map.empty"
    and "lookup_run (db, Map.empty) answers (db', calls')" and "lookup_run (db', calls') more_answers (db'', calls'')"
  shows "(\<forall>(icao, r) \<in> set (answers @ more_answers).
      r = (if 0 \<le> vertex_by_airport b icao then fetch_procedures db icao else Inr None)) \<and>
    db_procedure_cache db' \<subseteq>\<^sub>m db_procedure_cache db'' \<and>
    int (card (dom (db_procedure_cache db''))) \<le> vertex_count (gb_graph b) - gb_first_airport_vertex b"
proof (intro conjI)
  have "calls_hold (db, Map.empty)" using assms(4,5) by (simp add: calls_hold_def cache_holds_def)
  from lookup_run_holds [OF assms(6) this]
  have one: "calls_hold (db', calls')" "same_database db db'" "\<forall>(icao, r) \<in> set answers. r = procedures_of db icao" by simp_all
  from lookup_run_holds [OF assms(7) one(1)]
  have two: "calls_hold (db'', calls'')" "same_database db' db''" "\<forall>(icao, r) \<in> set more_answers. r = procedures_of db' icao"
    "db_procedure_cache db' \<subseteq>\<^sub>m db_procedure_cache db''" by simp_all
  show "\<forall>(icao, r) \<in> set (answers @ more_answers).
      r = (if 0 \<le> vertex_by_airport b icao then fetch_procedures db icao else Inr None)"
    using one(3) two(3) same_database_sel(6) [OF one(2)] by (auto simp: procedures_of_def known_airport_def assms(3))
  show "db_procedure_cache db' \<subseteq>\<^sub>m db_procedure_cache db''" by (rule two(4))
  have "db_builder db'' = Some b" using same_database_sel(1) [OF one(2)] same_database_sel(1) [OF two(2)] assms(3) by simp
  from known_airports_card(2) [OF this built_network_ok [OF assms(1,2)], of "dom (db_procedure_cache db'')"] two(1)
  show "int (card (dom (db_procedure_cache db''))) \<le> vertex_count (gb_graph b) - gb_first_airport_vertex b"
    by (auto simp: calls_hold_def cache_holds_def)
qed

text \<open>Two threads race on an airport the source has no procedures for; both answers are stored once.\<close>

definition sample_database :: "graph_builder \<Rightarrow> nav_database" where
  "sample_database b =
     \<lparr>db_builder = Some b, db_mora = mora_grid_empty, db_loader = Some (\<lambda>_ _. Inr None), db_source_dir = ''nav'',
      db_cifp_archive = None, db_cifp_eager = False, db_procedure_cache = Map.empty\<rparr>"

lemma sample_race:
  assumes b: "build sample_data = Inr b"
  obtains db' calls' db'' calls'' where
    "lookup_run (sample_database b, Map.empty) [(''EDDF'', Inr None)] (db', calls')"
    "lookup_run (db', calls') [(''EDDF'', Inr None)] (db'', calls'')" "db_procedure_cache db'' = [''EDDF'' \<mapsto> None]"
proof -
  let ?db = "sample_database b" and ?calls = "[0 \<mapsto> (''EDDF'', None), 1 \<mapsto> (''EDDF'', None)] :: nat \<rightharpoonup> string \<times> route_cifp option"
  let ?db' = "?db\<lparr>db_procedure_cache := [''EDDF'' \<mapsto> None]\<rparr>"
  have apt: "vertex_by_airport b ''EDDF'' = 2" by (rule sample_network(5) [OF b])
  have name: "has_value (fixed_name_from fixed_name8_cap ''EDDF'')"
    by (rule known_airport_name [of ?db]) (simp add: known_airport_def sample_database_def apt)
  have start: "lookup_begin ?db ''EDDF'' = Parsed None"
    using name by (simp add: lookup_begin_def sample_database_def apt fetch_procedures_def)
  have end1: "lookup_end ?db ''EDDF'' None = (Inr None, ?db')" by (simp add: lookup_end_def sample_database_def)
  have end2: "lookup_end ?db' ''EDDF'' None = (Inr None, ?db')" by (simp add: lookup_end_def)
  have one: "lookup_step (?db, Map.empty) [] (?db, [0 \<mapsto> (''EDDF'', None)])"
    by (rule lookup_step.parsed [OF _ start]) simp
  have two: "lookup_step (?db, [0 \<mapsto> (''EDDF'', None)]) [] (?db, ?calls)"
    using lookup_step.parsed [of "[0 \<mapsto> (''EDDF'', None)]" 1, OF _ start] by simp
  have three: "lookup_step (?db, ?calls) [(''EDDF'', Inr None)] (?db', ?calls(0 := None))"
    by (rule lookup_step.stored [OF _ end1]) simp
  have four: "lookup_step (?db', ?calls(0 := None)) [(''EDDF'', Inr None)] (?db', (?calls(0 := None))(1 := None))"
    by (rule lookup_step.stored [OF _ end2]) simp
  note lookup_run.step [OF lookup_run.step [OF lookup_run.step [OF lookup_run.start one] two] three, simplified]
    lookup_run.step [OF lookup_run.start four, simplified]
  then show ?thesis by (rule that) simp
qed

lemma procedure_cache_invisible_witness:
  "\<exists>b db'' calls''. build sample_data = Inr b \<and>
     lookup_run (sample_database b, Map.empty) [(''EDDF'', Inr None), (''EDDF'', Inr None)] (db'', calls'') \<and>
     int (card (dom (db_procedure_cache db''))) \<le> vertex_count (gb_graph b) - gb_first_airport_vertex b"
proof (rule sample_built)
  fix b assume b: "build sample_data = Inr b"
  obtain db' calls' db'' calls'' where run: "lookup_run (sample_database b, Map.empty) [(''EDDF'', Inr None)] (db', calls')"
    "lookup_run (db', calls') [(''EDDF'', Inr None)] (db'', calls'')" by (rule sample_race [OF b])
  have "lookup_run s2 bs s3 \<Longrightarrow> lookup_run s1 as s2 \<Longrightarrow> lookup_run s1 (as @ bs) s3" for s1 s2 s3 as bs
    by (induction rule: lookup_run.induct) (auto simp: append_assoc [symmetric] simp del: append_assoc intro: lookup_run.step)
  from this [OF run(2,1)] have "lookup_run (sample_database b, Map.empty) [(''EDDF'', Inr None), (''EDDF'', Inr None)] (db'', calls'')"
    by simp
  then show ?thesis
    using procedure_cache_invisible [OF b sample_data_ok(2) _ _ _ run] b by (auto simp: sample_database_def)
qed

text \<open>
  C7: A route query does not see the cache: whatever calls have interleaved on a freshly opened database, and
  whichever of their entries it finds stored, \<open>FindRoutes\<close> answers exactly as on the database just opened.
\<close>

theorem route_query_ignores_cache:
  assumes "\<not> db_cifp_eager db" and "db_procedure_cache db = Map.empty"
    and "lookup_run (db, Map.empty) answers (db', calls')"
  shows "fst (find_routes db' request) = fst (find_routes db request)"
proof -
  have h: "cache_holds db" using assms(1,2) by (simp add: cache_holds_def)
  then have "calls_hold (db, Map.empty)" by (simp add: calls_hold_def)
  from lookup_run_holds [OF assms(3) this] show ?thesis
    by (intro find_routes_same [OF h]) (simp_all add: calls_hold_def)
qed

lemma route_query_ignores_cache_witness:
  "\<exists>b db'. build sample_data = Inr b \<and> db_procedure_cache db' \<noteq> Map.empty \<and>
     fst (find_routes db' (route_request_default ''eddf'' ''abc'')) =
     fst (find_routes (sample_database b) (route_request_default ''eddf'' ''abc''))"
proof (rule sample_built)
  fix b assume b: "build sample_data = Inr b"
  let ?db = "sample_database b" and ?db' = "(sample_database b)\<lparr>db_procedure_cache := [''EDDF'' \<mapsto> None]\<rparr>"
  have apt: "vertex_by_airport b ''EDDF'' = 2" by (rule sample_network(5) [OF b])
  have name: "has_value (fixed_name_from fixed_name8_cap ''EDDF'')"
    by (rule known_airport_name [of ?db]) (simp add: known_airport_def sample_database_def apt)
  have "lookup_begin ?db ''EDDF'' = Parsed None"
    using name by (simp add: lookup_begin_def sample_database_def apt fetch_procedures_def)
  from lookup_step.parsed [OF _ this, of Map.empty 0]
  have one: "lookup_step (?db, Map.empty) [] (?db, [0 \<mapsto> (''EDDF'', None)])" by simp
  have two: "lookup_step (?db, [0 \<mapsto> (''EDDF'', None)]) [(''EDDF'', Inr None)] (?db', Map.empty)"
    using lookup_step.stored [of "[0 \<mapsto> (''EDDF'', None)]" 0 "''EDDF''" None ?db "Inr None" ?db']
    by (simp add: lookup_end_def sample_database_def)
  from lookup_run.step [OF lookup_run.step [OF lookup_run.start one] two]
  have "fst (find_routes ?db' (route_request_default ''eddf'' ''abc'')) = fst (find_routes ?db (route_request_default ''eddf'' ''abc''))"
    by (intro route_query_ignores_cache) (simp_all add: sample_database_def)
  then show ?thesis using b by (intro exI [of _ b] exI [of _ ?db']) simp
qed

end
