(* ===== verification/ForcedPoint.thy ===== *)
theory ForcedPoint
  imports ForcedRouter BuiltNetwork
begin

text \<open>
  How \<open>ForcedRouter::ResolvePoint\<close> (\<^verbatim>\<open>io/navdb/forced_router.cc\<close>) disambiguates a forced point.
\<close>

definition point_detour :: "graph_builder \<Rightarrow> point \<Rightarrow> point \<Rightarrow> int \<Rightarrow> real" where
  "point_detour b from to v =
     distance_to from (coord_of (gb_graph b) v) + distance_to (coord_of (gb_graph b) v) to"

text \<open>The order of preference: tier, then detour, then the vertex index.\<close>

definition point_key :: "graph_builder \<Rightarrow> point \<Rightarrow> point \<Rightarrow> int \<Rightarrow> nat \<times> real \<times> int" where
  "point_key b from to v = (point_tier b v, point_detour b from to v, v)"

lemma point_fold:
  assumes "sorted_wrt (<) vs" and "\<forall>v \<in> set vs. 0 \<le> v \<and> \<not> is_airport b v"
  shows "case foldl (point_step b from to) (- 1, 0, 0, False) vs of (best, best_tier, best_detour, saw_airport) \<Rightarrow>
    \<not> saw_airport \<and> (if vs = [] then best = - 1
     else best \<in> set vs \<and> best_tier = point_tier b best \<and> best_detour = point_detour b from to best \<and>
       (\<forall>u \<in> set vs. point_key b from to best \<le> point_key b from to u))"
  using assms
proof (induction vs rule: rev_induct)
  case (snoc v vs)
  obtain best best_tier best_detour saw where s: "foldl (point_step b from to) (- 1, 0, 0, False) vs = (best, best_tier, best_detour, saw)"
    by (metis prod_cases4)
  have v: "\<not> is_airport b v" "0 \<le> v" "\<forall>u \<in> set vs. u < v" using snoc.prems by (auto simp: sorted_wrt_append)
  have ih: "\<not> saw" "if vs = [] then best = - 1
     else best \<in> set vs \<and> best_tier = point_tier b best \<and> best_detour = point_detour b from to best \<and>
       (\<forall>u \<in> set vs. point_key b from to best \<le> point_key b from to u)"
    using snoc by (simp_all add: s sorted_wrt_append)
  have step: "foldl (point_step b from to) (- 1, 0, 0, False) (vs @ [v]) =
      (if best < 0 \<or> point_tier b v < best_tier \<or> point_tier b v = best_tier \<and> point_detour b from to v < best_detour
       then (v, point_tier b v, point_detour b from to v, saw) else (best, best_tier, best_detour, saw))"
  proof -
    have "point_step b from to (best, best_tier, best_detour, saw) v =
      (if best < 0 \<or> point_tier b v < best_tier \<or> point_tier b v = best_tier \<and> point_detour b from to v < best_detour
       then (v, point_tier b v, point_detour b from to v, saw) else (best, best_tier, best_detour, saw))"
      using v(1) by (simp add: point_step_def Let_def point_detour_def)
    then show ?thesis by (simp add: s)
  qed
  show ?case
  proof (cases "vs = []")
    case True
    then show ?thesis unfolding step using ih by simp
  next
    case False
    then have best: "best \<in> set vs" "best_tier = point_tier b best" "best_detour = point_detour b from to best"
      "\<forall>u \<in> set vs. point_key b from to best \<le> point_key b from to u" using ih by simp_all
    have nonneg: "0 \<le> best" "best < v" using best(1) snoc.prems v(3) by auto
    show ?thesis
    proof (cases "point_tier b v < best_tier \<or> point_tier b v = best_tier \<and> point_detour b from to v < best_detour")
      case True
      then have "point_key b from to v \<le> point_key b from to best"
        using best(2,3) by (auto simp: point_key_def less_eq_prod_def less_prod_def)
      then have "\<forall>u \<in> set vs. point_key b from to v \<le> point_key b from to u" using best(4) order_trans by blast
      then show ?thesis unfolding step using True ih(1) by simp
    next
      case no: False
      then have "point_key b from to best \<le> point_key b from to v"
        using best(2,3) nonneg(2) by (auto simp: point_key_def less_eq_prod_def less_prod_def)
      moreover have "\<not> (best < 0 \<or> point_tier b v < best_tier \<or>
          point_tier b v = best_tier \<and> point_detour b from to v < best_detour)" using no nonneg(1) by simp
      ultimately show ?thesis unfolding step if_not_P [OF \<open>\<not> (best < 0 \<or> point_tier b v < best_tier \<or>
          point_tier b v = best_tier \<and> point_detour b from to v < best_detour)\<close>] using ih(1) best by simp
    qed
  qed
qed simp

lemma resolve_point_ok:
  assumes "build data = Inr b" and "small_data data"
  shows "let p = resolve_point b token from to; up = to_upper token; matches = vertices_by_ident b up in
    \<not> rp_is_airport p \<and>
    (rp_vertex p = - 1 \<or> 0 \<le> rp_vertex p \<and> \<not> is_airport b (rp_vertex p) \<and>
       rp_echo p = point_echo (ident_of b (rp_vertex p))) \<and>
    (if CHR ''/'' \<in> set up
     then rp_vertex p \<noteq> - 1 \<longrightarrow> point_echo (ident_of b (rp_vertex p)) = up
     else if matches = [] then rp_vertex p = - 1
     else rp_vertex p \<in> set matches \<and> (\<forall>u \<in> set matches. point_key b from to (rp_vertex p) \<le> point_key b from to u))"
proof -
  have net: "network_ok b" by (rule built_network_ok [OF assms])
  then have ix: "indexed b" by (simp add: network_ok_def)
  let ?up = "to_upper token" and ?ms = "vertices_by_ident b (to_upper token)"
  have ms: "?ms = filter (\<lambda>v. id_ident (ident_of b v) = ?up) [0 .. gb_first_airport_vertex b - 1]"
    by (rule vertices_by_ident_spec [OF ix])
  show ?thesis
  proof (cases "CHR ''/'' \<in> set ?up")
    case True
    let ?i = "\<lparr>id_ident = takeWhile (\<lambda>c. c \<noteq> CHR ''/'') ?up, id_icao_code = tl (dropWhile (\<lambda>c. c \<noteq> CHR ''/'') ?up)\<rparr>"
    let ?v = "vertex_by_ident b ?i"
    have neg: "?v = - 1" if "?v < 0"
    proof -
      let ?vs = "filter (\<lambda>v. ident_of b v = ?i) [0 .. gb_first_airport_vertex b - 1]"
      have "?v = - 1 \<or> ?v \<in> set ?vs"
        unfolding vertex_by_ident_spec [OF ix, of ?i] first_or_none_def by (cases ?vs) auto
      then show ?thesis using that by auto
    qed
    have "takeWhile (\<lambda>c. c \<noteq> x) xs @ x # tl (dropWhile (\<lambda>c. c \<noteq> x) xs) = xs" if "x \<in> set xs" for x and xs :: string
      using that by (induction xs) auto
    from this [OF True]
    have "takeWhile (\<lambda>c. c \<noteq> CHR ''/'') ?up @ CHR ''/'' # tl (dropWhile (\<lambda>c. c \<noteq> CHR ''/'') ?up) = ?up" .
    then have echo: "point_echo ?i = ?up" by (simp add: point_echo_def)
    show ?thesis
    proof (cases "?v < 0")
      case neg': True
      then show ?thesis using True neg by (simp add: resolve_point_def Let_def)
    next
      case False
      then have "?v < gb_first_airport_vertex b" "ident_of b ?v = ?i" using network_by_ident [OF net, of ?i] by auto
      moreover from this have "\<not> is_airport b ?v" by (simp add: is_airport_def)
      ultimately have "resolve_point b token from to = \<lparr>rp_vertex = ?v, rp_echo = point_echo ?i, rp_is_airport = False\<rparr>"
        using True False unfolding resolve_point_def Let_def by (simp only: if_True if_False)
      then show ?thesis
        using True False echo \<open>ident_of b ?v = ?i\<close> \<open>\<not> is_airport b ?v\<close> unfolding Let_def by (simp only: if_True resolved_point.select_convs) auto
    qed
  next
    case False
    have sorted: "sorted_wrt (<) ?ms" unfolding ms by (simp add: sorted_wrt_filter sorted_wrt_upto)
    have ok: "\<forall>v \<in> set ?ms. 0 \<le> v \<and> \<not> is_airport b v" unfolding ms by (auto simp: is_airport_def)
    obtain best best_tier best_detour saw where s: "foldl (point_step b from to) (- 1, 0, 0, False) ?ms = (best, best_tier, best_detour, saw)"
      by (metis prod_cases4)
    have p: "resolve_point b token from to =
        (if best < 0 then \<lparr>rp_vertex = - 1, rp_echo = [], rp_is_airport = saw\<rparr>
         else \<lparr>rp_vertex = best, rp_echo = point_echo (ident_of b best), rp_is_airport = False\<rparr>)"
      using False by (simp add: resolve_point_def Let_def s)
    from point_fold [OF sorted ok, of "from" to]
    have f: "\<not> saw" "if ?ms = [] then best = - 1 else best \<in> set ?ms \<and>
        (\<forall>u \<in> set ?ms. point_key b from to best \<le> point_key b from to u)"
      by (simp_all add: s split: if_splits)
    show ?thesis
    proof (cases "?ms = []")
      case True
      then show ?thesis using f False by (simp add: p Let_def)
    next
      case ne: False
      then have "best \<in> set ?ms" "\<forall>u \<in> set ?ms. point_key b from to best \<le> point_key b from to u" using f by simp_all
      then show ?thesis using ok False ne by (auto simp: p Let_def)
    qed
  qed
qed

section \<open>Properties\<close>



end
