(* ===== verification/BestFirst.thy ===== *)
theory BestFirst
  imports ForcedRouter
begin

text \<open>
  The best-first enumeration of \<open>FindPaths\<close> (\<^verbatim>\<open>io/navdb/forced_router.cc\<close>): every combination is generated
  once, the routes come out in ascending order of cost, and while the budget lasts no combination that was
  left out is cheaper than one that was returned.
\<close>

section \<open>Combinations\<close>

definition picks :: "shortest_path list list \<Rightarrow> nat list set" where
  "picks segments = {p. length p = length segments \<and> (\<forall>h < length segments. p ! h < length (segments ! h))}"

text \<open>The combinations reached from \<open>pick\<close> by advancing hops from \<open>l\<close> on.\<close>

definition under :: "shortest_path list list \<Rightarrow> nat list \<Rightarrow> nat \<Rightarrow> nat list set" where
  "under segments pick l =
     {q \<in> picks segments. (\<forall>h < l. q ! h = pick ! h) \<and> (\<forall>h < length segments. pick ! h \<le> q ! h)}"

lemma finite_picks [simp]: "finite (picks segments)"
proof (rule finite_subset)
  let ?m = "Max (insert 0 (length ` set segments))"
  show "picks segments \<subseteq> {p. set p \<subseteq> {..<?m} \<and> length p = length segments}"
  proof
    fix p assume p: "p \<in> picks segments"
    have "x < ?m" if "x \<in> set p" for x
    proof -
      from that obtain h where h: "h < length segments" "x = p ! h" using p by (auto simp: picks_def in_set_conv_nth)
      then have "x < length (segments ! h)" using p by (simp add: picks_def)
      also have "\<dots> \<le> ?m" using h(1) by (intro Max_ge) auto
      finally show ?thesis .
    qed
    then show "p \<in> {p. set p \<subseteq> {..<?m} \<and> length p = length segments}" using p by (auto simp: picks_def)
  qed
qed (simp add: finite_lists_length_eq)

lemma under_self: "pick \<in> picks segments \<Longrightarrow> pick \<in> under segments pick l"
  by (simp add: under_def)

lemma under_last:
  assumes "pick \<in> picks segments"
  shows "under segments pick (length segments) = {pick}"
  using assms by (auto simp: under_def picks_def intro: nth_equalityI)

definition can_advance :: "shortest_path list list \<Rightarrow> nat list \<Rightarrow> nat \<Rightarrow> bool" where
  "can_advance segments pick h \<longleftrightarrow> Suc (pick ! h) < length (segments ! h)"

definition advance :: "nat list \<Rightarrow> nat \<Rightarrow> nat list" where
  "advance pick h = pick[h := Suc (pick ! h)]"

lemma advance_pick:
  "pick \<in> picks segments \<Longrightarrow> h < length segments \<Longrightarrow> can_advance segments pick h \<Longrightarrow> advance pick h \<in> picks segments"
  by (auto simp: picks_def can_advance_def advance_def nth_list_update)

lemma under_step:
  assumes p: "pick \<in> picks segments" and l: "l < length segments"
  shows "q \<in> under segments pick l \<longleftrightarrow> q \<in> under segments pick (Suc l) \<or>
      can_advance segments pick l \<and> q \<in> under segments (advance pick l) l"
    and "\<not> (q \<in> under segments pick (Suc l) \<and> q \<in> under segments (advance pick l) l)"
proof -
  have lp: "l < length pick" using p l by (simp add: picks_def)
  show "\<not> (q \<in> under segments pick (Suc l) \<and> q \<in> under segments (advance pick l) l)"
    using l lp by (auto simp: under_def advance_def nth_list_update dest!: spec [of _ l])
  show "q \<in> under segments pick l \<longleftrightarrow> q \<in> under segments pick (Suc l) \<or>
      can_advance segments pick l \<and> q \<in> under segments (advance pick l) l"
  proof (cases "q \<in> picks segments \<and> q ! l \<noteq> pick ! l")
    case True
    then have q: "q ! l < length (segments ! l)" using l by (simp add: picks_def)
    have "q \<in> under segments pick l \<longleftrightarrow> can_advance segments pick l \<and> q \<in> under segments (advance pick l) l"
      using True q l lp unfolding under_def can_advance_def advance_def
      by (auto simp: nth_list_update)
    then show ?thesis using True by (auto simp: under_def)
  next
    case False
    have "\<not> q \<in> under segments (advance pick l) l"
      using False l lp by (auto simp: under_def advance_def nth_list_update)
    then show ?thesis using False by (auto simp: under_def less_Suc_eq)
  qed
qed

text \<open>Exploring a combination replaces it by its successors: each combination below it is below exactly one.\<close>

lemma under_successors:
  assumes p: "pick \<in> picks segments" and l: "l \<le> length segments"
  shows "sum_list (map (\<lambda>h. of_bool (can_advance segments pick h \<and> q \<in> under segments (advance pick h) h))
      [l..<length segments]) + of_bool (q = pick) = (of_bool (q \<in> under segments pick l) :: nat)"
  using l
proof (induction l rule: inc_induct)
  case base
  show ?case using under_last [OF p] by simp
next
  case (step l)
  have "[l..<length segments] = l # [Suc l..<length segments]" using step.hyps(2) by (rule upt_conv_Cons)
  then show ?case using step.IH under_step [OF p step.hyps(2), of q] by auto
qed

lemma lower_of_mono:
  assumes q: "q \<in> under segments pick l" and s: "\<forall>seg \<in> set segments. sorted (map sp_cost seg)"
  shows "lower_of segments pick \<le> lower_of segments q"
proof -
  have fold: "foldl (\<lambda>s h. s + f h) a hs \<le> foldl (\<lambda>s h. s + g h) a' hs"
    if "a \<le> a'" "\<forall>h \<in> set hs. f h \<le> g h" for f g :: "nat \<Rightarrow> cost" and a a' hs
    using that by (induction hs arbitrary: a a') (simp_all add: cost_add_mono)
  have "sp_cost (segments ! h ! (pick ! h)) \<le> sp_cost (segments ! h ! (q ! h))" if h: "h < length segments" for h
  proof -
    have "pick ! h \<le> q ! h" "q ! h < length (segments ! h)" using q h by (auto simp: under_def picks_def)
    moreover have "sorted (map sp_cost (segments ! h))" using s h by simp
    ultimately show ?thesis using sorted_nth_mono [of "map sp_cost (segments ! h)" "pick ! h" "q ! h"] by simp
  qed
  then show ?thesis unfolding lower_of_def by (intro fold) simp_all
qed

section \<open>The frontier\<close>

definition child :: "shortest_path list list \<Rightarrow> pick_item \<Rightarrow> nat \<Rightarrow> pick_item" where
  "child segments item h =
     \<lparr>pi_lower = lower_of segments (advance (pi_pick item) h), pi_pick = advance (pi_pick item) h, pi_last = h\<rparr>"

lemma expand_all:
  assumes "heap_ordered pi_lower frontier"
  shows "heap_ordered pi_lower (foldl (expand_hop segments item) frontier hs) \<and>
    mset (foldl (expand_hop segments item) frontier hs) =
      mset frontier + mset (map (child segments item) (filter (can_advance segments (pi_pick item)) hs))"
  using assms
proof (induction hs arbitrary: frontier)
  case (Cons h hs)
  have "expand_hop segments item frontier h =
      (if can_advance segments (pi_pick item) h then heap_push pi_lower frontier (child segments item h) else frontier)"
    by (simp add: expand_hop_def can_advance_def child_def advance_def Let_def)
  then show ?case
    using Cons.IH [of "expand_hop segments item frontier h"] Cons.prems
      heap_push_ok [OF Cons.prems, of "child segments item h"] by (auto split: if_splits)
qed simp

definition item_ok :: "shortest_path list list \<Rightarrow> pick_item \<Rightarrow> bool" where
  "item_ok segments i \<longleftrightarrow>
     pi_pick i \<in> picks segments \<and> pi_last i \<le> length segments \<and> pi_lower i = lower_of segments (pi_pick i)"

text \<open>How many frontier items a combination is below.\<close>

definition covers :: "shortest_path list list \<Rightarrow> pick_item list \<Rightarrow> nat list \<Rightarrow> nat" where
  "covers segments frontier q =
     size {#i \<in># mset frontier. q \<in> under segments (pi_pick i) (pi_last i)#}"

lemma covers_children:
  "size {#i \<in># mset (map (child segments item) (filter (can_advance segments (pi_pick item)) hs)).
      q \<in> under segments (pi_pick i) (pi_last i)#} =
   sum_list (map (\<lambda>h. of_bool (can_advance segments (pi_pick item) h \<and>
      q \<in> under segments (advance (pi_pick item) h) h)) hs)"
  by (induction hs) (auto simp: child_def)

section \<open>The invariant of the loop\<close>

definition stock :: "(nat list \<Rightarrow> shortest_path) \<Rightarrow> nat list set \<Rightarrow> shortest_path multiset" where
  "stock stitch E = image_mset stitch {#p \<in># mset_set E. sp_found (stitch p)#}"

definition merge_inv ::
  "(nat list \<Rightarrow> shortest_path) \<Rightarrow> shortest_path list list \<Rightarrow> int \<Rightarrow> nat list set \<Rightarrow> merge_state \<Rightarrow> bool" where
  "merge_inv stitch segments k E st \<longleftrightarrow>
     E \<subseteq> picks segments \<and> ms_explored st = card E \<and> card E \<le> max_stitched_picks \<and>
     heap_ordered pi_lower (ms_frontier st) \<and> heap_ordered route_key (ms_ready st) \<and>
     (\<forall>i \<in> set (ms_frontier st). item_ok segments i) \<and>
     (\<forall>q. covers segments (ms_frontier st) q + of_bool (q \<in> E) = of_bool (q \<in> picks segments)) \<and>
     mset (ms_results st) + mset (ms_ready st) = stock stitch E \<and>
     length (ms_results st) \<le> nat k \<and> sorted (map sp_cost (ms_results st)) \<and>
     (\<forall>r \<in> set (ms_results st). (\<forall>x \<in> set (ms_ready st). sp_cost r \<le> sp_cost x) \<and>
        (card E < max_stitched_picks \<longrightarrow> (\<forall>i \<in> set (ms_frontier st). sp_cost r \<le> pi_lower i)))"

lemma covers_member:
  assumes "i \<in> set frontier" and "item_ok segments i"
  shows "1 \<le> covers segments frontier (pi_pick i)"
proof -
  have "i \<in># {#j \<in># mset frontier. pi_pick i \<in> under segments (pi_pick j) (pi_last j)#}"
    using assms by (simp add: item_ok_def under_self)
  then have "0 < size {#j \<in># mset frontier. pi_pick i \<in> under segments (pi_pick j) (pi_last j)#}"
    by (metis nonempty_has_size empty_iff set_mset_empty)
  then show ?thesis by (simp add: covers_def)
qed

lemma emit_inv:
  assumes inv: "merge_inv stitch segments k E st" and e: "can_emit st" and n: "\<not> k \<le> int (length (ms_results st))"
  shows "merge_inv stitch segments k E (emit_ready st)"
proof -
  obtain r ready where t: "heap_take route_key (ms_ready st) = (r, ready)" by fastforce
  have o: "heap_ordered route_key (ms_ready st)" "heap_ordered pi_lower (ms_frontier st)"
    and ne: "ms_ready st \<noteq> []" using inv e by (simp_all add: merge_inv_def can_emit_def)
  from heap_take_ok [OF o(1) ne t] have h: "heap_ordered route_key ready"
    "mset (ms_ready st) = add_mset r (mset ready)" and key: "\<forall>y \<in> set (ms_ready st). route_key r \<le> route_key y"
    by blast+
  have least: "sp_cost r \<le> sp_cost y" if "y \<in> set (ms_ready st)" for y
    using key that by (auto simp: route_key_def less_eq_prod_def)
  have r: "r \<in> set (ms_ready st)" "set ready \<subseteq> set (ms_ready st)"
    using h(2) by (metis set_mset_mset union_single_eq_member) (metis h(2) set_mset_add_mset_insert set_mset_mset subset_insertI)
  have front: "sp_cost r \<le> pi_lower i" if "card E < max_stitched_picks" "i \<in> set (ms_frontier st)" for i
  proof -
    have "can_explore st" using that inv by (auto simp: can_explore_def merge_inv_def)
    then have "sp_cost (hd (ms_ready st)) \<le> pi_lower (hd (ms_frontier st))" using e by (simp add: can_emit_def)
    moreover have "pi_lower (hd (ms_frontier st)) \<le> pi_lower i"
      using heap_root_least [OF o(2)] that(2) by (metis hd_conv_nth in_set_conv_nth length_pos_if_in_set length_greater_0_conv)
    ultimately show ?thesis using least [of "hd (ms_ready st)"] ne by (meson hd_in_set order_trans)
  qed
  have "sorted (map sp_cost (ms_results st @ [r]))"
    using inv r(1) by (simp add: merge_inv_def sorted_append)
  moreover have "emit_ready st = st\<lparr>ms_results := ms_results st @ [r], ms_ready := ready\<rparr>"
    by (simp add: emit_ready_def t)
  ultimately show ?thesis
    using inv h r least front n unfolding merge_inv_def by (auto simp: can_explore_def)
qed

lemma explore_inv:
  assumes inv: "merge_inv stitch segments k E st" and e: "can_explore st"
    and s: "\<forall>seg \<in> set segments. sorted (map sp_cost seg)"
    and low: "\<And>p. p \<in> picks segments \<Longrightarrow> sp_found (stitch p) \<Longrightarrow> lower_of segments p \<le> sp_cost (stitch p)"
  obtains E' where "merge_inv stitch segments k E' (explore_pick stitch segments st)"
proof -
  obtain item frontier where t: "heap_take pi_lower (ms_frontier st) = (item, frontier)" by fastforce
  have o: "heap_ordered pi_lower (ms_frontier st)" "heap_ordered route_key (ms_ready st)"
    and ne: "ms_frontier st \<noteq> []" and budget: "card E < max_stitched_picks"
    and stock: "mset (ms_results st) + mset (ms_ready st) = stock stitch E" and sub: "E \<subseteq> picks segments"
    and cov: "\<And>q. covers segments (ms_frontier st) q + of_bool (q \<in> E) = of_bool (q \<in> picks segments)"
    using inv e by (simp_all add: merge_inv_def can_explore_def)
  from heap_take_ok [OF o(1) ne t] have h: "heap_ordered pi_lower frontier"
    "mset (ms_frontier st) = add_mset item (mset frontier)" by blast+
  have mem: "item \<in> set (ms_frontier st)" "set frontier \<subseteq> set (ms_frontier st)"
    using h(2) by (metis set_mset_mset union_single_eq_member) (metis h(2) set_mset_add_mset_insert set_mset_mset subset_insertI)
  have item: "item_ok segments item" using inv mem by (simp add: merge_inv_def)
  let ?p = "pi_pick item" and ?hs = "[pi_last item..<length segments]"
  let ?fr = "foldl (expand_hop segments item) frontier ?hs"
  let ?kids = "map (child segments item) (filter (can_advance segments ?p) ?hs)"
  note x = expand_all [OF h(1), of segments item ?hs]
  have p: "?p \<in> picks segments" "pi_last item \<le> length segments" "pi_lower item = lower_of segments ?p"
    using item by (simp_all add: item_ok_def)
  have new: "?p \<notin> E" using cov [of ?p] covers_member [OF mem(1) item] p(1) by (auto split: if_splits)
  have kids: "item_ok segments i \<and> pi_lower item \<le> pi_lower i" if "i \<in> set ?kids" for i
  proof -
    from that obtain l where l: "pi_last item \<le> l" "l < length segments" "can_advance segments ?p l" "i = child segments item l"
      by auto
    note a = advance_pick [OF p(1) l(2,3)]
    have "advance ?p l \<in> under segments ?p l"
      using a l(2) p(1) by (auto simp: under_def advance_def picks_def nth_list_update)
    from lower_of_mono [OF this s] a l show ?thesis by (simp add: item_ok_def child_def p(3))
  qed
  have fr: "i \<in> set ?fr \<Longrightarrow> i \<in> set (ms_frontier st) \<or> i \<in> set ?kids" for i
  proof -
    assume "i \<in> set ?fr"
    then have "i \<in># mset frontier + mset ?kids" using x by (metis set_mset_mset)
    then show ?thesis using mem(2) by auto
  qed
  have cov': "covers segments ?fr q + of_bool (q \<in> insert ?p E) = of_bool (q \<in> picks segments)" for q
  proof -
    have "covers segments ?fr q = covers segments frontier q +
        sum_list (map (\<lambda>h. of_bool (can_advance segments ?p h \<and> q \<in> under segments (advance ?p h) h)) ?hs)"
      using x covers_children [where segments = segments and item = item and hs = ?hs and q = q] unfolding covers_def by simp
    moreover have "covers segments (ms_frontier st) q = covers segments frontier q + of_bool (q \<in> under segments ?p (pi_last item))"
      unfolding covers_def h(2) by simp
    ultimately show ?thesis using cov [of q] under_successors [OF p(1,2), of q] new by (auto simp: of_bool_def split: if_splits)
  qed
  let ?s = "stitch ?p"
  let ?ready = "if sp_found ?s then heap_push route_key (ms_ready st) ?s else ms_ready st"
  have ready: "heap_ordered route_key ?ready" "mset ?ready = mset (ms_ready st) + (if sp_found ?s then {#?s#} else {#})"
    using heap_push_ok [OF o(2), of ?s] o(2) by auto
  have fin: "finite E" using sub finite_subset finite_picks by blast
  have stock': "mset (ms_results st) + mset ?ready = stock stitch (insert ?p E)"
    using stock new fin unfolding ready(2) by (simp add: stock_def)
  have bound: "sp_cost r \<le> pi_lower item" "\<forall>x \<in> set (ms_ready st). sp_cost r \<le> sp_cost x"
    "\<forall>i \<in> set (ms_frontier st). sp_cost r \<le> pi_lower i" if "r \<in> set (ms_results st)" for r
    using inv that budget mem(1) by (simp_all add: merge_inv_def)
  have rbound: "sp_cost r \<le> sp_cost x" if "r \<in> set (ms_results st)" "x \<in> set ?ready" for r x
  proof -
    have "x \<in> set (ms_ready st) \<or> sp_found ?s \<and> x = ?s"
      using that(2) arg_cong [OF ready(2), of set_mset] by (auto split: if_splits)
    then show ?thesis using bound [OF that(1)] low [OF p(1)] p(3) by (auto intro: order_trans)
  qed
  have fbound: "sp_cost r \<le> pi_lower i" if "r \<in> set (ms_results st)" "i \<in> set ?fr" for r i
    using fr [OF that(2)] bound [OF that(1)] kids [of i] by (auto intro: order_trans)
  let ?st = "explore_pick stitch segments st"
  have "?st = st\<lparr>ms_explored := ms_explored st + 1, ms_ready := ?ready, ms_frontier := ?fr\<rparr>"
    by (simp add: explore_pick_def t Let_def)
  then have sel: "ms_results ?st = ms_results st" "ms_explored ?st = ms_explored st + 1"
    "ms_ready ?st = ?ready" "ms_frontier ?st = ?fr" by simp_all
  have "merge_inv stitch segments k (insert ?p E) ?st"
    unfolding merge_inv_def sel
  proof (intro conjI)
    show "insert ?p E \<subseteq> picks segments" using sub p(1) by simp
    show "ms_explored st + 1 = card (insert ?p E)" using inv new fin by (simp add: merge_inv_def)
    show "card (insert ?p E) \<le> max_stitched_picks" using new fin budget by simp
    show "heap_ordered pi_lower ?fr" by (rule conjunct1 [OF x])
    show "heap_ordered route_key ?ready" by (rule ready(1))
    show "\<forall>i \<in> set ?fr. item_ok segments i" using fr kids inv unfolding merge_inv_def by blast
    show "\<forall>q. covers segments ?fr q + of_bool (q \<in> insert ?p E) = of_bool (q \<in> picks segments)"
      using cov' by (intro allI)
    show "mset (ms_results st) + mset ?ready = stock stitch (insert ?p E)" by (rule stock')
    show "length (ms_results st) \<le> nat k" "sorted (map sp_cost (ms_results st))"
      using inv by (simp_all only: merge_inv_def)
    show "\<forall>r \<in> set (ms_results st). (\<forall>x \<in> set ?ready. sp_cost r \<le> sp_cost x) \<and>
        (card (insert ?p E) < max_stitched_picks \<longrightarrow> (\<forall>i \<in> set ?fr. sp_cost r \<le> pi_lower i))"
      using rbound fbound by blast
  qed
  then show thesis by (rule that)
qed

section \<open>The loop\<close>

lemma merge_loop_inv:
  assumes "merge_inv stitch segments k E st"
    and s: "\<forall>seg \<in> set segments. sorted (map sp_cost seg)"
    and low: "\<And>p. p \<in> picks segments \<Longrightarrow> sp_found (stitch p) \<Longrightarrow> lower_of segments p \<le> sp_cost (stitch p)"
  shows "\<exists>E'. merge_inv stitch segments k E' (merge_loop stitch segments k st) \<and>
    (k \<le> int (length (ms_results (merge_loop stitch segments k st))) \<or>
     \<not> can_explore (merge_loop stitch segments k st) \<and> ms_ready (merge_loop stitch segments k st) = [])"
  using assms
proof (induction stitch segments k st arbitrary: E rule: merge_loop.induct [case_names step])
  case (step stitch segments k st)
  note eq = merge_loop.simps [of stitch segments k st]
  consider "k \<le> int (length (ms_results st))" | "\<not> k \<le> int (length (ms_results st))" "can_emit st"
    | "\<not> k \<le> int (length (ms_results st))" "\<not> can_emit st" "\<not> can_explore st"
    | "\<not> k \<le> int (length (ms_results st))" "\<not> can_emit st" "can_explore st" by blast
  then show ?case
  proof cases
    case 1
    then show ?thesis using step.prems(1) eq by (simp only: if_True) blast
  next
    case 2
    then have "merge_loop stitch segments k st = merge_loop stitch segments k (emit_ready st)" using eq by simp
    then show ?thesis
      using step.IH(1) [OF 2 emit_inv [OF step.prems(1) 2(2,1)] step.prems(2,3)] by simp
  next
    case 3
    then have "merge_loop stitch segments k st = st" "ms_ready st = []" using eq by (simp_all add: can_emit_def)
    then show ?thesis using step.prems(1) 3(3) by auto
  next
    case 4
    then have e: "merge_loop stitch segments k st = merge_loop stitch segments k (explore_pick stitch segments st)"
      using eq by simp
    obtain E' where "merge_inv stitch segments k E' (explore_pick stitch segments st)"
      by (rule explore_inv [OF step.prems(1) 4(3) step.prems(2,3)])
    from step.IH(2) [OF 4(1,2) _ this step.prems(2,3)] 4(3) show ?thesis unfolding e by simp
  qed
qed

lemma merge_start_inv:
  assumes "\<forall>seg \<in> set segments. seg \<noteq> []"
  shows "merge_inv stitch segments k {} (merge_start segments)"
proof -
  let ?root = "replicate (length segments) 0"
  have root: "?root \<in> picks segments" using assms by (auto simp: picks_def)
  have "q \<in> under segments ?root 0 \<longleftrightarrow> q \<in> picks segments" for q by (auto simp: under_def)
  then show ?thesis
    using root by (auto simp: merge_inv_def merge_start_def Let_def heap_ordered_def item_ok_def covers_def stock_def)
qed

text \<open>What the loop returns: a sorted part of the valid combinations that no other one undercuts.\<close>

lemma merge_loop_result:
  assumes "\<forall>seg \<in> set segments. seg \<noteq> [] \<and> sorted (map sp_cost seg)" and k: "0 < k"
    and low: "\<And>p. p \<in> picks segments \<Longrightarrow> sp_found (stitch p) \<Longrightarrow> lower_of segments p \<le> sp_cost (stitch p)"
    and rs: "rs = ms_results (merge_loop stitch segments k (merge_start segments))"
  obtains E where "E \<subseteq> picks segments" "mset rs \<subseteq># stock stitch E" "length rs \<le> nat k" "sorted (map sp_cost rs)"
    "\<And>p r. card (picks segments) \<le> max_stitched_picks \<Longrightarrow> p \<in> picks segments \<Longrightarrow> sp_found (stitch p) \<Longrightarrow>
       stitch p \<notin> set rs \<Longrightarrow> int (length rs) = k \<and> (\<forall>r \<in> set rs. sp_cost r \<le> sp_cost (stitch p))"
proof -
  let ?st = "merge_loop stitch segments k (merge_start segments)"
  have s: "\<forall>seg \<in> set segments. sorted (map sp_cost seg)" "\<forall>seg \<in> set segments. seg \<noteq> []" using assms(1) by blast+
  from merge_loop_inv [OF merge_start_inv [OF s(2)] s(1) low] obtain E where
    inv: "merge_inv stitch segments k E ?st" and
    fin: "k \<le> int (length rs) \<or> \<not> can_explore ?st \<and> ms_ready ?st = []" unfolding rs by blast
  show thesis
  proof
    show "E \<subseteq> picks segments" "length rs \<le> nat k" "sorted (map sp_cost rs)"
      using inv by (simp_all add: merge_inv_def rs)
    show "mset rs \<subseteq># stock stitch E"
      using inv unfolding merge_inv_def rs by (metis mset_subset_eq_add_left)
    fix p assume n: "card (picks segments) \<le> max_stitched_picks" and p: "p \<in> picks segments" "sp_found (stitch p)"
      "stitch p \<notin> set rs"
    note I = inv [unfolded merge_inv_def]
    have cov: "covers segments (ms_frontier ?st) q + of_bool (q \<in> E) = of_bool (q \<in> picks segments)" for q using I by blast
    have E: "finite E" "E \<subseteq> picks segments" using I finite_subset finite_picks by blast+
    have full: "ms_frontier ?st = [] \<and> E = picks segments" if "\<not> can_explore ?st"
    proof -
      have "E = picks segments"
      proof (cases "ms_frontier ?st = []")
        case True
        then have "q \<in> E \<longleftrightarrow> q \<in> picks segments" for q using cov [of q] by (auto simp: covers_def of_bool_def split: if_splits)
        then show ?thesis by blast
      next
        case False
        then have "card (picks segments) \<le> card E" using that n I by (simp add: can_explore_def)
        then show ?thesis using E finite_picks by (meson card_seteq)
      qed
      moreover have False if "i \<in> set (ms_frontier ?st)" for i
        using covers_member [of i "ms_frontier ?st" segments] cov [of "pi_pick i"] that I calculation
        by (auto simp: item_ok_def)
      ultimately show ?thesis by (metis hd_in_set)
    qed
    have below: "sp_cost r \<le> sp_cost (stitch p)" if r: "r \<in> set rs" for r
    proof (cases "p \<in> E")
      case True
      then have "stitch p \<in># stock stitch E" using p(2) E(1) by (auto simp: stock_def)
      then have "stitch p \<in> set (ms_ready ?st)" using p(3) I unfolding rs
        by (metis set_mset_mset union_iff)
      then show ?thesis using I r unfolding rs by blast
    next
      case False
      then have "covers segments (ms_frontier ?st) p = 1" using cov [of p] p(1) by simp
      then have "{#i \<in># mset (ms_frontier ?st). p \<in> under segments (pi_pick i) (pi_last i)#} \<noteq> {#}"
        unfolding covers_def by (metis One_nat_def size_empty zero_neq_one)
      then obtain i where i: "i \<in> set (ms_frontier ?st)" "p \<in> under segments (pi_pick i) (pi_last i)"
        by (auto elim!: multiset_nonemptyE)
      have "can_explore ?st" using full i(1) by force
      then have "sp_cost r \<le> pi_lower i" using I r i(1) unfolding rs can_explore_def by metis
      also have "\<dots> \<le> lower_of segments p" using lower_of_mono [OF i(2) s(1)] I i(1) by (simp add: item_ok_def)
      finally show ?thesis using low [OF p(1,2)] by simp
    qed
    have "k \<le> int (length rs)"
    proof (rule ccontr)
      assume "\<not> k \<le> int (length rs)"
      then have a: "\<not> can_explore ?st" "ms_ready ?st = []" using fin by simp_all
      then have "stitch p \<in># stock stitch E" using full p by (auto simp: stock_def)
      then show False using I a(2) p(3) unfolding rs by (metis add_cancel_right_right mset.simps(1) set_mset_mset)
    qed
    moreover have "int (length rs) \<le> k" using I k unfolding rs by linarith
    ultimately show "int (length rs) = k \<and> (\<forall>r \<in> set rs. sp_cost r \<le> sp_cost (stitch p))"
      using below by simp
  qed
qed

end
