(* ===== verification/PathSeams.thy ===== *)
theory PathSeams
  imports RouteSearch
begin

text \<open>
  How \<open>CostOfPath\<close> behaves when two paths meet at a vertex: distances add up, and the joined path costs at
  least what the two cost apart, as joining them only adds the turn at the seam.
\<close>

section \<open>The cost of a path in one formula\<close>

definition edge_sums :: "nav_graph \<Rightarrow> search_options \<Rightarrow> (int \<times> int) list \<Rightarrow> (real \<times> real \<times> real list) option" where
  "edge_sums graph options uvs = foldl (cost_step graph options) (Some (0, 0, [])) uvs"

lemma cost_step_from:
  "cost_step graph options (Some (c, d, bs)) uv =
     map_option (\<lambda>(c', d', bs'). (c + c', d + d', bs @ bs')) (cost_step graph options (Some (0, 0, [])) uv)"
  by (simp add: cost_step_def split: prod.split option.split)

lemma edge_sums_from:
  "foldl (cost_step graph options) (Some (c, d, bs)) uvs =
     map_option (\<lambda>(c', d', bs'). (c + c', d + d', bs @ bs')) (edge_sums graph options uvs)"
proof (induction uvs arbitrary: c d bs)
  case (Cons uv uvs)
  show ?case
  proof (cases "cost_step graph options (Some (0, 0, [])) uv")
    case None
    then show ?thesis by (simp add: edge_sums_def cost_step_from [of _ _ c d bs])
  next
    case (Some x)
    obtain c1 d1 b1 where x: "x = (c1, d1, b1)" by (cases x) blast
    have "cost_step graph options (Some (c, d, bs)) uv = Some (c + c1, d + d1, bs @ b1)"
      by (subst cost_step_from) (simp add: Some x)
    moreover have "edge_sums graph options (uv # uvs) =
        map_option (\<lambda>(c', d', bs'). (c1 + c', d1 + d', b1 @ bs')) (edge_sums graph options uvs)"
      unfolding edge_sums_def [of _ _ "uv # uvs"] foldl.simps Some x by (rule Cons.IH)
    ultimately show ?thesis
      using Cons.IH [of "c + c1" "d + d1" "bs @ b1"] by (cases "edge_sums graph options uvs") (auto simp: add.assoc)
  qed
qed (simp add: edge_sums_def)

lemma edge_sums_append:
  "edge_sums graph options (xs @ ys) =
     (case edge_sums graph options xs of None \<Rightarrow> None
      | Some (c, d, bs) \<Rightarrow> map_option (\<lambda>(c', d', bs'). (c + c', d + d', bs @ bs')) (edge_sums graph options ys))"
  unfolding edge_sums_def [of _ _ "xs @ ys"] foldl_append
  by (simp add: edge_sums_def [symmetric] edge_sums_from split: option.split prod.split)

lemma edge_sums_bearings:
  "edge_sums graph options uvs = Some (c, d, bs) \<Longrightarrow>
   length bs = (if tp_enabled (so_turn_penalty options) then length uvs else 0)"
proof (induction uvs arbitrary: c d bs rule: rev_induct)
  case (snoc uv uvs)
  obtain u v where uv: "uv = (u, v)" by fastforce
  have "edge_sums graph options (uvs @ [uv]) = cost_step graph options (edge_sums graph options uvs) uv"
    by (simp add: edge_sums_def)
  with snoc.prems obtain c1 d1 b1 where "edge_sums graph options uvs = Some (c1, d1, b1)"
    "bs = (if tp_enabled (so_turn_penalty options)
      then b1 @ [bearing_to (coord_of graph u) (coord_of graph v)] else b1)"
    by (cases "edge_sums graph options uvs")
      (auto simp: cost_step_def uv split: option.splits if_split_asm)
  with snoc.IH show ?case by simp
qed (simp add: edge_sums_def)

definition turns_between :: "turn_penalty \<Rightarrow> real \<Rightarrow> real list \<Rightarrow> real \<Rightarrow> real" where
  "turns_between t b0 bs b1 =
     (if \<not> tp_enabled t then 0
      else if bs = [] then (if 0 \<le> b0 \<and> 0 \<le> b1 then penalty_of t (turn_angle_deg b0 b1) else 0)
      else (if 0 \<le> b0 then penalty_of t (turn_angle_deg b0 (hd bs)) else 0) + interior_turns t bs 0 +
        (if 0 \<le> b1 then penalty_of t (turn_angle_deg (last bs) b1) else 0))"

lemma cost_of_path_sums:
  assumes "p \<noteq> []"
  shows "cost_of_path graph p options b0 b1 =
    (if 2 \<le> length p \<and> list_ex (node_blocks (so_node_filter options)) p then None
     else map_option (\<lambda>(c, d, bs). (c + turns_between (so_turn_penalty options) b0 bs b1, d))
       (edge_sums graph options (zip p (tl p))))"
proof (cases "length p < 2")
  case True
  then obtain v where "p = [v]" using assms by (cases p) auto
  then show ?thesis by (simp add: cost_of_path_def Let_def edge_sums_def turns_between_def)
next
  case False
  show ?thesis
  proof (cases "edge_sums graph options (zip p (tl p))")
    case None
    then show ?thesis using False by (simp add: cost_of_path_def Let_def edge_sums_def)
  next
    case (Some x)
    obtain c d bs where x: "x = (c, d, bs)" by (cases x) blast
    let ?t = "so_turn_penalty options"
    have shift: "interior_turns ?t bs e = e + interior_turns ?t bs 0" for e
      using interior_turns_shift [of ?t bs e 0] by simp
    have "tp_enabled (so_turn_penalty options) \<Longrightarrow> bs \<noteq> []"
      using edge_sums_bearings [of graph options "zip p (tl p)" c d bs] Some x False by auto
    then show ?thesis
      using Some x False shift [of c] shift [of "c + penalty_of ?t (turn_angle_deg b0 (hd bs))"]
      by (simp add: cost_of_path_def Let_def edge_sums_def turns_between_def)
  qed
qed

section \<open>Seams\<close>

lemma penalty_nonneg: "0 \<le> penalty_of t a"
  using penalty_bounds by blast

lemma interior_turns_Cons:
  assumes "xs \<noteq> []"
  shows "interior_turns t (a # xs) 0 = penalty_of t (turn_angle_deg a (hd xs)) + interior_turns t xs 0"
proof -
  have "interior_turns t (a # xs) 0 = interior_turns t xs (penalty_of t (turn_angle_deg a (hd xs)))"
    using assms by (cases xs) (simp_all add: interior_turns_def)
  also have "\<dots> = interior_turns t xs (penalty_of t (turn_angle_deg a (hd xs)) + 0)" by (simp only: add_0_right)
  finally show ?thesis by (simp only: interior_turns_shift)
qed

lemma interior_turns_append:
  assumes "as \<noteq> []" and "bs \<noteq> []"
  shows "interior_turns t (as @ bs) 0 =
    interior_turns t as 0 + penalty_of t (turn_angle_deg (last as) (hd bs)) + interior_turns t bs 0"
  using assms
proof (induction as rule: list_nonempty_induct)
  case (single a)
  have "interior_turns t [a] 0 = 0" by (simp add: interior_turns_def)
  then show ?case using interior_turns_Cons [OF single] by simp
next
  case (cons a as)
  then have "hd (as @ bs) = hd as" "as @ bs \<noteq> []" by simp_all
  then show ?case using cons interior_turns_Cons [of as t a] interior_turns_Cons [of "as @ bs" t a] by simp
qed

lemma interior_turns_nonneg: "0 \<le> interior_turns t bs 0"
proof (induction bs rule: rev_induct)
  case (snoc b bs)
  then show ?case
    by (cases "bs = []") (simp_all add: interior_turns_snoc penalty_nonneg, simp add: interior_turns_def)
qed (simp add: interior_turns_def)

lemma turns_between_seam:
  assumes "c < 0"
  shows "turns_between t b0 as c + turns_between t c bs b1 \<le> turns_between t b0 (as @ bs) b1"
  using assms penalty_nonneg interior_turns_nonneg
  by (cases "as = []"; cases "bs = []") (auto simp: turns_between_def interior_turns_append)

lemma zip_tl_join:
  "p \<noteq> [] \<Longrightarrow> q \<noteq> [] \<Longrightarrow> last p = hd q \<Longrightarrow>
   zip (p @ tl q) (tl (p @ tl q)) = zip p (tl p) @ zip q (tl q)"
proof (induction p rule: list_nonempty_induct)
  case (single x)
  then show ?case by (cases q) simp_all
next
  case (cons x xs)
  then have "tl ((x # xs) @ tl q) = xs @ tl q" "zip (x # xs) (tl (x # xs)) = (x, hd xs) # zip xs (tl xs)"
    by (cases xs; simp)+
  moreover have "zip ((x # xs) @ tl q) (xs @ tl q) = (x, hd xs) # zip (xs @ tl q) (tl (xs @ tl q))"
    using cons.hyps by (cases xs) simp_all
  ultimately show ?case using cons by simp
qed

lemma cost_of_path_seam:
  assumes p: "p \<noteq> []" "q \<noteq> []" "last p = hd q"
    and cp: "cost_of_path graph p options b0 no_bearing = Some (c, d)"
    and cq: "cost_of_path graph q options no_bearing b1 = Some (c', d')"
    and all: "cost_of_path graph (p @ tl q) options b0 b1 = Some (c2, d2)"
  shows "c + c' \<le> c2" and "d2 = d + d'"
proof -
  let ?t = "so_turn_penalty options"
  obtain k bs where k: "edge_sums graph options (zip p (tl p)) = Some (k, d, bs)" "c = k + turns_between ?t b0 bs no_bearing"
    using cp unfolding cost_of_path_sums [OF p(1)] by (auto split: if_splits)
  obtain k' bs' where k': "edge_sums graph options (zip q (tl q)) = Some (k', d', bs')"
    "c' = k' + turns_between ?t no_bearing bs' b1"
    using cq unfolding cost_of_path_sums [OF p(2)] by (auto split: if_splits)
  have "p @ tl q \<noteq> []" using p by simp
  from all k(1) k'(1) have "c2 = k + k' + turns_between ?t b0 (bs @ bs') b1 \<and> d2 = d + d'"
    unfolding cost_of_path_sums [OF \<open>p @ tl q \<noteq> []\<close>] zip_tl_join [OF p] edge_sums_append
    by (auto split: if_splits)
  then show "c + c' \<le> c2" "d2 = d + d'"
    using turns_between_seam [of no_bearing ?t b0 bs bs' b1] k(2) k'(2) by (simp_all add: no_bearing_def)
qed

end
