(* ===== verification/ForcedRouterCorrect.thy ===== *)
theory ForcedRouterCorrect
  imports BestFirst PathSeams "HOL-Library.Sublist"
begin

text \<open>
  What \<open>ForcedRouter::FindPaths\<close> (\<^verbatim>\<open>io/navdb/forced_router.cc\<close>) promises: it returns, its routes are
  loopless, priced end to end, in ascending order and through the forced points, and they are the cheapest
  that can be put together from the candidates of the hops.
\<close>

section \<open>Joining parts\<close>

fun chained :: "int list list \<Rightarrow> bool" where
  "chained [] = True"
| "chained [p] = (p \<noteq> [])"
| "chained (p # q # ps) = (p \<noteq> [] \<and> last p = hd q \<and> chained (q # ps))"

definition joined :: "int list list \<Rightarrow> int list" where
  "joined ps = hd ps @ concat (map tl (tl ps))"

lemma chained_snoc_join:
  "p \<noteq> [] \<Longrightarrow> chained (q # ps) \<Longrightarrow> last p = hd q \<Longrightarrow> chained ((p @ tl q) # ps) \<and> last (p @ tl q) = last q"
  by (cases q; cases ps) (auto simp: last_append split: if_splits)

lemma chained_nonempty: "chained (p # ps) \<Longrightarrow> p \<noteq> []"
  by (cases ps) auto

lemma join_parts_joined:
  "chained (p # ps) \<Longrightarrow> join_parts p ps = Some (joined (p # ps))"
proof (induction ps arbitrary: p)
  case (Cons q ps)
  then have q: "p \<noteq> []" "last p = hd q" "chained (q # ps)" by simp_all
  note c = chained_snoc_join [OF q(1,3,2)]
  have "join_parts p (q # ps) = join_parts (p @ tl q) ps"
    using q chained_nonempty [OF q(3)] by simp
  also have "\<dots> = Some (joined ((p @ tl q) # ps))" by (rule Cons.IH [OF conjunct1 [OF c]])
  finally show ?case by (simp add: joined_def)
qed (simp add: joined_def)

lemma joined_hd: "chained (p # ps) \<Longrightarrow> hd (joined (p # ps)) = hd p \<and> joined (p # ps) \<noteq> []"
  using chained_nonempty [of p ps] by (simp add: joined_def)

lemma joined_last: "chained (p # ps) \<Longrightarrow> last (joined (p # ps)) = last (last (p # ps))"
proof (induction ps arbitrary: p)
  case (Cons q ps)
  then have q: "p \<noteq> []" "last p = hd q" "chained (q # ps)" by simp_all
  note c = chained_snoc_join [OF q(1,3,2)]
  have "last (joined (p # q # ps)) = last (joined ((p @ tl q) # ps))" by (simp add: joined_def)
  also have "\<dots> = last (last ((p @ tl q) # ps))" by (rule Cons.IH [OF conjunct1 [OF c]])
  finally show ?case using c by simp
qed (simp add: joined_def)

lemma set_joined: "set (joined (p # ps)) \<subseteq> \<Union> (set ` set (p # ps))"
proof -
  have tl: "set (tl xs) \<subseteq> set xs" for xs :: "int list" by (cases xs) auto
  then have "set (concat (map tl ps)) \<subseteq> \<Union> (set ` set ps)" by (induction ps) auto
  then show ?thesis by (auto simp: joined_def)
qed

text \<open>A loopless join determines its parts, once the seams are fixed.\<close>

lemma prefix_to_vertex:
  assumes "distinct (p @ xs)" and "p @ xs = p' @ xs'" and "p \<noteq> []" "p' \<noteq> []" "last p = last p'"
  shows "p = p'"
proof -
  let ?l = "p @ xs"
  have "?l ! (length p - 1) = ?l ! (length p' - 1)"
  proof -
    have "?l ! (length p - 1) = last p" using assms(3) by (simp add: nth_append last_conv_nth)
    moreover have "(p' @ xs') ! (length p' - 1) = last p'" using assms(4) by (simp add: nth_append last_conv_nth)
    ultimately show ?thesis using assms(2,5) by simp
  qed
  moreover have "length p - 1 < length ?l" "length p' - 1 < length ?l"
    using assms(3) by (cases p; simp) (unfold assms(2), use assms(4) in \<open>cases p'; simp\<close>)
  ultimately have "length p - 1 = length p' - 1" using nth_eq_iff_index_eq [OF assms(1)] by blast
  then have "length p = length p'" using assms(3,4) by (cases p; cases p') simp_all
  then show ?thesis using assms(2) by (metis append_eq_append_conv)
qed

lemma joined_inj:
  "chained (p # ps) \<Longrightarrow> chained (p' # ps') \<Longrightarrow> length ps = length ps' \<Longrightarrow>
   map last (butlast (p # ps)) = map last (butlast (p' # ps')) \<Longrightarrow>
   joined (p # ps) = joined (p' # ps') \<Longrightarrow> distinct (joined (p # ps)) \<Longrightarrow> p # ps = p' # ps'"
proof (induction ps arbitrary: p p' ps')
  case Nil
  then show ?case by (simp add: joined_def)
next
  case (Cons q ps)
  then obtain q' qs' where ps': "ps' = q' # qs'" by (cases ps') auto
  have n: "p \<noteq> []" "p' \<noteq> []" "q \<noteq> []" "q' \<noteq> []" "last p = hd q" "last p' = hd q'" "chained (q # ps)" "chained (q' # qs')"
    using Cons.prems(1,2) chained_nonempty unfolding ps' by auto
  have l: "last p = last p'" using Cons.prems(4) ps' by simp
  have pp: "p = p'"
    by (rule prefix_to_vertex [OF _ _ n(1,2) l]) (use Cons.prems(5,6) in \<open>simp_all add: joined_def ps'\<close>)
  have rest: "tl q @ concat (map tl ps) = tl q' @ concat (map tl qs')"
    using Cons.prems(5) pp by (simp add: joined_def ps')
  have hq: "hd q = hd q'" using l n(5,6) by simp
  have j: "joined (q # ps) = joined (q' # qs')"
    unfolding joined_def using rest hq n(3,4) by (cases q; cases q') simp_all
  have "joined (q # ps) = last p # tl q @ concat (map tl ps)"
    using n(3,5) by (cases q) (simp_all add: joined_def)
  then have "butlast p @ joined (q # ps) = butlast p @ [last p] @ tl q @ concat (map tl ps)" by (simp only: append.simps)
  also have "\<dots> = p @ tl q @ concat (map tl ps)" using append_butlast_last_id [OF n(1)] by (metis append.assoc)
  finally have "joined (p # q # ps) = butlast p @ joined (q # ps)" by (simp add: joined_def)
  then have "distinct (joined (q # ps))" using Cons.prems(6) by simp
  then have "q # ps = q' # qs'"
    by (intro Cons.IH [OF n(7,8) _ _ j]) (use Cons.prems(3,4) ps' in auto)
  then show ?case using pp ps' by simp
qed

section \<open>The cost of a join\<close>

lemma cost_of_path_joins:
  assumes p: "p \<noteq> []" "q \<noteq> []" "last p = hd q"
    and cp: "cost_of_path graph p options b0 no_bearing = Some (c, d)"
    and cq: "cost_of_path graph q options no_bearing b1 = Some (c', d')"
  obtains c2 where "cost_of_path graph (p @ tl q) options b0 b1 = Some (c2, d + d')" "c + c' \<le> c2"
proof -
  have ne: "p @ tl q \<noteq> []" using p by simp
  have blocks: "2 \<le> length (p @ tl q) \<Longrightarrow> \<not> list_ex (node_blocks (so_node_filter options)) (p @ tl q)"
  proof (cases "2 \<le> length p")
    case True
    then have "\<not> list_ex (node_blocks (so_node_filter options)) p"
      using cp unfolding cost_of_path_sums [OF p(1)] by (auto split: if_splits)
    moreover have "\<not> list_ex (node_blocks (so_node_filter options)) (tl q)"
      using cq unfolding cost_of_path_sums [OF p(2)] by (cases q; cases "tl q") (auto split: if_splits)
    ultimately show ?thesis by simp
  next
    case False
    then obtain a where "p = [a]" using p(1) by (cases p; cases "tl p") auto
    then have "p @ tl q = q" using p by (cases q) auto
    moreover assume "2 \<le> length (p @ tl q)"
    ultimately show ?thesis using cq unfolding cost_of_path_sums [OF p(2)] by (auto split: if_splits)
  qed
  obtain k bs k' bs' where "edge_sums graph options (zip p (tl p)) = Some (k, d, bs)"
    "edge_sums graph options (zip q (tl q)) = Some (k', d', bs')"
    using cp cq unfolding cost_of_path_sums [OF p(1)] cost_of_path_sums [OF p(2)] by (auto split: if_splits)
  then have "cost_of_path graph (p @ tl q) options b0 b1 =
      Some (k + k' + turns_between (so_turn_penalty options) b0 (bs @ bs') b1, d + d')"
    unfolding cost_of_path_sums [OF ne] zip_tl_join [OF p] edge_sums_append using blocks by auto
  then show thesis using that cost_of_path_seam [OF p cp cq] by blast
qed

lemma cost_of_path_chain:
  assumes "chained (p # qs @ [q])" and "cost_of_path graph p options b0 no_bearing = Some (c, d)"
    and "list_all2 (\<lambda>r x. cost_of_path graph r options no_bearing no_bearing = Some x) qs xs"
    and "cost_of_path graph q options no_bearing b1 = Some (c', d')"
  shows "\<exists>C D. cost_of_path graph (joined (p # qs @ [q])) options b0 b1 = Some (C, D) \<and>
    c + sum_list (map fst xs) + c' \<le> C"
  using assms
proof (induction qs arbitrary: p c d xs)
  case Nil
  then have p: "p \<noteq> []" "q \<noteq> []" "last p = hd q" by simp_all
  from cost_of_path_joins [OF p Nil.prems(2,4)] obtain c2
    where "cost_of_path graph (p @ tl q) options b0 b1 = Some (c2, d + d')" "c + c' \<le> c2" .
  then show ?case using Nil.prems(3) by (auto simp: joined_def)
next
  case (Cons r qs)
  then have p: "p \<noteq> []" "last p = hd r" "chained (r # qs @ [q])" by simp_all
  obtain cr dr xs' where x: "xs = (cr, dr) # xs'" "cost_of_path graph r options no_bearing no_bearing = Some (cr, dr)"
    "list_all2 (\<lambda>r x. cost_of_path graph r options no_bearing no_bearing = Some x) qs xs'"
    using Cons.prems(3) by (cases xs) auto
  obtain c2 where c2: "cost_of_path graph (p @ tl r) options b0 no_bearing = Some (c2, d + dr)" "c + cr \<le> c2"
    by (rule cost_of_path_joins [OF p(1) chained_nonempty [OF p(3)] p(2) Cons.prems(2) x(2)])
  have "joined (p # (r # qs) @ [q]) = joined ((p @ tl r) # qs @ [q])" by (simp add: joined_def)
  then show ?case
    using Cons.IH [OF conjunct1 [OF chained_snoc_join [OF p(1,3,2)]] c2(1) x(3) Cons.prems(4)] c2(2) x(1) by fastforce
qed

section \<open>The candidates of a hop\<close>

definition hop_cands ::
  "nav_graph \<Rightarrow> seeded_endpoint list \<Rightarrow> seeded_endpoint list \<Rightarrow> int list \<Rightarrow> int \<Rightarrow> search_options \<Rightarrow> nat \<Rightarrow>
   shortest_path list option" where
  "hop_cands graph sources goals forced k options h =
     find_k_shortest_paths_multi graph (hop_sources sources forced no_bearing h) (hop_goals goals forced h) k options"

lemma via_tables:
  assumes "0 \<le> v" "v < n"
  shows "build_seed_table [via_endpoint f b] n ! nat v = (if v = f then 0 else - 1)"
    and "build_bearing_table [via_endpoint f b] n ! nat v = (if v = f then b else no_bearing)"
  using assms build_seed_table_cheapest [of "[via_endpoint f b]" v n] build_bearing_table_cheapest [of "[via_endpoint f b]" v n]
  by (auto simp: via_endpoint_def seeds_ok_def cheapest_seed_def)

lemma hop_sources_ok: "seeds_ok sources \<Longrightarrow> seeds_ok (hop_sources sources forced b h)"
  by (simp add: hop_sources_def via_endpoint_def seeds_ok_def)

lemma hop_candidate:
  assumes g: "graph_ok graph" and f: "filters_ok options" and s: "seeds_ok sources" and fits: "search_count_fits graph k"
    and c: "hop_cands graph sources goals forced k options h = Some cands" and r: "r \<in> set cands"
  shows "sp_vertices r \<noteq> [] \<and> distinct (sp_vertices r) \<and>
      (\<forall>v \<in> set (sp_vertices r). is_vertex graph v \<and> \<not> node_blocks (so_node_filter options) v)"
    and "0 < h \<Longrightarrow> hd (sp_vertices r) = forced ! (h - 1)"
    and "h \<noteq> length forced \<Longrightarrow> last (sp_vertices r) = forced ! h"
    and "h = 0 \<Longrightarrow> 0 \<le> build_seed_table sources (vertex_count graph) ! nat (hd (sp_vertices r))"
    and "h = length forced \<Longrightarrow> 0 \<le> build_seed_table goals (vertex_count graph) ! nat (last (sp_vertices r))"
    and "\<exists>e d. cost_of_path graph (sp_vertices r) options
        (if h = 0 then build_bearing_table sources (vertex_count graph) ! nat (hd (sp_vertices r)) else no_bearing)
        (if h = length forced then build_bearing_table goals (vertex_count graph) ! nat (last (sp_vertices r))
         else no_bearing) = Some (e, d) \<and>
      sp_cost r = Fin ((if h = 0 then build_seed_table sources (vertex_count graph) ! nat (hd (sp_vertices r)) else 0) + e +
        (if h = length forced then build_seed_table goals (vertex_count graph) ! nat (last (sp_vertices r)) else 0))"
proof -
  let ?p = "sp_vertices r" and ?n = "vertex_count graph"
  let ?hs = "hop_sources sources forced no_bearing h" and ?hg = "hop_goals goals forced h"
  let ?ss = "build_seed_table ?hs ?n ! nat (hd ?p)" and ?gs = "build_seed_table ?hg ?n ! nat (last ?p)"
  let ?sb = "build_bearing_table ?hs ?n ! nat (hd ?p)" and ?gb = "build_bearing_table ?hg ?n ! nat (last ?p)"
  from find_k_result [OF g f hop_sources_ok [OF s, where forced = forced and b = no_bearing and h = h] fits, of ?hg] c r
  have route: "result_route (yen_env_of graph ?hs ?hg options) r" unfolding hop_cands_def by auto
  then show v: "?p \<noteq> [] \<and> distinct ?p \<and>
      (\<forall>v \<in> set ?p. is_vertex graph v \<and> \<not> node_blocks (so_node_filter options) v)"
    by (simp add: result_route_def loopless_route_def yen_env_of_def Let_def)
  from route obtain cost where cost: "sp_cost r = Fin cost"
    "cost_of_path_multi graph ?p (build_seed_table ?hs ?n) (build_seed_table ?hg ?n)
       (build_bearing_table ?hs ?n) (build_bearing_table ?hg ?n) options = Some (cost, sp_distance_nm r)"
    by (auto simp: result_route_def recost_def yen_env_of_def Let_def)
  then obtain e d where e: "cost_of_path graph ?p options ?sb ?gb = Some (e, d)" "cost = ?ss + e + ?gs" "0 \<le> ?ss" "0 \<le> ?gs"
    using v by (auto simp: cost_of_path_multi_def Let_def not_less split: if_splits option.splits)
  have in_range: "0 \<le> hd ?p" "hd ?p < ?n" "0 \<le> last ?p" "last ?p < ?n"
    using v by (auto simp: is_vertex_def)
  note vs = via_tables [OF in_range(1,2)] and vg = via_tables [OF in_range(3,4)]
  show hd: "hd ?p = forced ! (h - 1)" if "0 < h"
    using e(3) that vs(1) by (auto simp: hop_sources_def split: if_splits)
  show last: "last ?p = forced ! h" if "h \<noteq> length forced"
    using e(4) that vg(1) by (auto simp: hop_goals_def split: if_splits)
  show "h = 0 \<Longrightarrow> 0 \<le> build_seed_table sources ?n ! nat (hd ?p)" using e(3) by (simp add: hop_sources_def)
  show "h = length forced \<Longrightarrow> 0 \<le> build_seed_table goals ?n ! nat (last ?p)" using e(4) by (simp add: hop_goals_def)
  have "?ss = (if h = 0 then build_seed_table sources ?n ! nat (hd ?p) else 0)"
    "?sb = (if h = 0 then build_bearing_table sources ?n ! nat (hd ?p) else no_bearing)"
    using hd vs by (auto simp: hop_sources_def)
  moreover have "?gs = (if h = length forced then build_seed_table goals ?n ! nat (last ?p) else 0)"
    "?gb = (if h = length forced then build_bearing_table goals ?n ! nat (last ?p) else no_bearing)"
    using last vg by (auto simp: hop_goals_def)
  ultimately show "\<exists>e d. cost_of_path graph ?p options
        (if h = 0 then build_bearing_table sources ?n ! nat (hd ?p) else no_bearing)
        (if h = length forced then build_bearing_table goals ?n ! nat (last ?p) else no_bearing) = Some (e, d) \<and>
      sp_cost r = Fin ((if h = 0 then build_seed_table sources ?n ! nat (hd ?p) else 0) + e +
        (if h = length forced then build_seed_table goals ?n ! nat (last ?p) else 0))"
    using e(1,2) cost(1) by (intro exI [of _ e] exI [of _ d]) (simp only:)
qed

section \<open>A combination of candidates\<close>

lemma chained_map:
  "a < b \<Longrightarrow> (\<And>h. a \<le> h \<Longrightarrow> h < b \<Longrightarrow> f h \<noteq> []) \<Longrightarrow> (\<And>h. a \<le> h \<Longrightarrow> Suc h < b \<Longrightarrow> last (f h) = hd (f (Suc h))) \<Longrightarrow>
   chained (map f [a..<b])"
proof (induction "b - a" arbitrary: a)
  case (Suc m)
  show ?case
  proof (cases "Suc a < b")
    case True
    then have "[a..<b] = a # [Suc a..<b]" "[Suc a..<b] = Suc a # [Suc (Suc a)..<b]" by (simp_all add: upt_conv_Cons)
    moreover have "chained (map f [Suc a..<b])" using Suc.hyps True Suc.prems by (intro Suc.hyps) auto
    ultimately show ?thesis using Suc.prems True by simp
  next
    case False
    then have "[a..<b] = [a]" using Suc.prems(1) by (simp add: upt_conv_Cons)
    then show ?thesis using Suc.prems(1,2) by simp
  qed
qed simp

lemma fold_costs:
  "(\<And>h. h \<in> set hs \<Longrightarrow> f h = Fin (g h)) \<Longrightarrow> foldl (\<lambda>s h. s + f h) (Fin a) hs = Fin (a + sum_list (map g hs))"
  by (induction hs arbitrary: a) (simp_all add: add.assoc)

lemma sum_ends:
  assumes "0 < n"
  shows "sum_list (map (\<lambda>h. (if h = 0 then a else 0) + f h + (if h = n then b else 0)) [0..<Suc n]) =
    a + f 0 + sum_list (map f [1..<n]) + (f n + (b :: real))"
proof -
  have up: "[0..<Suc n] = 0 # [Suc 0..<n] @ [n]" using assms by (simp add: upt_conv_Cons)
  have mid: "map (\<lambda>h. (if h = 0 then a else 0) + f h + (if h = n then b else 0)) [Suc 0..<n] = map f [Suc 0..<n]" by simp
  show ?thesis unfolding up list.map map_append mid using assms by simp
qed

lemma stitch_result_route:
  assumes "sp_found (stitch_for graph sources goals options parts)"
    and "\<And>path. join_parts [] parts = Some path \<Longrightarrow>
      \<forall>v \<in> set path. is_vertex graph v \<and> \<not> node_blocks (so_node_filter options) v"
  shows "result_route (yen_env_of graph sources goals options) (stitch_for graph sources goals options parts)"
proof -
  obtain path cost distance where p: "join_parts [] parts = Some path" "distinct path"
    "cost_of_path_multi graph path (build_seed_table sources (vertex_count graph))
       (build_seed_table goals (vertex_count graph)) (build_bearing_table sources (vertex_count graph))
       (build_bearing_table goals (vertex_count graph)) options = Some (cost, distance)"
    "stitch_for graph sources goals options parts =
       \<lparr>sp_vertices = path, sp_distance_nm = distance, sp_cost = Fin cost, sp_found = True\<rparr>"
    using assms(1) by (auto simp: stitch_for_def stitch_and_cost_def shortest_path_default_def split: option.splits if_splits)
  have "path \<noteq> []" using p(3) by (auto simp: cost_of_path_multi_def)
  then show ?thesis
    using p assms(2) [OF p(1)] by (simp add: result_route_def loopless_route_def recost_def yen_env_of_def Let_def)
qed

lemma subseq_joined:
  assumes "chained (p # ps)" and "length ps = length fs" and "\<And>i. i < length fs \<Longrightarrow> hd (ps ! i) = fs ! i" and "distinct fs"
  shows "subseq fs (joined (p # ps))"
  using assms
proof (induction fs arbitrary: p ps)
  case (Cons f fs)
  then obtain q qs where ps: "ps = q # qs" by (cases ps) auto
  have q: "p \<noteq> []" "last p = hd q" "chained (q # qs)" "hd q = f" using Cons.prems(1) Cons.prems(3) [of 0] ps by simp_all
  have ne: "q \<noteq> []" using chained_nonempty [OF q(3)] .
  have "subseq fs (joined (q # qs))"
  proof (rule Cons.IH [OF q(3)])
    show "hd (qs ! i) = fs ! i" if "i < length fs" for i using Cons.prems(3) [of "Suc i"] that ps by simp
  qed (use Cons.prems ps in auto)
  then have sub: "subseq fs (f # tl (joined (q # qs)))"
    using ne q(4) by (cases q) (simp_all add: joined_def)
  have tl: "subseq fs (tl (joined (q # qs)))"
  proof (cases fs)
    case (Cons g gs)
    then have "g \<noteq> f" using \<open>distinct (f # fs)\<close> by auto
    then show ?thesis using sub Cons by simp
  qed simp
  have "joined (p # ps) = p @ tl (joined (q # qs))" using ne ps by (cases q) (simp_all add: joined_def)
  moreover have "subseq [f] p" using q(1,2,4) by (metis last_in_set subseq_singleton_left)
  ultimately show ?case using list_emb_append_mono [of "(=)" "[f]" p fs "tl (joined (q # qs))"] tl by simp
qed simp

lemma combination:
  assumes g: "graph_ok graph" and f: "filters_ok options" and s: "seeds_ok sources" and fits: "search_count_fits graph k"
    and ne: "forced \<noteq> []"
    and c: "\<And>h. h \<le> length forced \<Longrightarrow> \<exists>cands. hop_cands graph sources goals forced k options h = Some cands \<and> r h \<in> set cands"
    and parts: "parts = map (\<lambda>h. sp_vertices (r h)) [0..<Suc (length forced)]"
    and stitched: "stitched = stitch_for graph sources goals options parts"
  shows "chained parts" and "map last (butlast parts) = forced"
    and "sp_found stitched \<longleftrightarrow> distinct (joined parts)"
    and "sp_found stitched \<Longrightarrow> sp_vertices stitched = joined parts"
    and "sp_found stitched \<Longrightarrow> result_route (yen_env_of graph sources goals options) stitched"
    and "sp_found stitched \<Longrightarrow> foldl (\<lambda>s h. s + sp_cost (r h)) (Fin 0) [0..<Suc (length forced)] \<le> sp_cost stitched"
    and "distinct forced \<Longrightarrow> subseq forced (joined parts)"
proof -
  let ?n = "length forced" and ?N = "vertex_count graph"
  let ?v = "\<lambda>h. sp_vertices (r h)"
  have cand: "?v h \<noteq> [] \<and> distinct (?v h) \<and>
      (\<forall>x \<in> set (?v h). is_vertex graph x \<and> \<not> node_blocks (so_node_filter options) x)"
    "0 < h \<Longrightarrow> hd (?v h) = forced ! (h - 1)" "h \<noteq> ?n \<Longrightarrow> last (?v h) = forced ! h" if "h \<le> ?n" for h
    using c [OF that] hop_candidate(1-3) [OF g f s fits] by blast+
  have n: "0 < ?n" using ne by simp
  have seeds: "0 \<le> build_seed_table sources ?N ! nat (hd (?v 0))" "0 \<le> build_seed_table goals ?N ! nat (last (?v ?n))"
    using c [of 0] c [of ?n] hop_candidate(4,5) [OF g f s fits] by blast+
  have up: "[0..<Suc ?n] = 0 # [1..<?n] @ [?n]" using n by (simp add: upt_conv_Cons)
  let ?mid = "map ?v [1..<?n]"
  have pl: "parts = ?v 0 # ?mid @ [?v ?n]" unfolding parts up by simp
  show ch: "chained parts"
    unfolding parts by (rule chained_map) (use cand in auto)
  have "map last (butlast parts) = map (\<lambda>h. forced ! h) [0..<?n]"
    unfolding parts by (auto simp: map_butlast [symmetric] cand(3))
  then show "map last (butlast parts) = forced" by (simp add: map_nth)
  have ch': "chained (?v 0 # ?mid @ [?v ?n])" using ch unfolding pl .
  have join: "join_parts [] parts = Some (joined parts)"
    using join_parts_joined [OF ch'] cand(1) [of 0] by (simp add: pl)
  have ends: "hd (joined parts) = hd (?v 0)" "joined parts \<noteq> []" "last (joined parts) = last (?v ?n)"
    using joined_hd [OF ch'] joined_last [OF ch'] by (simp_all add: pl)
  have vertices: "\<forall>x \<in> set (joined parts). is_vertex graph x \<and> \<not> node_blocks (so_node_filter options) x"
  proof -
    have "set (joined parts) \<subseteq> \<Union> (set ` set parts)"
      unfolding pl by (rule set_joined)
    moreover have "\<forall>x \<in> \<Union> (set ` set parts). is_vertex graph x \<and> \<not> node_blocks (so_node_filter options) x"
    proof
      fix x assume "x \<in> \<Union> (set ` set parts)"
      then obtain h where "h \<in> set [0..<Suc ?n]" "x \<in> set (?v h)" unfolding parts set_map by blast
      then have "h \<le> ?n" "x \<in> set (?v h)" by auto
      then show "is_vertex graph x \<and> \<not> node_blocks (so_node_filter options) x" using cand(1) [of h] by blast
    qed
    ultimately show ?thesis by blast
  qed
  let ?sb = "build_bearing_table sources ?N ! nat (hd (?v 0))" and ?gb = "build_bearing_table goals ?N ! nat (last (?v ?n))"
  let ?ss = "build_seed_table sources ?N ! nat (hd (?v 0))" and ?gs = "build_seed_table goals ?N ! nat (last (?v ?n))"
  have "\<exists>e d. cost_of_path graph (?v h) options (if h = 0 then ?sb else no_bearing) (if h = ?n then ?gb else no_bearing) = Some (e, d) \<and>
      sp_cost (r h) = Fin ((if h = 0 then ?ss else 0) + e + (if h = ?n then ?gs else 0))" if "h \<le> ?n" for h
  proof -
    from c [OF that] obtain cands where cands: "hop_cands graph sources goals forced k options h = Some cands" "r h \<in> set cands"
      by blast
    have "(if h = 0 then build_bearing_table sources ?N ! nat (hd (?v h)) else no_bearing) = (if h = 0 then ?sb else no_bearing)"
      "(if h = ?n then build_bearing_table goals ?N ! nat (last (?v h)) else no_bearing) = (if h = ?n then ?gb else no_bearing)"
      "(if h = 0 then build_seed_table sources ?N ! nat (hd (?v h)) else 0) = (if h = 0 then ?ss else 0)"
      "(if h = ?n then build_seed_table goals ?N ! nat (last (?v h)) else 0) = (if h = ?n then ?gs else 0)" by simp_all
    then show ?thesis using hop_candidate(6) [OF g f s fits cands] by (simp only:)
  qed
  then obtain e d where ed: "\<And>h. h \<le> ?n \<Longrightarrow> cost_of_path graph (?v h) options (if h = 0 then ?sb else no_bearing)
      (if h = ?n then ?gb else no_bearing) = Some (e h, d h)"
    "\<And>h. h \<le> ?n \<Longrightarrow> sp_cost (r h) = Fin ((if h = 0 then ?ss else 0) + e h + (if h = ?n then ?gs else 0))" by metis
  have "\<exists>C D. cost_of_path graph (joined parts) options ?sb ?gb = Some (C, D) \<and>
      e 0 + sum_list (map fst (map (\<lambda>h. (e h, d h)) [1..<?n])) + e ?n \<le> C"
    unfolding pl
  proof (rule cost_of_path_chain [OF ch'])
    show "cost_of_path graph (?v 0) options ?sb no_bearing = Some (e 0, d 0)" using ed(1) [of 0] n by simp
    show "cost_of_path graph (?v ?n) options no_bearing ?gb = Some (e ?n, d ?n)" using ed(1) [of ?n] n by simp
    show "list_all2 (\<lambda>r x. cost_of_path graph r options no_bearing no_bearing = Some x) ?mid (map (\<lambda>h. (e h, d h)) [1..<?n])"
    proof (rule list_all2I)
      show "\<forall>x \<in> set (zip ?mid (map (\<lambda>h. (e h, d h)) [1..<?n])). case x of (r, x) \<Rightarrow>
          cost_of_path graph r options no_bearing no_bearing = Some x"
      proof
        fix x assume "x \<in> set (zip ?mid (map (\<lambda>h. (e h, d h)) [1..<?n]))"
        then obtain i where "i < ?n - Suc 0" "x = (?v (Suc i), e (Suc i), d (Suc i))" by (auto simp: set_zip)
        moreover from this have "Suc i \<le> ?n" "Suc i \<noteq> ?n" by simp_all
        ultimately show "case x of (r, x) \<Rightarrow> cost_of_path graph r options no_bearing no_bearing = Some x"
          using ed(1) [of "Suc i"] by simp
      qed
    qed simp
  qed
  then obtain C D where C: "cost_of_path graph (joined parts) options ?sb ?gb = Some (C, D)"
    "e 0 + sum_list (map e [1..<?n]) + e ?n \<le> C" by (auto simp: o_def)
  then have multi: "cost_of_path_multi graph (joined parts) (build_seed_table sources ?N) (build_seed_table goals ?N)
      (build_bearing_table sources ?N) (build_bearing_table goals ?N) options = Some (?ss + C + ?gs, ?ss + D + ?gs)"
    using ends seeds by (simp add: cost_of_path_multi_def Let_def)
  have st: "stitched = (if distinct (joined parts) then
      \<lparr>sp_vertices = joined parts, sp_distance_nm = ?ss + D + ?gs, sp_cost = Fin (?ss + C + ?gs), sp_found = True\<rparr>
      else shortest_path_default)"
    unfolding stitched stitch_for_def stitch_and_cost_def join by (simp add: multi)
  then show fd: "sp_found stitched \<longleftrightarrow> distinct (joined parts)" by (simp add: shortest_path_default_def)
  show "sp_found stitched \<Longrightarrow> sp_vertices stitched = joined parts" using fd st by simp
  show "sp_found stitched \<Longrightarrow> result_route (yen_env_of graph sources goals options) stitched"
    unfolding stitched by (rule stitch_result_route) (use vertices join in auto)
  have "foldl (\<lambda>s h. s + sp_cost (r h)) (Fin 0) [0..<Suc ?n] =
      Fin (0 + sum_list (map (\<lambda>h. (if h = 0 then ?ss else 0) + e h + (if h = ?n then ?gs else 0)) [0..<Suc ?n]))"
    by (rule fold_costs) (use ed(2) in auto)
  also have "sum_list (map (\<lambda>h. (if h = 0 then ?ss else 0) + e h + (if h = ?n then ?gs else 0)) [0..<Suc ?n]) =
      ?ss + e 0 + sum_list (map e [1..<?n]) + (e ?n + ?gs)"
    by (rule sum_ends [OF n])
  finally show "foldl (\<lambda>s h. s + sp_cost (r h)) (Fin 0) [0..<Suc ?n] \<le> sp_cost stitched" if "sp_found stitched"
    using C(2) st that by (simp add: shortest_path_default_def split: if_splits)
  have front: "hd (?v (Suc i)) = forced ! i" if "i < ?n" for i using cand(2) [of "Suc i"] that by simp
  show "subseq forced (joined parts)" if "distinct forced"
    unfolding pl
  proof (rule subseq_joined [OF ch' _ _ that])
    show "length (?mid @ [?v ?n]) = ?n" using n by simp
    show "hd ((?mid @ [?v ?n]) ! i) = forced ! i" if "i < ?n" for i
    proof (cases "i < ?n - 1")
      case True
      then show ?thesis using front [OF that] by (simp add: nth_append)
    next
      case False
      then have "Suc i = ?n" "(?mid @ [?v ?n]) ! i = ?v ?n" using that by (auto simp: nth_append)
      then show ?thesis using front [OF that] by simp
    qed
  qed
qed

section \<open>The greedy fallback\<close>

lemma greedy_hop:
  assumes g: "graph_ok graph" and f: "filters_ok options" and gs: "seeds_ok goals"
    and opts: "hop_options = options\<lparr>so_node_filter :=
      (so_node_filter options)\<lparr>nf_banned := Some (hop_banned path forced h options)\<rparr>\<rparr>"
  obtains leg where "find_shortest_path_multi graph (hop_sources sources forced b h) (hop_goals goals forced h) hop_options = Some leg"
    "sp_found leg \<Longrightarrow> sp_vertices leg \<noteq> [] \<and>
       (\<forall>v \<in> set (sp_vertices leg). is_vertex graph v \<and> \<not> node_blocks (so_node_filter options) v) \<and>
       (0 < h \<longrightarrow> hd (sp_vertices leg) = forced ! (h - 1)) \<and>
       (h \<noteq> length forced \<longrightarrow> last (sp_vertices leg) = forced ! h)"
proof -
  let ?hs = "hop_sources sources forced b h" and ?hg = "hop_goals goals forced h"
  let ?env = "search_env_of graph ?hs ?hg hop_options"
  have env: "en_graph ?env = graph" "en_options ?env = hop_options" by (simp_all add: search_env_of_def Let_def)
  have hg: "seeds_ok ?hg" using gs by (simp add: hop_goals_def via_endpoint_def seeds_ok_def)
  obtain leg where leg: "find_shortest_path_multi graph ?hs ?hg hop_options = Some leg" "result_ok ?env ?hs leg"
    by (rule find_shortest_path_multi_result [OF g])
  have "sp_vertices leg \<noteq> [] \<and>
       (\<forall>v \<in> set (sp_vertices leg). is_vertex graph v \<and> \<not> node_blocks (so_node_filter options) v) \<and>
       (0 < h \<longrightarrow> hd (sp_vertices leg) = forced ! (h - 1)) \<and>
       (h \<noteq> length forced \<longrightarrow> last (sp_vertices leg) = forced ! h)" if "sp_found leg"
  proof -
    let ?p = "sp_vertices leg"
    note p = result_ok_path [OF leg(2) that]
    from leg(2) that obtain cost where c: "route_costs ?env ?hs ?p cost (sp_distance_nm leg)" by (auto simp: result_ok_def)
    then obtain x where ne: "?p \<noteq> []" and goal: "is_goal ?env (last ?p)" and a: "arrive ?env ?hs (rev ?p) = Some x"
      by (auto simp: route_costs_def)
    have "hd ?p \<in> se_vertex ` set ?hs" using arrive_source [OF a] unfolding last_rev by (auto intro: rev_image_eqI)
    moreover have "last ?p \<in> se_vertex ` set ?hg"
      by (rule is_goal_cheapest [OF hg goal]) (auto intro: rev_image_eqI)
    moreover have "\<not> node_blocks (so_node_filter options) v" if "v \<in> set ?p" for v
    proof -
      have nb: "\<not> node_blocks (so_node_filter hop_options) v" using arrive_unblocked [OF a] that by (simp add: env)
      have sub: "binary_search c v \<Longrightarrow> nf_banned (so_node_filter options) = Some c \<Longrightarrow>
          binary_search (hop_banned path forced h options) v" for c
        using f by (simp add: hop_banned_def filters_ok_def binary_search_iff_mem)
      show ?thesis using nb sub by (auto simp: opts node_blocks_def split: if_splits option.splits)
    qed
    moreover have "\<forall>v \<in> set ?p. is_vertex graph v" using p(3) by (simp add: env)
    ultimately show ?thesis using ne by (auto simp: hop_sources_def hop_goals_def via_endpoint_def)
  qed
  with leg(1) show thesis by (rule that)
qed

definition greedy_ok :: "nav_graph \<Rightarrow> int list \<Rightarrow> search_options \<Rightarrow> nat \<Rightarrow> int list \<Rightarrow> bool" where
  "greedy_ok graph forced options h path \<longleftrightarrow>
     (\<forall>v \<in> set path. is_vertex graph v \<and> \<not> node_blocks (so_node_filter options) v) \<and>
     (path = [] \<longleftrightarrow> h = 0) \<and> (0 < h \<longrightarrow> h \<le> length forced \<longrightarrow> last path = forced ! (h - 1)) \<and>
     subseq (take h forced) path"

lemma greedy_hops_result:
  assumes g: "graph_ok graph" and f: "filters_ok options" and gs: "seeds_ok goals" and d: "distinct forced"
    and "h \<le> Suc (length forced)" and "greedy_ok graph forced options h path"
  shows "\<exists>out. greedy_hops [h..<Suc (length forced)] graph sources goals forced options path = Some out \<and>
    (\<forall>p. out = Some p \<longrightarrow> greedy_ok graph forced options (Suc (length forced)) p)"
  using assms(5,6)
proof (induction "Suc (length forced) - h" arbitrary: h path)
  case 0
  then have "h = Suc (length forced)" by simp
  then show ?case using 0 by simp
next
  case (Suc m)
  let ?opts = "options\<lparr>so_node_filter := (so_node_filter options)\<lparr>nf_banned := Some (hop_banned path forced h options)\<rparr>\<rparr>"
  let ?b = "if 2 \<le> length path
            then bearing_to (coord_of graph (path ! (length path - 2))) (coord_of graph (last path))
            else no_bearing"
  have h: "h \<le> length forced" using Suc.hyps(2) by simp
  then have up: "[h..<Suc (length forced)] = h # [Suc h..<Suc (length forced)]" by (simp add: upt_conv_Cons)
  obtain leg where leg: "find_shortest_path_multi graph (hop_sources sources forced ?b h) (hop_goals goals forced h) ?opts = Some leg"
    and v: "sp_found leg \<Longrightarrow> sp_vertices leg \<noteq> [] \<and>
       (\<forall>v \<in> set (sp_vertices leg). is_vertex graph v \<and> \<not> node_blocks (so_node_filter options) v) \<and>
       (0 < h \<longrightarrow> hd (sp_vertices leg) = forced ! (h - 1)) \<and>
       (h \<noteq> length forced \<longrightarrow> last (sp_vertices leg) = forced ! h)"
    by (rule greedy_hop [OF g f gs refl, of sources forced ?b h path]) blast
  let ?path = "path @ (if path = [] then sp_vertices leg else tl (sp_vertices leg))"
  have step: "greedy_hops [h..<Suc (length forced)] graph sources goals forced options path =
      (if \<not> sp_found leg \<or> sp_vertices leg = [] then Some None
       else greedy_hops [Suc h..<Suc (length forced)] graph sources goals forced options ?path)"
    unfolding up greedy_hops.simps Let_def leg by simp
  show ?case
  proof (cases "sp_found leg \<and> sp_vertices leg \<noteq> []")
    case False
    then show ?thesis unfolding step by auto
  next
    case True
    then have v: "sp_vertices leg \<noteq> []"
       "\<forall>v \<in> set (sp_vertices leg). is_vertex graph v \<and> \<not> node_blocks (so_node_filter options) v"
       "0 < h \<Longrightarrow> hd (sp_vertices leg) = forced ! (h - 1)"
       "h \<noteq> length forced \<Longrightarrow> last (sp_vertices leg) = forced ! h" using v by blast+
    note inv = Suc.prems(2) [unfolded greedy_ok_def]
    have last: "last ?path = forced ! h" if "h < length forced"
    proof (cases "h = 0")
      case True
      then show ?thesis using inv v(1,4) that by simp
    next
      case False
      have "forced ! (h - 1) \<noteq> forced ! h" using d that False by (simp add: nth_eq_iff_index_eq)
      then have "tl (sp_vertices leg) \<noteq> []" using v False that by (cases "sp_vertices leg") auto
      then show ?thesis using v(1,4) that inv False by (simp add: last_tl)
    qed
    have "subseq (take (Suc h) forced) ?path"
    proof (cases "h < length forced")
      case True
      have "subseq [forced ! h] (if path = [] then sp_vertices leg else tl (sp_vertices leg))"
      proof (cases "h = 0")
        case z: True
        then have "last (sp_vertices leg) = forced ! h" "path = []" using v(4) True inv by simp_all
        then show ?thesis using v(1) by (metis last_in_set subseq_singleton_left)
      next
        case nz: False
        have "forced ! (h - 1) \<noteq> forced ! h" using d True nz by (simp add: nth_eq_iff_index_eq)
        then have "tl (sp_vertices leg) \<noteq> []" using v nz True by (cases "sp_vertices leg") auto
        then have "forced ! h \<in> set (tl (sp_vertices leg))" using v(1,4) True by (metis last_in_set last_tl nat_neq_iff)
        then show ?thesis using nz inv by (simp add: subseq_singleton_left)
      qed
      then show ?thesis using inv True by (simp add: take_Suc_conv_app_nth list_emb_append_mono)
    next
      case False
      then show ?thesis using inv h by (auto intro: subseq_order.trans [OF _ list_emb_prefix])
    qed
    moreover have "set (tl (sp_vertices leg)) \<subseteq> set (sp_vertices leg)" by (cases "sp_vertices leg") auto
    ultimately have "greedy_ok graph forced options (Suc h) ?path"
      using inv v(1,2) last h unfolding greedy_ok_def by auto
    from Suc.hyps(1) [OF _ _ this] show ?thesis
      unfolding step using True Suc.hyps(2) h by auto
  qed
qed

section \<open>All routes\<close>

lemma hop_segments_spec:
  assumes g: "graph_ok graph" and f: "filters_ok options" and s: "seeds_ok sources" and fits: "search_count_fits graph k"
  shows "\<exists>out. hop_segments hs graph sources goals forced k options = Some out \<and>
    (case out of None \<Rightarrow> \<exists>h \<in> set hs. hop_cands graph sources goals forced k options h = Some []
     | Some segments \<Rightarrow> list_all2 (\<lambda>h seg. \<exists>cands. hop_cands graph sources goals forced k options h = Some cands \<and>
         cands \<noteq> [] \<and> seg = sort_by cost_less cands) hs segments)"
proof (induction hs)
  case (Cons h hs)
  from find_k_result [OF g f hop_sources_ok [OF s] fits] obtain cands where
    c: "hop_cands graph sources goals forced k options h = Some cands" unfolding hop_cands_def by blast
  from Cons.IH obtain out where "hop_segments hs graph sources goals forced k options = Some out"
    "case out of None \<Rightarrow> \<exists>h \<in> set hs. hop_cands graph sources goals forced k options h = Some []
     | Some segments \<Rightarrow> list_all2 (\<lambda>h seg. \<exists>cands. hop_cands graph sources goals forced k options h = Some cands \<and>
         cands \<noteq> [] \<and> seg = sort_by cost_less cands) hs segments" by blast
  then show ?case using c by (cases "cands = []"; cases out) (auto simp: hop_cands_def)
qed simp

lemma pick_parts_combination:
  assumes g: "graph_ok graph" and f: "filters_ok options" and s: "seeds_ok sources" and fits: "search_count_fits graph k"
    and segs: "list_all2 (\<lambda>h seg. \<exists>cands. hop_cands graph sources goals forced k options h = Some cands \<and>
      cands \<noteq> [] \<and> seg = sort_by cost_less cands) [0..<Suc (length forced)] segments"
  shows "length segments = Suc (length forced)"
    and "\<forall>seg \<in> set segments. seg \<noteq> [] \<and> sorted (map sp_cost seg) \<and> distinct (map sp_vertices seg)"
    and "pick \<in> picks segments \<Longrightarrow> h \<le> length forced \<Longrightarrow>
      \<exists>cands. hop_cands graph sources goals forced k options h = Some cands \<and> segments ! h ! (pick ! h) \<in> set cands"
    and "h \<le> length forced \<Longrightarrow> length (segments ! h) \<le> nat k"
    and "h \<le> length forced \<Longrightarrow> hop_cands graph sources goals forced k options h = Some cands \<Longrightarrow> set (segments ! h) = set cands"
proof -
  show l: "length segments = Suc (length forced)" using list_all2_lengthD [OF segs] by simp
  have at: "\<exists>cands. hop_cands graph sources goals forced k options h = Some cands \<and> cands \<noteq> [] \<and>
      segments ! h = sort_by cost_less cands" if "h \<le> length forced" for h
    using segs that l unfolding list_all2_conv_all_nth by (metis (no_types, lifting) add.left_neutral le_imp_less_Suc nth_upt)
  show "\<forall>seg \<in> set segments. seg \<noteq> [] \<and> sorted (map sp_cost seg) \<and> distinct (map sp_vertices seg)"
  proof
    fix seg assume "seg \<in> set segments"
    then obtain h where h: "h \<le> length forced" "seg = segments ! h"
      using l unfolding in_set_conv_nth by (metis less_Suc_eq_le)
    from at [OF h(1)] obtain cands where c: "hop_cands graph sources goals forced k options h = Some cands" "cands \<noteq> []"
      "seg = sort_by cost_less cands" using h(2) by blast
    from find_k_result [OF g f hop_sources_ok [OF s, where forced = forced and b = no_bearing and h = h] fits, of "hop_goals goals forced h"] c(1)
    have d: "distinct (map sp_vertices cands)" unfolding hop_cands_def by auto
    have m: "mset (map sp_vertices seg) = mset (map sp_vertices cands)" using c(3) by simp
    have "distinct (map sp_vertices seg)" using mset_eq_imp_distinct_iff [OF m] d by blast
    moreover have "sorted (map sp_cost seg)" unfolding c(3) by (rule sorted_sort_by) (auto simp: cost_less_def)
    moreover have "length seg = length cands" using c(3) by simp
    ultimately show "seg \<noteq> [] \<and> sorted (map sp_cost seg) \<and> distinct (map sp_vertices seg)" using c(2) by auto
  qed
  show "\<exists>cands. hop_cands graph sources goals forced k options h = Some cands \<and> segments ! h ! (pick ! h) \<in> set cands"
    if "pick \<in> picks segments" "h \<le> length forced"
  proof -
    have "pick ! h < length (segments ! h)" using that l by (simp add: picks_def)
    then show ?thesis using at [OF that(2)] by (metis nth_mem set_sort_by)
  qed
  show "length (segments ! h) \<le> nat k" if "h \<le> length forced"
    using at [OF that] find_k_result [OF g f hop_sources_ok [OF s, where forced = forced and b = no_bearing and h = h] fits,
      of "hop_goals goals forced h"] unfolding hop_cands_def by auto
  show "set (segments ! h) = set cands" if "h \<le> length forced" "hop_cands graph sources goals forced k options h = Some cands"
    using at [OF that(1)] that(2) by auto
qed

lemma distinct_of_counts:
  assumes "\<And>v. count (mset xs) v \<le> 1"
  shows "distinct xs"
  unfolding distinct_count_atmost_1
proof
  fix v show "count (mset xs) v = (if v \<in> set xs then 1 else 0)"
    using assms [of v] count_mset_0_iff [of xs v] by (cases "count (mset xs) v") auto
qed

text \<open>The merged routes, given the segments.\<close>

lemma merged_routes:
  assumes g: "graph_ok graph" and f: "filters_ok options" and s: "seeds_ok sources" and fits: "search_count_fits graph k"
    and ne: "forced \<noteq> []" "distinct forced" and k: "0 < k"
    and segs: "list_all2 (\<lambda>h seg. \<exists>cands. hop_cands graph sources goals forced k options h = Some cands \<and>
      cands \<noteq> [] \<and> seg = sort_by cost_less cands) [0..<Suc (length forced)] segments"
    and rs: "rs = ms_results (merge_loop (\<lambda>pick. stitch_for graph sources goals options (pick_parts segments pick)) segments k
      (merge_start segments))"
  shows "length rs \<le> nat k" and "sorted (map sp_cost rs)" and "distinct (map sp_vertices rs)"
    and "r \<in> set rs \<Longrightarrow> result_route (yen_env_of graph sources goals options) r \<and> subseq forced (sp_vertices r)"
    and "pick \<in> picks segments \<Longrightarrow> stitched = stitch_for graph sources goals options (pick_parts segments pick) \<Longrightarrow>
      sp_found stitched \<Longrightarrow> card (picks segments) \<le> max_stitched_picks \<Longrightarrow>
      stitched \<in> set rs \<or> int (length rs) = k \<and> (\<forall>r \<in> set rs. sp_cost r \<le> sp_cost stitched)"
proof -
  note P = pick_parts_combination [OF g f s fits segs]
  let ?stitch = "\<lambda>pick. stitch_for graph sources goals options (pick_parts segments pick)"
  have parts: "pick_parts segments pick = map (\<lambda>h. sp_vertices (segments ! h ! (pick ! h))) [0..<Suc (length forced)]" for pick
    by (simp add: pick_parts_def P(1))
  have C: "chained (pick_parts segments p) \<and> map last (butlast (pick_parts segments p)) = forced"
    "sp_found (?stitch p) \<Longrightarrow> distinct (joined (pick_parts segments p)) \<and> sp_vertices (?stitch p) = joined (pick_parts segments p)"
    "sp_found (?stitch p) \<Longrightarrow> result_route (yen_env_of graph sources goals options) (?stitch p) \<and>
      subseq forced (sp_vertices (?stitch p))"
    "sp_found (?stitch p) \<Longrightarrow> lower_of segments p \<le> sp_cost (?stitch p)" if p: "p \<in> picks segments" for p
    using combination [OF g f s fits ne(1) P(3) [OF p] parts refl] ne(2) by (simp_all add: lower_of_def P(1) del: upt_Suc)
  have low: "lower_of segments p \<le> sp_cost (?stitch p)" if "p \<in> picks segments" "sp_found (?stitch p)" for p
    by (rule C(4) [OF that])
  have inj: "inj_on (sp_vertices \<circ> ?stitch) {p \<in> picks segments. sp_found (?stitch p)}"
  proof (rule inj_onI)
    fix p q assume p: "p \<in> {p \<in> picks segments. sp_found (?stitch p)}" and q: "q \<in> {p \<in> picks segments. sp_found (?stitch p)}"
      and eq: "(sp_vertices \<circ> ?stitch) p = (sp_vertices \<circ> ?stitch) q"
    have ne': "\<exists>a as. pick_parts segments x = a # as" for x unfolding parts by (simp add: upt_conv_Cons del: upt_Suc)
    obtain a as b bs where ab: "pick_parts segments p = a # as" "pick_parts segments q = b # bs" using ne' by blast
    have "a # as = b # bs"
    proof (rule joined_inj)
      show "chained (a # as)" "chained (b # bs)" using C(1) [of p] C(1) [of q] p q ab by simp_all
      have "length (a # as) = length (b # bs)" unfolding ab [symmetric] parts by simp
      then show "length as = length bs" by simp
      show "map last (butlast (a # as)) = map last (butlast (b # bs))"
        using C(1) [of p] C(1) [of q] p q ab by simp
      show "joined (a # as) = joined (b # bs)" "distinct (joined (a # as))"
        using C(2) [of p] C(2) [of q] p q eq ab by simp_all
    qed
    then have parts_eq: "pick_parts segments p = pick_parts segments q" using ab by simp
    have "p ! h = q ! h" if h: "h < length segments" for h
    proof -
      have "pick_parts segments p ! h = sp_vertices (segments ! h ! (p ! h))"
        "pick_parts segments q ! h = sp_vertices (segments ! h ! (q ! h))" using h by (simp_all add: pick_parts_def)
      moreover have "p ! h < length (segments ! h)" "q ! h < length (segments ! h)" using p q h by (auto simp: picks_def)
      moreover have "distinct (map sp_vertices (segments ! h))" using P(2) h by simp
      ultimately show ?thesis using parts_eq nth_eq_iff_index_eq [of "map sp_vertices (segments ! h)" "p ! h" "q ! h"] by simp
    qed
    then show "p = q" using p q by (auto simp: picks_def intro: nth_equalityI)
  qed
  have segs2: "\<forall>seg \<in> set segments. seg \<noteq> [] \<and> sorted (map sp_cost seg)" using P(2) by blast
  obtain E where E: "E \<subseteq> picks segments" "mset rs \<subseteq># stock ?stitch E" "length rs \<le> nat k" "sorted (map sp_cost rs)"
    and best: "\<And>p r. card (picks segments) \<le> max_stitched_picks \<Longrightarrow> p \<in> picks segments \<Longrightarrow> sp_found (?stitch p) \<Longrightarrow>
       ?stitch p \<notin> set rs \<Longrightarrow> int (length rs) = k \<and> (\<forall>r \<in> set rs. sp_cost r \<le> sp_cost (?stitch p))"
    by (rule merge_loop_result [OF segs2 k low rs]) blast+
  show "length rs \<le> nat k" "sorted (map sp_cost rs)" by (rule E(3), rule E(4))
  have fin: "finite E" using E(1) finite_subset finite_picks by blast
  let ?E = "{p \<in> E. sp_found (?stitch p)}"
  have "mset (map sp_vertices rs) \<subseteq># image_mset sp_vertices (stock ?stitch E)"
    using image_mset_subseteq_mono [OF E(2)] by simp
  also have "image_mset sp_vertices (stock ?stitch E) = image_mset (sp_vertices \<circ> ?stitch) (mset_set ?E)"
    unfolding stock_def multiset.map_comp by (simp add: filter_mset_mset_set fin)
  also have "\<dots> = mset_set ((sp_vertices \<circ> ?stitch) ` ?E)"
    by (rule image_mset_mset_set) (rule inj_on_subset [OF inj], use E(1) in blast)
  finally have "count (mset (map sp_vertices rs)) v \<le> 1" for v
    using fin mset_subset_eq_count [of "mset (map sp_vertices rs)" "mset_set ((sp_vertices \<circ> ?stitch) ` ?E)" v]
    by (auto simp: count_mset_set' split: if_splits)
  then show "distinct (map sp_vertices rs)" by (rule distinct_of_counts)
  show "result_route (yen_env_of graph sources goals options) r \<and> subseq forced (sp_vertices r)" if "r \<in> set rs"
  proof -
    have "r \<in># stock ?stitch E" using E(2) that by (metis mset_subset_eqD set_mset_mset)
    then obtain p where p: "p \<in> picks segments" "sp_found (?stitch p)" "r = ?stitch p"
      using E(1) fin by (auto simp: stock_def)
    then show ?thesis using C(3) [OF p(1)] by simp
  qed
  show "stitched \<in> set rs \<or> int (length rs) = k \<and> (\<forall>r \<in> set rs. sp_cost r \<le> sp_cost stitched)"
    if "pick \<in> picks segments" "stitched = ?stitch pick" "sp_found stitched" "card (picks segments) \<le> max_stitched_picks"
    using best [of pick] that by blast
qed

section \<open>FindPaths\<close>

lemma find_paths_result:
  assumes g: "graph_ok graph" and f: "filters_ok options" and s: "seeds_ok sources" "seeds_ok goals"
    and fits: "search_count_fits graph k" and d: "distinct forced"
  shows "\<exists>rs. find_paths graph sources goals forced k options = Some rs \<and>
    length rs \<le> nat k \<and> distinct (map sp_vertices rs) \<and> sorted (map sp_cost rs) \<and>
    (\<forall>r \<in> set rs. result_route (yen_env_of graph sources goals options) r \<and> subseq forced (sp_vertices r))"
proof (cases "k \<le> 0 \<or> forced = []")
  case True
  then show ?thesis by (simp add: find_paths_def)
next
  case False
  let ?hops = "[0..<Suc (length forced)]" and ?stitch = "stitch_for graph sources goals options"
  note fp = find_paths_def [of graph sources goals forced k options, unfolded Let_def if_not_P [OF False]]
  from hop_segments_spec [OF g f s(1) fits] obtain out where
    o: "hop_segments ?hops graph sources goals forced k options = Some out" and
    spec: "case out of None \<Rightarrow> \<exists>h \<in> set ?hops. hop_cands graph sources goals forced k options h = Some []
     | Some segments \<Rightarrow> list_all2 (\<lambda>h seg. \<exists>cands. hop_cands graph sources goals forced k options h = Some cands \<and>
         cands \<noteq> [] \<and> seg = sort_by cost_less cands) ?hops segments" by blast
  show ?thesis
  proof (cases out)
    case None
    then show ?thesis unfolding fp o by simp
  next
    case (Some segments)
    let ?rs = "ms_results (merge_loop (\<lambda>pick. ?stitch (pick_parts segments pick)) segments k (merge_start segments))"
    have segs: "list_all2 (\<lambda>h seg. \<exists>cands. hop_cands graph sources goals forced k options h = Some cands \<and>
         cands \<noteq> [] \<and> seg = sort_by cost_less cands) ?hops segments" using spec Some by simp
    have k: "0 < k" "forced \<noteq> []" using False by auto
    note M = merged_routes [OF g f s(1) fits k(2) d k(1) segs refl]
    show ?thesis
    proof (cases "?rs = []")
      case False
      then have "find_paths graph sources goals forced k options = Some ?rs" unfolding fp o Some by simp
      then show ?thesis using M(1-4) by blast
    next
      case True
      have "greedy_ok graph forced options 0 []" by (simp add: greedy_ok_def)
      from greedy_hops_result [OF g f s(2) d _ this] obtain path where
        gr: "greedy_hops ?hops graph sources goals forced options [] = Some path" and
        ok: "\<And>p. path = Some p \<Longrightarrow> greedy_ok graph forced options (Suc (length forced)) p" by blast
      show ?thesis
      proof (cases path)
        case None
        then show ?thesis unfolding fp o Some using True gr by simp
      next
        case (Some p)
        have fpr: "find_paths graph sources goals forced k options =
            Some (if sp_found (?stitch [p]) then [?stitch [p]] else [])"
          unfolding fp o \<open>out = Some segments\<close> using True gr Some by simp
        have p: "\<forall>v \<in> set p. is_vertex graph v \<and> \<not> node_blocks (so_node_filter options) v" "p \<noteq> []" "subseq forced p"
          using ok [OF Some] by (simp_all add: greedy_ok_def)
        have "result_route (yen_env_of graph sources goals options) (?stitch [p]) \<and> subseq forced (sp_vertices (?stitch [p]))"
          if found: "sp_found (?stitch [p])"
        proof
          show "result_route (yen_env_of graph sources goals options) (?stitch [p])"
            by (rule stitch_result_route [OF found]) (use p in auto)
          have "sp_vertices (?stitch [p]) = p"
            using found p(2) by (auto simp: stitch_for_def stitch_and_cost_def shortest_path_default_def split: option.splits if_splits)
          then show "subseq forced (sp_vertices (?stitch [p]))" using p(3) by simp
        qed
        then show ?thesis unfolding fpr using k by auto
      qed
    qed
  qed
qed

lemma find_paths_best:
  assumes g: "graph_ok graph" and f: "filters_ok options" and s: "seeds_ok sources"
    and fits: "search_count_fits graph k" and d: "distinct forced" and k: "0 < k" "forced \<noteq> []"
    and budget: "nat k ^ Suc (length forced) \<le> max_stitched_picks"
    and c: "\<And>h. h \<le> length forced \<Longrightarrow> hop_cands graph sources goals forced k options h = Some (cands h) \<and> r h \<in> set (cands h)"
    and st: "stitched = stitch_for graph sources goals options (map (\<lambda>h. sp_vertices (r h)) [0..<Suc (length forced)])"
    and found: "sp_found stitched" and rs: "find_paths graph sources goals forced k options = Some rs"
  shows "stitched \<in> set rs \<or> int (length rs) = k \<and> (\<forall>x \<in> set rs. sp_cost x \<le> sp_cost stitched)"
proof -
  let ?hops = "[0..<Suc (length forced)]" and ?stitch = "stitch_for graph sources goals options"
  have False: "\<not> (k \<le> 0 \<or> forced = [])" using k by auto
  note fp = find_paths_def [of graph sources goals forced k options, unfolded Let_def if_not_P [OF False]]
  from hop_segments_spec [OF g f s(1) fits] obtain out where
    o: "hop_segments ?hops graph sources goals forced k options = Some out" and
    spec: "case out of None \<Rightarrow> \<exists>h \<in> set ?hops. hop_cands graph sources goals forced k options h = Some []
     | Some segments \<Rightarrow> list_all2 (\<lambda>h seg. \<exists>cands. hop_cands graph sources goals forced k options h = Some cands \<and>
         cands \<noteq> [] \<and> seg = sort_by cost_less cands) ?hops segments" by blast
  have "out \<noteq> None"
  proof
    assume "out = None"
    then obtain h where "h \<in> set ?hops" "hop_cands graph sources goals forced k options h = Some []"
      using spec by (simp only: option.case) blast
    moreover have "h \<le> length forced" using calculation(1) by auto
    ultimately show False using c by fastforce
  qed
  then obtain segments where out: "out = Some segments" by blast
  have segs: "list_all2 (\<lambda>h seg. \<exists>cands. hop_cands graph sources goals forced k options h = Some cands \<and>
       cands \<noteq> [] \<and> seg = sort_by cost_less cands) ?hops segments" using spec out by simp
  note P = pick_parts_combination [OF g f s fits segs]
  note M = merged_routes [OF g f s fits k(2) d k(1) segs refl]
  have "\<exists>i. i < length (segments ! h) \<and> segments ! h ! i = r h" if "h \<le> length forced" for h
    using P(5) [OF that conjunct1 [OF c [OF that]]] c [OF that] by (metis in_set_conv_nth)
  then obtain ix where ix: "\<And>h. h \<le> length forced \<Longrightarrow> ix h < length (segments ! h) \<and> segments ! h ! ix h = r h" by metis
  let ?pick = "map ix ?hops"
  have at: "?pick ! h = ix h" if "h \<le> length forced" for h using that nth_map_upt [of h "Suc (length forced)" 0 ix] by simp
  have pick: "?pick \<in> picks segments" unfolding picks_def using ix at P(1) by (auto simp del: upt_Suc simp: less_Suc_eq_le)
  have parts: "pick_parts segments ?pick = map (\<lambda>h. sp_vertices (r h)) ?hops"
    unfolding pick_parts_def P(1) using ix at by (intro map_cong refl) (auto simp del: upt_Suc)
  have "card (picks segments) \<le> nat k ^ Suc (length forced)"
  proof -
    have "picks segments \<subseteq> {p. set p \<subseteq> {..<nat k} \<and> length p = Suc (length forced)}"
    proof
      fix p assume p: "p \<in> picks segments"
      have "x < nat k" if "x \<in> set p" for x
      proof -
        from that p obtain h where "h \<le> length forced" "x = p ! h" "x < length (segments ! h)"
          unfolding picks_def P(1) in_set_conv_nth by (metis (mono_tags, lifting) less_Suc_eq_le mem_Collect_eq)
        then show ?thesis using P(4) [of h] by simp
      qed
      then show "p \<in> {p. set p \<subseteq> {..<nat k} \<and> length p = Suc (length forced)}" using p by (auto simp: picks_def P(1))
    qed
    then have "card (picks segments) \<le> card {p. set p \<subseteq> {..<nat k} \<and> length p = Suc (length forced)}"
      by (rule card_mono [rotated]) (simp add: finite_lists_length_eq)
    then show ?thesis by (simp add: card_lists_length_eq)
  qed
  then have b: "card (picks segments) \<le> max_stitched_picks" using budget by simp
  let ?rs = "ms_results (merge_loop (\<lambda>pick. ?stitch (pick_parts segments pick)) segments k (merge_start segments))"
  note best = M(5) [OF pick _ found b, unfolded parts, OF st]
  then have "?rs \<noteq> []" using k by auto
  then have "rs = ?rs" using rs unfolding fp o out by simp
  then show ?thesis using best by simp
qed

section \<open>Properties\<close>

text \<open>
  C9: Forced routing always returns. It returns at most k routes, pairwise different and in ascending order of
  cost; each is loopless, usable, passes the forced vertices in order and is reported with exactly the cost and
  distance of the whole route, the turns at the forced points and both seeds included. This covers the
  best-first merge and the greedy fallback.
\<close>

theorem forced_routes_sound:
  assumes "graph_ok graph" and "filters_ok options" and "seeds_ok sources" and "seeds_ok goals"
    and "search_count_fits graph k" and "distinct forced"
  shows "\<exists>rs. find_paths graph sources goals forced k options = Some rs \<and>
    length rs \<le> nat k \<and> distinct (map sp_vertices rs) \<and> sorted (map sp_cost rs) \<and>
    (\<forall>r \<in> set rs. result_route (yen_env_of graph sources goals options) r \<and> subseq forced (sp_vertices r))"
  by (rule find_paths_result [OF assms])

lemma forced_routes_sound_witness:
  "\<exists>rs. find_paths sample_graph sample_sources sample_goals [1] 2 sample_options = Some rs \<and>
     length rs \<le> 2 \<and> (\<forall>r \<in> set rs. subseq [1] (sp_vertices r))"
proof -
  have "search_count_fits sample_graph 2" by (simp add: search_count_fits_def sample_graph_def)
  from forced_routes_sound [OF sample_graph_ok sample_filters sample_seeds this, of "[1]"] show ?thesis by auto
qed

text \<open>
  C8: The best-first merge misses nothing: whenever the k candidates of every hop can be combined within the
  stitching budget, a loopless combination of hop candidates is either returned or k routes are returned that
  cost no more than it.
\<close>

theorem forced_routes_cheapest:
  assumes "graph_ok graph" and "filters_ok options" and "seeds_ok sources" and "search_count_fits graph k"
    and "distinct forced" and "0 < k" and "forced \<noteq> []" and "nat k ^ Suc (length forced) \<le> max_stitched_picks"
    and "\<And>h. h \<le> length forced \<Longrightarrow>
      find_k_shortest_paths_multi graph (hop_sources sources forced no_bearing h) (hop_goals goals forced h) k options =
        Some (cands h) \<and> r h \<in> set (cands h)"
    and "stitched = stitch_for graph sources goals options (map (\<lambda>h. sp_vertices (r h)) [0..<Suc (length forced)])"
    and "sp_found stitched" and "find_paths graph sources goals forced k options = Some rs"
  shows "stitched \<in> set rs \<or> int (length rs) = k \<and> (\<forall>x \<in> set rs. sp_cost x \<le> sp_cost stitched)"
  by (rule find_paths_best [where cands = cands and r = r, OF assms(1-8) _ assms(10-12)])
    (simp only: hop_cands_def assms(9))

text \<open>The hops 0 to 1 and 1 to 2 of the sample network have one candidate each.\<close>

lemma edge_sums_select:
  "edge_sums graph options uvs = Some x \<Longrightarrow> (u, v) \<in> set uvs \<Longrightarrow> select_edge graph u v options \<noteq> None"
proof (induction uvs arbitrary: x rule: rev_induct)
  case (snoc uv uvs)
  have "edge_sums graph options (uvs @ [uv]) = cost_step graph options (edge_sums graph options uvs) uv"
    by (simp add: edge_sums_def)
  then have st: "cost_step graph options (edge_sums graph options uvs) uv = Some x" using snoc.prems(1) by simp
  then have "edge_sums graph options uvs \<noteq> None" by (rule contrapos_pn) (simp add: cost_step_def)
  then obtain y where "edge_sums graph options uvs = Some y" by blast
  then have y: "edge_sums graph options uvs = Some y" "cost_step graph options (Some y) uv \<noteq> None" using st by simp_all
  from y(2) have "uv = (u, v) \<Longrightarrow> select_edge graph u v options \<noteq> None"
    by (auto simp: cost_step_def split: option.splits prod.splits if_splits)
  then show ?case using snoc.IH [OF y(1)] snoc.prems(2) by auto
qed simp

lemma sample_step:
  assumes "select_edge sample_graph u v options \<noteq> None" and "is_vertex sample_graph u"
  shows "u < v"
proof -
  obtain e c where "select_edge sample_graph u v options = Some (e, c)" using assms(1) by auto
  then have e: "e \<in> set (out_edges sample_graph u)" "edge_to e = v" by (rule select_edge_Some)+
  have "u = 0 \<or> u = 1 \<or> u = 2" using assms(2) by (auto simp: is_vertex_def vertex_count_def sample_graph_def)
  then show ?thesis using e
    by (auto simp: out_edges_def sample_graph_def sample_edge_def edge_to_def Let_def)
qed

lemma sample_hop:
  assumes h: "h \<le> 1" and c: "hop_cands sample_graph sample_sources sample_goals [1] 2 sample_options h = Some cands"
    and r: "r \<in> set cands"
  shows "sp_vertices r = (if h = 0 then [0, 1] else [1, 2])"
proof -
  have fits: "search_count_fits sample_graph 2" by (simp add: search_count_fits_def sample_graph_def)
  note C = hop_candidate [OF sample_graph_ok sample_filters sample_seeds(1) fits c r]
  let ?p = "sp_vertices r"
  have p: "?p \<noteq> []" "\<forall>v \<in> set ?p. is_vertex sample_graph v" using C(1) by blast+
  obtain e d where e: "cost_of_path sample_graph ?p sample_options
        (if h = 0 then build_bearing_table sample_sources (vertex_count sample_graph) ! nat (hd ?p) else no_bearing)
        (if h = length [1 :: int] then build_bearing_table sample_goals (vertex_count sample_graph) ! nat (last ?p)
         else no_bearing) = Some (e, d)" using C(6) by blast
  then obtain x where "edge_sums sample_graph sample_options (zip ?p (tl ?p)) = Some x"
    unfolding cost_of_path_sums [OF p(1)] by (auto split: if_splits)
  then have "u < v" if "(u, v) \<in> set (zip ?p (tl ?p))" for u v
    using edge_sums_select [OF _ that] sample_step p(2) set_zip_leftD [OF that] by blast
  moreover have "(?p ! i, ?p ! Suc i) \<in> set (zip ?p (tl ?p))" if "Suc i < length ?p" for i
    using that by (auto simp: set_zip nth_tl intro!: exI [of _ i])
  ultimately have "?p ! i < ?p ! Suc i" if "Suc i < length ?p" for i using that by blast
  then have up: "sorted_wrt (<) ?p" by (simp add: sorted_wrt_iff_nth_Suc_transp)
  have hd0: "h = 0 \<Longrightarrow> hd ?p = 0"
  proof -
    assume "h = 0"
    then have s: "0 \<le> build_seed_table sample_sources (vertex_count sample_graph) ! nat (hd ?p)" by (rule C(4))
    have "is_vertex sample_graph (hd ?p)" using p by simp
    then show ?thesis
      using s build_seed_table_cheapest [OF sample_seeds(1), of "hd ?p" "vertex_count sample_graph"]
      by (auto simp: is_vertex_def sample_sources_def cheapest_seed_def split: if_splits)
  qed
  have last1: "h = 1 \<Longrightarrow> last ?p = 2"
  proof -
    assume "h = 1"
    then have s: "0 \<le> build_seed_table sample_goals (vertex_count sample_graph) ! nat (last ?p)" using C(5) by simp
    have "is_vertex sample_graph (last ?p)" using p by simp
    then show ?thesis
      using s build_seed_table_cheapest [OF sample_seeds(2), of "last ?p" "vertex_count sample_graph"]
      by (auto simp: is_vertex_def sample_goals_def cheapest_seed_def split: if_splits)
  qed
  have chain: "sorted_wrt (<) q \<Longrightarrow> q \<noteq> [] \<Longrightarrow> last q = hd q + 1 \<Longrightarrow> q = [hd q, hd q + 1]" for q :: "int list"
  proof -
    assume q: "sorted_wrt (<) q" "q \<noteq> []" "last q = hd q + 1"
    then obtain a xs where a: "q = a # xs" by (cases q) auto
    then have "xs \<noteq> []" "last xs = a + 1" using q(3) by (auto split: if_splits)
    then obtain y ys where y: "xs = y # ys" by (cases xs) auto
    show "q = [hd q, hd q + 1]"
    proof (cases "ys = []")
      case False
      then have "last ys \<in> set ys" by simp
      moreover have "last ys = a + 1" using False \<open>last xs = a + 1\<close> y by simp
      ultimately have "last ys \<in> set ys" "last ys = a + 1" by blast+
      then have "y < a + 1" "a < y" using q(1) a y by auto
      then show ?thesis by simp
    qed (use a y \<open>last xs = a + 1\<close> in simp)
  qed
  show ?thesis
  proof (cases "h = 0")
    case True
    then show ?thesis using chain [OF up p(1)] hd0 C(3) by simp
  next
    case False
    then have "h = 1" using h by simp
    then show ?thesis using chain [OF up p(1)] last1 C(2) by simp
  qed
qed

lemma sample_hop_found:
  assumes "h \<le> 1"
  obtains cands where "hop_cands sample_graph sample_sources sample_goals [1] 2 sample_options h = Some cands" "cands \<noteq> []"
proof -
  let ?hs = "hop_sources sample_sources [1] no_bearing h" and ?hg = "hop_goals sample_goals [1] h"
  let ?env = "search_env_of sample_graph ?hs ?hg sample_options"
  have env: "en_graph (search_env_of sample_graph s g sample_options) = sample_graph"
    "en_options (search_env_of sample_graph s g sample_options) = sample_options" for s g
    by (simp_all add: search_env_of_def Let_def)
  have et: "edge_to (sample_edge 1 7000 1) = 1" "edge_to (sample_edge 2 7000 1) = 2"
    by (simp_all add: edge_to_def sample_edge_def)
  have fits: "search_count_fits sample_graph 2" by (simp add: search_count_fits_def sample_graph_def)
  have seeds: "seeds_ok ?hg" by (simp add: hop_goals_def via_endpoint_def seeds_ok_def) (simp add: sample_goals_def)
  have filters: "\<not> node_blocks (so_node_filter sample_options) v" "\<not> edge_blocks (so_edge_filter sample_options) u v" for u v
    by (simp_all add: sample_options_def search_options_default_def node_filter_default_def node_blocks_def
        edge_blocks_def no_vertex_def)
  have cost: "edge_cost sample_graph sample_options u (sample_edge to 7000 1) = Some 7000" for u to
    by (simp add: edge_cost_def edge_allowed_def sample_options_def search_options_default_def Let_def
        evaluate_level_preference_def route_request_default_def sample_edge_def)
  have e: "sample_edge 1 7000 1 \<in> set (out_edges sample_graph 0)" "sample_edge 2 7000 1 \<in> set (out_edges sample_graph 1)"
    by (simp_all add: out_edges_def sample_graph_def Let_def)
  have goal: "is_goal ?env (if h = 0 then 1 else 2)"
    using build_seed_table_cheapest [OF seeds, of "if h = 0 then 1 else 2" 3] assms
    by (auto simp: is_goal_def search_env_of_def Let_def vertex_count_def sample_graph_def is_vertex_def hop_goals_def
        via_endpoint_def cheapest_seed_def sample_goals_def split: if_splits)
  have reach: "\<exists>c. reach ?env ?hs (if h = 0 then 1 else 2) c"
  proof (cases "h = 0")
    case True
    define s where "s = hd sample_sources"
    have "s \<in> set ?hs" "se_vertex s = 0" "se_cost s = 10"
      using True by (simp_all add: s_def hop_sources_def sample_sources_def)
    then have "reach ?env ?hs 0 10" using reach.source [of s ?hs ?env] by (simp add: env filters)
    from reach.edge [OF this, of "sample_edge 1 7000 1" 7000] show ?thesis
      using True e(1) by (auto simp: env filters cost et)
  next
    case False
    define s where "s = via_endpoint 1 no_bearing"
    have "s \<in> set ?hs" "se_vertex s = 1" "se_cost s = 0"
      using False assms by (simp_all add: s_def hop_sources_def via_endpoint_def)
    then have "reach ?env ?hs 1 0" using reach.source [of s ?hs ?env] by (simp add: env filters)
    from reach.edge [OF this, of "sample_edge 2 7000 1" 7000] show ?thesis
      using False e(2) by (auto simp: env filters cost et)
  qed
  from find_k_result [OF sample_graph_ok sample_filters hop_sources_ok [OF sample_seeds(1), of "[1]" no_bearing h] fits, of ?hg]
  obtain cands where c: "hop_cands sample_graph sample_sources sample_goals [1] 2 sample_options h = Some cands"
    "cands = [] \<Longrightarrow> ?hg \<noteq> [] \<Longrightarrow> \<exists>r. find_shortest_path_multi sample_graph ?hs ?hg sample_options = Some r \<and> \<not> sp_found r"
    unfolding hop_cands_def by auto
  have "cands \<noteq> []"
  proof
    assume "cands = []"
    moreover have "?hg \<noteq> []" by (simp add: hop_goals_def sample_goals_def)
    ultimately obtain r where r: "find_shortest_path_multi sample_graph ?hs ?hg sample_options = Some r" "\<not> sp_found r"
      using c(2) by blast
    obtain r' where r': "find_shortest_path_multi sample_graph ?hs ?hg sample_options = Some r'"
      "seeds_ok ?hg \<Longrightarrow> sp_found r' \<longleftrightarrow> (\<exists>v c. reach ?env ?hs v c \<and> is_goal ?env v)"
      by (rule find_shortest_path_multi_result [OF sample_graph_ok, of ?hs ?hg sample_options]) blast
    show False using r r' reach goal seeds by auto
  qed
  with c(1) show thesis by (rule that)
qed

lemma forced_routes_cheapest_witness:
  "\<exists>rs stitched. find_paths sample_graph sample_sources sample_goals [1] 2 sample_options = Some rs \<and>
     sp_vertices stitched = [0, 1, 2] \<and>
     (stitched \<in> set rs \<or> int (length rs) = 2 \<and> (\<forall>x \<in> set rs. sp_cost x \<le> sp_cost stitched))"
proof -
  have fits: "search_count_fits sample_graph 2" by (simp add: search_count_fits_def sample_graph_def)
  obtain c0 where c0: "hop_cands sample_graph sample_sources sample_goals [1] 2 sample_options 0 = Some c0" "c0 \<noteq> []"
    by (rule sample_hop_found [of 0]) simp_all
  obtain c1 where c1: "hop_cands sample_graph sample_sources sample_goals [1] 2 sample_options 1 = Some c1" "c1 \<noteq> []"
    by (rule sample_hop_found [of 1]) simp_all
  let ?cands = "\<lambda>h :: nat. if h = 0 then c0 else c1"
  let ?r = "\<lambda>h. hd (?cands h)"
  let ?st = "stitch_for sample_graph sample_sources sample_goals sample_options (map (\<lambda>h. sp_vertices (?r h)) [0..<Suc (length [1 :: int])])"
  have c: "hop_cands sample_graph sample_sources sample_goals [1] 2 sample_options h = Some (?cands h) \<and> ?r h \<in> set (?cands h)"
    if "h \<le> length [1 :: int]" for h
  proof -
    have "h = 0 \<or> h = 1" using that by auto
    then show ?thesis using c0 c1 by auto
  qed
  have v: "sp_vertices (hd c0) = [0, 1]" "sp_vertices (hd c1) = [1, 2]"
    using sample_hop [OF _ c0(1), of "hd c0"] sample_hop [OF _ c1(1), of "hd c1"] c0(2) c1(2) by simp_all
  have parts: "joined (map (\<lambda>h. sp_vertices (?r h)) [0..<Suc (length [1 :: int])]) = [0, 1, 2]"
    by (simp add: v joined_def upt_rec)
  have "\<And>h. h \<le> length [1 :: int] \<Longrightarrow>
      \<exists>cands. hop_cands sample_graph sample_sources sample_goals [1] 2 sample_options h = Some cands \<and> ?r h \<in> set cands"
    using c by blast
  note comb = combination [OF sample_graph_ok sample_filters sample_seeds(1) fits, where forced = "[1]" and r = ?r, OF _ this refl refl]
  have found: "sp_found ?st" "sp_vertices ?st = [0, 1, 2]" using comb(3,4) by (simp_all only: parts) simp_all
  obtain rs where rs: "find_paths sample_graph sample_sources sample_goals [1] 2 sample_options = Some rs"
    using find_paths_result [OF sample_graph_ok sample_filters sample_seeds fits, of "[1]"] by auto
  have "?st \<in> set rs \<or> int (length rs) = 2 \<and> (\<forall>x \<in> set rs. sp_cost x \<le> sp_cost ?st)"
    by (rule forced_routes_cheapest [where cands = ?cands and r = ?r,
          OF sample_graph_ok sample_filters sample_seeds(1) fits _ _ _ _ _ refl found(1) rs])
      (simp_all add: max_stitched_picks_def c [unfolded hop_cands_def] del: upt_Suc)
  then show ?thesis using rs found(2) by blast
qed

end
