(* ===== verification/ProcedureConnectorCorrect.thy ===== *)
theory ProcedureConnectorCorrect
  imports SeedPool BuiltNetwork
begin

text \<open>
  What \<^verbatim>\<open>io/build/procedure_connector.cc\<close> promises the search: connections at fixes that are on the
  network in the right direction, one per fix, with the least seed found for it, non-negative, never shorter
  than the splice it contains, in ascending order of seed.
\<close>

section \<open>Where a leg's fix resolves to\<close>

lemma near_step_cases:
  "near_step graph near best e = best \<or> (\<exists>nm. near_step graph near best e = (snd e, nm))"
  by (cases best) (simp add: near_step_def Let_def)

lemma near_fold_mem:
  "fst (foldl (near_step graph near) best es) \<in> insert (fst best) (snd ` set es)"
proof (induction es arbitrary: best)
  case (Cons e es)
  from Cons.IH [of "near_step graph near best e"] near_step_cases [of graph near best e] show ?case
    by auto
qed simp

lemma index_vertex:
  assumes "network_ok b" and "e \<in> set (gb_ident_index b)"
  shows "is_vertex (gb_graph b) (snd e) \<and> snd e < gb_first_airport_vertex b"
proof -
  have i: "indexed b" "length (gb_idents b) = length (ng_coords (gb_graph b))"
    using assms(1) by (simp_all add: network_ok_def)
  then show ?thesis
    using assms(2) unfolding indexed_sel(1) [OF i(1)]
    by (auto simp: is_vertex_def vertex_count_def indexed_def)
qed

lemma resolve_fix_vertex:
  assumes "network_ok b" and "0 \<le> resolve_fix b leg"
  shows "is_vertex (gb_graph b) (resolve_fix b leg)"
proof -
  let ?idx = "gb_ident_index b" and ?key = "leg_fix leg"
  have "resolve_fix b leg \<in> insert (- 1) (snd ` set ?idx)"
  proof -
    have "vertex_by_fixed b ?key \<in> insert (- 1) (snd ` set ?idx)"
      by (auto simp: vertex_by_fixed_def first_match_def Let_def)
    moreover have "set (equal_run fixed_ident_less fixed_ident_eq ?idx ?key) \<subseteq> set ?idx"
      unfolding equal_run_def by (meson in_set_dropD set_takeWhileD subsetI)
    then have "vertex_near b ?key c m \<in> insert (- 1) (snd ` set ?idx)" for c m
      unfolding vertex_near_def
      using near_fold_mem [of "gb_graph b" c "(- 1, m)" "equal_run fixed_ident_less fixed_ident_eq ?idx ?key"] by auto
    ultimately show ?thesis by (simp add: resolve_fix_def no_vertex_def)
  qed
  then show ?thesis using assms index_vertex by auto
qed

lemma leg_vertex_vertex:
  "network_ok b \<Longrightarrow> 0 \<le> leg_vertex b leg \<Longrightarrow> is_vertex (gb_graph b) (leg_vertex b leg)"
  using resolve_fix_vertex by (auto simp: leg_vertex_def no_vertex_def split: if_splits)

section \<open>Walks\<close>

definition bearing_ok :: "real \<Rightarrow> bool" where
  "bearing_ok x \<longleftrightarrow> x = no_bearing \<or> 0 \<le> x \<and> x < 360"

lemma bearing_ok_simps [simp]: "bearing_ok (bearing_to p q)" "bearing_ok no_bearing"
  using bearing_to_range by (simp_all add: bearing_ok_def)

lemma distance_nonneg [simp]: "0 \<le> distance_to p q"
  using distance_to_angle by blast

lemma span_nm_nonneg: "0 \<le> span_nm pending prev here"
  by (simp add: span_nm_def split: option.splits)

definition hit_ok :: "walk_dir \<Rightarrow> graph_builder \<Rightarrow> walk_result \<Rightarrow> real \<Rightarrow> fix_hit \<Rightarrow> bool" where
  "hit_ok dir b r limit h \<longleftrightarrow>
     dir_usable dir b (fh_vertex h) \<and> 0 \<le> fh_cumulative_nm h \<and> fh_cumulative_nm h \<le> limit \<and>
     fh_resolved_index h < length (wr_resolved r) \<and>
     wr_resolved r ! fh_resolved_index h = coord_of (gb_graph b) (fh_vertex h)"

definition walk_ok :: "walk_dir \<Rightarrow> graph_builder \<Rightarrow> walk_state \<Rightarrow> bool" where
  "walk_ok dir b st \<longleftrightarrow>
     0 \<le> wk_cumulative st \<and> (\<forall>h \<in> set (wr_hits (wk_result st)). hit_ok dir b (wk_result st) (wk_cumulative st) h)"

lemma walk_leg_ok:
  assumes "walk_ok dir b st"
  shows "walk_ok dir b (walk_leg p b dir st i)"
proof (cases "leg_vertex b (proc_legs p ! i) < 0")
  case False
  let ?here = "coord_of (gb_graph b) (leg_vertex b (proc_legs p ! i))"
  have s: "0 \<le> span_nm (wk_pending_nm st) (wk_prev_coord st) ?here" by (rule span_nm_nonneg)
  have "hit_ok dir b (wk_result (walk_leg p b dir st i)) (wk_cumulative (walk_leg p b dir st i)) h"
    if "h \<in> set (wr_hits (wk_result (walk_leg p b dir st i)))" for h
  proof (cases "h \<in> set (wr_hits (wk_result st))")
    case True
    then have "hit_ok dir b (wk_result st) (wk_cumulative st) h" using assms by (simp add: walk_ok_def)
    then show ?thesis using s False by (auto simp: walk_leg_def Let_def hit_ok_def nth_append)
  next
    case new: False
    then show ?thesis
      using that s False assms by (auto simp: walk_leg_def Let_def hit_ok_def walk_ok_def split: if_splits)
  qed
  moreover have "0 \<le> wk_cumulative (walk_leg p b dir st i)"
    using s False assms by (simp add: walk_leg_def Let_def walk_ok_def)
  ultimately show ?thesis by (simp add: walk_ok_def)
qed (use assms in \<open>simp add: walk_leg_def Let_def walk_ok_def\<close>)

lemma walk_hits_ok:
  assumes "h \<in> set (wr_hits (walk_on_network_fixes p b dir))"
  shows "hit_ok dir b (walk_on_network_fixes p b dir) (wr_total_nm (walk_on_network_fixes p b dir)) h"
proof -
  have fold: "walk_ok dir b (foldl (walk_leg p b dir) st is)" if "walk_ok dir b st" for st "is"
    using that by (induction "is" arbitrary: st) (simp_all add: walk_leg_ok)
  define st where "st = foldl (walk_leg p b dir)
    \<lparr>wk_result = \<lparr>wr_hits = [], wr_resolved = [], wr_total_nm = 0\<rparr>, wk_cumulative = 0,
     wk_prev_coord = None, wk_pending_nm = 0\<rparr> [0..<length (proc_legs p)]"
  have "walk_ok dir b st" unfolding st_def by (rule fold) (simp add: walk_ok_def)
  moreover have "walk_on_network_fixes p b dir = (wk_result st)\<lparr>wr_total_nm := wk_cumulative st\<rparr>"
    by (simp add: walk_on_network_fixes_def st_def Let_def)
  ultimately show ?thesis using assms by (simp add: walk_ok_def hit_ok_def)
qed

lemma walk_segment_nonneg:
  assumes "0 \<le> sg_cumulative st" and "0 \<le> pw_nm (sg_out st)"
  shows "0 \<le> pw_nm (sg_out (walk_segment_legs legs b v stop st))"
  using assms
proof (induction legs arbitrary: st stop)
  case (Cons leg legs)
  have "0 \<le> sg_cumulative st + span_nm (sg_pending_nm st) (sg_prev_coord st) here" for here
    using Cons.prems(1) span_nm_nonneg by simp
  then show ?case using Cons.prems by (simp add: Let_def Cons.IH)
qed simp

lemma walk_approach_nonneg: "walk_approach_segment p b v stop = Some w \<Longrightarrow> 0 \<le> pw_nm w"
  using walk_segment_nonneg [of _ "proc_legs p" b v stop]
  by (auto simp: walk_approach_segment_def Let_def approach_walk_empty_def split: if_splits)

lemma star_body_nonneg: "0 \<le> star_body_and_stub p v airport b"
  using walk_approach_nonneg by (fastforce simp: star_body_and_stub_def Let_def split: option.splits)

lemma sid_body_nonneg: "0 \<le> sid_body_to_exit p v airport b"
  using walk_approach_nonneg by (fastforce simp: sid_body_to_exit_def Let_def split: option.splits)

lemma approach_body_ok:
  "0 \<le> fst (approach_body_and_stub p v cifp airport b no_bearing) \<and>
   bearing_ok (snd (approach_body_and_stub p v cifp airport b no_bearing))"
  using walk_approach_nonneg
  by (auto simp: approach_body_and_stub_def Let_def split: option.splits prod.splits if_splits)

section \<open>Findings\<close>

text \<open>A finding at a fix: usable in the direction flown, priced no lower than the splice in it.\<close>

definition splice_ok :: "graph_builder \<Rightarrow> walk_dir \<Rightarrow> connection \<Rightarrow> bool" where
  "splice_ok b dir c \<longleftrightarrow>
     (if cn_splice_vertex c = no_vertex then cn_splice_leg_nm c = 0
      else is_vertex (gb_graph b) (cn_splice_vertex c) \<and> \<not> dir_usable dir b (cn_splice_vertex c) \<and>
        cn_splice_leg_nm c = distance_to (coord_of (gb_graph b) (cn_fix_vertex c))
          (coord_of (gb_graph b) (cn_splice_vertex c)) \<and>
        cn_splice_leg_nm c \<le> cn_seed_distance_nm c)"

definition connection_ok :: "graph_builder \<Rightarrow> walk_dir \<Rightarrow> connection \<Rightarrow> bool" where
  "connection_ok b dir c \<longleftrightarrow>
     dir_usable dir b (cn_fix_vertex c) \<and> 0 \<le> cn_seed_distance_nm c \<and> bearing_ok (cn_bearing c) \<and>
     bearing_ok (cn_approach_bearing c) \<and> splice_ok b dir c"

lemma connection_ok_priced:
  assumes "priced_as c f" and "connection_ok b dir f"
  shows "connection_ok b dir c"
  using assms(2) unfolding connection_ok_def splice_ok_def priced_as_sel(1-6) [OF assms(1)] .

lemma side_findings_ok:
  assumes "f \<in> set (side_findings want dir airport b runway p)"
  shows "connection_ok b dir f \<and> length (cn_procedures f) = 1"
proof -
  let ?w = "walk_on_network_fixes p b dir"
  obtain h where h: "h \<in> set (wr_hits ?w)" and f: "f = gate_finding p dir airport ?w h"
    using assms by (auto simp: side_findings_def Let_def split: if_splits)
  note ok = walk_hits_ok [OF h, unfolded hit_ok_def]
  have bridge: "0 \<le> runway_bridge dir airport ?w" by (simp add: runway_bridge_def)
  show ?thesis
    using ok bridge by (cases dir) (simp_all add: f connection_ok_def splice_ok_def gate_finding_def finding_def Let_def)
qed

lemma gate_vertex: "network_ok b \<Longrightarrow> \<not> resolve_fix b leg < 0 \<Longrightarrow>
    is_vertex (gb_graph b) (resolve_fix b leg) \<and> resolve_fix b leg \<noteq> no_vertex"
  using resolve_fix_vertex by (auto simp: no_vertex_def)

lemma nearest_usable:
  "network_ok b \<Longrightarrow> v \<in> set (nearest_on_network b coord n inbound) \<Longrightarrow>
   dir_usable (if inbound then Inbound else Outbound) b v"
  by (auto simp: network_ok_def nearest_ok_def dir_usable_def split: if_splits)

lemma star_splice_findings_ok:
  assumes "network_ok b" and "f \<in> set (star_splice_findings p airport b avoid leg)"
  shows "connection_ok b Inbound f \<and> length (cn_procedures f) = 1"
  using assms(2) gate_vertex [OF assms(1), of leg] nearest_usable [OF assms(1), of _ _ _ True] star_body_nonneg
  by (auto simp: star_splice_findings_def Let_def connection_ok_def splice_ok_def finding_def dir_usable_def
      distance_to_sym split: if_splits)

lemma sid_splice_findings_ok:
  assumes "network_ok b" and "f \<in> set (sid_splice_findings p airport b avoid)"
  shows "connection_ok b Outbound f \<and> length (cn_procedures f) = 1"
  using assms(2) gate_vertex [OF assms(1), of "proc_legs p ! last_fix_bearing_leg p"]
    nearest_usable [OF assms(1), of _ _ _ False] sid_body_nonneg
  by (auto simp: sid_splice_findings_def Let_def connection_ok_def splice_ok_def finding_def dir_usable_def
      distance_to_sym split: if_splits)

lemma approach_findings_ok:
  assumes "network_ok b" and "f \<in> set (approach_findings p cifp airport b leg)"
  shows "connection_ok b Inbound f \<and> length (cn_procedures f) = 1"
proof -
  obtain body h where bh: "approach_body_and_stub p (resolve_fix b leg) cifp airport b no_bearing = (body, h)"
    by fastforce
  then have body: "0 \<le> body" "bearing_ok h" using approach_body_ok [of p "resolve_fix b leg" cifp airport b] by simp_all
  show ?thesis
    using assms(2) gate_vertex [OF assms(1), of leg] nearest_usable [OF assms(1), of _ _ _ True] body
    by (auto simp: approach_findings_def Let_def connection_ok_def splice_ok_def finding_def dir_usable_def bh
        split: if_splits)
qed

section \<open>Whole pools\<close>

lemma foldl_concat: "foldl (\<lambda>s x. foldl f s (g x)) a xs = foldl f a (concat (map g xs))"
  by (induction xs arbitrary: a) simp_all

lemma foldl_skip: "foldl (\<lambda>s x. if P x then s else f s x) a xs = foldl f a (filter (\<lambda>x. \<not> P x) xs)"
  by (induction xs arbitrary: a) simp_all

text \<open>All findings of a side, in the order of the loops.\<close>

definition side_all :: "route_cifp \<Rightarrow> procedure_type \<Rightarrow> walk_dir \<Rightarrow> point \<Rightarrow> graph_builder \<Rightarrow> string \<Rightarrow> connection list" where
  "side_all cifp want dir airport b runway = concat (map (side_findings want dir airport b runway) (cifp_procedures cifp))"

definition star_splice_all :: "route_cifp \<Rightarrow> point \<Rightarrow> graph_builder \<Rightarrow> string \<Rightarrow> string \<Rightarrow> int list \<Rightarrow> connection list" where
  "star_splice_all cifp airport b runway name avoid =
     concat (map (\<lambda>p. concat (map (star_splice_findings p airport b avoid) (proc_legs p)))
       (filter (\<lambda>p. proc_type p = Star \<and> runway_matches p runway \<and> name_matches p name) (cifp_procedures cifp)))"

definition sid_splice_all :: "route_cifp \<Rightarrow> point \<Rightarrow> graph_builder \<Rightarrow> string \<Rightarrow> string \<Rightarrow> int list \<Rightarrow> connection list" where
  "sid_splice_all cifp airport b runway name avoid =
     concat (map (\<lambda>p. sid_splice_findings p airport b avoid)
       (filter (\<lambda>p. proc_type p = Sid \<and> runway_matches p runway \<and> name_matches p name) (cifp_procedures cifp)))"

definition approach_all :: "route_cifp \<Rightarrow> point \<Rightarrow> graph_builder \<Rightarrow> string \<Rightarrow> connection list" where
  "approach_all cifp airport b runway =
     concat (map (\<lambda>p. concat (map (approach_findings p cifp airport b) (proc_legs p)))
       (filter (\<lambda>p. proc_type p = Approach \<and> runway_matches p runway) (cifp_procedures cifp)))"

lemma collect_eqs:
  "collect_side cifp want dir airport b runway = foldl accumulate [] (side_all cifp want dir airport b runway)"
  "collect_star_splice_arrivals cifp airport b runway name avoid =
     foldl accumulate [] (star_splice_all cifp airport b runway name avoid)"
  "collect_sid_splice_departures cifp airport b runway name avoid =
     foldl accumulate [] (sid_splice_all cifp airport b runway name avoid)"
  "collect_approach_arrivals cifp airport b runway = foldl accumulate [] (approach_all cifp airport b runway)"
  by (simp_all add: collect_side_def side_all_def collect_star_splice_arrivals_def star_splice_all_def
      collect_sid_splice_departures_def sid_splice_all_def collect_approach_arrivals_def approach_all_def
      foldl_concat foldl_skip conj_commute conj_left_commute)

lemma pooled_mset:
  assumes "pooled seed fs out" and "mset out' = mset out"
  shows "pooled seed fs out'"
proof -
  have "set out' = set out" "distinct (map cn_fix_vertex out') = distinct (map cn_fix_vertex out)"
    using assms(2) mset_eq_setD [OF assms(2)] by (auto simp: mset_eq_imp_distinct_iff mset_map)
  then show ?thesis using assms(1) by (simp add: pooled_def)
qed

lemma finalize_sorted:
  "sorted (map (\<lambda>c. (cn_seed_distance_nm c, cn_fix_vertex c)) (finalize out))"
  unfolding finalize_def by (rule sorted_sort_by) (auto simp: connection_less_def less_prod_def')

lemma finalize_pooled:
  assumes "\<forall>f \<in> set fs. length (cn_procedures f) = 1"
  shows "pooled cn_seed_distance_nm fs (finalize (foldl accumulate [] fs))"
  using pooled_mset [OF accumulate.fold_pooled [OF assms pooled_Nil], of "finalize (foldl accumulate [] fs)"]
  by (simp add: finalize_def)

text \<open>What every builder of connections returns: a sorted pool of findings that are fit to search.\<close>

definition pool_ok :: "graph_builder \<Rightarrow> walk_dir \<Rightarrow> connection list \<Rightarrow> connection list \<Rightarrow> bool" where
  "pool_ok b dir fs out \<longleftrightarrow>
     pooled cn_seed_distance_nm fs out \<and> (\<forall>c \<in> set out. connection_ok b dir c) \<and>
     sorted (map (\<lambda>c. (cn_seed_distance_nm c, cn_fix_vertex c)) out)"

lemma pool_okI:
  assumes "\<And>f. f \<in> set fs \<Longrightarrow> connection_ok b dir f \<and> length (cn_procedures f) = 1"
  shows "pool_ok b dir fs (finalize (foldl accumulate [] fs))"
proof -
  let ?out = "finalize (foldl accumulate [] fs)"
  have p: "pooled cn_seed_distance_nm fs ?out" using finalize_pooled assms by blast
  have "connection_ok b dir c" if c: "c \<in> set ?out" for c
    by (rule pooled_member [OF p c]) (use assms connection_ok_priced in blast)
  then show ?thesis using p finalize_sorted by (simp add: pool_ok_def)
qed

lemma build_side_ok: "pool_ok b dir (side_all cifp want dir airport b runway) (build_side cifp want dir airport b runway)"
  unfolding build_side_def collect_eqs by (rule pool_okI) (auto simp: side_all_def dest: side_findings_ok)

lemma build_star_splice_ok:
  "network_ok b \<Longrightarrow> pool_ok b Inbound (star_splice_all cifp airport b runway name avoid)
     (build_star_splice_arrival cifp airport b runway name avoid)"
  unfolding build_star_splice_arrival_def collect_eqs
  by (rule pool_okI) (auto simp: star_splice_all_def dest: star_splice_findings_ok)

lemma build_sid_splice_ok:
  "network_ok b \<Longrightarrow> pool_ok b Outbound (sid_splice_all cifp airport b runway name avoid)
     (build_sid_splice_departure cifp airport b runway name avoid)"
  unfolding build_sid_splice_departure_def collect_eqs
  by (rule pool_okI) (auto simp: sid_splice_all_def dest: sid_splice_findings_ok)

lemma build_approach_ok:
  "network_ok b \<Longrightarrow> pool_ok b Inbound (approach_all cifp airport b runway)
     (build_approach_arrival cifp airport b runway)"
  unfolding build_approach_arrival_def collect_eqs
  by (rule pool_okI) (auto simp: approach_all_def dest: approach_findings_ok)

lemma build_dct_ok:
  assumes "network_ok b"
  shows "distinct (map cn_fix_vertex (build_dct_fallback airport b n arrival))"
    and "length (build_dct_fallback airport b n arrival) \<le> nat n"
    and "c \<in> set (build_dct_fallback airport b n arrival) \<Longrightarrow>
      connection_ok b (if arrival then Inbound else Outbound) c \<and> cn_splice_vertex c = no_vertex \<and> cn_procedures c = []"
  using assms nearest_usable [OF assms, of _ airport n arrival]
  by (auto simp: build_dct_fallback_def Let_def o_def network_ok_def nearest_ok_def connection_ok_def splice_ok_def)

section \<open>The published gates\<close>

text \<open>
  The vertex a procedure is handed over at: the fix of a STAR's initial-fix leg, or of a SID's last leg that
  ends at a fix, when it is on the network in the direction flown.
\<close>

definition published_gate :: "walk_dir \<Rightarrow> graph_builder \<Rightarrow> route_procedure \<Rightarrow> int \<Rightarrow> bool" where
  "published_gate dir b p v \<longleftrightarrow>
     0 \<le> v \<and> dir_usable dir b v \<and>
     (\<exists>i < length (proc_legs p). is_gate_leg dir p i \<and> leg_vertex b (proc_legs p ! i) = v)"

lemma last_fix_bearing_leg_spec:
  "(last_fix_bearing_leg p = length (proc_legs p) \<and> (\<forall>leg \<in> set (proc_legs p). \<not> fix_is_definite leg)) \<or>
   (last_fix_bearing_leg p < length (proc_legs p) \<and> fix_is_definite (proc_legs p ! last_fix_bearing_leg p) \<and>
     (\<forall>i < length (proc_legs p). last_fix_bearing_leg p < i \<longrightarrow> \<not> fix_is_definite (proc_legs p ! i)))"
proof -
  let ?l = "proc_legs p"
  let ?f = "\<lambda>n. foldl (\<lambda>last_leg i. if fix_is_definite (?l ! i) then i else last_leg) (length ?l) [0..<n]"
  have "n \<le> length ?l \<Longrightarrow> (?f n = length ?l \<and> (\<forall>i < n. \<not> fix_is_definite (?l ! i))) \<or>
      (?f n < n \<and> fix_is_definite (?l ! ?f n) \<and> (\<forall>i < n. ?f n < i \<longrightarrow> \<not> fix_is_definite (?l ! i)))" for n
    by (induction n) (auto simp: less_Suc_eq)
  from this [of "length ?l"] show ?thesis
    unfolding last_fix_bearing_leg_def by (auto simp: in_set_conv_nth)
qed

lemma walk_gate_hits:
  "fh_vertex ` set (filter fh_is_gate (wr_hits (walk_on_network_fixes p b dir))) = {v. published_gate dir b p v}"
proof -
  let ?gates = "\<lambda>st. fh_vertex ` set (filter fh_is_gate (wr_hits (wk_result st)))"
  let ?st = "\<lparr>wk_result = \<lparr>wr_hits = [], wr_resolved = [], wr_total_nm = 0\<rparr>, wk_cumulative = 0,
     wk_prev_coord = None, wk_pending_nm = 0\<rparr>"
  have "?gates (foldl (walk_leg p b dir) ?st [0..<n]) =
      {v. 0 \<le> v \<and> dir_usable dir b v \<and> (\<exists>i < n. is_gate_leg dir p i \<and> leg_vertex b (proc_legs p ! i) = v)}" for n
  proof (induction n)
    case (Suc n)
    have "?gates (walk_leg p b dir st n) = ?gates st \<union>
        {v. 0 \<le> v \<and> dir_usable dir b v \<and> is_gate_leg dir p n \<and> leg_vertex b (proc_legs p ! n) = v}" for st
      by (auto simp: walk_leg_def Let_def simp del: set_filter split: if_splits)
    then show ?case using Suc by (auto simp: less_Suc_eq simp del: set_filter)
  qed simp
  then show ?thesis by (simp add: walk_on_network_fixes_def Let_def published_gate_def)
qed

lemma side_all_gates:
  "f \<in> set (side_all cifp want dir airport b runway) \<Longrightarrow> \<exists>p \<in> set (cifp_procedures cifp).
     proc_type p = want \<and> runway_matches p runway \<and> published_gate dir b p (cn_fix_vertex f) \<and>
     cn_procedures f = [make_ref p]"
  "p \<in> set (cifp_procedures cifp) \<Longrightarrow> proc_type p = want \<Longrightarrow> runway_matches p runway \<Longrightarrow>
   published_gate dir b p v \<Longrightarrow>
   \<exists>f \<in> set (side_all cifp want dir airport b runway). cn_fix_vertex f = v \<and> cn_procedures f = [make_ref p]"
proof -
  have sel: "cn_fix_vertex (gate_finding p dir airport w h) = fh_vertex h"
    "cn_procedures (gate_finding p dir airport w h) = [make_ref p]" for p w h
    by (simp_all add: gate_finding_def finding_def Let_def)
  assume "f \<in> set (side_all cifp want dir airport b runway)"
  then obtain p h where p: "p \<in> set (cifp_procedures cifp)" "proc_type p = want" "runway_matches p runway"
    and h: "h \<in> set (filter fh_is_gate (wr_hits (walk_on_network_fixes p b dir)))"
    and f: "f = gate_finding p dir airport (walk_on_network_fixes p b dir) h"
    by (auto simp: side_all_def side_findings_def Let_def split: if_splits)
  from h have "fh_vertex h \<in> {v. published_gate dir b p v}"
    unfolding walk_gate_hits [symmetric] by (rule imageI)
  then have "published_gate dir b p (fh_vertex h)" by simp
  then show "\<exists>p \<in> set (cifp_procedures cifp). proc_type p = want \<and> runway_matches p runway \<and>
      published_gate dir b p (cn_fix_vertex f) \<and> cn_procedures f = [make_ref p]"
    using p sel f by auto
next
  have sel: "cn_fix_vertex (gate_finding p dir airport w h) = fh_vertex h"
    "cn_procedures (gate_finding p dir airport w h) = [make_ref p]" for p w h
    by (simp_all add: gate_finding_def finding_def Let_def)
  assume p: "p \<in> set (cifp_procedures cifp)" "proc_type p = want" "runway_matches p runway" "published_gate dir b p v"
  then have "v \<in> fh_vertex ` set (filter fh_is_gate (wr_hits (walk_on_network_fixes p b dir)))"
    unfolding walk_gate_hits by (intro CollectI)
  then obtain h where h: "h \<in> set (filter fh_is_gate (wr_hits (walk_on_network_fixes p b dir)))" "fh_vertex h = v"
    by (metis imageE)
  have "gate_finding p dir airport (walk_on_network_fixes p b dir) h \<in> set (side_findings want dir airport b runway p)"
    unfolding side_findings_def Let_def using p h(1) by simp
  then show "\<exists>f \<in> set (side_all cifp want dir airport b runway). cn_fix_vertex f = v \<and> cn_procedures f = [make_ref p]"
    using p(1) h(2) sel unfolding side_all_def by fastforce
qed

lemma build_side_gates:
  "cn_fix_vertex ` set (build_side cifp want dir airport b runway) =
     {v. \<exists>p \<in> set (cifp_procedures cifp). proc_type p = want \<and> runway_matches p runway \<and> published_gate dir b p v}"
  "c \<in> set (build_side cifp want dir airport b runway) \<Longrightarrow> set (cn_procedures c) =
     make_ref ` {p \<in> set (cifp_procedures cifp). proc_type p = want \<and> runway_matches p runway \<and>
       published_gate dir b p (cn_fix_vertex c)}"
proof -
  let ?fs = "side_all cifp want dir airport b runway"
  let ?out = "build_side cifp want dir airport b runway"
  note gates = side_all_gates [where cifp = cifp and want = want and dir = dir and airport = airport and b = b and runway = runway]
  have pool: "pooled cn_seed_distance_nm ?fs ?out"
    using build_side_ok [of b dir] by (simp add: pool_ok_def)
  have "cn_fix_vertex ` set ?fs =
      {v. \<exists>p \<in> set (cifp_procedures cifp). proc_type p = want \<and> runway_matches p runway \<and> published_gate dir b p v}"
    using gates by (intro equalityI subsetI) (blast, force)
  then show "cn_fix_vertex ` set ?out =
      {v. \<exists>p \<in> set (cifp_procedures cifp). proc_type p = want \<and> runway_matches p runway \<and> published_gate dir b p v}"
    using pool by (simp add: pooled_def)
  assume "c \<in> set ?out"
  then have "set (cn_procedures c) = (\<Union>f \<in> {f \<in> set ?fs. cn_fix_vertex f = cn_fix_vertex c}. set (cn_procedures f))"
    using pool by (simp add: pooled_def)
  also have "\<dots> = make_ref ` {p \<in> set (cifp_procedures cifp). proc_type p = want \<and> runway_matches p runway \<and>
       published_gate dir b p (cn_fix_vertex c)}"
  proof (intro equalityI subsetI)
    fix r assume "r \<in> (\<Union>f \<in> {f \<in> set ?fs. cn_fix_vertex f = cn_fix_vertex c}. set (cn_procedures f))"
    then obtain f where "f \<in> set ?fs" "cn_fix_vertex f = cn_fix_vertex c" "r \<in> set (cn_procedures f)" by blast
    with side_all_gates(1) [OF this(1)] show "r \<in> make_ref ` {p \<in> set (cifp_procedures cifp). proc_type p = want \<and>
        runway_matches p runway \<and> published_gate dir b p (cn_fix_vertex c)}" by auto
  next
    fix r assume "r \<in> make_ref ` {p \<in> set (cifp_procedures cifp). proc_type p = want \<and>
        runway_matches p runway \<and> published_gate dir b p (cn_fix_vertex c)}"
    then obtain p where p: "r = make_ref p" "p \<in> set (cifp_procedures cifp)" "proc_type p = want" "runway_matches p runway"
      "published_gate dir b p (cn_fix_vertex c)" by blast
    from side_all_gates(2) [OF p(2-5)] obtain f where "f \<in> set ?fs" "cn_fix_vertex f = cn_fix_vertex c"
      "cn_procedures f = [make_ref p]" by blast
    then show "r \<in> (\<Union>f \<in> {f \<in> set ?fs. cn_fix_vertex f = cn_fix_vertex c}. set (cn_procedures f))"
      using p(1) by auto
  qed
  finally show "set (cn_procedures c) = make_ref ` {p \<in> set (cifp_procedures cifp). proc_type p = want \<and>
      runway_matches p runway \<and> published_gate dir b p (cn_fix_vertex c)}" .
qed

section \<open>Properties\<close>

lemma build_side_table:
  "(\<lambda>c. (cn_fix_vertex c, set (cn_procedures c))) ` set (build_side cifp want dir airport b runway) =
     {(v, refs). refs \<noteq> {} \<and> refs = make_ref ` {p \<in> set (cifp_procedures cifp). proc_type p = want \<and>
        runway_matches p runway \<and> published_gate dir b p v}}"
    (is "?table = _")
proof (intro equalityI subsetI)
  fix x assume "x \<in> ?table"
  then obtain c where c: "c \<in> set (build_side cifp want dir airport b runway)" "x = (cn_fix_vertex c, set (cn_procedures c))"
    by blast
  then have "cn_procedures c \<noteq> []"
    using build_side_ok [of b dir cifp want airport runway] unfolding pool_ok_def pooled_def by blast
  then have "set (cn_procedures c) \<noteq> {}" by simp
  then show "x \<in> {(v, refs). refs \<noteq> {} \<and> refs = make_ref ` {p \<in> set (cifp_procedures cifp). proc_type p = want \<and>
        runway_matches p runway \<and> published_gate dir b p v}}"
    using build_side_gates(2) [OF c(1)] c(2) by blast
next
  fix x assume "x \<in> {(v, refs). refs \<noteq> {} \<and> refs = make_ref ` {p \<in> set (cifp_procedures cifp). proc_type p = want \<and>
        runway_matches p runway \<and> published_gate dir b p v}}"
  then obtain v where x: "x = (v, make_ref ` {p \<in> set (cifp_procedures cifp). proc_type p = want \<and>
        runway_matches p runway \<and> published_gate dir b p v})"
    "v \<in> {v. \<exists>p \<in> set (cifp_procedures cifp). proc_type p = want \<and> runway_matches p runway \<and> published_gate dir b p v}"
    by blast
  from x(2) obtain c where c: "c \<in> set (build_side cifp want dir airport b runway)" "v = cn_fix_vertex c"
    unfolding build_side_gates(1) [where airport = airport, symmetric] by (rule imageE)
  have "x = (cn_fix_vertex c, set (cn_procedures c))"
    unfolding x(1) c(2) build_side_gates(2) [OF c(1)] by (rule refl)
  then show "x \<in> ?table" using c(1) by (rule image_eqI)
qed


text \<open>
  C11: Over a built graph every pool of connections is fit to search: each is the list of its findings merged
  per fix and priced as the first cheapest one, sorted by seed and vertex, at a fix usable in the direction
  flown, with a non-negative seed no smaller than the splice it contains and legal bearings; the DCT
  fallback returns at most as many distinct usable fixes as asked for.
\<close>

theorem connector_pools_sound:
  assumes "build data = Inr b" and "small_data data"
  shows "pool_ok b Outbound (side_all cifp Sid Outbound airport b runway) (build_departure cifp airport b runway) \<and>
    pool_ok b Inbound (side_all cifp Star Inbound airport b runway) (build_arrival cifp airport b runway) \<and>
    pool_ok b Inbound (approach_all cifp airport b runway) (build_approach_arrival cifp airport b runway) \<and>
    pool_ok b Inbound (star_splice_all cifp airport b runway name avoid)
      (build_star_splice_arrival cifp airport b runway name avoid) \<and>
    pool_ok b Outbound (sid_splice_all cifp airport b runway name avoid)
      (build_sid_splice_departure cifp airport b runway name avoid) \<and>
    distinct (map cn_fix_vertex (build_dct_fallback airport b n arrival)) \<and>
    length (build_dct_fallback airport b n arrival) \<le> nat n \<and>
    (\<forall>c \<in> set (build_dct_fallback airport b n arrival).
      connection_ok b (if arrival then Inbound else Outbound) c \<and> cn_splice_vertex c = no_vertex)"
proof -
  note net = built_network_ok [OF assms]
  show ?thesis
    using build_side_ok build_approach_ok [OF net] build_star_splice_ok [OF net] build_sid_splice_ok [OF net]
      build_dct_ok [OF net, where airport = airport and n = n and arrival = arrival]
    by (simp add: build_departure_def build_arrival_def)
qed

lemma connector_pools_sound_witness:
  "\<exists>b. build sample_data = Inr b \<and>
     (\<forall>c \<in> set (build_dct_fallback \<lparr>latitude = 50, longitude = 8.5\<rparr> b 5 True). connection_ok b Inbound c)"
proof (rule sample_built)
  fix b assume b: "build sample_data = Inr b"
  from connector_pools_sound [OF b sample_data_ok(2), where n = 5 and arrival = True]
  show ?thesis using b by auto
qed

end
