(* ===== verification/EndpointPlannerCorrect.thy ===== *)
theory EndpointPlannerCorrect
  imports EndpointPlanner ProcedureConnectorCorrect
begin

text \<open>
  What \<^verbatim>\<open>io/navdb/endpoint_planner.cc\<close> promises: plans whose connections are fit to search, that honour a
  named procedure or say that nothing matched, and that never mix in what the request excluded.
\<close>

section \<open>The mixed arrival pool\<close>

lemma merge_connection_new: "cn_fix_vertex f \<notin> cn_fix_vertex ` set out \<Longrightarrow> merge_connection soft out f = out @ [f]"
  by (induction out) auto

lemma merge_connection_old:
  "cn_fix_vertex f \<notin> cn_fix_vertex ` set out \<Longrightarrow> cn_fix_vertex f = cn_fix_vertex c \<Longrightarrow>
   merge_connection soft (out @ c # out') f = out @ merge_connection soft [c] f @ out'"
  by (induction out) (auto simp: Let_def)

lemma effective_seed_priced: "priced_as c f \<Longrightarrow> effective_seed_nm c soft = effective_seed_nm f soft"
  by (simp add: effective_seed_nm_def is_approach_front_def priced_as_sel(2,7,8))

interpretation merge_connection: seed_merge "merge_connection soft" "\<lambda>c. effective_seed_nm c soft"
  "\<lambda>f. cn_procedures f \<noteq> []" for soft
proof unfold_locales
  fix f c :: connection and out out' :: "connection list"
  assume a: "cn_fix_vertex f \<notin> cn_fix_vertex ` set out" "cn_fix_vertex f = cn_fix_vertex c"
    "cn_procedures c \<noteq> []" "cn_procedures f \<noteq> []"
  note sw = swap_items_props [OF a(3,4) refl]
  let ?c' = "hd (merge_connection soft [c] f)"
  have c': "merge_connection soft [c] f = [?c']" using a(2) by (simp add: Let_def)
  have front: "effective_seed_nm (c\<lparr>cn_procedures := cn_procedures c @ cn_procedures f\<rparr>) soft = effective_seed_nm c soft"
    by (rule effective_seed_priced) (simp add: priced_as_def a(3))
  have "priced_as ?c' (if effective_seed_nm f soft < effective_seed_nm c soft then f else c)"
    using a(2,3,4) sw(2,3) by (simp add: priced_as_def Let_def front)
  moreover have "mset (cn_procedures ?c') = mset (cn_procedures c) + mset (cn_procedures f)"
    using a(2,4) sw(1) by (simp add: Let_def)
  ultimately show "\<exists>c'. merge_connection soft (out @ c # out') f = out @ c' # out' \<and>
      priced_as c' (if effective_seed_nm f soft < effective_seed_nm c soft then f else c) \<and>
      mset (cn_procedures c') = mset (cn_procedures c) + mset (cn_procedures f)"
    using merge_connection_old [OF a(1,2), of soft out'] c' by (intro exI [of _ ?c']) simp
qed (auto simp: effective_seed_priced merge_connection_new)

lemma pool_refs: "pool_ok b dir fs out \<Longrightarrow> c \<in> set out \<Longrightarrow> cn_procedures c \<noteq> []"
  by (simp add: pool_ok_def pooled_def)

lemma pool_distinct: "pool_ok b dir fs out \<Longrightarrow> distinct (map cn_fix_vertex out)"
  by (simp add: pool_ok_def pooled_def)

lemma merged_pool:
  assumes p: "pool_ok b dir fs pool" and a: "pool_ok b dir gs apch"
    and merged_def: "merged = sort_connections_by_seed soft (merge_all soft pool apch)"
  shows "pooled (\<lambda>c. effective_seed_nm c soft) (pool @ apch) merged" and "c \<in> set merged \<Longrightarrow> connection_ok b dir c"
    and "sorted (map (\<lambda>c. (effective_seed_nm c soft, cn_fix_vertex c)) merged)"
proof -
  have "pooled (\<lambda>c. effective_seed_nm c soft) pool pool"
    using pool_distinct [OF p] pool_refs [OF p] by (blast intro: pooled_self)
  from merge_connection.fold_pooled [OF _ this, of apch] pool_refs [OF a]
  have "pooled (\<lambda>c. effective_seed_nm c soft) (pool @ apch) (merge_all soft pool apch)"
    by (simp add: merge_all_def)
  then show all: "pooled (\<lambda>c. effective_seed_nm c soft) (pool @ apch) merged"
    by (rule pooled_mset) (simp add: merged_def sort_connections_by_seed_def)
  show "connection_ok b dir c" if c: "c \<in> set merged"
    by (rule pooled_member [OF all c]) (use p a connection_ok_priced in \<open>auto simp: pool_ok_def\<close>)
  show "sorted (map (\<lambda>c. (effective_seed_nm c soft, cn_fix_vertex c)) merged)"
    unfolding merged_def sort_connections_by_seed_def
    by (rule sorted_sort_by) (auto simp: effective_less_def less_prod_def')
qed

section \<open>What holds of every connection of a pool\<close>

lemma pool_all:
  assumes "pool_ok b dir fs out" and "c \<in> set out" and "\<And>f. f \<in> set fs \<Longrightarrow> P f"
    and "\<And>c f. priced_as c f \<Longrightarrow> P f \<Longrightarrow> P c"
  shows "P c"
proof -
  have "pooled cn_seed_distance_nm fs out" using assms(1) by (simp add: pool_ok_def)
  then show ?thesis by (rule pooled_member [OF _ assms(2)]) (use assms(3,4) in blast)
qed

lemma pool_ref_of:
  assumes "pool_ok b dir fs out" and "c \<in> set out" and "r \<in> set (cn_procedures c)"
  obtains f where "f \<in> set fs" "cn_fix_vertex f = cn_fix_vertex c" "r \<in> set (cn_procedures f)"
  using assms by (auto simp: pool_ok_def pooled_def)

definition splice_allowed :: "int list \<Rightarrow> connection \<Rightarrow> bool" where
  "splice_allowed avoid c \<longleftrightarrow> cn_splice_vertex c = no_vertex \<or> \<not> binary_search avoid (cn_splice_vertex c)"

lemma splice_allowed_priced: "priced_as c f \<Longrightarrow> splice_allowed avoid f \<Longrightarrow> splice_allowed avoid c"
  by (simp add: splice_allowed_def priced_as_sel(5))

lemma findings_splice_allowed:
  "f \<in> set (side_all cifp want dir airport b runway) \<Longrightarrow> splice_allowed avoid f"
  "f \<in> set (star_splice_all cifp airport b runway name avoid) \<Longrightarrow> splice_allowed avoid f"
  "f \<in> set (sid_splice_all cifp airport b runway name avoid) \<Longrightarrow> splice_allowed avoid f"
  "f \<in> set (approach_all cifp airport b runway) \<Longrightarrow> splice_allowed avoid f"
  by (auto simp: side_all_def side_findings_def gate_finding_def star_splice_all_def star_splice_findings_def
      sid_splice_all_def sid_splice_findings_def approach_all_def approach_findings_def finding_def Let_def
      splice_allowed_def split: if_splits prod.splits)

text \<open>The references a named search keeps: the right kind, and the name asked for.\<close>

definition ref_wanted :: "bool \<Rightarrow> string \<Rightarrow> procedure_ref \<Rightarrow> bool" where
  "ref_wanted departure sel r \<longleftrightarrow> ref_type r = (if departure then Sid else Star) \<and> ref_matches_selector r sel"

lemma splice_refs_wanted:
  "sel \<noteq> [] \<Longrightarrow> f \<in> set (star_splice_all cifp airport b runway sel avoid) \<Longrightarrow> r \<in> set (cn_procedures f) \<Longrightarrow>
     ref_wanted False sel r"
  "sel \<noteq> [] \<Longrightarrow> f \<in> set (sid_splice_all cifp airport b runway sel avoid) \<Longrightarrow> r \<in> set (cn_procedures f) \<Longrightarrow>
     ref_wanted True sel r"
  by (auto simp: star_splice_all_def star_splice_findings_def sid_splice_all_def sid_splice_findings_def
      finding_def Let_def make_ref_def ref_wanted_def ref_matches_selector_def name_matches_def split: if_splits)

lemma side_refs_type:
  assumes "c \<in> set (build_side cifp want dir airport b runway)" and "r \<in> set (cn_procedures c)"
  shows "ref_type r = want"
proof -
  from assms(2) obtain p where "r = make_ref p" "proc_type p = want"
    unfolding build_side_gates(2) [OF assms(1)] by blast
  then show ?thesis by (simp add: make_ref_def)
qed

lemma filter_by_name:
  assumes "filter_connections_by_name cs sel = (kept_any, kept)" and "sel \<noteq> []"
  shows "kept_any \<Longrightarrow> c \<in> set kept \<Longrightarrow> \<exists>c0 \<in> set cs. c = c0\<lparr>cn_procedures := cn_procedures c\<rparr> \<and> cn_procedures c \<noteq> [] \<and>
      set (cn_procedures c) = {r \<in> set (cn_procedures c0). ref_matches_selector r sel}"
    and "kept_any \<Longrightarrow> kept \<noteq> []"
    and "kept_any \<Longrightarrow> distinct (map cn_fix_vertex cs) \<Longrightarrow> distinct (map cn_fix_vertex kept)"
proof -
  let ?keep = "\<lambda>c. c\<lparr>cn_procedures := filter (\<lambda>ref. ref_matches_selector ref sel) (cn_procedures c)\<rparr>"
  have k: "kept_any = (\<exists>c \<in> set cs. filter (\<lambda>ref. ref_matches_selector ref sel) (cn_procedures c) \<noteq> [])"
    using assms by (auto simp: filter_connections_by_name_def Let_def list_ex_iff)
  have kept: "kept = filter (\<lambda>c. cn_procedures c \<noteq> []) (map ?keep cs)" if kept_any
    using assms that by (auto simp: filter_connections_by_name_def Let_def)
  show "\<exists>c0 \<in> set cs. c = c0\<lparr>cn_procedures := cn_procedures c\<rparr> \<and> cn_procedures c \<noteq> [] \<and>
      set (cn_procedures c) = {r \<in> set (cn_procedures c0). ref_matches_selector r sel}" if a: kept_any "c \<in> set kept"
  proof -
    obtain c0 where "c0 \<in> set cs" "c = ?keep c0" "cn_procedures c \<noteq> []"
      using a(2) unfolding kept [OF a(1)] by auto
    then show ?thesis by (intro bexI [of _ c0]) auto
  qed
  show "kept \<noteq> []" if a: kept_any
    using a k unfolding kept [OF a] by (auto simp: filter_empty_conv)
  show "distinct (map cn_fix_vertex kept)" if a: kept_any "distinct (map cn_fix_vertex cs)"
  proof -
    have "map cn_fix_vertex (map ?keep cs) = map cn_fix_vertex cs" by simp
    then have "distinct (map cn_fix_vertex (map ?keep cs))" using a(2) by (simp only:)
    then show ?thesis unfolding kept [OF a(1)] by (rule distinct_map_filter)
  qed
qed

section \<open>Plans\<close>

definition fit :: "graph_builder \<Rightarrow> bool \<Rightarrow> int list \<Rightarrow> connection list \<Rightarrow> bool" where
  "fit b departure avoid cs \<longleftrightarrow> distinct (map cn_fix_vertex cs) \<and>
     (\<forall>c \<in> set cs. connection_ok b (if departure then Outbound else Inbound) c \<and> splice_allowed avoid c)"

lemma fit_pool:
  assumes "pool_ok b (if departure then Outbound else Inbound) fs out" and "\<And>f. f \<in> set fs \<Longrightarrow> splice_allowed avoid f"
  shows "fit b departure avoid out"
proof -
  have "splice_allowed avoid c" if "c \<in> set out" for c
    by (rule pool_all [OF assms(1) that assms(2) splice_allowed_priced])
  then show ?thesis using assms(1) pool_distinct by (auto simp: fit_def pool_ok_def)
qed

lemma fit_filtered:
  assumes f: "fit b departure avoid cs" and k: "filter_connections_by_name cs sel = (True, kept)" "sel \<noteq> []"
  shows "fit b departure avoid kept"
proof -
  have "connection_ok b (if departure then Outbound else Inbound) c \<and> splice_allowed avoid c" if "c \<in> set kept" for c
  proof -
    from filter_by_name(1) [OF k TrueI that] obtain c0 where c0: "c0 \<in> set cs" "c = c0\<lparr>cn_procedures := cn_procedures c\<rparr>"
      by blast
    have "connection_ok b dir c = connection_ok b dir c0" "splice_allowed avoid c = splice_allowed avoid c0" for dir
      by (subst c0(2), simp add: connection_ok_def splice_ok_def splice_allowed_def)+
    then show ?thesis using f c0(1) by (simp add: fit_def)
  qed
  then show ?thesis using f filter_by_name(3) [OF k TrueI] by (simp add: fit_def)
qed

text \<open>What a plan with a named procedure says of the connections it returns.\<close>

definition honours :: "bool \<Rightarrow> string \<Rightarrow> connection list \<Rightarrow> bool" where
  "honours departure sel cs \<longleftrightarrow> cs \<noteq> [] \<and>
     (\<forall>c \<in> set cs. cn_procedures c \<noteq> [] \<and> (\<forall>r \<in> set (cn_procedures c). ref_wanted departure sel r))"

lemma honours_filtered:
  assumes "filter_connections_by_name cs sel = (True, kept)" "sel \<noteq> []"
    and "\<And>c r. c \<in> set cs \<Longrightarrow> r \<in> set (cn_procedures c) \<Longrightarrow> ref_type r = (if departure then Sid else Star)"
  shows "honours departure sel kept"
  using filter_by_name(1,2) [OF assms(1,2) TrueI] assms(3) unfolding honours_def ref_wanted_def by blast

lemma honours_pool:
  assumes "pool_ok b dir fs out" "out \<noteq> []" and "\<And>f r. f \<in> set fs \<Longrightarrow> r \<in> set (cn_procedures f) \<Longrightarrow> ref_wanted departure sel r"
  shows "honours departure sel out"
  unfolding honours_def using assms(2,3) pool_refs [OF assms(1)] pool_ref_of [OF assms(1)] by metis

lemma build_departure_arrival_fit:
  "fit b True avoid (build_departure cifp apt b rwy)" "fit b False avoid (build_arrival cifp apt b rwy)"
  unfolding build_departure_def build_arrival_def
  by (rule fit_pool [where fs = "side_all cifp Sid Outbound apt b rwy"], simp_all add: build_side_ok findings_splice_allowed)
    (rule fit_pool [where fs = "side_all cifp Star Inbound apt b rwy"], simp_all add: build_side_ok findings_splice_allowed)

lemma build_splice_fit:
  assumes "network_ok b"
  shows "fit b True avoid (build_sid_splice_departure cifp apt b rwy sel avoid)"
    and "fit b False avoid (build_star_splice_arrival cifp apt b rwy sel avoid)"
    and "fit b False avoid (build_approach_arrival cifp apt b rwy)"
  using fit_pool [of b True "sid_splice_all cifp apt b rwy sel avoid"] build_sid_splice_ok [OF assms]
    fit_pool [of b False "star_splice_all cifp apt b rwy sel avoid"] build_star_splice_ok [OF assms]
    fit_pool [of b False "approach_all cifp apt b rwy"] build_approach_ok [OF assms]
  by (simp_all add: findings_splice_allowed)

lemma build_splice_honours:
  assumes "network_ok b" and "sel \<noteq> []"
  shows "build_sid_splice_departure cifp apt b rwy sel avoid \<noteq> [] \<Longrightarrow>
      honours True sel (build_sid_splice_departure cifp apt b rwy sel avoid)"
    and "build_star_splice_arrival cifp apt b rwy sel avoid \<noteq> [] \<Longrightarrow>
      honours False sel (build_star_splice_arrival cifp apt b rwy sel avoid)"
  using honours_pool [OF build_sid_splice_ok [OF assms(1)]] honours_pool [OF build_star_splice_ok [OF assms(1)]]
    splice_refs_wanted [OF assms(2)] by metis+

lemma merged_fit:
  assumes "network_ok b"
  shows "fit b False avoid (sort_connections_by_seed soft
    (merge_all soft (build_star_splice_arrival cifp apt b rwy sel avoid) (build_approach_arrival cifp apt b rwy)))"
proof -
  let ?pool = "build_star_splice_arrival cifp apt b rwy sel avoid" and ?apch = "build_approach_arrival cifp apt b rwy"
  let ?m = "sort_connections_by_seed soft (merge_all soft ?pool ?apch)"
  note pools = build_star_splice_ok [OF assms, of cifp apt rwy sel avoid] build_approach_ok [OF assms, of cifp apt rwy]
  note m = merged_pool [OF pools refl, where soft = soft]
  have allowed: "splice_allowed avoid c" if "c \<in> set ?m" for c
    by (rule pooled_member [OF m(1) that])
      (use build_splice_fit(2,3) [OF assms] splice_allowed_priced in \<open>auto simp: fit_def\<close>)
  have "distinct (map cn_fix_vertex ?m)" using m(1) by (simp add: pooled_def)
  then show ?thesis using m(2) allowed by (simp add: fit_def)
qed

text \<open>The fields of the plan that planning the connections leaves alone.\<close>

definition same_airport :: "endpoint_plan \<Rightarrow> endpoint_plan \<Rightarrow> bool" where
  "same_airport p q \<longleftrightarrow> ep_airport_icao p = ep_airport_icao q \<and> ep_runway p = ep_runway q \<and>
     ep_unknown_runway p = ep_unknown_runway q \<and> ep_has_procedures p = ep_has_procedures q"

definition side_planned :: "graph_builder \<Rightarrow> bool \<Rightarrow> string \<Rightarrow> int list \<Rightarrow> endpoint_plan \<Rightarrow> endpoint_plan + endpoint_plan \<Rightarrow> bool" where
  "side_planned b departure sel avoid plan out \<longleftrightarrow>
     (case out of
        Inl p \<Rightarrow> sel \<noteq> [] \<and> p = plan\<lparr>ep_connections := [], ep_named_procedure_unmatched := True\<rparr>
      | Inr p \<Rightarrow> fit b departure avoid (ep_connections p) \<and> same_airport p plan \<and>
          ep_named_procedure_unmatched p = ep_named_procedure_unmatched plan \<and>
          (sel \<noteq> [] \<longrightarrow> honours departure sel (ep_connections p)))"

lemma plan_departure_planned:
  assumes "network_ok b"
  shows "side_planned b True sel avoid plan (plan_departure plan cifp apt b rwy sel avoid)"
proof (cases "sel = []")
  case True
  then show ?thesis
    using build_departure_arrival_fit(1) build_splice_fit(1) [OF assms]
    by (simp add: side_planned_def plan_departure_def Let_def same_airport_def)
next
  case named: False
  obtain kept_any kept where k: "filter_connections_by_name (build_departure cifp apt b rwy) sel = (kept_any, kept)"
    by fastforce
  show ?thesis
  proof (cases kept_any)
    case True
    with k have k': "filter_connections_by_name (build_departure cifp apt b rwy) sel = (True, kept)" by simp
    have "honours True sel kept"
      by (rule honours_filtered [OF k' named]) (auto simp: build_departure_def dest: side_refs_type)
    then show ?thesis
      using fit_filtered [OF build_departure_arrival_fit(1) k' named] named
      by (simp add: side_planned_def plan_departure_def Let_def same_airport_def k')
  next
    case False
    then show ?thesis
      using named build_splice_fit(1) [OF assms] build_splice_honours(1) [OF assms named]
      by (simp add: side_planned_def plan_departure_def Let_def same_airport_def k)
  qed
qed

lemma plan_arrival_planned:
  assumes "network_ok b"
  shows "side_planned b False sel avoid plan (plan_arrival plan cifp apt b rwy sel avoid)"
proof (cases "sel = []")
  case True
  then show ?thesis
    using build_departure_arrival_fit(2) merged_fit [OF assms]
    by (simp add: side_planned_def plan_arrival_def Let_def same_airport_def split: prod.split)
next
  case named: False
  obtain kept_any kept where k: "filter_connections_by_name (build_arrival cifp apt b rwy) sel = (kept_any, kept)"
    by fastforce
  show ?thesis
  proof (cases kept_any)
    case True
    with k have k': "filter_connections_by_name (build_arrival cifp apt b rwy) sel = (True, kept)" by simp
    have "honours False sel kept"
      by (rule honours_filtered [OF k' named]) (auto simp: build_arrival_def dest: side_refs_type)
    then show ?thesis
      using fit_filtered [OF build_departure_arrival_fit(2) k' named] named
      by (simp add: side_planned_def plan_arrival_def Let_def same_airport_def k')
  next
    case False
    then show ?thesis
      using named build_splice_fit(2) [OF assms] build_splice_honours(2) [OF assms named]
      by (simp add: side_planned_def plan_arrival_def Let_def same_airport_def k)
  qed
qed

lemma with_dct_fit:
  assumes "network_ok b" and "fit b departure avoid (ep_connections plan)"
  shows "fit b departure avoid (ep_connections (with_dct_fallback plan apt b departure))"
  using assms(2) build_dct_ok(1,3) [OF assms(1), where airport = apt and n = 5 and arrival = "\<not> departure"]
  by (auto simp: with_dct_fallback_def fit_def splice_allowed_def)

text \<open>Every plan that is returned, with the selector its request named.\<close>

lemma plan_endpoint_ok:
  assumes net: "network_ok b" and plan: "plan_endpoint b request name departure lookup avoid = Inr plan"
    and sel: "sel = to_upper (if departure then rr_departure_sid request else rr_arrival_star request)"
  shows "fit b departure avoid (ep_connections plan) \<and>
    ep_airport_icao plan = (if vertex_by_airport b (to_upper name) < 0 then [] else to_upper name) \<and>
    (vertex_by_airport b (to_upper name) < 0 \<longrightarrow> plan = endpoint_plan_empty) \<and>
    (sel \<noteq> [] \<longrightarrow> 0 \<le> vertex_by_airport b (to_upper name) \<longrightarrow>
      ep_unknown_runway plan \<or> ep_named_procedure_unmatched plan \<or> honours departure sel (ep_connections plan))"
proof (cases "vertex_by_airport b (to_upper name) < 0")
  case True
  then show ?thesis using plan by (auto simp: plan_endpoint_def Let_def endpoint_plan_empty_def fit_def)
next
  case False
  let ?apt = "coord_of (gb_graph b) (vertex_by_airport b (to_upper name))"
  let ?base = "endpoint_plan_empty\<lparr>ep_airport_icao := to_upper name\<rparr>"
  have empty: "fit b departure avoid (ep_connections ?base)" by (simp add: endpoint_plan_empty_def fit_def)
  have selE: "sel = [] \<longleftrightarrow> (if departure then rr_departure_sid request else rr_arrival_star request) = []"
    unfolding sel by (simp add: to_upper_def)
  have keeps: "ep_airport_icao (with_dct_fallback p ?apt b departure) = ep_airport_icao p"
    "ep_unknown_runway (with_dct_fallback p ?apt b departure) = ep_unknown_runway p"
    "ep_named_procedure_unmatched (with_dct_fallback p ?apt b departure) = ep_named_procedure_unmatched p"
    "ep_connections p \<noteq> [] \<Longrightarrow> ep_connections (with_dct_fallback p ?apt b departure) = ep_connections p" for p
    by (simp_all add: with_dct_fallback_def)
  show ?thesis
  proof (cases "lookup (to_upper name)")
    case (Inl e)
    then show ?thesis using plan False by (simp add: plan_endpoint_def Let_def)
  next
    case (Inr found)
    show ?thesis
    proof (cases found)
      case None
      have "plan = (if sel \<noteq> [] then ?base\<lparr>ep_named_procedure_unmatched := True\<rparr>
          else with_dct_fallback ?base ?apt b departure)"
        using plan False Inr None selE by (simp add: plan_endpoint_def Let_def split: if_splits)
      then show ?thesis
        using False empty with_dct_fit [OF net empty, where apt = ?apt] keeps(1) [of ?base] by (simp split: if_splits)
    next
      case (Some cifp)
      let ?rwy = "plan_runway (if departure then rr_departure_runway request else rr_arrival_runway request)"
      let ?plan = "?base\<lparr>ep_has_procedures := has_side_procedures cifp departure, ep_runway := ?rwy\<rparr>"
      let ?side = "if departure then plan_departure ?plan cifp ?apt b ?rwy sel avoid
        else plan_arrival ?plan cifp ?apt b ?rwy sel avoid"
      have planned: "side_planned b departure sel avoid ?plan ?side"
        using plan_departure_planned [OF net] plan_arrival_planned [OF net] by simp
      have p: "plan_endpoint b request name departure lookup avoid =
          (if ?rwy \<noteq> [] \<and> \<not> airport_has_runway cifp ?rwy then Inr (?plan\<lparr>ep_unknown_runway := True\<rparr>)
           else case ?side of Inl q \<Rightarrow> Inr q | Inr q \<Rightarrow> Inr (with_dct_fallback q ?apt b departure))"
        unfolding plan_endpoint_def Let_def Inr Some sel sum.case option.case if_not_P [OF False] by (rule refl)
      show ?thesis
      proof (cases "?rwy \<noteq> [] \<and> \<not> airport_has_runway cifp ?rwy")
        case True
        then have "plan = ?plan\<lparr>ep_unknown_runway := True\<rparr>" using plan unfolding p if_P [OF True] by (simp only: sum.inject)
        then show ?thesis using False empty by simp
      next
        case ok: False
        from plan have p: "(Inr plan :: endpoint_plan result) = (case ?side of Inl q \<Rightarrow> Inr q | Inr q \<Rightarrow> Inr (with_dct_fallback q ?apt b departure))"
          unfolding p if_not_P [OF ok] by (rule sym)
        show ?thesis
        proof (cases ?side)
          case (Inl q)
          then have "q = ?plan\<lparr>ep_connections := [], ep_named_procedure_unmatched := True\<rparr>" "plan = q"
            using planned p by (simp_all only: side_planned_def sum.case sum.inject)
          then show ?thesis using False by (simp add: fit_def)
        next
          case (Inr q)
          then have "side_planned b departure sel avoid ?plan (Inr q)" and pq: "plan = with_dct_fallback q ?apt b departure"
            using planned p by (simp_all only: sum.case sum.inject)
          then have q: "fit b departure avoid (ep_connections q)" "same_airport q ?plan"
            "ep_named_procedure_unmatched q = ep_named_procedure_unmatched ?plan"
            "sel \<noteq> [] \<longrightarrow> honours departure sel (ep_connections q)"
            unfolding side_planned_def sum.case by blast+
          show ?thesis
            unfolding pq using False q(2-4) with_dct_fit [OF net q(1), where apt = ?apt] keeps [of q]
            by (auto simp: same_airport_def honours_def)
        qed
      qed
    qed
  qed
qed

text \<open>Only a mixed arrival pool prefers STARs softly, and each of its connections has procedures.\<close>

definition soft_has_procedures :: "endpoint_plan \<Rightarrow> bool" where
  "soft_has_procedures p \<longleftrightarrow> (ep_soft_prefer_star p \<longrightarrow>
     ep_connections p \<noteq> [] \<and> (\<forall>c \<in> set (ep_connections p). cn_procedures c \<noteq> []))"

lemma plan_sides_soft:
  assumes "\<not> ep_soft_prefer_star plan"
  shows "case plan_departure plan cifp apt b rwy sel avoid of Inl p \<Rightarrow> \<not> ep_soft_prefer_star p | Inr p \<Rightarrow> \<not> ep_soft_prefer_star p"
    and "network_ok b \<Longrightarrow>
      case plan_arrival plan cifp apt b rwy sel avoid of Inl p \<Rightarrow> \<not> ep_soft_prefer_star p | Inr p \<Rightarrow> soft_has_procedures p"
proof -
  show "case plan_departure plan cifp apt b rwy sel avoid of Inl p \<Rightarrow> \<not> ep_soft_prefer_star p | Inr p \<Rightarrow> \<not> ep_soft_prefer_star p"
    using assms by (simp add: plan_departure_def Let_def split: prod.split bool.split)
  show "case plan_arrival plan cifp apt b rwy sel avoid of Inl p \<Rightarrow> \<not> ep_soft_prefer_star p | Inr p \<Rightarrow> soft_has_procedures p"
    if net: "network_ok b"
  proof -
    let ?pool = "build_star_splice_arrival cifp apt b rwy [] avoid" and ?apch = "build_approach_arrival cifp apt b rwy"
    let ?soft = "?pool \<noteq> [] \<and> ?apch \<noteq> []"
    let ?m = "sort_connections_by_seed ?soft (merge_all ?soft ?pool ?apch)"
    note m = merged_pool(1) [OF build_star_splice_ok [OF net, of cifp apt rwy "[]" avoid]
        build_approach_ok [OF net, of cifp apt rwy] refl, where soft = ?soft]
    have procs: "\<forall>c \<in> set ?m. cn_procedures c \<noteq> []" using m by (simp add: pooled_def)
    have "cn_fix_vertex ` set ?m = cn_fix_vertex ` set (?pool @ ?apch)" using m by (simp only: pooled_def)
    then have "?soft \<Longrightarrow> ?m \<noteq> []" by (metis append_is_Nil_conv image_is_empty set_empty)
    then show ?thesis
      using assms procs by (simp add: plan_arrival_def Let_def soft_has_procedures_def split: prod.split bool.split)
  qed
qed

lemma plan_endpoint_soft:
  assumes net: "network_ok b" and plan: "plan_endpoint b request name departure lookup avoid = Inr plan"
  shows "soft_has_procedures plan" and "departure \<Longrightarrow> \<not> ep_soft_prefer_star plan"
proof -
  let ?ok = "\<lambda>p. soft_has_procedures p \<and> (departure \<longrightarrow> \<not> ep_soft_prefer_star p)"
  have plain: "\<not> ep_soft_prefer_star p \<Longrightarrow> ?ok p" for p by (simp add: soft_has_procedures_def)
  have dct: "?ok p \<Longrightarrow> ?ok (with_dct_fallback p apt b departure)" for p apt
    by (auto simp: soft_has_procedures_def with_dct_fallback_def)
  have side: "case (if departure then plan_departure p cifp apt b rwy sel avoid else plan_arrival p cifp apt b rwy sel avoid) of
      Inl q \<Rightarrow> ?ok q | Inr q \<Rightarrow> ?ok (with_dct_fallback q apt b departure)"
    if "\<not> ep_soft_prefer_star p" for p cifp apt rwy sel
    using plan_sides_soft(1) [OF that, of cifp apt b rwy sel avoid] plan_sides_soft(2) [OF that net, of cifp apt rwy sel avoid] plain dct
    by (cases departure) (auto split: sum.splits)
  have "?ok plan"
  proof (cases "vertex_by_airport b (to_upper name) < 0")
    case True
    then show ?thesis using plan by (auto simp: plan_endpoint_def Let_def endpoint_plan_empty_def soft_has_procedures_def)
  next
    case False
    let ?apt = "coord_of (gb_graph b) (vertex_by_airport b (to_upper name))"
    let ?base = "endpoint_plan_empty\<lparr>ep_airport_icao := to_upper name\<rparr>"
    let ?wanted = "if departure then rr_departure_sid request else rr_arrival_star request"
    have base: "?ok ?base" "?ok (?base\<lparr>ep_named_procedure_unmatched := True\<rparr>)"
      by (simp_all add: soft_has_procedures_def endpoint_plan_empty_def)
    show ?thesis
    proof (cases "lookup (to_upper name)")
      case (Inl e)
      then show ?thesis using plan False by (simp add: plan_endpoint_def Let_def)
    next
      case (Inr found)
      show ?thesis
      proof (cases found)
        case None
        have "plan = (if ?wanted \<noteq> [] then ?base\<lparr>ep_named_procedure_unmatched := True\<rparr>
            else with_dct_fallback ?base ?apt b departure)"
          using plan False Inr None by (simp add: plan_endpoint_def Let_def split: if_splits)
        then show ?thesis using base dct [OF base(1), of ?apt] by presburger
      next
        case (Some cifp)
        let ?rwy = "plan_runway (if departure then rr_departure_runway request else rr_arrival_runway request)"
        let ?plan = "?base\<lparr>ep_has_procedures := has_side_procedures cifp departure, ep_runway := ?rwy\<rparr>"
        let ?side = "if departure then plan_departure ?plan cifp ?apt b ?rwy (to_upper ?wanted) avoid
          else plan_arrival ?plan cifp ?apt b ?rwy (to_upper ?wanted) avoid"
        have fresh: "\<not> ep_soft_prefer_star ?plan" by (simp add: endpoint_plan_empty_def)
        have "plan_endpoint b request name departure lookup avoid =
            (if ?rwy \<noteq> [] \<and> \<not> airport_has_runway cifp ?rwy then Inr (?plan\<lparr>ep_unknown_runway := True\<rparr>)
             else case ?side of Inl q \<Rightarrow> Inr q | Inr q \<Rightarrow> Inr (with_dct_fallback q ?apt b departure))"
          unfolding plan_endpoint_def Let_def Inr Some sum.case option.case if_not_P [OF False] by (rule refl)
        with plan have "plan = ?plan\<lparr>ep_unknown_runway := True\<rparr> \<or>
            (Inr plan :: endpoint_plan result) = (case ?side of Inl q \<Rightarrow> Inr q | Inr q \<Rightarrow> Inr (with_dct_fallback q ?apt b departure))"
          by (metis Inr_inject)
        moreover have "?ok (?plan\<lparr>ep_unknown_runway := True\<rparr>)" by (rule plain) (simp add: endpoint_plan_empty_def)
        moreover have "(Inr plan :: endpoint_plan result) = (case s of Inl q \<Rightarrow> Inr q | Inr q \<Rightarrow> Inr (with_dct_fallback q ?apt b departure)) \<Longrightarrow>
            (case s of Inl q \<Rightarrow> ?ok q | Inr q \<Rightarrow> ?ok (with_dct_fallback q ?apt b departure)) \<Longrightarrow> ?ok plan" for s
          by (cases s) simp_all
        ultimately show ?thesis using side [OF fresh] by meson
      qed
    qed
  qed
  then show "soft_has_procedures plan" "departure \<Longrightarrow> \<not> ep_soft_prefer_star plan" by blast+
qed

section \<open>Properties\<close>

lemma plan_endpoint_error:
  "plan_endpoint b request name departure lookup avoid = Inl e \<longleftrightarrow>
     0 \<le> vertex_by_airport b (to_upper name) \<and> lookup (to_upper name) = Inl e"
proof -
  have split_case: "(case s of Inl p \<Rightarrow> Inr p | Inr q \<Rightarrow> Inr (f q)) \<noteq> Inl e"
    for s :: "endpoint_plan + endpoint_plan" and f e by (cases s) simp_all
  show ?thesis
    by (simp add: plan_endpoint_def Let_def split_case split: sum.split option.split if_split del: not_less)
qed

lemma fit_seeds:
  assumes "fit b departure avoid cs"
  shows "seeds_ok (to_search_endpoints cs soft)"
    and "distinct (map se_vertex (to_search_endpoints cs soft))"
    and "\<forall>e \<in> set (to_search_endpoints cs soft). is_vertex (gb_graph b) (se_vertex e) \<or> \<not> network_ok b"
proof -
  have "0 \<le> effective_seed_nm c soft" if "c \<in> set cs" for c
    using assms that by (auto simp: fit_def connection_ok_def effective_seed_nm_def procedure_prefer_nm_def)
  then show "seeds_ok (to_search_endpoints cs soft)" by (simp add: seeds_ok_def to_search_endpoints_def)
  show "distinct (map se_vertex (to_search_endpoints cs soft))"
    using assms by (simp add: to_search_endpoints_def fit_def o_def)
  show "\<forall>e \<in> set (to_search_endpoints cs soft). is_vertex (gb_graph b) (se_vertex e) \<or> \<not> network_ok b"
    using assms network_usable_vertex(1)
    by (fastforce simp: to_search_endpoints_def fit_def connection_ok_def dir_usable_def split: if_splits walk_dir.splits)
qed

text \<open>
  C13: Planning an endpoint fails exactly with the procedure lookup's error on a known airport. Any plan over a
  built graph is fit to search: one connection per fix, each usable in the direction flown and never spliced at
  an avoided vertex, and the seeded endpoints made of it are distinct graph vertices with non-negative seeds.
\<close>

theorem endpoint_plan_sound:
  assumes "build data = Inr b" and "small_data data"
  shows "case plan_endpoint b request name departure lookup avoid of
      Inl e \<Rightarrow> 0 \<le> vertex_by_airport b (to_upper name) \<and> lookup (to_upper name) = Inl e
    | Inr plan \<Rightarrow>
        \<not> (0 \<le> vertex_by_airport b (to_upper name) \<and> isl (lookup (to_upper name))) \<and>
        fit b departure avoid (ep_connections plan) \<and>
        ep_airport_icao plan = (if vertex_by_airport b (to_upper name) < 0 then [] else to_upper name) \<and>
        seeds_ok (to_search_endpoints (ep_connections plan) soft) \<and>
        distinct (map se_vertex (to_search_endpoints (ep_connections plan) soft)) \<and>
        (\<forall>e \<in> set (to_search_endpoints (ep_connections plan) soft). is_vertex (gb_graph b) (se_vertex e))"
proof (cases "plan_endpoint b request name departure lookup avoid")
  case (Inl e)
  then show ?thesis using plan_endpoint_error [of b request name departure lookup avoid e] by simp
next
  case (Inr plan)
  note net = built_network_ok [OF assms]
  from plan_endpoint_error [of b request name departure lookup avoid] Inr
  have "\<not> (0 \<le> vertex_by_airport b (to_upper name) \<and> isl (lookup (to_upper name)))"
    by (auto simp: isl_def)
  then show ?thesis
    using plan_endpoint_ok [OF net Inr refl] fit_seeds [of b departure avoid "ep_connections plan"] net
    by (simp add: Inr)
qed

lemma endpoint_plan_sound_witness:
  "\<exists>b. build sample_data = Inr b \<and>
     (\<exists>plan. plan_endpoint b (route_request_default ''eddf'' ''abc'') ''eddf'' True (\<lambda>_. Inr None) [] = Inr plan \<and>
        seeds_ok (to_search_endpoints (ep_connections plan) False))"
proof (rule sample_built)
  fix b assume b: "build sample_data = Inr b"
  from endpoint_plan_sound [OF b sample_data_ok(2), where request = "route_request_default ''eddf'' ''abc''" and name = "''eddf''"
      and departure = True and lookup = "\<lambda>_. Inr None" and avoid = "[]" and soft = False]
  show ?thesis using b by (auto split: sum.splits)
qed

text \<open>
  A named SID or STAR is honoured: for a known airport the plan either reports the runway unknown or the
  procedure unmatched, or has connections, all of whose references are procedures of that kind with the name
  asked for.
\<close>

theorem endpoint_plan_named:
  assumes "build data = Inr b" and "small_data data"
    and "plan_endpoint b request name departure lookup avoid = Inr plan"
    and "0 \<le> vertex_by_airport b (to_upper name)"
    and "(if departure then rr_departure_sid request else rr_arrival_star request) = sel" and "sel \<noteq> []"
  shows "ep_unknown_runway plan \<or> ep_named_procedure_unmatched plan \<or>
    (ep_connections plan \<noteq> [] \<and>
     (\<forall>c \<in> set (ep_connections plan). cn_procedures c \<noteq> [] \<and>
       (\<forall>r \<in> set (cn_procedures c). ref_type r = (if departure then Sid else Star) \<and>
          ref_matches_selector r (to_upper sel))))"
proof -
  have "to_upper sel \<noteq> []" using assms(6) by (simp add: to_upper_def)
  then show ?thesis
    using plan_endpoint_ok [OF built_network_ok [OF assms(1,2)] assms(3) refl] assms(4,5)
    by (simp add: honours_def ref_wanted_def)
qed

lemma endpoint_plan_named_witness:
  "\<exists>b plan. build sample_data = Inr b \<and>
     plan_endpoint b ((route_request_default ''eddf'' ''abc'')\<lparr>rr_departure_sid := ''abc1a''\<rparr>) ''eddf'' True (\<lambda>_. Inr None) [] = Inr plan \<and>
     (ep_unknown_runway plan \<or> ep_named_procedure_unmatched plan \<or> ep_connections plan \<noteq> [])"
proof (rule sample_built)
  fix b assume b: "build sample_data = Inr b"
  let ?r = "(route_request_default ''eddf'' ''abc'')\<lparr>rr_departure_sid := ''abc1a''\<rparr>"
  have apt: "0 \<le> vertex_by_airport b (to_upper ''eddf'')"
  proof -
    have "to_upper ''eddf'' = ''EDDF''" by code_simp
    then show ?thesis using sample_network [OF b] by simp
  qed
  obtain plan where plan: "plan_endpoint b ?r ''eddf'' True (\<lambda>_. Inr None) [] = Inr plan"
    using plan_endpoint_error [of b ?r "''eddf''" True "\<lambda>_. Inr None" "[]"]
    by (cases "plan_endpoint b ?r ''eddf'' True (\<lambda>_. Inr None) []") auto
  from endpoint_plan_named [OF b sample_data_ok(2) plan apt refl] plan b
  show ?thesis by auto
qed

end
