(* ===== verification/RouteAssemblerCorrect.thy ===== *)
theory RouteAssemblerCorrect
  imports RouteAssembler PathSeams EndpointPlannerCorrect
begin

text \<open>
  What \<^verbatim>\<open>io/navdb/route_assembler.cc\<close> promises: the legs follow the points, their lengths add up to the reported
  total, which is split into the three phases, and the procedure metadata is that of the connections used.
\<close>

section \<open>Legs follow points\<close>

definition legs_follow :: "route_point list \<Rightarrow> route_leg list \<Rightarrow> bool" where
  "legs_follow points legs \<longleftrightarrow>
     map rl_from legs = map pt_ident (butlast points) \<and> map rl_to legs = map pt_ident (tl points)"

lemma leg_of_sel [simp]:
  "rl_from (leg_of f t via nm) = f" "rl_to (leg_of f t via nm) = t" "rl_distance_nm (leg_of f t via nm) = nm"
  "rl_via (leg_of f t via nm) = via"
  by (simp_all add: leg_of_def)

lemma enroute_leg_sel [simp]:
  "rl_from (enroute_leg b graph options (u, w)) = vertex_name b u"
  "rl_to (enroute_leg b graph options (u, w)) = vertex_name b w"
  by (simp_all add: enroute_leg_def split: option.split)

lemma enroute_legs_follow:
  "map rl_from (map (enroute_leg b graph options) (zip vs (tl vs))) = map (vertex_name b) (butlast vs)"
  "map rl_to (map (enroute_leg b graph options) (zip vs (tl vs))) = map (vertex_name b) (tl vs)"
proof -
  have "map rl_from (map (enroute_leg b graph options) uws) = map (vertex_name b \<circ> fst) uws"
    "map rl_to (map (enroute_leg b graph options) uws) = map (vertex_name b \<circ> snd) uws" for uws
    by (auto simp: split_paired_all)
  moreover have "map fst (zip vs (tl vs)) = butlast vs" "map snd (zip vs (tl vs)) = tl vs"
    by (simp_all add: map_fst_zip_take map_snd_zip_take butlast_conv_take)
  ultimately show
    "map rl_from (map (enroute_leg b graph options) (zip vs (tl vs))) = map (vertex_name b) (butlast vs)"
    "map rl_to (map (enroute_leg b graph options) (zip vs (tl vs))) = map (vertex_name b) (tl vs)"
    by (metis map_map)+
qed

lemma route_legs_follow:
  assumes "vs \<noteq> []"
  shows "legs_follow (route_points_of b graph vs dl al dep arr) (route_legs_of b graph vs dl al sid star dep arr options)"
proof -
  have vs: "map (vertex_name b) vs = map (vertex_name b) (butlast vs) @ [vertex_name b (last vs)]"
    "map (vertex_name b) vs = vertex_name b (hd vs) # map (vertex_name b) (tl vs)"
    using assms by (metis append_butlast_last_id list.simps(8,9) map_append) (metis assms list.collapse list.simps(9))
  have pts: "map pt_ident (map (fix_point b graph) xs) = map (vertex_name b) xs" for xs
    by (simp add: fix_point_def o_def)
  let ?L = "map (enroute_leg b graph options) (zip vs (tl vs))"
  have "map rl_from (route_legs_of b graph vs dl al sid star dep arr options) @ (if al = [] then [vertex_name b (last vs)] else [al]) =
      map pt_ident (route_points_of b graph vs dl al dep arr)"
    unfolding route_points_of_def route_legs_of_def Let_def
    by (simp only: map_append enroute_legs_follow(1) pts)
      (simp add: vs(1) fix_point_def)
  moreover have "(if dl = [] then [vertex_name b (hd vs)] else [dl]) @ map rl_to (route_legs_of b graph vs dl al sid star dep arr options) =
      map pt_ident (route_points_of b graph vs dl al dep arr)"
    unfolding route_points_of_def route_legs_of_def Let_def
    by (simp only: map_append enroute_legs_follow(2) pts)
      (simp add: vs(2) fix_point_def)
  moreover have "zs = butlast ys" if "zs @ (if q then [x] else [x']) = ys" for q zs ys and x x' :: string
    using that by (auto split: if_splits)
  moreover have "zs = tl ys" if "(if q then [x] else [x']) @ zs = ys" for q zs ys and x x' :: string
    using that by (auto split: if_splits)
  ultimately show ?thesis unfolding legs_follow_def map_butlast map_tl by blast
qed

lemma route_string_legs:
  assumes "build_route_string p legs = (filed, legs')"
  shows "map rl_from legs' = map rl_from legs" "map rl_to legs' = map rl_to legs"
    "map rl_distance_nm legs' = map rl_distance_nm legs"
proof -
  let ?xs = "map (\<lambda>l. (l, split_designators (rl_via l))) legs"
  have "legs' = snd (fold_legs ?xs)" using assms by (auto simp: build_route_string_def split: prod.splits)
  then have "list_all2 leg_rewritten ?xs legs'" using fold_legs_rewritten by simp
  then have "list_all2 (\<lambda>l l'. rl_from l' = rl_from l \<and> rl_to l' = rl_to l \<and> rl_distance_nm l' = rl_distance_nm l) legs legs'"
    by (auto simp: list_all2_conv_all_nth leg_rewritten_def)
  then show "map rl_from legs' = map rl_from legs" "map rl_to legs' = map rl_to legs"
    "map rl_distance_nm legs' = map rl_distance_nm legs"
    by (induction rule: list_all2_induct) simp_all
qed

section \<open>Distances\<close>

lemma enroute_distance:
  "edge_sums graph options uvs = Some (c, d, bs) \<Longrightarrow>
   sum_list (map rl_distance_nm (map (enroute_leg b graph options) uvs)) = d"
proof (induction uvs arbitrary: c d bs rule: rev_induct)
  case (snoc uv uvs)
  obtain u v where uv: "uv = (u, v)" by fastforce
  have "edge_sums graph options (uvs @ [uv]) = cost_step graph options (edge_sums graph options uvs) uv"
    by (simp add: edge_sums_def)
  then have st: "cost_step graph options (edge_sums graph options uvs) uv = Some (c, d, bs)" using snoc.prems by simp
  then have "edge_sums graph options uvs \<noteq> None" by (rule contrapos_pn) (simp add: cost_step_def)
  then obtain c0 d0 b0 where s0: "edge_sums graph options uvs = Some (c0, d0, b0)" by auto
  then obtain e w where "select_edge graph u v options = Some (e, w)" "d = d0 + ge_distance_nm e"
    using st by (auto simp: cost_step_def uv split: option.splits if_splits)
  then show ?case using snoc.IH [OF s0] by (simp add: uv enroute_leg_def)
qed (simp add: edge_sums_def)

text \<open>The sides of a route: the seed splits into the procedure and the splice.\<close>

definition side_ok :: "splice_side \<Rightarrow> bool" where
  "side_ok s \<longleftrightarrow> 0 \<le> ss_seed s \<and> (ss_splice s \<longrightarrow> 0 \<le> ss_leg_nm s \<and> ss_leg_nm s \<le> ss_seed s)"

lemma body_nm_bounds: "side_ok s \<Longrightarrow> 0 \<le> body_nm s \<and> body_nm s \<le> ss_seed s \<and> (ss_splice s \<longrightarrow> body_nm s + ss_leg_nm s = ss_seed s)"
  by (simp add: side_ok_def body_nm_def)

lemma route_legs_distance:
  assumes "side_ok dep" "side_ok arr" and "edge_sums graph options (zip vs (tl vs)) = Some (c, d, bs)"
  shows "sum_list (map rl_distance_nm (route_legs_of b graph vs dl al sid star dep arr options)) =
    (if dl = [] then 0 else ss_seed dep) + d + (if al = [] then 0 else ss_seed arr)"
proof -
  let ?L = "map (enroute_leg b graph options) (zip vs (tl vs))"
  have "sum_list (map rl_distance_nm (xs @ ?L @ ys)) = sum_list (map rl_distance_nm xs) + d + sum_list (map rl_distance_nm ys)" for xs ys
    using enroute_distance [OF assms(3)] by simp
  then show ?thesis
    unfolding route_legs_of_def Let_def using body_nm_bounds [OF assms(1)] body_nm_bounds [OF assms(2)] by (simp add: add.commute)
qed

lemma make_route_ok:
  assumes ne: "sp_vertices p \<noteq> []" "dl \<noteq> []" "al \<noteq> []" and ok: "side_ok dep" "side_ok arr"
    and sums: "edge_sums graph options (zip (sp_vertices p) (tl (sp_vertices p))) = Some (c, d, bs)"
    and r: "r = make_route b graph p dl al sid star dep arr options"
  shows "legs_follow (ro_points r) (ro_legs r)"
    and "sum_list (map rl_distance_nm (ro_legs r)) = ss_seed dep + d + ss_seed arr"
    and "ro_total_distance_nm r = sp_distance_nm p"
    and "ro_dep_distance_nm r = body_nm dep" and "ro_arr_distance_nm r = body_nm arr"
    and "ro_enroute_distance_nm r = max 0 (sp_distance_nm p - body_nm dep - body_nm arr)"
    and "pt_ident (hd (ro_points r)) = dl" and "pt_ident (last (ro_points r)) = al"
    and "ro_points r \<noteq> []"
proof -
  let ?pts = "route_points_of b graph (sp_vertices p) dl al dep arr"
  let ?legs = "route_legs_of b graph (sp_vertices p) dl al sid star dep arr options"
  obtain filed legs' where t: "build_route_string (if ?pts = [] then [] else pt_ident (hd ?pts)) ?legs = (filed, legs')"
    by fastforce
  have sel: "ro_points r = ?pts" "ro_legs r = legs'" "ro_total_distance_nm r = sp_distance_nm p"
    "ro_dep_distance_nm r = body_nm dep" "ro_arr_distance_nm r = body_nm arr"
    "ro_enroute_distance_nm r = max 0 (sp_distance_nm p - body_nm dep - body_nm arr)"
    using ne by (simp_all add: r make_route_def Let_def t [unfolded Let_def])
  note legs = route_string_legs [OF t]
  show "legs_follow (ro_points r) (ro_legs r)"
    using route_legs_follow [OF ne(1)] unfolding legs_follow_def sel legs by blast
  show "sum_list (map rl_distance_nm (ro_legs r)) = ss_seed dep + d + ss_seed arr"
    unfolding sel legs(3) route_legs_distance [OF ok sums] using ne by simp
  show "ro_total_distance_nm r = sp_distance_nm p" "ro_dep_distance_nm r = body_nm dep"
    "ro_arr_distance_nm r = body_nm arr"
    "ro_enroute_distance_nm r = max 0 (sp_distance_nm p - body_nm dep - body_nm arr)" by (rule sel)+
  show "pt_ident (hd (ro_points r)) = dl" "pt_ident (last (ro_points r)) = al" "ro_points r \<noteq> []"
    unfolding sel route_points_of_def using ne by simp_all
qed

section \<open>Procedure metadata\<close>

definition plain_refs :: "connection \<Rightarrow> procedure_ref list" where
  "plain_refs c = filter (\<lambda>r. ref_type r \<noteq> Approach) (cn_procedures c)"

definition approach_refs :: "connection \<Rightarrow> procedure_ref list" where
  "approach_refs c = filter (\<lambda>r. ref_type r = Approach) (cn_procedures c)"

lemma select_procedures_spec:
  assumes c: "find_connection plan v = Some c" and s: "select_procedures plan v = (name, runway, opts)"
  shows "opts = map format_ref (plain_refs c)"
    and "name \<noteq> [] \<Longrightarrow> \<exists>r \<in> set (plain_refs c). ref_name r = name \<and> ref_runway r = runway"
    and "name = [] \<Longrightarrow> \<forall>r \<in> set (plain_refs c). ref_name r = []"
proof -
  let ?f = "\<lambda>(name, runway, options) ref.
      if ref_type ref = Approach then (name, runway, options)
      else if name = [] then (ref_name ref, ref_runway ref, options @ [format_ref ref])
      else (name, runway, options @ [format_ref ref])"
  have "case foldl ?f ([], [], []) rs of (name, runway, opts) \<Rightarrow>
      opts = map format_ref (filter (\<lambda>r. ref_type r \<noteq> Approach) rs) \<and>
      (name \<noteq> [] \<longrightarrow> (\<exists>r \<in> set (filter (\<lambda>r. ref_type r \<noteq> Approach) rs). ref_name r = name \<and> ref_runway r = runway)) \<and>
      (name = [] \<longrightarrow> (\<forall>r \<in> set (filter (\<lambda>r. ref_type r \<noteq> Approach) rs). ref_name r = []))" for rs
    by (induction rs rule: rev_induct) (auto split: prod.splits if_splits)
  from this [of "cn_procedures c"] s c
  show "opts = map format_ref (plain_refs c)"
    "name \<noteq> [] \<Longrightarrow> \<exists>r \<in> set (plain_refs c). ref_name r = name \<and> ref_runway r = runway"
    "name = [] \<Longrightarrow> \<forall>r \<in> set (plain_refs c). ref_name r = []"
    by (simp_all add: select_procedures_def plain_refs_def)
qed

lemma select_approach_spec:
  assumes c: "find_connection plan v = Some c"
  shows "ac_options (select_approach_procedures plan v) = map format_ref (approach_refs c)"
    and "ac_bearing (select_approach_procedures plan v) = cn_approach_bearing c"
    and "ac_approach (select_approach_procedures plan v) \<noteq> [] \<Longrightarrow>
      \<exists>r \<in> set (approach_refs c). ac_approach (select_approach_procedures plan v) = format_ref r \<and>
        ac_iaf (select_approach_procedures plan v) = ref_iaf r \<and> ac_runway (select_approach_procedures plan v) = ref_runway r"
proof -
  let ?f = "\<lambda>out ref. if ref_type ref \<noteq> Approach then out
      else
        let out = out\<lparr>ac_options := ac_options out @ [format_ref ref]\<rparr> in
        if ac_approach out = [] then
          out\<lparr>ac_approach := format_ref ref, ac_iaf := ref_iaf ref, ac_runway := ref_runway ref\<rparr>
        else out"
  let ?init = "approach_choice_empty\<lparr>ac_bearing := cn_approach_bearing c\<rparr>"
  have "ac_options (foldl ?f ?init rs) = map format_ref (filter (\<lambda>r. ref_type r = Approach) rs) \<and>
      ac_bearing (foldl ?f ?init rs) = cn_approach_bearing c \<and>
      (ac_approach (foldl ?f ?init rs) \<noteq> [] \<longrightarrow> (\<exists>r \<in> set (filter (\<lambda>r. ref_type r = Approach) rs).
         ac_approach (foldl ?f ?init rs) = format_ref r \<and> ac_iaf (foldl ?f ?init rs) = ref_iaf r \<and>
         ac_runway (foldl ?f ?init rs) = ref_runway r))" for rs
    by (induction rs rule: rev_induct) (auto simp: approach_choice_empty_def Let_def)
  from this [of "cn_procedures c"]
  show "ac_options (select_approach_procedures plan v) = map format_ref (approach_refs c)"
    "ac_bearing (select_approach_procedures plan v) = cn_approach_bearing c"
    "ac_approach (select_approach_procedures plan v) \<noteq> [] \<Longrightarrow>
      \<exists>r \<in> set (approach_refs c). ac_approach (select_approach_procedures plan v) = format_ref r \<and>
        ac_iaf (select_approach_procedures plan v) = ref_iaf r \<and> ac_runway (select_approach_procedures plan v) = ref_runway r"
    using c by (simp_all add: select_approach_procedures_def approach_refs_def)
qed

section \<open>A path between two plans\<close>

lemma find_connection_fit:
  assumes "distinct (map cn_fix_vertex (ep_connections plan))" and "c \<in> set (ep_connections plan)"
  shows "find_connection plan (cn_fix_vertex c) = Some c"
proof -
  have "find (\<lambda>d. cn_fix_vertex d = cn_fix_vertex c) cs = Some c"
    if "distinct (map cn_fix_vertex cs)" "c \<in> set cs" for cs
    using that by (induction cs) auto
  then show ?thesis using assms by (simp add: find_connection_def)
qed

lemma side_of_fix_ok:
  assumes "fit b departure avoid (ep_connections plan)" and "find_connection plan v = Some c"
  shows "side_ok (side_of_fix plan v)" and "ss_seed (side_of_fix plan v) = cn_seed_distance_nm c"
proof -
  have "c \<in> set (ep_connections plan)" using assms(2) by (auto simp: find_connection_def find_Some_iff)
  then have "connection_ok b (if departure then Outbound else Inbound) c" using assms(1) by (simp add: fit_def)
  then show "side_ok (side_of_fix plan v)"
    using assms(2) by (auto simp: side_ok_def side_of_fix_def splice_side_of_def connection_ok_def splice_ok_def no_vertex_def)
  show "ss_seed (side_of_fix plan v) = cn_seed_distance_nm c"
    using assms(2) by (simp add: side_of_fix_def splice_side_of_def)
qed

text \<open>The seed a search reads at a fix is the effective seed of the connection found there.\<close>

lemma seed_of_plan:
  assumes f: "fit b departure avoid (ep_connections plan)"
    and es: "es = filter Q (to_search_endpoints (ep_connections plan) soft)"
    and v: "0 \<le> v" "v < n" "0 \<le> build_seed_table es n ! nat v"
  obtains c where "find_connection plan v = Some c" "c \<in> set (ep_connections plan)" "cn_fix_vertex c = v"
    "build_seed_table es n ! nat v = effective_seed_nm c soft"
proof -
  have "seeds_ok es" using fit_seeds(1) [OF f, of soft] unfolding es seeds_ok_def by simp
  from build_seed_table_cheapest [OF this v(1,2)] v(3) obtain e where e: "cheapest_seed es v = Some e"
    "build_seed_table es n ! nat v = se_cost e" by (auto split: option.splits)
  with cheapest_seed_spec [of es v] have "e \<in> set es" "se_vertex e = v" by simp_all
  then obtain c where "c \<in> set (ep_connections plan)" "cn_fix_vertex c = v" "se_cost e = effective_seed_nm c soft"
    by (auto simp: es to_search_endpoints_def)
  then show thesis using that [of c] find_connection_fit [of plan c] f e(2) by (auto simp: fit_def)
qed

lemma edge_sums_nonneg:
  assumes m: "edges_metric names graph" and v: "\<forall>v \<in> set p. is_vertex graph v"
    and s: "edge_sums graph options (zip p (tl p)) = Some (c, d, bs)"
  shows "0 \<le> d"
proof -
  have "edge_sums graph options uvs = Some (c, d, bs) \<Longrightarrow> \<forall>(u, w) \<in> set uvs. is_vertex graph u \<Longrightarrow> 0 \<le> d" for uvs c d bs
  proof (induction uvs arbitrary: c d bs rule: rev_induct)
    case (snoc uv uvs)
    obtain u w where uv: "uv = (u, w)" by fastforce
    have "edge_sums graph options (uvs @ [uv]) = cost_step graph options (edge_sums graph options uvs) uv"
      by (simp add: edge_sums_def)
    then have st: "cost_step graph options (edge_sums graph options uvs) uv = Some (c, d, bs)" using snoc.prems(1) by simp
    then have "edge_sums graph options uvs \<noteq> None" by (rule contrapos_pn) (simp add: cost_step_def)
    then obtain c0 d0 b0 where s0: "edge_sums graph options uvs = Some (c0, d0, b0)" by auto
    then obtain e x where e: "select_edge graph u w options = Some (e, x)" "d = d0 + ge_distance_nm e"
      using st by (auto simp: cost_step_def uv split: option.splits if_splits)
    have "earth_radius_nm * chord (project_unit_sphere (coord_of graph u))
        (project_unit_sphere (coord_of graph (edge_to e))) \<le> ge_distance_nm e"
      using m select_edge_Some(1) [OF e(1)] snoc.prems(2) uv by (auto simp: edges_metric_def)
    moreover have "0 \<le> earth_radius_nm * chord (project_unit_sphere (coord_of graph u))
        (project_unit_sphere (coord_of graph (edge_to e)))"
      by (intro mult_nonneg_nonneg chord_nonneg less_imp_le [OF earth_radius_pos])
    ultimately show ?case using snoc.IH [OF s0] snoc.prems(2) e(2) by auto
  qed (simp add: edge_sums_def)
  moreover have "\<forall>(u, w) \<in> set (zip p (tl p)). is_vertex graph u" using v by (auto dest: set_zip_leftD)
  ultimately show ?thesis using s by blast
qed

text \<open>What holds of every assembled route.\<close>

definition route_ok :: "string \<Rightarrow> string \<Rightarrow> route \<Rightarrow> bool" where
  "route_ok dep_icao arr_icao r \<longleftrightarrow>
     legs_follow (ro_points r) (ro_legs r) \<and> ro_points r \<noteq> [] \<and>
     pt_ident (hd (ro_points r)) = dep_icao \<and> pt_ident (last (ro_points r)) = arr_icao \<and>
     sum_list (map rl_distance_nm (ro_legs r)) = ro_total_distance_nm r \<and>
     ro_dep_distance_nm r + ro_enroute_distance_nm r + ro_arr_distance_nm r = ro_total_distance_nm r \<and>
     0 \<le> ro_dep_distance_nm r \<and> 0 \<le> ro_enroute_distance_nm r \<and> 0 \<le> ro_arr_distance_nm r \<and>
     (ro_terminal_transition r \<longleftrightarrow> ro_arr_connection r = CkTerminalTransition) \<and>
     (ro_terminal_transition r \<longrightarrow> ro_star r = [] \<and> ro_star_options r = []) \<and>
     (\<not> ro_terminal_transition r \<longrightarrow> ro_approach r = [] \<and> ro_approach_options r = [])"

lemma assemble_route_ok:
  assumes net: "network_ok b"
    and dep: "fit b True avoid (ep_connections dep)" "ep_airport_icao dep \<noteq> []"
    and arr: "fit b False avoid (ep_connections arr)" "ep_airport_icao arr \<noteq> []"
    and soft: "soft \<Longrightarrow> \<forall>c \<in> set (ep_connections arr). cn_procedures c \<noteq> []"
    and sources: "sources = filter Q (to_search_endpoints (ep_connections dep) False)"
    and goals: "goals = filter Q (to_search_endpoints (ep_connections arr) soft)"
    and p: "result_route (yen_env_of (gb_graph b) sources goals options) p"
    and r: "r = assemble_route b (gb_graph b) dep arr soft options echo p"
  shows "route_ok (ep_airport_icao dep) (ep_airport_icao arr) r"
proof -
  let ?g = "gb_graph b" and ?vs = "sp_vertices p"
  let ?ss = "build_seed_table sources (vertex_count ?g) ! nat (hd ?vs)"
  let ?gs = "build_seed_table goals (vertex_count ?g) ! nat (last ?vs)"
  from p have vs: "?vs \<noteq> []" "\<forall>v \<in> set ?vs. is_vertex ?g v"
    by (simp_all add: result_route_def loopless_route_def yen_env_of_def Let_def)
  from p obtain cost where "cost_of_path_multi ?g ?vs (build_seed_table sources (vertex_count ?g))
      (build_seed_table goals (vertex_count ?g)) (build_bearing_table sources (vertex_count ?g))
      (build_bearing_table goals (vertex_count ?g)) options = Some (cost, sp_distance_nm p)"
    by (auto simp: result_route_def recost_def yen_env_of_def Let_def)
  then obtain e d where m: "0 \<le> ?ss" "0 \<le> ?gs" "?ss + d + ?gs = sp_distance_nm p"
    "cost_of_path ?g ?vs options (build_bearing_table sources (vertex_count ?g) ! nat (hd ?vs))
      (build_bearing_table goals (vertex_count ?g) ! nat (last ?vs)) = Some (e, d)"
    using vs by (auto simp: cost_of_path_multi_def Let_def not_less split: if_splits option.splits)
  then obtain k bs where sums: "edge_sums ?g options (zip ?vs (tl ?vs)) = Some (k, d, bs)"
    unfolding cost_of_path_sums [OF vs(1)] by (auto split: if_splits)
  have d: "0 \<le> d" using edge_sums_nonneg [OF _ vs(2) sums] net by (auto simp: network_ok_def)
  have range: "0 \<le> hd ?vs" "hd ?vs < vertex_count ?g" "0 \<le> last ?vs" "last ?vs < vertex_count ?g"
    using vs by (auto simp: is_vertex_def)
  obtain cd where cd: "find_connection dep (hd ?vs) = Some cd" "?ss = effective_seed_nm cd False"
    by (rule seed_of_plan [OF dep(1) sources range(1,2) m(1)])
  obtain ca where ca: "find_connection arr (last ?vs) = Some ca" "?gs = effective_seed_nm ca soft" "ca \<in> set (ep_connections arr)"
    by (rule seed_of_plan [OF arr(1) goals range(3,4) m(2)])
  let ?dep = "side_of_fix dep (hd ?vs)" and ?arr = "side_of_fix arr (last ?vs)"
  note sd = side_of_fix_ok [OF dep(1) cd(1)] and sa = side_of_fix_ok [OF arr(1) ca(1)]
  let ?terminal = "arrival_kind_for_fix arr (last ?vs) = CkTerminalTransition"
  have bump: "?gs = ss_seed ?arr + (if soft \<and> ?terminal then procedure_prefer_nm else 0)"
    using ca soft sa(2) by (auto simp: effective_seed_nm_def is_approach_front_def arrival_kind_for_fix_def)
  have total: "sp_distance_nm p = ss_seed ?dep + d + ss_seed ?arr + (if soft \<and> ?terminal then procedure_prefer_nm else 0)"
    using m(3) [symmetric] cd(2) bump sd(2) by (simp add: effective_seed_nm_def)
  obtain sid dep_rwy sid_opts where sid: "select_procedures dep (hd ?vs) = (sid, dep_rwy, sid_opts)" by (metis prod_cases3)
  let ?apch = "if ?terminal then select_approach_procedures arr (last ?vs) else approach_choice_empty"
  obtain star arr_rwy star_opts where star: "(if ?terminal then ([], ac_runway ?apch, []) else select_procedures arr (last ?vs)) =
      (star, arr_rwy, star_opts)" by (metis prod_cases3)
  define mk where "mk = make_route b ?g p (ep_airport_icao dep) (ep_airport_icao arr) sid star ?dep ?arr options"
  note mk = make_route_ok [OF vs(1) dep(2) arr(2) sd(1) sa(1) sums mk_def]
  have empty: "ro_terminal_transition mk = False" "ro_approach mk = []" "ro_approach_options mk = []"
    by (simp_all add: mk_def make_route_def Let_def route_empty_def split: prod.split)
  have body: "0 \<le> body_nm ?dep" "body_nm ?dep \<le> ss_seed ?dep" "0 \<le> body_nm ?arr" "body_nm ?arr \<le> ss_seed ?arr"
    using body_nm_bounds [OF sd(1)] body_nm_bounds [OF sa(1)] by blast+
  have sel: "ro_points r = ro_points mk" "ro_legs r = ro_legs mk" "ro_dep_distance_nm r = ro_dep_distance_nm mk"
    "ro_arr_distance_nm r = ro_arr_distance_nm mk"
    "ro_total_distance_nm r = (if soft \<and> ?terminal then max 0 (ro_total_distance_nm mk - procedure_prefer_nm) else ro_total_distance_nm mk)"
    "ro_enroute_distance_nm r = (if soft \<and> ?terminal
      then max 0 (max 0 (ro_total_distance_nm mk - procedure_prefer_nm) - ro_dep_distance_nm mk - ro_arr_distance_nm mk)
      else ro_enroute_distance_nm mk)"
    "ro_terminal_transition r = ?terminal" "ro_arr_connection r = arrival_kind_for_fix arr (last ?vs)"
    "ro_star r = star" "ro_star_options r = star_opts"
    "ro_approach r = (if ?terminal then ac_approach ?apch else [])"
    "ro_approach_options r = (if ?terminal then ac_options ?apch else [])"
    unfolding r assemble_route_def Let_def sid star prod.case mk_def [symmetric] using empty by simp_all
  have total_r: "ro_total_distance_nm r = ss_seed ?dep + d + ss_seed ?arr"
    using total mk(3) body d by (simp add: sel)
  moreover have "ro_enroute_distance_nm r = ro_total_distance_nm r - body_nm ?dep - body_nm ?arr"
    using total mk(3-6) body d total_r by (simp add: sel)
  moreover have "?terminal \<Longrightarrow> star = [] \<and> star_opts = []" using star by simp
  ultimately show ?thesis using mk body d unfolding route_ok_def sel(1-4,7-12) by simp
qed

end
