(* ===== verification/NavDatabaseCorrect.thy ===== *)
theory NavDatabaseCorrect
  imports ProcedureCache ForcedPoint ForcedRouterCorrect RouteAssemblerCorrect
begin

text \<open>
  \<open>NavDatabase::FindRoutes\<close> (\<^verbatim>\<open>io/navdb/nav_database.cc\<close>) end to end: from a request over a built database
  to filed routes, composing the guarantees of the constraint assembly, the endpoint planner, the searches and
  the assembler.
\<close>

section \<open>The endpoints\<close>

definition endpoint_name :: "route_request \<Rightarrow> bool \<Rightarrow> string" where
  "endpoint_name request departure = (if departure then rr_departure request else rr_arrival request)"

definition endpoint_selector :: "route_request \<Rightarrow> bool \<Rightarrow> string" where
  "endpoint_selector request departure = (if departure then rr_departure_sid request else rr_arrival_star request)"

lemma endpoint_failure_None:
  "endpoint_failure request departure p = None \<longleftrightarrow>
     \<not> ep_unknown_runway p \<and> \<not> ep_named_procedure_unmatched p \<and> ep_connections p \<noteq> []"
  by (simp add: endpoint_failure_def Let_def)

text \<open>What a plan that passes the tests of the query brings along.\<close>

definition planned :: "graph_builder \<Rightarrow> route_request \<Rightarrow> bool \<Rightarrow> int list \<Rightarrow> endpoint_plan \<Rightarrow> bool" where
  "planned b request departure avoid p \<longleftrightarrow>
     fit b departure avoid (ep_connections p) \<and> ep_connections p \<noteq> [] \<and>
     ep_airport_icao p = to_upper (endpoint_name request departure) \<and>
     0 \<le> vertex_by_airport b (to_upper (endpoint_name request departure)) \<and> soft_has_procedures p \<and>
     (endpoint_selector request departure \<noteq> [] \<longrightarrow>
       honours departure (to_upper (endpoint_selector request departure)) (ep_connections p))"

lemma plan_side_planned:
  assumes net: "network_ok b" and p: "plan_side db b request departure avoid = (Inr p, db')"
  shows "planned b request departure avoid p"
proof -
  let ?name = "endpoint_name request departure" and ?lookup = "\<lambda>icao. fst (procedures_for db icao)"
  from p have plan: "plan_endpoint b request ?name departure ?lookup avoid = Inr p"
    and ok: "endpoint_failure request departure p = None"
    by (auto simp: plan_side_def Let_def endpoint_name_def split: sum.splits option.splits)
  note ok = ok [unfolded endpoint_failure_None]
  note e = plan_endpoint_ok [OF net plan refl]
  have "0 \<le> vertex_by_airport b (to_upper ?name)" using e ok by (auto simp: endpoint_plan_empty_def)
  then show ?thesis
    using e ok plan_endpoint_soft(1) [OF net plan]
    by (auto simp: planned_def endpoint_selector_def to_upper_def)
qed

lemma planned_seeds:
  assumes net: "network_ok b" and "planned b request departure avoid p"
    and es: "es = filter Q (to_search_endpoints (ep_connections p) soft)"
  shows "seeds_ok es"
proof -
  have "fit b departure avoid (ep_connections p)" using assms(2) by (simp add: planned_def)
  from fit_seeds(1) [OF this, of soft] show ?thesis by (simp add: seeds_ok_def es)
qed

section \<open>Forced points\<close>

text \<open>What the loop accepts of a token: a vertex on the network both ways, not avoided.\<close>

definition point_accepted :: "graph_builder \<Rightarrow> int list \<Rightarrow> string \<Rightarrow> int \<Rightarrow> bool" where
  "point_accepted b avoid token v \<longleftrightarrow>
     0 \<le> v \<and> \<not> is_airport b v \<and> names_waypoint (to_upper token) (ident_of b v) \<and>
     \<not> binary_search avoid v \<and> has_inbound b v \<and> has_outbound b v"

lemma takeWhile_sep: "x \<in> set xs \<Longrightarrow> takeWhile (\<lambda>c. c \<noteq> x) xs @ x # tl (dropWhile (\<lambda>c. c \<noteq> x) xs) = xs"
  by (induction xs) auto

lemma resolve_point_names:
  assumes b: "network_ok b" and v: "0 \<le> rp_vertex (resolve_point b token from to)"
  shows "names_waypoint (to_upper token) (ident_of b (rp_vertex (resolve_point b token from to)))"
proof -
  let ?up = "to_upper token"
  have ix: "indexed b" using b by (simp add: network_ok_def)
  show ?thesis
  proof (cases "CHR ''/'' \<in> set ?up")
    case True
    let ?i = "\<lparr>id_ident = takeWhile (\<lambda>c. c \<noteq> CHR ''/'') ?up, id_icao_code = tl (dropWhile (\<lambda>c. c \<noteq> CHR ''/'') ?up)\<rparr>"
    have "0 \<le> vertex_by_ident b ?i \<and> rp_vertex (resolve_point b token from to) = vertex_by_ident b ?i"
      using v True by (auto simp: resolve_point_def Let_def split: if_splits)
    moreover have "?up = id_ident ?i @ CHR ''/'' # id_icao_code ?i"
      using takeWhile_sep [OF True] by simp
    ultimately show ?thesis
      using network_by_ident [OF b, of ?i] by (auto simp: names_waypoint_def dest: set_takeWhileD)
  next
    case False
    let ?ms = "vertices_by_ident b ?up"
    obtain best t d saw where s: "foldl (point_step b from to) (- 1, 0, 0, False) ?ms = (best, t, d, saw)"
      by (metis prod_cases4)
    have "best = - 1 \<or> best \<in> set ?ms"
    proof -
      have "case foldl (point_step b from to) st vs of (best, _) \<Rightarrow> best = fst st \<or> best \<in> set vs" for st vs
      proof (induction vs rule: rev_induct)
        case (snoc v vs)
        then show ?case by (auto simp: point_step_def Let_def split: prod.splits if_splits)
      qed (simp split: prod.split)
      from this [of "(- 1, 0, 0, False)" ?ms] show ?thesis by (simp add: s)
    qed
    then have "rp_vertex (resolve_point b token from to) \<in> set ?ms"
      using v False s by (auto simp: resolve_point_def Let_def split: if_splits)
    then show ?thesis using False by (simp add: vertices_by_ident_spec [OF ix] names_waypoint_def)
  qed
qed

lemma resolve_forced_accepts:
  assumes b: "build data = Inr b" "small_data data"
    and r: "resolve_forced b dep arr avoid tokens forced echoes = Inr (forced', echoes')" and d: "distinct forced"
  shows "distinct forced' \<and> (\<exists>vs. forced' = forced @ vs \<and> list_all2 (point_accepted b avoid) tokens vs \<and>
    echoes' = echoes @ map (\<lambda>v. point_echo (ident_of b v)) vs)"
  using r d
proof (induction tokens arbitrary: forced echoes)
  case (Cons token tokens)
  let ?p = "resolve_point b token dep arr"
  let ?v = "rp_vertex ?p"
  have v: "0 \<le> ?v" "\<not> binary_search avoid ?v" "has_inbound b ?v" "has_outbound b ?v" "?v \<notin> set forced"
    and rec: "resolve_forced b dep arr avoid tokens (forced @ [?v]) (echoes @ [rp_echo ?p]) = Inr (forced', echoes')"
    using Cons.prems(1) by (auto simp: Let_def split: if_splits)
  have pt: "point_accepted b avoid token ?v" and echo: "rp_echo ?p = point_echo (ident_of b ?v)"
    using resolve_point_ok [OF b, of token dep arr] v resolve_point_names [OF built_network_ok [OF b] v(1)]
    by (auto simp: point_accepted_def Let_def)
  from Cons.IH [OF rec] Cons.prems(2) v(5) obtain vs where vs: "distinct forced'" "forced' = (forced @ [?v]) @ vs"
    "list_all2 (point_accepted b avoid) tokens vs"
    "echoes' = (echoes @ [rp_echo ?p]) @ map (\<lambda>v. point_echo (ident_of b v)) vs" by auto
  then have "forced' = forced @ ?v # vs" "list_all2 (point_accepted b avoid) (token # tokens) (?v # vs)"
    "echoes' = echoes @ map (\<lambda>v. point_echo (ident_of b v)) (?v # vs)" using pt echo by simp_all
  then show ?case using vs(1) by blast
qed simp

lemma forced_vertices_accepts:
  assumes b: "build data = Inr b" "small_data data"
    and r: "forced_vertices b request sources goals avoid = Inr (forced, echoes)"
  shows "distinct forced" and "list_all2 (point_accepted b avoid) (rr_forced_points request) forced"
    and "echoes = map (\<lambda>v. point_echo (ident_of b v)) forced"
    and "length (rr_forced_points request) \<le> 16"
proof -
  have le: "length (rr_forced_points request) \<le> 16"
    using r by (auto simp: forced_vertices_def max_forced_points_def split: if_splits)
  have "distinct forced \<and> list_all2 (point_accepted b avoid) (rr_forced_points request) forced \<and>
      echoes = map (\<lambda>v. point_echo (ident_of b v)) forced"
  proof (cases "rr_forced_points request = []")
    case True
    then show ?thesis using r by (simp add: forced_vertices_def max_forced_points_def)
  next
    case False
    then have "resolve_forced b (endpoint_coord b (rr_departure request) sources)
        (endpoint_coord b (rr_arrival request) goals) avoid (rr_forced_points request) [] [] = Inr (forced, echoes)"
      using r le by (simp add: forced_vertices_def max_forced_points_def)
    from resolve_forced_accepts [OF b this] show ?thesis by auto
  qed
  then show "distinct forced" "list_all2 (point_accepted b avoid) (rr_forced_points request) forced"
    "echoes = map (\<lambda>v. point_echo (ident_of b v)) forced" "length (rr_forced_points request) \<le> 16" using le by blast+
qed

section \<open>The search\<close>

lemma candidate_paths_result:
  assumes g: "graph_ok graph" and f: "filters_ok options" and s: "seeds_ok sources" "seeds_ok goals" "goals \<noteq> []"
    and k: "search_count_fits graph k" "0 < k" and d: "distinct forced"
  shows "\<exists>paths. candidate_paths graph sources goals forced k options = Some paths \<and> int (length paths) \<le> k \<and>
    distinct (map sp_vertices paths) \<and>
    (\<forall>p \<in> set paths. result_route (yen_env_of graph sources goals options) p \<and> subseq forced (sp_vertices p)) \<and>
    (forced = [] \<longrightarrow> paths = [] \<longrightarrow>
      (\<exists>r. find_shortest_path_multi graph sources goals options = Some r \<and> \<not> sp_found r))"
proof (cases "forced = []")
  case False
  from find_paths_result [OF g f s(1,2) k(1) d] False k(2) show ?thesis
    by (auto simp: candidate_paths_def le_nat_iff)
next
  case True
  show ?thesis
  proof (cases "k = 1")
    case one: True
    have "search_count_fits graph 1" by (simp add: search_count_fits_def)
    from find_k_result [OF g f s(1) this, of goals] obtain rs where rs: "length rs \<le> 1"
      "\<forall>r \<in> set rs. result_route (yen_env_of graph sources goals options) r"
      "rs \<noteq> [] \<longrightarrow> find_shortest_path_multi graph sources goals options = Some (hd rs)"
      "rs = [] \<longrightarrow> (\<exists>r. find_shortest_path_multi graph sources goals options = Some r \<and> \<not> sp_found r)"
      using s(3) by auto
    show ?thesis
    proof (cases "rs = []")
      case True
      then obtain r where "find_shortest_path_multi graph sources goals options = Some r" "\<not> sp_found r" using rs(4) by blast
      then show ?thesis using one \<open>forced = []\<close> by (simp add: candidate_paths_def)
    next
      case False
      then have "result_route (yen_env_of graph sources goals options) (hd rs)" using rs(2) by simp
      then show ?thesis
        using rs(3) False one \<open>forced = []\<close>
        by (simp add: candidate_paths_def result_route_def loopless_route_def)
    qed
  next
    case more: False
    from find_k_result [OF g f s(1) k(1), of goals] k(2) s(3) obtain rs where
      "find_k_shortest_paths_multi graph sources goals k options = Some rs" "length rs \<le> nat k" "distinct (map sp_vertices rs)"
      "\<forall>r \<in> set rs. result_route (yen_env_of graph sources goals options) r"
      "rs = [] \<longrightarrow> (\<exists>r. find_shortest_path_multi graph sources goals options = Some r \<and> \<not> sp_found r)"
      by auto
    then show ?thesis using True more k(2) by (auto simp: candidate_paths_def le_nat_iff)
  qed
qed

section \<open>Avoided waypoints\<close>

lemma evaluate_chain_blocks: "c \<in> set cs \<Longrightarrow> \<not> ev_allowed (ev c) \<Longrightarrow> evaluate_chain ev cs x = None"
  by (induction cs arbitrary: x) auto

lemma edge_into_avoided:
  assumes "AvoidWaypoint vs \<in> set (so_constraints options)" "binary_search vs v"
    and "select_edge graph u v options = Some (e, c)"
  shows False
proof -
  have "edge_to e = v" "edge_cost graph options u e = Some c" by (rule select_edge_Some [OF assms(3)])+
  then obtain x where "edge_allowed options e u (coord_of graph u) graph v = Some x"
    by (auto simp: edge_cost_def split: option.splits)
  moreover have "so_constraints options \<noteq> []" using assms(1) by auto
  moreover have "\<not> ev_allowed (evaluate (AvoidWaypoint vs) \<lparr>ctx_edge = e, ctx_from_coord = coord_of graph u,
      ctx_to_coord = coord_of graph v, ctx_from = u\<rparr> r)" for r
    using assms(2) \<open>edge_to e = v\<close> by (simp add: evaluate_avoid_def block_def)
  ultimately show False
    using evaluate_chain_blocks [OF assms(1)] by (auto simp: edge_allowed_def Let_def split: option.splits)
qed

lemma edge_sums_edges:
  "edge_sums graph options uvs = Some s \<Longrightarrow> (u, v) \<in> set uvs \<Longrightarrow> select_edge graph u v options \<noteq> None"
proof (induction uvs arbitrary: s rule: rev_induct)
  case (snoc uv uvs)
  have "edge_sums graph options (uvs @ [uv]) = cost_step graph options (edge_sums graph options uvs) uv"
    by (simp add: edge_sums_def)
  then have st: "cost_step graph options (edge_sums graph options uvs) uv = Some s" using snoc.prems(1) by simp
  then obtain s0 where s0: "edge_sums graph options uvs = Some s0" by (auto simp: cost_step_def split: option.splits)
  then show ?case
    using st snoc.IH [OF s0] snoc.prems(2) by (cases s0) (auto simp: cost_step_def split: if_splits option.splits)
qed simp

lemma result_route_parts:
  assumes "result_route (yen_env_of graph sources goals options) p"
  shows "sp_vertices p \<noteq> []" "\<forall>v \<in> set (sp_vertices p). is_vertex graph v \<and> \<not> node_blocks (so_node_filter options) v"
    "0 \<le> build_seed_table sources (vertex_count graph) ! nat (hd (sp_vertices p))"
    "0 \<le> build_seed_table goals (vertex_count graph) ! nat (last (sp_vertices p))"
    "\<exists>s. edge_sums graph options (zip (sp_vertices p) (tl (sp_vertices p))) = Some s"
proof -
  let ?vs = "sp_vertices p"
  show vs: "?vs \<noteq> []" "\<forall>v \<in> set ?vs. is_vertex graph v \<and> \<not> node_blocks (so_node_filter options) v"
    using assms by (simp_all add: result_route_def loopless_route_def yen_env_of_def Let_def)
  from assms obtain cost where "cost_of_path_multi graph ?vs (build_seed_table sources (vertex_count graph))
      (build_seed_table goals (vertex_count graph)) (build_bearing_table sources (vertex_count graph))
      (build_bearing_table goals (vertex_count graph)) options = Some (cost, sp_distance_nm p)"
    by (auto simp: result_route_def recost_def yen_env_of_def Let_def)
  then obtain e where m: "0 \<le> build_seed_table sources (vertex_count graph) ! nat (hd ?vs)"
    "0 \<le> build_seed_table goals (vertex_count graph) ! nat (last ?vs)"
    "cost_of_path graph ?vs options (build_bearing_table sources (vertex_count graph) ! nat (hd ?vs))
      (build_bearing_table goals (vertex_count graph) ! nat (last ?vs)) = Some e"
    using vs by (auto simp: cost_of_path_multi_def Let_def not_less split: if_splits option.splits)
  then show "0 \<le> build_seed_table sources (vertex_count graph) ! nat (hd ?vs)"
    "0 \<le> build_seed_table goals (vertex_count graph) ! nat (last ?vs)" by blast+
  show "\<exists>s. edge_sums graph options (zip ?vs (tl ?vs)) = Some s"
    using m(3) unfolding cost_of_path_sums [OF vs(1)] by (auto split: if_splits)
qed

lemma seeded_vertex:
  assumes "seeds_ok es" "0 \<le> v" "v < n" "0 \<le> build_seed_table es n ! nat v"
  obtains e where "e \<in> set es" "se_vertex e = v"
proof -
  from build_seed_table_cheapest [OF assms(1-3)] assms(4) obtain e where "cheapest_seed es v = Some e"
    by (auto split: option.splits)
  with cheapest_seed_spec [of es v] have "e \<in> set es" "se_vertex e = v" by simp_all
  then show ?thesis by (rule that)
qed

lemma route_vertices_allowed:
  assumes p: "result_route (yen_env_of graph sources goals options) p" and s: "seeds_ok sources"
    and src: "\<forall>e \<in> set sources. \<not> binary_search avoid (se_vertex e)"
    and con: "avoid = [] \<or> (\<exists>vs. AvoidWaypoint vs \<in> set (so_constraints options) \<and> (\<forall>v. binary_search vs v = binary_search avoid v))"
    and v: "v \<in> set (sp_vertices p)"
  shows "\<not> binary_search avoid v"
proof (cases "avoid = []")
  case True
  then show ?thesis by (simp add: binary_search_iff_mem)
next
  case False
  with con obtain vs where vs: "AvoidWaypoint vs \<in> set (so_constraints options)" "\<And>v. binary_search vs v = binary_search avoid v" by blast
  note parts = result_route_parts [OF p]
  obtain u us where us: "sp_vertices p = u # us" using parts(1) by (cases "sp_vertices p") auto
  show ?thesis
  proof (cases "v = u")
    case True
    have "0 \<le> u" "u < vertex_count graph" using parts(2) us by (auto simp: is_vertex_def)
    from seeded_vertex [OF s this] parts(3) us obtain e where "e \<in> set sources" "se_vertex e = u" by auto
    then show ?thesis using src True by blast
  next
    case no: False
    then obtain i where i: "i < length us" "us ! i = v" using v us by (auto simp: in_set_conv_nth)
    have "((u # us) ! i, v) \<in> set (zip (u # us) us)"
      unfolding in_set_zip using i by (intro exI [of _ i]) simp
    then obtain w e c where "select_edge graph w v options = Some (e, c)"
      using parts(5) edge_sums_edges [of graph options "zip (u # us) us"] us by fastforce
    then show ?thesis using edge_into_avoided [OF vs(1)] vs(2) by blast
  qed
qed

section \<open>From the plans to the routes\<close>

definition query_endpoints :: "int list \<Rightarrow> endpoint_plan \<Rightarrow> bool \<Rightarrow> seeded_endpoint list" where
  "query_endpoints avoid plan soft =
     filter (\<lambda>e. \<not> binary_search avoid (se_vertex e)) (to_search_endpoints (ep_connections plan) soft)"

lemma drop_avoided_query:
  "(if avoid = [] then to_search_endpoints (ep_connections plan) soft
    else drop_avoided avoid (to_search_endpoints (ep_connections plan) soft)) = query_endpoints avoid plan soft"
  by (simp add: query_endpoints_def drop_avoided_def binary_search_iff_mem)

text \<open>A route of the query: the assembled form of a path the search may return.\<close>

definition query_route ::
  "graph_builder \<Rightarrow> constraint_bundle \<Rightarrow> endpoint_plan \<Rightarrow> endpoint_plan \<Rightarrow> int list \<Rightarrow> shortest_path \<Rightarrow> route \<Rightarrow> bool" where
  "query_route b c dep arr forced p r \<longleftrightarrow>
     (let soft = soft_prefer_star_active arr; avoid = cb_avoid_vertices c in
      result_route (yen_env_of (gb_graph b) (query_endpoints avoid dep False) (query_endpoints avoid arr soft) (cb_options c)) p \<and>
      subseq forced (sp_vertices p) \<and>
      r = assemble_route b (gb_graph b) dep arr soft (cb_options c) (map (\<lambda>v. point_echo (ident_of b v)) forced) p)"

lemma constraint_bundle_facts:
  assumes b: "build data = Inr b" "small_data data" and c: "constraint_assembly_build request b mora = Inr c"
  shows "filters_ok (cb_options c)" and "node_blocks (so_node_filter (cb_options c)) v \<longleftrightarrow> is_airport b v"
    and "cb_avoid_vertices c = [] \<or> (\<exists>vs. AvoidWaypoint vs \<in> set (so_constraints (cb_options c)) \<and>
      (\<forall>v. binary_search vs v = binary_search (cb_avoid_vertices c) v))"
    and "binary_search (cb_avoid_vertices c) v \<longleftrightarrow> 0 \<le> v \<and> v < gb_first_airport_vertex b \<and>
      (\<exists>raw \<in> set (rr_avoid_waypoints request). names_waypoint (to_upper raw) (ident_of b v))"
proof -
  note ok = constraint_assembly_ok [OF b, of request mora]
  show "filters_ok (cb_options c)" "node_blocks (so_node_filter (cb_options c)) v \<longleftrightarrow> is_airport b v"
    using ok by (simp_all add: c)
  have av: "sorted (cb_avoid_vertices c)" "set (cb_avoid_vertices c) = {v. 0 \<le> v \<and> v < gb_first_airport_vertex b \<and>
      (\<exists>raw \<in> set (rr_avoid_waypoints request). names_waypoint (to_upper raw) (ident_of b v))}"
    using ok by (simp_all add: c)
  show "binary_search (cb_avoid_vertices c) v \<longleftrightarrow> 0 \<le> v \<and> v < gb_first_airport_vertex b \<and>
      (\<exists>raw \<in> set (rr_avoid_waypoints request). names_waypoint (to_upper raw) (ident_of b v))"
    by (simp add: binary_search_iff_mem [OF av(1)] av(2))
  have "cb_avoid_vertices c = resolve_avoid_vertices b (rr_avoid_waypoints request)"
    and cons: "so_constraints (cb_options c) = assembled_constraints request b mora"
    using c by (auto simp: constraint_assembly_build_def search_options_default_def split: if_splits)
  moreover have "rr_avoid_waypoints request = [] \<Longrightarrow> cb_avoid_vertices c = []" using av(2) by simp
  ultimately show "cb_avoid_vertices c = [] \<or> (\<exists>vs. AvoidWaypoint vs \<in> set (so_constraints (cb_options c)) \<and>
      (\<forall>v. binary_search vs v = binary_search (cb_avoid_vertices c) v))"
    using av(1) by (auto simp: assembled_constraints_def binary_search_iff_mem)
qed

lemma search_routes_result:
  assumes b: "build data = Inr b" "small_data data" and c: "constraint_assembly_build request b mora = Inr c"
    and dep: "planned b request True (cb_avoid_vertices c) dep" and arr: "planned b request False (cb_avoid_vertices c) arr"
    and fits: "search_count_fits (gb_graph b) (max 1 (rr_k request))"
  shows "\<exists>out. search_routes b request c dep arr = Some out \<and>
    (case out of Inl e \<Rightarrow> True
     | Inr routes \<Rightarrow> routes \<noteq> [] \<and> int (length routes) \<le> max 1 (rr_k request) \<and>
         (\<exists>forced. distinct forced \<and> list_all2 (point_accepted b (cb_avoid_vertices c)) (rr_forced_points request) forced \<and>
            (\<forall>r \<in> set routes. \<exists>p. query_route b c dep arr forced p r)))"
proof -
  let ?avoid = "cb_avoid_vertices c" and ?soft = "soft_prefer_star_active arr"
  let ?S = "query_endpoints ?avoid dep False" and ?G = "query_endpoints ?avoid arr ?soft"
  note net = built_network_ok [OF b] and facts = constraint_bundle_facts [OF b c]
  have g: "graph_ok (gb_graph b)" using net by (simp add: network_ok_def)
  have s: "seeds_ok ?S" "seeds_ok ?G"
    using planned_seeds [OF net dep, where soft = False] planned_seeds [OF net arr, where soft = ?soft]
    by (simp_all add: query_endpoints_def)
  note unfolded = search_routes_def [of b request c dep arr, unfolded Let_def drop_avoided_query]
  show ?thesis
  proof (cases "?avoid \<noteq> [] \<and> (?S = [] \<or> ?G = [])")
    case True
    then show ?thesis by (simp add: unfolded)
  next
    case ok: False
    have ne: "?G \<noteq> []"
      using ok arr by (cases "?avoid = []")
        (simp_all add: query_endpoints_def planned_def to_search_endpoints_def binary_search_iff_mem)
    show ?thesis
    proof (cases "forced_vertices b request ?S ?G ?avoid")
      case (Inl e)
      then show ?thesis unfolding unfolded if_not_P [OF ok] by simp
    next
      case (Inr fe)
      obtain forced echoes where fe: "fe = (forced, echoes)" by fastforce
      note fv = forced_vertices_accepts [OF b Inr [unfolded fe]]
      have "0 < max 1 (rr_k request)" by simp
      from candidate_paths_result [OF g facts(1) s ne fits this fv(1)] obtain paths where
        paths: "candidate_paths (gb_graph b) ?S ?G forced (max 1 (rr_k request)) (cb_options c) = Some paths"
        "int (length paths) \<le> max 1 (rr_k request)"
        "\<forall>p \<in> set paths. result_route (yen_env_of (gb_graph b) ?S ?G (cb_options c)) p \<and> subseq forced (sp_vertices p)"
        by blast
      have "\<forall>p \<in> set paths. sp_vertices p \<noteq> []" using paths(3) result_route_parts(1) by blast
      then have "filter (\<lambda>p. sp_vertices p \<noteq> []) paths = paths" by (rule filter_True)
      then have a: "assemble b (gb_graph b) paths dep arr ?soft (cb_options c) echoes =
          map (assemble_route b (gb_graph b) dep arr ?soft (cb_options c) echoes) paths" by (simp add: assemble_def)
      have each: "\<exists>p. query_route b c dep arr forced p r"
        if "r \<in> set (assemble b (gb_graph b) paths dep arr ?soft (cb_options c) echoes)" for r
        using that paths(3) unfolding a by (auto simp: query_route_def Let_def fv(3))
      show ?thesis
        unfolding unfolded if_not_P [OF ok] Inr fe
        using paths(1,2) fv(1,2) each a by (auto simp: paths(1))
    qed
  qed
qed

lemma find_routes_routes:
  assumes b: "build data = Inr b" "small_data data" and db: "db_builder db = Some b"
    and fits: "search_count_fits (gb_graph b) (max 1 (rr_k request))"
  shows "\<exists>out. fst (find_routes db request) = Some out \<and>
    (case out of Inl e \<Rightarrow> True
     | Inr routes \<Rightarrow> routes \<noteq> [] \<and> int (length routes) \<le> max 1 (rr_k request) \<and>
         (\<exists>c dep arr forced. constraint_assembly_build request b (db_mora db) = Inr c \<and>
            planned b request True (cb_avoid_vertices c) dep \<and> planned b request False (cb_avoid_vertices c) arr \<and>
            list_all2 (point_accepted b (cb_avoid_vertices c)) (rr_forced_points request) forced \<and>
            (\<forall>r \<in> set routes. \<exists>p. query_route b c dep arr forced p r)))"
proof (cases "constraint_assembly_build request b (db_mora db)")
  case (Inl e)
  then show ?thesis by (simp add: find_routes_def db)
next
  case c: (Inr c)
  let ?avoid = "cb_avoid_vertices c"
  note net = built_network_ok [OF b]
  obtain r1 db1 where p1: "plan_side db b request True ?avoid = (r1, db1)" by fastforce
  show ?thesis
  proof (cases r1)
    case (Inl e)
    then show ?thesis by (simp add: find_routes_def db c p1)
  next
    case dep: (Inr dep)
    obtain r2 db2 where p2: "plan_side db1 b request False ?avoid = (r2, db2)" by fastforce
    show ?thesis
    proof (cases r2)
      case (Inl e)
      then show ?thesis by (simp add: find_routes_def db c p1 p2 dep)
    next
      case arr: (Inr arr)
      have plans: "planned b request True ?avoid dep" "planned b request False ?avoid arr"
        using plan_side_planned [OF net p1 [unfolded dep]] plan_side_planned [OF net p2 [unfolded arr]] .
      from search_routes_result [OF b c plans fits] obtain out where
        out: "search_routes b request c dep arr = Some out" and
        o: "case out of Inl e \<Rightarrow> True
          | Inr routes \<Rightarrow> routes \<noteq> [] \<and> int (length routes) \<le> max 1 (rr_k request) \<and>
              (\<exists>forced. distinct forced \<and> list_all2 (point_accepted b ?avoid) (rr_forced_points request) forced \<and>
                (\<forall>r \<in> set routes. \<exists>p. query_route b c dep arr forced p r))" by blast
      have "fst (find_routes db request) = Some out" by (simp add: find_routes_def db c p1 p2 dep arr out)
      then show ?thesis using o c plans by (cases out) (simp_all, blast)
    qed
  qed
qed

lemma find_routesE:
  assumes b: "build data = Inr b" "small_data data" and db: "db_builder db = Some b"
    and fits: "search_count_fits (gb_graph b) (max 1 (rr_k request))"
    and r: "fst (find_routes db request) = Some (Inr routes)" "r \<in> set routes"
  obtains c dep arr forced p where "constraint_assembly_build request b (db_mora db) = Inr c"
    "planned b request True (cb_avoid_vertices c) dep" "planned b request False (cb_avoid_vertices c) arr"
    "list_all2 (point_accepted b (cb_avoid_vertices c)) (rr_forced_points request) forced"
    "query_route b c dep arr forced p r"
  using find_routes_routes [OF b db fits] r by auto

lemma query_route_ok:
  assumes b: "build data = Inr b" "small_data data"
    and dep: "planned b request True avoid dep" and arr: "planned b request False avoid arr"
    and named: "rr_departure request \<noteq> []" "rr_arrival request \<noteq> []" and r: "query_route b c dep arr forced p r"
  shows "route_ok (to_upper (rr_departure request)) (to_upper (rr_arrival request)) r"
proof -
  have icao: "ep_airport_icao dep = to_upper (rr_departure request)" "ep_airport_icao arr = to_upper (rr_arrival request)"
    "ep_airport_icao dep \<noteq> []" "ep_airport_icao arr \<noteq> []"
    using dep arr named by (auto simp: planned_def endpoint_name_def to_upper_def)
  have fit: "fit b True avoid (ep_connections dep)" "fit b False avoid (ep_connections arr)"
    using dep arr by (simp_all add: planned_def)
  have soft: "soft_prefer_star_active arr \<Longrightarrow> \<forall>c \<in> set (ep_connections arr). cn_procedures c \<noteq> []"
    using arr by (simp add: planned_def soft_has_procedures_def soft_prefer_star_active_def)
  from r have q: "result_route (yen_env_of (gb_graph b) (query_endpoints (cb_avoid_vertices c) dep False)
      (query_endpoints (cb_avoid_vertices c) arr (soft_prefer_star_active arr)) (cb_options c)) p"
    "r = assemble_route b (gb_graph b) dep arr (soft_prefer_star_active arr) (cb_options c)
      (map (\<lambda>v. point_echo (ident_of b v)) forced) p"
    by (simp_all add: query_route_def Let_def)
  show ?thesis
    using assemble_route_ok [OF built_network_ok [OF b] fit(1) icao(3) fit(2) icao(4) soft
        query_endpoints_def query_endpoints_def q] by (simp add: icao)
qed

text \<open>The points of a query's route.\<close>

lemma assemble_route_points:
  assumes "sp_vertices p \<noteq> []" and "r = assemble_route b graph dep arr soft options echo p"
  shows "ro_points r = route_points_of b graph (sp_vertices p) (ep_airport_icao dep) (ep_airport_icao arr)
      (side_of_fix dep (hd (sp_vertices p))) (side_of_fix arr (last (sp_vertices p)))"
    and "ro_forced_points r = echo"
proof -
  have mk: "ro_points (make_route b graph p dl al sid star sd sa options) = route_points_of b graph (sp_vertices p) dl al sd sa"
    for dl al sid star sd sa
    using assms(1) by (simp add: make_route_def Let_def split: prod.split)
  show "ro_points r = route_points_of b graph (sp_vertices p) (ep_airport_icao dep) (ep_airport_icao arr)
      (side_of_fix dep (hd (sp_vertices p))) (side_of_fix arr (last (sp_vertices p)))" "ro_forced_points r = echo"
    unfolding assms(2) assemble_route_def by (simp_all add: Let_def mk split: prod.split)
qed

lemma side_splice:
  assumes "fit b departure avoid (ep_connections plan)" and "ss_splice (side_of_fix plan v)"
  shows "is_vertex (gb_graph b) (ss_vertex (side_of_fix plan v))" and "\<not> binary_search avoid (ss_vertex (side_of_fix plan v))"
proof -
  from assms(2) obtain c where c: "find_connection plan v = Some c" "0 \<le> cn_splice_vertex c"
    by (auto simp: side_of_fix_def splice_side_of_def no_vertex_def split: option.splits)
  then have "c \<in> set (ep_connections plan)" by (auto simp: find_connection_def find_Some_iff)
  then have "connection_ok b (if departure then Outbound else Inbound) c" "splice_allowed avoid c"
    using assms(1) by (simp_all add: fit_def)
  then show "is_vertex (gb_graph b) (ss_vertex (side_of_fix plan v))" "\<not> binary_search avoid (ss_vertex (side_of_fix plan v))"
    using c by (auto simp: side_of_fix_def splice_side_of_def connection_ok_def splice_ok_def splice_allowed_def no_vertex_def)
qed

lemma interior_points:
  assumes "vs \<noteq> []" "dl \<noteq> []" "al \<noteq> []" and "pt \<in> set (butlast (tl (route_points_of b graph vs dl al dep arr)))"
  obtains v where "pt = fix_point b graph v" "v \<in> set vs \<or> ss_splice dep \<and> v = ss_vertex dep \<or> ss_splice arr \<and> v = ss_vertex arr"
  using assms by (auto simp: route_points_of_def butlast_append split: if_splits)

lemma query_route_avoids:
  assumes b: "build data = Inr b" "small_data data" and c: "constraint_assembly_build request b mora = Inr c"
    and dep: "planned b request True (cb_avoid_vertices c) dep" and arr: "planned b request False (cb_avoid_vertices c) arr"
    and named: "rr_departure request \<noteq> []" "rr_arrival request \<noteq> []" and r: "query_route b c dep arr forced p r"
    and pt: "pt \<in> set (butlast (tl (ro_points r)))"
  shows "\<exists>v. is_vertex (gb_graph b) v \<and> pt = fix_point b (gb_graph b) v \<and> \<not> binary_search (cb_avoid_vertices c) v"
proof -
  let ?avoid = "cb_avoid_vertices c" and ?soft = "soft_prefer_star_active arr"
  from r have q: "result_route (yen_env_of (gb_graph b) (query_endpoints ?avoid dep False) (query_endpoints ?avoid arr ?soft) (cb_options c)) p"
    "r = assemble_route b (gb_graph b) dep arr ?soft (cb_options c) (map (\<lambda>v. point_echo (ident_of b v)) forced) p"
    by (simp_all add: query_route_def Let_def)
  have icao: "ep_airport_icao dep \<noteq> []" "ep_airport_icao arr \<noteq> []"
    using dep arr named by (auto simp: planned_def endpoint_name_def to_upper_def)
  have fit: "fit b True ?avoid (ep_connections dep)" "fit b False ?avoid (ep_connections arr)"
    using dep arr by (simp_all add: planned_def)
  note parts = result_route_parts [OF q(1)]
  have s: "seeds_ok (query_endpoints ?avoid dep False)"
    by (rule planned_seeds [OF built_network_ok [OF b] dep query_endpoints_def])
  have src: "\<forall>e \<in> set (query_endpoints ?avoid dep False). \<not> binary_search ?avoid (se_vertex e)"
    by (simp add: query_endpoints_def)
  from interior_points [OF parts(1) icao pt [unfolded assemble_route_points(1) [OF parts(1) q(2)]]]
  obtain v where v: "pt = fix_point b (gb_graph b) v"
    "v \<in> set (sp_vertices p) \<or> ss_splice (side_of_fix dep (hd (sp_vertices p))) \<and> v = ss_vertex (side_of_fix dep (hd (sp_vertices p))) \<or>
      ss_splice (side_of_fix arr (last (sp_vertices p))) \<and> v = ss_vertex (side_of_fix arr (last (sp_vertices p)))" by blast
  have "is_vertex (gb_graph b) v \<and> \<not> binary_search ?avoid v"
    using v(2) side_splice [OF fit(1)] side_splice [OF fit(2)] parts(2)
      route_vertices_allowed [OF q(1) s src constraint_bundle_facts(3) [OF b c]] by blast
  then show ?thesis using v(1) by blast
qed

lemma subseq_mapI: "subseq xs ys \<Longrightarrow> subseq (map f xs) (map f ys)"
  by (induction rule: list_emb.induct) auto

lemma query_route_forced:
  assumes "query_route b c dep arr forced p r"
  shows "subseq (map (fix_point b (gb_graph b)) forced) (ro_points r)"
    and "ro_forced_points r = map (\<lambda>v. point_echo (ident_of b v)) forced"
proof -
  let ?soft = "soft_prefer_star_active arr"
  from assms have q: "result_route (yen_env_of (gb_graph b) (query_endpoints (cb_avoid_vertices c) dep False)
      (query_endpoints (cb_avoid_vertices c) arr ?soft) (cb_options c)) p"
    "r = assemble_route b (gb_graph b) dep arr ?soft (cb_options c) (map (\<lambda>v. point_echo (ident_of b v)) forced) p"
    "subseq forced (sp_vertices p)"
    by (simp_all add: query_route_def Let_def)
  note pts = assemble_route_points [OF result_route_parts(1) [OF q(1)] q(2)]
  have "subseq (map (fix_point b (gb_graph b)) forced) (map (fix_point b (gb_graph b)) (sp_vertices p))"
    by (rule subseq_mapI [OF q(3)])
  then show "subseq (map (fix_point b (gb_graph b)) forced) (ro_points r)"
    unfolding pts(1) route_points_of_def by (metis list_emb_append2 subseq_rev_drop_many)
  show "ro_forced_points r = map (\<lambda>v. point_echo (ident_of b v)) forced" by (rule pts(2))
qed

section \<open>Named procedures\<close>

lemma honoured_names:
  assumes fit: "fit b departure avoid (ep_connections plan)" and h: "honours departure sel (ep_connections plan)"
    and f: "find_connection plan v = Some c" "c \<in> set (ep_connections plan)"
  shows "arrival_kind_for_fix plan v = CkProcedure \<or> departure"
    and "select_procedures plan v = (name, runway, opts) \<Longrightarrow>
      opts \<noteq> [] \<and> (\<exists>ref. ref_wanted departure sel ref \<and> name = ref_name ref)"
proof -
  have refs: "cn_procedures c \<noteq> []" "\<forall>r \<in> set (cn_procedures c). ref_wanted departure sel r"
    using h f(2) by (simp_all add: honours_def)
  then have plain: "plain_refs c = cn_procedures c" by (auto simp: plain_refs_def ref_wanted_def filter_id_conv split: if_splits)
  have "ref_wanted departure sel (hd (cn_procedures c))" using refs by simp
  then show "arrival_kind_for_fix plan v = CkProcedure \<or> departure"
    using refs(1) f(1) by (auto simp: arrival_kind_for_fix_def ref_wanted_def)
  assume s: "select_procedures plan v = (name, runway, opts)"
  note sp = select_procedures_spec [OF f(1) s, unfolded plain]
  show "opts \<noteq> [] \<and> (\<exists>ref. ref_wanted departure sel ref \<and> name = ref_name ref)"
  proof (cases "name = []")
    case True
    then have "ref_name (hd (cn_procedures c)) = name" using sp(3) refs(1) by simp
    then show ?thesis using sp(1) refs \<open>ref_wanted departure sel (hd (cn_procedures c))\<close> by auto
  next
    case False
    then show ?thesis using sp(1,2) refs by auto
  qed
qed

lemma assemble_route_names:
  assumes "r = assemble_route b graph dep arr soft options echo p"
    and "select_procedures dep (hd (sp_vertices p)) = (sid, dep_rwy, sid_opts)"
  shows "ro_sid r = sid" "ro_sid_options r = sid_opts" "ro_dep_runway r = dep_rwy"
    and "arrival_kind_for_fix arr (last (sp_vertices p)) \<noteq> CkTerminalTransition \<Longrightarrow>
      select_procedures arr (last (sp_vertices p)) = (star, arr_rwy, star_opts) \<Longrightarrow>
      ro_star r = star \<and> ro_star_options r = star_opts \<and> \<not> ro_terminal_transition r"
proof -
  have mk: "\<not> ro_terminal_transition (make_route b graph p dl al sid star sd sa options)" for dl al sid star sd sa
    by (simp add: make_route_def Let_def route_empty_def split: prod.split)
  show "ro_sid r = sid" "ro_sid_options r = sid_opts" "ro_dep_runway r = dep_rwy"
    unfolding assms(1) assemble_route_def by (simp_all add: Let_def assms(2) split: prod.split)
  show "ro_star r = star \<and> ro_star_options r = star_opts \<and> \<not> ro_terminal_transition r"
    if "arrival_kind_for_fix arr (last (sp_vertices p)) \<noteq> CkTerminalTransition"
      "select_procedures arr (last (sp_vertices p)) = (star, arr_rwy, star_opts)"
    unfolding assms(1) assemble_route_def using that by (simp add: Let_def assms(2) mk)
qed

lemma query_route_names:
  assumes b: "build data = Inr b" "small_data data"
    and dep: "planned b request True (cb_avoid_vertices c) dep" and arr: "planned b request False (cb_avoid_vertices c) arr"
    and r: "query_route b c dep arr forced p r"
  shows "rr_departure_sid request \<noteq> [] \<Longrightarrow>
      \<exists>ref. ref_wanted True (to_upper (rr_departure_sid request)) ref \<and> ro_sid r = ref_name ref \<and> ro_sid_options r \<noteq> []"
    and "rr_arrival_star request \<noteq> [] \<Longrightarrow> \<not> ro_terminal_transition r \<and>
      (\<exists>ref. ref_wanted False (to_upper (rr_arrival_star request)) ref \<and> ro_star r = ref_name ref \<and> ro_star_options r \<noteq> [])"
proof -
  let ?avoid = "cb_avoid_vertices c" and ?soft = "soft_prefer_star_active arr" and ?vs = "sp_vertices p"
  from r have q: "result_route (yen_env_of (gb_graph b) (query_endpoints ?avoid dep False) (query_endpoints ?avoid arr ?soft) (cb_options c)) p"
    "r = assemble_route b (gb_graph b) dep arr ?soft (cb_options c) (map (\<lambda>v. point_echo (ident_of b v)) forced) p"
    by (simp_all add: query_route_def Let_def)
  have fit: "fit b True ?avoid (ep_connections dep)" "fit b False ?avoid (ep_connections arr)"
    using dep arr by (simp_all add: planned_def)
  note parts = result_route_parts [OF q(1)]
  have range: "0 \<le> hd ?vs" "hd ?vs < vertex_count (gb_graph b)" "0 \<le> last ?vs" "last ?vs < vertex_count (gb_graph b)"
    using parts(1,2) by (auto simp: is_vertex_def)
  obtain cd where cd: "find_connection dep (hd ?vs) = Some cd" "cd \<in> set (ep_connections dep)"
    by (rule seed_of_plan [OF fit(1) query_endpoints_def range(1,2) parts(3)])
  obtain ca where ca: "find_connection arr (last ?vs) = Some ca" "ca \<in> set (ep_connections arr)"
    by (rule seed_of_plan [OF fit(2) query_endpoints_def range(3,4) parts(4)])
  obtain sid dep_rwy sid_opts where sid: "select_procedures dep (hd ?vs) = (sid, dep_rwy, sid_opts)" by (metis prod_cases3)
  obtain star arr_rwy star_opts where star: "select_procedures arr (last ?vs) = (star, arr_rwy, star_opts)" by (metis prod_cases3)
  note names = assemble_route_names [OF q(2) sid]
  show "\<exists>ref. ref_wanted True (to_upper (rr_departure_sid request)) ref \<and> ro_sid r = ref_name ref \<and> ro_sid_options r \<noteq> []"
    if "rr_departure_sid request \<noteq> []"
  proof -
    have "honours True (to_upper (rr_departure_sid request)) (ep_connections dep)"
      using dep that by (simp add: planned_def endpoint_selector_def)
    from honoured_names(2) [OF fit(1) this cd sid] show ?thesis unfolding names(1,2) by blast
  qed
  show "\<not> ro_terminal_transition r \<and>
      (\<exists>ref. ref_wanted False (to_upper (rr_arrival_star request)) ref \<and> ro_star r = ref_name ref \<and> ro_star_options r \<noteq> [])"
    if "rr_arrival_star request \<noteq> []"
  proof -
    have h: "honours False (to_upper (rr_arrival_star request)) (ep_connections arr)"
      using arr that by (simp add: planned_def endpoint_selector_def)
    note hn = honoured_names [OF fit(2) h ca]
    have "arrival_kind_for_fix arr (last ?vs) \<noteq> CkTerminalTransition" using hn(1) by auto
    with hn(2) [OF star] names(4) [OF _ star] show ?thesis by blast
  qed
qed

section \<open>A route that exists is found\<close>

lemma find_routes_found:
  assumes b: "build data = Inr b" "small_data data" and db: "db_builder db = Some b"
    and fits: "search_count_fits (gb_graph b) (max 1 (rr_k request))"
    and c: "constraint_assembly_build request b (db_mora db) = Inr c"
    and dep: "plan_side db b request True (cb_avoid_vertices c) = (Inr dep, db1)"
    and arr: "plan_side db1 b request False (cb_avoid_vertices c) = (Inr arr, db2)"
    and none: "rr_forced_points request = []"
    and env: "env = search_env_of (gb_graph b) (query_endpoints (cb_avoid_vertices c) dep False)
      (query_endpoints (cb_avoid_vertices c) arr (soft_prefer_star_active arr)) (cb_options c)"
    and walk: "reach env (query_endpoints (cb_avoid_vertices c) dep False) v cost" "is_goal env v"
  shows "\<exists>routes. find_routes db request = (Some (Inr routes), db2) \<and> routes \<noteq> []"
proof -
  let ?avoid = "cb_avoid_vertices c" and ?soft = "soft_prefer_star_active arr"
  let ?S = "query_endpoints ?avoid dep False" and ?G = "query_endpoints ?avoid arr ?soft"
  note net = built_network_ok [OF b] and facts = constraint_bundle_facts [OF b c]
  have g: "graph_ok (gb_graph b)" using net by (simp add: network_ok_def)
  note plans = plan_side_planned [OF net dep] plan_side_planned [OF net arr]
  have s: "seeds_ok ?S" "seeds_ok ?G"
    using planned_seeds [OF net plans(1), where soft = False] planned_seeds [OF net plans(2), where soft = ?soft]
    by (simp_all add: query_endpoints_def)
  have "\<exists>s. s \<in> set ?S" using walk(1) by (induction rule: reach.induct) auto
  then have ne: "?S \<noteq> []" by auto
  have goals: "?G \<noteq> []"
    using walk(2) by (auto simp: env is_goal_def search_env_of_def Let_def build_seed_table_def is_vertex_def)
  note unfolded = search_routes_def [of b request c dep arr, unfolded Let_def drop_avoided_query]
  have kpos: "0 < max 1 (rr_k request)" by simp
  from candidate_paths_result [OF g facts(1) s goals fits kpos distinct.simps(1)[THEN iffD2, OF TrueI]] obtain paths where
    paths: "candidate_paths (gb_graph b) ?S ?G [] (max 1 (rr_k request)) (cb_options c) = Some paths"
    "\<forall>p \<in> set paths. result_route (yen_env_of (gb_graph b) ?S ?G (cb_options c)) p"
    "paths = [] \<longrightarrow> (\<exists>r. find_shortest_path_multi (gb_graph b) ?S ?G (cb_options c) = Some r \<and> \<not> sp_found r)" by blast
  have "paths \<noteq> []"
  proof
    assume "paths = []"
    then obtain r where r: "find_shortest_path_multi (gb_graph b) ?S ?G (cb_options c) = Some r" "\<not> sp_found r" using paths(3) by blast
    from find_shortest_path_multi_result [OF g, of ?S ?G "cb_options c"] obtain r' where
      "find_shortest_path_multi (gb_graph b) ?S ?G (cb_options c) = Some r'" "sp_found r'"
      using s(2) walk unfolding env by metis
    then show False using r by simp
  qed
  have "\<forall>p \<in> set paths. sp_vertices p \<noteq> []" using paths(2) result_route_parts(1) by blast
  then have "filter (\<lambda>p. sp_vertices p \<noteq> []) paths = paths" by (rule filter_True)
  then have a: "assemble b (gb_graph b) paths dep arr ?soft (cb_options c) [] \<noteq> []"
    using \<open>paths \<noteq> []\<close> by (simp add: assemble_def)
  have "forced_vertices b request ?S ?G ?avoid = Inr ([], [])" by (simp add: forced_vertices_def none)
  then have "search_routes b request c dep arr = Some (Inr (assemble b (gb_graph b) paths dep arr ?soft (cb_options c) []))"
    unfolding unfolded using ne goals \<open>paths \<noteq> []\<close> by (simp add: paths(1))
  then show ?thesis using a by (simp add: find_routes_def db c dep arr)
qed

section \<open>A query on the sample database\<close>

definition sample_request :: route_request where
  "sample_request = route_request_default ''eddf'' ''eddf''"

lemma sample_request_fits:
  "search_count_fits graph (max 1 (rr_k sample_request))" "rr_forced_points sample_request = []"
  by (simp_all add: search_count_fits_def sample_request_def route_request_default_def)

lemma sample_edge_found:
  assumes b: "build sample_data = Inr b"
  obtains e where "e \<in> set (out_edges (gb_graph b) 0)" "edge_to e = 1" "has_outbound b 0" "has_inbound b 1"
proof (rule sample_built)
  fix b' assume b': "build sample_data = Inr b'" "\<not> gb_airway_overflow b'" "is_vertex (gb_graph b') 0"
    "connects b' sample_connection 0 1"
  have bb: "b' = b" using b b'(1) by simp
  show thesis
  proof (rule build_wired [OF b sample_data_ok(2)])
    fix b0 assume l: "loaded b0" and b0: "b = wired b0 (nd_airways sample_data)"
    have conn: "sample_connection \<in> set (nd_airways sample_data)" by (simp add: sample_data_def)
    have o: "\<not> gb_airway_overflow (wired b0 (nd_airways sample_data))" using b'(2) bb b0 by simp
    have c: "connects b0 sample_connection 0 1" using b'(4) unfolding bb b0 wired_connects .
    from wired_edge_complete [OF l o conn c] obtain e where
      "is_vertex (gb_graph b) 0" "e \<in> set (out_edges (gb_graph b) 0)" "edge_to e = 1"
      by (auto simp: b0 connection_edge_def)
    moreover have "is_vertex (gb_graph b) 1" using sample_network(2) [OF b] by (simp add: is_vertex_def)
    ultimately show thesis
      using that wired_flags [OF l, of "nd_airways sample_data" 0] wired_flags [OF l, of "nd_airways sample_data" 1]
      by (auto simp: b0)
  qed
qed

lemma sample_coords:
  assumes b: "build sample_data = Inr b"
  shows "ng_coords (gb_graph b) = [\<lparr>latitude = 50, longitude = 8\<rparr>, \<lparr>latitude = 50, longitude = 9\<rparr>, \<lparr>latitude = 50, longitude = 8.5\<rparr>]"
proof (rule build_wired [OF b sample_data_ok(2)])
  fix b0 fs
  assume l: "b = wired b0 (nd_airways sample_data)" "b0 = vertices_loaded sample_data fs"
    "list_all2 (\<lambda>i f. fixed_ident_from_ident i = Inr f) (data_idents sample_data) fs"
  show ?thesis using build_vertices(2) [OF l] by (simp add: sample_data_def sample_fix_def)
qed

lemma sample_nearest:
  assumes b: "build sample_data = Inr b"
  shows "0 \<in> set (nearest_on_network b \<lparr>latitude = 50, longitude = 8.5\<rparr> 5 False)"
    and "1 \<in> set (nearest_on_network b \<lparr>latitude = 50, longitude = 8.5\<rparr> 5 True)"
proof -
  let ?apt = "\<lparr>latitude = 50, longitude = 8.5\<rparr>"
  obtain e where e: "has_outbound b 0" "has_inbound b 1" by (rule sample_edge_found [OF b])
  note scan = built_nearest_scan [OF b sample_data_ok(2), of ?apt 5]
  have globe: "on_globe ?apt" "\<forall>v \<in> {0, 1}. on_globe (coord_of (gb_graph b) v)"
    by (simp_all add: on_globe_def degrees_half_circle_def coord_of_def sample_coords [OF b])
  have all: "set (take (nat 5) (map snd (sort (map (\<lambda>v. (distance_to ?apt (coord_of (gb_graph b) v), v))
      (filter P [0 .. vertex_count (gb_graph b) - 1]))))) = set (filter P [0 .. vertex_count (gb_graph b) - 1])" for P
  proof -
    let ?xs = "map (\<lambda>v. (distance_to ?apt (coord_of (gb_graph b) v), v)) (filter P [0 .. vertex_count (gb_graph b) - 1])"
    have "length (filter P [0 .. vertex_count (gb_graph b) - 1]) \<le> 3"
      by (rule order_trans [OF length_filter_le]) (simp add: sample_network(2) [OF b])
    then have "take (nat 5) (map snd (sort ?xs)) = map snd (sort ?xs)" by simp
    then show ?thesis by (simp add: image_image)
  qed
  show "0 \<in> set (nearest_on_network b ?apt 5 False)" "1 \<in> set (nearest_on_network b ?apt 5 True)"
    unfolding scan [OF globe(1) zero_less_numeral] all using e globe(2) by (simp_all add: sample_network(2) [OF b])
qed

lemma sample_side:
  assumes b: "build sample_data = Inr b" and db: "db_builder db = Some b" "cache_holds db"
    "fetch_procedures db ''EDDF'' = Inr None"
  obtains db' where "plan_side db b sample_request departure [] = (Inr (endpoint_plan_empty
      \<lparr>ep_airport_icao := ''EDDF'', ep_connections := build_dct_fallback \<lparr>latitude = 50, longitude = 8.5\<rparr> b 5 (\<not> departure)\<rparr>), db')"
    "cache_holds db'" "db_builder db' = Some b" "fetch_procedures db' ''EDDF'' = Inr None"
proof -
  let ?conns = "build_dct_fallback \<lparr>latitude = 50, longitude = 8.5\<rparr> b 5 (\<not> departure)"
  let ?p = "endpoint_plan_empty\<lparr>ep_airport_icao := ''EDDF'', ep_connections := ?conns\<rparr>"
  have up: "to_upper ''eddf'' = ''EDDF''" by code_simp
  have apt: "vertex_by_airport b ''EDDF'' = 2" by (rule sample_network(5) [OF b])
  have procs: "procedures_of db ''EDDF'' = Inr None" using db apt by (simp add: procedures_of_def known_airport_def)
  have "coord_of (gb_graph b) 2 = \<lparr>latitude = 50, longitude = 8.5\<rparr>" by (simp add: coord_of_def sample_coords [OF b])
  then have plan: "plan_endpoint b sample_request ''eddf'' departure (procedures_of db) [] = Inr ?p"
    using apt procs by (simp add: plan_endpoint_def Let_def up sample_request_def route_request_default_def
        with_dct_fallback_def endpoint_plan_empty_def)
  have "?conns \<noteq> []" using sample_nearest [OF b] by (cases departure) (auto simp: build_dct_fallback_def)
  then have ok: "endpoint_failure sample_request departure ?p = None"
    by (simp add: endpoint_failure_None endpoint_plan_empty_def)
  obtain r db' where s: "plan_side db b sample_request departure [] = (r, db')" by fastforce
  note h = plan_side_holds [OF db(2), of b sample_request departure "[]", unfolded s fst_conv snd_conv]
  have "r = Inr ?p"
    using h(1) plan ok by (simp add: sample_request_def route_request_default_def split: if_splits)
  then show ?thesis
    using that s h(2,3) same_database_sel(1,4) [OF h(2)] db by simp
qed

lemma sample_walk:
  assumes b: "build sample_data = Inr b"
  obtains c dep db1 arr db2 env v cost where
    "constraint_assembly_build sample_request b (db_mora (sample_database b)) = Inr c"
    "plan_side (sample_database b) b sample_request True (cb_avoid_vertices c) = (Inr dep, db1)"
    "plan_side db1 b sample_request False (cb_avoid_vertices c) = (Inr arr, db2)"
    "env = search_env_of (gb_graph b) (query_endpoints (cb_avoid_vertices c) dep False)
      (query_endpoints (cb_avoid_vertices c) arr (soft_prefer_star_active arr)) (cb_options c)"
    "reach env (query_endpoints (cb_avoid_vertices c) dep False) v cost" "is_goal env v"
proof -
  let ?apt = "\<lparr>latitude = 50, longitude = 8.5\<rparr>"
  have db: "db_builder (sample_database b) = Some b" "cache_holds (sample_database b)"
    "fetch_procedures (sample_database b) ''EDDF'' = Inr None"
    by (simp_all add: sample_database_def cache_holds_def fetch_procedures_def)
  obtain c where c: "constraint_assembly_build sample_request b (db_mora (sample_database b)) = Inr c"
    "cb_avoid_vertices c = []" "so_constraints (cb_options c) = []" "so_edge_filter (cb_options c) = None"
    by (simp add: constraint_assembly_build_def sample_request_def route_request_default_def resolve_avoid_vertices_def
        assembled_constraints_def search_options_default_def)
  let ?dep = "endpoint_plan_empty\<lparr>ep_airport_icao := ''EDDF'', ep_connections := build_dct_fallback ?apt b 5 False\<rparr>"
  let ?arr = "endpoint_plan_empty\<lparr>ep_airport_icao := ''EDDF'', ep_connections := build_dct_fallback ?apt b 5 True\<rparr>"
  obtain db1 where dep: "plan_side (sample_database b) b sample_request True (cb_avoid_vertices c) = (Inr ?dep, db1)"
    and db1: "cache_holds db1" "db_builder db1 = Some b" "fetch_procedures db1 ''EDDF'' = Inr None"
    using sample_side [OF b db, where departure = True] c(2) by (metis not_True_eq_False)
  obtain db2 where arr: "plan_side db1 b sample_request False (cb_avoid_vertices c) = (Inr ?arr, db2)"
    using sample_side [OF b db1(2,1,3), where departure = False] c(2) by (metis not_False_eq_True)
  define S where S: "S = query_endpoints [] ?dep False"
  define G where G: "G = query_endpoints [] ?arr (soft_prefer_star_active ?arr)"
  define env where "env = search_env_of (gb_graph b) S G (cb_options c)"
  have vs: "is_vertex (gb_graph b) v" "\<not> is_airport b v" if "v = 0 \<or> v = 1" for v
    using that sample_network(1,2) [OF b] by (auto simp: is_vertex_def is_airport_def)
  have open_v: "\<not> node_blocks (so_node_filter (cb_options c)) v" if "v = 0 \<or> v = 1" for v
    using constraint_bundle_facts(2) [OF b sample_data_ok(2) c(1)] vs(2) [OF that] by simp
  have env: "en_graph env = gb_graph b" "en_options env = cb_options c" by (simp_all add: env_def search_env_of_def Let_def)
  have seeded: "\<exists>s \<in> set (query_endpoints [] plan soft). se_vertex s = v"
    if "v \<in> set (nearest_on_network b a 5 arrival)" "ep_connections plan = build_dct_fallback a b 5 arrival" for v a arrival plan soft
  proof -
    have "v \<in> cn_fix_vertex ` set (ep_connections plan)"
      using that(1) unfolding that(2) by (simp add: build_dct_fallback_def Let_def image_image)
    then show ?thesis by (auto simp: query_endpoints_def to_search_endpoints_def binary_search_iff_mem)
  qed
  obtain s where s: "s \<in> set S" "se_vertex s = 0"
    using seeded [OF sample_nearest(1) [OF b], of ?dep False] unfolding S by auto
  obtain t where t: "t \<in> set G" "se_vertex t = 1"
    using seeded [OF sample_nearest(2) [OF b], of ?arr] unfolding G by auto
  obtain e where e: "e \<in> set (out_edges (gb_graph b) 0)" "edge_to e = 1" by (rule sample_edge_found [OF b])
  have "reach env S 0 (se_cost s)"
    using reach.source [of s S env] s vs(1) [of 0] open_v [of 0] by (simp add: env)
  from reach.edge [OF this, of e] e have walk: "reach env S 1 (se_cost s + ge_distance_nm e)"
    using open_v [of 1] by (simp add: env edge_blocks_def edge_cost_def edge_allowed_def c(3,4))
  have net: "network_ok b" by (rule built_network_ok [OF b sample_data_ok(2)])
  have goals: "seeds_ok G"
    using planned_seeds [OF net plan_side_planned [OF net arr], where soft = "soft_prefer_star_active ?arr"]
    by (simp add: G query_endpoints_def)
  have goal: "is_goal env 1"
  proof -
    from cheapest_seed_spec [of G 1] t obtain m where m: "cheapest_seed G 1 = Some m" "m \<in> set G"
      by (cases "cheapest_seed G 1") auto
    then have "0 \<le> se_cost m" using goals by (simp add: seeds_ok_def)
    then show ?thesis
      using m(1) build_seed_table_cheapest [OF goals, of 1 3] vs(1) [of 1]
      by (simp add: is_goal_def env_def search_env_of_def Let_def sample_network(2) [OF b])
  qed
  show ?thesis by (rule that [OF c(1) dep arr, unfolded c(2), OF env_def [unfolded S G] _ goal]) (use walk in \<open>simp only: S\<close>)
qed

lemma sample_query:
  assumes b: "build sample_data = Inr b"
  obtains routes db' where "find_routes (sample_database b) sample_request = (Some (Inr routes), db')" "routes \<noteq> []"
proof (rule sample_walk [OF b])
  fix c dep db1 arr db2 env v cost
  assume w: "constraint_assembly_build sample_request b (db_mora (sample_database b)) = Inr c"
    "plan_side (sample_database b) b sample_request True (cb_avoid_vertices c) = (Inr dep, db1)"
    "plan_side db1 b sample_request False (cb_avoid_vertices c) = (Inr arr, db2)"
    "env = search_env_of (gb_graph b) (query_endpoints (cb_avoid_vertices c) dep False)
      (query_endpoints (cb_avoid_vertices c) arr (soft_prefer_star_active arr)) (cb_options c)"
    "reach env (query_endpoints (cb_avoid_vertices c) dep False) v cost" "is_goal env v"
  have "db_builder (sample_database b) = Some b" by (simp add: sample_database_def)
  from find_routes_found [OF b sample_data_ok(2) this sample_request_fits(1) w(1-3) sample_request_fits(2) w(4-6)]
  show ?thesis using that by blast
qed

section \<open>Properties\<close>

text \<open>
  C1: A route query over a built database always returns: an error, or at least one and at most \<open>max(1, k)\<close>
  routes. Each returned route runs from the departure to the arrival airport in legs that follow its points, its
  total is the sum of its legs and of its three parts, no part is negative, and it has either STAR or approach
  data, never both.
\<close>

theorem find_routes_sound:
  assumes "build data = Inr b" and "small_data data" and "db_builder db = Some b"
    and "rr_departure request \<noteq> []" and "rr_arrival request \<noteq> []"
    and "search_count_fits (gb_graph b) (max 1 (rr_k request))"
  shows "case fst (find_routes db request) of
      None \<Rightarrow> False
    | Some (Inl e) \<Rightarrow> True
    | Some (Inr routes) \<Rightarrow> routes \<noteq> [] \<and> int (length routes) \<le> max 1 (rr_k request) \<and>
        (\<forall>r \<in> set routes. route_ok (to_upper (rr_departure request)) (to_upper (rr_arrival request)) r)"
proof -
  from find_routes_routes [OF assms(1-3,6)] obtain out where o: "fst (find_routes db request) = Some out"
    "case out of Inl e \<Rightarrow> True
     | Inr routes \<Rightarrow> routes \<noteq> [] \<and> int (length routes) \<le> max 1 (rr_k request) \<and>
         (\<exists>c dep arr forced. constraint_assembly_build request b (db_mora db) = Inr c \<and>
            planned b request True (cb_avoid_vertices c) dep \<and> planned b request False (cb_avoid_vertices c) arr \<and>
            list_all2 (point_accepted b (cb_avoid_vertices c)) (rr_forced_points request) forced \<and>
            (\<forall>r \<in> set routes. \<exists>p. query_route b c dep arr forced p r))" by blast
  show ?thesis
  proof (cases out)
    case (Inr routes)
    with o query_route_ok [OF assms(1,2) _ _ assms(4,5)] show ?thesis by (simp, blast)
  qed (use o in simp)
qed

lemma find_routes_sound_witness:
  "\<exists>b routes. build sample_data = Inr b \<and> fst (find_routes (sample_database b) sample_request) = Some (Inr routes) \<and>
     length routes = 1 \<and> (\<forall>r \<in> set routes. route_ok ''EDDF'' ''EDDF'' r)"
proof (rule sample_built)
  fix b assume b: "build sample_data = Inr b"
  have up: "to_upper ''eddf'' = ''EDDF''" by code_simp
  obtain routes db' where q: "find_routes (sample_database b) sample_request = (Some (Inr routes), db')" "routes \<noteq> []"
    by (rule sample_query [OF b])
  have r: "rr_departure sample_request = ''eddf''" "rr_arrival sample_request = ''eddf''" "rr_k sample_request = 1"
    by (simp_all add: sample_request_def route_request_default_def)
  from find_routes_sound [OF b sample_data_ok(2) _ _ _ sample_request_fits(1), of "sample_database b"] q
  have "int (length routes) \<le> 1" "\<forall>r \<in> set routes. route_ok ''EDDF'' ''EDDF'' r" by (auto simp: r up sample_database_def)
  moreover from this(1) q(2) have "length routes = 1" by (cases routes) auto
  ultimately show ?thesis using b q(1) by auto
qed







text \<open>
  C2: A route that exists is found: when both endpoints can be planned, no point is forced and the network has a
  walk the constraints allow from a departure fix to an arrival fix, the query returns routes.
\<close>

theorem find_routes_complete:
  assumes "build data = Inr b" and "small_data data" and "db_builder db = Some b"
    and "search_count_fits (gb_graph b) (max 1 (rr_k request))"
    and "constraint_assembly_build request b (db_mora db) = Inr c"
    and "plan_side db b request True (cb_avoid_vertices c) = (Inr dep, db1)"
    and "plan_side db1 b request False (cb_avoid_vertices c) = (Inr arr, db2)"
    and "rr_forced_points request = []"
    and "env = search_env_of (gb_graph b) (query_endpoints (cb_avoid_vertices c) dep False)
      (query_endpoints (cb_avoid_vertices c) arr (soft_prefer_star_active arr)) (cb_options c)"
    and "reach env (query_endpoints (cb_avoid_vertices c) dep False) v cost" and "is_goal env v"
  shows "\<exists>routes. find_routes db request = (Some (Inr routes), db2) \<and> routes \<noteq> []"
  by (rule find_routes_found [OF assms])

lemma find_routes_complete_witness:
  "\<exists>b routes db'. build sample_data = Inr b \<and>
     find_routes (sample_database b) sample_request = (Some (Inr routes), db') \<and> routes \<noteq> []"
proof (rule sample_built)
  fix b assume b: "build sample_data = Inr b"
  obtain c dep db1 arr db2 env v cost where w:
    "constraint_assembly_build sample_request b (db_mora (sample_database b)) = Inr c"
    "plan_side (sample_database b) b sample_request True (cb_avoid_vertices c) = (Inr dep, db1)"
    "plan_side db1 b sample_request False (cb_avoid_vertices c) = (Inr arr, db2)"
    "env = search_env_of (gb_graph b) (query_endpoints (cb_avoid_vertices c) dep False)
      (query_endpoints (cb_avoid_vertices c) arr (soft_prefer_star_active arr)) (cb_options c)"
    "reach env (query_endpoints (cb_avoid_vertices c) dep False) v cost" "is_goal env v"
    by (rule sample_walk [OF b])
  have "db_builder (sample_database b) = Some b" by (simp add: sample_database_def)
  from find_routes_complete [OF b sample_data_ok(2) this sample_request_fits(1) w(1-3) sample_request_fits(2) w(4-6)]
  show ?thesis using b by auto
qed

end
