(* ===== verification/AirwayIndex.thy ===== *)
theory AirwayIndex
  imports GraphBuilder "HOL-Library.Sublist"
begin

text \<open>
  \<^verbatim>\<open>io/navdb/nav_database.cc\<close>, \<open>BuildAirwayIndex\<close> and \<open>FindAirway\<close>: the airways of a database by
  designator, as the query and the route parser look them up. The types are those of
  \<^verbatim>\<open>core/query/query_types.h\<close>.
\<close>

section \<open>Legs and airways\<close>

record airway_leg =
  al_from :: fixed_name
  al_to :: fixed_name
  al_distance_nm :: real
  al_level :: airway_level
  al_base_fl :: int
  al_top_fl :: int

record airway_info =
  ai_name :: string
  ai_segments :: "airway_leg list"

text \<open>\<open>std::to_string\<close> of an \<open>int\<close>.\<close>

definition dec_of_int :: "int \<Rightarrow> string" where
  "dec_of_int i = (if i < 0 then CHR ''-'' # dec_of_nat (nat (- i)) else dec_of_nat (nat i))"

text \<open>The level goes into the key as its raw byte.\<close>

definition leg_key :: "airway_leg \<Rightarrow> string" where
  "leg_key l =
     name_view (al_from l) @ [CHR 0x00] @ name_view (al_to l) @ [char_of (unat (airway_level_byte (al_level l)))] @
     dec_of_int (al_base_fl l) @ [CHR 0x00] @ dec_of_int (al_top_fl l)"

section \<open>BuildAirwayIndex\<close>

text \<open>The map being accumulated, as an association list, and the keys already registered per designator.\<close>

record airway_scan =
  as_built :: "(string \<times> airway_info) list"
  as_seen :: "string \<Rightarrow> string set"

text \<open>\<open>info.segments.push_back(leg)\<close> on the entry \<open>built[designator]\<close>, which the access creates.\<close>

fun append_leg :: "string \<Rightarrow> airway_leg \<Rightarrow> (string \<times> airway_info) list \<Rightarrow> (string \<times> airway_info) list" where
  "append_leg d leg [] = [(d, \<lparr>ai_name = d, ai_segments = [leg]\<rparr>)]"
| "append_leg d leg ((e, info) # rest) =
     (if e = d then
        (e, info\<lparr>ai_name := (if ai_name info = [] then d else ai_name info),
                 ai_segments := ai_segments info @ [leg]\<rparr>) # rest
      else (e, info) # append_leg d leg rest)"

definition register_leg :: "airway_leg \<Rightarrow> airway_scan \<Rightarrow> string \<Rightarrow> airway_scan" where
  "register_leg leg scan d =
     (if leg_key leg \<in> as_seen scan d then scan
      else scan\<lparr>as_seen := (as_seen scan)(d := insert (leg_key leg) (as_seen scan d)),
                as_built := append_leg d leg (as_built scan)\<rparr>)"

text \<open>The leg of an edge out of \<open>u\<close>; an edge whose endpoint name does not fit is skipped.\<close>

definition edge_leg :: "graph_builder \<Rightarrow> int \<Rightarrow> real graph_edge \<Rightarrow> airway_leg option" where
  "edge_leg b u e =
     (case (fixed_name_from fixed_name8_cap (id_ident (ident_of b u)),
            fixed_name_from fixed_name8_cap (id_ident (ident_of b (edge_to e)))) of
        (Inr from, Inr to) \<Rightarrow>
          Some \<lparr>al_from = from, al_to = to, al_distance_nm = ge_distance_nm e, al_level = ge_level e,
                al_base_fl = sint (ge_base_fl e), al_top_fl = sint (ge_top_fl e)\<rparr>
      | _ \<Rightarrow> None)"

definition index_edge :: "graph_builder \<Rightarrow> int \<Rightarrow> airway_scan \<Rightarrow> real graph_edge \<Rightarrow> airway_scan" where
  "index_edge b u scan e =
     (if ge_airway_id e = 0 then scan
      else case edge_leg b u e of
          None \<Rightarrow> scan
        | Some leg \<Rightarrow> foldl (register_leg leg) scan (split_designators (airway_name b (uint (ge_airway_id e)))))"

definition scan_airways :: "graph_builder \<Rightarrow> airway_scan" where
  "scan_airways b =
     foldl (\<lambda>scan u. foldl (index_edge b u) scan (out_edges (gb_graph b) u))
       \<lparr>as_built = [], as_seen = \<lambda>_. {}\<rparr> [0 .. vertex_count (gb_graph b) - 1]"

type_synonym airway_index = "(fixed_name \<times> airway_info) list"

text \<open>A designator too long for the key is left out.\<close>

definition index_entry :: "string \<times> airway_info \<Rightarrow> airway_index" where
  "index_entry entry =
     (case fixed_name_from fixed_name8_cap (fst entry) of Inl _ \<Rightarrow> [] | Inr key \<Rightarrow> [(key, snd entry)])"

definition build_airway_index :: "graph_builder \<Rightarrow> airway_index" where
  "build_airway_index b =
     sort_by (\<lambda>a c. fixed_name_less (fst a) (fst c)) (concat (map index_entry (as_built (scan_airways b))))"

section \<open>FindAirway\<close>

definition find_airway :: "airway_index \<Rightarrow> string \<Rightarrow> airway_info option" where
  "find_airway index name =
     (case fixed_name_from fixed_name8_cap name of
        Inl _ \<Rightarrow> None
      | Inr key \<Rightarrow>
          let i = lower_bound (\<lambda>e. fixed_name_less (fst e) key) index in
          if i < length index \<and> fixed_name_eq (fst (index ! i)) key then Some (snd (index ! i)) else None)"

section \<open>What the index holds\<close>

text \<open>
  The registrations in the order the scan makes them: every named edge in the order of the graph, under each
  designator of its airway's name.
\<close>

definition edge_registrations :: "graph_builder \<Rightarrow> int \<Rightarrow> real graph_edge \<Rightarrow> (string \<times> airway_leg) list" where
  "edge_registrations b u e =
     (if ge_airway_id e = 0 then []
      else case edge_leg b u e of
          None \<Rightarrow> []
        | Some leg \<Rightarrow> map (\<lambda>d. (d, leg)) (split_designators (airway_name b (uint (ge_airway_id e)))))"

definition registrations :: "graph_builder \<Rightarrow> (string \<times> airway_leg) list" where
  "registrations b =
     concat (map (\<lambda>u. concat (map (edge_registrations b u) (out_edges (gb_graph b) u)))
       [0 .. vertex_count (gb_graph b) - 1])"

definition legs_under :: "string \<Rightarrow> (string \<times> airway_leg) list \<Rightarrow> airway_leg list" where
  "legs_under d rs = map snd (filter (\<lambda>r. fst r = d) rs)"

text \<open>The first of each class of equal keys, in order.\<close>

definition first_by :: "('a \<Rightarrow> 'k) \<Rightarrow> 'a list \<Rightarrow> 'a list" where
  "first_by f xs = foldl (\<lambda>acc x. if f x \<in> f ` set acc then acc else acc @ [x]) [] xs"

lemma first_by_snoc:
  "first_by f (xs @ [x]) = (if f x \<in> f ` set (first_by f xs) then first_by f xs else first_by f xs @ [x])"
  by (simp add: first_by_def)

lemma first_by_Nil [simp]: "first_by f [] = []"
  by (simp add: first_by_def)

lemma first_by_spec:
  "distinct (map f (first_by f xs)) \<and> f ` set (first_by f xs) = f ` set xs \<and> subseq (first_by f xs) xs"
proof (induction xs rule: rev_induct)
  case (snoc x xs)
  then have "subseq (first_by f xs) (xs @ [x])" "subseq (first_by f xs @ [x]) (xs @ [x])"
    using snoc list_emb_append_mono [of "(=)" _ xs "[x]" "[x]"] by (auto intro: subseq_order.trans)
  with snoc show ?case by (auto simp: first_by_snoc)
qed simp

lemma first_by_key: "(f x \<in> f ` set (first_by f xs)) = (f x \<in> f ` set xs)"
  using first_by_spec [of f xs] by blast

lemma first_by_Nil_iff [simp]: "first_by f xs = [] \<longleftrightarrow> xs = []"
  using first_by_spec [of f xs] by (metis first_by_Nil image_is_empty set_empty)

lemma append_leg_keys: "set (map fst (append_leg d leg al)) = insert d (set (map fst al))"
  by (induction d leg al rule: append_leg.induct) auto

lemma append_leg_distinct: "distinct (map fst al) \<Longrightarrow> distinct (map fst (append_leg d leg al))"
proof (induction d leg al rule: append_leg.induct)
  case (2 d leg e info rest)
  have "e \<notin> set (map fst (append_leg d leg rest))" if "e \<noteq> d" unfolding append_leg_keys using 2 that by simp
  with 2 show ?case by (cases "e = d") simp_all
qed simp

lemma append_leg_map:
  "map_of (append_leg d leg al) d =
     Some (case map_of al d of
         None \<Rightarrow> \<lparr>ai_name = d, ai_segments = [leg]\<rparr>
       | Some i \<Rightarrow> i\<lparr>ai_name := (if ai_name i = [] then d else ai_name i), ai_segments := ai_segments i @ [leg]\<rparr>)"
  "c \<noteq> d \<Longrightarrow> map_of (append_leg d leg al) c = map_of al c"
  by (induction d leg al rule: append_leg.induct) auto

text \<open>The scan state after the registrations \<open>rs\<close>.\<close>

definition scanned :: "(string \<times> airway_leg) list \<Rightarrow> airway_scan \<Rightarrow> bool" where
  "scanned rs scan \<longleftrightarrow>
     distinct (map fst (as_built scan)) \<and>
     (\<forall>d. as_seen scan d = leg_key ` set (legs_under d rs) \<and>
        map_of (as_built scan) d =
          (if legs_under d rs = [] then None
           else Some \<lparr>ai_name = d, ai_segments = first_by leg_key (legs_under d rs)\<rparr>))"

lemma legs_under_snoc:
  "legs_under c (rs @ [(d, leg)]) = legs_under c rs @ (if c = d then [leg] else [])"
  by (auto simp: legs_under_def)

lemma scanned_register:
  assumes s: "scanned rs scan"
  shows "scanned (rs @ [(d, leg)]) (register_leg leg scan d)"
proof -
  have seen: "as_seen scan c = leg_key ` set (legs_under c rs)"
    and built: "map_of (as_built scan) c =
        (if legs_under c rs = [] then None
         else Some \<lparr>ai_name = c, ai_segments = first_by leg_key (legs_under c rs)\<rparr>)" for c
    using s by (simp_all add: scanned_def)
  have dist: "distinct (map fst (as_built scan))" using s by (simp add: scanned_def)
  have key: "leg_key leg \<in> leg_key ` set (first_by leg_key (legs_under d rs)) \<longleftrightarrow> leg_key leg \<in> as_seen scan d"
    by (simp add: first_by_key seen)
  show ?thesis
  proof (cases "leg_key leg \<in> as_seen scan d")
    case True
    then have "legs_under d rs \<noteq> []" using seen [of d] by auto
    with True key show ?thesis
      using dist by (auto simp: scanned_def register_leg_def legs_under_snoc seen built first_by_snoc)
  next
    case False
    have first: "first_by leg_key (legs_under d rs @ [leg]) = first_by leg_key (legs_under d rs) @ [leg]"
      using False key by (simp add: first_by_snoc)
    have m: "map_of (append_leg d leg (as_built scan)) d =
        Some \<lparr>ai_name = d, ai_segments = first_by leg_key (legs_under d rs) @ [leg]\<rparr>"
      unfolding append_leg_map(1) built by simp
    show ?thesis
      unfolding scanned_def
    proof (intro conjI allI)
      show "distinct (map fst (as_built (register_leg leg scan d)))"
        using False append_leg_distinct [OF dist] by (simp add: register_leg_def)
      fix c
      show "as_seen (register_leg leg scan d) c = leg_key ` set (legs_under c (rs @ [(d, leg)]))"
        using False seen [of c] by (auto simp: register_leg_def legs_under_snoc)
      show "map_of (as_built (register_leg leg scan d)) c =
          (if legs_under c (rs @ [(d, leg)]) = [] then None
           else Some \<lparr>ai_name = c, ai_segments = first_by leg_key (legs_under c (rs @ [(d, leg)]))\<rparr>)"
        using False m first built [of c] append_leg_map(2) [of c d leg "as_built scan"]
        by (cases "c = d") (simp_all add: register_leg_def legs_under_snoc)
    qed
  qed
qed

lemma scanned_fold:
  "scanned rs scan \<Longrightarrow>
   (\<And>rs scan x. scanned rs scan \<Longrightarrow> x \<in> set xs \<Longrightarrow> scanned (rs @ g x) (f scan x)) \<Longrightarrow>
   scanned (rs @ concat (map g xs)) (foldl f scan xs)"
proof (induction xs arbitrary: rs scan)
  case (Cons x xs)
  have "scanned (rs @ g x) (f scan x)" by (rule Cons.prems(2) [OF Cons.prems(1)]) simp
  from Cons.IH [OF this] Cons.prems(2) show ?case by simp
qed simp

lemma scan_airways_scanned: "scanned (registrations b) (scan_airways b)"
proof -
  have edge: "scanned (rs @ edge_registrations b u e) (index_edge b u scan e)"
    if s: "scanned rs scan" for rs scan u e
  proof (cases "ge_airway_id e = 0 \<or> edge_leg b u e = None")
    case False
    then obtain leg where leg: "edge_leg b u e = Some leg" and id: "ge_airway_id e \<noteq> 0" by auto
    have "scanned (rs @ concat (map (\<lambda>d. [(d, leg)]) ds)) (foldl (register_leg leg) scan ds)" for ds
      by (rule scanned_fold [OF s]) (rule scanned_register)
    moreover have "concat (map (\<lambda>d. [(d, leg)]) ds) = map (\<lambda>d. (d, leg)) ds" for ds by (induction ds) simp_all
    ultimately show ?thesis using leg id by (simp add: edge_registrations_def index_edge_def)
  qed (use s in \<open>auto simp: edge_registrations_def index_edge_def\<close>)
  have vertex: "scanned (rs @ concat (map (edge_registrations b u) es)) (foldl (index_edge b u) scan es)"
    if "scanned rs scan" for rs scan u es
    by (rule scanned_fold [OF that]) (rule edge)
  have start: "scanned [] \<lparr>as_built = [], as_seen = \<lambda>_. {}\<rparr>" by (simp add: scanned_def legs_under_def)
  have "scanned ([] @ registrations b) (scan_airways b)"
    unfolding registrations_def scan_airways_def
    by (rule scanned_fold [OF start]) (rule vertex)
  then show ?thesis by simp
qed

section \<open>Looking up by the sorted keys\<close>

lemma lookup_sorted:
  assumes "sorted (map (\<lambda>e. name_view (fst e)) index)" and "\<forall>e \<in> set index. fixed_name_wf fixed_name8_cap (fst e)"
  shows "find_airway index name =
    (if length name \<le> fixed_name8_cap then map_of (map (\<lambda>e. (name_view (fst e), snd e)) index) name else None)"
  unfolding find_airway_def by (rule sorted_name_lookup [OF assms])

lemma map_of_view_entries:
  "(\<forall>e \<in> set al. length (fst e) \<le> fixed_name8_cap) \<Longrightarrow>
   map (\<lambda>e. (name_view (fst e), snd e)) (concat (map index_entry al)) = al"
proof (induction al)
  case (Cons e al)
  obtain key where "fixed_name_from fixed_name8_cap (fst e) = Inr key" "name_view key = fst e"
    using fixed_name_from_Ok [of fixed_name8_cap "fst e"] Cons.prems by (auto simp: fixed_name8_cap_def)
  with Cons show ?case by (simp add: index_entry_def)
qed simp

lemma index_entries_filter:
  "concat (map index_entry al) = concat (map index_entry (filter (\<lambda>e. length (fst e) \<le> fixed_name8_cap) al))"
  by (induction al) (auto simp: index_entry_def fixed_name_from_def)

lemma map_of_filter_key:
  "map_of (filter (\<lambda>e. P (fst e)) al) k = (if P k then map_of al k else None)"
  by (induction al) auto

lemma map_of_mset:
  assumes "mset xs = mset ys" "distinct (map fst ys)"
  shows "map_of xs = map_of ys"
proof
  fix k
  have "distinct (map fst xs)"
    using assms(2) mset_eq_imp_distinct_iff [of "map fst xs" "map fst ys"] assms(1) by simp
  then have iff: "map_of xs k = Some v \<longleftrightarrow> map_of ys k = Some v" for v
    using assms(2) mset_eq_setD [OF assms(1)] by (simp only: map_of_eq_Some_iff)
  show "map_of xs k = map_of ys k"
  proof (cases "map_of xs k")
    case None
    then show ?thesis using iff by (cases "map_of ys k") auto
  next
    case (Some v)
    then show ?thesis using iff by metis
  qed
qed

lemma build_airway_index_lookup:
  "find_airway (build_airway_index b) name =
     (if length name \<le> fixed_name8_cap then map_of (as_built (scan_airways b)) name else None)"
proof -
  define al where "al = filter (\<lambda>e. length (fst e) \<le> fixed_name8_cap) (as_built (scan_airways b))"
  let ?view = "\<lambda>e :: fixed_name \<times> airway_info. (name_view (fst e), snd e)"
  let ?es = "concat (map index_entry al)" and ?lt = "\<lambda>a c. fixed_name_less (fst a) (fst c)"
  have ix: "build_airway_index b = sort_by ?lt ?es"
    unfolding build_airway_index_def al_def by (subst index_entries_filter) simp
  have view: "map ?view ?es = al" by (rule map_of_view_entries) (simp add: al_def)
  have w: "\<forall>e \<in> set ?es. fixed_name_wf fixed_name8_cap (fst e)"
    using fixed_name_from_OkD(1) [of fixed_name8_cap]
    by (auto simp: index_entry_def fixed_name8_cap_def split: sum.splits)
  have dal: "distinct (map fst al)"
    using scan_airways_scanned [of b] by (simp add: scanned_def al_def distinct_map_filter)
  have m: "mset (sort_by ?lt ?es) = mset ?es" by simp
  have s: "sorted (map (\<lambda>e. name_view (fst e)) (sort_by ?lt ?es))"
    by (rule sorted_sort_by) (use w fixed_name_less_lex in blast)
  have "find_airway (sort_by ?lt ?es) name =
      (if length name \<le> fixed_name8_cap then map_of (map ?view (sort_by ?lt ?es)) name else None)"
  proof (rule lookup_sorted [OF s])
    show "\<forall>e \<in> set (sort_by ?lt ?es). fixed_name_wf fixed_name8_cap (fst e)"
      using w mset_eq_setD [OF m] by simp
  qed
  moreover have "map_of (map ?view (sort_by ?lt ?es)) = map_of al"
  proof -
    have "mset (map ?view (sort_by ?lt ?es)) = mset (map ?view ?es)" using m by (simp only: mset_map)
    then have "mset (map ?view (sort_by ?lt ?es)) = mset al" unfolding view .
    then show ?thesis using dal by (rule map_of_mset)
  qed
  moreover have "map_of al name =
      (if length name \<le> fixed_name8_cap then map_of (as_built (scan_airways b)) name else None)"
    unfolding al_def by (rule map_of_filter_key)
  ultimately show ?thesis unfolding ix by (simp only: split: if_split) blast
qed

section \<open>The key of a leg\<close>

lemma of_char_digit: "n < 10 \<Longrightarrow> (of_char (digit_char n) :: nat) = 48 + n"
  by (simp add: digit_char_def)

lemma digit_char_inj: "m < 10 \<Longrightarrow> n < 10 \<Longrightarrow> digit_char m = digit_char n \<Longrightarrow> m = n"
  using of_char_digit by (metis add_left_cancel)

lemma dec_of_nat_small: "n < 10 \<Longrightarrow> dec_of_nat n = [digit_char n]"
  by (simp add: dec_of_nat.simps)

lemma dec_of_nat_big: "\<not> n < 10 \<Longrightarrow> dec_of_nat n = dec_of_nat (n div 10) @ [digit_char (n mod 10)]"
  by (subst dec_of_nat.simps) simp

lemma dec_of_nat_ne [simp]: "dec_of_nat n \<noteq> []" "[] \<noteq> dec_of_nat n"
proof -
  show "dec_of_nat n \<noteq> []" by (cases "n < 10") (simp_all add: dec_of_nat_small dec_of_nat_big)
  then show "[] \<noteq> dec_of_nat n" by simp
qed

lemma dec_of_nat_inj: "dec_of_nat m = dec_of_nat n \<Longrightarrow> m = n"
proof (induction m arbitrary: n rule: less_induct)
  case (less m)
  show ?case
  proof (cases "m < 10")
    case True
    with less.prems show ?thesis
      by (cases "n < 10") (auto simp: dec_of_nat_small dec_of_nat_big dest: digit_char_inj)
  next
    case False
    then have n: "\<not> n < 10" using less.prems by (auto simp: dec_of_nat_small dec_of_nat_big)
    from less.prems have "dec_of_nat (m div 10) = dec_of_nat (n div 10)" "digit_char (m mod 10) = digit_char (n mod 10)"
      unfolding dec_of_nat_big [OF False] dec_of_nat_big [OF n] by simp_all
    moreover have "m div 10 < m" using False by simp
    ultimately have "m div 10 = n div 10" "m mod 10 = n mod 10"
      using less.IH digit_char_inj [of "m mod 10" "n mod 10"] by simp_all
    then show ?thesis by (metis div_mult_mod_eq)
  qed
qed

text \<open>Only digits and a sign are printed.\<close>

lemma digit_char_range: "n < 10 \<Longrightarrow> CHR ''0'' \<le> digit_char n \<and> digit_char n \<le> CHR ''9''"
  by (simp add: less_eq_char_def of_char_digit)

lemma dec_of_nat_digits: "c \<in> set (dec_of_nat n) \<Longrightarrow> CHR ''0'' \<le> c \<and> c \<le> CHR ''9''"
proof (induction n rule: less_induct)
  case (less n)
  show ?case
  proof (cases "n < 10")
    case True
    with less.prems digit_char_range show ?thesis by (auto simp: dec_of_nat_small)
  next
    case False
    then have "n div 10 < n" "c \<in> set (dec_of_nat (n div 10)) \<or> c = digit_char (n mod 10)"
      using less.prems by (auto simp: dec_of_nat_big)
    then show ?thesis using less.IH [of "n div 10"] digit_char_range [of "n mod 10"] by auto
  qed
qed

definition plain_name :: "string \<Rightarrow> bool" where
  "plain_name s \<longleftrightarrow> (\<forall>c \<in> set s. CHR 0x02 < c)"

lemma dec_of_int_plain: "plain_name (dec_of_int i)"
  using dec_of_nat_digits by (fastforce simp: plain_name_def dec_of_int_def less_eq_char_def less_char_def)

lemma dec_of_int_inj: "dec_of_int i = dec_of_int j \<Longrightarrow> i = j"
proof -
  have minus: "CHR ''-'' \<notin> set (dec_of_nat n)" for n
    using dec_of_nat_digits [of "CHR ''-''" n] by (auto simp: less_eq_char_def)
  assume "dec_of_int i = dec_of_int j"
  then show ?thesis
    using minus [of "nat i"] minus [of "nat j"]
    by (auto simp: dec_of_int_def dest!: dec_of_nat_inj split: if_splits)
      (metis list.set_intros(1))+
qed

text \<open>The first character below the printable ones ends a plain prefix.\<close>

lemma plain_prefix:
  assumes "plain_name s" "plain_name t" "c \<le> CHR 0x02" "d \<le> CHR 0x02" and eq: "s @ c # u = t @ d # v"
  shows "s = t \<and> c = d \<and> u = v"
proof -
  have split: "takeWhile (\<lambda>x. CHR 0x02 < x) (s @ c # u) = s \<and> dropWhile (\<lambda>x. CHR 0x02 < x) (s @ c # u) = c # u"
    if "plain_name s" "c \<le> CHR 0x02" for s c u
    using that by (simp add: plain_name_def takeWhile_append dropWhile_append)
  from split [OF assms(1,3), of u] split [OF assms(2,4), of v] show ?thesis unfolding eq by simp
qed

definition leg_identity :: "airway_leg \<Rightarrow> string \<times> string \<times> airway_level \<times> int \<times> int" where
  "leg_identity l = (name_view (al_from l), name_view (al_to l), al_level l, al_base_fl l, al_top_fl l)"

lemma level_char_inj:
  "(char_of (unat (airway_level_byte l)) :: char) = char_of (unat (airway_level_byte k)) \<longleftrightarrow> l = k"
  "(char_of (unat (airway_level_byte l)) :: char) \<le> CHR 0x02"
  by (cases l; cases k; simp add: airway_level_byte_def less_eq_char_def)+

lemma leg_key_identity:
  assumes "plain_name (name_view (al_from l))" "plain_name (name_view (al_to l))"
    and "plain_name (name_view (al_from k))" "plain_name (name_view (al_to k))"
  shows "leg_key l = leg_key k \<longleftrightarrow> leg_identity l = leg_identity k"
proof
  assume "leg_identity l = leg_identity k"
  then show "leg_key l = leg_key k" by (simp add: leg_identity_def leg_key_def)
next
  let ?c = "\<lambda>l :: airway_leg. char_of (unat (airway_level_byte (al_level l))) :: char"
  assume "leg_key l = leg_key k"
  then have eq: "name_view (al_from l) @ CHR 0x00 # name_view (al_to l) @ ?c l # dec_of_int (al_base_fl l) @ CHR 0x00 # dec_of_int (al_top_fl l) =
      name_view (al_from k) @ CHR 0x00 # name_view (al_to k) @ ?c k # dec_of_int (al_base_fl k) @ CHR 0x00 # dec_of_int (al_top_fl k)"
    by (simp add: leg_key_def)
  have z: "CHR 0x00 \<le> CHR 0x02" by (simp add: less_eq_char_def)
  from plain_prefix [OF assms(1,3) z z eq] have 1: "name_view (al_from l) = name_view (al_from k)"
    and eq1: "name_view (al_to l) @ ?c l # dec_of_int (al_base_fl l) @ CHR 0x00 # dec_of_int (al_top_fl l) =
      name_view (al_to k) @ ?c k # dec_of_int (al_base_fl k) @ CHR 0x00 # dec_of_int (al_top_fl k)" by blast+
  from plain_prefix [OF assms(2,4) level_char_inj(2) level_char_inj(2) eq1]
  have 2: "name_view (al_to l) = name_view (al_to k)" "al_level l = al_level k"
    and eq2: "dec_of_int (al_base_fl l) @ CHR 0x00 # dec_of_int (al_top_fl l) =
      dec_of_int (al_base_fl k) @ CHR 0x00 # dec_of_int (al_top_fl k)"
    unfolding level_char_inj(1) by blast+
  from plain_prefix [OF dec_of_int_plain dec_of_int_plain z z eq2]
  have "al_base_fl l = al_base_fl k" "al_top_fl l = al_top_fl k" using dec_of_int_inj by blast+
  with 1 2 show "leg_identity l = leg_identity k" by (simp add: leg_identity_def)
qed

section \<open>The lookup is exact\<close>

text \<open>The names the scan stores are those of the vertices.\<close>

definition plain_idents :: "graph_builder \<Rightarrow> bool" where
  "plain_idents b \<longleftrightarrow> (\<forall>v. is_vertex (gb_graph b) v \<longrightarrow> plain_name (id_ident (ident_of b v)))"

lemma edge_leg_sel:
  assumes "edge_leg b u e = Some l"
  shows "name_view (al_from l) = id_ident (ident_of b u)" "name_view (al_to l) = id_ident (ident_of b (edge_to e))"
    "al_distance_nm l = ge_distance_nm e" "al_level l = ge_level e"
    "al_base_fl l = sint (ge_base_fl e)" "al_top_fl l = sint (ge_top_fl e)"
  using assms fixed_name_from_OkD(2) [of fixed_name8_cap]
  by (auto simp: edge_leg_def fixed_name8_cap_def split: sum.splits)

lemma registrationsE:
  assumes "(d, l) \<in> set (registrations b)"
  obtains u e where "0 \<le> u" "u < vertex_count (gb_graph b)" "e \<in> set (out_edges (gb_graph b) u)"
    "ge_airway_id e \<noteq> 0" "edge_leg b u e = Some l" "d \<in> set (split_designators (airway_name b (uint (ge_airway_id e))))"
  using assms by (auto simp: registrations_def edge_registrations_def split: if_splits option.splits)

lemma registered_plain:
  assumes "graph_ok (gb_graph b)" "plain_idents b" "l \<in> set (legs_under d (registrations b))"
  shows "plain_name (name_view (al_from l)) \<and> plain_name (name_view (al_to l))"
proof -
  have "(d, l) \<in> set (registrations b)" using assms(3) by (auto simp: legs_under_def)
  then show ?thesis
  proof (rule registrationsE)
    fix u e assume ue: "0 \<le> u" "u < vertex_count (gb_graph b)" "e \<in> set (out_edges (gb_graph b) u)" "edge_leg b u e = Some l"
    then have "is_vertex (gb_graph b) u" "is_vertex (gb_graph b) (edge_to e)"
      using out_edges_vertex [OF assms(1) ue(3)] by (simp_all add: is_vertex_def)
    then show ?thesis using assms(2) edge_leg_sel(1,2) [OF ue(4)] by (simp add: plain_idents_def)
  qed
qed

lemma first_by_cong:
  assumes "\<And>x y. x \<in> set xs \<Longrightarrow> y \<in> set xs \<Longrightarrow> f x = f y \<longleftrightarrow> g x = g y"
  shows "first_by f xs = first_by g xs"
  using assms
proof (induction xs rule: rev_induct)
  case (snoc x xs)
  then have ih: "first_by f xs = first_by g xs" by simp
  have sub: "set (first_by g xs) \<subseteq> set xs" using first_by_spec [of g xs] by (blast elim: list_emb_set)
  have "f x \<in> f ` set (first_by g xs) \<longleftrightarrow> g x \<in> g ` set (first_by g xs)"
  proof -
    have "f x = f y \<longleftrightarrow> g x = g y" if "y \<in> set (first_by g xs)" for y
      by (rule snoc.prems) (use sub that in auto)
    then show ?thesis unfolding image_iff by blast
  qed
  then show ?case by (simp add: first_by_snoc ih)
qed simp

lemma find_airway_built:
  assumes "graph_ok (gb_graph b)" "plain_idents b"
  shows "find_airway (build_airway_index b) name =
    (let legs = legs_under name (registrations b) in
     if legs = [] \<or> fixed_name8_cap < length name then None
     else Some \<lparr>ai_name = name, ai_segments = first_by leg_identity legs\<rparr>)"
proof -
  have "first_by leg_key (legs_under name (registrations b)) = first_by leg_identity (legs_under name (registrations b))"
    by (rule first_by_cong) (use registered_plain [OF assms] leg_key_identity in blast)
  moreover have "map_of (as_built (scan_airways b)) name =
      (if legs_under name (registrations b) = [] then None
       else Some \<lparr>ai_name = name, ai_segments = first_by leg_key (legs_under name (registrations b))\<rparr>)"
    using scan_airways_scanned [of b] by (simp add: scanned_def)
  ultimately show ?thesis unfolding build_airway_index_lookup by (auto simp: Let_def)
qed

end
