(* ===== verification/RouteParser.thy ===== *)
theory RouteParser
  imports NavDatabase AirwayIndex
begin

text \<open>
  \<^verbatim>\<open>io/navdb/parse.cc\<close>: a filed route string parsed back into a route. The parser works on the token list with
  the two positions \<open>i\<close> and \<open>end\<close> of the code; an airway leg is expanded by a search over the airway's own edges.
  That search and the walk back over its labels are \<open>partial_function\<close>s: not returning would be \<open>None\<close>.
\<close>

section \<open>Resolving a waypoint token\<close>

record resolved_fix =
  rf_vertex :: int
  rf_coord :: point

definition no_fix :: resolved_fix where
  "no_fix = \<lparr>rf_vertex = - 1, rf_coord = \<lparr>latitude = 0, longitude = 0\<rparr>\<rparr>"

text \<open>The scan over the vertices of an ident; the first of equally near ones stays.\<close>

definition nearer_step :: "graph_builder \<Rightarrow> point \<Rightarrow> int \<times> real \<Rightarrow> int \<Rightarrow> int \<times> real" where
  "nearer_step b ref = (\<lambda>(best, best_d) v.
     if is_airport b v then (best, best_d)
     else let d = distance_to ref (coord_of (gb_graph b) v) in
       if best < 0 \<or> d < best_d then (v, d) else (best, best_d))"

definition parse_fix :: "graph_builder \<Rightarrow> string \<Rightarrow> point \<Rightarrow> resolved_fix" where
  "parse_fix b token ref =
     (if CHR ''/'' \<in> set token then
        let v = vertex_by_ident b
              \<lparr>id_ident = takeWhile (\<lambda>c. c \<noteq> CHR ''/'') token,
               id_icao_code = tl (dropWhile (\<lambda>c. c \<noteq> CHR ''/'') token)\<rparr> in
        if v < 0 \<or> is_airport b v then no_fix
        else \<lparr>rf_vertex = v, rf_coord = coord_of (gb_graph b) v\<rparr>
      else
        let best = fst (foldl (nearer_step b ref) (- 1, 0) (vertices_by_ident b token)) in
        if best < 0 then no_fix else \<lparr>rf_vertex = best, rf_coord = coord_of (gb_graph b) best\<rparr>)"

section \<open>Expanding an airway\<close>

text \<open>The labels: the distance from the start and the previous vertex.\<close>

type_synonym airway_labels = "int \<rightharpoonup> real \<times> int"

definition dist_of :: "airway_labels \<Rightarrow> int \<Rightarrow> cost" where
  "dist_of labels v = (case labels v of None \<Rightarrow> Infinity | Some l \<Rightarrow> Fin (fst l))"

definition on_airway :: "graph_builder \<Rightarrow> string \<Rightarrow> real graph_edge \<Rightarrow> bool" where
  "on_airway b name e \<longleftrightarrow>
     ge_airway_id e \<noteq> 0 \<and> name \<in> set (split_designators (airway_name b (uint (ge_airway_id e))))"

definition relax_airway ::
  "graph_builder \<Rightarrow> string \<Rightarrow> int \<Rightarrow> real \<Rightarrow> airway_labels \<times> (real \<times> int) list \<Rightarrow> real graph_edge \<Rightarrow>
   airway_labels \<times> (real \<times> int) list" where
  "relax_airway b name u d = (\<lambda>(labels, pq) e.
     if \<not> on_airway b name e then (labels, pq)
     else let nd = d + ge_distance_nm e in
       if Fin nd < dist_of labels (edge_to e)
       then (labels(edge_to e \<mapsto> (nd, u)), heap_push (\<lambda>q. q) pq (nd, edge_to e)) else (labels, pq))"

partial_function (option) airway_loop ::
  "graph_builder \<Rightarrow> string \<Rightarrow> int \<Rightarrow> airway_labels \<Rightarrow> (real \<times> int) list \<Rightarrow> airway_labels option" where
  "airway_loop b name to labels pq =
     (if pq = [] then Some labels
      else case heap_take (\<lambda>q. q) pq of ((d, u), pq') \<Rightarrow>
        if dist_of labels u < Fin d then airway_loop b name to labels pq'
        else if u = to then Some labels
        else case foldl (relax_airway b name u d) (labels, pq') (out_edges (gb_graph b) u) of
            (labels', pq'') \<Rightarrow> airway_loop b name to labels' pq'')"

text \<open>The walk back; \<open>label.at\<close> of a vertex without a label would throw.\<close>

partial_function (option) airway_chain :: "airway_labels \<Rightarrow> int \<Rightarrow> int \<Rightarrow> int list \<Rightarrow> int list option" where
  "airway_chain labels origin v chain =
     (if v = origin \<or> v = - 1 then Some chain
      else case labels v of None \<Rightarrow> None | Some l \<Rightarrow> airway_chain labels origin (snd l) (chain @ [v]))"

definition expand_airway :: "graph_builder \<Rightarrow> string \<Rightarrow> int \<Rightarrow> int \<Rightarrow> int list option" where
  "expand_airway b name origin to =
     (case airway_loop b name to [origin \<mapsto> (0, - 1)] (heap_push (\<lambda>q. q) [] (0, origin)) of
        None \<Rightarrow> None
      | Some labels \<Rightarrow>
          if dist_of labels to = Infinity then Some [] else map_option rev (airway_chain labels origin to []))"

section \<open>The brackets of a route\<close>

text \<open>What the parser knows before the enroute loop: the window of tokens left and how the two ends connect.\<close>

record route_frame =
  fr_i :: nat
  fr_end :: nat
  fr_dep :: string
  fr_arr :: string
  fr_dep_explicit :: bool
  fr_arr_explicit :: bool
  fr_sid :: string
  fr_star :: string
  fr_dep_via_sid :: bool
  fr_arr_via_star :: bool

text \<open>The leading and trailing airport, and a \<open>DCT\<close> before the latter.\<close>

definition frame_airports :: "graph_builder \<Rightarrow> string list \<Rightarrow> route_frame" where
  "frame_airports b tokens =
     (let dep = (if 0 \<le> vertex_by_airport b (hd tokens) then hd tokens else []);
          i = (if 0 \<le> vertex_by_airport b (hd tokens) then 1 else 0);
          has_arr = (i + 1 < length tokens \<and> 0 \<le> vertex_by_airport b (last tokens));
          arr = (if has_arr then last tokens else []);
          end0 = (if has_arr then length tokens - 1 else length tokens);
          dct = (has_arr \<and> i + 1 < end0 \<and> tokens ! (end0 - 1) = dct_token)
      in \<lparr>fr_i = i, fr_end = (if dct then end0 - 1 else end0), fr_dep = dep, fr_arr = arr, fr_dep_explicit = False,
          fr_arr_explicit = dct, fr_sid = [], fr_star = [], fr_dep_via_sid = False, fr_arr_via_star = False\<rparr>)"

definition airport_has_procedure ::
  "nav_database \<Rightarrow> string \<Rightarrow> string \<Rightarrow> procedure_type \<Rightarrow> bool result \<times> nav_database" where
  "airport_has_procedure db icao name type =
     (if icao = [] then (Inr False, db)
      else case procedures_for db icao of
          (Inl e, db') \<Rightarrow> (Inl e, db')
        | (Inr None, db') \<Rightarrow> (Inr False, db')
        | (Inr (Some cifp), db') \<Rightarrow>
            (Inr (list_ex (\<lambda>p. proc_type p = type \<and> proc_name p = name) (cifp_procedures cifp)), db'))"

definition frame_sid ::
  "nav_database \<Rightarrow> string list \<Rightarrow> route_frame \<Rightarrow> route_frame result \<times> nav_database" where
  "frame_sid db tokens fr =
     (if \<not> (fr_i fr < fr_end fr \<and> fr_dep fr \<noteq> []) then (Inr fr, db)
      else if tokens ! fr_i fr = sid_token then
        (Inr (fr\<lparr>fr_dep_via_sid := True, fr_i := fr_i fr + 1\<rparr>), db)
      else case airport_has_procedure db (fr_dep fr) (tokens ! fr_i fr) Sid of
          (Inl e, db') \<Rightarrow> (Inl e, db')
        | (Inr True, db') \<Rightarrow>
            (Inr (fr\<lparr>fr_sid := tokens ! fr_i fr, fr_dep_via_sid := True, fr_i := fr_i fr + 1\<rparr>), db')
        | (Inr False, db') \<Rightarrow> (Inr fr, db'))"

text \<open>A \<open>DCT\<close> after the departure airport.\<close>

definition frame_dct :: "string list \<Rightarrow> route_frame \<Rightarrow> route_frame" where
  "frame_dct tokens fr =
     (let fr = fr\<lparr>fr_dep_explicit := fr_dep_via_sid fr\<rparr> in
      if fr_dep fr \<noteq> [] \<and> \<not> fr_dep_via_sid fr \<and> fr_i fr < fr_end fr \<and> tokens ! fr_i fr = dct_token \<and>
         fr_i fr + 1 < fr_end fr
      then fr\<lparr>fr_i := fr_i fr + 1, fr_dep_explicit := True\<rparr> else fr)"

definition frame_star ::
  "nav_database \<Rightarrow> string list \<Rightarrow> route_frame \<Rightarrow> route_frame result \<times> nav_database" where
  "frame_star db tokens fr =
     (if \<not> (fr_i fr < fr_end fr \<and> fr_arr fr \<noteq> []) then (Inr fr, db)
      else let tok = tokens ! (fr_end fr - 1);
               taken = fr\<lparr>fr_arr_via_star := True, fr_end := fr_end fr - 1, fr_arr_explicit := True\<rparr> in
        if tok = star_token then (Inr taken, db)
        else case airport_has_procedure db (fr_arr fr) tok Star of
            (Inl e, db') \<Rightarrow> (Inl e, db')
          | (Inr True, db') \<Rightarrow> (Inr (taken\<lparr>fr_star := tok\<rparr>), db')
          | (Inr False, db') \<Rightarrow> (Inr fr, db'))"

section \<open>The route under construction\<close>

definition finalize_phase_split :: "route \<Rightarrow> bool \<Rightarrow> bool \<Rightarrow> route" where
  "finalize_phase_split r dep_via_sid arr_via_star =
     (let dep = sum_list (map rl_distance_nm (filter (\<lambda>l. rl_via l = sid_token) (ro_legs r)));
          arr = sum_list (map rl_distance_nm (filter (\<lambda>l. rl_via l \<noteq> sid_token \<and> rl_via l = star_token) (ro_legs r)))
      in r\<lparr>ro_dep_distance_nm := dep, ro_arr_distance_nm := arr,
           ro_enroute_distance_nm := max 0 (ro_total_distance_nm r - dep - arr),
           ro_dep_connection := (if dep_via_sid then CkProcedure else CkDirect),
           ro_arr_connection := (if arr_via_star then CkProcedure else CkDirect)\<rparr>)"

definition push_leg :: "string \<Rightarrow> string \<Rightarrow> string \<Rightarrow> real \<Rightarrow> route \<Rightarrow> route" where
  "push_leg f t via d r =
     r\<lparr>ro_legs := ro_legs r @ [leg_of f t via d], ro_total_distance_nm := ro_total_distance_nm r + d\<rparr>"

text \<open>The string is rebuilt from the legs, which the folding rewrites, before the split.\<close>

definition close_route :: "route \<Rightarrow> bool \<Rightarrow> bool \<Rightarrow> route" where
  "close_route r dep_via_sid arr_via_star =
     (let first_point = (if ro_points r = [] then [] else pt_ident (hd (ro_points r)));
          (text, legs) = build_route_string first_point (ro_legs r)
      in finalize_phase_split (r\<lparr>ro_route_string := text, ro_legs := legs\<rparr>) dep_via_sid arr_via_star)"

text \<open>\<open>DEP DCT ARR\<close>.\<close>

definition is_direct_pair :: "string list \<Rightarrow> route_frame \<Rightarrow> bool" where
  "is_direct_pair tokens fr \<longleftrightarrow>
     fr_dep fr \<noteq> [] \<and> fr_arr fr \<noteq> [] \<and> int (fr_end fr) - int (fr_i fr) = 1 \<and> tokens ! fr_i fr = dct_token \<and>
     \<not> fr_dep_via_sid fr \<and> \<not> fr_arr_via_star fr"

definition airport_point :: "graph_builder \<Rightarrow> string \<Rightarrow> route_point" where
  "airport_point b icao = \<lparr>pt_ident = icao, pt_coord = coord_of (gb_graph b) (vertex_by_airport b icao)\<rparr>"

definition direct_pair :: "graph_builder \<Rightarrow> route_frame \<Rightarrow> route" where
  "direct_pair b fr =
     (let dep = airport_point b (fr_dep fr); arr = airport_point b (fr_arr fr);
          d = distance_to (pt_coord dep) (pt_coord arr);
          r = push_leg (fr_dep fr) (fr_arr fr) dct_token d (route_empty\<lparr>ro_points := [dep, arr]\<rparr>)
      in close_route r (fr_dep_via_sid fr) (fr_arr_via_star fr))"

section \<open>The enroute loop\<close>

record parse_state =
  ps_route :: route
  ps_vertices :: "int list"
  ps_prev :: int
  ps_ref :: point
  ps_expect_fix :: bool
  ps_connector :: string

definition add_point :: "graph_builder \<Rightarrow> int \<Rightarrow> parse_state \<Rightarrow> parse_state" where
  "add_point b v st =
     st\<lparr>ps_vertices := ps_vertices st @ [v],
        ps_route := (ps_route st)\<lparr>ro_points := ro_points (ps_route st) @ [fix_point b (gb_graph b) v]\<rparr>,
        ps_prev := v, ps_ref := coord_of (gb_graph b) v\<rparr>"

text \<open>A leg from the previous fix to \<open>v\<close>, and \<open>v\<close> itself.\<close>

definition fly_to :: "graph_builder \<Rightarrow> string \<Rightarrow> parse_state \<Rightarrow> int \<Rightarrow> parse_state" where
  "fly_to b via st v =
     add_point b v
       (st\<lparr>ps_route := push_leg (vertex_name b (ps_prev st)) (vertex_name b v) via
             (distance_to (coord_of (gb_graph b) (ps_prev st)) (coord_of (gb_graph b) v)) (ps_route st)\<rparr>)"

definition parse_error :: "string \<Rightarrow> error" where
  "parse_error msg = mk_error KRouteParseError msg"

definition quoted :: "string \<Rightarrow> string" where
  "quoted s = [CHR 0x27] @ s @ [CHR 0x27]"

text \<open>A fix is expected: it is reached directly, or along the pending airway.\<close>

definition parse_waypoint :: "graph_builder \<Rightarrow> parse_state \<Rightarrow> string \<Rightarrow> parse_state result option" where
  "parse_waypoint b st tok =
     (let rf = parse_fix b tok (ps_ref st); v = rf_vertex rf; connector = ps_connector st;
          done = (\<lambda>st. Some (Inr (st\<lparr>ps_connector := [], ps_expect_fix := False\<rparr>)))
      in if v < 0 then Some (Inl (parse_error (''token '' @ quoted tok @ '' is not a known waypoint at this position'')))
         else if ps_prev st < 0 then done (add_point b v st)
         else if connector = dct_token \<or> connector = [] then done (fly_to b dct_token st v)
         else case expand_airway b connector (ps_prev st) v of
             None \<Rightarrow> None
           | Some chain \<Rightarrow>
               if chain = [] then
                 Some (Inl (parse_error (''airway '' @ quoted connector @ '' does not connect '' @
                   vertex_name b (ps_prev st) @ '' to '' @ tok)))
               else done (foldl (fly_to b connector) st chain))"

definition parse_connector :: "airway_index \<Rightarrow> parse_state \<Rightarrow> string \<Rightarrow> parse_state result" where
  "parse_connector index st tok =
     (if tok = dct_token then Inr (st\<lparr>ps_connector := dct_token, ps_expect_fix := True\<rparr>)
      else if find_airway index (to_upper tok) \<noteq> None then
        Inr (st\<lparr>ps_connector := to_upper tok, ps_expect_fix := True\<rparr>)
      else Inl (parse_error (''two consecutive fixes '' @ quoted tok @
             '' with no connector (expected DCT or airway)'')))"

primrec parse_tokens ::
  "graph_builder \<Rightarrow> airway_index \<Rightarrow> string list \<Rightarrow> parse_state \<Rightarrow> parse_state result option" where
  "parse_tokens b index [] st = Some (Inr st)"
| "parse_tokens b index (tok # toks) st =
     (case (if ps_expect_fix st then parse_waypoint b st tok else Some (parse_connector index st tok)) of
        None \<Rightarrow> None
      | Some (Inl e) \<Rightarrow> Some (Inl e)
      | Some (Inr st') \<Rightarrow> parse_tokens b index toks st')"

section \<open>Closing the route\<close>

text \<open>The checks after the loop, in the order of the code.\<close>

definition loop_failure :: "route_frame \<Rightarrow> parse_state \<Rightarrow> error option" where
  "loop_failure fr st =
     (if ps_vertices st = [] then Some (parse_error ''route has no waypoints'')
      else if ps_connector st \<noteq> [] then
        Some (parse_error (''route ends with '' @ quoted (ps_connector st) @ '' but no fix''))
      else if fr_dep fr \<noteq> [] \<and> \<not> fr_dep_explicit fr then
        Some (parse_error (''departure airport '' @ quoted (fr_dep fr) @
          '' has no connector to the first fix (expected DCT or SID)''))
      else if fr_arr fr \<noteq> [] \<and> \<not> fr_arr_explicit fr then
        Some (parse_error (''arrival airport '' @ quoted (fr_arr fr) @
          '' has no connector to the last fix (expected DCT or STAR)''))
      else None)"

definition prepend_departure :: "graph_builder \<Rightarrow> route_frame \<Rightarrow> int list \<Rightarrow> route \<Rightarrow> route" where
  "prepend_departure b fr vertices r =
     (if fr_dep fr = [] then r
      else let apt = airport_point b (fr_dep fr); d = distance_to (pt_coord apt) (coord_of (gb_graph b) (hd vertices)) in
        r\<lparr>ro_points := apt # ro_points r,
          ro_legs := leg_of (fr_dep fr) (vertex_name b (hd vertices))
            (if fr_dep_via_sid fr then sid_token else dct_token) d # ro_legs r,
          ro_total_distance_nm := ro_total_distance_nm r + d, ro_sid := fr_sid fr\<rparr>)"

definition append_arrival :: "graph_builder \<Rightarrow> route_frame \<Rightarrow> int list \<Rightarrow> route \<Rightarrow> route" where
  "append_arrival b fr vertices r =
     (if fr_arr fr = [] then r
      else let apt = airport_point b (fr_arr fr); d = distance_to (coord_of (gb_graph b) (last vertices)) (pt_coord apt) in
        (push_leg (vertex_name b (last vertices)) (fr_arr fr) (if fr_arr_via_star fr then star_token else dct_token) d
          (r\<lparr>ro_points := ro_points r @ [apt]\<rparr>))\<lparr>ro_star := fr_star fr\<rparr>)"

definition bracket_route :: "graph_builder \<Rightarrow> route_frame \<Rightarrow> parse_state \<Rightarrow> route result" where
  "bracket_route b fr st =
     (case loop_failure fr st of
        Some e \<Rightarrow> Inl e
      | None \<Rightarrow>
          Inr (close_route (append_arrival b fr (ps_vertices st) (prepend_departure b fr (ps_vertices st) (ps_route st)))
            (fr_dep_via_sid fr) (fr_arr_via_star fr)))"

section \<open>ParseRoute\<close>

text \<open>The shape every filed route has: two known airports with something between them.\<close>

definition bracket_failure :: "graph_builder \<Rightarrow> string list \<Rightarrow> error option" where
  "bracket_failure b tokens =
     (if tokens = [] then Some (parse_error ''empty route string'')
      else if vertex_by_airport b (hd tokens) < 0 then
        Some (parse_error (''route must start with a departure airport ICAO (first token '' @ quoted (hd tokens) @
          '' is not a known airport)''))
      else if length tokens < 2 then
        Some (parse_error ''route has only a departure airport; expected an arrival airport and a connector'')
      else if vertex_by_airport b (last tokens) < 0 then
        Some (parse_error (''route must end with an arrival airport ICAO (last token '' @ quoted (last tokens) @
          '' is not a known airport)''))
      else if length tokens = 2 then
        Some (parse_error (''airport pair '' @ quoted (hd tokens @ '' '' @ last tokens) @
          '' has no connector (expected '' @ quoted (hd tokens @ '' DCT '' @ last tokens) @ '')''))
      else None)"

definition parse_start :: "graph_builder \<Rightarrow> route_frame \<Rightarrow> parse_state" where
  "parse_start b fr =
     \<lparr>ps_route = route_empty, ps_vertices = [], ps_prev = - 1,
      ps_ref = (if fr_dep fr = [] then \<lparr>latitude = 0, longitude = 0\<rparr>
                else coord_of (gb_graph b) (vertex_by_airport b (fr_dep fr))),
      ps_expect_fix = True, ps_connector = []\<rparr>"

definition parse_enroute :: "graph_builder \<Rightarrow> airway_index \<Rightarrow> string list \<Rightarrow> route_frame \<Rightarrow> route result option" where
  "parse_enroute b index tokens fr =
     (if is_direct_pair tokens fr then Some (Inr (direct_pair b fr))
      else case parse_tokens b index (take (fr_end fr - fr_i fr) (drop (fr_i fr) tokens)) (parse_start b fr) of
          None \<Rightarrow> None
        | Some (Inl e) \<Rightarrow> Some (Inl e)
        | Some (Inr st) \<Rightarrow> Some (bracket_route b fr st))"

definition parse_route ::
  "nav_database \<Rightarrow> airway_index \<Rightarrow> string \<Rightarrow> route result option \<times> nav_database" where
  "parse_route db index route_str =
     (case db_builder db of
        None \<Rightarrow> (Some (Inl (mk_error KDataMissing ''database not loaded'')), db)
      | Some b \<Rightarrow>
          let tokens = tokenize_route route_str in
          case bracket_failure b tokens of
            Some e \<Rightarrow> (Some (Inl e), db)
          | None \<Rightarrow>
              (case frame_sid db tokens (frame_airports b tokens) of
                 (Inl e, db1) \<Rightarrow> (Some (Inl e), db1)
               | (Inr fr, db1) \<Rightarrow>
                   (case frame_star db1 tokens (frame_dct tokens fr) of
                      (Inl e, db2) \<Rightarrow> (Some (Inl e), db2)
                    | (Inr fr', db2) \<Rightarrow> (parse_enroute b index tokens fr', db2))))"

end
