(* ===== verification/AirwayExpansion.thy ===== *)
theory AirwayExpansion
  imports RouteParser BuiltNetwork
begin

text \<open>
  The airway search of \<^verbatim>\<open>io/navdb/parse.cc\<close> returns, and what it returns is a shortest walk along the edges of the
  airway. The invariant is Dijkstra's, with the settled vertices as ghost state, latest first.
\<close>

section \<open>Walks along an airway\<close>

definition airway_hop :: "graph_builder \<Rightarrow> string \<Rightarrow> int \<Rightarrow> int \<Rightarrow> real \<Rightarrow> bool" where
  "airway_hop b name u v w \<longleftrightarrow>
     (\<exists>e \<in> set (out_edges (gb_graph b) u). on_airway b name e \<and> edge_to e = v \<and> ge_distance_nm e = w)"

inductive airway_path :: "graph_builder \<Rightarrow> string \<Rightarrow> int \<Rightarrow> int list \<Rightarrow> real \<Rightarrow> bool" for b name where
  stay: "airway_path b name u [] 0"
| hop: "airway_hop b name u v w \<Longrightarrow> airway_path b name v vs d \<Longrightarrow> airway_path b name u (v # vs) (w + d)"

inductive_simps airway_path_Nil [simp]: "airway_path b name u [] d"
inductive_cases airway_path_ConsE: "airway_path b name u (v # vs) d"

lemma airway_path_snoc:
  "airway_path b name u vs d \<Longrightarrow> airway_hop b name (last (u # vs)) v w \<Longrightarrow> airway_path b name u (vs @ [v]) (d + w)"
proof (induction rule: airway_path.induct)
  case (stay u)
  then show ?case using airway_path.hop [OF _ airway_path.stay, of b name u v w] by simp
next
  case (hop u v' w' vs d)
  have "last (u # v' # vs) = last (v' # vs)" by simp
  with hop have "airway_path b name v' (vs @ [v]) (d + w)" by simp
  from airway_path.hop [OF hop.hyps(1) this] show ?case by (simp add: add.assoc)
qed

lemma airway_path_snocE:
  assumes "airway_path b name u vs d" "vs \<noteq> []"
  obtains w d' where "airway_path b name u (butlast vs) d'" "airway_hop b name (last (u # butlast vs)) (last vs) w"
    "d = d' + w"
  using assms
proof (induction vs arbitrary: u d thesis)
  case (Cons x xs)
  obtain w d0 where x: "airway_hop b name u x w" "airway_path b name x xs d0" "d = w + d0"
    using Cons.prems(2) by (rule airway_path_ConsE)
  show ?case
  proof (cases "xs = []")
    case True
    with x Cons.prems(1) [of 0 w] show ?thesis by (auto intro: airway_path.stay)
  next
    case False
    obtain w' d' where t: "airway_path b name x (butlast xs) d'" "airway_hop b name (last (x # butlast xs)) (last xs) w'"
        "d0 = d' + w'"
      using Cons.IH [OF _ x(2) False] by blast
    show ?thesis
      by (rule Cons.prems(1) [of "w + d'" w'])
        (use airway_path.hop [OF x(1) t(1)] t x(3) False in auto)
  qed
qed simp

section \<open>The invariant\<close>

definition label_dist :: "airway_labels \<Rightarrow> int \<Rightarrow> real" where
  "label_dist L v = fst (the (L v))"

definition label_prev :: "airway_labels \<Rightarrow> int \<Rightarrow> int" where
  "label_prev L v = snd (the (L v))"

lemma dist_of_label: "L v = Some l \<Longrightarrow> dist_of L v = Fin (label_dist L v)"
  by (simp add: dist_of_def label_dist_def)

lemma dist_of_dom: "v \<in> dom L \<Longrightarrow> dist_of L v = Fin (label_dist L v)"
  by (auto simp: dist_of_def label_dist_def)

text \<open>In a settled list every vertex but the origin was reached from one settled before it.\<close>

fun settled_order :: "airway_labels \<Rightarrow> int \<Rightarrow> int list \<Rightarrow> bool" where
  "settled_order L origin [] = True"
| "settled_order L origin (v # vs) = ((v = origin \<or> label_prev L v \<in> set vs) \<and> settled_order L origin vs)"

definition label_ok :: "graph_builder \<Rightarrow> string \<Rightarrow> int list \<Rightarrow> airway_labels \<Rightarrow> int \<Rightarrow> bool" where
  "label_ok b name S L v \<longleftrightarrow>
     label_prev L v \<in> set S \<and>
     airway_hop b name (label_prev L v) v (label_dist L v - label_dist L (label_prev L v))"

definition queue_ok :: "int list \<Rightarrow> airway_labels \<Rightarrow> (real \<times> int) multiset \<Rightarrow> bool" where
  "queue_ok S L Q \<longleftrightarrow>
     (\<forall>v \<in> dom L - set S. (label_dist L v, v) \<in># Q) \<and>
     (\<forall>q \<in># Q. snd q \<in> dom L \<and> label_dist L (snd q) \<le> fst q \<and>
        (snd q \<in> set S \<longrightarrow> label_dist L (snd q) < fst q) \<and> count Q q \<le> 1 \<and>
        (\<forall>s \<in> set S. label_dist L s \<le> fst q))"

definition search_ok :: "graph_builder \<Rightarrow> string \<Rightarrow> int \<Rightarrow> int list \<Rightarrow> airway_labels \<Rightarrow> (real \<times> int) list \<Rightarrow> bool" where
  "search_ok b name origin S L pq \<longleftrightarrow>
     L origin = Some (0, - 1) \<and> set S \<subseteq> dom L \<and> distinct S \<and> settled_order L origin S \<and>
     (\<forall>v \<in> dom L. is_vertex (gb_graph b) v \<and> 0 \<le> label_dist L v \<and> (v = origin \<or> label_ok b name S L v)) \<and>
     queue_ok S L (mset pq) \<and> heap_ordered (\<lambda>q. q) pq"

definition settled_closed :: "graph_builder \<Rightarrow> string \<Rightarrow> int list \<Rightarrow> airway_labels \<Rightarrow> bool" where
  "settled_closed b name S L \<longleftrightarrow>
     (\<forall>u \<in> set S. \<forall>v w. airway_hop b name u v w \<longrightarrow> dist_of L v \<le> Fin (label_dist L u + w))"

lemma settled_order_cong:
  "(\<And>v. v \<in> set S \<Longrightarrow> L v = M v) \<Longrightarrow> settled_order L origin S = settled_order M origin S"
  by (induction S) (auto simp: label_prev_def)

text \<open>One relaxation from the vertex settled last.\<close>

lemma relax_ok:
  assumes ok: "search_ok b name origin (u # S) L pq" and e: "on_airway b name e" "e \<in> set (out_edges (gb_graph b) u)"
    and g: "graph_ok (gb_graph b)" and w: "0 \<le> ge_distance_nm e"
    and top: "\<forall>s \<in> set (u # S). label_dist L s \<le> label_dist L u"
    and lt: "Fin (label_dist L u + ge_distance_nm e) < dist_of L (edge_to e)"
  defines "nd \<equiv> label_dist L u + ge_distance_nm e"
  defines "L' \<equiv> L(edge_to e \<mapsto> (nd, u))" and "pq' \<equiv> heap_push (\<lambda>q. q) pq (nd, edge_to e)"
  shows "search_ok b name origin (u # S) L' pq'" "edge_to e \<notin> set (u # S)"
proof -
  let ?v = "edge_to e" and ?S = "u # S"
  have dom: "set ?S \<subseteq> dom L" and o: "L origin = Some (0, - 1)" and heap: "heap_ordered (\<lambda>q. q) pq"
    and lab: "\<And>v. v \<in> dom L \<Longrightarrow> is_vertex (gb_graph b) v \<and> 0 \<le> label_dist L v \<and> (v = origin \<or> label_ok b name ?S L v)"
    and Q: "queue_ok ?S L (mset pq)" and S: "distinct ?S" "settled_order L origin ?S"
    using ok unfolding search_ok_def by blast+
  have lt': "x \<in> dom L \<Longrightarrow> x = ?v \<Longrightarrow> nd < label_dist L x" for x
    using lt unfolding nd_def by (auto simp: dist_of_dom less_le)
  show nS: "?v \<notin> set ?S"
  proof
    assume "?v \<in> set ?S"
    then have "label_dist L ?v \<le> label_dist L u" "nd < label_dist L ?v" using top dom lt' by blast+
    then show False using w unfolding nd_def by linarith
  qed
  have pos: "0 \<le> nd" using lab [of u] dom w unfolding nd_def by auto
  have "origin \<in> dom L" "label_dist L origin = 0" using o by (auto simp: label_dist_def)
  then have no: "?v \<noteq> origin" using lt' [of origin] pos by fastforce
  have Lv: "L' ?v = Some (nd, u)" and Lo: "\<And>x. x \<noteq> ?v \<Longrightarrow> L' x = L x" unfolding L'_def by simp_all
  have dv: "label_dist L' ?v = nd" "label_prev L' ?v = u" using Lv by (simp_all add: label_dist_def label_prev_def)
  have dx: "x \<noteq> ?v \<Longrightarrow> label_dist L' x = label_dist L x" "x \<noteq> ?v \<Longrightarrow> label_prev L' x = label_prev L x" for x
    using Lo by (simp_all add: label_dist_def label_prev_def)
  have dom': "dom L' = insert ?v (dom L)" unfolding L'_def by auto
  have mset': "mset pq' = add_mset (nd, ?v) (mset pq)" and heap': "heap_ordered (\<lambda>q. q) pq'"
    unfolding pq'_def using binary_heap.nodes_push [OF heap] binary_heap.ok_push [OF heap] by blast+
  have hop: "airway_hop b name u ?v (ge_distance_nm e)" using e by (auto simp: airway_hop_def)
  have labels: "is_vertex (gb_graph b) x \<and> 0 \<le> label_dist L' x \<and> (x = origin \<or> label_ok b name ?S L' x)"
    if x: "x \<in> dom L'" for x
  proof (cases "x = ?v")
    case True
    have "u \<noteq> ?v" using nS by auto
    then have "label_ok b name ?S L' ?v" using hop by (simp add: label_ok_def dv dx nd_def)
    then show ?thesis using True pos dv out_edges_vertex [OF g e(2)] by simp
  next
    case False
    then have xd: "x \<in> dom L" using x dom' by auto
    have "label_ok b name ?S L' x" if ok: "label_ok b name ?S L x"
    proof -
      have "label_prev L x \<noteq> ?v" using ok nS unfolding label_ok_def by metis
      then show ?thesis using ok False by (simp add: label_ok_def dx)
    qed
    then show ?thesis using lab [OF xd] False dx by auto
  qed
  have fresh: "(nd, ?v) \<notin># mset pq"
  proof
    assume "(nd, ?v) \<in># mset pq"
    then have "?v \<in> dom L" "label_dist L ?v \<le> nd" using Q unfolding queue_ok_def by auto
    then show False using lt' by force
  qed
  have queue: "queue_ok ?S L' (mset pq')"
    unfolding queue_ok_def mset' dom'
  proof (intro conjI ballI)
    fix x assume x: "x \<in> insert ?v (dom L) - set ?S"
    show "(label_dist L' x, x) \<in># add_mset (nd, ?v) (mset pq)"
    proof (cases "x = ?v")
      case False
      then have "(label_dist L x, x) \<in># mset pq" using x Q unfolding queue_ok_def by auto
      then show ?thesis using dx(1) [OF False] by simp
    qed (simp add: dv)
  next
    fix q assume q: "q \<in># add_mset (nd, ?v) (mset pq)"
    have new: "q = (nd, ?v) \<or> q \<in># mset pq" using q by auto
    have old: "snd q \<in> dom L \<and> label_dist L (snd q) \<le> fst q \<and> (snd q \<in> set ?S \<longrightarrow> label_dist L (snd q) < fst q) \<and>
        count (mset pq) q \<le> 1 \<and> (\<forall>s \<in> set ?S. label_dist L s \<le> fst q)" if "q \<in># mset pq"
      using Q that unfolding queue_ok_def by blast
    show "snd q \<in> insert ?v (dom L)" using new old by auto
    show "label_dist L' (snd q) \<le> fst q"
    proof (cases "snd q = ?v")
      case True
      then show ?thesis using new old dv(1) lt' [of ?v] by fastforce
    next
      case False
      then show ?thesis using new old dx(1) [OF False] by auto
    qed
    show "snd q \<in> set ?S \<longrightarrow> label_dist L' (snd q) < fst q"
      using new old nS dx(1) [of "snd q"] by (metis snd_conv)
    show "count (add_mset (nd, ?v) (mset pq)) q \<le> 1"
      using new old fresh by (auto simp: count_eq_zero_iff)
    fix s assume s: "s \<in> set ?S"
    have "s \<noteq> ?v" using s nS by metis
    moreover have "label_dist L s \<le> nd" using top s w unfolding nd_def by fastforce
    ultimately show "label_dist L' s \<le> fst q" using new old s dx(1) [of s] by fastforce
  qed
  have "settled_order L' origin ?S"
    using S(2) settled_order_cong [of ?S L' L origin] Lo nS by metis
  moreover have "L' origin = Some (0, - 1)" using Lo no o by simp
  ultimately show "search_ok b name origin ?S L' pq'"
    using dom dom' S(1) labels queue heap' unfolding search_ok_def by blast
qed

text \<open>All the edges out of the vertex settled last: what the labels still promise.\<close>

lemma relax_all:
  assumes g: "graph_ok (gb_graph b)" and w: "\<forall>e \<in> set es. 0 \<le> ge_distance_nm e"
    and es: "set es \<subseteq> set (out_edges (gb_graph b) u)"
  shows "search_ok b name origin (u # S) L pq \<Longrightarrow> \<forall>s \<in> set (u # S). label_dist L s \<le> label_dist L u \<Longrightarrow>
    d = label_dist L u \<Longrightarrow> foldl (relax_airway b name u d) (L, pq) es = (L', pq') \<Longrightarrow>
    search_ok b name origin (u # S) L' pq' \<and> (\<forall>s \<in> set (u # S). L' s = L s) \<and>
    (\<forall>v. dist_of L' v \<le> dist_of L v) \<and>
    (\<forall>e \<in> set es. on_airway b name e \<longrightarrow> dist_of L' (edge_to e) \<le> Fin (d + ge_distance_nm e))"
  using w es
proof (induction es arbitrary: L pq)
  case (Cons e es)
  obtain L1 pq1 where st: "relax_airway b name u d (L, pq) e = (L1, pq1)" by fastforce
  then have rest: "foldl (relax_airway b name u d) (L1, pq1) es = (L', pq')" using Cons.prems(4) by simp
  have e: "e \<in> set (out_edges (gb_graph b) u)" "0 \<le> ge_distance_nm e" using Cons.prems(5,6) by auto
  have step: "search_ok b name origin (u # S) L1 pq1 \<and> (\<forall>s \<in> set (u # S). L1 s = L s) \<and>
      (\<forall>v. dist_of L1 v \<le> dist_of L v) \<and> (on_airway b name e \<longrightarrow> dist_of L1 (edge_to e) \<le> Fin (d + ge_distance_nm e))"
  proof (cases "on_airway b name e \<and> Fin (d + ge_distance_nm e) < dist_of L (edge_to e)")
    case True
    have lt: "Fin (label_dist L u + ge_distance_nm e) < dist_of L (edge_to e)" using True Cons.prems(3) by simp
    have on: "on_airway b name e" using True by simp
    note r = relax_ok [OF Cons.prems(1) on e(1) g e(2) Cons.prems(2) lt]
    have L1: "L1 = L(edge_to e \<mapsto> (d + ge_distance_nm e, u))" "pq1 = heap_push (\<lambda>q. q) pq (d + ge_distance_nm e, edge_to e)"
      using st True by (simp_all add: relax_airway_def Let_def)
    have "\<forall>s \<in> set (u # S). L1 s = L s" using r(2) L1(1) by (metis fun_upd_apply)
    moreover have "\<forall>v. dist_of L1 v \<le> dist_of L v" using True by (auto simp: L1(1) dist_of_def)
    moreover have "dist_of L1 (edge_to e) \<le> Fin (d + ge_distance_nm e)" by (simp add: L1(1) dist_of_def)
    moreover have "search_ok b name origin (u # S) L1 pq1" using r(1) unfolding L1 Cons.prems(3) .
    ultimately show ?thesis by blast
  next
    case False
    then have "L1 = L" "pq1 = pq" using st by (auto simp: relax_airway_def Let_def split: if_splits)
    then show ?thesis using False Cons.prems(1) by (auto simp: not_less)
  qed
  have dL: "label_dist L1 s = label_dist L s" if "s \<in> set (u # S)" for s
    using step that by (simp only: label_dist_def)
  have "\<forall>s \<in> set (u # S). label_dist L1 s \<le> label_dist L1 u" "d = label_dist L1 u"
    using Cons.prems(2,3) dL by (metis list.set_intros(1))+
  from Cons.IH [OF _ this rest] step Cons.prems(5,6)
  have ih: "search_ok b name origin (u # S) L' pq' \<and> (\<forall>s \<in> set (u # S). L' s = L1 s) \<and>
    (\<forall>v. dist_of L' v \<le> dist_of L1 v) \<and>
    (\<forall>e \<in> set es. on_airway b name e \<longrightarrow> dist_of L' (edge_to e) \<le> Fin (d + ge_distance_nm e))" by simp
  then show ?case using step by (metis order_trans set_ConsD)
qed simp

text \<open>Taking a stale entry and settling a vertex keep the invariant.\<close>

lemma drop_stale:
  assumes ok: "search_ok b name origin S L pq" and pq: "pq \<noteq> []" "heap_take (\<lambda>q. q) pq = ((d, u), pq')"
    and stale: "dist_of L u < Fin d"
  shows "search_ok b name origin S L pq'"
proof -
  have laws: "heap_ordered (\<lambda>q. q) pq' \<and> mset pq = add_mset (d, u) (mset pq')"
    using binary_heap.pop_laws [OF _ _ pq(2)] ok pq(1) unfolding search_ok_def by auto
  have "queue_ok S L (mset pq')"
    unfolding queue_ok_def
  proof (intro conjI ballI)
    fix v assume v: "v \<in> dom L - set S"
    then have "(label_dist L v, v) \<in># add_mset (d, u) (mset pq')"
      using ok laws unfolding search_ok_def queue_ok_def by metis
    moreover have "(label_dist L v, v) \<noteq> (d, u)"
    proof
      assume "(label_dist L v, v) = (d, u)"
      then have "dist_of L u = Fin d" using v dist_of_dom [of u L] by auto
      then show False using stale by simp
    qed
    ultimately show "(label_dist L v, v) \<in># mset pq'" by auto
  next
    fix q assume "q \<in># mset pq'"
    then have "q \<in># mset pq" and c: "count (mset pq') q \<le> count (mset pq) q" using laws by simp_all
    then have o: "snd q \<in> dom L \<and> label_dist L (snd q) \<le> fst q \<and> (snd q \<in> set S \<longrightarrow> label_dist L (snd q) < fst q) \<and>
        count (mset pq) q \<le> 1 \<and> (\<forall>s \<in> set S. label_dist L s \<le> fst q)"
      using ok unfolding search_ok_def queue_ok_def by blast
    show "snd q \<in> dom L" "label_dist L (snd q) \<le> fst q" "snd q \<in> set S \<longrightarrow> label_dist L (snd q) < fst q"
      using o by blast+
    show "count (mset pq') q \<le> 1" using o c by linarith
    fix s assume "s \<in> set S" then show "label_dist L s \<le> fst q" using o by blast
  qed
  then show ?thesis using ok laws unfolding search_ok_def by blast
qed

lemma settle_ok:
  assumes ok: "search_ok b name origin S L pq" and pq: "pq \<noteq> []" "heap_take (\<lambda>q. q) pq = ((d, u), pq')"
    and fresh: "\<not> dist_of L u < Fin d"
  shows "search_ok b name origin (u # S) L pq'" "u \<notin> set S" "d = label_dist L u"
    "\<forall>s \<in> set (u # S). label_dist L s \<le> label_dist L u" "u \<in> dom L" "\<forall>v \<in> dom L - set S. label_dist L u \<le> label_dist L v"
proof -
  have Q: "queue_ok S L (mset pq)" and heap: "heap_ordered (\<lambda>q. q) pq" using ok unfolding search_ok_def by blast+
  have ne: "mset pq \<noteq> {#}" using pq(1) by simp
  have laws: "heap_ordered (\<lambda>q. q) pq'" "mset pq = add_mset (d, u) (mset pq')" "\<forall>y \<in># mset pq. (d, u) \<le> y"
    using binary_heap.pop_laws [OF heap ne pq(2)] by blast+
  have q: "q \<in># mset pq \<Longrightarrow> snd q \<in> dom L \<and> label_dist L (snd q) \<le> fst q \<and>
      (snd q \<in> set S \<longrightarrow> label_dist L (snd q) < fst q) \<and> count (mset pq) q \<le> 1 \<and> (\<forall>s \<in> set S. label_dist L s \<le> fst q)" for q
    using Q unfolding queue_ok_def by blast
  have du: "(d, u) \<in># mset pq" using laws by simp
  from q [OF this] show u: "u \<in> dom L" by simp
  then show d: "d = label_dist L u" using q [OF du] fresh by (simp add: dist_of_dom less_cost_def)
  then show nS: "u \<notin> set S" using q [OF du] by auto
  show low: "\<forall>s \<in> set (u # S). label_dist L s \<le> label_dist L u" using q [OF du] d by auto
  have least: "label_dist L u \<le> fst y" if "y \<in># mset pq" for y
    using laws(3) that d by (auto simp: less_eq_prod_def)
  show "\<forall>v \<in> dom L - set S. label_dist L u \<le> label_dist L v"
    using Q least unfolding queue_ok_def by fastforce
  have "queue_ok (u # S) L (mset pq')"
    unfolding queue_ok_def
  proof (intro conjI ballI)
    fix v assume v: "v \<in> dom L - set (u # S)"
    then have "(label_dist L v, v) \<in># mset pq" using Q unfolding queue_ok_def by auto
    then show "(label_dist L v, v) \<in># mset pq'" using v laws(2) by auto
  next
    fix y assume y: "y \<in># mset pq'"
    then have ym: "y \<in># mset pq" and c: "count (mset pq') y \<le> count (mset pq) y" using laws(2) by simp_all
    show "snd y \<in> dom L" "label_dist L (snd y) \<le> fst y" "count (mset pq') y \<le> 1" using q [OF ym] c by auto
    show "snd y \<in> set (u # S) \<longrightarrow> label_dist L (snd y) < fst y"
    proof
      assume s: "snd y \<in> set (u # S)"
      show "label_dist L (snd y) < fst y"
      proof (cases "snd y = u")
        case True
        have "y \<noteq> (d, u)" using q [OF du] laws(2) y by (auto simp: count_eq_zero_iff dest: count_greater_zero_iff [THEN iffD2])
        then have "fst y \<noteq> d" using True by (cases y) auto
        then show ?thesis using q [OF ym] d True by auto
      next
        case False
        then show ?thesis using s q [OF ym] by auto
      qed
    qed
    fix s assume "s \<in> set (u # S)"
    then show "label_dist L s \<le> fst y" using q [OF ym] least [OF ym] by auto
  qed
  moreover have lab: "\<forall>v \<in> dom L. is_vertex (gb_graph b) v \<and> 0 \<le> label_dist L v \<and> (v = origin \<or> label_ok b name S L v)"
    using ok unfolding search_ok_def by blast
  then have "\<forall>v \<in> dom L. is_vertex (gb_graph b) v \<and> 0 \<le> label_dist L v \<and> (v = origin \<or> label_ok b name (u # S) L v)"
    by (auto simp: label_ok_def)
  moreover have "settled_order L origin (u # S)" using lab u ok unfolding search_ok_def by (auto simp: label_ok_def)
  ultimately show "search_ok b name origin (u # S) L pq'"
    using ok u nS laws(1) unfolding search_ok_def by simp
qed

section \<open>The loop\<close>

definition edges_nonneg :: "nav_graph \<Rightarrow> bool" where
  "edges_nonneg g \<longleftrightarrow> (\<forall>u. is_vertex g u \<longrightarrow> (\<forall>e \<in> set (out_edges g u). 0 \<le> ge_distance_nm e))"

text \<open>What the loop leaves: an empty queue, or the goal's label no greater than that of any open vertex.\<close>

definition expansion_done :: "graph_builder \<Rightarrow> string \<Rightarrow> int \<Rightarrow> int \<Rightarrow> int list \<Rightarrow> airway_labels \<Rightarrow> bool" where
  "expansion_done b name origin to S L \<longleftrightarrow>
     L origin = Some (0, - 1) \<and> set S \<subseteq> dom L \<and> settled_order L origin S \<and> settled_closed b name S L \<and> to \<notin> set S \<and>
     (\<forall>v \<in> dom L. is_vertex (gb_graph b) v \<and> 0 \<le> label_dist L v \<and> (v = origin \<or> label_ok b name S L v)) \<and>
     (if to \<in> dom L then \<forall>v \<in> dom L - set S. label_dist L to \<le> label_dist L v else dom L \<subseteq> set S)"

lemma expansion_doneI:
  assumes "search_ok b name origin S L pq" "settled_closed b name S L" "to \<notin> set S"
    and "if to \<in> dom L then \<forall>v \<in> dom L - set S. label_dist L to \<le> label_dist L v else dom L \<subseteq> set S"
  shows "expansion_done b name origin to S L"
  using assms unfolding search_ok_def expansion_done_def by blast

lemma airway_loop_done:
  assumes g: "graph_ok (gb_graph b)" and nn: "edges_nonneg (gb_graph b)"
  shows "search_ok b name origin S L pq \<Longrightarrow> settled_closed b name S L \<Longrightarrow> to \<notin> set S \<Longrightarrow>
    \<exists>L' S'. airway_loop b name to L pq = Some L' \<and> expansion_done b name origin to S' L'"
proof (induction "(card ({v. is_vertex (gb_graph b) v} - set S), length pq)" arbitrary: S L pq rule: wf_induct
    [OF wf_lex_prod [OF wf_less wf_less]])
  case (1 S pq L)
  let ?V = "{v. is_vertex (gb_graph b) v}"
  have fin: "finite ?V" by (rule finite_subset [of _ "{0 .. vertex_count (gb_graph b)}"]) (auto simp: is_vertex_def)
  have ih: "\<exists>L'' S''. airway_loop b name to L' pq' = Some L'' \<and> expansion_done b name origin to S'' L''"
    if "card (?V - set S') < card (?V - set S) \<or> S' = S \<and> length pq' < length pq"
      "search_ok b name origin S' L' pq'" "settled_closed b name S' L'" "to \<notin> set S'" for S' L' pq'
    using "1.hyps" that by auto
  show ?case
  proof (cases "pq = []")
    case True
    then have "dom L \<subseteq> set S" using "1.prems"(1) by (auto simp: search_ok_def queue_ok_def)
    then have "expansion_done b name origin to S L"
      by (intro expansion_doneI [OF "1.prems"]) (use "1.prems"(3) in auto)
    moreover have "airway_loop b name to L pq = Some L" by (subst airway_loop.simps) (simp add: True)
    ultimately show ?thesis by blast
  next
    case False
    obtain d u pq' where take: "heap_take (\<lambda>q. q) pq = ((d, u), pq')"
      by (cases "heap_take (\<lambda>q. q) pq") auto
    have len: "length pq' < length pq"
    proof -
      have "mset pq = add_mset (d, u) (mset pq')"
        using binary_heap.pop_laws [OF _ _ take] "1.prems"(1) False unfolding search_ok_def by simp
      then show ?thesis by (metis lessI size_add_mset size_mset)
    qed
    show ?thesis
    proof (cases "dist_of L u < Fin d")
      case True
      have "airway_loop b name to L pq = airway_loop b name to L pq'"
        by (subst airway_loop.simps) (simp add: False take True)
      then show ?thesis using ih [OF _ drop_stale [OF "1.prems"(1) False take True] "1.prems"(2,3)] len by simp
    next
      case fresh: False
      note s = settle_ok [OF "1.prems"(1) False take fresh]
      show ?thesis
      proof (cases "u = to")
        case True
        have "airway_loop b name to L pq = Some L"
          by (subst airway_loop.simps) (simp add: False take fresh True [symmetric])
        moreover have "expansion_done b name origin to S L"
          by (rule expansion_doneI [OF "1.prems"]) (use s(5,6) True in auto)
        ultimately show ?thesis by blast
      next
        case other: False
        let ?es = "out_edges (gb_graph b) u"
        obtain L' pq'' where fold: "foldl (relax_airway b name u d) (L, pq') ?es = (L', pq'')" by fastforce
        have uV: "u \<in> ?V" using "1.prems"(1) s(5) by (auto simp: search_ok_def)
        have w: "\<forall>e \<in> set ?es. 0 \<le> ge_distance_nm e" using nn uV by (simp add: edges_nonneg_def)
        from relax_all [OF g w subset_refl s(1) s(4) s(3) fold]
        have r: "search_ok b name origin (u # S) L' pq''" and same: "\<forall>x \<in> set (u # S). L' x = L x"
          and less: "\<forall>v. dist_of L' v \<le> dist_of L v"
          and edges: "\<forall>e \<in> set ?es. on_airway b name e \<longrightarrow> dist_of L' (edge_to e) \<le> Fin (d + ge_distance_nm e)" by blast+
        have dl: "label_dist L' x = label_dist L x" if "x \<in> set (u # S)" for x
          using same that by (simp only: label_dist_def)
        have "settled_closed b name (u # S) L'"
          unfolding settled_closed_def
        proof (intro ballI allI impI)
          fix x v k assume x: "x \<in> set (u # S)" and h: "airway_hop b name x v k"
          show "dist_of L' v \<le> Fin (label_dist L' x + k)"
          proof (cases "x = u")
            case True
            then show ?thesis using edges h s(3) dl [of u] by (auto simp: airway_hop_def)
          next
            case False
            then have "dist_of L v \<le> Fin (label_dist L x + k)" using "1.prems"(2) x h by (auto simp: settled_closed_def)
            then show ?thesis using less dl [OF x] by (metis order_trans)
          qed
        qed
        moreover have "card (?V - set (u # S)) < card (?V - set S)"
          by (rule psubset_card_mono) (use fin uV s(2) in auto)
        moreover have "airway_loop b name to L pq = airway_loop b name to L' pq''"
          by (subst airway_loop.simps) (simp add: False take fresh other fold)
        moreover have "to \<notin> set (u # S)" using other "1.prems"(3) by auto
        ultimately show ?thesis using ih [OF _ r] by simp
      qed
    qed
  qed
qed

section \<open>What the labels say\<close>

lemma done_lower_bound:
  assumes dn: "expansion_done b name origin to S L" and nn: "edges_nonneg (gb_graph b)" and g: "graph_ok (gb_graph b)"
    and p: "airway_path b name origin vs d"
  shows "0 \<le> d \<and> is_vertex (gb_graph b) (last (origin # vs)) \<and>
    (last (origin # vs) \<in> set S \<and> label_dist L (last (origin # vs)) \<le> d \<or>
     (\<exists>y \<in> dom L - set S. label_dist L y \<le> d))"
  using p
proof (induction vs arbitrary: d rule: rev_induct)
  case Nil
  have "origin \<in> dom L" "label_dist L origin = 0" "is_vertex (gb_graph b) origin"
    using dn by (auto simp: expansion_done_def label_dist_def)
  then show ?case using Nil by (cases "origin \<in> set S") (auto intro!: bexI [of _ origin])
next
  case (snoc v vs)
  obtain w d' where h: "airway_path b name origin vs d'" "airway_hop b name (last (origin # vs)) v w" "d = d' + w"
    by (rule airway_path_snocE [OF snoc.prems]) auto
  let ?u = "last (origin # vs)"
  note ih = snoc.IH [OF h(1)]
  obtain e where e: "e \<in> set (out_edges (gb_graph b) ?u)" "edge_to e = v" "ge_distance_nm e = w"
    using h(2) by (auto simp: airway_hop_def)
  have w: "0 \<le> w" using nn ih e by (auto simp: edges_nonneg_def)
  have v: "is_vertex (gb_graph b) v" using out_edges_vertex [OF g e(1)] e(2) by simp
  have "v \<in> set S \<and> label_dist L v \<le> d \<or> (\<exists>y \<in> dom L - set S. label_dist L y \<le> d)"
  proof (cases "?u \<in> set S \<and> label_dist L ?u \<le> d'")
    case True
    then have "dist_of L v \<le> Fin (label_dist L ?u + w)" using dn h(2) by (auto simp: expansion_done_def settled_closed_def)
    then have "v \<in> dom L" "label_dist L v \<le> label_dist L ?u + w"
      by (auto simp: dist_of_def label_dist_def split: option.splits)
    moreover have "label_dist L ?u + w \<le> d" using True h(3) by linarith
    ultimately have "v \<in> dom L \<and> label_dist L v \<le> d" by linarith
    then show ?thesis by blast
  next
    case False
    then obtain y where "y \<in> dom L - set S" "label_dist L y \<le> d'" using ih by blast
    then show ?thesis using w h(3) by (intro disjI2 bexI [of _ y]) linarith+
  qed
  then show ?case using v ih w h(3) by simp
qed

lemma chain_walk:
  assumes dn: "expansion_done b name origin to S L"
  shows "settled_order L origin T \<Longrightarrow> set T \<subseteq> set S \<Longrightarrow> v \<in> set T \<Longrightarrow>
    \<exists>vs. airway_path b name origin vs (label_dist L v) \<and> last (origin # vs) = v \<and>
      (\<forall>acc. airway_chain L origin v acc = Some (acc @ rev vs))"
proof (induction T arbitrary: v)
  case (Cons x T)
  show ?case
  proof (cases "v = x \<and> v \<noteq> origin")
    case True
    then have vd: "v \<in> dom L" using dn Cons.prems by (auto simp: expansion_done_def)
    then have lab: "label_ok b name S L v" "is_vertex (gb_graph b) v" using dn True by (auto simp: expansion_done_def)
    have "label_prev L v \<in> set T" using True Cons.prems by simp
    with Cons.IH Cons.prems obtain us where us: "airway_path b name origin us (label_dist L (label_prev L v))"
        "last (origin # us) = label_prev L v" "\<forall>acc. airway_chain L origin (label_prev L v) acc = Some (acc @ rev us)"
      by (metis set_subset_Cons settled_order.simps(2) subset_trans)
    have "airway_path b name origin (us @ [v]) (label_dist L v)"
      using airway_path_snoc [OF us(1), of v "label_dist L v - label_dist L (label_prev L v)"] us(2) lab(1)
      by (simp add: label_ok_def)
    moreover have "airway_chain L origin v acc = Some (acc @ rev (us @ [v]))" for acc
    proof -
      have "v \<noteq> - 1" using lab(2) by (simp add: is_vertex_def)
      then show ?thesis using True vd us(3) by (subst airway_chain.simps) (auto simp: label_prev_def)
    qed
    ultimately show ?thesis by (intro exI [of _ "us @ [v]"]) simp
  next
    case False
    show ?thesis
    proof (cases "v = origin")
      case True
      have "label_dist L origin = 0" using dn by (auto simp: expansion_done_def label_dist_def)
      moreover have "airway_chain L origin origin acc = Some (acc @ rev [])" for acc
        by (subst airway_chain.simps) simp
      ultimately show ?thesis using True airway_path.stay [of b name origin] by (intro exI [of _ "[]"]) simp
    next
      case False
      then have "v \<in> set T" using Cons.prems \<open>\<not> (v = x \<and> v \<noteq> origin)\<close> by auto
      then show ?thesis using Cons by simp
    qed
  qed
qed simp

section \<open>The expansion\<close>

text \<open>Walks from one vertex to another.\<close>

definition airway_route :: "graph_builder \<Rightarrow> string \<Rightarrow> int \<Rightarrow> int \<Rightarrow> int list \<Rightarrow> real \<Rightarrow> bool" where
  "airway_route b name origin to vs d \<longleftrightarrow> airway_path b name origin vs d \<and> last (origin # vs) = to"

lemma search_start:
  assumes "is_vertex (gb_graph b) origin"
  shows "search_ok b name origin [] [origin \<mapsto> (0, - 1)] (heap_push (\<lambda>q. q) [] (0, origin))"
proof -
  have "heap_ordered (\<lambda>q :: real \<times> int. q) []" by (rule binary_heap.ok_empty)
  note h = binary_heap.ok_push [OF this, of "(0, origin)"] binary_heap.nodes_push [OF this, of "(0, origin)"]
  have "queue_ok [] [origin \<mapsto> (0, - 1)] (mset (heap_push (\<lambda>q. q) [] (0, origin)))"
    unfolding h(2) by (auto simp: queue_ok_def label_dist_def)
  then show ?thesis using h(1) assms by (simp add: search_ok_def label_dist_def)
qed

lemma expand_airway_spec:
  assumes g: "graph_ok (gb_graph b)" and nn: "edges_nonneg (gb_graph b)" and o: "is_vertex (gb_graph b) origin"
  shows "\<exists>chain. expand_airway b name origin to = Some chain \<and>
    (if chain = [] then origin = to \<or> (\<nexists>vs d. airway_route b name origin to vs d)
     else \<exists>d. airway_route b name origin to chain d \<and> (\<forall>vs d'. airway_route b name origin to vs d' \<longrightarrow> d \<le> d'))"
proof -
  have cl: "settled_closed b name [] [origin \<mapsto> (0, - 1)]" by (simp add: settled_closed_def)
  obtain L S where loop: "airway_loop b name to [origin \<mapsto> (0, - 1)] (heap_push (\<lambda>q. q) [] (0, origin)) = Some L"
    and dn: "expansion_done b name origin to S L"
    using airway_loop_done [OF g nn search_start [OF o] cl, of to] by auto
  have notS: "to \<notin> set S" using dn by (simp add: expansion_done_def)
  have low: "airway_route b name origin to vs d \<Longrightarrow> to \<in> dom L \<and> label_dist L to \<le> d" for vs d
  proof -
    assume r: "airway_route b name origin to vs d"
    then obtain y where y: "y \<in> dom L - set S" "label_dist L y \<le> d"
      using done_lower_bound [OF dn nn g, of vs d] notS by (auto simp: airway_route_def)
    then have "to \<in> dom L" using dn unfolding expansion_done_def by (metis DiffD1 DiffD2 subsetD)
    moreover have "label_dist L to \<le> label_dist L y"
      using dn calculation y(1) unfolding expansion_done_def by (simp split: if_splits)
    ultimately show ?thesis using y(2) by linarith
  qed
  show ?thesis
  proof (cases "to \<in> dom L")
    case False
    then have "L to = None" by (cases "L to") auto
    then have "expand_airway b name origin to = Some []"
      by (simp add: expand_airway_def loop dist_of_def)
    then show ?thesis using low False by fastforce
  next
    case True
    have fin: "dist_of L to \<noteq> Infinity" using True by (simp add: dist_of_dom)
    have ord: "settled_order L origin S" using dn by (simp add: expansion_done_def)
    show ?thesis
    proof (cases "to = origin")
      case True
      have "airway_chain L origin origin [] = Some []" by (subst airway_chain.simps) simp
      then have "expand_airway b name origin to = Some []" using True fin loop by (simp add: expand_airway_def)
      then show ?thesis using True by (intro exI [of _ "[]"]) simp
    next
      case other: False
      have "label_ok b name S L to" "settled_order L origin (to # S)" "is_vertex (gb_graph b) to"
        using dn True other by (auto simp: expansion_done_def label_ok_def)
      then obtain us where us: "airway_path b name origin us (label_dist L (label_prev L to))"
          "last (origin # us) = label_prev L to" "\<forall>acc. airway_chain L origin (label_prev L to) acc = Some (acc @ rev us)"
        using chain_walk [OF dn ord subset_refl, of "label_prev L to"] by (auto simp: label_ok_def)
      have hop: "airway_hop b name (label_prev L to) to (label_dist L to - label_dist L (label_prev L to))"
        using \<open>label_ok b name S L to\<close> by (simp add: label_ok_def)
      have path: "airway_route b name origin to (us @ [to]) (label_dist L to)"
        using airway_path_snoc [OF us(1), of to] us(2) hop by (fastforce simp: airway_route_def)
      have "to \<noteq> - 1" using \<open>is_vertex (gb_graph b) to\<close> by (simp add: is_vertex_def)
      then have "airway_chain L origin to [] = Some ([to] @ rev us)"
        using us(3) True other by (subst airway_chain.simps) (auto simp: label_prev_def)
      then have "expand_airway b name origin to = Some (us @ [to])"
        using fin by (simp add: expand_airway_def loop)
      then show ?thesis using path low by auto
    qed
  qed
qed

end
