(* ===== verification/RouteParserCorrect.thy ===== *)
theory RouteParserCorrect
  imports AirwayExpansion RouteAssemblerCorrect ProcedureCache
begin

text \<open>
  What \<^verbatim>\<open>io/navdb/parse.cc\<close> promises: a string it accepts is a filed route between its two airports, its fixes
  are those the tokens name and its airway legs run along the airways; and it always answers.
\<close>

section \<open>Resolving waypoints\<close>

text \<open>The vertex a token names: by ident and region, or the one of the ident nearest to the point before.\<close>

definition names_fix :: "graph_builder \<Rightarrow> point \<Rightarrow> string \<Rightarrow> int \<Rightarrow> bool" where
  "names_fix b ref tok v \<longleftrightarrow>
     0 \<le> v \<and> v < gb_first_airport_vertex b \<and>
     (if CHR ''/'' \<in> set tok then
        ident_of b v = \<lparr>id_ident = takeWhile (\<lambda>c. c \<noteq> CHR ''/'') tok, id_icao_code = tl (dropWhile (\<lambda>c. c \<noteq> CHR ''/'') tok)\<rparr>
      else vertex_name b v = tok \<and>
        (\<forall>u. 0 \<le> u \<longrightarrow> u < gb_first_airport_vertex b \<longrightarrow> vertex_name b u = tok \<longrightarrow>
           distance_to ref (coord_of (gb_graph b) v) \<le> distance_to ref (coord_of (gb_graph b) u)))"

lemma nearer_fold:
  assumes "\<forall>v \<in> set vs. 0 \<le> v \<and> \<not> is_airport b v"
  shows "case foldl (nearer_step b ref) (- 1, 0) vs of (best, best_d) \<Rightarrow>
    if vs = [] then best = - 1
    else best \<in> set vs \<and> best_d = distance_to ref (coord_of (gb_graph b) best) \<and>
      (\<forall>u \<in> set vs. best_d \<le> distance_to ref (coord_of (gb_graph b) u))"
  using assms
proof (induction vs rule: rev_induct)
  case (snoc v vs)
  obtain best best_d where s: "foldl (nearer_step b ref) (- 1, 0) vs = (best, best_d)" by fastforce
  have v: "\<not> is_airport b v" "0 \<le> v" using snoc.prems by auto
  have ih: "if vs = [] then best = - 1
    else best \<in> set vs \<and> best_d = distance_to ref (coord_of (gb_graph b) best) \<and>
      (\<forall>u \<in> set vs. best_d \<le> distance_to ref (coord_of (gb_graph b) u))"
    using snoc.IH snoc.prems s by simp
  show ?case
  proof (cases "vs = []")
    case True
    then show ?thesis using v by (simp add: nearer_step_def Let_def)
  next
    case False
    then have b: "0 \<le> best" using ih snoc.prems by auto
    show ?thesis
      using ih b v False s by (auto simp: nearer_step_def Let_def)
  qed
qed simp

lemma parse_fix_names:
  assumes "network_ok b" and "0 \<le> rf_vertex (parse_fix b tok ref)"
  shows "names_fix b ref tok (rf_vertex (parse_fix b tok ref))"
proof -
  have ix: "indexed b" using assms(1) by (simp add: network_ok_def)
  show ?thesis
  proof (cases "CHR ''/'' \<in> set tok")
    case True
    let ?i = "\<lparr>id_ident = takeWhile (\<lambda>c. c \<noteq> CHR ''/'') tok, id_icao_code = tl (dropWhile (\<lambda>c. c \<noteq> CHR ''/'') tok)\<rparr>"
    have v: "rf_vertex (parse_fix b tok ref) = vertex_by_ident b ?i" "0 \<le> vertex_by_ident b ?i"
      using assms(2) True by (auto simp: parse_fix_def Let_def no_fix_def split: if_splits)
    then show ?thesis using network_by_ident [OF assms(1) v(2)] True by (simp add: names_fix_def)
  next
    case False
    let ?vs = "filter (\<lambda>v. id_ident (ident_of b v) = tok) [0 .. gb_first_airport_vertex b - 1]"
    obtain best best_d where s: "foldl (nearer_step b ref) (- 1, 0) ?vs = (best, best_d)" by fastforce
    have v: "rf_vertex (parse_fix b tok ref) = best" "0 \<le> best"
      using assms(2) False s by (auto simp: parse_fix_def Let_def no_fix_def vertices_by_ident_spec [OF ix] split: if_splits)
    have "if ?vs = [] then best = - 1
      else best \<in> set ?vs \<and> best_d = distance_to ref (coord_of (gb_graph b) best) \<and>
        (\<forall>u \<in> set ?vs. best_d \<le> distance_to ref (coord_of (gb_graph b) u))"
      using nearer_fold [of ?vs b ref] s by (auto simp: is_airport_def)
    then have "best \<in> set ?vs" "\<forall>u \<in> set ?vs. distance_to ref (coord_of (gb_graph b) best) \<le> distance_to ref (coord_of (gb_graph b) u)"
      using v(2) by (auto split: if_splits)
    then show ?thesis using v(1) False by (auto simp: names_fix_def vertex_name_def)
  qed
qed

section \<open>The route so far\<close>

definition hop_leg :: "graph_builder \<Rightarrow> (int \<times> int) \<times> string \<Rightarrow> route_leg" where
  "hop_leg b h = (case h of ((u, v), via) \<Rightarrow>
     leg_of (vertex_name b u) (vertex_name b v) via (distance_to (coord_of (gb_graph b) u) (coord_of (gb_graph b) v)))"

definition hop_legs :: "graph_builder \<Rightarrow> int list \<Rightarrow> string list \<Rightarrow> route_leg list" where
  "hop_legs b vs vias = map (hop_leg b) (zip (zip vs (tl vs)) vias)"

definition partial_route :: "graph_builder \<Rightarrow> int list \<Rightarrow> string list \<Rightarrow> route" where
  "partial_route b vs vias =
     route_empty\<lparr>ro_points := map (fix_point b (gb_graph b)) vs, ro_legs := hop_legs b vs vias,
       ro_total_distance_nm := sum_list (map rl_distance_nm (hop_legs b vs vias))\<rparr>"

lemma hop_legs_snoc:
  assumes "length vs = Suc (length vias)"
  shows "hop_legs b (vs @ [v]) (vias @ [via]) = hop_legs b vs vias @ [hop_leg b ((last vs, v), via)]"
proof -
  have "vs \<noteq> []" using assms by auto
  have "zip (vs @ [v]) (tl (vs @ [v])) = zip vs (tl vs) @ [(last vs, v)]"
    using \<open>vs \<noteq> []\<close> by (induction vs) (auto simp: neq_Nil_conv split: list.split)
  then show ?thesis using assms by (simp add: hop_legs_def)
qed

lemma hop_legs_names:
  assumes "length vs = Suc (length vias)"
  shows "map rl_from (hop_legs b vs vias) = map (vertex_name b) (butlast vs)"
    "map rl_to (hop_legs b vs vias) = map (vertex_name b) (tl vs)" "map rl_via (hop_legs b vs vias) = vias"
    "\<forall>l \<in> set (hop_legs b vs vias). 0 \<le> rl_distance_nm l"
proof -
  have sel: "rl_from (hop_leg b ((u, v), via)) = vertex_name b u" "rl_to (hop_leg b ((u, v), via)) = vertex_name b v"
    "rl_via (hop_leg b ((u, v), via)) = via" "0 \<le> rl_distance_nm (hop_leg b ((u, v), via))" for u v via
    by (simp_all add: hop_leg_def)
  have l: "length (zip vs (tl vs)) = length vias" using assms by simp
  have "map rl_from (hop_legs b vs vias) = map (vertex_name b) (map fst (map fst (zip (zip vs (tl vs)) vias)))"
    "map rl_to (hop_legs b vs vias) = map (vertex_name b) (map snd (map fst (zip (zip vs (tl vs)) vias)))"
    "map rl_via (hop_legs b vs vias) = map snd (zip (zip vs (tl vs)) vias)"
    by (simp_all add: hop_legs_def hop_leg_def split: prod.split)
  moreover have "map fst (zip vs (tl vs)) = butlast vs" "map snd (zip vs (tl vs)) = tl vs"
    by (simp_all add: map_fst_zip_take map_snd_zip_take butlast_conv_take)
  ultimately show "map rl_from (hop_legs b vs vias) = map (vertex_name b) (butlast vs)"
    "map rl_to (hop_legs b vs vias) = map (vertex_name b) (tl vs)" "map rl_via (hop_legs b vs vias) = vias"
    using l by (simp_all only: map_fst_zip map_snd_zip)
  show "\<forall>l \<in> set (hop_legs b vs vias). 0 \<le> rl_distance_nm l"
    unfolding hop_legs_def using sel(4) by auto
qed

section \<open>The enroute grammar\<close>

text \<open>
  What the loop reads: fixes joined by \<open>DCT\<close> or an airway, with the vertices visited and the connector of each hop.
  An airway leg visits the fixes of a shortest walk along the airway.
\<close>

inductive filed ::
  "graph_builder \<Rightarrow> airway_index \<Rightarrow> point \<Rightarrow> string list \<Rightarrow> int list \<Rightarrow> string list \<Rightarrow> bool" for b index start where
  first: "names_fix b start tok v \<Longrightarrow> filed b index start [tok] [v] []"
| direct: "filed b index start toks vs vias \<Longrightarrow> names_fix b (coord_of (gb_graph b) (last vs)) tok v \<Longrightarrow>
    filed b index start (toks @ [dct_token, tok]) (vs @ [v]) (vias @ [dct_token])"
| airway: "filed b index start toks vs vias \<Longrightarrow> names_fix b (coord_of (gb_graph b) (last vs)) tok v \<Longrightarrow>
    awy \<noteq> dct_token \<Longrightarrow> find_airway index awy \<noteq> None \<Longrightarrow> chain \<noteq> [] \<Longrightarrow> airway_route b awy (last vs) v chain d \<Longrightarrow>
    (\<forall>ws d'. airway_route b awy (last vs) v ws d' \<longrightarrow> d \<le> d') \<Longrightarrow>
    filed b index start (toks @ [awy, tok]) (vs @ chain) (vias @ replicate (length chain) awy)"

lemma filed_length: "filed b index start toks vs vias \<Longrightarrow> length vs = Suc (length vias)"
  by (induction rule: filed.induct) simp_all

lemma filed_nonempty: "filed b index start toks vs vias \<Longrightarrow> vs \<noteq> []"
  using filed_length by fastforce

lemma airway_path_vertices:
  "airway_path b name u vs d \<Longrightarrow> graph_ok (gb_graph b) \<Longrightarrow> v \<in> set vs \<Longrightarrow> is_vertex (gb_graph b) v"
  by (induction rule: airway_path.induct) (auto simp: airway_hop_def dest: out_edges_vertex)

lemma filed_vertices:
  assumes "network_ok b"
  shows "filed b index start toks vs vias \<Longrightarrow> \<forall>v \<in> set vs. is_vertex (gb_graph b) v"
proof (induction rule: filed.induct)
  case (first tok v)
  then show ?case using assms by (auto simp: names_fix_def is_vertex_def network_ok_def indexed_def vertex_count_def)
next
  case (direct toks vs vias tok v)
  then show ?case using assms by (auto simp: names_fix_def is_vertex_def network_ok_def indexed_def vertex_count_def)
next
  case (airway toks vs vias tok v awy chain d)
  have g: "graph_ok (gb_graph b)" using assms by (simp add: network_ok_def)
  have "airway_path b awy (last vs) chain d" using airway.hyps(6) by (simp add: airway_route_def)
  from airway_path_vertices [OF this g] airway.IH show ?case by auto
qed

section \<open>The loop\<close>

text \<open>
  The three states of the loop: nothing read yet; just after a fix; after a connector.
\<close>

definition at_fix :: "graph_builder \<Rightarrow> int list \<Rightarrow> string list \<Rightarrow> parse_state \<Rightarrow> bool" where
  "at_fix b vs vias st \<longleftrightarrow>
     ps_vertices st = vs \<and> ps_route st = partial_route b vs vias \<and> ps_prev st = last vs \<and>
     ps_ref st = coord_of (gb_graph b) (last vs)"

inductive loop_state ::
  "graph_builder \<Rightarrow> airway_index \<Rightarrow> point \<Rightarrow> string list \<Rightarrow> parse_state \<Rightarrow> bool" for b index start where
  fresh: "ps_expect_fix st \<Longrightarrow> ps_connector st = [] \<Longrightarrow> ps_prev st < 0 \<Longrightarrow> ps_vertices st = [] \<Longrightarrow>
    ps_route st = route_empty \<Longrightarrow> ps_ref st = start \<Longrightarrow> loop_state b index start [] st"
| after_fix: "\<not> ps_expect_fix st \<Longrightarrow> ps_connector st = [] \<Longrightarrow> filed b index start toks vs vias \<Longrightarrow> at_fix b vs vias st \<Longrightarrow>
    loop_state b index start toks st"
| connector: "ps_expect_fix st \<Longrightarrow> tok \<noteq> [] \<Longrightarrow> ps_connector st = tok \<Longrightarrow> filed b index start toks vs vias \<Longrightarrow>
    at_fix b vs vias st \<Longrightarrow> tok = dct_token \<or> find_airway index tok \<noteq> None \<Longrightarrow>
    loop_state b index start (toks @ [tok]) st"

lemma at_fix_fly:
  assumes "at_fix b vs vias st" and "length vs = Suc (length vias)"
  shows "at_fix b (vs @ [v]) (vias @ [via]) (fly_to b via st v) \<and> ps_connector (fly_to b via st v) = ps_connector st \<and>
    ps_expect_fix (fly_to b via st v) = ps_expect_fix st"
proof -
  have s: "ps_vertices st = vs" "ps_route st = partial_route b vs vias" "ps_prev st = last vs"
    using assms(1) by (simp_all add: at_fix_def)
  show ?thesis
    by (simp add: at_fix_def fly_to_def add_point_def push_leg_def s partial_route_def hop_legs_snoc [OF assms(2)] hop_leg_def)
qed

lemma at_fix_fly_all:
  "at_fix b vs vias st \<Longrightarrow> length vs = Suc (length vias) \<Longrightarrow>
   at_fix b (vs @ chain) (vias @ replicate (length chain) via) (foldl (fly_to b via) st chain)"
proof (induction chain arbitrary: vs vias st)
  case (Cons v chain)
  have "at_fix b (vs @ [v]) (vias @ [via]) (fly_to b via st v)" using at_fix_fly [OF Cons.prems] by blast
  from Cons.IH [OF this] Cons.prems show ?case by simp
qed simp

lemma network_nonneg: "network_ok b \<Longrightarrow> edges_nonneg (gb_graph b)"
  unfolding edges_nonneg_def
proof (intro allI impI ballI)
  fix u e assume net: "network_ok b" and u: "is_vertex (gb_graph b) u" "e \<in> set (out_edges (gb_graph b) u)"
  then have "earth_radius_nm * chord (project_unit_sphere (coord_of (gb_graph b) u))
      (project_unit_sphere (coord_of (gb_graph b) (edge_to e))) \<le> ge_distance_nm e"
    by (auto simp: network_ok_def edges_metric_def)
  moreover have "0 \<le> earth_radius_nm" by (simp add: earth_radius_nm_def)
  ultimately show "0 \<le> ge_distance_nm e" using chord_nonneg by (meson mult_nonneg_nonneg order_trans)
qed

lemma waypoint_step:
  assumes net: "network_ok b" and st: "loop_state b index start toks st" and ex: "ps_expect_fix st"
  shows "case parse_waypoint b st tok of None \<Rightarrow> False
    | Some (Inl e) \<Rightarrow> err_code e = KRouteParseError
    | Some (Inr st') \<Rightarrow> loop_state b index start (toks @ [tok]) st'"
proof (cases "rf_vertex (parse_fix b tok (ps_ref st)) < 0")
  case True
  then show ?thesis by (simp add: parse_waypoint_def Let_def parse_error_def)
next
  case False
  define v where "v = rf_vertex (parse_fix b tok (ps_ref st))"
  have v: "\<not> v < 0" using False by (simp add: v_def)
  have names: "names_fix b (ps_ref st) tok v" unfolding v_def by (rule parse_fix_names [OF net]) (use False in simp)
  have nn: "edges_nonneg (gb_graph b)" by (rule network_nonneg [OF net])
  have g: "graph_ok (gb_graph b)" using net by (simp add: network_ok_def)
  note pw = parse_waypoint_def [of b st tok, folded v_def, unfolded Let_def, folded v_def]
  from st show ?thesis
  proof cases
    case fresh
    have a: "at_fix b [v] [] ((add_point b v st)\<lparr>ps_connector := [], ps_expect_fix := False\<rparr>)"
      by (simp add: at_fix_def add_point_def fresh partial_route_def hop_legs_def route_empty_def)
    have "filed b index start [tok] [v] []" using names fresh(7) by (auto intro: filed.first)
    then have "loop_state b index start [tok] ((add_point b v st)\<lparr>ps_connector := [], ps_expect_fix := False\<rparr>)"
      by (rule loop_state.after_fix [rotated 2]) (use a in simp_all)
    then show ?thesis using v fresh by (simp add: pw)
  next
    case after_fix
    then show ?thesis using ex by simp
  next
    case (connector c toks0 vs vias)
    have len: "length vs = Suc (length vias)" by (rule filed_length [OF connector(5)])
    have isv: "is_vertex (gb_graph b) (last vs)"
      using filed_vertices [OF net connector(5)] filed_nonempty [OF connector(5)] by simp
    have prev: "ps_prev st = last vs" "ps_ref st = coord_of (gb_graph b) (last vs)"
      using connector(6) by (simp_all add: at_fix_def)
    have p: "\<not> ps_prev st < 0" using isv prev(1) by (simp add: is_vertex_def)
    have n: "names_fix b (coord_of (gb_graph b) (last vs)) tok v" using names prev(2) by simp
    show ?thesis
    proof (cases "c = dct_token")
      case True
      let ?st = "(fly_to b dct_token st v)\<lparr>ps_connector := [], ps_expect_fix := False\<rparr>"
      have "at_fix b (vs @ [v]) (vias @ [dct_token]) ?st" using at_fix_fly [OF connector(6) len] by (simp add: at_fix_def)
      moreover have "filed b index start (toks @ [tok]) (vs @ [v]) (vias @ [dct_token])"
        using filed.direct [OF connector(5) n] True connector(1) by simp
      ultimately have "loop_state b index start (toks @ [tok]) ?st" by (intro loop_state.after_fix) simp_all
      moreover have "parse_waypoint b st tok = Some (Inr ?st)" using v p True connector(4) by (simp add: pw)
      ultimately show ?thesis by simp
    next
      case False
      have air: "find_airway index c \<noteq> None" using connector(7) False by simp
      obtain chain where chain: "expand_airway b c (last vs) v = Some chain"
        and ch: "if chain = [] then last vs = v \<or> (\<nexists>ws d. airway_route b c (last vs) v ws d)
           else \<exists>d. airway_route b c (last vs) v chain d \<and> (\<forall>ws d'. airway_route b c (last vs) v ws d' \<longrightarrow> d \<le> d')"
        using expand_airway_spec [OF g nn isv] by blast
      have pw': "parse_waypoint b st tok =
          (if chain = [] then
             Some (Inl (parse_error (''airway '' @ quoted c @ '' does not connect '' @ vertex_name b (last vs) @ '' to '' @ tok)))
           else Some (Inr ((foldl (fly_to b c) st chain)\<lparr>ps_connector := [], ps_expect_fix := False\<rparr>)))"
        using v p False connector(3,4) chain prev(1) by (simp add: pw)
      show ?thesis
      proof (cases "chain = []")
        case True
        then show ?thesis by (simp add: pw' parse_error_def)
      next
        case some: False
        let ?st = "(foldl (fly_to b c) st chain)\<lparr>ps_connector := [], ps_expect_fix := False\<rparr>"
        obtain d where d: "airway_route b c (last vs) v chain d" "\<forall>ws d'. airway_route b c (last vs) v ws d' \<longrightarrow> d \<le> d'"
          using ch some by auto
        have "at_fix b (vs @ chain) (vias @ replicate (length chain) c) ?st"
          using at_fix_fly_all [OF connector(6) len, of chain c] by (simp add: at_fix_def)
        moreover have "filed b index start (toks @ [tok]) (vs @ chain) (vias @ replicate (length chain) c)"
          using filed.airway [OF connector(5) n False air some d] connector(1) by simp
        ultimately have "loop_state b index start (toks @ [tok]) ?st" by (intro loop_state.after_fix) simp_all
        then show ?thesis by (simp add: pw' some)
      qed
    qed
  qed
qed

lemma connector_step:
  assumes st: "loop_state b index start toks st" and ex: "\<not> ps_expect_fix st" and tok: "to_upper tok = tok" "tok \<noteq> []"
  shows "case parse_connector index st tok of Inl e \<Rightarrow> err_code e = KRouteParseError
    | Inr st' \<Rightarrow> loop_state b index start (toks @ [tok]) st'"
proof -
  from st obtain vs vias where f: "filed b index start toks vs vias" "at_fix b vs vias st"
    using ex by cases auto
  have "loop_state b index start (toks @ [tok]) (st\<lparr>ps_connector := tok, ps_expect_fix := True\<rparr>)"
    if "tok = dct_token \<or> find_airway index tok \<noteq> None"
    by (rule loop_state.connector [OF _ tok(2) _ f(1) _ that]) (use f(2) in \<open>simp_all add: at_fix_def\<close>)
  moreover have "parse_connector index st tok = Inr (st\<lparr>ps_connector := tok, ps_expect_fix := True\<rparr>)"
    if "tok = dct_token \<or> find_airway index tok \<noteq> None"
    using that by (auto simp: parse_connector_def tok(1))
  moreover have "\<exists>msg. parse_connector index st tok = Inl (parse_error msg)"
    if "\<not> (tok = dct_token \<or> find_airway index tok \<noteq> None)"
    using that by (simp add: parse_connector_def tok(1)) blast
  ultimately show ?thesis
    by (cases "tok = dct_token \<or> find_airway index tok \<noteq> None") (auto simp: parse_error_def)
qed

lemma loop_run:
  assumes net: "network_ok b"
  shows "loop_state b index start toks st \<Longrightarrow> list_all is_token rest \<Longrightarrow>
    case parse_tokens b index rest st of None \<Rightarrow> False
    | Some (Inl e) \<Rightarrow> err_code e = KRouteParseError
    | Some (Inr st') \<Rightarrow> loop_state b index start (toks @ rest) st'"
proof (induction rest arbitrary: toks st)
  case (Cons tok rest)
  have tok: "to_upper tok = tok" "tok \<noteq> []" using Cons.prems(2) by (simp_all add: is_token_def)
  let ?step = "if ps_expect_fix st then parse_waypoint b st tok else Some (parse_connector index st tok)"
  have s: "case ?step of None \<Rightarrow> False | Some (Inl e) \<Rightarrow> err_code e = KRouteParseError
    | Some (Inr st') \<Rightarrow> loop_state b index start (toks @ [tok]) st'"
    using waypoint_step [OF net Cons.prems(1), of tok] connector_step [OF Cons.prems(1) _ tok] by simp
  then obtain r where r: "?step = Some r" by (cases ?step) auto
  show ?case
  proof (cases r)
    case (Inl e)
    then show ?thesis using s r by simp
  next
    case (Inr st')
    then have "loop_state b index start (toks @ [tok]) st'" using s r by simp
    from Cons.IH [OF this, unfolded append_assoc append.simps] Cons.prems(2) show ?thesis using r Inr by simp
  qed
qed simp

section \<open>Closing the route\<close>

lemma phase_split:
  assumes "\<forall>l \<in> set ls. 0 \<le> rl_distance_nm l"
  shows "sum_list (map rl_distance_nm (filter P ls)) + sum_list (map rl_distance_nm (filter (\<lambda>l. \<not> P l \<and> Q l) ls))
    \<le> sum_list (map rl_distance_nm ls)"
    "0 \<le> sum_list (map rl_distance_nm (filter P ls))"
  using assms by (induction ls) auto

lemma designator_rewritten:
  assumes "list_all2 leg_rewritten (map (\<lambda>l. (l, split_designators (rl_via l))) ls) ls'"
    and "\<forall>l \<in> set ls. is_designator (rl_via l)"
  shows "map rl_via ls' = map rl_via ls"
proof -
  have "list_all2 (\<lambda>l l'. leg_rewritten (l, split_designators (rl_via l)) l') ls ls'"
    using assms(1) by (simp add: list_all2_map1)
  then show ?thesis
    using assms(2)
  proof (induction rule: list_all2_induct)
    case (Cons l ls l' ls')
    then have "split_designators (rl_via l) = [rl_via l]" using split_designators_single by simp
    with Cons show ?case by (auto simp: leg_rewritten_def split: if_splits)
  qed simp
qed

text \<open>Closing keeps points, legs and totals and splits the total.\<close>

lemma close_route_ok:
  assumes f: "legs_follow (ro_points r) (ro_legs r)" "ro_points r \<noteq> []"
    and d: "\<forall>l \<in> set (ro_legs r). 0 \<le> rl_distance_nm l" "sum_list (map rl_distance_nm (ro_legs r)) = ro_total_distance_nm r"
    and t: "ro_terminal_transition r = False" "ro_approach r = []" "ro_approach_options r = []"
    and v: "\<forall>l \<in> set (ro_legs r). is_designator (rl_via l)"
  shows "route_ok (pt_ident (hd (ro_points r))) (pt_ident (last (ro_points r))) (close_route r dep arr)"
    "ro_points (close_route r dep arr) = ro_points r"
    "map rl_via (ro_legs (close_route r dep arr)) = map rl_via (ro_legs r)"
    "map rl_distance_nm (ro_legs (close_route r dep arr)) = map rl_distance_nm (ro_legs r)"
    "ro_sid (close_route r dep arr) = ro_sid r" "ro_star (close_route r dep arr) = ro_star r"
proof -
  obtain filed_string ls where s: "build_route_string (pt_ident (hd (ro_points r))) (ro_legs r) = (filed_string, ls)" by fastforce
  note sel = route_string_legs [OF s]
  let ?r = "finalize_phase_split (r\<lparr>ro_route_string := filed_string, ro_legs := ls\<rparr>) dep arr"
  have c: "close_route r dep arr = ?r" using s f(2) by (simp add: close_route_def)
  have l: "ro_legs ?r = ls" "ro_points ?r = ro_points r" "ro_total_distance_nm ?r = ro_total_distance_nm r"
    "ro_sid ?r = ro_sid r" "ro_star ?r = ro_star r"
    by (simp_all add: finalize_phase_split_def Let_def)
  have "ls = snd (fold_legs (map (\<lambda>l. (l, split_designators (rl_via l))) (ro_legs r)))"
    using s by (auto simp: build_route_string_def split: prod.splits)
  then have rw: "list_all2 leg_rewritten (map (\<lambda>l. (l, split_designators (rl_via l))) (ro_legs r)) ls"
    using fold_legs_rewritten by simp
  show "ro_points (close_route r dep arr) = ro_points r" "ro_sid (close_route r dep arr) = ro_sid r"
    "ro_star (close_route r dep arr) = ro_star r" unfolding c l by simp_all
  show "map rl_via (ro_legs (close_route r dep arr)) = map rl_via (ro_legs r)"
    unfolding c l by (rule designator_rewritten [OF rw v])
  show "map rl_distance_nm (ro_legs (close_route r dep arr)) = map rl_distance_nm (ro_legs r)"
    unfolding c l by (rule sel(3))
  have nn: "\<forall>l \<in> set ls. 0 \<le> rl_distance_nm l"
    using d(1) sel(3) by (metis (no_types, lifting) imageE image_eqI list.set_map)
  note ps = phase_split(1) [OF nn, of "\<lambda>l. rl_via l = sid_token" "\<lambda>l. rl_via l = star_token"]
    phase_split(2) [OF nn, of "\<lambda>l. rl_via l = sid_token"] phase_split(2) [OF nn, of "\<lambda>l. rl_via l \<noteq> sid_token \<and> rl_via l = star_token"]
  have total: "sum_list (map rl_distance_nm ls) = ro_total_distance_nm r" using d(2) sel(3) by simp
  have "legs_follow (ro_points r) ls" using f(1) sel(1,2) by (simp add: legs_follow_def)
  moreover have "ro_dep_distance_nm ?r + ro_enroute_distance_nm ?r + ro_arr_distance_nm ?r = ro_total_distance_nm r \<and>
      0 \<le> ro_dep_distance_nm ?r \<and> 0 \<le> ro_enroute_distance_nm ?r \<and> 0 \<le> ro_arr_distance_nm ?r"
    using ps total by (simp add: finalize_phase_split_def Let_def)
  moreover have "ro_terminal_transition ?r = False" "ro_approach ?r = []" "ro_approach_options ?r = []"
    "ro_arr_connection ?r \<noteq> CkTerminalTransition"
    using t by (simp_all add: finalize_phase_split_def Let_def)
  ultimately show "route_ok (pt_ident (hd (ro_points r))) (pt_ident (last (ro_points r))) (close_route r dep arr)"
    unfolding c route_ok_def l using f(2) total by simp
qed

text \<open>The bracketed route before it is closed.\<close>

lemma bracketed:
  fixes b :: graph_builder
  assumes len: "length vs = Suc (length vias)" and fr: "fr_dep fr \<noteq> []" "fr_arr fr \<noteq> []"
  defines "r \<equiv> append_arrival b fr vs (prepend_departure b fr vs (partial_route b vs vias))"
  shows "ro_points r = airport_point b (fr_dep fr) # map (fix_point b (gb_graph b)) vs @ [airport_point b (fr_arr fr)]"
    "legs_follow (ro_points r) (ro_legs r)"
    "map rl_via (ro_legs r) = (if fr_dep_via_sid fr then sid_token else dct_token) # vias @
       [if fr_arr_via_star fr then star_token else dct_token]"
    "\<forall>l \<in> set (ro_legs r). 0 \<le> rl_distance_nm l" "sum_list (map rl_distance_nm (ro_legs r)) = ro_total_distance_nm r"
    "ro_terminal_transition r = False" "ro_approach r = []" "ro_approach_options r = []"
    "ro_sid r = fr_sid fr" "ro_star r = fr_star fr"
proof -
  have vs: "vs \<noteq> []" using len by auto
  note names = hop_legs_names [OF len, of b]
  have legs: "ro_legs r = leg_of (fr_dep fr) (vertex_name b (hd vs)) (if fr_dep_via_sid fr then sid_token else dct_token)
        (distance_to (pt_coord (airport_point b (fr_dep fr))) (coord_of (gb_graph b) (hd vs))) # hop_legs b vs vias @
      [leg_of (vertex_name b (last vs)) (fr_arr fr) (if fr_arr_via_star fr then star_token else dct_token)
        (distance_to (coord_of (gb_graph b) (last vs)) (pt_coord (airport_point b (fr_arr fr))))]"
    using fr by (simp add: r_def append_arrival_def prepend_departure_def push_leg_def partial_route_def Let_def)
  show pts: "ro_points r = airport_point b (fr_dep fr) # map (fix_point b (gb_graph b)) vs @ [airport_point b (fr_arr fr)]"
    using fr by (simp add: r_def append_arrival_def prepend_departure_def push_leg_def partial_route_def Let_def)
  show "map rl_via (ro_legs r) = (if fr_dep_via_sid fr then sid_token else dct_token) # vias @
      [if fr_arr_via_star fr then star_token else dct_token]"
    unfolding legs by (simp add: names)
  show "\<forall>l \<in> set (ro_legs r). 0 \<le> rl_distance_nm l" unfolding legs using names(4) by simp
  show "sum_list (map rl_distance_nm (ro_legs r)) = ro_total_distance_nm r"
    unfolding legs using fr
    by (simp add: r_def append_arrival_def prepend_departure_def push_leg_def partial_route_def Let_def)
  show "ro_terminal_transition r = False" "ro_approach r = []" "ro_approach_options r = []"
    "ro_sid r = fr_sid fr" "ro_star r = fr_star fr"
    using fr by (simp_all add: r_def append_arrival_def prepend_departure_def push_leg_def partial_route_def
        route_empty_def Let_def)
  have p: "map pt_ident (map (fix_point b (gb_graph b)) xs) = map (vertex_name b) xs" for xs
    by (simp add: fix_point_def)
  have froms: "map rl_from (ro_legs r) = fr_dep fr # map (vertex_name b) vs"
  proof -
    have "map (vertex_name b) (butlast vs) @ [vertex_name b (last vs)] = map (vertex_name b) vs"
      using vs by (metis append_butlast_last_id list.simps(8,9) map_append)
    then show ?thesis unfolding legs by (simp add: names)
  qed
  have tos: "map rl_to (ro_legs r) = map (vertex_name b) vs @ [fr_arr fr]"
  proof -
    have "vertex_name b (hd vs) # map (vertex_name b) (tl vs) = map (vertex_name b) vs"
      using vs by (metis list.collapse list.simps(9))
    then show ?thesis unfolding legs by (simp add: names)
  qed
  show "legs_follow (ro_points r) (ro_legs r)"
    unfolding legs_follow_def froms tos pts by (simp add: p fix_point_def airport_point_def butlast_append)
qed

section \<open>The frame\<close>

text \<open>The tokens from \<open>i\<close> up to \<open>end\<close>.\<close>

definition window :: "'a list \<Rightarrow> nat \<Rightarrow> nat \<Rightarrow> 'a list" where
  "window ts i e = take (e - i) (drop i ts)"

lemma window_hd: "i < e \<Longrightarrow> e \<le> length ts \<Longrightarrow> window ts i e = ts ! i # window ts (i + 1) e"
  by (simp add: window_def Cons_nth_drop_Suc [symmetric] take_Cons')

lemma window_last: "i < e \<Longrightarrow> e \<le> length ts \<Longrightarrow> window ts i e = window ts i (e - 1) @ [ts ! (e - 1)]"
proof -
  assume a: "i < e" "e \<le> length ts"
  then have "e - i = Suc (e - 1 - i)" "e - 1 - i < length (drop i ts)" "i + (e - 1 - i) = e - 1" "i \<le> length ts" by simp_all
  then show ?thesis unfolding window_def by (simp only: take_Suc_conv_app_nth nth_drop)
qed

text \<open>A procedure an airport publishes, read past the cache.\<close>

definition publishes :: "nav_database \<Rightarrow> string \<Rightarrow> procedure_type \<Rightarrow> string \<Rightarrow> bool" where
  "publishes db icao type name \<longleftrightarrow>
     (\<exists>cifp. procedures_of db icao = Inr (Some cifp) \<and>
        (\<exists>p \<in> set (cifp_procedures cifp). proc_type p = type \<and> proc_name p = name))"

text \<open>The tokens taken at either end, and what they leave for the loop.\<close>

definition dep_side :: "nav_database \<Rightarrow> route_frame \<Rightarrow> string list \<Rightarrow> bool" where
  "dep_side db fr pre \<longleftrightarrow>
     (if fr_dep_via_sid fr then
        pre = [sid_token] \<and> fr_sid fr = [] \<or> pre = [fr_sid fr] \<and> publishes db (fr_dep fr) Sid (fr_sid fr)
      else fr_sid fr = [] \<and> pre = (if fr_dep_explicit fr then [dct_token] else []))"

definition arr_side :: "nav_database \<Rightarrow> route_frame \<Rightarrow> string list \<Rightarrow> bool" where
  "arr_side db fr post \<longleftrightarrow>
     (if fr_arr_via_star fr then
        (\<exists>s. post \<in> {[s], [s, dct_token]} \<and>
           (s = star_token \<and> fr_star fr = [] \<or> s = fr_star fr \<and> publishes db (fr_arr fr) Star (fr_star fr)))
      else fr_star fr = [] \<and> post = (if fr_arr_explicit fr then [dct_token] else []))"

definition framed :: "nav_database \<Rightarrow> string list \<Rightarrow> route_frame \<Rightarrow> string list \<Rightarrow> string list \<Rightarrow> bool" where
  "framed db tokens fr pre post \<longleftrightarrow>
     hd tokens = fr_dep fr \<and> last tokens = fr_arr fr \<and> fr_dep fr \<noteq> [] \<and> fr_arr fr \<noteq> [] \<and>
     fr_i fr \<le> fr_end fr \<and> fr_end fr \<le> length tokens \<and>
     tokens = fr_dep fr # pre @ window tokens (fr_i fr) (fr_end fr) @ post @ [fr_arr fr] \<and>
     dep_side db fr pre \<and> arr_side db fr post"

text \<open>Each side looks at its own fields.\<close>

lemma arr_side_dep_update [simp]:
  "arr_side db (fr\<lparr>fr_i := i\<rparr>) = arr_side db fr" "arr_side db (fr\<lparr>fr_dep_via_sid := v\<rparr>) = arr_side db fr"
  "arr_side db (fr\<lparr>fr_sid := s\<rparr>) = arr_side db fr" "arr_side db (fr\<lparr>fr_dep_explicit := v\<rparr>) = arr_side db fr"
  by (simp_all add: arr_side_def fun_eq_iff)

lemma dep_side_arr_update [simp]:
  "dep_side db (fr\<lparr>fr_end := i\<rparr>) = dep_side db fr" "dep_side db (fr\<lparr>fr_arr_via_star := v\<rparr>) = dep_side db fr"
  "dep_side db (fr\<lparr>fr_star := s\<rparr>) = dep_side db fr" "dep_side db (fr\<lparr>fr_arr_explicit := v\<rparr>) = dep_side db fr"
  "dep_side db (fr\<lparr>fr_i := i\<rparr>) = dep_side db fr"
  by (simp_all add: dep_side_def fun_eq_iff)

lemma airport_has_procedure_ok:
  assumes "cache_holds db" and "airport_has_procedure db icao name type = (r, db')"
  shows "same_database db db'" "cache_holds db'" "\<And>e. r = Inl e \<Longrightarrow> procedures_of db icao = Inl e"
    "r = Inr True \<Longrightarrow> publishes db icao type name"
  using procedures_for_holds [OF assms(1), of icao] assms
  by (auto simp: airport_has_procedure_def publishes_def Bex_set split: if_splits prod.splits sum.splits option.splits)

lemma same_publishes: "same_database db db' \<Longrightarrow> publishes db' icao type name = publishes db icao type name"
  by (simp add: publishes_def same_database_sel)

lemma frame_airports_ok:
  assumes f: "bracket_failure b tokens = None" and t: "list_all is_token tokens"
  shows "\<exists>post. framed db tokens (frame_airports b tokens) [] post \<and> fr_i (frame_airports b tokens) < fr_end (frame_airports b tokens)
    \<and> \<not> fr_dep_via_sid (frame_airports b tokens) \<and> \<not> fr_arr_via_star (frame_airports b tokens)
    \<and> \<not> fr_dep_explicit (frame_airports b tokens)"
proof -
  have k: "tokens \<noteq> []" "0 \<le> vertex_by_airport b (hd tokens)" "0 \<le> vertex_by_airport b (last tokens)" "2 < length tokens"
    using f by (auto simp: bracket_failure_def not_less split: if_splits)
  have ne: "hd tokens \<noteq> []" "last tokens \<noteq> []"
    using t k(1) hd_in_set last_in_set by (auto simp: list_all_iff is_token_def)
  let ?n = "length tokens" and ?fr = "frame_airports b tokens"
  let ?dct = "2 < ?n - 1 \<and> tokens ! (?n - 1 - 1) = dct_token"
  have fr: "fr_i ?fr = 1" "fr_dep ?fr = hd tokens" "fr_arr ?fr = last tokens" "fr_sid ?fr = []" "fr_star ?fr = []"
    "\<not> fr_dep_via_sid ?fr" "\<not> fr_arr_via_star ?fr" "\<not> fr_dep_explicit ?fr" "fr_arr_explicit ?fr = ?dct"
    "fr_end ?fr = (if ?dct then ?n - 1 - 1 else ?n - 1)"
    using k by (simp_all add: frame_airports_def Let_def del: One_nat_def)
  have split: "tokens = hd tokens # window tokens 1 (?n - 1) @ [last tokens]"
  proof -
    have "window tokens 1 (?n - 1) = butlast (tl tokens)"
      using k(1) by (cases tokens) (simp_all add: window_def butlast_conv_take)
    moreover have "tl tokens \<noteq> []" "last (tl tokens) = last tokens" using k by (cases tokens; auto)+
    ultimately show ?thesis using k(1) by (metis append_butlast_last_id list.collapse)
  qed
  have "framed db tokens ?fr [] (if ?dct then [dct_token] else [])"
  proof (cases ?dct)
    case True
    then have "window tokens 1 (?n - 1) = window tokens 1 (?n - 1 - 1) @ [dct_token]"
      using window_last [of 1 "?n - 1" tokens] by simp
    moreover have "1 \<le> ?n - 2" using True by linarith
    ultimately show ?thesis
      using split True ne by (simp add: framed_def fr dep_side_def arr_side_def del: One_nat_def)
  next
    case False
    have d: "fr_end ?fr = ?n - 1" "fr_arr_explicit ?fr = False" using fr(10) False unfolding if_not_P [OF False] fr(9) by blast+
    have "1 \<le> ?n - 1" using k(4) by linarith
    then show ?thesis
      unfolding if_not_P [OF False] framed_def dep_side_def arr_side_def d
      using split ne by (simp add: fr(1-8) del: One_nat_def)
  qed
  moreover have "fr_i ?fr < fr_end ?fr"
  proof (cases ?dct)
    case True
    then have "1 < ?n - 1 - 1" by linarith
    then show ?thesis unfolding fr(1,10) if_P [OF True] .
  next
    case False
    have "1 < ?n - 1" using k(4) by linarith
    then show ?thesis unfolding fr(1,10) if_not_P [OF False] .
  qed
  ultimately show ?thesis using fr by blast
qed

lemma frame_sid_ok:
  assumes ch: "cache_holds db" and f: "framed db tokens fr [] post" and lt: "fr_i fr < fr_end fr"
    and no: "\<not> fr_dep_via_sid fr" "\<not> fr_dep_explicit fr" and r: "frame_sid db tokens fr = (r, db')"
  shows "same_database db db' \<and> cache_holds db' \<and> (\<forall>e. r = Inl e \<longrightarrow> procedures_of db (fr_dep fr) = Inl e) \<and>
    (\<forall>fr'. r = Inr fr' \<longrightarrow>
       (\<exists>pre. framed db tokens fr' pre post \<and> \<not> fr_dep_explicit fr' \<and> (\<not> fr_dep_via_sid fr' \<longrightarrow> fr' = fr) \<and>
          fr_arr_via_star fr' = fr_arr_via_star fr))"
proof -
  let ?t = "tokens ! fr_i fr"
  have w: "window tokens (fr_i fr) (fr_end fr) = ?t # window tokens (fr_i fr + 1) (fr_end fr)"
    by (rule window_hd) (use f lt in \<open>auto simp: framed_def\<close>)
  have dep: "fr_dep fr \<noteq> []" using f unfolding framed_def by blast
  have named: "framed db tokens (fr\<lparr>fr_sid := ?t, fr_dep_via_sid := True, fr_i := fr_i fr + 1\<rparr>) [?t] post"
    if "publishes db (fr_dep fr) Sid ?t"
    using f w lt that by (simp add: framed_def, simp add: dep_side_def)
  have literal: "framed db tokens (fr\<lparr>fr_dep_via_sid := True, fr_i := fr_i fr + 1\<rparr>) [?t] post" if "?t = sid_token"
    using f w lt that no by (simp add: framed_def, simp add: dep_side_def)
  obtain h db1 where h: "airport_has_procedure db (fr_dep fr) ?t Sid = (h, db1)" by fastforce
  note a = airport_has_procedure_ok [OF ch h]
  show ?thesis
  proof (cases "?t = sid_token")
    case True
    then have "r = Inr (fr\<lparr>fr_dep_via_sid := True, fr_i := fr_i fr + 1\<rparr>)" "db' = db"
      using r lt dep by (auto simp: frame_sid_def)
    then show ?thesis using literal [OF True] ch no by (auto simp: same_database_def)
  next
    case False
    have rr: "(r, db') = (case (h, db1) of (Inl e, db') \<Rightarrow> (Inl e, db')
        | (Inr True, db') \<Rightarrow> (Inr (fr\<lparr>fr_sid := ?t, fr_dep_via_sid := True, fr_i := fr_i fr + 1\<rparr>), db')
        | (Inr False, db') \<Rightarrow> (Inr fr, db'))"
      using r lt dep False h by (simp add: frame_sid_def)
    consider (err) e where "h = Inl e" | (yes) "h = Inr True" | (no) "h = Inr False" by (cases h) auto
    then show ?thesis
    proof cases
      case err
      then show ?thesis using rr a by simp
    next
      case yes
      then have "r = Inr (fr\<lparr>fr_sid := ?t, fr_dep_via_sid := True, fr_i := fr_i fr + 1\<rparr>)" "db' = db1" using rr by simp_all
      then show ?thesis using named a(1,2,4) yes assms(4,5) by auto
    next
      case no
      then have "r = Inr fr" "db' = db1" using rr by simp_all
      then show ?thesis using f a(1,2) assms(5) by auto
    qed
  qed
qed

lemma frame_dct_ok:
  assumes f: "framed db tokens fr pre post" and "\<not> fr_dep_explicit fr" and "fr_i fr \<le> fr_end fr"
  shows "\<exists>pre. framed db tokens (frame_dct tokens fr) pre post \<and> (fr_dep_via_sid fr \<longrightarrow> fr_dep_explicit (frame_dct tokens fr)) \<and>
    fr_arr_via_star (frame_dct tokens fr) = fr_arr_via_star fr"
proof (cases "\<not> fr_dep_via_sid fr \<and> fr_i fr + 1 < fr_end fr \<and> tokens ! fr_i fr = dct_token")
  case True
  have dep: "fr_dep fr \<noteq> []" using f unfolding framed_def by blast
  have "window tokens (fr_i fr) (fr_end fr) = dct_token # window tokens (fr_i fr + 1) (fr_end fr)"
    using window_hd [of "fr_i fr" "fr_end fr" tokens] True f by (simp add: framed_def)
  moreover have "pre = []" using f True assms(2) by (simp add: framed_def dep_side_def)
  moreover have "frame_dct tokens fr = fr\<lparr>fr_i := fr_i fr + 1, fr_dep_explicit := True\<rparr>"
    using True dep by (simp add: frame_dct_def Let_def)
  ultimately show ?thesis
    using f True by (intro exI [of _ "[dct_token]"]) (simp add: framed_def, simp add: dep_side_def)
next
  case False
  have "frame_dct tokens fr = fr\<lparr>fr_dep_explicit := fr_dep_via_sid fr\<rparr>"
    using False f by (auto simp: frame_dct_def Let_def framed_def)
  then show ?thesis using f assms(2) by (intro exI [of _ pre]) (simp add: framed_def, simp add: dep_side_def)
qed

lemma frame_star_ok:
  assumes ch: "cache_holds db" and f: "framed db tokens fr pre post" and no: "\<not> fr_arr_via_star fr"
    and r: "frame_star db tokens fr = (r, db')"
  shows "same_database db db' \<and> cache_holds db' \<and> (\<forall>e. r = Inl e \<longrightarrow> procedures_of db (fr_arr fr) = Inl e) \<and>
    (\<forall>fr'. r = Inr fr' \<longrightarrow> (\<exists>post. framed db tokens fr' pre post) \<and> fr_dep_via_sid fr' = fr_dep_via_sid fr \<and>
       fr_dep_explicit fr' = fr_dep_explicit fr \<and> (fr_arr_via_star fr' \<longrightarrow> fr_arr_explicit fr'))"
proof (cases "fr_i fr < fr_end fr")
  case False
  then have "r = Inr fr" "db' = db" using r by (auto simp: frame_star_def)
  then show ?thesis using f ch no by auto
next
  case lt: True
  let ?t = "tokens ! (fr_end fr - 1)"
  have arr: "fr_arr fr \<noteq> []" using f unfolding framed_def by blast
  have w: "window tokens (fr_i fr) (fr_end fr) = window tokens (fr_i fr) (fr_end fr - 1) @ [?t]"
    by (rule window_last) (use f lt in \<open>auto simp: framed_def\<close>)
  have post: "post = (if fr_arr_explicit fr then [dct_token] else [])" "fr_star fr = []"
    using f no by (simp_all add: framed_def arr_side_def)
  have le: "fr_i fr \<le> fr_end fr - 1" "fr_end fr - 1 \<le> length tokens" using f lt by (auto simp: framed_def)
  let ?taken = "fr\<lparr>fr_arr_via_star := True, fr_end := fr_end fr - 1, fr_arr_explicit := True\<rparr>"
  have named: "framed db tokens (?taken\<lparr>fr_star := ?t\<rparr>) pre (?t # post)" if "publishes db (fr_arr fr) Star ?t"
    using f w le that post by (simp add: framed_def, simp add: arr_side_def)
  have literal: "framed db tokens ?taken pre (?t # post)" if "?t = star_token"
    using f w le that post by (simp add: framed_def, simp add: arr_side_def)
  obtain h db1 where h: "airport_has_procedure db (fr_arr fr) ?t Star = (h, db1)" by fastforce
  note a = airport_has_procedure_ok [OF ch h]
  show ?thesis
  proof (cases "?t = star_token")
    case True
    then have "r = Inr ?taken" "db' = db" using r lt arr by (auto simp: frame_star_def Let_def)
    then show ?thesis using literal [OF True] ch by auto
  next
    case False
    have rr: "(r, db') = (case (h, db1) of (Inl e, db') \<Rightarrow> (Inl e, db')
        | (Inr True, db') \<Rightarrow> (Inr (?taken\<lparr>fr_star := ?t\<rparr>), db')
        | (Inr False, db') \<Rightarrow> (Inr fr, db'))"
      using r lt arr False h by (simp add: frame_star_def Let_def del: One_nat_def)
    consider (err) e where "h = Inl e" | (yes) "h = Inr True" | (none) "h = Inr False" by (cases h) auto
    then show ?thesis
    proof cases
      case err
      then show ?thesis using rr a by simp
    next
      case yes
      then have "r = Inr (?taken\<lparr>fr_star := ?t\<rparr>)" "db' = db1" using rr by simp_all
      then show ?thesis using named a(1,2,4) yes by auto
    next
      case none
      then have "r = Inr fr" "db' = db1" using rr by simp_all
      then show ?thesis using f a(1,2) no by auto
    qed
  qed
qed

section \<open>What is accepted\<close>

definition departs :: "nav_database \<Rightarrow> string \<Rightarrow> string list \<Rightarrow> string \<Rightarrow> string \<Rightarrow> bool" where
  "departs db icao pre via sid \<longleftrightarrow>
     pre = [dct_token] \<and> via = dct_token \<and> sid = [] \<or>
     via = sid_token \<and> (pre = [sid_token] \<and> sid = [] \<or> pre = [sid] \<and> publishes db icao Sid sid)"

definition arrives :: "nav_database \<Rightarrow> string \<Rightarrow> string list \<Rightarrow> string \<Rightarrow> string \<Rightarrow> bool" where
  "arrives db icao post via star \<longleftrightarrow>
     post = [dct_token] \<and> via = dct_token \<and> star = [] \<or>
     via = star_token \<and> (\<exists>s. post \<in> {[s], [s, dct_token]} \<and>
       (s = star_token \<and> star = [] \<or> s = star \<and> publishes db icao Star star))"

definition filed_route ::
  "nav_database \<Rightarrow> graph_builder \<Rightarrow> airway_index \<Rightarrow> string list \<Rightarrow> route \<Rightarrow> bool" where
  "filed_route db b index tokens r \<longleftrightarrow>
     (\<exists>dep arr pre mid post vs vias via_dep via_arr.
        tokens = dep # pre @ mid @ post @ [arr] \<and> filed b index (coord_of (gb_graph b) (vertex_by_airport b dep)) mid vs vias \<and>
        departs db dep pre via_dep (ro_sid r) \<and> arrives db arr post via_arr (ro_star r) \<and>
        ro_points r = airport_point b dep # map (fix_point b (gb_graph b)) vs @ [airport_point b arr] \<and>
        map rl_via (ro_legs r) = via_dep # vias @ [via_arr])"

text \<open>No fix at all: one \<open>DCT\<close>, of which either end may have consumed another.\<close>

definition direct_route :: "graph_builder \<Rightarrow> string list \<Rightarrow> route \<Rightarrow> bool" where
  "direct_route b tokens r \<longleftrightarrow>
     (\<exists>dep arr n. tokens = dep # replicate n dct_token @ [arr] \<and> 1 \<le> n \<and> n \<le> 3 \<and> ro_points r = [airport_point b dep, airport_point b arr] \<and>
        map rl_via (ro_legs r) = [dct_token] \<and> ro_sid r = [] \<and> ro_star r = [])"

lemma token_designators: "is_designator dct_token" "is_designator sid_token" "is_designator star_token"
  by (simp_all add: is_designator_def dct_token_def sid_token_def star_token_def)

lemma indexed_designator:
  assumes "find_airway (build_airway_index b) awy \<noteq> None"
  shows "is_designator awy"
proof -
  have "map_of (as_built (scan_airways b)) awy \<noteq> None"
    using assms unfolding build_airway_index_lookup by (auto split: if_splits)
  then have "legs_under awy (registrations b) \<noteq> []"
    using scan_airways_scanned [of b] by (auto simp: scanned_def)
  then obtain l where "(awy, l) \<in> set (registrations b)" by (auto simp: legs_under_def filter_empty_conv)
  then show ?thesis by (rule registrationsE) (rule split_designators_designators)
qed

lemma filed_designators:
  "filed b (build_airway_index b) start toks vs vias \<Longrightarrow> \<forall>via \<in> set vias. is_designator via"
proof (induction rule: filed.induct)
  case (airway toks vs vias tok v awy chain d)
  then show ?case using indexed_designator [of b awy] by auto
qed (use token_designators in auto)

lemma direct_pair_ok:
  assumes f: "framed db tokens fr pre post" and d: "is_direct_pair tokens fr"
  shows "route_ok (fr_dep fr) (fr_arr fr) (direct_pair b fr)" "direct_route b tokens (direct_pair b fr)"
proof -
  let ?dep = "airport_point b (fr_dep fr)" and ?arr = "airport_point b (fr_arr fr)"
  let ?r = "push_leg (fr_dep fr) (fr_arr fr) dct_token (distance_to (pt_coord ?dep) (pt_coord ?arr)) (route_empty\<lparr>ro_points := [?dep, ?arr]\<rparr>)"
  have r: "direct_pair b fr = close_route ?r (fr_dep_via_sid fr) (fr_arr_via_star fr)" by (simp add: direct_pair_def Let_def)
  have sel: "ro_points ?r = [?dep, ?arr]" "ro_sid ?r = []" "ro_star ?r = []" "map rl_via (ro_legs ?r) = [dct_token]"
    "ro_terminal_transition ?r = False" "ro_approach ?r = []" "ro_approach_options ?r = []"
    by (simp_all add: push_leg_def route_empty_def)
  have c: "legs_follow (ro_points ?r) (ro_legs ?r)" "ro_points ?r \<noteq> []" "\<forall>l \<in> set (ro_legs ?r). 0 \<le> rl_distance_nm l"
    "sum_list (map rl_distance_nm (ro_legs ?r)) = ro_total_distance_nm ?r" "\<forall>l \<in> set (ro_legs ?r). is_designator (rl_via l)"
    by (simp_all add: push_leg_def route_empty_def legs_follow_def airport_point_def token_designators)
  note k = close_route_ok [OF c(1-4) sel(5-7) c(5), of "fr_dep_via_sid fr" "fr_arr_via_star fr"]
  show "route_ok (fr_dep fr) (fr_arr fr) (direct_pair b fr)" using k(1) unfolding r sel by (simp add: airport_point_def)
  have w: "window tokens (fr_i fr) (fr_end fr) = [dct_token]"
  proof -
    have "fr_end fr = fr_i fr + 1" "tokens ! fr_i fr = dct_token" using d by (auto simp: is_direct_pair_def)
    then show ?thesis using window_hd [of "fr_i fr" "fr_end fr" tokens] f by (simp add: framed_def window_def)
  qed
  have "\<exists>j \<le> 1. pre = replicate j dct_token" "\<exists>k \<le> 1. post = replicate k dct_token"
    using f d by (auto simp: framed_def dep_side_def arr_side_def is_direct_pair_def split: if_splits
        intro: exI [of _ "0 :: nat"] exI [of _ "1 :: nat"])
  then obtain j k where jk: "pre = replicate j dct_token" "j \<le> 1" "post = replicate k dct_token" "k \<le> 1" by blast
  have "replicate j dct_token @ [dct_token] @ replicate k dct_token = replicate (j + 1 + k) dct_token"
    by (simp add: replicate_add replicate_app_Cons_same)
  then have "tokens = fr_dep fr # replicate (j + 1 + k) dct_token @ [fr_arr fr]"
    using f w jk by (simp add: framed_def)
  moreover have "1 \<le> j + 1 + k" "j + 1 + k \<le> 3" using jk by simp_all
  ultimately show "direct_route b tokens (direct_pair b fr)"
    unfolding direct_route_def r k(2,3,5,6) sel by blast
qed

lemma filed_routeI:
  "tokens = dep # pre @ mid @ post @ [arr] \<Longrightarrow>
   filed b index (coord_of (gb_graph b) (vertex_by_airport b dep)) mid vs vias \<Longrightarrow>
   departs db dep pre via_dep (ro_sid r) \<Longrightarrow> arrives db arr post via_arr (ro_star r) \<Longrightarrow>
   ro_points r = airport_point b dep # map (fix_point b (gb_graph b)) vs @ [airport_point b arr] \<Longrightarrow>
   map rl_via (ro_legs r) = via_dep # vias @ [via_arr] \<Longrightarrow> filed_route db b index tokens r"
  unfolding filed_route_def by (intro exI conjI) assumption+

lemma enroute_ok:
  assumes net: "network_ok b" and ch: "cache_holds db" and t: "list_all is_token tokens"
    and f: "framed db tokens fr pre post"
    and x: "fr_dep_via_sid fr \<longrightarrow> fr_dep_explicit fr" "fr_arr_via_star fr \<longrightarrow> fr_arr_explicit fr"
  shows "case parse_enroute b (build_airway_index b) tokens fr of None \<Rightarrow> False
    | Some (Inl e) \<Rightarrow> err_code e = KRouteParseError
    | Some (Inr r) \<Rightarrow> route_ok (hd tokens) (last tokens) r \<and>
        (direct_route b tokens r \<or> filed_route db b (build_airway_index b) tokens r)"
proof (cases "is_direct_pair tokens fr")
  case True
  have "hd tokens = fr_dep fr" "last tokens = fr_arr fr" using f by (simp_all add: framed_def)
  then show ?thesis using direct_pair_ok [OF f True, of b] True by (simp add: parse_enroute_def)
next
  case False
  let ?ix = "build_airway_index b" and ?mid = "window tokens (fr_i fr) (fr_end fr)"
  let ?start = "coord_of (gb_graph b) (vertex_by_airport b (fr_dep fr))"
  have dep: "fr_dep fr \<noteq> []" "fr_arr fr \<noteq> []" and ends: "hd tokens = fr_dep fr" "last tokens = fr_arr fr"
    using f unfolding framed_def by blast+
  have tokens: "tokens = fr_dep fr # pre @ ?mid @ post @ [fr_arr fr]" using f unfolding framed_def by blast
  have "loop_state b ?ix ?start [] (parse_start b fr)"
    by (rule loop_state.fresh) (simp_all add: parse_start_def dep)
  moreover have "list_all is_token ?mid" using t unfolding window_def list_all_iff by (meson in_set_dropD in_set_takeD)
  ultimately have run: "case parse_tokens b ?ix ?mid (parse_start b fr) of None \<Rightarrow> False
    | Some (Inl e) \<Rightarrow> err_code e = KRouteParseError
    | Some (Inr st') \<Rightarrow> loop_state b ?ix ?start ([] @ ?mid) st'"
    by (rule loop_run [OF net])
  have pe: "parse_enroute b ?ix tokens fr = (case parse_tokens b ?ix ?mid (parse_start b fr) of
      None \<Rightarrow> None | Some (Inl e) \<Rightarrow> Some (Inl e) | Some (Inr st) \<Rightarrow> Some (bracket_route b fr st))"
    using False by (simp add: parse_enroute_def window_def)
  consider (err) e where "parse_tokens b ?ix ?mid (parse_start b fr) = Some (Inl e)" "err_code e = KRouteParseError"
    | (ok) st where "parse_tokens b ?ix ?mid (parse_start b fr) = Some (Inr st)" "loop_state b ?ix ?start ?mid st"
    using run by (auto split: option.splits sum.splits)
  then show ?thesis
  proof cases
    case err
    then show ?thesis by (simp add: pe)
  next
    case (ok st)
    show ?thesis
    proof (cases "loop_failure fr st")
      case (Some e)
      then have "err_code e = KRouteParseError" by (auto simp: loop_failure_def parse_error_def split: if_splits)
      then show ?thesis using ok(1) Some by (simp add: pe bracket_route_def)
    next
      case None
      then have nf: "ps_vertices st \<noteq> []" "ps_connector st = []" "fr_dep_explicit fr" "fr_arr_explicit fr"
        using dep by (auto simp: loop_failure_def split: if_splits)
      from ok(2) obtain vs vias where fl: "filed b ?ix ?start ?mid vs vias" and af: "at_fix b vs vias st"
        using nf(1,2) by cases auto
      have len: "length vs = Suc (length vias)" by (rule filed_length [OF fl])
      let ?r = "append_arrival b fr vs (prepend_departure b fr vs (partial_route b vs vias))"
      note br = bracketed [OF len dep, of b]
      have "\<forall>l \<in> set (ro_legs ?r). is_designator (rl_via l)"
      proof -
        have "\<forall>via \<in> set (map rl_via (ro_legs ?r)). is_designator via"
          unfolding br(3) using filed_designators [OF fl] token_designators by auto
        then show ?thesis by simp
      qed
      note k = close_route_ok [OF br(2) _ br(4-8) this, of "fr_dep_via_sid fr" "fr_arr_via_star fr"]
      have ne: "ro_points ?r \<noteq> []" unfolding br(1) by simp
      let ?c = "close_route ?r (fr_dep_via_sid fr) (fr_arr_via_star fr)"
      have sides: "departs db (fr_dep fr) pre (if fr_dep_via_sid fr then sid_token else dct_token) (ro_sid ?c)"
        "arrives db (fr_arr fr) post (if fr_arr_via_star fr then star_token else dct_token) (ro_star ?c)"
        using f nf(3,4) unfolding framed_def k(5) [OF ne] k(6) [OF ne] br(9,10)
        by (auto simp: dep_side_def arr_side_def departs_def arrives_def)
      have "filed_route db b ?ix tokens ?c"
        by (rule filed_routeI [OF tokens fl sides trans [OF k(2) [OF ne] br(1)] trans [OF k(3) [OF ne] br(3)]])
      moreover have "route_ok (hd tokens) (last tokens) ?c"
        using k(1) [OF ne] unfolding br(1) by (simp add: airport_point_def ends)
      moreover have "parse_enroute b ?ix tokens fr = Some (Inr ?c)"
        using ok(1) None af by (simp add: pe bracket_route_def at_fix_def)
      ultimately show ?thesis by simp
    qed
  qed
qed

text \<open>The parser as a whole.\<close>

lemma parse_route_spec:
  fixes s :: string
  assumes b: "db_builder db = Some b" and net: "network_ok b" and ch: "cache_holds db"
  defines "tokens \<equiv> tokenize_route s"
  shows "same_database db (snd (parse_route db (build_airway_index b) s)) \<and>
    cache_holds (snd (parse_route db (build_airway_index b) s)) \<and>
    (case fst (parse_route db (build_airway_index b) s) of None \<Rightarrow> False
     | Some (Inl e) \<Rightarrow> err_code e = KRouteParseError \<or>
         procedures_of db (hd tokens) = Inl e \<or> procedures_of db (last tokens) = Inl e
     | Some (Inr r) \<Rightarrow> route_ok (hd tokens) (last tokens) r \<and>
         (direct_route b tokens r \<or> filed_route db b (build_airway_index b) tokens r))"
proof (cases "bracket_failure b tokens")
  case (Some e)
  then have "err_code e = KRouteParseError" by (auto simp: bracket_failure_def parse_error_def split: if_splits)
  moreover have "parse_route db (build_airway_index b) s = (Some (Inl e), db)"
    using b Some by (simp add: parse_route_def tokens_def)
  ultimately show ?thesis using ch by simp
next
  case None
  let ?ix = "build_airway_index b"
  have t: "list_all is_token tokens" unfolding tokens_def list_all_iff using tokenize_route_tokens by blast
  obtain post where fa: "framed db tokens (frame_airports b tokens) [] post"
    and i: "fr_i (frame_airports b tokens) < fr_end (frame_airports b tokens)"
    and no: "\<not> fr_dep_via_sid (frame_airports b tokens)" "\<not> fr_arr_via_star (frame_airports b tokens)"
      "\<not> fr_dep_explicit (frame_airports b tokens)"
    using frame_airports_ok [OF None t] by blast
  have ends: "fr_dep (frame_airports b tokens) = hd tokens" "fr_arr (frame_airports b tokens) = last tokens"
    using fa by (simp_all add: framed_def)
  obtain r1 db1 where sid: "frame_sid db tokens (frame_airports b tokens) = (r1, db1)" by fastforce
  note s1 = frame_sid_ok [OF ch fa i no(1,3) sid]
  show ?thesis
  proof (cases r1)
    case (Inl e)
    then have "parse_route db ?ix s = (Some (Inl e), db1)"
      using b None sid by (simp add: parse_route_def tokens_def Let_def)
    then show ?thesis using s1 Inl ends by simp
  next
    case (Inr fr1)
    then obtain pre where f1: "framed db tokens fr1 pre post" "\<not> fr_dep_explicit fr1" "\<not> fr_arr_via_star fr1"
      using s1 no(2) by auto
    have "fr_i fr1 \<le> fr_end fr1" using f1(1) by (simp add: framed_def)
    then obtain pre2 where f2: "framed db tokens (frame_dct tokens fr1) pre2 post"
      "fr_dep_via_sid fr1 \<longrightarrow> fr_dep_explicit (frame_dct tokens fr1)" "\<not> fr_arr_via_star (frame_dct tokens fr1)"
      using frame_dct_ok [OF f1(1,2)] f1(3) by auto
    have via: "fr_dep_via_sid (frame_dct tokens fr1) = fr_dep_via_sid fr1" by (simp add: frame_dct_def Let_def)
    have d1: "same_database db db1" "cache_holds db1" using s1 by blast+
    have same: "framed db1 tokens fr x y = framed db tokens fr x y" for fr x y
      by (simp add: framed_def dep_side_def arr_side_def same_publishes [OF d1(1)])
    obtain r2 db2 where star: "frame_star db1 tokens (frame_dct tokens fr1) = (r2, db2)" by fastforce
    note s2 = frame_star_ok [OF d1(2) f2(1) [folded same] f2(3) star]
    have d2: "same_database db db2" "cache_holds db2" using s2 same_database_trans [OF d1(1)] by blast+
    have pr: "parse_route db ?ix s = (case (r2, db2) of (Inl e, db2) \<Rightarrow> (Some (Inl e), db2)
        | (Inr fr', db2) \<Rightarrow> (parse_enroute b ?ix tokens fr', db2))"
      using b None sid Inr star unfolding parse_route_def tokens_def [symmetric] by simp
    show ?thesis
    proof (cases r2)
      case (Inl e)
      have "fr_arr (frame_dct tokens fr1) = last tokens" using f2(1) by (simp add: framed_def)
      then have "procedures_of db (last tokens) = Inl e"
        using s2 Inl same_database_sel(6) [OF d1(1)] by auto
      then show ?thesis using pr Inl d2 by simp
    next
      case (Inr fr2)
      then obtain post2 where f3: "framed db tokens fr2 pre2 post2" and x: "fr_dep_via_sid fr2 \<longrightarrow> fr_dep_explicit fr2"
          "fr_arr_via_star fr2 \<longrightarrow> fr_arr_explicit fr2"
        using s2 f2(2) via same by auto
      have "parse_route db ?ix s = (parse_enroute b ?ix tokens fr2, db2)" using pr Inr by simp
      with enroute_ok [OF net ch t f3 x] d2 show ?thesis by (auto split: option.splits sum.splits)
    qed
  qed
qed

section \<open>The sample network's airway\<close>

lemma wired_names_zero: "gb_airway_names (wired b conns) ! 0 = dct_token"
proof -
  have id: "aw_names w \<noteq> [] \<Longrightarrow> airway_id_for name w = (i, w') \<Longrightarrow>
      aw_names w' \<noteq> [] \<and> aw_names w' ! 0 = aw_names w ! 0" for name w i w'
    by (auto simp: airway_id_for_def Let_def nth_append split: option.splits if_splits)
  have "aw_names w \<noteq> [] \<Longrightarrow> aw_names (wire_connection b w conn) \<noteq> [] \<and>
      aw_names (wire_connection b w conn) ! 0 = aw_names w ! 0" for w conn
    using id [of w "as_name (ac_segment conn)"]
    by (cases "airway_id_for (as_name (ac_segment conn)) w") (auto simp: wire_connection_def Let_def split: prod.splits)
  then have "aw_names w \<noteq> [] \<Longrightarrow> aw_names (foldl (wire_connection b) w conns) ! 0 = aw_names w ! 0" for w
    by (induction conns arbitrary: w) simp_all
  then show ?thesis by (simp add: wired_sel wire_airways_def)
qed

lemma sample_token_hop:
  assumes b: "build sample_data = Inr b"
  obtains e where "e \<in> set (out_edges (gb_graph b) 0)" "edge_to e = 1" "ge_airway_id e \<noteq> 0"
    "airway_name b (uint (ge_airway_id e)) = ''L9''" "airway_hop b ''L9'' 0 1 (ge_distance_nm e)"
proof (rule sample_built)
  fix b' assume b': "build sample_data = Inr b'" "\<not> gb_airway_overflow b'" "connects b' sample_connection 0 1"
  then have bb: "b' = b" using b by simp
  have conn: "sample_connection \<in> set (nd_airways sample_data)" by (simp add: sample_data_def)
  obtain e where e: "e \<in> set (out_edges (gb_graph b) 0)"
    "connection_edge (gb_graph b) (gb_airway_names b) (ac_segment sample_connection) 0 1 e"
  proof (rule build_wired [OF b sample_data_ok(2)])
    fix b0 assume l: "loaded b0" and b0: "b = wired b0 (nd_airways sample_data)"
    have "connects b0 sample_connection 0 1" using b'(3) unfolding bb b0 wired_connects .
    from wired_edge_complete [OF l _ conn this] b'(2) obtain e where "e \<in> set (out_edges (gb_graph b) 0)"
      "connection_edge (gb_graph b0) (gb_airway_names b) (ac_segment sample_connection) 0 1 e" unfolding bb b0 by blast
    then show thesis using that by (simp add: connection_edge_def b0)
  qed
  then have name: "gb_airway_names b ! unat (ge_airway_id e) = ''L9''" "edge_to e = 1"
    by (simp_all add: connection_edge_def sample_connection_def sample_segment_def)
  have zero: "gb_airway_names b ! 0 = dct_token"
    by (rule build_wired [OF b sample_data_ok(2)]) (simp add: wired_names_zero)
  have ne: "ge_airway_id e \<noteq> 0" using name(1) zero by (auto simp: dct_token_def)
  have nm: "airway_name b (uint (ge_airway_id e)) = ''L9''" using name(1) by (simp add: airway_name_def nat_uint_eq)
  have "split_designators ''L9'' = [''L9'']" by (rule split_designators_single) (simp add: is_designator_def)
  then have "airway_hop b ''L9'' 0 1 (ge_distance_nm e)"
    unfolding airway_hop_def using e(1) name(2) ne nm by (intro bexI [of _ e]) (simp_all add: on_airway_def)
  then show thesis using that e(1) name(2) ne nm by blast
qed

section \<open>Two airports and nothing between them\<close>

lemma direct_pair_accepted:
  assumes "db_builder db = Some b" and "cache_holds db" and "is_token dep" and "is_token arr"
    and "0 \<le> vertex_by_airport b dep" and "0 \<le> vertex_by_airport b arr"
    and "procedures_of db dep = Inr None" and "procedures_of db arr = Inr None"
  shows "\<exists>r. fst (parse_route db index (unwords [dep, dct_token, arr])) = Some (Inr r) \<and>
    fst (parse_route db index (unwords [dep, dct_token, dct_token, arr])) = Some (Inr r)"
proof -
  have dct: "is_token dct_token" by (simp add: is_token_def dct_token_def, code_simp)
  have kw: "dct_token \<noteq> sid_token" "dct_token \<noteq> star_token" by (simp_all add: dct_token_def sid_token_def star_token_def)
  have ne: "dep \<noteq> []" "arr \<noteq> []" using assms(3,4) by (simp_all add: is_token_def)
  have none: "\<exists>db1. airport_has_procedure db' icao dct_token type = (Inr False, db1) \<and> same_database db db1 \<and> cache_holds db1"
    if d: "same_database db db'" "cache_holds db'" and i: "procedures_of db icao = Inr None" "icao \<noteq> []" for db' icao type
    using procedures_for_holds [OF d(2), of icao] same_database_sel(6) [OF d(1), of icao] i same_database_trans [OF d(1)]
    by (cases "procedures_for db' icao") (auto simp: airport_has_procedure_def)
  obtain db1 where sid: "airport_has_procedure db dep dct_token Sid = (Inr False, db1)" "same_database db db1" "cache_holds db1"
    using none [OF same_database_refl assms(2,7) ne(1)] by blast
  obtain db2 where star: "airport_has_procedure db1 arr dct_token Star = (Inr False, db2)"
    using none [OF sid(2,3) assms(8) ne(2)] by blast
  define r where "r = direct_pair b (frame_dct [dep, dct_token, arr] (frame_airports b [dep, dct_token, arr]))"
  have up: "length [dep, dct_token, arr] = 3" "length [dep, dct_token, dct_token, arr] = 4" by simp_all
  have one: "fst (parse_route db index (unwords [dep, dct_token, arr])) = Some (Inr r)"
    using tokenize_route_unwords [of "[dep, dct_token, arr]"] assms(1,3-6) dct sid(1) star ne kw
    by (simp add: parse_route_def bracket_failure_def frame_airports_def frame_sid_def frame_dct_def frame_star_def
        parse_enroute_def is_direct_pair_def r_def Let_def)
  have two: "fst (parse_route db index (unwords [dep, dct_token, dct_token, arr])) = Some (Inr r)"
    using tokenize_route_unwords [of "[dep, dct_token, dct_token, arr]"] assms(1,3-6) dct sid(1) star ne kw
    by (simp add: parse_route_def bracket_failure_def frame_airports_def frame_sid_def frame_dct_def frame_star_def
        parse_enroute_def is_direct_pair_def r_def direct_pair_def Let_def)
  from one two show ?thesis by blast
qed


lemma sample_tokens:
  "is_token ''EDDF''" "tokenize_route ''EDDF DCT EDDF'' = [''EDDF'', dct_token, ''EDDF'']"
  "tokenize_route ''EDDF ABC'' = [''EDDF'', ''ABC'']"
proof -
  have tok: "is_token ''EDDF''" "is_token ''DCT''" "is_token ''ABC''" by code_simp+
  then show "is_token ''EDDF''" by blast
  show "tokenize_route ''EDDF DCT EDDF'' = [''EDDF'', dct_token, ''EDDF'']"
    using tokenize_route_unwords [of "[''EDDF'', ''DCT'', ''EDDF'']"] tok by (simp add: dct_token_def)
  show "tokenize_route ''EDDF ABC'' = [''EDDF'', ''ABC'']"
    using tokenize_route_unwords [of "[''EDDF'', ''ABC'']"] tok by simp
qed

lemma sample_direct:
  assumes b: "build sample_data = Inr b"
  shows "\<exists>r. fst (parse_route (sample_database b) index ''EDDF DCT EDDF'') = Some (Inr r)"
proof -
  have "procedures_of (sample_database b) ''EDDF'' = Inr None"
    by (simp add: procedures_of_def sample_database_def fetch_procedures_def)
  then have "\<exists>r. fst (parse_route (sample_database b) index (unwords [''EDDF'', dct_token, ''EDDF''])) = Some (Inr r)"
    using direct_pair_accepted [of "sample_database b" b "''EDDF''" "''EDDF''" index]
      sample_network(5) [OF b] sample_tokens(1)
    by (simp add: sample_database_def cache_holds_def) blast
  then show ?thesis by (simp add: dct_token_def)
qed

lemma sample_airports:
  assumes b: "build sample_data = Inr b"
  shows "vertex_by_airport b ''ABC'' = - 1"
proof -
  have ix: "indexed b" and net: "network_ok b"
    using built_network_ok [OF b sample_data_ok(2)] by (simp_all add: network_ok_def)
  have n: "int (length (gb_idents b)) = 3" using net sample_network(2) [OF b] by (simp add: network_ok_def vertex_count_def)
  have "id_ident (ident_of b 2) = ''EDDF''"
    using vertex_by_airport_spec [OF ix, of "''EDDF''"] sample_network(1,5) [OF b] n
    by (auto simp: upto.simps first_or_none_def split: if_splits)
  then show ?thesis
    by (simp add: vertex_by_airport_spec [OF ix] sample_network(1) [OF b] n upto.simps first_or_none_def)
qed

section \<open>The legs of an airway\<close>

lemma legs_under_edges:
  "l \<in> set (legs_under name (registrations b)) \<longleftrightarrow>
     (\<exists>u e. is_vertex (gb_graph b) u \<and> e \<in> set (out_edges (gb_graph b) u) \<and> on_airway b name e \<and> edge_leg b u e = Some l)"
proof
  assume "l \<in> set (legs_under name (registrations b))"
  then have "(name, l) \<in> set (registrations b)" by (auto simp: legs_under_def)
  then show "\<exists>u e. is_vertex (gb_graph b) u \<and> e \<in> set (out_edges (gb_graph b) u) \<and> on_airway b name e \<and> edge_leg b u e = Some l"
    by (rule registrationsE) (auto simp: is_vertex_def on_airway_def)
next
  assume "\<exists>u e. is_vertex (gb_graph b) u \<and> e \<in> set (out_edges (gb_graph b) u) \<and> on_airway b name e \<and> edge_leg b u e = Some l"
  then obtain u e where ue: "0 \<le> u" "u < vertex_count (gb_graph b)" "e \<in> set (out_edges (gb_graph b) u)"
    "on_airway b name e" "edge_leg b u e = Some l" by (auto simp: is_vertex_def)
  have "(name, l) \<in> set (edge_registrations b u e)" using ue(4,5) by (simp add: edge_registrations_def on_airway_def)
  then have "(name, l) \<in> set (registrations b)" using ue(1-3) by (auto simp: registrations_def)
  then show "l \<in> set (legs_under name (registrations b))" by (force simp: legs_under_def)
qed

lemma built_plain:
  assumes "build data = Inr b" "small_data data" "\<forall>i \<in> set (data_idents data). plain_name (id_ident i)"
  shows "plain_idents b"
proof (rule build_wired [OF assms(1,2)])
  fix b0 fs
  assume l: "b = wired b0 (nd_airways data)" "b0 = vertices_loaded data fs"
    "list_all2 (\<lambda>i f. fixed_ident_from_ident i = Inr f) (data_idents data) fs"
  have "map (ident_of b) [0 .. vertex_count (gb_graph b) - 1] = data_idents data" by (rule build_vertices(1) [OF l])
  then have "ident_of b v \<in> set (data_idents data)" if "is_vertex (gb_graph b) v" for v
    using that by (simp flip: \<open>map (ident_of b) _ = _\<close> add: is_vertex_def)
  then show ?thesis using assms(3) by (simp add: plain_idents_def)
qed

section \<open>Properties\<close>

text \<open>
  C16: An airway leg of a filed route is expanded to a shortest walk: the search along the edges of the named
  airway always returns, it finds a way whenever the airway has one between two different fixes, and then the
  fixes it lists form such a walk of least length.
\<close>

theorem airway_expansion_shortest:
  assumes "build data = Inr b" and "small_data data" and "is_vertex (gb_graph b) origin"
  shows "\<exists>chain. expand_airway b name origin to = Some chain \<and>
    (if chain = [] then origin = to \<or> (\<nexists>vs d. airway_route b name origin to vs d)
     else \<exists>d. airway_route b name origin to chain d \<and> (\<forall>vs d'. airway_route b name origin to vs d' \<longrightarrow> d \<le> d'))"
proof -
  have net: "network_ok b" by (rule built_network_ok [OF assms(1,2)])
  then have "graph_ok (gb_graph b)" by (simp add: network_ok_def)
  then show ?thesis by (rule expand_airway_spec [OF _ network_nonneg [OF net] assms(3)])
qed

lemma airway_expansion_shortest_witness:
  "\<exists>b chain. build sample_data = Inr b \<and> expand_airway b ''L9'' 0 1 = Some chain \<and> chain \<noteq> [] \<and> last chain = 1"
proof (rule sample_built)
  fix b assume b: "build sample_data = Inr b" and v: "is_vertex (gb_graph b) 0"
  obtain e :: "real graph_edge" where "airway_hop b ''L9'' 0 1 (ge_distance_nm e)" by (rule sample_token_hop [OF b])
  then have "airway_route b ''L9'' 0 1 [1] (ge_distance_nm e + 0)"
    unfolding airway_route_def by (intro conjI airway_path.hop airway_path.stay) simp_all
  moreover obtain chain where c: "expand_airway b ''L9'' 0 1 = Some chain"
    "if chain = [] then (0::int) = 1 \<or> (\<nexists>vs d. airway_route b ''L9'' 0 1 vs d)
     else \<exists>d. airway_route b ''L9'' 0 1 chain d \<and> (\<forall>vs d'. airway_route b ''L9'' 0 1 vs d' \<longrightarrow> d \<le> d')"
    using airway_expansion_shortest [OF b sample_data_ok(2) v, of "''L9''" 1] by blast
  ultimately have "chain \<noteq> []" by auto
  moreover have "last chain = 1" using c(2) calculation by (auto simp: airway_route_def)
  ultimately show ?thesis using b c(1) by blast
qed

text \<open>
  C14: A string the parser accepts is a filed route between the two airports it names: the legs follow the points,
  their lengths add up to the total and to the three phases; either nothing but \<open>DCT\<close> lies between the airports,
  or the tokens are fixes joined by \<open>DCT\<close> and airways, each fix the vertex its token names (nearest to the one
  before it), each airway leg a shortest walk along that airway, and each end connected by \<open>DCT\<close>, a keyword or a
  published procedure.
\<close>

theorem parse_route_sound:
  assumes "build data = Inr b" and "small_data data" and "db_builder db = Some b" and "cache_holds db"
    and "parse_route db (build_airway_index b) s = (Some (Inr r), db')"
  shows "route_ok (hd (tokenize_route s)) (last (tokenize_route s)) r \<and>
    (direct_route b (tokenize_route s) r \<or> filed_route db b (build_airway_index b) (tokenize_route s) r)"
  using parse_route_spec [OF assms(3) built_network_ok [OF assms(1,2)] assms(4), of s] assms(5) by simp

lemma parse_route_sound_witness:
  "\<exists>b r. build sample_data = Inr b \<and>
     fst (parse_route (sample_database b) (build_airway_index b) ''EDDF DCT EDDF'') = Some (Inr r) \<and> route_ok ''EDDF'' ''EDDF'' r"
proof (rule sample_built)
  fix b assume b: "build sample_data = Inr b"
  obtain r where r: "fst (parse_route (sample_database b) (build_airway_index b) ''EDDF DCT EDDF'') = Some (Inr r)"
    using sample_direct [OF b, of "build_airway_index b"] by blast
  then obtain db' where "parse_route (sample_database b) (build_airway_index b) ''EDDF DCT EDDF'' = (Some (Inr r), db')"
    by (metis prod.collapse)
  from parse_route_sound [OF b sample_data_ok(2) _ _ this] show ?thesis
    using b r sample_tokens by (auto simp: sample_database_def cache_holds_def)
qed

text \<open>
  C15: The parser always answers, whatever the string: with a route, with a parse error, or with the error
  the procedures of one of the two airports could not be read with; and it leaves the database as it was but for
  cache entries that hold what a fresh read gives.
\<close>

theorem parse_route_answers:
  assumes "build data = Inr b" and "small_data data" and "db_builder db = Some b" and "cache_holds db"
  shows "\<exists>outcome db'. parse_route db (build_airway_index b) s = (Some outcome, db') \<and>
    same_database db db' \<and> cache_holds db' \<and>
    (case outcome of Inr r \<Rightarrow> True
     | Inl e \<Rightarrow> err_code e = KRouteParseError \<or> procedures_of db (hd (tokenize_route s)) = Inl e \<or>
         procedures_of db (last (tokenize_route s)) = Inl e)"
proof -
  obtain out db' where p: "parse_route db (build_airway_index b) s = (out, db')" by fastforce
  note spec = parse_route_spec [OF assms(3) built_network_ok [OF assms(1,2)] assms(4), of s, unfolded p fst_conv snd_conv]
  then obtain outcome where o: "out = Some outcome" by (cases out) auto
  show ?thesis
    using spec p unfolding o by (intro exI [of _ outcome] exI [of _ db']) (auto split: sum.splits)
qed

lemma parse_route_answers_witness:
  "\<exists>b outcome db'. build sample_data = Inr b \<and>
     parse_route (sample_database b) (build_airway_index b) ''EDDF ABC'' = (Some (Inl outcome), db') \<and>
     err_code outcome = KRouteParseError"
proof (rule sample_built)
  fix b assume b: "build sample_data = Inr b"
  have db: "db_builder (sample_database b) = Some b" "cache_holds (sample_database b)"
    by (simp_all add: sample_database_def cache_holds_def)
  have procs: "procedures_of (sample_database b) icao \<noteq> Inl e" for icao e
    by (simp add: procedures_of_def sample_database_def fetch_procedures_def)
  obtain outcome db' where p: "parse_route (sample_database b) (build_airway_index b) ''EDDF ABC'' = (Some outcome, db')"
    and "case outcome of Inr r \<Rightarrow> True
      | Inl e \<Rightarrow> err_code e = KRouteParseError \<or> procedures_of (sample_database b) (hd (tokenize_route ''EDDF ABC'')) = Inl e \<or>
          procedures_of (sample_database b) (last (tokenize_route ''EDDF ABC'')) = Inl e"
    using parse_route_answers [OF b sample_data_ok(2) db, of "''EDDF ABC''"] by blast
  then have code: "outcome = Inl e \<Longrightarrow> err_code e = KRouteParseError" for e using procs by simp
  have "vertex_by_airport b ''ABC'' < 0"
    using sample_airports [OF b] by simp
  then have "bracket_failure b (tokenize_route ''EDDF ABC'') \<noteq> None"
    using sample_network(5) [OF b] by (simp add: sample_tokens bracket_failure_def)
  then have "\<exists>e. outcome = Inl e" using p db(1) by (auto simp: parse_route_def)
  then show ?thesis using p b code by blast
qed

text \<open>
  C17: The index finds an airway by each of its designators: what it returns for a name are the legs of the edges
  whose airway carries that name, each once (by endpoints, level and altitude band), in the order of the graph.
\<close>

theorem airway_lookup_exact:
  assumes "build data = Inr b" and "small_data data" and "\<forall>i \<in> set (data_idents data). plain_name (id_ident i)"
  shows "(\<forall>info. find_airway (build_airway_index b) name = Some info \<longrightarrow>
      ai_name info = name \<and> distinct (map leg_identity (ai_segments info)) \<and>
      subseq (ai_segments info) (legs_under name (registrations b)) \<and>
      (\<forall>l \<in> set (ai_segments info). \<exists>u e. is_vertex (gb_graph b) u \<and> e \<in> set (out_edges (gb_graph b) u) \<and>
         on_airway b name e \<and> edge_leg b u e = Some l)) \<and>
    (\<forall>u e l. is_vertex (gb_graph b) u \<and> e \<in> set (out_edges (gb_graph b) u) \<and> on_airway b name e \<and>
         edge_leg b u e = Some l \<and> length name \<le> fixed_name8_cap \<longrightarrow>
      (\<exists>info. find_airway (build_airway_index b) name = Some info \<and>
         leg_identity l \<in> leg_identity ` set (ai_segments info)))"
proof -
  let ?legs = "legs_under name (registrations b)"
  have g: "graph_ok (gb_graph b)" using built_network_ok [OF assms(1,2)] by (simp add: network_ok_def)
  have plain: "plain_idents b" by (rule built_plain [OF assms])
  have mem: "l \<in> set ?legs \<longleftrightarrow> (\<exists>u e. is_vertex (gb_graph b) u \<and> e \<in> set (out_edges (gb_graph b) u) \<and>
      on_airway b name e \<and> edge_leg b u e = Some l)" for l
    by (rule legs_under_edges)
  have found: "find_airway (build_airway_index b) name =
      (if ?legs = [] \<or> fixed_name8_cap < length name then None
       else Some \<lparr>ai_name = name, ai_segments = first_by leg_identity ?legs\<rparr>)"
    using find_airway_built [OF g plain, of name] by (simp add: Let_def)
  note spec = first_by_spec [of leg_identity ?legs]
  have sub: "set (first_by leg_identity ?legs) \<subseteq> set ?legs" using spec by (blast elim: list_emb_set)
  show ?thesis
  proof (intro conjI allI impI)
    fix info assume "find_airway (build_airway_index b) name = Some info"
    then have info: "info = \<lparr>ai_name = name, ai_segments = first_by leg_identity ?legs\<rparr>"
      unfolding found by (simp split: if_splits)
    show "ai_name info = name" "distinct (map leg_identity (ai_segments info))" "subseq (ai_segments info) ?legs"
      using spec by (simp_all add: info)
    show "\<forall>l \<in> set (ai_segments info). \<exists>u e. is_vertex (gb_graph b) u \<and> e \<in> set (out_edges (gb_graph b) u) \<and>
         on_airway b name e \<and> edge_leg b u e = Some l"
      using sub mem unfolding info by auto
  next
    fix u e l assume h: "is_vertex (gb_graph b) u \<and> e \<in> set (out_edges (gb_graph b) u) \<and> on_airway b name e \<and>
         edge_leg b u e = Some l \<and> length name \<le> fixed_name8_cap"
    then have l: "l \<in> set ?legs" unfolding mem by blast
    then have "find_airway (build_airway_index b) name = Some \<lparr>ai_name = name, ai_segments = first_by leg_identity ?legs\<rparr>"
      unfolding found using h by auto
    moreover have "leg_identity l \<in> leg_identity ` set (first_by leg_identity ?legs)" using spec l by blast
    ultimately show "\<exists>info. find_airway (build_airway_index b) name = Some info \<and>
        leg_identity l \<in> leg_identity ` set (ai_segments info)" by simp
  qed
qed

lemma airway_lookup_exact_witness:
  "\<exists>b info. build sample_data = Inr b \<and> find_airway (build_airway_index b) ''L9'' = Some info \<and> ai_name info = ''L9'' \<and>
     ai_segments info \<noteq> []"
proof (rule sample_built)
  fix b assume b: "build sample_data = Inr b" and v: "is_vertex (gb_graph b) 0"
  obtain e where e: "e \<in> set (out_edges (gb_graph b) 0)" "edge_to e = 1" "ge_airway_id e \<noteq> 0"
    "airway_name b (uint (ge_airway_id e)) = ''L9''" by (rule sample_token_hop [OF b])
  have on: "on_airway b ''L9'' e"
    using e(3,4) split_designators_single [of "''L9''"] by (simp add: on_airway_def is_designator_def)
  obtain l where l: "edge_leg b 0 e = Some l"
    using e(2) by (simp add: edge_leg_def sample_network(3,4) [OF b] fixed_name_from_def fixed_name8_cap_def)
  have plain: "\<forall>i \<in> set (data_idents sample_data). plain_name (id_ident i)"
    by (simp add: data_idents_def sample_data_def sample_fix_def plain_name_def less_char_def)
  note look = airway_lookup_exact [OF b sample_data_ok(2) plain, of "''L9''"]
  obtain info where "find_airway (build_airway_index b) ''L9'' = Some info" "leg_identity l \<in> leg_identity ` set (ai_segments info)"
    using conjunct2 [OF look] v e(1) on l by (fastforce simp: fixed_name8_cap_def)
  then show ?thesis using b conjunct1 [OF look] by auto
qed



end
