(* ===== verification/ByteIO.thy ===== *)
theory ByteIO
  imports Outcome
begin

unbundle bit_operations_syntax

text \<open>
  \<^verbatim>\<open>io/cache/byte_io.h\<close>: the little-endian writer and bounds-checked reader of the cache codecs, and
  the string pool. Floats travel as their bit patterns, so they are words here. The locale
  \<open>wire_source\<close> is the contract between a reader and the encoding of one kind of value, \<open>wire_format\<close>
  adds the writer; their lemmas carry over to runs of values.
\<close>

section \<open>Writer\<close>

record byte_writer =
  bw_out :: bytes
  bw_ok :: bool

definition byte_writer_new :: byte_writer where
  "byte_writer_new = \<lparr>bw_out = [], bw_ok = True\<rparr>"

definition w_u8 :: "u8 \<Rightarrow> byte_writer \<Rightarrow> byte_writer" where
  "w_u8 v w = w\<lparr>bw_out := bw_out w @ [v]\<rparr>"

definition w_u16 :: "u16 \<Rightarrow> byte_writer \<Rightarrow> byte_writer" where
  "w_u16 v w = w_u8 (ucast (drop_bit 8 v)) (w_u8 (ucast v) w)"

definition w_u32 :: "u32 \<Rightarrow> byte_writer \<Rightarrow> byte_writer" where
  "w_u32 v w = foldl (\<lambda>w i. w_u8 (ucast (drop_bit (8 * i) v)) w) w [0..<4]"

definition w_u64 :: "u64 \<Rightarrow> byte_writer \<Rightarrow> byte_writer" where
  "w_u64 v w = foldl (\<lambda>w i. w_u8 (ucast (drop_bit (8 * i) v)) w) w [0..<8]"

definition w_i16 :: "i16 \<Rightarrow> byte_writer \<Rightarrow> byte_writer" where "w_i16 v = w_u16 v"
definition w_i32 :: "i32 \<Rightarrow> byte_writer \<Rightarrow> byte_writer" where "w_i32 v = w_u32 v"
definition w_f32 :: "u32 \<Rightarrow> byte_writer \<Rightarrow> byte_writer" where "w_f32 v = w_u32 v"
definition w_f64 :: "u64 \<Rightarrow> byte_writer \<Rightarrow> byte_writer" where "w_f64 v = w_u64 v"

definition w_bytes :: "bytes \<Rightarrow> byte_writer \<Rightarrow> byte_writer" where
  "w_bytes bs w = w\<lparr>bw_out := bw_out w @ bs\<rparr>"

definition bytes_of_string :: "string \<Rightarrow> bytes" where
  "bytes_of_string s = map (\<lambda>c. of_nat (of_char c)) s"

definition string_of_bytes :: "bytes \<Rightarrow> string" where
  "string_of_bytes bs = map (\<lambda>b. char_of (unat b)) bs"

definition w_str :: "string \<Rightarrow> byte_writer \<Rightarrow> byte_writer" where
  "w_str s w =
     (if 0xFFFFFFFF < length s then w\<lparr>bw_ok := False\<rparr>
      else w_bytes (bytes_of_string s) (w_u32 (of_nat (length s)) w))"

section \<open>Reader\<close>

record byte_reader =
  br_data :: bytes
  br_pos :: nat
  br_ok :: bool

definition byte_reader_new :: "bytes \<Rightarrow> byte_reader" where
  "byte_reader_new bs = \<lparr>br_data = bs, br_pos = 0, br_ok = True\<rparr>"

definition remaining :: "byte_reader \<Rightarrow> nat" where
  "remaining r = (if br_ok r then length (br_data r) - br_pos r else 0)"

definition r_u8 :: "byte_reader \<Rightarrow> u8 \<times> byte_reader" where
  "r_u8 r =
     (if length (br_data r) < br_pos r + 1 then (0, r\<lparr>br_ok := False\<rparr>)
      else (br_data r ! br_pos r, r\<lparr>br_pos := br_pos r + 1\<rparr>))"

definition r_u16 :: "byte_reader \<Rightarrow> u16 \<times> byte_reader" where
  "r_u16 r = (let (lo, r) = r_u8 r; (hi, r) = r_u8 r in (ucast lo OR push_bit 8 (ucast hi), r))"

definition r_u32 :: "byte_reader \<Rightarrow> u32 \<times> byte_reader" where
  "r_u32 r = foldl (\<lambda>(v, r) i. let (b, r) = r_u8 r in (v OR push_bit (8 * i) (ucast b), r)) (0, r) [0..<4]"

definition r_u64 :: "byte_reader \<Rightarrow> u64 \<times> byte_reader" where
  "r_u64 r = foldl (\<lambda>(v, r) i. let (b, r) = r_u8 r in (v OR push_bit (8 * i) (ucast b), r)) (0, r) [0..<8]"

definition r_i16 :: "byte_reader \<Rightarrow> i16 \<times> byte_reader" where "r_i16 = r_u16"
definition r_i32 :: "byte_reader \<Rightarrow> i32 \<times> byte_reader" where "r_i32 = r_u32"
definition r_f32 :: "byte_reader \<Rightarrow> u32 \<times> byte_reader" where "r_f32 = r_u32"
definition r_f64 :: "byte_reader \<Rightarrow> u64 \<times> byte_reader" where "r_f64 = r_u64"

text \<open>The destination buffer is an argument and comes back, unchanged after a short read.\<close>

definition r_bytes :: "bytes \<Rightarrow> byte_reader \<Rightarrow> bytes \<times> byte_reader" where
  "r_bytes dst r =
     (let n = length dst in
      if length (br_data r) < br_pos r + n then (dst, r\<lparr>br_ok := False\<rparr>)
      else (take n (drop (br_pos r) (br_data r)), r\<lparr>br_pos := br_pos r + n\<rparr>))"

definition r_str :: "byte_reader \<Rightarrow> string \<times> byte_reader" where
  "r_str r =
     (let (len, r) = r_u32 r in
      if \<not> br_ok r \<or> remaining r < unat len then ([], r\<lparr>br_ok := False\<rparr>)
      else (string_of_bytes (take (unat len) (drop (br_pos r) (br_data r))), r\<lparr>br_pos := br_pos r + unat len\<rparr>))"

text \<open>The little-endian value of consecutive groups of bytes, as the bulk reads decode them.\<close>

definition i16_at :: "bytes \<Rightarrow> nat \<Rightarrow> i16" where
  "i16_at bs i = ucast (bs ! (2 * i)) OR push_bit 8 (ucast (bs ! (2 * i + 1)))"

definition i32_at :: "bytes \<Rightarrow> nat \<Rightarrow> i32" where
  "i32_at bs i = ucast (bs ! (4 * i)) OR push_bit 8 (ucast (bs ! (4 * i + 1))) OR
     push_bit 16 (ucast (bs ! (4 * i + 2))) OR push_bit 24 (ucast (bs ! (4 * i + 3)))"

definition r_i16_span :: "i16 list \<Rightarrow> byte_reader \<Rightarrow> i16 list \<times> byte_reader" where
  "r_i16_span dst r =
     (let n = length dst in
      if length (br_data r) < br_pos r + n * 2 then (dst, r\<lparr>br_ok := False\<rparr>)
      else (map (i16_at (drop (br_pos r) (br_data r))) [0..<n], r\<lparr>br_pos := br_pos r + n * 2\<rparr>))"

definition r_i32_span :: "i32 list \<Rightarrow> byte_reader \<Rightarrow> i32 list \<times> byte_reader" where
  "r_i32_span dst r =
     (let n = length dst in
      if length (br_data r) < br_pos r + n * 4 then (dst, r\<lparr>br_ok := False\<rparr>)
      else (map (i32_at (drop (br_pos r) (br_data r))) [0..<n], r\<lparr>br_pos := br_pos r + n * 4\<rparr>))"

text \<open>A counted loop of reads.\<close>

primrec r_many :: "nat \<Rightarrow> (byte_reader \<Rightarrow> 'a \<times> byte_reader) \<Rightarrow> byte_reader \<Rightarrow> 'a list \<times> byte_reader" where
  "r_many 0 get r = ([], r)"
| "r_many (Suc n) get r = (let (x, r) = get r; (xs, r) = r_many n get r in (x # xs, r))"

section \<open>String pool\<close>

record string_pool =
  sp_blob :: bytes
  sp_interned :: "string \<rightharpoonup> u32 \<times> u32"

definition string_pool_new :: string_pool where
  "string_pool_new = \<lparr>sp_blob = [], sp_interned = Map.empty\<rparr>"

definition pool_add :: "string \<Rightarrow> string_pool \<Rightarrow> (u32 \<times> u32) \<times> string_pool" where
  "pool_add s p =
     (case sp_interned p s of
        Some ref \<Rightarrow> (ref, p)
      | None \<Rightarrow>
          let ref = (of_nat (length (sp_blob p)), of_nat (length s)) in
          (ref, p\<lparr>sp_blob := sp_blob p @ bytes_of_string s, sp_interned := (sp_interned p)(s \<mapsto> ref)\<rparr>))"

definition resolve_ref :: "bytes \<Rightarrow> u32 \<Rightarrow> u32 \<Rightarrow> bool \<Rightarrow> string \<times> bool" where
  "resolve_ref pool offset len ok =
     (if length pool < unat offset \<or> length pool - unat offset < unat len then ([], False)
      else (string_of_bytes (take (unat len) (drop (unat offset) pool)), ok))"

section \<open>The contract of a wire format\<close>

text \<open>A reader that has consumed \<open>pre\<close> and has \<open>post\<close> ahead.\<close>

definition reader_at :: "bytes \<Rightarrow> bytes \<Rightarrow> byte_reader" where
  "reader_at pre post = \<lparr>br_data = pre @ post, br_pos = length pre, br_ok = True\<rparr>"

lemma reader_at_sel [simp]:
  "br_data (reader_at pre post) = pre @ post" "br_pos (reader_at pre post) = length pre" "br_ok (reader_at pre post)"
  "remaining (reader_at pre post) = length post"
  by (simp_all add: reader_at_def remaining_def)

lemma byte_reader_new_at: "byte_reader_new bs = reader_at [] bs"
  by (simp add: byte_reader_new_def reader_at_def)

locale wire_source =
  fixes get :: "byte_reader \<Rightarrow> 'a \<times> byte_reader" and enc :: "'a \<Rightarrow> bytes" and width :: nat
  assumes get_enc: "get (reader_at pre (enc x @ post)) = (x, reader_at (pre @ enc x) post)"
    and enc_width: "length (enc x) = width"
begin

lemma get_many: "r_many (length xs) get (reader_at pre (concat (map enc xs) @ post)) =
    (xs, reader_at (pre @ concat (map enc xs)) post)"
  by (induction xs arbitrary: pre) (simp_all add: get_enc)

lemma enc_all_width: "length (concat (map enc xs)) = width * length xs"
  by (induction xs) (simp_all add: enc_width)

end

locale wire_format = wire_source get enc width
  for get :: "byte_reader \<Rightarrow> 'a \<times> byte_reader" and enc :: "'a \<Rightarrow> bytes" and width :: nat +
  fixes put :: "'a \<Rightarrow> byte_writer \<Rightarrow> byte_writer"
  assumes put_enc: "put x w = w\<lparr>bw_out := bw_out w @ enc x\<rparr>"
begin

lemma put_all: "foldl (\<lambda>w x. put x w) w xs = w\<lparr>bw_out := bw_out w @ concat (map enc xs)\<rparr>"
  by (induction xs arbitrary: w) (simp_all add: put_enc)

lemma get_back: "get (byte_reader_new (bw_out (put x byte_writer_new))) = (x, reader_at (enc x) [])"
  using get_enc [of "[]" x "[]"] by (simp add: put_enc byte_writer_new_def byte_reader_new_at)

end

section \<open>The primitives keep it\<close>

definition enc_u8 :: "u8 \<Rightarrow> bytes" where "enc_u8 v = [v]"
definition enc_u16 :: "u16 \<Rightarrow> bytes" where "enc_u16 v = map (\<lambda>i. ucast (drop_bit (8 * i) v)) [0..<2]"
definition enc_u32 :: "u32 \<Rightarrow> bytes" where "enc_u32 v = map (\<lambda>i. ucast (drop_bit (8 * i) v)) [0..<4]"
definition enc_u64 :: "u64 \<Rightarrow> bytes" where "enc_u64 v = map (\<lambda>i. ucast (drop_bit (8 * i) v)) [0..<8]"

lemma w_loop: "foldl (\<lambda>w i. w_u8 (f i) w) w is = w\<lparr>bw_out := bw_out w @ map f is\<rparr>"
  by (induction "is" arbitrary: w) (simp_all add: w_u8_def)

lemma r_u8_at [simp]: "r_u8 (reader_at pre (b # post)) = (b, reader_at (pre @ [b]) post)"
  by (simp add: r_u8_def reader_at_def)

text \<open>Joining the bytes of a word gives it back.\<close>

lemma or_bytes:
  "foldl (\<lambda>(v, r) i. let (b, r) = r_u8 r in (v OR push_bit (8 * i) (ucast b), r)) (acc, reader_at pre (map f is @ post)) is =
     (foldl (\<lambda>v i. v OR push_bit (8 * i) (ucast (f i))) acc is, reader_at (pre @ map f is) post)"
  by (induction "is" arbitrary: acc pre) simp_all

lemma join_u16: "ucast (ucast v :: u8) OR push_bit 8 (ucast (ucast (drop_bit 8 v) :: u8)) = (v :: u16)"
  by (rule bit_word_eqI) (auto simp: bit_simps)

lemma join_bytes:
  fixes v acc :: "'a :: len word"
  shows "bit (foldl (\<lambda>acc i. acc OR push_bit (8 * i) (ucast (ucast (drop_bit (8 * i) v) :: u8))) acc [0..<n]) k \<longleftrightarrow>
    bit acc k \<or> (k < 8 * n \<and> bit v k)"
proof (induction n)
  case (Suc n)
  have "bit (push_bit (8 * n) (ucast (ucast (drop_bit (8 * n) v) :: u8)) :: 'a word) k \<longleftrightarrow>
      8 * n \<le> k \<and> k < 8 * Suc n \<and> bit v k"
    by (auto simp: bit_simps dest: bit_imp_le_length)
  then show ?case using Suc by (auto simp: bit_simps)
qed simp

lemma join_u32: "foldl (\<lambda>acc i. acc OR push_bit (8 * i) (ucast (ucast (drop_bit (8 * i) v) :: u8))) 0 [0..<4] = (v :: u32)"
  by (rule bit_word_eqI) (use join_bytes [of v 0 4] in simp)

lemma join_u64: "foldl (\<lambda>acc i. acc OR push_bit (8 * i) (ucast (ucast (drop_bit (8 * i) v) :: u8))) 0 [0..<8] = (v :: u64)"
  by (rule bit_word_eqI) (use join_bytes [of v 0 8] in simp)

lemma r_u16_at: "r_u16 (reader_at pre (enc_u16 v @ post)) = (v, reader_at (pre @ enc_u16 v) post)"
  by (simp add: r_u16_def enc_u16_def upt_rec join_u16)

lemma r_u32_at: "r_u32 (reader_at pre (enc_u32 v @ post)) = (v, reader_at (pre @ enc_u32 v) post)"
  unfolding r_u32_def enc_u32_def or_bytes join_u32 ..

lemma r_u64_at: "r_u64 (reader_at pre (enc_u64 v @ post)) = (v, reader_at (pre @ enc_u64 v) post)"
  unfolding r_u64_def enc_u64_def or_bytes join_u64 ..

interpretation fmt_u8: wire_format r_u8 enc_u8 1 w_u8
  by unfold_locales (simp_all add: w_u8_def enc_u8_def)

interpretation fmt_u16: wire_format r_u16 enc_u16 2 w_u16
  by unfold_locales (simp_all add: r_u16_at, simp_all add: w_u16_def w_u8_def enc_u16_def upt_rec)

interpretation fmt_u32: wire_format r_u32 enc_u32 4 w_u32
  by unfold_locales (simp_all add: r_u32_at, simp_all add: w_u32_def w_loop enc_u32_def)

interpretation fmt_u64: wire_format r_u64 enc_u64 8 w_u64
  by unfold_locales (simp_all add: r_u64_at, simp_all add: w_u64_def w_loop enc_u64_def)

lemmas int_wrappers = w_i16_def w_i32_def w_f32_def w_f64_def r_i16_def r_i32_def r_f32_def r_f64_def

lemmas put_encs = fmt_u8.put_enc fmt_u16.put_enc fmt_u32.put_enc fmt_u64.put_enc

lemmas get_encs = fmt_u8.get_enc fmt_u16.get_enc fmt_u32.get_enc fmt_u64.get_enc

lemmas enc_widths = fmt_u8.enc_width fmt_u16.enc_width fmt_u32.enc_width fmt_u64.enc_width


section \<open>Strings and bulk reads\<close>

lemma length_bytes_of_string [simp]: "length (bytes_of_string s) = length s"
  by (simp add: bytes_of_string_def)

lemma string_of_bytes_of_string [simp]: "string_of_bytes (bytes_of_string s) = s"
proof -
  have "unat (of_nat (of_char c) :: u8) = (of_char c :: nat)" for c :: char
    by (simp add: unat_of_nat)
  then show ?thesis by (simp add: string_of_bytes_def bytes_of_string_def comp_def)
qed

definition enc_str :: "string \<Rightarrow> bytes" where
  "enc_str s = enc_u32 (of_nat (length s)) @ bytes_of_string s"

lemma unat_length_u32: "n \<le> 0xFFFFFFFF \<Longrightarrow> unat (of_nat n :: u32) = n"
  by (simp add: unat_of_nat)

lemma w_str_enc: "length s \<le> 0xFFFFFFFF \<Longrightarrow> w_str s w = w\<lparr>bw_out := bw_out w @ enc_str s\<rparr>"
  by (simp add: w_str_def w_bytes_def fmt_u32.put_enc enc_str_def)

lemma r_str_enc:
  assumes "length s \<le> 0xFFFFFFFF"
  shows "r_str (reader_at pre (enc_str s @ post)) = (s, reader_at (pre @ enc_str s) post)"
  using fmt_u32.get_enc [of pre "of_nat (length s)" "bytes_of_string s @ post"] unat_length_u32 [OF assms]
  by (simp add: r_str_def enc_str_def)

lemma nth_concat_width:
  assumes "\<And>x. length (enc x) = k" and "i < length xs" and "j < k"
  shows "(concat (map enc xs) @ post) ! (k * i + j) = enc (xs ! i) ! j"
  using assms(2)
proof (induction xs arbitrary: i)
  case (Cons x xs)
  show ?case
  proof (cases i)
    case 0
    then show ?thesis using assms(1,3) by (simp add: nth_append)
  next
    case (Suc m)
    then have "(concat (map enc xs) @ post) ! (k * m + j) = enc (xs ! m) ! j" using Cons by simp
    then show ?thesis using Suc assms(1) by (simp add: nth_append algebra_simps)
  qed
qed simp

lemma i16_at_enc:
  assumes "i < length xs"
  shows "i16_at (concat (map enc_u16 xs) @ post) i = xs ! i"
proof -
  have "(concat (map enc_u16 xs) @ post) ! (2 * i + j) = enc_u16 (xs ! i) ! j" if "j < 2" for j
    by (rule nth_concat_width [OF fmt_u16.enc_width assms that])
  from this [of 0] this [of 1] show ?thesis
    by (simp add: i16_at_def enc_u16_def join_u16 del: One_nat_def)
qed

lemma i32_at_enc:
  assumes "i < length xs"
  shows "i32_at (concat (map enc_u32 xs) @ post) i = xs ! i"
proof -
  have "(concat (map enc_u32 xs) @ post) ! (4 * i + j) = enc_u32 (xs ! i) ! j" if "j < 4" for j
    by (rule nth_concat_width [OF fmt_u32.enc_width assms that])
  from this [of 0] this [of 1] this [of 2] this [of 3] have "i32_at (concat (map enc_u32 xs) @ post) i =
      foldl (\<lambda>acc j. acc OR push_bit (8 * j) (ucast (ucast (drop_bit (8 * j) (xs ! i)) :: u8))) 0 [0..<4]"
    by (simp add: i32_at_def enc_u32_def upt_rec or.assoc)
  then show ?thesis by (simp only: join_u32)
qed

lemma r_i16_span_enc:
  assumes "length dst = length xs"
  shows "r_i16_span dst (reader_at pre (concat (map enc_u16 xs) @ post)) = (xs, reader_at (pre @ concat (map enc_u16 xs)) post)"
proof -
  have "map (i16_at (concat (map enc_u16 xs) @ post)) [0..<length xs] = xs"
    by (rule nth_equalityI) (simp_all add: i16_at_enc)
  then show ?thesis using assms fmt_u16.enc_all_width [of xs] by (simp add: r_i16_span_def reader_at_def)
qed

lemma r_i32_span_enc:
  assumes "length dst = length xs"
  shows "r_i32_span dst (reader_at pre (concat (map enc_u32 xs) @ post)) = (xs, reader_at (pre @ concat (map enc_u32 xs)) post)"
proof -
  have "map (i32_at (concat (map enc_u32 xs) @ post)) [0..<length xs] = xs"
    by (rule nth_equalityI) (simp_all add: i32_at_enc)
  then show ?thesis using assms fmt_u32.enc_all_width [of xs] by (simp add: r_i32_span_def reader_at_def)
qed

section \<open>The pool keeps its references\<close>

definition refers :: "bytes \<Rightarrow> u32 \<times> u32 \<Rightarrow> string \<Rightarrow> bool" where
  "refers blob ref s \<longleftrightarrow> unat (fst ref) + unat (snd ref) \<le> length blob \<and>
     take (unat (snd ref)) (drop (unat (fst ref)) blob) = bytes_of_string s"

definition pool_ok :: "string_pool \<Rightarrow> bool" where
  "pool_ok p \<longleftrightarrow> (\<forall>s ref. sp_interned p s = Some ref \<longrightarrow> refers (sp_blob p) ref s)"

lemma pool_ok_new [simp]: "pool_ok string_pool_new"
  by (simp add: pool_ok_def string_pool_new_def)

lemma refers_resolve: "refers blob (off, len) s \<Longrightarrow> resolve_ref blob off len ok = (s, ok)"
  by (auto simp: refers_def resolve_ref_def)

lemma refers_append: "refers blob ref s \<Longrightarrow> refers (blob @ extra) ref s"
  by (auto simp: refers_def)

lemma pool_add_grows:
  assumes "pool_add s p = (ref, p')"
  shows "\<exists>extra. sp_blob p' = sp_blob p @ extra"
  using assms by (auto simp: pool_add_def Let_def split: option.splits)

lemma pool_add_spec:
  assumes "pool_add s p = (ref, p')" and "pool_ok p" and "length (sp_blob p') \<le> 0xFFFFFFFF"
  shows "pool_ok p'" and "refers (sp_blob p') ref s"
proof -
  have "pool_ok p' \<and> refers (sp_blob p') ref s"
  proof (cases "sp_interned p s")
    case (Some r)
    then show ?thesis using assms(1,2) by (cases ref) (auto simp: pool_add_def pool_ok_def)
  next
    case None
    then have p': "ref = (of_nat (length (sp_blob p)), of_nat (length s))"
      "p' = p\<lparr>sp_blob := sp_blob p @ bytes_of_string s, sp_interned := (sp_interned p)(s \<mapsto> ref)\<rparr>"
      using assms(1) by (auto simp: pool_add_def Let_def)
    have "unat (of_nat (length (sp_blob p)) :: u32) = length (sp_blob p)" "unat (of_nat (length s) :: u32) = length s"
      using assms(3) p' by (auto intro!: unat_length_u32)
    then have "refers (sp_blob p') ref s" by (simp add: p' refers_def)
    moreover have "refers (sp_blob p') r t" if "sp_interned p t = Some r" for t r
      using assms(2) that by (simp add: pool_ok_def p' refers_append del: split_paired_All)
    ultimately show ?thesis by (auto simp: pool_ok_def p' split: if_splits)
  qed
  then show "pool_ok p'" "refers (sp_blob p') ref s" by blast+
qed

text \<open>
  The error flag does not stop a reader: after a read that runs past the end, a shorter read still
  returns data and only \<open>br_ok\<close> tells.
\<close>

lemma reads_continue_after_error:
  "let (buf, r) = r_bytes [0, 0, 0, 0] (byte_reader_new [7, 8]) in
     \<not> br_ok r \<and> fst (r_u8 r) = 7 \<and> \<not> br_ok (snd (r_u8 r))"
  by (simp add: r_bytes_def byte_reader_new_def r_u8_def)

end
