(* ===== verification/GraphCodec.thy ===== *)
theory GraphCodec
  imports ByteIO NavData
begin

unbundle bit_operations_syntax

text \<open>
  \<^verbatim>\<open>io/cache/graph_codec.cc\<close>: the graph section of the binary cache. Coordinates and edge lengths are
  bit patterns here (\<open>u64\<close>, \<open>u32\<close>), as they travel. Encoding threads the writer and the shared string
  pool; decoding reads with a sticky error flag, then validates, then resolves the pool references.
\<close>

type_synonym cached_graph = "(u64, u32) graph_snapshot"

definition flag_has_outbound :: u8 where "flag_has_outbound = 1"
definition flag_has_inbound :: u8 where "flag_has_inbound = 2"

definition is_vertex_kind_byte :: "u8 \<Rightarrow> bool" where
  "is_vertex_kind_byte b \<longleftrightarrow> b \<le> waypoint_kind_byte KIlsDme \<and> is_graph_vertex_kind (waypoint_kind_of_byte b)"

text \<open>The packed sizes of the fixed-length records.\<close>

definition vertex_record_size :: nat where "vertex_record_size = 34"
definition airport_record_size :: nat where "airport_record_size = 4"
definition edge_record_size :: nat where "edge_record_size = 15"
definition airway_ref_size :: nat where "airway_ref_size = 8"
definition msa_header_size :: nat where "msa_header_size = 28"
definition msa_arc_size :: nat where "msa_arc_size = 12"

section \<open>Wire records\<close>

record wire_vertex =
  wv_lat :: u64
  wv_lon :: u64
  wv_io :: u32
  wv_il :: u32
  wv_ro :: u32
  wv_rl :: u32
  wv_flags :: u8
  wv_kind :: u8

record wire_edge =
  we_to :: i32
  we_distance :: u32
  we_airway_id :: u16
  we_base_fl :: i16
  we_top_fl :: i16
  we_level :: u8

record wire_msa =
  wm_cio :: u32
  wm_cil :: u32
  wm_cro :: u32
  wm_crl :: u32
  wm_aio :: u32
  wm_ail :: u32
  wm_arcs :: "msa_arc list"

section \<open>Encoding\<close>

definition serialization_error :: "string \<Rightarrow> 'a result" where
  "serialization_error why = Inl (mk_error KSerializationError why)"

definition vertex_flags :: "u8 \<Rightarrow> u8 \<Rightarrow> u8" where
  "vertex_flags outb inb =
     (let flags = 0; flags = (if outb \<noteq> 0 then flags OR flag_has_outbound else flags)
      in if inb \<noteq> 0 then flags OR flag_has_inbound else flags)"

definition encode_vertex :: "cached_graph \<Rightarrow> nat \<Rightarrow> byte_writer \<times> string_pool \<Rightarrow> (byte_writer \<times> string_pool) result" where
  "encode_vertex s i = (\<lambda>(w, p).
     let c = gs_coords s ! i; w = w_f64 (latitude c) w; w = w_f64 (longitude c) w; f = gs_idents s ! i;
         (ir, p) = pool_add (ident_view f) p; (rr, p) = pool_add (icao_code_view f) p;
         w = w_u32 (fst ir) w; w = w_u32 (snd ir) w; w = w_u32 (fst rr) w; w = w_u32 (snd rr) w;
         w = w_u8 (vertex_flags (gs_has_outbound s ! i) (gs_has_inbound s ! i)) w;
         kind = waypoint_kind_byte (gs_kinds s ! i)
     in if \<not> is_vertex_kind_byte kind then serialization_error ''vertex kind out of range''
        else Inr (w_u8 kind w, p))"

primrec encode_vertices ::
  "cached_graph \<Rightarrow> nat list \<Rightarrow> byte_writer \<times> string_pool \<Rightarrow> (byte_writer \<times> string_pool) result" where
  "encode_vertices s [] wp = Inr wp"
| "encode_vertices s (i # is) wp =
     (case encode_vertex s i wp of Inl e \<Rightarrow> Inl e | Inr wp \<Rightarrow> encode_vertices s is wp)"

primrec encode_offsets :: "int \<Rightarrow> int list \<Rightarrow> byte_writer \<Rightarrow> byte_writer result" where
  "encode_offsets prev [] w = Inr w"
| "encode_offsets prev (off # offs) w =
     (if off < prev then serialization_error ''CSR offsets must be non-decreasing''
      else encode_offsets off offs (w_i32 (word_of_int off) w))"

definition w_edge :: "u32 graph_edge \<Rightarrow> byte_writer \<Rightarrow> byte_writer" where
  "w_edge e w =
     w_u8 (airway_level_byte (ge_level e)) (w_i16 (ge_top_fl e) (w_i16 (ge_base_fl e)
       (w_u16 (ge_airway_id e) (w_f32 (ge_distance_nm e) (w_i32 (ge_to e) w)))))"

primrec encode_edges :: "nat \<Rightarrow> nat \<Rightarrow> u32 graph_edge list \<Rightarrow> byte_writer \<Rightarrow> byte_writer result" where
  "encode_edges v names [] w = Inr w"
| "encode_edges v names (e # es) w =
     (if edge_to e < 0 \<or> int v \<le> edge_to e then serialization_error ''edge target vertex out of range''
      else if names \<le> unat (ge_airway_id e) then serialization_error ''edge airway-name index out of range''
      else if airway_level_byte LevelBoth < airway_level_byte (ge_level e) then
        serialization_error ''edge airway level out of range''
      else encode_edges v names es (w_edge e w))"

definition w_ref :: "u32 \<times> u32 \<Rightarrow> byte_writer \<Rightarrow> byte_writer" where
  "w_ref ref w = w_u32 (snd ref) (w_u32 (fst ref) w)"

definition encode_name :: "byte_writer \<times> string_pool \<Rightarrow> string \<Rightarrow> byte_writer \<times> string_pool" where
  "encode_name = (\<lambda>(w, p) name. let (ref, p) = pool_add name p in (w_ref ref w, p))"

definition w_arc :: "msa_arc \<Rightarrow> byte_writer \<Rightarrow> byte_writer" where
  "w_arc a w = w_i32 (ma_radius_nm a) (w_i32 (ma_alt_100ft a) (w_i32 (ma_bearing_from a) w))"

definition encode_msa :: "byte_writer \<times> string_pool \<Rightarrow> msa_sector \<Rightarrow> byte_writer \<times> string_pool" where
  "encode_msa = (\<lambda>(w, p) s.
     let (ci, p) = pool_add (id_ident (ms_center s)) p; (cr, p) = pool_add (id_icao_code (ms_center s)) p;
         (ai, p) = pool_add (ms_airport_icao s) p; w = w_ref ai (w_ref cr (w_ref ci w));
         w = w_u32 (of_nat (length (ms_arcs s))) w
     in (foldl (\<lambda>w a. w_arc a w) w (ms_arcs s), p))"

text \<open>The consistency checks made before anything is written.\<close>

definition snapshot_shape_ok :: "cached_graph \<Rightarrow> bool" where
  "snapshot_shape_ok s \<longleftrightarrow> (let v = length (gs_coords s) in
     length (gs_offsets s) = v + 1 \<and> length (gs_idents s) = v \<and> length (gs_has_outbound s) = v \<and>
     length (gs_has_inbound s) = v \<and> length (gs_kinds s) = v)"

definition airport_shape_ok :: "cached_graph \<Rightarrow> bool" where
  "airport_shape_ok s \<longleftrightarrow> (let v = int (length (gs_coords s)) in
     0 \<le> gs_first_airport_vertex s \<and> gs_first_airport_vertex s \<le> v \<and>
     int (length (gs_airport_elevations_ft s)) = v - gs_first_airport_vertex s)"

definition encode_counts :: "cached_graph \<Rightarrow> byte_writer \<Rightarrow> byte_writer" where
  "encode_counts s w =
     w_u32 (word_of_int (gs_first_airport_vertex s)) (w_u32 (of_nat (length (gs_msa s)))
       (w_u32 (of_nat (length (gs_airway_names s))) (w_u32 (of_nat (length (gs_edges s)))
         (w_u32 (of_nat (length (gs_coords s))) w))))"

text \<open>The tail after the edges: names, MORA cells and MSA sectors.\<close>

definition encode_tail :: "cached_graph \<Rightarrow> byte_writer \<times> string_pool \<Rightarrow> byte_writer \<times> string_pool" where
  "encode_tail s wp =
     (let (w, p) = foldl encode_name wp (gs_airway_names s);
          w = foldl (\<lambda>w c. w_i16 c w) w (mg_cells (gs_mora s))
      in foldl encode_msa (w, p) (gs_msa s))"

definition graph_encode ::
  "cached_graph \<Rightarrow> byte_writer \<Rightarrow> string_pool \<Rightarrow> (byte_writer \<times> string_pool) result" where
  "graph_encode s w p =
     (if 0xFFFF < length (gs_airway_names s) then
        serialization_error ''too many airway names to serialize (> 65535)''
      else if \<not> snapshot_shape_ok s then serialization_error ''inconsistent snapshot array sizes''
      else if \<not> airport_shape_ok s then serialization_error ''inconsistent airport array size''
      else case encode_vertices s [0..<length (gs_coords s)] (encode_counts s w, p) of
          Inl e \<Rightarrow> Inl e
        | Inr (w, p) \<Rightarrow>
            let w = foldl (\<lambda>w elev. w_i32 elev w) w (gs_airport_elevations_ft s) in
            if hd (gs_offsets s) \<noteq> 0 then serialization_error ''CSR offsets must start at 0''
            else case encode_offsets 0 (gs_offsets s) w of
                Inl e \<Rightarrow> Inl e
              | Inr w \<Rightarrow>
                  if last (gs_offsets s) \<noteq> sint (of_nat (length (gs_edges s)) :: i32) then
                    serialization_error ''CSR offsets must end at the edge count''
                  else case encode_edges (length (gs_coords s)) (length (gs_airway_names s)) (gs_edges s) w of
                      Inl e \<Rightarrow> Inl e
                    | Inr w \<Rightarrow> Inr (encode_tail s (w, p)))"


section \<open>Decoding\<close>

definition bad :: "string \<Rightarrow> 'a result" where
  "bad why = Inl (mk_error KCacheCorrupt (with_rebuild_hint why))"

text \<open>The five counts of the section header.\<close>

record graph_counts =
  gc_v :: u32
  gc_e :: u32
  gc_airways :: u32
  gc_msa :: u32
  gc_first_airport :: i32

definition r_counts :: "byte_reader \<Rightarrow> graph_counts \<times> byte_reader" where
  "r_counts r =
     (let (v, r) = r_u32 r; (e, r) = r_u32 r; (airways, r) = r_u32 r; (msa, r) = r_u32 r; (fa, r) = r_u32 r
      in (\<lparr>gc_v = v, gc_e = e, gc_airways = airways, gc_msa = msa, gc_first_airport = fa\<rparr>, r))"

definition count_fits :: "nat \<Rightarrow> u32 \<Rightarrow> nat \<Rightarrow> bool" where
  "count_fits avail n per_elem \<longleftrightarrow> unat n \<le> avail div per_elem"

definition airport_count :: "graph_counts \<Rightarrow> u32" where
  "airport_count c = gc_v c - gc_first_airport c"

definition min_body_bytes :: "graph_counts \<Rightarrow> nat" where
  "min_body_bytes c =
     unat (gc_v c) * vertex_record_size + unat (airport_count c) * airport_record_size +
     unat (gc_e c) * edge_record_size + unat (gc_airways c) * airway_ref_size +
     unat (gc_msa c) * msa_header_size + unat (gc_v c + 1) * 4 + lat_count * lon_count * 2"

text \<open>The fuses before any allocation.\<close>

definition counts_fuse :: "graph_counts \<Rightarrow> byte_reader \<Rightarrow> string option" where
  "counts_fuse c r =
     (if \<not> br_ok r \<or> sint (gc_first_airport c) < 0 \<or> gc_v c < gc_first_airport c then
        Some ''corrupt .bfdb: first_airport_vertex out of range''
      else
        let avail = remaining r in
        if \<not> count_fits avail (gc_v c) vertex_record_size \<or> \<not> count_fits avail (airport_count c) airport_record_size \<or>
           \<not> count_fits avail (gc_e c) edge_record_size \<or> \<not> count_fits avail (gc_airways c) airway_ref_size \<or>
           \<not> count_fits avail (gc_msa c) msa_header_size then
          Some ''corrupt .bfdb: section counts exceed section size''
        else if avail < min_body_bytes c then Some ''corrupt .bfdb: combined section counts exceed section size''
        else None)"

definition r_vertex :: "byte_reader \<Rightarrow> wire_vertex \<times> byte_reader" where
  "r_vertex r =
     (let (lat, r) = r_f64 r; (lon, r) = r_f64 r; (io, r) = r_u32 r; (il, r) = r_u32 r; (ro, r) = r_u32 r;
          (rl, r) = r_u32 r; (flags, r) = r_u8 r; (kind, r) = r_u8 r
      in (\<lparr>wv_lat = lat, wv_lon = lon, wv_io = io, wv_il = il, wv_ro = ro, wv_rl = rl, wv_flags = flags, wv_kind = kind\<rparr>, r))"

definition r_edge :: "byte_reader \<Rightarrow> wire_edge \<times> byte_reader" where
  "r_edge r =
     (let (to, r) = r_i32 r; (d, r) = r_f32 r; (a, r) = r_u16 r; (base, r) = r_i16 r; (tp, r) = r_i16 r; (l, r) = r_u8 r
      in (\<lparr>we_to = to, we_distance = d, we_airway_id = a, we_base_fl = base, we_top_fl = tp, we_level = l\<rparr>, r))"

definition r_ref :: "byte_reader \<Rightarrow> (u32 \<times> u32) \<times> byte_reader" where
  "r_ref r = (let (off, r) = r_u32 r; (len, r) = r_u32 r in ((off, len), r))"

definition r_arc :: "byte_reader \<Rightarrow> msa_arc \<times> byte_reader" where
  "r_arc r =
     (let (f, r) = r_i32 r; (a, r) = r_i32 r; (n, r) = r_i32 r
      in (\<lparr>ma_bearing_from = f, ma_alt_100ft = a, ma_radius_nm = n\<rparr>, r))"

text \<open>One sector; its arc count is fused against the bytes that remain.\<close>

definition r_msa :: "byte_reader \<Rightarrow> (wire_msa \<times> byte_reader) result" where
  "r_msa r =
     (let (ci, r) = r_ref r; (cr, r) = r_ref r; (ai, r) = r_ref r; (arc_count, r) = r_u32 r in
      if \<not> br_ok r \<or> remaining r div msa_arc_size < unat arc_count then bad ''corrupt .bfdb msa section''
      else
        let (arcs, r) = r_many (unat arc_count) r_arc r in
        Inr (\<lparr>wm_cio = fst ci, wm_cil = snd ci, wm_cro = fst cr, wm_crl = snd cr, wm_aio = fst ai, wm_ail = snd ai,
              wm_arcs = arcs\<rparr>, r))"

primrec r_msas :: "nat \<Rightarrow> byte_reader \<Rightarrow> (wire_msa list \<times> byte_reader) result" where
  "r_msas 0 r = Inr ([], r)"
| "r_msas (Suc n) r =
     (case r_msa r of
        Inl e \<Rightarrow> Inl e
      | Inr (m, r) \<Rightarrow> (case r_msas n r of Inl e \<Rightarrow> Inl e | Inr (ms, r) \<Rightarrow> Inr (m # ms, r)))"

text \<open>The section as read, before validation.\<close>

record raw_graph =
  rg_counts :: graph_counts
  rg_vertices :: "wire_vertex list"
  rg_elevations :: "i32 list"
  rg_offsets :: "i32 list"
  rg_edges :: "wire_edge list"
  rg_airway_refs :: "(u32 \<times> u32) list"
  rg_cells :: "i16 list"
  rg_msas :: "wire_msa list"

definition read_section :: "graph_counts \<Rightarrow> byte_reader \<Rightarrow> (raw_graph \<times> byte_reader) result" where
  "read_section c r =
     (let (vertices, r) = r_many (unat (gc_v c)) r_vertex r;
          (elevations, r) = r_many (unat (airport_count c)) r_i32 r;
          (offsets, r) = r_i32_span (replicate (unat (gc_v c) + 1) 0) r;
          (edges, r) = r_many (unat (gc_e c)) r_edge r;
          (refs, r) = r_many (unat (gc_airways c)) r_ref r;
          (cells, r) = r_i16_span (replicate (lat_count * lon_count) 0) r
      in case r_msas (unat (gc_msa c)) r of
           Inl e \<Rightarrow> Inl e
         | Inr (msas, r) \<Rightarrow>
             Inr (\<lparr>rg_counts = c, rg_vertices = vertices, rg_elevations = elevations, rg_offsets = offsets,
                   rg_edges = edges, rg_airway_refs = refs, rg_cells = cells, rg_msas = msas\<rparr>, r))"

text \<open>The semantic validation, in the order of the checks.\<close>

primrec check_edges :: "u32 \<Rightarrow> u32 \<Rightarrow> wire_edge list \<Rightarrow> string option" where
  "check_edges v airways [] = None"
| "check_edges v airways (e # es) =
     (if sint (we_to e) < 0 \<or> v \<le> we_to e then Some ''corrupt .bfdb: edge target vertex out of range''
      else if unat airways \<le> unat (we_airway_id e) then Some ''corrupt .bfdb: edge airway-name index out of range''
      else if airway_level_byte LevelBoth < we_level e then Some ''corrupt .bfdb: edge airway level out of range''
      else check_edges v airways es)"

definition validate_section :: "raw_graph \<Rightarrow> byte_reader \<Rightarrow> string option" where
  "validate_section g r =
     (let c = rg_counts g; offs = map sint (rg_offsets g) in
      if \<not> br_ok r then Some ''corrupt .bfdb graph section''
      else if remaining r \<noteq> 0 then Some ''corrupt .bfdb: graph section has trailing bytes''
      else if hd offs \<noteq> 0 \<or> last offs \<noteq> sint (gc_e c) then
        Some ''corrupt .bfdb: CSR offsets do not span [0, edge count]''
      else if \<not> list_all (\<lambda>i. offs ! i \<le> offs ! (i + 1)) [0..<unat (gc_v c)] then
        Some ''corrupt .bfdb: CSR offsets are not monotonic''
      else case check_edges (gc_v c) (gc_airways c) (rg_edges g) of
          Some why \<Rightarrow> Some why
        | None \<Rightarrow>
            if \<not> list_all (\<lambda>w. is_vertex_kind_byte (wv_kind w)) (rg_vertices g) then
              Some ''corrupt .bfdb: vertex kind out of range''
            else None)"

section \<open>Resolving the references\<close>

text \<open>The vertex identifiers; \<open>i\<close> numbers the vertex in the message, \<open>ok\<close> is \<open>refs_ok\<close>.\<close>

primrec resolve_idents :: "bytes \<Rightarrow> nat \<Rightarrow> wire_vertex list \<Rightarrow> bool \<Rightarrow> (fixed_ident list \<times> bool) result" where
  "resolve_idents pool i [] ok = Inr ([], ok)"
| "resolve_idents pool i (w # ws) ok =
     (let (s, ok) = resolve_ref pool (wv_io w) (wv_il w) ok; (reg, ok) = resolve_ref pool (wv_ro w) (wv_rl w) ok in
      case fixed_ident_from_parts s reg of
        Inl e \<Rightarrow> bad (''corrupt .bfdb: vertex ident '' @ dec_of_nat i @ '' is invalid: '' @ err_message e)
      | Inr f \<Rightarrow>
          (case resolve_idents pool (i + 1) ws ok of
             Inl e \<Rightarrow> Inl e
           | Inr (fs, ok) \<Rightarrow> Inr (f # fs, ok)))"

primrec resolve_names :: "bytes \<Rightarrow> (u32 \<times> u32) list \<Rightarrow> bool \<Rightarrow> string list \<times> bool" where
  "resolve_names pool [] ok = ([], ok)"
| "resolve_names pool (ref # refs) ok =
     (let (s, ok) = resolve_ref pool (fst ref) (snd ref) ok; (ss, ok) = resolve_names pool refs ok in (s # ss, ok))"

primrec resolve_msas :: "bytes \<Rightarrow> wire_msa list \<Rightarrow> bool \<Rightarrow> msa_sector list \<times> bool" where
  "resolve_msas pool [] ok = ([], ok)"
| "resolve_msas pool (m # ms) ok =
     (let (ci, ok) = resolve_ref pool (wm_cio m) (wm_cil m) ok; (cr, ok) = resolve_ref pool (wm_cro m) (wm_crl m) ok;
          (ai, ok) = resolve_ref pool (wm_aio m) (wm_ail m) ok; (rest, ok) = resolve_msas pool ms ok
      in (\<lparr>ms_center = \<lparr>id_ident = ci, id_icao_code = cr\<rparr>, ms_airport_icao = ai, ms_arcs = wm_arcs m\<rparr> # rest, ok))"

definition edge_of_wire :: "wire_edge \<Rightarrow> u32 graph_edge" where
  "edge_of_wire e =
     \<lparr>ge_to = we_to e, ge_distance_nm = we_distance e, ge_airway_id = we_airway_id e, ge_base_fl = we_base_fl e,
      ge_top_fl = we_top_fl e, ge_level = airway_level_of_byte (we_level e)\<rparr>"

definition flag_bit :: "u8 \<Rightarrow> u8 \<Rightarrow> u8" where
  "flag_bit flags b = (if flags AND b \<noteq> 0 then 1 else 0)"

definition resolve_section :: "bytes \<Rightarrow> raw_graph \<Rightarrow> cached_graph result" where
  "resolve_section pool g =
     (case resolve_idents pool 0 (rg_vertices g) True of
        Inl e \<Rightarrow> Inl e
      | Inr (idents, ok) \<Rightarrow>
          let (names, ok) = resolve_names pool (rg_airway_refs g) ok; (msa, ok) = resolve_msas pool (rg_msas g) ok in
          if \<not> ok then bad ''corrupt .bfdb: field or reference out of range''
          else Inr
            \<lparr>gs_first_airport_vertex = sint (gc_first_airport (rg_counts g)),
             gs_coords = map (\<lambda>w. \<lparr>latitude = wv_lat w, longitude = wv_lon w\<rparr>) (rg_vertices g),
             gs_offsets = map sint (rg_offsets g), gs_edges = map edge_of_wire (rg_edges g),
             gs_has_outbound = map (\<lambda>w. flag_bit (wv_flags w) flag_has_outbound) (rg_vertices g),
             gs_has_inbound = map (\<lambda>w. flag_bit (wv_flags w) flag_has_inbound) (rg_vertices g),
             gs_idents = idents, gs_kinds = map (\<lambda>w. waypoint_kind_of_byte (wv_kind w)) (rg_vertices g),
             gs_airway_names = names, gs_mora = from_cells (rg_cells g), gs_msa = msa,
             gs_airport_elevations_ft = rg_elevations g\<rparr>)"

definition graph_decode :: "bytes \<Rightarrow> bytes \<Rightarrow> cached_graph result" where
  "graph_decode body pool =
     (let (c, r) = r_counts (byte_reader_new body) in
      case counts_fuse c r of
        Some why \<Rightarrow> bad why
      | None \<Rightarrow>
          (case read_section c r of
             Inl e \<Rightarrow> Inl e
           | Inr (g, r) \<Rightarrow>
               (case validate_section g r of
                  Some why \<Rightarrow> bad why
                | None \<Rightarrow> resolve_section pool g)))"

end
