(* ===== verification/Crc32c.thy ===== *)
theory Crc32c
  imports Outcome
begin

unbundle bit_operations_syntax

text \<open>
  \<^verbatim>\<open>io/cache/crc32c.h\<close>: the table-driven CRC-32C of the cache container. The table is built by the
  bitwise loop of the header; the table-driven update is proved to be eight of its steps, and any
  corruption confined to one byte to change the checksum.
\<close>

section \<open>The checksum\<close>

definition crc_poly :: u32 where "crc_poly = 0x82F63B78"

text \<open>One round of the inner loop of the table generator.\<close>

definition crc_bit :: "u32 \<Rightarrow> u32" where
  "crc_bit c = (if c AND 1 \<noteq> 0 then crc_poly XOR drop_bit 1 c else drop_bit 1 c)"

definition crc_table :: "u32 list" where
  "crc_table = map (\<lambda>i. (crc_bit ^^ 8) (of_nat i)) [0..<256]"

definition crc_byte :: "u32 \<Rightarrow> u8 \<Rightarrow> u32" where
  "crc_byte c b = crc_table ! unat ((c XOR ucast b) AND 0xFF) XOR drop_bit 8 c"

definition crc_update :: "u32 \<Rightarrow> bytes \<Rightarrow> u32" where
  "crc_update crc data = foldl crc_byte (crc XOR 0xFFFFFFFF) data XOR 0xFFFFFFFF"

definition crc_compute :: "bytes \<Rightarrow> u32" where
  "crc_compute data = crc_update 0 data"

section \<open>Eight bitwise rounds per byte\<close>

lemma crc_bit_xor: "crc_bit (x XOR y) = crc_bit x XOR crc_bit y"
proof -
  have odd: "z AND 1 \<noteq> 0 \<longleftrightarrow> bit z 0" for z :: u32
    by (simp add: bit_0 and_one_eq odd_iff_mod_2_eq_one)
  have "bit (x XOR y) 0 \<longleftrightarrow> bit x 0 \<noteq> bit y 0" by (simp add: bit_xor_iff)
  then show ?thesis
    unfolding crc_bit_def odd by (auto simp: xor.assoc xor.left_commute intro!: bit_word_eqI simp: bit_simps)
qed

lemma crc_bits_xor: "(crc_bit ^^ n) (x XOR y) = (crc_bit ^^ n) x XOR (crc_bit ^^ n) y"
  by (induction n) (simp_all add: crc_bit_xor)

lemma crc_bit_even: "\<not> bit c 0 \<Longrightarrow> crc_bit c = drop_bit 1 c"
  by (simp add: crc_bit_def and_one_eq bit_0 even_iff_mod_2_eq_zero)

lemma crc_bits_shift: "(\<forall>i < n. \<not> bit c i) \<Longrightarrow> (crc_bit ^^ n) c = drop_bit n c"
proof (induction n)
  case (Suc n)
  have "\<not> bit (drop_bit n c) 0" using Suc.prems by (simp add: bit_drop_bit_eq)
  then have "crc_bit (drop_bit n c) = drop_bit 1 (drop_bit n c)" by (rule crc_bit_even)
  moreover have "(crc_bit ^^ n) c = drop_bit n c" using Suc by simp
  ultimately show ?case by simp
qed simp

lemma bit_0xFF: "bit (0xFF :: u32) i \<longleftrightarrow> i < 8"
proof -
  have "(0xFF :: u32) = mask 8" by (simp add: mask_eq_exp_minus_1)
  then have "bit (0xFF :: u32) i \<longleftrightarrow> bit (mask 8 :: u32) i" by (simp only:)
  then show ?thesis by (simp only: bit_mask_iff) auto
qed

lemma crc_byte_bitwise: "crc_byte c b = (crc_bit ^^ 8) (c XOR ucast b)"
proof -
  let ?x = "c XOR ucast b"
  let ?lo = "?x AND 0xFF" and ?hi = "?x AND NOT 0xFF"
  have "?lo \<le> 0xFF" by (rule word_and_le1)
  then have "unat ?lo < 256" by (simp add: word_le_nat_alt)
  then have "crc_table ! unat ?lo = (crc_bit ^^ 8) ?lo" by (simp add: crc_table_def)
  moreover have "(crc_bit ^^ 8) ?hi = drop_bit 8 c"
  proof -
    have "\<not> bit ?hi i" if "i < 8" for i
      using that by (simp only: bit_and_iff bit_not_iff bit_0xFF) simp
    then have "(crc_bit ^^ 8) ?hi = drop_bit 8 ?hi" by (intro crc_bits_shift) auto
    also have "\<dots> = drop_bit 8 c"
      by (rule bit_word_eqI)
        (simp only: bit_drop_bit_eq comp_apply bit_and_iff bit_not_iff bit_xor_iff bit_0xFF bit_ucast_iff,
         auto dest: bit_imp_le_length)
    finally show ?thesis .
  qed
  moreover have "?x = ?lo XOR ?hi" by (rule bit_word_eqI) (auto simp: bit_simps)
  ultimately show ?thesis by (metis crc_byte_def crc_bits_xor)
qed


section \<open>Corruption of one byte is always seen\<close>

lemma crc_bit_top: "bit (crc_bit c) 31 \<longleftrightarrow> bit c 0"
proof -
  have "c AND 1 \<noteq> 0 \<longleftrightarrow> bit c 0"
    by (simp add: bit_0 and_one_eq odd_iff_mod_2_eq_one)
  moreover have "bit crc_poly 31" by (simp add: crc_poly_def)
  moreover have "\<not> bit (drop_bit 1 c) 31" by (auto simp: bit_simps dest: bit_imp_le_length)
  ultimately show ?thesis by (simp add: crc_bit_def bit_xor_iff)
qed

lemma crc_bit_0 [simp]: "crc_bit 0 = 0"
  by (simp add: crc_bit_def)

lemma crc_bit_zero:
  assumes "crc_bit c = 0"
  shows "c = 0"
proof (rule bit_word_eqI)
  fix n assume n: "n < LENGTH(32)"
  have 0: "\<not> bit c 0" using crc_bit_top [of c] assms by simp
  then have "drop_bit 1 c = 0"
    using assms by (auto simp: crc_bit_def and_one_eq bit_0 odd_iff_mod_2_eq_one split: if_splits)
  then have "\<not> bit (drop_bit 1 c) (n - 1)" by simp
  then show "bit c n \<longleftrightarrow> bit 0 n" using 0 by (cases n) (simp_all add: bit_drop_bit_eq)
qed

lemma crc_bit_inj: "crc_bit x = crc_bit y \<longleftrightarrow> x = y"
proof
  assume "crc_bit x = crc_bit y"
  then have "crc_bit (x XOR y) = 0" by (simp add: crc_bit_xor)
  then have "x XOR y = 0" by (rule crc_bit_zero)
  then show "x = y" by (metis xor.assoc xor.right_neutral xor_self_eq)
qed simp

lemma crc_bits_inj: "(crc_bit ^^ n) x = (crc_bit ^^ n) y \<longleftrightarrow> x = y"
  by (induction n) (simp_all add: crc_bit_inj)

lemma xor_right_cancel: "x XOR z = y XOR z \<longleftrightarrow> x = (y :: 'a :: len word)"
  by (metis xor.assoc xor.right_neutral xor_self_eq)

lemma crc_byte_inj:
  "crc_byte c b = crc_byte d b \<longleftrightarrow> c = d"
  "crc_byte c a = crc_byte c b \<longleftrightarrow> a = b"
proof -
  show "crc_byte c b = crc_byte d b \<longleftrightarrow> c = d"
    by (simp add: crc_byte_bitwise crc_bits_inj xor_right_cancel)
  have "ucast a = (ucast b :: u32) \<longleftrightarrow> a = b"
  proof -
    have "ucast (ucast x :: u32) = x" for x :: u8 by (rule bit_word_eqI) (simp add: bit_simps)
    then show ?thesis by metis
  qed
  then show "crc_byte c a = crc_byte c b \<longleftrightarrow> a = b"
    by (simp add: crc_byte_bitwise crc_bits_inj xor_right_cancel xor.commute [of c])
qed

lemma crc_fold_inj: "foldl crc_byte c bs = foldl crc_byte d bs \<longleftrightarrow> c = d"
  by (induction bs arbitrary: c d) (simp_all add: crc_byte_inj)

lemma crc_update_append: "crc_update (crc_update crc xs) ys = crc_update crc (xs @ ys)"
  by (simp add: crc_update_def xor.assoc)


section \<open>Properties\<close>

text \<open>
  The table-driven checksum is the bitwise CRC-32C: one byte is eight rounds of the shift register
  over its exclusive or with the byte, and checksumming in pieces equals checksumming the whole.
\<close>

theorem crc_is_bitwise:
  "crc_update crc (xs @ ys) = crc_update (crc_update crc xs) ys \<and>
   crc_update crc data = foldl (\<lambda>c b. (crc_bit ^^ 8) (c XOR ucast b)) (crc XOR 0xFFFFFFFF) data XOR 0xFFFFFFFF"
proof -
  have "crc_byte = (\<lambda>c b. (crc_bit ^^ 8) (c XOR ucast b))"
    by (intro ext) (rule crc_byte_bitwise)
  then show ?thesis by (simp add: crc_update_append) (simp add: crc_update_def)
qed

text \<open>
  A corruption confined to one byte never goes unnoticed: two messages that differ in exactly one
  byte have different checksums.
\<close>

theorem crc_detects_byte:
  assumes "a \<noteq> b"
  shows "crc_compute (pre @ a # post) \<noteq> crc_compute (pre @ b # post)"
  using assms by (simp add: crc_compute_def crc_update_def xor_right_cancel crc_fold_inj crc_byte_inj)

lemma crc_detects_byte_witness:
  "crc_compute [1, 2, 3] \<noteq> crc_compute [1, 0x82, 3]"
  using crc_detects_byte [of 2 "0x82" "[1]" "[3]"] by simp

end
