(* ===== verification/CifpCodec.thy ===== *)
theory CifpCodec
  imports GraphCodec Procedure Crc32c
begin

unbundle bit_operations_syntax

text \<open>
  \<^verbatim>\<open>io/cache/cifp_codec.cc\<close>: the procedure section of the binary cache, one checksummed segment per airport
  behind a directory. Positions, courses and distances are bit patterns here. The segments stay on disk: the
  archive keeps the file handle, whose positional read is a parameter of the model (a member of
  \<open>pread_file\<close>), so a read may fail at any time.
\<close>

type_synonym cached_leg = "(u32, u32) procedure_leg"
type_synonym cached_procedure = "(u32, u32) procedure"
type_synonym cached_cifp = "(u32, u32, u64) cifp_data"

definition leg_flag_mapt :: u8 where "leg_flag_mapt = 1"
definition leg_flag_course_true :: u8 where "leg_flag_course_true = 2"

text \<open>The packed sizes of the wire records.\<close>

definition procedure_header_size :: nat where "procedure_header_size = 33"
definition procedure_leg_size :: nat where "procedure_leg_size = 48"
definition runway_size :: nat where "runway_size = 28"
definition dir_entry_size :: nat where "dir_entry_size = 24"


section \<open>Writing a segment\<close>

text \<open>The lambda \<open>ref\<close>: intern a string and write its reference.\<close>

definition segment_ref :: "byte_writer \<times> string_pool \<Rightarrow> string \<Rightarrow> byte_writer \<times> string_pool" where
  "segment_ref = (\<lambda>(w, p) s. let (r, p) = pool_add s p; w = w_u32 (fst r) w; w = w_u32 (snd r) w in (w, p))"

definition leg_flags :: "cached_leg \<Rightarrow> u8" where
  "leg_flags leg = (if leg_is_mapt leg then leg_flag_mapt else 0) OR (if leg_course_true leg then leg_flag_course_true else 0)"

definition encode_leg :: "byte_writer \<times> string_pool \<Rightarrow> cached_leg \<Rightarrow> byte_writer \<times> string_pool" where
  "encode_leg wp leg =
     (let wp = segment_ref wp (ident_view (leg_fix leg)); (w, p) = segment_ref wp (icao_code_view (leg_fix leg));
          w = w_f32 (leg_fix_lat leg) w; w = w_f32 (leg_fix_lon leg) w;
          w = w_u8 (path_terminator_byte (leg_path_term leg)) w;
          w = w_f32 (leg_course_deg leg) w; w = w_f32 (leg_distance_nm leg) w;
          w = w_u8 (alt_kind_byte (leg_alt_kind leg)) w;
          w = w_i32 (leg_alt1_ft leg) w; w = w_i32 (leg_alt2_ft leg) w; w = w_u16 (leg_rnp_centinm leg) w;
          w = w_u8 (of_nat (of_char (leg_turn_dir leg))) w; w = w_u16 (leg_speed_limit_kt leg) w;
          w = w_u8 (leg_flags leg) w
      in (w, p))"

definition encode_procedure :: "byte_writer \<times> string_pool \<Rightarrow> cached_procedure \<Rightarrow> byte_writer \<times> string_pool" where
  "encode_procedure = (\<lambda>(w, p) proc.
     let w = w_u8 (procedure_type_byte (proc_type proc)) w; w = w_i32 (proc_route_type proc) w;
         wp = segment_ref (w, p) (proc_name proc); wp = segment_ref wp (proc_transition_ident proc);
         (w, p) = segment_ref wp (proc_runway proc); w = w_u32 (of_nat (length (proc_legs proc))) w
     in foldl encode_leg (w, p) (proc_legs proc))"

definition encode_runway :: "byte_writer \<times> string_pool \<Rightarrow> u64 runway \<Rightarrow> byte_writer \<times> string_pool" where
  "encode_runway wp rwy =
     (let (w, p) = segment_ref wp (rwy_ident rwy);
          w = w_f64 (latitude (rwy_threshold rwy)) w; w = w_f64 (longitude (rwy_threshold rwy)) w;
          w = w_i32 (rwy_elevation_ft rwy) w
      in (w, p))"

definition serialize_segment :: "cached_cifp \<Rightarrow> string_pool \<Rightarrow> bytes \<times> string_pool" where
  "serialize_segment d p =
     (let w = w_u32 (of_nat (length (cifp_procedures d))) byte_writer_new;
          (w, p) = foldl encode_procedure (w, p) (cifp_procedures d);
          w = w_u32 (of_nat (length (cifp_runways d))) w;
          (w, p) = foldl encode_runway (w, p) (cifp_runways d)
      in (bw_out w, p))"

section \<open>Reading a segment\<close>

definition segment_error :: "string \<Rightarrow> 'a result" where
  "segment_error message = Inl (mk_error KCacheCorrupt message)"

text \<open>The reader and \<open>refs_ok\<close>.\<close>

type_synonym segment_reader = "byte_reader \<times> bool"

definition read_pool_ref :: "bytes \<Rightarrow> segment_reader \<Rightarrow> string \<times> segment_reader" where
  "read_pool_ref pool = (\<lambda>(r, ok).
     let (off, r) = r_u32 r; (len, r) = r_u32 r; (s, ok) = resolve_ref pool off len ok in (s, (r, ok)))"

text \<open>A counted loop of reads that may fail.\<close>

primrec r_each :: "nat \<Rightarrow> (segment_reader \<Rightarrow> ('a \<times> segment_reader) result) \<Rightarrow> segment_reader \<Rightarrow>
    ('a list \<times> segment_reader) result" where
  "r_each 0 get s = Inr ([], s)"
| "r_each (Suc n) get s =
     (case get s of
        Inl e \<Rightarrow> Inl e
      | Inr (x, s) \<Rightarrow> (case r_each n get s of Inl e \<Rightarrow> Inl e | Inr (xs, s) \<Rightarrow> Inr (x # xs, s)))"

text \<open>\<open>std::isnan\<close> and \<open>std::fabs(x) > bound\<close> on the bit patterns of a float.\<close>

definition f32_magnitude :: "u32 \<Rightarrow> u32" where "f32_magnitude x = x AND 0x7FFFFFFF"
definition f32_isnan :: "u32 \<Rightarrow> bool" where "f32_isnan x \<longleftrightarrow> 0x7F800000 < f32_magnitude x"
definition f32_90 :: u32 where "f32_90 = 0x42B40000"
definition f32_180 :: u32 where "f32_180 = 0x43340000"

definition fix_position_ok :: "u32 \<Rightarrow> u32 \<Rightarrow> bool" where
  "fix_position_ok lat lon \<longleftrightarrow>
     \<not> (f32_isnan lat \<noteq> f32_isnan lon \<or>
        \<not> f32_isnan lat \<and> (f32_90 < f32_magnitude lat \<or> f32_180 < f32_magnitude lon))"

definition turn_byte_ok :: "u8 \<Rightarrow> bool" where
  "turn_byte_ok b \<longleftrightarrow> char_of (unat b) = CHR 0x00 \<or> char_of (unat b) = turn_left \<or> char_of (unat b) = turn_right"

definition r_leg :: "bytes \<Rightarrow> segment_reader \<Rightarrow> (cached_leg \<times> segment_reader) result" where
  "r_leg pool s =
     (let (fix_ident, s) = read_pool_ref pool s; (fix_icao, (r, ok)) = read_pool_ref pool s in
      case fixed_ident_from_parts fix_ident fix_icao of
        Inl e \<Rightarrow> segment_error (''invalid procedure fix ident: '' @ err_message e)
      | Inr fixed \<Rightarrow>
          let (lat, r) = r_f32 r; (lon, r) = r_f32 r in
          if \<not> fix_position_ok lat lon then segment_error ''invalid procedure fix position''
          else let (path_byte, r) = r_u8 r in
          if path_terminator_byte UnknownTerm < path_byte then segment_error ''invalid procedure path terminator''
          else let (course, r) = r_f32 r; (distance, r) = r_f32 r; (alt_byte, r) = r_u8 r in
          if alt_kind_byte AltBetween < alt_byte then segment_error ''invalid procedure altitude constraint''
          else let (alt1, r) = r_i32 r; (alt2, r) = r_i32 r; (rnp, r) = r_u16 r; (turn_byte, r) = r_u8 r in
          if \<not> turn_byte_ok turn_byte then segment_error ''invalid procedure turn direction''
          else let (speed, r) = r_u16 r; (flags, r) = r_u8 r in
          if flags AND NOT (leg_flag_mapt OR leg_flag_course_true) \<noteq> 0 then segment_error ''invalid procedure leg flags''
          else Inr
            (\<lparr>leg_fix = fixed, leg_fix_lat = lat, leg_fix_lon = lon, leg_course_deg = course, leg_distance_nm = distance,
              leg_alt1_ft = alt1, leg_alt2_ft = alt2, leg_rnp_centinm = rnp, leg_speed_limit_kt = speed,
              leg_path_term = path_terminator_of_byte path_byte, leg_alt_kind = alt_kind_of_byte alt_byte,
              leg_turn_dir = char_of (unat turn_byte), leg_is_mapt = flags AND leg_flag_mapt \<noteq> 0,
              leg_course_true = flags AND leg_flag_course_true \<noteq> 0\<rparr>, (r, ok)))"

definition r_procedure :: "bytes \<Rightarrow> segment_reader \<Rightarrow> (cached_procedure \<times> segment_reader) result" where
  "r_procedure pool = (\<lambda>(r, ok).
     let (type_byte, r) = r_u8 r in
     if procedure_type_byte Approach < type_byte then segment_error ''invalid procedure type''
     else
       let (route_type, r) = r_i32 r; (name, s) = read_pool_ref pool (r, ok); (trans, s) = read_pool_ref pool s;
           (rwy, (r, ok)) = read_pool_ref pool s; (leg_count, r) = r_u32 r in
       if \<not> br_ok r \<or> \<not> count_fits (remaining r) leg_count procedure_leg_size then
         segment_error ''invalid procedure leg count''
       else case r_each (unat leg_count) (r_leg pool) (r, ok) of
           Inl e \<Rightarrow> Inl e
         | Inr (legs, s) \<Rightarrow>
             Inr (\<lparr>proc_type = procedure_type_of_byte type_byte, proc_name = name, proc_transition_ident = trans,
                   proc_runway = rwy, proc_route_type = route_type, proc_legs = legs\<rparr>, s))"

definition r_runway :: "bytes \<Rightarrow> segment_reader \<Rightarrow> (u64 runway \<times> segment_reader) result" where
  "r_runway pool s =
     (let (idt, (r, ok)) = read_pool_ref pool s; (lat, r) = r_f64 r; (lon, r) = r_f64 r; (elevation, r) = r_i32 r
      in Inr (\<lparr>rwy_ident = idt, rwy_threshold = \<lparr>latitude = lat, longitude = lon\<rparr>, rwy_elevation_ft = elevation\<rparr>, (r, ok)))"

definition deserialize_segment :: "bytes \<Rightarrow> bytes \<Rightarrow> cached_cifp result" where
  "deserialize_segment data pool =
     (let (proc_count, r) = r_u32 (byte_reader_new data) in
      if \<not> br_ok r \<or> \<not> count_fits (remaining r) proc_count procedure_header_size then
        segment_error ''invalid procedure count''
      else case r_each (unat proc_count) (r_procedure pool) (r, True) of
          Inl e \<Rightarrow> Inl e
        | Inr (procs, (r, ok)) \<Rightarrow>
            let (rwy_count, r) = r_u32 r in
            if \<not> br_ok r \<or> \<not> count_fits (remaining r) rwy_count runway_size then segment_error ''invalid runway count''
            else case r_each (unat rwy_count) (r_runway pool) (r, ok) of
                Inl e \<Rightarrow> Inl e
              | Inr (rwys, (r, ok)) \<Rightarrow>
                  if \<not> br_ok r \<or> \<not> ok then segment_error ''invalid field or string reference''
                  else if remaining r \<noteq> 0 then segment_error ''trailing bytes''
                  else Inr \<lparr>cifp_procedures = procs, cifp_runways = rwys\<rparr>)"

section \<open>Encoding the section\<close>

text \<open>The first airport whose code cannot be a lookup key, with the error that says so.\<close>

primrec bad_airport_key :: "string list \<Rightarrow> error option" where
  "bad_airport_key [] = None"
| "bad_airport_key (icao # icaos) =
     (case fixed_name_from fixed_name8_cap icao of
        Inl e \<Rightarrow> Some (mk_error KInvalidArgument
          (''cannot encode CIFP for airport '' @ [CHR 0x27] @ icao @ [CHR 0x27] @ '': '' @ err_message e))
      | Inr _ \<Rightarrow> bad_airport_key icaos)"

text \<open>\<open>std::adjacent_find\<close>.\<close>

fun adjacent_find :: "'a list \<Rightarrow> 'a option" where
  "adjacent_find (x # y # xs) = (if x = y then Some x else adjacent_find (y # xs))"
| "adjacent_find _ = None"

primrec serialize_segments :: "cached_cifp list \<Rightarrow> string_pool \<Rightarrow> bytes list \<times> string_pool" where
  "serialize_segments [] p = ([], p)"
| "serialize_segments (d # ds) p =
     (let (body, p) = serialize_segment d p; (bodies, p) = serialize_segments ds p in (body # bodies, p))"

primrec intern_all :: "string list \<Rightarrow> string_pool \<Rightarrow> (u32 \<times> u32) list \<times> string_pool" where
  "intern_all [] p = ([], p)"
| "intern_all (s # ss) p = (let (r, p) = pool_add s p; (rs, p) = intern_all ss p in (r # rs, p))"

definition w_dir_row :: "u32 \<times> u32 \<Rightarrow> u64 \<Rightarrow> bytes \<Rightarrow> byte_writer \<Rightarrow> byte_writer" where
  "w_dir_row ref running body w =
     w_u32 (crc_compute body) (w_u32 (of_nat (length body)) (w_u64 running (w_u32 (snd ref) (w_u32 (fst ref) w))))"

primrec w_directory :: "((u32 \<times> u32) \<times> bytes) list \<Rightarrow> u64 \<Rightarrow> byte_writer \<Rightarrow> byte_writer" where
  "w_directory [] running w = w"
| "w_directory (e # es) running w =
     w_directory es (running + of_nat (length (snd e))) (w_dir_row (fst e) running (snd e) w)"

definition segments_start :: "nat \<Rightarrow> u64" where
  "segments_start n = 4 + of_nat n * of_nat dir_entry_size"

definition cifp_encode ::
  "(string \<times> cached_cifp) list \<Rightarrow> byte_writer \<Rightarrow> string_pool \<Rightarrow> (u32 \<times> byte_writer \<times> string_pool) result" where
  "cifp_encode procedures w p =
     (case bad_airport_key (map fst procedures) of
        Some e \<Rightarrow> Inl e
      | None \<Rightarrow>
          (case adjacent_find (sort (map fst procedures)) of
             Some dup \<Rightarrow> Inl (mk_error KInvalidArgument
               (''duplicate CIFP airport '' @ [CHR 0x27] @ dup @ [CHR 0x27]))
           | None \<Rightarrow>
               let (bodies, p) = serialize_segments (map snd procedures) p;
                   (refs, p) = intern_all (map fst procedures) p;
                   sw = w_u32 (of_nat (length bodies)) byte_writer_new;
                   sw = w_directory (zip refs bodies) (segments_start (length bodies)) sw;
                   section = bw_out sw @ concat bodies
               in Inr (of_nat (length bodies), w_bytes section w, p)))"

section \<open>Opening the section\<close>

text \<open>
  \<^verbatim>\<open>io/cache/pread_file.h\<close>: \<open>pf_read f offset n\<close> is \<open>ReadAt\<close> into a buffer of \<open>n\<close> bytes, \<open>None\<close> its
  failure; \<open>pf_size\<close> is \<open>Size\<close>. \<open>file_of_bytes\<close> is the handle on a file with the given contents.
\<close>

record pread_file =
  pf_is_open :: bool
  pf_size :: "u64 option"
  pf_read :: "u64 \<Rightarrow> nat \<Rightarrow> bytes option"

definition file_of_bytes :: "bytes \<Rightarrow> pread_file" where
  "file_of_bytes contents =
     \<lparr>pf_is_open = True, pf_size = Some (of_nat (length contents)),
      pf_read = (\<lambda>offset n. if unat offset + n \<le> length contents then Some (take n (drop (unat offset) contents)) else None)\<rparr>"

record segment_loc =
  sl_abs_off :: u64
  sl_len :: u32
  sl_crc :: u32

record cifp_archive =
  ca_file :: pread_file
  ca_index :: "(fixed_name \<times> segment_loc) list"
  ca_pool :: bytes

text \<open>\<open>n > 0 && !ReadAt\<close> fails; an empty buffer is not read.\<close>

definition read_region :: "pread_file \<Rightarrow> u64 \<Rightarrow> nat \<Rightarrow> bytes option" where
  "read_region f off n = (if n = 0 then Some [] else pf_read f off n)"

text \<open>One directory row; \<open>n\<close> is the airport count.\<close>

definition r_dir_row ::
  "bytes \<Rightarrow> u64 \<Rightarrow> u64 \<Rightarrow> u32 \<Rightarrow> byte_reader \<Rightarrow> ((fixed_name \<times> segment_loc) \<times> byte_reader) result" where
  "r_dir_row pool section_offset section_length n r =
     (let (icao_off, r) = r_u32 r; (icao_len, r) = r_u32 r; (seg_rel, r) = r_u64 r; (seg_len, r) = r_u32 r;
          (seg_crc, r) = r_u32 r in
      if \<not> br_ok r then bad ''corrupt CIFP section directory''
      else if length pool < unat icao_off \<or> length pool - unat icao_off < unat icao_len then
        bad ''corrupt CIFP section: ICAO reference out of range''
      else if section_length < seg_rel \<or> section_length - seg_rel < ucast seg_len then
        bad ''corrupt CIFP section: segment reference out of range''
      else if 0 < seg_len \<and> seg_rel < segments_start (unat n) then
        bad ''corrupt CIFP section: segment overlaps directory''
      else case fixed_name_from fixed_name8_cap (string_of_bytes (take (unat icao_len) (drop (unat icao_off) pool))) of
          Inl e \<Rightarrow> bad (''corrupt CIFP section: invalid ICAO key: '' @ err_message e)
        | Inr key \<Rightarrow> Inr ((key, \<lparr>sl_abs_off = section_offset + seg_rel, sl_len = seg_len, sl_crc = seg_crc\<rparr>), r))"

primrec r_dir_rows :: "nat \<Rightarrow> (byte_reader \<Rightarrow> ((fixed_name \<times> segment_loc) \<times> byte_reader) result) \<Rightarrow> byte_reader \<Rightarrow>
    (fixed_name \<times> segment_loc) list result" where
  "r_dir_rows 0 row r = Inr []"
| "r_dir_rows (Suc n) row r =
     (case row r of
        Inl e \<Rightarrow> Inl e
      | Inr (e, r) \<Rightarrow> (case r_dir_rows n row r of Inl e \<Rightarrow> Inl e | Inr es \<Rightarrow> Inr (e # es)))"

definition open_section :: "pread_file \<Rightarrow> u64 \<Rightarrow> u64 \<Rightarrow> u32 \<Rightarrow> bytes \<Rightarrow> cifp_archive result" where
  "open_section file section_offset section_length section_crc pool_blob =
     (if \<not> pf_is_open file then Inl (mk_error KDataMissing ''no open .bfdb handle for CIFP segment reads'')
      else if section_length < 4 then bad ''corrupt CIFP section: too short''
      else case pf_read file section_offset 4 of
          None \<Rightarrow> bad ''truncated CIFP section directory''
        | Some count_buf \<Rightarrow>
            let (airports, _ :: byte_reader) = r_u32 (byte_reader_new count_buf) in
            if (section_length - 4) div of_nat dir_entry_size < ucast airports then
              bad ''corrupt CIFP section: directory count exceeds section size''
            else case read_region file (section_offset + 4) (unat airports * dir_entry_size) of
                None \<Rightarrow> bad ''truncated CIFP section directory''
              | Some dir \<Rightarrow>
                  if crc_update (crc_update 0 count_buf) dir \<noteq> section_crc then
                    bad ''corrupt CIFP section: directory CRC mismatch''
                  else case r_dir_rows (unat airports)
                        (r_dir_row pool_blob section_offset section_length airports) (byte_reader_new dir) of
                      Inl e \<Rightarrow> Inl e
                    | Inr rows \<Rightarrow> Inr \<lparr>ca_file = file, ca_index = sort_by (\<lambda>a b. fixed_name_less (fst a) (fst b)) rows,
                                     ca_pool = pool_blob\<rparr>)"

definition directory_prefix_len :: "u32 \<Rightarrow> nat" where
  "directory_prefix_len airports = 4 + unat airports * dir_entry_size"

section \<open>Fetching\<close>

definition find_segment :: "cifp_archive \<Rightarrow> string \<Rightarrow> segment_loc option" where
  "find_segment a icao =
     (case fixed_name_from fixed_name8_cap icao of
        Inl _ \<Rightarrow> None
      | Inr key \<Rightarrow>
          let i = lower_bound (\<lambda>e. fixed_name_less (fst e) key) (ca_index a) in
          if i < length (ca_index a) \<and> fixed_name_eq (fst (ca_index a ! i)) key then Some (snd (ca_index a ! i)) else None)"

text \<open>Reading, checking and decoding one segment; \<open>icao\<close> names the airport in the messages.\<close>

definition load_segment :: "cifp_archive \<Rightarrow> string \<Rightarrow> segment_loc \<Rightarrow> cached_cifp result" where
  "load_segment a icao loc =
     (case read_region (ca_file a) (sl_abs_off loc) (unat (sl_len loc)) of
        None \<Rightarrow> bad (''CIFP segment read failed for '' @ icao)
      | Some bs \<Rightarrow>
          if crc_compute bs \<noteq> sl_crc loc then bad (''CIFP segment CRC mismatch for '' @ icao)
          else case deserialize_segment bs (ca_pool a) of
              Inl e \<Rightarrow> bad (''CIFP segment decode failed for '' @ icao @ '': '' @ err_message e)
            | Inr d \<Rightarrow> Inr d)"

definition cifp_fetch :: "cifp_archive \<Rightarrow> string \<Rightarrow> cached_cifp option result" where
  "cifp_fetch a icao =
     (case find_segment a icao of
        None \<Rightarrow> Inr None
      | Some loc \<Rightarrow> (case load_segment a icao loc of Inl e \<Rightarrow> Inl e | Inr d \<Rightarrow> Inr (Some d)))"

text \<open>\<open>emplace\<close> keeps the entry that is there.\<close>

primrec fetch_entries :: "cifp_archive \<Rightarrow> (fixed_name \<times> segment_loc) list \<Rightarrow> (string \<rightharpoonup> cached_cifp) \<Rightarrow>
    (string \<rightharpoonup> cached_cifp) result" where
  "fetch_entries a [] out = Inr out"
| "fetch_entries a (e # es) out =
     (case load_segment a (name_view (fst e)) (snd e) of
        Inl err \<Rightarrow> Inl err
      | Inr d \<Rightarrow> fetch_entries a es (if out (name_view (fst e)) = None then out(name_view (fst e) \<mapsto> d) else out))"

definition cifp_fetch_all :: "cifp_archive \<Rightarrow> (string \<rightharpoonup> cached_cifp) result" where
  "cifp_fetch_all a = fetch_entries a (ca_index a) Map.empty"

end
