(* ===== verification/NavDetailCodec.thy ===== *)
theory NavDetailCodec
  imports CifpCodec
begin

unbundle bit_operations_syntax

text \<open>
  \<^verbatim>\<open>io/cache/nav_detail_codec.cc\<close>: the navaid details and holding patterns, their section of the binary
  cache, and the lookups on the two sorted arrays. Doubles are bit patterns with their IEEE-754 comparison
  written out, since the arrays are ordered by them.
\<close>

section \<open>The records\<close>

text \<open>\<^verbatim>\<open>core/query/query_types.h\<close>.\<close>

record navaid_detail_info =
  ni_ident :: string
  ni_icao_code :: string
  ni_kind :: waypoint_kind
  ni_elev_ft :: i32
  ni_freq_raw :: i32
  ni_range_nm :: u64
  ni_heading :: u64

record hold_info =
  hi_fix_ident :: string
  hi_fix_icao_code :: string
  hi_airport_icao :: string
  hi_inbound_course :: u64
  hi_leg_time_min :: u64
  hi_leg_dist_nm :: u64
  hi_turn_dir :: char
  hi_min_alt_ft :: i32
  hi_max_alt_ft :: i32
  hi_speed_limit_kt :: i32

record nav_detail_archive =
  da_navaids :: "(ident \<times> navaid_detail_info) list"
  da_holds :: "hold_info list"
  da_loaded :: bool

definition nav_detail_archive_new :: nav_detail_archive where
  "nav_detail_archive_new = \<lparr>da_navaids = [], da_holds = [], da_loaded = False\<rparr>"

definition navaid_record_size :: nat where "navaid_record_size = 41"
definition hold_record_size :: nat where "hold_record_size = 61"

section \<open>Orders\<close>

text \<open>\<open>operator<\<close> on doubles: false for a NaN, and the two zeros are equal.\<close>

definition f64_magnitude :: "u64 \<Rightarrow> u64" where "f64_magnitude x = x AND 0x7FFFFFFFFFFFFFFF"
definition f64_isnan :: "u64 \<Rightarrow> bool" where "f64_isnan x \<longleftrightarrow> 0x7FF0000000000000 < f64_magnitude x"

definition f64_key :: "u64 \<Rightarrow> int" where
  "f64_key x = (if bit x 63 then - uint (f64_magnitude x) else uint (f64_magnitude x))"

definition f64_less :: "u64 \<Rightarrow> u64 \<Rightarrow> bool" where
  "f64_less x y \<longleftrightarrow> \<not> f64_isnan x \<and> \<not> f64_isnan y \<and> f64_key x < f64_key y"

text \<open>\<open>operator<\<close> of \<open>std::tie\<close>: per component, whether the left is less and whether the right is.\<close>

fun tie_less :: "(bool \<times> bool) list \<Rightarrow> bool" where
  "tie_less [] = False"
| "tie_less ((lt, gt) # rest) = (lt \<or> \<not> gt \<and> tie_less rest)"

definition both :: "('b \<Rightarrow> 'b \<Rightarrow> bool) \<Rightarrow> ('a \<Rightarrow> 'b) \<Rightarrow> 'a \<Rightarrow> 'a \<Rightarrow> bool \<times> bool" where
  "both lt f a b = (lt (f a) (f b), lt (f b) (f a))"

definition navaid_fields :: "(ident \<times> navaid_detail_info \<Rightarrow> ident \<times> navaid_detail_info \<Rightarrow> bool \<times> bool) list" where
  "navaid_fields =
     [both (<) (\<lambda>e. id_ident (fst e)), both (<) (\<lambda>e. id_icao_code (fst e)),
      both (<) (\<lambda>e. waypoint_kind_byte (ni_kind (snd e))), both (<) (\<lambda>e. sint (ni_freq_raw (snd e))),
      both (<) (\<lambda>e. sint (ni_elev_ft (snd e))), both f64_less (\<lambda>e. ni_range_nm (snd e)),
      both f64_less (\<lambda>e. ni_heading (snd e))]"

definition navaid_before :: "ident \<times> navaid_detail_info \<Rightarrow> ident \<times> navaid_detail_info \<Rightarrow> bool" where
  "navaid_before a b = tie_less (map (\<lambda>f. f a b) navaid_fields)"

definition hold_fields :: "(hold_info \<Rightarrow> hold_info \<Rightarrow> bool \<times> bool) list" where
  "hold_fields =
     [both (<) hi_fix_ident, both (<) hi_fix_icao_code, both (<) hi_airport_icao, both f64_less hi_inbound_course,
      both f64_less hi_leg_time_min, both f64_less hi_leg_dist_nm, both (<) hi_turn_dir,
      both (<) (\<lambda>h. sint (hi_min_alt_ft h)), both (<) (\<lambda>h. sint (hi_max_alt_ft h)),
      both (<) (\<lambda>h. sint (hi_speed_limit_kt h))]"

definition hold_before :: "hold_info \<Rightarrow> hold_info \<Rightarrow> bool" where
  "hold_before a b = tie_less (map (\<lambda>f. f a b) hold_fields)"

definition detail_finalize :: "nav_detail_archive \<Rightarrow> nav_detail_archive" where
  "detail_finalize a =
     \<lparr>da_navaids = sort_by navaid_before (da_navaids a), da_holds = sort_by hold_before (da_holds a), da_loaded = True\<rparr>"

section \<open>FromData\<close>

definition navaid_entry :: "u64 navaid_detail \<Rightarrow> ident \<times> navaid_detail_info" where
  "navaid_entry d =
     (nv_ident d,
      \<lparr>ni_ident = id_ident (nv_ident d), ni_icao_code = id_icao_code (nv_ident d), ni_kind = nv_kind d,
       ni_elev_ft = nv_elev_ft d, ni_freq_raw = nv_freq_raw d, ni_range_nm = nv_range_nm d, ni_heading = nv_heading d\<rparr>)"

definition hold_entry :: "u64 hold_fix \<Rightarrow> hold_info" where
  "hold_entry h =
     \<lparr>hi_fix_ident = id_ident (hf_fix h), hi_fix_icao_code = id_icao_code (hf_fix h), hi_airport_icao = hf_airport_icao h,
      hi_inbound_course = hf_inbound_course h, hi_leg_time_min = hf_leg_time_min h, hi_leg_dist_nm = hf_leg_dist_nm h,
      hi_turn_dir = hf_turn_dir h, hi_min_alt_ft = hf_min_alt_ft h, hi_max_alt_ft = hf_max_alt_ft h,
      hi_speed_limit_kt = hf_speed_limit_kt h\<rparr>"

text \<open>The two arrays of the dataset it reads.\<close>

definition detail_from_data :: "u64 navaid_detail list \<Rightarrow> u64 hold_fix list \<Rightarrow> nav_detail_archive" where
  "detail_from_data navaids holds =
     detail_finalize (nav_detail_archive_new\<lparr>da_navaids := map navaid_entry navaids, da_holds := map hold_entry holds\<rparr>)"

section \<open>Encoding\<close>

definition detail_ref :: "byte_writer \<times> string_pool \<Rightarrow> string \<Rightarrow> byte_writer \<times> string_pool" where
  "detail_ref = (\<lambda>(w, p) s. let (r, p) = pool_add s p; w = w_u32 (fst r) w; w = w_u32 (snd r) w in (w, p))"

definition encode_navaid :: "byte_writer \<times> string_pool \<Rightarrow> ident \<times> navaid_detail_info \<Rightarrow> byte_writer \<times> string_pool" where
  "encode_navaid wp entry =
     (let d = snd entry; wp = detail_ref wp (ni_ident d); (w, p) = detail_ref wp (ni_icao_code d);
          w = w_u8 (waypoint_kind_byte (ni_kind d)) w; w = w_i32 (ni_elev_ft d) w; w = w_i32 (ni_freq_raw d) w;
          w = w_f64 (ni_range_nm d) w; w = w_f64 (ni_heading d) w
      in (w, p))"

definition encode_hold :: "byte_writer \<times> string_pool \<Rightarrow> hold_info \<Rightarrow> byte_writer \<times> string_pool" where
  "encode_hold wp h =
     (let wp = detail_ref wp (hi_fix_ident h); wp = detail_ref wp (hi_fix_icao_code h);
          (w, p) = detail_ref wp (hi_airport_icao h);
          w = w_f64 (hi_inbound_course h) w; w = w_f64 (hi_leg_time_min h) w; w = w_f64 (hi_leg_dist_nm h) w;
          w = w_u8 (of_nat (of_char (hi_turn_dir h))) w; w = w_i32 (hi_min_alt_ft h) w;
          w = w_i32 (hi_max_alt_ft h) w; w = w_i32 (hi_speed_limit_kt h) w
      in (w, p))"

definition detail_encode :: "nav_detail_archive \<Rightarrow> byte_writer \<Rightarrow> string_pool \<Rightarrow> byte_writer \<times> string_pool" where
  "detail_encode a w p =
     (let w = w_u32 (of_nat (length (da_navaids a))) w; w = w_u32 (of_nat (length (da_holds a))) w
      in foldl encode_hold (foldl encode_navaid (w, p) (da_navaids a)) (da_holds a))"

section \<open>Decoding\<close>

definition r_navaid :: "bytes \<Rightarrow> segment_reader \<Rightarrow> ((ident \<times> navaid_detail_info) \<times> segment_reader) result" where
  "r_navaid pool = (\<lambda>(r, ok).
     let (ident_off, r) = r_u32 r; (ident_len, r) = r_u32 r; (code_off, r) = r_u32 r; (code_len, r) = r_u32 r;
         (kind_byte, r) = r_u8 r in
     if waypoint_kind_byte KIlsDme < kind_byte then bad ''corrupt nav detail section: navaid kind out of range''
     else
       let (elev, r) = r_i32 r; (freq, r) = r_i32 r; (range, r) = r_f64 r; (heading, r) = r_f64 r in
       if \<not> br_ok r then bad ''truncated nav detail section navaid records''
       else
         let (idt, ok) = resolve_ref pool ident_off ident_len ok; (code, ok) = resolve_ref pool code_off code_len ok in
         Inr ((\<lparr>id_ident = idt, id_icao_code = code\<rparr>,
               \<lparr>ni_ident = idt, ni_icao_code = code, ni_kind = waypoint_kind_of_byte kind_byte, ni_elev_ft = elev,
                ni_freq_raw = freq, ni_range_nm = range, ni_heading = heading\<rparr>), (r, ok)))"

definition r_hold :: "bytes \<Rightarrow> segment_reader \<Rightarrow> (hold_info \<times> segment_reader) result" where
  "r_hold pool = (\<lambda>(r, ok).
     let (ident_off, r) = r_u32 r; (ident_len, r) = r_u32 r; (code_off, r) = r_u32 r; (code_len, r) = r_u32 r;
         (airport_off, r) = r_u32 r; (airport_len, r) = r_u32 r;
         (inbound, r) = r_f64 r; (leg_time, r) = r_f64 r; (leg_dist, r) = r_f64 r; (turn_raw, r) = r_u8 r;
         (min_alt, r) = r_i32 r; (max_alt, r) = r_i32 r; (speed, r) = r_i32 r in
     if \<not> br_ok r then bad ''truncated nav detail section hold records''
     else if turn_raw \<noteq> of_nat (of_char turn_left) \<and> turn_raw \<noteq> of_nat (of_char turn_right) then
       bad ''invalid hold turn direction''
     else
       let (idt, ok) = resolve_ref pool ident_off ident_len ok; (code, ok) = resolve_ref pool code_off code_len ok;
           (airport, ok) = resolve_ref pool airport_off airport_len ok in
       Inr (\<lparr>hi_fix_ident = idt, hi_fix_icao_code = code, hi_airport_icao = airport, hi_inbound_course = inbound,
             hi_leg_time_min = leg_time, hi_leg_dist_nm = leg_dist, hi_turn_dir = char_of (unat turn_raw),
             hi_min_alt_ft = min_alt, hi_max_alt_ft = max_alt, hi_speed_limit_kt = speed\<rparr>, (r, ok)))"

definition detail_decode :: "bytes \<Rightarrow> bytes \<Rightarrow> nav_detail_archive result" where
  "detail_decode body pool =
     (let (navaid_count, r) = r_u32 (byte_reader_new body); (hold_count, r) = r_u32 r in
      if \<not> br_ok r then bad ''truncated nav detail section header''
      else if \<not> count_fits (remaining r) navaid_count navaid_record_size then
        bad ''corrupt nav detail section: navaid count exceeds section''
      else case r_each (unat navaid_count) (r_navaid pool) (r, True) of
          Inl e \<Rightarrow> Inl e
        | Inr (navaids, (r, ok)) \<Rightarrow>
            if \<not> count_fits (remaining r) hold_count hold_record_size then
              bad ''corrupt nav detail section: hold count exceeds section''
            else case r_each (unat hold_count) (r_hold pool) (r, ok) of
                Inl e \<Rightarrow> Inl e
              | Inr (holds, (r, ok)) \<Rightarrow>
                  if \<not> ok then bad ''corrupt nav detail section: string reference out of range''
                  else if remaining r \<noteq> 0 then bad ''corrupt nav detail section: trailing bytes''
                  else Inr (detail_finalize (nav_detail_archive_new\<lparr>da_navaids := navaids, da_holds := holds\<rparr>)))"

section \<open>Lookups\<close>

definition find_navaids :: "nav_detail_archive \<Rightarrow> string \<Rightarrow> navaid_detail_info list" where
  "find_navaids a idt =
     (if \<not> da_loaded a then []
      else let i = lower_bound (\<lambda>e. id_ident (fst e) < idt) (da_navaids a)
           in map snd (takeWhile (\<lambda>e. id_ident (fst e) = idt) (drop i (da_navaids a))))"

text \<open>\<open>std::upper_bound\<close> on the rest of the array is the first position whose identifier exceeds the key.\<close>

definition find_holds :: "nav_detail_archive \<Rightarrow> string \<Rightarrow> hold_info list" where
  "find_holds a idt =
     (if \<not> da_loaded a then []
      else let lo = lower_bound (\<lambda>h. hi_fix_ident h < idt) (da_holds a);
               hi = lo + lower_bound (\<lambda>h. \<not> idt < hi_fix_ident h) (drop lo (da_holds a))
           in take (hi - lo) (drop lo (da_holds a)))"

end
