(* ===== verification/UnifiedCache.thy ===== *)
theory UnifiedCache
  imports NavDetailCodec
begin

unbundle bit_operations_syntax

text \<open>
  \<^verbatim>\<open>io/cache/unified_cache.cc\<close>: the container of the binary cache. \<open>cache_image\<close> is \<open>Build\<close> up to the bytes
  of the file, in the order they are written; writing them beside the old file and renaming is file output and
  not modelled. \<open>open_cache\<close> and \<open>read_header\<close> work on a file handle whose positional read is a parameter.
\<close>

section \<open>Layout\<close>

definition cache_magic :: bytes where "cache_magic = bytes_of_string ''BFDB''"
definition format_version :: u32 where "format_version = 21"
definition section_graph :: u32 where "section_graph = 1"
definition section_cifp :: u32 where "section_cifp = 2"
definition section_detail :: u32 where "section_detail = 3"
definition section_count :: u32 where "section_count = 3"
definition section_row_size :: nat where "section_row_size = 4 + 8 + 8 + 4"
definition header_crc_size :: nat where "header_crc_size = 4"
definition max_header_prefix :: u64 where "max_header_prefix = 8192"

text \<open>\<^verbatim>\<open>io/loaders/loader_capabilities.h\<close> and \<^verbatim>\<open>io/cache/unified_cache.h\<close>.\<close>

record loader_capabilities =
  lc_airway_direction :: bool
  lc_altitude_bands :: bool
  lc_mora_grid :: bool
  lc_msa_sectors :: bool

record unified_header =
  uh_cycle :: u32
  uh_program_version :: string
  uh_source_loader :: string
  uh_data_dir :: string
  uh_capabilities :: loader_capabilities

record build_input =
  bi_graph :: "cached_graph option"
  bi_cifp :: "(string \<times> cached_cifp) list option"
  bi_detail :: "nav_detail_archive option"
  bi_header :: unified_header

record unified_data =
  ud_header :: unified_header
  ud_graph :: cached_graph
  ud_cifp :: "cifp_archive option"
  ud_detail :: "nav_detail_archive option"

record section_row =
  sr_type :: u32
  sr_crc :: u32
  sr_off :: u64
  sr_len :: u64

section \<open>Build\<close>

text \<open>The bodies of the sections, encoded in turn into one pool; the count is of the airports in the second.\<close>

definition encode_sections :: "build_input \<Rightarrow> cached_graph \<Rightarrow> (bytes \<times> (u32 \<times> bytes) option \<times> bytes option \<times> string_pool) result" where
  "encode_sections input g =
     (case graph_encode g byte_writer_new string_pool_new of
        Inl e \<Rightarrow> Inl e
      | Inr (gw, p) \<Rightarrow>
          (case (case bi_cifp input of
                   None \<Rightarrow> Inr (None, p)
                 | Some procs \<Rightarrow>
                     (case cifp_encode procs byte_writer_new p of
                        Inl e \<Rightarrow> Inl e
                      | Inr (n, cw, p) \<Rightarrow> Inr (Some (n, bw_out cw), p))) of
             Inl e \<Rightarrow> Inl e
           | Inr (cifp, p) \<Rightarrow>
               (case bi_detail input of
                  None \<Rightarrow> Inr (bw_out gw, cifp, None, p)
                | Some d \<Rightarrow> let (dw, p) = detail_encode d byte_writer_new p in Inr (bw_out gw, cifp, Some (bw_out dw), p))))"

definition w_flag :: "bool \<Rightarrow> byte_writer \<Rightarrow> byte_writer" where
  "w_flag b w = w_u8 (if b then 1 else 0) w"

definition encode_header :: "unified_header \<Rightarrow> bytes \<Rightarrow> byte_writer" where
  "encode_header h pool_blob =
     (let hw = w_bytes cache_magic byte_writer_new; hw = w_u32 format_version hw; hw = w_u32 section_count hw;
          hw = w_u32 (uh_cycle h) hw; hw = w_str (uh_program_version h) hw; hw = w_str (uh_source_loader h) hw;
          hw = w_str (uh_data_dir h) hw; caps = uh_capabilities h;
          hw = w_flag (lc_airway_direction caps) hw; hw = w_flag (lc_altitude_bands caps) hw;
          hw = w_flag (lc_mora_grid caps) hw; hw = w_flag (lc_msa_sectors caps) hw;
          hw = w_u32 (of_nat (length pool_blob)) hw; hw = w_u32 (crc_compute pool_blob) hw
      in hw)"

definition w_row :: "section_row \<Rightarrow> byte_writer \<Rightarrow> byte_writer" where
  "w_row row w = w_u64 (sr_len row) (w_u64 (sr_off row) (w_u32 (sr_crc row) (w_u32 (sr_type row) w)))"

definition section_rows :: "u64 \<Rightarrow> bytes \<Rightarrow> (u32 \<times> bytes) option \<Rightarrow> bytes option \<Rightarrow> section_row list" where
  "section_rows sections_start graph cifp detail =
     (let graph_off = sections_start; after_graph = graph_off + of_nat (length graph);
          cifp_off = (case cifp of None \<Rightarrow> 0 | Some _ \<Rightarrow> after_graph);
          after_cifp = after_graph + (case cifp of None \<Rightarrow> 0 | Some (_, body) \<Rightarrow> of_nat (length body));
          detail_off = (case detail of None \<Rightarrow> 0 | Some _ \<Rightarrow> after_cifp)
      in [\<lparr>sr_type = section_graph, sr_crc = crc_compute graph, sr_off = graph_off, sr_len = of_nat (length graph)\<rparr>,
          \<lparr>sr_type = section_cifp,
           sr_crc = (case cifp of None \<Rightarrow> 0 | Some (n, body) \<Rightarrow> crc_compute (take (directory_prefix_len n) body)),
           sr_off = cifp_off, sr_len = (case cifp of None \<Rightarrow> 0 | Some (_, body) \<Rightarrow> of_nat (length body))\<rparr>,
          \<lparr>sr_type = section_detail, sr_crc = (case detail of None \<Rightarrow> 0 | Some body \<Rightarrow> crc_compute body),
           sr_off = detail_off, sr_len = (case detail of None \<Rightarrow> 0 | Some body \<Rightarrow> of_nat (length body))\<rparr>])"

definition cache_image :: "build_input \<Rightarrow> bytes result" where
  "cache_image input =
     (case bi_graph input of
        None \<Rightarrow> Inl (mk_error KInvalidArgument ''unified cache requires a graph'')
      | Some g \<Rightarrow>
          (case encode_sections input g of
             Inl e \<Rightarrow> Inl e
           | Inr (graph, cifp, detail, pool) \<Rightarrow>
               let pool_blob = sp_blob pool in
               if 0xFFFFFFFF < length pool_blob then
                 Inl (mk_error KSerializationError
                   (''unified cache string pool exceeds 4 GiB; the uint32 pool offset space '' @
                    ''cannot address it. This is unexpected for real AIRAC data.''))
               else
                 let hw = encode_header (bi_header input) pool_blob; header = bw_out hw in
                 if \<not> bw_ok hw then
                   Inl (mk_error KSerializationError
                     (''cache header string exceeds the 4 GiB U32 length prefix; '' @
                      ''cannot serialize. This is unexpected for real AIRAC data.''))
                 else
                   let sections_start = of_nat (length header) + ucast section_count * of_nat section_row_size +
                         of_nat header_crc_size + of_nat (length pool_blob);
                       rows = section_rows sections_start graph cifp detail;
                       table = bw_out (foldl (\<lambda>w row. w_row row w) byte_writer_new rows);
                       header_crc = bw_out (w_u32 (crc_update (crc_compute header) table) byte_writer_new)
                   in Inr (header @ table @ header_crc @ pool_blob @ graph @
                        (case cifp of None \<Rightarrow> [] | Some (_, body) \<Rightarrow> body) @
                        (case detail of None \<Rightarrow> [] | Some body \<Rightarrow> body))))"

section \<open>The file cursor\<close>

record file_cursor =
  fc_file :: pread_file
  fc_size :: u64
  fc_pos :: u64
  fc_ok :: bool

definition file_cursor_new :: "pread_file \<Rightarrow> u64 \<Rightarrow> file_cursor" where
  "file_cursor_new file sz = \<lparr>fc_file = file, fc_size = sz, fc_pos = 0, fc_ok = True\<rparr>"

definition cursor_remaining :: "file_cursor \<Rightarrow> u64" where
  "cursor_remaining c = fc_size c - fc_pos c"

definition cursor_read :: "nat \<Rightarrow> file_cursor \<Rightarrow> bytes option \<times> file_cursor" where
  "cursor_read n c =
     (if \<not> fc_ok c \<or> unat (cursor_remaining c) < n then (None, c\<lparr>fc_ok := False\<rparr>)
      else case read_region (fc_file c) (fc_pos c) n of
          None \<Rightarrow> (None, c\<lparr>fc_ok := False\<rparr>)
        | Some bs \<Rightarrow> (Some bs, c\<lparr>fc_pos := fc_pos c + of_nat n\<rparr>))"

text \<open>The lambdas \<open>readN\<close>, \<open>readU32\<close>, \<open>readU8\<close>, \<open>readU64\<close> and \<open>readStr\<close>; \<open>None\<close> is their \<open>false\<close>.\<close>

definition read_n :: "u64 \<Rightarrow> file_cursor \<Rightarrow> bytes option \<times> file_cursor" where
  "read_n n c = (if cursor_remaining c < n then (None, c) else cursor_read (unat n) c)"

definition read_u32 :: "file_cursor \<Rightarrow> u32 option \<times> file_cursor" where
  "read_u32 c =
     (let (b, c) = cursor_read 4 c in
      (map_option (\<lambda>b. ucast (b ! 0) OR push_bit 8 (ucast (b ! 1)) OR push_bit 16 (ucast (b ! 2)) OR push_bit 24 (ucast (b ! 3))) b, c))"

definition read_u8 :: "file_cursor \<Rightarrow> u8 option \<times> file_cursor" where
  "read_u8 c = (let (b, c) = cursor_read 1 c in (map_option (\<lambda>b. b ! 0) b, c))"

definition read_u64 :: "file_cursor \<Rightarrow> u64 option \<times> file_cursor" where
  "read_u64 c =
     (let (b, c) = cursor_read 8 c in
      (map_option (\<lambda>b. foldl (\<lambda>v i. v OR push_bit (8 * i) (ucast (b ! i))) 0 [0..<8]) b, c))"

definition read_str :: "file_cursor \<Rightarrow> string option \<times> file_cursor" where
  "read_str c =
     (case read_u32 c of
        (None, c) \<Rightarrow> (None, c)
      | (Some len, c) \<Rightarrow>
          if cursor_remaining c < ucast len then (None, c)
          else let (b, c) = cursor_read (unat len) c in (map_option string_of_bytes b, c))"

section \<open>Open\<close>

text \<open>Sequencing: the first error is returned. \<open>need\<close> turns a failed read into the error of its check.\<close>

definition and_then :: "'a result \<Rightarrow> ('a \<Rightarrow> 'b result) \<Rightarrow> 'b result" where
  "and_then r k = (case r of Inl e \<Rightarrow> Inl e | Inr x \<Rightarrow> k x)"

definition need :: "string \<Rightarrow> 'a option \<times> file_cursor \<Rightarrow> ('a \<times> file_cursor) result" where
  "need why r = (case fst r of None \<Rightarrow> bad why | Some x \<Rightarrow> Inr (x, snd r))"

text \<open>From the magic to the pool's checksum.\<close>

definition open_prefix :: "file_cursor \<Rightarrow> ((unified_header \<times> u32 \<times> u32) \<times> file_cursor) result" where
  "open_prefix c =
     (let (magic, c) = cursor_read 4 c in
      if magic \<noteq> Some cache_magic then bad ''not a .bfdb file (bad magic)''
      else and_then (need ''truncated .bfdb header'' (read_u32 c)) (\<lambda>(version, c).
        if version \<noteq> format_version then Inl (mk_error KFormatMismatch (with_rebuild_hint ''incompatible .bfdb format version''))
        else and_then (need ''corrupt .bfdb: unexpected section count'' (read_u32 c)) (\<lambda>(sections, c).
          if sections \<noteq> section_count then bad ''corrupt .bfdb: unexpected section count''
          else and_then (need ''corrupt .bfdb header'' (read_u32 c)) (\<lambda>(cycle, c).
            and_then (need ''corrupt .bfdb header'' (read_str c)) (\<lambda>(program, c).
            and_then (need ''corrupt .bfdb header'' (read_str c)) (\<lambda>(loader, c).
            and_then (need ''corrupt .bfdb header'' (read_str c)) (\<lambda>(data_dir, c).
            and_then (need ''corrupt .bfdb header'' (read_u8 c)) (\<lambda>(airway, c).
            and_then (need ''corrupt .bfdb header'' (read_u8 c)) (\<lambda>(alt, c).
            and_then (need ''corrupt .bfdb header'' (read_u8 c)) (\<lambda>(mora, c).
            and_then (need ''corrupt .bfdb header'' (read_u8 c)) (\<lambda>(msa, c).
            and_then (need ''corrupt .bfdb header'' (read_u32 c)) (\<lambda>(pool_len, c).
            and_then (need ''corrupt .bfdb header'' (read_u32 c)) (\<lambda>(pool_crc, c).
              if cursor_remaining c < ucast pool_len then bad ''corrupt .bfdb: pool length exceeds file''
              else Inr
                ((\<lparr>uh_cycle = cycle, uh_program_version = program, uh_source_loader = loader, uh_data_dir = data_dir,
                   uh_capabilities = \<lparr>lc_airway_direction = airway \<noteq> 0, lc_altitude_bands = alt \<noteq> 0,
                     lc_mora_grid = mora \<noteq> 0, lc_msa_sectors = msa \<noteq> 0\<rparr>\<rparr>, pool_len, pool_crc), c))))))))))))))"

definition row_absent :: "section_row \<Rightarrow> bool" where
  "row_absent row \<longleftrightarrow> sr_off row = 0 \<and> sr_len row = 0"

definition read_row :: "u64 \<Rightarrow> file_cursor \<Rightarrow> (section_row \<times> file_cursor) result" where
  "read_row file_size c =
     and_then (need ''corrupt .bfdb section table'' (read_u32 c)) (\<lambda>(ty, c).
     and_then (need ''corrupt .bfdb section table'' (read_u32 c)) (\<lambda>(crc, c).
     and_then (need ''corrupt .bfdb section table'' (read_u64 c)) (\<lambda>(off, c).
     and_then (need ''corrupt .bfdb section table'' (read_u64 c)) (\<lambda>(len, c).
       if (off \<noteq> 0 \<or> len \<noteq> 0) \<and> (file_size < off \<or> file_size - off < len) then
         bad ''corrupt .bfdb: section reference out of range''
       else Inr (\<lparr>sr_type = ty, sr_crc = crc, sr_off = off, sr_len = len\<rparr>, c)))))"

primrec read_rows :: "nat \<Rightarrow> u64 \<Rightarrow> file_cursor \<Rightarrow> (section_row list \<times> file_cursor) result" where
  "read_rows 0 file_size c = Inr ([], c)"
| "read_rows (Suc n) file_size c =
     and_then (read_row file_size c) (\<lambda>(row, c). and_then (read_rows n file_size c) (\<lambda>(rows, c). Inr (row # rows, c)))"

text \<open>The checksum of every byte before it, then the pool with its own.\<close>

definition check_header_crc :: "file_cursor \<Rightarrow> file_cursor result" where
  "check_header_crc c =
     (let header_end = fc_pos c in
      and_then (need ''truncated .bfdb header'' (read_u32 c)) (\<lambda>(header_crc, c).
        case read_region (fc_file c) 0 (unat header_end) of
          None \<Rightarrow> bad ''truncated .bfdb header''
        | Some prefix \<Rightarrow> if crc_compute prefix \<noteq> header_crc then bad ''corrupt .bfdb: header CRC mismatch'' else Inr c))"

definition read_pool :: "u32 \<Rightarrow> u32 \<Rightarrow> file_cursor \<Rightarrow> bytes result" where
  "read_pool pool_len pool_crc c =
     and_then (need ''truncated .bfdb string pool'' (read_n (ucast pool_len) c)) (\<lambda>(pool, c).
       if crc_compute pool \<noteq> pool_crc then bad ''corrupt .bfdb: string pool CRC mismatch'' else Inr pool)"

record section_slots =
  ss_graph :: "section_row option"
  ss_cifp :: "section_row option"
  ss_detail :: "section_row option"

definition claim_slot :: "section_row option \<Rightarrow> section_slots \<Rightarrow> section_slots result" where
  "claim_slot taken slots = (if taken \<noteq> None then bad ''corrupt .bfdb: duplicate section type'' else Inr slots)"

primrec map_rows :: "section_row list \<Rightarrow> section_slots \<Rightarrow> section_slots result" where
  "map_rows [] slots = Inr slots"
| "map_rows (row # rows) slots =
     and_then
       (if sr_type row = section_graph then claim_slot (ss_graph slots) (slots\<lparr>ss_graph := Some row\<rparr>)
        else if sr_type row = section_cifp then claim_slot (ss_cifp slots) (slots\<lparr>ss_cifp := Some row\<rparr>)
        else if sr_type row = section_detail then claim_slot (ss_detail slots) (slots\<lparr>ss_detail := Some row\<rparr>)
        else bad ''corrupt .bfdb: unknown section type'')
       (\<lambda>slots. map_rows rows slots)"

text \<open>A section body with its checksum; \<open>name\<close> is its name in the messages.\<close>

definition read_body :: "pread_file \<Rightarrow> string \<Rightarrow> section_row \<Rightarrow> bytes result" where
  "read_body file name row =
     (case read_region file (sr_off row) (unat (sr_len row)) of
        None \<Rightarrow> bad (''truncated .bfdb '' @ name @ '' section'')
      | Some body \<Rightarrow> if crc_compute body \<noteq> sr_crc row then bad (''corrupt .bfdb: '' @ name @ '' section CRC mismatch'') else Inr body)"

definition present :: "section_row option \<Rightarrow> section_row option" where
  "present slot = (case slot of Some row \<Rightarrow> if row_absent row then None else Some row | None \<Rightarrow> None)"

definition open_sections :: "pread_file \<Rightarrow> unified_header \<Rightarrow> bytes \<Rightarrow> section_slots \<Rightarrow> unified_data result" where
  "open_sections file h pool slots =
     (case present (ss_graph slots) of
        None \<Rightarrow> bad ''corrupt .bfdb: missing graph section''
      | Some row \<Rightarrow>
          and_then (read_body file ''graph'' row) (\<lambda>body. and_then (graph_decode body pool) (\<lambda>g.
          and_then (case present (ss_detail slots) of
                      None \<Rightarrow> Inr None
                    | Some row \<Rightarrow> and_then (read_body file ''detail'' row) (\<lambda>body.
                        and_then (detail_decode body pool) (\<lambda>d. Inr (Some d)))) (\<lambda>detail.
          and_then (case present (ss_cifp slots) of
                      None \<Rightarrow> Inr None
                    | Some row \<Rightarrow> and_then (open_section file (sr_off row) (sr_len row) (sr_crc row) pool) (\<lambda>a. Inr (Some a))) (\<lambda>cifp.
            Inr \<lparr>ud_header = h, ud_graph = g, ud_cifp = cifp, ud_detail = detail\<rparr>)))))"

definition open_cache :: "string \<Rightarrow> pread_file \<Rightarrow> unified_data result" where
  "open_cache path file =
     (case (if pf_is_open file then pf_size file else None) of
        None \<Rightarrow> Inl (mk_error KDataMissing (''cannot open .bfdb: '' @ path))
      | Some file_size \<Rightarrow>
          if file_size < 4 then bad ''truncated .bfdb''
          else and_then (open_prefix (file_cursor_new file file_size)) (\<lambda>((h, pool_len, pool_crc), c).
            and_then (read_rows (unat section_count) file_size c) (\<lambda>(rows, c).
            and_then (check_header_crc c) (\<lambda>c.
            and_then (read_pool pool_len pool_crc c) (\<lambda>pool.
            and_then (map_rows rows \<lparr>ss_graph = None, ss_cifp = None, ss_detail = None\<rparr>) (\<lambda>slots.
              open_sections file h pool slots))))))"

section \<open>ReadHeader\<close>

definition read_header :: "string \<Rightarrow> pread_file \<Rightarrow> unified_header result" where
  "read_header path file =
     (case (if pf_is_open file then pf_size file else None) of
        None \<Rightarrow> Inl (mk_error KDataMissing (''cannot open .bfdb: '' @ path))
      | Some file_size \<Rightarrow>
          (case read_region file 0 (unat (min file_size max_header_prefix)) of
             None \<Rightarrow> Inl (mk_error KDataMissing (''cannot read .bfdb: '' @ path))
           | Some buf \<Rightarrow>
               if length buf < 4 then Inl (mk_error KCacheCorrupt (''truncated .bfdb: '' @ path))
               else if take 4 buf \<noteq> cache_magic then bad ''not a .bfdb file (bad magic)''
               else
                 let (version, r) = r_u32 (byte_reader_new (drop 4 buf)) in
                 if version \<noteq> format_version then
                   Inl (mk_error KFormatMismatch (with_rebuild_hint ''incompatible .bfdb format version''))
                 else
                   let (_, r) = r_u32 r; (cycle, r) = r_u32 r; (program, r) = r_str r; (loader, r) = r_str r;
                       (data_dir, r) = r_str r; (airway, r) = r_u8 r; (alt, r) = r_u8 r; (mora, r) = r_u8 r;
                       (msa, r) = r_u8 r; (_, r) = r_u32 r; (_, r) = r_u32 r;
                       (_, r) = r_bytes (replicate (unat section_count * section_row_size) 0) r;
                       crc_at = length buf - remaining r; (stored_crc, r) = r_u32 r in
                   if \<not> br_ok r then bad ''corrupt .bfdb header''
                   else if crc_compute (take crc_at buf) \<noteq> stored_crc then bad ''corrupt .bfdb: header CRC mismatch''
                   else Inr \<lparr>uh_cycle = cycle, uh_program_version = program, uh_source_loader = loader,
                       uh_data_dir = data_dir,
                       uh_capabilities = \<lparr>lc_airway_direction = airway \<noteq> 0, lc_altitude_bands = alt \<noteq> 0,
                         lc_mora_grid = mora \<noteq> 0, lc_msa_sectors = msa \<noteq> 0\<rparr>\<rparr>))"

end
