(* ===== verification/GraphCodecRoundtrip.thy ===== *)
theory GraphCodecRoundtrip
  imports GraphCodec GraphBuilder
begin

text \<open>
  Correctness of the graph section codec: what it accepts is a well-formed graph, and what it writes
  it reads back.
\<close>

section \<open>Wire formats of the records\<close>

definition enc_vertex :: "wire_vertex \<Rightarrow> bytes" where
  "enc_vertex x = enc_u64 (wv_lat x) @ enc_u64 (wv_lon x) @ enc_u32 (wv_io x) @ enc_u32 (wv_il x) @
     enc_u32 (wv_ro x) @ enc_u32 (wv_rl x) @ enc_u8 (wv_flags x) @ enc_u8 (wv_kind x)"

definition enc_edge :: "wire_edge \<Rightarrow> bytes" where
  "enc_edge e = enc_u32 (we_to e) @ enc_u32 (we_distance e) @ enc_u16 (we_airway_id e) @ enc_u16 (we_base_fl e) @
     enc_u16 (we_top_fl e) @ enc_u8 (we_level e)"

definition enc_ref :: "u32 \<times> u32 \<Rightarrow> bytes" where
  "enc_ref ref = enc_u32 (fst ref) @ enc_u32 (snd ref)"

definition enc_arc :: "msa_arc \<Rightarrow> bytes" where
  "enc_arc a = enc_u32 (ma_bearing_from a) @ enc_u32 (ma_alt_100ft a) @ enc_u32 (ma_radius_nm a)"

interpretation src_vertex: wire_source r_vertex enc_vertex vertex_record_size
  by unfold_locales
    (simp_all add: r_vertex_def enc_vertex_def int_wrappers get_encs enc_widths vertex_record_size_def)

interpretation src_edge: wire_source r_edge enc_edge edge_record_size
  by unfold_locales
    (simp_all add: r_edge_def enc_edge_def int_wrappers get_encs enc_widths edge_record_size_def)

interpretation fmt_ref: wire_format r_ref enc_ref airway_ref_size w_ref
  by unfold_locales
    (simp_all add: r_ref_def enc_ref_def w_ref_def get_encs put_encs enc_widths airway_ref_size_def)

interpretation fmt_arc: wire_format r_arc enc_arc msa_arc_size w_arc
  by unfold_locales
    (simp_all add: r_arc_def enc_arc_def w_arc_def int_wrappers get_encs put_encs enc_widths msa_arc_size_def)

definition enc_msa :: "wire_msa \<Rightarrow> bytes" where
  "enc_msa m = enc_ref (wm_cio m, wm_cil m) @ enc_ref (wm_cro m, wm_crl m) @ enc_ref (wm_aio m, wm_ail m) @
     enc_u32 (of_nat (length (wm_arcs m))) @ concat (map enc_arc (wm_arcs m))"

lemma r_msa_enc:
  assumes "length (wm_arcs m) \<le> 0xFFFFFFFF"
  shows "r_msa (reader_at pre (enc_msa m @ post)) = Inr (m, reader_at (pre @ enc_msa m) post)"
proof -
  let ?pre = "pre @ enc_ref (wm_cio m, wm_cil m) @ enc_ref (wm_cro m, wm_crl m) @ enc_ref (wm_aio m, wm_ail m) @
     enc_u32 (of_nat (length (wm_arcs m)))"
  have n: "unat (of_nat (length (wm_arcs m)) :: u32) = length (wm_arcs m)" by (rule unat_length_u32 [OF assms])
  have fits: "\<not> (msa_arc_size * length (wm_arcs m) + length post) div msa_arc_size < length (wm_arcs m)"
    by (simp add: msa_arc_size_def)
  show ?thesis
    using fmt_arc.get_many [of "wm_arcs m" ?pre post] n fits
    by (simp add: r_msa_def enc_msa_def fmt_ref.get_enc get_encs fmt_arc.enc_all_width)
qed

lemma r_msas_enc:
  assumes "\<forall>m \<in> set ms. length (wm_arcs m) \<le> 0xFFFFFFFF"
  shows "r_msas (length ms) (reader_at pre (concat (map enc_msa ms) @ post)) =
    Inr (ms, reader_at (pre @ concat (map enc_msa ms)) post)"
  using assms by (induction ms arbitrary: pre) (simp_all add: r_msa_enc)

lemma enc_msa_width: "length (enc_msa m) = msa_header_size + msa_arc_size * length (wm_arcs m)"
  by (simp add: enc_msa_def fmt_ref.enc_width fmt_arc.enc_all_width enc_widths msa_header_size_def airway_ref_size_def)

section \<open>What the encoder writes\<close>

text \<open>The wire record of vertex \<open>i\<close>, its references resolving in \<open>blob\<close>.\<close>

definition vertex_wire :: "bytes \<Rightarrow> cached_graph \<Rightarrow> nat \<Rightarrow> wire_vertex \<Rightarrow> bool" where
  "vertex_wire blob s i x \<longleftrightarrow>
     wv_lat x = latitude (gs_coords s ! i) \<and> wv_lon x = longitude (gs_coords s ! i) \<and>
     refers blob (wv_io x, wv_il x) (ident_view (gs_idents s ! i)) \<and>
     refers blob (wv_ro x, wv_rl x) (icao_code_view (gs_idents s ! i)) \<and>
     wv_flags x = vertex_flags (gs_has_outbound s ! i) (gs_has_inbound s ! i) \<and>
     wv_kind x = waypoint_kind_byte (gs_kinds s ! i) \<and> is_vertex_kind_byte (waypoint_kind_byte (gs_kinds s ! i))"

definition msa_wire :: "bytes \<Rightarrow> msa_sector \<Rightarrow> wire_msa \<Rightarrow> bool" where
  "msa_wire blob s m \<longleftrightarrow>
     refers blob (wm_cio m, wm_cil m) (id_ident (ms_center s)) \<and>
     refers blob (wm_cro m, wm_crl m) (id_icao_code (ms_center s)) \<and>
     refers blob (wm_aio m, wm_ail m) (ms_airport_icao s) \<and> wm_arcs m = ms_arcs s"

lemma vertex_wire_append: "vertex_wire blob s i x \<Longrightarrow> vertex_wire (blob @ extra) s i x"
  by (simp add: vertex_wire_def refers_append)

lemma msa_wire_append: "msa_wire blob s m \<Longrightarrow> msa_wire (blob @ extra) s m"
  by (simp add: msa_wire_def refers_append)

definition pool_grows :: "string_pool \<Rightarrow> string_pool \<Rightarrow> bool" where
  "pool_grows p q \<longleftrightarrow> (\<exists>extra. sp_blob q = sp_blob p @ extra)"

lemma pool_grows_refl [simp]: "pool_grows p p"
  by (simp add: pool_grows_def)

lemma pool_grows_trans: "pool_grows p q \<Longrightarrow> pool_grows q r \<Longrightarrow> pool_grows p r"
  by (auto simp: pool_grows_def)

lemma pool_grows_length: "pool_grows p q \<Longrightarrow> length (sp_blob p) \<le> length (sp_blob q)"
  by (auto simp: pool_grows_def)

lemma pool_add_pool_grows: "pool_add s p = (ref, q) \<Longrightarrow> pool_grows p q"
  using pool_add_grows by (fastforce simp: pool_grows_def)

lemma refers_grows: "pool_grows p q \<Longrightarrow> refers (sp_blob p) ref s \<Longrightarrow> refers (sp_blob q) ref s"
  by (auto simp: pool_grows_def refers_append)

lemma vertex_wire_grows: "pool_grows p q \<Longrightarrow> vertex_wire (sp_blob p) s i x \<Longrightarrow> vertex_wire (sp_blob q) s i x"
  by (auto simp: pool_grows_def vertex_wire_append)

lemma msa_wire_grows: "pool_grows p q \<Longrightarrow> msa_wire (sp_blob p) s m \<Longrightarrow> msa_wire (sp_blob q) s m"
  by (auto simp: pool_grows_def msa_wire_append)


lemma pool_add_step:
  assumes "pool_add s p = (ref, q)" and "pool_ok p" and "pool_grows q r" and "length (sp_blob r) \<le> 0xFFFFFFFF"
  shows "pool_ok q" "refers (sp_blob r) ref s" "pool_grows p q"
proof -
  have "length (sp_blob q) \<le> 0xFFFFFFFF" using pool_grows_length [OF assms(3)] assms(4) by linarith
  note q = pool_add_spec [OF assms(1,2) this]
  show "pool_ok q" "refers (sp_blob r) ref s" "pool_grows p q"
    using q refers_grows [OF assms(3)] pool_add_pool_grows [OF assms(1)] by blast+
qed

lemma encode_vertex_grows: "encode_vertex s i (w, p) = Inr (w', p') \<Longrightarrow> pool_grows p p'"
  by (auto simp: encode_vertex_def serialization_error_def Let_def split: prod.splits if_splits
      dest!: pool_add_pool_grows intro: pool_grows_trans)

lemma encode_vertex_spec:
  assumes "encode_vertex s i (w, p) = Inr (w', p')" and "pool_ok p" and "pool_grows p' r" and "length (sp_blob r) \<le> 0xFFFFFFFF"
  shows "pool_ok p' \<and> (\<exists>x. w' = w\<lparr>bw_out := bw_out w @ enc_vertex x\<rparr> \<and> vertex_wire (sp_blob r) s i x)"
proof -
  let ?c = "gs_coords s ! i" and ?f = "gs_idents s ! i" and ?k = "waypoint_kind_byte (gs_kinds s ! i)"
  obtain ir q where ir: "pool_add (ident_view ?f) p = (ir, q)" by (cases "pool_add (ident_view ?f) p")
  obtain rr q' where rr: "pool_add (icao_code_view ?f) q = (rr, q')" by (cases "pool_add (icao_code_view ?f) q")
  define x where "x = \<lparr>wv_lat = latitude ?c, wv_lon = longitude ?c, wv_io = fst ir, wv_il = snd ir, wv_ro = fst rr,
      wv_rl = snd rr, wv_flags = vertex_flags (gs_has_outbound s ! i) (gs_has_inbound s ! i), wv_kind = ?k\<rparr>"
  have k: "is_vertex_kind_byte ?k" and q': "q' = p'" and w': "w' = w\<lparr>bw_out := bw_out w @ enc_vertex x\<rparr>"
    using assms(1) ir rr
    by (auto simp: encode_vertex_def serialization_error_def Let_def int_wrappers put_encs enc_vertex_def x_def split: if_splits)
  have g: "pool_grows q r" using pool_grows_trans [OF pool_add_pool_grows [OF rr]] assms(3) q' by blast
  note s1 = pool_add_step [OF ir assms(2) g assms(4)]
  note s2 = pool_add_step [OF rr s1(1) _ assms(4), unfolded q', OF assms(3)]
  show ?thesis using s1 s2 k w' by (auto simp: vertex_wire_def x_def)
qed

lemma encode_vertices_grows: "encode_vertices s is (w, p) = Inr (w', p') \<Longrightarrow> pool_grows p p'"
proof (induction "is" arbitrary: w p)
  case (Cons i "is")
  then obtain w1 p1 where "encode_vertex s i (w, p) = Inr (w1, p1)" "encode_vertices s is (w1, p1) = Inr (w', p')"
    by (auto split: sum.splits)
  then show ?case using Cons.IH encode_vertex_grows pool_grows_trans by blast
qed simp

lemma encode_vertices_spec:
  assumes "encode_vertices s is (w, p) = Inr (w', p')" and "pool_ok p" and "pool_grows p' r" and "length (sp_blob r) \<le> 0xFFFFFFFF"
  shows "pool_ok p' \<and> (\<exists>xs. w' = w\<lparr>bw_out := bw_out w @ concat (map enc_vertex xs)\<rparr> \<and>
    list_all2 (vertex_wire (sp_blob r) s) is xs)"
  using assms(1,2)
proof (induction "is" arbitrary: w p)
  case (Cons i "is")
  then obtain w1 p1 where 1: "encode_vertex s i (w, p) = Inr (w1, p1)" "encode_vertices s is (w1, p1) = Inr (w', p')"
    by (auto split: sum.splits)
  have "pool_grows p1 r" using encode_vertices_grows [OF 1(2)] assms(3) pool_grows_trans by blast
  from encode_vertex_spec [OF 1(1) Cons.prems(2) this assms(4)] obtain x where
    x: "pool_ok p1" "w1 = w\<lparr>bw_out := bw_out w @ enc_vertex x\<rparr>" "vertex_wire (sp_blob r) s i x" by blast
  from Cons.IH [OF 1(2) x(1)] obtain xs where
    "pool_ok p'" "w' = w1\<lparr>bw_out := bw_out w1 @ concat (map enc_vertex xs)\<rparr>" "list_all2 (vertex_wire (sp_blob r) s) is xs"
    by blast
  then show ?case using x by (auto intro!: exI [of _ "x # xs"])
qed simp

lemma encode_names_grows: "foldl encode_name (w, p) names = (w', p') \<Longrightarrow> pool_grows p p'"
proof (induction names arbitrary: w p)
  case (Cons name names)
  obtain ref q where q: "pool_add name p = (ref, q)" by (cases "pool_add name p")
  then have "foldl encode_name (w_ref ref w, q) names = (w', p')" using Cons.prems by (simp add: encode_name_def)
  from Cons.IH [OF this] pool_add_pool_grows [OF q] show ?case using pool_grows_trans by blast
qed simp

lemma encode_names_spec:
  assumes "foldl encode_name (w, p) names = (w', p')" and "pool_ok p" and "pool_grows p' r" and "length (sp_blob r) \<le> 0xFFFFFFFF"
  shows "pool_grows p p' \<and> pool_ok p' \<and> (\<exists>refs. w' = w\<lparr>bw_out := bw_out w @ concat (map enc_ref refs)\<rparr> \<and>
    list_all2 (\<lambda>name ref. refers (sp_blob r) ref name) names refs)"
proof -
  have "pool_ok p' \<and> (\<exists>refs. w' = w\<lparr>bw_out := bw_out w @ concat (map enc_ref refs)\<rparr> \<and>
      list_all2 (\<lambda>name ref. refers (sp_blob r) ref name) names refs)"
    using assms(1,2)
  proof (induction names arbitrary: w p)
    case (Cons name names)
    obtain ref q where q: "pool_add name p = (ref, q)" by (cases "pool_add name p")
    then have rest: "foldl encode_name (w_ref ref w, q) names = (w', p')" using Cons.prems by (simp add: encode_name_def)
    have "pool_grows q r" using encode_names_grows [OF rest] assms(3) pool_grows_trans by blast
    note s = pool_add_step [OF q Cons.prems(2) this assms(4)]
    from Cons.IH [OF rest s(1)] obtain refs where
      "pool_ok p'" "w' = (w_ref ref w)\<lparr>bw_out := bw_out (w_ref ref w) @ concat (map enc_ref refs)\<rparr>"
      "list_all2 (\<lambda>name ref. refers (sp_blob r) ref name) names refs" by blast
    then show ?case using s by (auto simp: fmt_ref.put_enc intro!: exI [of _ "ref # refs"])
  qed simp
  then show ?thesis using encode_names_grows [OF assms(1)] by blast
qed


lemma encode_msa_grows: "encode_msa (w, p) s = (w', p') \<Longrightarrow> pool_grows p p'"
  by (auto simp: encode_msa_def Let_def split: prod.splits dest!: pool_add_pool_grows intro: pool_grows_trans)

lemma encode_msa_spec:
  assumes "encode_msa (w, p) s = (w', p')" and "pool_ok p" and "pool_grows p' r" and "length (sp_blob r) \<le> 0xFFFFFFFF"
  shows "pool_ok p' \<and> (\<exists>m. w' = w\<lparr>bw_out := bw_out w @ enc_msa m\<rparr> \<and> msa_wire (sp_blob r) s m)"
proof -
  obtain ci p1 where 1: "pool_add (id_ident (ms_center s)) p = (ci, p1)" by (cases "pool_add (id_ident (ms_center s)) p")
  obtain cr p2 where 2: "pool_add (id_icao_code (ms_center s)) p1 = (cr, p2)" by (cases "pool_add (id_icao_code (ms_center s)) p1")
  obtain ai p3 where 3: "pool_add (ms_airport_icao s) p2 = (ai, p3)" by (cases "pool_add (ms_airport_icao s) p2")
  define m where "m = \<lparr>wm_cio = fst ci, wm_cil = snd ci, wm_cro = fst cr, wm_crl = snd cr, wm_aio = fst ai,
      wm_ail = snd ai, wm_arcs = ms_arcs s\<rparr>"
  have w: "p3 = p'" "w' = w\<lparr>bw_out := bw_out w @ enc_msa m\<rparr>"
    using assms(1) 1 2 3
    by (auto simp: encode_msa_def Let_def fmt_ref.put_enc fmt_arc.put_all put_encs enc_msa_def m_def)
  have g3: "pool_grows p3 r" using assms(3) w(1) by simp
  have g2: "pool_grows p2 r" using pool_grows_trans [OF pool_add_pool_grows [OF 3] g3] .
  have g1: "pool_grows p1 r" using pool_grows_trans [OF pool_add_pool_grows [OF 2] g2] .
  note s1 = pool_add_step [OF 1 assms(2) g1 assms(4)]
  note s2 = pool_add_step [OF 2 s1(1) g2 assms(4)]
  note s3 = pool_add_step [OF 3 s2(1) g3 assms(4)]
  show ?thesis using s1(2) s2(2) s3(1,2) w by (auto simp: msa_wire_def m_def)
qed

lemma encode_msas_grows: "foldl encode_msa (w, p) ss = (w', p') \<Longrightarrow> pool_grows p p'"
proof (induction ss arbitrary: w p)
  case (Cons s ss)
  obtain w1 q where q: "encode_msa (w, p) s = (w1, q)" by (cases "encode_msa (w, p) s")
  then have "foldl encode_msa (w1, q) ss = (w', p')" using Cons.prems by simp
  from Cons.IH [OF this] encode_msa_grows [OF q] show ?case using pool_grows_trans by blast
qed simp

lemma encode_msas_spec:
  assumes "foldl encode_msa (w, p) ss = (w', p')" and "pool_ok p" and "pool_grows p' r" and "length (sp_blob r) \<le> 0xFFFFFFFF"
  shows "pool_grows p p' \<and> pool_ok p' \<and> (\<exists>ms. w' = w\<lparr>bw_out := bw_out w @ concat (map enc_msa ms)\<rparr> \<and>
    list_all2 (msa_wire (sp_blob r)) ss ms)"
proof -
  have "pool_ok p' \<and> (\<exists>ms. w' = w\<lparr>bw_out := bw_out w @ concat (map enc_msa ms)\<rparr> \<and> list_all2 (msa_wire (sp_blob r)) ss ms)"
    using assms(1,2)
  proof (induction ss arbitrary: w p)
    case (Cons s ss)
    obtain w1 q where q: "encode_msa (w, p) s = (w1, q)" by (cases "encode_msa (w, p) s")
    then have rest: "foldl encode_msa (w1, q) ss = (w', p')" using Cons.prems by simp
    have "pool_grows q r" using encode_msas_grows [OF rest] assms(3) pool_grows_trans by blast
    from encode_msa_spec [OF q Cons.prems(2) this assms(4)] obtain m where
      m: "pool_ok q" "w1 = w\<lparr>bw_out := bw_out w @ enc_msa m\<rparr>" "msa_wire (sp_blob r) s m" by blast
    from Cons.IH [OF rest m(1)] obtain ms where
      "pool_ok p'" "w' = w1\<lparr>bw_out := bw_out w1 @ concat (map enc_msa ms)\<rparr>" "list_all2 (msa_wire (sp_blob r)) ss ms"
      by blast
    then show ?case using m by (auto intro!: exI [of _ "m # ms"])
  qed simp
  then show ?thesis using encode_msas_grows [OF assms(1)] by blast
qed

lemma encode_offsets_spec:
  "encode_offsets prev offs w = Inr w' \<Longrightarrow>
     w' = w\<lparr>bw_out := bw_out w @ concat (map enc_u32 (map word_of_int offs))\<rparr> \<and> sorted (prev # offs)"
proof (induction offs arbitrary: prev w)
  case (Cons off offs)
  then have "prev \<le> off" "encode_offsets off offs (w_i32 (word_of_int off) w) = Inr w'"
    by (auto simp: serialization_error_def split: if_splits)
  with Cons.IH [OF this(2)] show ?case by (auto simp: int_wrappers put_encs)
qed simp

definition wire_of_edge :: "u32 graph_edge \<Rightarrow> wire_edge" where
  "wire_of_edge e =
     \<lparr>we_to = ge_to e, we_distance = ge_distance_nm e, we_airway_id = ge_airway_id e, we_base_fl = ge_base_fl e,
      we_top_fl = ge_top_fl e, we_level = airway_level_byte (ge_level e)\<rparr>"

lemma edge_of_wire_of_edge [simp]: "edge_of_wire (wire_of_edge e) = e"
  by (cases e) (simp add: edge_of_wire_def wire_of_edge_def)

lemma wire_of_edge_sel:
  "we_to (wire_of_edge e) = ge_to e" "we_airway_id (wire_of_edge e) = ge_airway_id e"
  "we_level (wire_of_edge e) = airway_level_byte (ge_level e)"
  by (simp_all add: wire_of_edge_def)

lemma level_byte_le: "airway_level_byte l \<le> airway_level_byte LevelBoth"
  by (cases l) (simp_all add: airway_level_byte_def)

definition edge_ok :: "nat \<Rightarrow> nat \<Rightarrow> u32 graph_edge \<Rightarrow> bool" where
  "edge_ok v names e \<longleftrightarrow> 0 \<le> edge_to e \<and> edge_to e < int v \<and> unat (ge_airway_id e) < names"

lemma encode_edges_spec:
  "encode_edges v names es w = Inr w' \<Longrightarrow>
     w' = w\<lparr>bw_out := bw_out w @ concat (map enc_edge (map wire_of_edge es))\<rparr> \<and> (\<forall>e \<in> set es. edge_ok v names e)"
proof (induction es arbitrary: w)
  case (Cons e es)
  then have ok: "edge_ok v names e" "encode_edges v names es (w_edge e w) = Inr w'"
    by (auto simp: serialization_error_def edge_ok_def split: if_splits)
  have "w_edge e w = w\<lparr>bw_out := bw_out w @ enc_edge (wire_of_edge e)\<rparr>"
    by (simp add: w_edge_def enc_edge_def wire_of_edge_def int_wrappers put_encs)
  with ok Cons.IH [OF ok(2)] show ?case by simp
qed simp

lemma check_edges_ok:
  assumes "\<forall>e \<in> set es. edge_ok v names e" and "v < 2 ^ 31" and "names < 2 ^ 32"
  shows "check_edges (of_nat v) (of_nat names) (map wire_of_edge es) = None"
  using assms(1)
proof (induction es)
  case (Cons e es)
  have u: "unat (of_nat v :: u32) = v" "unat (of_nat names :: u32) = names"
    using assms(2,3) by (simp_all add: unat_of_nat)
  have e: "0 \<le> sint (ge_to e)" "sint (ge_to e) < int v" "unat (ge_airway_id e) < names"
    using Cons.prems by (simp_all add: edge_ok_def edge_to_def)
  have "uint (ge_to e) = sint (ge_to e)"
    using e assms(2) by (subst uint_sint) (simp add: take_bit_int_eq_self)
  then have "int (unat (ge_to e)) = sint (ge_to e)" by simp
  then have "unat (ge_to e) < v" using e(2) by linarith
  then have "ge_to e < of_nat v" unfolding word_less_nat_alt u .
  then have "\<not> (sint (ge_to e) < 0 \<or> of_nat v \<le> ge_to e)" "\<not> names \<le> unat (ge_airway_id e)"
    "\<not> airway_level_byte LevelBoth < airway_level_byte (ge_level e)"
    using e level_byte_le [of "ge_level e"] by (simp_all only: not_less not_le, auto)
  moreover have "check_edges (of_nat v) (of_nat names) (map wire_of_edge es) = None" using Cons by simp
  ultimately show ?case using u(2) by (simp add: wire_of_edge_sel)
qed simp


section \<open>Resolution gives the originals back\<close>

lemma resolve_idents_spec:
  assumes "list_all2 (vertex_wire blob s) is xs" and "\<forall>i \<in> set is. fixed_ident_wf (gs_idents s ! i)"
  shows "resolve_idents blob n xs ok = Inr (map (\<lambda>i. gs_idents s ! i) is, ok)"
  using assms
proof (induction arbitrary: n rule: list_all2_induct)
  case (Cons i "is" x xs)
  then have "refers blob (wv_io x, wv_il x) (ident_view (gs_idents s ! i))"
    "refers blob (wv_ro x, wv_rl x) (icao_code_view (gs_idents s ! i))" "fixed_ident_wf (gs_idents s ! i)"
    by (simp_all add: vertex_wire_def)
  then show ?case using Cons by (simp add: refers_resolve fixed_ident_from_parts_views)
qed simp

lemma resolve_names_spec:
  "list_all2 (\<lambda>name ref. refers blob ref name) names refs \<Longrightarrow> resolve_names blob refs ok = (names, ok)"
proof (induction rule: list_all2_induct)
  case (Cons name names ref refs)
  then show ?case using refers_resolve [of blob "fst ref" "snd ref" name ok] by simp
qed simp

lemma resolve_msas_spec:
  "list_all2 (msa_wire blob) ss ms \<Longrightarrow> resolve_msas blob ms ok = (ss, ok)"
proof (induction rule: list_all2_induct)
  case (Cons s ss m ms)
  then have r: "refers blob (wm_cio m, wm_cil m) (id_ident (ms_center s))"
    "refers blob (wm_cro m, wm_crl m) (id_icao_code (ms_center s))"
    "refers blob (wm_aio m, wm_ail m) (ms_airport_icao s)" "wm_arcs m = ms_arcs s"
    by (simp_all add: msa_wire_def)
  then show ?case
    using Cons(3) r(4) by (simp add: refers_resolve [OF r(1)] refers_resolve [OF r(2)] refers_resolve [OF r(3)])
qed simp

lemma flag_bits:
  assumes "a = 0 \<or> a = 1" "b = 0 \<or> b = 1"
  shows "flag_bit (vertex_flags a b) flag_has_outbound = a" "flag_bit (vertex_flags a b) flag_has_inbound = b"
  using assms by (auto simp: flag_bit_def vertex_flags_def flag_has_outbound_def flag_has_inbound_def Let_def)

section \<open>The bytes of a section\<close>

definition enc_counts :: "cached_graph \<Rightarrow> bytes" where
  "enc_counts s = concat (map enc_u32 [of_nat (length (gs_coords s)), of_nat (length (gs_edges s)),
     of_nat (length (gs_airway_names s)), of_nat (length (gs_msa s)), word_of_int (gs_first_airport_vertex s)])"

definition section_body :: "cached_graph \<Rightarrow> wire_vertex list \<Rightarrow> (u32 \<times> u32) list \<Rightarrow> wire_msa list \<Rightarrow> bytes" where
  "section_body s xs refs ms =
     concat (map enc_vertex xs) @ concat (map enc_u32 (gs_airport_elevations_ft s)) @
     concat (map enc_u32 (map word_of_int (gs_offsets s))) @ concat (map enc_edge (map wire_of_edge (gs_edges s))) @
     concat (map enc_ref refs) @ concat (map enc_u16 (mg_cells (gs_mora s))) @ concat (map enc_msa ms)"

lemma encode_counts_enc: "encode_counts s w = w\<lparr>bw_out := bw_out w @ enc_counts s\<rparr>"
  by (simp add: encode_counts_def enc_counts_def put_encs)

lemma r_counts_enc:
  "r_counts (reader_at pre (enc_counts s @ post)) =
     (\<lparr>gc_v = of_nat (length (gs_coords s)), gc_e = of_nat (length (gs_edges s)), gc_airways = of_nat (length (gs_airway_names s)),
       gc_msa = of_nat (length (gs_msa s)), gc_first_airport = word_of_int (gs_first_airport_vertex s)\<rparr>,
      reader_at (pre @ enc_counts s) post)"
  by (simp add: r_counts_def enc_counts_def get_encs)

text \<open>A snapshot whose sizes and values the format can carry.\<close>

definition cacheable :: "cached_graph \<Rightarrow> bool" where
  "cacheable s \<longleftrightarrow>
     length (gs_coords s) < 2 ^ 31 \<and> length (gs_edges s) < 2 ^ 31 \<and> length (gs_msa s) < 2 ^ 32 \<and>
     (\<forall>m \<in> set (gs_msa s). length (ms_arcs m) < 2 ^ 32) \<and>
     (\<forall>f \<in> set (gs_idents s). fixed_ident_wf f) \<and>
     (\<forall>b \<in> set (gs_has_outbound s) \<union> set (gs_has_inbound s). b = 0 \<or> b = 1) \<and>
     length (mg_cells (gs_mora s)) = lat_count * lon_count \<and> from_cells (mg_cells (gs_mora s)) = gs_mora s"

lemma graph_encode_spec:
  assumes "graph_encode s w p = Inr (w', p')" and "pool_ok p" and "length (sp_blob p') \<le> 0xFFFFFFFF"
  obtains xs refs ms where "length (gs_airway_names s) \<le> 0xFFFF" "snapshot_shape_ok s" "airport_shape_ok s"
    "hd (gs_offsets s) = 0" "last (gs_offsets s) = sint (of_nat (length (gs_edges s)) :: i32)" "sorted (0 # gs_offsets s)"
    "\<forall>e \<in> set (gs_edges s). edge_ok (length (gs_coords s)) (length (gs_airway_names s)) e"
    "w' = w\<lparr>bw_out := bw_out w @ enc_counts s @ section_body s xs refs ms\<rparr>"
    "list_all2 (vertex_wire (sp_blob p') s) [0..<length (gs_coords s)] xs"
    "list_all2 (\<lambda>name ref. refers (sp_blob p') ref name) (gs_airway_names s) refs"
    "list_all2 (msa_wire (sp_blob p')) (gs_msa s) ms" "pool_ok p'" "pool_grows p p'"
proof -
  obtain w1 p1 w2 w3 where shape: "length (gs_airway_names s) \<le> 0xFFFF" "snapshot_shape_ok s" "airport_shape_ok s"
      "hd (gs_offsets s) = 0" "last (gs_offsets s) = sint (of_nat (length (gs_edges s)) :: i32)"
    and v: "encode_vertices s [0..<length (gs_coords s)] (encode_counts s w, p) = Inr (w1, p1)"
    and o: "encode_offsets 0 (gs_offsets s) (foldl (\<lambda>w elev. w_i32 elev w) w1 (gs_airport_elevations_ft s)) = Inr w2"
    and e: "encode_edges (length (gs_coords s)) (length (gs_airway_names s)) (gs_edges s) w2 = Inr w3"
    and tl: "encode_tail s (w3, p1) = (w', p')"
    using assms(1)
    by (auto simp: graph_encode_def serialization_error_def Let_def not_less split: if_splits sum.splits)
  obtain w4 p4 where n: "foldl encode_name (w3, p1) (gs_airway_names s) = (w4, p4)"
    by (cases "foldl encode_name (w3, p1) (gs_airway_names s)")
  have m: "foldl encode_msa (foldl (\<lambda>w c. w_i16 c w) w4 (mg_cells (gs_mora s)), p4) (gs_msa s) = (w', p')"
    using tl n by (simp add: encode_tail_def)
  note g4 = encode_msas_grows [OF m] and g1 = encode_names_grows [OF n]
  from encode_vertices_spec [OF v assms(2) pool_grows_trans [OF g1 g4] assms(3)] obtain xs where
    xs: "pool_ok p1" "w1 = (encode_counts s w)\<lparr>bw_out := bw_out (encode_counts s w) @ concat (map enc_vertex xs)\<rparr>"
      "list_all2 (vertex_wire (sp_blob p') s) [0..<length (gs_coords s)] xs" by blast
  from encode_names_spec [OF n xs(1) g4 assms(3)] obtain refs where
    refs: "pool_ok p4" "w4 = w3\<lparr>bw_out := bw_out w3 @ concat (map enc_ref refs)\<rparr>"
      "list_all2 (\<lambda>name ref. refers (sp_blob p') ref name) (gs_airway_names s) refs" by blast
  from encode_msas_spec [OF m refs(1) pool_grows_refl assms(3)] obtain ms where
    ms: "w' = (foldl (\<lambda>w c. w_i16 c w) w4 (mg_cells (gs_mora s)))
          \<lparr>bw_out := bw_out (foldl (\<lambda>w c. w_i16 c w) w4 (mg_cells (gs_mora s))) @ concat (map enc_msa ms)\<rparr>"
      "list_all2 (msa_wire (sp_blob p')) (gs_msa s) ms" "pool_ok p'" by blast
  have grows: "pool_grows p p'"
    using encode_vertices_grows [OF v] pool_grows_trans [OF g1 g4] pool_grows_trans by blast
  note offs = encode_offsets_spec [OF o] and edges = encode_edges_spec [OF e]
  have "w' = w\<lparr>bw_out := bw_out w @ enc_counts s @ section_body s xs refs ms\<rparr>"
    using xs(2) refs(2) ms(1) offs edges
    by (simp add: section_body_def encode_counts_enc int_wrappers fmt_u16.put_all fmt_u32.put_all)
  then show ?thesis using that shape offs edges xs(3) refs(3) ms(2,3) grows by blast
qed


definition counts_of :: "cached_graph \<Rightarrow> graph_counts" where
  "counts_of s =
     \<lparr>gc_v = of_nat (length (gs_coords s)), gc_e = of_nat (length (gs_edges s)), gc_airways = of_nat (length (gs_airway_names s)),
       gc_msa = of_nat (length (gs_msa s)), gc_first_airport = word_of_int (gs_first_airport_vertex s)\<rparr>"

lemma counts_of_unat:
  assumes c: "cacheable s" and a: "airport_shape_ok s" and n: "length (gs_airway_names s) \<le> 0xFFFF"
  shows "unat (gc_v (counts_of s)) = length (gs_coords s)" "unat (gc_e (counts_of s)) = length (gs_edges s)"
    "unat (gc_airways (counts_of s)) = length (gs_airway_names s)" "unat (gc_msa (counts_of s)) = length (gs_msa s)"
    "unat (airport_count (counts_of s)) = length (gs_airport_elevations_ft s)"
    "sint (gc_first_airport (counts_of s)) = gs_first_airport_vertex s"
    "unat (gc_v (counts_of s) + 1) = length (gs_coords s) + 1"
    "\<not> gc_v (counts_of s) < gc_first_airport (counts_of s)"
proof -
  have l: "length (gs_coords s) < 2 ^ 31" "length (gs_edges s) < 2 ^ 31" "length (gs_msa s) < 2 ^ 32"
    using c by (simp_all add: cacheable_def)
  have fa: "0 \<le> gs_first_airport_vertex s" "gs_first_airport_vertex s \<le> int (length (gs_coords s))"
    "int (length (gs_airport_elevations_ft s)) = int (length (gs_coords s)) - gs_first_airport_vertex s"
    using a by (simp_all add: airport_shape_ok_def Let_def)
  show v: "unat (gc_v (counts_of s)) = length (gs_coords s)" "unat (gc_e (counts_of s)) = length (gs_edges s)"
    "unat (gc_airways (counts_of s)) = length (gs_airway_names s)" "unat (gc_msa (counts_of s)) = length (gs_msa s)"
    using l n by (simp_all add: counts_of_def unat_of_nat)
  have f: "gc_first_airport (counts_of s) = of_nat (nat (gs_first_airport_vertex s))"
    using fa(1) by (simp add: counts_of_def)
  have uf: "unat (gc_first_airport (counts_of s)) = nat (gs_first_airport_vertex s)"
  proof -
    have "nat (gs_first_airport_vertex s) < 2 ^ LENGTH(32)" using fa l(1) by simp
    then show ?thesis unfolding f unat_of_nat by (rule mod_less)
  qed
  have le: "gc_first_airport (counts_of s) \<le> gc_v (counts_of s)"
    unfolding word_le_nat_alt uf v using fa by linarith
  then show "\<not> gc_v (counts_of s) < gc_first_airport (counts_of s)" by simp
  show "unat (airport_count (counts_of s)) = length (gs_airport_elevations_ft s)"
    unfolding airport_count_def unat_sub [OF le] uf v using fa by linarith
  show "sint (gc_first_airport (counts_of s)) = gs_first_airport_vertex s"
    using fa l(1) by (simp add: counts_of_def sint_sbintrunc' signed_take_bit_int_eq_self)
  have "gc_v (counts_of s) + 1 = of_nat (length (gs_coords s) + 1)" by (simp add: counts_of_def)
  then show "unat (gc_v (counts_of s) + 1) = length (gs_coords s) + 1"
    using l(1) by (simp only: unat_of_nat) simp
qed

lemma read_section_body:
  assumes c: "cacheable s" and sh: "snapshot_shape_ok s" "airport_shape_ok s" "length (gs_airway_names s) \<le> 0xFFFF"
    and l: "length xs = length (gs_coords s)" "length refs = length (gs_airway_names s)" "length ms = length (gs_msa s)"
    and arcs: "\<forall>m \<in> set ms. length (wm_arcs m) \<le> 0xFFFFFFFF"
  shows "\<exists>pre'. read_section (counts_of s) (reader_at pre (section_body s xs refs ms)) =
    Inr (\<lparr>rg_counts = counts_of s, rg_vertices = xs, rg_elevations = gs_airport_elevations_ft s,
          rg_offsets = map word_of_int (gs_offsets s), rg_edges = map wire_of_edge (gs_edges s), rg_airway_refs = refs,
          rg_cells = mg_cells (gs_mora s), rg_msas = ms\<rparr>, reader_at pre' [])"
proof -
  note n = counts_of_unat [OF c sh(2,3)]
  let ?xs = "concat (map enc_vertex xs)" and ?el = "concat (map enc_u32 (gs_airport_elevations_ft s))"
  let ?of = "concat (map enc_u32 (map word_of_int (gs_offsets s)))"
  let ?ed = "concat (map enc_edge (map wire_of_edge (gs_edges s)))" and ?rf = "concat (map enc_ref refs)"
  let ?ce = "concat (map enc_u16 (mg_cells (gs_mora s)))" and ?ms = "concat (map enc_msa ms)"
  have v: "r_many (unat (gc_v (counts_of s))) r_vertex (reader_at p (?xs @ q)) = (xs, reader_at (p @ ?xs) q)" for p q
    using src_vertex.get_many [of xs p q] n(1) l(1) by simp
  have e: "r_many (unat (airport_count (counts_of s))) r_i32 (reader_at p (?el @ q)) =
      (gs_airport_elevations_ft s, reader_at (p @ ?el) q)" for p q
    using fmt_u32.get_many [of "gs_airport_elevations_ft s" p q] n(5) by (simp add: r_i32_def)
  have o: "r_i32_span (replicate (unat (gc_v (counts_of s)) + 1) 0) (reader_at p (?of @ q)) =
      (map word_of_int (gs_offsets s), reader_at (p @ ?of) q)" for p q
    by (rule r_i32_span_enc) (use n(1) sh(1) in \<open>simp add: snapshot_shape_ok_def Let_def\<close>)
  have d: "r_many (unat (gc_e (counts_of s))) r_edge (reader_at p (?ed @ q)) =
      (map wire_of_edge (gs_edges s), reader_at (p @ ?ed) q)" for p q
    using src_edge.get_many [of "map wire_of_edge (gs_edges s)" p q] n(2) by simp
  have rf: "r_many (unat (gc_airways (counts_of s))) r_ref (reader_at p (?rf @ q)) = (refs, reader_at (p @ ?rf) q)" for p q
    using fmt_ref.get_many [of refs p q] n(3) l(2) by simp
  have ce: "r_i16_span (replicate (lat_count * lon_count) 0) (reader_at p (?ce @ q)) =
      (mg_cells (gs_mora s), reader_at (p @ ?ce) q)" for p q
    by (rule r_i16_span_enc) (use c in \<open>simp add: cacheable_def\<close>)
  have m: "r_msas (unat (gc_msa (counts_of s))) (reader_at p ?ms) = Inr (ms, reader_at (p @ ?ms) [])" for p
    using r_msas_enc [OF arcs, of p "[]"] n(4) l(3) by simp
  show ?thesis
    unfolding read_section_def section_body_def v e o d rf ce Let_def prod.case m sum.case by blast
qed

lemma fits_div: "n * k \<le> avail \<Longrightarrow> 0 < k \<Longrightarrow> n \<le> avail div (k :: nat)"
  by (simp add: less_eq_div_iff_mult_less_eq)

lemma section_body_length:
  assumes "cacheable s" and "snapshot_shape_ok s"
    and l: "length xs = length (gs_coords s)" "length refs = length (gs_airway_names s)" "length ms = length (gs_msa s)"
  shows "length (section_body s xs refs ms) \<ge> length (gs_coords s) * vertex_record_size +
    length (gs_airport_elevations_ft s) * airport_record_size + length (gs_edges s) * edge_record_size +
    length (gs_airway_names s) * airway_ref_size + length (gs_msa s) * msa_header_size +
    (length (gs_coords s) + 1) * 4 + lat_count * lon_count * 2"
proof -
  have "msa_header_size * length ms \<le> length (concat (map enc_msa ms))"
    by (induction ms) (simp_all add: enc_msa_width)
  moreover have "length (gs_offsets s) = length (gs_coords s) + 1"
    using assms(2) by (simp add: snapshot_shape_ok_def Let_def)
  moreover have "length (mg_cells (gs_mora s)) = lat_count * lon_count" using assms(1) by (simp add: cacheable_def)
  moreover have "length (concat (map enc_edge (map wire_of_edge (gs_edges s)))) = edge_record_size * length (gs_edges s)"
    "length (concat (map enc_u32 (map word_of_int (gs_offsets s)))) = 4 * length (gs_offsets s)"
    using src_edge.enc_all_width [of "map wire_of_edge (gs_edges s)"]
      fmt_u32.enc_all_width [of "map word_of_int (gs_offsets s)"] by simp_all
  ultimately show ?thesis
    unfolding section_body_def length_append
    by (simp only: src_vertex.enc_all_width fmt_u32.enc_all_width fmt_ref.enc_all_width fmt_u16.enc_all_width l
        airport_record_size_def) (simp only: mult.commute)
qed

lemma counts_fuse_ok:
  assumes c: "cacheable s" and sh: "snapshot_shape_ok s" "airport_shape_ok s" "length (gs_airway_names s) \<le> 0xFFFF"
    and l: "length xs = length (gs_coords s)" "length refs = length (gs_airway_names s)" "length ms = length (gs_msa s)"
  shows "counts_fuse (counts_of s) (reader_at pre (section_body s xs refs ms)) = None"
proof -
  note n = counts_of_unat [OF c sh(2,3)]
  note len = section_body_length [OF c sh(1) l]
  have fa: "0 \<le> gs_first_airport_vertex s" using sh(2) by (simp add: airport_shape_ok_def Let_def)
  have fits: "count_fits (length (section_body s xs refs ms)) k per" if "unat k * per \<le> length (section_body s xs refs ms)" "0 < per" for k per
    using fits_div [OF that] by (simp add: count_fits_def)
  have sizes: "0 < vertex_record_size" "0 < airport_record_size" "0 < edge_record_size" "0 < airway_ref_size" "0 < msa_header_size"
    by (simp_all add: vertex_record_size_def airport_record_size_def edge_record_size_def airway_ref_size_def msa_header_size_def)
  have "\<not> (\<not> br_ok (reader_at pre (section_body s xs refs ms)) \<or> sint (gc_first_airport (counts_of s)) < 0 \<or>
      gc_v (counts_of s) < gc_first_airport (counts_of s))"
    using n(6,8) fa by simp
  moreover have "count_fits (length (section_body s xs refs ms)) (gc_v (counts_of s)) vertex_record_size"
    "count_fits (length (section_body s xs refs ms)) (airport_count (counts_of s)) airport_record_size"
    "count_fits (length (section_body s xs refs ms)) (gc_e (counts_of s)) edge_record_size"
    "count_fits (length (section_body s xs refs ms)) (gc_airways (counts_of s)) airway_ref_size"
    "count_fits (length (section_body s xs refs ms)) (gc_msa (counts_of s)) msa_header_size"
    by (rule fits, unfold n, use len in linarith, rule sizes)+
  moreover have "\<not> length (section_body s xs refs ms) < min_body_bytes (counts_of s)"
    unfolding min_body_bytes_def n using len by linarith
  ultimately show ?thesis unfolding counts_fuse_def reader_at_sel Let_def by (simp only: if_False de_Morgan_disj not_not simp_thms)
qed


definition raw_of :: "cached_graph \<Rightarrow> wire_vertex list \<Rightarrow> (u32 \<times> u32) list \<Rightarrow> wire_msa list \<Rightarrow> raw_graph" where
  "raw_of s xs refs ms =
     \<lparr>rg_counts = counts_of s, rg_vertices = xs, rg_elevations = gs_airport_elevations_ft s,
      rg_offsets = map word_of_int (gs_offsets s), rg_edges = map wire_of_edge (gs_edges s), rg_airway_refs = refs,
      rg_cells = mg_cells (gs_mora s), rg_msas = ms\<rparr>"

lemma sint_of_nat_small: "n < 2 ^ 31 \<Longrightarrow> sint (of_nat n :: i32) = int n"
proof -
  assume "n < 2 ^ 31"
  then have "sint (word_of_int (int n) :: i32) = int n"
    by (subst sint_sbintrunc') (simp add: signed_take_bit_int_eq_self)
  then show ?thesis by simp
qed

lemma sorted_le_last: "sorted xs \<Longrightarrow> x \<in> set xs \<Longrightarrow> x \<le> last xs"
  by (induction xs) auto

lemma offsets_sint:
  assumes "sorted (0 # offs)" and "last offs = sint (of_nat e :: i32)" and "e < 2 ^ 31" and "offs \<noteq> []"
  shows "map sint (map (word_of_int :: int \<Rightarrow> i32) offs) = offs"
proof -
  have l: "last offs = int e" using assms(2,3) by (simp add: sint_of_nat_small)
  have "x \<le> last offs" if "x \<in> set offs" for x
    using sorted_le_last [OF _ that] assms(1) by simp
  then have "0 \<le> x \<and> x < 2 ^ 31" if "x \<in> set offs" for x
    using assms(1,3) l that by fastforce
  then have "signed_take_bit 31 x = x" if "x \<in> set offs" for x
    using that by (intro signed_take_bit_int_eq_self) fastforce+
  then show ?thesis by (auto simp: sint_sbintrunc' intro!: map_idI)
qed

lemma validate_ok:
  assumes c: "cacheable s" and sh: "snapshot_shape_ok s" "airport_shape_ok s" "length (gs_airway_names s) \<le> 0xFFFF"
    and o: "hd (gs_offsets s) = 0" "last (gs_offsets s) = sint (of_nat (length (gs_edges s)) :: i32)" "sorted (0 # gs_offsets s)"
    and e: "\<forall>e \<in> set (gs_edges s). edge_ok (length (gs_coords s)) (length (gs_airway_names s)) e"
    and x: "list_all2 (vertex_wire blob s) [0..<length (gs_coords s)] xs"
  shows "validate_section (raw_of s xs refs ms) (reader_at pre []) = None"
    and "map sint (rg_offsets (raw_of s xs refs ms)) = gs_offsets s"
proof -
  have len: "length (gs_offsets s) = length (gs_coords s) + 1" "gs_offsets s \<noteq> []"
    using sh(1) by (auto simp: snapshot_shape_ok_def Let_def)
  have small: "length (gs_coords s) < 2 ^ 31" "length (gs_edges s) < 2 ^ 31" using c by (simp_all add: cacheable_def)
  have offs: "map sint (map (word_of_int :: int \<Rightarrow> i32) (gs_offsets s)) = gs_offsets s"
    by (rule offsets_sint [OF o(3,2) small(2) len(2)])
  then show "map sint (rg_offsets (raw_of s xs refs ms)) = gs_offsets s" by (simp add: raw_of_def)
  have mono: "list_all (\<lambda>i. gs_offsets s ! i \<le> gs_offsets s ! (i + 1)) [0..<length (gs_coords s)]"
    using o(3) len(1) by (auto simp: list_all_iff intro!: sorted_nth_mono)
  have edges: "check_edges (gc_v (counts_of s)) (gc_airways (counts_of s)) (map wire_of_edge (gs_edges s)) = None"
    using check_edges_ok [OF e small(1)] sh(3) by (simp add: counts_of_def)
  have kinds: "list_all (\<lambda>w. is_vertex_kind_byte (wv_kind w)) xs"
    using x by (auto simp: list_all2_conv_all_nth list_all_length vertex_wire_def)
  note n = counts_of_unat [OF c sh(2,3)]
  have ge: "sint (gc_e (counts_of s)) = last (gs_offsets s)" using o(2) by (simp add: counts_of_def)
  show "validate_section (raw_of s xs refs ms) (reader_at pre []) = None"
    unfolding validate_section_def raw_of_def raw_graph.select_convs offs Let_def n ge
    using o(1) mono edges kinds by simp
qed

lemma resolve_section_ok:
  assumes c: "cacheable s" and sh: "snapshot_shape_ok s" "airport_shape_ok s" "length (gs_airway_names s) \<le> 0xFFFF"
    and x: "list_all2 (vertex_wire blob s) [0..<length (gs_coords s)] xs"
    and r: "list_all2 (\<lambda>name ref. refers blob ref name) (gs_airway_names s) refs"
    and m: "list_all2 (msa_wire blob) (gs_msa s) ms"
    and offs: "map sint (rg_offsets (raw_of s xs refs ms)) = gs_offsets s"
  shows "resolve_section blob (raw_of s xs refs ms) = Inr s"
proof -
  let ?v = "length (gs_coords s)"
  have l: "length xs = ?v" using list_all2_lengthD [OF x] by simp
  have w: "vertex_wire blob s i (xs ! i)" if "i < ?v" for i
    using list_all2_nthD2 [OF x, of i] l that by simp
  have len: "length (gs_idents s) = ?v" "length (gs_has_outbound s) = ?v" "length (gs_has_inbound s) = ?v" "length (gs_kinds s) = ?v"
    using sh(1) by (simp_all add: snapshot_shape_ok_def Let_def)
  have wf: "\<forall>i \<in> set [0..<?v]. fixed_ident_wf (gs_idents s ! i)" using c len by (auto simp: cacheable_def)
  have ids: "resolve_idents blob 0 xs True = Inr (gs_idents s, True)"
    using resolve_idents_spec [OF x wf, of 0 True] len(1) map_nth [of "gs_idents s"] by simp
  have b: "gs_has_outbound s ! i = 0 \<or> gs_has_outbound s ! i = 1" "gs_has_inbound s ! i = 0 \<or> gs_has_inbound s ! i = 1"
    if "i < ?v" for i using c len that by (auto simp: cacheable_def)
  have coords: "map (\<lambda>w. \<lparr>latitude = wv_lat w, longitude = wv_lon w\<rparr>) xs = gs_coords s"
    using w l by (auto simp: vertex_wire_def intro!: nth_equalityI)
  have out: "map (\<lambda>w. flag_bit (wv_flags w) flag_has_outbound) xs = gs_has_outbound s"
    using w l len b by (auto simp: vertex_wire_def flag_bits intro!: nth_equalityI)
  have inb: "map (\<lambda>w. flag_bit (wv_flags w) flag_has_inbound) xs = gs_has_inbound s"
    using w l len b by (auto simp: vertex_wire_def flag_bits intro!: nth_equalityI)
  have kinds: "map (\<lambda>w. waypoint_kind_of_byte (wv_kind w)) xs = gs_kinds s"
    using w l len by (auto simp: vertex_wire_def intro!: nth_equalityI)
  have edges: "map edge_of_wire (map wire_of_edge (gs_edges s)) = gs_edges s"
    by (simp add: comp_def)
  have fa: "sint (gc_first_airport (counts_of s)) = gs_first_airport_vertex s" by (rule counts_of_unat [OF c sh(2,3)])
  have mora: "from_cells (mg_cells (gs_mora s)) = gs_mora s" using c by (simp add: cacheable_def)
  show ?thesis
    using offs
    unfolding resolve_section_def raw_of_def raw_graph.select_convs ids sum.case prod.case Let_def
      resolve_names_spec [OF r] resolve_msas_spec [OF m] coords out inb kinds edges fa mora
    by simp
qed

lemma graph_decode_encoded:
  assumes "graph_encode s byte_writer_new p = Inr (w, p')" and "pool_ok p" and "length (sp_blob p') \<le> 0xFFFFFFFF"
    and "cacheable s"
  shows "graph_decode (bw_out w) (sp_blob p' @ later) = Inr s"
proof (rule graph_encode_spec [OF assms(1-3)])
  fix xs refs ms
  assume n: "length (gs_airway_names s) \<le> 0xFFFF" and sh: "snapshot_shape_ok s" "airport_shape_ok s"
    and o: "hd (gs_offsets s) = 0" "last (gs_offsets s) = sint (of_nat (length (gs_edges s)) :: i32)" "sorted (0 # gs_offsets s)"
    and e: "\<forall>e \<in> set (gs_edges s). edge_ok (length (gs_coords s)) (length (gs_airway_names s)) e"
    and w: "w = byte_writer_new\<lparr>bw_out := bw_out byte_writer_new @ enc_counts s @ section_body s xs refs ms\<rparr>"
    and x: "list_all2 (vertex_wire (sp_blob p') s) [0..<length (gs_coords s)] xs"
    and r: "list_all2 (\<lambda>name ref. refers (sp_blob p') ref name) (gs_airway_names s) refs"
    and m: "list_all2 (msa_wire (sp_blob p')) (gs_msa s) ms"
  have l: "length xs = length (gs_coords s)" "length refs = length (gs_airway_names s)" "length ms = length (gs_msa s)"
    using list_all2_lengthD [OF x] list_all2_lengthD [OF r] list_all2_lengthD [OF m] by simp_all
  have x': "list_all2 (vertex_wire (sp_blob p' @ later) s) [0..<length (gs_coords s)] xs"
    using x by (rule list_all2_mono) (rule vertex_wire_append)
  have r': "list_all2 (\<lambda>name ref. refers (sp_blob p' @ later) ref name) (gs_airway_names s) refs"
    using r by (rule list_all2_mono) (rule refers_append)
  have m': "list_all2 (msa_wire (sp_blob p' @ later)) (gs_msa s) ms"
    using m by (rule list_all2_mono) (rule msa_wire_append)
  have arcs: "\<forall>m \<in> set ms. length (wm_arcs m) \<le> 0xFFFFFFFF"
  proof
    fix x assume "x \<in> set ms"
    then obtain i where i: "i < length ms" "x = ms ! i" by (auto simp: in_set_conv_nth)
    then have "wm_arcs x = ms_arcs (gs_msa s ! i)" "gs_msa s ! i \<in> set (gs_msa s)"
      using list_all2_nthD2 [OF m, of i] l(3) by (simp_all add: msa_wire_def)
    then show "length (wm_arcs x) \<le> 0xFFFFFFFF" using assms(4) by (auto simp: cacheable_def)
  qed
  obtain pre' where read: "read_section (counts_of s) (reader_at ([] @ enc_counts s) (section_body s xs refs ms)) =
      Inr (raw_of s xs refs ms, reader_at pre' [])"
    using read_section_body [OF assms(4) sh n l arcs] by (auto simp: raw_of_def)
  have counts: "r_counts (byte_reader_new (bw_out w)) = (counts_of s, reader_at ([] @ enc_counts s) (section_body s xs refs ms))"
    using r_counts_enc [of "[]" s "section_body s xs refs ms"]
    by (simp add: w byte_writer_new_def byte_reader_new_at counts_of_def)
  note v = validate_ok [OF assms(4) sh n o e x', of refs ms]
  show ?thesis
    unfolding graph_decode_def counts Let_def prod.case counts_fuse_ok [OF assms(4) sh n l] option.case read sum.case
      v(1) resolve_section_ok [OF assms(4) sh n x' r' m' v(2)] ..
qed


section \<open>What the decoder accepts\<close>

lemma r_many_length: "r_many n get r = (xs, r') \<Longrightarrow> length xs = n"
  by (induction n arbitrary: r xs r') (auto simp: Let_def split: prod.splits)

lemma reads_length:
  "r_many n get r = (xs, r') \<Longrightarrow> length xs = n"
  "r_i32_span d32 r = (x32, r') \<Longrightarrow> length x32 = length d32"
  "r_i16_span d16 r = (x16, r') \<Longrightarrow> length x16 = length d16"
  by (rule r_many_length, assumption) (auto simp: r_i32_span_def r_i16_span_def Let_def split: if_splits)

lemma read_section_lengths:
  assumes "read_section c r = Inr (g, r')"
  shows "rg_counts g = c" "length (rg_vertices g) = unat (gc_v c)" "length (rg_elevations g) = unat (airport_count c)"
    "length (rg_offsets g) = unat (gc_v c) + 1" "length (rg_edges g) = unat (gc_e c)"
    "length (rg_airway_refs g) = unat (gc_airways c)" "length (rg_cells g) = lat_count * lon_count"
  using assms by (auto simp: read_section_def Let_def dest!: reads_length split: prod.splits sum.splits)

lemma check_edges_None:
  "check_edges v airways es = None \<Longrightarrow> e \<in> set es \<Longrightarrow>
     0 \<le> sint (we_to e) \<and> we_to e < v \<and> unat (we_airway_id e) < unat airways"
  by (induction es) (auto split: if_splits)

lemma sint_nonneg:
  fixes w :: i32
  assumes "0 \<le> sint w"
  shows "sint w = int (unat w)"
proof -
  have "sint w < 2 ^ 32" using sint_lt [of w] by simp
  then have "uint w = sint w" using assms by (subst uint_sint) (simp add: take_bit_int_eq_self)
  then show ?thesis by simp
qed

lemma resolve_idents_wf:
  "resolve_idents pool n ws ok = Inr (fs, ok') \<Longrightarrow> length fs = length ws \<and> (\<forall>f \<in> set fs. fixed_ident_wf f)"
proof (induction ws arbitrary: n ok fs)
  case (Cons w ws)
  then show ?case
    by (auto simp: Let_def bad_def split: prod.splits sum.splits dest: fixed_ident_from_parts_OkD(1))
qed simp

lemma resolve_names_length: "resolve_names pool refs ok = (names, ok') \<Longrightarrow> length names = length refs"
  by (induction refs arbitrary: ok names) (auto simp: Let_def split: prod.splits)

lemma vertex_kind_byte_ok: "is_vertex_kind_byte b \<Longrightarrow> is_graph_vertex_kind (waypoint_kind_of_byte b)"
  by (simp add: is_vertex_kind_byte_def)

text \<open>What the rest of the program relies on in a decoded graph.\<close>

definition sound_snapshot :: "cached_graph \<Rightarrow> bool" where
  "sound_snapshot s \<longleftrightarrow> snapshot_shape_ok s \<and> airport_shape_ok s \<and>
     csr_offsets_ok (gs_offsets s) (length (gs_coords s)) (length (gs_edges s)) \<and>
     (\<forall>e \<in> set (gs_edges s). edge_ok (length (gs_coords s)) (length (gs_airway_names s)) e) \<and>
     (\<forall>k \<in> set (gs_kinds s). is_graph_vertex_kind k) \<and> (\<forall>f \<in> set (gs_idents s). fixed_ident_wf f) \<and>
     length (mg_cells (gs_mora s)) = lat_count * lon_count"

lemma validate_None:
  assumes "validate_section g r = None" and len: "length (rg_offsets g) = unat (gc_v (rg_counts g)) + 1"
    and e: "length (rg_edges g) = unat (gc_e (rg_counts g))"
  shows "csr_offsets_ok (map sint (rg_offsets g)) (unat (gc_v (rg_counts g))) (length (rg_edges g))"
    and "\<forall>x \<in> set (rg_edges g). 0 \<le> sint (we_to x) \<and> we_to x < gc_v (rg_counts g) \<and>
      unat (we_airway_id x) < unat (gc_airways (rg_counts g))"
    and "\<forall>x \<in> set (rg_vertices g). is_vertex_kind_byte (wv_kind x)"
proof -
  let ?offs = "map sint (rg_offsets g)" and ?v = "unat (gc_v (rg_counts g))"
  have v: "hd ?offs = 0" "last ?offs = sint (gc_e (rg_counts g))"
    "list_all (\<lambda>i. ?offs ! i \<le> ?offs ! (i + 1)) [0..<?v]"
    "check_edges (gc_v (rg_counts g)) (gc_airways (rg_counts g)) (rg_edges g) = None"
    "list_all (\<lambda>w. is_vertex_kind_byte (wv_kind w)) (rg_vertices g)"
    using assms(1) unfolding validate_section_def Let_def by (auto split: if_splits option.splits)
  have ne: "?offs \<noteq> []" and l: "length ?offs = ?v + 1" using len by auto
  have s: "sorted ?offs"
    using v(3) l by (auto simp: sorted_iff_nth_Suc list_all_iff)
  have "0 \<le> last ?offs" using sorted_le_last [OF s hd_in_set [OF ne]] v(1) by simp
  then have "last ?offs = int (length (rg_edges g))" using v(2) sint_nonneg [of "gc_e (rg_counts g)"] e by simp
  then show "csr_offsets_ok ?offs ?v (length (rg_edges g))"
    using v(1) s l ne by (simp add: csr_offsets_ok_def hd_conv_nth last_conv_nth)
  show "\<forall>x \<in> set (rg_edges g). 0 \<le> sint (we_to x) \<and> we_to x < gc_v (rg_counts g) \<and>
      unat (we_airway_id x) < unat (gc_airways (rg_counts g))"
    using check_edges_None [OF v(4)] by blast
  show "\<forall>x \<in> set (rg_vertices g). is_vertex_kind_byte (wv_kind x)"
    using v(5) by (simp add: list_all_iff)
qed

lemma decode_sound:
  assumes "graph_decode body pool = Inr s"
  shows "sound_snapshot s"
proof -
  obtain c r where c: "r_counts (byte_reader_new body) = (c, r)" by (cases "r_counts (byte_reader_new body)")
  obtain g r' where f: "counts_fuse c r = None" and g: "read_section c r = Inr (g, r')"
    and v: "validate_section g r' = None" and s: "resolve_section pool g = Inr s"
    using assms c unfolding graph_decode_def by (auto simp: bad_def split: option.splits sum.splits)
  note len = read_section_lengths [OF g]
  obtain idents names msa ok1 ok2 where ids: "resolve_idents pool 0 (rg_vertices g) True = Inr (idents, ok1)"
    and nm: "resolve_names pool (rg_airway_refs g) ok1 = (names, ok2)"
    and s': "s = \<lparr>gs_first_airport_vertex = sint (gc_first_airport c),
             gs_coords = map (\<lambda>w. \<lparr>latitude = wv_lat w, longitude = wv_lon w\<rparr>) (rg_vertices g),
             gs_offsets = map sint (rg_offsets g), gs_edges = map edge_of_wire (rg_edges g),
             gs_has_outbound = map (\<lambda>w. flag_bit (wv_flags w) flag_has_outbound) (rg_vertices g),
             gs_has_inbound = map (\<lambda>w. flag_bit (wv_flags w) flag_has_inbound) (rg_vertices g),
             gs_idents = idents, gs_kinds = map (\<lambda>w. waypoint_kind_of_byte (wv_kind w)) (rg_vertices g),
             gs_airway_names = names, gs_mora = from_cells (rg_cells g), gs_msa = msa,
             gs_airport_elevations_ft = rg_elevations g\<rparr>"
    using s len(1) unfolding resolve_section_def Let_def
    by (auto simp: bad_def split: sum.splits prod.splits if_splits)
  note v' = validate_None [OF v len(4,5) [folded len(1)]]
  note i = resolve_idents_wf [OF ids] and n = resolve_names_length [OF nm]
  have fa: "0 \<le> sint (gc_first_airport c)" "gc_first_airport c \<le> gc_v c"
    using f by (auto simp: counts_fuse_def split: if_splits)
  have le: "unat (gc_first_airport c) \<le> unat (gc_v c)" using fa(2) by (simp only: word_le_nat_alt)
  have el: "length (rg_elevations g) = unat (gc_v c) - unat (gc_first_airport c)"
    using len(3) unat_sub [OF fa(2)] by (simp only: airport_count_def)
  have "sint (gc_first_airport c) \<le> int (unat (gc_v c))"
    "int (length (rg_elevations g)) = int (unat (gc_v c)) - sint (gc_first_airport c)"
    using sint_nonneg [OF fa(1)] le el by linarith+
  then have "airport_shape_ok s"
    using fa(1) len(2) by (simp only: airport_shape_ok_def s' graph_snapshot.select_convs Let_def length_map)
  moreover have "edge_ok (length (gs_coords s)) (length (gs_airway_names s)) e" if e: "e \<in> set (gs_edges s)" for e
  proof -
    obtain x where x: "x \<in> set (rg_edges g)" "e = edge_of_wire x" using e by (auto simp: s')
    have b: "0 \<le> sint (we_to x)" "we_to x < gc_v c" "unat (we_airway_id x) < unat (gc_airways c)"
      using v'(2) x(1) len(1) by auto
    have "unat (we_to x) < unat (gc_v c)" using b(2) by (simp add: word_less_nat_alt)
    then have "sint (we_to x) < int (unat (gc_v c))" using sint_nonneg [OF b(1)] by linarith
    then show ?thesis
      using b(1,3) n len(2,6)
      by (simp only: edge_ok_def edge_to_def x(2) edge_of_wire_def s' graph_snapshot.select_convs graph_edge.select_convs length_map)
  qed
  ultimately show ?thesis
    using v'(1,3) i len by (auto simp: sound_snapshot_def snapshot_shape_ok_def s' from_cells_def vertex_kind_byte_ok)
qed

lemma decode_error:
  assumes "graph_decode body pool = Inl e"
  shows "err_code e = KCacheCorrupt"
proof -
  have m: "r_msa r = Inl e \<Longrightarrow> err_code e = KCacheCorrupt" for r
    by (auto simp: r_msa_def bad_def Let_def split: prod.splits if_splits)
  have ms: "r_msas n r = Inl e \<Longrightarrow> err_code e = KCacheCorrupt" for n r
    by (induction n arbitrary: r) (auto split: sum.splits dest: m)
  have ids: "resolve_idents pool n ws ok = Inl e \<Longrightarrow> err_code e = KCacheCorrupt" for n ws ok
    by (induction ws arbitrary: n ok) (auto simp: Let_def bad_def split: sum.splits prod.splits)
  show ?thesis
    using assms
    by (auto simp: graph_decode_def Let_def bad_def read_section_def resolve_section_def
        split: prod.splits option.splits sum.splits if_splits dest: ms ids)
qed


section \<open>Properties\<close>

text \<open>One routable vertex and the reserved airway name.\<close>

definition cached_sample :: cached_graph where
  "cached_sample =
     \<lparr>gs_first_airport_vertex = 1, gs_coords = [\<lparr>latitude = 0x4049000000000000, longitude = 0x4020000000000000\<rparr>],
      gs_offsets = [0, 0], gs_edges = [], gs_has_outbound = [1], gs_has_inbound = [0],
      gs_idents = [projr (fixed_ident_from_parts ''ABC'' ''ED'')], gs_kinds = [KVor], gs_airway_names = [''DCT''],
      gs_mora = mora_grid_empty, gs_msa = [], gs_airport_elevations_ft = []\<rparr>"

lemma cached_sample_ident:
  "fixed_ident_wf (projr (fixed_ident_from_parts ''ABC'' ''ED''))"
  "ident_view (projr (fixed_ident_from_parts ''ABC'' ''ED'')) = ''ABC''"
  "icao_code_view (projr (fixed_ident_from_parts ''ABC'' ''ED'')) = ''ED''"
  using fixed_ident_from_parts_cases(1) [of "''ABC''" "''ED''"] by auto

lemma foldl_replicate_zero:
  "foldl (\<lambda>n v. if v \<noteq> 0 then n + 1 else n) k (replicate m 0) = k"
  by (induction m) simp_all

lemma cached_sample_cacheable: "cacheable cached_sample"
  by (simp add: cacheable_def cached_sample_def cached_sample_ident mora_grid_empty_def from_cells_def foldl_replicate_zero)

lemma cached_sample_encodes_small:
  obtains w p where "graph_encode cached_sample byte_writer_new string_pool_new = Inr (w, p)" "length (sp_blob p) \<le> 100"
proof -
  obtain w p where wp: "graph_encode cached_sample byte_writer_new string_pool_new = Inr (w, p)"
    "sp_blob p = bytes_of_string ''ABC'' @ bytes_of_string ''ED'' @ bytes_of_string ''DCT''"
    by (simp add: graph_encode_def snapshot_shape_ok_def airport_shape_ok_def encode_vertex_def encode_tail_def
        encode_name_def pool_add_def string_pool_new_def Let_def is_vertex_kind_byte_def waypoint_kind_byte_def
        waypoint_kind_of_byte_def is_graph_vertex_kind_def cached_sample_def cached_sample_ident split: prod.split)
  then show thesis using that by simp
qed

lemma cached_sample_encodes:
  obtains w p where "graph_encode cached_sample byte_writer_new string_pool_new = Inr (w, p)" "length (sp_blob p) \<le> 0xFFFFFFFF"
  by (rule cached_sample_encodes_small) (use that in simp)

text \<open>
  C25: Decoding inverts encoding: whatever snapshot the encoder accepts, the decoder returns unchanged,
  bit patterns included, from the bytes written and the string pool as it stands after any later
  section has added to it.
\<close>

theorem graph_codec_roundtrip:
  assumes "graph_encode s byte_writer_new p = Inr (w, p')" and "pool_ok p" and "length (sp_blob p') \<le> 0xFFFFFFFF"
    and "cacheable s"
  shows "graph_decode (bw_out w) (sp_blob p' @ later) = Inr s"
  by (rule graph_decode_encoded [OF assms])

lemma graph_codec_roundtrip_witness:
  "\<exists>w p. graph_encode cached_sample byte_writer_new string_pool_new = Inr (w, p) \<and>
     graph_decode (bw_out w) (sp_blob p @ [1, 2, 3]) = Inr cached_sample"
proof (rule cached_sample_encodes)
  fix w p assume "graph_encode cached_sample byte_writer_new string_pool_new = Inr (w, p)" "length (sp_blob p) \<le> 0xFFFFFFFF"
  with graph_codec_roundtrip [OF this(1) pool_ok_new this(2) cached_sample_cacheable, of "[1, 2, 3]"]
  show ?thesis by blast
qed

text \<open>
  C26: Decoding is safe on arbitrary bytes: whatever the section and the pool hold, the decoder either
  reports a corrupt cache or returns a graph whose CSR rows, edge targets, airway ids, vertex kinds,
  identifiers and array sizes are all in range, which is what the unchecked accessors rely on.
\<close>

theorem graph_decode_safe:
  "case graph_decode body pool of Inl e \<Rightarrow> err_code e = KCacheCorrupt | Inr s \<Rightarrow> sound_snapshot s"
  using decode_error [of body pool] decode_sound [of body pool] by (cases "graph_decode body pool") auto

end
