(* ===== verification/CifpCodecCorrect.thy ===== *)
theory CifpCodecCorrect
  imports CifpCodec GraphCodecRoundtrip
begin

text \<open>
  Correctness of the procedure section: what a segment carries comes back, a section opens into the archive
  that holds exactly the encoded airports, the reads stay inside the section, and a corrupted byte never
  turns into wrong data. The locale \<open>pooled_format\<close> is the contract between a writer that interns strings
  and the fallible reader that resolves them; its lemmas carry the contract over to counted runs.
\<close>

section \<open>Records with pooled strings\<close>

text \<open>
  \<open>bs\<close> is read back as \<open>x\<close>, whatever surrounds it and whatever the reference flag is.
\<close>

definition decodes :: "(segment_reader \<Rightarrow> ('a \<times> segment_reader) result) \<Rightarrow> bytes \<Rightarrow> 'a \<Rightarrow> bool" where
  "decodes get bs x \<longleftrightarrow> (\<forall>pre post ok. get (reader_at pre (bs @ post), ok) = Inr (x, (reader_at (pre @ bs) post, ok)))"

locale pooled_format =
  fixes put :: "byte_writer \<times> string_pool \<Rightarrow> 'a \<Rightarrow> byte_writer \<times> string_pool"
    and get :: "bytes \<Rightarrow> segment_reader \<Rightarrow> ('a \<times> segment_reader) result"
    and carries :: "'a \<Rightarrow> bool" and least :: nat
  assumes put_grows: "put (w, p) x = (w', p') \<Longrightarrow> pool_grows p p'"
    and put_get: "put (w, p) x = (w', p') \<Longrightarrow> pool_ok p \<Longrightarrow> pool_grows p' q \<Longrightarrow> length (sp_blob q) \<le> 0xFFFFFFFF \<Longrightarrow>
      carries x \<Longrightarrow>
      pool_ok p' \<and> (\<exists>bs. w' = w\<lparr>bw_out := bw_out w @ bs\<rparr> \<and> least \<le> length bs \<and> decodes (get (sp_blob q)) bs x)"
begin

lemma put_all_grows: "foldl put (w, p) xs = (w', p') \<Longrightarrow> pool_grows p p'"
proof (induction xs arbitrary: w p)
  case (Cons x xs)
  obtain w1 p1 where 1: "put (w, p) x = (w1, p1)" by (cases "put (w, p) x")
  then have "foldl put (w1, p1) xs = (w', p')" using Cons.prems by simp
  from Cons.IH [OF this] put_grows [OF 1] show ?case using pool_grows_trans by blast
qed simp

lemma put_all_get:
  assumes "foldl put (w, p) xs = (w', p')" and "pool_ok p" and "pool_grows p' q" and "length (sp_blob q) \<le> 0xFFFFFFFF"
    and "\<forall>x \<in> set xs. carries x"
  shows "pool_ok p' \<and> (\<exists>bs. w' = w\<lparr>bw_out := bw_out w @ bs\<rparr> \<and> length xs * least \<le> length bs \<and>
    decodes (r_each (length xs) (get (sp_blob q))) bs xs)"
  using assms(1,2,5)
proof (induction xs arbitrary: w p)
  case Nil
  then show ?case by (auto simp: decodes_def intro!: exI [of _ "[]"])
next
  case (Cons x xs)
  obtain w1 p1 where 1: "put (w, p) x = (w1, p1)" by (cases "put (w, p) x")
  then have rest: "foldl put (w1, p1) xs = (w', p')" using Cons.prems by simp
  have "pool_grows p1 q" using put_all_grows [OF rest] assms(3) pool_grows_trans by blast
  from put_get [OF 1 Cons.prems(2) this assms(4)] Cons.prems(3) obtain b1 where
    b1: "pool_ok p1" "w1 = w\<lparr>bw_out := bw_out w @ b1\<rparr>" "least \<le> length b1" "decodes (get (sp_blob q)) b1 x" by auto
  from Cons.IH [OF rest b1(1)] Cons.prems(3) obtain bs where
    bs: "pool_ok p'" "w' = w1\<lparr>bw_out := bw_out w1 @ bs\<rparr>" "length xs * least \<le> length bs"
      "decodes (r_each (length xs) (get (sp_blob q))) bs xs" by auto
  have "decodes (r_each (length (x # xs)) (get (sp_blob q))) (b1 @ bs) (x # xs)"
    using b1(4) bs(4) by (simp add: decodes_def)
  moreover have "length (x # xs) * least \<le> length (b1 @ bs)" using b1(3) bs(3) by simp
  ultimately show ?case using b1(2) bs(1,2) by (intro conjI exI [of _ "b1 @ bs"]) (simp_all del: r_each.simps)
qed

end

text \<open>A reference alone.\<close>

lemma segment_ref_grows: "segment_ref (w, p) s = (w', p') \<Longrightarrow> pool_grows p p'"
  by (auto simp: segment_ref_def Let_def split: prod.splits dest!: pool_add_pool_grows)

lemma segment_ref_refers:
  assumes "segment_ref (w, p) s = (w', p')" and "pool_ok p" and "pool_grows p' q" and "length (sp_blob q) \<le> 0xFFFFFFFF"
  obtains ref where "pool_ok p'" "w' = w\<lparr>bw_out := bw_out w @ enc_ref ref\<rparr>" "refers (sp_blob q) ref s"
proof -
  obtain ref p1 where 1: "pool_add s p = (ref, p1)" by (cases "pool_add s p")
  then have w: "p1 = p'" "w' = w\<lparr>bw_out := bw_out w @ enc_ref ref\<rparr>"
    using assms(1) by (auto simp: segment_ref_def put_encs enc_ref_def)
  have g: "pool_grows p1 q" using assms(3) w(1) by simp
  show ?thesis using that pool_add_step [OF 1 assms(2) g assms(4)] w by blast
qed

lemma segment_ref_spec:
  assumes "segment_ref (w, p) s = (w', p')" and "pool_ok p" and "pool_grows p' q" and "length (sp_blob q) \<le> 0xFFFFFFFF"
  shows "pool_ok p' \<and> (\<exists>ref. w' = w\<lparr>bw_out := bw_out w @ enc_ref ref\<rparr> \<and>
    (\<forall>pre post ok. read_pool_ref (sp_blob q) (reader_at pre (enc_ref ref @ post), ok) = (s, reader_at (pre @ enc_ref ref) post, ok)))"
proof -
  obtain ref where ref: "pool_ok p'" "w' = w\<lparr>bw_out := bw_out w @ enc_ref ref\<rparr>" "refers (sp_blob q) ref s"
    by (rule segment_ref_refers [OF assms])
  have "read_pool_ref (sp_blob q) (reader_at pre (enc_ref ref @ post), ok) = (s, reader_at (pre @ enc_ref ref) post, ok)"
    for pre post ok
    using refers_resolve [of "sp_blob q" "fst ref" "snd ref" s ok] ref(3)
    by (simp add: read_pool_ref_def enc_ref_def get_encs)
  then show ?thesis using ref(1,2) by blast
qed

section \<open>The records of a segment\<close>

text \<open>What the format can carry: the values the decoder accepts, counts that fit.\<close>

definition leg_carried :: "cached_leg \<Rightarrow> bool" where
  "leg_carried leg \<longleftrightarrow> fixed_ident_wf (leg_fix leg) \<and> fix_position_ok (leg_fix_lat leg) (leg_fix_lon leg) \<and>
     (leg_turn_dir leg = CHR 0x00 \<or> leg_turn_dir leg = turn_left \<or> leg_turn_dir leg = turn_right)"

definition procedure_carried :: "cached_procedure \<Rightarrow> bool" where
  "procedure_carried proc \<longleftrightarrow> length (proc_legs proc) < 2 ^ 32 \<and> (\<forall>leg \<in> set (proc_legs proc). leg_carried leg)"

definition cifp_carried :: "cached_cifp \<Rightarrow> bool" where
  "cifp_carried d \<longleftrightarrow> length (cifp_procedures d) < 2 ^ 32 \<and> length (cifp_runways d) < 2 ^ 32 \<and>
     (\<forall>proc \<in> set (cifp_procedures d). procedure_carried proc)"

lemma leg_flags_bits:
  "leg_flags leg AND NOT (leg_flag_mapt OR leg_flag_course_true) = 0"
  "leg_flags leg AND NOT leg_flag_mapt AND NOT leg_flag_course_true = 0"
  "leg_flags leg AND leg_flag_mapt \<noteq> 0 \<longleftrightarrow> leg_is_mapt leg"
  "leg_flags leg AND leg_flag_course_true \<noteq> 0 \<longleftrightarrow> leg_course_true leg"
  by (simp_all add: leg_flags_def leg_flag_mapt_def leg_flag_course_true_def)

lemma char_u8 [simp]: "char_of (unat (of_nat (of_char c) :: u8)) = c"
proof -
  have "unat (of_nat (of_char c) :: u8) = (of_char c :: nat)" by (simp add: unat_of_nat)
  then show ?thesis by simp
qed

lemma enc_ref_width: "length (enc_ref ref) = 8"
  using fmt_ref.enc_width [of ref] by (simp add: airway_ref_size_def)

text \<open>The part of a leg after its two references.\<close>

definition enc_leg_tail :: "cached_leg \<Rightarrow> bytes" where
  "enc_leg_tail leg = enc_u32 (leg_fix_lat leg) @ enc_u32 (leg_fix_lon leg) @ enc_u8 (path_terminator_byte (leg_path_term leg)) @
     enc_u32 (leg_course_deg leg) @ enc_u32 (leg_distance_nm leg) @ enc_u8 (alt_kind_byte (leg_alt_kind leg)) @
     enc_u32 (leg_alt1_ft leg) @ enc_u32 (leg_alt2_ft leg) @ enc_u16 (leg_rnp_centinm leg) @
     enc_u8 (of_nat (of_char (leg_turn_dir leg))) @ enc_u16 (leg_speed_limit_kt leg) @ enc_u8 (leg_flags leg)"

lemma leg_byte_fuses:
  "\<not> (23 :: u8) < path_terminator_byte t" "\<not> alt_kind_byte AltBetween < alt_kind_byte k"
  "\<not> procedure_type_byte Approach < procedure_type_byte y"
  using path_terminator_byte_le [of t] alt_kind_byte_le [of k] procedure_type_byte_le [of y]
  by (simp_all add: not_less alt_kind_byte_def procedure_type_byte_def del: path_terminator_byte_le alt_kind_byte_le procedure_type_byte_le)

interpretation leg_format: pooled_format encode_leg r_leg leg_carried procedure_leg_size
proof unfold_locales
  fix w p leg w' p' q
  assume put: "encode_leg (w, p) leg = (w', p')"
  obtain w1 p1 where 1: "segment_ref (w, p) (ident_view (leg_fix leg)) = (w1, p1)"
    by (cases "segment_ref (w, p) (ident_view (leg_fix leg))")
  obtain w2 p2 where 2: "segment_ref (w1, p1) (icao_code_view (leg_fix leg)) = (w2, p2)"
    by (cases "segment_ref (w1, p1) (icao_code_view (leg_fix leg))")
  have w': "p2 = p'" "w' = w2\<lparr>bw_out := bw_out w2 @ enc_leg_tail leg\<rparr>"
    using put 1 2 by (simp_all add: encode_leg_def int_wrappers put_encs enc_leg_tail_def)
  show grows: "pool_grows p p'"
    using segment_ref_grows [OF 1] segment_ref_grows [OF 2] w'(1) pool_grows_trans by blast
  assume ok: "pool_ok p" and q: "pool_grows p' q" and len: "length (sp_blob q) \<le> 0xFFFFFFFF" and c: "leg_carried leg"
  have g2: "pool_grows p2 q" using q w'(1) by simp
  have g1: "pool_grows p1 q" using segment_ref_grows [OF 2] g2 pool_grows_trans by blast
  from segment_ref_spec [OF 1 ok g1 len] obtain i where
    i: "pool_ok p1" "w1 = w\<lparr>bw_out := bw_out w @ enc_ref i\<rparr>" "\<And>pre post ok. read_pool_ref (sp_blob q) (reader_at pre (enc_ref i @ post), ok) =
        (ident_view (leg_fix leg), reader_at (pre @ enc_ref i) post, ok)" by blast
  from segment_ref_spec [OF 2 i(1) g2 len] obtain c where
    c: "pool_ok p2" "w2 = w1\<lparr>bw_out := bw_out w1 @ enc_ref c\<rparr>" "\<And>pre post ok. read_pool_ref (sp_blob q) (reader_at pre (enc_ref c @ post), ok) =
        (icao_code_view (leg_fix leg), reader_at (pre @ enc_ref c) post, ok)" by blast
  have fuse: "fixed_ident_from_parts (ident_view (leg_fix leg)) (icao_code_view (leg_fix leg)) = Inr (leg_fix leg)"
    "fix_position_ok (leg_fix_lat leg) (leg_fix_lon leg)" "turn_byte_ok (of_nat (of_char (leg_turn_dir leg)))"
    using \<open>leg_carried leg\<close> by (auto simp: leg_carried_def fixed_ident_from_parts_views turn_byte_ok_def)
  have "r_leg (sp_blob q) (reader_at pre ((enc_ref i @ enc_ref c @ enc_leg_tail leg) @ post), ok) =
      Inr (leg, (reader_at (pre @ enc_ref i @ enc_ref c @ enc_leg_tail leg) post, ok))" for pre post ok
    by (simp add: r_leg_def i(3) c(3) fuse enc_leg_tail_def int_wrappers get_encs leg_byte_fuses leg_flags_bits)
  moreover have "procedure_leg_size \<le> length (enc_ref i @ enc_ref c @ enc_leg_tail leg)"
    by (simp add: enc_leg_tail_def procedure_leg_size_def enc_ref_width enc_widths)
  ultimately show "pool_ok p' \<and> (\<exists>bs. w' = w\<lparr>bw_out := bw_out w @ bs\<rparr> \<and> procedure_leg_size \<le> length bs \<and>
      decodes (r_leg (sp_blob q)) bs leg)"
    using c(1,2) i(2) w' by (auto simp: decodes_def intro!: exI [of _ "enc_ref i @ enc_ref c @ enc_leg_tail leg"])
qed


lemma count_fits_of_nat:
  assumes "n < 2 ^ 32" and "n * per \<le> avail" and "0 < per"
  shows "count_fits avail (of_nat n) per"
  using fits_div [OF assms(2,3)] unat_length_u32 [of n] assms(1) by (simp add: count_fits_def)

interpretation procedure_format: pooled_format encode_procedure r_procedure procedure_carried procedure_header_size
proof unfold_locales
  fix w p proc w' p' q
  assume put: "encode_procedure (w, p) proc = (w', p')"
  let ?hd = "enc_u8 (procedure_type_byte (proc_type proc)) @ enc_u32 (proc_route_type proc)"
  let ?n = "enc_u32 (of_nat (length (proc_legs proc)))"
  define w0 where "w0 = w\<lparr>bw_out := bw_out w @ ?hd\<rparr>"
  obtain w1 p1 where 1: "segment_ref (w0, p) (proc_name proc) = (w1, p1)"
    by (cases "segment_ref (w0, p) (proc_name proc)")
  obtain w2 p2 where 2: "segment_ref (w1, p1) (proc_transition_ident proc) = (w2, p2)"
    by (cases "segment_ref (w1, p1) (proc_transition_ident proc)")
  obtain w3 p3 where 3: "segment_ref (w2, p2) (proc_runway proc) = (w3, p3)"
    by (cases "segment_ref (w2, p2) (proc_runway proc)")
  have legs: "foldl encode_leg (w3\<lparr>bw_out := bw_out w3 @ ?n\<rparr>, p3) (proc_legs proc) = (w', p')"
    using put 1 2 3 by (simp add: encode_procedure_def int_wrappers put_encs w0_def)
  note gl = leg_format.put_all_grows [OF legs]
  have g2: "pool_grows p2 p'" using segment_ref_grows [OF 3] gl pool_grows_trans by blast
  have g1: "pool_grows p1 p'" using segment_ref_grows [OF 2] g2 pool_grows_trans by blast
  show "pool_grows p p'" using segment_ref_grows [OF 1] g1 pool_grows_trans by blast
  assume ok: "pool_ok p" and q: "pool_grows p' q" and len: "length (sp_blob q) \<le> 0xFFFFFFFF" and c: "procedure_carried proc"
  from segment_ref_spec [OF 1 ok pool_grows_trans [OF g1 q] len] obtain a where
    a: "pool_ok p1" "w1 = w0\<lparr>bw_out := bw_out w0 @ enc_ref a\<rparr>" "\<And>pre post ok. read_pool_ref (sp_blob q) (reader_at pre (enc_ref a @ post), ok) =
        (proc_name proc, reader_at (pre @ enc_ref a) post, ok)" by blast
  from segment_ref_spec [OF 2 a(1) pool_grows_trans [OF g2 q] len] obtain b where
    b: "pool_ok p2" "w2 = w1\<lparr>bw_out := bw_out w1 @ enc_ref b\<rparr>" "\<And>pre post ok. read_pool_ref (sp_blob q) (reader_at pre (enc_ref b @ post), ok) =
        (proc_transition_ident proc, reader_at (pre @ enc_ref b) post, ok)" by blast
  from segment_ref_spec [OF 3 b(1) pool_grows_trans [OF gl q] len] obtain c where
    c: "pool_ok p3" "w3 = w2\<lparr>bw_out := bw_out w2 @ enc_ref c\<rparr>" "\<And>pre post ok. read_pool_ref (sp_blob q) (reader_at pre (enc_ref c @ post), ok) =
        (proc_runway proc, reader_at (pre @ enc_ref c) post, ok)" by blast
  have n: "length (proc_legs proc) < 2 ^ 32" "\<forall>leg \<in> set (proc_legs proc). leg_carried leg"
    using \<open>procedure_carried proc\<close> by (simp_all add: procedure_carried_def)
  from leg_format.put_all_get [OF legs c(1) q len n(2)] obtain ls where
    ls: "pool_ok p'" "w' = w3\<lparr>bw_out := bw_out w3 @ ?n @ ls\<rparr>" "length (proc_legs proc) * procedure_leg_size \<le> length ls"
      "decodes (r_each (length (proc_legs proc)) (r_leg (sp_blob q))) ls (proc_legs proc)" by auto
  have un: "unat (of_nat (length (proc_legs proc)) :: u32) = length (proc_legs proc)"
    using n(1) by (intro unat_length_u32) simp
  have fits: "count_fits (length ls + k) (of_nat (length (proc_legs proc))) procedure_leg_size" for k
    by (rule count_fits_of_nat) (use n(1) ls(3) in \<open>simp_all add: procedure_leg_size_def\<close>)
  let ?bs = "?hd @ enc_ref a @ enc_ref b @ enc_ref c @ ?n @ ls"
  have "r_procedure (sp_blob q) (reader_at pre (?bs @ post), ok) = Inr (proc, (reader_at (pre @ ?bs) post, ok))" for pre post ok
    using ls(4) by (simp add: r_procedure_def int_wrappers get_encs a(3) b(3) c(3) leg_byte_fuses fits un decodes_def)
  moreover have "procedure_header_size \<le> length ?bs"
    by (simp add: procedure_header_size_def enc_ref_width enc_widths)
  ultimately show "pool_ok p' \<and> (\<exists>bs. w' = w\<lparr>bw_out := bw_out w @ bs\<rparr> \<and> procedure_header_size \<le> length bs \<and>
      decodes (r_procedure (sp_blob q)) bs proc)"
    using ls(1,2) a(2) b(2) c(2) by (intro conjI exI [of _ ?bs]) (simp_all add: decodes_def w0_def)
qed

interpretation runway_format: pooled_format encode_runway r_runway "\<lambda>_. True" runway_size
proof unfold_locales
  fix w p rwy w' p' q
  assume put: "encode_runway (w, p) rwy = (w', p')"
  let ?tl = "enc_u64 (latitude (rwy_threshold rwy)) @ enc_u64 (longitude (rwy_threshold rwy)) @ enc_u32 (rwy_elevation_ft rwy)"
  obtain w1 p1 where 1: "segment_ref (w, p) (rwy_ident rwy) = (w1, p1)" by (cases "segment_ref (w, p) (rwy_ident rwy)")
  have w': "p1 = p'" "w' = w1\<lparr>bw_out := bw_out w1 @ ?tl\<rparr>"
    using put 1 by (simp_all add: encode_runway_def int_wrappers put_encs)
  show "pool_grows p p'" using segment_ref_grows [OF 1] w'(1) by simp
  assume ok: "pool_ok p" and q: "pool_grows p' q" and len: "length (sp_blob q) \<le> 0xFFFFFFFF"
  have g1: "pool_grows p1 q" using q w'(1) by simp
  from segment_ref_spec [OF 1 ok g1 len] obtain a where
    a: "pool_ok p1" "w1 = w\<lparr>bw_out := bw_out w @ enc_ref a\<rparr>" "\<And>pre post ok. read_pool_ref (sp_blob q) (reader_at pre (enc_ref a @ post), ok) =
        (rwy_ident rwy, reader_at (pre @ enc_ref a) post, ok)" by blast
  have "r_runway (sp_blob q) (reader_at pre ((enc_ref a @ ?tl) @ post), ok) = Inr (rwy, (reader_at (pre @ enc_ref a @ ?tl) post, ok))" for pre post ok
    by (simp add: r_runway_def int_wrappers get_encs a(3))
  moreover have "runway_size \<le> length (enc_ref a @ ?tl)" by (simp add: runway_size_def enc_ref_width enc_widths)
  ultimately show "pool_ok p' \<and> (\<exists>bs. w' = w\<lparr>bw_out := bw_out w @ bs\<rparr> \<and> runway_size \<le> length bs \<and>
      decodes (r_runway (sp_blob q)) bs rwy)"
    using a(1,2) w' by (intro conjI exI [of _ "enc_ref a @ ?tl"]) (simp_all add: decodes_def)
qed

section \<open>A segment\<close>

lemma serialize_segment_spec:
  assumes "serialize_segment d p = (body, p')" and "pool_ok p" and "pool_grows p' q" and "length (sp_blob q) \<le> 0xFFFFFFFF"
    and "cifp_carried d"
  shows "pool_ok p' \<and> deserialize_segment body (sp_blob q) = Inr d"
proof -
  let ?np = "of_nat (length (cifp_procedures d)) :: u32" and ?nr = "of_nat (length (cifp_runways d)) :: u32"
  let ?w0 = "byte_writer_new\<lparr>bw_out := bw_out byte_writer_new @ enc_u32 ?np\<rparr>"
  obtain w1 p1 where 1: "foldl encode_procedure (?w0, p) (cifp_procedures d) = (w1, p1)"
    by (cases "foldl encode_procedure (?w0, p) (cifp_procedures d)")
  obtain w2 p2 where 2: "foldl encode_runway (w1\<lparr>bw_out := bw_out w1 @ enc_u32 ?nr\<rparr>, p1) (cifp_runways d) = (w2, p2)"
    by (cases "foldl encode_runway (w1\<lparr>bw_out := bw_out w1 @ enc_u32 ?nr\<rparr>, p1) (cifp_runways d)")
  have out: "body = bw_out w2" "p2 = p'"
    using assms(1) 1 2 by (simp_all add: serialize_segment_def put_encs)
  have g2: "pool_grows p2 q" using assms(3) out(2) by simp
  have g1: "pool_grows p1 q" using runway_format.put_all_grows [OF 2] g2 pool_grows_trans by blast
  have n: "length (cifp_procedures d) < 2 ^ 32" "length (cifp_runways d) < 2 ^ 32" "\<forall>x \<in> set (cifp_procedures d). procedure_carried x"
    using assms(5) by (simp_all add: cifp_carried_def)
  from procedure_format.put_all_get [OF 1 assms(2) g1 assms(4) n(3)] obtain ps where
    ps: "pool_ok p1" "w1 = ?w0\<lparr>bw_out := bw_out ?w0 @ ps\<rparr>" "length (cifp_procedures d) * procedure_header_size \<le> length ps"
      "decodes (r_each (length (cifp_procedures d)) (r_procedure (sp_blob q))) ps (cifp_procedures d)" by blast
  from runway_format.put_all_get [OF 2 ps(1) g2 assms(4)] obtain rs where
    rs: "pool_ok p2" "w2 = w1\<lparr>bw_out := bw_out w1 @ enc_u32 ?nr @ rs\<rparr>" "length (cifp_runways d) * runway_size \<le> length rs"
      "decodes (r_each (length (cifp_runways d)) (r_runway (sp_blob q))) rs (cifp_runways d)" by auto
  have un: "unat ?np = length (cifp_procedures d)" "unat ?nr = length (cifp_runways d)"
    using n(1,2) by (simp_all add: unat_length_u32)
  have fits: "count_fits (length ps + k) ?np procedure_header_size" "count_fits (length rs) ?nr runway_size" for k
    by (rule count_fits_of_nat, use n(1,2) ps(3) rs(3) in \<open>simp_all add: procedure_header_size_def runway_size_def\<close>)+
  have body: "body = enc_u32 ?np @ ps @ enc_u32 ?nr @ rs" using out ps(2) rs(2) by (simp add: byte_writer_new_def)
  have ps': "r_each (length (cifp_procedures d)) (r_procedure (sp_blob q)) (reader_at pre (ps @ post), True) =
      Inr (cifp_procedures d, (reader_at (pre @ ps) post, True))" for pre post
    using ps(4) by (simp add: decodes_def)
  have rs': "r_each (length (cifp_runways d)) (r_runway (sp_blob q)) (reader_at pre rs, True) =
      Inr (cifp_runways d, (reader_at (pre @ rs) [], True))" for pre
    using rs(4) unfolding decodes_def by (metis append_Nil2)
  have "deserialize_segment body (sp_blob q) = Inr d"
    unfolding deserialize_segment_def body byte_reader_new_at
    by (simp add: get_encs fits un ps' rs')
  then show ?thesis using rs(1) out(2) by simp
qed

lemma serialize_segment_grows: "serialize_segment d p = (body, p') \<Longrightarrow> pool_grows p p'"
  by (auto simp: serialize_segment_def Let_def split: prod.splits
      dest!: procedure_format.put_all_grows runway_format.put_all_grows intro: pool_grows_trans)

end
