(* ===== verification/CifpArchiveCorrect.thy ===== *)
theory CifpArchiveCorrect
  imports CifpCodecCorrect AirwayIndex
begin

text \<open>
  The procedure section as a whole: the directory that \<open>Encode\<close> writes opens into an archive that answers
  for exactly the encoded airports; what an opened archive reads lies inside its section; the eager load
  agrees with the lazy one; a corrupted byte is reported and never served.
\<close>

section \<open>The directory that is written\<close>

definition enc_row :: "u32 \<times> u32 \<Rightarrow> u64 \<Rightarrow> bytes \<Rightarrow> bytes" where
  "enc_row ref running body = enc_ref ref @ enc_u64 running @ enc_u32 (of_nat (length body)) @ enc_u32 (crc_compute body)"

primrec enc_rows :: "((u32 \<times> u32) \<times> bytes) list \<Rightarrow> u64 \<Rightarrow> bytes" where
  "enc_rows [] running = []"
| "enc_rows (e # es) running = enc_row (fst e) running (snd e) @ enc_rows es (running + of_nat (length (snd e)))"

lemma w_directory_enc: "w_directory es running w = w\<lparr>bw_out := bw_out w @ enc_rows es running\<rparr>"
  by (induction es arbitrary: running w) (simp_all add: w_dir_row_def enc_row_def enc_ref_def put_encs)

lemma length_enc_rows [simp]: "length (enc_rows es running) = length es * dir_entry_size"
  by (induction es arbitrary: running)
    (simp_all add: enc_row_def enc_ref_width enc_widths dir_entry_size_def)

definition section_bytes :: "(u32 \<times> u32) list \<Rightarrow> bytes list \<Rightarrow> bytes" where
  "section_bytes refs bodies =
     enc_u32 (of_nat (length bodies)) @ enc_rows (zip refs bodies) (segments_start (length bodies)) @ concat bodies"

lemma adjacent_find_sorted: "sorted xs \<Longrightarrow> adjacent_find xs = None \<Longrightarrow> distinct xs"
proof (induction xs rule: adjacent_find.induct)
  case (1 x y xs)
  then have "x \<noteq> y" "x \<le> y" "\<forall>z \<in> set xs. y \<le> z" "distinct (y # xs)" by (auto split: if_splits)
  then show ?case by force
qed simp_all

lemma bad_airport_key_None: "bad_airport_key icaos = None \<Longrightarrow> icao \<in> set icaos \<Longrightarrow> length icao \<le> fixed_name8_cap"
  by (induction icaos) (auto simp: fixed_name8_cap_def split: sum.splits dest: fixed_name_from_OkD(3))

lemma serialize_segments_grows: "serialize_segments ds p = (bodies, p') \<Longrightarrow> pool_grows p p'"
  by (induction ds arbitrary: p bodies)
    (auto split: prod.splits dest!: serialize_segment_grows intro: pool_grows_trans)

lemma intern_all_grows: "intern_all ss p = (refs, p') \<Longrightarrow> pool_grows p p'"
  by (induction ss arbitrary: p refs) (auto split: prod.splits dest!: pool_add_pool_grows intro: pool_grows_trans)

lemma serialize_segments_spec:
  assumes "serialize_segments ds p = (bodies, p')" and "pool_ok p" and "pool_grows p' q" and "length (sp_blob q) \<le> 0xFFFFFFFF"
    and "\<forall>d \<in> set ds. cifp_carried d"
  shows "pool_ok p' \<and> list_all2 (\<lambda>d body. deserialize_segment body (sp_blob q) = Inr d) ds bodies"
  using assms
proof (induction ds arbitrary: p bodies)
  case (Cons d ds)
  obtain b p1 where 1: "serialize_segment d p = (b, p1)" by (cases "serialize_segment d p")
  obtain bs p2 where 2: "serialize_segments ds p1 = (bs, p2)" by (cases "serialize_segments ds p1")
  have out: "bodies = b # bs" "p2 = p'" using Cons.prems(1) 1 2 by simp_all
  have grows: "pool_grows p1 p'" using serialize_segments_grows [OF 2] out(2) by simp
  have "pool_ok p1 \<and> deserialize_segment b (sp_blob q) = Inr d"
    using serialize_segment_spec [OF 1 Cons.prems(2) pool_grows_trans [OF grows Cons.prems(3)] Cons.prems(4)] Cons.prems(5) by simp
  then show ?case
    using Cons.IH [OF 2 [unfolded out(2)] _ Cons.prems(3,4)] Cons.prems(5) out(1) by auto
qed simp

lemma intern_all_spec:
  assumes "intern_all ss p = (refs, p')" and "pool_ok p" and "pool_grows p' q" and "length (sp_blob q) \<le> 0xFFFFFFFF"
  shows "pool_ok p' \<and> list_all2 (\<lambda>s ref. refers (sp_blob q) ref s) ss refs"
  using assms
proof (induction ss arbitrary: p refs)
  case (Cons s ss)
  obtain r p1 where 1: "pool_add s p = (r, p1)" by (cases "pool_add s p")
  obtain rs p2 where 2: "intern_all ss p1 = (rs, p2)" by (cases "intern_all ss p1")
  have out: "refs = r # rs" "p2 = p'" using Cons.prems(1) 1 2 by simp_all
  have grows: "pool_grows p1 p'" using intern_all_grows [OF 2] out(2) by simp
  note s = pool_add_step [OF 1 Cons.prems(2) pool_grows_trans [OF grows Cons.prems(3)] Cons.prems(4)]
  show ?case
    using Cons.IH [OF 2 [unfolded out(2)] s(1) Cons.prems(3,4)] s out(1) by auto
qed simp

lemma cifp_encode_spec:
  assumes "cifp_encode procedures w p = Inr (n, w', p')" and "pool_ok p" and "pool_grows p' q"
    and "length (sp_blob q) \<le> 0xFFFFFFFF" and "\<forall>d \<in> set (map snd procedures). cifp_carried d"
  obtains refs bodies where "w' = w\<lparr>bw_out := bw_out w @ section_bytes refs bodies\<rparr>" "n = of_nat (length bodies)"
    "distinct (map fst procedures)" "\<forall>icao \<in> set (map fst procedures). length icao \<le> fixed_name8_cap"
    "list_all2 (\<lambda>d body. deserialize_segment body (sp_blob q) = Inr d) (map snd procedures) bodies"
    "list_all2 (\<lambda>icao ref. refers (sp_blob q) ref icao) (map fst procedures) refs"
proof -
  obtain bodies p1 where 1: "serialize_segments (map snd procedures) p = (bodies, p1)"
    by (cases "serialize_segments (map snd procedures) p")
  obtain refs p2 where 2: "intern_all (map fst procedures) p1 = (refs, p2)" by (cases "intern_all (map fst procedures) p1")
  have keys: "bad_airport_key (map fst procedures) = None" "adjacent_find (sort (map fst procedures)) = None"
    using assms(1) by (simp_all add: cifp_encode_def split: option.splits)
  have out: "p2 = p'" "n = of_nat (length bodies)" "w' = w\<lparr>bw_out := bw_out w @ section_bytes refs bodies\<rparr>"
    using assms(1) 1 2 keys
    by (auto simp: cifp_encode_def w_bytes_def section_bytes_def w_directory_enc put_encs byte_writer_new_def)
  have "distinct (sort (map fst procedures))" using adjacent_find_sorted [OF sorted_sort keys(2)] .
  then have d: "distinct (map fst procedures)" by simp
  have g: "pool_grows p1 p'" using intern_all_grows [OF 2] out(1) by simp
  note s = serialize_segments_spec [OF 1 assms(2) pool_grows_trans [OF g assms(3)] assms(4,5)]
  note i = intern_all_spec [OF 2 [unfolded out(1)] _ assms(3,4)]
  show ?thesis
    by (rule that [of refs bodies]) (use out(2,3) d bad_airport_key_None [OF keys(1)] s i in auto)
qed


section \<open>The directory that is read\<close>

text \<open>The locations the rows give, in the order of the airports.\<close>

primrec locs_from :: "u64 \<Rightarrow> nat \<Rightarrow> bytes list \<Rightarrow> segment_loc list" where
  "locs_from so i [] = []"
| "locs_from so i (b # bs) =
     \<lparr>sl_abs_off = so + of_nat i, sl_len = of_nat (length b), sl_crc = crc_compute b\<rparr> # locs_from so (i + length b) bs"

abbreviation view_entry :: "fixed_name \<times> segment_loc \<Rightarrow> string \<times> segment_loc" where
  "view_entry \<equiv> \<lambda>e. (name_view (fst e), snd e)"

abbreviation index_wf :: "(fixed_name \<times> segment_loc) list \<Rightarrow> bool" where
  "index_wf index \<equiv> \<forall>e \<in> set index. fixed_name_wf fixed_name8_cap (fst e)"

lemma unat_length_u64: "n \<le> 0xFFFFFFFF \<Longrightarrow> unat (of_nat n :: u64) = n"
  by (simp add: unat_of_nat)

lemma unat_segments_start: "n < 2 ^ 32 \<Longrightarrow> unat (segments_start n) = 4 + n * dir_entry_size"
proof -
  assume "n < 2 ^ 32"
  then have "4 + n * 24 < 2 ^ LENGTH(64)" by simp
  moreover have "segments_start n = of_nat (4 + n * 24)" by (simp add: segments_start_def dir_entry_size_def)
  ultimately show ?thesis by (simp only: unat_of_nat mod_less dir_entry_size_def)
qed

lemma r_dir_row_ok:
  assumes ref: "refers pool ref icao" and icao: "length icao \<le> fixed_name8_cap" and n: "unat airports = n"
    and i: "i + length body \<le> unat sl" "unat sl \<le> 0xFFFFFFFF" "4 + n * dir_entry_size \<le> i"
  obtains key where "\<And>post. r_dir_row pool so sl airports (reader_at pre (enc_row ref (of_nat i) body @ post)) =
      Inr ((key, \<lparr>sl_abs_off = so + of_nat i, sl_len = of_nat (length body), sl_crc = crc_compute body\<rparr>),
           reader_at (pre @ enc_row ref (of_nat i) body) post)"
    "fixed_name_wf fixed_name8_cap key" "name_view key = icao"
proof -
  obtain key where key: "fixed_name_from fixed_name8_cap icao = Inr key" "fixed_name_wf fixed_name8_cap key" "name_view key = icao"
    using fixed_name_from_Ok [OF _ icao] by (auto simp: fixed_name8_cap_def)
  have ref': "\<not> (length pool < unat (fst ref) \<or> length pool - unat (fst ref) < unat (snd ref))"
    "string_of_bytes (take (unat (snd ref)) (drop (unat (fst ref)) pool)) = icao"
    using ref by (auto simp: refers_def)
  have ui: "unat (of_nat i :: u64) = i" and ul: "unat (of_nat (length body) :: u32) = length body"
    using i by (simp_all add: unat_length_u64 unat_length_u32)
  have uc: "unat (ucast (of_nat (length body) :: u32) :: u64) = length body"
    using ul i by (simp add: unsigned_ucast_eq take_bit_nat_eq_self)
  have le: "of_nat i \<le> sl" using i ui by (simp add: word_le_nat_alt)
  have seg: "\<not> (sl < of_nat i \<or> sl - of_nat i < ucast (of_nat (length body) :: u32))"
    unfolding de_Morgan_disj not_less word_le_nat_alt unat_sub [OF le] ui uc using i by simp
  have "n < 2 ^ 32" using n unsigned_less [of airports] by auto
  then have start: "\<not> (of_nat i < segments_start (unat airports))"
    unfolding not_less word_le_nat_alt ui n using unat_segments_start i(3) by simp
  have "r_dir_row pool so sl airports (reader_at pre (enc_row ref (of_nat i) body @ post)) =
      Inr ((key, \<lparr>sl_abs_off = so + of_nat i, sl_len = of_nat (length body), sl_crc = crc_compute body\<rparr>),
           reader_at (pre @ enc_row ref (of_nat i) body) post)" for post
    unfolding r_dir_row_def enc_row_def enc_ref_def append_assoc get_encs Let_def prod.case reader_at_sel
      if_not_P [OF ref'(1)] if_not_P [OF seg] ref'(2) key(1) sum.case
    using start by simp
  then show ?thesis using that key(2,3) by blast
qed

lemma r_dir_rows_ok:
  assumes "list_all2 (\<lambda>icao ref. refers pool ref icao) icaos refs" and "length bodies = length icaos"
    and "\<forall>icao \<in> set icaos. length icao \<le> fixed_name8_cap" and n: "unat airports = n"
    and "i + length (concat bodies) \<le> unat sl" and sl: "unat sl \<le> 0xFFFFFFFF" and "4 + n * dir_entry_size \<le> i"
  shows "\<exists>rows. r_dir_rows (length bodies) (r_dir_row pool so sl airports)
      (reader_at pre (enc_rows (zip refs bodies) (of_nat i))) = Inr rows \<and> index_wf rows \<and>
    map view_entry rows = zip icaos (locs_from so i bodies)"
  using assms(1,2,3,5,7)
proof (induction arbitrary: bodies i pre rule: list_all2_induct)
  case (Cons icao icaos ref refs)
  then obtain b bs where b: "bodies = b # bs" by (cases bodies) auto
  have i: "i + length b \<le> unat sl" using Cons.prems(3) b by simp
  have icao: "length icao \<le> fixed_name8_cap" using Cons.prems(2) by simp
  obtain key where key: "\<And>post. r_dir_row pool so sl airports (reader_at pre (enc_row ref (of_nat i) b @ post)) =
      Inr ((key, \<lparr>sl_abs_off = so + of_nat i, sl_len = of_nat (length b), sl_crc = crc_compute b\<rparr>),
           reader_at (pre @ enc_row ref (of_nat i) b) post)"
    "fixed_name_wf fixed_name8_cap key" "name_view key = icao"
    using r_dir_row_ok [OF Cons.hyps(1) icao n i sl Cons.prems(4), of so pre] by blast
  have "length bs = length icaos" "\<forall>icao \<in> set icaos. length icao \<le> fixed_name8_cap"
    "(i + length b) + length (concat bs) \<le> unat sl" "4 + n * dir_entry_size \<le> i + length b"
    using Cons.prems b by simp_all
  from Cons.IH [OF this, of "pre @ enc_row ref (of_nat i) b"] obtain rows where
    rows: "r_dir_rows (length bs) (r_dir_row pool so sl airports)
        (reader_at (pre @ enc_row ref (of_nat i) b) (enc_rows (zip refs bs) (of_nat (i + length b)))) = Inr rows"
      "index_wf rows" "map view_entry rows = zip icaos (locs_from so (i + length b) bs)" by blast
  have nxt: "of_nat (i + length b) = of_nat i + (of_nat (length b) :: u64)" by simp
  show ?case
    using rows(2,3) key(2,3)
    by (simp add: b key(1) rows(1) [unfolded nxt])
qed simp


text \<open>The index of any archive that opens is sorted, so the lookup is that of an association list.\<close>

lemma r_dir_row_wf: "r_dir_row pool so sl n r = Inr (e, r') \<Longrightarrow> fixed_name_wf fixed_name8_cap (fst e)"
  by (auto simp: r_dir_row_def bad_def Let_def fixed_name8_cap_def split: prod.splits if_splits sum.splits
      dest: fixed_name_from_OkD(1))

lemma r_dir_rows_wf: "r_dir_rows k (r_dir_row pool so sl n) r = Inr es \<Longrightarrow> index_wf es"
proof (induction k arbitrary: r es)
  case (Suc k)
  then obtain e r' es' where 1: "r_dir_row pool so sl n r = Inr (e, r')"
    and 2: "r_dir_rows k (r_dir_row pool so sl n) r' = Inr es'" and es: "es = e # es'"
    by (auto split: sum.splits)
  show ?case using r_dir_row_wf [OF 1] Suc.IH [OF 2] by (simp add: es)
qed simp

lemma open_sectionE:
  assumes "open_section file so sl crc pool = Inr a"
  obtains count_buf n dir rows where "pf_is_open file" "\<not> sl < 4" "pf_read file so 4 = Some count_buf"
    "n = fst (r_u32 (byte_reader_new count_buf))" "\<not> (sl - 4) div of_nat dir_entry_size < ucast n"
    "read_region file (so + 4) (unat n * dir_entry_size) = Some dir"
    "crc_update (crc_update 0 count_buf) dir = crc"
    "r_dir_rows (unat n) (r_dir_row pool so sl n) (byte_reader_new dir) = Inr rows"
    "a = \<lparr>ca_file = file, ca_index = sort_by (\<lambda>a b. fixed_name_less (fst a) (fst b)) rows, ca_pool = pool\<rparr>"
proof -
  show ?thesis
    using assms that
    by (auto simp: open_section_def bad_def Let_def split: prod.splits if_splits option.splits sum.splits)
qed

lemma segment_index_sorted:
  assumes "index_wf rows"
  shows "sorted (map (\<lambda>e. name_view (fst e)) (sort_by (\<lambda>a b. fixed_name_less (fst a) (fst b)) rows))"
  by (rule sorted_sort_by) (use assms fixed_name_less_lex in blast)

lemma find_segment_map_of:
  assumes "ca_index a = sort_by (\<lambda>a b. fixed_name_less (fst a) (fst b)) rows" and "index_wf rows"
  shows "find_segment a icao = map_of (map view_entry (ca_index a)) icao"
proof -
  let ?index = "sort_by (\<lambda>a b. fixed_name_less (fst a) (fst b)) rows"
  have w: "index_wf ?index" using assms(2) mset_eq_setD [OF mset_sort_by] by metis
  have "map_of (map view_entry ?index) icao = None" if "\<not> length icao \<le> fixed_name8_cap"
  proof -
    have "length (name_view (fst e)) \<le> fixed_name8_cap" if "e \<in> set ?index" for e
      using bspec [OF w that] fixed_name_wf_lengths(2) by (auto simp: fixed_name_wf_def)
    then show ?thesis using that by (auto simp: map_of_eq_None_iff simp del: set_sort_by)
  qed
  then show ?thesis
    unfolding find_segment_def assms(1) sorted_name_lookup [OF segment_index_sorted [OF assms(2)] w] by simp
qed

lemma find_segment_opened:
  assumes "open_section file so sl crc pool = Inr a"
  shows "find_segment a icao = map_of (map view_entry (ca_index a)) icao"
proof (rule open_sectionE [OF assms])
  fix n dir rows
  assume rows: "r_dir_rows (unat n) (r_dir_row pool so sl n) (byte_reader_new dir) = Inr rows"
    and a: "a = \<lparr>ca_file = file, ca_index = sort_by (\<lambda>a b. fixed_name_less (fst a) (fst b)) rows, ca_pool = pool\<rparr>"
  show ?thesis by (rule find_segment_map_of [OF _ r_dir_rows_wf [OF rows]]) (simp add: a)
qed

section \<open>Opening what was written\<close>

text \<open>A handle on a file that holds the section \<open>s\<close> from the offset \<open>so\<close> on.\<close>

definition serves :: "pread_file \<Rightarrow> u64 \<Rightarrow> bytes \<Rightarrow> bool" where
  "serves file so s \<longleftrightarrow> pf_is_open file \<and>
     (\<forall>i n. i + n \<le> length s \<longrightarrow> pf_read file (so + of_nat i) n = Some (take n (drop i s)))"

lemma serves_read:
  assumes "serves file so s" and "i + n \<le> length s"
  shows "pf_read file (so + of_nat i) n = Some (take n (drop i s))"
  using assms by (simp add: serves_def)

lemma serves_region:
  assumes "serves file so s" and "i + n \<le> length s"
  shows "read_region file (so + of_nat i) n = Some (take n (drop i s))"
  using assms by (simp add: serves_def read_region_def)

lemma open_encoded:
  assumes refs: "list_all2 (\<lambda>icao ref. refers pool ref icao) icaos refs" and bodies: "length bodies = length icaos"
    and icaos: "\<forall>icao \<in> set icaos. length icao \<le> fixed_name8_cap" and d: "distinct icaos"
    and s: "serves file so (section_bytes refs bodies)" and len: "length (section_bytes refs bodies) \<le> 0xFFFFFFFF"
    and crc: "crc = crc_compute (take (directory_prefix_len (of_nat (length bodies))) (section_bytes refs bodies))"
  obtains a where "open_section file so (of_nat (length (section_bytes refs bodies))) crc pool = Inr a"
    "ca_file a = file" "ca_pool a = pool"
    "find_segment a = map_of (zip icaos (locs_from so (4 + length bodies * dir_entry_size) bodies))"
    "distinct (map (\<lambda>e. name_view (fst e)) (ca_index a))"
proof -
  let ?n = "length bodies" and ?sl = "of_nat (length (section_bytes refs bodies)) :: u64"
  let ?dir = "enc_rows (zip refs bodies) (segments_start ?n)"
  have nr: "length refs = ?n" using refs bodies by (simp add: list_all2_lengthD)
  have total: "length (section_bytes refs bodies) = 4 + ?n * dir_entry_size + length (concat bodies)"
    by (simp add: section_bytes_def enc_widths nr)
  then have small: "?n * dir_entry_size \<le> 0xFFFFFFFF" using len by linarith
  then have n32: "?n < 2 ^ 32" by (simp add: dir_entry_size_def)
  have un: "unat (of_nat ?n :: u32) = ?n" using n32 by (intro unat_length_u32) simp
  have usl: "unat ?sl = length (section_bytes refs bodies)" by (rule unat_length_u64 [OF len])
  have count_buf: "pf_read file so 4 = Some (enc_u32 (of_nat ?n))"
    using serves_read [OF s, of 0 4] total by (simp add: section_bytes_def enc_widths)
  have dir: "read_region file (so + 4) (?n * dir_entry_size) = Some ?dir"
    using serves_region [OF s, of 4 "?n * dir_entry_size"] total
    by (simp add: section_bytes_def enc_widths nr)
  have prefix: "crc_update (crc_update 0 (enc_u32 (of_nat ?n))) ?dir = crc"
    by (simp add: crc crc_update_append crc_compute_def directory_prefix_len_def un section_bytes_def enc_widths nr)
  have four: "\<not> ?sl < 4"
    unfolding word_less_nat_alt usl using total by simp
  have fits: "\<not> (?sl - 4) div of_nat dir_entry_size < ucast (of_nat ?n :: u32)"
  proof -
    have "unat (?sl - 4) = length (section_bytes refs bodies) - 4"
      using four usl by (simp add: unat_sub not_less)
    moreover have "unat (of_nat dir_entry_size :: u64) = dir_entry_size" by (simp add: dir_entry_size_def)
    moreover have "unat (ucast (of_nat ?n :: u32) :: u64) = ?n"
      using un n32 by (simp add: unsigned_ucast_eq take_bit_nat_eq_self)
    moreover have "?n \<le> (length (section_bytes refs bodies) - 4) div dir_entry_size"
      using total by (intro fits_div) (simp_all add: dir_entry_size_def)
    ultimately show ?thesis unfolding not_less word_le_nat_alt unat_div by simp
  qed
  have start: "segments_start ?n = of_nat (4 + ?n * dir_entry_size)" by (simp add: segments_start_def)
  obtain rows where rows: "r_dir_rows ?n (r_dir_row pool so ?sl (of_nat ?n)) (byte_reader_new ?dir) = Inr rows"
    "index_wf rows" "map view_entry rows = zip icaos (locs_from so (4 + ?n * dir_entry_size) bodies)"
    using r_dir_rows_ok [OF refs bodies icaos un, of "4 + ?n * dir_entry_size" ?sl so "[]"] total usl len
    by (auto simp: byte_reader_new_at start simp del: of_nat_add of_nat_mult)
  let ?a = "\<lparr>ca_file = file, ca_index = sort_by (\<lambda>a b. fixed_name_less (fst a) (fst b)) rows, ca_pool = pool\<rparr>"
  have opened: "open_section file so ?sl crc pool = Inr ?a"
    using s four fits prefix dir rows(1) count_buf fmt_u32.get_enc [of "[]" "of_nat ?n" "[]"]
    by (simp add: open_section_def serves_def byte_reader_new_at un)
  let ?zip = "zip icaos (locs_from so (4 + ?n * dir_entry_size) bodies)"
  have "length (locs_from so i bs) = length bs" for i bs by (induction bs arbitrary: i) simp_all
  then have dz: "distinct (map fst ?zip)" using d bodies by simp
  have "mset (map view_entry (ca_index ?a)) = mset (map view_entry rows)"
    by (simp only: mset_map mset_sort_by cifp_archive.select_convs)
  then have mz: "mset (map view_entry (ca_index ?a)) = mset ?zip" unfolding rows(3) .
  have "mset (map fst (map view_entry (ca_index ?a))) = mset (map fst ?zip)" using mz by (simp only: mset_map)
  then have "distinct (map fst (map view_entry (ca_index ?a)))" using dz mset_eq_imp_distinct_iff by blast
  then have di: "distinct (map (\<lambda>e. name_view (fst e)) (ca_index ?a))" by (simp add: o_def)
  have "map_of (map view_entry (ca_index ?a)) = map_of ?zip" using mz dz by (rule map_of_mset)
  then have "find_segment ?a = map_of (zip icaos (locs_from so (4 + ?n * dir_entry_size) bodies))"
    using find_segment_map_of [of ?a rows] rows(2) by auto
  then show ?thesis using that [OF opened] di by simp
qed


section \<open>Fetching what was written\<close>

lemma serves_file:
  assumes "length (pre @ s @ post) < 2 ^ 64"
  shows "serves (file_of_bytes (pre @ s @ post)) (of_nat (length pre)) s"
  unfolding serves_def
proof (intro conjI allI impI)
  fix i n assume n: "i + n \<le> length s"
  have "unat (of_nat (length pre) + of_nat i :: u64) = length pre + i"
    using assms n by (subst of_nat_add [symmetric]) (simp add: unat_of_nat del: of_nat_add)
  then show "pf_read (file_of_bytes (pre @ s @ post)) (of_nat (length pre) + of_nat i) n = Some (take n (drop i s))"
    using n by (simp add: file_of_bytes_def)
qed (simp add: file_of_bytes_def)

lemma fetch_located:
  assumes "list_all2 (\<lambda>d body. deserialize_segment body (ca_pool a) = Inr d) ds bodies" and "length icaos = length ds"
    and s: "serves (ca_file a) so s" "length s \<le> 0xFFFFFFFF"
    and "drop i s = concat bodies" and "i + length (concat bodies) = length s"
  shows "(case map_of (zip icaos (locs_from so i bodies)) icao of
      None \<Rightarrow> Inr None
    | Some loc \<Rightarrow> (case load_segment a icao loc of Inl e \<Rightarrow> Inl e | Inr d \<Rightarrow> Inr (Some d))) = Inr (map_of (zip icaos ds) icao)"
  using assms(1,2,5,6)
proof (induction arbitrary: icaos i rule: list_all2_induct)
  case (Cons d ds b bs)
  then obtain k ks where k: "icaos = k # ks" by (cases icaos) auto
  have b: "i + length b \<le> length s" "take (length b) (drop i s) = b" "drop (i + length b) s = concat bs"
    using Cons.prems by (simp_all add: add.commute [of i] drop_drop [symmetric])
  have ub: "unat (of_nat (length b) :: u32) = length b" using b(1) s(2) by (intro unat_length_u32) simp
  have "load_segment a k \<lparr>sl_abs_off = so + of_nat i, sl_len = of_nat (length b), sl_crc = crc_compute b\<rparr> = Inr d"
    using serves_region [OF s(1) b(1)] Cons.hyps(1) by (simp add: load_segment_def ub b(2))
  then show ?case
    using Cons.IH [of ks "i + length b"] Cons.prems b k by (auto simp: add.assoc)
qed simp

lemma cifp_opened_fetch:
  assumes enc: "cifp_encode procedures byte_writer_new p = Inr (n, w, p')" and ok: "pool_ok p"
    and c: "\<forall>d \<in> set (map snd procedures). cifp_carried d" and len: "length (bw_out w) \<le> 0xFFFFFFFF"
    and pool: "length (sp_blob p' @ later) \<le> 0xFFFFFFFF" and s: "serves file so (bw_out w)"
  obtains a where "open_section file so (of_nat (length (bw_out w))) (crc_compute (take (directory_prefix_len n) (bw_out w)))
      (sp_blob p' @ later) = Inr a" "\<And>icao. cifp_fetch a icao = Inr (map_of procedures icao)"
    "distinct (map (\<lambda>e. name_view (fst e)) (ca_index a))"
proof -
  let ?q = "p'\<lparr>sp_blob := sp_blob p' @ later\<rparr>"
  have q: "pool_grows p' ?q" by (simp add: pool_grows_def)
  have ql: "length (sp_blob ?q) \<le> 0xFFFFFFFF" using pool by simp
  obtain refs bodies where e: "bw_out w = section_bytes refs bodies" "n = of_nat (length bodies)" "distinct (map fst procedures)"
      "\<forall>icao \<in> set (map fst procedures). length icao \<le> fixed_name8_cap"
      "list_all2 (\<lambda>d body. deserialize_segment body (sp_blob p' @ later) = Inr d) (map snd procedures) bodies"
      "list_all2 (\<lambda>icao ref. refers (sp_blob p' @ later) ref icao) (map fst procedures) refs"
    by (rule cifp_encode_spec [OF enc ok q ql c]) (rule that, simp_all add: byte_writer_new_def)
  have lb: "length bodies = length (map fst procedures)" "length refs = length bodies"
    using list_all2_lengthD [OF e(5)] list_all2_lengthD [OF e(6)] by simp_all
  from open_encoded [OF e(6) lb(1) e(4) e(3) s [unfolded e(1)] len [unfolded e(1)] refl] obtain a where
    a: "open_section file so (of_nat (length (bw_out w))) (crc_compute (take (directory_prefix_len n) (bw_out w)))
        (sp_blob p' @ later) = Inr a" "ca_file a = file" "ca_pool a = sp_blob p' @ later"
      "find_segment a = map_of (zip (map fst procedures) (locs_from so (4 + length bodies * dir_entry_size) bodies))"
      "distinct (map (\<lambda>e. name_view (fst e)) (ca_index a))"
    unfolding e(1,2) by blast
  have at: "drop (4 + length bodies * dir_entry_size) (bw_out w) = concat bodies"
    "4 + length bodies * dir_entry_size + length (concat bodies) = length (bw_out w)"
    using lb(2) by (simp_all add: e(1) section_bytes_def enc_widths)
  have "cifp_fetch a icao = Inr (map_of procedures icao)" for icao
    using fetch_located [of a "map snd procedures" bodies "map fst procedures" so "bw_out w"
        "4 + length bodies * dir_entry_size" icao] e(5) a(2,3) s len at
    by (simp add: cifp_fetch_def a(4) zip_map_fst_snd)
  then show ?thesis using that a(1,5) by blast
qed

section \<open>Eager and lazy loading\<close>

lemma fetch_entries_lookup:
  assumes "fetch_entries a es out = Inr m"
  shows "case out icao of
      Some d \<Rightarrow> m icao = Some d
    | None \<Rightarrow> (case map_of (map view_entry es) icao of
        None \<Rightarrow> m icao = None
      | Some loc \<Rightarrow> (\<exists>d. load_segment a icao loc = Inr d \<and> m icao = Some d))"
  using assms
proof (induction es arbitrary: out)
  case (Cons e es)
  then obtain d where d: "load_segment a (name_view (fst e)) (snd e) = Inr d"
    "fetch_entries a es (if out (name_view (fst e)) = None then out(name_view (fst e) \<mapsto> d) else out) = Inr m"
    by (auto split: sum.splits)
  from Cons.IH [OF d(2)] d(1) show ?case by (auto split: option.splits if_splits)
qed (auto split: option.splits)

lemma fetch_entries_error:
  assumes "fetch_entries a es out = Inl err"
  shows "\<exists>e \<in> set es. load_segment a (name_view (fst e)) (snd e) = Inl err"
  using assms by (induction es arbitrary: out) (auto split: sum.splits)

lemma load_segment_error: "load_segment a icao loc = Inl e \<Longrightarrow> err_code e = KCacheCorrupt"
  by (auto simp: load_segment_def bad_def split: option.splits if_splits sum.splits)

lemma cifp_eager_lazy:
  assumes "open_section file so sl crc pool = Inr a"
  shows "case cifp_fetch_all a of
      Inr m \<Rightarrow> (\<forall>icao. cifp_fetch a icao = Inr (m icao))
    | Inl e \<Rightarrow> err_code e = KCacheCorrupt \<and>
        (distinct (map (\<lambda>e. name_view (fst e)) (ca_index a)) \<longrightarrow> (\<exists>icao. cifp_fetch a icao = Inl e))"
proof (cases "cifp_fetch_all a")
  case (Inl err)
  then obtain e where e: "e \<in> set (ca_index a)" "load_segment a (name_view (fst e)) (snd e) = Inl err"
    using fetch_entries_error [OF Inl [unfolded cifp_fetch_all_def]] by blast
  have "cifp_fetch a (name_view (fst e)) = Inl err" if d: "distinct (map (\<lambda>e. name_view (fst e)) (ca_index a))"
  proof -
    have "map_of (map view_entry (ca_index a)) (name_view (fst e)) = Some (snd e)"
      by (rule map_of_is_SomeI) (use d e(1) in \<open>auto simp: o_def\<close>)
    then show ?thesis using e(2) by (simp add: cifp_fetch_def find_segment_opened [OF assms])
  qed
  then show ?thesis using Inl load_segment_error [OF e(2)] by auto
next
  case (Inr m)
  have "cifp_fetch a icao = Inr (m icao)" for icao
    using fetch_entries_lookup [OF Inr [unfolded cifp_fetch_all_def], of icao]
    by (auto simp: cifp_fetch_def find_segment_opened [OF assms] split: option.splits)
  then show ?thesis using Inr by simp
qed


section \<open>Reads stay inside the section\<close>

lemma r_dir_row_bounds:
  assumes "r_dir_row pool so sl n r = Inr (e, r')"
  obtains rel where "sl_abs_off (snd e) = so + rel" "rel \<le> sl" "ucast (sl_len (snd e)) \<le> sl - rel"
    "0 < sl_len (snd e) \<longrightarrow> segments_start (unat n) \<le> rel"
  using assms that by (auto simp: r_dir_row_def bad_def Let_def not_less split: prod.splits if_splits sum.splits)

definition loc_inside :: "u64 \<Rightarrow> u64 \<Rightarrow> u32 \<Rightarrow> segment_loc \<Rightarrow> bool" where
  "loc_inside so sl n loc \<longleftrightarrow>
     (0 < sl_len loc \<longrightarrow> unat so + directory_prefix_len n \<le> unat (sl_abs_off loc)) \<and>
     unat (sl_abs_off loc) + unat (sl_len loc) \<le> unat so + unat sl"

lemma unat_segments_start_u32: "unat (segments_start (unat (n :: u32))) = directory_prefix_len n"
  using unat_segments_start [of "unat n"] unsigned_less [of n] by (simp add: directory_prefix_len_def)

lemma row_inside:
  assumes "r_dir_row pool so sl n r = Inr (e, r')" and "unat so + unat sl < 2 ^ 64"
  shows "loc_inside so sl n (snd e)"
proof -
  obtain rel where rel: "sl_abs_off (snd e) = so + rel" "rel \<le> sl" "ucast (sl_len (snd e)) \<le> sl - rel"
    "0 < sl_len (snd e) \<longrightarrow> segments_start (unat n) \<le> rel" using r_dir_row_bounds [OF assms(1)] by blast
  have le: "unat rel \<le> unat sl" using rel(2) by (simp add: word_le_nat_alt)
  have off: "unat (sl_abs_off (snd e)) = unat so + unat rel"
    using assms(2) le by (simp add: rel(1) unat_word_ariths)
  have small: "unat (sl_len (snd e)) < 2 ^ 32" using unsigned_less [of "sl_len (snd e)"] by simp
  have "unat (ucast (sl_len (snd e)) :: u64) = unat (sl_len (snd e))"
    using small by (simp add: unsigned_ucast_eq take_bit_nat_eq_self)
  then have "unat (sl_len (snd e)) \<le> unat sl - unat rel"
    using rel(3) unfolding word_le_nat_alt unat_sub [OF rel(2)] by simp
  moreover have "directory_prefix_len n \<le> unat rel" if "0 < sl_len (snd e)"
    using rel(4) that by (simp add: word_le_nat_alt unat_segments_start_u32)
  ultimately show ?thesis using off le by (auto simp: loc_inside_def)
qed

lemma rows_inside:
  assumes "r_dir_rows k (r_dir_row pool so sl n) r = Inr es" and "unat so + unat sl < 2 ^ 64"
  shows "length es = k \<and> (\<forall>e \<in> set es. loc_inside so sl n (snd e))"
  using assms(1)
proof (induction k arbitrary: r es)
  case (Suc k)
  then obtain e r' es' where 1: "r_dir_row pool so sl n r = Inr (e, r')"
    and 2: "r_dir_rows k (r_dir_row pool so sl n) r' = Inr es'" and es: "es = e # es'"
    by (auto split: sum.splits)
  show ?case using row_inside [OF 1 assms(2)] Suc.IH [OF 2] by (simp add: es)
qed simp

lemma opened_inside:
  assumes "open_section file so sl crc pool = Inr a" and "unat so + unat sl < 2 ^ 64" and "find_segment a icao = Some loc"
  shows "loc_inside so sl (of_nat (length (ca_index a))) loc"
proof (rule open_sectionE [OF assms(1)])
  fix n dir rows
  assume rows: "r_dir_rows (unat n) (r_dir_row pool so sl n) (byte_reader_new dir) = Inr rows"
    and a: "a = \<lparr>ca_file = file, ca_index = sort_by (\<lambda>a b. fixed_name_less (fst a) (fst b)) rows, ca_pool = pool\<rparr>"
  note inside = rows_inside [OF rows assms(2)]
  have "(icao, loc) \<in> set (map view_entry (ca_index a))"
    using assms(3) map_of_SomeD unfolding find_segment_opened [OF assms(1)] by metis
  then obtain e where "e \<in> set rows" "loc = snd e" by (auto simp: a)
  then show ?thesis using inside by (simp add: a)
qed

section \<open>What the decoder accepts\<close>

lemma r_each_all:
  assumes "r_each n get s = Inr (xs, s')" and "\<And>s x s'. get s = Inr (x, s') \<Longrightarrow> P x"
  shows "length xs = n \<and> (\<forall>x \<in> set xs. P x)"
  using assms(1)
proof (induction n arbitrary: s xs)
  case (Suc n)
  then obtain x s1 xs' where "get s = Inr (x, s1)" "r_each n get s1 = Inr (xs', s')" "xs = x # xs'"
    by (auto split: sum.splits)
  then show ?case using Suc.IH assms(2) by auto
qed simp

lemma r_each_error:
  assumes "r_each n get s = Inl e" and "\<And>s e. get s = Inl e \<Longrightarrow> Q e"
  shows "Q e"
  using assms(1)
proof (induction n arbitrary: s)
  case (Suc n)
  then show ?case using assms(2) by (auto split: sum.splits)
qed simp

lemma r_leg_carried: "r_leg pool s = Inr (leg, s') \<Longrightarrow> leg_carried leg"
  by (auto simp: r_leg_def segment_error_def leg_carried_def turn_byte_ok_def Let_def
      split: prod.splits if_splits sum.splits dest: fixed_ident_from_parts_OkD(1))

lemma r_procedure_carried:
  assumes "r_procedure pool s = Inr (proc, s')"
  shows "procedure_carried proc"
proof -
  obtain n legs s1 s2 where "r_each (unat (n :: u32)) (r_leg pool) s1 = Inr (legs, s2)" "proc_legs proc = legs"
    using assms by (auto simp: r_procedure_def segment_error_def Let_def split: prod.splits if_splits sum.splits)
  then show ?thesis
    using r_each_all [of _ "r_leg pool" _ legs _ leg_carried] r_leg_carried unsigned_less [of n]
    by (auto simp: procedure_carried_def)
qed

lemma deserialize_carried:
  assumes "deserialize_segment data pool = Inr d"
  shows "cifp_carried d"
proof -
  obtain np procs s1 s2 nr rwys s3 s4 where
    p: "r_each (unat (np :: u32)) (r_procedure pool) s1 = Inr (procs, s2)"
    and r: "r_each (unat (nr :: u32)) (r_runway pool) s3 = Inr (rwys, s4)"
    and d: "d = \<lparr>cifp_procedures = procs, cifp_runways = rwys\<rparr>"
    using assms by (auto simp: deserialize_segment_def segment_error_def Let_def split: prod.splits if_splits sum.splits)
  have "length procs = unat np \<and> (\<forall>x \<in> set procs. procedure_carried x)" using r_each_all [OF p] r_procedure_carried by blast
  moreover have "length rwys = unat nr" using r_each_all [OF r, of "\<lambda>_. True"] by simp
  ultimately show ?thesis using unsigned_less [of np] unsigned_less [of nr] by (simp add: cifp_carried_def d)
qed

lemma load_segment_carried: "load_segment a icao loc = Inr d \<Longrightarrow> cifp_carried d"
  by (auto simp: load_segment_def bad_def split: option.splits if_splits sum.splits dest: deserialize_carried)

section \<open>Corruption\<close>

lemma take_drop_flip:
  "(take n (drop k (pre @ x # post)) = take n (drop k (pre @ y # post))) \<or>
   (\<exists>u v. take n (drop k (pre @ x # post)) = u @ x # v \<and> take n (drop k (pre @ y # post)) = u @ y # v)"
proof (cases "k \<le> length pre \<and> length pre < k + n")
  case True
  then obtain m where n: "n = (length pre - k) + Suc m" by (intro that [of "n - (length pre - k) - 1"]) linarith
  have t: "take n (drop k (pre @ z # post)) = drop k pre @ z # take m post" for z
    using True by (simp add: n)
  show ?thesis by (intro disjI2 exI conjI) (rule t)+
next
  case False
  then consider "length pre < k" | "k + n \<le> length pre" by linarith
  then show ?thesis
  proof cases
    case 1
    then obtain j where "k - length pre = Suc j" by (cases "k - length pre") auto
    then show ?thesis by simp
  next
    case 2
    then show ?thesis by simp
  qed
qed

abbreviation flipped :: "bytes \<Rightarrow> bytes \<Rightarrow> u8 \<Rightarrow> pread_file" where
  "flipped pre post x \<equiv> file_of_bytes (pre @ x # post)"

lemma read_flip:
  assumes "read_region (flipped pre post x) off n = Some bs"
  shows "read_region (flipped pre post y) off n = Some bs \<or>
    (\<exists>u v. bs = u @ x # v \<and> read_region (flipped pre post y) off n = Some (u @ y # v))"
  using assms take_drop_flip [of n "unat off" pre x post y]
  by (auto simp: read_region_def file_of_bytes_def split: if_splits)

lemma find_segment_file [simp]: "find_segment (a\<lparr>ca_file := fl\<rparr>) icao = find_segment a icao"
  by (cases "fixed_name_from fixed_name8_cap icao"; cases a) (simp_all add: find_segment_def Let_def)

lemma load_segment_flip:
  assumes "load_segment a icao loc = Inr d" and "ca_file a = flipped pre post x" and "x \<noteq> y"
  shows "load_segment (a\<lparr>ca_file := flipped pre post y\<rparr>) icao loc = Inr d \<or>
    (\<exists>e. load_segment (a\<lparr>ca_file := flipped pre post y\<rparr>) icao loc = Inl e \<and> err_code e = KCacheCorrupt)"
proof -
  obtain bs where bs: "read_region (flipped pre post x) (sl_abs_off loc) (unat (sl_len loc)) = Some bs"
    "crc_compute bs = sl_crc loc" "deserialize_segment bs (ca_pool a) = Inr d"
    using assms(1,2) by (auto simp: load_segment_def bad_def split: option.splits if_splits sum.splits)
  from read_flip [OF bs(1), of y] show ?thesis
  proof (elim disjE exE conjE)
    assume "read_region (flipped pre post y) (sl_abs_off loc) (unat (sl_len loc)) = Some bs"
    then show ?thesis using bs(2,3) by (simp add: load_segment_def)
  next
    fix u v
    assume "bs = u @ x # v" "read_region (flipped pre post y) (sl_abs_off loc) (unat (sl_len loc)) = Some (u @ y # v)"
    then show ?thesis using crc_detects_byte [OF assms(3), of u v] bs(2) by (simp add: load_segment_def bad_def)
  qed
qed

lemma open_section_error: "open_section file so sl crc pool = Inl e \<Longrightarrow> pf_is_open file \<Longrightarrow> err_code e = KCacheCorrupt"
proof -
  have rows: "r_dir_rows k (r_dir_row pool so sl n) r = Inl e \<Longrightarrow> err_code e = KCacheCorrupt" for k n r
    by (induction k arbitrary: r)
      (auto simp: r_dir_row_def bad_def Let_def split: prod.splits if_splits sum.splits)
  show "open_section file so sl crc pool = Inl e \<Longrightarrow> pf_is_open file \<Longrightarrow> err_code e = KCacheCorrupt"
    by (auto simp: open_section_def bad_def Let_def rows split: prod.splits if_splits option.splits sum.splits)
qed

lemma open_section_flip:
  assumes opened: "open_section (flipped pre post x) so sl crc pool = Inr a" and "x \<noteq> y"
    and off: "length pre < unat so \<or> unat so + 4 \<le> length pre"
  shows "open_section (flipped pre post y) so sl crc pool = Inr (a\<lparr>ca_file := flipped pre post y\<rparr>) \<or>
    (\<exists>e. open_section (flipped pre post y) so sl crc pool = Inl e)"
proof (rule open_sectionE [OF opened])
  fix count_buf n dir rows
  assume sl: "\<not> sl < 4" and n: "n = fst (r_u32 (byte_reader_new count_buf))" "\<not> (sl - 4) div of_nat dir_entry_size < ucast n"
    and count_buf: "pf_read (flipped pre post x) so 4 = Some count_buf"
    and dir: "read_region (flipped pre post x) (so + 4) (unat n * dir_entry_size) = Some dir"
    and crc: "crc_update (crc_update 0 count_buf) dir = crc"
    and rows: "r_dir_rows (unat n) (r_dir_row pool so sl n) (byte_reader_new dir) = Inr rows"
    and a: "a = \<lparr>ca_file = flipped pre post x, ca_index = sort_by (\<lambda>a b. fixed_name_less (fst a) (fst b)) rows, ca_pool = pool\<rparr>"
  have count_buf': "pf_read (flipped pre post y) so 4 = Some count_buf"
  proof -
    have "take 4 (drop (unat so) (pre @ x # post)) = take 4 (drop (unat so) (pre @ y # post))"
      using off by (cases "unat so - length pre") auto
    then show ?thesis using count_buf by (simp add: file_of_bytes_def split: if_splits)
  qed
  obtain r where r: "r_u32 (byte_reader_new count_buf) = (n, r)" using n(1) by (cases "r_u32 (byte_reader_new count_buf)") simp
  have op: "pf_is_open (flipped pre post y)" by (simp add: file_of_bytes_def)
  from read_flip [OF dir, of y] show ?thesis
  proof (elim disjE exE conjE)
    assume "read_region (flipped pre post y) (so + 4) (unat n * dir_entry_size) = Some dir"
    then show ?thesis using sl n(2) count_buf' r crc rows op by (simp add: open_section_def a)
  next
    fix u v
    assume dir': "dir = u @ x # v" "read_region (flipped pre post y) (so + 4) (unat n * dir_entry_size) = Some (u @ y # v)"
    have "crc_update (crc_update 0 count_buf) (u @ y # v) \<noteq> crc"
      using crc_detects_byte [OF assms(2), of "count_buf @ u" v] crc
      unfolding dir'(1) crc_update_append by (simp add: crc_compute_def)
    then show ?thesis using sl n(2) count_buf' r dir'(2) op by (simp add: open_section_def bad_def)
  qed
qed


section \<open>A section with one airport\<close>

definition sample_cached_leg :: cached_leg where
  "sample_cached_leg =
     \<lparr>leg_fix = \<lparr>fi_ident = pad_to ident_cap ''SEA'', fi_icao_code = pad_to arinc424_icao_code_cap ''K1'',
                 fi_ident_len = 3, fi_icao_code_len = 2\<rparr>,
      leg_fix_lat = 0x7FC00000, leg_fix_lon = 0x7FC00000, leg_course_deg = 0x43340000, leg_distance_nm = 0,
      leg_alt1_ft = 5000, leg_alt2_ft = 0, leg_rnp_centinm = 100, leg_speed_limit_kt = 250, leg_path_term = TF,
      leg_alt_kind = AltAtOrAbove, leg_turn_dir = CHR ''L'', leg_is_mapt = False, leg_course_true = True\<rparr>"

definition sample_cached_cifp :: cached_cifp where
  "sample_cached_cifp =
     \<lparr>cifp_procedures = [\<lparr>proc_type = Sid, proc_name = ''BANGR9'', proc_transition_ident = ''PANGL'', proc_runway = ''RW16L'',
        proc_route_type = 5, proc_legs = [sample_cached_leg]\<rparr>],
      cifp_runways = [\<lparr>rwy_ident = ''RW16L'', rwy_threshold = \<lparr>latitude = 1, longitude = 2\<rparr>, rwy_elevation_ft = 432\<rparr>]\<rparr>"

lemma sample_carried: "cifp_carried sample_cached_cifp"
  by (simp add: cifp_carried_def sample_cached_cifp_def procedure_carried_def leg_carried_def sample_cached_leg_def
      fixed_ident_wf_def ident_cap_def arinc424_icao_code_cap_def pad_to_def ident_view_def icao_code_view_def
      fix_position_ok_def f32_isnan_def f32_magnitude_def turn_left_def)

lemma sample_encoded:
  obtains w p where "cifp_encode [(''KSEA'', sample_cached_cifp)] byte_writer_new string_pool_new = Inr (1, w, p)"
    "20 \<le> length (bw_out w)" "length (bw_out w) \<le> 1000" "length (sp_blob p) \<le> 1000"
proof -
  have ids: "ident_view (leg_fix sample_cached_leg) = ''SEA''" "icao_code_view (leg_fix sample_cached_leg) = ''K1''"
    by (simp_all add: sample_cached_leg_def ident_view_def icao_code_view_def ident_cap_def arinc424_icao_code_cap_def pad_to_def)
  have "\<exists>b p. serialize_segment sample_cached_cifp string_pool_new = (b, p) \<and> length b \<le> 500 \<and> length (sp_blob p) \<le> 500 \<and>
      sp_interned p ''KSEA'' = None"
    by (simp add: serialize_segment_def sample_cached_cifp_def encode_procedure_def encode_leg_def encode_runway_def
        segment_ref_def pool_add_def string_pool_new_def byte_writer_new_def int_wrappers put_encs enc_widths ids Let_def)
  then obtain b p where b: "serialize_segment sample_cached_cifp string_pool_new = (b, p)" "length b \<le> 500"
    "length (sp_blob p) \<le> 500" "sp_interned p ''KSEA'' = None" by blast
  show ?thesis
    by (rule that)
      (use b in \<open>simp_all add: cifp_encode_def fixed_name_from_def fixed_name8_cap_def pool_add_def w_bytes_def
        w_directory_enc put_encs byte_writer_new_def Let_def\<close>,
        simp_all add: enc_row_def enc_ref_width enc_widths)
qed


text \<open>The sample section in a file of its own, opened.\<close>

lemma sample_opened:
  obtains w p a where "cifp_encode [(''KSEA'', sample_cached_cifp)] byte_writer_new string_pool_new = Inr (1, w, p)"
    "open_section (file_of_bytes (bw_out w)) 0 (of_nat (length (bw_out w)))
       (crc_compute (take (directory_prefix_len 1) (bw_out w))) (sp_blob p) = Inr a"
    "cifp_fetch a ''KSEA'' = Inr (Some sample_cached_cifp)" "20 \<le> length (bw_out w)" "length (bw_out w) \<le> 1000"
    "length (sp_blob p) \<le> 1000" "serves (file_of_bytes (bw_out w)) 0 (bw_out w)"
proof (rule sample_encoded)
  fix w p
  assume w: "cifp_encode [(''KSEA'', sample_cached_cifp)] byte_writer_new string_pool_new = Inr (1, w, p)"
    "20 \<le> length (bw_out w)" "length (bw_out w) \<le> 1000" "length (sp_blob p) \<le> 1000"
  have s: "serves (file_of_bytes (bw_out w)) 0 (bw_out w)" using serves_file [of "[]" "bw_out w" "[]"] w(3) by simp
  have c: "\<forall>d \<in> set (map snd [(''KSEA'', sample_cached_cifp)]). cifp_carried d" by (simp add: sample_carried)
  have len: "length (bw_out w) \<le> 0xFFFFFFFF" "length (sp_blob p @ []) \<le> 0xFFFFFFFF" using w by simp_all
  obtain a where "open_section (file_of_bytes (bw_out w)) 0 (of_nat (length (bw_out w)))
       (crc_compute (take (directory_prefix_len 1) (bw_out w))) (sp_blob p @ []) = Inr a"
    "\<And>icao. cifp_fetch a icao = Inr (map_of [(''KSEA'', sample_cached_cifp)] icao)"
    using cifp_opened_fetch [OF w(1) pool_ok_new c len s] by blast
  then show ?thesis using that w s by simp
qed

section \<open>Properties\<close>

text \<open>
  C28: What \<open>Encode\<close> writes opens, wherever the file holds it and whatever later sections add to the string
  pool, into an archive that answers for every airport code with exactly the procedures and runways that were
  encoded, and with nothing for a code that was not; loading everything at once gives the same map.
\<close>

theorem cifp_section_roundtrip:
  assumes "cifp_encode procedures byte_writer_new p = Inr (n, w, p')" and "pool_ok p"
    and "\<forall>d \<in> set (map snd procedures). cifp_carried d" and "length (bw_out w) \<le> 0xFFFFFFFF"
    and "length (sp_blob p' @ later) \<le> 0xFFFFFFFF" and "serves file so (bw_out w)"
  shows "\<exists>a. open_section file so (of_nat (length (bw_out w)))
      (crc_compute (take (directory_prefix_len n) (bw_out w))) (sp_blob p' @ later) = Inr a \<and>
    (\<forall>icao. cifp_fetch a icao = Inr (map_of procedures icao)) \<and> cifp_fetch_all a = Inr (map_of procedures)"
proof -
  obtain a where a: "open_section file so (of_nat (length (bw_out w)))
      (crc_compute (take (directory_prefix_len n) (bw_out w))) (sp_blob p' @ later) = Inr a"
    and f: "\<And>icao. cifp_fetch a icao = Inr (map_of procedures icao)" and d: "distinct (map (\<lambda>e. name_view (fst e)) (ca_index a))"
    using cifp_opened_fetch [OF assms] by blast
  have "cifp_fetch_all a = Inr (map_of procedures)"
    using cifp_eager_lazy [OF a] f d by (cases "cifp_fetch_all a") auto
  then show ?thesis using a f by blast
qed

lemma cifp_section_roundtrip_witness:
  "case cifp_encode [(''KSEA'', sample_cached_cifp)] byte_writer_new string_pool_new of
     Inl _ \<Rightarrow> False
   | Inr (n, w, p) \<Rightarrow> (\<exists>a. open_section (file_of_bytes (bw_out w)) 0 (of_nat (length (bw_out w)))
         (crc_compute (take (directory_prefix_len n) (bw_out w))) (sp_blob p) = Inr a \<and>
       cifp_fetch a ''KSEA'' = Inr (Some sample_cached_cifp) \<and> cifp_fetch a ''KPDX'' = Inr None)"
proof (rule sample_opened)
  fix w p
  assume w: "cifp_encode [(''KSEA'', sample_cached_cifp)] byte_writer_new string_pool_new = Inr (1, w, p)"
    "20 \<le> length (bw_out w)" "length (bw_out w) \<le> 1000" "length (sp_blob p) \<le> 1000"
    "serves (file_of_bytes (bw_out w)) 0 (bw_out w)"
  from cifp_section_roundtrip [OF w(1) pool_ok_new _ _ _ w(5), of "[]"] show ?thesis
    using w(1-4) sample_carried by auto
qed

text \<open>
  C30: Loading every airport when a cache is opened gives exactly what fetching them one by one gives, for any
  section that opens, forged or not; when it fails, it fails with the error that fetching one of the airports
  gives, provided no airport is listed twice.
\<close>

theorem cifp_eager_is_lazy:
  assumes "open_section file so sl crc pool = Inr a"
  shows "case cifp_fetch_all a of
      Inr m \<Rightarrow> (\<forall>icao. cifp_fetch a icao = Inr (m icao))
    | Inl e \<Rightarrow> err_code e = KCacheCorrupt \<and>
        (distinct (map (\<lambda>e. name_view (fst e)) (ca_index a)) \<longrightarrow> (\<exists>icao. cifp_fetch a icao = Inl e))"
  using assms by (rule cifp_eager_lazy)

lemma cifp_eager_is_lazy_witness:
  "\<exists>file sl crc pool a. open_section file 0 sl crc pool = Inr a \<and>
     cifp_fetch a ''KSEA'' = Inr (Some sample_cached_cifp) \<and>
     (case cifp_fetch_all a of Inr m \<Rightarrow> m ''KSEA'' = Some sample_cached_cifp | Inl e \<Rightarrow> err_code e = KCacheCorrupt)"
proof (rule sample_opened)
  fix w p a
  assume a: "open_section (file_of_bytes (bw_out w)) 0 (of_nat (length (bw_out w)))
       (crc_compute (take (directory_prefix_len 1) (bw_out w))) (sp_blob p) = Inr a"
    "cifp_fetch a ''KSEA'' = Inr (Some sample_cached_cifp)"
  have "case cifp_fetch_all a of Inr m \<Rightarrow> m ''KSEA'' = Some sample_cached_cifp | Inl e \<Rightarrow> err_code e = KCacheCorrupt"
    using cifp_eager_is_lazy [OF a(1)] a(2) by (auto split: sum.splits)
  then show ?thesis using a by blast
qed

text \<open>
  C32: Every segment an opened archive would read lies inside the section, a non-empty one after the count and
  the directory, so no fetch reads another section or takes directory bytes for data, whatever the directory
  says.
\<close>

theorem cifp_reads_bounded:
  assumes "open_section file so sl crc pool = Inr a" and "unat so + unat sl < 2 ^ 64" and "find_segment a icao = Some loc"
  shows "unat (sl_abs_off loc) + unat (sl_len loc) \<le> unat so + unat sl \<and>
    (sl_len loc = 0 \<or> unat so + directory_prefix_len (of_nat (length (ca_index a))) \<le> unat (sl_abs_off loc))"
  using opened_inside [OF assms] by (auto simp: loc_inside_def word_gt_0)

lemma cifp_reads_bounded_witness:
  "\<exists>file sl crc pool a loc. open_section file 0 sl crc pool = Inr a \<and> find_segment a ''KSEA'' = Some loc \<and>
     unat (sl_abs_off loc) + unat (sl_len loc) \<le> unat sl"
proof (rule sample_opened)
  fix w p a
  assume a: "open_section (file_of_bytes (bw_out w)) 0 (of_nat (length (bw_out w)))
       (crc_compute (take (directory_prefix_len 1) (bw_out w))) (sp_blob p) = Inr a"
    "cifp_fetch a ''KSEA'' = Inr (Some sample_cached_cifp)" "length (bw_out w) \<le> 1000"
  obtain loc where loc: "find_segment a ''KSEA'' = Some loc" using a(2) by (auto simp: cifp_fetch_def split: option.splits)
  have "unat (of_nat (length (bw_out w)) :: u64) = length (bw_out w)" using a(3) by (intro unat_length_u64) simp
  then have "unat (0 :: u64) + unat (of_nat (length (bw_out w)) :: u64) < 2 ^ 64" using a(3) by simp
  from cifp_reads_bounded [OF a(1) this loc]
  have "unat (sl_abs_off loc) + unat (sl_len loc) \<le> unat (of_nat (length (bw_out w)) :: u64)" by simp
  then show ?thesis using a(1) loc by blast
qed

text \<open>
  C29: One corrupted byte of the file, outside the four bytes of the airport count, never becomes wrong data:
  opening reports a corrupt cache, or every airport that could be fetched before still gives the same answer
  or reports a corrupt cache.
\<close>

theorem cifp_corruption_detected:
  assumes "open_section (file_of_bytes (pre @ x # post)) so sl crc pool = Inr a" and "x \<noteq> y"
    and "length pre < unat so \<or> unat so + 4 \<le> length pre"
  shows "case open_section (file_of_bytes (pre @ y # post)) so sl crc pool of
      Inl e \<Rightarrow> err_code e = KCacheCorrupt
    | Inr a' \<Rightarrow> \<forall>icao r. cifp_fetch a icao = Inr r \<longrightarrow>
        cifp_fetch a' icao = Inr r \<or> (\<exists>e. cifp_fetch a' icao = Inl e \<and> err_code e = KCacheCorrupt)"
proof -
  have fl: "ca_file a = flipped pre post x" by (rule open_sectionE [OF assms(1)]) simp
  have fetch: "cifp_fetch (a\<lparr>ca_file := flipped pre post y\<rparr>) icao = Inr r \<or>
      (\<exists>e. cifp_fetch (a\<lparr>ca_file := flipped pre post y\<rparr>) icao = Inl e \<and> err_code e = KCacheCorrupt)"
    if r: "cifp_fetch a icao = Inr r" for icao r
  proof (cases "find_segment a icao")
    case None
    then show ?thesis using r by (simp add: cifp_fetch_def)
  next
    case (Some loc)
    then obtain d where d: "load_segment a icao loc = Inr d" "r = Some d"
      using r by (cases "load_segment a icao loc") (auto simp: cifp_fetch_def)
    show ?thesis using load_segment_flip [OF d(1) fl assms(2)] d(2) Some by (auto simp: cifp_fetch_def)
  qed
  show ?thesis
  proof (cases "open_section (flipped pre post y) so sl crc pool")
    case (Inl e)
    then show ?thesis using open_section_error [OF Inl] by (simp add: file_of_bytes_def)
  next
    case (Inr a')
    then have "a' = a\<lparr>ca_file := flipped pre post y\<rparr>" using open_section_flip [OF assms] by simp
    then show ?thesis unfolding Inr sum.case using fetch by blast
  qed
qed

lemma cifp_corruption_detected_witness:
  "\<exists>file sl crc pool a. open_section file 0 sl crc pool = Inr a \<and> (\<exists>w x y. x \<noteq> y \<and> file = file_of_bytes (w @ [x]) \<and>
     (case open_section (file_of_bytes (w @ [y])) 0 sl crc pool of
        Inl e \<Rightarrow> err_code e = KCacheCorrupt
      | Inr a' \<Rightarrow> cifp_fetch a' ''KSEA'' = Inr (Some sample_cached_cifp) \<or>
          (\<exists>e. cifp_fetch a' ''KSEA'' = Inl e \<and> err_code e = KCacheCorrupt)))"
proof (rule sample_opened)
  fix w p a
  assume a: "open_section (file_of_bytes (bw_out w)) 0 (of_nat (length (bw_out w)))
       (crc_compute (take (directory_prefix_len 1) (bw_out w))) (sp_blob p) = Inr a"
    "cifp_fetch a ''KSEA'' = Inr (Some sample_cached_cifp)" "20 \<le> length (bw_out w)"
  then have w: "bw_out w = butlast (bw_out w) @ [last (bw_out w)]" by (metis append_butlast_last_id list.size(3) not_numeral_le_zero)
  have ne: "last (bw_out w) \<noteq> last (bw_out w) + 1" by simp
  have off: "length (butlast (bw_out w)) < unat (0 :: u64) \<or> unat (0 :: u64) + 4 \<le> length (butlast (bw_out w))"
    using a(3) by simp
  let ?sl = "of_nat (length (bw_out w)) :: u64" and ?crc = "crc_compute (take (directory_prefix_len 1) (bw_out w))"
  have opened: "open_section (file_of_bytes (butlast (bw_out w) @ [last (bw_out w)])) 0 ?sl ?crc (sp_blob p) = Inr a"
    using a(1) w by metis
  have "case open_section (file_of_bytes (butlast (bw_out w) @ [last (bw_out w) + 1])) 0 ?sl ?crc (sp_blob p) of
      Inl e \<Rightarrow> err_code e = KCacheCorrupt
    | Inr a' \<Rightarrow> cifp_fetch a' ''KSEA'' = Inr (Some sample_cached_cifp) \<or>
        (\<exists>e. cifp_fetch a' ''KSEA'' = Inl e \<and> err_code e = KCacheCorrupt)"
    using cifp_corruption_detected [OF opened ne off] a(2) by (auto split: sum.splits)
  with opened ne show ?thesis by (intro exI conjI) (assumption | rule refl)+
qed

text \<open>
  Fetching an airport answers nothing exactly for a code the archive does not list; otherwise it reports a
  corrupt cache, or it gives data with legal fix identifiers and positions, turn directions and counts: the very
  data the codec can carry.
\<close>

theorem cifp_fetch_sound:
  "case cifp_fetch a icao of
     Inl e \<Rightarrow> err_code e = KCacheCorrupt
   | Inr None \<Rightarrow> find_segment a icao = None
   | Inr (Some d) \<Rightarrow> find_segment a icao \<noteq> None \<and> cifp_carried d"
  by (auto simp: cifp_fetch_def split: option.splits sum.splits dest: load_segment_error load_segment_carried)

end
