(* ===== verification/NavDetailCorrect.thy ===== *)
theory NavDetailCorrect
  imports NavDetailCodec CifpCodecCorrect
begin

text \<open>
  Correctness of the detail section: the codec and the loader path give the same archive, and the lookups
  return what a scan of the records finds. The record formats are instances of the locale \<open>pooled_format\<close>.
\<close>

section \<open>Orders\<close>

definition field_ok :: "('a \<Rightarrow> 'a \<Rightarrow> bool \<times> bool) \<Rightarrow> bool" where
  "field_ok f \<longleftrightarrow> (\<forall>x y. f y x = prod.swap (f x y) \<and> \<not> (fst (f x y) \<and> snd (f x y)))"

lemma tie_less_asym:
  assumes "list_all field_ok fs"
  shows "tie_less (map (\<lambda>f. f a b) fs) \<Longrightarrow> \<not> tie_less (map (\<lambda>f. f b a) fs)"
  using assms
proof (induction fs)
  case (Cons f fs)
  obtain l g where lg: "f a b = (l, g)" by (cases "f a b")
  have "field_ok f" using Cons.prems(2) by simp
  then have f: "f b a = prod.swap (f a b)" "\<not> (fst (f a b) \<and> snd (f a b))" unfolding field_ok_def by blast+
  have rest: "tie_less (map (\<lambda>f. f a b) fs) \<Longrightarrow> \<not> tie_less (map (\<lambda>f. f b a) fs)"
    using Cons.IH Cons.prems(2) by simp
  show ?case using Cons.prems(1) rest f(2) unfolding list.map f(1) lg by auto
qed simp

lemma both_ok: "(\<And>x y. lt x y \<Longrightarrow> \<not> lt y x) \<Longrightarrow> field_ok (both lt f)"
  by (auto simp: field_ok_def both_def)

lemma f64_less_asym: "f64_less x y \<Longrightarrow> \<not> f64_less y x"
  by (auto simp: f64_less_def)

lemma navaid_before_asym: "navaid_before a b \<Longrightarrow> \<not> navaid_before b a"
  unfolding navaid_before_def
  by (rule tie_less_asym) (simp_all only: navaid_fields_def list.pred_inject both_ok [OF less_not_sym] both_ok [OF f64_less_asym] simp_thms)

lemma hold_before_asym: "hold_before a b \<Longrightarrow> \<not> hold_before b a"
  unfolding hold_before_def
  by (rule tie_less_asym) (simp_all only: hold_fields_def list.pred_inject both_ok [OF less_not_sym] both_ok [OF f64_less_asym] simp_thms)

lemma not_before_ident:
  "\<not> navaid_before b a \<Longrightarrow> id_ident (fst a) \<le> id_ident (fst b)"
  "\<not> hold_before h g \<Longrightarrow> hi_fix_ident g \<le> hi_fix_ident h"
  by (auto simp: navaid_before_def navaid_fields_def hold_before_def hold_fields_def both_def)

text \<open>Sorting with an asymmetric comparison leaves no inversion between neighbours, and then changes nothing more.\<close>

lemma sort_by_settled:
  assumes "\<And>x y. lt x y \<Longrightarrow> \<not> lt y x"
  shows "successively (\<lambda>x y. \<not> lt y x) (sort_by lt xs)"
proof -
  have ins: "successively (\<lambda>x y. \<not> lt y x) ys \<Longrightarrow> successively (\<lambda>x y. \<not> lt y x) (insert_by lt x ys)" for x ys
  proof (induction ys)
    case (Cons y ys)
    then show ?case using assms by (cases ys) (auto simp: successively_Cons)
  qed simp
  show ?thesis by (induction xs) (simp_all add: sort_by_def ins)
qed

lemma sort_by_fixed: "successively (\<lambda>x y. \<not> lt y x) xs \<Longrightarrow> sort_by lt xs = xs"
proof (induction xs)
  case (Cons x xs)
  then have "sort_by lt xs = xs" by (cases xs) (simp_all add: successively_Cons sort_by_def)
  then have "sort_by lt (x # xs) = insert_by lt x xs" by (simp add: sort_by_def)
  also have "\<dots> = x # xs" using Cons.prems by (cases xs) simp_all
  finally show ?case .
qed (simp add: sort_by_def)

lemma successively_sorted:
  assumes "successively P xs" and "\<And>x y. P x y \<Longrightarrow> f x \<le> f y"
  shows "sorted (map f xs)"
  using assms(1)
proof (induction xs rule: induct_list012)
  case (3 x y zs)
  then have "f x \<le> f y" "sorted (map f (y # zs))" using assms(2) by simp_all
  then show ?case by auto
qed simp_all

lemma finalize_idem: "detail_finalize (detail_finalize a) = detail_finalize a"
  by (simp add: detail_finalize_def sort_by_fixed sort_by_settled navaid_before_asym hold_before_asym)


section \<open>The records\<close>

text \<open>
  What the section can carry: keys that mirror their record, turn directions the decoder accepts, and doubles
  that are numbers, as the order of the arrays needs.
\<close>

definition navaid_carried :: "ident \<times> navaid_detail_info \<Rightarrow> bool" where
  "navaid_carried e \<longleftrightarrow> fst e = \<lparr>id_ident = ni_ident (snd e), id_icao_code = ni_icao_code (snd e)\<rparr> \<and>
     \<not> f64_isnan (ni_range_nm (snd e)) \<and> \<not> f64_isnan (ni_heading (snd e))"

definition hold_carried :: "hold_info \<Rightarrow> bool" where
  "hold_carried h \<longleftrightarrow> (hi_turn_dir h = turn_left \<or> hi_turn_dir h = turn_right) \<and>
     \<not> f64_isnan (hi_inbound_course h) \<and> \<not> f64_isnan (hi_leg_time_min h) \<and> \<not> f64_isnan (hi_leg_dist_nm h)"

lemma detail_ref_segment: "detail_ref = segment_ref"
  by (simp add: detail_ref_def segment_ref_def)

lemma kind_byte_fuse: "\<not> waypoint_kind_byte KIlsDme < waypoint_kind_byte k"
  using waypoint_kind_byte_le [of k] by (simp add: not_less waypoint_kind_byte_def del: waypoint_kind_byte_le)

interpretation navaid_format: pooled_format encode_navaid r_navaid navaid_carried navaid_record_size
proof unfold_locales
  fix w p e w' p' q
  assume put: "encode_navaid (w, p) e = (w', p')"
  let ?d = "snd e"
  let ?tl = "enc_u8 (waypoint_kind_byte (ni_kind ?d)) @ enc_u32 (ni_elev_ft ?d) @ enc_u32 (ni_freq_raw ?d) @
    enc_u64 (ni_range_nm ?d) @ enc_u64 (ni_heading ?d)"
  obtain w1 p1 where 1: "segment_ref (w, p) (ni_ident ?d) = (w1, p1)" by (cases "segment_ref (w, p) (ni_ident ?d)")
  obtain w2 p2 where 2: "segment_ref (w1, p1) (ni_icao_code ?d) = (w2, p2)" by (cases "segment_ref (w1, p1) (ni_icao_code ?d)")
  have w': "p2 = p'" "w' = w2\<lparr>bw_out := bw_out w2 @ ?tl\<rparr>"
    using put 1 2 by (simp_all add: encode_navaid_def detail_ref_segment int_wrappers put_encs Let_def)
  show "pool_grows p p'" using segment_ref_grows [OF 1] segment_ref_grows [OF 2] w'(1) pool_grows_trans by blast
  assume ok: "pool_ok p" and q: "pool_grows p' q" and len: "length (sp_blob q) \<le> 0xFFFFFFFF" and c: "navaid_carried e"
  have g2: "pool_grows p2 q" using q w'(1) by simp
  have g1: "pool_grows p1 q" using segment_ref_grows [OF 2] g2 pool_grows_trans by blast
  obtain i where i: "pool_ok p1" "w1 = w\<lparr>bw_out := bw_out w @ enc_ref i\<rparr>" "refers (sp_blob q) i (ni_ident ?d)"
    by (rule segment_ref_refers [OF 1 ok g1 len])
  obtain r where r: "pool_ok p2" "w2 = w1\<lparr>bw_out := bw_out w1 @ enc_ref r\<rparr>" "refers (sp_blob q) r (ni_icao_code ?d)"
    by (rule segment_ref_refers [OF 2 i(1) g2 len])
  let ?bs = "enc_ref i @ enc_ref r @ ?tl"
  have res: "resolve_ref (sp_blob q) (fst i) (snd i) ok = (ni_ident ?d, ok)"
    "resolve_ref (sp_blob q) (fst r) (snd r) ok = (ni_icao_code ?d, ok)" for ok
    using i(3) r(3) by (simp_all add: refers_resolve)
  have key: "fst e = \<lparr>id_ident = ni_ident ?d, id_icao_code = ni_icao_code ?d\<rparr>" using c by (simp add: navaid_carried_def)
  have "r_navaid (sp_blob q) (reader_at pre (?bs @ post), ok) = Inr (e, (reader_at (pre @ ?bs) post, ok))" for pre post ok
    using key by (cases e) (simp add: r_navaid_def enc_ref_def int_wrappers get_encs res kind_byte_fuse)
  moreover have "navaid_record_size \<le> length ?bs" by (simp add: navaid_record_size_def enc_ref_width enc_widths)
  ultimately show "pool_ok p' \<and> (\<exists>bs. w' = w\<lparr>bw_out := bw_out w @ bs\<rparr> \<and> navaid_record_size \<le> length bs \<and>
      decodes (r_navaid (sp_blob q)) bs e)"
    using r(1,2) i(2) w' by (intro conjI exI [of _ ?bs]) (simp_all add: decodes_def)
qed

interpretation hold_format: pooled_format encode_hold r_hold hold_carried hold_record_size
proof unfold_locales
  fix w p h w' p' q
  assume put: "encode_hold (w, p) h = (w', p')"
  let ?tl = "enc_u64 (hi_inbound_course h) @ enc_u64 (hi_leg_time_min h) @ enc_u64 (hi_leg_dist_nm h) @
    enc_u8 (of_nat (of_char (hi_turn_dir h))) @ enc_u32 (hi_min_alt_ft h) @ enc_u32 (hi_max_alt_ft h) @ enc_u32 (hi_speed_limit_kt h)"
  obtain w1 p1 where 1: "segment_ref (w, p) (hi_fix_ident h) = (w1, p1)" by (cases "segment_ref (w, p) (hi_fix_ident h)")
  obtain w2 p2 where 2: "segment_ref (w1, p1) (hi_fix_icao_code h) = (w2, p2)" by (cases "segment_ref (w1, p1) (hi_fix_icao_code h)")
  obtain w3 p3 where 3: "segment_ref (w2, p2) (hi_airport_icao h) = (w3, p3)" by (cases "segment_ref (w2, p2) (hi_airport_icao h)")
  have w': "p3 = p'" "w' = w3\<lparr>bw_out := bw_out w3 @ ?tl\<rparr>"
    using put 1 2 3 by (simp_all add: encode_hold_def detail_ref_segment int_wrappers put_encs)
  show "pool_grows p p'"
    using segment_ref_grows [OF 1] segment_ref_grows [OF 2] segment_ref_grows [OF 3] w'(1) pool_grows_trans by blast
  assume ok: "pool_ok p" and q: "pool_grows p' q" and len: "length (sp_blob q) \<le> 0xFFFFFFFF" and c: "hold_carried h"
  have g3: "pool_grows p3 q" using q w'(1) by simp
  have g2: "pool_grows p2 q" using segment_ref_grows [OF 3] g3 pool_grows_trans by blast
  have g1: "pool_grows p1 q" using segment_ref_grows [OF 2] g2 pool_grows_trans by blast
  obtain i where i: "pool_ok p1" "w1 = w\<lparr>bw_out := bw_out w @ enc_ref i\<rparr>" "refers (sp_blob q) i (hi_fix_ident h)"
    by (rule segment_ref_refers [OF 1 ok g1 len])
  obtain r where r: "pool_ok p2" "w2 = w1\<lparr>bw_out := bw_out w1 @ enc_ref r\<rparr>" "refers (sp_blob q) r (hi_fix_icao_code h)"
    by (rule segment_ref_refers [OF 2 i(1) g2 len])
  obtain a where a: "pool_ok p3" "w3 = w2\<lparr>bw_out := bw_out w2 @ enc_ref a\<rparr>" "refers (sp_blob q) a (hi_airport_icao h)"
    by (rule segment_ref_refers [OF 3 r(1) g3 len])
  let ?bs = "enc_ref i @ enc_ref r @ enc_ref a @ ?tl"
  have res: "resolve_ref (sp_blob q) (fst i) (snd i) ok = (hi_fix_ident h, ok)"
    "resolve_ref (sp_blob q) (fst r) (snd r) ok = (hi_fix_icao_code h, ok)"
    "resolve_ref (sp_blob q) (fst a) (snd a) ok = (hi_airport_icao h, ok)" for ok
    using i(3) r(3) a(3) by (simp_all add: refers_resolve)
  have turn: "\<not> (of_nat (of_char (hi_turn_dir h)) \<noteq> (of_nat (of_char turn_left) :: u8) \<and>
      of_nat (of_char (hi_turn_dir h)) \<noteq> (of_nat (of_char turn_right) :: u8))"
    using c by (auto simp: hold_carried_def)
  have "r_hold (sp_blob q) (reader_at pre (?bs @ post), ok) = Inr (h, (reader_at (pre @ ?bs) post, ok))" for pre post ok
    unfolding r_hold_def prod.case enc_ref_def int_wrappers append_assoc get_encs Let_def if_not_P [OF turn] res
    by simp
  moreover have "hold_record_size \<le> length ?bs" by (simp add: hold_record_size_def enc_ref_width enc_widths)
  ultimately show "pool_ok p' \<and> (\<exists>bs. w' = w\<lparr>bw_out := bw_out w @ bs\<rparr> \<and> hold_record_size \<le> length bs \<and>
      decodes (r_hold (sp_blob q)) bs h)"
    using a(1,2) r(2) i(2) w' by (intro conjI exI [of _ ?bs]) (simp_all add: decodes_def)
qed

section \<open>The section\<close>

definition detail_carried :: "nav_detail_archive \<Rightarrow> bool" where
  "detail_carried a \<longleftrightarrow> length (da_navaids a) < 2 ^ 32 \<and> length (da_holds a) < 2 ^ 32 \<and>
     (\<forall>e \<in> set (da_navaids a). navaid_carried e) \<and> (\<forall>h \<in> set (da_holds a). hold_carried h)"

lemma detail_decode_encoded:
  assumes enc: "detail_encode a byte_writer_new p = (w, p')" and ok: "pool_ok p" and c: "detail_carried a"
    and len: "length (sp_blob p' @ later) \<le> 0xFFFFFFFF"
  shows "detail_decode (bw_out w) (sp_blob p' @ later) = Inr (detail_finalize a)"
proof -
  let ?q = "p'\<lparr>sp_blob := sp_blob p' @ later\<rparr>"
  let ?nn = "of_nat (length (da_navaids a)) :: u32" and ?nh = "of_nat (length (da_holds a)) :: u32"
  let ?w0 = "byte_writer_new\<lparr>bw_out := enc_u32 ?nn @ enc_u32 ?nh\<rparr>"
  have q: "pool_grows p' ?q" by (simp add: pool_grows_def)
  have ql: "length (sp_blob ?q) \<le> 0xFFFFFFFF" using len by simp
  obtain w1 p1 where 1: "foldl encode_navaid (?w0, p) (da_navaids a) = (w1, p1)"
    by (cases "foldl encode_navaid (?w0, p) (da_navaids a)")
  have 2: "foldl encode_hold (w1, p1) (da_holds a) = (w, p')"
    using enc 1 by (simp add: detail_encode_def put_encs byte_writer_new_def)
  have n: "length (da_navaids a) < 2 ^ 32" "length (da_holds a) < 2 ^ 32" "\<forall>e \<in> set (da_navaids a). navaid_carried e"
    "\<forall>h \<in> set (da_holds a). hold_carried h" using c by (simp_all add: detail_carried_def)
  from navaid_format.put_all_get [OF 1 ok pool_grows_trans [OF hold_format.put_all_grows [OF 2] q] ql n(3)] obtain ns where
    ns: "pool_ok p1" "w1 = ?w0\<lparr>bw_out := bw_out ?w0 @ ns\<rparr>" "length (da_navaids a) * navaid_record_size \<le> length ns"
      "decodes (r_each (length (da_navaids a)) (r_navaid (sp_blob ?q))) ns (da_navaids a)" by blast
  from hold_format.put_all_get [OF 2 ns(1) q ql n(4)] obtain hs where
    hs: "w = w1\<lparr>bw_out := bw_out w1 @ hs\<rparr>" "length (da_holds a) * hold_record_size \<le> length hs"
      "decodes (r_each (length (da_holds a)) (r_hold (sp_blob ?q))) hs (da_holds a)" by blast
  have un: "unat ?nn = length (da_navaids a)" "unat ?nh = length (da_holds a)"
    using n(1,2) by (simp_all add: unat_length_u32)
  have fits: "count_fits (length ns + k) ?nn navaid_record_size" "count_fits (length hs) ?nh hold_record_size" for k
    by (rule count_fits_of_nat, use n(1,2) ns(3) hs(2) in \<open>simp_all add: navaid_record_size_def hold_record_size_def\<close>)+
  have body: "bw_out w = enc_u32 ?nn @ enc_u32 ?nh @ ns @ hs" using ns(2) hs(1) by (simp add: byte_writer_new_def)
  have ns': "r_each (length (da_navaids a)) (r_navaid (sp_blob p' @ later)) (reader_at pre (ns @ post), True) =
      Inr (da_navaids a, (reader_at (pre @ ns) post, True))" for pre post
    using ns(4) by (simp add: decodes_def)
  have hs': "r_each (length (da_holds a)) (r_hold (sp_blob p' @ later)) (reader_at pre hs, True) =
      Inr (da_holds a, (reader_at (pre @ hs) [], True))" for pre
    using hs(3) unfolding decodes_def by (metis append_Nil2 string_pool.simps(1) string_pool.update_convs(1) string_pool.select_convs(1) string_pool.surjective)
  show ?thesis
    unfolding detail_decode_def body byte_reader_new_at
    by (simp add: get_encs fits un ns' hs' detail_finalize_def)
qed


section \<open>Lookups\<close>

lemma equal_run:
  fixes f :: "'a \<Rightarrow> 'b :: linorder"
  assumes "sorted (map f xs)"
  shows "takeWhile (\<lambda>x. f x = k) (dropWhile (\<lambda>x. f x < k) xs) = filter (\<lambda>x. f x = k) xs"
    and "takeWhile (\<lambda>x. \<not> k < f x) (dropWhile (\<lambda>x. f x < k) xs) = filter (\<lambda>x. f x = k) xs"
proof -
  have "takeWhile (\<lambda>x. f x = k) (dropWhile (\<lambda>x. f x < k) xs) = filter (\<lambda>x. f x = k) xs \<and>
      takeWhile (\<lambda>x. \<not> k < f x) (dropWhile (\<lambda>x. f x < k) xs) = filter (\<lambda>x. f x = k) xs"
    using assms
  proof (induction xs)
    case (Cons x xs)
    have tail: "takeWhile (\<lambda>x. f x = k) xs = filter (\<lambda>x. f x = k) xs \<and> takeWhile (\<lambda>x. \<not> k < f x) xs = filter (\<lambda>x. f x = k) xs"
      if "\<not> f x < k"
    proof -
      have "\<forall>y \<in> set xs. \<not> f y < k" using Cons.prems that by auto
      then have "dropWhile (\<lambda>x. f x < k) xs = xs" by (cases xs) auto
      then show ?thesis using Cons by simp
    qed
    have "filter (\<lambda>x. f x = k) xs = []" if "k < f x" using Cons.prems that by (auto simp: filter_empty_conv)
    then show ?case using tail Cons by auto
  qed simp
  then show "takeWhile (\<lambda>x. f x = k) (dropWhile (\<lambda>x. f x < k) xs) = filter (\<lambda>x. f x = k) xs"
    "takeWhile (\<lambda>x. \<not> k < f x) (dropWhile (\<lambda>x. f x < k) xs) = filter (\<lambda>x. f x = k) xs" by blast+
qed

lemma lower_bound_less:
  assumes "sorted (map f xs)"
  shows "drop (lower_bound (\<lambda>x. f x < k) xs) xs = dropWhile (\<lambda>x. f x < k) xs"
proof -
  have "partitioned (\<lambda>x. f x < k) xs"
    unfolding partitioned_def using sorted_nth_mono [OF assms] by fastforce
  then show ?thesis by (simp add: lower_bound_eq_takeWhile dropWhile_eq_drop)
qed

lemma find_navaids_exact:
  "find_navaids (detail_finalize a) idt =
     map snd (filter (\<lambda>e. id_ident (fst e) = idt) (da_navaids (detail_finalize a)))"
proof -
  have "sorted (map (\<lambda>e. id_ident (fst e)) (sort_by navaid_before (da_navaids a)))"
    by (rule successively_sorted [OF sort_by_settled]) (use navaid_before_asym not_before_ident(1) in blast)+
  then show ?thesis
    by (simp add: find_navaids_def detail_finalize_def Let_def lower_bound_less equal_run)
qed

lemma find_holds_exact:
  "find_holds (detail_finalize a) idt = filter (\<lambda>h. hi_fix_ident h = idt) (da_holds (detail_finalize a))"
proof -
  let ?hs = "sort_by hold_before (da_holds a)" and ?f = hi_fix_ident
  have s: "sorted (map ?f ?hs)"
    by (rule successively_sorted [OF sort_by_settled]) (use hold_before_asym not_before_ident(2) in blast)+
  let ?rest = "dropWhile (\<lambda>h. ?f h < idt) ?hs"
  have "sorted (map ?f ?rest)" using s by (simp add: sorted_map_dropWhile)
  then have "partitioned (\<lambda>h. \<not> idt < ?f h) ?rest"
    unfolding partitioned_def using sorted_nth_mono by fastforce
  then have "take (lower_bound (\<lambda>h. \<not> idt < ?f h) ?rest) ?rest = takeWhile (\<lambda>h. \<not> idt < ?f h) ?rest"
    by (simp add: lower_bound_eq_takeWhile takeWhile_eq_take [symmetric])
  then show ?thesis
    using s by (simp add: find_holds_def detail_finalize_def Let_def lower_bound_less equal_run)
qed

section \<open>A small archive\<close>

definition sample_navaid :: "u64 navaid_detail" where
  "sample_navaid =
     \<lparr>nv_ident = \<lparr>id_ident = ''SEA'', id_icao_code = ''K1''\<rparr>, nv_kind = KVor, nv_elev_ft = 354, nv_freq_raw = 11680,
      nv_range_nm = 0x4060400000000000, nv_heading = 0x4033000000000000\<rparr>"

definition sample_hold :: "u64 hold_fix" where
  "sample_hold =
     \<lparr>hf_fix = \<lparr>id_ident = ''SEA'', id_icao_code = ''K1''\<rparr>, hf_airport_icao = ''ENRT'', hf_inbound_course = 0x4066800000000000,
      hf_leg_time_min = 0x3FF0000000000000, hf_leg_dist_nm = 0, hf_turn_dir = CHR ''R'', hf_min_alt_ft = 0,
      hf_max_alt_ft = 0, hf_speed_limit_kt = 0\<rparr>"

lemma sample_detail:
  "detail_from_data [sample_navaid] [sample_hold] =
     \<lparr>da_navaids = [navaid_entry sample_navaid], da_holds = [hold_entry sample_hold], da_loaded = True\<rparr>"
  by (simp add: detail_from_data_def detail_finalize_def nav_detail_archive_new_def sort_by_def)

section \<open>Properties\<close>

text \<open>
  C31: A database opened from a cache has exactly the detail archive that the loader's data gives, in the same
  order: decoding what was encoded from it restores both arrays, whatever later sections add to the string pool.
\<close>

theorem detail_codec_roundtrip:
  assumes "detail_encode (detail_from_data navaids holds) byte_writer_new p = (w, p')" and "pool_ok p"
    and "detail_carried (detail_from_data navaids holds)" and "length (sp_blob p' @ later) \<le> 0xFFFFFFFF"
  shows "detail_decode (bw_out w) (sp_blob p' @ later) = Inr (detail_from_data navaids holds)"
  using detail_decode_encoded [OF assms] by (simp add: detail_from_data_def finalize_idem)

lemma detail_codec_roundtrip_witness:
  "let a = detail_from_data [sample_navaid] [sample_hold]; (w, p) = detail_encode a byte_writer_new string_pool_new
   in length (da_navaids a) = 1 \<and> length (da_holds a) = 1 \<and> detail_decode (bw_out w) (sp_blob p) = Inr a"
proof -
  let ?a = "detail_from_data [sample_navaid] [sample_hold]"
  obtain w p where w: "detail_encode ?a byte_writer_new string_pool_new = (w, p)"
    by (cases "detail_encode ?a byte_writer_new string_pool_new")
  have c: "detail_carried ?a"
    unfolding sample_detail
    by (simp add: detail_carried_def navaid_carried_def hold_carried_def navaid_entry_def hold_entry_def
        sample_navaid_def sample_hold_def f64_isnan_def f64_magnitude_def turn_right_def)
  have "length (sp_blob p @ []) \<le> 0xFFFFFFFF"
    using w unfolding sample_detail
    by (auto simp: detail_encode_def encode_navaid_def encode_hold_def detail_ref_def pool_add_def
        navaid_entry_def hold_entry_def sample_navaid_def sample_hold_def string_pool_new_def Let_def)
  from detail_codec_roundtrip [OF w pool_ok_new c this] show ?thesis using w by (simp add: sample_detail)
qed

text \<open>
  Looking up an identifier returns exactly the records of the loader's data that carry it: none is lost between
  the bounds of the binary searches and no other is returned.
\<close>

theorem detail_lookup_exact:
  "mset (find_navaids (detail_from_data navaids holds) idt) =
     mset (map (\<lambda>d. snd (navaid_entry d)) (filter (\<lambda>d. id_ident (nv_ident d) = idt) navaids)) \<and>
   mset (find_holds (detail_from_data navaids holds) idt) =
     mset (map hold_entry (filter (\<lambda>h. id_ident (hf_fix h) = idt) holds))"
proof -
  let ?a = "detail_from_data navaids holds"
  have arrays: "mset (da_navaids ?a) = mset (map navaid_entry navaids)" "mset (da_holds ?a) = mset (map hold_entry holds)"
    by (simp_all add: detail_from_data_def detail_finalize_def nav_detail_archive_new_def)
  have "mset (find_navaids ?a idt) = image_mset snd (filter_mset (\<lambda>e. id_ident (fst e) = idt) (mset (da_navaids ?a)))"
    unfolding detail_from_data_def find_navaids_exact by (simp add: mset_filter)
  moreover have "mset (find_holds ?a idt) = filter_mset (\<lambda>h. hi_fix_ident h = idt) (mset (da_holds ?a))"
    unfolding detail_from_data_def find_holds_exact by (simp add: mset_filter)
  ultimately show ?thesis
    unfolding arrays mset_filter [symmetric] mset_map [symmetric]
    by (simp add: filter_map comp_def navaid_entry_def hold_entry_def)
qed

end
