(* ===== verification/UnifiedCacheCorrect.thy ===== *)
theory UnifiedCacheCorrect
  imports UnifiedCache CifpArchiveCorrect NavDetailCorrect
begin

text \<open>
  Correctness of the cache container: a file that \<open>Build\<close> writes opens to the header, graph, details and
  procedures it was built from. The cursor reads back what the writer put, piece by piece, and the section
  codecs do the rest.
\<close>

section \<open>The cursor on a served file\<close>

text \<open>A handle on a file with these contents, and a cursor that has read \<open>pre\<close> and has \<open>post\<close> ahead.\<close>

definition holds :: "pread_file \<Rightarrow> bytes \<Rightarrow> bool" where
  "holds file img \<longleftrightarrow> serves file 0 img \<and> pf_size file = Some (of_nat (length img)) \<and> length img < 2 ^ 64"

definition cursor_at :: "pread_file \<Rightarrow> bytes \<Rightarrow> bytes \<Rightarrow> file_cursor" where
  "cursor_at file pre post =
     \<lparr>fc_file = file, fc_size = of_nat (length (pre @ post)), fc_pos = of_nat (length pre), fc_ok = True\<rparr>"

lemma unat_of_nat_64: "n < 2 ^ 64 \<Longrightarrow> unat (of_nat n :: u64) = n"
  by (simp add: unat_of_nat)

lemma holds_file: "length img < 2 ^ 64 \<Longrightarrow> holds (file_of_bytes img) img"
  using serves_file [of "[]" img "[]"] by (simp add: holds_def file_of_bytes_def)

lemma holds_region:
  assumes "holds file (pre @ bs @ post)"
  shows "read_region file (of_nat (length pre)) (length bs) = Some bs"
  using serves_region [of "file" 0 "pre @ bs @ post" "length pre" "length bs"] assms by (simp add: holds_def)

lemma cursor_remaining_at:
  assumes "length (pre @ post) < 2 ^ 64"
  shows "cursor_remaining (cursor_at file pre post) = of_nat (length post)"
  by (simp add: cursor_remaining_def cursor_at_def)

lemma cursor_read_at:
  assumes "holds file (pre @ bs @ post)"
  shows "cursor_read (length bs) (cursor_at file pre (bs @ post)) = (Some bs, cursor_at file (pre @ bs) post)"
proof -
  have l: "length (pre @ bs @ post) < 2 ^ 64" using assms by (simp add: holds_def)
  then have "unat (cursor_remaining (cursor_at file pre (bs @ post))) = length (bs @ post)"
    using cursor_remaining_at [of pre "bs @ post" "file"] unat_of_nat_64 [of "length (bs @ post)"] by simp
  then show ?thesis
    using holds_region [OF assms] by (simp add: cursor_read_def cursor_at_def)
qed

lemma read_u8_at:
  assumes "holds file (pre @ enc_u8 v @ post)"
  shows "read_u8 (cursor_at file pre (enc_u8 v @ post)) = (Some v, cursor_at file (pre @ enc_u8 v) post)"
  using cursor_read_at [OF assms] by (simp add: read_u8_def enc_u8_def)

lemma read_u32_at:
  assumes "holds file (pre @ enc_u32 v @ post)"
  shows "read_u32 (cursor_at file pre (enc_u32 v @ post)) = (Some v, cursor_at file (pre @ enc_u32 v) post)"
proof -
  have "i32_at (enc_u32 v) 0 = v" using i32_at_enc [of 0 "[v]" "[]"] by simp
  then show ?thesis using cursor_read_at [OF assms] by (simp add: read_u32_def i32_at_def enc_widths numeral_2_eq_2)
qed

lemma read_u64_at:
  assumes "holds file (pre @ enc_u64 v @ post)"
  shows "read_u64 (cursor_at file pre (enc_u64 v @ post)) = (Some v, cursor_at file (pre @ enc_u64 v) post)"
proof -
  have "foldl (\<lambda>acc i. acc OR push_bit (8 * i) (ucast (enc_u64 v ! i))) 0 [0..<8] = v"
    using join_u64 [of v] by (simp add: enc_u64_def upt_rec)
  then show ?thesis using cursor_read_at [OF assms] by (simp add: read_u64_def enc_widths)
qed

lemma read_str_at:
  assumes h: "holds file (pre @ enc_str s @ post)" and len: "length s \<le> 0xFFFFFFFF"
  shows "read_str (cursor_at file pre (enc_str s @ post)) = (Some s, cursor_at file (pre @ enc_str s) post)"
proof -
  let ?n = "enc_u32 (of_nat (length s))" and ?b = "bytes_of_string s"
  have l: "length ((pre @ ?n) @ ?b @ post) < 2 ^ 64" using h by (simp add: holds_def enc_str_def)
  have un: "unat (of_nat (length s) :: u32) = length s" by (rule unat_length_u32 [OF len])
  have rem: "cursor_remaining (cursor_at file (pre @ ?n) (?b @ post)) = of_nat (length (?b @ post))"
    by (rule cursor_remaining_at [OF l])
  have "unat (ucast (of_nat (length s) :: u32) :: u64) = length s"
    using un len by (simp add: unsigned_ucast_eq take_bit_nat_eq_self)
  then have fits: "\<not> of_nat (length (?b @ post)) < (ucast (of_nat (length s) :: u32) :: u64)"
    using l unat_of_nat_64 [of "length (?b @ post)"] by (simp add: word_less_nat_alt)
  have "read_u32 (cursor_at file pre (?n @ ?b @ post)) = (Some (of_nat (length s)), cursor_at file (pre @ ?n) (?b @ post))"
    using read_u32_at [of "file" pre "of_nat (length s)" "?b @ post"] h by (simp add: enc_str_def)
  moreover have "cursor_read (length s) (cursor_at file (pre @ ?n) (?b @ post)) = (Some ?b, cursor_at file (pre @ ?n @ ?b) post)"
    using cursor_read_at [of "file" "pre @ ?n" ?b post] h by (simp add: enc_str_def)
  ultimately show ?thesis using rem fits un by (simp add: read_str_def enc_str_def)
qed

lemma read_n_at:
  assumes h: "holds file (pre @ bs @ post)" and n: "unat n = length bs"
  shows "read_n n (cursor_at file pre (bs @ post)) = (Some bs, cursor_at file (pre @ bs) post)"
proof -
  have l: "length (pre @ bs @ post) < 2 ^ 64" using h by (simp add: holds_def)
  have "\<not> cursor_remaining (cursor_at file pre (bs @ post)) < n"
    using l unat_of_nat_64 [of "length (bs @ post)"] n by (simp add: cursor_remaining_at word_less_nat_alt)
  then show ?thesis using cursor_read_at [OF h] n by (simp add: read_n_def)
qed

lemma and_then_simps [simp]: "and_then (Inr x) k = k x" "and_then (Inl e) k = Inl e"
  by (simp_all add: and_then_def)

lemma need_simps [simp]: "need why (Some x, c) = Inr (x, c)" "need why (None, c) = bad why"
  by (simp_all add: need_def)

section \<open>The header\<close>

definition enc_flag :: "bool \<Rightarrow> bytes" where "enc_flag b = enc_u8 (if b then 1 else 0)"

definition enc_header :: "unified_header \<Rightarrow> bytes \<Rightarrow> bytes" where
  "enc_header h pool =
     cache_magic @ enc_u32 format_version @ enc_u32 section_count @ enc_u32 (uh_cycle h) @ enc_str (uh_program_version h) @
     enc_str (uh_source_loader h) @ enc_str (uh_data_dir h) @ enc_flag (lc_airway_direction (uh_capabilities h)) @
     enc_flag (lc_altitude_bands (uh_capabilities h)) @ enc_flag (lc_mora_grid (uh_capabilities h)) @
     enc_flag (lc_msa_sectors (uh_capabilities h)) @ enc_u32 (of_nat (length pool)) @ enc_u32 (crc_compute pool)"

definition header_strings_fit :: "unified_header \<Rightarrow> bool" where
  "header_strings_fit h \<longleftrightarrow> length (uh_program_version h) \<le> 0xFFFFFFFF \<and> length (uh_source_loader h) \<le> 0xFFFFFFFF \<and>
     length (uh_data_dir h) \<le> 0xFFFFFFFF"

lemma bw_ok_w_str: "bw_ok (w_str s w) \<longleftrightarrow> bw_ok w \<and> length s \<le> 0xFFFFFFFF"
  by (auto simp: w_str_def w_bytes_def put_encs)

lemma bw_ok_puts:
  "bw_ok (w_u32 v w) \<longleftrightarrow> bw_ok w" "bw_ok (w_u8 b w) \<longleftrightarrow> bw_ok w" "bw_ok (w_bytes bs w) \<longleftrightarrow> bw_ok w"
  "bw_ok (w_flag f w) \<longleftrightarrow> bw_ok w" "bw_ok byte_writer_new"
  by (simp_all add: put_encs w_bytes_def w_flag_def byte_writer_new_def)

lemma encode_header_enc:
  assumes "bw_ok (encode_header h pool)"
  shows "header_strings_fit h \<and> bw_out (encode_header h pool) = enc_header h pool"
proof -
  have "header_strings_fit h"
    using assms by (simp add: encode_header_def bw_ok_puts bw_ok_w_str header_strings_fit_def Let_def)
  then show ?thesis
    by (simp add: header_strings_fit_def encode_header_def enc_header_def w_str_enc w_bytes_def w_flag_def enc_flag_def
        put_encs byte_writer_new_def Let_def)
qed

lemma length_cache_magic: "length cache_magic = 4"
  by (simp add: cache_magic_def)

lemma open_prefix_at:
  assumes h: "holds file (enc_header h pool @ post)" and fit: "header_strings_fit h" and pool: "length pool \<le> length post"
    "length pool \<le> 0xFFFFFFFF"
  shows "open_prefix (cursor_at file [] (enc_header h pool @ post)) =
    Inr ((h, of_nat (length pool), crc_compute pool), cursor_at file (enc_header h pool) post)"
proof -
  have l: "length (enc_header h pool @ post) < 2 ^ 64" using h by (simp add: holds_def)
  have s: "length (uh_program_version h) \<le> 0xFFFFFFFF" "length (uh_source_loader h) \<le> 0xFFFFFFFF"
    "length (uh_data_dir h) \<le> 0xFFFFFFFF" using fit by (simp_all add: header_strings_fit_def)
  have rem: "cursor_remaining (cursor_at file (enc_header h pool) post) = of_nat (length post)"
    by (rule cursor_remaining_at [OF l])
  have "unat (ucast (of_nat (length pool) :: u32) :: u64) = length pool"
    using unat_length_u32 [OF pool(2)] pool(2) by (simp add: unsigned_ucast_eq take_bit_nat_eq_self)
  then have fits: "\<not> (of_nat (length post) :: u64) < ucast (of_nat (length pool) :: u32)"
    using l pool(1) unat_of_nat_64 [of "length post"] by (simp add: word_less_nat_alt)
  note h' = h [unfolded enc_header_def enc_flag_def append_assoc]
  have m: "cursor_read 4 (cursor_at file [] (cache_magic @ q)) = (Some cache_magic, cursor_at file cache_magic q)"
    if "holds file (cache_magic @ q)" for q
    using cursor_read_at [of "file" "[]" cache_magic q] that by (simp add: length_cache_magic)
  have hd: "h = \<lparr>uh_cycle = uh_cycle h, uh_program_version = uh_program_version h, uh_source_loader = uh_source_loader h,
      uh_data_dir = uh_data_dir h, uh_capabilities = \<lparr>lc_airway_direction = lc_airway_direction (uh_capabilities h),
        lc_altitude_bands = lc_altitude_bands (uh_capabilities h), lc_mora_grid = lc_mora_grid (uh_capabilities h),
        lc_msa_sectors = lc_msa_sectors (uh_capabilities h)\<rparr>\<rparr>" by simp
  show ?thesis
    using rem fits s h'
    by (simp add: open_prefix_def enc_header_def enc_flag_def m read_u32_at read_str_at read_u8_at)
qed


section \<open>The section table and the bodies\<close>

definition enc_section_row :: "section_row \<Rightarrow> bytes" where
  "enc_section_row row = enc_u32 (sr_type row) @ enc_u32 (sr_crc row) @ enc_u64 (sr_off row) @ enc_u64 (sr_len row)"

lemma w_rows_enc: "foldl (\<lambda>w row. w_row row w) w rows = w\<lparr>bw_out := bw_out w @ concat (map enc_section_row rows)\<rparr>"
  by (induction rows arbitrary: w) (simp_all add: w_row_def enc_section_row_def put_encs)

definition row_in_file :: "u64 \<Rightarrow> section_row \<Rightarrow> bool" where
  "row_in_file sz row \<longleftrightarrow> row_absent row \<or> sr_off row \<le> sz \<and> sr_len row \<le> sz - sr_off row"

lemma read_row_at:
  assumes h: "holds file (pre @ enc_section_row row @ post)" and row: "row_in_file sz row"
  shows "read_row sz (cursor_at file pre (enc_section_row row @ post)) = Inr (row, cursor_at file (pre @ enc_section_row row) post)"
proof -
  have ok: "\<not> ((sr_off row \<noteq> 0 \<or> sr_len row \<noteq> 0) \<and> (sz < sr_off row \<or> sz - sr_off row < sr_len row))"
    using row by (auto simp: row_in_file_def row_absent_def)
  show ?thesis
    using h [unfolded enc_section_row_def append_assoc] ok
    by (simp add: read_row_def enc_section_row_def read_u32_at read_u64_at del: not_less not_le) fastforce
qed

lemma read_rows_at:
  assumes "holds file (pre @ concat (map enc_section_row rows) @ post)" and "\<forall>row \<in> set rows. row_in_file sz row"
  shows "read_rows (length rows) sz (cursor_at file pre (concat (map enc_section_row rows) @ post)) =
    Inr (rows, cursor_at file (pre @ concat (map enc_section_row rows)) post)"
  using assms
proof (induction rows arbitrary: pre)
  case (Cons row rows)
  then have "holds file (pre @ enc_section_row row @ (concat (map enc_section_row rows) @ post))" "row_in_file sz row" by simp_all
  from read_row_at [OF this] show ?case using Cons by simp
qed simp

lemma check_header_crc_at:
  assumes h: "holds file (pre @ enc_u32 (crc_compute pre) @ post)"
  shows "check_header_crc (cursor_at file pre (enc_u32 (crc_compute pre) @ post)) =
    Inr (cursor_at file (pre @ enc_u32 (crc_compute pre)) post)"
proof -
  have l: "unat (of_nat (length pre) :: u64) = length pre" using h by (intro unat_of_nat_64) (simp add: holds_def)
  have "read_region file 0 (length pre) = Some pre"
    using holds_region [of "file" "[]" pre "enc_u32 (crc_compute pre) @ post"] h by simp
  then show ?thesis
    using read_u32_at [OF h] l by (simp add: check_header_crc_def cursor_at_def)
qed

lemma read_pool_at:
  assumes h: "holds file (pre @ pool @ post)" and n: "length pool \<le> 0xFFFFFFFF"
  shows "read_pool (of_nat (length pool)) (crc_compute pool) (cursor_at file pre (pool @ post)) = Inr pool"
proof -
  have "unat (ucast (of_nat (length pool) :: u32) :: u64) = length pool"
    using unat_length_u32 [OF n] n by (simp add: unsigned_ucast_eq take_bit_nat_eq_self)
  from read_n_at [OF h this] show ?thesis by (simp add: read_pool_def)
qed

lemma read_body_at:
  assumes "holds file (pre @ body @ post)" and "sr_off row = of_nat (length pre)" and "sr_len row = of_nat (length body)"
    and "sr_crc row = crc_compute body"
  shows "read_body file name row = Inr body"
proof -
  have "unat (of_nat (length body) :: u64) = length body" using assms(1) by (intro unat_of_nat_64) (simp add: holds_def)
  then show ?thesis using holds_region [OF assms(1)] assms(2-4) by (simp add: read_body_def)
qed

lemma serves_part:
  assumes "holds file (pre @ s @ post)"
  shows "serves file (of_nat (length pre)) s"
  unfolding serves_def
proof (intro conjI allI impI)
  have sv: "serves file 0 (pre @ s @ post)" using assms by (simp add: holds_def)
  then show "pf_is_open file" by (simp add: serves_def)
  fix i n assume n: "i + n \<le> length s"
  have "pf_read file (0 + of_nat (length pre + i)) n = Some (take n (drop (length pre + i) (pre @ s @ post)))"
    by (rule serves_read [OF sv]) (use n in simp)
  then show "pf_read file (of_nat (length pre) + of_nat i) n = Some (take n (drop i s))"
    using n by simp
qed

lemma row_in_file_at:
  assumes "length (pre @ body @ post) < 2 ^ 64" and "sr_off row = of_nat (length pre)" and "sr_len row = of_nat (length body)"
  shows "row_in_file (of_nat (length (pre @ body @ post))) row"
proof -
  have l: "length pre < 2 ^ 64" "length body < 2 ^ 64" using assms(1) by simp_all
  have off: "sr_off row \<le> of_nat (length (pre @ body @ post))"
    using unat_of_nat_64 [OF assms(1)] unat_of_nat_64 [OF l(1)] by (simp add: assms(2) word_le_nat_alt)
  have "of_nat (length (pre @ body @ post)) - sr_off row = of_nat (length (body @ post))"
    by (simp add: assms(2))
  moreover have "unat (of_nat (length (body @ post)) :: u64) = length (body @ post)"
    using assms(1) by (intro unat_of_nat_64) simp
  ultimately show ?thesis
    using off unat_of_nat_64 [OF l(2)] by (simp add: row_in_file_def assms(3) word_le_nat_alt)
qed

section \<open>What Build encodes\<close>

lemma graph_encode_pool:
  assumes "graph_encode s w p = Inr (w', p')" and "pool_ok p" and "length (sp_blob p') \<le> 0xFFFFFFFF"
  shows "pool_ok p'" "pool_grows p p'"
  by (rule graph_encode_spec [OF assms], assumption)+

lemma cifp_encode_pool:
  assumes "cifp_encode procedures w p = Inr (n, w', p')" and "pool_ok p" and "length (sp_blob p') \<le> 0xFFFFFFFF"
    and "\<forall>d \<in> set (map snd procedures). cifp_carried d"
  shows "pool_ok p'" "pool_grows p p'"
proof -
  obtain bodies p1 where 1: "serialize_segments (map snd procedures) p = (bodies, p1)"
    by (cases "serialize_segments (map snd procedures) p")
  obtain refs p2 where 2: "intern_all (map fst procedures) p1 = (refs, p2)" by (cases "intern_all (map fst procedures) p1")
  have out: "p2 = p'"
    using assms(1) 1 2 by (auto simp: cifp_encode_def Let_def split: option.splits)
  note g2 = intern_all_grows [OF 2, unfolded out]
  show "pool_ok p'"
    using intern_all_spec [OF 2 [unfolded out] _ pool_grows_refl assms(3)]
      serialize_segments_spec [OF 1 assms(2) g2 assms(3,4)] by blast
  show "pool_grows p p'" using serialize_segments_grows [OF 1] g2 pool_grows_trans by blast
qed

lemma detail_encode_grows:
  assumes "detail_encode d w p = (w', p')"
  shows "pool_grows p p'"
proof -
  let ?w0 = "w_u32 (of_nat (length (da_holds d))) (w_u32 (of_nat (length (da_navaids d))) w)"
  obtain w1 p1 where 1: "foldl encode_navaid (?w0, p) (da_navaids d) = (w1, p1)"
    by (cases "foldl encode_navaid (?w0, p) (da_navaids d)")
  have 2: "foldl encode_hold (w1, p1) (da_holds d) = (w', p')" using assms 1 by (simp add: detail_encode_def)
  show ?thesis using navaid_format.put_all_grows [OF 1] hold_format.put_all_grows [OF 2] by (rule pool_grows_trans)
qed

definition input_carried :: "build_input \<Rightarrow> bool" where
  "input_carried input \<longleftrightarrow>
     (\<forall>g. bi_graph input = Some g \<longrightarrow> cacheable g) \<and>
     (\<forall>procs. bi_cifp input = Some procs \<longrightarrow> (\<forall>d \<in> set (map snd procs). cifp_carried d)) \<and>
     (\<forall>d. bi_detail input = Some d \<longrightarrow> detail_finalize d = d \<and> detail_carried d)"


lemma pool_grows_blob: "pool_grows p q \<Longrightarrow> \<exists>later. sp_blob q = sp_blob p @ later"
  by (simp add: pool_grows_def)

lemma encode_sections_spec:
  assumes enc: "encode_sections input g = Inr (graph, cifp, detail, pool)" and c: "input_carried input" "bi_graph input = Some g"
    and len: "length (sp_blob pool) \<le> 0xFFFFFFFF"
  shows "graph_decode graph (sp_blob pool) = Inr g"
    and "case bi_cifp input of
        None \<Rightarrow> cifp = None
      | Some procs \<Rightarrow> (\<exists>n body. cifp = Some (n, body) \<and> (length body \<le> 0xFFFFFFFF \<longrightarrow> (\<forall>file so. serves file so body \<longrightarrow>
          (\<exists>a. open_section file so (of_nat (length body)) (crc_compute (take (directory_prefix_len n) body)) (sp_blob pool) = Inr a \<and>
            (\<forall>icao. cifp_fetch a icao = Inr (map_of procs icao))))))"
    and "case bi_detail input of
        None \<Rightarrow> detail = None
      | Some d \<Rightarrow> (\<exists>body. detail = Some body \<and> detail_decode body (sp_blob pool) = Inr d)"
proof -
  obtain gw p1 where g: "graph_encode g byte_writer_new string_pool_new = Inr (gw, p1)" "graph = bw_out gw"
    using enc by (auto simp: encode_sections_def Let_def split: sum.splits option.splits prod.splits)
  obtain p2 where cs: "case bi_cifp input of
        None \<Rightarrow> cifp = None \<and> p2 = p1
      | Some procs \<Rightarrow> (\<exists>n cw. cifp_encode procs byte_writer_new p1 = Inr (n, cw, p2) \<and> cifp = Some (n, bw_out cw))"
    and ds: "case bi_detail input of
        None \<Rightarrow> detail = None \<and> pool = p2
      | Some d \<Rightarrow> (\<exists>dw. detail_encode d byte_writer_new p2 = (dw, pool) \<and> detail = Some (bw_out dw))"
    using enc g by (auto simp: encode_sections_def Let_def split: sum.splits option.splits prod.splits)
  have gd: "pool_grows p2 pool"
    using ds by (auto split: option.splits dest: detail_encode_grows)
  have l2: "length (sp_blob p2) \<le> 0xFFFFFFFF" using pool_grows_length [OF gd] len by linarith
  have gc: "pool_grows p1 p2"
    using cs by (auto simp: cifp_encode_def Let_def split: option.splits prod.splits
        dest!: serialize_segments_grows intern_all_grows intro: pool_grows_trans)
  have l1: "length (sp_blob p1) \<le> 0xFFFFFFFF" using pool_grows_length [OF gc] l2 by linarith
  have ok1: "pool_ok p1" by (rule graph_encode_pool [OF g(1) pool_ok_new l1])
  have ok2: "pool_ok p2"
    using cs ok1 l2 c(1) cifp_encode_pool(1) by (auto simp: input_carried_def split: option.splits)
  obtain later1 where later1: "sp_blob pool = sp_blob p1 @ later1" using pool_grows_blob [OF pool_grows_trans [OF gc gd]] by blast
  obtain later2 where later2: "sp_blob pool = sp_blob p2 @ later2" using pool_grows_blob [OF gd] by blast
  have "cacheable g" using c by (simp add: input_carried_def)
  from graph_decode_encoded [OF g(1) pool_ok_new l1 this, of later1] show "graph_decode graph (sp_blob pool) = Inr g"
    by (simp add: g(2) later1)
  show "case bi_detail input of
        None \<Rightarrow> detail = None
      | Some d \<Rightarrow> (\<exists>body. detail = Some body \<and> detail_decode body (sp_blob pool) = Inr d)"
  proof (cases "bi_detail input")
    case (Some d)
    then obtain dw where dw: "detail_encode d byte_writer_new p2 = (dw, pool)" "detail = Some (bw_out dw)" using ds by auto
    have "detail_finalize d = d" "detail_carried d" using c(1) Some by (simp_all add: input_carried_def)
    then show ?thesis using detail_decode_encoded [OF dw(1) ok2, of "[]"] len dw(2) Some by simp
  qed (use ds in simp)
  show "case bi_cifp input of
        None \<Rightarrow> cifp = None
      | Some procs \<Rightarrow> (\<exists>n body. cifp = Some (n, body) \<and> (length body \<le> 0xFFFFFFFF \<longrightarrow> (\<forall>file so. serves file so body \<longrightarrow>
          (\<exists>a. open_section file so (of_nat (length body)) (crc_compute (take (directory_prefix_len n) body)) (sp_blob pool) = Inr a \<and>
            (\<forall>icao. cifp_fetch a icao = Inr (map_of procs icao))))))"
  proof (cases "bi_cifp input")
    case (Some procs)
    then obtain n cw where cw: "cifp_encode procs byte_writer_new p1 = Inr (n, cw, p2)" "cifp = Some (n, bw_out cw)" using cs by auto
    have cc: "\<forall>d \<in> set (map snd procs). cifp_carried d" using c(1) Some by (simp add: input_carried_def)
    have "\<exists>a. open_section fl so (of_nat (length (bw_out cw))) (crc_compute (take (directory_prefix_len n) (bw_out cw))) (sp_blob pool) = Inr a \<and>
        (\<forall>icao. cifp_fetch a icao = Inr (map_of procs icao))"
      if "length (bw_out cw) \<le> 0xFFFFFFFF" "serves fl so (bw_out cw)" for fl so
      using cifp_opened_fetch [OF cw(1) ok1 cc that(1) len [unfolded later2] that(2)] unfolding later2 by blast
    then show ?thesis using cw(2) Some by auto
  qed (use cs in simp)
qed


section \<open>The image\<close>

abbreviation cifp_bytes :: "(u32 \<times> bytes) option \<Rightarrow> bytes" where
  "cifp_bytes cifp \<equiv> (case cifp of None \<Rightarrow> [] | Some (_, body) \<Rightarrow> body)"

abbreviation detail_bytes :: "bytes option \<Rightarrow> bytes" where
  "detail_bytes detail \<equiv> (case detail of None \<Rightarrow> [] | Some body \<Rightarrow> body)"

lemma length_section_table: "length (concat (map enc_section_row rows)) = length rows * section_row_size"
  by (induction rows) (simp_all add: enc_section_row_def enc_widths section_row_size_def)

lemma length_section_rows: "length (section_rows start graph cifp detail) = 3"
  by (simp add: section_rows_def Let_def)

definition image_prefix :: "unified_header \<Rightarrow> bytes \<Rightarrow> section_row list \<Rightarrow> bytes" where
  "image_prefix h pool rows = enc_header h pool @ concat (map enc_section_row rows)"

lemma cache_image_spec:
  assumes "cache_image input = Inr img"
  obtains g graph cifp detail pool rows pre where "bi_graph input = Some g"
    "encode_sections input g = Inr (graph, cifp, detail, pool)" "length (sp_blob pool) \<le> 0xFFFFFFFF"
    "header_strings_fit (bi_header input)" "pre = image_prefix (bi_header input) (sp_blob pool) rows"
    "rows = section_rows (of_nat (length pre + 4 + length (sp_blob pool))) graph cifp detail"
    "img = pre @ enc_u32 (crc_compute pre) @ sp_blob pool @ graph @ cifp_bytes cifp @ detail_bytes detail"
proof -
  obtain g where g: "bi_graph input = Some g" using assms by (auto simp: cache_image_def split: option.splits)
  obtain graph cifp detail pool where e: "encode_sections input g = Inr (graph, cifp, detail, pool)"
    using assms g by (auto simp: cache_image_def split: sum.splits)
  let ?P = "sp_blob pool" and ?h = "bi_header input"
  have p: "length ?P \<le> 0xFFFFFFFF" and ok: "bw_ok (encode_header ?h ?P)"
    using assms g e by (auto simp: cache_image_def Let_def not_less split: if_splits)
  note header = encode_header_enc [OF ok]
  define start where "start = of_nat (length (enc_header ?h ?P)) + ucast section_count * of_nat section_row_size +
      of_nat header_crc_size + (of_nat (length ?P) :: u64)"
  define rows where "rows = section_rows start graph cifp detail"
  define pre where "pre = image_prefix ?h ?P rows"
  have len: "length pre = length (enc_header ?h ?P) + 3 * section_row_size"
    by (simp add: pre_def image_prefix_def length_section_table rows_def length_section_rows)
  have start: "start = of_nat (length pre + 4 + length ?P)"
    by (simp add: start_def len section_count_def header_crc_size_def)
  have img: "img = pre @ enc_u32 (crc_compute pre) @ ?P @ graph @ cifp_bytes cifp @ detail_bytes detail"
    using assms g e p ok header
    by (simp add: cache_image_def Let_def start_def [symmetric] rows_def [symmetric] w_rows_enc put_encs byte_writer_new_def
        crc_update_append crc_compute_def pre_def image_prefix_def)
  have rows: "rows = section_rows (of_nat (length pre + 4 + length ?P)) graph cifp detail"
    by (simp only: rows_def start)
  show ?thesis by (rule that [OF g e p conjunct1 [OF header] pre_def rows img])
qed

lemma present_simps [simp]: "present None = None" "row_absent row \<Longrightarrow> present (Some row) = None"
  "\<not> row_absent row \<Longrightarrow> present (Some row) = Some row"
  by (simp_all add: present_def)

lemma and_then_Inr: "m = Inr x \<Longrightarrow> and_then m k = k x"
  by simp

text \<open>The three rows as the reader finds them.\<close>

lemma section_rows_cases:
  assumes "rows = section_rows (of_nat (length front)) graph cifp detail" and "front \<noteq> []"
    and "length (front @ graph @ cifp_bytes cifp @ detail_bytes detail) < 2 ^ 64"
  obtains rg rc rd where "rows = [rg, rc, rd]" "sr_type rg = section_graph" "sr_type rc = section_cifp" "sr_type rd = section_detail"
    "sr_off rg = of_nat (length front)" "sr_len rg = of_nat (length graph)" "sr_crc rg = crc_compute graph" "\<not> row_absent rg"
    "case cifp of None \<Rightarrow> row_absent rc
     | Some (n, body) \<Rightarrow> sr_off rc = of_nat (length (front @ graph)) \<and> sr_len rc = of_nat (length body) \<and>
         sr_crc rc = crc_compute (take (directory_prefix_len n) body) \<and> \<not> row_absent rc"
    "case detail of None \<Rightarrow> row_absent rd
     | Some body \<Rightarrow> sr_off rd = of_nat (length (front @ graph @ cifp_bytes cifp)) \<and> sr_len rd = of_nat (length body) \<and>
         sr_crc rd = crc_compute body \<and> \<not> row_absent rd"
proof -
  have nz: "(of_nat n :: u64) \<noteq> 0" if "0 < n" "n < 2 ^ 64" for n
  proof
    assume "(of_nat n :: u64) = 0"
    then have "unat (of_nat n :: u64) = 0" by (simp only: unsigned_0)
    then show False using that unat_of_nat_64 [of n] by simp
  qed
  have pos: "0 < length front" using assms(2) by simp
  have n1: "(of_nat (length front) :: u64) \<noteq> 0" by (rule nz) (use pos assms(3) in simp_all)
  have n2: "(of_nat (length (front @ graph)) :: u64) \<noteq> 0" by (rule nz) (use pos assms(3) in simp_all)
  have n3: "(of_nat (length (front @ graph @ cifp_bytes cifp)) :: u64) \<noteq> 0" by (rule nz) (use pos assms(3) in simp_all)
  show ?thesis
    by (rule that [of "rows ! 0" "rows ! 1" "rows ! 2"])
      (use assms(1) n1 n2 n3 in \<open>auto simp: section_rows_def Let_def row_absent_def add.assoc split: option.splits prod.splits\<close>)
qed


lemma open_front:
  assumes h: "holds file (pre @ enc_u32 (crc_compute pre) @ pool @ post)" and pre: "pre = image_prefix hdr pool rows"
    and fit: "header_strings_fit hdr" and pool: "length pool \<le> 0xFFFFFFFF" and n: "length rows = 3"
    and rows: "\<forall>row \<in> set rows. row_in_file (of_nat (length (pre @ enc_u32 (crc_compute pre) @ pool @ post))) row"
  shows "open_cache path file =
    and_then (map_rows rows \<lparr>ss_graph = None, ss_cifp = None, ss_detail = None\<rparr>) (open_sections file hdr pool)"
proof -
  let ?H = "enc_header hdr pool" and ?T = "concat (map enc_section_row rows)"
  let ?C = "enc_u32 (crc_compute pre)" and ?rest = "pool @ post"
  let ?img = "pre @ ?C @ ?rest"
  have img: "?img = ?H @ ?T @ ?C @ ?rest" by (simp add: pre image_prefix_def)
  have l: "length ?img < 2 ^ 64" and sz: "pf_size file = Some (of_nat (length ?img))" and op: "pf_is_open file"
    using h by (simp_all add: holds_def serves_def)
  have big: "4 \<le> length ?img" by (simp add: enc_widths)
  have four: "\<not> of_nat (length ?img) < (4 :: u64)"
    unfolding word_less_nat_alt unat_of_nat_64 [OF l] using big by simp
  have c0: "file_cursor_new file (of_nat (length ?img)) = cursor_at file [] (?H @ ?T @ ?C @ ?rest)"
    by (simp add: file_cursor_new_def cursor_at_def img)
  have p: "open_prefix (cursor_at file [] (?H @ ?T @ ?C @ ?rest)) =
      Inr ((hdr, of_nat (length pool), crc_compute pool), cursor_at file ?H (?T @ ?C @ ?rest))"
    using open_prefix_at [of "file" hdr pool "?T @ ?C @ ?rest"] h fit pool by (simp add: pre image_prefix_def)
  have r: "read_rows 3 (of_nat (length ?img)) (cursor_at file ?H (?T @ ?C @ ?rest)) =
      Inr (rows, cursor_at file pre (?C @ ?rest))"
    using read_rows_at [of "file" ?H rows "?C @ ?rest" "of_nat (length ?img)"] h rows n by (simp add: pre image_prefix_def)
  have q: "check_header_crc (cursor_at file pre (?C @ ?rest)) = Inr (cursor_at file (pre @ ?C) ?rest)"
    using check_header_crc_at [of "file" pre ?rest] h by simp
  have o: "read_pool (of_nat (length pool)) (crc_compute pool) (cursor_at file (pre @ ?C) ?rest) = Inr pool"
    using read_pool_at [of "file" "pre @ ?C" pool post] h pool by simp
  have three: "unat section_count = 3" by (simp add: section_count_def)
  show ?thesis
    unfolding open_cache_def if_P [OF op] sz option.case if_not_P [OF four] c0 p and_then_simps prod.case three r q o ..
qed

lemma open_cache_image:
  assumes img: "cache_image input = Inr img" and c: "input_carried input" and h: "holds file img" and small: "length img \<le> 0xFFFFFFFF"
  obtains d where "open_cache path file = Inr d" "ud_header d = bi_header input" "bi_graph input = Some (ud_graph d)"
    "ud_detail d = bi_detail input"
    "case bi_cifp input of
       None \<Rightarrow> ud_cifp d = None
     | Some procs \<Rightarrow> (\<exists>a. ud_cifp d = Some a \<and> (\<forall>icao. cifp_fetch a icao = Inr (map_of procs icao)))"
proof (rule cache_image_spec [OF img])
  fix g graph cifp detail pool rows pre
  assume g: "bi_graph input = Some g" and e: "encode_sections input g = Inr (graph, cifp, detail, pool)"
    and pl: "length (sp_blob pool) \<le> 0xFFFFFFFF" and fit: "header_strings_fit (bi_header input)"
    and pre: "pre = image_prefix (bi_header input) (sp_blob pool) rows"
    and rows: "rows = section_rows (of_nat (length pre + 4 + length (sp_blob pool))) graph cifp detail"
    and im: "img = pre @ enc_u32 (crc_compute pre) @ sp_blob pool @ graph @ cifp_bytes cifp @ detail_bytes detail"
  let ?front = "pre @ enc_u32 (crc_compute pre) @ sp_blob pool" and ?P = "sp_blob pool" and ?h = "bi_header input"
  let ?cb = "cifp_bytes cifp" and ?db = "detail_bytes detail"
  have rows': "rows = section_rows (of_nat (length ?front)) graph cifp detail" using rows by (simp add: enc_widths add.assoc)
  have l: "length (?front @ graph @ ?cb @ ?db) < 2 ^ 64" using h by (simp add: holds_def im)
  have ne: "?front \<noteq> []" using fmt_u32.enc_width [of "crc_compute pre"] by auto
  obtain rg rc rd where r: "rows = [rg, rc, rd]" "sr_type rg = section_graph" "sr_type rc = section_cifp" "sr_type rd = section_detail"
    and rg: "sr_off rg = of_nat (length ?front)" "sr_len rg = of_nat (length graph)" "sr_crc rg = crc_compute graph" "\<not> row_absent rg"
    and rc: "case cifp of None \<Rightarrow> row_absent rc
     | Some (n, body) \<Rightarrow> sr_off rc = of_nat (length (?front @ graph)) \<and> sr_len rc = of_nat (length body) \<and>
         sr_crc rc = crc_compute (take (directory_prefix_len n) body) \<and> \<not> row_absent rc"
    and rd: "case detail of None \<Rightarrow> row_absent rd
     | Some body \<Rightarrow> sr_off rd = of_nat (length (?front @ graph @ ?cb)) \<and> sr_len rd = of_nat (length body) \<and>
         sr_crc rd = crc_compute body \<and> \<not> row_absent rd"
    by (rule section_rows_cases [OF rows' ne l])
  have hg: "holds file (?front @ graph @ (?cb @ ?db))" and hc: "holds file ((?front @ graph) @ ?cb @ ?db)"
    and hd: "holds file ((?front @ graph @ ?cb) @ ?db @ [])" using h by (simp_all add: im)
  have inf: "row_in_file (of_nat (length (pre @ enc_u32 (crc_compute pre) @ ?P @ graph @ ?cb @ ?db))) row" if "row \<in> set rows" for row
  proof -
    have "row_in_file (of_nat (length (?front @ graph @ (?cb @ ?db)))) rg" using l rg by (intro row_in_file_at) simp_all
    moreover have "row_in_file (of_nat (length ((?front @ graph) @ ?cb @ ?db))) rc"
    proof (cases cifp)
      case (Some nb)
      then show ?thesis using l rc by (intro row_in_file_at) (auto split: prod.splits)
    qed (use rc in \<open>simp add: row_in_file_def\<close>)
    moreover have "row_in_file (of_nat (length ((?front @ graph @ ?cb) @ ?db @ []))) rd"
    proof (cases detail)
      case (Some body)
      then show ?thesis using l rd by (intro row_in_file_at) auto
    qed (use rd in \<open>simp add: row_in_file_def\<close>)
    ultimately show ?thesis using that r(1) by auto
  qed
  have front: "open_cache path file =
      and_then (map_rows rows \<lparr>ss_graph = None, ss_cifp = None, ss_detail = None\<rparr>) (open_sections file ?h ?P)"
  proof (rule open_front [where post = "graph @ ?cb @ ?db", OF _ pre fit pl])
    show "holds file (pre @ enc_u32 (crc_compute pre) @ ?P @ graph @ ?cb @ ?db)" using h im by simp
    show "length rows = 3" by (simp add: r(1))
  qed (use inf in blast)
  have slots: "map_rows rows \<lparr>ss_graph = None, ss_cifp = None, ss_detail = None\<rparr> =
      Inr \<lparr>ss_graph = Some rg, ss_cifp = Some rc, ss_detail = Some rd\<rparr>"
    by (simp add: r claim_slot_def section_graph_def section_cifp_def section_detail_def)
  note sec = encode_sections_spec [OF e c g pl]
  have graph_ok: "and_then (read_body file ''graph'' rg) (\<lambda>body. and_then (graph_decode body ?P) k) = k g" for k :: "cached_graph \<Rightarrow> unified_data result"
    using read_body_at [OF hg rg(1-3)] sec(1) by simp
  have detail_ok: "(case present (Some rd) of
        None \<Rightarrow> Inr None
      | Some row \<Rightarrow> and_then (read_body file ''detail'' row) (\<lambda>body. and_then (detail_decode body ?P) (\<lambda>d. Inr (Some d)))) =
      Inr (bi_detail input)"
  proof (cases detail)
    case None
    then show ?thesis using rd sec(3) by (simp split: option.splits)
  next
    case (Some body)
    then have "read_body file ''detail'' rd = Inr body" using rd hd by (intro read_body_at [of "file" "?front @ graph @ ?cb" body "[]"]) auto
    then show ?thesis using rd sec(3) Some by (auto split: option.splits)
  qed
  obtain ca where ca: "(case present (Some rc) of
        None \<Rightarrow> Inr None
      | Some row \<Rightarrow> and_then (open_section file (sr_off row) (sr_len row) (sr_crc row) ?P) (\<lambda>a. Inr (Some a))) = Inr ca"
    "case bi_cifp input of
       None \<Rightarrow> ca = None
     | Some procs \<Rightarrow> (\<exists>a. ca = Some a \<and> (\<forall>icao. cifp_fetch a icao = Inr (map_of procs icao)))"
  proof (cases "bi_cifp input")
    case None
    then show ?thesis using that rc sec(2) by auto
  next
    case (Some procs)
    then obtain n body where b: "cifp = Some (n, body)" and o: "length body \<le> 0xFFFFFFFF \<longrightarrow> (\<forall>file so. serves file so body \<longrightarrow>
          (\<exists>a. open_section file so (of_nat (length body)) (crc_compute (take (directory_prefix_len n) body)) ?P = Inr a \<and>
            (\<forall>icao. cifp_fetch a icao = Inr (map_of procs icao))))" using sec(2) by auto
    have small': "length body \<le> 0xFFFFFFFF" using small by (simp add: im b)
    have sv: "serves file (of_nat (length (?front @ graph))) body" using serves_part [of "file" "?front @ graph" body ?db] hc by (simp add: b)
    have row: "sr_off rc = of_nat (length (?front @ graph))" "sr_len rc = of_nat (length body)"
      "sr_crc rc = crc_compute (take (directory_prefix_len n) body)" "\<not> row_absent rc"
      using rc unfolding b option.case prod.case by blast+
    obtain a where a: "open_section file (sr_off rc) (sr_len rc) (sr_crc rc) ?P = Inr a"
      "\<forall>icao. cifp_fetch a icao = Inr (map_of procs icao)"
      unfolding row(1-3) using o small' sv by blast
    have "and_then (open_section file (sr_off rc) (sr_len rc) (sr_crc rc) ?P) (\<lambda>a. Inr (Some a)) = Inr (Some a)"
      by (simp only: a(1) and_then_simps)
    with a(2) show ?thesis using that [of "Some a"] row(4) Some by simp
  qed
  have "open_cache path file = Inr \<lparr>ud_header = ?h, ud_graph = g, ud_cifp = ca, ud_detail = bi_detail input\<rparr>"
    unfolding front slots and_then_simps open_sections_def section_slots.select_convs present_simps(3) [OF rg(4)] option.case
      graph_ok detail_ok ca(1) ..
  then show ?thesis by (rule that) (use g ca(2) in \<open>simp_all only: unified_data.select_convs\<close>)
qed


section \<open>The header alone\<close>

lemma r_bytes_at:
  assumes "length dst = length bs"
  shows "r_bytes dst (reader_at pre (bs @ post)) = (bs, reader_at (pre @ bs) post)"
  using assms by (simp add: r_bytes_def reader_at_def)

definition provenance_length :: "unified_header \<Rightarrow> nat" where
  "provenance_length h = length (uh_program_version h) + length (uh_source_loader h) + length (uh_data_dir h)"

lemma length_enc_header: "length (enc_header h pool) = 40 + provenance_length h"
  by (simp add: enc_header_def enc_flag_def enc_widths length_cache_magic enc_str_def provenance_length_def)

lemma read_header_front:
  assumes h: "holds file (pre @ enc_u32 (crc_compute pre) @ post)" and pre: "pre = image_prefix hdr pool rows"
    and fit: "header_strings_fit hdr" and n: "length rows = 3" and prov: "provenance_length hdr \<le> 8076"
  shows "read_header path file = Inr hdr"
proof -
  let ?T = "concat (map enc_section_row rows)" and ?C = "enc_u32 (crc_compute pre)"
  let ?img = "pre @ ?C @ post"
  have l: "length ?img < 2 ^ 64" and sz: "pf_size file = Some (of_nat (length ?img))" and op: "pf_is_open file"
    and sv: "serves file 0 ?img" using h by (simp_all add: holds_def serves_def)
  have lp: "length pre = 40 + provenance_length hdr + 72"
    by (simp add: pre image_prefix_def length_enc_header length_section_table n section_row_size_def)
  define m where "m = unat (min (of_nat (length ?img)) max_header_prefix)"
  have m: "m = min (length ?img) 8192"
    using unat_of_nat_64 [OF l] by (simp add: m_def max_header_prefix_def min_def word_le_nat_alt)
  obtain rest where buf: "take m ?img = pre @ ?C @ rest"
  proof -
    have "length (pre @ ?C) \<le> m" using prov lp by (simp add: m enc_widths)
    then have "take m ((pre @ ?C) @ post) = (pre @ ?C) @ take (m - length (pre @ ?C)) post"
      by (subst take_append) (simp only: take_all)
    then show ?thesis using that by (simp only: append_assoc)
  qed
  have region: "read_region file 0 m = Some (pre @ ?C @ rest)"
    using serves_region [OF sv, of 0 m] m buf by simp
  have s: "length (uh_program_version hdr) \<le> 0xFFFFFFFF" "length (uh_source_loader hdr) \<le> 0xFFFFFFFF"
    "length (uh_data_dir hdr) \<le> 0xFFFFFFFF" using fit by (simp_all add: header_strings_fit_def)
  define body where "body = drop 4 pre"
  have body: "pre = cache_magic @ body"
    by (simp add: body_def pre image_prefix_def enc_header_def length_cache_magic)
  have tab: "r_bytes (replicate (unat section_count * section_row_size) 0) (reader_at q (?T @ z)) = (?T, reader_at (q @ ?T) z)" for q z
    by (rule r_bytes_at) (simp add: length_section_table n section_count_def)
  have bodyT: "body = enc_u32 format_version @ enc_u32 section_count @ enc_u32 (uh_cycle hdr) @ enc_str (uh_program_version hdr) @
     enc_str (uh_source_loader hdr) @ enc_str (uh_data_dir hdr) @ enc_flag (lc_airway_direction (uh_capabilities hdr)) @
     enc_flag (lc_altitude_bands (uh_capabilities hdr)) @ enc_flag (lc_mora_grid (uh_capabilities hdr)) @
     enc_flag (lc_msa_sectors (uh_capabilities hdr)) @ enc_u32 (of_nat (length pool)) @ enc_u32 (crc_compute pool) @ ?T"
    by (simp add: body_def pre image_prefix_def enc_header_def length_cache_magic)
  have crc_at: "take (length (pre @ ?C @ rest) - length (?C @ rest)) (pre @ ?C @ rest) = pre" by simp
  have len4: "\<not> length (pre @ ?C @ rest) < 4" using lp by simp
  have magic: "\<not> take 4 (pre @ ?C @ rest) \<noteq> cache_magic" by (simp add: body length_cache_magic)
  have dr: "drop 4 (pre @ ?C @ rest) = body @ ?C @ rest" by (simp add: body length_cache_magic)
  show ?thesis
    unfolding read_header_def if_P [OF op] sz option.case m_def [symmetric] region if_not_P [OF len4] if_not_P [OF magic] dr
      byte_reader_new_at
    unfolding bodyT enc_flag_def append_assoc get_encs r_str_enc [OF s(1)] r_str_enc [OF s(2)] r_str_enc [OF s(3)] tab
      Let_def prod.case reader_at_sel crc_at
    by simp
qed

section \<open>Properties\<close>

text \<open>
  C27: The cache file is faithful end to end: whatever \<open>Build\<close> accepts and writes, \<open>Open\<close> reads back as the same
  header, the same graph and the same details, with an archive that answers for every airport exactly the
  procedures that went in. Sections that were left out are absent, and \<open>ReadHeader\<close> reports the same header as
  long as its provenance strings fit the part of the file it reads.
\<close>

theorem cache_file_roundtrip:
  assumes "cache_image input = Inr img" and "input_carried input" and "holds file img" and "length img \<le> 0xFFFFFFFF"
  shows "\<exists>d. open_cache path file = Inr d \<and> ud_header d = bi_header input \<and> bi_graph input = Some (ud_graph d) \<and>
    ud_detail d = bi_detail input \<and>
    (case bi_cifp input of
       None \<Rightarrow> ud_cifp d = None
     | Some procs \<Rightarrow> (\<exists>a. ud_cifp d = Some a \<and> (\<forall>icao. cifp_fetch a icao = Inr (map_of procs icao)))) \<and>
    (provenance_length (bi_header input) \<le> 8076 \<longrightarrow> read_header path file = Inr (bi_header input))"
proof -
  have "read_header path file = Inr (bi_header input)" if prov: "provenance_length (bi_header input) \<le> 8076"
  proof (rule cache_image_spec [OF assms(1)])
    fix graph cifp detail pool rows pre
    assume fit: "header_strings_fit (bi_header input)" and pre: "pre = image_prefix (bi_header input) (sp_blob pool) rows"
      and rows: "rows = section_rows (of_nat (length pre + 4 + length (sp_blob pool))) graph cifp detail"
      and im: "img = pre @ enc_u32 (crc_compute pre) @ sp_blob pool @ graph @ cifp_bytes cifp @ detail_bytes detail"
    have "length rows = 3" by (metis rows length_section_rows)
    then show ?thesis using assms(3) unfolding im by (intro read_header_front [OF _ pre fit _ prov])
  qed
  moreover obtain d where "open_cache path file = Inr d" "ud_header d = bi_header input" "bi_graph input = Some (ud_graph d)"
    "ud_detail d = bi_detail input"
    "case bi_cifp input of
       None \<Rightarrow> ud_cifp d = None
     | Some procs \<Rightarrow> (\<exists>a. ud_cifp d = Some a \<and> (\<forall>icao. cifp_fetch a icao = Inr (map_of procs icao)))"
    by (rule open_cache_image [OF assms])
  ultimately show ?thesis by (intro exI [of _ d] conjI impI)
qed

text \<open>One vertex, an archive without airports and an empty detail section.\<close>

definition sample_input :: build_input where
  "sample_input =
     \<lparr>bi_graph = Some cached_sample, bi_cifp = Some [], bi_detail = Some (detail_from_data [] []),
      bi_header = \<lparr>uh_cycle = 2401, uh_program_version = ''1.0'', uh_source_loader = ''xplane12'', uh_data_dir = ''/nav'',
        uh_capabilities = \<lparr>lc_airway_direction = True, lc_altitude_bands = True, lc_mora_grid = True, lc_msa_sectors = False\<rparr>\<rparr>\<rparr>"

lemma length_cached_sample:
  assumes "graph_encode cached_sample byte_writer_new string_pool_new = Inr (w, p)" and "length (sp_blob p) \<le> 0xFFFFFFFF"
  shows "length (bw_out w) \<le> 200000"
proof (rule graph_encode_spec [OF assms(1) pool_ok_new assms(2)])
  fix xs refs ms
  assume w: "w = byte_writer_new\<lparr>bw_out := bw_out byte_writer_new @ enc_counts cached_sample @ section_body cached_sample xs refs ms\<rparr>"
    and x: "list_all2 (vertex_wire (sp_blob p) cached_sample) [0..<length (gs_coords cached_sample)] xs"
    and r: "list_all2 (\<lambda>name ref. refers (sp_blob p) ref name) (gs_airway_names cached_sample) refs"
    and m: "list_all2 (msa_wire (sp_blob p)) (gs_msa cached_sample) ms"
  have l: "length xs = 1" "length refs = 1" "ms = []"
    using list_all2_lengthD [OF x] list_all2_lengthD [OF r] list_all2_lengthD [OF m] by (simp_all add: cached_sample_def)
  obtain v ref where vr: "xs = [v]" "refs = [ref]" using l by (auto simp: length_Suc_conv)
  show ?thesis
    using l(3) unfolding w vr
    by (simp add: byte_writer_new_def enc_counts_def section_body_def enc_widths cached_sample_def enc_vertex_def enc_ref_def
        mora_grid_empty_def lat_count_def lon_count_def length_concat sum_list_replicate)
qed

lemma sample_image:
  obtains img where "cache_image sample_input = Inr img" "length img \<le> 300000"
proof (rule cached_sample_encodes_small)
  fix w p
  assume g: "graph_encode cached_sample byte_writer_new string_pool_new = Inr (w, p)" and l: "length (sp_blob p) \<le> 100"
  have lw: "length (bw_out w) \<le> 200000" by (rule length_cached_sample [OF g]) (use l in simp)
  let ?z = "enc_u32 0"
  have e: "encode_sections sample_input cached_sample = Inr (bw_out w, Some (0, ?z), Some (?z @ ?z), p)"
    by (simp add: encode_sections_def sample_input_def g [unfolded byte_writer_new_def] cifp_encode_def detail_encode_def detail_from_data_def detail_finalize_def
        nav_detail_archive_new_def sort_by_def put_encs w_bytes_def byte_writer_new_def)
  have ok: "bw_ok (encode_header (bi_header sample_input) (sp_blob p))"
    by (simp add: encode_header_def bw_ok_puts bw_ok_w_str Let_def sample_input_def)
  have len: "length (bw_out (encode_header (bi_header sample_input) (sp_blob p))) = 55"
    using encode_header_enc [OF ok] by (simp add: length_enc_header provenance_length_def sample_input_def)
  have "bi_graph sample_input = Some cached_sample" by (simp add: sample_input_def)
  then show thesis
    using that lw l ok len e
    by (simp add: cache_image_def Let_def w_rows_enc put_encs byte_writer_new_def enc_widths length_section_table length_section_rows section_row_size_def)
qed

lemma cache_file_roundtrip_witness:
  "\<exists>img d. cache_image sample_input = Inr img \<and> open_cache ''nav.bfdb'' (file_of_bytes img) = Inr d \<and>
     ud_header d = bi_header sample_input \<and> ud_graph d = cached_sample \<and> ud_detail d = Some (detail_from_data [] []) \<and>
     read_header ''nav.bfdb'' (file_of_bytes img) = Inr (bi_header sample_input)"
proof (rule sample_image)
  fix img assume img: "cache_image sample_input = Inr img" and l: "length img \<le> 300000"
  have c: "input_carried sample_input"
    by (simp add: input_carried_def sample_input_def cached_sample_cacheable detail_from_data_def finalize_idem)
      (simp add: detail_finalize_def sort_by_def detail_carried_def nav_detail_archive_new_def)
  have h: "holds (file_of_bytes img) img" by (rule holds_file) (use l in simp)
  have "length img \<le> 0xFFFFFFFF" using l by simp
  from cache_file_roundtrip [OF img c h this, of "''nav.bfdb''"] show ?thesis
    using img by (auto simp: sample_input_def provenance_length_def)
qed

end
