(* ===== verification/Spec2Isabelle.thy ===== *)
theory Spec2Isabelle
  imports NavDatabaseCorrect RouteParserCorrect UnifiedCacheCorrect
begin

text \<open>
  A verification development of the BravoFinder route engine (\<^verbatim>\<open>src/libs/engine\<close> of the repository;
  the paths below are relative to that directory).

  \<^bold>\<open>The program.\<close> A loader reads one cycle of navigation data into a \<open>NavDataset\<close>. The graph builder
  (\<^verbatim>\<open>io/build/graph_builder.cc\<close>) numbers the waypoints and airports, wires the airway connections into a
  graph in compressed sparse row form, and builds the lookup indices and a spatial grid. A cache file
  stores that builder as a section written by the graph codec (\<^verbatim>\<open>io/cache/graph_codec.cc\<close>) over the byte
  streams of \<^verbatim>\<open>io/cache/byte_io.h\<close>, with strings in a shared pool and a CRC-32C per section. A route
  query carries avoid names and airway rules, which constraint assembly
  (\<^verbatim>\<open>io/navdb/constraint_assembly.cc\<close>) resolves once into vertex sets and bit masks, so that the edge
  constraints (\<^verbatim>\<open>core/constraints\<close>) only compare words. The endpoint planner
  (\<^verbatim>\<open>io/navdb/endpoint_planner.cc\<close>) turns each airport into seeded connection fixes, which the procedure
  connector (\<^verbatim>\<open>io/build/procedure_connector.cc\<close>) derives from the airport's SIDs, STARs and approaches; the
  procedures come from a cache shared by concurrent queries. The search (\<^verbatim>\<open>core/graph/astar.cc\<close>) is a
  multi-source multi-goal A* over those edges and constraints; Yen's algorithm
  (\<^verbatim>\<open>core/graph/yen_kshortest.cc\<close>) calls it for the k best routes with one shared workspace and one memoized
  heuristic; the forced router (\<^verbatim>\<open>io/navdb/forced_router.cc\<close>) chains such searches through the points a request
  names. The assembler (\<^verbatim>\<open>io/navdb/route_assembler.cc\<close>) makes filed routes of the paths, with a filed route
  string (\<^verbatim>\<open>core/routing\<close>). \<open>NavDatabase::FindRoutes\<close> (\<^verbatim>\<open>io/navdb/nav_database.cc\<close>) composes all of this.

  \<^bold>\<open>Theories and sources.\<close>
  \<^item> \<^verbatim>\<open>Prelude\<close>: word types, the algorithms of the C++ standard library that the sources call
    (lower bound, binary search, stable sort, unique), decimal printing and bounded updates, with their
    lemmas. \<^verbatim>\<open>Csr\<close>: rows flattened into one array with offsets. \<^verbatim>\<open>Cost\<close>: doubles of the search, a
    finite real or the positive infinity. \<^verbatim>\<open>Outcome\<close>: \<^verbatim>\<open>core/result.h\<close>, every \<open>Result\<close> is a sum whose left
    side is the error.
  \<^item> \<^verbatim>\<open>FixedString\<close>, \<^verbatim>\<open>Airway\<close>, \<^verbatim>\<open>Procedure\<close>, \<^verbatim>\<open>Geometry\<close>, \<^verbatim>\<open>MoraGrid\<close>, \<^verbatim>\<open>NavGraph\<close>, \<^verbatim>\<open>NavData\<close>:
    \<^verbatim>\<open>core/domain\<close>, \<^verbatim>\<open>core/graph/nav_graph.h\<close> and \<^verbatim>\<open>io/loaders/nav_data.h\<close>. Structs are records with the source's
    fields, enumerations are datatypes.
  \<^item> \<^verbatim>\<open>RouteText\<close>, \<^verbatim>\<open>RouteRequest\<close>: \<^verbatim>\<open>core/routing\<close>, the tokenizer, designator splitting, route string
    folding and the request record.
  \<^item> \<^verbatim>\<open>Constraints\<close>: the six constraints, each a function from the edge context to a verdict; the virtual
    dispatch is a datatype of constraints with one \<open>evaluate\<close>.
  \<^item> \<^verbatim>\<open>TurnPenalty\<close>, \<^verbatim>\<open>SearchOptions\<close>, \<^verbatim>\<open>Heuristic\<close>, \<^verbatim>\<open>OpenSet\<close>, \<^verbatim>\<open>SearchWorkspace\<close>, \<^verbatim>\<open>AStar\<close>:
    \<^verbatim>\<open>core/graph/astar.h\<close> and \<^verbatim>\<open>core/graph/astar.cc\<close>. The workspace is a record of generation-stamped
    arrays, the open set the array that \<open>std::push_heap\<close> and \<open>std::pop_heap\<close> work on, the heuristic cache
    part of the state that every call returns updated.
  \<^item> \<^verbatim>\<open>Yen\<close>: \<^verbatim>\<open>core/graph/yen_kshortest.cc\<close>, the spur searches with banned edges and vertices, the candidate
    set and its Lawler deviation index.
  \<^item> \<^verbatim>\<open>NavIndex\<close>, \<^verbatim>\<open>DegreeGrid\<close>, \<^verbatim>\<open>GraphBuilder\<close>: \<^verbatim>\<open>io/build/graph_builder.cc\<close> and
    \<^verbatim>\<open>io/cache/graph_snapshot.h\<close>. \<open>Populate\<close> is a fold over the dataset with the wiring state as a record.
  \<^item> \<^verbatim>\<open>ConstraintAssembly\<close>: \<^verbatim>\<open>io/navdb/constraint_assembly.cc\<close>.
  \<^item> \<^verbatim>\<open>ProcedureConnector\<close>, \<^verbatim>\<open>EndpointPlanner\<close>: \<^verbatim>\<open>io/build/procedure_connector.cc\<close> and
    \<^verbatim>\<open>io/navdb/endpoint_planner.cc\<close>. The loops over procedures and legs are folds; a finding is a connection with
    one reference, and \<open>Accumulate\<close> folds findings into the pool.
  \<^item> \<^verbatim>\<open>BinaryHeap\<close>: the heap of \<open>std::push_heap\<close> and \<open>std::pop_heap\<close> over a key, shared by the open set and the
    two queues of \<^verbatim>\<open>ForcedRouter\<close> (\<^verbatim>\<open>io/navdb/forced_router.cc\<close>).
  \<^item> \<^verbatim>\<open>RouteAssembler\<close>: \<^verbatim>\<open>io/navdb/route_assembler.cc\<close> and \<^verbatim>\<open>core/routing/route.h\<close>.
  \<^item> \<^verbatim>\<open>NavDatabase\<close>: \<^verbatim>\<open>io/navdb/nav_database.cc\<close>. The database is a record; \<open>ProceduresFor\<close> is split at its two
    critical sections, and the archive and loader it calls are functions in the record.
  \<^item> \<^verbatim>\<open>AirwayIndex\<close>, \<^verbatim>\<open>RouteParser\<close>: the airway index of \<^verbatim>\<open>io/navdb/nav_database.cc\<close>, an association list
    being filled and then sorted, and \<open>ParseRoute\<close> of \<^verbatim>\<open>io/navdb/parse.cc\<close>: the two positions into the token list and
    the connectors found so far are a record, the enroute loop a recursion on the tokens between them.
  \<^item> \<^verbatim>\<open>ByteIO\<close>, \<^verbatim>\<open>Crc32c\<close>, \<^verbatim>\<open>GraphCodec\<close>: \<^verbatim>\<open>io/cache\<close>. A reader is a record of the bytes, the cursor and
    the sticky error flag; floats are their bit patterns, which is what the cache stores.
  \<^item> \<^verbatim>\<open>CifpCodec\<close>, \<^verbatim>\<open>NavDetailCodec\<close>: the procedure section (\<^verbatim>\<open>io/cache/cifp_codec.cc\<close>) with its directory and
    lazily read segments, and the detail section (\<^verbatim>\<open>io/cache/nav_detail_codec.cc\<close>). An archive is a record that
    holds the file handle; the handle's positional read is a function in it and may fail.
  \<^item> \<^verbatim>\<open>UnifiedCache\<close>: the container (\<^verbatim>\<open>io/cache/unified_cache.cc\<close>). \<open>Build\<close> is the bytes it writes; \<open>Open\<close> is a chain
    of reads through a cursor, each check a branch with its error.

  \<^bold>\<open>What the lemmas show.\<close>
  \<^item> \<^verbatim>\<open>AStarStep\<close>, \<^verbatim>\<open>AStarInvariant\<close>, \<^verbatim>\<open>AStarCorrect\<close>, \<^verbatim>\<open>SearchResult\<close>: the loop of the search against an
    abstract labelling; its invariant, its termination by a measure on settled costs, and the value returned.
  \<^item> \<^verbatim>\<open>WorkspaceReuse\<close>: two searches over different workspaces and caches stay in step.
  \<^item> \<^verbatim>\<open>Recost\<close>, \<^verbatim>\<open>YenCorrect\<close>: re-costing a path agrees with the search, and the invariant of the rounds of Yen's
    algorithm. \<^verbatim>\<open>RouteSearch\<close> states the results over the functions callers use.
  \<^item> \<^verbatim>\<open>GraphBuilderCorrect\<close>, \<^verbatim>\<open>GraphWiring\<close>: the indices answer like a scan of the vertices, the edges are
    exactly the resolved connections, and a search over a built graph is optimal (builder, constraint model
    and search composed). \<^verbatim>\<open>NearestNetwork\<close>: the grid search with its early stop equals the full scan.
  \<^item> \<^verbatim>\<open>ConstraintAssemblyCorrect\<close>: the masks decide what the rules say; the assembled options meet the
    preconditions of the search.
  \<^item> \<^verbatim>\<open>SeedPool\<close>, \<^verbatim>\<open>ProcedureConnectorCorrect\<close>, \<^verbatim>\<open>EndpointPlannerCorrect\<close>: a pool holds, per fix, the first
    cheapest finding and all references; gates, directions and named procedures of the plans.
    \<^verbatim>\<open>BuiltNetwork\<close> is the invariant of a built graph that these theories rely on.
  \<^item> \<^verbatim>\<open>BestFirst\<close>, \<^verbatim>\<open>PathSeams\<close>, \<^verbatim>\<open>ForcedRouterCorrect\<close>, \<^verbatim>\<open>ForcedPoint\<close>: the best-first enumeration covers every
    combination once in the order of its lower bound, the cost of joined paths, and the forced routes.
  \<^item> \<^verbatim>\<open>RouteAssemblerCorrect\<close>: the legs of a route follow its points and add up to its distances.
  \<^item> \<^verbatim>\<open>ProcedureCache\<close>: the calls of \<open>ProceduresFor\<close> as a transition system of threads, with the invariant that
    makes its cache invisible. \<^verbatim>\<open>NavDatabaseCorrect\<close>: \<open>FindRoutes\<close> end to end.
  \<^item> \<^verbatim>\<open>AirwayExpansion\<close>, \<^verbatim>\<open>RouteParserCorrect\<close>: the invariant of Dijkstra's loop over the edges of one airway,
    the grammar of filed routes as an inductive predicate, and the parser against it.
  \<^item> \<^verbatim>\<open>GraphCodecRoundtrip\<close>: decoding inverts encoding, and on arbitrary bytes the decoder is safe.
  \<^item> \<^verbatim>\<open>CifpCodecCorrect\<close>, \<^verbatim>\<open>CifpArchiveCorrect\<close>, \<^verbatim>\<open>NavDetailCorrect\<close>: the contract of a record whose strings are
    pooled (the locale \<open>pooled_format\<close>), the two sections from it, and what an opened archive may read and answer.
    \<^verbatim>\<open>UnifiedCacheCorrect\<close>: the file that \<open>Build\<close> writes opens to what it was built from.
  \<^item> The interfaces between components are locales, interpreted where the provider is modelled: the cell
    store of the MORA grid, the contract of a constraint, the priority queue of the searches, the label store, the
    merging of seeds into a pool, the sorted index and the wire format of a value (a reader that never un-fails and that reads back what the writer put).

  \<^bold>\<open>Bounds and fuel.\<close> The search loop, the airway search of the route parser and its walk back over the labels
  are \<open>partial_function\<close>s: not returning would be \<open>None\<close>, and properties prove they are never that. Rounds of Yen's algorithm recurse on \<open>k\<close>; the spur loops on
  the path. The merge of the forced router terminates by the routes still wanted plus the combinations still
  allowed (\<open>kMaxStitchedPicks\<close>). The cell walk of the MORA constraint recurses on its number of steps, which the source computes up
  front. Everything else recurses on lists. Vertex ids are 32-bit words where they are stored; that they fit is
  either the source's own check or a named hypothesis of the property.

  \<^bold>\<open>Numbers.\<close> Routing and geometry use ideal reals for doubles: rounding, NaN and signed zero are not modelled.
  The properties about optimality, distances and the search radius are about those reals. Integers keep
  their width where they can wrap (hashes, packed keys, masks, checksums, cache fields).

  \<^bold>\<open>Not modelled.\<close> Logging and environment lookups; the loaders, which read files and SQLite tables through
  third-party libraries; threads, sockets and JSON of the HTTP server and the service layer; the command line
  front ends. Writing the cache file beside the old one and renaming it, the directory listing of caches, and the lookups of \<^verbatim>\<open>io/navdb/query.cc\<close>,
  which only copy out what the modelled lookups find, are not modelled. The hash
  functions of the unordered containers are not modelled: no result depends on their iteration order.
\<close>

end
